(* ===== verification/Prelude.thy ===== *)
theory Prelude imports Main "HOL-Library.Word" begin

text \<open>
  Shared vocabulary of the development: C integer conversions at their width,
  counting the threads of a pool that sit at given program points, decimal
  printing as done by the C formatted-output family, and the zero-terminated view of a
  byte array.  Facts that drive the component proofs are collected in the named
  collections declared here.
\<close>

named_theorems cnt_simps \<open>rewriting counts of program points\<close>
named_theorems c_simps \<open>C integer conversions and C string facts\<close>
named_theorems step_defs \<open>unfolding one step of a thread system\<close>

section \<open>C integers\<close>

text \<open>Conversion to a 32-bit signed \<open>int\<close>, a 64-bit signed \<open>long\<close> and a 64-bit unsigned
  \<open>size_t\<close>, as done by an assignment or a cast on the modelled platform (x86-64, gcc).\<close>

definition s32 :: "int \<Rightarrow> int" where
  "s32 x = sint (word_of_int x :: 32 word)"

definition s64 :: "int \<Rightarrow> int" where
  "s64 x = sint (word_of_int x :: 64 word)"

definition u64 :: "int \<Rightarrow> int" where
  "u64 x = uint (word_of_int x :: 64 word)"

definition s8 :: "int \<Rightarrow> int" where
  "s8 x = sint (word_of_int x :: 8 word)"

lemma s32_id [c_simps]: "- 2147483648 \<le> x \<Longrightarrow> x < 2147483648 \<Longrightarrow> s32 x = x"
  by (simp add: s32_def signed_of_int signed_take_bit_int_eq_self)

lemma s64_id [c_simps]:
  "- 9223372036854775808 \<le> x \<Longrightarrow> x < 9223372036854775808 \<Longrightarrow> s64 x = x"
  by (simp add: s64_def signed_of_int signed_take_bit_int_eq_self)

lemma u64_id [c_simps]: "0 \<le> x \<Longrightarrow> x < 18446744073709551616 \<Longrightarrow> u64 x = x"
  by (simp add: u64_def unsigned_of_int take_bit_int_eq_self)

lemma s8_id [c_simps]: "- 128 \<le> x \<Longrightarrow> x < 128 \<Longrightarrow> s8 x = x"
  by (simp add: s8_def signed_of_int signed_take_bit_int_eq_self)

lemma u64_range: "0 \<le> u64 x \<and> u64 x < 18446744073709551616"
  using uint_range_size [of "word_of_int x :: 64 word"] by (simp add: u64_def word_size)

lemma s32_range: "- 2147483648 \<le> s32 x \<and> s32 x < 2147483648"
  using sint_range_size [of "word_of_int x :: 32 word"] by (simp add: s32_def word_size)

text \<open>The remainder operation on signed integers, which truncates towards zero.\<close>

definition c_mod :: "int \<Rightarrow> int \<Rightarrow> int" where
  "c_mod a b = sgn a * (\<bar>a\<bar> mod \<bar>b\<bar>)"

lemma c_mod_nonneg [c_simps]: "0 \<le> a \<Longrightarrow> 0 < b \<Longrightarrow> c_mod a b = a mod b"
  by (cases "a = 0") (simp_all add: c_mod_def)

section \<open>Counting threads\<close>

text \<open>\<open>cnt P xs\<close> is the number of threads of the pool \<open>xs\<close> whose program point satisfies \<open>P\<close>,
  as an integer, so that invariants relating it to semaphores and counters are linear.\<close>

definition cnt :: "('a \<Rightarrow> bool) \<Rightarrow> 'a list \<Rightarrow> int" where
  "cnt P xs = int (length (filter P xs))"

lemma cnt_upd [cnt_simps]:
  "i < length xs \<Longrightarrow> cnt P (xs[i := v]) = cnt P xs - of_bool (P (xs ! i)) + of_bool (P v)"
proof (induction xs arbitrary: i)
  case Nil
  then show ?case by simp
next
  case (Cons x xs)
  then show ?case by (cases i) (auto simp: cnt_def)
qed

lemma cnt_nonneg: "0 \<le> cnt P xs"
  by (simp add: cnt_def)

lemma cnt_Nil [simp]: "cnt P [] = 0"
  by (simp add: cnt_def)

lemma cnt_replicate [cnt_simps]: "cnt P (replicate n v) = int n * of_bool (P v)"
  by (simp add: cnt_def filter_replicate)

lemma cnt_le_length: "cnt P xs \<le> int (length xs)"
  by (simp add: cnt_def)

lemma cnt_pos: "i < length xs \<Longrightarrow> P (xs ! i) \<Longrightarrow> 1 \<le> cnt P xs"
proof -
  assume "i < length xs" "P (xs ! i)"
  then have "xs ! i \<in> set (filter P xs)" by simp
  then have "filter P xs \<noteq> []" by (metis empty_iff empty_set)
  then show "1 \<le> cnt P xs" by (cases "filter P xs") (auto simp: cnt_def)
qed

lemma cnt_two:
  assumes "i < length xs" "j < length xs" "i \<noteq> j" "P (xs ! i)" "P (xs ! j)"
  shows "2 \<le> cnt P xs"
proof -
  have "card {i, j} \<le> card {k. k < length xs \<and> P (xs ! k)}"
    by (rule card_mono) (use assms in auto)
  then show ?thesis using assms(3) by (simp add: cnt_def length_filter_conv_card)
qed

lemma cnt_zero_iff: "cnt P xs = 0 \<longleftrightarrow> (\<forall>x \<in> set xs. \<not> P x)"
  by (simp add: cnt_def filter_empty_conv)

lemma cnt_zero_nth: "cnt P xs = 0 \<Longrightarrow> i < length xs \<Longrightarrow> \<not> P (xs ! i)"
  by (simp add: cnt_zero_iff)

lemma cnt_eq_length: "cnt P xs = int (length xs) \<longleftrightarrow> (\<forall>x \<in> set xs. P x)"
  by (metis cnt_def filter_id_conv length_filter_less nat_less_le of_nat_eq_iff)

lemma cnt_posE:
  assumes "1 \<le> cnt P xs"
  obtains i where "i < length xs" "P (xs ! i)"
proof -
  have "cnt P xs \<noteq> 0" using assms by simp
  then obtain x where "x \<in> set xs" "P x" by (auto simp: cnt_zero_iff)
  then show ?thesis using that by (auto simp: in_set_conv_nth)
qed

lemma cnt_mono: "(\<And>x. P x \<Longrightarrow> Q x) \<Longrightarrow> cnt P xs \<le> cnt Q xs"
  by (induction xs) (auto simp: cnt_def)

lemma cnt_add: "(\<And>x. \<not> (P x \<and> Q x)) \<Longrightarrow> cnt P xs + cnt Q xs = cnt (\<lambda>x. P x \<or> Q x) xs"
  by (induction xs) (auto simp: cnt_def)

lemma all_upd [cnt_simps]:
  "i < length xs \<Longrightarrow> list_all P xs \<Longrightarrow> P v \<Longrightarrow> list_all P (xs[i := v])"
  by (auto simp: list_all_length nth_list_update)

lemma cnt_snoc [cnt_simps]: "cnt P (xs @ [x]) = cnt P xs + of_bool (P x)"
  by (simp add: cnt_def)

lemma cnt_length: "cnt P xs = int (length (filter P xs))"
  by (simp add: cnt_def)

lemma cnt_map: "(\<And>x. P (h x) = P x) \<Longrightarrow> cnt P (map h xs) = cnt P xs"
  by (induction xs) (auto simp: cnt_def)

lemma cnt_pointwise:
  assumes "length ys = length xs" "\<And>i. i < length xs \<Longrightarrow> P (ys ! i) = P (xs ! i)"
  shows "cnt P ys = cnt P xs"
proof -
  have "{i. i < length ys \<and> P (ys ! i)} = {i. i < length xs \<and> P (xs ! i)}" using assms by auto
  then show ?thesis by (simp add: cnt_def length_filter_conv_card)
qed

text \<open>At most \<open>n\<close> threads satisfy a predicate that only threads with a number below \<open>n\<close> can satisfy.\<close>

lemma cnt_below: "(\<And>i. i < length xs \<Longrightarrow> P (xs ! i) \<Longrightarrow> i < n) \<Longrightarrow> cnt P xs \<le> int n"
proof -
  assume "\<And>i. i < length xs \<Longrightarrow> P (xs ! i) \<Longrightarrow> i < n"
  then have "{i. i < length xs \<and> P (xs ! i)} \<subseteq> {..<n}" by auto
  from card_mono [OF _ this] show ?thesis by (simp add: cnt_def length_filter_conv_card)
qed

lemma cnt_at_least: "n \<le> length xs \<Longrightarrow> (\<And>i. i < n \<Longrightarrow> P (xs ! i)) \<Longrightarrow> int n \<le> cnt P xs"
proof -
  assume "n \<le> length xs" "\<And>i. i < n \<Longrightarrow> P (xs ! i)"
  then have "{..<n} \<subseteq> {i. i < length xs \<and> P (xs ! i)}" by auto
  from card_mono [OF _ this] show ?thesis by (simp add: cnt_def length_filter_conv_card)
qed

text \<open>Sums of a weight over the threads of a pool.\<close>

definition wsum :: "('a \<Rightarrow> int) \<Rightarrow> 'a list \<Rightarrow> int" where
  "wsum f xs = sum_list (map f xs)"

lemma wsum_upd [cnt_simps]: "i < length xs \<Longrightarrow> wsum f (xs[i := v]) = wsum f xs - f (xs ! i) + f v"
proof (induction xs arbitrary: i)
  case (Cons x xs)
  then show ?case by (cases i) (auto simp: wsum_def)
qed (simp add: wsum_def)

lemma wsum_map: "(\<And>x. f (h x) = f x) \<Longrightarrow> wsum f (map h xs) = wsum f xs"
  by (induction xs) (auto simp: wsum_def)

lemma wsum_replicate [cnt_simps]: "wsum f (replicate n v) = int n * f v"
  by (induction n) (simp_all add: wsum_def algebra_simps)

lemma wsum_nonneg: "(\<And>x. 0 \<le> f x) \<Longrightarrow> 0 \<le> wsum f xs"
  by (induction xs) (auto simp: wsum_def add_nonneg_nonneg)

lemma wsum_ge: "(\<And>x. 0 \<le> f x) \<Longrightarrow> i < length xs \<Longrightarrow> f (xs ! i) \<le> wsum f xs"
proof (induction xs arbitrary: i)
  case (Cons x xs)
  then show ?case using wsum_nonneg [of f xs] by (cases i) (auto simp: wsum_def add_increasing)
qed simp

lemma wsum_zero: "(\<And>x. x \<in> set xs \<Longrightarrow> f x = 0) \<Longrightarrow> wsum f xs = 0"
  by (induction xs) (auto simp: wsum_def)

lemma wsum_diff: "wsum (\<lambda>x. f x - g x) xs = wsum f xs - wsum g xs"
  by (induction xs) (simp_all add: wsum_def)

lemma wsum_cnt: "wsum (\<lambda>x. of_bool (P x)) xs = cnt P xs"
  by (induction xs) (simp_all add: wsum_def cnt_def)

text \<open>The simplifier does not split a goal on the truth value inside \<open>of_bool\<close> unless told to.\<close>

declare split_of_bool [split del]
declare split_of_bool_asm [split del]

section \<open>Decimal printing\<close>

text \<open>The conversions \<open>%lu\<close>, \<open>%zu\<close>, \<open>%d\<close>, \<open>%ld\<close> of the formatted-output functions.\<close>

definition digit_char :: "nat \<Rightarrow> char" where
  "digit_char d = char_of (48 + d)"

fun show_nat :: "nat \<Rightarrow> string" where
  "show_nat n = (if n < 10 then [digit_char n] else show_nat (n div 10) @ [digit_char (n mod 10)])"

declare show_nat.simps [simp del]

definition show_int :: "int \<Rightarrow> string" where
  "show_int i = (if i < 0 then CHR ''-'' # show_nat (nat (- i)) else show_nat (nat i))"

definition digit_val :: "char \<Rightarrow> nat" where
  "digit_val c = of_char c - 48"

definition isdigit :: "char \<Rightarrow> bool" where
  "isdigit c \<longleftrightarrow> 48 \<le> (of_char c :: nat) \<and> (of_char c :: nat) \<le> 57"

definition read_nat :: "string \<Rightarrow> nat" where
  "read_nat s = foldl (\<lambda>a c. 10 * a + digit_val c) 0 s"

lemma of_char_digit: "d < 10 \<Longrightarrow> (of_char (digit_char d) :: nat) = 48 + d"
  by (simp add: digit_char_def)

lemma digit_val_char [c_simps]: "d < 10 \<Longrightarrow> digit_val (digit_char d) = d"
  by (simp add: digit_val_def of_char_digit)

lemma isdigit_char [c_simps]: "d < 10 \<Longrightarrow> isdigit (digit_char d)"
  by (simp add: isdigit_def of_char_digit)

lemma show_nat_digits: "list_all isdigit (show_nat n)"
proof (induction n rule: show_nat.induct)
  case (1 n)
  then show ?case by (cases "n < 10") (simp_all add: show_nat.simps [of n] isdigit_char)
qed

lemma show_nat_not_Nil [simp]: "show_nat n \<noteq> []"
  by (subst show_nat.simps) simp

lemma read_show_nat: "read_nat (show_nat n) = n"
proof (induction n rule: show_nat.induct)
  case (1 n)
  then show ?case
    by (cases "n < 10") (simp_all add: show_nat.simps [of n] read_nat_def digit_val_char)
qed

lemma show_nat_length: "n < 10 ^ k \<Longrightarrow> 0 < k \<Longrightarrow> length (show_nat n) \<le> k"
proof (induction n arbitrary: k rule: show_nat.induct)
  case (1 n)
  show ?case
  proof (cases "n < 10")
    case True
    with "1.prems" show ?thesis by (simp add: show_nat.simps [of n])
  next
    case False
    with "1.prems" obtain m where k: "k = Suc m" "0 < m"
      by (cases k; cases "k - 1") auto
    with "1.prems" have "n div 10 < 10 ^ m" by (simp add: less_mult_imp_div_less mult.commute)
    with "1.IH" [OF False, of m] k False show ?thesis by (simp add: show_nat.simps [of n])
  qed
qed

section \<open>Zero-terminated strings\<close>

definition NUL :: char where
  "NUL = CHR 0x00"

text \<open>\<open>cstr a\<close> is the string a byte array holds: the bytes before the first zero.  Its length is
  \<open>strlen\<close>; a byte array without a zero byte is not a C string and the callers check for it.\<close>

definition cstr :: "string \<Rightarrow> string" where
  "cstr a = takeWhile (\<lambda>c. c \<noteq> NUL) a"

definition is_cstr :: "string \<Rightarrow> bool" where
  "is_cstr a \<longleftrightarrow> NUL \<in> set a"

definition zeros :: "nat \<Rightarrow> string" where
  "zeros n = replicate n NUL"

lemma length_zeros [simp]: "length (zeros n) = n"
  by (simp add: zeros_def)

lemma cstr_no_nul: "NUL \<notin> set (cstr a)"
  by (auto simp: cstr_def dest: set_takeWhileD)

lemma cstr_append_nul [c_simps]: "NUL \<notin> set s \<Longrightarrow> cstr (s @ NUL # r) = s"
proof -
  assume "NUL \<notin> set s"
  then have "\<And>c. c \<in> set s \<Longrightarrow> c \<noteq> NUL" by auto
  then show ?thesis by (simp add: cstr_def takeWhile_append2)
qed

lemma cstr_nul_rest: "cstr (s @ NUL # r) = cstr (s @ [NUL])"
  by (induction s) (simp_all add: cstr_def)

lemma cstr_zeros [c_simps]: "NUL \<notin> set s \<Longrightarrow> 0 < n \<Longrightarrow> cstr (s @ zeros n) = s"
  by (cases n) (simp_all add: zeros_def cstr_append_nul)

lemma cstr_length_less: "is_cstr a \<Longrightarrow> length (cstr a) < length a"
proof (induction a)
  case Nil
  then show ?case by (simp add: is_cstr_def)
next
  case (Cons c a)
  then show ?case by (cases "c = NUL") (auto simp: is_cstr_def cstr_def)
qed

lemma digit_not_NUL: "isdigit c \<Longrightarrow> c \<noteq> NUL"
  by (auto simp: isdigit_def NUL_def)

lemma show_nat_no_nul: "NUL \<notin> set (show_nat n)"
  using show_nat_digits [of n] digit_not_NUL by (auto simp: list_all_iff)

text \<open>Overwriting \<open>length src\<close> bytes of a buffer from index \<open>i\<close> (\<open>memcpy\<close> into an array); the
  callers check that the write is in range.\<close>

definition blit :: "string \<Rightarrow> nat \<Rightarrow> string \<Rightarrow> string" where
  "blit a i src = take i a @ src @ drop (i + length src) a"

lemma length_blit [simp]: "i + length src \<le> length a \<Longrightarrow> length (blit a i src) = length a"
  by (simp add: blit_def)

lemma blit_Nil [simp]: "blit a i [] = a"
  by (simp add: blit_def)

lemma nth_blit:
  "i + length src \<le> length a \<Longrightarrow> k < length a \<Longrightarrow>
   blit a i src ! k = (if i \<le> k \<and> k < i + length src then src ! (k - i) else a ! k)"
  by (auto simp: blit_def nth_append)

end
