(* ===== verification/Threads.thy ===== *)
theory Threads imports Prelude begin

text \<open>
  The shape all programs of \<open>cw01\<close> share: a \<open>main\<close> that initialises the globals, creates a fixed
  number of POSIX threads in order (\<open>pthread_create\<close>) and joins them in order
  (\<open>pthread_join\<close>), while the created threads run interleaved, one C statement on shared data at
  a time.  A program is a value of the record \<open>prog\<close>; its runs are the step relation \<open>pstep\<close>.
  The locale \<open>prog_inv\<close> is the interface between a program's local statements and the
  facts about all its reachable states; \<open>prog_bounded\<close> adds a rank that makes every run finite.

  Semaphores are integers with the POSIX meaning (a wait blocks at zero).  A wait on a
  condition variable releases the mutex and blocks; a broadcast maps every blocked program
  point to the one that takes the mutex again, and \<open>p_spur\<close> gives the spurious wake-ups POSIX
  allows.  \<open>create_ok\<close> is the outcome of \<open>pthread_create\<close> for each thread: on failure the
  code prints a message and goes on.
\<close>

section \<open>Programs and their runs\<close>

datatype mop = Create nat | Join nat

record ('g, 'p) prog =
  p_step :: "'g \<Rightarrow> 'p \<Rightarrow> ('g \<times> 'p \<times> ('p \<Rightarrow> 'p)) option"
  p_spur :: "'p \<Rightarrow> 'p option"
  p_final :: "'p \<Rightarrow> bool"
  p_start :: "nat \<Rightarrow> 'p"
  p_glob0 :: 'g
  p_threads :: nat
  p_main :: "mop list"

record ('g, 'p) psys =
  glob :: 'g
  thr :: "'p option list"
  todo :: "mop list"

definition pinit :: "('g, 'p) prog \<Rightarrow> ('g, 'p) psys" where
  "pinit P = \<lparr>glob = p_glob0 P, thr = replicate (p_threads P) None, todo = p_main P\<rparr>"

definition pfork :: "nat \<Rightarrow> nat list \<Rightarrow> mop list" where
  "pfork n js = map Create [0..<n] @ map Join js"

inductive pstep :: "('g, 'p) prog \<Rightarrow> (nat \<Rightarrow> bool) \<Rightarrow> ('g, 'p) psys \<Rightarrow> ('g, 'p) psys \<Rightarrow> bool"
  for P :: "('g, 'p) prog" and create_ok :: "nat \<Rightarrow> bool" where
  thread: "i < length (thr s) \<Longrightarrow> thr s ! i = Some p \<Longrightarrow> p_step P (glob s) p = Some (g', p', w) \<Longrightarrow>
     pstep P create_ok s (s\<lparr>glob := g', thr := (map (map_option w) (thr s))[i := Some p']\<rparr>)"
| spurious: "i < length (thr s) \<Longrightarrow> thr s ! i = Some p \<Longrightarrow> p_spur P p = Some p' \<Longrightarrow>
     pstep P create_ok s (s\<lparr>thr := (thr s)[i := Some p']\<rparr>)"
| create: "todo s = Create i # r \<Longrightarrow> create_ok i \<Longrightarrow>
     pstep P create_ok s (s\<lparr>thr := (thr s)[i := Some (p_start P i)], todo := r\<rparr>)"
| create_fail: "todo s = Create i # r \<Longrightarrow> \<not> create_ok i \<Longrightarrow>
     pstep P create_ok s (s\<lparr>todo := r\<rparr>)"
| join: "todo s = Join i # r \<Longrightarrow> i < length (thr s) \<Longrightarrow> thr s ! i = Some p \<Longrightarrow> p_final P p \<Longrightarrow>
     pstep P create_ok s (s\<lparr>todo := r\<rparr>)"

inductive preach :: "('g, 'p) prog \<Rightarrow> (nat \<Rightarrow> bool) \<Rightarrow> ('g, 'p) psys \<Rightarrow> bool"
  for P :: "('g, 'p) prog" and create_ok :: "nat \<Rightarrow> bool" where
  start: "preach P create_ok (pinit P)"
| step: "preach P create_ok s \<Longrightarrow> pstep P create_ok s t \<Longrightarrow> preach P create_ok t"

definition stuck :: "('g, 'p) prog \<Rightarrow> (nat \<Rightarrow> bool) \<Rightarrow> ('g, 'p) psys \<Rightarrow> bool" where
  "stuck P create_ok s \<longleftrightarrow> (\<forall>t. \<not> pstep P create_ok s t)"

text \<open>Runs by an explicit schedule, to exhibit reachable states by evaluation: an entry \<open>Some i\<close>
  lets thread \<open>i\<close> take its next statement, \<open>None\<close> lets \<open>main\<close> do so (all creations succeed).\<close>

fun psched1 :: "('g, 'p) prog \<Rightarrow> ('g, 'p) psys \<Rightarrow> nat option \<Rightarrow> ('g, 'p) psys option" where
  "psched1 P s (Some i) =
     (if i < length (thr s) then
        (case thr s ! i of None \<Rightarrow> None
         | Some p \<Rightarrow> (case p_step P (glob s) p of None \<Rightarrow> None
             | Some (g', p', w) \<Rightarrow>
                 Some (s\<lparr>glob := g', thr := (map (map_option w) (thr s))[i := Some p']\<rparr>)))
      else None)"
| "psched1 P s None =
     (case todo s of [] \<Rightarrow> None
      | Create i # r \<Rightarrow> Some (s\<lparr>thr := (thr s)[i := Some (p_start P i)], todo := r\<rparr>)
      | Join i # r \<Rightarrow>
          (if i < length (thr s) then
             (case thr s ! i of None \<Rightarrow> None
              | Some p \<Rightarrow> if p_final P p then Some (s\<lparr>todo := r\<rparr>) else None)
           else None))"

fun psched :: "('g, 'p) prog \<Rightarrow> ('g, 'p) psys \<Rightarrow> nat option list \<Rightarrow> ('g, 'p) psys option" where
  "psched P s [] = Some s"
| "psched P s (x # xs) = Option.bind (psched1 P s x) (\<lambda>t. psched P t xs)"

lemma psched1_step: "psched1 P s x = Some t \<Longrightarrow> pstep P (\<lambda>_. True) s t"
  by (cases x) (auto split: if_splits option.splits list.splits mop.splits intro: pstep.intros)

lemma psched_reach: "preach P (\<lambda>_. True) s \<Longrightarrow> psched P s xs = Some t \<Longrightarrow> preach P (\<lambda>_. True) t"
proof (induction xs arbitrary: s)
  case Nil
  then show ?case by simp
next
  case (Cons x xs)
  from Cons.prems obtain u where u: "psched1 P s x = Some u" "psched P u xs = Some t"
    by (auto simp: bind_eq_Some_conv)
  from Cons.prems(1) psched1_step [OF u(1)] have "preach P (\<lambda>_. True) u" by (rule preach.step)
  then show ?case using u(2) by (rule Cons.IH)
qed

lemma psched_reach_init: "psched P (pinit P) xs = Some t \<Longrightarrow> preach P (\<lambda>_. True) t"
  by (rule psched_reach [OF preach.start])

text \<open>The character that the writer with the number \<open>j\<close> writes in every program; the cast to \<open>char\<close> comes before the
  remainder.\<close>

definition book_char :: "nat \<Rightarrow> char" where
  "book_char j = char_of ((j + 65) mod 122)"

text \<open>A test, by evaluation, that a state has no next one.\<close>

definition idle :: "('g, 'p) prog \<Rightarrow> ('g, 'p) psys \<Rightarrow> bool" where
  "idle P s \<longleftrightarrow> list_all (\<lambda>t. case t of None \<Rightarrow> True | Some p \<Rightarrow> Option.is_none (p_step P (glob s) p)) (thr s) \<and>
     (case todo s of [] \<Rightarrow> True | Create i # r \<Rightarrow> False
      | Join i # r \<Rightarrow> i < length (thr s) \<longrightarrow> (case thr s ! i of None \<Rightarrow> True | Some p \<Rightarrow> \<not> p_final P p))"

lemma idle_stuck:
  assumes "idle P s" "\<And>p. p_spur P p = None"
  shows "stuck P ok s"
  unfolding stuck_def
proof (intro allI notI)
  fix t assume "pstep P ok s t"
  then show False
    by (cases rule: pstep.cases) (use assms in \<open>auto simp: idle_def list_all_length Option.is_none_def\<close>)
qed

section \<open>The main thread\<close>

fun creates :: "mop list \<Rightarrow> nat list" where
  "creates [] = []"
| "creates (Create i # r) = i # creates r"
| "creates (Join i # r) = creates r"

lemma creates_append: "creates (xs @ ys) = creates xs @ creates ys"
  by (induction xs rule: creates.induct) auto

lemma creates_Join [simp]: "creates (map Join js) = []"
  by (induction js) auto

lemma creates_Create [simp]: "creates (map Create js) = js"
  by (induction js) auto

lemma creates_pfork [simp]: "creates (pfork n js) = [0..<n]"
  by (simp add: pfork_def creates_append)

text \<open>What a program point may assume of \<open>main\<close>: a thread that is still to be created is not running.\<close>

definition main_ok :: "('g, 'p) psys \<Rightarrow> bool" where
  "main_ok s \<longleftrightarrow> distinct (creates (todo s)) \<and>
     (\<forall>i \<in> set (creates (todo s)). i < length (thr s) \<and> thr s ! i = None)"

lemma main_ok_init:
  "p_main P = pfork (p_threads P) js \<Longrightarrow> main_ok (pinit P)"
  by (simp add: main_ok_def pinit_def)

lemma main_ok_step: "pstep P ok s t \<Longrightarrow> main_ok s \<Longrightarrow> main_ok t"
proof (induction rule: pstep.induct)
  case (create s i r)
  then show ?case by (auto simp: main_ok_def nth_list_update)
qed (auto simp: main_ok_def nth_list_update split: if_splits)

section \<open>Invariants of a program\<close>

locale prog_inv =
  fixes P :: "('g, 'p) prog" and js :: "nat list" and inv :: "'g \<Rightarrow> 'p option list \<Rightarrow> bool"
  assumes main_shape: "p_main P = pfork (p_threads P) js"
    and inv_start: "inv (p_glob0 P) (replicate (p_threads P) None)"
    and inv_create: "inv g ts \<Longrightarrow> i < length ts \<Longrightarrow> length ts = p_threads P \<Longrightarrow> ts ! i = None \<Longrightarrow>
      inv g (ts[i := Some (p_start P i)])"
    and inv_thread: "inv g ts \<Longrightarrow> i < length ts \<Longrightarrow> ts ! i = Some p \<Longrightarrow>
      p_step P g p = Some (g', p', w) \<Longrightarrow> inv g' ((map (map_option w) ts)[i := Some p'])"
    and inv_spur: "inv g ts \<Longrightarrow> i < length ts \<Longrightarrow> ts ! i = Some p \<Longrightarrow> p_spur P p = Some p' \<Longrightarrow>
      inv g (ts[i := Some p'])"
begin

lemma step_length: "pstep P ok s t \<Longrightarrow> length (thr t) = length (thr s)"
  by (induction rule: pstep.induct) auto

lemma reach_main_ok: "preach P ok s \<Longrightarrow> main_ok s \<and> length (thr s) = p_threads P"
proof (induction rule: preach.induct)
  case start
  show ?case using main_ok_init [OF main_shape] by (simp add: pinit_def)
next
  case (step s t)
  then show ?case using main_ok_step step_length by metis
qed

lemma step_inv:
  assumes "pstep P ok s t" "main_ok s" "length (thr s) = p_threads P" "inv (glob s) (thr s)"
  shows "inv (glob t) (thr t)"
  using assms
proof (induction rule: pstep.induct)
  case (thread i s p g' p' w)
  then show ?case using inv_thread by simp
next
  case (spurious i s p p')
  then show ?case using inv_spur by simp
next
  case (create s i r)
  then show ?case using inv_create by (simp add: main_ok_def)
qed simp_all

lemma reach_inv: "preach P ok s \<Longrightarrow> inv (glob s) (thr s)"
proof (induction rule: preach.induct)
  case start
  show ?case using inv_start by (simp add: pinit_def)
next
  case (step s t)
  then show ?case using step_inv reach_main_ok by metis
qed

end

text \<open>With every creation successful, the threads that are not running are the ones still to create.\<close>

definition created_ok :: "('g, 'p) psys \<Rightarrow> bool" where
  "created_ok s \<longleftrightarrow> (\<forall>i < length (thr s). thr s ! i = None \<longrightarrow> i \<in> set (creates (todo s)))"

lemma created_ok_step: "pstep P (\<lambda>_. True) s t \<Longrightarrow> created_ok s \<Longrightarrow> created_ok t"
proof (induction rule: pstep.induct)
  case (thread i s p g' p' w)
  then show ?case by (auto simp: created_ok_def nth_list_update)
next
  case (create s i r)
  show ?case unfolding created_ok_def
  proof (intro allI impI)
    fix k
    assume "k < length (thr (s\<lparr>thr := (thr s)[i := Some (p_start P i)], todo := r\<rparr>))"
      and "thr (s\<lparr>thr := (thr s)[i := Some (p_start P i)], todo := r\<rparr>) ! k = None"
    then have "k \<noteq> i \<and> k < length (thr s) \<and> thr s ! k = None" by (cases "k = i") auto
    with create show "k \<in> set (creates (todo (s\<lparr>thr := (thr s)[i := Some (p_start P i)], todo := r\<rparr>)))"
      by (auto simp: created_ok_def)
  qed
qed (auto simp: created_ok_def nth_list_update)

lemma reach_created:
  assumes "p_main P = pfork (p_threads P) js"
  shows "preach P (\<lambda>_. True) s \<Longrightarrow> created_ok s"
proof (induction rule: preach.induct)
  case start
  show ?case by (simp add: created_ok_def pinit_def assms)
next
  case (step s t)
  then show ?case using created_ok_step by blast
qed

text \<open>When \<open>main\<close> is blocked, it is blocked on joining a thread that has not ended.\<close>

lemma stuck_main:
  assumes "stuck P (\<lambda>_. True) s" "todo s = m # r"
  obtains j where "m = Join j" "\<not> (j < length (thr s) \<and> (\<exists>p. thr s ! j = Some p \<and> p_final P p))"
proof (cases m)
  case (Create i)
  then have "pstep P (\<lambda>_. True) s (s\<lparr>thr := (thr s)[i := Some (p_start P i)], todo := r\<rparr>)"
    using assms(2) by (intro pstep.create) auto
  then show ?thesis using assms(1) by (auto simp: stuck_def)
next
  case (Join j)
  have "\<not> (j < length (thr s) \<and> (\<exists>p. thr s ! j = Some p \<and> p_final P p))"
  proof
    assume "j < length (thr s) \<and> (\<exists>p. thr s ! j = Some p \<and> p_final P p)"
    then have "pstep P (\<lambda>_. True) s (s\<lparr>todo := r\<rparr>)"
      using assms(2) Join by (auto intro: pstep.join)
    then show False using assms(1) by (auto simp: stuck_def)
  qed
  with Join that show ?thesis by blast
qed

lemma stuck_thread:
  "stuck P ok s \<Longrightarrow> i < length (thr s) \<Longrightarrow> thr s ! i = Some p \<Longrightarrow> p_step P (glob s) p = None"
  by (cases "p_step P (glob s) p") (auto simp: stuck_def dest: pstep.thread)

lemma main_joins:
  assumes "p_main P = pfork (p_threads P) js"
  shows "preach P ok s \<Longrightarrow>
    (\<exists>k. todo s = map Create [k..<p_threads P] @ map Join js) \<or> (\<exists>k. todo s = map Join (drop k js))"
proof (induction rule: preach.induct)
  case start
  show ?case by (auto simp: pinit_def assms pfork_def)
next
  case (step s t)
  have "todo t = todo s \<or> todo t = tl (todo s)"
    using step.hyps(2) by (cases rule: pstep.cases) auto
  with step.IH show ?case
  proof (elim disjE exE)
    fix k assume t: "todo t = tl (todo s)"
      and s: "todo s = map Create [k..<p_threads P] @ map Join js"
    show ?thesis
    proof (cases "k < p_threads P")
      case True
      then have "todo t = map Create [Suc k..<p_threads P] @ map Join js"
        using t s by (simp add: upt_conv_Cons)
      then show ?thesis by blast
    next
      case False
      then have "todo t = map Join (drop 1 js)" using t s by (simp add: drop_Suc map_tl)
      then show ?thesis by blast
    qed
  next
    fix k assume "todo t = tl (todo s)" "todo s = map Join (drop k js)"
    then have "todo t = map Join (drop (Suc k) js)" by (simp add: drop_Suc tl_drop map_tl [symmetric])
    then show ?thesis by blast
  qed auto
qed

text \<open>Consequence: if every join of the program is of a created thread, and no thread is running or
  waiting any more, then \<open>main\<close> has returned.\<close>

lemma stuck_all_final:
  assumes shape: "p_main P = pfork (p_threads P) js" and js: "set js \<subseteq> {0..<p_threads P}"
    and reach: "preach P (\<lambda>_. True) s" and stk: "stuck P (\<lambda>_. True) s"
    and len: "length (thr s) = p_threads P"
    and fin: "\<And>i p. i < length (thr s) \<Longrightarrow> thr s ! i = Some p \<Longrightarrow> p_final P p"
  shows "todo s = []"
proof (rule ccontr)
  assume "todo s \<noteq> []"
  then obtain m r where mr: "todo s = m # r" by (cases "todo s") auto
  obtain j where j: "m = Join j" and nj: "\<not> (j < length (thr s) \<and> (\<exists>p. thr s ! j = Some p \<and> p_final P p))"
    using stuck_main [OF stk mr] by blast
  from main_joins [OF shape reach] have js': "todo s = map Join (drop 0 js) \<or> (\<exists>k. todo s = map Join (drop k js))"
  proof (elim disjE exE)
    fix k assume "todo s = map Create [k..<p_threads P] @ map Join js"
    with mr j show ?thesis by (cases "k < p_threads P") (auto simp: upt_conv_Cons)
  qed auto
  then obtain k where k: "todo s = map Join (drop k js)" by blast
  then have c: "creates (todo s) = []" by simp
  have "Join j \<in> set (todo s)" using mr j by simp
  then have "j \<in> set js" unfolding k by (auto dest: in_set_dropD)
  with js len have "j < length (thr s)" by auto
  moreover have "thr s ! j \<noteq> None"
    using reach_created [OF shape reach] c calculation by (auto simp: created_ok_def)
  ultimately show False using nj fin by auto
qed

section \<open>Programs whose runs are bounded\<close>

text \<open>When every statement lowers the rank of its thread by more than the ranks of the threads it wakes go up, all runs
  are finite.\<close>

definition rank_of :: "('g, 'p) prog \<Rightarrow> ('p \<Rightarrow> nat) \<Rightarrow> ('g, 'p) psys \<Rightarrow> nat" where
  "rank_of P rank s = sum_list (map (\<lambda>t. case t of None \<Rightarrow> 0 | Some p \<Rightarrow> rank p) (thr s))
     + sum_list (map (\<lambda>m. case m of Create i \<Rightarrow> Suc (rank (p_start P i)) | Join _ \<Rightarrow> 1) (todo s))"

inductive prun :: "('g, 'p) prog \<Rightarrow> (nat \<Rightarrow> bool) \<Rightarrow> ('g, 'p) psys \<Rightarrow> nat \<Rightarrow> ('g, 'p) psys \<Rightarrow> bool"
  for P :: "('g, 'p) prog" and create_ok :: "nat \<Rightarrow> bool" where
  halt: "prun P create_ok s 0 s"
| more: "pstep P create_ok s t \<Longrightarrow> prun P create_ok t n u \<Longrightarrow> prun P create_ok s (Suc n) u"

lemma sum_list_map_upd:
  "i < length xs \<Longrightarrow> sum_list (map f (xs[i := v])) + f (xs ! i) = sum_list (map f xs) + (f v :: nat)"
proof (induction xs arbitrary: i)
  case Nil
  then show ?case by simp
next
  case (Cons x xs)
  then show ?case
  proof (cases i)
    case 0
    then show ?thesis by simp
  next
    case (Suc j)
    with Cons.IH [of j] Cons.prems show ?thesis by (simp add: add.assoc)
  qed
qed

locale prog_bounded = prog_inv P js inv for P :: "('g, 'p) prog" and js and inv +
  fixes rank :: "'p \<Rightarrow> nat"
  assumes rank_step: "p_step P g p = Some (g', p', w) \<Longrightarrow>
      \<exists>d. (\<forall>q. rank (w q) \<le> rank q + d) \<and> rank p' + p_threads P * d < rank p"
    and no_spur: "p_spur P p = None"
begin

lemma step_rank:
  assumes "pstep P ok s t" "main_ok s" "length (thr s) = p_threads P"
  shows "rank_of P rank t < rank_of P rank s"
  using assms
proof (induction rule: pstep.induct)
  case (thread i s p g' p' w)
  let ?f = "\<lambda>t. case t of None \<Rightarrow> 0 | Some p \<Rightarrow> rank p" and ?ts = "map (map_option w) (thr s)"
  from rank_step [OF thread(3)] obtain d where d: "\<And>q. rank (w q) \<le> rank q + d" "rank p' + p_threads P * d < rank p"
    by blast
  have "sum_list (map ?f ((thr s)[i := None])) + rank p = sum_list (map ?f (thr s))"
    using sum_list_map_upd [OF thread(1), of ?f None] thread(2) by simp
  moreover have "sum_list (map ?f (?ts[i := Some p'])) = sum_list (map ?f (?ts[i := None])) + rank p'"
    using sum_list_map_upd [of i ?ts ?f None] sum_list_map_upd [of i ?ts ?f "Some p'"] thread(1) by simp
  moreover have "sum_list (map ?f (map (map_option w) ts)) \<le> sum_list (map ?f ts) + length ts * d" for ts
  proof (induction ts)
    case (Cons t ts)
    have "?f (map_option w t) \<le> ?f t + d" using d(1) by (cases t) simp_all
    with Cons show ?case by simp
  qed simp
  from this [of "(thr s)[i := None]"]
  have "sum_list (map ?f (?ts[i := None])) \<le> sum_list (map ?f ((thr s)[i := None])) + p_threads P * d"
    using thread(5) by (simp add: map_update)
  ultimately have "sum_list (map ?f (?ts[i := Some p'])) < sum_list (map ?f (thr s))" using d(2) by linarith
  then show ?case by (simp add: rank_of_def del: map_map)
next
  case (spurious i s p p')
  then show ?case using no_spur by simp
next
  case (create s i r)
  let ?f = "\<lambda>t. case t of None \<Rightarrow> 0 | Some p \<Rightarrow> rank p"
  from create have i: "i < length (thr s)" "thr s ! i = None" by (auto simp: main_ok_def)
  have "sum_list (map ?f ((thr s)[i := Some (p_start P i)])) = sum_list (map ?f (thr s)) + rank (p_start P i)"
    using sum_list_map_upd [OF i(1), of ?f "Some (p_start P i)"] i(2) by simp
  with create(1) show ?case by (simp add: rank_of_def)
next
  case (create_fail s i r)
  then show ?case by (simp add: rank_of_def)
next
  case (join s i r p)
  then show ?case by (simp add: rank_of_def)
qed

lemma run_bound:
  "prun P ok s n t \<Longrightarrow> main_ok s \<Longrightarrow> length (thr s) = p_threads P \<Longrightarrow> n + rank_of P rank t \<le> rank_of P rank s"
proof (induction rule: prun.induct)
  case (halt s)
  then show ?case by simp
next
  case (more s t n u)
  then show ?case using step_rank main_ok_step step_length by fastforce
qed

lemma run_length: "prun P ok (pinit P) n t \<Longrightarrow> n \<le> rank_of P rank (pinit P)"
  using run_bound main_ok_init [OF main_shape] by (fastforce simp: pinit_def)

text \<open>Every reachable state can be run on until nothing moves any more.\<close>

lemma run_to_stuck: "preach P ok s \<Longrightarrow> \<exists>n t. prun P ok s n t \<and> stuck P ok t"
proof (induction "rank_of P rank s" arbitrary: s rule: less_induct)
  case less
  show ?case
  proof (cases "stuck P ok s")
    case True
    then show ?thesis using prun.halt by blast
  next
    case False
    then obtain t where st: "pstep P ok s t" by (auto simp: stuck_def)
    from less.prems have "main_ok s" "length (thr s) = p_threads P" using reach_main_ok by blast+
    from step_rank [OF st this] have "rank_of P rank t < rank_of P rank s" .
    moreover have "preach P ok t" using less.prems st by (rule preach.step)
    ultimately obtain n u where "prun P ok t n u" "stuck P ok u" using less.hyps by blast
    then show ?thesis using prun.more [OF st] by blast
  qed
qed

end

lemma prun_reach: "prun P ok s n t \<Longrightarrow> preach P ok s \<Longrightarrow> preach P ok t"
  by (induction rule: prun.induct) (auto intro: preach.step)

lemma prun_append: "prun P ok s m t \<Longrightarrow> prun P ok t n u \<Longrightarrow> prun P ok s (m + n) u"
  by (induction rule: prun.induct) (auto intro: prun.more)

lemma no_wake [simp]: "map (map_option (\<lambda>p. p)) ts = ts"
  by (induction ts) (simp_all add: option.map_ident)

lemma prun_thread:
  assumes "i < length (thr s)" "thr s ! i = Some p" "p_step P (glob s) p = Some (g', p', \<lambda>p. p)"
  shows "prun P ok s 1 (s\<lparr>glob := g', thr := (thr s)[i := Some p']\<rparr>)"
  using prun.more [OF pstep.thread [OF assms] prun.halt] by simp

lemma rank_of_thread:
  assumes "i < length (thr s)" "thr s ! i = Some p"
  shows "rank_of P rank (s\<lparr>glob := g', thr := (thr s)[i := Some p']\<rparr>) + rank p = rank_of P rank s + rank p'"
  using sum_list_map_upd [OF assms(1), of "\<lambda>t. case t of None \<Rightarrow> 0 | Some p \<Rightarrow> rank p" "Some p'"] assms(2)
  by (simp add: rank_of_def)

text \<open>A program that busy-waits has unbounded runs.  It can still always end if every state from which it has not can be
  run on to one of a lower rank.\<close>

lemma can_finish:
  assumes "\<And>s. preach P ok s \<Longrightarrow> \<not> done s \<Longrightarrow> \<exists>n t. prun P ok s n t \<and> rank_of P rank t < rank_of P rank s"
  shows "preach P ok s \<Longrightarrow> \<exists>n t. prun P ok s n t \<and> done t"
proof (induction "rank_of P rank s" arbitrary: s rule: less_induct)
  case less
  show ?case
  proof (cases "done s")
    case True
    then show ?thesis using prun.halt by blast
  next
    case False
    then obtain n t where t: "prun P ok s n t" "rank_of P rank t < rank_of P rank s"
      using assms less.prems by blast
    from less.hyps [OF t(2) prun_reach [OF t(1) less.prems]] show ?thesis using prun_append [OF t(1)] by blast
  qed
qed

text \<open>Once \<open>main\<close> has returned, the threads it joins have ended.\<close>

definition ended :: "('g, 'p) prog \<Rightarrow> ('g, 'p) psys \<Rightarrow> nat \<Rightarrow> bool" where
  "ended P s i \<longleftrightarrow> i < length (thr s) \<and> (\<exists>p. thr s ! i = Some p \<and> p_final P p)"

lemma ended_step:
  assumes fin: "\<And>g p. p_final P p \<Longrightarrow> p_step P g p = None \<and> p_spur P p = None"
    and wake: "\<And>g p g' p' w q. p_step P g p = Some (g', p', w) \<Longrightarrow> p_final P q \<Longrightarrow> p_final P (w q)"
    and st: "pstep P ok s t" "main_ok s" "ended P s j"
  shows "ended P t j"
  using st
proof (induction rule: pstep.induct)
  case (thread i s p g' p' w)
  then have "i \<noteq> j" using fin by (auto simp: ended_def)
  with thread show ?case using wake by (auto simp: ended_def)
next
  case (spurious i s p p')
  then show ?case using fin by (cases "i = j") (auto simp: ended_def)
next
  case (create s i r)
  then show ?case by (cases "i = j") (auto simp: ended_def main_ok_def)
qed (auto simp: ended_def)

lemma returned_ended:
  assumes shape: "p_main P = pfork (p_threads P) js"
    and fin: "\<And>g p. p_final P p \<Longrightarrow> p_step P g p = None \<and> p_spur P p = None"
    and wake: "\<And>g p g' p' w q. p_step P g p = Some (g', p', w) \<Longrightarrow> p_final P q \<Longrightarrow> p_final P (w q)"
    and reach: "preach P ok s" "todo s = []" "j \<in> set js"
  shows "ended P s j"
proof -
  have "\<forall>j \<in> set js. Join j \<in> set (todo s) \<or> ended P s j" if "preach P ok s" for s
    using that
  proof (induction rule: preach.induct)
    case start
    show ?case by (simp add: pinit_def shape pfork_def)
  next
    case (step s t)
    have m: "main_ok s"
      using step.hyps(1) by (induction rule: preach.induct) (auto intro: main_ok_init [OF shape] main_ok_step)
    have e: "ended P t j" if "ended P s j" for j
      by (rule ended_step [OF _ _ step.hyps(2) m that]) (use fin wake in blast)+
    have "Join j \<in> set (todo t) \<or> ended P t j" if j: "Join j \<in> set (todo s)" for j
      using step.hyps(2) j by (cases rule: pstep.cases) (auto simp: ended_def)
    with step.IH e show ?case by blast
  qed
  from this [OF reach(1)] reach(2,3) show ?thesis by simp
qed

text \<open>If the thread that \<open>main\<close> joins last never ends, \<open>main\<close> does not return.\<close>

lemma never_returns:
  assumes shape: "p_main P = pfork (p_threads P) js" and js: "js \<noteq> []"
    and no: "\<And>s. preach P ok s \<Longrightarrow> \<not> ended P s (last js)"
  shows "preach P ok s \<Longrightarrow> todo s \<noteq> [] \<and> last (todo s) = Join (last js)"
proof (induction rule: preach.induct)
  case start
  show ?case using js by (simp add: pinit_def shape pfork_def last_map)
next
  case (step s t)
  have "todo t = todo s \<or> (\<exists>m. todo s = m # todo t \<and> m \<noteq> Join (last js))"
    using step.hyps(2)
  proof (cases rule: pstep.cases)
    case (join i r p)
    then have "ended P s i" by (auto simp: ended_def)
    then have "i \<noteq> last js" using no [OF step.hyps(1)] by blast
    with join show ?thesis by simp
  qed auto
  with step.IH show ?case by (cases "todo t = []") auto
qed

end
