(* ===== verification/ReadersWriters.thy ===== *)
theory ReadersWriters imports Threads begin

text \<open>
  \<open>cw01/zad1/zad1.c\<close>: the readers-writers program with two semaphores.  \<open>zad1_glob\<close> holds the
  globals, \<open>zad1_wpc\<close> and \<open>zad1_rpc\<close> are the program points of \<open>writer\<close> and \<open>reader\<close>
  (a constructor stands for the statement that runs next), \<open>zad1_writer\<close> and \<open>zad1_reader\<close> run
  one statement, and \<open>zad1\<close> is the program with its \<open>main\<close>.  Shown: the representation
  invariant, mutual exclusion, the meaning of \<open>readers_count\<close>, absence of deadlock, the bound on
  the length of a run, and that \<open>main\<close> returns.
\<close>

section \<open>The program\<close>

definition zad1_READERS_NUM :: nat where "zad1_READERS_NUM = 6"
definition zad1_WRITERS_NUM :: nat where "zad1_WRITERS_NUM = 3"

record zad1_glob =
  z1_readerSem :: int
  z1_writerSem :: int
  z1_readers_count :: int

datatype zad1_wpc = WWait | WPost | WEnd

datatype zad1_rpc = RWait1 | RInc | RTest1 | RWaitW | RPost1 | RWait2 | RDec | RTest0 | RPostW | RPost2 | REnd

fun zad1_writer :: "zad1_glob \<Rightarrow> zad1_wpc \<Rightarrow> (zad1_glob \<times> zad1_wpc) option" where
  "zad1_writer g WWait =
     (if 0 < z1_writerSem g then Some (g\<lparr>z1_writerSem := z1_writerSem g - 1\<rparr>, WPost) else None)"
| "zad1_writer g WPost = Some (g\<lparr>z1_writerSem := z1_writerSem g + 1\<rparr>, WEnd)"
| "zad1_writer g WEnd = None"

fun zad1_reader :: "zad1_glob \<Rightarrow> zad1_rpc \<Rightarrow> (zad1_glob \<times> zad1_rpc) option" where
  "zad1_reader g RWait1 =
     (if 0 < z1_readerSem g then Some (g\<lparr>z1_readerSem := z1_readerSem g - 1\<rparr>, RInc) else None)"
| "zad1_reader g RInc = Some (g\<lparr>z1_readers_count := z1_readers_count g + 1\<rparr>, RTest1)"
| "zad1_reader g RTest1 = Some (g, if z1_readers_count g = 1 then RWaitW else RPost1)"
| "zad1_reader g RWaitW =
     (if 0 < z1_writerSem g then Some (g\<lparr>z1_writerSem := z1_writerSem g - 1\<rparr>, RPost1) else None)"
| "zad1_reader g RPost1 = Some (g\<lparr>z1_readerSem := z1_readerSem g + 1\<rparr>, RWait2)"
| "zad1_reader g RWait2 =
     (if 0 < z1_readerSem g then Some (g\<lparr>z1_readerSem := z1_readerSem g - 1\<rparr>, RDec) else None)"
| "zad1_reader g RDec = Some (g\<lparr>z1_readers_count := z1_readers_count g - 1\<rparr>, RTest0)"
| "zad1_reader g RTest0 = Some (g, if z1_readers_count g = 0 then RPostW else RPost2)"
| "zad1_reader g RPostW = Some (g\<lparr>z1_writerSem := z1_writerSem g + 1\<rparr>, RPost2)"
| "zad1_reader g RPost2 = Some (g\<lparr>z1_readerSem := z1_readerSem g + 1\<rparr>, REnd)"
| "zad1_reader g REnd = None"

datatype zad1_pc = Wr zad1_wpc | Rd zad1_rpc

fun zad1_step :: "zad1_glob \<Rightarrow> zad1_pc \<Rightarrow> (zad1_glob \<times> zad1_pc \<times> (zad1_pc \<Rightarrow> zad1_pc)) option" where
  "zad1_step g (Wr p) = map_option (\<lambda>(g', p'). (g', Wr p', id)) (zad1_writer g p)"
| "zad1_step g (Rd p) = map_option (\<lambda>(g', p'). (g', Rd p', id)) (zad1_reader g p)"

text \<open>\<open>main\<close>: both semaphores start at 1; writers are threads \<open>0..2\<close>, readers threads \<open>3..8\<close>,
  created in this order and joined in this order.\<close>

definition zad1_main :: "mop list" where
  "zad1_main = pfork (zad1_WRITERS_NUM + zad1_READERS_NUM) [0..<zad1_WRITERS_NUM + zad1_READERS_NUM]"

definition zad1_init :: zad1_glob where
  "zad1_init = \<lparr>z1_readerSem = 1, z1_writerSem = 1, z1_readers_count = 0\<rparr>"

definition zad1 :: "(zad1_glob, zad1_pc) prog" where
  "zad1 = \<lparr>p_step = zad1_step, p_spur = (\<lambda>_. None), p_final = (\<lambda>p. p = Wr WEnd \<or> p = Rd REnd),
     p_start = (\<lambda>i. if i < zad1_WRITERS_NUM then Wr WWait else Rd RWait1),
     p_glob0 = zad1_init, p_threads = zad1_WRITERS_NUM + zad1_READERS_NUM, p_main = zad1_main\<rparr>"

section \<open>The invariant\<close>

text \<open>
  \<open>z1_in\<close>: readers between a wait and a post on \<open>readerSem\<close>; \<open>z1_cnt\<close>: readers that are counted;
  the readers as a group own the writer semaphore exactly when some are counted, except around
  the test-and-wait and the test-and-post.
\<close>

fun z1_in :: "zad1_pc option \<Rightarrow> bool" where
  "z1_in (Some (Rd p)) = (p \<noteq> RWait1 \<and> p \<noteq> RWait2 \<and> p \<noteq> REnd)"
| "z1_in t = False"

fun z1_counted :: "zad1_pc option \<Rightarrow> bool" where
  "z1_counted (Some (Rd p)) = (p = RTest1 \<or> p = RWaitW \<or> p = RPost1 \<or> p = RWait2 \<or> p = RDec)"
| "z1_counted t = False"

text \<open>\<open>z1_own p rc\<close>: what a reader at \<open>p\<close> inside the section takes away from (or leaves over for) the
  group's claim on the writer semaphore, given the current \<open>readers_count\<close>.\<close>

definition z1_owned :: "int \<Rightarrow> int \<Rightarrow> int \<Rightarrow> int \<Rightarrow> int \<Rightarrow> int" where
  "z1_owned rc t1 ww t0 pw = (if rc = 0 then t0 + pw else if rc = 1 then 1 - t1 - ww else 1)"

definition zad1_inv :: "zad1_glob \<Rightarrow> zad1_pc option list \<Rightarrow> bool" where
  "zad1_inv g ts \<longleftrightarrow>
     0 \<le> z1_readerSem g \<and> 0 \<le> z1_writerSem g \<and>
     z1_readerSem g + cnt z1_in ts = 1 \<and>
     z1_readers_count g = cnt z1_counted ts \<and>
     z1_writerSem g + cnt ((=) (Some (Wr WPost))) ts +
       z1_owned (z1_readers_count g) (cnt ((=) (Some (Rd RTest1))) ts)
         (cnt ((=) (Some (Rd RWaitW))) ts) (cnt ((=) (Some (Rd RTest0))) ts)
         (cnt ((=) (Some (Rd RPostW))) ts) = 1 \<and>
     (cnt ((=) (Some (Rd RWaitW))) ts = 0 \<or> z1_readers_count g = 1) \<and>
     (cnt ((=) (Some (Rd RPostW))) ts = 0 \<or> z1_readers_count g = 0)"

lemma z1_in_sum:
  "cnt ((=) (Some (Rd RInc))) ts + cnt ((=) (Some (Rd RTest1))) ts + cnt ((=) (Some (Rd RWaitW))) ts +
   cnt ((=) (Some (Rd RPost1))) ts + cnt ((=) (Some (Rd RDec))) ts + cnt ((=) (Some (Rd RTest0))) ts +
   cnt ((=) (Some (Rd RPostW))) ts + cnt ((=) (Some (Rd RPost2))) ts = cnt z1_in ts"
proof (induction ts)
  case (Cons t ts)
  have "z1_in t = (\<exists>p \<in> {RInc, RTest1, RWaitW, RPost1, RDec, RTest0, RPostW, RPost2}. t = Some (Rd p))"
    by (cases t rule: z1_in.cases; simp; metis zad1_rpc.exhaust zad1_rpc.distinct)
  with Cons show ?case by (auto simp: cnt_def)
qed simp

lemma z1_counted_sum:
  "cnt z1_counted ts = cnt ((=) (Some (Rd RTest1))) ts + cnt ((=) (Some (Rd RWaitW))) ts +
   cnt ((=) (Some (Rd RPost1))) ts + cnt ((=) (Some (Rd RWait2))) ts + cnt ((=) (Some (Rd RDec))) ts"
proof (induction ts)
  case (Cons t ts)
  have "z1_counted t = (\<exists>p \<in> {RTest1, RWaitW, RPost1, RWait2, RDec}. t = Some (Rd p))"
    by (cases t rule: z1_counted.cases) auto
  with Cons show ?case by (auto simp: cnt_def)
qed simp

text \<open>Writers outside their critical section, and threads that do not exist, do not matter for it.\<close>

lemma zad1_inv_idle:
  assumes "zad1_inv g ts" "i < length ts" "ts ! i \<in> {None, Some (Wr WWait), Some (Wr WEnd)}"
    "t \<in> {None, Some (Wr WWait), Some (Wr WEnd), Some (Rd RWait1)}"
  shows "zad1_inv g (ts[i := t])"
  using assms by (auto simp: zad1_inv_def cnt_upd)

lemma zad1_writer_inv:
  assumes "zad1_inv g ts" "i < length ts" "ts ! i = Some (Wr p)" "zad1_writer g p = Some (g', p')"
  shows "zad1_inv g' (ts[i := Some (Wr p')])"
  using assms by (cases p) (auto simp: zad1_inv_def cnt_upd split: if_split_asm)

lemma z1_in_le: "z1_in (Some p) \<Longrightarrow> cnt ((=) (Some p)) ts \<le> cnt z1_in ts"
  by (rule cnt_mono) auto

lemma z1_inside:
  assumes "cnt z1_in ts \<le> 1" "i < length ts" "ts ! i = Some p" "z1_in (Some p)" "z1_in (Some q)"
  shows "cnt ((=) (Some q)) ts = of_bool (q = p)"
proof (cases "q = p")
  case True
  have "1 \<le> cnt ((=) (Some p)) ts" using assms(2,3) by (simp add: cnt_pos)
  with True assms(1) z1_in_le [OF assms(4), of ts] show ?thesis by simp
next
  case False
  have "1 \<le> cnt ((=) (Some p)) ts" using assms(2,3) by (simp add: cnt_pos)
  moreover have "cnt ((=) (Some p)) ts + cnt ((=) (Some q)) ts \<le> cnt z1_in ts"
    using False assms(4,5) by (subst cnt_add) (auto intro: cnt_mono)
  ultimately show ?thesis using False assms(1) cnt_nonneg [of "(=) (Some q)" ts] by simp
qed

lemma z1_outside: "cnt z1_in ts = 0 \<Longrightarrow> z1_in (Some q) \<Longrightarrow> cnt ((=) (Some q)) ts = 0"
  using z1_in_le [of q ts] cnt_nonneg [of "(=) (Some q)" ts] by simp


lemma z1_owned_simps [simp]: "z1_owned 0 t1 ww t0 pw = t0 + pw" "z1_owned 1 t1 ww t0 pw = 1 - t1 - ww"
  "2 \<le> rc \<Longrightarrow> z1_owned rc t1 ww t0 pw = 1"
  by (auto simp: z1_owned_def)

text \<open>The invariant as a relation between numbers, and what each statement of \<open>reader\<close> does to it.\<close>

definition z1_rel :: "int \<Rightarrow> int \<Rightarrow> int \<Rightarrow> int \<Rightarrow> int \<Rightarrow> int \<Rightarrow> int \<Rightarrow> int \<Rightarrow> int \<Rightarrow> int \<Rightarrow> bool" where
  "z1_rel rs ws inn cn rc w t1 ww t0 pw \<longleftrightarrow> 0 \<le> rs \<and> 0 \<le> ws \<and> rs + inn = 1 \<and> rc = cn \<and> 
    ws + w + z1_owned rc t1 ww t0 pw = 1 \<and> (ww = 0 \<or> rc = 1) \<and> (pw = 0 \<or> rc = 0)"

lemma zad1_inv_rel: "zad1_inv g ts = z1_rel (z1_readerSem g) (z1_writerSem g) (cnt z1_in ts) (cnt z1_counted ts)
   (z1_readers_count g) (cnt ((=) (Some (Wr WPost))) ts) (cnt ((=) (Some (Rd RTest1))) ts)
         (cnt ((=) (Some (Rd RWaitW))) ts) (cnt ((=) (Some (Rd RTest0))) ts)
         (cnt ((=) (Some (Rd RPostW))) ts)"
  by (simp add: zad1_inv_def z1_rel_def)

lemma z1_rel_steps:
  "z1_rel rs ws 0 cn rc w 0 0 0 0 \<Longrightarrow> 0 < rs \<Longrightarrow> z1_rel (rs - 1) ws 1 cn rc w 0 0 0 0"
  "z1_rel rs ws 1 cn rc w 0 0 0 0 \<Longrightarrow> 0 \<le> cn \<Longrightarrow> z1_rel rs ws 1 (cn + 1) (rc + 1) w 1 0 0 0"
  "z1_rel rs ws 1 cn rc w 1 0 0 0 \<Longrightarrow> 1 \<le> cn \<Longrightarrow> rc \<noteq> 1 \<Longrightarrow> z1_rel rs ws 1 cn rc w 0 0 0 0"
  "z1_rel rs ws 1 cn rc w 1 0 0 0 \<Longrightarrow> rc = 1 \<Longrightarrow> z1_rel rs ws 1 cn rc w 0 1 0 0"
  "z1_rel rs ws 1 cn rc w 0 1 0 0 \<Longrightarrow> 0 < ws \<Longrightarrow> z1_rel rs (ws - 1) 1 cn rc w 0 0 0 0"
  "z1_rel rs ws 1 cn rc w 0 0 0 0 \<Longrightarrow> z1_rel (rs + 1) ws 0 cn rc w 0 0 0 0"
  "z1_rel rs ws 1 cn rc w 0 0 0 0 \<Longrightarrow> 1 \<le> cn \<Longrightarrow> z1_rel rs ws 1 (cn - 1) (rc - 1) w 0 0 1 0"
  "z1_rel rs ws 1 cn rc w 0 0 1 0 \<Longrightarrow> rc \<noteq> 0 \<Longrightarrow> z1_rel rs ws 1 cn rc w 0 0 0 0"
  "z1_rel rs ws 1 cn rc w 0 0 1 0 \<Longrightarrow> rc = 0 \<Longrightarrow> z1_rel rs ws 1 cn rc w 0 0 0 1"
  "z1_rel rs ws 1 cn rc w 0 0 0 1 \<Longrightarrow> z1_rel rs (ws + 1) 1 cn rc w 0 0 0 0"
  by (auto simp: z1_rel_def z1_owned_def split: if_splits)

text \<open>The invariant as seen by a reader at \<open>p\<close> that is the only one inside (or that can enter).\<close>

definition z1_alone :: "zad1_glob \<Rightarrow> zad1_rpc \<Rightarrow> int \<Rightarrow> int \<Rightarrow> bool" where
  "z1_alone g p cn w \<longleftrightarrow> z1_rel (z1_readerSem g) (z1_writerSem g) (of_bool (z1_in (Some (Rd p)))) cn
     (z1_readers_count g) w (of_bool (p = RTest1)) (of_bool (p = RWaitW)) (of_bool (p = RTest0))
     (of_bool (p = RPostW))"

lemma zad1_reader_alone:
  assumes "zad1_reader g p = Some (g', p')" "z1_alone g p cn w" "0 \<le> cn"
    "z1_counted (Some (Rd p)) \<Longrightarrow> 1 \<le> cn"
  shows "z1_alone g' p' (cn - of_bool (z1_counted (Some (Rd p))) + of_bool (z1_counted (Some (Rd p')))) w"
  using assms
  by (cases p) (auto simp: z1_alone_def z1_rel_steps split: if_splits split del: split_of_bool)

lemma zad1_reader_inv:
  assumes inv: "zad1_inv g ts" and i: "i < length ts" "ts ! i = Some (Rd p)"
    and st: "zad1_reader g p = Some (g', p')"
  shows "zad1_inv g' (ts[i := Some (Rd p')])"
proof -
  have le: "cnt z1_in ts \<le> 1" and sum: "z1_readerSem g + cnt z1_in ts = 1" "0 \<le> z1_readerSem g"
    using inv unfolding zad1_inv_def by linarith+
  have pos: "z1_counted (Some (Rd p)) \<Longrightarrow> 1 \<le> cnt z1_counted ts"
    using cnt_pos [OF i(1), of z1_counted] i(2) by simp
  have enter: "z1_in (Some (Rd p)) \<or> 0 < z1_readerSem g"
    using st by (cases p) (simp_all split: if_splits)
  have inn: "cnt z1_in ts = of_bool (z1_in (Some (Rd p)))"
  proof (cases "z1_in (Some (Rd p))")
    case True
    then have "1 \<le> cnt z1_in ts" using cnt_pos [OF i(1), of z1_in] i(2) by simp
    then show ?thesis using le True by (simp del: z1_in.simps)
  next
    case False
    then have "cnt z1_in ts = 0" using enter sum cnt_nonneg [of z1_in ts] by linarith
    then show ?thesis using False by (simp del: z1_in.simps)
  qed
  have at: "cnt ((=) (Some (Rd q))) ts = of_bool (p = q)" if "z1_in (Some (Rd q))" for q
  proof (cases "z1_in (Some (Rd p))")
    case True
    show ?thesis using z1_inside [OF le i True that] by (simp add: eq_commute)
  next
    case False
    then have "q \<noteq> p" "cnt z1_in ts = 0" using inn that by (auto simp del: z1_in.simps)
    then show ?thesis using z1_outside [OF _ that] by simp
  qed
  have upd: "cnt P (ts[i := Some (Rd p')]) = cnt P ts - of_bool (P (Some (Rd p))) + of_bool (P (Some (Rd p')))" for P
    using cnt_upd [OF i(1)] i(2) by simp
  have "z1_alone g p (cnt z1_counted ts) (cnt ((=) (Some (Wr WPost))) ts)"
    using inv by (simp add: zad1_inv_rel z1_alone_def at inn split del: split_of_bool)
  from zad1_reader_alone [OF st this cnt_nonneg pos] show ?thesis
    by (simp add: zad1_inv_rel z1_alone_def at inn upd eq_commute split del: split_of_bool)
qed

fun zad1_rank :: "zad1_pc \<Rightarrow> nat" where
  "zad1_rank (Wr WWait) = 2"
| "zad1_rank (Wr WPost) = 1"
| "zad1_rank (Wr WEnd) = 0"
| "zad1_rank (Rd RWait1) = 10"
| "zad1_rank (Rd RInc) = 9"
| "zad1_rank (Rd RTest1) = 8"
| "zad1_rank (Rd RWaitW) = 7"
| "zad1_rank (Rd RPost1) = 6"
| "zad1_rank (Rd RWait2) = 5"
| "zad1_rank (Rd RDec) = 4"
| "zad1_rank (Rd RTest0) = 3"
| "zad1_rank (Rd RPostW) = 2"
| "zad1_rank (Rd RPost2) = 1"
| "zad1_rank (Rd REnd) = 0"

lemma zad1_step_cases:
  assumes "zad1_step g p = Some (g', p', w)"
  obtains (writer) q q' where "p = Wr q" "p' = Wr q'" "w = id" "zad1_writer g q = Some (g', q')"
  | (reader) q q' where "p = Rd q" "p' = Rd q'" "w = id" "zad1_reader g q = Some (g', q')"
  using assms by (cases p) auto

lemma zad1_writer_rank: "zad1_writer g q = Some (g', q') \<Longrightarrow> zad1_rank (Wr q') < zad1_rank (Wr q)"
  by (cases q) (auto split: if_splits)

lemma zad1_reader_rank: "zad1_reader g q = Some (g', q') \<Longrightarrow> zad1_rank (Rd q') < zad1_rank (Rd q)"
  by (cases q) (auto split: if_splits)

interpretation z1: prog_bounded zad1 "[0..<zad1_WRITERS_NUM + zad1_READERS_NUM]" zad1_inv zad1_rank
proof unfold_locales
  fix g ts i p g' p' w
  assume inv: "zad1_inv g ts" and i: "i < length ts" "ts ! i = Some p"
    and st: "p_step zad1 g p = Some (g', p', w)"
  from st have "zad1_step g p = Some (g', p', w)" by (simp add: zad1_def)
  then show "zad1_inv g' ((map (map_option w) ts)[i := Some p'])"
    using zad1_writer_inv [OF inv i(1)] zad1_reader_inv [OF inv i(1)] i(2)
    by (cases rule: zad1_step_cases) (auto simp: option.map_id0)
next
  fix g p g' p' w
  assume "p_step zad1 g p = Some (g', p', w)"
  then have "zad1_step g p = Some (g', p', w)" by (simp add: zad1_def)
  then have "w = id \<and> zad1_rank p' < zad1_rank p"
    by (cases rule: zad1_step_cases) (auto dest: zad1_writer_rank zad1_reader_rank)
  then show "\<exists>d. (\<forall>q. zad1_rank (w q) \<le> zad1_rank q + d) \<and> zad1_rank p' + p_threads zad1 * d < zad1_rank p"
    by (intro exI [of _ 0]) simp
qed (auto simp: zad1_def zad1_main_def zad1_inv_def zad1_init_def cnt_replicate cnt_upd z1_owned_def)

text \<open>What the invariant says about a writer in its critical section.\<close>

lemma zad1_inv_exclusion:
  assumes "zad1_inv g ts" and "i < length ts" "j < length ts" "i \<noteq> j" and "ts ! i = Some (Wr WPost)"
  shows "ts ! j \<noteq> Some (Wr WPost) \<and> ts ! j \<noteq> Some (Rd RWait2)"
proof -
  let ?ts = ts and ?rc = "z1_readers_count g"
  note I = assms(1) [unfolded zad1_inv_def]
  have w1: "1 \<le> cnt ((=) (Some (Wr WPost))) ?ts" using assms(2,5) by (simp add: cnt_pos)
  note nn = cnt_nonneg [of "(=) (Some (Rd RTest1))" ?ts] cnt_nonneg [of "(=) (Some (Rd RWaitW))" ?ts]
    cnt_nonneg [of "(=) (Some (Rd RTest0))" ?ts] cnt_nonneg [of "(=) (Some (Rd RPostW))" ?ts]
    cnt_nonneg [of "(=) (Some (Rd RPost1))" ?ts] cnt_nonneg [of "(=) (Some (Rd RDec))" ?ts]
  have le1: "cnt ((=) (Some (Rd RTest1))) ?ts + cnt ((=) (Some (Rd RWaitW))) ?ts \<le> 1"
  proof -
    have "cnt ((=) (Some (Rd RTest1))) ?ts + cnt ((=) (Some (Rd RWaitW))) ?ts \<le> cnt z1_in ?ts"
      by (subst cnt_add) (auto intro: cnt_mono)
    then show ?thesis using I by linarith
  qed
  have own0: "0 \<le> z1_owned ?rc (cnt ((=) (Some (Rd RTest1))) ?ts) (cnt ((=) (Some (Rd RWaitW))) ?ts)
      (cnt ((=) (Some (Rd RTest0))) ?ts) (cnt ((=) (Some (Rd RPostW))) ?ts)"
    using nn le1 by (simp add: z1_owned_def)
  have "ts ! j \<noteq> Some (Wr WPost)"
  proof
    assume "ts ! j = Some (Wr WPost)"
    then have "2 \<le> cnt ((=) (Some (Wr WPost))) ?ts" using assms cnt_two by metis
    then show False using I own0 by linarith
  qed
  moreover have "ts ! j \<noteq> Some (Rd RWait2)"
  proof
    assume "ts ! j = Some (Rd RWait2)"
    then have "1 \<le> cnt ((=) (Some (Rd RWait2))) ?ts" using assms(3) by (simp add: cnt_pos)
    then have r: "1 + cnt ((=) (Some (Rd RTest1))) ?ts + cnt ((=) (Some (Rd RWaitW))) ?ts \<le> ?rc"
      using I nn z1_counted_sum [of ?ts] by linarith
    have "z1_owned ?rc (cnt ((=) (Some (Rd RTest1))) ?ts) (cnt ((=) (Some (Rd RWaitW))) ?ts)
      (cnt ((=) (Some (Rd RTest0))) ?ts) (cnt ((=) (Some (Rd RPostW))) ?ts) = 1"
      using r nn by (auto simp: z1_owned_def)
    then show False using I w1 by linarith
  qed
  ultimately show ?thesis by blast
qed

section \<open>Properties\<close>

text \<open>C1.  Mutual exclusion: in every reachable state of \<open>zad1.c\<close>, while a writer is between
  \<open>sem_wait(&writerSem)\<close> and \<open>sem_post(&writerSem)\<close> no other writer is there and no reader is in
  its reading section.\<close>

theorem zad1_mutual_exclusion:
  assumes "preach zad1 ok s" and "i < length (thr s)" "j < length (thr s)" "i \<noteq> j"
    and "thr s ! i = Some (Wr WPost)"
  shows "thr s ! j \<noteq> Some (Wr WPost) \<and> thr s ! j \<noteq> Some (Rd RWait2)"
  by (rule zad1_inv_exclusion [OF z1.reach_inv [OF assms(1)] assms(2-5)])

lemma zad1_demo:
  "psched zad1 (pinit zad1) [None, None, Some 0] =
   Some \<lparr>glob = \<lparr>z1_readerSem = 1, z1_writerSem = 0, z1_readers_count = 0\<rparr>,
         thr = [Some (Wr WPost), Some (Wr WWait), None, None, None, None, None, None, None],
         todo = map Create [2, 3, 4, 5, 6, 7, 8] @ map Join [0, 1, 2, 3, 4, 5, 6, 7, 8]\<rparr>"
  by code_simp

theorem zad1_mutual_exclusion_witness:
  "\<exists>s. preach zad1 (\<lambda>_. True) s \<and> thr s ! 0 = Some (Wr WPost) \<and> 1 < length (thr s) \<and>
     thr s ! 1 \<noteq> Some (Wr WPost) \<and> thr s ! 1 \<noteq> Some (Rd RWait2)"
proof -
  note r = psched_reach_init [OF zad1_demo]
  show ?thesis using r zad1_mutual_exclusion [OF r, of 0 1] by (intro exI conjI) auto
qed

text \<open>\<open>readers_count\<close> of \<open>zad1.c\<close> is the number of readers between their increment and their
  decrement, so it is never negative and never exceeds \<open>READERS_NUM\<close>; both semaphores stay binary.\<close>

theorem zad1_readers_count_meaning:
  assumes "preach zad1 ok s"
  shows "z1_readers_count (glob s) =
       int (length (filter z1_counted (thr s)))
     \<and> z1_readerSem (glob s) \<in> {0, 1} \<and> 0 \<le> z1_writerSem (glob s)"
  using z1.reach_inv [OF assms] cnt_nonneg [of z1_in "thr s"] by (auto simp: zad1_inv_def cnt_def)

theorem zad1_readers_count_witness:
  "\<exists>s. preach zad1 (\<lambda>_. True) s \<and> z1_readers_count (glob s) = int (length (filter z1_counted (thr s)))"
  by (intro exI conjI) (rule preach.start, rule zad1_readers_count_meaning [OF preach.start, THEN conjunct1])

lemma zad1_writer_blocked: "zad1_writer g q = None \<Longrightarrow> 0 < z1_writerSem g \<Longrightarrow> q = WEnd"
  by (cases q) simp_all

lemma zad1_reader_blocked:
  "zad1_reader g q = None \<Longrightarrow> 0 < z1_writerSem g \<Longrightarrow> 0 < z1_readerSem g \<Longrightarrow> q = REnd"
  by (cases q) simp_all

lemma zad1_blocked_final:
  assumes inv: "zad1_inv g ts"
    and blocked: "\<And>i p. i < length ts \<Longrightarrow> ts ! i = Some p \<Longrightarrow> zad1_step g p = None"
    and i: "i < length ts" "ts ! i = Some p"
  shows "p = Wr WEnd \<or> p = Rd REnd"
proof -
  note I = inv [unfolded zad1_inv_def]
  have none: "cnt ((=) (Some q)) ts = 0" if "zad1_step g q \<noteq> None" for q
    using blocked that by (auto simp: cnt_zero_iff in_set_conv_nth)
  have z: "cnt ((=) (Some (Wr WPost))) ts = 0" "cnt ((=) (Some (Rd RInc))) ts = 0"
    "cnt ((=) (Some (Rd RTest1))) ts = 0" "cnt ((=) (Some (Rd RPost1))) ts = 0"
    "cnt ((=) (Some (Rd RDec))) ts = 0" "cnt ((=) (Some (Rd RTest0))) ts = 0"
    "cnt ((=) (Some (Rd RPostW))) ts = 0" "cnt ((=) (Some (Rd RPost2))) ts = 0"
    by (rule none, simp)+
  have ww: "cnt ((=) (Some (Rd RWaitW))) ts = cnt z1_in ts" using z1_in_sum [of ts] z by simp
  have sum: "z1_readerSem g + cnt z1_in ts = 1" "0 \<le> z1_readerSem g"
    and one: "cnt ((=) (Some (Rd RWaitW))) ts = 0 \<or> z1_readers_count g = 1" using I by blast+
  have "z1_readerSem g = 1 \<and> cnt z1_in ts = 0"
  proof (rule ccontr)
    assume "\<not> ?thesis"
    then have "cnt z1_in ts = 1" using sum cnt_nonneg [of z1_in ts] by linarith
    then have 1: "cnt ((=) (Some (Rd RWaitW))) ts = 1" "z1_readers_count g = 1"
      using ww one by simp_all
    have "z1_writerSem g = 1" using I unfolding z 1 by (simp add: z1_owned_def)
    then have "zad1_step g (Rd RWaitW) \<noteq> None" by simp
    from none [OF this] 1 show False by simp
  qed
  note rs = this
  have w2: "cnt ((=) (Some (Rd RWait2))) ts = 0" by (rule none) (use rs in simp)
  have rc0: "z1_readers_count g = 0" using I z ww rs w2 z1_counted_sum [of ts] by simp
  have "z1_writerSem g = 1" using I unfolding z rc0 by simp
  then have pos: "0 < z1_writerSem g" "0 < z1_readerSem g" using rs by simp_all
  show ?thesis
  proof (cases p)
    case (Wr q)
    with blocked [OF i] show ?thesis using zad1_writer_blocked [OF _ pos(1)] by simp
  next
    case (Rd q)
    with blocked [OF i] show ?thesis using zad1_reader_blocked [OF _ pos] by simp
  qed
qed

lemma zad1_stuck_returned:
  assumes "preach zad1 (\<lambda>_. True) s" and "stuck zad1 (\<lambda>_. True) s"
  shows "todo s = [] \<and> (\<forall>t \<in> set (thr s). t = Some (Wr WEnd) \<or> t = Some (Rd REnd))"
proof -
  have len: "length (thr s) = p_threads zad1" using z1.reach_main_ok [OF assms(1)] by simp
  have blk: "zad1_step (glob s) p = None" if "i < length (thr s)" "thr s ! i = Some p" for i p
    using stuck_thread [OF assms(2) that] by (simp add: zad1_def)
  have fin: "p = Wr WEnd \<or> p = Rd REnd" if "i < length (thr s)" "thr s ! i = Some p" for i p
    by (rule zad1_blocked_final [OF z1.reach_inv [OF assms(1)] blk that])
  have pf: "p_final zad1 p = (p = Wr WEnd \<or> p = Rd REnd)" for p by (simp add: zad1_def)
  have js: "set [0..<zad1_WRITERS_NUM + zad1_READERS_NUM] \<subseteq> {0..<p_threads zad1}"
    by (simp add: zad1_def)
  have todo: "todo s = []"
    by (rule stuck_all_final [OF z1.main_shape js assms(1,2) len]) (simp add: pf fin)
  have "t = Some (Wr WEnd) \<or> t = Some (Rd REnd)" if t: "t \<in> set (thr s)" for t
  proof -
    obtain i where i: "i < length (thr s)" "thr s ! i = t" using t by (auto simp: in_set_conv_nth)
    have "thr s ! i \<noteq> None"
      using reach_created [OF z1.main_shape assms(1)] i(1) by (simp add: created_ok_def todo)
    then obtain p where p: "thr s ! i = Some p" by (cases "thr s ! i") simp_all
    show ?thesis using fin [OF i(1) p] p i(2) by simp
  qed
  with todo show ?thesis by blast
qed

text \<open>C2.  Absence of deadlock in \<open>zad1.c\<close>: a reachable state in which no thread and not \<open>main\<close> can
  move is one in which \<open>main\<close> has joined every thread and returned (given that every
  \<open>pthread_create\<close> succeeds).\<close>

theorem zad1_no_deadlock:
  assumes "preach zad1 (\<lambda>_. True) s" and "stuck zad1 (\<lambda>_. True) s"
  shows "todo s = [] \<and> (\<forall>t \<in> set (thr s). t = Some (Wr WEnd) \<or> t = Some (Rd REnd))"
  using assms by (rule zad1_stuck_returned)

theorem zad1_no_deadlock_witness:
  "\<exists>s. preach zad1 (\<lambda>_. True) s \<and> stuck zad1 (\<lambda>_. True) s \<and> todo s = []"
proof -
  obtain m u where "prun zad1 (\<lambda>_. True) (pinit zad1) m u" "stuck zad1 (\<lambda>_. True) u"
    using z1.run_to_stuck [OF preach.start] by blast
  then show ?thesis using zad1_no_deadlock [of u] prun_reach [OF _ preach.start] by blast
qed

lemma zad1_rank_init: "rank_of zad1 zad1_rank (pinit zad1) = 84"
  by code_simp

text \<open>C3.  Termination of \<open>zad1.c\<close>: no run has more than 84 steps, and from every reachable state
  the program can run on until \<open>main\<close> has returned.\<close>

theorem zad1_terminates:
  "(prun zad1 ok (pinit zad1) n t \<longrightarrow> n \<le> 84) \<and>
   (preach zad1 (\<lambda>_. True) s \<longrightarrow> (\<exists>m u. prun zad1 (\<lambda>_. True) s m u \<and> todo u = []))"
proof (intro conjI impI)
  assume "prun zad1 ok (pinit zad1) n t"
  then show "n \<le> 84" using z1.run_length zad1_rank_init by fastforce
next
  assume r: "preach zad1 (\<lambda>_. True) s"
  then obtain m u where mu: "prun zad1 (\<lambda>_. True) s m u" "stuck zad1 (\<lambda>_. True) u"
    using z1.run_to_stuck by blast
  then have "todo u = []" using zad1_stuck_returned prun_reach r by blast
  then show "\<exists>m u. prun zad1 (\<lambda>_. True) s m u \<and> todo u = []" using mu by blast
qed

theorem zad1_terminates_witness:
  "(\<exists>t. prun zad1 (\<lambda>_. True) (pinit zad1) 0 t \<and> (0::nat) \<le> 84) \<and>
   (\<exists>m u. prun zad1 (\<lambda>_. True) (pinit zad1) m u \<and> todo u = [])"
  using zad1_terminates [of "\<lambda>_. True" 0 "pinit zad1" "pinit zad1"]
    prun.halt [of zad1 "\<lambda>_. True" "pinit zad1"] preach.start [of zad1 "\<lambda>_. True"] by blast
end
