(* ===== verification/KernelApi.thy ===== *)
theory KernelApi imports Prelude begin

text \<open>
  What the kernel modules under \<open>src/\<close> see of the Linux kernel.  The kernel itself is not part of
  the repository, so its functions are the fields of the record \<open>kenv\<close>, an argument of every
  definition that calls them.  The effects of calls that acquire or release something (memory, references,
  registrations, locks) are the list of calls a handler makes, its trace;
  \<open>run_calls\<close> checks such a trace: nothing is released that is not held, no lock is taken by its
  holder a second time, and the result is what is still held at the end.
  The locale \<open>pos_reader\<close> is the interface of a device whose reads serve a text from the file
  position on; its client is the reader that calls \<open>read\<close> until it returns 0.
\<close>

section \<open>Error numbers\<close>

definition EPERM :: int where "EPERM = 1"
definition ENOENT :: int where "ENOENT = 2"
definition ESRCH :: int where "ESRCH = 3"
definition EINTR :: int where "EINTR = 4"
definition EAGAIN :: int where "EAGAIN = 11"
definition ENOMEM :: int where "ENOMEM = 12"
definition EACCES :: int where "EACCES = 13"
definition EFAULT :: int where "EFAULT = 14"
definition EBUSY :: int where "EBUSY = 16"
definition EINVAL :: int where "EINVAL = 22"

lemmas errno_defs = EPERM_def ENOENT_def ESRCH_def EINTR_def EAGAIN_def ENOMEM_def EACCES_def EFAULT_def EBUSY_def EINVAL_def

text \<open>What a handler that goes wrong runs into.  A handler that may do so returns \<open>fault + 'a\<close>.\<close>

datatype fault = NullDeref | WildPointer | OutOfBounds | BadFree | UninitRead | DivideByZero | NonTerminating | BugOn | UseAfterFree

section \<open>Calls into the kernel\<close>

record kenv =
  k_copy_to_user :: "nat \<Rightarrow> nat \<Rightarrow> nat"       \<comment> \<open>offset in the user buffer, bytes; how many were not copied\<close>
  k_copy_from_user :: "nat \<Rightarrow> nat \<Rightarrow> nat"
  k_kmalloc :: "string \<Rightarrow> int \<Rightarrow> bool"         \<comment> \<open>call site and size; whether it succeeds\<close>
  k_junk :: "nat \<Rightarrow> char"                         \<comment> \<open>what fresh memory holds\<close>
  k_kstrtol :: "string \<Rightarrow> int + int"            \<comment> \<open>error code or value, base 10\<close>
  k_strtol :: "string \<Rightarrow> int"                   \<comment> \<open>\<open>simple_strtol\<close>, base 10\<close>
  k_find_get_pid :: "int \<Rightarrow> nat option"
  k_get_pid_task :: "nat \<Rightarrow> nat option"
  k_comm :: "nat \<Rightarrow> string"
  k_jiffies :: nat
  k_kern_path :: "string \<Rightarrow> int + nat"          \<comment> \<open>error code or the mount of the path\<close>
  k_d_path :: "nat \<Rightarrow> nat \<Rightarrow> int + string"      \<comment> \<open>path of the root of a mount, buffer size\<close>
  k_register_chrdev :: "int \<Rightarrow> string \<Rightarrow> int"
  k_proc_create :: "string \<Rightarrow> bool"
  k_misc_register :: "string \<Rightarrow> int"
  k_prepare_creds :: bool                         \<comment> \<open>whether it returns a copy or NULL\<close>
  k_interrupted :: bool                           \<comment> \<open>whether a signal interrupts \<open>down_interruptible\<close>\<close>

text \<open>A kernel in which every call succeeds, for concrete runs.\<close>

definition kenv0 :: kenv where
  "kenv0 = \<lparr>k_copy_to_user = (\<lambda>_ _. 0), k_copy_from_user = (\<lambda>_ _. 0), k_kmalloc = (\<lambda>_ _. True),
     k_junk = (\<lambda>_. CHR 0x5A), k_kstrtol = (\<lambda>s. Inr (int (read_nat (filter isdigit s)))),
     k_strtol = (\<lambda>s. int (read_nat (filter isdigit s))), k_find_get_pid = (\<lambda>p. Some (nat p)),
     k_get_pid_task = Some, k_comm = (\<lambda>_. ''init''), k_jiffies = 4294937296,
     k_kern_path = (\<lambda>_. Inr 1), k_d_path = (\<lambda>_ _. Inr ''/''),
     k_register_chrdev = (\<lambda>_ _. 0), k_proc_create = (\<lambda>_. True), k_misc_register = (\<lambda>_. 0),
     k_prepare_creds = True, k_interrupted = False\<rparr>"

lemma kenv0_simps [simp]:
  "k_copy_to_user kenv0 i n = 0" "k_copy_from_user kenv0 i n = 0" "k_kmalloc kenv0 s z"
  "k_find_get_pid kenv0 p = Some (nat p)" "k_get_pid_task kenv0 = Some" "k_comm kenv0 t = ''init''"
  "k_jiffies kenv0 = 4294937296" "k_kern_path kenv0 s = Inr 1" "k_d_path kenv0 m n = Inr ''/''"
  "k_register_chrdev kenv0 j s = 0" "k_proc_create kenv0 s" "k_misc_register kenv0 s = 0"
  "k_junk kenv0 n = CHR 0x5A" "k_prepare_creds kenv0" "\<not> k_interrupted kenv0"
  by (simp_all add: kenv0_def)

text \<open>Documented behaviour of the copy functions: they never report more than was asked for.\<close>

definition copy_ok :: "kenv \<Rightarrow> bool" where
  "copy_ok K \<longleftrightarrow> (\<forall>i n. k_copy_to_user K i n \<le> n \<and> k_copy_from_user K i n \<le> n)"

lemma copy_ok_kenv0: "copy_ok kenv0"
  by (simp add: copy_ok_def kenv0_def)

text \<open>\<open>copy_from_user\<close> fills what it could not copy with zeros.\<close>

definition copied_in :: "kenv \<Rightarrow> string \<Rightarrow> nat \<Rightarrow> nat \<Rightarrow> string" where
  "copied_in K ubuf i n =
     (let r = k_copy_from_user K i n in take (n - r) (drop i ubuf) @ zeros (n - (n - r)))"

definition copied_out :: "kenv \<Rightarrow> nat \<Rightarrow> string \<Rightarrow> string" where
  "copied_out K i s = take (length s - k_copy_to_user K i (length s)) s"

lemma copied_in_all: "k_copy_from_user K i n = 0 \<Longrightarrow> copied_in K ubuf i n = take n (drop i ubuf)"
  by (simp add: copied_in_def zeros_def)

lemma copied_out_all: "k_copy_to_user K i (length s) = 0 \<Longrightarrow> copied_out K i s = s"
  by (simp add: copied_out_def)

lemma length_copied_out: "length (copied_out K i s) \<le> length s"
  by (simp add: copied_out_def)

text \<open>The same kernel with user memory that is always accessible.\<close>

definition copying :: "kenv \<Rightarrow> kenv" where
  "copying K = K\<lparr>k_copy_to_user := (\<lambda>_ _. 0), k_copy_from_user := (\<lambda>_ _. 0)\<rparr>"

lemma copying_simps [simp]:
  "k_copy_to_user (copying K) i n = 0" "k_copy_from_user (copying K) i n = 0"
  "k_jiffies (copying K) = k_jiffies K" "k_comm (copying K) = k_comm K"
  "k_kmalloc (copying K) = k_kmalloc K" "k_kstrtol (copying K) = k_kstrtol K"
  "k_interrupted (copying K) = k_interrupted K"
  by (simp_all add: copying_def)

text \<open>What a caller of \<open>read\<close> may rely on: at most \<open>len\<close> bytes reach the user; a non-negative result is the
  number of bytes delivered and the advance of the file position; a negative one leaves the position alone.\<close>

definition read_contract :: "nat \<Rightarrow> int \<Rightarrow> int \<times> int \<times> string \<Rightarrow> bool" where
  "read_contract len pos x \<longleftrightarrow> (case x of (r, pos', out) \<Rightarrow>
     length out \<le> len \<and> (0 \<le> r \<longrightarrow> r = int (length out) \<and> pos' = pos + r) \<and> (r < 0 \<longrightarrow> pos' = pos))"

lemma copied_out_le: "length s \<le> n \<Longrightarrow> length (copied_out K i s) \<le> n"
  using length_copied_out [of K i s] by linarith

section \<open>Traces of acquisitions and releases\<close>

datatype kres = Chrdev int string | ProcEntry string | Misc string | Mem string
  | PidRef | TaskRef | DentryRef | MntRef | FilesRef | FileRef | Lock string | RdLock string

datatype kcall = Acq kres | Rel kres

fun lock_conflict :: "kres list \<Rightarrow> kres \<Rightarrow> bool" where
  "lock_conflict h (Lock m) = (Lock m \<in> set h \<or> RdLock m \<in> set h)"
| "lock_conflict h (RdLock m) = (Lock m \<in> set h)"
| "lock_conflict h r = False"

fun run_calls :: "kres list \<Rightarrow> kcall list \<Rightarrow> kres list option" where
  "run_calls h [] = Some h"
| "run_calls h (Acq r # cs) = (if lock_conflict h r then None else run_calls (r # h) cs)"
| "run_calls h (Rel r # cs) = (if r \<in> set h then run_calls (remove1 r h) cs else None)"

definition balanced :: "kcall list \<Rightarrow> bool" where
  "balanced cs \<longleftrightarrow> run_calls [] cs = Some []"

lemma run_calls_append:
  "run_calls h (xs @ ys) = Option.bind (run_calls h xs) (\<lambda>h'. run_calls h' ys)"
  by (induction h xs rule: run_calls.induct) auto

lemma run_calls_append_Some:
  "run_calls h xs = Some h' \<Longrightarrow> run_calls h (xs @ ys) = run_calls h' ys"
  by (simp add: run_calls_append)

text \<open>The same with how many of each resource are held, for handlers that hold many equal ones.\<close>

fun lock_busy :: "(kres \<Rightarrow> nat) \<Rightarrow> kres \<Rightarrow> bool" where
  "lock_busy h (Lock m) = (0 < h (Lock m) \<or> 0 < h (RdLock m))"
| "lock_busy h (RdLock m) = (0 < h (Lock m))"
| "lock_busy h r = False"

fun run_counts :: "(kres \<Rightarrow> nat) \<Rightarrow> kcall list \<Rightarrow> (kres \<Rightarrow> nat) option" where
  "run_counts h [] = Some h"
| "run_counts h (Acq r # cs) = (if lock_busy h r then None else run_counts (h(r := h r + 1)) cs)"
| "run_counts h (Rel r # cs) = (if 0 < h r then run_counts (h(r := h r - 1)) cs else None)"

lemma count_list_pos: "0 < count_list h r \<longleftrightarrow> r \<in> set h"
  using count_list_0_iff [of h r] by auto

lemma lock_busy_count: "lock_busy (count_list h) r = lock_conflict h r"
  by (cases r) (simp_all add: count_list_pos)

lemma count_list_remove1: "count_list (remove1 r h) = (count_list h)(r := count_list h r - 1)"
proof (induction h)
  case (Cons x h)
  then show ?case using count_list_0_iff [of h x] by (auto simp: fun_eq_iff)
qed (simp add: fun_eq_iff)

lemma run_calls_counts: "run_counts (count_list h) cs = map_option count_list (run_calls h cs)"
proof (induction cs arbitrary: h)
  case (Cons c cs)
  show ?case
  proof (cases c)
    case (Acq r)
    have "(count_list h)(r := Suc (count_list h r)) = count_list (r # h)" by (simp add: fun_eq_iff)
    with Acq show ?thesis by (simp add: lock_busy_count Cons [of "r # h", symmetric] del: count_list.simps)
  next
    case (Rel r)
    then show ?thesis
      by (simp add: count_list_pos Cons [of "remove1 r h", symmetric] count_list_remove1 fun_upd_def)
  qed
qed simp

lemma balanced_counts: "balanced cs \<longleftrightarrow> run_counts (\<lambda>_. 0) cs = Some (\<lambda>_. 0)"
proof -
  have z: "(count_list h = (\<lambda>_. 0)) = (h = [])" for h :: "kres list"
    by (cases h) (auto simp: fun_eq_iff)
  have e: "count_list [] = (\<lambda>_ :: kres. 0 :: nat)" by (simp add: fun_eq_iff)
  have "run_counts (\<lambda>_. 0) cs = map_option count_list (run_calls [] cs)"
    using run_calls_counts [of "[]" cs] unfolding e .
  then show ?thesis by (cases "run_calls [] cs") (auto simp: balanced_def z)
qed

lemma run_counts_append:
  "run_counts h (xs @ ys) = Option.bind (run_counts h xs) (\<lambda>h'. run_counts h' ys)"
proof (induction xs arbitrary: h)
  case (Cons c cs)
  then show ?case by (cases c) (simp_all add: fun_upd_def)
qed simp

lemma run_counts_append_Some:
  "run_counts h xs = Some h' \<Longrightarrow> run_counts h (xs @ ys) = run_counts h' ys"
  by (simp add: run_counts_append)

lemma run_counts_release_all:
  "h r = n + k \<Longrightarrow> length xs = n \<Longrightarrow> run_counts h (map (\<lambda>_. Rel r) xs) = Some (h(r := k))"
  by (induction xs arbitrary: h n) auto

lemma run_counts_acquire_all:
  "run_counts h (map (\<lambda>_. Acq (Mem m)) xs) = Some (h(Mem m := h (Mem m) + length xs))"
  by (induction xs arbitrary: h) (simp_all add: fun_upd_idem)

section \<open>Devices that serve a text\<close>

fun cat :: "(nat \<Rightarrow> int \<Rightarrow> int \<times> int \<times> string) \<Rightarrow> nat \<Rightarrow> nat \<Rightarrow> int \<Rightarrow> string" where
  "cat rd bsize 0 pos = []"
| "cat rd bsize (Suc fuel) pos =
     (case rd bsize pos of (r, pos', out) \<Rightarrow> if r \<le> 0 then [] else out @ cat rd bsize fuel pos')"

locale pos_reader =
  fixes read :: "'s \<Rightarrow> nat \<Rightarrow> int \<Rightarrow> int \<times> int \<times> string"
    and content :: "'s \<Rightarrow> string"
    and ready :: "'s \<Rightarrow> bool"
  assumes read_at: "ready s \<Longrightarrow> 0 \<le> pos \<Longrightarrow>
    read s len pos = (int (length (take len (drop (nat pos) (content s)))),
      pos + int (length (take len (drop (nat pos) (content s)))),
      take len (drop (nat pos) (content s)))"
begin

lemma read_within: "ready s \<Longrightarrow> 0 \<le> pos \<Longrightarrow> length (snd (snd (read s len pos))) \<le> len"
  by (simp add: read_at)

lemma read_eof:
  "ready s \<Longrightarrow> int (length (content s)) \<le> pos \<Longrightarrow> read s len pos = (0, pos, [])"
  by (simp add: read_at)

text \<open>Two reads in a row are one read of the joint size.\<close>

lemma read_split:
  assumes "ready s" "0 \<le> pos" "read s m pos = (r, pos', out)" "read s n pos' = (r', pos'', out')"
    "r = int m"
  shows "read s (m + n) pos = (r + r', pos'', out @ out')"
proof -
  let ?c = "drop (nat pos) (content s)"
  from assms have out: "out = take m ?c" "pos' = pos + int m" by (auto simp: read_at)
  from assms have m: "m \<le> length ?c" by (auto simp: read_at min_def split: if_splits)
  have np: "nat (pos + int m) = m + nat pos" using assms(2) by (simp add: nat_add_distrib)
  have d: "drop (nat pos') (content s) = drop m ?c"
    using assms(2) out(2) by (simp add: nat_add_distrib add.commute)
  have out': "out' = take n (drop m ?c)" "r' = int (length out')" "pos'' = pos' + r'"
    using assms(1,2,4) by (auto simp: read_at out(2) np)
  have t: "take (m + n) ?c = out @ out'" using out(1) out'(1) by (simp add: take_add)
  have len: "length out = m" using out(1) m by simp
  show ?thesis
    unfolding read_at [OF assms(1,2)] t using assms(5) len out(2) out' by (simp add: np)
qed

lemma cat_from:
  assumes "ready s" "0 < bsize" "0 \<le> pos" "length (content s) - nat pos < fuel"
  shows "cat (read s) bsize fuel pos = drop (nat pos) (content s)"
  using assms(3,4)
proof (induction fuel arbitrary: pos)
  case 0
  then show ?case by simp
next
  case (Suc fuel)
  let ?c = "drop (nat pos) (content s)"
  show ?case
  proof (cases "?c = []")
    case True
    then show ?thesis using Suc.prems assms(1) by (simp add: read_at)
  next
    case False
    let ?n = "length (take bsize ?c)"
    have n: "0 < ?n" using False assms(2) by (cases ?c) auto
    have np: "nat (pos + int ?n) = nat pos + ?n" using Suc.prems(1) by (simp add: nat_add_distrib)
    have "cat (read s) bsize fuel (pos + int ?n) = drop (nat (pos + int ?n)) (content s)"
    proof (rule Suc.IH)
      show "0 \<le> pos + int ?n" using Suc.prems(1) by simp
      have "nat pos < length (content s)" using False by simp
      then show "length (content s) - nat (pos + int ?n) < fuel"
        using Suc.prems(2) n unfolding np by linarith
    qed
    also have "\<dots> = drop ?n ?c" unfolding np by (simp add: add.commute)
    finally have "cat (read s) bsize (Suc fuel) pos = take bsize ?c @ drop ?n ?c"
      using n Suc.prems(1) assms(1) by (simp add: read_at)
    also have "\<dots> = ?c" by (cases "bsize \<le> length ?c") (simp_all del: drop_drop)
    finally show ?thesis .
  qed
qed

lemma cat_content:
  "ready s \<Longrightarrow> 0 < bsize \<Longrightarrow> length (content s) < fuel \<Longrightarrow> cat (read s) bsize fuel 0 = content s"
  using cat_from [of s bsize 0 fuel] by simp

end

text \<open>Devices that hand out their whole text on every read before the position \<open>limit\<close>, whatever part
  of it was asked for and however small the user's buffer is.\<close>

locale whole_reader =
  fixes read :: "'s \<Rightarrow> nat \<Rightarrow> int \<Rightarrow> int \<times> int \<times> string"
    and content :: "'s \<Rightarrow> string"
    and limit :: "'s \<Rightarrow> int"
    and ready :: "'s \<Rightarrow> bool"
  assumes read_whole: "ready s \<Longrightarrow> 0 \<le> pos \<Longrightarrow> pos < limit s \<Longrightarrow>
      read s len pos = (int (length (content s)), pos + int (length (content s)), content s)"
    and read_done: "ready s \<Longrightarrow> limit s \<le> pos \<Longrightarrow> read s len pos = (0, pos, [])"
    and limit_le: "ready s \<Longrightarrow> 0 < limit s \<and> limit s \<le> int (length (content s))"
begin

lemma contract_iff:
  assumes "ready s" "0 \<le> pos"
  shows "read_contract len pos (read s len pos) \<longleftrightarrow> limit s \<le> pos \<or> length (content s) \<le> len"
  using assms read_whole [of s pos len] read_done [of s pos len]
  by (cases "pos < limit s") (auto simp: read_contract_def)

lemma cat_whole: "ready s \<Longrightarrow> cat (read s) bsize (Suc (Suc fuel)) 0 = content s"
  using limit_le [of s] by (simp add: read_whole read_done)

end

end
