(* ===== verification/Advanced04.thy ===== *)
theory Advanced04 imports KernelApi begin

text \<open>
  \<open>cw04/advanced/advanced.c\<close>: the module with the devices \<open>prname\<close> (write a process id, read the
  name of that process), \<open>jiffies\<close> (read the tick counter) and \<open>mountderef\<close> (write a path, read the
  path of the root of its mount).  \<open>adv_state\<close> holds the static variables; every file operation
  is a definition of the same name that returns the C result, the new file position or state, the
  bytes delivered to the user, and the acquisitions and releases it made.  Shown: the three
  read operations serve their text (interpretations of \<open>pos_reader\<close>), each error
  path, the write/read round trip, buffer bounds, and that a whole session from \<open>insmod\<close> to
  \<open>rmmod\<close> releases everything it acquired.
\<close>

section \<open>State\<close>

record adv_state =
  process_name :: string
  process_name_len :: int
  pathname :: "string option"
  pathname_len :: nat

definition adv_init_state :: adv_state where
  "adv_init_state = \<lparr>process_name = [], process_name_len = -1, pathname = None, pathname_len = 0\<rparr>"

section \<open>The prname device\<close>

text \<open>A read returns the C result, the new \<open>*pos\<close> and the bytes that reached the user.\<close>

definition advanced_prname_read :: "kenv \<Rightarrow> adv_state \<Rightarrow> nat \<Rightarrow> int \<Rightarrow> int \<times> int \<times> string" where
  "advanced_prname_read K st len pos =
     (if process_name_len st < 0 then (- EBUSY, pos, [])
      else if pos < 0 then (- EINVAL, pos, [])
      else if len = 0 \<or> pos \<ge> process_name_len st then (0, pos, [])
      else let bytes_to_copy = min (nat (process_name_len st - pos)) len;
               src = take bytes_to_copy (drop (nat pos) (process_name st));
               bytes_not_copied = k_copy_to_user K 0 bytes_to_copy
           in if bytes_not_copied \<noteq> 0 then (- EFAULT, pos, copied_out K 0 src)
              else let bytes_copied = int (bytes_to_copy - bytes_not_copied)
                   in (bytes_copied, pos + bytes_copied, src))"

definition advanced_prname_write :: "kenv \<Rightarrow> adv_state \<Rightarrow> string \<Rightarrow> int \<times> adv_state \<times> kcall list" where
  "advanced_prname_write K st ubuf =
     (case k_kstrtol K ubuf of
        Inl rc \<Rightarrow> (rc, st, [])
      | Inr new_pid' \<Rightarrow>
          if new_pid' < 1 then (- EINVAL, st, [])
          else let new_pid = s32 new_pid' in
          if new_pid \<noteq> new_pid' then (- EINVAL, st, [])
          else (case k_find_get_pid K new_pid of
              None \<Rightarrow> (- ESRCH, st, [])
            | Some new_pidp \<Rightarrow>
                (case k_get_pid_task K new_pidp of
                   None \<Rightarrow> (- ESRCH, st, [Acq PidRef, Rel PidRef])
                 | Some taskp \<Rightarrow>
                     (int (length ubuf),
                      st\<lparr>process_name := k_comm K taskp,
                         process_name_len := s8 (int (length (k_comm K taskp)))\<rparr>,
                      [Acq PidRef, Acq TaskRef, Rel PidRef, Rel TaskRef]))))"

section \<open>The jiffies device\<close>

text \<open>The text is printed into \<open>char jiffies_string[30]\<close>; \<open>Inl OutOfBounds\<close> is the overrun of that
  array by \<open>sprintf\<close>, and \<open>jiffies_string_len\<close> is an unsigned char.\<close>

definition advanced_jiffies_read :: "kenv \<Rightarrow> nat \<Rightarrow> int \<Rightarrow> fault + int \<times> int \<times> string" where
  "advanced_jiffies_read K len pos =
     (if pos < 0 then Inr (- EINVAL, pos, [])
      else let jiffies_string = show_nat (k_jiffies K) in
      if length jiffies_string + 1 > 30 then Inl OutOfBounds
      else let jiffies_string_len = length jiffies_string mod 256 in
      if pos \<ge> int jiffies_string_len then Inr (0, pos, [])
      else let bytes_to_copy = min (nat (int jiffies_string_len - pos)) len;
               src = take bytes_to_copy (drop (nat pos) jiffies_string);
               bytes_not_copied = k_copy_to_user K 0 bytes_to_copy
           in if bytes_not_copied \<noteq> 0 then Inr (- EFAULT, pos, copied_out K 0 src)
              else let bytes_copied = int (bytes_to_copy - bytes_not_copied)
                   in Inr (bytes_copied, pos + bytes_copied, src))"

section \<open>The mountderef device\<close>

definition advanced_mountderef_read :: "kenv \<Rightarrow> adv_state \<Rightarrow> nat \<Rightarrow> int \<Rightarrow> int \<times> int \<times> string" where
  "advanced_mountderef_read K st len pos =
     (case pathname st of
        None \<Rightarrow> (- EBUSY, pos, [])
      | Some name \<Rightarrow>
          if pos < 0 then (- EINVAL, pos, [])
          else if len = 0 \<or> pos \<ge> int (pathname_len st) then (0, pos, [])
          else let bytes_to_copy = min (nat (int (pathname_len st) - pos)) len;
                   src = take bytes_to_copy (drop (nat pos) name);
                   bytes_not_copied = k_copy_to_user K 0 bytes_to_copy
               in if bytes_not_copied \<noteq> 0 then (- EFAULT, pos, copied_out K 0 src)
                  else let bytes_copied = int (bytes_to_copy - bytes_not_copied)
                       in (bytes_copied, pos + bytes_copied, src))"

text \<open>The block that holds the current path is \<open>Mem ''pathname_buf''\<close>, held exactly while
  \<open>pathname\<close> is not NULL; the new block is acquired before the old one is freed.\<close>

definition advanced_mountderef_write :: "kenv \<Rightarrow> adv_state \<Rightarrow> string \<Rightarrow> int \<times> adv_state \<times> kcall list" where
  "advanced_mountderef_write K st ubuf =
     (let len = length ubuf; blk = Mem ''pathname_buf'' in
      if \<not> k_kmalloc K ''mountderef_write'' (int len + 1) then (- ENOMEM, st, [])
      else if k_copy_from_user K 0 len \<noteq> 0 then (- EFAULT, st, [Acq blk, Rel blk])
      else (case k_kern_path K (cstr (ubuf @ [NUL])) of
          Inl rc \<Rightarrow> (rc, st, [Acq blk, Rel blk])
        | Inr mnt \<Rightarrow>
            let refs = [Acq DentryRef, Acq MntRef, Rel DentryRef, Acq DentryRef, Rel DentryRef, Rel MntRef] in
            (case k_d_path K mnt (len + 1) of
               Inl rc \<Rightarrow> (rc, st, [Acq blk] @ refs @ [Rel blk])
             | Inr new_pathname \<Rightarrow>
                 (int len, st\<lparr>pathname := Some new_pathname, pathname_len := length new_pathname\<rparr>,
                  [Acq blk] @ refs @ (if pathname st = None then [] else [Rel blk])))))"

section \<open>Module init and exit\<close>

definition advanced_init :: "kenv \<Rightarrow> int \<times> kcall list" where
  "advanced_init K =
     (let rc = k_misc_register K ''prname'' in
      if rc \<noteq> 0 then (rc, [])
      else let rc = k_misc_register K ''jiffies'' in
      if rc \<noteq> 0 then (rc, [Acq (Misc ''prname''), Rel (Misc ''prname'')])
      else let rc = k_misc_register K ''mountderef'' in
      if rc \<noteq> 0 then (rc, [Acq (Misc ''prname''), Acq (Misc ''jiffies''),
        Rel (Misc ''jiffies''), Rel (Misc ''prname'')])
      else (0, [Acq (Misc ''prname''), Acq (Misc ''jiffies''), Acq (Misc ''mountderef'')]))"

definition advanced_exit :: "adv_state \<Rightarrow> kcall list" where
  "advanced_exit st = [Rel (Misc ''mountderef'')]
     @ (if pathname st = None then [] else [Rel (Mem ''pathname_buf'')])
     @ [Rel (Misc ''jiffies''), Rel (Misc ''prname'')]"

text \<open>The file operations tables: what the kernel calls for each device.\<close>

datatype adv_call = Prname_read nat int | Prname_write string | Jiffies_read nat int
  | Mountderef_read nat int | Mountderef_write string

fun adv_step :: "kenv \<Rightarrow> adv_state \<Rightarrow> adv_call \<Rightarrow> adv_state \<times> kcall list" where
  "adv_step K st (Prname_read len pos) = (st, [])"
| "adv_step K st (Prname_write ubuf) = (case advanced_prname_write K st ubuf of (_, st', tr) \<Rightarrow> (st', tr))"
| "adv_step K st (Jiffies_read len pos) = (st, [])"
| "adv_step K st (Mountderef_read len pos) = (st, [])"
| "adv_step K st (Mountderef_write ubuf) = (case advanced_mountderef_write K st ubuf of (_, st', tr) \<Rightarrow> (st', tr))"

fun adv_run :: "kenv \<Rightarrow> adv_state \<Rightarrow> adv_call list \<Rightarrow> adv_state \<times> kcall list" where
  "adv_run K st [] = (st, [])"
| "adv_run K st (c # cs) =
     (case adv_step K st c of (st', tr) \<Rightarrow> (case adv_run K st' cs of (st'', tr') \<Rightarrow> (st'', tr @ tr')))"

definition adv_session :: "kenv \<Rightarrow> adv_call list \<Rightarrow> kcall list" where
  "adv_session K cs =
     (case advanced_init K of (rc, tr) \<Rightarrow>
        if rc \<noteq> 0 then tr
        else (case adv_run K adv_init_state cs of (st, tr') \<Rightarrow> tr @ tr' @ advanced_exit st))"

section \<open>Invariant of the static variables\<close>

text \<open>Documented behaviour of the kernel calls this module uses: a \<open>comm\<close> is shorter than
  \<open>TASK_COMM_LEN\<close> = 16, and a successful copy reports 0.\<close>

definition comm_ok :: "kenv \<Rightarrow> bool" where
  "comm_ok K \<longleftrightarrow> (\<forall>t. length (k_comm K t) < 16)"

definition adv_inv :: "adv_state \<Rightarrow> bool" where
  "adv_inv st \<longleftrightarrow>
     (process_name_len st = -1 \<or> process_name_len st = int (length (process_name st)))
     \<and> (case pathname st of None \<Rightarrow> True | Some n \<Rightarrow> pathname_len st = length n)"

lemma adv_inv_init: "adv_inv adv_init_state"
  by (simp add: adv_inv_def adv_init_state_def)

lemma comm_len: "comm_ok K \<Longrightarrow> s8 (int (length (k_comm K t))) = int (length (k_comm K t))"
  unfolding comm_ok_def by (drule spec [of _ t]) (simp add: c_simps)

lemma prname_write_inv:
  "adv_inv st \<Longrightarrow> comm_ok K \<Longrightarrow> advanced_prname_write K st ubuf = (r, st', tr) \<Longrightarrow> adv_inv st'"
  by (auto simp: advanced_prname_write_def adv_inv_def comm_len Let_def
      split: sum.splits option.splits if_splits)

lemma mountderef_write_inv:
  "adv_inv st \<Longrightarrow> advanced_mountderef_write K st ubuf = (r, st', tr) \<Longrightarrow> adv_inv st'"
  by (auto simp: advanced_mountderef_write_def adv_inv_def Let_def
      split: sum.splits option.splits if_splits)

lemma adv_step_inv: "adv_inv st \<Longrightarrow> comm_ok K \<Longrightarrow> adv_step K st c = (st', tr) \<Longrightarrow> adv_inv st'"
  by (cases c) (auto split: prod.splits dest: prname_write_inv mountderef_write_inv)

lemma adv_run_inv: "adv_inv st \<Longrightarrow> comm_ok K \<Longrightarrow> adv_run K st cs = (st', tr) \<Longrightarrow> adv_inv st'"
proof (induction cs arbitrary: st st' tr)
  case Nil
  then show ?case by simp
next
  case (Cons c cs)
  obtain st1 tr1 where 1: "adv_step K st c = (st1, tr1)" by fastforce
  obtain st2 tr2 where 2: "adv_run K st1 cs = (st2, tr2)" by fastforce
  from Cons.prems 1 2 show ?case
    using Cons.IH [OF adv_step_inv [OF Cons.prems(1,2) 1] Cons.prems(2) 2] by auto
qed

section \<open>Resources\<close>

definition adv_held :: "adv_state \<Rightarrow> kres list" where
  "adv_held st = (if pathname st = None then [] else [Mem ''pathname_buf''])"

lemma prname_write_calls:
  "advanced_prname_write K st ubuf = (r, st', tr) \<Longrightarrow> run_calls (adv_held st @ X) tr = Some (adv_held st' @ X)"
  by (auto simp: advanced_prname_write_def adv_held_def Let_def
      split: sum.splits option.splits if_splits)

lemma mountderef_write_calls:
  "advanced_mountderef_write K st ubuf = (r, st', tr) \<Longrightarrow>
   run_calls (adv_held st @ X) tr = Some (adv_held st' @ X)"
  by (auto simp: advanced_mountderef_write_def adv_held_def Let_def
      split: sum.splits option.splits if_splits)

lemma adv_step_calls: "adv_step K st c = (st', tr) \<Longrightarrow> run_calls (adv_held st @ X) tr = Some (adv_held st' @ X)"
  by (cases c) (auto split: prod.splits dest: prname_write_calls mountderef_write_calls)

lemma adv_run_calls: "adv_run K st cs = (st', tr) \<Longrightarrow> run_calls (adv_held st @ X) tr = Some (adv_held st' @ X)"
proof (induction cs arbitrary: st st' tr)
  case Nil
  then show ?case by simp
next
  case (Cons c cs)
  obtain st1 tr1 where 1: "adv_step K st c = (st1, tr1)" by fastforce
  obtain st2 tr2 where 2: "adv_run K st1 cs = (st2, tr2)" by fastforce
  from Cons.prems 1 2 show ?case
    using Cons.IH [OF 2] adv_step_calls [OF 1, of X] by (auto simp: run_calls_append_Some)
qed

section \<open>The devices serve their text\<close>

definition prname_ready :: "adv_state \<Rightarrow> bool" where
  "prname_ready st \<longleftrightarrow> 0 \<le> process_name_len st \<and> process_name_len st = int (length (process_name st))"

definition mountderef_text :: "adv_state \<Rightarrow> string" where
  "mountderef_text st = (case pathname st of None \<Rightarrow> [] | Some n \<Rightarrow> n)"

definition mountderef_ready :: "adv_state \<Rightarrow> bool" where
  "mountderef_ready st \<longleftrightarrow> (\<exists>n. pathname st = Some n \<and> pathname_len st = length n)"

definition jiffies_read :: "kenv \<Rightarrow> nat \<Rightarrow> int \<Rightarrow> int \<times> int \<times> string" where
  "jiffies_read K len pos = (case advanced_jiffies_read (copying K) len pos of
     Inl _ \<Rightarrow> (- EFAULT, pos, []) | Inr x \<Rightarrow> x)"

definition jiffies_ready :: "kenv \<Rightarrow> bool" where
  "jiffies_ready K \<longleftrightarrow> k_jiffies K < 2 ^ 64"

lemma take_min_drop: "take (min (length xs - k) n) (drop k xs) = take n (drop k xs)"
  by (simp add: min_def)

lemma nat_diff_pos: "0 \<le> pos \<Longrightarrow> nat (int n - pos) = n - nat pos"
  by simp

interpretation prname: pos_reader "advanced_prname_read (copying K)" process_name prname_ready for K
proof unfold_locales
  fix st len and pos :: int
  assume "prname_ready st" "0 \<le> pos"
  then show "advanced_prname_read (copying K) st len pos =
    (int (length (take len (drop (nat pos) (process_name st)))),
     pos + int (length (take len (drop (nat pos) (process_name st)))),
     take len (drop (nat pos) (process_name st)))"
    by (auto simp: advanced_prname_read_def prname_ready_def Let_def nat_diff_pos take_min_drop)
qed

interpretation mountderef: pos_reader "advanced_mountderef_read (copying K)" mountderef_text mountderef_ready for K
proof unfold_locales
  fix st len and pos :: int
  assume "mountderef_ready st" "0 \<le> pos"
  then show "advanced_mountderef_read (copying K) st len pos =
    (int (length (take len (drop (nat pos) (mountderef_text st)))),
     pos + int (length (take len (drop (nat pos) (mountderef_text st)))),
     take len (drop (nat pos) (mountderef_text st)))"
    by (auto simp: advanced_mountderef_read_def mountderef_ready_def mountderef_text_def Let_def
        nat_diff_pos take_min_drop)
qed

lemma jiffies_fits: "n < 2 ^ 64 \<Longrightarrow> length (show_nat n) \<le> 20"
  by (rule show_nat_length) simp_all

interpretation jiffies: pos_reader jiffies_read "\<lambda>K. show_nat (k_jiffies K)" jiffies_ready
proof unfold_locales
  fix K len and pos :: int
  assume r: "jiffies_ready K" and p: "0 \<le> pos"
  let ?t = "show_nat (k_jiffies K)"
  have l: "length ?t \<le> 20" using r by (simp add: jiffies_ready_def jiffies_fits)
  then show "jiffies_read K len pos =
    (int (length (take len (drop (nat pos) ?t))), pos + int (length (take len (drop (nat pos) ?t))),
     take len (drop (nat pos) ?t))"
    using p by (auto simp: jiffies_read_def advanced_jiffies_read_def Let_def nat_diff_pos take_min_drop)
qed

section \<open>Properties\<close>

text \<open>C34.  Every session of \<open>cw04/advanced\<close> (load, any calls on the three devices, any failure of
  the kernel calls, unload) gives back all memory, references and device registrations it acquired and
  never releases what it does not hold.\<close>

theorem adv_session_balanced: "balanced (adv_session K cs)"
proof (cases "fst (advanced_init K) = 0")
  case False
  then show ?thesis
    by (auto simp: adv_session_def advanced_init_def balanced_def Let_def split: if_splits)
next
  case True
  then have i: "advanced_init K =
      (0, [Acq (Misc ''prname''), Acq (Misc ''jiffies''), Acq (Misc ''mountderef'')])"
    by (auto simp: advanced_init_def Let_def split: if_splits)
  obtain st tr where r: "adv_run K adv_init_state cs = (st, tr)" by fastforce
  let ?X = "[Misc ''mountderef'', Misc ''jiffies'', Misc ''prname'']"
  have "run_calls ?X tr = Some (adv_held st @ ?X)"
    using adv_run_calls [OF r, of ?X] by (simp add: adv_held_def adv_init_state_def)
  then show ?thesis
    by (auto simp: balanced_def adv_session_def i r run_calls_append_Some advanced_exit_def adv_held_def)
qed

lemma prname_write_effect:
  assumes "k_kstrtol K ubuf = Inr pid" "1 \<le> pid" "pid < 2147483648"
    "k_find_get_pid K pid = Some pp" "k_get_pid_task K pp = Some t"
  shows "advanced_prname_write K st ubuf =
    (int (length ubuf), st\<lparr>process_name := k_comm K t, process_name_len := s8 (int (length (k_comm K t)))\<rparr>,
     [Acq PidRef, Acq TaskRef, Rel PidRef, Rel TaskRef])"
  using assms by (simp add: advanced_prname_write_def Let_def s32_id)

text \<open>The round trip through the \<open>prname\<close> device: after a successful write of a process id, a reader that
  reads with any buffer size until end of file gets exactly the name of that process.\<close>

theorem prname_write_read:
  assumes "comm_ok K" "k_kstrtol K ubuf = Inr pid" "1 \<le> pid" "pid < 2147483648"
    and "k_find_get_pid K pid = Some pp" "k_get_pid_task K pp = Some t"
    and "advanced_prname_write K st ubuf = (r, st', tr)" and "0 < bsize"
  shows "r = int (length ubuf) \<and> cat (advanced_prname_read (copying K) st') bsize 16 0 = k_comm K t"
proof -
  have e: "r = int (length ubuf)" "process_name st' = k_comm K t"
    "process_name_len st' = int (length (k_comm K t))"
    using assms(7) prname_write_effect [OF assms(2-6), of st] comm_len [OF assms(1), of t] by auto
  have l: "length (k_comm K t) < 16" using assms(1) by (simp add: comm_ok_def)
  have "prname_ready st'" using e by (simp add: prname_ready_def)
  then have "cat (advanced_prname_read (copying K) st') bsize 16 0 = process_name st'"
    by (rule prname.cat_content [OF _ assms(8)]) (simp add: e l)
  then show ?thesis using e by simp
qed

theorem prname_write_read_witness:
  "fst (advanced_prname_write kenv0 adv_init_state ''1'') = 1 \<and>
   cat (advanced_prname_read (copying kenv0)
     (fst (snd (advanced_prname_write kenv0 adv_init_state ''1'')))) 3 16 0 = ''init''"
proof -
  have c: "comm_ok kenv0" by (simp add: comm_ok_def kenv0_def)
  have p: "k_kstrtol kenv0 ''1'' = Inr 1" by (simp add: kenv0_def isdigit_def read_nat_def digit_val_def)
  show ?thesis
    using prname_write_read [OF c p, of 1 1 adv_init_state "fst (advanced_prname_write kenv0 adv_init_state ''1'')"
      "fst (snd (advanced_prname_write kenv0 adv_init_state ''1''))"
      "snd (snd (advanced_prname_write kenv0 adv_init_state ''1''))" 3]
    by (simp add: kenv0_def)
qed

text \<open>Reading the \<open>jiffies\<close> device never overruns \<open>jiffies_string[30]\<close>, and what a reader
  gets until end of file is the decimal form of the 64-bit counter: parsing it gives the counter back.\<close>

theorem jiffies_cat:
  assumes "k_jiffies K < 2 ^ 64" and "0 < bsize"
  shows "advanced_jiffies_read K len pos \<noteq> Inl OutOfBounds
    \<and> read_nat (cat (jiffies_read K) bsize 21 0) = k_jiffies K"
proof
  have l: "length (show_nat (k_jiffies K)) \<le> 20" by (rule jiffies_fits [OF assms(1)])
  then show "advanced_jiffies_read K len pos \<noteq> Inl OutOfBounds"
    by (auto simp: advanced_jiffies_read_def Let_def)
  have "cat (jiffies_read K) bsize 21 0 = show_nat (k_jiffies K)"
    by (rule jiffies.cat_content) (use l assms in \<open>simp_all add: jiffies_ready_def\<close>)
  then show "read_nat (cat (jiffies_read K) bsize 21 0) = k_jiffies K" by (simp add: read_show_nat)
qed

theorem jiffies_cat_witness:
  "read_nat (cat (jiffies_read kenv0) 4 21 0) = 4294937296"
  using jiffies_cat [of kenv0 4 0 0] by (simp add: kenv0_def)

text \<open>The contract of the three read operations whatever the kernel does: at most \<open>len\<close> bytes reach the
  user; a non-negative result is the number of bytes delivered and the advance of the file position; a
  negative result leaves the position alone.\<close>

theorem advanced_read_contract:
  assumes "adv_inv st" and "k_jiffies K < 2 ^ 64"
  shows "read_contract len pos (advanced_prname_read K st len pos)
    \<and> read_contract len pos (advanced_mountderef_read K st len pos)
    \<and> (\<exists>x. advanced_jiffies_read K len pos = Inr x \<and> read_contract len pos x)"
proof (intro conjI)
  show "read_contract len pos (advanced_prname_read K st len pos)"
    using assms(1)
    by (auto simp: advanced_prname_read_def read_contract_def adv_inv_def Let_def errno_defs
        intro!: copied_out_le)
  show "read_contract len pos (advanced_mountderef_read K st len pos)"
    using assms(1)
    by (auto simp: advanced_mountderef_read_def read_contract_def adv_inv_def Let_def errno_defs
        intro!: copied_out_le split: option.splits)
  have "length (show_nat (k_jiffies K)) \<le> 20" using jiffies_fits [OF assms(2)] .
  then show "\<exists>x. advanced_jiffies_read K len pos = Inr x \<and> read_contract len pos x"
    by (auto simp: advanced_jiffies_read_def read_contract_def Let_def errno_defs intro!: copied_out_le)
qed

theorem advanced_read_contract_witness:
  "read_contract 7 0 (advanced_prname_read kenv0 adv_init_state 7 0) \<and>
   (\<exists>x. advanced_jiffies_read kenv0 7 0 = Inr x \<and> read_contract 7 0 x)"
  using advanced_read_contract [OF adv_inv_init, of kenv0 7 0] by (simp add: kenv0_def)

text \<open>Documented behaviour of the path functions: what they report on failure is a negative error code.\<close>

definition path_errors_ok :: "kenv \<Rightarrow> bool" where
  "path_errors_ok K \<longleftrightarrow> (\<forall>s. case k_kern_path K s of Inl e \<Rightarrow> e < 0 | Inr _ \<Rightarrow> True)
     \<and> (\<forall>m n. case k_d_path K m n of Inl e \<Rightarrow> e < 0 | Inr _ \<Rightarrow> True)"

lemma path_errors_neg:
  "path_errors_ok K \<Longrightarrow> k_kern_path K s = Inl e \<Longrightarrow> e < 0"
  "path_errors_ok K \<Longrightarrow> k_d_path K m n = Inl e \<Longrightarrow> e < 0"
  unfolding path_errors_ok_def by (metis sum.case(1))+

lemma mountderef_write_cases:
  assumes "path_errors_ok K" "advanced_mountderef_write K st ubuf = (r, st', tr)"
  obtains (failed) "r < 0" "st' = st"
  | (written) mnt name where "r = int (length ubuf)" "k_kern_path K (cstr (ubuf @ [NUL])) = Inr mnt"
      "k_d_path K mnt (length ubuf + 1) = Inr name"
      "st' = st\<lparr>pathname := Some name, pathname_len := length name\<rparr>"
  using assms
  by (auto simp: advanced_mountderef_write_def Let_def errno_defs path_errors_neg
      split: if_splits sum.splits)

text \<open>C37.  The round trip through the \<open>mountderef\<close> device: a write that reports success reports the whole
  text, and reading to the end of the file then gives the path of the root of the mount that the written path
  lies on; a write that reports an error leaves the device as it was.\<close>

theorem mountderef_write_read:
  assumes "path_errors_ok K" "advanced_mountderef_write K st ubuf = (r, st', tr)" "0 < bsize"
  shows "if 0 \<le> r
    then r = int (length ubuf) \<and> (\<exists>mnt name. k_kern_path K (cstr (ubuf @ [NUL])) = Inr mnt
      \<and> k_d_path K mnt (length ubuf + 1) = Inr name
      \<and> cat (advanced_mountderef_read (copying K) st') bsize (Suc (length name)) 0 = name)
    else st' = st"
  using assms(1,2)
proof (cases rule: mountderef_write_cases)
  case failed
  then show ?thesis by simp
next
  case (written mnt name)
  then have "mountderef_ready st'" "mountderef_text st' = name"
    by (simp_all add: mountderef_ready_def mountderef_text_def)
  then show ?thesis using mountderef.cat_content [of st' bsize "Suc (length name)" K] assms(3) written by simp
qed

theorem mountderef_write_read_witness:
  "\<exists>name. k_d_path kenv0 1 5 = Inr name \<and> cat (advanced_mountderef_read (copying kenv0)
     (fst (snd (advanced_mountderef_write kenv0 adv_init_state ''/usr'')))) 3 (Suc (length name)) 0 = name"
proof -
  have e: "path_errors_ok kenv0" by (simp add: path_errors_ok_def)
  have w: "advanced_mountderef_write kenv0 adv_init_state ''/usr'' =
      (4, fst (snd (advanced_mountderef_write kenv0 adv_init_state ''/usr'')),
       snd (snd (advanced_mountderef_write kenv0 adv_init_state ''/usr'')))"
    by (simp add: advanced_mountderef_write_def Let_def)
  show ?thesis using mountderef_write_read [OF e w, of 3] by simp
qed

end
