(* ===== verification/Backdoor03.thy ===== *)
theory Backdoor03 imports KernelApi begin

text \<open>
  \<open>cw03/modules/backdoor/backdoor.c\<close>: a write-only device that gives the writing process the
  identity of root when the password is written.  \<open>creds\<close> holds the user identities of the
  current process; \<open>backdoor_write\<close> is the handler, \<open>backdoor_init\<close> and \<open>backdoor_exit\<close> the module's
  entry points.  Shown: exactly which writes change the credentials, that nothing else does, and
  the absence of overruns of \<open>user_text[40]\<close>.
\<close>

record creds =
  uid :: int
  suid :: int
  euid :: int
  fsuid :: int

definition backdoor_password :: string where
  "backdoor_password = ''h1ck3d'' @ [CHR 0x0A]"

definition backdoor_write :: "kenv \<Rightarrow> creds \<Rightarrow> string \<Rightarrow> fault + int \<times> creds" where
  "backdoor_write K cr ubuf =
     (let count = length ubuf; user_text = zeros 40 in
      if count \<ge> 40 then Inr (int count, cr)
      else if k_copy_from_user K 0 count \<noteq> 0 then Inr (- EFAULT, cr)
      else let user_text = blit user_text 0 (copied_in K ubuf 0 count) in
      if \<not> is_cstr user_text then Inl OutOfBounds
      else if cstr user_text \<noteq> backdoor_password then Inr (int count, cr)
      else if \<not> k_prepare_creds K then Inl NullDeref
      else Inr (int count, cr\<lparr>uid := 0, suid := 0, euid := 0, fsuid := 0\<rparr>))"

definition backdoor_init :: "kenv \<Rightarrow> int \<times> kcall list" where
  "backdoor_init K =
     (let ret = k_misc_register K ''backdoor'' in (ret, if ret = 0 then [Acq (Misc ''backdoor'')] else []))"

definition backdoor_exit :: "kcall list" where
  "backdoor_exit = [Rel (Misc ''backdoor'')]"

lemma backdoor_text:
  assumes "length ubuf < 40"
  shows "is_cstr (blit (zeros 40) 0 ubuf)" "cstr (blit (zeros 40) 0 ubuf) = cstr (ubuf @ [NUL])"
proof -
  have "40 - length ubuf = Suc (39 - length ubuf)" using assms by simp
  then have "replicate (40 - length ubuf) NUL = NUL # replicate (39 - length ubuf) NUL" by simp
  then have b: "blit (zeros 40) 0 ubuf = ubuf @ NUL # zeros (39 - length ubuf)"
    by (simp add: blit_def zeros_def)
  show "is_cstr (blit (zeros 40) 0 ubuf)" by (simp add: b is_cstr_def)
  show "cstr (blit (zeros 40) 0 ubuf) = cstr (ubuf @ [NUL])"
    unfolding b by (rule cstr_nul_rest)
qed

text \<open>The backdoor opens on the password only: with user memory accessible, a write changes
  the credentials if and only if it is shorter than 40 bytes, its text up to the first zero byte is the
  password (and the new credentials are all zero then); it always reports the whole write as accepted, and
  the 40-byte buffer is never overrun.\<close>

theorem backdoor_write_effect:
  assumes "k_prepare_creds K"
  shows "backdoor_write (copying K) cr ubuf =
    Inr (int (length ubuf),
      if length ubuf < 40 \<and> cstr (ubuf @ [NUL]) = backdoor_password
      then cr\<lparr>uid := 0, suid := 0, euid := 0, fsuid := 0\<rparr> else cr)"
  using assms backdoor_text [of ubuf]
  by (auto simp: backdoor_write_def Let_def copied_in_all copying_def)

theorem backdoor_write_effect_witness:
  "backdoor_write (copying kenv0) \<lparr>uid = 1000, suid = 1000, euid = 1000, fsuid = 1000\<rparr> backdoor_password =
   Inr (7, \<lparr>uid = 0, suid = 0, euid = 0, fsuid = 0\<rparr>)"
proof -
  have p: "cstr (backdoor_password @ [NUL]) = backdoor_password" "length backdoor_password = 7"
    by (simp_all add: backdoor_password_def cstr_def NUL_def)
  show ?thesis using backdoor_write_effect [of kenv0] by (simp add: p)
qed

text \<open>Whatever the kernel calls do, no outcome of a write raises a privilege without the password:
  every result either keeps the credentials or the text written was the password.\<close>

theorem backdoor_no_escalation:
  assumes "backdoor_write K cr ubuf = Inr (r, cr')" and "cr' \<noteq> cr"
  shows "cstr (ubuf @ [NUL]) = backdoor_password \<and> length ubuf < 40"
proof -
  from assms have l: "length ubuf < 40" and k: "k_copy_from_user K 0 (length ubuf) = 0"
    and p: "cstr (blit (zeros 40) 0 (copied_in K ubuf 0 (length ubuf))) = backdoor_password"
    by (auto simp: backdoor_write_def Let_def split: if_splits)
  then show ?thesis using backdoor_text(2) [OF l] by (simp add: copied_in_all)
qed

theorem backdoor_no_escalation_witness:
  "\<exists>r cr'. backdoor_write (copying kenv0) \<lparr>uid = 1000, suid = 1000, euid = 1000, fsuid = 1000\<rparr> backdoor_password
      = Inr (r, cr') \<and> uid cr' = 0 \<and> cstr (backdoor_password @ [NUL]) = backdoor_password"
proof -
  let ?c = "\<lparr>uid = 1000, suid = 1000, euid = 1000, fsuid = (1000::int)\<rparr> :: creds"
  have w: "backdoor_write (copying kenv0) ?c backdoor_password = Inr (7, ?c\<lparr>uid := 0, suid := 0, euid := 0, fsuid := 0\<rparr>)"
    by (simp add: backdoor_write_def backdoor_password_def Let_def copied_in_def copying_def blit_def
        zeros_def is_cstr_def cstr_def NUL_def)
  show ?thesis using backdoor_no_escalation [OF w] w by (intro exI conjI) auto
qed

end
