(* ===== verification/Advanced03.thy ===== *)
theory Advanced03 imports KernelApi begin

text \<open>
  \<open>cw03/modules/advanced/advanced.c\<close>: the first version of the devices \<open>prname\<close> and \<open>jiffies\<close>.
  \<open>adv03_state\<close> holds the globals \<open>task_name\<close> and \<open>task_name_len\<close>; the operations are named as in
  the file with the suffix 03.  Both reads ignore the size of the user's buffer (interpretations
  of \<open>whole_reader\<close>), \<open>prname_write\<close> copies any number of bytes into an array of 20, and the
  module's entry point ignores whether the registrations succeed.  Shown: on which inputs each of this
  matters, and what the operations do otherwise.
\<close>

record adv03_state =
  task_name :: string
  task_name_len :: int

definition adv03_state0 :: adv03_state where
  "adv03_state0 = \<lparr>task_name = [], task_name_len = 0\<rparr>"

section \<open>The prname device\<close>

definition prname_write03 ::
  "kenv \<Rightarrow> adv03_state \<Rightarrow> string \<Rightarrow> fault + int \<times> adv03_state \<times> kcall list" where
  "prname_write03 K st ubuf =
     (let count = length ubuf; num_from_user = zeros 20 in
      if count > 20 then Inl OutOfBounds
      else if k_copy_from_user K 0 count \<noteq> 0 then Inr (- EFAULT, st, [])
      else let num_from_user = blit num_from_user 0 (copied_in K ubuf 0 count) in
      if \<not> is_cstr num_from_user then Inl OutOfBounds
      else (case k_kstrtol K (cstr num_from_user) of
          Inl _ \<Rightarrow> Inr (- EFAULT, st, [])
        | Inr pid \<Rightarrow>
            if pid < 1 then Inr (- EINVAL, st, [])
            else (case k_find_get_pid K (s32 pid) of
                None \<Rightarrow> Inr (- EFAULT, st, [])
              | Some found_pid \<Rightarrow>
                  (case k_get_pid_task K found_pid of
                     None \<Rightarrow> Inr (- EFAULT, st, [Acq PidRef, Rel PidRef])
                   | Some task \<Rightarrow>
                       let st' = st\<lparr>task_name := k_comm K task,
                           task_name_len := int (length (k_comm K task))\<rparr> in
                       Inr (task_name_len st', st', [Acq PidRef, Acq TaskRef, Rel PidRef, Rel TaskRef])))))"

definition crlf :: string where
  "crlf = [CHR 0x0D, CHR 0x0A]"

text \<open>The result of the second copy is not looked at.\<close>

definition prname_read03 :: "kenv \<Rightarrow> adv03_state \<Rightarrow> nat \<Rightarrow> int \<Rightarrow> int \<times> int \<times> string" where
  "prname_read03 K st count f_pos =
     (if f_pos \<ge> task_name_len st then (0, f_pos, [])
      else let n = nat (task_name_len st); name = take n (task_name st) in
      if k_copy_to_user K 0 n \<noteq> 0 then (- EFAULT, f_pos, copied_out K 0 name)
      else (task_name_len st + 2, f_pos + (task_name_len st + 2), name @ copied_out K n crlf))"

section \<open>The jiffies device\<close>

definition jiffies_read03 :: "kenv \<Rightarrow> nat \<Rightarrow> int \<Rightarrow> fault + int \<times> int \<times> string" where
  "jiffies_read03 K count f_pos =
     (let text = show_nat (k_jiffies K) @ crlf in
      if length text + 1 > 45 then Inl OutOfBounds
      else let jiffies_buff_len = int (length text) in
      if f_pos \<ge> jiffies_buff_len then Inr (0, f_pos, [])
      else if k_copy_to_user K 0 (length text) \<noteq> 0 then Inr (- EFAULT, f_pos, copied_out K 0 text)
      else Inr (jiffies_buff_len, f_pos + jiffies_buff_len, text))"

section \<open>Module init and exit\<close>

definition misc_acq :: "kenv \<Rightarrow> string \<Rightarrow> kcall list" where
  "misc_acq K name = (if k_misc_register K name = 0 then [Acq (Misc name)] else [])"

definition zad2_init03 :: "kenv \<Rightarrow> int \<times> kcall list" where
  "zad2_init03 K = (0, misc_acq K ''prname'' @ misc_acq K ''jiffies'')"

definition zad2_exit03 :: "kcall list" where
  "zad2_exit03 = [Rel (Misc ''prname''), Rel (Misc ''jiffies'')]"

text \<open>A session: the writes to \<open>prname\<close> between load and unload (the reads acquire nothing).  A
  write that overruns its buffer ends the session.\<close>

fun adv03_run :: "kenv \<Rightarrow> adv03_state \<Rightarrow> string list \<Rightarrow> fault + adv03_state \<times> kcall list" where
  "adv03_run K st [] = Inr (st, [])"
| "adv03_run K st (w # ws) =
     (case prname_write03 K st w of
        Inl e \<Rightarrow> Inl e
      | Inr (_, st', tr) \<Rightarrow>
          (case adv03_run K st' ws of Inl e \<Rightarrow> Inl e | Inr (st'', tr') \<Rightarrow> Inr (st'', tr @ tr')))"

definition adv03_session :: "kenv \<Rightarrow> string list \<Rightarrow> fault + kcall list" where
  "adv03_session K ws =
     (case zad2_init03 K of (rc, tr) \<Rightarrow>
        if rc \<noteq> 0 then Inr tr
        else (case adv03_run K adv03_state0 ws of
            Inl e \<Rightarrow> Inl e
          | Inr (st, tr') \<Rightarrow> Inr (tr @ tr' @ zad2_exit03)))"

section \<open>Lemmas\<close>

definition prname_ready03 :: "adv03_state \<Rightarrow> bool" where
  "prname_ready03 st \<longleftrightarrow> task_name st \<noteq> [] \<and> task_name_len st = int (length (task_name st))"

interpretation prname03: whole_reader "prname_read03 (copying K)" "\<lambda>st. task_name st @ crlf"
    task_name_len prname_ready03 for K
  by unfold_locales (auto simp: prname_read03_def prname_ready03_def crlf_def copied_out_all)

definition jiffies_read_ok03 :: "kenv \<Rightarrow> nat \<Rightarrow> int \<Rightarrow> int \<times> int \<times> string" where
  "jiffies_read_ok03 K len pos = (case jiffies_read03 (copying K) len pos of
     Inl _ \<Rightarrow> (- EFAULT, pos, []) | Inr x \<Rightarrow> x)"

lemma jiffies_fits03: "n < 2 ^ 64 \<Longrightarrow> length (show_nat n) \<le> 20"
  by (rule show_nat_length) simp_all

lemma jiffies_read03_ok:
  "k_jiffies K < 2 ^ 64 \<Longrightarrow> jiffies_read03 (copying K) len pos =
     Inr (if pos \<ge> int (length (show_nat (k_jiffies K) @ crlf)) then (0, pos, [])
       else (int (length (show_nat (k_jiffies K) @ crlf)),
         pos + int (length (show_nat (k_jiffies K) @ crlf)), show_nat (k_jiffies K) @ crlf))"
  using jiffies_fits03 [of "k_jiffies K"] by (simp add: jiffies_read03_def Let_def crlf_def)

interpretation jiffies03: whole_reader jiffies_read_ok03 "\<lambda>K. show_nat (k_jiffies K) @ crlf"
    "\<lambda>K. int (length (show_nat (k_jiffies K) @ crlf))" "\<lambda>K. k_jiffies K < 2 ^ 64"
  by unfold_locales (auto simp: jiffies_read_ok03_def jiffies_read03_ok, simp add: crlf_def)

lemma prname_write03_calls:
  "prname_write03 K st w = Inr (r, st', tr) \<Longrightarrow> run_calls X tr = Some X"
  by (auto simp: prname_write03_def Let_def split: if_splits sum.splits option.splits)

lemma adv03_run_calls: "adv03_run K st ws = Inr (st', tr) \<Longrightarrow> run_calls X tr = Some X"
proof (induction ws arbitrary: st st' tr)
  case Nil
  then show ?case by simp
next
  case (Cons w ws)
  then obtain r st1 tr1 tr2 where 1: "prname_write03 K st w = Inr (r, st1, tr1)"
    and 2: "adv03_run K st1 ws = Inr (st', tr2)" "tr = tr1 @ tr2"
    by (auto split: sum.splits prod.splits)
  then show ?case using Cons.IH [OF 2(1)] prname_write03_calls [OF 1] by (simp add: run_calls_append)
qed

section \<open>Properties\<close>

text \<open>A session of the cw03 module that ends gives back exactly what it acquired if and
  only if both registrations succeeded: the entry point does not look at their results, so the exit
  point deregisters a device that was never registered.\<close>

theorem adv03_session_balanced:
  assumes "adv03_session K ws = Inr tr"
  shows "balanced tr \<longleftrightarrow> k_misc_register K ''prname'' = 0 \<and> k_misc_register K ''jiffies'' = 0"
proof -
  from assms obtain st tr' where r: "adv03_run K adv03_state0 ws = Inr (st, tr')"
    and t: "tr = (misc_acq K ''prname'' @ misc_acq K ''jiffies'') @ tr' @ zad2_exit03"
    by (auto simp: adv03_session_def zad2_init03_def split: sum.splits)
  show ?thesis using adv03_run_calls [OF r]
    by (simp add: t balanced_def run_calls_append misc_acq_def zad2_exit03_def)
qed

theorem adv03_session_balanced_witness:
  "\<exists>tr. adv03_session kenv0 [] = Inr tr \<and> balanced tr"
proof -
  have s: "adv03_session kenv0 [] = Inr ((misc_acq kenv0 ''prname'' @ misc_acq kenv0 ''jiffies'') @ zad2_exit03)"
    by (simp add: adv03_session_def zad2_init03_def)
  show ?thesis using adv03_session_balanced [OF s] s by simp
qed

lemma blit_zeros: "length s \<le> n \<Longrightarrow> blit (zeros n) 0 s = s @ zeros (n - length s)"
  by (simp add: blit_def zeros_def)

lemma is_cstr_padded: "length s \<le> n \<Longrightarrow> is_cstr (s @ zeros (n - length s)) \<longleftrightarrow> NUL \<in> set s \<or> length s < n"
  by (auto simp: is_cstr_def zeros_def)

text \<open>\<open>prname_write\<close> of the cw03 module leaves its array \<open>num_from_user[20]\<close> exactly when more
  than 20 bytes are written, or when 20 accessible bytes without a zero byte are.\<close>

theorem prname_write03_overrun:
  "prname_write03 K st ubuf = Inl e \<longleftrightarrow> e = OutOfBounds \<and>
     (20 < length ubuf \<or> length ubuf = 20 \<and> k_copy_from_user K 0 20 = 0 \<and> NUL \<notin> set ubuf)"
proof (cases "20 < length ubuf")
  case True
  then show ?thesis by (auto simp: prname_write03_def Let_def)
next
  case False
  then have l: "length ubuf \<le> 20" by simp
  show ?thesis
  proof (cases "k_copy_from_user K 0 (length ubuf) = 0")
    case True
    have b: "blit (zeros 20) 0 (copied_in K ubuf 0 (length ubuf)) = ubuf @ zeros (20 - length ubuf)"
      using l by (simp add: copied_in_all [OF True] blit_zeros)
    have "prname_write03 K st ubuf = Inl e \<longleftrightarrow> \<not> is_cstr (ubuf @ zeros (20 - length ubuf)) \<and> e = OutOfBounds"
      using True l by (auto simp: prname_write03_def b Let_def split: sum.split option.split)
    with True l show ?thesis by (auto simp: is_cstr_padded)
  next
    case False
    with l show ?thesis by (auto simp: prname_write03_def Let_def)
  qed
qed

text \<open>After a successful write of a process id to the cw03 \<open>prname\<close> device the result is the
  length of the name (not of the written text), a reader with a sufficient buffer gets the name and
  CR LF, and a buffer shorter than that is overrun by the read.\<close>

theorem prname_write_read03:
  assumes "prname_write03 K st ubuf = Inr (r, st', tr)" and "0 \<le> r" and "\<And>t. k_comm K t \<noteq> []"
  shows "\<exists>t. r = int (length (k_comm K t)) \<and>
      cat (prname_read03 (copying K) st') bsize 2 0 = k_comm K t @ crlf \<and>
      (read_contract len 0 (prname_read03 (copying K) st' len 0) \<longleftrightarrow> length (k_comm K t) + 2 \<le> len)"
proof -
  obtain t where t: "st' = st\<lparr>task_name := k_comm K t, task_name_len := int (length (k_comm K t))\<rparr>"
    "r = int (length (k_comm K t))"
    using assms(1,2) by (auto simp: prname_write03_def Let_def errno_defs split: if_splits sum.splits option.splits)
  then have "prname_ready03 st'" using assms(3) by (simp add: prname_ready03_def)
  then show ?thesis
    using t prname03.cat_whole [of st' K bsize 0] prname03.contract_iff [of st' 0 len] assms(3)
    by (intro exI [of _ t]) (simp add: crlf_def numeral_2_eq_2)
qed

theorem prname_write_read03_witness:
  "\<exists>st' tr. prname_write03 kenv0 adv03_state0 ''1'' = Inr (4, st', tr) \<and>
     \<not> read_contract 3 0 (prname_read03 (copying kenv0) st' 3 0)"
proof -
  have c: "cstr (''1'' @ zeros 19) = ''1''" by (rule cstr_zeros) (simp_all add: NUL_def)
  have w: "prname_write03 kenv0 adv03_state0 ''1'' = Inr (4, \<lparr>task_name = ''init'', task_name_len = 4\<rparr>,
      [Acq PidRef, Acq TaskRef, Rel PidRef, Rel TaskRef])"
    using c by (simp add: prname_write03_def Let_def copied_in_all blit_zeros is_cstr_padded [of "''1''" 20, simplified]
        kenv0_def isdigit_def read_nat_def digit_val_def adv03_state0_def)
  show ?thesis using prname_write_read03 [OF w, of 1 3] w by (intro exI conjI) auto
qed

text \<open>Reading the cw03 \<open>jiffies\<close> device: the buffer \<open>jiffies_buff[45]\<close> is never overrun, a reader gets
  the decimal form of the counter and CR LF, and the size of the user's buffer is respected
  only by chance.\<close>

theorem jiffies_read03_text:
  assumes "k_jiffies K < 2 ^ 64"
  shows "jiffies_read03 K len pos \<noteq> Inl e
    \<and> cat (jiffies_read_ok03 K) bsize 2 0 = show_nat (k_jiffies K) @ crlf
    \<and> (read_contract len 0 (jiffies_read_ok03 K len 0) \<longleftrightarrow> length (show_nat (k_jiffies K)) + 2 \<le> len)"
  using jiffies_fits03 [OF assms] jiffies03.cat_whole [OF assms, of bsize 0]
    jiffies03.contract_iff [OF assms, of 0 len]
  by (auto simp: jiffies_read03_def Let_def crlf_def numeral_2_eq_2)

theorem jiffies_read03_text_witness:
  "cat (jiffies_read_ok03 kenv0) 4096 2 0 = show_nat 4294937296 @ crlf"
  using jiffies_read03_text [of kenv0 0 0 OutOfBounds 4096] by simp

end
