(* ===== verification/Circular03.thy ===== *)
theory Circular03 imports KernelApi begin

text \<open>
  \<open>cw03/modules/circular/circular.c\<close>: a character device over a ring buffer whose size is set
  through \<open>/proc/circular\<close>.  \<open>circ_state\<close> holds the globals; the block \<open>buff\<close> points to is part of
  it (\<open>None\<close> is the NULL pointer, \<open>Some []\<close> the pointer \<open>krealloc\<close> returns for size 0).
  \<open>circular_loop\<close> is the copying loop of \<open>circular_write\<close> with fuel; \<open>ring_put\<close> is its
  specification, one byte at a time.  Shown: the loop ends and implements \<open>ring_put\<close>, writes
  through fresh opens continue each other, where a second write through the same open file lands,
  what resizing does on every input, and which sessions release what they acquired.
\<close>

definition BUFF_INITIAL_SIZE :: nat where "BUFF_INITIAL_SIZE = 40"
definition CIRCULAR_MAJOR :: int where "CIRCULAR_MAJOR = 199"

record circ_state =
  buff :: "string option"
  buff_size :: int
  buff_idx :: int
  proc_entry :: bool

definition circ_state0 :: circ_state where
  "circ_state0 = \<lparr>buff = None, buff_size = 0, buff_idx = 0, proc_entry = False\<rparr>"

text \<open>The memory behind \<open>buff\<close>: NULL and the size-0 pointer own nothing.\<close>

definition buff_held :: "circ_state \<Rightarrow> kres list" where
  "buff_held st = (if buff st = None \<or> buff st = Some [] then [] else [Mem ''buff''])"

section \<open>Init and exit\<close>

definition circular_init :: "kenv \<Rightarrow> int \<times> circ_state \<times> kcall list" where
  "circular_init K =
     (let st = circ_state0; result = k_register_chrdev K CIRCULAR_MAJOR ''circular'';
          reg = (if result < 0 then [] else [Acq (Chrdev CIRCULAR_MAJOR ''circular'')]);
          err = (\<lambda>result st.
             (result, st,
              (if proc_entry st then [Rel (ProcEntry ''circular'')] else []) @
              (if result = - ENOMEM then [Rel (Chrdev CIRCULAR_MAJOR ''circular'')] else []) @
              map Rel (buff_held st)))
      in if result < 0 then err result st
      else if \<not> k_proc_create K ''circular'' then
        (case err result st of (r, st, tr) \<Rightarrow> (r, st, reg @ tr))
      else let st = st\<lparr>proc_entry := True, buff_size := int BUFF_INITIAL_SIZE\<rparr>;
               tr1 = reg @ [Acq (ProcEntry ''circular'')] in
      if \<not> k_kmalloc K ''circular_init'' (int BUFF_INITIAL_SIZE) then
        (case err (- ENOMEM) st of (r, st, tr) \<Rightarrow> (r, st, tr1 @ tr))
      else (0, st\<lparr>buff := Some (zeros BUFF_INITIAL_SIZE)\<rparr>, tr1 @ [Acq (Mem ''buff'')]))"

definition circular_exit :: "circ_state \<Rightarrow> kcall list" where
  "circular_exit st =
     (if proc_entry st then [Rel (ProcEntry ''circular'')] else []) @
     [Rel (Chrdev CIRCULAR_MAJOR ''circular'')] @ map Rel (buff_held st)"

section \<open>The device\<close>

text \<open>\<open>to_copy\<close> is a \<open>size_t\<close>, so both sides of the comparison are 64-bit unsigned.\<close>

definition circular_read :: "kenv \<Rightarrow> circ_state \<Rightarrow> nat \<Rightarrow> int \<Rightarrow> fault + int \<times> int \<times> string" where
  "circular_read K st count f_pos =
     (let to_copy = u64 (buff_size st) in
      if u64 f_pos \<ge> to_copy then Inr (0, f_pos, [])
      else (case buff st of
          None \<Rightarrow> Inl NullDeref
        | Some b \<Rightarrow>
            if nat to_copy > length b then Inl OutOfBounds
            else let src = take (nat to_copy) b in
            if k_copy_to_user K 0 (nat to_copy) \<noteq> 0 then Inr (- EFAULT, f_pos, copied_out K 0 src)
            else Inr (s64 to_copy, s64 (f_pos + to_copy), src)))"

text \<open>One round of the loop copies up to the end of the buffer.  The result of the copy is not looked
  at; what could not be copied is zero.  The state of the loop is the buffer, the number of bytes still
  to copy and the position.\<close>

fun circular_loop ::
  "kenv \<Rightarrow> int \<Rightarrow> string \<Rightarrow> nat \<Rightarrow> string option \<Rightarrow> nat \<Rightarrow> int \<Rightarrow> fault + string option \<times> int" where
  "circular_loop K sz ubuf 0 b count f_pos = Inl NonTerminating"
| "circular_loop K sz ubuf (Suc fuel) b count f_pos =
     (if count = 0 then Inr (b, f_pos)
      else let tmp_cnt = (if u64 (int count + f_pos) \<ge> u64 sz then u64 (sz - f_pos) else int count);
               data = copied_in K ubuf (length ubuf - count) (nat tmp_cnt) in
      (case b of
         None \<Rightarrow> Inl NullDeref
       | Some blk \<Rightarrow>
           if f_pos < 0 \<or> nat tmp_cnt > count \<or> nat (f_pos + tmp_cnt) > length blk then Inl OutOfBounds
           else circular_loop K sz ubuf fuel (Some (blit blk (nat f_pos) data)) (count - nat tmp_cnt)
                  (u64 (f_pos + tmp_cnt) mod u64 sz)))"

definition circular_write :: "kenv \<Rightarrow> circ_state \<Rightarrow> string \<Rightarrow> int \<Rightarrow> fault + int \<times> int \<times> circ_state" where
  "circular_write K st ubuf f_pos =
     (if buff_size st = 0 then Inl DivideByZero
      else let f_pos = c_mod (f_pos + buff_idx st) (buff_size st) in
      (case circular_loop K (buff_size st) ubuf (Suc (length ubuf)) (buff st) (length ubuf) f_pos of
         Inl e \<Rightarrow> Inl e
       | Inr (b, f_pos) \<Rightarrow> Inr (int (length ubuf), f_pos, st\<lparr>buff := b, buff_idx := s32 f_pos\<rparr>)))"

section \<open>The proc entry\<close>

text \<open>\<open>krealloc\<close> keeps the common part and leaves the rest undefined; for size 0 it frees.\<close>

definition krealloc :: "kenv \<Rightarrow> string option \<Rightarrow> nat \<Rightarrow> string option \<times> kcall list" where
  "krealloc K b n =
     (let old = (case b of None \<Rightarrow> [] | Some x \<Rightarrow> x); rel = (if old = [] then [] else [Rel (Mem ''buff'')]) in
      if n = 0 then (Some [], rel)
      else if k_kmalloc K ''krealloc'' (int n)
      then (Some (take n old @ map (k_junk K) [length old..<n]), rel @ [Acq (Mem ''buff'')])
      else (None, []))"

text \<open>\<open>memset\<close> of what the buffer grew by.\<close>

definition clear_growth :: "string option \<Rightarrow> int \<Rightarrow> int \<Rightarrow> fault + string option" where
  "clear_growth b old num =
     (if num > old then
        (case b of
           None \<Rightarrow> Inl NullDeref
         | Some blk \<Rightarrow>
             if old < 0 \<or> length blk < nat num then Inl OutOfBounds
             else Inr (Some (blit blk (nat old) (zeros (nat (num - old))))))
      else Inr b)"

definition circular_write_proc :: "kenv \<Rightarrow> circ_state \<Rightarrow> string \<Rightarrow> fault + int \<times> circ_state \<times> kcall list" where
  "circular_write_proc K st ubuf =
     (let count = length ubuf; num_buf = Mem ''num_buf'' in
      if \<not> k_kmalloc K ''num_buf'' (s32 (int count) + 1) then Inl NullDeref
      else if k_copy_from_user K 0 count \<noteq> 0 then Inr (- EFAULT, st, [Acq num_buf])
      else (case k_kstrtol K (cstr (ubuf @ [NUL])) of
          Inl _ \<Rightarrow> Inl UninitRead
        | Inr num \<Rightarrow>
            (case krealloc K (buff st) (nat (u64 num)) of
               (b, tr) \<Rightarrow>
                 let tr = [Acq num_buf, Rel num_buf] @ tr in
                 (case clear_growth b (buff_size st) num of
                    Inl e \<Rightarrow> Inl e
                  | Inr b \<Rightarrow>
                      let st = st\<lparr>buff := b, buff_size := s32 num\<rparr>;
                          st = (if buff_idx st \<ge> buff_size st then st\<lparr>buff_idx := 0\<rparr> else st)
                      in Inr (int count, st, tr)))))"

definition circular_read_proc :: "nat \<Rightarrow> int \<Rightarrow> int \<times> int \<times> string" where
  "circular_read_proc count f_pos = (0, f_pos, [])"

section \<open>Sessions\<close>

datatype circ_call = Circ_read nat int | Circ_write string int | Circ_read_proc | Circ_write_proc string

fun circ_step :: "kenv \<Rightarrow> circ_state \<Rightarrow> circ_call \<Rightarrow> fault + circ_state \<times> kcall list" where
  "circ_step K st (Circ_read count f_pos) =
     (case circular_read K st count f_pos of Inl e \<Rightarrow> Inl e | Inr _ \<Rightarrow> Inr (st, []))"
| "circ_step K st (Circ_write ubuf f_pos) =
     (case circular_write K st ubuf f_pos of Inl e \<Rightarrow> Inl e | Inr (_, _, st') \<Rightarrow> Inr (st', []))"
| "circ_step K st Circ_read_proc = Inr (st, [])"
| "circ_step K st (Circ_write_proc ubuf) =
     (case circular_write_proc K st ubuf of Inl e \<Rightarrow> Inl e | Inr (_, st', tr) \<Rightarrow> Inr (st', tr))"

fun circ_run :: "kenv \<Rightarrow> circ_state \<Rightarrow> circ_call list \<Rightarrow> fault + circ_state \<times> kcall list" where
  "circ_run K st [] = Inr (st, [])"
| "circ_run K st (c # cs) =
     (case circ_step K st c of
        Inl e \<Rightarrow> Inl e
      | Inr (st', tr) \<Rightarrow> (case circ_run K st' cs of Inl e \<Rightarrow> Inl e | Inr (st'', tr') \<Rightarrow> Inr (st'', tr @ tr')))"

definition circ_session :: "kenv \<Rightarrow> circ_call list \<Rightarrow> fault + kcall list" where
  "circ_session K cs =
     (case circular_init K of (r, st, tr) \<Rightarrow>
        if r < 0 then Inr tr
        else (case circ_run K st cs of Inl e \<Rightarrow> Inl e | Inr (st', tr') \<Rightarrow> Inr (tr @ tr' @ circular_exit st')))"

section \<open>The ring as a specification\<close>

fun ring_put :: "string \<Rightarrow> nat \<Rightarrow> string \<Rightarrow> string \<times> nat" where
  "ring_put b p [] = (b, p)"
| "ring_put b p (c # cs) = ring_put (b[p := c]) (Suc p mod length b) cs"

lemma ring_put_append:
  "ring_put b p (xs @ ys) = (case ring_put b p xs of (b', p') \<Rightarrow> ring_put b' p' ys)"
  by (induction b p xs rule: ring_put.induct) simp_all

lemma ring_put_length: "length (fst (ring_put b p xs)) = length b"
  by (induction b p xs rule: ring_put.induct) simp_all

lemma ring_next [simp]: "p < length b \<Longrightarrow> Suc p mod length b < length b"
  by (cases b) simp_all

lemma ring_put_idx: "p < length b \<Longrightarrow> snd (ring_put b p xs) = (p + length xs) mod length b"
proof (induction b p xs rule: ring_put.induct)
  case (2 b p c cs)
  then have "Suc p mod length b < length b" by simp
  with 2 show ?case by (simp add: mod_add_left_eq)
qed simp

lemma blit_Cons: "p < length b \<Longrightarrow> blit b p (x # xs) = blit (b[p := x]) (Suc p) xs"
  by (simp add: blit_def upd_conv_take_nth_drop take_Suc_conv_app_nth add.commute)

lemma ring_put_chunk:
  "p < length b \<Longrightarrow> p + length xs \<le> length b \<Longrightarrow>
   ring_put b p xs = (blit b p xs, (p + length xs) mod length b)"
proof (induction xs arbitrary: b p)
  case Nil
  then show ?case by simp
next
  case (Cons x xs)
  show ?case
  proof (cases xs)
    case Nil
    with Cons.prems show ?thesis by (simp add: blit_def upd_conv_take_nth_drop)
  next
    case (Cons y ys)
    with Cons.prems have "Suc p < length b" by simp
    with Cons.prems Cons.IH [of "Suc p" "b[p := x]"] show ?thesis by (simp add: blit_Cons)
  qed
qed

lemma ring_put_nth_other:
  assumes "p < length b" "k < length b" "\<And>j. j < length xs \<Longrightarrow> (p + j) mod length b \<noteq> k"
  shows "fst (ring_put b p xs) ! k = b ! k"
  using assms
proof (induction b p xs rule: ring_put.induct)
  case (2 b p c cs)
  have p: "p \<noteq> k" using "2.prems"(1) "2.prems"(3) [of 0] by simp
  have "(Suc p mod length b + j) mod length b \<noteq> k" if "j < length cs" for j
    using "2.prems"(3) [of "Suc j"] that by (simp add: mod_add_left_eq)
  with "2.IH" "2.prems" p show ?case by simp
qed simp

lemma ring_put_nth:
  assumes "p < length b" "length xs \<le> length b" "j < length xs"
  shows "fst (ring_put b p xs) ! ((p + j) mod length b) = xs ! j"
  using assms
proof (induction b p xs arbitrary: j rule: ring_put.induct)
  case (2 b p c cs)
  have q: "Suc p mod length b < length b" using "2.prems"(1) by simp
  show ?case
  proof (cases j)
    case 0
    have "(Suc p mod length b + i) mod length b \<noteq> p" if "i < length cs" for i
    proof
      assume "(Suc p mod length b + i) mod length b = p"
      then have e: "(p + Suc i) mod length b = p mod length b"
        using "2.prems"(1) by (simp add: mod_add_left_eq)
      then have "length b dvd Suc i"
        by (metis add_diff_cancel_left' le_add1 mod_eq_dvd_iff_nat)
      then have "length b \<le> Suc i" by (rule dvd_imp_le) simp
      with that "2.prems"(2) show False by simp
    qed
    then have "fst (ring_put (b[p := c]) (Suc p mod length b) cs) ! p = b[p := c] ! p"
      using q "2.prems"(1) by (intro ring_put_nth_other) simp_all
    with 0 "2.prems"(1) show ?thesis by simp
  next
    case (Suc i)
    with "2.IH" [of i] "2.prems" q show ?thesis by (simp add: mod_add_left_eq)
  qed
qed simp

section \<open>The loop implements the ring\<close>

lemma copied_in_length: "i + n \<le> length ubuf \<Longrightarrow> length (copied_in K ubuf i n) = n"
  by (simp add: copied_in_def Let_def)

text \<open>With the position inside a buffer of the right size, every round moves at least one byte, so the
  fuel suffices; what is written is as long as asked for, and it is the user's bytes when the
  copies succeed.\<close>

lemma circular_loop_ring:
  assumes "int (length b) = sz" "0 < sz" "sz < 2 ^ 31" "0 \<le> pos" "pos < sz"
    "count \<le> length ubuf" "int (length ubuf) < 2 ^ 62" "count < fuel"
  shows "\<exists>data. length data = count \<and>
    ((\<forall>i n. k_copy_from_user K i n = 0) \<longrightarrow> data = drop (length ubuf - count) ubuf) \<and>
    circular_loop K sz ubuf fuel (Some b) count pos =
      (case ring_put b (nat pos) data of (b', p') \<Rightarrow> Inr (Some b', int p'))"
  using assms
proof (induction fuel arbitrary: b count pos)
  case 0
  then show ?case by simp
next
  case (Suc fuel)
  show ?case
  proof (cases "count = 0")
    case True
    then show ?thesis using Suc.prems by (intro exI [of _ "[]"]) simp
  next
    case False
    define t where "t = (if sz \<le> int count + pos then sz - pos else int count)"
    have bnd: "int count + pos < 18446744073709551616" "sz < 18446744073709551616"
      "sz - pos < 18446744073709551616" using Suc.prems by auto
    have u: "u64 (int count + pos) = int count + pos" "u64 sz = sz" "u64 (sz - pos) = sz - pos"
      by (rule u64_id; use Suc.prems bnd in simp)+
    have t: "(if u64 (int count + pos) \<ge> u64 sz then u64 (sz - pos) else int count) = t"
      by (simp only: u t_def)
    have tpos: "0 < t" "t \<le> int count" "pos + t \<le> sz" using Suc.prems False by (auto simp: t_def)
    let ?n = "nat t" and ?d = "copied_in K ubuf (length ubuf - count) (nat t)"
    have n: "0 < ?n" "?n \<le> count" "int ?n = t" using tpos by auto
    have d: "length ?d = ?n" using n Suc.prems(6) by (intro copied_in_length) simp
    have u2: "u64 (pos + t) = pos + t" by (rule u64_id) (use Suc.prems tpos bnd in simp_all)
    have np: "nat pos + ?n = nat (pos + t)" using Suc.prems(4) tpos by simp
    have lb: "nat pos + length ?d \<le> length b" using Suc.prems(1) tpos d np by simp
    let ?b = "blit b (nat pos) ?d" and ?p = "u64 (pos + t) mod u64 sz"
    have p: "?p = (pos + t) mod sz" by (simp only: u u2)
    have ring: "ring_put b (nat pos) ?d = (?b, nat ?p)"
    proof -
      have "(nat pos + length ?d) mod length b = nat ((pos + t) mod sz)"
        using Suc.prems(1,4) tpos by (simp add: d np nat_mod_distrib [symmetric] flip: Suc.prems(1)) 
          (simp add: nat_mod_distrib)
      then show ?thesis using ring_put_chunk [of "nat pos" b ?d] Suc.prems lb p by simp
    qed
    have pb: "0 \<le> ?p" "?p < sz" using Suc.prems(2) by (simp_all add: p)
    have lenb: "int (length ?b) = sz" and le: "count - ?n \<le> length ubuf" and lt: "count - ?n < fuel"
      using Suc.prems(1,6,8) lb n by simp_all
    from Suc.IH [OF lenb Suc.prems(2,3) pb le Suc.prems(7) lt]
    obtain data where D: "length data = count - ?n"
      "(\<forall>i n. k_copy_from_user K i n = 0) \<longrightarrow> data = drop (length ubuf - (count - ?n)) ubuf"
      "circular_loop K sz ubuf fuel (Some ?b) (count - ?n) ?p =
        (case ring_put ?b (nat ?p) data of (b', p') \<Rightarrow> Inr (Some b', int p'))" by blast
    have g: "(pos < 0 \<or> count < nat t \<or> length b < nat (pos + t)) = False"
      using Suc.prems(1,4) tpos by auto
    have "circular_loop K sz ubuf (Suc fuel) (Some b) count pos =
        circular_loop K sz ubuf fuel (Some ?b) (count - ?n) ?p"
      by (simp only: circular_loop.simps t Let_def if_False False option.case g)
    also have "\<dots> = (case ring_put b (nat pos) (?d @ data) of (b', p') \<Rightarrow> Inr (Some b', int p'))"
      by (simp add: D(3) ring_put_append ring)
    finally have eq: "circular_loop K sz ubuf (Suc fuel) (Some b) count pos =
        (case ring_put b (nat pos) (?d @ data) of (b', p') \<Rightarrow> Inr (Some b', int p'))" .
    have "?d @ data = drop (length ubuf - count) ubuf" if "\<forall>i n. k_copy_from_user K i n = 0"
    proof -
      have "length ubuf - (count - ?n) = length ubuf - count + ?n" using n Suc.prems(6) by simp
      then show ?thesis using that D(2) by (simp add: copied_in_all add.commute flip: drop_drop)
    qed
    then show ?thesis using eq D(1) d n by (intro exI [of _ "?d @ data"]) (simp del: circular_loop.simps)
  qed
qed

section \<open>The device in a good state\<close>

definition circ_ok :: "circ_state \<Rightarrow> bool" where
  "circ_ok st \<longleftrightarrow> (case buff st of None \<Rightarrow> False | Some b \<Rightarrow> int (length b) = buff_size st)
     \<and> 0 < buff_size st \<and> buff_size st < 2 ^ 31 \<and> 0 \<le> buff_idx st \<and> buff_idx st < buff_size st"

definition circ_text :: "circ_state \<Rightarrow> string" where
  "circ_text st = (case buff st of None \<Rightarrow> [] | Some b \<Rightarrow> b)"

lemma circ_okE:
  assumes "circ_ok st"
  obtains b where "buff st = Some b" "int (length b) = buff_size st" "0 < buff_size st"
    "buff_size st < 2 ^ 31" "0 \<le> buff_idx st" "buff_idx st < buff_size st" "circ_text st = b"
  using assms by (cases "buff st") (auto simp: circ_ok_def circ_text_def)

lemma circular_write_any:
  assumes "circ_ok st" "0 \<le> pos" "int (length ubuf) < 2 ^ 62"
  shows "\<exists>data. length data = length ubuf \<and> ((\<forall>i n. k_copy_from_user K i n = 0) \<longrightarrow> data = ubuf) \<and>
    circular_write K st ubuf pos =
      (case ring_put (circ_text st) (nat ((pos + buff_idx st) mod buff_size st)) data of
         (b', p') \<Rightarrow> Inr (int (length ubuf), int p', st\<lparr>buff := Some b', buff_idx := int p'\<rparr>))"
proof -
  from assms(1) obtain b where b: "buff st = Some b" "int (length b) = buff_size st" "0 < buff_size st"
    "buff_size st < 2 ^ 31" "0 \<le> buff_idx st" "buff_idx st < buff_size st" "circ_text st = b"
    by (rule circ_okE)
  let ?p = "(pos + buff_idx st) mod buff_size st"
  have m: "c_mod (pos + buff_idx st) (buff_size st) = ?p"
    using assms(2) b(3,5) by (cases "pos + buff_idx st = 0") (auto simp: c_mod_def)
  have p: "0 \<le> ?p" "?p < buff_size st" using b(3) by simp_all
  obtain data where D: "length data = length ubuf"
    "(\<forall>i n. k_copy_from_user K i n = 0) \<longrightarrow> data = drop (length ubuf - length ubuf) ubuf"
    "circular_loop K (buff_size st) ubuf (Suc (length ubuf)) (Some b) (length ubuf) ?p =
      (case ring_put b (nat ?p) data of (b', p') \<Rightarrow> Inr (Some b', int p'))"
    using circular_loop_ring [OF b(2-4) p _ assms(3), of "length ubuf" "Suc (length ubuf)" K] by auto
  obtain b' p' where r: "ring_put b (nat ?p) data = (b', p')" by fastforce
  have np: "nat ?p < length b" using p b(2) by linarith
  have "p' < length b"
    using ring_put_idx [OF np, of data] r np by (cases b) simp_all
  then have p': "s32 (int p') = int p'" using b(2,4) by (intro s32_id) simp_all
  show ?thesis
    using b D by (intro exI [of _ data]) (simp add: circular_write_def m r p' del: circular_loop.simps)
qed

lemma circular_write_ok:
  assumes "circ_ok st" "0 \<le> pos" "int (length ubuf) < 2 ^ 62"
  shows "\<exists>p' st'. circular_write K st ubuf pos = Inr (int (length ubuf), p', st') \<and> circ_ok st'
    \<and> buff_size st' = buff_size st \<and> p' = buff_idx st'"
proof -
  obtain data where D: "length data = length ubuf" "circular_write K st ubuf pos =
      (case ring_put (circ_text st) (nat ((pos + buff_idx st) mod buff_size st)) data of
         (b', p') \<Rightarrow> Inr (int (length ubuf), int p', st\<lparr>buff := Some b', buff_idx := int p'\<rparr>))"
    using circular_write_any [OF assms, of K] by blast
  from assms(1) obtain b where b: "buff st = Some b" "int (length b) = buff_size st" "0 < buff_size st"
    "buff_size st < 2 ^ 31" "circ_text st = b" by (rule circ_okE)
  let ?p = "nat ((pos + buff_idx st) mod buff_size st)"
  obtain b' p' where r: "ring_put b ?p data = (b', p')" by fastforce
  have np: "?p < length b" using b(2,3) pos_mod_bound [OF b(3), of "pos + buff_idx st"] by linarith
  have "p' < length b" using ring_put_idx [OF np, of data] r np by (cases b) simp_all
  moreover have "length b' = length b" using ring_put_length [of b ?p data] r by simp
  ultimately show ?thesis using D(2) b r by (simp add: circ_ok_def)
qed

text \<open>The read of a good state hands out the whole ring.  A position is a \<open>loff_t\<close>, so there is none from
  \<open>2 ^ 63\<close> on.\<close>

definition circ_read_ok :: "kenv \<Rightarrow> circ_state \<Rightarrow> nat \<Rightarrow> int \<Rightarrow> int \<times> int \<times> string" where
  "circ_read_ok K st len pos = (if 2 ^ 63 \<le> pos then (0, pos, []) else
     (case circular_read (copying K) st len pos of Inl _ \<Rightarrow> (- EFAULT, pos, []) | Inr x \<Rightarrow> x))"

lemma circular_read_good:
  assumes "circ_ok st" "0 \<le> pos" "pos < 2 ^ 62"
  shows "circular_read (copying K) st len pos = Inr (if buff_size st \<le> pos then (0, pos, [])
    else (buff_size st, pos + buff_size st, circ_text st))"
proof -
  from assms(1) obtain b where b: "buff st = Some b" "int (length b) = buff_size st" "0 < buff_size st"
    "buff_size st < 2 ^ 31" "circ_text st = b" by (rule circ_okE)
  have u: "u64 (buff_size st) = buff_size st" "u64 pos = pos" "s64 (buff_size st) = buff_size st"
    "s64 (pos + buff_size st) = pos + buff_size st"
    using b(3,4) assms(2,3) by (simp_all add: u64_id s64_id)
  have n: "nat (buff_size st) = length b" using b(2) by linarith
  show ?thesis using b by (simp add: circular_read_def u n Let_def)
qed

lemma circ_read_any_pos:
  assumes "circ_ok st" "buff_size st \<le> pos" "pos < 2 ^ 63"
  shows "circular_read (copying K) st len pos = Inr (0, pos, [])"
proof -
  from assms(1) have b: "0 < buff_size st" "buff_size st < 2 ^ 31" by (auto elim: circ_okE)
  have u: "u64 (buff_size st) = buff_size st" "u64 pos = pos"
    using b assms(2,3) by (simp_all add: u64_id)
  show ?thesis using assms(2) by (simp add: circular_read_def u)
qed

interpretation circular: whole_reader "circ_read_ok K" circ_text buff_size circ_ok for K
proof unfold_locales
  fix st len and pos :: int
  assume a: "circ_ok st" "0 \<le> pos" "pos < buff_size st"
  then have "pos < 2 ^ 31" "buff_size st = int (length (circ_text st))" by (auto elim!: circ_okE)
  then show "circ_read_ok K st len pos =
      (int (length (circ_text st)), pos + int (length (circ_text st)), circ_text st)"
    using circular_read_good [OF a(1,2), of K len] a(3) by (simp add: circ_read_ok_def)
next
  fix st len and pos :: int
  assume "circ_ok st" "buff_size st \<le> pos"
  then show "circ_read_ok K st len pos = (0, pos, [])"
    using circ_read_any_pos [of st pos K len] by (simp add: circ_read_ok_def)
next
  fix st
  assume "circ_ok st"
  then show "0 < buff_size st \<and> buff_size st \<le> int (length (circ_text st))" by (auto elim!: circ_okE)
qed

lemma circ_idx_mod: "circ_ok st \<Longrightarrow> (0 + buff_idx st) mod buff_size st = buff_idx st"
  by (auto elim!: circ_okE)

lemma circular_write_fresh:
  assumes "circ_ok st" "int (length ubuf) < 2 ^ 62"
  shows "circular_write (copying K) st ubuf 0 =
    (case ring_put (circ_text st) (nat (buff_idx st)) ubuf of
       (b', p') \<Rightarrow> Inr (int (length ubuf), int p', st\<lparr>buff := Some b', buff_idx := int p'\<rparr>))"
  using circular_write_any [OF assms(1) order.refl assms(2), of "copying K"] circ_idx_mod [OF assms(1)]
  by auto

lemma circ_text_buff [simp]: "circ_text (st\<lparr>buff := Some b, buff_idx := i\<rparr>) = b"
  by (simp add: circ_text_def)

lemma circ_init_ok:
  "circular_init K = (0, st, tr) \<Longrightarrow> k_register_chrdev K CIRCULAR_MAJOR ''circular'' < 0 \<or>
     \<not> k_proc_create K ''circular'' \<or> circ_ok st \<and> circ_text st = zeros 40 \<and> buff_idx st = 0 \<and> buff_size st = 40"
  by (auto simp: circular_init_def Let_def circ_ok_def circ_text_def circ_state0_def BUFF_INITIAL_SIZE_def
      errno_defs split: if_splits)

section \<open>Properties\<close>

text \<open>C31.  \<open>circular_write\<close> implements the byte-wise ring, when the buffer is allocated with a size that is positive and the index is inside it,
  and every copy from the user succeeds: a write of any length ends without a fault, reports the whole write, and leaves the buffer and the
  index as putting the bytes one by one from index (position + \<open>buff_idx\<close>) mod size on does; buffer, size and index stay good.  (Without a
  buffer or with the size 0, which writing to \<open>/proc/circular\<close> can bring about, the write faults: \<open>circular_resize_hazards\<close>.)\<close>

theorem circular_write_ring:
  assumes "circ_ok st" "0 \<le> pos" "int (length ubuf) < 2 ^ 62"
  shows "\<exists>st'. circular_write (copying K) st ubuf pos = Inr (int (length ubuf), buff_idx st', st') \<and> circ_ok st' \<and>
    (circ_text st', nat (buff_idx st')) =
      ring_put (circ_text st) (nat ((pos + buff_idx st) mod buff_size st)) ubuf"
proof -
  let ?r = "ring_put (circ_text st) (nat ((pos + buff_idx st) mod buff_size st)) ubuf"
  obtain b' p' where r: "?r = (b', p')" by fastforce
  then have w: "circular_write (copying K) st ubuf pos =
      Inr (int (length ubuf), int p', st\<lparr>buff := Some b', buff_idx := int p'\<rparr>)"
    using circular_write_any [OF assms, of "copying K"] by auto
  with circular_write_ok [OF assms, of "copying K"] r show ?thesis by auto
qed

theorem circular_write_ring_witness:
  "\<exists>st st'. circ_ok st \<and> circular_write (copying kenv0) st ''abc'' 2 = Inr (3, buff_idx st', st') \<and> circ_ok st' \<and>
     circ_text st' = ''c'' @ [NUL] @ ''ab''"
proof -
  define st where "st = \<lparr>buff = Some (zeros 4), buff_size = 4, buff_idx = 0, proc_entry = True\<rparr>"
  have ok: "circ_ok st" by (simp add: circ_ok_def st_def)
  have p: "0 \<le> (2 :: int)" and l: "int (length ''abc'') < 2 ^ 62" by simp_all
  have z: "zeros 4 = [NUL, NUL, NUL, NUL]" by (simp add: zeros_def eval_nat_numeral)
  have "ring_put (circ_text st) (nat ((2 + buff_idx st) mod buff_size st)) ''abc'' = (''c'' @ [NUL] @ ''ab'', 1)"
    by (simp add: st_def z circ_text_def)
  with circular_write_ring [OF ok p l, of kenv0] ok show ?thesis by auto
qed

text \<open>Writes through fresh opens of the cw03 ring (position 0) continue each other: two of them leave the
  same state as one write of the joined text.\<close>

theorem circular_write_append:
  assumes "circ_ok st" "int (length xs + length ys) < 2 ^ 62"
    and "circular_write (copying K) st xs 0 = Inr (r, p, st1)"
    and "circular_write (copying K) st1 ys 0 = Inr (r', p', st2)"
  shows "circular_write (copying K) st (xs @ ys) 0 = Inr (r + r', p', st2)"
proof -
  have l: "int (length xs) < 2 ^ 62" "int (length ys) < 2 ^ 62" "int (length (xs @ ys)) < 2 ^ 62"
    using assms(2) by simp_all
  have ok1: "circ_ok st1" "buff_size st1 = buff_size st"
    using circular_write_ok [OF assms(1) order.refl l(1), of "copying K"] assms(3) by auto
  obtain b1 p1 where 1: "ring_put (circ_text st) (nat (buff_idx st)) xs = (b1, p1)" by fastforce
  obtain b2 p2 where 2: "ring_put b1 p1 ys = (b2, p2)" by fastforce
  have s1: "st1 = st\<lparr>buff := Some b1, buff_idx := int p1\<rparr>" "r = int (length xs)"
    using circular_write_fresh [OF assms(1) l(1), of K] assms(3) 1 by simp_all
  then have "circ_text st1 = b1" "buff_idx st1 = int p1" by simp_all
  then have s2: "st2 = st1\<lparr>buff := Some b2, buff_idx := int p2\<rparr>" "r' = int (length ys)" "p' = int p2"
    using circular_write_fresh [OF ok1(1) l(2), of K] assms(4) 2 by simp_all
  show ?thesis
    using circular_write_fresh [OF assms(1) l(3), of K] 1 2 s1 s2 by (simp add: ring_put_append)
qed

theorem circular_write_append_witness:
  "\<exists>st r p st1 r' p' st2. circ_ok st \<and> circular_write (copying kenv0) st ''abc'' 0 = Inr (r, p, st1) \<and>
     circular_write (copying kenv0) st1 ''de'' 0 = Inr (r', p', st2) \<and>
     circular_write (copying kenv0) st (''abc'' @ ''de'') 0 = Inr (r + r', p', st2)"
proof -
  define st where "st = \<lparr>buff = Some (zeros 4), buff_size = 4, buff_idx = 0, proc_entry = True\<rparr>"
  have ok: "circ_ok st" by (simp add: circ_ok_def st_def)
  from circular_write_ok [OF ok order.refl, of "''abc''" "copying kenv0"]
  obtain p st1 where 1: "circular_write (copying kenv0) st ''abc'' 0 = Inr (3, p, st1)" "circ_ok st1" by auto
  from circular_write_ok [OF 1(2) order.refl, of "''de''" "copying kenv0"]
  obtain p' st2 where 2: "circular_write (copying kenv0) st1 ''de'' 0 = Inr (2, p', st2)" by auto
  have l: "int (length ''abc'' + length ''de'') < 2 ^ 62" by simp
  from circular_write_append [OF ok l 1(1) 2] show ?thesis using ok 1 2 by blast
qed

text \<open>What a write through a fresh open does to the bytes: one that fits the ring puts its \<open>j\<close>th byte at index
  (\<open>buff_idx\<close> + \<open>j\<close>) mod size, keeps every other byte, and moves \<open>buff_idx\<close> past the last one; a reader
  then gets the whole ring.\<close>

theorem circular_write_bytes:
  assumes "circ_ok st" "circular_write (copying K) st ubuf 0 = Inr (r, p, st')" "int (length ubuf) \<le> buff_size st"
  shows "(\<forall>j < length ubuf. circ_text st' ! nat ((buff_idx st + int j) mod buff_size st) = ubuf ! j)
    \<and> (\<forall>k < length (circ_text st). (\<forall>j < length ubuf. (buff_idx st + int j) mod buff_size st \<noteq> int k) \<longrightarrow>
          circ_text st' ! k = circ_text st ! k)
    \<and> buff_idx st' = (buff_idx st + int (length ubuf)) mod buff_size st
    \<and> cat (circ_read_ok K st') bsize 2 0 = circ_text st'"
proof -
  from assms(1) obtain b where b: "int (length b) = buff_size st" "buff_size st < 2 ^ 31"
    "0 \<le> buff_idx st" "buff_idx st < buff_size st" "circ_text st = b" by (rule circ_okE)
  have l: "int (length ubuf) < 2 ^ 62" using assms(3) b(2) by simp
  obtain b' p' where r: "ring_put b (nat (buff_idx st)) ubuf = (b', p')" by fastforce
  have st': "circ_text st' = b'" "buff_idx st' = int p'"
    using circular_write_fresh [OF assms(1) l, of K] assms(2) r b(5) by simp_all
  have ok': "circ_ok st'" using circular_write_ok [OF assms(1) order.refl l, of "copying K"] assms(2) by simp
  have n: "nat (buff_idx st) < length b" "length ubuf \<le> length b" using b(1,3,4) assms(3) by linarith+
  have m: "(buff_idx st + int j) mod buff_size st = int ((nat (buff_idx st) + j) mod length b)" for j
    using b(1,3) by (simp add: zmod_int flip: b(1))
  show ?thesis
  proof (intro conjI allI impI)
    fix j assume "j < length ubuf"
    then show "circ_text st' ! nat ((buff_idx st + int j) mod buff_size st) = ubuf ! j"
      unfolding m st'(1) using ring_put_nth [OF n] r by (metis fst_conv nat_int)
  next
    fix k assume "k < length (circ_text st)"
      and "\<forall>j<length ubuf. (buff_idx st + int j) mod buff_size st \<noteq> int k"
    then have "fst (ring_put b (nat (buff_idx st)) ubuf) ! k = b ! k"
      by (intro ring_put_nth_other [OF n(1)]) (simp_all add: b(5) m)
    then show "circ_text st' ! k = circ_text st ! k" by (simp add: r st'(1) b(5))
  next
    show "buff_idx st' = (buff_idx st + int (length ubuf)) mod buff_size st"
      unfolding m st'(2) using ring_put_idx [OF n(1), of ubuf] r by simp
  next
    show "cat (circ_read_ok K st') bsize 2 0 = circ_text st'"
      using circular.cat_whole [OF ok', of K bsize 0] by (simp add: numeral_2_eq_2)
  qed
qed

theorem circular_write_bytes_witness:
  "\<exists>st r p st'. circ_ok st \<and> circular_write (copying kenv0) st ''abc'' 0 = Inr (r, p, st') \<and>
     buff_idx st' = 1 \<and> cat (circ_read_ok kenv0 st') 9 2 0 = circ_text st'"
proof -
  define st where "st = \<lparr>buff = Some (zeros 4), buff_size = 4, buff_idx = 2, proc_entry = True\<rparr>"
  have ok: "circ_ok st" by (simp add: circ_ok_def st_def)
  from circular_write_ok [OF ok order.refl, of "''abc''" "copying kenv0"]
  obtain p st' where w: "circular_write (copying kenv0) st ''abc'' 0 = Inr (3, p, st')" by auto
  have "int (length ''abc'') \<le> buff_size st" by (simp add: st_def)
  from circular_write_bytes [OF ok w this, of 9] show ?thesis using ok w by (auto simp: st_def)
qed

lemma double_mod: "0 \<le> i \<Longrightarrow> i < n \<Longrightarrow> (i + i) mod n = i \<longleftrightarrow> i = (0::int)"
proof
  assume i: "0 \<le> i" "i < n" and e: "(i + i) mod n = i"
  then have "(i + i) mod n = i mod n" by simp
  then have "n dvd i" by (metis add_diff_cancel_right' mod_eq_dvd_iff)
  then show "i = 0" using i zdvd_imp_le [of n i] by linarith
qed simp

text \<open>A second write through the same open file does not continue the first: the position it starts
  from already is the index, which is added once more, so its bytes land from index 2 * \<open>buff_idx\<close> mod
  size on, which is the place after the previous write only when \<open>buff_idx\<close> is 0.\<close>

theorem circular_write_same_open:
  assumes "circ_ok st" "circular_write (copying K) st xs pos = Inr (r, p, st1)" "0 \<le> pos"
    and "int (length xs) < 2 ^ 62" "int (length ys) < 2 ^ 62"
  shows "\<exists>q st2. circular_write (copying K) st1 ys p = Inr (int (length ys), q, st2)
    \<and> circ_text st2 = fst (ring_put (circ_text st1) (nat ((2 * buff_idx st1) mod buff_size st1)) ys)
    \<and> ((2 * buff_idx st1) mod buff_size st1 = buff_idx st1 \<longleftrightarrow> buff_idx st1 = 0)"
proof -
  have ok1: "circ_ok st1" "p = buff_idx st1"
    using circular_write_ok [OF assms(1,3,4), of "copying K"] assms(2) by auto
  then have i: "0 \<le> buff_idx st1" "buff_idx st1 < buff_size st1" by (auto elim: circ_okE)
  let ?r = "ring_put (circ_text st1) (nat ((2 * buff_idx st1) mod buff_size st1)) ys"
  have "circular_write (copying K) st1 ys p = Inr (int (length ys), int (snd ?r),
      st1\<lparr>buff := Some (fst ?r), buff_idx := int (snd ?r)\<rparr>)"
    using circular_write_any [OF ok1(1) i(1) assms(5), of "copying K"] ok1(2)
    by (auto split: prod.splits)
  then show ?thesis using double_mod [OF i] by simp
qed

theorem circular_write_same_open_witness:
  "\<exists>st r p st1 q st2. circ_ok st \<and> circular_write (copying kenv0) st ''a'' 0 = Inr (r, p, st1) \<and>
     buff_idx st1 = 1 \<and> circular_write (copying kenv0) st1 ''b'' p = Inr (1, q, st2) \<and>
     (2 * buff_idx st1) mod buff_size st1 \<noteq> buff_idx st1"
proof -
  define st where "st = \<lparr>buff = Some (zeros 4), buff_size = 4, buff_idx = 0, proc_entry = True\<rparr>"
  have ok: "circ_ok st" by (simp add: circ_ok_def st_def)
  have w: "circular_write (copying kenv0) st ''a'' 0 =
      Inr (1, 1, st\<lparr>buff := Some ((zeros 4)[0 := CHR ''a'']), buff_idx := 1\<rparr>)"
    using circular_write_fresh [OF ok, of "''a''" kenv0] by (simp add: st_def circ_text_def)
  from circular_write_same_open [OF ok w, of "''b''"] w ok show ?thesis by auto
qed

section \<open>Resizing\<close>

lemma krealloc_same: "k_kmalloc K ''krealloc'' (int n) \<Longrightarrow> 0 < n \<Longrightarrow>
  krealloc K (Some b) n = (Some (take n b @ map (k_junk K) [length b..<n]),
    (if b = [] then [] else [Rel (Mem ''buff'')]) @ [Acq (Mem ''buff'')])"
  by (simp add: krealloc_def)

lemma blit_fill:
  "length b \<le> n \<Longrightarrow> blit (take n b @ map f [length b..<n]) (length b) (zeros (n - length b)) = b @ zeros (n - length b)"
  by (simp add: blit_def)

lemma clear_growth_krealloc:
  assumes "0 < n"
  shows "clear_growth (Some (take (nat n) b @ map f [length b..<nat n])) (int (length b)) n
     = Inr (Some (take (nat n) b @ zeros (nat n - length b)))"
proof (cases "n > int (length b)")
  case True
  then have "length b \<le> nat n" "nat (n - int (length b)) = nat n - length b" by linarith+
  with True show ?thesis using blit_fill [of b "nat n" f] by (simp add: clear_growth_def)
next
  case False
  then have "nat n \<le> length b" by linarith
  with False show ?thesis by (simp add: zeros_def clear_growth_def)
qed

text \<open>Writing a positive number \<open>n\<close> below \<open>2 ^ 31\<close> to \<open>/proc/circular\<close> resizes the ring of a good state:
  the first bytes are kept, new ones are zero, \<open>buff_idx\<close> goes to 0 exactly when it would lie outside, and
  the state stays good.\<close>

theorem circular_resize:
  assumes ok: "circ_ok st" and n: "k_kstrtol K (cstr (ubuf @ [NUL])) = Inr n" "0 < n" "n < 2 ^ 31"
    and k: "k_copy_from_user K 0 (length ubuf) = 0" "k_kmalloc K ''num_buf'' (s32 (int (length ubuf)) + 1)"
      "k_kmalloc K ''krealloc'' n"
  shows "\<exists>st' tr. circular_write_proc K st ubuf = Inr (int (length ubuf), st', tr) \<and> circ_ok st' \<and> buff_size st' = n
    \<and> circ_text st' = take (nat n) (circ_text st) @ zeros (nat n - length (circ_text st))
    \<and> buff_idx st' = (if buff_idx st < n then buff_idx st else 0)"
proof -
  from ok obtain b where b: "buff st = Some b" "int (length b) = buff_size st" "0 < buff_size st"
    "buff_size st < 2 ^ 31" "0 \<le> buff_idx st" "buff_idx st < buff_size st" "circ_text st = b"
    by (rule circ_okE)
  have u: "nat (u64 n) = nat n" "s32 n = n" using n(2,3) by (simp_all add: u64_id s32_id)
  have r: "krealloc K (Some b) (nat n) = (Some (take (nat n) b @ map (k_junk K) [length b..<nat n]),
      [Rel (Mem ''buff''), Acq (Mem ''buff'')])"
    using krealloc_same [of K "nat n" b] k(3) n(2) b(2,3) by auto
  have nb: "nat (buff_size st) = length b" using b(2) by simp
  have c: "clear_growth (Some (take (nat n) b @ map (k_junk K) [length b..<nat n])) (buff_size st) n
     = Inr (Some (take (nat n) b @ zeros (nat n - length b)))"
    using clear_growth_krealloc [of n b "k_junk K"] b(2) n(2) by simp
  let ?st = "st\<lparr>buff := Some (take (nat n) b @ zeros (nat n - length b)), buff_size := n\<rparr>"
  have w: "circular_write_proc K st ubuf = Inr (int (length ubuf),
      if buff_idx st \<ge> n then ?st\<lparr>buff_idx := 0\<rparr> else ?st,
      [Acq (Mem ''num_buf''), Rel (Mem ''num_buf''), Rel (Mem ''buff''), Acq (Mem ''buff'')])"
    using k(1,2) n(1) by (simp add: circular_write_proc_def Let_def b(1) u r c del: take_append)
  show ?thesis unfolding w using n(2,3) b by (auto simp: circ_ok_def circ_text_def)
qed

theorem circular_resize_witness:
  "\<exists>st st' tr. circ_ok st \<and> circular_write_proc kenv0 st ''6'' = Inr (1, st', tr) \<and> circ_ok st' \<and> buff_size st' = 6
     \<and> circ_text st' = ''abcd'' @ zeros 2 \<and> buff_idx st' = 3"
proof -
  define st where "st = \<lparr>buff = Some ''abcd'', buff_size = 4, buff_idx = 3, proc_entry = True\<rparr>"
  have ok: "circ_ok st" by (simp add: circ_ok_def st_def)
  have p: "k_kstrtol kenv0 (cstr (''6'' @ [NUL])) = Inr 6"
    by (simp add: kenv0_def cstr_def NUL_def isdigit_def read_nat_def digit_val_def)
  show ?thesis using circular_resize [OF ok p] ok by (fastforce simp: st_def circ_text_def)
qed

text \<open>Documented range of \<open>kstrtoll\<close>.\<close>

definition strtol_ok :: "kenv \<Rightarrow> bool" where
  "strtol_ok K \<longleftrightarrow> (\<forall>s. case k_kstrtol K s of Inl e \<Rightarrow> e < 0 | Inr n \<Rightarrow> - (2 ^ 63) \<le> n \<and> n < 2 ^ 63)"

lemma strtol_range: "strtol_ok K \<Longrightarrow> k_kstrtol K s = Inr n \<Longrightarrow> - (2 ^ 63) \<le> n \<and> n < 2 ^ 63"
  unfolding strtol_ok_def by (drule spec [of _ s]) simp

lemma clear_growth_fault:
  assumes "circ_ok st" "- (2 ^ 63) \<le> n" "n < 2 ^ 63"
  shows "clear_growth (fst (krealloc K (buff st) (nat (u64 n)))) (buff_size st) n = Inl e \<longleftrightarrow>
    buff_size st < n \<and> \<not> k_kmalloc K ''krealloc'' n \<and> e = NullDeref"
proof (cases "buff_size st < n")
  case False
  then show ?thesis by (simp add: clear_growth_def)
next
  case True
  from assms(1) obtain b where b: "buff st = Some b" "int (length b) = buff_size st" "0 < buff_size st"
    by (rule circ_okE)
  have n: "0 < n" "nat (u64 n) = nat n" using True b(3) assms(3) by (simp_all add: u64_id)
  show ?thesis
  proof (cases "k_kmalloc K ''krealloc'' n")
    case False
    then have "krealloc K (Some b) (nat n) = (None, [])" using n(1) by (simp add: krealloc_def)
    then show ?thesis using True False by (auto simp: b(1) n(2) clear_growth_def)
  next
    case k: True
    then have "fst (krealloc K (Some b) (nat n)) = Some (take (nat n) b @ map (k_junk K) [length b..<nat n])"
      using krealloc_same [of K "nat n" b] n(1) by simp
    then show ?thesis
      using clear_growth_krealloc [OF n(1), of b "k_junk K"] k by (simp add: b(1) n(2) flip: b(2))
  qed
qed

lemma write_proc_fault_cases:
  "circular_write_proc K st ubuf = Inl e \<longleftrightarrow>
    (\<not> k_kmalloc K ''num_buf'' (s32 (int (length ubuf)) + 1) \<and> e = NullDeref) \<or>
    (k_kmalloc K ''num_buf'' (s32 (int (length ubuf)) + 1) \<and> k_copy_from_user K 0 (length ubuf) = 0 \<and>
      (case k_kstrtol K (cstr (ubuf @ [NUL])) of
         Inl _ \<Rightarrow> e = UninitRead
       | Inr n \<Rightarrow> clear_growth (fst (krealloc K (buff st) (nat (u64 n)))) (buff_size st) n = Inl e))"
  by (auto simp: circular_write_proc_def Let_def split: sum.splits prod.splits if_splits)

text \<open>The ways a write to \<open>/proc/circular\<close> goes wrong on a good state, all of them and no others: the text
  buffer cannot be allocated (its NULL is written through), the text is not a number (the number is used
  although it was never set), or the ring cannot grow (\<open>memset\<close> writes through NULL).\<close>

theorem circular_write_proc_faults:
  assumes "circ_ok st" "strtol_ok K"
  shows "circular_write_proc K st ubuf = Inl e \<longleftrightarrow>
    (\<not> k_kmalloc K ''num_buf'' (s32 (int (length ubuf)) + 1) \<and> e = NullDeref) \<or>
    (k_kmalloc K ''num_buf'' (s32 (int (length ubuf)) + 1) \<and> k_copy_from_user K 0 (length ubuf) = 0 \<and>
      (case k_kstrtol K (cstr (ubuf @ [NUL])) of
         Inl _ \<Rightarrow> e = UninitRead
       | Inr n \<Rightarrow> buff_size st < n \<and> \<not> k_kmalloc K ''krealloc'' n \<and> e = NullDeref))"
proof (cases "k_kstrtol K (cstr (ubuf @ [NUL]))")
  case (Inl x)
  then show ?thesis by (simp add: write_proc_fault_cases)
next
  case (Inr n)
  with clear_growth_fault [OF assms(1), of n K e] strtol_range [OF assms(2) Inr]
  show ?thesis by (simp add: write_proc_fault_cases)
qed

theorem circular_write_proc_faults_witness:
  "\<exists>K st. circ_ok st \<and> strtol_ok K \<and> circular_write_proc K st ''x'' = Inl UninitRead"
proof -
  define st where "st = \<lparr>buff = Some ''abcd'', buff_size = 4, buff_idx = 3, proc_entry = True\<rparr>"
  define K where "K = kenv0\<lparr>k_kstrtol := (\<lambda>_. Inl (- EINVAL))\<rparr>"
  have "circ_ok st" "strtol_ok K" by (simp_all add: circ_ok_def st_def strtol_ok_def K_def EINVAL_def)
  then show ?thesis using circular_write_proc_faults [of st K "''x''" UninitRead]
    by (intro exI conjI) (auto simp: K_def)
qed

text \<open>Resizing that reports success can leave a state in which the next write faults: after the size 0 every write
  divides by zero, and after a shrink for which \<open>krealloc\<close> fails the block is lost and every non-empty write
  goes through NULL.\<close>

theorem circular_resize_hazards:
  assumes "circ_ok st" "circular_write_proc K st ubuf = Inr (r, st', tr)"
    and "k_copy_from_user K 0 (length ubuf) = 0" "k_kstrtol K (cstr (ubuf @ [NUL])) = Inr n" "0 \<le> n" "n \<le> buff_size st"
    and "n = 0 \<or> \<not> k_kmalloc K ''krealloc'' n" "0 \<le> pos"
  shows "r = int (length ubuf) \<and> (xs \<noteq> [] \<longrightarrow>
     circular_write K st' xs pos = Inl (if n = 0 then DivideByZero else NullDeref))"
proof -
  have n: "nat (u64 n) = nat n" "s32 n = n" "\<not> n > buff_size st"
    using assms(1,5,6) by (auto simp: u64_id s32_id elim!: circ_okE)
  have k: "\<exists>rel. krealloc K (buff st) (nat n) = (if n = 0 then Some [] else None, rel)"
    using assms(5,7) by (auto simp: krealloc_def Let_def)
  have st': "buff_size st' = n" "buff st' = (if n = 0 then Some [] else None)" "r = int (length ubuf)"
    using assms(2,3,4) k n
    by (auto simp: circular_write_proc_def Let_def clear_growth_def split: if_splits)
  show ?thesis
  proof (intro conjI impI)
    assume "xs \<noteq> []"
    then obtain m where "length xs = Suc m" by (cases xs) simp_all
    then show "circular_write K st' xs pos = Inl (if n = 0 then DivideByZero else NullDeref)"
      by (simp add: circular_write_def st' Let_def)
  qed (rule st'(3))
qed

theorem circular_resize_hazards_witness:
  "\<exists>st st' tr. circ_ok st \<and> circular_write_proc kenv0 st ''0'' = Inr (1, st', tr) \<and>
     circular_write kenv0 st' ''a'' 0 = Inl DivideByZero"
proof -
  define st where "st = \<lparr>buff = Some ''abcd'', buff_size = 4, buff_idx = 3, proc_entry = True\<rparr>"
  have ok: "circ_ok st" by (simp add: circ_ok_def st_def)
  have p: "k_kstrtol kenv0 (cstr (''0'' @ [NUL])) = Inr 0"
    by (simp add: kenv0_def cstr_def NUL_def isdigit_def read_nat_def digit_val_def)
  have w: "circular_write_proc kenv0 st ''0'' =
      Inr (1, \<lparr>buff = Some [], buff_size = 0, buff_idx = 0, proc_entry = True\<rparr>,
        [Acq (Mem ''num_buf''), Rel (Mem ''num_buf''), Rel (Mem ''buff'')])"
    using p by (simp add: circular_write_proc_def st_def krealloc_def clear_growth_def u64_id s32_id Let_def)
  show ?thesis using circular_resize_hazards [OF ok w _ p, of 0 "''a''"] ok w by (fastforce simp: st_def)
qed

section \<open>Resources\<close>

text \<open>The loop keeps the block and its length.\<close>

lemma circular_loop_block:
  assumes "circular_loop K sz ubuf fuel b count pos = Inr (b', p)" "count \<le> length ubuf"
  shows "map_option length b' = map_option length b"
  using assms
proof (induction K sz ubuf fuel b count pos rule: circular_loop.induct)
  case (2 K sz ubuf fuel b count pos)
  show ?case
  proof (cases "count = 0")
    case True
    with "2.prems" show ?thesis by simp
  next
    case False
    define t where "t = (if u64 sz \<le> u64 (int count + pos) then u64 (sz - pos) else int count)"
    have t0: "0 \<le> t" using u64_range by (simp add: t_def)
    from "2.prems"(1) False obtain blk where blk: "b = Some blk" "0 \<le> pos" "nat t \<le> count"
      "nat (pos + t) \<le> length blk"
      and r: "circular_loop K sz ubuf fuel (Some (blit blk (nat pos)
        (copied_in K ubuf (length ubuf - count) (nat t)))) (count - nat t) (u64 (pos + t) mod u64 sz) = Inr (b', p)"
      by (auto simp: Let_def t_def [symmetric] split: option.splits if_splits)
    have d: "length (copied_in K ubuf (length ubuf - count) (nat t)) = nat t"
      using blk(3) "2.prems"(2) by (intro copied_in_length) simp
    have "length (blit blk (nat pos) (copied_in K ubuf (length ubuf - count) (nat t))) = length blk"
      using blk(2,4) t0 by (intro length_blit) (simp add: d nat_add_distrib)
    moreover have "map_option length b' = map_option length
        (Some (blit blk (nat pos) (copied_in K ubuf (length ubuf - count) (nat t))))"
      by (rule "2.IH" [OF False t_def refl blk(1) _ r]) (use blk t_def "2.prems"(2) in auto)
    ultimately show ?thesis by (simp add: blk(1))
  qed
qed simp

lemma circular_write_held:
  "circular_write K st ubuf pos = Inr (r, p, st') \<Longrightarrow> buff_held st' = buff_held st \<and> proc_entry st' = proc_entry st"
proof -
  assume w: "circular_write K st ubuf pos = Inr (r, p, st')"
  then obtain b q where l: "circular_loop K (buff_size st) ubuf (Suc (length ubuf)) (buff st) (length ubuf)
      (c_mod (pos + buff_idx st) (buff_size st)) = Inr (b, q)" and st': "st' = st\<lparr>buff := b, buff_idx := s32 q\<rparr>"
    by (auto simp: circular_write_def Let_def simp del: circular_loop.simps split: if_splits sum.splits)
  have "map_option length b = map_option length (buff st)" by (rule circular_loop_block [OF l order.refl])
  then show ?thesis by (cases b; cases "buff st") (auto simp: buff_held_def st')
qed

lemma krealloc_calls:
  assumes "krealloc K b n = (b', tr)" "\<And>z. k_kmalloc K ''krealloc'' z"
  shows "run_calls ((if b = None \<or> b = Some [] then [] else [Mem ''buff'']) @ X) tr =
    Some ((if b' = None \<or> b' = Some [] then [] else [Mem ''buff'']) @ X)"
proof (cases b)
  case None
  with assms show ?thesis by (auto simp: krealloc_def Let_def split: if_splits)
next
  case (Some x)
  show ?thesis
  proof (cases "n = 0")
    case True
    with assms Some show ?thesis by (cases "x = []") (auto simp: krealloc_def)
  next
    case False
    then have "take n x @ map (k_junk K) [length x..<n] \<noteq> []"
      by (cases x) auto
    with assms Some False show ?thesis by (auto simp: krealloc_def Let_def split: if_splits)
  qed
qed

lemma clear_growth_block:
  "clear_growth b old n = Inr b' \<Longrightarrow> map_option length b' = map_option length b"
  by (auto simp: clear_growth_def split: option.splits if_splits)

lemma circular_write_proc_held:
  assumes "circular_write_proc K st ubuf = Inr (r, st', tr)"
    and "k_copy_from_user K 0 (length ubuf) = 0" "\<And>z. k_kmalloc K ''krealloc'' z"
  shows "run_calls (buff_held st @ X) tr = Some (buff_held st' @ X) \<and> proc_entry st' = proc_entry st"
proof -
  from assms(1,2) obtain n b tr1 b' where
    kr: "krealloc K (buff st) (nat (u64 n)) = (b, tr1)" and
    cl: "clear_growth b (buff_size st) n = Inr b'" and
    st': "buff st' = b'" "proc_entry st' = proc_entry st" and
    tr: "tr = [Acq (Mem ''num_buf''), Rel (Mem ''num_buf'')] @ tr1"
    by (auto simp: circular_write_proc_def Let_def split: if_splits sum.splits prod.splits)
  have "(b' = None \<or> b' = Some []) = (b = None \<or> b = Some [])"
    using clear_growth_block [OF cl] by (cases b; cases b') auto
  then show ?thesis using krealloc_calls [OF kr assms(3), of X] st' by (simp add: tr buff_held_def)
qed

lemma circ_step_calls:
  assumes "circ_step K st c = Inr (st', tr)" "\<And>n. k_copy_from_user K 0 n = 0" "\<And>z. k_kmalloc K ''krealloc'' z"
  shows "run_calls (buff_held st @ X) tr = Some (buff_held st' @ X) \<and> proc_entry st' = proc_entry st"
  using assms
proof (cases c)
  case (Circ_write ubuf pos)
  with assms(1) show ?thesis by (auto dest: circular_write_held split: sum.splits)
next
  case (Circ_write_proc ubuf)
  with assms show ?thesis by (auto dest: circular_write_proc_held split: sum.splits)
qed (auto split: sum.splits)

lemma circ_run_calls:
  assumes "circ_run K st cs = Inr (st', tr)" "\<And>n. k_copy_from_user K 0 n = 0" "\<And>z. k_kmalloc K ''krealloc'' z"
  shows "run_calls (buff_held st @ X) tr = Some (buff_held st' @ X) \<and> proc_entry st' = proc_entry st"
  using assms(1)
proof (induction cs arbitrary: st st' tr)
  case Nil
  then show ?case by simp
next
  case (Cons c cs)
  then obtain st1 tr1 tr2 where 1: "circ_step K st c = Inr (st1, tr1)"
    and 2: "circ_run K st1 cs = Inr (st', tr2)" "tr = tr1 @ tr2"
    by (auto split: sum.splits prod.splits)
  then show ?case using Cons.IH [OF 2(1)] circ_step_calls [OF 1 assms(2,3), of X]
    by (simp add: run_calls_append)
qed

lemma circular_init_calls:
  assumes "circular_init K = (r, st, tr)" "0 \<le> r"
  shows "run_calls [] tr = Some (buff_held st @
    (if proc_entry st then [ProcEntry ''circular''] else []) @ [Chrdev CIRCULAR_MAJOR ''circular''])"
  using assms by (auto simp: circular_init_def Let_def buff_held_def circ_state0_def BUFF_INITIAL_SIZE_def
      errno_defs zeros_def split: if_splits)

lemma circular_init_failed:
  assumes "circular_init K = (r, st, tr)" "r < 0"
  shows "balanced tr \<longleftrightarrow> k_register_chrdev K CIRCULAR_MAJOR ''circular'' \<noteq> - ENOMEM"
  using assms by (auto simp: circular_init_def Let_def buff_held_def circ_state0_def balanced_def
      errno_defs split: if_splits)

text \<open>A session of the ring module in which the copies from user memory and \<open>krealloc\<close> succeed
  gives back everything it acquired, also after \<open>proc_create\<close> or \<open>kmalloc\<close> failed in
  \<open>circular_init\<close>, unless \<open>register_chrdev\<close> failed with the very error that the error path takes for
  a failed allocation: then it unregisters a device that was never registered.\<close>

theorem circ_session_balanced:
  assumes "circ_session K cs = Inr tr" "\<And>n. k_copy_from_user K 0 n = 0" "\<And>z. k_kmalloc K ''krealloc'' z"
  shows "balanced tr \<longleftrightarrow> k_register_chrdev K CIRCULAR_MAJOR ''circular'' \<noteq> - ENOMEM"
proof -
  obtain r st tr0 where i: "circular_init K = (r, st, tr0)" by (cases "circular_init K") auto
  show ?thesis
  proof (cases "r < 0")
    case True
    with assms(1) circular_init_failed [OF i] show ?thesis by (simp add: circ_session_def i)
  next
    case False
    then have "k_register_chrdev K CIRCULAR_MAJOR ''circular'' \<noteq> - ENOMEM"
      using i by (auto simp: circular_init_def Let_def errno_defs split: if_splits)
    moreover obtain st' tr1 where run: "circ_run K st cs = Inr (st', tr1)"
      and tr: "tr = tr0 @ tr1 @ circular_exit st'"
      using assms(1) False by (auto simp: circ_session_def i split: sum.splits)
    let ?X = "(if proc_entry st then [ProcEntry ''circular''] else []) @ [Chrdev CIRCULAR_MAJOR ''circular'']"
    have "run_calls [] tr0 = Some (buff_held st @ ?X)" using circular_init_calls [OF i] False by simp
    moreover have "run_calls (buff_held st @ ?X) tr1 = Some (buff_held st' @ ?X)" "proc_entry st' = proc_entry st"
      using circ_run_calls [OF run assms(2,3), of ?X] by simp_all
    moreover have "run_calls (buff_held st' @ ?X) (circular_exit st') = Some []"
      using calculation(4) by (auto simp: circular_exit_def buff_held_def)
    ultimately show ?thesis by (simp add: balanced_def tr run_calls_append)
  qed
qed

theorem circ_session_balanced_witness:
  "\<exists>tr. circ_session kenv0 [Circ_write_proc ''0''] = Inr tr \<and> balanced tr"
proof -
  have p: "k_kstrtol kenv0 (cstr (''0'' @ [NUL])) = Inr 0"
    by (simp add: kenv0_def cstr_def NUL_def isdigit_def read_nat_def digit_val_def)
  then obtain tr where s: "circ_session kenv0 [Circ_write_proc ''0''] = Inr tr"
    by (auto simp: circ_session_def circular_init_def circular_write_proc_def circ_state0_def krealloc_def
        clear_growth_def BUFF_INITIAL_SIZE_def Let_def u64_id s32_id)
  show ?thesis using circ_session_balanced [OF s] s by (simp add: EINVAL_def ENOMEM_def)
qed

end
