(* ===== verification/LinkedBuffer.thy ===== *)
theory LinkedBuffer imports KernelApi begin

text \<open>
  \<open>cw06/sync/linked_buffer/linked_buffer.c\<close> and its four variants under \<open>mutex\<close>, \<open>semaphore\<close> and
  \<open>spinlock\<close>: a device that keeps what is written to it in a list of nodes of at most
  \<open>INTERNAL_SIZE\<close> bytes.  \<open>linked_state\<close> holds the globals.  The loops of \<open>linked_read\<close> and
  \<open>linked_write\<close> are the same text in the first four files and are defined once
  (\<open>linked_read_loop\<close>, \<open>linked_write_step\<close>, \<open>linked_write_loop\<close>); what differs is where the
  locks are taken and given back, and that is in the trace each variant's operation returns.
  Shown: the list invariant, what a read delivers and where it leaves the position, when
  bytes are lost, the write/read round trip, the lock discipline of every variant on every
  path, and what a write does to the text.
\<close>

definition INTERNAL_SIZE :: nat where "INTERNAL_SIZE = 4"
definition LINKED_MAJOR :: int where "LINKED_MAJOR = 199"

record node =
  n_length :: nat
  n_contents :: string

record linked_state =
  l_buffer :: "node list"
  l_total :: nat
  l_reads :: nat
  l_writes :: nat

definition linked_state0 :: linked_state where
  "linked_state0 = \<lparr>l_buffer = [], l_total = 0, l_reads = 0, l_writes = 0\<rparr>"

abbreviation node_mem :: kres where "node_mem \<equiv> Mem ''struct data''"

definition node_bytes :: "node \<Rightarrow> string" where
  "node_bytes d = take (n_length d) (n_contents d)"

section \<open>Reading\<close>

text \<open>The loop over the list.  \<open>Inl\<close> is the \<open>-EFAULT\<close> exit with the bytes delivered until then; \<open>Inr\<close> holds
  \<open>copied\<close>, \<open>real_length\<close> and the bytes.  Positions are those the kernel hands in, which are not negative.\<close>

fun linked_read_loop ::
  "kenv \<Rightarrow> nat \<Rightarrow> nat \<Rightarrow> node list \<Rightarrow> nat \<Rightarrow> nat \<Rightarrow> nat \<Rightarrow> string \<Rightarrow> string + nat \<times> nat \<times> string" where
  "linked_read_loop K count f_pos [] pos copied real_length out = Inr (copied, real_length, out)"
| "linked_read_loop K count f_pos (d # ds) pos copied real_length out =
     (let to_copy = min (n_length d) (count - copied) in
      if pos < f_pos then linked_read_loop K count f_pos ds (pos + n_length d) copied real_length out
      else let src = take to_copy (n_contents d) in
      if k_copy_to_user K copied to_copy \<noteq> 0 then Inl (out @ copied_out K copied src)
      else if copied + to_copy \<ge> count
      then Inr (copied + to_copy, real_length + n_length d, out @ src)
      else linked_read_loop K count f_pos ds (pos + to_copy) (copied + to_copy) (real_length + n_length d) (out @ src))"

text \<open>Everything after the check of the position: result, new position, bytes, new state.\<close>

definition linked_read_rest ::
  "kenv \<Rightarrow> linked_state \<Rightarrow> nat \<Rightarrow> nat \<Rightarrow> int \<times> nat \<times> string \<times> linked_state" where
  "linked_read_rest K st count f_pos =
     (case linked_read_loop K count f_pos (l_buffer st) 0 0 0 [] of
        Inl out \<Rightarrow> (- EFAULT, f_pos, out, st)
      | Inr (copied, real_length, out) \<Rightarrow>
          (int copied, f_pos + real_length, out, st\<lparr>l_reads := l_reads st + 1\<rparr>))"

definition linked_read :: "kenv \<Rightarrow> linked_state \<Rightarrow> nat \<Rightarrow> nat \<Rightarrow> int \<times> nat \<times> string \<times> linked_state" where
  "linked_read K st count f_pos =
     (if f_pos > l_total st then (0, f_pos, [], st) else linked_read_rest K st count f_pos)"

section \<open>Writing\<close>

text \<open>Why the loop of \<open>linked_write\<close> ends: all chunks stored, no memory, a fault of the copy, or the text
  \<open>xxx&\<close> that clears the list.\<close>

datatype wexit = WDone | WNoMem | WFault | WClear

text \<open>\<open>lk\<close> and \<open>ulk\<close> are the calls that a variant makes around each access to the list.\<close>

definition clean_list_with :: "kcall list \<Rightarrow> kcall list \<Rightarrow> linked_state \<Rightarrow> linked_state \<times> kcall list" where
  "clean_list_with lk ulk st =
     (st\<lparr>l_buffer := [], l_total := 0\<rparr>, lk @ map (\<lambda>_. Rel node_mem) (l_buffer st) @ ulk)"

definition clean_list :: "linked_state \<Rightarrow> linked_state \<times> kcall list" where
  "clean_list st = clean_list_with [] [] st"

text \<open>One round of the loop for the chunk at offset \<open>i\<close>; the allocation of round \<open>i\<close> is a call of its
  own and may fail when earlier ones did not.\<close>

definition linked_write_step ::
  "kcall list \<Rightarrow> kcall list \<Rightarrow> kenv \<Rightarrow> string \<Rightarrow> nat \<Rightarrow> linked_state \<Rightarrow> wexit option \<times> linked_state \<times> nat \<times> kcall list" where
  "linked_write_step lk ulk K ubuf i st =
     (let to_copy = min INTERNAL_SIZE (length ubuf - i) in
      if \<not> k_kmalloc K (''linked_write '' @ show_nat i) 32 then (Some WNoMem, st, 0, [])
      else if k_copy_from_user K i to_copy \<noteq> 0 then (Some WFault, st, 0, [Acq node_mem])
      else let contents = blit (zeros INTERNAL_SIZE) 0 (copied_in K ubuf i to_copy) in
      if contents = ''xxx&''
      then (case clean_list_with lk ulk st of (st', tr) \<Rightarrow> (Some WClear, st', 0, [Acq node_mem] @ tr))
      else (None, st\<lparr>l_buffer := l_buffer st @ [\<lparr>n_length = to_copy, n_contents = contents\<rparr>],
              l_total := l_total st + to_copy\<rparr>, to_copy, [Acq node_mem] @ lk @ ulk))"

function linked_write_loop ::
  "kcall list \<Rightarrow> kcall list \<Rightarrow> kenv \<Rightarrow> string \<Rightarrow> nat \<Rightarrow> linked_state \<Rightarrow> nat \<Rightarrow> wexit \<times> linked_state \<times> nat \<times> kcall list" where
  "linked_write_loop lk ulk K ubuf i st f_pos =
     (if i \<ge> length ubuf then (WDone, st, f_pos, [])
      else (case linked_write_step lk ulk K ubuf i st of
          (Some e, st', _, tr) \<Rightarrow> (e, st', f_pos, tr)
        | (None, st', n, tr) \<Rightarrow>
            (case linked_write_loop lk ulk K ubuf (i + INTERNAL_SIZE) st' (f_pos + n) of
               (e, st'', f_pos', tr') \<Rightarrow> (e, st'', f_pos', tr @ tr'))))"
  by pat_completeness auto
termination
  by (relation "measure (\<lambda>(lk, ulk, K, ubuf, i, st, f_pos). length ubuf - i)") (auto simp: INTERNAL_SIZE_def)

declare linked_write_loop.simps [simp del]

text \<open>What \<open>linked_write\<close> returns on each exit, and the state after it.\<close>

fun wresult :: "nat \<Rightarrow> wexit \<Rightarrow> int" where
  "wresult count WDone = int count"
| "wresult count WNoMem = - ENOMEM"
| "wresult count WFault = - EFAULT"
| "wresult count WClear = int count"

definition wcount :: "wexit \<Rightarrow> linked_state \<Rightarrow> linked_state" where
  "wcount e st = (if e = WDone then st\<lparr>l_writes := l_writes st + 1\<rparr> else st)"

text \<open>The \<open>kfree(data)\<close> of the error exits.\<close>

fun wfree :: "wexit \<Rightarrow> kcall list" where
  "wfree WDone = []"
| "wfree WNoMem = []"
| "wfree WFault = [Rel node_mem]"
| "wfree WClear = [Rel node_mem]"

definition linked_write :: "kenv \<Rightarrow> linked_state \<Rightarrow> string \<Rightarrow> nat \<Rightarrow> int \<times> nat \<times> linked_state \<times> kcall list" where
  "linked_write K st ubuf f_pos =
     (case linked_write_loop [] [] K ubuf 0 st f_pos of
        (e, st', f_pos', tr) \<Rightarrow> (wresult (length ubuf) e, f_pos', wcount e st', tr @ wfree e))"

section \<open>The proc entry, init and exit\<close>

definition linked_proc_show :: "linked_state \<Rightarrow> string" where
  "linked_proc_show st =
     ''reads: '' @ show_nat (l_reads st) @ [CHR 0x0A] @ ''writes: '' @ show_nat (l_writes st) @ [CHR 0x0A] @
     ''total length: '' @ show_nat (l_total st) @ [CHR 0x0A]"

definition linked_init :: "kenv \<Rightarrow> int \<times> bool \<times> kcall list" where
  "linked_init K =
     (let unreg = [Rel (Chrdev LINKED_MAJOR ''linked'')] in
      if \<not> k_proc_create K ''linked'' then (0, False, unreg)
      else let result = k_register_chrdev K LINKED_MAJOR ''linked'' in
      if result < 0 then (result, True, [Acq (ProcEntry ''linked''), Rel (ProcEntry ''linked'')] @ unreg)
      else (result, True, [Acq (ProcEntry ''linked''), Acq (Chrdev LINKED_MAJOR ''linked'')]))"

definition linked_exit :: "bool \<Rightarrow> linked_state \<Rightarrow> linked_state \<times> kcall list" where
  "linked_exit proc_entry st =
     (case clean_list st of (st', tr) \<Rightarrow>
        (st', [Rel (Chrdev LINKED_MAJOR ''linked'')] @
          (if proc_entry then [Rel (ProcEntry ''linked'')] else []) @ tr))"

text \<open>A session of the module: the texts written between load and unload.\<close>

fun linked_run :: "kenv \<Rightarrow> linked_state \<Rightarrow> string list \<Rightarrow> linked_state \<times> kcall list" where
  "linked_run K st [] = (st, [])"
| "linked_run K st (w # ws) =
     (case linked_write K st w 0 of (_, _, st', tr) \<Rightarrow>
        (case linked_run K st' ws of (st'', tr') \<Rightarrow> (st'', tr @ tr')))"

definition linked_session :: "kenv \<Rightarrow> string list \<Rightarrow> kcall list" where
  "linked_session K ws =
     (case linked_init K of (rc, proc_entry, tr) \<Rightarrow>
        if rc < 0 then tr
        else (case linked_run K linked_state0 ws of (st, tr') \<Rightarrow> tr @ tr' @ snd (linked_exit proc_entry st)))"

section \<open>The variants\<close>

text \<open>\<open>mutex/linked_buffer\<close>.\<close>

abbreviation my_mutex :: kres where "my_mutex \<equiv> Lock ''my_mutex''"

definition linked_read_mutex ::
  "kenv \<Rightarrow> linked_state \<Rightarrow> nat \<Rightarrow> nat \<Rightarrow> int \<times> nat \<times> string \<times> linked_state \<times> kcall list" where
  "linked_read_mutex K st count f_pos =
     (if f_pos > l_total st then (0, f_pos, [], st, [])
      else (case linked_read_rest K st count f_pos of (r, f_pos', out, st') \<Rightarrow>
        (r, f_pos', out, st', Acq my_mutex # (if r < 0 then [] else [Rel my_mutex]))))"

definition linked_write_mutex :: "kenv \<Rightarrow> linked_state \<Rightarrow> string \<Rightarrow> nat \<Rightarrow> int \<times> nat \<times> linked_state \<times> kcall list" where
  "linked_write_mutex K st ubuf f_pos =
     (case linked_write_loop [] [] K ubuf 0 st f_pos of
        (e, st', f_pos', tr) \<Rightarrow> (wresult (length ubuf) e, f_pos', wcount e st',
          [Acq my_mutex] @ tr @ (if e = WNoMem then [] else [Rel my_mutex]) @ wfree e))"

text \<open>\<open>semaphore/linked_buffer\<close>.\<close>

abbreviation my_sem :: kres where "my_sem \<equiv> Lock ''my_sem''"

definition linked_read_semaphore ::
  "kenv \<Rightarrow> linked_state \<Rightarrow> nat \<Rightarrow> nat \<Rightarrow> int \<times> nat \<times> string \<times> linked_state \<times> kcall list" where
  "linked_read_semaphore K st count f_pos =
     (if f_pos > l_total st then (0, f_pos, [], st, [])
      else if k_interrupted K then (- EINTR, f_pos, [], st, [])
      else (case linked_read_rest K st count f_pos of (r, f_pos', out, st') \<Rightarrow>
        (r, f_pos', out, st', [Acq my_sem, Rel my_sem])))"

definition linked_write_semaphore :: "kenv \<Rightarrow> linked_state \<Rightarrow> string \<Rightarrow> nat \<Rightarrow> int \<times> nat \<times> linked_state \<times> kcall list" where
  "linked_write_semaphore K st ubuf f_pos =
     (if k_interrupted K then (- EINTR, f_pos, st, [])
      else (case linked_write_loop [] [] K ubuf 0 st f_pos of
        (e, st', f_pos', tr) \<Rightarrow> (wresult (length ubuf) e, f_pos', wcount e st',
          [Acq my_sem] @ tr @ (if e = WDone then [Rel my_sem] else wfree e @ [Rel my_sem]))))"

text \<open>\<open>spinlock/linked_buffer/linked_buffer.c\<close>, with a reader-writer lock taken around every access to the
  list; the exit for a failed copy and for a cleared list gives the lock back although it is not held there.\<close>

abbreviation rw_write :: kres where "rw_write \<equiv> Lock ''my_rwlock''"
abbreviation rw_read :: kres where "rw_read \<equiv> RdLock ''my_rwlock''"

definition clean_list_rwlock :: "linked_state \<Rightarrow> linked_state \<times> kcall list" where
  "clean_list_rwlock st = clean_list_with [Acq rw_write] [Rel rw_write] st"

definition linked_read_rwlock ::
  "kenv \<Rightarrow> linked_state \<Rightarrow> nat \<Rightarrow> nat \<Rightarrow> int \<times> nat \<times> string \<times> linked_state \<times> kcall list" where
  "linked_read_rwlock K st count f_pos =
     (if f_pos > l_total st then (0, f_pos, [], st, [])
      else (case linked_read_rest K st count f_pos of (r, f_pos', out, st') \<Rightarrow>
        (r, f_pos', out, st', [Acq rw_read, Rel rw_read])))"

definition linked_write_rwlock :: "kenv \<Rightarrow> linked_state \<Rightarrow> string \<Rightarrow> nat \<Rightarrow> int \<times> nat \<times> linked_state \<times> kcall list" where
  "linked_write_rwlock K st ubuf f_pos =
     (case linked_write_loop [Acq rw_write] [Rel rw_write] K ubuf 0 st f_pos of
        (e, st', f_pos', tr) \<Rightarrow> (wresult (length ubuf) e, f_pos', wcount e st',
          tr @ wfree e @ (if e = WFault \<or> e = WClear then [Rel rw_write] else [])))"

text \<open>\<open>spinlock/linked_buffer/111linked_buffer.c\<close>: the nodes are allocated before the lock is taken, in an
  array of as many pointers as there are bytes; \<open>memcpy\<close> returns its destination, which is not NULL.\<close>

definition alloc_nodes :: "kenv \<Rightarrow> nat \<Rightarrow> node option list" where
  "alloc_nodes K n = map (\<lambda>ii. if k_kmalloc K (''data '' @ show_nat ii) 32
     then Some \<lparr>n_length = 0, n_contents = zeros INTERNAL_SIZE\<rparr> else None) [0..<n]"

function linked_111_loop ::
  "node option list \<Rightarrow> string \<Rightarrow> nat \<Rightarrow> linked_state \<Rightarrow> nat \<Rightarrow> wexit \<times> linked_state \<times> nat \<times> kcall list" where
  "linked_111_loop data local_buf i st f_pos =
     (if i \<ge> length local_buf then (WDone, st, f_pos, [])
      else let to_copy = min INTERNAL_SIZE (length local_buf - i) in
      (case data ! (i div INTERNAL_SIZE) of
         None \<Rightarrow> (WNoMem, st, f_pos, [])
       | Some d \<Rightarrow>
           let d = d\<lparr>n_length := to_copy, n_contents := blit (n_contents d) 0 (take to_copy (drop i local_buf))\<rparr>;
               memcpy_result = Some d in
           if memcpy_result \<noteq> None then (WFault, st, f_pos, [])
           else if n_contents d = ''xxx&''
           then (case clean_list_rwlock st of (st', tr) \<Rightarrow> (WClear, st', f_pos, tr))
           else linked_111_loop data local_buf (i + INTERNAL_SIZE)
                  (st\<lparr>l_buffer := l_buffer st @ [d], l_total := l_total st + to_copy\<rparr>) (f_pos + to_copy)))"
  by pat_completeness auto
termination
  by (relation "measure (\<lambda>(data, local_buf, i, st, f_pos). length local_buf - i)") (auto simp: INTERNAL_SIZE_def)

declare linked_111_loop.simps [simp del]

definition linked_write_111 ::
  "kenv \<Rightarrow> linked_state \<Rightarrow> string \<Rightarrow> nat \<Rightarrow> fault + int \<times> nat \<times> linked_state \<times> kcall list" where
  "linked_write_111 K st ubuf f_pos =
     (let count = length ubuf; n = count div INTERNAL_SIZE + 1 in
      if count > 0 \<and> \<not> k_kmalloc K ''local_buf'' (int count + 1) then Inl NullDeref
      else let local_buf = copied_in K ubuf 0 count in
      if count = 0 then Inl OutOfBounds
      else if \<not> k_kmalloc K ''data'' (8 * int count) then Inl NullDeref
      else let data = alloc_nodes K n;
               got = [Acq (Mem ''data''), Acq (Mem ''local_buf'')] @ map (\<lambda>_. Acq node_mem) (filter (\<lambda>d. d \<noteq> None) data) in
      (case linked_111_loop data local_buf 0 st f_pos of
         (e, st', f_pos', tr) \<Rightarrow> Inr (wresult count e, f_pos', wcount e st',
           got @ [Acq rw_write] @ tr @ (if e = WNoMem then [] else [Rel rw_write]))))"

section \<open>The list invariant\<close>

definition node_ok :: "node \<Rightarrow> bool" where
  "node_ok d \<longleftrightarrow> 1 \<le> n_length d \<and> n_length d \<le> INTERNAL_SIZE \<and> length (n_contents d) = INTERNAL_SIZE"

definition nodes_length :: "node list \<Rightarrow> nat" where
  "nodes_length ds = sum_list (map n_length ds)"

definition linked_ok :: "linked_state \<Rightarrow> bool" where
  "linked_ok st \<longleftrightarrow> list_all node_ok (l_buffer st) \<and> l_total st = nodes_length (l_buffer st)"

definition nodes_text :: "node list \<Rightarrow> string" where
  "nodes_text ds = concat (map node_bytes ds)"

abbreviation linked_text :: "linked_state \<Rightarrow> string" where
  "linked_text st \<equiv> nodes_text (l_buffer st)"

lemma nodes_simps [simp]:
  "nodes_length [] = 0" "nodes_length (d # ds) = n_length d + nodes_length ds"
  "nodes_length (xs @ ys) = nodes_length xs + nodes_length ys"
  "nodes_text [] = []" "nodes_text (d # ds) = node_bytes d @ nodes_text ds"
  "nodes_text (xs @ ys) = nodes_text xs @ nodes_text ys"
  by (simp_all add: nodes_length_def nodes_text_def)

lemma length_node_bytes: "node_ok d \<Longrightarrow> length (node_bytes d) = n_length d"
  by (simp add: node_ok_def node_bytes_def)

lemma length_nodes_text: "list_all node_ok ds \<Longrightarrow> length (nodes_text ds) = nodes_length ds"
  by (induction ds) (auto simp: length_node_bytes)

lemma linked_ok0: "linked_ok linked_state0"
  by (simp add: linked_ok_def linked_state0_def)

section \<open>What a read delivers\<close>

text \<open>The nodes from the first one at or after a position, and the nodes that a read of \<open>count\<close> bytes
  touches.\<close>

fun skip_nodes :: "nat \<Rightarrow> node list \<Rightarrow> node list" where
  "skip_nodes f [] = []"
| "skip_nodes f (d # ds) = (if f = 0 then d # ds else skip_nodes (f - n_length d) ds)"

fun touched :: "nat \<Rightarrow> node list \<Rightarrow> node list" where
  "touched count [] = []"
| "touched count (d # ds) = d # (if count \<le> n_length d then [] else touched (count - n_length d) ds)"

lemma skip_nodes_0 [simp]: "skip_nodes 0 ds = ds"
  by (cases ds) simp_all

lemma read_loop_from:
  assumes "list_all node_ok ds" "f_pos \<le> pos" "copied < count \<or> ds = [] \<or> copied = 0 \<and> count = 0" "copied \<le> count"
  shows "linked_read_loop (copying K) count f_pos ds pos copied real out =
    Inr (copied + length (take (count - copied) (nodes_text ds)),
      real + nodes_length (touched (count - copied) ds), out @ take (count - copied) (nodes_text ds))"
  using assms
proof (induction ds arbitrary: pos copied real out)
  case Nil
  then show ?case by simp
next
  case (Cons d ds)
  then have d: "node_ok d" "list_all node_ok ds" by simp_all
  let ?t = "min (n_length d) (count - copied)"
  have l: "length (node_bytes d) = n_length d" by (rule length_node_bytes [OF d(1)])
  have src: "take ?t (n_contents d) = take (count - copied) (node_bytes d)"
    by (simp add: node_bytes_def min.commute)
  show ?case
  proof (cases "count - copied \<le> n_length d")
    case True
    then have "copied + ?t \<ge> count" using Cons.prems(4) by simp
    moreover have "take (count - copied) (n_contents d) = take (count - copied) (node_bytes d)"
      using True by (simp add: node_bytes_def min_absorb1)
    ultimately show ?thesis using True Cons.prems by (simp add: l Let_def)
  next
    case False
    then have c: "\<not> copied + ?t \<ge> count" "?t = n_length d" "copied + n_length d < count" by simp_all
    have "linked_read_loop (copying K) count f_pos (d # ds) pos copied real out =
        linked_read_loop (copying K) count f_pos ds (pos + n_length d) (copied + n_length d)
          (real + n_length d) (out @ node_bytes d)"
      using c Cons.prems(2) False by (simp add: node_bytes_def Let_def)
    also have "\<dots> = Inr (copied + length (take (count - copied) (nodes_text (d # ds))),
      real + nodes_length (touched (count - copied) (d # ds)), out @ take (count - copied) (nodes_text (d # ds)))"
      using False l Cons.IH [of "pos + n_length d" "copied + n_length d" "real + n_length d" "out @ node_bytes d"]
        d(2) c(3) Cons.prems(2) by simp
    finally show ?thesis .
  qed
qed

lemma read_loop_skip:
  "list_all node_ok ds \<Longrightarrow> linked_read_loop (copying K) count f_pos ds pos 0 0 [] =
    Inr (length (take count (nodes_text (skip_nodes (f_pos - pos) ds))),
      nodes_length (touched count (skip_nodes (f_pos - pos) ds)), take count (nodes_text (skip_nodes (f_pos - pos) ds)))"
proof (induction ds arbitrary: pos)
  case Nil
  then show ?case by simp
next
  case (Cons d ds)
  show ?case
  proof (cases "pos < f_pos")
    case True
    have "f_pos - pos - n_length d = f_pos - (pos + n_length d)" by simp
    with True Cons show ?thesis by (simp add: Let_def del: diff_diff_left)
  next
    case False
    then have f: "f_pos - pos = 0" by simp
    have "linked_read_loop (copying K) count f_pos (d # ds) pos 0 0 [] =
      Inr (0 + length (take (count - 0) (nodes_text (d # ds))),
        0 + nodes_length (touched (count - 0) (d # ds)), [] @ take (count - 0) (nodes_text (d # ds)))"
      by (rule read_loop_from) (use Cons.prems False in auto)
    then show ?thesis unfolding f skip_nodes_0 by (simp only: add_0 diff_zero append_Nil)
  qed
qed

lemma touched_prefix: "\<exists>zs. ds = touched c ds @ zs"
proof (induction c ds rule: touched.induct)
  case (2 c d ds)
  then show ?case by (cases "c \<le> n_length d") auto
qed simp

lemma touched_covers: "min c (nodes_length ds) \<le> nodes_length (touched c ds)"
  by (induction c ds rule: touched.induct) auto

lemma skip_nodes_boundary:
  "list_all node_ok (xs @ ys) \<Longrightarrow> skip_nodes (nodes_length xs) (xs @ ys) = ys"
proof (induction xs)
  case (Cons d xs)
  then have "0 < n_length d" by (simp add: node_ok_def)
  with Cons show ?case by simp
qed simp

lemma linked_read_rest_at:
  assumes "linked_ok st" "l_buffer st = xs @ ys"
  shows "linked_read_rest (copying K) st cn (nodes_length xs) =
    (int (length (take cn (nodes_text ys))), nodes_length xs + nodes_length (touched cn ys),
     take cn (nodes_text ys), st\<lparr>l_reads := l_reads st + 1\<rparr>)"
proof -
  have ok: "list_all node_ok (xs @ ys)" using assms by (simp add: linked_ok_def)
  have "skip_nodes (nodes_length xs - 0) (xs @ ys) = ys" using skip_nodes_boundary [OF ok] by simp
  then show ?thesis
    using read_loop_skip [OF ok, of K cn "nodes_length xs" 0] by (simp add: linked_read_rest_def assms(2))
qed

section \<open>What a write stores\<close>

text \<open>The nodes a text is stored in, and whether one of its chunks is the clearing text.\<close>

function chunk_nodes :: "string \<Rightarrow> node list" where
  "chunk_nodes s = (if s = [] then []
     else \<lparr>n_length = min INTERNAL_SIZE (length s), n_contents = blit (zeros INTERNAL_SIZE) 0 (take INTERNAL_SIZE s)\<rparr>
       # chunk_nodes (drop INTERNAL_SIZE s))"
  by pat_completeness auto
termination by (relation "measure length") (auto simp: INTERNAL_SIZE_def)

function clears :: "string \<Rightarrow> bool" where
  "clears s = (if s = [] then False else take INTERNAL_SIZE s = ''xxx&'' \<or> clears (drop INTERNAL_SIZE s))"
  by pat_completeness auto
termination by (relation "measure length") (auto simp: INTERNAL_SIZE_def)

declare chunk_nodes.simps [simp del] clears.simps [simp del]

lemma length_chunk: "length (blit (zeros INTERNAL_SIZE) 0 (take INTERNAL_SIZE s)) = INTERNAL_SIZE"
  by (simp add: blit_def)

lemma chunk_nodes_ok: "list_all node_ok (chunk_nodes s)"
proof (induction s rule: chunk_nodes.induct)
  case (1 s)
  show ?case
  proof (cases "s = []")
    case False
    then have "1 \<le> min INTERNAL_SIZE (length s)" by (cases s) (simp_all add: INTERNAL_SIZE_def)
    with 1 False show ?thesis by (simp add: chunk_nodes.simps [of s] node_ok_def length_chunk)
  qed (simp add: chunk_nodes.simps)
qed

lemma chunk_nodes_text: "nodes_text (chunk_nodes s) = s"
proof (induction s rule: chunk_nodes.induct)
  case (1 s)
  show ?case
  proof (cases "s = []")
    case False
    have "take (min INTERNAL_SIZE (length s)) (blit (zeros INTERNAL_SIZE) 0 (take INTERNAL_SIZE s)) = take INTERNAL_SIZE s"
      by (simp add: blit_def min_def)
    with 1 False show ?thesis by (simp add: chunk_nodes.simps [of s] node_bytes_def)
  qed (simp add: chunk_nodes.simps)
qed

lemma chunk_nodes_length: "nodes_length (chunk_nodes s) = length s"
  using length_nodes_text [OF chunk_nodes_ok, of s] by (simp add: chunk_nodes_text)

lemma chunk_clear: "blit (zeros INTERNAL_SIZE) 0 (take INTERNAL_SIZE s) = ''xxx&'' \<longleftrightarrow> take INTERNAL_SIZE s = ''xxx&''"
proof (cases "INTERNAL_SIZE \<le> length s")
  case True
  then show ?thesis by (simp add: blit_def)
next
  case False
  then have l: "length s < 4" by (simp add: INTERNAL_SIZE_def)
  then have n: "take INTERNAL_SIZE s \<noteq> ''xxx&''" by (auto simp: INTERNAL_SIZE_def dest: arg_cong [of _ _ length])
  obtain k where k: "INTERNAL_SIZE - length s = Suc k" using l by (cases "INTERNAL_SIZE - length s") (auto simp: INTERNAL_SIZE_def)
  have "blit (zeros INTERNAL_SIZE) 0 (take INTERNAL_SIZE s) = s @ replicate (Suc k) NUL"
    using False by (simp add: blit_def zeros_def k del: replicate.simps)
  moreover have "s @ replicate (Suc k) NUL \<noteq> ''xxx&''"
  proof
    assume "s @ replicate (Suc k) NUL = ''xxx&''"
    then have "NUL \<in> set ''xxx&''" by (metis Un_iff in_set_replicate nat.simps(3) set_append)
    then show False by (simp add: NUL_def)
  qed
  ultimately show ?thesis using n by simp
qed

text \<open>Documented success of the calls a write makes.\<close>

definition write_calls_ok :: "kenv \<Rightarrow> bool" where
  "write_calls_ok K \<longleftrightarrow> (\<forall>s z. k_kmalloc K s z) \<and> (\<forall>i n. k_copy_from_user K i n = 0)"

lemma write_step_effect:
  assumes "write_calls_ok K" "i < length ubuf"
  shows "linked_write_step lk ulk K ubuf i st =
    (if take INTERNAL_SIZE (drop i ubuf) = ''xxx&''
     then (Some WClear, st\<lparr>l_buffer := [], l_total := 0\<rparr>, 0, [Acq node_mem] @ lk @ map (\<lambda>_. Rel node_mem) (l_buffer st) @ ulk)
     else (None, st\<lparr>l_buffer := l_buffer st @ [hd (chunk_nodes (drop i ubuf))],
       l_total := l_total st + min INTERNAL_SIZE (length ubuf - i)\<rparr>, min INTERNAL_SIZE (length ubuf - i),
       [Acq node_mem] @ lk @ ulk))"
proof -
  have c: "copied_in K ubuf i (min INTERNAL_SIZE (length ubuf - i)) = take INTERNAL_SIZE (drop i ubuf)"
    using assms by (simp add: copied_in_all write_calls_ok_def min_def)
  have "drop i ubuf \<noteq> []" using assms(2) by simp
  then have h: "hd (chunk_nodes (drop i ubuf)) = \<lparr>n_length = min INTERNAL_SIZE (length ubuf - i),
      n_contents = blit (zeros INTERNAL_SIZE) 0 (take INTERNAL_SIZE (drop i ubuf))\<rparr>"
    by (simp add: chunk_nodes.simps [of "drop i ubuf"])
  have k: "k_kmalloc K (''linked_write '' @ show_nat i) 32" "\<And>n. k_copy_from_user K i n = 0"
    using assms(1) by (simp_all add: write_calls_ok_def)
  show ?thesis
    unfolding linked_write_step_def Let_def c chunk_clear
    using k by (simp add: clean_list_with_def h del: append.simps)
qed

lemma write_loop_end: "length ubuf \<le> i \<Longrightarrow> linked_write_loop lk ulk K ubuf i st f_pos = (WDone, st, f_pos, [])"
  by (subst linked_write_loop.simps) simp

lemma write_loop_round:
  "i < length ubuf \<Longrightarrow> linked_write_loop lk ulk K ubuf i st f_pos =
     (case linked_write_step lk ulk K ubuf i st of
          (Some e, st', _, tr) \<Rightarrow> (e, st', f_pos, tr)
        | (None, st', n, tr) \<Rightarrow>
            (case linked_write_loop lk ulk K ubuf (i + INTERNAL_SIZE) st' (f_pos + n) of
               (e, st'', f_pos', tr') \<Rightarrow> (e, st'', f_pos', tr @ tr')))"
  by (subst linked_write_loop.simps) simp

lemma write_loop_effect:
  assumes "write_calls_ok K" "i \<le> length ubuf"
  shows "\<exists>f' tr. linked_write_loop lk ulk K ubuf i st f_pos =
     (if clears (drop i ubuf) then (WClear, st\<lparr>l_buffer := [], l_total := 0\<rparr>, f', tr)
      else (WDone, st\<lparr>l_buffer := l_buffer st @ chunk_nodes (drop i ubuf), l_total := l_total st + (length ubuf - i)\<rparr>,
        f_pos + (length ubuf - i), tr))"
  using assms
proof (induction "length ubuf - i" arbitrary: i st f_pos rule: less_induct)
  case less
  show ?case
  proof (cases "i < length ubuf")
    case False
    then have "drop i ubuf = []" "i = length ubuf" using less.prems by simp_all
    then show ?thesis by (simp add: write_loop_end clears.simps [of "[]"] chunk_nodes.simps [of "[]"])
  next
    case True
    let ?s = "drop i ubuf" and ?m = "min INTERNAL_SIZE (length ubuf - i)"
    have s: "?s \<noteq> []" using True by simp
    show ?thesis
    proof (cases "take INTERNAL_SIZE ?s = ''xxx&''")
      case c: True
      with s have "clears ?s" by (simp add: clears.simps [of ?s])
      with True c show ?thesis
        by (simp add: write_loop_round write_step_effect [OF assms(1) True])
    next
      case c: False
      have cl: "clears ?s = clears (drop (i + INTERNAL_SIZE) ubuf)"
        using s c by (simp add: clears.simps [of ?s] add.commute)
      obtain h where ch: "chunk_nodes ?s = h # chunk_nodes (drop (i + INTERNAL_SIZE) ubuf)"
        using s by (simp add: chunk_nodes.simps [of ?s] add.commute)
      then have hd: "hd (chunk_nodes ?s) = h" by simp
      let ?st = "st\<lparr>l_buffer := l_buffer st @ [h], l_total := l_total st + ?m\<rparr>"
      show ?thesis
      proof (cases "i + INTERNAL_SIZE \<le> length ubuf")
        case le: True
        have lt: "length ubuf - (i + INTERNAL_SIZE) < length ubuf - i" using True by (simp add: INTERNAL_SIZE_def)
        from less.hyps [OF lt less.prems(1) le, of ?st "f_pos + ?m"] obtain f' tr where IH: "linked_write_loop lk ulk K ubuf (i + INTERNAL_SIZE) ?st (f_pos + ?m) =
          (if clears (drop (i + INTERNAL_SIZE) ubuf) then (WClear, ?st\<lparr>l_buffer := [], l_total := 0\<rparr>, f', tr)
           else (WDone, ?st\<lparr>l_buffer := l_buffer ?st @ chunk_nodes (drop (i + INTERNAL_SIZE) ubuf),
              l_total := l_total ?st + (length ubuf - (i + INTERNAL_SIZE))\<rparr>,
              f_pos + ?m + (length ubuf - (i + INTERNAL_SIZE)), tr))"
          by blast
        have m: "?m + (length ubuf - (i + INTERNAL_SIZE)) = length ubuf - i" using le by simp
        show ?thesis
          unfolding write_loop_round [OF True] write_step_effect [OF assms(1) True] cl hd ch
          using c IH by (simp add: add.assoc m)
      next
        case gt: False
        then have d: "drop (i + INTERNAL_SIZE) ubuf = []" "?m = length ubuf - i" by simp_all
        then show ?thesis
          unfolding write_loop_round [OF True] write_step_effect [OF assms(1) True] cl hd ch
          using c gt by (simp add: clears.simps [of "[]"] chunk_nodes.simps [of "[]"] write_loop_end)
      qed
    qed
  qed
qed

section \<open>Invariant and traces, whatever the kernel does\<close>

lemma copied_chunk_length: "i < length ubuf \<Longrightarrow> m \<le> length ubuf - i \<Longrightarrow> length (copied_in K ubuf i m) = m"
  by (simp add: copied_in_def Let_def)

lemma copied_in_length_all: "length (copied_in K ubuf 0 (length ubuf)) = length ubuf"
  by (simp add: copied_in_def Let_def)

lemma write_step_ok:
  assumes "linked_ok st" "i < length ubuf" "linked_write_step lk ulk K ubuf i st = (x, st', n, tr)"
  shows "linked_ok st'"
proof -
  let ?m = "min INTERNAL_SIZE (length ubuf - i)"
  have l: "length (copied_in K ubuf i ?m) = ?m" using assms(2) by (intro copied_chunk_length) simp_all
  have "node_ok \<lparr>n_length = ?m, n_contents = blit (zeros INTERNAL_SIZE) 0 (copied_in K ubuf i ?m)\<rparr>"
    using assms(2) l by (simp add: node_ok_def) (simp add: INTERNAL_SIZE_def)
  then show ?thesis
    using assms(1,3)
    by (auto simp: linked_write_step_def Let_def linked_ok_def clean_list_with_def split: if_splits)
qed

text \<open>\<open>M\<close> is what is held outside the locks, \<open>L\<close> what is held inside them.\<close>

definition lock_pair :: "(kres \<Rightarrow> nat) \<Rightarrow> (kres \<Rightarrow> nat) \<Rightarrow> kcall list \<Rightarrow> kcall list \<Rightarrow> bool" where
  "lock_pair M L lk ulk \<longleftrightarrow> (\<forall>n. run_counts (M(node_mem := n)) lk = Some (L(node_mem := n))
     \<and> run_counts (L(node_mem := n)) ulk = Some (M(node_mem := n)))"

definition spare :: "wexit \<Rightarrow> nat" where
  "spare e = (if e = WFault \<or> e = WClear then 1 else 0)"

lemma write_step_calls:
  assumes "lock_pair M L lk ulk" "linked_write_step lk ulk K ubuf i st = (x, st', n, tr)"
  shows "run_counts (M(node_mem := length (l_buffer st))) tr =
    Some (M(node_mem := length (l_buffer st') + (case x of None \<Rightarrow> 0 | Some e \<Rightarrow> spare e)))"
proof -
  have lk: "run_counts (M(node_mem := k)) lk = Some (L(node_mem := k))"
    and ulk: "run_counts (L(node_mem := k)) ulk = Some (M(node_mem := k))" for k
    using assms(1) by (simp_all add: lock_pair_def)
  have rel: "run_counts (L(node_mem := Suc (length (l_buffer st)))) (map (\<lambda>_. Rel node_mem) (l_buffer st)) =
      Some (L(node_mem := Suc 0))"
    by (rule run_counts_release_all [where n = "length (l_buffer st)" and k = "Suc 0", THEN trans]) simp_all
  show ?thesis
    using assms(2)
    by (auto simp: linked_write_step_def Let_def clean_list_with_def spare_def run_counts_append lk ulk rel
        simp del: map_replicate_const split: if_splits)
qed

lemma write_loop_calls:
  assumes "lock_pair M L lk ulk"
  shows "linked_write_loop lk ulk K ubuf i st f_pos = (e, st', f_pos', tr) \<Longrightarrow>
    run_counts (M(node_mem := length (l_buffer st))) tr = Some (M(node_mem := length (l_buffer st') + spare e))"
proof (induction "length ubuf - i" arbitrary: i st f_pos tr rule: less_induct)
  case less
  show ?case
  proof (cases "i < length ubuf")
    case False
    with less.prems show ?thesis by (auto simp: write_loop_end spare_def)
  next
    case True
    obtain x st1 n tr1 where s: "linked_write_step lk ulk K ubuf i st = (x, st1, n, tr1)"
      by (cases "linked_write_step lk ulk K ubuf i st") auto
    note c = write_step_calls [OF assms s]
    show ?thesis
    proof (cases x)
      case None
      obtain e2 st2 f2 tr2 where r: "linked_write_loop lk ulk K ubuf (i + INTERNAL_SIZE) st1 (f_pos + n) = (e2, st2, f2, tr2)"
        by (cases "linked_write_loop lk ulk K ubuf (i + INTERNAL_SIZE) st1 (f_pos + n)") auto
      have lt: "length ubuf - (i + INTERNAL_SIZE) < length ubuf - i" using True by (simp add: INTERNAL_SIZE_def)
      have e: "e2 = e" "st2 = st'" "f2 = f_pos'" "tr = tr1 @ tr2"
        using less.prems by (auto simp: write_loop_round [OF True] s r None)
      show ?thesis using less.hyps [OF lt r [unfolded e(1-3)]] c by (simp add: None e(4) run_counts_append)
    next
      case (Some e')
      with less.prems c show ?thesis by (simp add: write_loop_round [OF True] s)
    qed
  qed
qed

lemma write_loop_ok:
  "linked_write_loop lk ulk K ubuf i st f_pos = (e, st', f_pos', tr) \<Longrightarrow> linked_ok st \<Longrightarrow> linked_ok st'"
proof (induction "length ubuf - i" arbitrary: i st f_pos tr rule: less_induct)
  case less
  show ?case
  proof (cases "i < length ubuf")
    case False
    with less.prems show ?thesis by (auto simp: write_loop_end)
  next
    case True
    obtain x st1 n tr1 where s: "linked_write_step lk ulk K ubuf i st = (x, st1, n, tr1)"
      by (cases "linked_write_step lk ulk K ubuf i st") auto
    note ok = write_step_ok [OF less.prems(2) True s]
    show ?thesis
    proof (cases x)
      case None
      obtain e2 st2 f2 tr2 where r: "linked_write_loop lk ulk K ubuf (i + INTERNAL_SIZE) st1 (f_pos + n) = (e2, st2, f2, tr2)"
        by (cases "linked_write_loop lk ulk K ubuf (i + INTERNAL_SIZE) st1 (f_pos + n)") auto
      have lt: "length ubuf - (i + INTERNAL_SIZE) < length ubuf - i" using True by (simp add: INTERNAL_SIZE_def)
      have e: "e2 = e" "st2 = st'" "f2 = f_pos'" using less.prems by (auto simp: write_loop_round [OF True] s r None)
      show ?thesis using less.hyps [OF lt r [unfolded e] ok] .
    next
      case (Some e')
      with less.prems ok show ?thesis by (simp add: write_loop_round [OF True] s)
    qed
  qed
qed

section \<open>Reading a written text back\<close>

text \<open>The device as a reader of a fixed state: the result, position and bytes of \<open>linked_read\<close>.\<close>

definition linked_rd :: "kenv \<Rightarrow> linked_state \<Rightarrow> nat \<Rightarrow> int \<Rightarrow> int \<times> int \<times> string" where
  "linked_rd K st len pos = (case linked_read (copying K) st len (nat pos) of (r, p, out, _) \<Rightarrow> (r, int p, out))"

lemma linked_rd_at:
  assumes "linked_ok st" "l_buffer st = xs @ ys"
  shows "linked_rd K st len (int (nodes_length xs)) = (int (length (take len (nodes_text ys))),
     int (nodes_length xs + nodes_length (touched len ys)), take len (nodes_text ys))"
  using linked_read_rest_at [OF assms, of K len] assms
  by (simp add: linked_rd_def linked_read_def linked_ok_def)

lemma nodes_text_Nil: "list_all node_ok ds \<Longrightarrow> nodes_text ds = [] \<longleftrightarrow> ds = []"
  by (cases ds) (auto simp: length_node_bytes node_ok_def dest!: arg_cong [of _ _ length])

text \<open>Successive reads of \<open>n\<close> bytes from a node boundary on: each gives the first \<open>n\<close> bytes of the
  nodes that are left and drops every node it touched.\<close>

fun pieces :: "nat \<Rightarrow> nat \<Rightarrow> node list \<Rightarrow> string" where
  "pieces 0 n ds = []"
| "pieces (Suc fuel) n ds =
     (if ds = [] then [] else take n (nodes_text ds) @ pieces fuel n (drop (length (touched n ds)) ds))"

lemma cat_linked_rd:
  assumes "linked_ok st" "0 < n"
  shows "l_buffer st = xs @ ys \<Longrightarrow> cat (linked_rd K st) n fuel (int (nodes_length xs)) = pieces fuel n ys"
proof (induction fuel arbitrary: xs ys)
  case (Suc fuel)
  have ok: "list_all node_ok ys" using assms(1) Suc.prems by (simp add: linked_ok_def)
  obtain zs where zs: "ys = touched n ys @ zs" using touched_prefix by blast
  then have d: "drop (length (touched n ys)) ys = zs" by (metis append_eq_conv_conj)
  show ?case
  proof (cases "ys = []")
    case True
    with Suc.prems show ?thesis using linked_rd_at [OF assms(1), of xs "[]" K n] by simp
  next
    case False
    then have "nodes_text ys \<noteq> []" using nodes_text_Nil [OF ok] by simp
    then have "take n (nodes_text ys) \<noteq> []" using assms(2) by simp
    moreover have "cat (linked_rd K st) n fuel (int (nodes_length (xs @ touched n ys))) = pieces fuel n zs"
      by (rule Suc.IH) (use Suc.prems zs in simp)
    ultimately show ?thesis
      using linked_rd_at [OF assms(1) Suc.prems, of K n] False d by simp
  qed
qed simp

lemma write_loop_whole:
  assumes "write_calls_ok K"
  shows "\<exists>f' tr. linked_write_loop lk ulk K ubuf 0 st f_pos =
     (if clears ubuf then (WClear, st\<lparr>l_buffer := [], l_total := 0\<rparr>, f', tr)
      else (WDone, st\<lparr>l_buffer := l_buffer st @ chunk_nodes ubuf, l_total := l_total st + length ubuf\<rparr>,
        f_pos + length ubuf, tr))"
  using write_loop_effect [OF assms le0 [of "length ubuf"], of lk ulk st f_pos] by (simp only: drop_0 diff_zero)

lemma touched_more: "n_length d = k \<Longrightarrow> 0 < n \<Longrightarrow> touched (k + n) (d # ds) = d # touched n ds"
  by simp

lemma touched_chunks:
  "drop (length (touched (INTERNAL_SIZE * Suc m) (chunk_nodes s))) (chunk_nodes s) = chunk_nodes (drop (INTERNAL_SIZE * Suc m) s)"
proof (induction m arbitrary: s)
  case 0
  show ?case
  proof (cases "s = []")
    case False
    have "\<not> INTERNAL_SIZE \<le> length s \<Longrightarrow> drop INTERNAL_SIZE s = []" by simp
    then show ?thesis using False by (simp add: chunk_nodes.simps [of s] chunk_nodes.simps [of "[]"])
  qed (simp add: chunk_nodes.simps [of "[]"])
next
  case (Suc m)
  show ?case
  proof (cases "s = []")
    case False
    let ?d = "drop INTERNAL_SIZE s"
    have c: "chunk_nodes s = \<lparr>n_length = min INTERNAL_SIZE (length s),
        n_contents = blit (zeros INTERNAL_SIZE) 0 (take INTERNAL_SIZE s)\<rparr> # chunk_nodes ?d"
      using False by (simp add: chunk_nodes.simps [of s])
    show ?thesis
    proof (cases "INTERNAL_SIZE \<le> length s")
      case True
      then obtain d where d: "chunk_nodes s = d # chunk_nodes ?d" "n_length d = INTERNAL_SIZE" using c by simp
      have n: "INTERNAL_SIZE * Suc (Suc m) = INTERNAL_SIZE + INTERNAL_SIZE * Suc m" by simp
      have dd: "drop (INTERNAL_SIZE + k) s = drop k ?d" for k by (simp add: add.commute)
      have "0 < INTERNAL_SIZE * Suc m" by (simp add: INTERNAL_SIZE_def)
      from touched_more [OF d(2) this] show ?thesis
        unfolding n d(1) dd
        using Suc [of ?d] by (simp only: list.size drop_Suc_Cons add_0_right add_Suc_right)
    next
      case False
      then have "?d = []" "drop (INTERNAL_SIZE * Suc (Suc m)) s = []" "\<not> INTERNAL_SIZE * Suc (Suc m) \<le> length s"
        by simp_all
      with False show ?thesis by (simp add: c chunk_nodes.simps [of "[]"] del: mult_Suc_right)
    qed
  qed (simp add: chunk_nodes.simps [of "[]"])
qed

lemma chunk_nodes_Nil: "chunk_nodes s = [] \<longleftrightarrow> s = []"
  by (simp add: chunk_nodes.simps [of s])

lemma pieces_chunks:
  "length s < fuel \<Longrightarrow> pieces fuel (INTERNAL_SIZE * Suc m) (chunk_nodes s) = s"
proof (induction fuel arbitrary: s)
  case (Suc fuel)
  show ?case
  proof (cases "s = []")
    case False
    have "length (drop (INTERNAL_SIZE * Suc m) s) < fuel"
      using Suc.prems False by (cases s) (simp_all add: INTERNAL_SIZE_def)
    from Suc.IH [OF this] False show ?thesis
      by (simp only: pieces.simps chunk_nodes_Nil chunk_nodes_text touched_chunks if_False append_take_drop_id)
  qed (simp add: chunk_nodes.simps [of "[]"])
qed simp

lemma pieces_one:
  "list_all node_ok ds \<Longrightarrow> length ds < fuel \<Longrightarrow> pieces fuel 1 ds = map (\<lambda>d. hd (node_bytes d)) ds"
proof (induction ds arbitrary: fuel)
  case Nil
  then show ?case by (cases fuel) simp_all
next
  case (Cons d ds)
  then obtain f where f: "fuel = Suc f" by (cases fuel) simp_all
  from Cons.prems have n: "1 \<le> n_length d" "length (node_bytes d) = n_length d"
    by (simp_all add: node_ok_def length_node_bytes)
  then obtain b bs where b: "node_bytes d = b # bs" by (cases "node_bytes d") auto
  have "length ds < f" using Cons.prems(2) f by simp
  with Cons n b show ?case by (simp add: f)
qed

section \<open>Properties\<close>

text \<open>A read of the linked buffer from a node boundary delivers the first \<open>count\<close> bytes of what is stored from
  there on, and moves the position to the end of the last node it touched, which is a boundary again: the rest of
  that node is skipped, delivered or not.\<close>

theorem linked_read_delivers:
  assumes "linked_ok st" "l_buffer st = xs @ ys"
  shows "linked_read (copying K) st n (nodes_length xs) =
      (int (length (take n (nodes_text ys))), nodes_length (xs @ touched n ys), take n (nodes_text ys),
       st\<lparr>l_reads := l_reads st + 1\<rparr>)
    \<and> (\<exists>zs. ys = touched n ys @ zs)"
  using linked_read_rest_at [OF assms, of K n] assms touched_prefix [of ys n]
  by (simp add: linked_read_def linked_ok_def)

theorem linked_read_delivers_witness:
  "\<exists>st. l_buffer st = [\<lparr>n_length = 4, n_contents = ''abcd''\<rparr>] \<and>
     linked_read (copying kenv0) st 1 0 = (1, 4, ''a'', st\<lparr>l_reads := 1\<rparr>)"
proof -
  define st where "st = \<lparr>l_buffer = [\<lparr>n_length = 4, n_contents = ''abcd''\<rparr>], l_total = 4, l_reads = 0, l_writes = 0\<rparr>"
  have "linked_ok st" "l_buffer st = [] @ [\<lparr>n_length = 4, n_contents = ''abcd''\<rparr>]"
    by (simp_all add: st_def linked_ok_def node_ok_def INTERNAL_SIZE_def)
  from linked_read_delivers [OF this, of kenv0 1] show ?thesis
    by (intro exI [of _ st]) (simp add: st_def node_bytes_def)
qed

text \<open>C32.  A write to the linked buffer for which the kernel calls succeed reports the whole text.  If no four-byte chunk
  of it is \<open>xxx&\<close>, the text is appended and the position moves past it; otherwise the buffer is empty
  afterwards, whatever stood before or after that chunk, and the write is not counted.\<close>

theorem linked_write_effect:
  assumes "linked_ok st" "write_calls_ok K" "linked_write K st ubuf f_pos = (r, f_pos', st', tr)"
  shows "r = int (length ubuf) \<and> linked_ok st' \<and>
    (if clears ubuf then linked_text st' = [] \<and> l_writes st' = l_writes st
     else linked_text st' = linked_text st @ ubuf \<and> f_pos' = f_pos + length ubuf \<and> l_writes st' = l_writes st + 1)"
proof -
  obtain f' tr' where e: "linked_write_loop [] [] K ubuf 0 st f_pos =
     (if clears ubuf then (WClear, st\<lparr>l_buffer := [], l_total := 0\<rparr>, f', tr')
      else (WDone, st\<lparr>l_buffer := l_buffer st @ chunk_nodes ubuf, l_total := l_total st + length ubuf\<rparr>,
        f_pos + length ubuf, tr'))"
    using write_loop_whole [OF assms(2), of "[]" "[]" ubuf st f_pos] by auto
  show ?thesis
  proof (cases "clears ubuf")
    case True
    with e assms(1,3) show ?thesis by (auto simp: linked_write_def wcount_def linked_ok_def)
  next
    case False
    with e assms(1,3) show ?thesis
      by (auto simp: linked_write_def wcount_def linked_ok_def chunk_nodes_text chunk_nodes_ok chunk_nodes_length)
  qed
qed

lemma write_calls_ok_kenv0: "write_calls_ok kenv0"
  by (simp add: write_calls_ok_def)

theorem linked_write_effect_witness:
  "\<exists>r p st' tr. linked_write kenv0 linked_state0 ''hello'' 0 = (r, p, st', tr) \<and> linked_text st' = ''hello''"
proof -
  obtain r p st' tr where w: "linked_write kenv0 linked_state0 ''hello'' 0 = (r, p, st', tr)"
    by (cases "linked_write kenv0 linked_state0 ''hello'' 0") auto
  have "\<not> clears ''hello''" by (simp add: clears.simps INTERNAL_SIZE_def)
  then show ?thesis using linked_write_effect [OF linked_ok0 write_calls_ok_kenv0 w] w
    by (simp add: linked_state0_def)
qed

text \<open>The round trip through an empty linked buffer: a text written at once and read with buffers
  of a multiple of \<open>INTERNAL_SIZE\<close> bytes until end of file comes back unchanged.\<close>

theorem linked_write_read:
  assumes "write_calls_ok K" "\<not> clears ubuf" "linked_write K linked_state0 ubuf 0 = (r, f_pos', st', tr)"
    and "length ubuf < fuel"
  shows "cat (linked_rd K st') (INTERNAL_SIZE * Suc m) fuel 0 = ubuf"
proof -
  obtain f' tr' where e: "linked_write_loop [] [] K ubuf 0 linked_state0 0 =
     (WDone, linked_state0\<lparr>l_buffer := chunk_nodes ubuf, l_total := length ubuf\<rparr>, length ubuf, tr')"
    using write_loop_whole [OF assms(1), of "[]" "[]" ubuf linked_state0 0] assms(2)
    by (auto simp: linked_state0_def)
  then have b: "l_buffer st' = [] @ chunk_nodes ubuf" and ok: "linked_ok st'"
    using assms(3) by (auto simp: linked_write_def wcount_def linked_ok_def chunk_nodes_ok chunk_nodes_length)
  have "0 < INTERNAL_SIZE * Suc m" by (simp add: INTERNAL_SIZE_def)
  from cat_linked_rd [OF ok this b, of K fuel] pieces_chunks [OF assms(4), of m] show ?thesis by simp
qed

theorem linked_write_read_witness:
  "\<exists>r p st' tr. linked_write kenv0 linked_state0 ''hello'' 0 = (r, p, st', tr) \<and>
     cat (linked_rd kenv0 st') (INTERNAL_SIZE * Suc 0) 6 0 = ''hello''"
proof -
  obtain r p st' tr where w: "linked_write kenv0 linked_state0 ''hello'' 0 = (r, p, st', tr)"
    by (cases "linked_write kenv0 linked_state0 ''hello'' 0") auto
  have "\<not> clears ''hello''" by (simp add: clears.simps INTERNAL_SIZE_def)
  from linked_write_read [OF write_calls_ok_kenv0 this w, of 6 0] w show ?thesis by simp
qed

text \<open>A reader of the linked buffer that asks for one byte at a time gets the first byte of every node and loses the
  others, although each read reports success.\<close>

theorem linked_read_bytewise:
  assumes "linked_ok st" "length (l_buffer st) < fuel"
  shows "cat (linked_rd K st) 1 fuel 0 = map (\<lambda>d. hd (node_bytes d)) (l_buffer st)"
proof -
  have b: "l_buffer st = [] @ l_buffer st" by simp
  have "list_all node_ok (l_buffer st)" using assms(1) by (simp add: linked_ok_def)
  from pieces_one [OF this assms(2)] cat_linked_rd [OF assms(1) _ b, of 1 K fuel] show ?thesis by simp
qed

theorem linked_read_bytewise_witness:
  "\<exists>st. linked_text st = ''hello'' \<and> cat (linked_rd kenv0 st) 1 3 0 = ''ho''"
proof -
  define st where "st = \<lparr>l_buffer = [\<lparr>n_length = 4, n_contents = ''hell''\<rparr>, \<lparr>n_length = 1, n_contents = ''o'' @ zeros 3\<rparr>],
    l_total = 5, l_reads = 0, l_writes = 1\<rparr>"
  have "linked_ok st" by (simp add: st_def linked_ok_def node_ok_def INTERNAL_SIZE_def)
  from linked_read_bytewise [OF this, of 3 kenv0] show ?thesis
    by (intro exI [of _ st]) (simp add: st_def node_bytes_def)
qed

section \<open>The locks\<close>

definition lock_free :: "(kres \<Rightarrow> nat) \<Rightarrow> string \<Rightarrow> bool" where
  "lock_free M l \<longleftrightarrow> M (Lock l) = 0 \<and> M (RdLock l) = 0"

lemma lock_pair_none: "lock_pair M M [] []"
  by (simp add: lock_pair_def)

lemma lock_pair_write: "lock_free M l \<Longrightarrow> lock_pair M (M(Lock l := 1)) [Acq (Lock l)] [Rel (Lock l)]"
  by (auto simp: lock_pair_def lock_free_def fun_upd_twist)

lemma node_lock_twist: "M(node_mem := n, Lock l := k) = M(Lock l := k, node_mem := n)"
  by (simp add: fun_upd_twist)

lemma wfree_calls: "run_counts (M(node_mem := n + spare e)) (wfree e) = Some (M(node_mem := n))"
  by (cases e) (simp_all add: spare_def)

lemma wresult_ENOMEM: "wresult n e = - ENOMEM \<longleftrightarrow> e = WNoMem"
  by (cases e) (simp_all add: errno_defs)

lemma critical_write_calls:
  assumes "lock_free M l" "linked_write_loop [] [] K ubuf 0 st f_pos = (e, st', f', tr)"
  shows "run_counts (M(node_mem := length (l_buffer st))) (Acq (Lock l) # tr) =
    Some (M(Lock l := 1, node_mem := length (l_buffer st') + spare e))"
proof -
  have "run_counts (M(node_mem := length (l_buffer st))) (Acq (Lock l) # tr) =
      run_counts (M(Lock l := 1, node_mem := length (l_buffer st))) tr"
    using assms(1) by (simp add: lock_free_def fun_upd_twist)
  then show ?thesis using write_loop_calls [OF lock_pair_none assms(2), of "M(Lock l := 1)"] by simp
qed

lemma unlock_calls:
  "lock_free M l \<Longrightarrow> run_counts (M(Lock l := 1, node_mem := k)) (Rel (Lock l) # cs) = run_counts (M(node_mem := k)) cs"
proof -
  assume "lock_free M l"
  then have "M(Lock l := 0) = M" by (simp add: lock_free_def fun_upd_idem)
  then show ?thesis by (simp add: fun_upd_twist [of node_mem])
qed

lemma semaphore_calls:
  assumes "lock_free M ''my_sem''"
  shows "(case linked_write_semaphore K st ubuf f_pos of (r, f_pos', st', tr) \<Rightarrow>
      run_counts (M(node_mem := length (l_buffer st))) tr = Some (M(node_mem := length (l_buffer st'))))
    \<and> (case linked_read_semaphore K st n f_pos of (r, f_pos', out, st', tr) \<Rightarrow> run_counts M tr = Some M)"
proof
  obtain e st' f' tr where l: "linked_write_loop [] [] K ubuf 0 st f_pos = (e, st', f', tr)"
    by (cases "linked_write_loop [] [] K ubuf 0 st f_pos") auto
  have "(if e = WDone then [Rel my_sem] else wfree e @ [Rel my_sem]) = wfree e @ [Rel my_sem]"
    by (cases e) simp_all
  moreover have "run_counts (M(node_mem := length (l_buffer st))) ((Acq my_sem # tr) @ wfree e @ [Rel my_sem]) =
      Some (M(node_mem := length (l_buffer st')))"
    by (simp only: run_counts_append_Some [OF critical_write_calls [OF assms l]]
        run_counts_append_Some [OF wfree_calls] unlock_calls [OF assms] run_counts.simps(1))
  ultimately show "case linked_write_semaphore K st ubuf f_pos of (r, f_pos', st', tr) \<Rightarrow>
      run_counts (M(node_mem := length (l_buffer st))) tr = Some (M(node_mem := length (l_buffer st')))"
    by (auto simp: linked_write_semaphore_def l wcount_def simp del: run_counts.simps(2,3))
  show "case linked_read_semaphore K st n f_pos of (r, f_pos', out, st', tr) \<Rightarrow> run_counts M tr = Some M"
    using assms by (auto simp: linked_read_semaphore_def lock_free_def fun_upd_idem split: prod.splits)
qed

text \<open>The semaphore variant of the linked buffer gives its semaphore back on every path of a read and of a write,
  frees the node it did not store, and so holds afterwards exactly one block for every node of the list.\<close>

theorem linked_semaphore_released:
  assumes "lock_free M ''my_sem''"
  shows "(case linked_write_semaphore K st ubuf f_pos of (r, f_pos', st', tr) \<Rightarrow>
      run_counts (M(node_mem := length (l_buffer st))) tr = Some (M(node_mem := length (l_buffer st'))))
    \<and> (case linked_read_semaphore K st n f_pos of (r, f_pos', out, st', tr) \<Rightarrow> run_counts M tr = Some M)"
  using assms by (rule semaphore_calls)

theorem linked_semaphore_released_witness:
  "run_counts (\<lambda>_. 0) (snd (snd (snd (linked_write_semaphore kenv0 linked_state0 [] 0)))) = Some ((\<lambda>_. 0)(node_mem := 0))"
proof -
  have "(\<lambda>_ :: kres. 0 :: nat)(node_mem := 0) = (\<lambda>_. 0)" by (simp add: fun_eq_iff)
  moreover have f: "lock_free (\<lambda>_. 0) ''my_sem''" by (simp add: lock_free_def)
  ultimately show ?thesis
    using linked_semaphore_released [OF f, where K = kenv0 and st = linked_state0 and ubuf = "[]" and f_pos = 0]
    by (simp add: linked_write_semaphore_def write_loop_end wcount_def linked_state0_def del: run_counts.simps)
qed

lemma mutex_calls:
  assumes "lock_free M ''my_mutex''"
  shows "(case linked_write_mutex K st ubuf f_pos of (r, f_pos', st', tr) \<Rightarrow>
      run_counts (M(node_mem := length (l_buffer st))) tr =
        Some ((if r = - ENOMEM then M(my_mutex := 1) else M)(node_mem := length (l_buffer st'))))
    \<and> (case linked_read_mutex K st n f_pos of (r, f_pos', out, st', tr) \<Rightarrow>
      run_counts M tr = Some (if r = - EFAULT then M(my_mutex := 1) else M))"
proof
  obtain e st' f' tr where l: "linked_write_loop [] [] K ubuf 0 st f_pos = (e, st', f', tr)"
    by (cases "linked_write_loop [] [] K ubuf 0 st f_pos") auto
  have "run_counts (M(node_mem := length (l_buffer st)))
      ((Acq my_mutex # tr) @ (if e = WNoMem then [] else [Rel my_mutex]) @ wfree e) =
    Some ((if e = WNoMem then M(my_mutex := 1) else M)(node_mem := length (l_buffer st')))"
  proof (cases "e = WNoMem")
    case True
    with critical_write_calls [OF assms l] show ?thesis by (simp add: spare_def del: run_counts.simps(2,3))
  next
    case False
    then have t: "(if e = WNoMem then [] else [Rel my_mutex]) @ wfree e = Rel my_mutex # wfree e" by simp
    show ?thesis
      unfolding t run_counts_append_Some [OF critical_write_calls [OF assms l]] unlock_calls [OF assms] wfree_calls
      using False by simp
  qed
  then show "case linked_write_mutex K st ubuf f_pos of (r, f_pos', st', tr) \<Rightarrow>
      run_counts (M(node_mem := length (l_buffer st))) tr =
        Some ((if r = - ENOMEM then M(my_mutex := 1) else M)(node_mem := length (l_buffer st')))"
    by (auto simp: linked_write_mutex_def l wcount_def wresult_ENOMEM simp del: run_counts.simps(2,3))
  show "case linked_read_mutex K st n f_pos of (r, f_pos', out, st', tr) \<Rightarrow>
      run_counts M tr = Some (if r = - EFAULT then M(my_mutex := 1) else M)"
    using assms by (auto simp: linked_read_mutex_def linked_read_rest_def lock_free_def fun_upd_idem errno_defs
        split: prod.splits sum.splits)
qed

text \<open>The mutex variant of the linked buffer gives its mutex back except on two paths, on which every later call
  blocks for ever: a write that runs out of memory and a read whose copy to the user fails.\<close>

theorem linked_mutex_kept:
  assumes "lock_free M ''my_mutex''"
  shows "(case linked_write_mutex K st ubuf f_pos of (r, f_pos', st', tr) \<Rightarrow>
      run_counts (M(node_mem := length (l_buffer st))) tr =
        Some ((if r = - ENOMEM then M(my_mutex := 1) else M)(node_mem := length (l_buffer st'))))
    \<and> (case linked_read_mutex K st n f_pos of (r, f_pos', out, st', tr) \<Rightarrow>
      run_counts M tr = Some (if r = - EFAULT then M(my_mutex := 1) else M))"
  using assms by (rule mutex_calls)

theorem linked_mutex_kept_witness:
  "\<exists>K. run_counts (\<lambda>_. 0) (snd (snd (snd (linked_write_mutex K linked_state0 ''a'' 0)))) =
    Some ((\<lambda>_. 0)(my_mutex := 1, node_mem := 0))"
proof -
  define K where "K = kenv0\<lparr>k_kmalloc := (\<lambda>_ _. False)\<rparr>"
  have m: "(\<lambda>_ :: kres. 0 :: nat)(node_mem := 0) = (\<lambda>_. 0)" by (simp add: fun_eq_iff)
  have "linked_write_mutex K linked_state0 ''a'' 0 = (- ENOMEM, 0, linked_state0, [Acq my_mutex])"
    by (simp add: linked_write_mutex_def write_loop_round linked_write_step_def K_def wcount_def)
  moreover have f: "lock_free (\<lambda>_. 0) ''my_mutex''" by (simp add: lock_free_def)
  ultimately show ?thesis
    using linked_mutex_kept [OF f, where K = K and st = linked_state0 and ubuf = "''a''" and f_pos = 0] m
    by (intro exI [of _ K]) (simp add: linked_state0_def del: run_counts.simps)
qed

lemma rwlock_calls:
  assumes "lock_free M ''my_rwlock''"
    and "linked_write_loop [Acq rw_write] [Rel rw_write] K ubuf 0 st f_pos = (e, st1, f1, tr1)"
    and "linked_write_rwlock K st ubuf f_pos = (r, f_pos', st', tr)"
  shows "run_counts (M(node_mem := length (l_buffer st))) tr =
    (if e = WFault \<or> e = WClear then None else Some (M(node_mem := length (l_buffer st'))))"
proof -
  have c: "run_counts (M(node_mem := length (l_buffer st))) tr1 = Some (M(node_mem := length (l_buffer st1) + spare e))"
    using write_loop_calls [OF lock_pair_write [OF assms(1)] assms(2)] by simp
  have "run_counts (M(node_mem := k)) [Rel rw_write] = None" for k
    using assms(1) by (simp add: lock_free_def)
  moreover have "run_counts (M(node_mem := length (l_buffer st))) (tr1 @ wfree e @ xs) =
      run_counts (M(node_mem := length (l_buffer st1))) xs" for xs
    by (simp only: run_counts_append_Some [OF c] run_counts_append_Some [OF wfree_calls])
  moreover have "tr = tr1 @ wfree e @ (if e = WFault \<or> e = WClear then [Rel rw_write] else [])"
    "l_buffer st' = l_buffer st1"
    using assms(2,3) by (auto simp: linked_write_rwlock_def wcount_def)
  ultimately show ?thesis by (auto simp del: run_counts.simps(2,3))
qed

text \<open>The reader-writer-lock variant of the linked buffer: a write whose copy from the user fails, and a write that
  clears the list, unlock the lock without holding it; every other write leaves it free and holds exactly
  one block for every node.\<close>

theorem linked_rwlock_unlocked:
  assumes "lock_free M ''my_rwlock''"
    and "linked_write_loop [Acq rw_write] [Rel rw_write] K ubuf 0 st f_pos = (e, st1, f1, tr1)"
    and "linked_write_rwlock K st ubuf f_pos = (r, f_pos', st', tr)"
  shows "run_counts (M(node_mem := length (l_buffer st))) tr =
    (if e = WFault \<or> e = WClear then None else Some (M(node_mem := length (l_buffer st'))))"
  using assms by (rule rwlock_calls)

theorem linked_rwlock_unlocked_witness:
  "run_counts (\<lambda>_. 0) (snd (snd (snd (linked_write_rwlock kenv0 linked_state0 ''xxx&'' 0)))) = None"
proof -
  let ?l = "linked_write_loop [Acq rw_write] [Rel rw_write] kenv0 ''xxx&'' 0 linked_state0 0"
  obtain f tr where l: "?l = (WClear, linked_state0\<lparr>l_buffer := [], l_total := 0\<rparr>, f, tr)"
    using write_loop_whole [OF write_calls_ok_kenv0, of "[Acq rw_write]" "[Rel rw_write]" "''xxx&''" linked_state0 0]
    by (auto simp: clears.simps [of "''xxx&''"] INTERNAL_SIZE_def)
  have m: "(\<lambda>_ :: kres. 0 :: nat)(node_mem := 0) = (\<lambda>_. 0)" by (simp add: fun_eq_iff)
  have f: "lock_free (\<lambda>_. 0) ''my_rwlock''" by (simp add: lock_free_def)
  have p: "linked_write_rwlock kenv0 linked_state0 ''xxx&'' 0 =
      (fst (linked_write_rwlock kenv0 linked_state0 ''xxx&'' 0), fst (snd (linked_write_rwlock kenv0 linked_state0 ''xxx&'' 0)),
       fst (snd (snd (linked_write_rwlock kenv0 linked_state0 ''xxx&'' 0))),
       snd (snd (snd (linked_write_rwlock kenv0 linked_state0 ''xxx&'' 0))))" by simp
  from linked_rwlock_unlocked [OF f l p] m show ?thesis by (simp add: linked_state0_def del: run_counts.simps)
qed

lemma linked_111_first:
  assumes "local_buf \<noteq> []"
  shows "linked_111_loop data local_buf 0 st f_pos =
    (if data ! 0 = None then WNoMem else WFault, st, f_pos, [])"
  using assms by (subst linked_111_loop.simps) (auto simp: INTERNAL_SIZE_def split: option.splits)

lemma show_nat_0: "show_nat 0 = ''0''"
  by code_simp

lemma alloc_nodes_first: "0 < n \<Longrightarrow> alloc_nodes K n ! 0 = None \<longleftrightarrow> \<not> k_kmalloc K ''data 0'' 32"
  by (simp add: alloc_nodes_def show_nat_0)

text \<open>The variant in \<open>111linked_buffer.c\<close> never stores anything: a write faults if it is empty or a buffer cannot be
  allocated; otherwise it fails, because the address that \<open>memcpy\<close> returns is taken for an error, leaves list and position
  alone, and leaks both buffers and every node it allocated; if the first node was not allocated the lock stays
  held as well.\<close>

theorem linked_111_never_stores:
  assumes "lock_free M ''my_rwlock''"
  shows "case linked_write_111 K st ubuf f_pos of
      Inl e \<Rightarrow> ubuf = [] \<or> \<not> k_kmalloc K ''local_buf'' (int (length ubuf) + 1) \<or> \<not> k_kmalloc K ''data'' (8 * int (length ubuf))
    | Inr (r, f_pos', st', tr) \<Rightarrow>
        r = (if k_kmalloc K ''data 0'' 32 then - EFAULT else - ENOMEM) \<and> f_pos' = f_pos \<and> st' = st \<and>
        (\<exists>M'. run_counts M tr = Some M' \<and> M' (Mem ''data'') = M (Mem ''data'') + 1
          \<and> M' (Mem ''local_buf'') = M (Mem ''local_buf'') + 1
          \<and> M' node_mem = M node_mem + length (filter (\<lambda>d. d \<noteq> None) (alloc_nodes K (length ubuf div INTERNAL_SIZE + 1)))
          \<and> (M' rw_write = 1 \<longleftrightarrow> \<not> k_kmalloc K ''data 0'' 32))"
proof (cases "ubuf = [] \<or> \<not> k_kmalloc K ''local_buf'' (int (length ubuf) + 1) \<or> \<not> k_kmalloc K ''data'' (8 * int (length ubuf))")
  case True
  then show ?thesis by (auto simp: linked_write_111_def Let_def)
next
  case False
  let ?data = "alloc_nodes K (length ubuf div INTERNAL_SIZE + 1)"
  let ?got = "[Acq (Mem ''data''), Acq (Mem ''local_buf'')] @ map (\<lambda>_. Acq node_mem) (filter (\<lambda>d. d \<noteq> None) ?data)"
  define e where "e = (if ?data ! 0 = None then WNoMem else WFault)"
  have e: "e = WNoMem \<longleftrightarrow> \<not> k_kmalloc K ''data 0'' 32" "e = WNoMem \<or> e = WFault"
    using alloc_nodes_first [of "length ubuf div INTERNAL_SIZE + 1" K] by (simp_all add: e_def)
  have "copied_in K ubuf 0 (length ubuf) \<noteq> []"
    using False copied_in_length_all [of K ubuf] by (metis length_0_conv)
  then have w: "linked_write_111 K st ubuf f_pos = Inr (wresult (length ubuf) e, f_pos, st,
      ?got @ [Acq rw_write] @ (if e = WNoMem then [] else [Rel rw_write]))"
    using False e(2) by (auto simp: linked_write_111_def Let_def linked_111_first e_def wcount_def)
  let ?M = "M(Mem ''data'' := M (Mem ''data'') + 1, Mem ''local_buf'' := M (Mem ''local_buf'') + 1)"
  let ?M1 = "?M(node_mem := M node_mem + length (filter (\<lambda>d. d \<noteq> None) ?data))"
  have g: "run_counts M ?got = Some ?M1"
    by (simp add: run_counts_acquire_all del: map_replicate_const)
  have f: "?M1 rw_write = 0" "?M1 (RdLock ''my_rwlock'') = 0" using assms by (simp_all add: lock_free_def)
  have "run_counts M (?got @ [Acq rw_write] @ (if e = WNoMem then [] else [Rel rw_write])) =
      Some (if e = WNoMem then ?M1(rw_write := 1) else ?M1)"
    unfolding run_counts_append_Some [OF g] using f by (simp add: fun_upd_idem)
  then show ?thesis unfolding w using e f by (auto simp: lock_free_def)
qed

theorem linked_111_never_stores_witness:
  "\<exists>f st' tr. linked_write_111 kenv0 linked_state0 ''a'' 0 = Inr (- EFAULT, f, st', tr) \<and> st' = linked_state0"
proof -
  have "lock_free (\<lambda>_. 0) ''my_rwlock''" by (simp add: lock_free_def)
  from linked_111_never_stores [OF this, where K = kenv0 and st = linked_state0 and ubuf = "''a''" and f_pos = 0] show ?thesis
    by (cases "linked_write_111 kenv0 linked_state0 ''a'' 0") auto
qed

section \<open>Sessions\<close>

lemma linked_write_calls:
  assumes "linked_write K st w f_pos = (r, f_pos', st', tr)"
  shows "run_counts (M(node_mem := length (l_buffer st))) tr = Some (M(node_mem := length (l_buffer st')))"
proof -
  obtain e st1 f1 tr1 where l: "linked_write_loop [] [] K w 0 st f_pos = (e, st1, f1, tr1)"
    by (cases "linked_write_loop [] [] K w 0 st f_pos") auto
  have "tr = tr1 @ wfree e" "l_buffer st' = l_buffer st1" using assms by (auto simp: linked_write_def l wcount_def)
  then show ?thesis
    using run_counts_append_Some [OF write_loop_calls [OF lock_pair_none l]] wfree_calls by simp
qed

lemma linked_run_calls:
  "linked_run K st ws = (st', tr) \<Longrightarrow>
   run_counts (M(node_mem := length (l_buffer st))) tr = Some (M(node_mem := length (l_buffer st')))"
proof (induction ws arbitrary: st tr)
  case (Cons w ws)
  obtain r f st1 tr1 where 1: "linked_write K st w 0 = (r, f, st1, tr1)" by (cases "linked_write K st w 0") auto
  obtain st2 tr2 where 2: "linked_run K st1 ws = (st2, tr2)" by fastforce
  from Cons.prems 1 2 have t: "tr = tr1 @ tr2" and r: "linked_run K st1 ws = (st', tr2)" by auto
  show ?case unfolding t run_counts_append_Some [OF linked_write_calls [OF 1]] by (rule Cons.IH [OF r])
qed simp

lemma linked_exit_calls:
  assumes "M node_mem = length (l_buffer st)" "M (Chrdev LINKED_MAJOR ''linked'') = 1" "M (ProcEntry ''linked'') = 1"
  shows "run_counts M (snd (linked_exit True st)) =
    Some (M(Chrdev LINKED_MAJOR ''linked'' := 0, ProcEntry ''linked'' := 0, node_mem := 0))"
proof -
  let ?M = "M(Chrdev LINKED_MAJOR ''linked'' := 0, ProcEntry ''linked'' := 0)"
  have "run_counts ?M (map (\<lambda>_. Rel node_mem) (l_buffer st)) = Some (?M(node_mem := 0))"
    by (rule run_counts_release_all [where n = "length (l_buffer st)"]) (simp_all add: assms(1))
  then show ?thesis using assms(2,3)
    by (simp add: linked_exit_def clean_list_def clean_list_with_def del: map_replicate_const)
qed

text \<open>A session of the linked buffer module gives back every node, the proc entry and the device exactly when
  both registrations succeeded: the error path of \<open>linked_init\<close> unregisters a device that is not
  registered, and reports success when the proc entry could not be created.\<close>

theorem linked_session_balanced:
  "balanced (linked_session K ws) \<longleftrightarrow>
     k_proc_create K ''linked'' \<and> 0 \<le> k_register_chrdev K LINKED_MAJOR ''linked''"
proof (cases "k_proc_create K ''linked'' \<and> 0 \<le> k_register_chrdev K LINKED_MAJOR ''linked''")
  case False
  then show ?thesis
    by (auto simp: linked_session_def linked_init_def balanced_def Let_def split: prod.splits)
next
  case True
  let ?M = "(\<lambda>_. 0)(ProcEntry ''linked'' := 1, Chrdev LINKED_MAJOR ''linked'' := 1) :: kres \<Rightarrow> nat"
  obtain st tr where r: "linked_run K linked_state0 ws = (st, tr)" by fastforce
  have z: "?M(node_mem := length (l_buffer linked_state0)) = ?M" by (auto simp: linked_state0_def fun_eq_iff)
  have "run_counts ?M tr = Some (?M(node_mem := length (l_buffer st)))"
    using linked_run_calls [OF r, of ?M] unfolding z .
  moreover have "run_counts (?M(node_mem := length (l_buffer st))) (snd (linked_exit True st)) = Some (\<lambda>_. 0)"
    by (subst linked_exit_calls) (auto simp: fun_eq_iff)
  ultimately have "run_counts (\<lambda>_. 0) (linked_session K ws) = Some (\<lambda>_. 0)"
    using True by (simp add: linked_session_def linked_init_def Let_def r run_counts_append)
  with True show ?thesis by (simp add: balanced_counts)
qed

end
