(* ===== verification/LinkedSync.thy ===== *)
theory LinkedSync imports LinkedBuffer begin

text \<open>
  Several processes that write to the linked buffer at the same time.  The body of \<open>linked_write\<close> is
  the same \<open>linked_write_step\<close> as in \<open>LinkedBuffer\<close>; what differs between the variants is the lock
  around it.  In the mutex variant the lock is held for the whole loop and \<open>write_count++\<close>:
  \<open>lstep\<close> is the step relation of any number of such writers, with \<open>keeps\<close> telling on which
  exits the code forgets to unlock (on \<open>ENOMEM\<close> for the mutex).  In the semaphore variant \<open>sstep\<close> has \<open>write_count++\<close> behind the unlock; but for the
  counter it refines \<open>lstep\<close> with a lock that is always given back.  In the
  reader-writer-lock variant only the list access is locked: \<open>cstep\<close> lets the writers' rounds interleave
  freely.  Shown: the locked writers are serialisable, the semaphore variant never blocks for ever, the mutex
  variant does after \<open>ENOMEM\<close>, and what the interleaved writers preserve.
\<close>

section \<open>Writers under one lock\<close>

datatype wstate = WIdle | WRun nat | WOut wexit

record lsys =
  sy_st :: linked_state
  sy_owner :: "nat option"
  sy_ws :: "wstate list"
  sy_log :: "nat list"      \<comment> \<open>the writers in the order in which they left the loop\<close>

definition lsys0 :: "linked_state \<Rightarrow> nat \<Rightarrow> lsys" where
  "lsys0 st n = \<lparr>sy_st = st, sy_owner = None, sy_ws = replicate n WIdle, sy_log = []\<rparr>"

text \<open>\<open>texts ! j\<close> is what writer \<open>j\<close> writes; \<open>WRun i\<close> is a writer before the round for offset \<open>i\<close>.\<close>

inductive lstep :: "kenv \<Rightarrow> string list \<Rightarrow> (wexit \<Rightarrow> bool) \<Rightarrow> lsys \<Rightarrow> lsys \<Rightarrow> bool"
  for K :: kenv and texts :: "string list" and keeps :: "wexit \<Rightarrow> bool" where
  lock: "j < length (sy_ws s) \<Longrightarrow> sy_ws s ! j = WIdle \<Longrightarrow> sy_owner s = None \<Longrightarrow>
    lstep K texts keeps s (s\<lparr>sy_owner := Some j, sy_ws := (sy_ws s)[j := WRun 0]\<rparr>)"
| round: "j < length (sy_ws s) \<Longrightarrow> sy_ws s ! j = WRun i \<Longrightarrow> i < length (texts ! j) \<Longrightarrow>
    linked_write_step [] [] K (texts ! j) i (sy_st s) = (None, st', n, tr) \<Longrightarrow>
    lstep K texts keeps s (s\<lparr>sy_st := st', sy_ws := (sy_ws s)[j := WRun (i + INTERNAL_SIZE)]\<rparr>)"
| fail: "j < length (sy_ws s) \<Longrightarrow> sy_ws s ! j = WRun i \<Longrightarrow> i < length (texts ! j) \<Longrightarrow>
    linked_write_step [] [] K (texts ! j) i (sy_st s) = (Some e, st', n, tr) \<Longrightarrow>
    lstep K texts keeps s (s\<lparr>sy_st := st', sy_ws := (sy_ws s)[j := WOut e],
      sy_owner := (if keeps e then sy_owner s else None), sy_log := sy_log s @ [j]\<rparr>)"
| finish: "j < length (sy_ws s) \<Longrightarrow> sy_ws s ! j = WRun i \<Longrightarrow> \<not> i < length (texts ! j) \<Longrightarrow>
    lstep K texts keeps s (s\<lparr>sy_st := wcount WDone (sy_st s), sy_ws := (sy_ws s)[j := WOut WDone],
      sy_owner := (if keeps WDone then sy_owner s else None), sy_log := sy_log s @ [j]\<rparr>)"

inductive lreach :: "kenv \<Rightarrow> string list \<Rightarrow> (wexit \<Rightarrow> bool) \<Rightarrow> linked_state \<Rightarrow> lsys \<Rightarrow> bool"
  for K :: kenv and texts :: "string list" and keeps :: "wexit \<Rightarrow> bool" and st :: linked_state where
  start: "lreach K texts keeps st (lsys0 st (length texts))"
| step: "lreach K texts keeps st s \<Longrightarrow> lstep K texts keeps s t \<Longrightarrow> lreach K texts keeps st t"

definition keeps_semaphore :: "wexit \<Rightarrow> bool" where "keeps_semaphore e = False"
definition keeps_mutex :: "wexit \<Rightarrow> bool" where "keeps_mutex e = (e = WNoMem)"

text \<open>The specification: the writes one after the other.\<close>

definition write_result :: "kenv \<Rightarrow> string \<Rightarrow> nat \<Rightarrow> linked_state \<Rightarrow> linked_state" where
  "write_result K w i st = (case linked_write_loop [] [] K w i st 0 of (e, st', _, _) \<Rightarrow> wcount e st')"

definition serial :: "kenv \<Rightarrow> string list \<Rightarrow> nat list \<Rightarrow> linked_state \<Rightarrow> linked_state" where
  "serial K texts js st = foldl (\<lambda>st j. write_result K (texts ! j) 0 st) st js"

lemma write_result_linked_write: "write_result K w 0 st = fst (snd (snd (linked_write K st w 0)))"
  by (simp add: write_result_def linked_write_def split: prod.splits)

lemma loop_pos_irrelevant:
  "(case linked_write_loop lk ulk K w i st p of (e, st', _, _) \<Rightarrow> (e, st')) =
   (case linked_write_loop lk ulk K w i st q of (e, st', _, _) \<Rightarrow> (e, st'))"
proof (induction "length w - i" arbitrary: i st p q rule: less_induct)
  case less
  show ?case
  proof (cases "i < length w")
    case False
    then show ?thesis by (simp add: write_loop_end)
  next
    case True
    obtain x st1 n tr1 where s: "linked_write_step lk ulk K w i st = (x, st1, n, tr1)"
      by (cases "linked_write_step lk ulk K w i st") auto
    show ?thesis
    proof (cases x)
      case None
      have lt: "length w - (i + INTERNAL_SIZE) < length w - i" using True by (simp add: INTERNAL_SIZE_def)
      from less.hyps [OF lt, of st1 "p + n" "q + n"] None show ?thesis
        by (auto simp: write_loop_round [OF True] s split: prod.splits)
    next
      case (Some e)
      then show ?thesis by (simp add: write_loop_round [OF True] s)
    qed
  qed
qed

lemma write_result_round:
  "i < length w \<Longrightarrow> linked_write_step [] [] K w i st = (None, st', n, tr) \<Longrightarrow>
   write_result K w i st = write_result K w (i + INTERNAL_SIZE) st'"
  using loop_pos_irrelevant [of "[]" "[]" K w "i + INTERNAL_SIZE" st' n 0]
  by (auto simp: write_result_def write_loop_round split: prod.splits)

lemma write_result_fail:
  "i < length w \<Longrightarrow> linked_write_step [] [] K w i st = (Some e, st', n, tr) \<Longrightarrow>
   write_result K w i st = wcount e st'"
  by (simp add: write_result_def write_loop_round)

lemma write_result_end: "\<not> i < length w \<Longrightarrow> write_result K w i st = wcount WDone st"
  by (simp add: write_result_def write_loop_end)

lemma step_exit: "linked_write_step lk ulk K w i st = (Some e, st', n, tr) \<Longrightarrow> e \<noteq> WDone"
  by (auto simp: linked_write_step_def Let_def clean_list_with_def split: if_splits)

lemma serial_snoc: "serial K texts (js @ [j]) st = write_result K (texts ! j) 0 (serial K texts js st)"
  by (simp add: serial_def)

section \<open>The invariant\<close>

text \<open>A writer in the loop owns the lock, and what is left of its write completes the serial execution of the
  logged writers followed by it; the lock is owned by a writer in the loop or by one that kept it.\<close>

definition lsys_inv :: "kenv \<Rightarrow> string list \<Rightarrow> (wexit \<Rightarrow> bool) \<Rightarrow> linked_state \<Rightarrow> lsys \<Rightarrow> bool" where
  "lsys_inv K texts keeps st s \<longleftrightarrow>
     length (sy_ws s) = length texts \<and>
     (\<forall>j < length texts. \<forall>i. sy_ws s ! j = WRun i \<longrightarrow> sy_owner s = Some j \<and>
        write_result K (texts ! j) i (sy_st s) = write_result K (texts ! j) 0 (serial K texts (sy_log s) st)) \<and>
     (\<forall>j < length texts. (\<exists>e. sy_ws s ! j = WOut e) \<longleftrightarrow> j \<in> set (sy_log s)) \<and>
     set (sy_log s) \<subseteq> {0..<length texts} \<and> distinct (sy_log s) \<and>
     ((\<forall>j < length texts. \<forall>i. sy_ws s ! j \<noteq> WRun i) \<longrightarrow> sy_st s = serial K texts (sy_log s) st) \<and>
     (\<forall>j. sy_owner s = Some j \<longrightarrow> j < length texts \<and>
        ((\<exists>i. sy_ws s ! j = WRun i) \<or> (\<exists>e. sy_ws s ! j = WOut e \<and> keeps e))) \<and>
     (\<forall>j < length texts. \<forall>e. sy_ws s ! j = WOut e \<longrightarrow> keeps e \<longrightarrow> sy_owner s = Some j)"

lemma lsys_inv0: "lsys_inv K texts keeps st (lsys0 st (length texts))"
  by (auto simp: lsys_inv_def lsys0_def serial_def)

lemma lsys_invD:
  assumes "lsys_inv K texts keeps st s"
  shows "length (sy_ws s) = length texts"
    "\<And>j i. j < length texts \<Longrightarrow> sy_ws s ! j = WRun i \<Longrightarrow> sy_owner s = Some j \<and>
      write_result K (texts ! j) i (sy_st s) = write_result K (texts ! j) 0 (serial K texts (sy_log s) st)"
    "\<And>j. j < length texts \<Longrightarrow> (\<exists>e. sy_ws s ! j = WOut e) \<longleftrightarrow> j \<in> set (sy_log s)"
    "set (sy_log s) \<subseteq> {0..<length texts}" "distinct (sy_log s)"
    "(\<And>j i. j < length texts \<Longrightarrow> sy_ws s ! j \<noteq> WRun i) \<Longrightarrow> sy_st s = serial K texts (sy_log s) st"
    "\<And>j. sy_owner s = Some j \<Longrightarrow> j < length texts \<and>
        ((\<exists>i. sy_ws s ! j = WRun i) \<or> (\<exists>e. sy_ws s ! j = WOut e \<and> keeps e))"
    "\<And>j e. j < length texts \<Longrightarrow> sy_ws s ! j = WOut e \<Longrightarrow> keeps e \<Longrightarrow> sy_owner s = Some j"
  using assms unfolding lsys_inv_def by blast+

text \<open>A writer that leaves the loop with exit \<open>e\<close> and state \<open>st'\<close>.\<close>

lemma lsys_inv_leave:
  assumes inv: "lsys_inv K texts keeps st s" and j: "j < length (sy_ws s)" "sy_ws s ! j = WRun i"
    and res: "write_result K (texts ! j) i (sy_st s) = st'"
  shows "lsys_inv K texts keeps st (s\<lparr>sy_st := st', sy_ws := (sy_ws s)[j := WOut e],
      sy_owner := (if keeps e then sy_owner s else None), sy_log := sy_log s @ [j]\<rparr>)"
proof -
  note I = lsys_invD [OF inv]
  have jn: "j < length texts" using j(1) I(1) by simp
  have own: "sy_owner s = Some j" and sr: "st' = serial K texts (sy_log s @ [j]) st"
    using I(2) [OF jn j(2)] res by (simp_all add: serial_snoc)
  have fresh: "j \<notin> set (sy_log s)" using I(3) [OF jn] j(2) by auto
  have others: "sy_ws s ! k \<noteq> WRun i'" if "k < length texts" "k \<noteq> j" for k i'
    using I(2) [OF that(1)] own that(2) by auto
  have kept: "\<not> keeps e'" if "k < length texts" "k \<noteq> j" "sy_ws s ! k = WOut e'" for k e'
    using I(8) [OF that(1,3)] own that(2) by auto
  show ?thesis
    unfolding lsys_inv_def
    using I(1,3,4,5) jn own sr fresh others kept
    by (auto simp: nth_list_update)
qed

lemma lstep_inv: "lstep K texts keeps s t \<Longrightarrow> lsys_inv K texts keeps st s \<Longrightarrow> lsys_inv K texts keeps st t"
proof (induction rule: lstep.induct)
  case (lock j s)
  note I = lsys_invD [OF lock(4)]
  have norun: "sy_ws s ! k \<noteq> WRun i" if "k < length texts" for k i using I(2) [OF that] lock(3) by auto
  then have sr: "sy_st s = serial K texts (sy_log s) st" by (rule I(6))
  have nokeep: "\<not> keeps e" if "k < length texts" "sy_ws s ! k = WOut e" for k e
    using I(8) [OF that] lock(3) by auto
  have fresh: "j \<notin> set (sy_log s)" using I(3) [of j] I(1) lock(1,2) by auto
  show ?case
    unfolding lsys_inv_def
    using I(1,3,4,5) lock(1,2) sr norun nokeep fresh by (auto simp: nth_list_update)
next
  case (round j s i st' n tr)
  note I = lsys_invD [OF round(5)]
  have jn: "j < length texts" using round(1) I(1) by simp
  have own: "sy_owner s = Some j" using I(2) [OF jn round(2)] by simp
  have res: "write_result K (texts ! j) (i + INTERNAL_SIZE) st' = write_result K (texts ! j) 0 (serial K texts (sy_log s) st)"
    using I(2) [OF jn round(2)] write_result_round [OF round(3,4)] by simp
  have others: "sy_ws s ! k \<noteq> WRun i'" if "k < length texts" "k \<noteq> j" for k i'
    using I(2) [OF that(1)] own that(2) by auto
  have fresh: "j \<notin> set (sy_log s)" using I(3) [OF jn] round(2) by auto
  have kept: "\<not> keeps e'" if "k < length texts" "k \<noteq> j" "sy_ws s ! k = WOut e'" for k e'
    using I(8) [OF that(1,3)] own that(2) by auto
  show ?case
    unfolding lsys_inv_def
    using I(1,3,4,5) jn own res others fresh kept by (auto simp: nth_list_update)
next
  case (fail j s i e st' n tr)
  from step_exit [OF fail(4)] write_result_fail [OF fail(3,4)]
  have "write_result K (texts ! j) i (sy_st s) = st'" by (simp add: wcount_def)
  then show ?case by (rule lsys_inv_leave [OF fail(5,1,2)])
next
  case (finish j s i)
  from write_result_end [OF finish(3)] have "write_result K (texts ! j) i (sy_st s) = wcount WDone (sy_st s)" .
  then show ?case by (rule lsys_inv_leave [OF finish(4,1,2)])
qed

lemma lreach_inv: "lreach K texts keeps st s \<Longrightarrow> lsys_inv K texts keeps st s"
proof (induction rule: lreach.induct)
  case start
  show ?case by (rule lsys_inv0)
next
  case (step s t)
  then show ?case using lstep_inv by blast
qed

lemma writer_moves:
  assumes "j < length (sy_ws s)" "sy_ws s ! j = WRun i"
  shows "\<exists>t. lstep K texts keeps s t"
proof (cases "i < length (texts ! j)")
  case True
  obtain x st1 n tr1 where s: "linked_write_step [] [] K (texts ! j) i (sy_st s) = (x, st1, n, tr1)"
    by (cases "linked_write_step [] [] K (texts ! j) i (sy_st s)") auto
  show ?thesis
  proof (cases x)
    case None
    from lstep.round [OF assms True s [unfolded None]] show ?thesis by blast
  next
    case (Some e)
    from lstep.fail [OF assms True s [unfolded Some]] show ?thesis by blast
  qed
next
  case False
  from lstep.finish [OF assms False] show ?thesis by blast
qed

section \<open>The semaphore variant\<close>

text \<open>In the semaphore variant \<open>write_count++\<close> comes after \<open>up(&my_sem)\<close>: it is a load and a store that the lock does not
  cover.  \<open>down_interruptible\<close> may be interrupted before a writer has the semaphore.\<close>

datatype sstate = SBody wstate | SIntr | SLoad | SStore nat

record ssys =
  ss_st :: linked_state
  ss_owner :: "nat option"
  ss_ws :: "sstate list"
  ss_log :: "nat list"

definition ssys0 :: "linked_state \<Rightarrow> nat \<Rightarrow> ssys" where
  "ssys0 st n = \<lparr>ss_st = st, ss_owner = None, ss_ws = replicate n (SBody WIdle), ss_log = []\<rparr>"

inductive sstep :: "kenv \<Rightarrow> string list \<Rightarrow> ssys \<Rightarrow> ssys \<Rightarrow> bool" for K :: kenv and texts :: "string list" where
  lock: "j < length (ss_ws s) \<Longrightarrow> ss_ws s ! j = SBody WIdle \<Longrightarrow> ss_owner s = None \<Longrightarrow>
    sstep K texts s (s\<lparr>ss_owner := Some j, ss_ws := (ss_ws s)[j := SBody (WRun 0)]\<rparr>)"
| interrupted: "j < length (ss_ws s) \<Longrightarrow> ss_ws s ! j = SBody WIdle \<Longrightarrow>
    sstep K texts s (s\<lparr>ss_ws := (ss_ws s)[j := SIntr]\<rparr>)"
| round: "j < length (ss_ws s) \<Longrightarrow> ss_ws s ! j = SBody (WRun i) \<Longrightarrow> i < length (texts ! j) \<Longrightarrow>
    linked_write_step [] [] K (texts ! j) i (ss_st s) = (None, st', n, tr) \<Longrightarrow>
    sstep K texts s (s\<lparr>ss_st := st', ss_ws := (ss_ws s)[j := SBody (WRun (i + INTERNAL_SIZE))]\<rparr>)"
| fail: "j < length (ss_ws s) \<Longrightarrow> ss_ws s ! j = SBody (WRun i) \<Longrightarrow> i < length (texts ! j) \<Longrightarrow>
    linked_write_step [] [] K (texts ! j) i (ss_st s) = (Some e, st', n, tr) \<Longrightarrow>
    sstep K texts s (s\<lparr>ss_st := st', ss_ws := (ss_ws s)[j := SBody (WOut e)], ss_owner := None, ss_log := ss_log s @ [j]\<rparr>)"
| up: "j < length (ss_ws s) \<Longrightarrow> ss_ws s ! j = SBody (WRun i) \<Longrightarrow> \<not> i < length (texts ! j) \<Longrightarrow>
    sstep K texts s (s\<lparr>ss_ws := (ss_ws s)[j := SLoad], ss_owner := None, ss_log := ss_log s @ [j]\<rparr>)"
| load: "j < length (ss_ws s) \<Longrightarrow> ss_ws s ! j = SLoad \<Longrightarrow>
    sstep K texts s (s\<lparr>ss_ws := (ss_ws s)[j := SStore (l_writes (ss_st s))]\<rparr>)"
| store: "j < length (ss_ws s) \<Longrightarrow> ss_ws s ! j = SStore v \<Longrightarrow>
    sstep K texts s (s\<lparr>ss_st := (ss_st s)\<lparr>l_writes := v + 1\<rparr>, ss_ws := (ss_ws s)[j := SBody (WOut WDone)]\<rparr>)"

inductive sreach :: "kenv \<Rightarrow> string list \<Rightarrow> linked_state \<Rightarrow> ssys \<Rightarrow> bool"
  for K :: kenv and texts :: "string list" and st :: linked_state where
  start: "sreach K texts st (ssys0 st (length texts))"
| step: "sreach K texts st s \<Longrightarrow> sstep K texts s t \<Longrightarrow> sreach K texts st t"

text \<open>Seen as a system in which the counter is increased together with the unlock: a writer behind \<open>up\<close> is done, one that was
  interrupted has not come, and the counter has the value \<open>n\<close>.\<close>

fun sabs :: "sstate \<Rightarrow> wstate" where
  "sabs (SBody w) = w"
| "sabs SIntr = WIdle"
| "sabs SLoad = WOut WDone"
| "sabs (SStore v) = WOut WDone"

definition ssys_abs :: "nat \<Rightarrow> ssys \<Rightarrow> lsys" where
  "ssys_abs n s = \<lparr>sy_st = (ss_st s)\<lparr>l_writes := n\<rparr>, sy_owner = ss_owner s, sy_ws = map sabs (ss_ws s), sy_log = ss_log s\<rparr>"

lemma ssys_abs_simps [simp]:
  "sy_st (ssys_abs n s) = (ss_st s)\<lparr>l_writes := n\<rparr>" "sy_owner (ssys_abs n s) = ss_owner s"
  "sy_ws (ssys_abs n s) = map sabs (ss_ws s)" "sy_log (ssys_abs n s) = ss_log s"
  by (simp_all add: ssys_abs_def)

lemma step_counter:
  "linked_write_step lk ulk K w i st = (x, st', n, tr) \<Longrightarrow>
   linked_write_step lk ulk K w i (st\<lparr>l_writes := m\<rparr>) = (x, st'\<lparr>l_writes := m\<rparr>, n, tr) \<and> l_writes st' = l_writes st"
  by (auto simp: linked_write_step_def Let_def clean_list_with_def split: if_splits)

lemma lstep_abs:
  "lstep K texts keeps (ssys_abs n s) t \<Longrightarrow> t = ssys_abs m u \<Longrightarrow> lstep K texts keeps (ssys_abs n s) (ssys_abs m u)"
  by simp

lemma sabs_same: "j < length ws \<Longrightarrow> sabs (ws ! j) = w \<Longrightarrow> (map sabs ws)[j := w] = map sabs ws"
  by (metis list_update_id nth_map)

text \<open>The counter never runs ahead of the writers that are past the loop; \<open>n\<close> is its value in the serial execution, and the writers
  that still have to store it are pending.\<close>

fun pending :: "sstate \<Rightarrow> bool" where
  "pending SLoad = True"
| "pending (SStore v) = True"
| "pending _ = False"

definition count_ok :: "nat \<Rightarrow> nat \<Rightarrow> ssys \<Rightarrow> bool" where
  "count_ok b n s \<longleftrightarrow> b \<le> l_writes (ss_st s) \<and> int (l_writes (ss_st s)) + cnt pending (ss_ws s) \<le> int n
     \<and> (\<forall>j < length (ss_ws s). \<forall>v. ss_ws s ! j = SStore v \<longrightarrow> b \<le> v \<and> int v + cnt pending (ss_ws s) \<le> int n)"

lemma count_ok_upd:
  assumes "count_ok b n s" "j < length (ss_ws s)" "\<not> pending (ss_ws s ! j)" "\<not> pending w"
    "l_writes (ss_st t) = l_writes (ss_st s)" "ss_ws t = (ss_ws s)[j := w]"
  shows "count_ok b n t"
  using assms by (auto simp: count_ok_def cnt_upd nth_list_update)

lemma sstep_abs:
  "sstep K texts s t \<Longrightarrow> count_ok b n s \<Longrightarrow>
   \<exists>m. (lstep K texts keeps_semaphore (ssys_abs n s) (ssys_abs m t) \<or> ssys_abs n s = ssys_abs m t) \<and> count_ok b m t"
proof (induction rule: sstep.induct)
  case (lock j s)
  have "lstep K texts keeps_semaphore (ssys_abs n s) (ssys_abs n (s\<lparr>ss_owner := Some j, ss_ws := (ss_ws s)[j := SBody (WRun 0)]\<rparr>))"
    by (rule lstep_abs, rule lstep.lock [of j]) (use lock in \<open>simp_all add: ssys_abs_def map_update\<close>)
  moreover have "count_ok b n (s\<lparr>ss_owner := Some j, ss_ws := (ss_ws s)[j := SBody (WRun 0)]\<rparr>)"
    by (rule count_ok_upd [OF lock(4,1)]) (use lock(2) in simp_all)
  ultimately show ?case by blast
next
  case (interrupted j s)
  have "count_ok b n (s\<lparr>ss_ws := (ss_ws s)[j := SIntr]\<rparr>)"
    by (rule count_ok_upd [OF interrupted(3,1)]) (use interrupted(2) in simp_all)
  moreover have "ssys_abs n s = ssys_abs n (s\<lparr>ss_ws := (ss_ws s)[j := SIntr]\<rparr>)"
    using interrupted by (simp add: ssys_abs_def map_update sabs_same)
  ultimately show ?case by blast
next
  case (round j s i st' k tr)
  have "lstep K texts keeps_semaphore (ssys_abs n s)
      (ssys_abs n (s\<lparr>ss_st := st', ss_ws := (ss_ws s)[j := SBody (WRun (i + INTERNAL_SIZE))]\<rparr>))"
    by (rule lstep_abs, rule lstep.round [where j = j and i = i and st' = "st'\<lparr>l_writes := n\<rparr>" and n = k and tr = tr])
      (use round step_counter [OF round(4), of n] in \<open>simp_all add: ssys_abs_def map_update\<close>)
  moreover have "count_ok b n (s\<lparr>ss_st := st', ss_ws := (ss_ws s)[j := SBody (WRun (i + INTERNAL_SIZE))]\<rparr>)"
    by (rule count_ok_upd [OF round(5,1)]) (use round(2) step_counter [OF round(4)] in simp_all)
  ultimately show ?case by blast
next
  case (fail j s i e st' k tr)
  have "lstep K texts keeps_semaphore (ssys_abs n s)
      (ssys_abs n (s\<lparr>ss_st := st', ss_ws := (ss_ws s)[j := SBody (WOut e)], ss_owner := None, ss_log := ss_log s @ [j]\<rparr>))"
    by (rule lstep_abs, rule lstep.fail [where j = j and i = i and e = e and st' = "st'\<lparr>l_writes := n\<rparr>" and n = k and tr = tr])
      (use fail step_counter [OF fail(4), of n] in \<open>simp_all add: ssys_abs_def map_update keeps_semaphore_def\<close>)
  moreover have "count_ok b n (s\<lparr>ss_st := st', ss_ws := (ss_ws s)[j := SBody (WOut e)], ss_owner := None, ss_log := ss_log s @ [j]\<rparr>)"
    by (rule count_ok_upd [OF fail(5,1)]) (use fail(2) step_counter [OF fail(4)] in simp_all)
  ultimately show ?case by blast
next
  case (up j s i)
  have "lstep K texts keeps_semaphore (ssys_abs n s)
      (ssys_abs (n + 1) (s\<lparr>ss_ws := (ss_ws s)[j := SLoad], ss_owner := None, ss_log := ss_log s @ [j]\<rparr>))"
    by (rule lstep_abs, rule lstep.finish [where j = j and i = i]) (use up in \<open>simp_all add: ssys_abs_def map_update keeps_semaphore_def wcount_def\<close>)
  moreover have "count_ok b (n + 1) (s\<lparr>ss_ws := (ss_ws s)[j := SLoad], ss_owner := None, ss_log := ss_log s @ [j]\<rparr>)"
    using up by (auto simp: count_ok_def cnt_upd nth_list_update)
  ultimately show ?case by blast
next
  case (load j s)
  have "count_ok b n (s\<lparr>ss_ws := (ss_ws s)[j := SStore (l_writes (ss_st s))]\<rparr>)"
    using load by (auto simp: count_ok_def cnt_upd nth_list_update)
  moreover have "ssys_abs n s = ssys_abs n (s\<lparr>ss_ws := (ss_ws s)[j := SStore (l_writes (ss_st s))]\<rparr>)"
    using load by (simp add: ssys_abs_def map_update sabs_same)
  ultimately show ?case by blast
next
  case (store j s v)
  have "b \<le> v \<and> int v + cnt pending (ss_ws s) \<le> int n" using store by (simp add: count_ok_def)
  then have "count_ok b n (s\<lparr>ss_st := (ss_st s)\<lparr>l_writes := v + 1\<rparr>, ss_ws := (ss_ws s)[j := SBody (WOut WDone)]\<rparr>)"
    using store by (auto simp: count_ok_def cnt_upd nth_list_update)
  moreover have "ssys_abs n s = ssys_abs n (s\<lparr>ss_st := (ss_st s)\<lparr>l_writes := v + 1\<rparr>, ss_ws := (ss_ws s)[j := SBody (WOut WDone)]\<rparr>)"
    using store by (simp add: ssys_abs_def map_update sabs_same)
  ultimately show ?case by blast
qed

lemma sreach_abs:
  "sreach K texts st s \<Longrightarrow> \<exists>n. lreach K texts keeps_semaphore st (ssys_abs n s) \<and> count_ok (l_writes st) n s"
proof (induction rule: sreach.induct)
  case start
  have "ssys_abs (l_writes st) (ssys0 st (length texts)) = lsys0 st (length texts)" by (simp add: ssys_abs_def ssys0_def lsys0_def)
  moreover have "count_ok (l_writes st) (l_writes st) (ssys0 st (length texts))" by (simp add: count_ok_def ssys0_def cnt_replicate)
  ultimately show ?case using lreach.start by metis
next
  case (step s t)
  then obtain n where n: "lreach K texts keeps_semaphore st (ssys_abs n s)" "count_ok (l_writes st) n s" by blast
  from sstep_abs [OF step.hyps(2) n(2)] show ?case using lreach.step n(1) by metis
qed

section \<open>Properties of the locked variants\<close>

text \<open>Who has left the loop and given the lock back.\<close>

definition unlocked :: "sstate \<Rightarrow> bool" where
  "unlocked w \<longleftrightarrow> (\<exists>e. sabs w = WOut e)"

text \<open>C33.  Writers of the linked buffer whose lock is held for the whole loop are serialisable: whenever no writer
  is in its loop, the buffer and its length are those of the writes done one after the other, in the order in which the
  writers left their loops, each exactly once.  In the mutex variant so is \<open>write_count\<close>; the semaphore variant
  increases it outside the lock, and it may be smaller than it should be, never larger.\<close>

theorem linked_writers_serialisable:
  "(lreach K texts keeps_mutex st s \<and> (\<forall>j < length texts. \<forall>i. sy_ws s ! j \<noteq> WRun i) \<longrightarrow>
      sy_st s = serial K texts (sy_log s) st \<and> distinct (sy_log s)
      \<and> (\<forall>j < length texts. j \<in> set (sy_log s) \<longleftrightarrow> (\<exists>e. sy_ws s ! j = WOut e)))
   \<and> (sreach K texts st u \<and> (\<forall>j < length texts. \<forall>i. ss_ws u ! j \<noteq> SBody (WRun i)) \<longrightarrow>
      (\<exists>n. l_writes st \<le> n \<and> n \<le> l_writes (serial K texts (ss_log u) st)
        \<and> ss_st u = (serial K texts (ss_log u) st)\<lparr>l_writes := n\<rparr>) \<and> distinct (ss_log u)
      \<and> (\<forall>j < length texts. j \<in> set (ss_log u) \<longleftrightarrow> unlocked (ss_ws u ! j)))"
proof (intro conjI impI)
  show "sy_st s = serial K texts (sy_log s) st" "distinct (sy_log s)"
    "\<forall>j < length texts. j \<in> set (sy_log s) \<longleftrightarrow> (\<exists>e. sy_ws s ! j = WOut e)"
    if "lreach K texts keeps_mutex st s \<and> (\<forall>j < length texts. \<forall>i. sy_ws s ! j \<noteq> WRun i)"
    using lsys_invD(3,5,6) [OF lreach_inv [of K texts keeps_mutex st s]] that by blast+
  assume a: "sreach K texts st u \<and> (\<forall>j < length texts. \<forall>i. ss_ws u ! j \<noteq> SBody (WRun i))"
  then obtain n where n: "lreach K texts keeps_semaphore st (ssys_abs n u)" "count_ok (l_writes st) n u" using sreach_abs by blast
  note I = lsys_invD [OF lreach_inv [OF n(1)], simplified]
  have norun: "map sabs (ss_ws u) ! j \<noteq> WRun i" if "j < length texts" for j i
    using a that I(1) by (cases "ss_ws u ! j") auto
  have eq: "(ss_st u)\<lparr>l_writes := n\<rparr> = serial K texts (ss_log u) st" using I(6) norun by blast
  then have ser: "l_writes (serial K texts (ss_log u) st) = n" by (metis linked_state.select_convs(4) linked_state.surjective linked_state.update_convs(4))
  have "ss_st u = (serial K texts (ss_log u) st)\<lparr>l_writes := l_writes (ss_st u)\<rparr>" unfolding eq [symmetric] by simp
  moreover have "l_writes st \<le> l_writes (ss_st u)" "l_writes (ss_st u) \<le> n"
    using n(2) cnt_nonneg [of pending "ss_ws u"] by (auto simp: count_ok_def)
  ultimately show "\<exists>n. l_writes st \<le> n \<and> n \<le> l_writes (serial K texts (ss_log u) st) \<and> ss_st u = (serial K texts (ss_log u) st)\<lparr>l_writes := n\<rparr>"
    using ser by metis
  show "distinct (ss_log u)" using I(5) .
  show "\<forall>j < length texts. j \<in> set (ss_log u) \<longleftrightarrow> unlocked (ss_ws u ! j)"
    using I(1,3) by (auto simp: unlocked_def)
qed

text \<open>Two writers that both load the counter before either stores it: it is 1 in the end, and 2 in the serial execution.\<close>

lemma two_writers:
  "\<exists>u. sreach kenv0 [''ab'', ''cd''] linked_state0 u \<and> ss_ws u = [SBody (WOut WDone), SBody (WOut WDone)]
     \<and> ss_log u = [0, 1] \<and> l_writes (ss_st u) = 1"
proof -
  let ?T = "[''ab'', ''cd'']" and ?K = kenv0
  have w: "\<exists>st' tr. linked_write_step [] [] ?K (?T ! j) 0 st = (None, st', 2, tr) \<and> l_writes st' = l_writes st" if "j < 2" for st j
    using that by (cases j) (auto simp: linked_write_step_def Let_def INTERNAL_SIZE_def copied_in_def blit_def zeros_def NUL_def)
  obtain st1 tr1 where 1: "linked_write_step [] [] ?K (?T ! 0) 0 linked_state0 = (None, st1, 2, tr1)" "l_writes st1 = l_writes linked_state0"
    using w [of 0 linked_state0] by auto
  obtain st2 tr2 where 2: "linked_write_step [] [] ?K (?T ! 1) 0 st1 = (None, st2, 2, tr2)" "l_writes st2 = l_writes st1"
    using w [of 1 st1] by auto
  let ?S = "\<lambda>st ow ws lg. \<lparr>ss_st = st, ss_owner = ow, ss_ws = ws, ss_log = lg\<rparr>"
  let ?R = "SBody (WRun INTERNAL_SIZE)" and ?I = "SBody WIdle" and ?D = "SBody (WOut WDone)"
  have a: "sreach ?K ?T linked_state0 (?S linked_state0 None [?I, ?I] [])"
    using sreach.start [of ?K ?T linked_state0] by (simp add: ssys0_def)
  have b: "sreach ?K ?T linked_state0 (?S linked_state0 (Some 0) [SBody (WRun 0), ?I] [])"
    using sreach.step [OF a sstep.lock [of 0]] by simp
  have c: "sreach ?K ?T linked_state0 (?S st1 (Some 0) [?R, ?I] [])"
    using sreach.step [OF b sstep.round [of 0 _ 0 _ _ st1 2 tr1]] 1 by simp
  have d: "sreach ?K ?T linked_state0 (?S st1 None [SLoad, ?I] [0])"
    using sreach.step [OF c sstep.up [of 0 _ INTERNAL_SIZE]] by (simp add: INTERNAL_SIZE_def)
  have e: "sreach ?K ?T linked_state0 (?S st1 None [SStore 0, ?I] [0])"
    using sreach.step [OF d sstep.load [of 0]] 1(2) by (simp add: linked_state0_def)
  have f: "sreach ?K ?T linked_state0 (?S st1 (Some 1) [SStore 0, SBody (WRun 0)] [0])"
    using sreach.step [OF e sstep.lock [of 1]] by simp
  have g: "sreach ?K ?T linked_state0 (?S st2 (Some 1) [SStore 0, ?R] [0])"
    using sreach.step [OF f sstep.round [of 1 _ 0 _ _ st2 2 tr2]] 2 by simp
  have h: "sreach ?K ?T linked_state0 (?S st2 None [SStore 0, SLoad] [0, 1])"
    using sreach.step [OF g sstep.up [of 1 _ INTERNAL_SIZE]] by (simp add: INTERNAL_SIZE_def)
  have i: "sreach ?K ?T linked_state0 (?S st2 None [SStore 0, SStore 0] [0, 1])"
    using sreach.step [OF h sstep.load [of 1]] 1(2) 2(2) by (simp add: linked_state0_def)
  have j: "sreach ?K ?T linked_state0 (?S (st2\<lparr>l_writes := 1\<rparr>) None [?D, SStore 0] [0, 1])"
    using sreach.step [OF i sstep.store [of 0 _ 0]] by simp
  have k: "sreach ?K ?T linked_state0 (?S (st2\<lparr>l_writes := 1\<rparr>) None [?D, ?D] [0, 1])"
    using sreach.step [OF j sstep.store [of 1 _ 0]] by simp
  show ?thesis by (rule exI, rule conjI, rule k) simp
qed

theorem linked_writers_serialisable_witness:
  "\<exists>u n. sreach kenv0 [''ab'', ''cd''] linked_state0 u \<and> ss_log u = [0, 1] \<and> l_writes (ss_st u) = 1
     \<and> ss_st u = (serial kenv0 [''ab'', ''cd''] [0, 1] linked_state0)\<lparr>l_writes := n\<rparr>"
proof -
  obtain u where u: "sreach kenv0 [''ab'', ''cd''] linked_state0 u" "ss_ws u = [SBody (WOut WDone), SBody (WOut WDone)]"
    "ss_log u = [0, 1]" "l_writes (ss_st u) = 1" using two_writers by blast
  have "\<forall>j < length [''ab'', ''cd'']. \<forall>i. ss_ws u ! j \<noteq> SBody (WRun i)" using u(2) by (auto simp: less_Suc_eq)
  with linked_writers_serialisable [of kenv0 "[''ab'', ''cd'']" linked_state0 _ u] u show ?thesis by metis
qed

text \<open>A step that is no interruption.\<close>

definition undisturbed :: "ssys \<Rightarrow> ssys \<Rightarrow> bool" where
  "undisturbed s t \<longleftrightarrow> (\<forall>k < length (ss_ws s). ss_ws t ! k = SIntr \<longrightarrow> ss_ws s ! k = SIntr)"

lemma sabs_run: "sabs w = WRun i \<Longrightarrow> w = SBody (WRun i)"
  by (cases w) simp_all

lemma semaphore_moves:
  assumes "j < length (ss_ws s)" "ss_ws s ! j \<noteq> SIntr" "\<nexists>e. ss_ws s ! j = SBody (WOut e)" "ss_ws s ! j = SBody WIdle \<Longrightarrow> ss_owner s = None"
  shows "\<exists>t. sstep K texts s t \<and> undisturbed s t"
proof -
  have u: "undisturbed s t" if "ss_ws t = (ss_ws s)[j := w]" "w \<noteq> SIntr" for t w
    using that assms(1) by (auto simp: undisturbed_def nth_list_update)
  show ?thesis
  proof (cases "ss_ws s ! j")
    case (SBody w)
    show ?thesis
    proof (cases w)
      case WIdle
      then show ?thesis using sstep.lock [OF assms(1)] assms(4) SBody by (intro exI conjI) (auto intro: u)
    next
      case (WRun i)
      obtain x st1 m tr1 where r: "linked_write_step [] [] K (texts ! j) i (ss_st s) = (x, st1, m, tr1)"
        by (cases "linked_write_step [] [] K (texts ! j) i (ss_st s)") auto
      show ?thesis
      proof (cases "i < length (texts ! j)")
        case True
        note R = sstep.round [OF assms(1) _ True] sstep.fail [OF assms(1) _ True]
        show ?thesis
        proof (cases x)
          case None
          show ?thesis using R(1) r None SBody WRun by (intro exI conjI) (auto intro: u)
        next
          case (Some e)
          have "sstep K texts s (s\<lparr>ss_st := st1, ss_ws := (ss_ws s)[j := SBody (WOut e)], ss_owner := None, ss_log := ss_log s @ [j]\<rparr>)"
            by (rule R(2)) (use r Some SBody WRun in simp_all)
          then show ?thesis by (intro exI conjI, assumption) (rule u [where w = "SBody (WOut e)"], simp_all)
        qed
      next
        case False
        then show ?thesis using sstep.up [OF assms(1) _ False] SBody WRun by (intro exI conjI) (auto intro: u)
      qed
    next
      case (WOut e)
      then show ?thesis using SBody assms(3) by blast
    qed
  next
    case SLoad
    then show ?thesis using sstep.load [OF assms(1)] by (intro exI conjI) (auto intro: u)
  next
    case (SStore v)
    then show ?thesis using sstep.store [OF assms(1)] by (intro exI conjI) (auto intro: u)
  qed (use assms(2) in simp)
qed

text \<open>Concurrent writers of the semaphore variant never block for ever: a reachable state in which none can move, interruptions
  apart, is one where every writer has left or was interrupted.\<close>

theorem linked_semaphore_progress:
  assumes "sreach K texts st s" "\<not> (\<exists>t. sstep K texts s t \<and> undisturbed s t)" "j < length texts"
  shows "ss_ws s ! j = SIntr \<or> (\<exists>e. ss_ws s ! j = SBody (WOut e))"
proof (rule ccontr)
  assume w: "\<not> ?thesis"
  obtain n where n: "lreach K texts keeps_semaphore st (ssys_abs n s)" using sreach_abs [OF assms(1)] by blast
  note I = lsys_invD [OF lreach_inv [OF n], simplified]
  have "ss_owner s = None"
  proof (cases "ss_owner s")
    case (Some k)
    then obtain i where k: "k < length (ss_ws s)" "sabs (ss_ws s ! k) = WRun i" using I(1,7) by (auto simp: keeps_semaphore_def)
    from semaphore_moves [OF k(1)] sabs_run [OF k(2)] assms(2) show ?thesis by auto
  qed
  then show False using semaphore_moves [of j s] assms(2,3) w I(1) by auto
qed

theorem linked_semaphore_progress_witness:
  "\<exists>s. sreach kenv0 [''ab''] linked_state0 s \<and> ss_ws s ! 0 = SIntr"
proof -
  let ?s = "(ssys0 linked_state0 1)\<lparr>ss_ws := [SIntr]\<rparr>"
  have "sreach kenv0 [''ab''] linked_state0 (ssys0 linked_state0 (length [''ab'']))" by (rule sreach.start)
  from sreach.step [OF this sstep.interrupted [of 0]] have r: "sreach kenv0 [''ab''] linked_state0 ?s" by (simp add: ssys0_def)
  have "\<not> (\<exists>t. sstep kenv0 [''ab''] ?s t \<and> undisturbed ?s t)" by (auto simp: ssys0_def elim: sstep.cases)
  from linked_semaphore_progress [OF r this, of 0] r show ?thesis by (intro exI [of _ ?s]) simp
qed

text \<open>In the mutex variant, as soon as one writer has run out of memory nothing moves any more: every writer that
  has not started yet is blocked for ever.\<close>

theorem linked_mutex_blocks:
  assumes "lreach K texts keeps_mutex st s" "j < length texts" "sy_ws s ! j = WOut WNoMem"
  shows "\<not> lstep K texts keeps_mutex s t"
proof
  note I = lsys_invD [OF lreach_inv [OF assms(1)]]
  have own: "sy_owner s = Some j" using I(8) [OF assms(2,3)] by (simp add: keeps_mutex_def)
  assume "lstep K texts keeps_mutex s t"
  then show False
  proof (cases rule: lstep.cases)
    case (round k i st' n tr)
    then show False using I(1) I(2) [of k i] own assms(3) by auto
  next
    case (fail k i e st' n tr)
    then show False using I(1) I(2) [of k i] own assms(3) by auto
  next
    case (finish k i)
    then show False using I(1) I(2) [of k i] own assms(3) by auto
  qed (use own in simp)
qed

theorem linked_mutex_blocks_witness:
  "\<exists>K s. lreach K [''a'', ''b''] keeps_mutex linked_state0 s \<and> sy_ws s ! 1 = WIdle \<and> (\<forall>t. \<not> lstep K [''a'', ''b''] keeps_mutex s t)"
proof -
  define K where "K = kenv0\<lparr>k_kmalloc := (\<lambda>_ _. False)\<rparr>"
  let ?T = "[''a'', ''b'']" and ?s0 = "lsys0 linked_state0 (length [''a'', ''b''])"
  let ?s1 = "?s0\<lparr>sy_owner := Some 0, sy_ws := (sy_ws ?s0)[0 := WRun 0]\<rparr>"
  have 1: "lstep K ?T keeps_mutex ?s0 ?s1" by (rule lstep.lock) (simp_all add: lsys0_def)
  have w: "linked_write_step [] [] K (?T ! 0) 0 (sy_st ?s1) = (Some WNoMem, sy_st ?s1, 0, [])"
    by (simp add: linked_write_step_def K_def)
  have "\<exists>t. lstep K ?T keeps_mutex ?s1 t \<and> sy_ws t = [WOut WNoMem, WIdle]"
    by (rule exI, rule conjI, rule lstep.fail [OF _ _ _ w]) (simp_all add: lsys0_def)
  then obtain s2 where 2: "lstep K ?T keeps_mutex ?s1 s2" "sy_ws s2 = [WOut WNoMem, WIdle]" by blast
  have r: "lreach K ?T keeps_mutex linked_state0 s2"
    by (rule lreach.step [OF lreach.step [OF lreach.start 1] 2(1)])
  have "\<not> lstep K ?T keeps_mutex s2 t" for t
    by (rule linked_mutex_blocks [OF r, of 0]) (simp_all add: 2(2))
  then show ?thesis using r 2(2) by (intro exI [of _ K] exI [of _ s2]) simp
qed

section \<open>Writers with the list access alone locked\<close>

text \<open>In the reader-writer-lock variant only \<open>list_add_tail\<close> is locked.  \<open>total_length += to_copy\<close> comes after the unlock and
  is a load and a store; the writers' statements interleave freely.  The model is of writes whose kernel
  calls succeed and whose texts do not clear the list; \<open>cs_tags\<close> remembers who stored each node.\<close>

datatype cstate = CRun nat | CLoad nat | CStore nat nat | COut

record csys =
  cs_nodes :: "node list"
  cs_total :: nat
  cs_tags :: "nat list"
  cs_ws :: "cstate list"

definition csys0 :: "nat \<Rightarrow> csys" where
  "csys0 n = \<lparr>cs_nodes = [], cs_total = 0, cs_tags = [], cs_ws = replicate n (CRun 0)\<rparr>"

inductive cstep :: "string list \<Rightarrow> csys \<Rightarrow> csys \<Rightarrow> bool" for texts :: "string list" where
  append: "j < length (cs_ws s) \<Longrightarrow> cs_ws s ! j = CRun i \<Longrightarrow> i < length (texts ! j) \<Longrightarrow>
    cstep texts s (s\<lparr>cs_nodes := cs_nodes s @ [hd (chunk_nodes (drop i (texts ! j)))], cs_tags := cs_tags s @ [j],
      cs_ws := (cs_ws s)[j := CLoad i]\<rparr>)"
| load: "j < length (cs_ws s) \<Longrightarrow> cs_ws s ! j = CLoad i \<Longrightarrow>
    cstep texts s (s\<lparr>cs_ws := (cs_ws s)[j := CStore i (cs_total s)]\<rparr>)"
| store: "j < length (cs_ws s) \<Longrightarrow> cs_ws s ! j = CStore i v \<Longrightarrow>
    cstep texts s (s\<lparr>cs_total := v + min INTERNAL_SIZE (length (texts ! j) - i),
      cs_ws := (cs_ws s)[j := CRun (i + INTERNAL_SIZE)]\<rparr>)"
| leave: "j < length (cs_ws s) \<Longrightarrow> cs_ws s ! j = CRun i \<Longrightarrow> \<not> i < length (texts ! j) \<Longrightarrow>
    cstep texts s (s\<lparr>cs_ws := (cs_ws s)[j := COut]\<rparr>)"

inductive creach :: "string list \<Rightarrow> csys \<Rightarrow> bool" for texts :: "string list" where
  start: "creach texts (csys0 (length texts))"
| step: "creach texts s \<Longrightarrow> cstep texts s t \<Longrightarrow> creach texts t"

text \<open>Run without interruption, the three statements of a round are \<open>linked_write_step\<close>.\<close>

lemma cstep_round:
  assumes "write_calls_ok K" "i < length w" "take INTERNAL_SIZE (drop i w) \<noteq> ''xxx&''"
    "linked_write_step lk ulk K w i st = (x, st', n, tr)"
  shows "x = None \<and> l_buffer st' = l_buffer st @ [hd (chunk_nodes (drop i w))]
    \<and> l_total st' = l_total st + min INTERNAL_SIZE (length w - i)"
  using assms by (auto simp: write_step_effect)

text \<open>The nodes writer \<open>j\<close> has stored, in list order, and how far it has got in its text.\<close>

definition tagged :: "nat \<Rightarrow> csys \<Rightarrow> node list" where
  "tagged j s = map snd (filter (\<lambda>(t, d). t = j) (zip (cs_tags s) (cs_nodes s)))"

fun stored :: "string \<Rightarrow> cstate \<Rightarrow> string" where
  "stored w (CRun i) = take i w"
| "stored w (CLoad i) = take (i + INTERNAL_SIZE) w"
| "stored w (CStore i v) = take (i + INTERNAL_SIZE) w"
| "stored w COut = w"

definition csys_inv :: "string list \<Rightarrow> csys \<Rightarrow> bool" where
  "csys_inv texts s \<longleftrightarrow> length (cs_ws s) = length texts \<and> length (cs_tags s) = length (cs_nodes s)
     \<and> list_all node_ok (cs_nodes s)
     \<and> (\<forall>j < length texts. nodes_text (tagged j s) = stored (texts ! j) (cs_ws s ! j))"

lemma chunk_head_text: "s \<noteq> [] \<Longrightarrow> node_bytes (hd (chunk_nodes s)) = take INTERNAL_SIZE s \<and> node_ok (hd (chunk_nodes s))"
proof -
  assume s: "s \<noteq> []"
  then obtain d where d: "chunk_nodes s = d # chunk_nodes (drop INTERNAL_SIZE s)"
    by (simp add: chunk_nodes.simps [of s])
  have "node_bytes d @ drop INTERNAL_SIZE s = s"
    using chunk_nodes_text [of s] chunk_nodes_text [of "drop INTERNAL_SIZE s"] d by simp
  also have "s = take INTERNAL_SIZE s @ drop INTERNAL_SIZE s" by simp
  finally have "node_bytes d = take INTERNAL_SIZE s" by (simp only: append_same_eq)
  moreover have "node_ok d" using chunk_nodes_ok [of s] d by simp
  ultimately show ?thesis using d by simp
qed

lemma tagged_append:
  "length (cs_tags s) = length (cs_nodes s) \<Longrightarrow>
   tagged k (s\<lparr>cs_nodes := cs_nodes s @ [d], cs_tags := cs_tags s @ [j]\<rparr>) =
     tagged k s @ (if k = j then [d] else [])"
  by (simp add: tagged_def)

lemma tagged_same [simp]: "tagged k (s\<lparr>cs_ws := ws\<rparr>) = tagged k s" "tagged k (s\<lparr>cs_total := n\<rparr>) = tagged k s"
  by (simp_all add: tagged_def)

lemma cstep_inv: "cstep texts s t \<Longrightarrow> csys_inv texts s \<Longrightarrow> csys_inv texts t"
proof (induction rule: cstep.induct)
  case (append j s i)
  let ?w = "drop i (texts ! j)"
  have w: "?w \<noteq> []" using append(3) by simp
  have "take i (texts ! j) @ take INTERNAL_SIZE ?w = take (i + INTERNAL_SIZE) (texts ! j)" by (simp add: take_add)
  with append chunk_head_text [OF w] show ?case
    by (auto simp: csys_inv_def tagged_append nth_list_update)
next
  case (load j s i)
  then show ?case by (auto simp: csys_inv_def nth_list_update)
next
  case (store j s i v)
  then show ?case by (auto simp: csys_inv_def nth_list_update)
next
  case (leave j s i)
  then show ?case by (auto simp: csys_inv_def nth_list_update)
qed

lemma creach_inv: "creach texts s \<Longrightarrow> csys_inv texts s"
proof (induction rule: creach.induct)
  case start
  show ?case by (simp add: csys_inv_def csys0_def tagged_def)
next
  case (step s t)
  then show ?case using cstep_inv by blast
qed

text \<open>Concurrent writers of the reader-writer-lock variant: whatever the interleaving, the nodes a writer has
  stored spell, in list order, the part of its text it has got to; once all have left, each text is
  there in full and in order, though mixed with the others.\<close>

theorem linked_rwlock_texts:
  assumes "creach texts s" "j < length texts"
  shows "nodes_text (tagged j s) = stored (texts ! j) (cs_ws s ! j)
    \<and> (cs_ws s ! j = COut \<longrightarrow> nodes_text (tagged j s) = texts ! j)"
  using creach_inv [OF assms(1)] assms(2) by (simp add: csys_inv_def)

theorem linked_rwlock_texts_witness:
  "nodes_text (tagged 0 (csys0 1)) = stored (''a'') (cs_ws (csys0 1) ! 0)"
proof -
  have "creach [''a''] (csys0 (length [''a'']))" by (rule creach.start)
  from linked_rwlock_texts [OF this, of 0] show ?thesis by simp
qed

text \<open>The counter \<open>total_length\<close> of that variant is not protected: two writers of two bytes each can
  both leave with every byte stored and a total of 2, so that a reader past position 2 gets end of file.\<close>

theorem linked_rwlock_lost_update:
  "\<exists>s. creach [''ab'', ''cd''] s \<and> cs_ws s = [COut, COut] \<and> nodes_text (cs_nodes s) = ''abcd'' \<and> cs_total s = 2
     \<and> linked_read kenv0 \<lparr>l_buffer = cs_nodes s, l_total = cs_total s, l_reads = 0, l_writes = 2\<rparr> 9 3 =
        (0, 3, [], \<lparr>l_buffer = cs_nodes s, l_total = cs_total s, l_reads = 0, l_writes = 2\<rparr>)"
proof -
  let ?T = "[''ab'', ''cd'']" and ?a = "hd (chunk_nodes ''ab'')" and ?b = "hd (chunk_nodes ''cd'')"
  let ?S = "\<lambda>ns tot tags ws. \<lparr>cs_nodes = ns, cs_total = tot, cs_tags = tags, cs_ws = ws\<rparr>"
  have 0: "creach ?T (?S [] 0 [] [CRun 0, CRun 0])"
    using creach.start [of ?T] by (simp add: csys0_def)
  have 1: "creach ?T (?S [?a] 0 [0] [CLoad 0, CRun 0])"
    using creach.step [OF 0 cstep.append [of 0 _ 0]] by simp
  have 2: "creach ?T (?S [?a, ?b] 0 [0, 1] [CLoad 0, CLoad 0])"
    using creach.step [OF 1 cstep.append [of 1 _ 0]] by simp
  have 3: "creach ?T (?S [?a, ?b] 0 [0, 1] [CStore 0 0, CLoad 0])"
    using creach.step [OF 2 cstep.load [of 0 _ 0]] by simp
  have 4: "creach ?T (?S [?a, ?b] 0 [0, 1] [CStore 0 0, CStore 0 0])"
    using creach.step [OF 3 cstep.load [of 1 _ 0]] by simp
  have 5: "creach ?T (?S [?a, ?b] 2 [0, 1] [CRun INTERNAL_SIZE, CStore 0 0])"
    using creach.step [OF 4 cstep.store [of 0 _ 0 0]] by (simp add: INTERNAL_SIZE_def numeral_2_eq_2)
  have 6: "creach ?T (?S [?a, ?b] 2 [0, 1] [CRun INTERNAL_SIZE, CRun INTERNAL_SIZE])"
    using creach.step [OF 5 cstep.store [of 1 _ 0 0]] by (simp add: INTERNAL_SIZE_def numeral_2_eq_2)
  have 7: "creach ?T (?S [?a, ?b] 2 [0, 1] [COut, CRun INTERNAL_SIZE])"
    using creach.step [OF 6 cstep.leave [of 0 _ INTERNAL_SIZE]] by (simp add: INTERNAL_SIZE_def)
  have 8: "creach ?T (?S [?a, ?b] 2 [0, 1] [COut, COut])"
    using creach.step [OF 7 cstep.leave [of 1 _ INTERNAL_SIZE]] by (simp add: INTERNAL_SIZE_def)
  have "node_bytes ?a = ''ab''" "node_bytes ?b = ''cd''"
    using chunk_head_text [of "''ab''"] chunk_head_text [of "''cd''"] by (simp_all add: INTERNAL_SIZE_def)
  with 8 show ?thesis
    by (intro exI [of _ "?S [?a, ?b] 2 [0, 1] [COut, COut]"]) (auto simp: less_2_cases_iff linked_read_def)
qed

end
