(* ===== verification/LinkedVariants.thy ===== *)
theory LinkedVariants imports LinkedBuffer begin

text \<open>
  Init, exit, cleaning and the proc entry of the four variants of the linked buffer under \<open>cw06/sync\<close>, named
  as in \<open>LinkedBuffer\<close> with the suffix of the variant (\<open>_mutex\<close>, \<open>_semaphore\<close>, \<open>_rwlock\<close>, \<open>_111\<close>), and whole
  sessions: load, any reads and writes at any positions, unload.  The locale \<open>list_device\<close> says what a session needs
  from a variant's operations; it is interpreted on the base version and on the semaphore version.
\<close>

section \<open>mutex/linked\_buffer\<close>

definition linked_init_mutex :: "kenv \<Rightarrow> int \<times> bool \<times> kcall list" where
  "linked_init_mutex K =
     (let unreg = [Rel (Chrdev LINKED_MAJOR ''linked'')] in
      if \<not> k_proc_create K ''linked'' then (0, False, unreg)
      else let result = k_register_chrdev K LINKED_MAJOR ''linked'' in
      if result < 0 then (result, True, [Acq (ProcEntry ''linked''), Rel (ProcEntry ''linked'')] @ unreg)
      else (result, True, [Acq (ProcEntry ''linked''), Acq (Chrdev LINKED_MAJOR ''linked'')]))"

definition clean_list_mutex :: "linked_state \<Rightarrow> linked_state \<times> kcall list" where
  "clean_list_mutex st = clean_list_with [] [] st"

definition linked_exit_mutex :: "bool \<Rightarrow> linked_state \<Rightarrow> linked_state \<times> kcall list" where
  "linked_exit_mutex proc_entry st =
     (case clean_list_mutex st of (st', tr) \<Rightarrow>
        (st', [Rel (Chrdev LINKED_MAJOR ''linked'')] @
          (if proc_entry then [Rel (ProcEntry ''linked'')] else []) @ tr))"

definition linked_proc_show_mutex :: "linked_state \<Rightarrow> string" where
  "linked_proc_show_mutex st =
     ''reads: '' @ show_nat (l_reads st) @ [CHR 0x0A] @ ''writes: '' @ show_nat (l_writes st) @ [CHR 0x0A] @
     ''total length: '' @ show_nat (l_total st) @ [CHR 0x0A]"

section \<open>semaphore/linked\_buffer\<close>

text \<open>The second component is the value \<open>sema_init\<close> gives \<open>my_sem\<close>, \<open>None\<close> if it is not reached.\<close>

definition linked_init_semaphore :: "kenv \<Rightarrow> int \<times> nat option \<times> bool \<times> kcall list" where
  "linked_init_semaphore K =
     (let unreg = [Rel (Chrdev LINKED_MAJOR ''linked'')] in
      if \<not> k_proc_create K ''linked'' then (0, None, False, unreg)
      else let my_sem = Some 1; result = k_register_chrdev K LINKED_MAJOR ''linked'' in
      if result < 0 then (result, my_sem, True, [Acq (ProcEntry ''linked''), Rel (ProcEntry ''linked'')] @ unreg)
      else (result, my_sem, True, [Acq (ProcEntry ''linked''), Acq (Chrdev LINKED_MAJOR ''linked'')]))"

definition clean_list_semaphore :: "linked_state \<Rightarrow> linked_state \<times> kcall list" where
  "clean_list_semaphore st = clean_list_with [] [] st"

definition linked_exit_semaphore :: "bool \<Rightarrow> linked_state \<Rightarrow> linked_state \<times> kcall list" where
  "linked_exit_semaphore proc_entry st =
     (case clean_list_semaphore st of (st', tr) \<Rightarrow>
        (st', [Rel (Chrdev LINKED_MAJOR ''linked'')] @
          (if proc_entry then [Rel (ProcEntry ''linked'')] else []) @ tr))"

definition linked_proc_show_semaphore :: "linked_state \<Rightarrow> string" where
  "linked_proc_show_semaphore st =
     ''reads: '' @ show_nat (l_reads st) @ [CHR 0x0A] @ ''writes: '' @ show_nat (l_writes st) @ [CHR 0x0A] @
     ''total length: '' @ show_nat (l_total st) @ [CHR 0x0A]"

section \<open>spinlock/linked\_buffer, both files\<close>

text \<open>\<open>rwlock_init\<close> leaves \<open>my_rwlock\<close> free.\<close>

definition linked_init_rwlock :: "kenv \<Rightarrow> int \<times> bool \<times> kcall list" where
  "linked_init_rwlock K =
     (let unreg = [Rel (Chrdev LINKED_MAJOR ''linked'')] in
      if \<not> k_proc_create K ''linked'' then (0, False, unreg)
      else let result = k_register_chrdev K LINKED_MAJOR ''linked'' in
      if result < 0 then (result, True, [Acq (ProcEntry ''linked''), Rel (ProcEntry ''linked'')] @ unreg)
      else (result, True, [Acq (ProcEntry ''linked''), Acq (Chrdev LINKED_MAJOR ''linked'')]))"

definition linked_exit_rwlock :: "bool \<Rightarrow> linked_state \<Rightarrow> linked_state \<times> kcall list" where
  "linked_exit_rwlock proc_entry st =
     (case clean_list_rwlock st of (st', tr) \<Rightarrow>
        (st', [Rel (Chrdev LINKED_MAJOR ''linked'')] @
          (if proc_entry then [Rel (ProcEntry ''linked'')] else []) @ tr))"

definition linked_proc_show_rwlock :: "linked_state \<Rightarrow> string" where
  "linked_proc_show_rwlock st =
     ''reads: '' @ show_nat (l_reads st) @ [CHR 0x0A] @ ''writes: '' @ show_nat (l_writes st) @ [CHR 0x0A] @
     ''total length: '' @ show_nat (l_total st) @ [CHR 0x0A]"

definition linked_init_111 :: "kenv \<Rightarrow> int \<times> bool \<times> kcall list" where
  "linked_init_111 K =
     (let unreg = [Rel (Chrdev LINKED_MAJOR ''linked'')] in
      if \<not> k_proc_create K ''linked'' then (0, False, unreg)
      else let result = k_register_chrdev K LINKED_MAJOR ''linked'' in
      if result < 0 then (result, True, [Acq (ProcEntry ''linked''), Rel (ProcEntry ''linked'')] @ unreg)
      else (result, True, [Acq (ProcEntry ''linked''), Acq (Chrdev LINKED_MAJOR ''linked'')]))"

definition clean_list_111 :: "linked_state \<Rightarrow> linked_state \<times> kcall list" where
  "clean_list_111 st = clean_list_with [Acq rw_write] [Rel rw_write] st"

definition linked_exit_111 :: "bool \<Rightarrow> linked_state \<Rightarrow> linked_state \<times> kcall list" where
  "linked_exit_111 proc_entry st =
     (case clean_list_111 st of (st', tr) \<Rightarrow>
        (st', [Rel (Chrdev LINKED_MAJOR ''linked'')] @
          (if proc_entry then [Rel (ProcEntry ''linked'')] else []) @ tr))"

definition linked_read_111 ::
  "kenv \<Rightarrow> linked_state \<Rightarrow> nat \<Rightarrow> nat \<Rightarrow> int \<times> nat \<times> string \<times> linked_state \<times> kcall list" where
  "linked_read_111 K st count f_pos =
     (if f_pos > l_total st then (0, f_pos, [], st, [])
      else (case linked_read_rest K st count f_pos of (r, f_pos', out, st') \<Rightarrow>
        (r, f_pos', out, st', [Acq rw_read, Rel rw_read])))"

definition linked_proc_show_111 :: "linked_state \<Rightarrow> string" where
  "linked_proc_show_111 st =
     ''reads: '' @ show_nat (l_reads st) @ [CHR 0x0A] @ ''writes: '' @ show_nat (l_writes st) @ [CHR 0x0A] @
     ''total length: '' @ show_nat (l_total st) @ [CHR 0x0A]"

section \<open>Sessions\<close>

text \<open>A call of the device: a read of \<open>count\<close> bytes or a write of a text, at a position.\<close>

datatype linked_call = LRead nat nat | LWrite string nat

fun linked_call_mutex :: "kenv \<Rightarrow> linked_state \<Rightarrow> linked_call \<Rightarrow> linked_state \<times> kcall list" where
  "linked_call_mutex K st (LRead n p) = (case linked_read_mutex K st n p of (_, _, _, st', tr) \<Rightarrow> (st', tr))"
| "linked_call_mutex K st (LWrite w p) = (case linked_write_mutex K st w p of (_, _, st', tr) \<Rightarrow> (st', tr))"

fun linked_call_semaphore :: "kenv \<Rightarrow> linked_state \<Rightarrow> linked_call \<Rightarrow> linked_state \<times> kcall list" where
  "linked_call_semaphore K st (LRead n p) = (case linked_read_semaphore K st n p of (_, _, _, st', tr) \<Rightarrow> (st', tr))"
| "linked_call_semaphore K st (LWrite w p) = (case linked_write_semaphore K st w p of (_, _, st', tr) \<Rightarrow> (st', tr))"

fun linked_call_rwlock :: "kenv \<Rightarrow> linked_state \<Rightarrow> linked_call \<Rightarrow> linked_state \<times> kcall list" where
  "linked_call_rwlock K st (LRead n p) = (case linked_read_rwlock K st n p of (_, _, _, st', tr) \<Rightarrow> (st', tr))"
| "linked_call_rwlock K st (LWrite w p) = (case linked_write_rwlock K st w p of (_, _, st', tr) \<Rightarrow> (st', tr))"

fun linked_calls ::
  "(linked_state \<Rightarrow> linked_call \<Rightarrow> linked_state \<times> kcall list) \<Rightarrow> linked_state \<Rightarrow> linked_call list \<Rightarrow> linked_state \<times> kcall list" where
  "linked_calls f st [] = (st, [])"
| "linked_calls f st (c # cs) =
     (case f st c of (st', tr) \<Rightarrow> (case linked_calls f st' cs of (st'', tr') \<Rightarrow> (st'', tr @ tr')))"

definition linked_session_mutex :: "kenv \<Rightarrow> linked_call list \<Rightarrow> kcall list" where
  "linked_session_mutex K cs =
     (case linked_init_mutex K of (rc, proc_entry, tr) \<Rightarrow>
        if rc < 0 then tr
        else (case linked_calls (linked_call_mutex K) linked_state0 cs of
          (st, tr') \<Rightarrow> tr @ tr' @ snd (linked_exit_mutex proc_entry st)))"

definition linked_session_semaphore :: "kenv \<Rightarrow> linked_call list \<Rightarrow> kcall list" where
  "linked_session_semaphore K cs =
     (case linked_init_semaphore K of (rc, _, proc_entry, tr) \<Rightarrow>
        if rc < 0 then tr
        else (case linked_calls (linked_call_semaphore K) linked_state0 cs of
          (st, tr') \<Rightarrow> tr @ tr' @ snd (linked_exit_semaphore proc_entry st)))"

definition linked_session_rwlock :: "kenv \<Rightarrow> linked_call list \<Rightarrow> kcall list" where
  "linked_session_rwlock K cs =
     (case linked_init_rwlock K of (rc, proc_entry, tr) \<Rightarrow>
        if rc < 0 then tr
        else (case linked_calls (linked_call_rwlock K) linked_state0 cs of
          (st, tr') \<Rightarrow> tr @ tr' @ snd (linked_exit_rwlock proc_entry st)))"

fun all_calls ::
  "(linked_state \<Rightarrow> linked_call \<Rightarrow> linked_state \<times> kcall list) \<Rightarrow> (linked_state \<Rightarrow> linked_call \<Rightarrow> bool) \<Rightarrow>
   linked_state \<Rightarrow> linked_call list \<Rightarrow> bool" where
  "all_calls f ok st [] = True"
| "all_calls f ok st (c # cs) = (ok st c \<and> all_calls f ok (fst (f st c)) cs)"

text \<open>What unloading needs to know of a run of calls: it holds exactly one block for every node, and \<open>n\<close> times a
  lock that it should not hold.  \<open>ok\<close> says for which calls the law is known.\<close>

definition holds_nodes :: "(kres \<Rightarrow> nat) \<Rightarrow> linked_state \<Rightarrow> kres \<Rightarrow> nat" where
  "holds_nodes M st = M(node_mem := length (l_buffer st))"

locale list_device =
  fixes call :: "linked_state \<Rightarrow> linked_call \<Rightarrow> linked_state \<times> kcall list"
    and lock :: string and ok :: "linked_state \<Rightarrow> linked_call \<Rightarrow> bool"
  assumes call_calls: "lock_free M lock \<Longrightarrow> ok st c \<Longrightarrow> call st c = (st', tr) \<Longrightarrow>
    run_counts (holds_nodes M st) tr = Some (holds_nodes M st')"
begin

lemma calls_calls:
  "lock_free M lock \<Longrightarrow> all_calls call ok st cs \<Longrightarrow> linked_calls call st cs = (st', tr) \<Longrightarrow>
   run_counts (holds_nodes M st) tr = Some (holds_nodes M st')"
proof (induction cs arbitrary: st tr)
  case (Cons c cs)
  obtain st1 tr1 where 1: "call st c = (st1, tr1)" by fastforce
  obtain st2 tr2 where 2: "linked_calls call st1 cs = (st2, tr2)" by fastforce
  from Cons.prems(3) 1 2 have t: "tr = tr1 @ tr2" and r: "linked_calls call st1 cs = (st', tr2)" by auto
  have o: "ok st c" "all_calls call ok st1 cs" using Cons.prems(2) 1 by auto
  show ?case
    unfolding t run_counts_append_Some [OF call_calls [OF Cons.prems(1) o(1) 1]]
    by (rule Cons.IH [OF Cons.prems(1) o(2) r])
qed simp

lemma session:
  assumes "all_calls call ok linked_state0 cs" "linked_calls call linked_state0 cs = (st, tr)"
    and "snd (ex True st) = [Rel (Chrdev LINKED_MAJOR ''linked'')] @ [Rel (ProcEntry ''linked'')] @ cl"
    and "\<And>M. lock_free M lock \<Longrightarrow> run_counts (M(node_mem := length (l_buffer st))) cl = Some (M(node_mem := 0))"
  shows "balanced ([Acq (ProcEntry ''linked''), Acq (Chrdev LINKED_MAJOR ''linked'')] @ tr @ snd (ex True st))"
proof -
  let ?M = "(\<lambda>_. 0)(ProcEntry ''linked'' := 1, Chrdev LINKED_MAJOR ''linked'' := 1) :: kres \<Rightarrow> nat"
  have free: "lock_free ?M lock" "lock_free (\<lambda>_. 0) lock" by (simp_all add: lock_free_def)
  have 0: "holds_nodes ?M linked_state0 = ?M" by (auto simp: holds_nodes_def linked_state0_def fun_eq_iff)
  have 1: "run_counts (\<lambda>_. 0) [Acq (ProcEntry ''linked''), Acq (Chrdev LINKED_MAJOR ''linked'')] = Some ?M" by simp
  have 2: "run_counts ?M tr = Some (?M(node_mem := length (l_buffer st)))"
    using calls_calls [OF free(1) assms(1,2)] unfolding 0 by (simp only: holds_nodes_def)
  have 3: "run_counts (?M(node_mem := length (l_buffer st)))
      ([Rel (Chrdev LINKED_MAJOR ''linked'')] @ [Rel (ProcEntry ''linked'')]) =
      Some ((\<lambda>_. 0)(node_mem := length (l_buffer st)))"
    by (simp add: fun_eq_iff)
  have z: "(\<lambda>_ :: kres. 0 :: nat)(node_mem := 0) = (\<lambda>_. 0)" by (simp add: fun_eq_iff)
  have 4: "run_counts ((\<lambda>_. 0)(node_mem := length (l_buffer st))) cl = Some (\<lambda>_. 0)"
    using assms(4) [OF free(2)] z by simp
  have e: "[Acq (ProcEntry ''linked''), Acq (Chrdev LINKED_MAJOR ''linked'')] @ tr @ snd (ex True st) =
      [Acq (ProcEntry ''linked''), Acq (Chrdev LINKED_MAJOR ''linked'')] @ tr @
      ([Rel (Chrdev LINKED_MAJOR ''linked'')] @ [Rel (ProcEntry ''linked'')]) @ cl"
    by (simp add: assms(3))
  show ?thesis
    unfolding balanced_counts e
    by (rule run_counts_append_Some [OF 1, THEN trans], rule run_counts_append_Some [OF 2, THEN trans],
        rule run_counts_append_Some [OF 3, THEN trans], rule 4)
qed

end

text \<open>Cleaning the list frees one block for every node.\<close>

lemma clean_calls: "run_counts (M(node_mem := length (l_buffer st))) (snd (clean_list st)) = Some (M(node_mem := 0))"
  unfolding clean_list_def clean_list_with_def snd_conv append_Nil append_Nil2
  by (rule run_counts_release_all [where n = "length (l_buffer st)" and k = 0, THEN trans]) simp_all

lemma clean_eqs: "clean_list_mutex = clean_list" "clean_list_semaphore = clean_list"
  by (simp_all add: fun_eq_iff clean_list_mutex_def clean_list_semaphore_def clean_list_def)

lemma read_rest_buffer: "linked_read_rest K st n p = (r, p', out, st') \<Longrightarrow> l_buffer st' = l_buffer st"
  by (auto simp: linked_read_rest_def split: sum.splits prod.splits)

lemma lock_free_nodes: "lock_free M l \<Longrightarrow> lock_free (M(node_mem := n)) l"
  by (simp add: lock_free_def)

text \<open>The calls after which the mutex is free again: reads whose copies succeed and writes that find memory.\<close>

fun gives_mutex_back :: "kenv \<Rightarrow> linked_state \<Rightarrow> linked_call \<Rightarrow> bool" where
  "gives_mutex_back K st (LRead n p) = (fst (linked_read_mutex K st n p) \<noteq> - EFAULT)"
| "gives_mutex_back K st (LWrite w p) = (fst (linked_write_mutex K st w p) \<noteq> - ENOMEM)"

interpretation mutex: list_device "linked_call_mutex K" "''my_mutex''" "gives_mutex_back K" for K
proof
  fix M st c st' tr
  assume M: "lock_free M ''my_mutex''" and o: "gives_mutex_back K st c" and c: "linked_call_mutex K st c = (st', tr)"
  show "run_counts (holds_nodes M st) tr = Some (holds_nodes M st')"
  proof (cases c)
    case (LRead n p)
    then obtain r f out where rd: "linked_read_mutex K st n p = (r, f, out, st', tr)"
      using c by (auto split: prod.splits)
    have "l_buffer st' = l_buffer st"
      using rd by (auto simp: linked_read_mutex_def dest!: read_rest_buffer split: if_splits prod.splits)
    moreover have "run_counts (M(node_mem := length (l_buffer st))) tr = Some (M(node_mem := length (l_buffer st)))"
      using mutex_calls [OF lock_free_nodes [OF M, of "length (l_buffer st)"], where K = K and st = st and n = n and f_pos = p] rd o LRead by auto
    ultimately show ?thesis by (simp add: holds_nodes_def)
  next
    case (LWrite w p)
    with mutex_calls [OF M, where K = K and st = st and ubuf = w and f_pos = p] c o show ?thesis by (auto simp: holds_nodes_def split: prod.splits)
  qed
qed

interpretation semaphore: list_device "linked_call_semaphore K" "''my_sem''" "\<lambda>_ _. True" for K
proof
  fix M st c st' tr
  assume M: "lock_free M ''my_sem''" and c: "linked_call_semaphore K st c = (st', tr)"
  show "run_counts (holds_nodes M st) tr = Some (holds_nodes M st')"
  proof (cases c)
    case (LRead n p)
    then obtain r f out where rd: "linked_read_semaphore K st n p = (r, f, out, st', tr)"
      using c by (auto split: prod.splits)
    have "l_buffer st' = l_buffer st"
      using rd by (auto simp: linked_read_semaphore_def dest!: read_rest_buffer split: if_splits prod.splits)
    moreover have "run_counts (M(node_mem := length (l_buffer st))) tr = Some (M(node_mem := length (l_buffer st)))"
      using semaphore_calls [OF lock_free_nodes [OF M, of "length (l_buffer st)"], where K = K and st = st and n = n and f_pos = p] rd by auto
    ultimately show ?thesis by (simp add: holds_nodes_def)
  next
    case (LWrite w p)
    with semaphore_calls [OF M, where K = K and st = st and ubuf = w and f_pos = p] c show ?thesis by (auto simp: holds_nodes_def split: prod.splits)
  qed
qed

lemma all_calls_True: "all_calls call (\<lambda>_ _. True) st cs"
  by (induction cs arbitrary: st) simp_all

section \<open>Properties\<close>

text \<open>A session of the semaphore variant, with any reads and writes between loading and unloading, gives back
  every node, the semaphore, the proc entry and the device exactly when both registrations succeeded.\<close>

theorem linked_semaphore_session:
  "balanced (linked_session_semaphore K cs) \<longleftrightarrow>
     k_proc_create K ''linked'' \<and> 0 \<le> k_register_chrdev K LINKED_MAJOR ''linked''"
proof (cases "k_proc_create K ''linked'' \<and> 0 \<le> k_register_chrdev K LINKED_MAJOR ''linked''")
  case False
  then show ?thesis
    by (auto simp: linked_session_semaphore_def linked_init_semaphore_def balanced_def Let_def split: prod.splits)
next
  case True
  obtain st tr where r: "linked_calls (linked_call_semaphore K) linked_state0 cs = (st, tr)" by fastforce
  have "snd (linked_exit_semaphore True st) =
      [Rel (Chrdev LINKED_MAJOR ''linked'')] @ [Rel (ProcEntry ''linked'')] @ snd (clean_list st)"
    by (simp add: linked_exit_semaphore_def clean_eqs split: prod.splits)
  from semaphore.session [where ex = linked_exit_semaphore, OF all_calls_True r this clean_calls] True
  show ?thesis by (simp add: linked_session_semaphore_def linked_init_semaphore_def Let_def r)
qed

text \<open>A session of the mutex variant in which both registrations succeed, every read that the device gets to copies, and
  every write finds memory, gives everything back.\<close>

theorem linked_mutex_session:
  assumes "k_proc_create K ''linked''" "0 \<le> k_register_chrdev K LINKED_MAJOR ''linked''"
    and "all_calls (linked_call_mutex K) (gives_mutex_back K) linked_state0 cs"
  shows "balanced (linked_session_mutex K cs)"
proof -
  obtain st tr where r: "linked_calls (linked_call_mutex K) linked_state0 cs = (st, tr)" by fastforce
  have "snd (linked_exit_mutex True st) =
      [Rel (Chrdev LINKED_MAJOR ''linked'')] @ [Rel (ProcEntry ''linked'')] @ snd (clean_list st)"
    by (simp add: linked_exit_mutex_def clean_eqs split: prod.splits)
  from mutex.session [where ex = linked_exit_mutex, OF assms(3) r this clean_calls] assms(1,2)
  show ?thesis by (simp add: linked_session_mutex_def linked_init_mutex_def Let_def r)
qed

theorem linked_mutex_session_witness: "balanced (linked_session_mutex kenv0 [LRead 3 0, LRead 1 0])"
proof -
  have "all_calls (linked_call_mutex kenv0) (gives_mutex_back kenv0) linked_state0 [LRead 3 0, LRead 1 0]"
    by (simp add: linked_read_mutex_def linked_read_rest_def linked_state0_def errno_defs)
  from linked_mutex_session [OF _ _ this] show ?thesis by simp
qed

end
