(* ===== verification/SimpleSync.thy ===== *)
theory SimpleSync imports KernelApi begin

text \<open>
  \<open>cw06/sync/simple_sync/simple_module.c\<close> and its variants under \<open>mutex\<close>, \<open>semaphore\<close> and
  \<open>spinlock\<close>: a device whose reads hand out a fixed text in pieces, for ever, from the global
  position \<open>msg_pos\<close> on.  \<open>simple_fill\<close> is the loop that fills the local buffer; each variant of
  \<open>simple_read\<close> returns the result, the bytes delivered, the new \<open>msg_pos\<close> and its trace.
  Shown: successive reads continue each other through the cyclic text, where the position wraps
  around, and which paths of which variant keep the lock.
\<close>

definition simple_major :: int where "simple_major = 198"

definition msg_str :: string where
  "msg_str = ''-0123456789-ABCDEFGHIJ-'' @ [NUL]"

definition msg_len :: int where "msg_len = int (length msg_str)"

definition simple_init :: "kenv \<Rightarrow> int \<times> kcall list" where
  "simple_init K =
     (let result = k_register_chrdev K simple_major ''simple'' in
      if result < 0 then (result, []) else (0, [Acq (Chrdev simple_major ''simple'')]))"

definition simple_exit :: "kcall list" where
  "simple_exit = [Rel (Chrdev simple_major ''simple'')]"

text \<open>The three locked variants register and unregister in the same way; \<open>sema_init\<close> and \<open>spin_lock_init\<close> come first and leave
  the lock free, which is the value 1 of the semaphore.\<close>

definition simple_init_mutex :: "kenv \<Rightarrow> int \<times> kcall list" where
  "simple_init_mutex K =
     (let result = k_register_chrdev K simple_major ''simple'' in
      if result < 0 then (result, []) else (0, [Acq (Chrdev simple_major ''simple'')]))"

definition simple_exit_mutex :: "kcall list" where
  "simple_exit_mutex = [Rel (Chrdev simple_major ''simple'')]"

definition simple_init_semaphore :: "kenv \<Rightarrow> int \<times> nat \<times> kcall list" where
  "simple_init_semaphore K =
     (let my_sem = 1; result = k_register_chrdev K simple_major ''simple'' in
      if result < 0 then (result, my_sem, []) else (0, my_sem, [Acq (Chrdev simple_major ''simple'')]))"

definition simple_exit_semaphore :: "kcall list" where
  "simple_exit_semaphore = [Rel (Chrdev simple_major ''simple'')]"

definition simple_init_spinlock :: "kenv \<Rightarrow> int \<times> int \<times> kcall list" where
  "simple_init_spinlock K =
     (let flags = 0; result = k_register_chrdev K simple_major ''simple'' in
      if result < 0 then (result, flags, []) else (0, flags, [Acq (Chrdev simple_major ''simple'')]))"

definition simple_exit_spinlock :: "kcall list" where
  "simple_exit_spinlock = [Rel (Chrdev simple_major ''simple'')]"

text \<open>\<open>local_buf[i] = msg_str[(msg_pos++) % msg_len]\<close>, \<open>n\<close> times; \<open>msg_pos\<close> is an \<open>int\<close>, and the remainder
  of a negative one is a negative index.\<close>

fun simple_fill :: "nat \<Rightarrow> int \<Rightarrow> fault + string \<times> int" where
  "simple_fill 0 pos = Inr ([], pos)"
| "simple_fill (Suc n) pos =
     (let k = c_mod pos msg_len in
      if k < 0 then Inl OutOfBounds
      else (case simple_fill n (s32 (pos + 1)) of
          Inl e \<Rightarrow> Inl e
        | Inr (s, pos') \<Rightarrow> Inr (msg_str ! nat k # s, pos')))"

definition length_to_copy :: "int \<Rightarrow> nat \<Rightarrow> int" where
  "length_to_copy pos n = (let l = msg_len - c_mod pos msg_len in if l > int n then int n else l)"

text \<open>The end of all variants: \<open>err = copy_to_user(...)\<close> is never negative, so the number of
  bytes that were not copied is dropped.\<close>

definition simple_send :: "kenv \<Rightarrow> string \<Rightarrow> int \<times> string" where
  "simple_send K local_buf =
     (let err = int (k_copy_to_user K 0 (length local_buf)) in
      (if err < 0 then err else int (length local_buf), copied_out K 0 local_buf))"

abbreviation local_mem :: kres where "local_mem \<equiv> Mem ''local_buf''"

definition simple_read :: "kenv \<Rightarrow> int \<Rightarrow> nat \<Rightarrow> fault + int \<times> string \<times> int \<times> kcall list" where
  "simple_read K msg_pos n =
     (let l = length_to_copy msg_pos n in
      if \<not> k_kmalloc K ''local_buf'' l then Inr (- ENOMEM, [], msg_pos, [])
      else (case simple_fill (nat l) msg_pos of
          Inl e \<Rightarrow> Inl e
        | Inr (local_buf, pos') \<Rightarrow>
            (case simple_send K local_buf of (r, out) \<Rightarrow> Inr (r, out, pos', [Acq local_mem, Rel local_mem]))))"

definition simple_read_mutex :: "kenv \<Rightarrow> int \<Rightarrow> nat \<Rightarrow> fault + int \<times> string \<times> int \<times> kcall list" where
  "simple_read_mutex K msg_pos n =
     (let l = length_to_copy msg_pos n; lk = Lock ''my_mutex'' in
      if \<not> k_kmalloc K ''local_buf'' l then Inr (- ENOMEM, [], msg_pos, [Acq lk])
      else (case simple_fill (nat l) msg_pos of
          Inl e \<Rightarrow> Inl e
        | Inr (local_buf, pos') \<Rightarrow>
            (case simple_send K local_buf of (r, out) \<Rightarrow>
               Inr (r, out, pos', [Acq lk, Acq local_mem, Rel lk, Rel local_mem]))))"

definition simple_read_semaphore :: "kenv \<Rightarrow> int \<Rightarrow> nat \<Rightarrow> fault + int \<times> string \<times> int \<times> kcall list" where
  "simple_read_semaphore K msg_pos n =
     (let lk = Lock ''my_sem'' in
      if k_interrupted K then Inr (- EINTR, [], msg_pos, [])
      else let l = length_to_copy msg_pos n in
      if \<not> k_kmalloc K ''local_buf'' l then Inr (- ENOMEM, [], msg_pos, [Acq lk])
      else (case simple_fill (nat l) msg_pos of
          Inl e \<Rightarrow> Inl e
        | Inr (local_buf, pos') \<Rightarrow>
            (case simple_send K local_buf of (r, out) \<Rightarrow>
               Inr (r, out, pos', [Acq lk, Acq local_mem, Rel lk, Rel local_mem]))))"

text \<open>The spin lock variant allocates the longest buffer it can need before it takes the lock.\<close>

definition simple_read_spinlock :: "kenv \<Rightarrow> int \<Rightarrow> nat \<Rightarrow> fault + int \<times> string \<times> int \<times> kcall list" where
  "simple_read_spinlock K msg_pos n =
     (let lk = Lock ''some_lock''; l = length_to_copy msg_pos n in
      if \<not> k_kmalloc K ''local_buf'' msg_len then Inr (- ENOMEM, [], msg_pos, [Acq lk])
      else if l > msg_len then Inl OutOfBounds
      else (case simple_fill (nat l) msg_pos of
          Inl e \<Rightarrow> Inl e
        | Inr (local_buf, pos') \<Rightarrow>
            (case simple_send K local_buf of (r, out) \<Rightarrow>
               Inr (r, out, pos', [Acq local_mem, Acq lk, Rel lk, Rel local_mem]))))"

section \<open>The cyclic text\<close>

definition msg_from :: "nat \<Rightarrow> nat \<Rightarrow> string" where
  "msg_from p n = map (\<lambda>k. msg_str ! (k mod 24)) [p..<p + n]"

lemma msg_len_24: "msg_len = 24" "length msg_str = 24"
  by (simp_all add: msg_len_def msg_str_def)

lemma msg_from_append: "msg_from p (m + n) = msg_from p m @ msg_from (p + m) n"
  using upt_add_eq_append [of p "p + m" n] by (simp add: msg_from_def add.assoc)

lemma msg_from_Suc: "msg_from p (Suc n) = msg_str ! (p mod 24) # msg_from (Suc p) n"
  using upt_conv_Cons [of p "p + Suc n"] by (simp add: msg_from_def del: upt_Suc)

lemma length_msg_from [simp]: "length (msg_from p n) = n"
  by (simp add: msg_from_def)

lemma simple_fill_msg:
  "p + n < 2147483648 \<Longrightarrow> simple_fill n (int p) = Inr (msg_from p n, int (p + n))"
proof (induction n arbitrary: p)
  case 0
  then show ?case by (simp add: msg_from_def)
next
  case (Suc n)
  have k: "c_mod (int p) msg_len = int (p mod 24)" by (simp add: msg_len_24 c_mod_nonneg zmod_int)
  have s: "s32 (int p + 1) = int (Suc p)" using Suc.prems by (subst s32_id) simp_all
  from Suc.IH [of "Suc p"] Suc.prems show ?case by (simp add: k s msg_from_Suc)
qed

definition piece :: "nat \<Rightarrow> nat \<Rightarrow> nat" where
  "piece p n = min n (24 - p mod 24)"

lemma length_to_copy_piece: "length_to_copy (int p) n = int (piece p n)"
proof -
  have "c_mod (int p) msg_len = int (p mod 24)" by (simp add: msg_len_24 c_mod_nonneg zmod_int)
  moreover have "int (24 - p mod 24) = 24 - int (p mod 24)" by (simp add: of_nat_diff)
  ultimately show ?thesis by (auto simp: length_to_copy_def msg_len_24 piece_def Let_def min_def)
qed

section \<open>Properties\<close>

text \<open>A read of the simple device at \<open>msg_pos\<close> = \<open>p\<close> with memory available, as long as \<open>msg_pos\<close> stays below
  \<open>2 ^ 31\<close>: it takes the next bytes of the cyclic text, at most to the end of the current
  repetition, moves \<open>msg_pos\<close> by as many, and reports them all even when the copy to the user fell short.\<close>

theorem simple_read_piece:
  assumes "\<And>z. k_kmalloc K ''local_buf'' z" "p + piece p n < 2147483648"
  shows "simple_read K (int p) n = Inr (int (piece p n), copied_out K 0 (msg_from p (piece p n)),
    int (p + piece p n), [Acq local_mem, Rel local_mem])"
  using assms simple_fill_msg [OF assms(2)]
  by (simp add: simple_read_def length_to_copy_piece simple_send_def)

theorem simple_read_piece_witness:
  "simple_read kenv0 23 9 = Inr (1, [NUL], 24, [Acq local_mem, Rel local_mem])"
proof -
  have p: "piece 23 9 = 1" by (simp add: piece_def)
  have m: "msg_from 23 1 = [NUL]" by (simp add: msg_from_def msg_str_def)
  have "simple_read kenv0 (int 23) 9 = Inr (int 1, copied_out kenv0 0 [NUL], int (23 + 1), [Acq local_mem, Rel local_mem])"
    using simple_read_piece [of kenv0 23 9] unfolding p m by simp
  then show ?thesis by (simp add: copied_out_def)
qed

text \<open>The three locked variants deliver what \<open>simple_read\<close> does, the one with the semaphore unless it is interrupted.\<close>

lemma simple_read_variants:
  assumes "\<And>z. k_kmalloc K ''local_buf'' z" "\<not> k_interrupted K" "p + piece p n < 2147483648"
    and "R \<in> {simple_read, simple_read_mutex, simple_read_semaphore, simple_read_spinlock}"
  shows "\<exists>tr. R K (int p) n = Inr (int (piece p n), copied_out K 0 (msg_from p (piece p n)), int (p + piece p n), tr)"
proof -
  have "piece p n \<le> 24" by (simp add: piece_def min_le_iff_disj)
  then have "\<not> int (piece p n) > msg_len" by (simp add: msg_len_24)
  then show ?thesis using assms simple_fill_msg [OF assms(3)]
    by (auto simp: simple_read_def simple_read_mutex_def simple_read_semaphore_def simple_read_spinlock_def length_to_copy_piece simple_send_def Let_def)
qed

text \<open>A sequence of reads of the given sizes: what each returns and the bytes it delivers, and the position at the end.\<close>

fun simple_reads :: "(kenv \<Rightarrow> int \<Rightarrow> nat \<Rightarrow> fault + int \<times> string \<times> int \<times> kcall list) \<Rightarrow> kenv \<Rightarrow> int \<Rightarrow> nat list
    \<Rightarrow> fault + (int \<times> string) list \<times> int" where
  "simple_reads R K pos [] = Inr ([], pos)"
| "simple_reads R K pos (n # ns) =
     (case R K pos n of
        Inl e \<Rightarrow> Inl e
      | Inr (r, out, pos', _) \<Rightarrow>
          (case simple_reads R K pos' ns of Inl e \<Rightarrow> Inl e | Inr (outs, pos'') \<Rightarrow> Inr ((r, out) # outs, pos'')))"

text \<open>The bytes of all reads, and those before the \<open>i\<close>-th.\<close>

abbreviation delivered :: "(int \<times> string) list \<Rightarrow> string" where
  "delivered outs \<equiv> concat (map snd outs)"

fun pieces :: "nat \<Rightarrow> nat list \<Rightarrow> (int \<times> string) list" where
  "pieces p [] = []"
| "pieces p (n # ns) = (int (piece p n), msg_from p (piece p n)) # pieces (p + piece p n) ns"

lemma delivered_pieces: "delivered (pieces p ns) = msg_from p (length (delivered (pieces p ns)))"
proof (induction ns arbitrary: p)
  case (Cons n ns)
  have "delivered (pieces p (n # ns)) = msg_from p (piece p n) @ delivered (pieces (p + piece p n) ns)" by simp
  also have "\<dots> = msg_from p (piece p n) @ msg_from (p + piece p n) (length (delivered (pieces (p + piece p n) ns)))"
    using Cons.IH [of "p + piece p n"] by simp
  finally show ?case by (simp add: msg_from_append)
qed (simp add: msg_from_def)

lemma nth_pieces:
  "i < length ns \<Longrightarrow> pieces p ns ! i = (let q = p + length (delivered (take i (pieces p ns))) in (int (piece q (ns ! i)), msg_from q (piece q (ns ! i))))"
proof (induction ns arbitrary: p i)
  case (Cons n ns)
  then show ?case by (cases i) (simp_all add: Let_def add.assoc)
qed simp

lemma length_pieces [simp]: "length (pieces p ns) = length ns"
  by (induction ns arbitrary: p) simp_all

lemma simple_reads_pieces:
  assumes "\<And>z. k_kmalloc K ''local_buf'' z" "\<not> k_interrupted K" "\<And>i n. k_copy_to_user K i n = 0"
    and R: "R \<in> {simple_read, simple_read_mutex, simple_read_semaphore, simple_read_spinlock}"
  shows "p + 24 * length ns < 2147483648 \<Longrightarrow>
    simple_reads R K (int p) ns = Inr (pieces p ns, int (p + length (delivered (pieces p ns))))"
proof (induction ns arbitrary: p)
  case (Cons n ns)
  have "piece p n \<le> 24" by (simp add: piece_def min_le_iff_disj)
  then have lt: "p + piece p n < 2147483648" "p + piece p n + 24 * length ns < 2147483648" using Cons.prems by simp_all
  obtain tr where "R K (int p) n = Inr (int (piece p n), copied_out K 0 (msg_from p (piece p n)), int (p + piece p n), tr)"
    using simple_read_variants [OF assms(1,2) lt(1) R] by blast
  then show ?case using Cons.IH [OF lt(2)] assms(3) by (simp add: copied_out_all add.assoc)
qed simp

text \<open>C38.  Reads of the simple device one after the other, of whatever sizes, in all four variants, as long as \<open>msg_pos\<close> stays below \<open>2 ^ 31\<close>,
  there is memory, no wait is interrupted and every copy to the user succeeds: each read delivers and returns as many bytes as were asked for,
  but at most those up to the end of the current repetition of the text, and all bytes together are the stretch of the cyclic text from
  \<open>msg_pos\<close> on: none is repeated or left out between two reads, and the position moves by what was delivered.\<close>

theorem simple_reads_contiguous:
  assumes "\<And>z. k_kmalloc K ''local_buf'' z" "\<not> k_interrupted K" "\<And>i n. k_copy_to_user K i n = 0"
    and "R \<in> {simple_read, simple_read_mutex, simple_read_semaphore, simple_read_spinlock}" "p + 24 * length ns < 2147483648"
  shows "\<exists>outs. simple_reads R K (int p) ns = Inr (outs, int (p + length (delivered outs))) \<and> length outs = length ns
    \<and> (\<forall>i < length ns. fst (outs ! i) = int (length (snd (outs ! i)))
         \<and> length (snd (outs ! i)) = min (ns ! i) (24 - (p + length (delivered (take i outs))) mod 24))
    \<and> (\<forall>k < length (delivered outs). delivered outs ! k = msg_str ! ((p + k) mod 24))"
proof -
  have "delivered (pieces p ns) ! k = msg_str ! ((p + k) mod 24)" if "k < length (delivered (pieces p ns))" for k
    using that by (subst delivered_pieces) (simp add: msg_from_def)
  then show ?thesis using simple_reads_pieces [OF assms]
    by (intro exI [of _ "pieces p ns"]) (simp add: nth_pieces Let_def piece_def)
qed

theorem simple_reads_contiguous_witness:
  "\<exists>outs. simple_reads simple_read_mutex kenv0 20 [10, 3] = Inr (outs, 27) \<and> map fst outs = [4, 3] \<and> delivered outs ! 5 = msg_str ! 1"
proof -
  have k: "k_kmalloc kenv0 ''local_buf'' z" "\<not> k_interrupted kenv0" "k_copy_to_user kenv0 i n = 0" for z i n by (simp_all add: kenv0_def)
  obtain outs where s: "simple_reads simple_read_mutex kenv0 (int 20) [10, 3] = Inr (outs, int (20 + length (delivered outs)))" "length outs = length [10::nat, 3]"
    "\<forall>i < length [10, 3]. fst (outs ! i) = int (length (snd (outs ! i)))
         \<and> length (snd (outs ! i)) = min ([10, 3] ! i) (24 - (20 + length (delivered (take i outs))) mod 24)"
    "\<forall>k < length (delivered outs). delivered outs ! k = msg_str ! ((20 + k) mod 24)"
    using simple_reads_contiguous [OF k, of simple_read_mutex 20 "[10, 3]"] by auto
  obtain r1 o1 r2 o2 where o: "outs = [(r1, o1), (r2, o2)]" using s(2) by (auto simp: length_Suc_conv)
  have "length o1 = 4" "r1 = 4" using s(3) [rule_format, of 0] by (simp_all add: o)
  moreover from this have "length o2 = 3" "r2 = 3" using s(3) [rule_format, of 1] by (simp_all add: o)
  ultimately have l: "length (delivered outs) = 7" "map fst outs = [4, 3]" by (simp_all add: o)
  have "delivered outs ! 5 = msg_str ! ((20 + 5) mod 24)" using s(4) [rule_format, of 5] l(1) by simp
  then show ?thesis using s(1) l by (intro exI [of _ outs]) simp
qed

text \<open>When \<open>msg_pos\<close> has wrapped around to a negative number that is not a multiple of the text's length, any
  non-empty read indexes the text out of bounds; the last non-negative position is one read away from it.\<close>

theorem simple_read_wraps:
  assumes "\<And>z. k_kmalloc K ''local_buf'' z" "- 2147483648 \<le> p" "p < 0" "p mod 24 \<noteq> 0" "0 < n"
  shows "simple_read K p n = Inl OutOfBounds \<and> (\<exists>s. simple_fill 1 2147483647 = Inr (s, - 2147483648))"
proof -
  have "\<bar>p\<bar> mod 24 \<noteq> 0" using assms(3,4) by presburger
  then have k: "c_mod p msg_len < 0" using assms(3) pos_mod_sign [of 24 "\<bar>p\<bar>"]
    by (simp add: c_mod_def msg_len_24)
  then have "0 < length_to_copy p n" using assms(5) by (simp add: length_to_copy_def msg_len_24 Let_def)
  then obtain m where m: "nat (length_to_copy p n) = Suc m" by (cases "nat (length_to_copy p n)") simp_all
  have w: "s32 2147483648 = - 2147483648" by (simp add: s32_def signed_of_int signed_take_bit_def flip: minus_exp_eq_not_mask)
  have "simple_fill 1 2147483647 = Inr ([msg_str ! nat (2147483647 mod 24)], - 2147483648)"
    by (simp add: c_mod_nonneg msg_len_24 w)
  then show ?thesis using assms(1) k by (simp add: simple_read_def m)
qed

theorem simple_read_wraps_witness: "simple_read kenv0 (- 2147483647) 5 = Inl OutOfBounds"
  using simple_read_wraps [of kenv0 "- 2147483647" 5] by simp

definition returns_holding :: "fault + int \<times> string \<times> int \<times> kcall list \<Rightarrow> string \<Rightarrow> bool" where
  "returns_holding x l \<longleftrightarrow> (case x of
     Inl _ \<Rightarrow> True
   | Inr (r, out, p', tr) \<Rightarrow> run_calls [] tr = Some (if r = - ENOMEM then [Lock l] else []))"

text \<open>The locks of the simple device: when the local buffer cannot be allocated, the mutex, the semaphore and the
  spin lock variant all return with the lock held; on every other path that returns they hold nothing.\<close>

theorem simple_locks_kept:
  "returns_holding (simple_read_mutex K p n) ''my_mutex''
   \<and> returns_holding (simple_read_semaphore K p n) ''my_sem''
   \<and> returns_holding (simple_read_spinlock K p n) ''some_lock''"
proof (intro conjI)
  show "returns_holding (simple_read_mutex K p n) ''my_mutex''"
    by (auto simp: returns_holding_def simple_read_mutex_def simple_send_def Let_def errno_defs split: sum.split)
  show "returns_holding (simple_read_semaphore K p n) ''my_sem''"
    by (auto simp: returns_holding_def simple_read_semaphore_def simple_send_def Let_def errno_defs split: sum.split)
  show "returns_holding (simple_read_spinlock K p n) ''some_lock''"
    by (auto simp: returns_holding_def simple_read_spinlock_def simple_send_def Let_def errno_defs split: sum.split)
qed

end
