(* ===== verification/BrokenModules.thy ===== *)
theory BrokenModules imports KernelApi begin

text \<open>
  The debugging exercises: \<open>cw04/debug/oops/1-4\<close> and \<open>cw04/debug/broken_example\<close> hold modules
  with planted faults, \<open>cw05/debug/1-4\<close> the same modules after they were debugged.  Definitions end in
  \<open>_oops1\<close> .. \<open>_oops4\<close>, \<open>_example\<close> and \<open>_debug1\<close> .. \<open>_debug4\<close> after the file they model.
  \<open>bstate\<close> holds the globals of all of them.  Reads return the C result, the new position, the bytes that
  reached the user, the new state and the trace; a handler that crashes returns the \<open>fault\<close>.
  Shown: which handlers of the planted modules crash, always or on which input; what the debugged ones
  compute; and the faults that are still in them.
\<close>

record bstate =
  read_count :: int
  write_count :: int
  numbers_count :: int
  buf1 :: string
  buf2 :: string

definition broken_major :: int where "broken_major = 899"

definition buf_size :: nat where "buf_size = 2048"   \<comment> \<open>\<open>buf1_size\<close> and \<open>buf2_size\<close>\<close>

definition bstate0 :: bstate where
  "bstate0 = \<lparr>read_count = 0, write_count = 0, numbers_count = 0, buf1 = [], buf2 = []\<rparr>"

abbreviation nl :: string where "nl \<equiv> [CHR 0x0A]"

type_synonym read_result = "fault + int \<times> int \<times> string \<times> bstate \<times> kcall list"
type_synonym write_result = "fault + int \<times> bstate \<times> kcall list"

section \<open>What the files share\<close>

definition size_line :: "int \<Rightarrow> string" where
  "size_line n = ''I've created a buffer of size: '' @ show_int n @ nl"

definition digits_line :: "int \<Rightarrow> string" where
  "digits_line n = ''I've recently read '' @ show_int n @ '' numeric characters'' @ nl"

text \<open>\<open>sprintf\<close> into a buffer of the given size.\<close>

definition sprintf_into :: "nat \<Rightarrow> string \<Rightarrow> fault + string" where
  "sprintf_into cap text = (if length text + 1 > cap then Inl OutOfBounds else Inr text)"

definition plain_init :: "kenv \<Rightarrow> int \<times> bool \<times> kcall list" where
  "plain_init K =
     (let proc_entry = k_proc_create K ''broken''; tr = (if proc_entry then [Acq (ProcEntry ''broken'')] else []);
          result = k_register_chrdev K broken_major ''broken'' in
      if result < 0 then (result, proc_entry, tr)
      else (0, proc_entry, tr @ [Acq (Chrdev broken_major ''broken'')]))"

definition plain_exit :: "bool \<Rightarrow> kcall list" where
  "plain_exit proc_entry =
     [Rel (Chrdev broken_major ''broken'')] @ (if proc_entry then [Rel (ProcEntry ''broken'')] else [])"

text \<open>The end of the reads of files 1, 2 and 4: the text is copied out whatever the position and the size of the
  user's buffer, and counts as delivered at position 0 only.\<close>

definition send_once :: "kenv \<Rightarrow> bstate \<Rightarrow> int \<Rightarrow> string \<Rightarrow> kcall list \<Rightarrow> read_result" where
  "send_once K st f_pos text tr =
     (let len = int (length text); err = k_copy_to_user K 0 (length text);
          st = st\<lparr>read_count := s32 (read_count st + 1)\<rparr>; out = copied_out K 0 text in
      if err = 0 \<and> f_pos = 0 then Inr (len, f_pos + len, out, st, tr)
      else Inr (0, f_pos, out, st, tr))"

text \<open>The reads of the proc entries: the position is neither looked at nor moved, and a failed copy is
  reported as the number of bytes that were left.\<close>

definition proc_read_with :: "kenv \<Rightarrow> string \<Rightarrow> nat \<Rightarrow> int \<times> string" where
  "proc_read_with K line n =
     (let buf = take 99 line; len = length line; n = (if n \<ge> len then len else n);
          error = k_copy_to_user K 0 n; out = copied_out K 0 (take n (buf @ zeros (100 - length buf))) in
      if error \<noteq> 0 then (int error, out) else (int n, out))"

abbreviation blk :: kres where "blk \<equiv> Mem ''mybuf''"

section \<open>cw04/debug/broken\_example\<close>

definition broken_init_example :: "kenv \<Rightarrow> int \<times> kcall list" where
  "broken_init_example K =
     (let result = k_register_chrdev K broken_major ''broken''; dev = Chrdev broken_major ''broken'' in
      if result < 0 then (result, [Rel dev]) else (result, [Acq dev]))"

definition broken_exit_example :: "kcall list" where
  "broken_exit_example = [Rel (Chrdev broken_major ''broken'')]"

definition broken_read_example :: "fault + int" where
  "broken_read_example = Inl NullDeref"

section \<open>cw04/debug/oops/1 and cw05/debug/1\<close>

definition fill_buffer_oops1 :: "nat \<Rightarrow> int \<Rightarrow> fault + string" where
  "fill_buffer_oops1 cap n = sprintf_into cap (size_line n)"

definition broken_init_oops1 :: "kenv \<Rightarrow> int \<times> bool \<times> kcall list" where
  "broken_init_oops1 K = plain_init K"

definition broken_exit_oops1 :: "bool \<Rightarrow> kcall list" where
  "broken_exit_oops1 proc_entry = plain_exit proc_entry"

text \<open>\<open>kfree\<close> of the user's buffer.\<close>

definition broken_read_oops1 :: "kenv \<Rightarrow> bstate \<Rightarrow> nat \<Rightarrow> int \<Rightarrow> read_result" where
  "broken_read_oops1 K st n f_pos =
     (if \<not> k_kmalloc K ''mybuf'' 100 then Inr (- ENOMEM, f_pos, [], st, [])
      else (case fill_buffer_oops1 100 100 of Inl e \<Rightarrow> Inl e | Inr mybuf \<Rightarrow> Inl BadFree))"

definition broken_write_oops1 :: "bstate \<Rightarrow> string \<Rightarrow> write_result" where
  "broken_write_oops1 st ubuf = Inr (1, st, [])"

definition broken_read_proc_oops1 :: "kenv \<Rightarrow> bstate \<Rightarrow> nat \<Rightarrow> int \<times> string" where
  "broken_read_proc_oops1 K st n =
     proc_read_with K (''BROKEN. Reads: '' @ show_int (read_count st) @ '', Writes: '' @ show_int (write_count st) @ nl) n"

definition fill_buffer_debug1 :: "nat \<Rightarrow> int \<Rightarrow> fault + string" where
  "fill_buffer_debug1 cap n = sprintf_into cap (size_line n)"

definition broken_init_debug1 :: "kenv \<Rightarrow> int \<times> bool \<times> kcall list" where
  "broken_init_debug1 K = plain_init K"

definition broken_exit_debug1 :: "bool \<Rightarrow> kcall list" where
  "broken_exit_debug1 proc_entry = plain_exit proc_entry"

definition broken_open_debug1 :: int where "broken_open_debug1 = 0"
definition broken_release_debug1 :: int where "broken_release_debug1 = 0"
definition broken_open_debug2 :: int where "broken_open_debug2 = 0"
definition broken_release_debug2 :: int where "broken_release_debug2 = 0"
definition broken_open_debug3 :: int where "broken_open_debug3 = 0"
definition broken_release_debug3 :: int where "broken_release_debug3 = 0"
definition broken_open_debug4 :: int where "broken_open_debug4 = 0"
definition broken_release_debug4 :: int where "broken_release_debug4 = 0"

text \<open>Without memory the read runs the module's exit function.\<close>

definition broken_read_debug1 :: "kenv \<Rightarrow> bool \<Rightarrow> bstate \<Rightarrow> nat \<Rightarrow> int \<Rightarrow> read_result" where
  "broken_read_debug1 K proc_entry st n f_pos =
     (if \<not> k_kmalloc K ''mybuf'' 100 then Inr (- ENOMEM, f_pos, [], st, broken_exit_debug1 proc_entry)
      else (case fill_buffer_debug1 100 100 of
          Inl e \<Rightarrow> Inl e
        | Inr mybuf \<Rightarrow> send_once K st f_pos mybuf [Acq blk, Rel blk]))"

definition broken_write_debug1 :: "bstate \<Rightarrow> string \<Rightarrow> write_result" where
  "broken_write_debug1 st ubuf = Inr (1, st, [])"

definition broken_read_proc_debug1 :: "kenv \<Rightarrow> bstate \<Rightarrow> nat \<Rightarrow> int \<times> string" where
  "broken_read_proc_debug1 K st n =
     proc_read_with K (''BROKEN. Read calls: '' @ show_int (read_count st) @ '', Write calls: '' @
       show_int (write_count st) @ nl) n"

section \<open>cw04/debug/oops/2 and cw05/debug/2\<close>

text \<open>Here \<open>mybuf\<close> is a global that stays NULL, and \<open>fill_buffer\<close> prints into it.\<close>

definition fill_buffer_oops2 :: "string option \<Rightarrow> string \<Rightarrow> int \<Rightarrow> fault + string" where
  "fill_buffer_oops2 mybuf buf n =
     (case mybuf of None \<Rightarrow> Inl NullDeref | Some b \<Rightarrow> sprintf_into (length b) (size_line n))"

definition broken_init_oops2 :: "kenv \<Rightarrow> int \<times> bool \<times> kcall list" where
  "broken_init_oops2 K = plain_init K"

definition broken_exit_oops2 :: "bool \<Rightarrow> kcall list" where
  "broken_exit_oops2 proc_entry = plain_exit proc_entry"

definition broken_read_oops2 :: "kenv \<Rightarrow> bstate \<Rightarrow> nat \<Rightarrow> int \<Rightarrow> read_result" where
  "broken_read_oops2 K st n f_pos =
     (let buf = map (k_junk K) [0..<100] in
      if \<not> k_kmalloc K ''mybuf'' 100 then Inr (- ENOMEM, f_pos, [], st, [])
      else (case fill_buffer_oops2 None buf 100 of
          Inl e \<Rightarrow> Inl e
        | Inr _ \<Rightarrow> send_once K st f_pos (cstr buf) [Acq blk, Rel blk]))"

definition broken_write_oops2 :: "bstate \<Rightarrow> string \<Rightarrow> write_result" where
  "broken_write_oops2 st ubuf = Inr (1, st, [])"

definition broken_read_proc_oops2 :: "kenv \<Rightarrow> bstate \<Rightarrow> nat \<Rightarrow> int \<times> string" where
  "broken_read_proc_oops2 K st n =
     proc_read_with K (''BROKEN. Reads: '' @ show_int (read_count st) @ '', Writes: '' @ show_int (write_count st) @ nl) n"

definition fill_buffer_debug2 :: "nat \<Rightarrow> int \<Rightarrow> fault + string" where
  "fill_buffer_debug2 cap n = sprintf_into cap (size_line n)"

definition broken_init_debug2 :: "kenv \<Rightarrow> int \<times> bool \<times> kcall list" where
  "broken_init_debug2 K = plain_init K"

definition broken_exit_debug2 :: "bool \<Rightarrow> kcall list" where
  "broken_exit_debug2 proc_entry = plain_exit proc_entry"

definition broken_read_debug2 :: "kenv \<Rightarrow> bool \<Rightarrow> bstate \<Rightarrow> nat \<Rightarrow> int \<Rightarrow> read_result" where
  "broken_read_debug2 K proc_entry st n f_pos =
     (if \<not> k_kmalloc K ''mybuf'' 100 then Inr (- ENOMEM, f_pos, [], st, broken_exit_debug2 proc_entry)
      else (case fill_buffer_debug2 100 100 of
          Inl e \<Rightarrow> Inl e
        | Inr buf \<Rightarrow> send_once K st f_pos buf [Acq blk, Rel blk]))"

definition broken_write_debug2 :: "bstate \<Rightarrow> string \<Rightarrow> write_result" where
  "broken_write_debug2 st ubuf = Inr (1, st, [])"

definition broken_read_proc_debug2 :: "kenv \<Rightarrow> bstate \<Rightarrow> nat \<Rightarrow> int \<times> string" where
  "broken_read_proc_debug2 K st n =
     proc_read_with K (''BROKEN. Read calls: '' @ show_int (read_count st) @ '', Write calls: '' @
       show_int (write_count st) @ nl) n"

section \<open>cw04/debug/oops/3 and cw05/debug/3\<close>

abbreviation mem1 :: kres where "mem1 \<equiv> Mem ''buf1''"
abbreviation mem2 :: kres where "mem2 \<equiv> Mem ''buf2''"

definition two_buffers :: "kenv \<Rightarrow> bool \<times> bool" where
  "two_buffers K = (k_kmalloc K ''buf1'' (int buf_size), k_kmalloc K ''buf2'' (int buf_size))"

definition held_buffers :: "bool \<times> bool \<Rightarrow> kres list" where
  "held_buffers bs = (if fst bs then [mem1] else []) @ (if snd bs then [mem2] else [])"

definition cleared_buffers :: "bstate \<Rightarrow> bstate" where
  "cleared_buffers st = st\<lparr>buf1 := zeros buf_size, buf2 := zeros buf_size\<rparr>"

definition broken_init_oops3 :: "kenv \<Rightarrow> int \<times> bool \<times> bstate \<times> kcall list" where
  "broken_init_oops3 K =
     (case plain_init K of (result, proc_entry, tr) \<Rightarrow>
        if result < 0 then (result, proc_entry, bstate0, tr)
        else let got = held_buffers (two_buffers K) in
        if two_buffers K \<noteq> (True, True) then (- ENOMEM, proc_entry, bstate0, tr @ map Acq got @ map Rel got)
        else (0, proc_entry, cleared_buffers bstate0, tr @ map Acq got))"

definition broken_exit_oops3 :: "bool \<Rightarrow> kcall list" where
  "broken_exit_oops3 proc_entry = plain_exit proc_entry @ [Rel mem1, Rel mem2]"

text \<open>\<open>snprintf\<close> cuts the text to the size of the buffer; the result of the copy is not looked at.\<close>

definition name_read :: "kenv \<Rightarrow> bstate \<Rightarrow> int \<Rightarrow> read_result" where
  "name_read K st f_pos =
     (if \<not> is_cstr (buf1 st) then Inl OutOfBounds
      else let text = take (buf_size - 1) (''Process name: '' @ cstr (buf1 st) @ nl);
               st = st\<lparr>buf2 := blit (buf2 st) 0 (text @ [NUL]), read_count := s32 (read_count st + 1)\<rparr>;
               buf2_count = int (length text); out = copied_out K 0 text in
      if f_pos = 0 then Inr (buf2_count, f_pos + buf2_count, out, st, []) else Inr (0, f_pos, out, st, []))"

definition broken_read_oops3 :: "kenv \<Rightarrow> bstate \<Rightarrow> nat \<Rightarrow> int \<Rightarrow> read_result" where
  "broken_read_oops3 K st n f_pos = name_read K st f_pos"

definition strcpy_to :: "string \<Rightarrow> string \<Rightarrow> fault + string" where
  "strcpy_to b s = (if length s + 1 > length b then Inl OutOfBounds else Inr (blit b 0 (s @ [NUL])))"

definition not_found_text :: "int \<Rightarrow> string" where
  "not_found_text pid = ''The process with PID: '' @ show_int pid @ '' cannot be found''"

text \<open>\<open>find_get_pid\<close> takes a reference that nobody gives back.  The planted version takes the number
  \<open>selected_proc->pid\<close> for the address of a string.\<close>

definition fill_buffer_with_process_name_oops3 :: "kenv \<Rightarrow> string \<Rightarrow> int \<Rightarrow> fault + string \<times> kcall list" where
  "fill_buffer_with_process_name_oops3 K b pid =
     (case k_find_get_pid K (s32 pid) of
        None \<Rightarrow> map_sum id (\<lambda>b. (b, [])) (strcpy_to b (not_found_text pid))
      | Some selected_pid \<Rightarrow>
          (case k_get_pid_task K selected_pid of
             None \<Rightarrow> map_sum id (\<lambda>b. (b, [Acq PidRef])) (strcpy_to b (not_found_text pid))
           | Some selected_proc \<Rightarrow> Inl WildPointer))"

definition broken_write_oops3 :: "kenv \<Rightarrow> bstate \<Rightarrow> string \<Rightarrow> write_result" where
  "broken_write_oops3 K st ubuf =
     (let copy_size = (if length ubuf > buf_size then buf_size - 1 else length ubuf);
          b = blit (buf1 st) 0 (copied_in K ubuf 0 copy_size) in
      if copy_size \<ge> buf_size then Inl OutOfBounds
      else let b = b[copy_size := NUL]; pid = k_strtol K (cstr b) in
      if copy_size + 8 > buf_size then Inl OutOfBounds
      else let b = blit b copy_size (map (k_junk K) [0..<8]); \<comment> \<open>the end pointer is stored in the buffer\<close>
               done' = (\<lambda>b tr. Inr (int copy_size, st\<lparr>buf1 := b, write_count := s32 (write_count st + 1)\<rparr>, tr)) in
      if pid < 1 then done' b []
      else (case fill_buffer_with_process_name_oops3 K b pid of Inl e \<Rightarrow> Inl e | Inr (b, tr) \<Rightarrow> done' b tr))"

definition broken_read_proc_oops3 :: "kenv \<Rightarrow> bstate \<Rightarrow> nat \<Rightarrow> int \<times> string" where
  "broken_read_proc_oops3 K st n =
     proc_read_with K (''BROKEN. Reads: '' @ show_int (read_count st) @ '', Writes: '' @ show_int (write_count st) @ nl) n"

definition broken_exit_debug3 :: "bool \<Rightarrow> bool \<times> bool \<Rightarrow> kcall list" where
  "broken_exit_debug3 proc_entry bs = plain_exit proc_entry @ map Rel (held_buffers bs)"

definition broken_init_debug3 :: "kenv \<Rightarrow> int \<times> bool \<times> bstate \<times> kcall list" where
  "broken_init_debug3 K =
     (case plain_init K of (result, proc_entry, tr) \<Rightarrow>
        if result < 0 then (result, proc_entry, bstate0, tr)
        else let got = map Acq (held_buffers (two_buffers K)) in
        if two_buffers K \<noteq> (True, True)
        then (- ENOMEM, proc_entry, bstate0, tr @ got @ broken_exit_debug3 proc_entry (two_buffers K))
        else (0, proc_entry, cleared_buffers bstate0, tr @ got))"

definition broken_read_debug3 :: "kenv \<Rightarrow> bstate \<Rightarrow> nat \<Rightarrow> int \<Rightarrow> read_result" where
  "broken_read_debug3 K st n f_pos = name_read K st f_pos"

definition fill_buffer_with_process_name_debug3 :: "kenv \<Rightarrow> string \<Rightarrow> int \<Rightarrow> fault + string \<times> kcall list" where
  "fill_buffer_with_process_name_debug3 K b pid =
     (case k_find_get_pid K (s32 pid) of
        None \<Rightarrow> map_sum id (\<lambda>b. (b, [])) (strcpy_to b (not_found_text pid))
      | Some selected_pid \<Rightarrow>
          map_sum id (\<lambda>b. (b, [Acq PidRef]))
            (strcpy_to b (case k_get_pid_task K selected_pid of
               None \<Rightarrow> not_found_text pid | Some selected_proc \<Rightarrow> k_comm K selected_proc)))"

definition broken_write_debug3 :: "kenv \<Rightarrow> bstate \<Rightarrow> string \<Rightarrow> write_result" where
  "broken_write_debug3 K st ubuf =
     (let copy_size = (if length ubuf > buf_size then buf_size - 1 else length ubuf);
          b = blit (buf1 st) 0 (copied_in K ubuf 0 copy_size) in
      if copy_size \<ge> buf_size then Inl OutOfBounds
      else let b = b[copy_size := NUL]; pid = k_strtol K (cstr b);
               done' = (\<lambda>b tr. Inr (int copy_size, st\<lparr>buf1 := b, write_count := s32 (write_count st + 1)\<rparr>, tr)) in
      if pid < 1 then done' b []
      else (case fill_buffer_with_process_name_debug3 K b pid of Inl e \<Rightarrow> Inl e | Inr (b, tr) \<Rightarrow> done' b tr))"

definition broken_read_proc_debug3 :: "kenv \<Rightarrow> bstate \<Rightarrow> nat \<Rightarrow> int \<times> string" where
  "broken_read_proc_debug3 K st n =
     proc_read_with K (''BROKEN. Read calls: '' @ show_int (read_count st) @ '', Write calls: '' @
       show_int (write_count st) @ nl) n"

section \<open>cw04/debug/oops/4 and cw05/debug/4\<close>

definition fill_buffer_oops4 :: "nat \<Rightarrow> bstate \<Rightarrow> fault + string" where
  "fill_buffer_oops4 cap st = sprintf_into cap (digits_line (numbers_count st))"

text \<open>The walk over the text: the pointer moves before the character is looked at, so the first character is
  never counted; without a zero byte it leaves the array.\<close>

fun count_from :: "string \<Rightarrow> int \<Rightarrow> fault + int" where
  "count_from [] k = Inl OutOfBounds"
| "count_from [c] k = (if c = NUL then Inr k else Inl OutOfBounds)"
| "count_from (c # d # s) k = (if c = NUL then Inr k else count_from (d # s) (if isdigit d then s32 (k + 1) else k))"

text \<open>In the planted version the pointer starts at 0, whatever the argument.\<close>

definition count_numbers_oops4 :: "string \<Rightarrow> fault + int" where
  "count_numbers_oops4 str = Inl NullDeref"

definition count_numbers_debug4 :: "string \<Rightarrow> fault + int" where
  "count_numbers_debug4 str = count_from str 0"

definition broken_init_oops4 :: "kenv \<Rightarrow> int \<times> bool \<times> kcall list" where
  "broken_init_oops4 K = plain_init K"

definition broken_exit_oops4 :: "bool \<Rightarrow> kcall list" where
  "broken_exit_oops4 proc_entry = plain_exit proc_entry"

definition broken_read_oops4 :: "kenv \<Rightarrow> bstate \<Rightarrow> nat \<Rightarrow> int \<Rightarrow> read_result" where
  "broken_read_oops4 K st n f_pos =
     (if \<not> k_kmalloc K ''mybuf'' 100 then Inr (- ENOMEM, f_pos, [], st, [])
      else (case fill_buffer_oops4 100 st of
          Inl e \<Rightarrow> Inl e
        | Inr mybuf \<Rightarrow> send_once K st f_pos mybuf [Acq blk, Rel blk]))"

text \<open>The block that is allocated is dropped and \<open>mybuf\<close> stays NULL.\<close>

definition broken_write_oops4 :: "kenv \<Rightarrow> bstate \<Rightarrow> string \<Rightarrow> write_result" where
  "broken_write_oops4 K st ubuf =
     (let mybuf = None :: string option; real_count = min (s32 (int (length ubuf))) 100 in
      (case mybuf of
         None \<Rightarrow> Inl NullDeref
       | Some b \<Rightarrow>
           let b = blit b 0 (copied_in K ubuf 0 (nat real_count)); err = k_copy_from_user K 0 (nat real_count) in
           if length b \<le> 100 then Inl OutOfBounds
           else let b = b[100 := NUL]; st' = st\<lparr>write_count := s32 (write_count st + 1)\<rparr> in
           if err = 0 \<and> real_count > 0
           then (case count_numbers_oops4 b of
               Inl e \<Rightarrow> Inl e
             | Inr k \<Rightarrow> Inr (real_count, st'\<lparr>numbers_count := k\<rparr>, [Rel blk]))
           else Inr (real_count, st', [Rel blk])))"

definition broken_read_proc_oops4 :: "kenv \<Rightarrow> bstate \<Rightarrow> nat \<Rightarrow> int \<times> string" where
  "broken_read_proc_oops4 K st n =
     proc_read_with K (''BROKEN. Reads: '' @ show_int (read_count st) @ '', Writes: '' @ show_int (write_count st) @ nl) n"

definition fill_buffer_debug4 :: "nat \<Rightarrow> bstate \<Rightarrow> fault + string" where
  "fill_buffer_debug4 cap st = sprintf_into cap (digits_line (numbers_count st))"

definition broken_init_debug4 :: "kenv \<Rightarrow> int \<times> bool \<times> kcall list" where
  "broken_init_debug4 K = plain_init K"

definition broken_exit_debug4 :: "bool \<Rightarrow> kcall list" where
  "broken_exit_debug4 proc_entry = plain_exit proc_entry"

definition broken_read_debug4 :: "kenv \<Rightarrow> bool \<Rightarrow> bstate \<Rightarrow> nat \<Rightarrow> int \<Rightarrow> read_result" where
  "broken_read_debug4 K proc_entry st n f_pos =
     (if \<not> k_kmalloc K ''mybuf'' 100 then Inr (- ENOMEM, f_pos, [], st, broken_exit_debug4 proc_entry)
      else (case fill_buffer_debug4 100 st of
          Inl e \<Rightarrow> Inl e
        | Inr mybuf \<Rightarrow> send_once K st f_pos mybuf [Acq blk, Rel blk]))"

text \<open>The block has 102 bytes; \<open>mybuf[real_count]\<close> is never set.\<close>

definition broken_write_debug4 :: "kenv \<Rightarrow> bstate \<Rightarrow> string \<Rightarrow> write_result" where
  "broken_write_debug4 K st ubuf =
     (let real_count = min (s32 (int (length ubuf))) 100 in
      if \<not> k_kmalloc K ''mybuf'' 102 then Inl NullDeref
      else let m = nat real_count; mybuf = blit (map (k_junk K) [0..<102]) 0 (copied_in K ubuf 0 m);
               err = k_copy_from_user K 0 m; mybuf = mybuf[m + 1 := NUL];
               st' = st\<lparr>write_count := s32 (write_count st + 1)\<rparr> in
      if err = 0 \<and> real_count > 0
      then (case count_numbers_debug4 mybuf of
          Inl e \<Rightarrow> Inl e
        | Inr k \<Rightarrow> Inr (real_count, st'\<lparr>numbers_count := k\<rparr>, [Acq blk, Rel blk]))
      else Inr (real_count, st', [Acq blk, Rel blk]))"

definition broken_read_proc_debug4 :: "kenv \<Rightarrow> bstate \<Rightarrow> nat \<Rightarrow> int \<times> string" where
  "broken_read_proc_debug4 K st n =
     proc_read_with K (''BROKEN. Read calls: '' @ show_int (read_count st) @ '', Write calls: '' @
       show_int (write_count st) @ nl) n"

section \<open>Lemmas\<close>

lemma size_line_100: "length (size_line 100) = 35" "size_line 100 \<noteq> []"
  by code_simp+

lemma size_line_fits: "sprintf_into 100 (size_line 100) = Inr (size_line 100)"
  by (simp add: sprintf_into_def size_line_100)

text \<open>The bytes a caller of \<open>read\<close> takes notice of: as many as the result says.\<close>

definition seen :: "read_result \<Rightarrow> int \<Rightarrow> int \<times> int \<times> string" where
  "seen x pos = (case x of Inl _ \<Rightarrow> (- EFAULT, pos, []) | Inr (r, pos', out, _, _) \<Rightarrow> (r, pos', take (nat r) out))"

lemma send_once_seen:
  "seen (send_once (copying K) st pos text tr) pos =
    (if pos = 0 then (int (length text), pos + int (length text), text) else (0, pos, []))"
  by (simp add: seen_def send_once_def Let_def copied_out_all)

lemma read_debug1_seen:
  "k_kmalloc K ''mybuf'' 100 \<Longrightarrow> seen (broken_read_debug1 (copying K) pe st n pos) pos =
    (if pos = 0 then (35, 35, size_line 100) else (0, pos, []))"
  by (simp add: broken_read_debug1_def fill_buffer_debug1_def size_line_fits send_once_seen size_line_100)

lemma read_debug2_seen:
  "k_kmalloc K ''mybuf'' 100 \<Longrightarrow> seen (broken_read_debug2 (copying K) pe st n pos) pos =
    (if pos = 0 then (35, 35, size_line 100) else (0, pos, []))"
  by (simp add: broken_read_debug2_def fill_buffer_debug2_def size_line_fits send_once_seen size_line_100)

interpretation debug1: whole_reader "\<lambda>(K, pe, st) n pos. seen (broken_read_debug1 (copying K) pe st n pos) pos"
    "\<lambda>_. size_line 100" "\<lambda>_. 1" "\<lambda>(K, pe, st). k_kmalloc K ''mybuf'' 100"
  by unfold_locales (auto simp: read_debug1_seen size_line_100)

interpretation debug2: whole_reader "\<lambda>(K, pe, st) n pos. seen (broken_read_debug2 (copying K) pe st n pos) pos"
    "\<lambda>_. size_line 100" "\<lambda>_. 1" "\<lambda>(K, pe, st). k_kmalloc K ''mybuf'' 100"
  by unfold_locales (auto simp: read_debug2_seen size_line_100)

lemma count_from_digits:
  "is_cstr s \<Longrightarrow> 0 \<le> k \<Longrightarrow> k + int (length s) < 2147483648 \<Longrightarrow>
   count_from s k = Inr (k + int (length (filter isdigit (tl (cstr s)))))"
proof (induction s k rule: count_from.induct)
  case (1 k)
  then show ?case by (simp add: is_cstr_def)
next
  case (2 c k)
  then show ?case by (simp add: is_cstr_def cstr_def)
next
  case (3 c d s k)
  show ?case
  proof (cases "c = NUL")
    case True
    then show ?thesis by (simp add: cstr_def)
  next
    case False
    then have c: "is_cstr (d # s)" using "3.prems"(1) by (auto simp: is_cstr_def)
    have nd: "\<not> isdigit NUL" using digit_not_NUL by blast
    have k: "s32 (k + 1) = k + 1" using "3.prems" by (intro s32_id) simp_all
    have "cstr (c # d # s) = c # cstr (d # s)" using False by (simp add: cstr_def)
    moreover have "filter isdigit (cstr (d # s)) = (if isdigit d then [d] else []) @ filter isdigit (tl (cstr (d # s)))"
      using nd by (auto simp: cstr_def)
    ultimately show ?thesis using False "3.IH" [OF False c] "3.prems" k by (simp add: add.assoc)
  qed
qed

lemma blit_front: "length s \<le> length a \<Longrightarrow> blit a 0 s = s @ drop (length s) a"
  by (simp add: blit_def)

lemma take_list_update_eq: "m < length a \<Longrightarrow> a[m := v] = take m a @ v # drop (Suc m) a"
  by (rule upd_conv_take_nth_drop)

section \<open>Properties\<close>

text \<open>The planted faults strike on every call: reading \<open>oops/1\<close> frees the user's buffer and reading \<open>oops/2\<close> prints through
  NULL unless there is no memory at all, every write to \<open>oops/4\<close> stores through NULL, every read
  of \<open>broken_example\<close> does, and a write to \<open>oops/3\<close> that names a running process follows a wild
  pointer.\<close>

theorem oops_faults:
  "broken_read_oops1 K st n pos = (if k_kmalloc K ''mybuf'' 100 then Inl BadFree else Inr (- ENOMEM, pos, [], st, []))
   \<and> broken_read_oops2 K st n pos = (if k_kmalloc K ''mybuf'' 100 then Inl NullDeref else Inr (- ENOMEM, pos, [], st, []))
   \<and> broken_write_oops4 K st ubuf = Inl NullDeref
   \<and> broken_read_example = Inl NullDeref
   \<and> (k_find_get_pid K (s32 pid) = Some pp \<and> k_get_pid_task K pp = Some t \<longrightarrow>
       fill_buffer_with_process_name_oops3 K b pid = Inl WildPointer)"
  by (simp add: broken_read_oops1_def fill_buffer_oops1_def size_line_fits broken_read_oops2_def
      fill_buffer_oops2_def broken_write_oops4_def broken_read_example_def fill_buffer_with_process_name_oops3_def)

theorem oops_faults_witness:
  "broken_read_oops1 kenv0 bstate0 9 0 = Inl BadFree \<and> fill_buffer_with_process_name_oops3 kenv0 [] 1 = Inl WildPointer"
  using oops_faults [of kenv0 bstate0 9 0 "[]" 1 "nat (s32 1)" "nat (s32 1)" "[]"] by simp

text \<open>The debugged modules 1 and 2: with memory available a reader with any buffer size gets the line
  with the buffer's size once and then end of file; the read writes the whole line even into a
  shorter buffer.\<close>

theorem debug_read_line:
  assumes "k_kmalloc K ''mybuf'' 100"
  shows "cat (\<lambda>n pos. seen (broken_read_debug1 (copying K) pe st n pos) pos) bsize 2 0 = size_line 100
    \<and> cat (\<lambda>n pos. seen (broken_read_debug2 (copying K) pe st n pos) pos) bsize 2 0 = size_line 100
    \<and> (read_contract len 0 (seen (broken_read_debug1 (copying K) pe st len 0) 0) \<longleftrightarrow> 35 \<le> len)"
  using debug1.cat_whole [of "(K, pe, st)" bsize 0] debug2.cat_whole [of "(K, pe, st)" bsize 0]
    debug1.contract_iff [of "(K, pe, st)" 0 len] assms
  by (simp add: size_line_100 numeral_2_eq_2)

theorem debug_read_line_witness:
  "cat (\<lambda>n pos. seen (broken_read_debug1 (copying kenv0) True bstate0 n pos) pos) 4096 2 0 = size_line 100"
  using debug_read_line [of kenv0 True bstate0 4096] by simp

definition session_debug1 :: "kenv \<Rightarrow> bstate \<Rightarrow> nat \<Rightarrow> kcall list" where
  "session_debug1 K st reads =
     (case broken_init_debug1 K of (r, pe, tr) \<Rightarrow>
        if r < 0 then tr
        else tr @ concat (replicate reads (case broken_read_debug1 K pe st 100 0 of
               Inl _ \<Rightarrow> [] | Inr (_, _, _, _, tr') \<Rightarrow> tr')) @ broken_exit_debug1 pe)"

lemma read_debug1_calls:
  "(case broken_read_debug1 K pe st n pos of Inl _ \<Rightarrow> [] | Inr (_, _, _, _, tr) \<Rightarrow> tr) =
    (if k_kmalloc K ''mybuf'' 100 then [Acq blk, Rel blk] else plain_exit pe)"
  by (simp add: broken_read_debug1_def fill_buffer_debug1_def size_line_fits send_once_def broken_exit_debug1_def Let_def)

lemma run_calls_blk: "run_calls h (concat (replicate n [Acq blk, Rel blk]) @ cs) = run_calls h cs"
  by (induction n) simp_all

text \<open>A session of the debugged module 1 (load, any number of reads, unload) is balanced if the reads find memory;
  a single read that does not find it runs the module's exit function, and unloading then unregisters a
  device that is gone.\<close>

theorem debug1_session:
  assumes "0 \<le> k_register_chrdev K broken_major ''broken''"
  shows "balanced (session_debug1 K st reads) \<longleftrightarrow> k_kmalloc K ''mybuf'' 100 \<or> reads = 0"
proof -
  obtain pe tr where i: "broken_init_debug1 K = (0, pe, tr)" "run_calls [] tr =
      Some (Chrdev broken_major ''broken'' # (if pe then [ProcEntry ''broken''] else []))"
    using assms by (auto simp: broken_init_debug1_def plain_init_def Let_def)
  show ?thesis
  proof (cases "k_kmalloc K ''mybuf'' 100")
    case True
    then show ?thesis
      using i by (simp add: session_debug1_def read_debug1_calls balanced_def run_calls_append_Some run_calls_blk
          broken_exit_debug1_def plain_exit_def)
  next
    case False
    have "run_calls [] (concat (replicate m (plain_exit pe)) @ plain_exit pe) = None" for m
      by (cases m) (simp_all add: plain_exit_def)
    then have "run_calls (Chrdev broken_major ''broken'' # (if pe then [ProcEntry ''broken''] else []))
        (concat (replicate (Suc m) (plain_exit pe)) @ plain_exit pe) = None" for m
      by (cases pe) (simp_all add: plain_exit_def)
    with False show ?thesis
      using i by (cases reads) (simp_all add: session_debug1_def read_debug1_calls balanced_def run_calls_append_Some
          broken_exit_debug1_def plain_exit_def)
  qed
qed

theorem debug1_session_witness: "balanced (session_debug1 kenv0 bstate0 3)"
  using debug1_session [of kenv0 bstate0 3] by simp

section \<open>The process name\<close>

lemma show_int_length: "\<bar>n\<bar> < 10 ^ k \<Longrightarrow> 0 < k \<Longrightarrow> length (show_int n) \<le> Suc k"
proof -
  assume "\<bar>n\<bar> < 10 ^ k" "0 < k"
  then have "length (show_nat (nat \<bar>n\<bar>)) \<le> k"
    by (intro show_nat_length) (simp_all add: nat_less_iff)
  then show ?thesis by (auto simp: show_int_def)
qed

lemma strcpy_ok: "length s < length b \<Longrightarrow> strcpy_to b s = Inr (s @ NUL # drop (Suc (length s)) b)"
  by (simp add: strcpy_to_def blit_def)

text \<open>Documented behaviour of the kernel: a \<open>comm\<close> is a string of less than 16 characters, and numbers
  fit a \<open>long\<close>.\<close>

definition names_ok :: "kenv \<Rightarrow> bool" where
  "names_ok K \<longleftrightarrow> (\<forall>t. length (k_comm K t) < 16 \<and> NUL \<notin> set (k_comm K t))
     \<and> (\<forall>s. \<bar>k_strtol K s\<bar> < 10 ^ 19)"

definition name_for :: "kenv \<Rightarrow> int \<Rightarrow> string" where
  "name_for K pid = (case Option.bind (k_find_get_pid K (s32 pid)) (k_get_pid_task K) of
     None \<Rightarrow> not_found_text pid | Some t \<Rightarrow> k_comm K t)"

lemma name_for_ok:
  assumes "names_ok K" "\<bar>pid\<bar> < 10 ^ 19"
  shows "length (name_for K pid) < 100" "NUL \<notin> set (name_for K pid)"
proof -
  have l: "length (show_int pid) \<le> 20" using show_int_length [OF assms(2)] by simp
  have n: "NUL \<notin> set (show_int pid)" using show_nat_no_nul by (auto simp: show_int_def NUL_def)
  have c: "length (k_comm K t) < 16" "NUL \<notin> set (k_comm K t)" for t using assms(1) by (simp_all add: names_ok_def)
  have c': "length (k_comm K t) < 100" for t using c(1) [of t] by simp
  have "length (not_found_text pid) < 100" using l by (simp add: not_found_text_def)
  then show "length (name_for K pid) < 100" using c' by (simp add: name_for_def split: option.split)
  have "NUL \<notin> set (not_found_text pid)" using n by (auto simp: not_found_text_def NUL_def)
  then show "NUL \<notin> set (name_for K pid)" using c by (simp add: name_for_def split: option.split)
qed

lemma fill_debug3:
  assumes "names_ok K" "\<bar>pid\<bar> < 10 ^ 19" "100 \<le> length b"
  shows "fill_buffer_with_process_name_debug3 K b pid =
    Inr (name_for K pid @ NUL # drop (Suc (length (name_for K pid))) b,
      if k_find_get_pid K (s32 pid) = None then [] else [Acq PidRef])"
proof -
  have l: "length (name_for K pid) < length b" using name_for_ok(1) [OF assms(1,2)] assms(3) by simp
  show ?thesis
  proof (cases "k_find_get_pid K (s32 pid)")
    case None
    then show ?thesis using strcpy_ok [OF l] by (simp add: fill_buffer_with_process_name_debug3_def name_for_def)
  next
    case (Some p)
    then show ?thesis using strcpy_ok [OF l]
      by (cases "k_get_pid_task K p") (simp_all add: fill_buffer_with_process_name_debug3_def name_for_def)
  qed
qed

text \<open>The debugged module 3: a write of fewer than 2048 bytes whose number is positive stores the name of that process
  (or a message that it cannot be found), reports the whole write, and the next read from the start
  gives that name; the reference to the process id that \<open>find_get_pid\<close> took is never given back.  A
  write of exactly 2048 bytes stores one byte behind the buffer.\<close>

theorem debug3_write_read:
  assumes "names_ok K" "length (buf1 st) = buf_size" "length (buf2 st) = buf_size"
    and "length ubuf \<le> buf_size" "k_copy_from_user K 0 (length ubuf) = 0" "1 \<le> k_strtol K (cstr (ubuf @ [NUL]))"
  shows "if length ubuf = buf_size then broken_write_debug3 K st ubuf = Inl OutOfBounds
    else \<exists>st' tr. broken_write_debug3 K st ubuf = Inr (int (length ubuf), st', tr)
      \<and> (let name = name_for K (k_strtol K (cstr (ubuf @ [NUL]))) in
         seen (broken_read_debug3 (copying K) st' n 0) 0 =
           (int (length name) + 15, int (length name) + 15, ''Process name: '' @ name @ nl))
      \<and> tr = (if k_find_get_pid K (s32 (k_strtol K (cstr (ubuf @ [NUL])))) = None then [] else [Acq PidRef])"
proof (cases "length ubuf = buf_size")
  case True
  then show ?thesis by (simp add: broken_write_debug3_def Let_def)
next
  case False
  then have l: "length ubuf < buf_size" using assms(4) by simp
  let ?b = "(blit (buf1 st) 0 ubuf)[length ubuf := NUL]" and ?pid = "k_strtol K (cstr (ubuf @ [NUL]))"
  have b: "?b = ubuf @ NUL # drop (Suc (length ubuf)) (buf1 st)"
    using l assms(2) by (simp add: blit_def upd_conv_take_nth_drop Cons_nth_drop_Suc [symmetric])
  have c: "cstr ?b = cstr (ubuf @ [NUL])" unfolding b by (rule cstr_nul_rest)
  have pid: "\<bar>?pid\<bar> < 10 ^ 19" using assms(1) by (simp add: names_ok_def)
  have lb: "100 \<le> length ?b" using assms(2) l by (simp add: buf_size_def)
  note f = fill_debug3 [OF assms(1) pid lb]
  let ?n = "name_for K ?pid"
  have w: "broken_write_debug3 K st ubuf = Inr (int (length ubuf),
      st\<lparr>buf1 := ?n @ NUL # drop (Suc (length ?n)) ?b, write_count := s32 (write_count st + 1)\<rparr>,
      if k_find_get_pid K (s32 ?pid) = None then [] else [Acq PidRef])"
    using l assms(5,6) f by (simp add: broken_write_debug3_def Let_def copied_in_all c)
  have nm: "length ?n < 100" "NUL \<notin> set ?n" using name_for_ok [OF assms(1) pid] by simp_all
  then have "take (buf_size - 1) (''Process name: '' @ ?n @ nl) = ''Process name: '' @ ?n @ nl"
    by (simp add: buf_size_def)
  with nm(2) have "seen (broken_read_debug3 (copying K)
      (st\<lparr>buf1 := ?n @ NUL # drop (Suc (length ?n)) ?b, write_count := s32 (write_count st + 1)\<rparr>) n 0) 0 =
    (int (length ?n) + 15, int (length ?n) + 15, ''Process name: '' @ ?n @ nl)"
    by (simp add: broken_read_debug3_def name_read_def seen_def cstr_append_nul is_cstr_def copied_out_all Let_def)
  with w False show ?thesis by (simp add: Let_def)
qed

theorem debug3_write_read_witness:
  "\<exists>st' tr. broken_write_debug3 kenv0 (cleared_buffers bstate0) ''1'' = Inr (1, st', tr) \<and> tr = [Acq PidRef] \<and>
     seen (broken_read_debug3 (copying kenv0) st' 9 0) 0 = (19, 19, ''Process name: init'' @ nl)"
proof -
  define K where "K = kenv0\<lparr>k_strtol := (\<lambda>_. 1)\<rparr>"
  have K: "names_ok K" "k_strtol K s = 1" "k_find_get_pid K p = Some (nat p)" "k_get_pid_task K = Some"
    "k_comm K t = ''init''" for s p t by (simp_all add: K_def names_ok_def NUL_def)
  have w: "name_for K 1 = ''init''" by (simp add: name_for_def K)
  have "broken_write_debug3 kenv0 (cleared_buffers bstate0) ''1'' = broken_write_debug3 K (cleared_buffers bstate0) ''1''"
  proof -
    have "k_strtol kenv0 (cstr (''1'' @ NUL # r)) = 1" for r
      by (simp add: kenv0_def cstr_def NUL_def isdigit_def read_nat_def digit_val_def)
    moreover have "(blit (zeros buf_size) 0 ''1'')[1 := NUL] = ''1'' @ NUL # zeros (buf_size - 2)"
      by (simp add: blit_def zeros_def buf_size_def upd_conv_take_nth_drop numeral_2_eq_2 numeral_eq_Suc
          replicate_Suc [symmetric] del: replicate_Suc)
    ultimately show ?thesis
      by (simp add: broken_write_debug3_def K_def cleared_buffers_def copied_in_all Let_def
          fill_buffer_with_process_name_debug3_def)
  qed
  moreover have "seen (broken_read_debug3 (copying kenv0) st' 9 0) 0 = seen (broken_read_debug3 (copying K) st' 9 0) 0" for st'
    by (simp add: broken_read_debug3_def name_read_def seen_def copied_out_def Let_def)
  moreover have "length (buf1 (cleared_buffers bstate0)) = buf_size" "length (buf2 (cleared_buffers bstate0)) = buf_size"
    by (simp_all add: cleared_buffers_def)
  ultimately show ?thesis
    using debug3_write_read [OF K(1), of "cleared_buffers bstate0" "''1''" 9]
    by (simp add: K w K_def [symmetric] buf_size_def) (simp add: K_def)
qed

section \<open>The digits\<close>

text \<open>The debugged module 4: after a write for which the kernel calls succeed, \<open>numbers_count\<close> is the number of
  digits among the characters before the first zero byte of the first 100 ones \<open>and\<close> the one byte behind
  them that was never set, leaving out the first character.\<close>

theorem debug4_counts:
  assumes "k_kmalloc K ''mybuf'' 102" "\<And>n. k_copy_from_user K 0 n = 0" "0 < length ubuf" "length ubuf < 2147483648"
  shows "broken_write_debug4 K st ubuf = Inr (int (min (length ubuf) 100),
    st\<lparr>write_count := s32 (write_count st + 1),
       numbers_count := int (length (filter isdigit
         (tl (cstr (take 100 ubuf @ [k_junk K (min (length ubuf) 100), NUL])))))\<rparr>, [Acq blk, Rel blk])"
proof -
  let ?m = "min (length ubuf) 100" and ?j = "k_junk K (min (length ubuf) 100)"
  have r: "min (s32 (int (length ubuf))) 100 = int ?m" using assms(4) by (simp add: s32_id)
  have c: "copied_in K ubuf 0 ?m = take 100 ubuf" using assms(2) by (simp add: copied_in_all min_def)
  have lt: "length (take 100 ubuf) = ?m" by simp
  let ?junk = "map (k_junk K) [0..<102]"
  have b: "(blit ?junk 0 (take 100 ubuf))[Suc ?m := NUL] = (take 100 ubuf @ [?j]) @ NUL # drop (Suc (Suc ?m)) ?junk"
  proof -
    have "drop ?m ?junk = ?j # ?junk ! Suc ?m # drop (Suc (Suc ?m)) ?junk"
      by (simp add: Cons_nth_drop_Suc [symmetric])
    then have "blit ?junk 0 (take 100 ubuf) = take 100 ubuf @ ?j # ?junk ! Suc ?m # drop (Suc (Suc ?m)) ?junk"
      unfolding blit_def lt by simp
    then have e: "blit ?junk 0 (take 100 ubuf) = (take 100 ubuf @ [?j]) @ ?junk ! Suc ?m # drop (Suc (Suc ?m)) ?junk"
      by simp
    have m: "Suc ?m = length (take 100 ubuf @ [?j])" by simp
    show ?thesis unfolding e unfolding m by (rule list_update_length)
  qed
  have isn: "is_cstr ((take 100 ubuf @ [?j]) @ NUL # drop (Suc (Suc ?m)) ?junk)" by (simp add: is_cstr_def)
  have "count_numbers_debug4 ((take 100 ubuf @ [?j]) @ NUL # drop (Suc (Suc ?m)) ?junk) =
      Inr (int (length (filter isdigit (tl (cstr ((take 100 ubuf @ [?j]) @ [NUL]))))))"
    using count_from_digits [OF isn, of 0, unfolded cstr_nul_rest [of "take 100 ubuf @ [?j]" "drop (Suc (Suc ?m)) ?junk"]]
    by (simp add: count_numbers_debug4_def del: upt_rec_numeral)
  then show ?thesis
    using assms(1-3) by (simp add: broken_write_debug4_def Let_def r c b del: upt_rec_numeral)
qed

theorem debug4_counts_witness:
  "broken_write_debug4 kenv0 bstate0 ''12a3'' = Inr (4, bstate0\<lparr>write_count := 1, numbers_count := 2\<rparr>, [Acq blk, Rel blk])"
proof -
  have "cstr (''12a3'' @ [CHR 0x5A, NUL]) = ''12a3'' @ [CHR 0x5A]" by (simp add: cstr_def NUL_def)
  then show ?thesis using debug4_counts [of kenv0 "''12a3''" bstate0]
    by (simp add: isdigit_def s32_id bstate0_def)
qed

end
