(* ===== verification/Syscalls07.thy ===== *)
theory Syscalls07 imports KernelApi begin

text \<open>
  The system calls under \<open>cw07/syscalls/mysyscalls\<close> and the module \<open>cw04/hello/hello.c\<close>.  The process
  list that \<open>for_each_process\<close> walks is a list of \<open>proc\<close>; the hash table of \<open>topuser\<close> and
  \<open>timeuser\<close> is its 256 buckets, with the kernel's hash function \<open>h\<close> as a parameter.  The
  loops of those two files are the same text up to how an entry is counted (\<open>data++\<close> on an \<open>int\<close>, \<open>data += utime\<close> on a
  \<open>u64\<close>), which are the arguments \<open>bump\<close> and \<open>first\<close>; the locale \<open>user_tally\<close> states what
  they must do and is interpreted on both.  Shown: which user the two calls return whatever the hash function,
  that the table is freed by a loop which reads each entry after it is freed, what \<open>kernelps\<close> leaves in the user's arrays, and what the others leak.
\<close>

record proc =
  p_uid :: int
  p_utime :: int
  p_comm :: string

section \<open>topuser and timeuser\<close>

record uid_data =
  ud_uid :: int
  ud_data :: int

type_synonym hashtab = "uid_data list list"

definition proc_user_tab0 :: hashtab where
  "proc_user_tab0 = replicate 256 []"

definition bucket_of :: "(int \<Rightarrow> nat) \<Rightarrow> int \<Rightarrow> nat" where
  "bucket_of h key = h key mod 256"

text \<open>The running maximum \<open>max_cnt\<close> with its \<open>max_uid\<close>.\<close>

definition raise_max :: "int \<times> int \<Rightarrow> uid_data \<Rightarrow> int \<times> int" where
  "raise_max mx e = (if fst mx < ud_data e then (ud_data e, ud_uid e) else mx)"

text \<open>The loop \<open>hash_for_each_possible\<close>: every entry of the bucket with the process's user is counted up.\<close>

fun possible_loop ::
  "(int \<Rightarrow> int) \<Rightarrow> int \<Rightarrow> uid_data list \<Rightarrow> bool \<Rightarrow> int \<times> int \<Rightarrow> uid_data list \<times> bool \<times> int \<times> int" where
  "possible_loop bump key [] added mx = ([], added, mx)"
| "possible_loop bump key (e # es) added mx =
     (if key = ud_uid e
      then let e' = e\<lparr>ud_data := bump (ud_data e)\<rparr> in
        (case possible_loop bump key es True (raise_max mx e') of (es', r) \<Rightarrow> (e' # es', r))
      else (case possible_loop bump key es added mx of (es', r) \<Rightarrow> (e # es', r)))"

text \<open>One process.  The allocation for the \<open>it\<close>th process is a call of its own; its result is not looked at.\<close>

definition tally_step ::
  "(int \<Rightarrow> int) \<Rightarrow> int \<Rightarrow> int \<Rightarrow> (int \<Rightarrow> nat) \<Rightarrow> kenv \<Rightarrow> nat \<Rightarrow> int \<Rightarrow> hashtab \<Rightarrow> int \<times> int \<Rightarrow>
   fault + hashtab \<times> (int \<times> int) \<times> kcall list" where
  "tally_step bump first sz h K it uid tab mx =
     (let b = bucket_of h uid in
      case possible_loop bump uid (tab ! b) False mx of (es, added, mx') \<Rightarrow>
        let tab' = tab[b := es] in
        if added then Inr (tab', mx', [])
        else if \<not> k_kmalloc K (''uid_data '' @ show_nat it) sz then Inl NullDeref
        else let tmp = \<lparr>ud_uid = uid, ud_data = first\<rparr> in
          Inr (tab'[b := tmp # tab' ! b], raise_max mx' tmp, [Acq (Mem ''uid_data'')]))"

fun tally_loop ::
  "(proc \<Rightarrow> int \<Rightarrow> int) \<Rightarrow> (proc \<Rightarrow> int) \<Rightarrow> int \<Rightarrow> (int \<Rightarrow> nat) \<Rightarrow> kenv \<Rightarrow> nat \<Rightarrow> proc list \<Rightarrow> hashtab \<Rightarrow> int \<times> int \<Rightarrow>
   fault + hashtab \<times> (int \<times> int) \<times> kcall list" where
  "tally_loop bump first sz h K it [] tab mx = Inr (tab, mx, [])"
| "tally_loop bump first sz h K it (p # ps) tab mx =
     (case tally_step (bump p) (first p) sz h K it (p_uid p) tab mx of
        Inl e \<Rightarrow> Inl e
      | Inr (tab', mx', tr) \<Rightarrow>
          (case tally_loop bump first sz h K (Suc it) ps tab' mx' of
             Inl e \<Rightarrow> Inl e
           | Inr (tab'', mx'', tr') \<Rightarrow> Inr (tab'', mx'', tr @ tr')))"

text \<open>The loop \<open>hash_for_each\<close> that frees the entries.  It is not the safe variant: after each \<open>kfree\<close> it reads \<open>hash_list.next\<close> of the entry
  that was freed.  Whether the memory of the \<open>i\<close>-th one still holds that pointer is a parameter, \<open>intact i\<close>; when it does not, the loop goes on
  with something else.\<close>

fun free_entries :: "(nat \<Rightarrow> bool) \<Rightarrow> nat \<Rightarrow> uid_data list \<Rightarrow> fault + kcall list" where
  "free_entries intact i [] = Inr []"
| "free_entries intact i (e # es) =
     (if \<not> intact i then Inl UseAfterFree
      else case free_entries intact (Suc i) es of Inl f \<Rightarrow> Inl f | Inr tr \<Rightarrow> Inr (Rel (Mem ''uid_data'') # tr))"

definition free_table :: "(nat \<Rightarrow> bool) \<Rightarrow> hashtab \<Rightarrow> fault + kcall list" where
  "free_table intact tab = free_entries intact 0 (concat tab)"

text \<open>The results are the return value and \<open>*uid_ret\<close>, which is taken to be writable.\<close>

definition sys_topuser :: "(int \<Rightarrow> nat) \<Rightarrow> (nat \<Rightarrow> bool) \<Rightarrow> kenv \<Rightarrow> proc list \<Rightarrow> fault + int \<times> int \<times> kcall list" where
  "sys_topuser h intact K procs =
     (case tally_loop (\<lambda>p data. s32 (data + 1)) (\<lambda>p. 1) 24 h K 0 procs proc_user_tab0 (0, 0) of
        Inl e \<Rightarrow> Inl e
      | Inr (tab, (max_cnt, max_uid), tr) \<Rightarrow>
          (case free_table intact tab of Inl e \<Rightarrow> Inl e | Inr tr' \<Rightarrow> Inr (0, max_uid, tr @ tr')))"

definition sys_timeuser :: "(int \<Rightarrow> nat) \<Rightarrow> (nat \<Rightarrow> bool) \<Rightarrow> kenv \<Rightarrow> proc list \<Rightarrow> fault + int \<times> int \<times> kcall list" where
  "sys_timeuser h intact K procs =
     (case tally_loop (\<lambda>p data. u64 (data + p_utime p)) p_utime 32 h K 0 procs proc_user_tab0 (0, 0) of
        Inl e \<Rightarrow> Inl e
      | Inr (tab, (max_cnt, max_uid), tr) \<Rightarrow>
          (case free_table intact tab of Inl e \<Rightarrow> Inl e | Inr tr' \<Rightarrow> Inr (0, max_uid, tr @ tr')))"

section \<open>kernelps\<close>

text \<open>The user's array is \<open>None\<close> for NULL, or the pointers in it, each NULL or the buffer it points to.  A name that does not
  fit its buffer, and a pointer behind the array, are accesses out of bounds of the user's objects.  The
  results are the return value, \<open>*arr_size\<close> and the array.\<close>

fun kernelps_loop ::
  "kenv \<Rightarrow> nat \<Rightarrow> proc list \<Rightarrow> nat \<Rightarrow> string option list option \<Rightarrow> fault + int \<times> nat \<times> string option list option" where
  "kernelps_loop K buffer_size [] it arr = Inr (0, it, arr)"
| "kernelps_loop K buffer_size (p # ps) it arr =
     (case arr of
        None \<Rightarrow> Inl NullDeref
      | Some bufs \<Rightarrow>
          if it = buffer_size then Inr (- EFAULT, it, arr)
          else if it \<ge> length bufs then Inl OutOfBounds
          else (case bufs ! it of
              None \<Rightarrow> Inr (- EFAULT, it, arr)
            | Some buf \<Rightarrow>
                if k_copy_to_user K it (length (p_comm p)) \<noteq> 0
                then Inr (- EFAULT, it, Some (bufs[it := Some (blit buf 0 (copied_out K it (p_comm p)))]))
                else if length (p_comm p) > length buf then Inl OutOfBounds
                else kernelps_loop K buffer_size ps (Suc it) (Some (bufs[it := Some (blit buf 0 (p_comm p))]))))"

definition sys_kernelps ::
  "kenv \<Rightarrow> proc list \<Rightarrow> nat \<Rightarrow> string option list option \<Rightarrow> fault + int \<times> nat \<times> string option list option" where
  "sys_kernelps K procs arr_size arr =
     (case kernelps_loop K arr_size procs 0 arr of
        Inl e \<Rightarrow> Inl e
      | Inr (r, it, arr') \<Rightarrow> if r = 0 then Inr (0, it + 1, arr') else Inr (r, arr_size, arr'))"

section \<open>pidtoname, freeblocks and hello\<close>

text \<open>The results are the return value and what the user's buffer \<open>res_str\<close> got.\<close>

definition sys_pidtoname :: "kenv \<Rightarrow> int \<Rightarrow> int \<times> string \<times> kcall list" where
  "sys_pidtoname K pid_num =
     (case k_find_get_pid K (s32 pid_num) of
        None \<Rightarrow> (- EFAULT, [], [])
      | Some pid \<Rightarrow>
          (case k_get_pid_task K pid of
             None \<Rightarrow> (- EFAULT, [], [Acq PidRef])
           | Some taskstr \<Rightarrow>
               let comm = k_comm K taskstr in
               if k_copy_to_user K 0 (length comm) \<noteq> 0
               then (- EFAULT, copied_out K 0 comm, [Acq PidRef, Acq TaskRef])
               else (0, comm, [Acq PidRef, Acq TaskRef])))"

text \<open>\<open>vfs_statfs\<close> gives an error code or the number of free blocks of a mount.  \<open>*free_blocks\<close> is the second result.\<close>

definition sys_freeblocks :: "kenv \<Rightarrow> (nat \<Rightarrow> int + nat) \<Rightarrow> string \<Rightarrow> nat \<Rightarrow> int \<times> nat \<times> kcall list" where
  "sys_freeblocks K vfs_statfs path free_blocks =
     (case k_kern_path K path of
        Inl e \<Rightarrow> (- EFAULT, free_blocks, [])
      | Inr path_str \<Rightarrow>
          (case vfs_statfs path_str of
             Inl e \<Rightarrow> (- EFAULT, free_blocks, [Acq DentryRef, Acq MntRef])
           | Inr f_bfree \<Rightarrow> (0, f_bfree, [Acq DentryRef, Acq MntRef])))"

text \<open>The module \<open>hello.c\<close> only prints what it finds.\<close>

definition hello_init_module :: "kenv \<Rightarrow> int \<times> kcall list" where
  "hello_init_module K =
     (let cmdlineFile = take 79 (''/proc/'' @ show_nat 5515 @ ''/exe'') in
      case k_kern_path K cmdlineFile of
        Inl res \<Rightarrow> (- EFAULT, [])
      | Inr path \<Rightarrow> (0, [Acq DentryRef, Acq MntRef]))"

definition hello_cleanup_module :: "kcall list" where
  "hello_cleanup_module = []"

section \<open>What a user's processes add up to\<close>

definition user_total :: "(proc \<Rightarrow> int) \<Rightarrow> proc list \<Rightarrow> int \<Rightarrow> int" where
  "user_total w ps v = sum_list (map w (filter (\<lambda>p. p_uid p = v) ps))"

lemma user_total_simps [simp]:
  "user_total w [] v = 0"
  "user_total w (p # ps) v = (if p_uid p = v then w p else 0) + user_total w ps v"
  "user_total w (ps @ qs) v = user_total w ps v + user_total w qs v"
  by (simp_all add: user_total_def)

text \<open>The first user whose total reaches the largest one, or 0 if all totals are 0.\<close>

definition first_leader :: "(proc \<Rightarrow> int) \<Rightarrow> proc list \<Rightarrow> int \<Rightarrow> int \<Rightarrow> bool" where
  "first_leader w ps m u \<longleftrightarrow> 0 \<le> m \<and> (\<forall>v. user_total w ps v \<le> m) \<and>
     (if m = 0 then u = 0
      else \<exists>ys p zs. ps = ys @ p # zs \<and> p_uid p = u \<and> user_total w (ys @ [p]) u = m \<and> (\<forall>v. user_total w ys v < m))"

lemma first_leader_snoc:
  assumes "first_leader w ps m u" "0 \<le> w p" "x = user_total w (ps @ [p]) (p_uid p)"
  shows "first_leader w (ps @ [p]) (if m < x then x else m) (if m < x then p_uid p else u)"
proof (cases "m < x")
  case True
  have le: "\<And>v. user_total w ps v \<le> m" "0 \<le> m" using assms(1) by (auto simp: first_leader_def)
  have "user_total w (ps @ [p]) v \<le> x" for v
    using le(1) [of v] True assms(3) by (cases "v = p_uid p") auto
  moreover have "user_total w ps v < x" for v using le(1) [of v] True by simp
  ultimately have all: "\<forall>v. user_total w ps v < x" "\<forall>v. user_total w (ps @ [p]) v \<le> x" by blast+
  have "\<exists>ys q zs. ps @ [p] = ys @ q # zs \<and> p_uid q = p_uid p \<and>
      user_total w (ys @ [q]) (p_uid p) = x \<and> (\<forall>v. user_total w ys v < x)"
    by (rule exI [of _ ps], rule exI [of _ p], rule exI [of _ "[]"]) (simp add: assms(3)[symmetric] all(1) del: user_total_simps)
  with all(2) True le(2) show ?thesis by (simp add: first_leader_def del: user_total_simps)
next
  case False
  have le: "\<And>v. user_total w ps v \<le> m" "0 \<le> m" using assms(1) by (auto simp: first_leader_def)
  have "user_total w (ps @ [p]) v \<le> m" for v
    using le(1) [of v] False assms(3) by (cases "v = p_uid p") auto
  moreover have "\<exists>ys q zs. ps @ [p] = ys @ q # zs \<and> p_uid q = u \<and> user_total w (ys @ [q]) u = m \<and> (\<forall>v. user_total w ys v < m)"
    if "m \<noteq> 0"
  proof -
    have "\<exists>ys q zs. ps = ys @ q # zs \<and> p_uid q = u \<and> user_total w (ys @ [q]) u = m \<and> (\<forall>v. user_total w ys v < m)"
      using assms(1) that by (simp add: first_leader_def)
    then obtain ys q zs where "ps = ys @ q # zs" "p_uid q = u" "user_total w (ys @ [q]) u = m" "\<forall>v. user_total w ys v < m"
      by blast
    then show ?thesis by (intro exI [of _ ys] exI [of _ q] exI [of _ "zs @ [p]"]) simp
  qed
  moreover have "m = 0 \<Longrightarrow> u = 0" using assms(1) by (simp add: first_leader_def)
  ultimately show ?thesis using False le(2) by (simp add: first_leader_def del: user_total_simps)
qed

section \<open>The table as a map from users to totals\<close>

text \<open>After the processes \<open>ps\<close>: every user seen has one entry, in the bucket of the hash function, with the total.\<close>

definition bucket_ok :: "(int \<Rightarrow> nat) \<Rightarrow> (proc \<Rightarrow> int) \<Rightarrow> proc list \<Rightarrow> nat \<Rightarrow> uid_data list \<Rightarrow> bool" where
  "bucket_ok h w ps b es \<longleftrightarrow> distinct (map ud_uid es) \<and> (\<forall>e \<in> set es. ud_data e = user_total w ps (ud_uid e))
     \<and> ud_uid ` set es = {v \<in> p_uid ` set ps. bucket_of h v = b}"

definition table_ok :: "(int \<Rightarrow> nat) \<Rightarrow> (proc \<Rightarrow> int) \<Rightarrow> proc list \<Rightarrow> hashtab \<Rightarrow> bool" where
  "table_ok h w ps tab \<longleftrightarrow> length tab = 256 \<and> (\<forall>b < 256. bucket_ok h w ps b (tab ! b))"

lemma bucket_of_less [simp]: "bucket_of h v < 256"
  by (simp add: bucket_of_def)

lemma table_ok0: "table_ok h w [] proc_user_tab0"
  by (simp add: table_ok_def bucket_ok_def proc_user_tab0_def)

lemma user_total_other: "p_uid p \<noteq> v \<Longrightarrow> user_total w (ps @ [p]) v = user_total w ps v"
  by simp

lemma user_total_absent: "v \<notin> p_uid ` set ps \<Longrightarrow> user_total w ps v = 0"
  by (induction ps) auto

lemma bucket_other:
  assumes "bucket_ok h w ps b es" "b \<noteq> bucket_of h (p_uid p)"
  shows "bucket_ok h w (ps @ [p]) b es"
proof -
  have "p_uid p \<noteq> ud_uid e" if "e \<in> set es" for e
  proof -
    have "ud_uid e \<in> {v \<in> p_uid ` set ps. bucket_of h v = b}"
      using assms(1) that unfolding bucket_ok_def by blast
    then show ?thesis using assms(2) by auto
  qed
  then show ?thesis using assms by (auto simp: bucket_ok_def)
qed

lemma table_upd:
  assumes "table_ok h w ps tab" "b = bucket_of h (p_uid p)" "bucket_ok h w (ps @ [p]) b es"
  shows "table_ok h w (ps @ [p]) (tab[b := es])"
  unfolding table_ok_def
proof (intro conjI allI impI)
  fix c :: nat assume c: "c < 256"
  show "bucket_ok h w (ps @ [p]) c (tab[b := es] ! c)"
    using assms c bucket_other [of h w ps c "tab ! c" p] by (cases "c = b") (simp_all add: table_ok_def)
qed (use assms(1) in \<open>simp add: table_ok_def\<close>)

definition counted :: "(int \<Rightarrow> int) \<Rightarrow> int \<Rightarrow> uid_data \<Rightarrow> uid_data" where
  "counted bump key e = (if ud_uid e = key then e\<lparr>ud_data := bump (ud_data e)\<rparr> else e)"

lemma counted_uid [simp]: "ud_uid (counted bump key e) = ud_uid e" "ud_uid \<circ> counted bump key = ud_uid"
  by (simp_all add: counted_def fun_eq_iff)

lemma bucket_count:
  assumes "bucket_ok h w ps b es" "e \<in> set es" "ud_uid e = p_uid p"
    and "bump (user_total w ps (p_uid p)) = user_total w (ps @ [p]) (p_uid p)"
  shows "bucket_ok h w (ps @ [p]) b (map (counted bump (p_uid p)) es)"
proof -
  have "map ud_uid (map (counted bump (p_uid p)) es) = map ud_uid es" by simp
  moreover have "ud_uid ` set (map (counted bump (p_uid p)) es) = ud_uid ` set es" by (simp add: image_image)
  moreover have "ud_data (counted bump (p_uid p) f) = user_total w (ps @ [p]) (ud_uid f)" if "f \<in> set es" for f
    using assms(1,4) that by (cases "ud_uid f = p_uid p") (simp_all add: counted_def bucket_ok_def)
  moreover have "p_uid p \<in> p_uid ` set ps"
  proof -
    have "ud_uid e \<in> {v \<in> p_uid ` set ps. bucket_of h v = b}"
      using assms(1,2) unfolding bucket_ok_def by blast
    then show ?thesis using assms(3) by simp
  qed
  ultimately show ?thesis using assms(1) by (auto simp: bucket_ok_def simp del: user_total_simps)
qed

lemma bucket_add:
  assumes "bucket_ok h w ps (bucket_of h (p_uid p)) es" "p_uid p \<notin> p_uid ` set ps"
  shows "bucket_ok h w (ps @ [p]) (bucket_of h (p_uid p)) (\<lparr>ud_uid = p_uid p, ud_data = w p\<rparr> # es)"
proof -
  have i: "ud_uid ` set es = {v \<in> p_uid ` set ps. bucket_of h v = bucket_of h (p_uid p)}"
    using assms(1) by (simp add: bucket_ok_def)
  then have n: "p_uid p \<notin> ud_uid ` set es" using assms(2) by blast
  then have "ud_data e = user_total w (ps @ [p]) (ud_uid e)" if "e \<in> set es" for e
    using assms(1) that by (auto simp: bucket_ok_def)
  with n i assms show ?thesis by (auto simp: bucket_ok_def user_total_absent)
qed

lemma possible_absent: "key \<notin> ud_uid ` set es \<Longrightarrow> possible_loop bump key es added mx = (es, added, mx)"
  by (induction es arbitrary: added mx) auto

lemma possible_present:
  "distinct (map ud_uid es) \<Longrightarrow> e \<in> set es \<Longrightarrow>
   possible_loop bump (ud_uid e) es added mx =
     (map (counted bump (ud_uid e)) es, True, raise_max mx (counted bump (ud_uid e) e))"
proof (induction es arbitrary: added mx)
  case (Cons x es)
  show ?case
  proof (cases "ud_uid x = ud_uid e")
    case True
    then have "ud_uid e \<notin> ud_uid ` set es" using Cons.prems(1) by auto
    moreover from this have "x = e" using Cons.prems(2) by auto
    moreover have "map (counted bump (ud_uid e)) es = es"
      using \<open>ud_uid e \<notin> ud_uid ` set es\<close> by (intro map_idI) (metis counted_def imageI)
    ultimately show ?thesis by (simp add: possible_absent Let_def counted_def [of bump "ud_uid e" e])
  next
    case False
    then have "counted bump (ud_uid e) x = x" by (simp add: counted_def)
    with False Cons.IH [of added mx] Cons.prems show ?thesis by auto
  qed
qed simp

text \<open>The number of entries in all buckets.\<close>

definition entries :: "hashtab \<Rightarrow> nat" where
  "entries tab = length (concat tab)"

lemma entries_upd: "b < length tab \<Longrightarrow> entries (tab[b := es]) + length (tab ! b) = entries tab + length es"
proof (induction tab arbitrary: b)
  case (Cons x tab)
  then show ?case by (cases b) (fastforce simp: entries_def)+
qed simp

text \<open>What \<open>bump\<close> and \<open>first\<close> must do for a process \<open>p\<close> that is \<open>ok\<close>, as long as totals stay below \<open>top\<close>.\<close>

locale user_tally =
  fixes bump :: "proc \<Rightarrow> int \<Rightarrow> int" and first :: "proc \<Rightarrow> int" and w :: "proc \<Rightarrow> int"
    and top :: int and ok :: "proc \<Rightarrow> bool"
  assumes weight: "ok p \<Longrightarrow> 0 \<le> w p"
    and first: "ok p \<Longrightarrow> first p = w p"
    and bump: "ok p \<Longrightarrow> 0 \<le> d \<Longrightarrow> d + w p < top \<Longrightarrow> bump p d = d + w p"
begin

lemma user_total_nonneg: "list_all ok ps \<Longrightarrow> 0 \<le> user_total w ps v"
  by (induction ps) (auto simp: weight)

lemma step_ok:
  assumes "table_ok h w ps tab" "list_all ok (ps @ [p])" "user_total w (ps @ [p]) (p_uid p) < top"
    and "first_leader w ps (fst mx) (snd mx)" "k_kmalloc K (''uid_data '' @ show_nat it) sz"
  shows "\<exists>tab' mx' tr. tally_step (bump p) (first p) sz h K it (p_uid p) tab mx = Inr (tab', mx', tr)
    \<and> table_ok h w (ps @ [p]) tab' \<and> first_leader w (ps @ [p]) (fst mx') (snd mx')
    \<and> (\<forall>n. run_counts ((\<lambda>_. 0)(Mem ''uid_data'' := n)) tr =
          Some ((\<lambda>_. 0)(Mem ''uid_data'' := n + entries tab' - entries tab))) \<and> entries tab \<le> entries tab'"
proof -
  let ?b = "bucket_of h (p_uid p)" and ?x = "user_total w (ps @ [p]) (p_uid p)"
  have p: "ok p" "list_all ok ps" using assms(2) by simp_all
  have b: "?b < length tab" "bucket_ok h w ps ?b (tab ! ?b)" using assms(1) by (simp_all add: table_ok_def)
  then have uids: "ud_uid ` set (tab ! ?b) = {v \<in> p_uid ` set ps. bucket_of h v = ?b}"
    and dist: "distinct (map ud_uid (tab ! ?b))"
    and data: "\<And>e. e \<in> set (tab ! ?b) \<Longrightarrow> ud_data e = user_total w ps (ud_uid e)"
    by (simp_all add: bucket_ok_def)
  have lead: "first_leader w (ps @ [p]) (fst (raise_max mx e)) (snd (raise_max mx e))"
    if "ud_uid e = p_uid p" "ud_data e = ?x" for e
    using first_leader_snoc [OF assms(4) weight [OF p(1)] refl] that
    by (simp add: raise_max_def split: if_splits del: user_total_simps)
  show ?thesis
  proof (cases "p_uid p \<in> p_uid ` set ps")
    case True
    then have "p_uid p \<in> ud_uid ` set (tab ! ?b)" unfolding uids by blast
    then obtain e where e: "e \<in> set (tab ! ?b)" "ud_uid e = p_uid p" by force
    have d: "bump p (user_total w ps (p_uid p)) = ?x"
      using bump [OF p(1), of "user_total w ps (p_uid p)"] assms(3) user_total_nonneg [OF p(2), of "p_uid p"] by simp
    let ?es = "map (counted (bump p) (p_uid p)) (tab ! ?b)"
    have step: "tally_step (bump p) (first p) sz h K it (p_uid p) tab mx =
        Inr (tab[?b := ?es], raise_max mx (counted (bump p) (p_uid p) e), [])"
      using possible_present [OF dist e(1), of "bump p" False mx] e(2) by (simp add: tally_step_def Let_def)
    have "entries (tab[?b := ?es]) = entries tab" using entries_upd [OF b(1), of ?es] by simp
    then show ?thesis
      using step table_upd [OF assms(1) refl bucket_count [where bump = "bump p", OF b(2) e d]]
        lead [of "counted (bump p) (p_uid p) e"] data [OF e(1)] e(2) d
      by (simp add: counted_def del: user_total_simps)
  next
    case False
    then have n: "p_uid p \<notin> ud_uid ` set (tab ! ?b)" unfolding uids by blast
    let ?e = "\<lparr>ud_uid = p_uid p, ud_data = first p\<rparr>"
    have step: "tally_step (bump p) (first p) sz h K it (p_uid p) tab mx =
        Inr (tab[?b := ?e # tab ! ?b], raise_max mx ?e, [Acq (Mem ''uid_data'')])"
      using possible_absent [OF n, of "bump p" False mx] assms(5) by (simp add: tally_step_def Let_def b(1))
    have "entries (tab[?b := ?e # tab ! ?b]) = Suc (entries tab)" using entries_upd [OF b(1), of "?e # tab ! ?b"] by simp
    moreover have "first p = ?x" using first [OF p(1)] user_total_absent [OF False] by simp
    ultimately show ?thesis
      using step table_upd [OF assms(1) refl bucket_add [OF b(2) False]] lead [of ?e] first [OF p(1)]
      by (simp del: user_total_simps)
  qed
qed

lemma loop_ok:
  assumes "table_ok h w ps tab" "list_all ok (ps @ qs)" "\<forall>v. user_total w (ps @ qs) v < top"
    and "first_leader w ps (fst mx) (snd mx)" "\<forall>i. k_kmalloc K (''uid_data '' @ show_nat i) sz"
  shows "\<exists>tab' mx' tr. tally_loop bump first sz h K it qs tab mx = Inr (tab', mx', tr)
    \<and> table_ok h w (ps @ qs) tab' \<and> first_leader w (ps @ qs) (fst mx') (snd mx')
    \<and> run_counts ((\<lambda>_. 0)(Mem ''uid_data'' := entries tab)) tr = Some ((\<lambda>_. 0)(Mem ''uid_data'' := entries tab'))"
  using assms
proof (induction qs arbitrary: ps tab mx it)
  case Nil
  then show ?case by simp
next
  case (Cons p qs)
  have o: "list_all ok (ps @ [p])" using Cons.prems(2) by simp
  have "0 \<le> user_total w qs (p_uid p)" using Cons.prems(2) by (intro user_total_nonneg) simp
  then have t: "user_total w (ps @ [p]) (p_uid p) < top"
    using Cons.prems(3) [rule_format, of "p_uid p"] by simp
  from step_ok [OF Cons.prems(1) o t Cons.prems(4) Cons.prems(5) [rule_format, of it]]
  obtain tab1 mx1 tr1 where 1: "tally_step (bump p) (first p) sz h K it (p_uid p) tab mx = Inr (tab1, mx1, tr1)"
    "table_ok h w (ps @ [p]) tab1" "first_leader w (ps @ [p]) (fst mx1) (snd mx1)"
    "run_counts ((\<lambda>_. 0)(Mem ''uid_data'' := entries tab)) tr1 = Some ((\<lambda>_. 0)(Mem ''uid_data'' := entries tab1))"
    by auto
  have a: "ps @ p # qs = (ps @ [p]) @ qs" by simp
  from Cons.IH [OF 1(2) Cons.prems(2) [unfolded a] Cons.prems(3) [unfolded a] 1(3) Cons.prems(5), of "Suc it"]
  obtain tab2 mx2 tr2 where 2: "tally_loop bump first sz h K (Suc it) qs tab1 mx1 = Inr (tab2, mx2, tr2)"
    "table_ok h w ((ps @ [p]) @ qs) tab2" "first_leader w ((ps @ [p]) @ qs) (fst mx2) (snd mx2)"
    "run_counts ((\<lambda>_. 0)(Mem ''uid_data'' := entries tab1)) tr2 = Some ((\<lambda>_. 0)(Mem ''uid_data'' := entries tab2))"
    by blast
  have "run_counts ((\<lambda>_. 0)(Mem ''uid_data'' := entries tab)) (tr1 @ tr2) = Some ((\<lambda>_. 0)(Mem ''uid_data'' := entries tab2))"
    unfolding run_counts_append_Some [OF 1(4)] by (rule 2(4))
  moreover have "tally_loop bump first sz h K it (p # qs) tab mx = Inr (tab2, mx2, tr1 @ tr2)" by (simp add: 1(1) 2(1))
  ultimately show ?case unfolding a using 2(2,3) by blast
qed

end

lemma entries0 [simp]: "entries proc_user_tab0 = 0"
  by (simp add: entries_def proc_user_tab0_def)

lemma free_entries_result:
  "free_entries intact i es = (if \<forall>j < length es. intact (i + j) then Inr (map (\<lambda>e. Rel (Mem ''uid_data'')) es) else Inl UseAfterFree)"
proof (induction es arbitrary: i)
  case (Cons e es)
  have "(\<forall>j < length (e # es). intact (i + j)) \<longleftrightarrow> intact i \<and> (\<forall>j < length es. intact (Suc i + j))"
    unfolding list.size(4) add_Suc_right add_0_right All_less_Suc2 by simp
  then show ?case by (simp only: free_entries.simps Cons.IH) simp
qed simp

lemma free_table_calls:
  "run_counts ((\<lambda>_. 0)(Mem ''uid_data'' := entries tab)) (map (\<lambda>e. Rel (Mem ''uid_data'')) (concat tab)) = Some (\<lambda>_. 0)"
  by (rule run_counts_release_all [where n = "entries tab" and k = 0, THEN trans]) (simp_all add: entries_def fun_eq_iff)

text \<open>There is one entry for each user.\<close>

lemma entries_users:
  assumes "table_ok h w ps tab"
  shows "entries tab = card (p_uid ` set ps)"
proof -
  have len: "length tab = 256" and b: "\<And>b. b < 256 \<Longrightarrow> bucket_ok h w ps b (tab ! b)" using assms by (simp_all add: table_ok_def)
  have c: "length (tab ! b) = card {v \<in> p_uid ` set ps. bucket_of h v = b}" if "b < 256" for b
  proof -
    have "distinct (map ud_uid (tab ! b))" "set (map ud_uid (tab ! b)) = {v \<in> p_uid ` set ps. bucket_of h v = b}"
      using b [OF that] by (simp_all add: bucket_ok_def)
    then show ?thesis by (metis distinct_card length_map)
  qed
  have "entries tab = (\<Sum>b<256. length (tab ! b))" by (simp add: entries_def length_concat sum_list_sum_nth len atLeast0LessThan)
  also have "\<dots> = (\<Sum>b<256. card {v \<in> p_uid ` set ps. bucket_of h v = b})" by (rule sum.cong) (simp_all add: c)
  also have "\<dots> = (\<Sum>b<256. \<Sum>v \<in> {v \<in> p_uid ` set ps. bucket_of h v = b}. 1)" by simp
  also have "\<dots> = (\<Sum>v \<in> p_uid ` set ps. 1)" by (rule sum.group) (auto simp: bucket_of_def)
  finally show ?thesis by simp
qed

text \<open>What the loop does for as many users as there are entries.\<close>

lemma free_table_result:
  assumes "table_ok h w ps tab" "run_counts (\<lambda>_. 0) tr = Some ((\<lambda>_. 0)(Mem ''uid_data'' := entries tab))"
  shows "if \<forall>i < card (p_uid ` set ps). intact i then \<exists>tr'. free_table intact tab = Inr tr' \<and> balanced (tr @ tr')
    else free_table intact tab = Inl UseAfterFree"
proof -
  have "balanced (tr @ map (\<lambda>e. Rel (Mem ''uid_data'')) (concat tab))"
    unfolding balanced_counts run_counts_append_Some [OF assms(2)] by (rule free_table_calls)
  then show ?thesis using entries_users [OF assms(1)] by (simp add: free_table_def free_entries_result entries_def)
qed

lemma user_total_prefix:
  "list_all (\<lambda>p. 0 \<le> w p) (ys @ zs) \<Longrightarrow> user_total w ys v \<le> user_total w (ys @ zs) v"
proof -
  assume "list_all (\<lambda>p. 0 \<le> w p) (ys @ zs)"
  then have "list_all (\<lambda>p. 0 \<le> w p) zs" by simp
  then have "0 \<le> user_total w zs v" by (induction zs) auto
  then show ?thesis by simp
qed

text \<open>There is only one first leader, so the hash function has no influence on the result.\<close>

lemma first_leader_earliest:
  assumes "list_all (\<lambda>p. 0 \<le> w p) ps" "ps = ys @ p # zs" "user_total w (ys @ [p]) u = m"
    and "ps = ys' @ p' # zs'" "\<forall>v. user_total w ys' v < m"
  shows "length ys' \<le> length ys"
proof (rule ccontr)
  assume n: "\<not> length ys' \<le> length ys"
  then have "ys @ [p] = take (Suc (length ys)) ps" using assms(2) by simp
  also have "\<dots> = take (Suc (length ys)) ys'" using assms(4) n by simp
  finally have "ys @ [p] = take (Suc (length ys)) ys'" .
  then have e: "ys' = (ys @ [p]) @ drop (Suc (length ys)) ys'" by (metis append_take_drop_id)
  have "list_all (\<lambda>p. 0 \<le> w p) ys'" using assms(1,4) by simp
  then have "user_total w (ys @ [p]) u \<le> user_total w ys' u"
    using user_total_prefix [of w "ys @ [p]" "drop (Suc (length ys)) ys'" u] e by metis
  with assms(3,5) show False by (metis not_less)
qed

lemma first_leader_total:
  assumes "list_all (\<lambda>p. 0 \<le> w p) ps" "first_leader w ps m u" "m \<noteq> 0"
  shows "user_total w ps u = m"
proof -
  obtain ys p zs where l: "ps = ys @ p # zs" "user_total w (ys @ [p]) u = m" "\<forall>v. user_total w ps v \<le> m"
    using assms(2,3) by (auto simp: first_leader_def)
  have "user_total w (ys @ [p]) u \<le> user_total w ((ys @ [p]) @ zs) u"
    by (rule user_total_prefix) (use assms(1) l(1) in simp)
  then show ?thesis using l by (simp add: order.antisym del: user_total_simps)
qed

lemma first_leader_unique:
  assumes "list_all (\<lambda>p. 0 \<le> w p) ps" "first_leader w ps m u" "first_leader w ps m' u'"
  shows "u = u' \<and> m = m'"
proof -
  have le: "\<And>v. user_total w ps v \<le> m" "\<And>v. user_total w ps v \<le> m'" "0 \<le> m" "0 \<le> m'"
    using assms(2,3) by (simp_all add: first_leader_def)
  have "m \<le> m'" using first_leader_total [OF assms(1,2)] le(2) [of u] le(4) by (cases "m = 0") auto
  moreover have "m' \<le> m" using first_leader_total [OF assms(1,3)] le(1) [of u'] le(3) by (cases "m' = 0") auto
  ultimately have m: "m = m'" by simp
  show ?thesis
  proof (cases "m = 0")
    case True
    with m assms(2,3) show ?thesis by (simp add: first_leader_def)
  next
    case False
    obtain ys p zs where 1: "ps = ys @ p # zs" "p_uid p = u" "user_total w (ys @ [p]) u = m" "\<forall>v. user_total w ys v < m"
      using assms(2) False unfolding first_leader_def by (metis (lifting))
    obtain ys' p' zs' where 2: "ps = ys' @ p' # zs'" "p_uid p' = u'" "user_total w (ys' @ [p']) u' = m"
      "\<forall>v. user_total w ys' v < m"
      using assms(3) False m unfolding first_leader_def by (metis (lifting))
    have "length ys = length ys'"
      using first_leader_earliest [OF assms(1) 1(1,3) 2(1,4)] first_leader_earliest [OF assms(1) 2(1,3) 1(1,4)] by simp
    then have "p = p'" using 1(1) 2(1) by auto
    with 1(2) 2(2) m show ?thesis by simp
  qed
qed

context user_tally begin

text \<open>What a call does from the empty table on, with the entries freed in the end.\<close>

lemma call_ok:
  assumes "list_all ok procs" "\<forall>v. user_total w procs v < top" "\<forall>i. k_kmalloc K (''uid_data '' @ show_nat i) sz"
  shows "\<exists>u m. first_leader w procs m u \<and> (\<forall>h. \<exists>tab tr.
    tally_loop bump first sz h K 0 procs proc_user_tab0 (0, 0) = Inr (tab, (m, u), tr)
    \<and> (\<forall>intact. if \<forall>i < card (p_uid ` set procs). intact i then \<exists>tr'. free_table intact tab = Inr tr' \<and> balanced (tr @ tr')
         else free_table intact tab = Inl UseAfterFree))"
proof -
  have lead0: "first_leader w [] (fst (0, 0)) (snd (0, 0))" by (simp add: first_leader_def)
  define P where "P h m u tab tr \<longleftrightarrow> tally_loop bump first sz h K 0 procs proc_user_tab0 (0, 0) = Inr (tab, (m, u), tr)
    \<and> (\<forall>intact. if \<forall>i < card (p_uid ` set procs). intact i then \<exists>tr'. free_table intact tab = Inr tr' \<and> balanced (tr @ tr')
         else free_table intact tab = Inl UseAfterFree)" for h m u tab tr
  have 1: "\<exists>tab m u tr. P h m u tab tr \<and> first_leader w procs m u" for h
  proof -
    obtain tab mx tr where l: "tally_loop bump first sz h K 0 procs proc_user_tab0 (0, 0) = Inr (tab, mx, tr)"
      "table_ok h w procs tab" "first_leader w procs (fst mx) (snd mx)"
      "run_counts ((\<lambda>_. 0)(Mem ''uid_data'' := 0)) tr = Some ((\<lambda>_. 0)(Mem ''uid_data'' := entries tab))"
      using loop_ok [OF table_ok0 _ _ lead0 assms(3), of procs h 0] assms(1,2) by auto
    have z: "(\<lambda>_ :: kres. 0 :: nat)(Mem ''uid_data'' := 0) = (\<lambda>_. 0)" by (simp add: fun_eq_iff)
    have "P h (fst mx) (snd mx) tab tr" unfolding P_def using l(1) free_table_result [OF l(2) l(4) [unfolded z]] by simp
    with l(3) show ?thesis by blast
  qed
  have nonneg: "list_all (\<lambda>p. 0 \<le> w p) procs" using assms(1) by (auto simp: list_all_iff weight)
  obtain m u where lead: "first_leader w procs m u" using 1 [of "\<lambda>_. 0"] by auto
  have "\<exists>tab tr. P h m u tab tr" for h using 1 [of h] first_leader_unique [OF nonneg lead] by blast
  with lead show ?thesis unfolding P_def by blast
qed

end

interpretation topuser: user_tally "\<lambda>p data. s32 (data + 1)" "\<lambda>p. 1" "\<lambda>p. 1" "2 ^ 31" "\<lambda>p. True"
  by unfold_locales (simp_all add: s32_id)

interpretation timeuser: user_tally "\<lambda>p data. u64 (data + p_utime p)" p_utime p_utime "2 ^ 64" "\<lambda>p. 0 \<le> p_utime p"
  by unfold_locales (simp_all add: u64_id)

section \<open>Properties\<close>

lemma user_total_count: "user_total (\<lambda>p. 1) ps v \<le> int (length ps)"
  by (induction ps) auto

text \<open>C35.  With memory available, \<open>topuser\<close> finds the user with the most processes, among several such users the one whose last process comes
  first in the process list, and 0 if there is no process; the hash function does not matter.  It returns that user, with every entry of the
  table freed, only if each of its reads of an entry that it has just freed, one for each user, still finds the old pointer; otherwise it
  goes on with freed memory.\<close>

theorem topuser_result:
  assumes "int (length procs) < 2 ^ 31" "\<forall>i. k_kmalloc K (''uid_data '' @ show_nat i) 24"
  shows "\<exists>u m. (\<forall>h intact. if \<forall>i < card (p_uid ` set procs). intact i then \<exists>tr. sys_topuser h intact K procs = Inr (0, u, tr) \<and> balanced tr
         else sys_topuser h intact K procs = Inl UseAfterFree)
    \<and> (\<forall>v. user_total (\<lambda>p. 1) procs v \<le> m)
    \<and> (if procs = [] then u = 0
       else \<exists>ys p zs. procs = ys @ p # zs \<and> p_uid p = u \<and> user_total (\<lambda>p. 1) (ys @ [p]) u = m
         \<and> (\<forall>v. user_total (\<lambda>p. 1) ys v < m))"
proof -
  have "\<forall>v. user_total (\<lambda>p. 1) procs v < 2 ^ 31" using user_total_count [of procs] assms(1) by (meson le_less_trans)
  from topuser.call_ok [OF _ this assms(2)] obtain u m where l: "first_leader (\<lambda>p. 1) procs m u"
    and c: "\<And>h. \<exists>tab tr. tally_loop (\<lambda>p data. s32 (data + 1)) (\<lambda>p. 1) 24 h K 0 procs proc_user_tab0 (0, 0) =
      Inr (tab, (m, u), tr) \<and> (\<forall>intact. if \<forall>i < card (p_uid ` set procs). intact i
        then \<exists>tr'. free_table intact tab = Inr tr' \<and> balanced (tr @ tr') else free_table intact tab = Inl UseAfterFree)"
    by (auto simp: list_all_iff)
  have m0: "procs = []" if "m = 0"
  proof (rule ccontr)
    assume "procs \<noteq> []"
    then obtain p ps where p: "procs = p # ps" by (cases procs) auto
    have "0 \<le> user_total (\<lambda>p. 1) ps (p_uid p)" by (rule topuser.user_total_nonneg) (simp add: list_all_iff)
    then show False using l that p by (auto simp: first_leader_def dest: spec [of _ "p_uid p"])
  qed
  have A: "if \<forall>i < card (p_uid ` set procs). intact i then \<exists>tr. sys_topuser h intact K procs = Inr (0, u, tr) \<and> balanced tr
      else sys_topuser h intact K procs = Inl UseAfterFree" for h intact
  proof -
    obtain tab tr where t: "tally_loop (\<lambda>p data. s32 (data + 1)) (\<lambda>p. 1) 24 h K 0 procs proc_user_tab0 (0, 0) = Inr (tab, (m, u), tr)"
      "if \<forall>i < card (p_uid ` set procs). intact i then \<exists>tr'. free_table intact tab = Inr tr' \<and> balanced (tr @ tr')
        else free_table intact tab = Inl UseAfterFree" using c [of h] by blast
    show ?thesis
    proof (cases "\<forall>i < card (p_uid ` set procs). intact i")
      case True
      then obtain tr' where "free_table intact tab = Inr tr'" "balanced (tr @ tr')" using t(2) by auto
      then show ?thesis using True t(1) by (simp add: sys_topuser_def)
    next
      case False
      then have "free_table intact tab = Inl UseAfterFree" using t(2) by (simp only: if_False)
      then show ?thesis using t(1) unfolding if_not_P [OF False] by (simp add: sys_topuser_def)
    qed
  qed
  have B: "procs = [] \<Longrightarrow> u = 0" "\<forall>v. user_total (\<lambda>p. 1) procs v \<le> m"
    "m \<noteq> 0 \<Longrightarrow> \<exists>ys p zs. procs = ys @ p # zs \<and> p_uid p = u \<and> user_total (\<lambda>p. 1) (ys @ [p]) u = m
       \<and> (\<forall>v. user_total (\<lambda>p. 1) ys v < m)"
    using l by (auto simp: first_leader_def split: if_splits)
  have "if procs = [] then u = 0 else \<exists>ys p zs. procs = ys @ p # zs \<and> p_uid p = u \<and> user_total (\<lambda>p. 1) (ys @ [p]) u = m
       \<and> (\<forall>v. user_total (\<lambda>p. 1) ys v < m)"
  proof (cases "procs = []")
    case True
    then show ?thesis using B(1) by simp
  next
    case False
    then have "m \<noteq> 0" using m0 by blast
    then show ?thesis unfolding if_not_P [OF False] by (rule B(3))
  qed
  with A B(2) show ?thesis by blast
qed

theorem topuser_result_witness:
  "(\<exists>tr. sys_topuser nat (\<lambda>_. True) kenv0 [\<lparr>p_uid = 7, p_utime = 5, p_comm = ''init''\<rparr>] = Inr (0, 7, tr) \<and> balanced tr)
    \<and> sys_topuser nat (\<lambda>_. False) kenv0 [\<lparr>p_uid = 7, p_utime = 5, p_comm = ''init''\<rparr>] = Inl UseAfterFree"
proof -
  let ?ps = "[\<lparr>p_uid = 7, p_utime = 5, p_comm = ''init''\<rparr>]"
  obtain u m where a: "\<forall>h intact. if \<forall>i < card (p_uid ` set ?ps). intact i then \<exists>tr. sys_topuser h intact kenv0 ?ps = Inr (0, u, tr) \<and> balanced tr
         else sys_topuser h intact kenv0 ?ps = Inl UseAfterFree" "\<exists>ys p zs. ?ps = ys @ p # zs \<and> p_uid p = u"
    using topuser_result [of ?ps kenv0] by auto
  have "u = 7" using a(2) by (auto simp: Cons_eq_append_conv)
  then show ?thesis using spec [OF spec [OF a(1), of nat], of "\<lambda>_. True"] spec [OF spec [OF a(1), of nat], of "\<lambda>_. False"] by simp
qed

text \<open>With memory available and total times below \<open>2 ^ 64\<close>, \<open>timeuser\<close> returns the user whose processes have used the most time, the first
  one to reach it in the process list, and 0 if no process has used any; it frees its table in the same way as \<open>topuser\<close>.\<close>

theorem timeuser_result:
  assumes "\<forall>p \<in> set procs. 0 \<le> p_utime p" "\<forall>v. user_total p_utime procs v < 2 ^ 64"
    and "\<forall>i. k_kmalloc K (''uid_data '' @ show_nat i) 32"
  shows "\<exists>u m. first_leader p_utime procs m u \<and>
    (\<forall>h intact. if \<forall>i < card (p_uid ` set procs). intact i then \<exists>tr. sys_timeuser h intact K procs = Inr (0, u, tr) \<and> balanced tr
       else sys_timeuser h intact K procs = Inl UseAfterFree)"
proof -
  have "list_all (\<lambda>p. 0 \<le> p_utime p) procs" using assms(1) by (simp add: list_all_iff)
  from timeuser.call_ok [OF this assms(2,3)] obtain u m where l: "first_leader p_utime procs m u"
    and c: "\<And>h. \<exists>tab tr. tally_loop (\<lambda>p data. u64 (data + p_utime p)) p_utime 32 h K 0 procs proc_user_tab0 (0, 0) =
      Inr (tab, (m, u), tr) \<and> (\<forall>intact. if \<forall>i < card (p_uid ` set procs). intact i
        then \<exists>tr'. free_table intact tab = Inr tr' \<and> balanced (tr @ tr') else free_table intact tab = Inl UseAfterFree)"
    by blast
  have "if \<forall>i < card (p_uid ` set procs). intact i then \<exists>tr. sys_timeuser h intact K procs = Inr (0, u, tr) \<and> balanced tr
      else sys_timeuser h intact K procs = Inl UseAfterFree" for h intact
  proof -
    obtain tab tr where t: "tally_loop (\<lambda>p data. u64 (data + p_utime p)) p_utime 32 h K 0 procs proc_user_tab0 (0, 0) = Inr (tab, (m, u), tr)"
      "if \<forall>i < card (p_uid ` set procs). intact i then \<exists>tr'. free_table intact tab = Inr tr' \<and> balanced (tr @ tr')
        else free_table intact tab = Inl UseAfterFree" using c [of h] by blast
    show ?thesis
    proof (cases "\<forall>i < card (p_uid ` set procs). intact i")
      case True
      then obtain tr' where "free_table intact tab = Inr tr'" "balanced (tr @ tr')" using t(2) by auto
      then show ?thesis using True t(1) by (simp add: sys_timeuser_def)
    next
      case False
      then have "free_table intact tab = Inl UseAfterFree" using t(2) by (simp only: if_False)
      then show ?thesis using t(1) unfolding if_not_P [OF False] by (simp add: sys_timeuser_def)
    qed
  qed
  then show ?thesis using l by blast
qed

theorem timeuser_result_witness:
  "\<exists>u m. first_leader p_utime [\<lparr>p_uid = 7, p_utime = 5, p_comm = ''init''\<rparr>] m u \<and>
     (\<exists>tr. sys_timeuser nat (\<lambda>_. True) kenv0 [\<lparr>p_uid = 7, p_utime = 5, p_comm = ''init''\<rparr>] = Inr (0, u, tr))"
proof -
  let ?ps = "[\<lparr>p_uid = 7, p_utime = 5, p_comm = ''init''\<rparr>]"
  have a: "\<forall>p \<in> set ?ps. 0 \<le> p_utime p" "\<forall>v. user_total p_utime ?ps v < 2 ^ 64" by simp_all
  from timeuser_result [OF a, of kenv0] obtain u m where l: "first_leader p_utime ?ps m u"
    "\<forall>h intact. if \<forall>i < card (p_uid ` set ?ps). intact i then \<exists>tr. sys_timeuser h intact kenv0 ?ps = Inr (0, u, tr) \<and> balanced tr
       else sys_timeuser h intact kenv0 ?ps = Inl UseAfterFree" by auto
  have "\<exists>tr. sys_timeuser nat (\<lambda>_. True) kenv0 ?ps = Inr (0, u, tr)" using spec [OF spec [OF l(2), of nat], of "\<lambda>_. True"] by auto
  with l(1) show ?thesis by blast
qed

text \<open>What \<open>kernelps\<close> makes of the user's buffers: one name each, without a terminating zero.\<close>

fun fill_names :: "proc list \<Rightarrow> string option list \<Rightarrow> string option list" where
  "fill_names (p # ps) (Some b # bs) = Some (blit b 0 (p_comm p)) # fill_names ps bs"
| "fill_names ps bs = bs"

lemma fill_names_Nil [simp]: "fill_names [] bs = bs"
  by (cases bs) simp_all

lemma kernelps_loop_fill:
  assumes "\<forall>i n. k_copy_to_user K i n = 0"
  shows "list_all (\<lambda>b. case b of None \<Rightarrow> False | Some b \<Rightarrow> \<forall>p \<in> set ps. length (p_comm p) \<le> length b) bs \<Longrightarrow>
    kernelps_loop K (length (done_bs @ bs)) ps (length done_bs) (Some (done_bs @ bs @ rest)) =
      (if length ps \<le> length bs
       then Inr (0, length done_bs + length ps, Some (done_bs @ fill_names ps bs @ rest))
       else Inr (- EFAULT, length (done_bs @ bs), Some (done_bs @ fill_names ps bs @ rest)))"
proof (induction ps arbitrary: done_bs bs)
  case (Cons p ps)
  show ?case
  proof (cases bs)
    case (Cons x bs')
    with Cons.prems obtain b where b: "x = Some b" "length (p_comm p) \<le> length b" by (cases x) auto
    have prem: "list_all (\<lambda>b. case b of None \<Rightarrow> False | Some b \<Rightarrow> \<forall>p \<in> set ps. length (p_comm p) \<le> length b) bs'"
      using Cons.prems Cons by (auto simp: list_all_iff split: option.splits)
    from Cons.IH [OF prem, of "done_bs @ [Some (blit b 0 (p_comm p))]"] b assms show ?thesis
      by (simp add: Cons nth_append list_update_append)
  qed simp
qed simp

lemma fill_names_app:
  "list_all (\<lambda>b. b \<noteq> None) bs \<Longrightarrow> length ps \<le> length bs \<Longrightarrow> fill_names ps (bs @ cs) = fill_names ps bs @ cs"
  by (induction ps bs rule: fill_names.induct) auto

lemma fill_names_nth:
  "i < length ps \<Longrightarrow> length ps \<le> length bs \<Longrightarrow> list_all (\<lambda>b. b \<noteq> None) bs \<Longrightarrow>
   fill_names ps bs ! i = Some (blit (the (bs ! i)) 0 (p_comm (ps ! i)))"
proof (induction ps bs arbitrary: i rule: fill_names.induct)
  case (1 p ps b bs)
  then show ?case by (cases i) auto
qed auto

lemma cstr_blit: "NUL \<notin> set s \<Longrightarrow> cstr (blit b 0 s) = s @ cstr (drop (length s) b)"
proof -
  assume "NUL \<notin> set s"
  then have "\<And>c. c \<in> set s \<Longrightarrow> c \<noteq> NUL" by auto
  then show ?thesis by (simp add: blit_def cstr_def takeWhile_append2)
qed

text \<open>\<open>kernelps\<close> with \<open>arr_size\<close> buffers that are large enough: it reports \<open>- EFAULT\<close> exactly when there are more processes than
  buffers, and otherwise one more than the number of processes; in both cases the buffers hold the names in
  list order, each followed by whatever its buffer held behind the name.\<close>

theorem kernelps_result:
  assumes "\<forall>i n. k_copy_to_user K i n = 0"
    and "list_all (\<lambda>b. case b of None \<Rightarrow> False | Some b \<Rightarrow> \<forall>p \<in> set procs. length (p_comm p) \<le> length b) bufs"
    and "\<forall>p \<in> set procs. NUL \<notin> set (p_comm p)"
  shows "\<exists>r n bufs'. sys_kernelps K procs (length bufs) (Some (bufs @ rest)) = Inr (r, n, Some (bufs' @ rest))
    \<and> (if length procs \<le> length bufs then r = 0 \<and> n = length procs + 1 else r = - EFAULT \<and> n = length bufs)
    \<and> length bufs' = length bufs
    \<and> (\<forall>i < min (length procs) (length bufs).
         cstr (the (bufs' ! i)) = p_comm (procs ! i) @ cstr (drop (length (p_comm (procs ! i))) (the (bufs ! i))))"
proof -
  have len: "length (fill_names ps bs) = length bs" for ps bs
    by (induction ps bs rule: fill_names.induct) auto
  have tk: "fill_names procs bs = fill_names (take (length bs) procs) bs" for bs
    by (induction procs bs rule: fill_names.induct) auto
  have some: "list_all (\<lambda>b. b \<noteq> None) bufs" using assms(2) by (auto simp: list_all_iff split: option.splits)
  have nth: "fill_names procs bufs ! i = Some (blit (the (bufs ! i)) 0 (p_comm (procs ! i)))"
    if "i < min (length procs) (length bufs)" for i
    using fill_names_nth [of i "take (length bufs) procs" bufs] that some by (subst tk) simp
  have "cstr (the (fill_names procs bufs ! i)) =
      p_comm (procs ! i) @ cstr (drop (length (p_comm (procs ! i))) (the (bufs ! i)))"
    if "i < min (length procs) (length bufs)" for i
    using nth [OF that] cstr_blit [of "p_comm (procs ! i)"] assms(3) that by simp
  then show ?thesis
    using kernelps_loop_fill [OF assms(1,2), of "[]" rest] len
    by (auto simp: sys_kernelps_def errno_defs intro!: exI [of _ "fill_names procs bufs"])
qed

theorem kernelps_result_witness:
  "\<exists>r n bufs'. sys_kernelps kenv0 [\<lparr>p_uid = 0, p_utime = 5, p_comm = ''sh''\<rparr>] 1 (Some [Some ''abc'']) = Inr (r, n, Some bufs')
     \<and> n = 2 \<and> cstr (the (bufs' ! 0)) = ''shc''"
proof -
  let ?ps = "[\<lparr>p_uid = 0, p_utime = 5, p_comm = ''sh''\<rparr>]"
  from kernelps_result [of kenv0 ?ps "[Some ''abc'']" "[]"]
  show ?thesis by (auto simp: cstr_def NUL_def)
qed

text \<open>The error behaviour of the other calls: \<open>kernelps\<close> follows a NULL array as soon as there is a process; \<open>pidtoname\<close>
  fails for a process id that is not in use and keeps the references it took on every other path; so does
  \<open>freeblocks\<close> with the path, whether \<open>vfs_statfs\<close> succeeds or not.\<close>

theorem syscalls_error_paths:
  "sys_kernelps K (p # ps) n None = Inl NullDeref
   \<and> (case sys_pidtoname K pid of (r, out, tr) \<Rightarrow>
        (r = 0 \<longleftrightarrow> (\<exists>q t. k_find_get_pid K (s32 pid) = Some q \<and> k_get_pid_task K q = Some t
            \<and> k_copy_to_user K 0 (length (k_comm K t)) = 0 \<and> out = k_comm K t))
        \<and> (r = 0 \<or> r = - EFAULT) \<and> (balanced tr \<longleftrightarrow> k_find_get_pid K (s32 pid) = None))
   \<and> (case sys_freeblocks K vfs_statfs path fb of (r, fb', tr) \<Rightarrow>
        (r = 0 \<longleftrightarrow> (\<exists>m f. k_kern_path K path = Inr m \<and> vfs_statfs m = Inr f \<and> fb' = f))
        \<and> (r \<noteq> 0 \<longleftrightarrow> r = - EFAULT) \<and> (balanced tr \<longleftrightarrow> (\<exists>e. k_kern_path K path = Inl e)))"
proof (intro conjI)
  show "sys_kernelps K (p # ps) n None = Inl NullDeref" by (simp add: sys_kernelps_def)
  show "case sys_pidtoname K pid of (r, out, tr) \<Rightarrow>
        (r = 0 \<longleftrightarrow> (\<exists>q t. k_find_get_pid K (s32 pid) = Some q \<and> k_get_pid_task K q = Some t
            \<and> k_copy_to_user K 0 (length (k_comm K t)) = 0 \<and> out = k_comm K t))
        \<and> (r = 0 \<or> r = - EFAULT) \<and> (balanced tr \<longleftrightarrow> k_find_get_pid K (s32 pid) = None)"
    by (auto simp: sys_pidtoname_def balanced_def errno_defs Let_def split: option.splits)
  show "case sys_freeblocks K vfs_statfs path fb of (r, fb', tr) \<Rightarrow>
        (r = 0 \<longleftrightarrow> (\<exists>m f. k_kern_path K path = Inr m \<and> vfs_statfs m = Inr f \<and> fb' = f))
        \<and> (r \<noteq> 0 \<longleftrightarrow> r = - EFAULT) \<and> (balanced tr \<longleftrightarrow> (\<exists>e. k_kern_path K path = Inl e))"
    by (auto simp: sys_freeblocks_def balanced_def errno_defs split: sum.splits)
qed

end
