(* ===== verification/BoundedQueue.thy ===== *)
theory BoundedQueue imports Prelude begin

text \<open>
  The queue of characters in \<open>cw01/zad2/zad2.c\<close> and \<open>cw01/zad6/zad6.c\<close>: an array of \<open>QUEUE_SIZE\<close> bytes of which
  \<open>QUEUE_SIZE - 1\<close> are used at a time.  \<open>ring\<close> holds the globals \<open>Queue\<close>, \<open>QueueIn\<close>, \<open>QueueOut\<close>, \<open>QueueLen\<close>; the functions take
  \<open>QUEUE_SIZE\<close> as their first argument, 16 in one file and 4 in the other.  The locale \<open>bounded_queue\<close> is the
  contract of such a queue towards a list, from which whole sequences of calls are refined; it is
  interpreted on both instances.
\<close>

section \<open>The code\<close>

record ring =
  r_buf :: string
  r_in :: int
  r_out :: int
  r_len :: int

text \<open>The globals are zero from the start; \<open>QueueInit\<close> sets the three indices to zero and is not called.\<close>

definition ring0 :: "int \<Rightarrow> ring" where
  "ring0 n = \<lparr>r_buf = zeros (nat n), r_in = 0, r_out = 0, r_len = 0\<rparr>"

definition QueueInit :: "ring \<Rightarrow> ring" where
  "QueueInit q = q\<lparr>r_in := 0, r_out := 0, r_len := 0\<rparr>"

definition QueuePut :: "int \<Rightarrow> char \<Rightarrow> ring \<Rightarrow> int \<times> ring" where
  "QueuePut n new q =
     (if r_in q = c_mod (r_out q - 1 + n) n then (- 1, q)
      else (0, q\<lparr>r_buf := (r_buf q)[nat (r_in q) := new], r_in := c_mod (r_in q + 1) n, r_len := r_len q + 1\<rparr>))"

definition QueueGet :: "int \<Rightarrow> char \<Rightarrow> ring \<Rightarrow> int \<times> char \<times> ring" where
  "QueueGet n old q =
     (if r_in q = r_out q then (- 1, old, q)
      else (0, r_buf q ! nat (r_out q), q\<lparr>r_len := r_len q - 1, r_out := c_mod (r_out q + 1) n\<rparr>))"

definition zad2_QUEUE_SIZE :: int where "zad2_QUEUE_SIZE = 16"
definition zad2_QueueInit :: "ring \<Rightarrow> ring" where "zad2_QueueInit = QueueInit"
definition zad2_QueuePut :: "char \<Rightarrow> ring \<Rightarrow> int \<times> ring" where "zad2_QueuePut = QueuePut zad2_QUEUE_SIZE"
definition zad2_QueueGet :: "char \<Rightarrow> ring \<Rightarrow> int \<times> char \<times> ring" where "zad2_QueueGet = QueueGet zad2_QUEUE_SIZE"

definition zad6_QUEUE_SIZE :: int where "zad6_QUEUE_SIZE = 4"
definition zad6_QueueInit :: "ring \<Rightarrow> ring" where "zad6_QueueInit = QueueInit"
definition zad6_QueuePut :: "char \<Rightarrow> ring \<Rightarrow> int \<times> ring" where "zad6_QueuePut = QueuePut zad6_QUEUE_SIZE"
definition zad6_QueueGet :: "char \<Rightarrow> ring \<Rightarrow> int \<times> char \<times> ring" where "zad6_QueueGet = QueueGet zad6_QUEUE_SIZE"

section \<open>The contract\<close>

datatype queue_call = Put char | Get

text \<open>A sequence of calls and what each returns: the code, and the character for a \<open>Get\<close> that succeeds.\<close>

fun queue_run ::
  "(char \<Rightarrow> 'q \<Rightarrow> int \<times> 'q) \<Rightarrow> (char \<Rightarrow> 'q \<Rightarrow> int \<times> char \<times> 'q) \<Rightarrow> 'q \<Rightarrow> queue_call list \<Rightarrow> (int \<times> char option) list \<times> 'q" where
  "queue_run put get q [] = ([], q)"
| "queue_run put get q (Put c # cs) =
     (case put c q of (r, q') \<Rightarrow> (case queue_run put get q' cs of (rs, q'') \<Rightarrow> ((r, None) # rs, q'')))"
| "queue_run put get q (Get # cs) =
     (case get NUL q of (r, c, q') \<Rightarrow>
        (case queue_run put get q' cs of (rs, q'') \<Rightarrow> ((r, if r = 0 then Some c else None) # rs, q'')))"

text \<open>The specification: a list of at most \<open>cap\<close> characters.\<close>

definition list_put :: "nat \<Rightarrow> char \<Rightarrow> string \<Rightarrow> int \<times> string" where
  "list_put cap c xs = (if length xs < cap then (0, xs @ [c]) else (- 1, xs))"

fun list_get :: "char \<Rightarrow> string \<Rightarrow> int \<times> char \<times> string" where
  "list_get old [] = (- 1, old, [])"
| "list_get old (x # xs) = (0, x, xs)"

locale bounded_queue =
  fixes put :: "char \<Rightarrow> 'q \<Rightarrow> int \<times> 'q"
    and get :: "char \<Rightarrow> 'q \<Rightarrow> int \<times> char \<times> 'q"
    and content :: "'q \<Rightarrow> string"
    and cap :: nat
    and ok :: "'q \<Rightarrow> bool"
  assumes put_list: "ok q \<Longrightarrow> put c q = (r, q') \<Longrightarrow> ok q' \<and> list_put cap c (content q) = (r, content q')"
    and get_list: "ok q \<Longrightarrow> get old q = (r, c, q') \<Longrightarrow> ok q' \<and> list_get old (content q) = (r, c, content q')"
    and cap_bound: "ok q \<Longrightarrow> length (content q) \<le> cap"
begin

lemma run_refines:
  "ok q \<Longrightarrow> queue_run put get q cs = (rs, q') \<Longrightarrow>
   ok q' \<and> queue_run (list_put cap) list_get (content q) cs = (rs, content q')"
proof (induction cs arbitrary: q rs)
  case (Cons c cs)
  show ?case
  proof (cases c)
    case (Put x)
    obtain r q1 where p: "put x q = (r, q1)" by fastforce
    obtain rs1 q2 where r: "queue_run put get q1 cs = (rs1, q2)" by fastforce
    from put_list [OF Cons.prems(1) p] Cons.IH [of q1 rs1] Cons.prems(2) Put p r show ?thesis by auto
  next
    case Get
    obtain r x q1 where p: "get NUL q = (r, x, q1)" by (cases "get NUL q") auto
    obtain rs1 q2 where r: "queue_run put get q1 cs = (rs1, q2)" by fastforce
    from get_list [OF Cons.prems(1) p] Cons.IH [of q1 rs1] Cons.prems(2) Get p r show ?thesis by auto
  qed
qed simp

lemma put_room: "ok q \<Longrightarrow> length (content q) < cap \<Longrightarrow> put c q = (r, q') \<Longrightarrow> r = 0 \<and> ok q' \<and> content q' = content q @ [c]"
  using put_list by (fastforce simp: list_put_def)

lemma get_some: "ok q \<Longrightarrow> content q = x # xs \<Longrightarrow> get old q = (r, c, q') \<Longrightarrow> r = 0 \<and> c = x \<and> ok q' \<and> content q' = xs"
  using get_list by fastforce

end

section \<open>The ring buffer meets it\<close>

definition ring_ok :: "int \<Rightarrow> ring \<Rightarrow> bool" where
  "ring_ok n q \<longleftrightarrow> int (length (r_buf q)) = n \<and> 0 \<le> r_in q \<and> r_in q < n \<and> 0 \<le> r_out q \<and> r_out q < n
     \<and> r_len q = (r_in q - r_out q) mod n"

definition ring_content :: "int \<Rightarrow> ring \<Rightarrow> string" where
  "ring_content n q = map (\<lambda>k. r_buf q ! nat ((r_out q + int k) mod n)) [0..<nat (r_len q)]"

lemma ring_content_length: "ring_ok n q \<Longrightarrow> int (length (ring_content n q)) = r_len q"
  by (auto simp: ring_content_def ring_ok_def)

lemma ring_ok0: "0 < n \<Longrightarrow> ring_ok n (ring0 n) \<and> ring_content n (ring0 n) = []"
  by (simp add: ring_ok_def ring0_def ring_content_def)

lemma ring_bound: "2 \<le> n \<Longrightarrow> ring_ok n q \<Longrightarrow> r_len q \<le> n - 1"
  using pos_mod_bound [of n "r_in q - r_out q"] by (simp add: ring_ok_def)

lemma ring_len:
  "ring_ok n q \<Longrightarrow> r_len q = (if r_out q \<le> r_in q then r_in q - r_out q else r_in q - r_out q + n)"
proof -
  assume "ring_ok n q"
  then have r: "0 \<le> r_in q" "r_in q < n" "0 \<le> r_out q" "r_out q < n" "r_len q = (r_in q - r_out q) mod n"
    by (simp_all add: ring_ok_def)
  show ?thesis
  proof (cases "r_out q \<le> r_in q")
    case True
    then show ?thesis using r by simp
  next
    case False
    then have "(r_in q - r_out q + n) mod n = r_in q - r_out q + n" using r by (intro mod_pos_pos_trivial) simp_all
    then show ?thesis using False r(5) by simp
  qed
qed

text \<open>The queue is full when \<open>in\<close> is the place before \<open>out\<close>, and empty when they agree.\<close>

lemma ring_full:
  assumes "2 \<le> n" "ring_ok n q"
  shows "r_in q = c_mod (r_out q - 1 + n) n \<longleftrightarrow> r_len q = n - 1"
proof -
  have r: "0 \<le> r_in q" "r_in q < n" "0 \<le> r_out q" "r_out q < n" using assms(2) by (simp_all add: ring_ok_def)
  have "c_mod (r_out q - 1 + n) n = (if r_out q = 0 then n - 1 else r_out q - 1)"
    using r(3,4) assms(1) by (simp add: c_mod_nonneg zmod_minus1)
  then show ?thesis using ring_len [OF assms(2)] r by auto
qed

lemma ring_empty: "2 \<le> n \<Longrightarrow> ring_ok n q \<Longrightarrow> r_in q = r_out q \<longleftrightarrow> r_len q = 0"
  using ring_len [of n q] by (auto simp: ring_ok_def)

lemma ring_put:
  assumes "2 \<le> n" "ring_ok n q" "QueuePut n c q = (r, q')"
  shows "ring_ok n q' \<and> list_put (nat (n - 1)) c (ring_content n q) = (r, ring_content n q')"
proof -
  have o: "int (length (r_buf q)) = n" "0 \<le> r_in q" "r_in q < n" "0 \<le> r_out q" "r_out q < n"
    "r_len q = (r_in q - r_out q) mod n" using assms(2) by (simp_all add: ring_ok_def)
  have len: "int (length (ring_content n q)) = r_len q" by (rule ring_content_length [OF assms(2)])
  have lb: "0 \<le> r_len q" "r_len q \<le> n - 1" using o(6) assms(1) ring_bound [OF assms(1,2)] by simp_all
  show ?thesis
  proof (cases "r_len q = n - 1")
    case True
    then have "length (ring_content n q) = nat (n - 1)" using len by simp
    with True assms ring_full [OF assms(1,2)] show ?thesis by (auto simp: QueuePut_def list_put_def)
  next
    case False
    let ?q = "q\<lparr>r_buf := (r_buf q)[nat (r_in q) := c], r_in := (r_in q + 1) mod n, r_len := r_len q + 1\<rparr>"
    have q': "r = 0" "q' = ?q"
      using assms False ring_full [OF assms(1,2)] o(2) by (auto simp: QueuePut_def c_mod_nonneg)
    have in_pos: "r_in q = (r_out q + r_len q) mod n" using o by (simp add: mod_simps)
    have "((r_in q + 1) mod n - r_out q) mod n = ((r_in q - r_out q) mod n + 1) mod n"
      by (simp add: mod_simps algebra_simps)
    also have "\<dots> = r_len q + 1" using o(6) lb False by simp
    finally have "ring_ok n ?q" using o assms(1) by (simp add: ring_ok_def)
    moreover have "ring_content n ?q = ring_content n q @ [c]"
    proof -
      have l: "nat (r_len q + 1) = Suc (nat (r_len q))" using lb by simp
      have ne: "nat (r_in q) \<noteq> nat ((r_out q + int k) mod n)" if "k < nat (r_len q)" for k
      proof
        assume "nat (r_in q) = nat ((r_out q + int k) mod n)"
        then have "(r_out q + int k) mod n = (r_out q + r_len q) mod n"
          using o(2) assms(1) in_pos by (metis eq_nat_nat_iff pos_mod_sign zero_less_numeral order_less_le_trans)
        then have "(int k - r_len q) mod n = 0" by (simp add: mod_eq_dvd_iff mod_eq_0_iff_dvd algebra_simps)
        moreover have "(int k - r_len q) mod n = int k - r_len q + n"
        proof -
          have "(int k - r_len q + n) mod n = int k - r_len q + n" using that lb by (intro mod_pos_pos_trivial) simp_all
          then show ?thesis by simp
        qed
        ultimately show False using that lb by simp
      qed
      have "nat (r_in q) < length (r_buf q)" using o by simp
      then have "(r_buf q)[nat (r_in q) := c] ! nat ((r_out q + int (nat (r_len q))) mod n) = c"
        using in_pos lb by simp
      then show ?thesis using ne by (simp add: ring_content_def l)
    qed
    moreover have "length (ring_content n q) < nat (n - 1)" using len lb False by simp
    ultimately show ?thesis by (simp add: q' list_put_def)
  qed
qed

lemma ring_get:
  assumes "2 \<le> n" "ring_ok n q" "QueueGet n old q = (r, c, q')"
  shows "ring_ok n q' \<and> list_get old (ring_content n q) = (r, c, ring_content n q')"
proof (cases "r_len q = 0")
  case True
  then have "ring_content n q = []" by (simp add: ring_content_def)
  with True assms ring_empty [OF assms(1,2)] show ?thesis by (auto simp: QueueGet_def)
next
  case False
  have o: "int (length (r_buf q)) = n" "0 \<le> r_in q" "r_in q < n" "0 \<le> r_out q" "r_out q < n"
    "r_len q = (r_in q - r_out q) mod n" using assms(2) by (simp_all add: ring_ok_def)
  have lb: "0 < r_len q" "r_len q \<le> n - 1"
    using False o ring_len [OF assms(2)] ring_bound [OF assms(1,2)] by (auto split: if_splits)
  let ?q = "q\<lparr>r_len := r_len q - 1, r_out := (r_out q + 1) mod n\<rparr>"
  have q': "r = 0" "c = r_buf q ! nat (r_out q)" "q' = ?q"
    using assms False ring_empty [OF assms(1,2)] o(4) by (auto simp: QueueGet_def c_mod_nonneg)
  have "(r_in q - (r_out q + 1) mod n) mod n = ((r_in q - r_out q) mod n - 1) mod n"
    by (simp add: mod_simps algebra_simps)
  also have "\<dots> = r_len q - 1" using o(6) lb by simp
  finally have "ring_ok n ?q" using o assms(1) by (simp add: ring_ok_def)
  moreover have "ring_content n q = c # ring_content n ?q"
  proof -
    obtain m where m: "nat (r_len q) = Suc m" using lb by (cases "nat (r_len q)") auto
    then have "nat (r_len q - 1) = m" by simp
    moreover have "((r_out q + 1) mod n + int k) mod n = (r_out q + int (Suc k)) mod n" for k
      by (simp add: mod_simps algebra_simps)
    ultimately show ?thesis using m o(4,5) q'(2)
      by (simp add: ring_content_def map_upt_Suc del: upt_Suc)
  qed
  ultimately show ?thesis by (simp add: q'(1,3))
qed

interpretation q2: bounded_queue zad2_QueuePut zad2_QueueGet "ring_content 16" 15 "ring_ok 16"
proof
  fix q c r q' old
  assume q: "ring_ok 16 q"
  show "zad2_QueuePut c q = (r, q') \<Longrightarrow> ring_ok 16 q' \<and> list_put 15 c (ring_content 16 q) = (r, ring_content 16 q')"
    using ring_put [OF _ q, of c r q'] by (simp add: zad2_QueuePut_def zad2_QUEUE_SIZE_def)
  show "zad2_QueueGet old q = (r, c, q') \<Longrightarrow> ring_ok 16 q' \<and> list_get old (ring_content 16 q) = (r, c, ring_content 16 q')"
    using ring_get [OF _ q, of old r c q'] by (simp add: zad2_QueueGet_def zad2_QUEUE_SIZE_def)
  show "length (ring_content 16 q) \<le> 15"
    using ring_content_length [OF q] ring_bound [OF _ q] by simp
qed

interpretation q6: bounded_queue zad6_QueuePut zad6_QueueGet "ring_content 4" 3 "ring_ok 4"
proof
  fix q c r q' old
  assume q: "ring_ok 4 q"
  show "zad6_QueuePut c q = (r, q') \<Longrightarrow> ring_ok 4 q' \<and> list_put 3 c (ring_content 4 q) = (r, ring_content 4 q')"
    using ring_put [OF _ q, of c r q'] by (simp add: zad6_QueuePut_def zad6_QUEUE_SIZE_def)
  show "zad6_QueueGet old q = (r, c, q') \<Longrightarrow> ring_ok 4 q' \<and> list_get old (ring_content 4 q) = (r, c, ring_content 4 q')"
    using ring_get [OF _ q, of old r c q'] by (simp add: zad6_QueueGet_def zad6_QUEUE_SIZE_def)
  show "length (ring_content 4 q) \<le> 3"
    using ring_content_length [OF q] ring_bound [OF _ q] by simp
qed

section \<open>Properties\<close>

text \<open>C4.  The queues of \<open>zad2.c\<close> and \<open>zad6.c\<close> refine lists of at most 15 and 3 characters: any sequence of \<open>QueuePut\<close> and
  \<open>QueueGet\<close> from the initial globals returns the same codes and characters, in particular first in first
  out, \<open>-1\<close> on a put into a full and on a get from an empty queue, and \<open>QueueLen\<close> is the length of the list.\<close>

theorem queues_refine:
  "(case queue_run zad2_QueuePut zad2_QueueGet (ring0 zad2_QUEUE_SIZE) cs of (rs, q) \<Rightarrow>
     queue_run (list_put 15) list_get [] cs = (rs, ring_content 16 q) \<and> r_len q = int (length (ring_content 16 q)))
   \<and> (case queue_run zad6_QueuePut zad6_QueueGet (ring0 zad6_QUEUE_SIZE) cs of (rs, q) \<Rightarrow>
     queue_run (list_put 3) list_get [] cs = (rs, ring_content 4 q) \<and> r_len q = int (length (ring_content 4 q)))"
proof (rule conjI)
  obtain rs q where r: "queue_run zad2_QueuePut zad2_QueueGet (ring0 16) cs = (rs, q)" by fastforce
  have "ring_ok 16 q \<and> queue_run (list_put 15) list_get [] cs = (rs, ring_content 16 q)"
    using q2.run_refines [OF _ r] ring_ok0 [of 16] by simp
  then show "case queue_run zad2_QueuePut zad2_QueueGet (ring0 zad2_QUEUE_SIZE) cs of (rs, q) \<Rightarrow>
     queue_run (list_put 15) list_get [] cs = (rs, ring_content 16 q) \<and> r_len q = int (length (ring_content 16 q))"
    using r ring_content_length [of 16 q] by (simp add: zad2_QUEUE_SIZE_def)
next
  obtain rs q where r: "queue_run zad6_QueuePut zad6_QueueGet (ring0 4) cs = (rs, q)" by fastforce
  have "ring_ok 4 q \<and> queue_run (list_put 3) list_get [] cs = (rs, ring_content 4 q)"
    using q6.run_refines [OF _ r] ring_ok0 [of 4] by simp
  then show "case queue_run zad6_QueuePut zad6_QueueGet (ring0 zad6_QUEUE_SIZE) cs of (rs, q) \<Rightarrow>
     queue_run (list_put 3) list_get [] cs = (rs, ring_content 4 q) \<and> r_len q = int (length (ring_content 4 q))"
    using r ring_content_length [of 4 q] by (simp add: zad6_QUEUE_SIZE_def)
qed

end
