(* ===== verification/Zad2.thy ===== *)
theory Zad2 imports ReadersWriters BoundedQueue begin

text \<open>
  \<open>cw01/zad2/zad2.c\<close>: eight writers put one character each into the queue under a mutex, a special writer takes three
  at a time and copies them into the library, and six readers read the library with the semaphore
  protocol of \<open>zad1.c\<close>.  \<open>zad2_glob\<close> holds the globals, \<open>zad2_pc\<close> the program points.  The invariant counts every
  character: it is in the queue, in the special writer's hands or in the library.  The readers' protocol is related to
  \<open>zad1\<close> by mapping the state, so its invariant is used again.  Shown: no character is lost or duplicated and no
  queue operation fails, the library never overflows, mutual exclusion with the readers, what is left over in
  the end, and that \<open>main\<close> does not return.
\<close>

section \<open>The program\<close>

definition zad2_READERS_NUM :: nat where "zad2_READERS_NUM = 6"
definition zad2_WRITERS_NUM :: nat where "zad2_WRITERS_NUM = 8"
definition zad2_SWRITER_SIZE :: nat where "zad2_SWRITER_SIZE = 3"
definition zad2_BOOKS :: nat where "zad2_BOOKS = 20"

text \<open>\<open>z2_oob\<close> is set when \<open>books\<close> is indexed out of its bounds.\<close>

record zad2_glob =
  z2_mutex :: bool
  z2_queue :: ring
  z2_readerSem :: int
  z2_writerSem :: int
  z2_readers_count :: int
  z2_books :: string
  z2_top :: int
  z2_oob :: bool

datatype zad2_wpc = W2Lock | W2Put | W2Test | W2Unlock | W2End

text \<open>The special writer holds the characters it has got in \<open>rcv\<close>; \<open>S2Copy\<close> holds those still to store.\<close>

datatype zad2_spc = S2Lock | S2Test | S2Blocked | S2Woken | S2Get string | S2Unlock string
  | S2Wait string | S2Copy string | S2Post

datatype zad2_pc = W2 nat zad2_wpc | S2 zad2_spc | R2 zad1_rpc

fun zad2_wake :: "zad2_pc \<Rightarrow> zad2_pc" where
  "zad2_wake (S2 S2Blocked) = S2 S2Woken"
| "zad2_wake p = p"

fun zad2_writer :: "zad2_glob \<Rightarrow> nat \<Rightarrow> zad2_wpc \<Rightarrow> (zad2_glob \<times> zad2_wpc \<times> (zad2_pc \<Rightarrow> zad2_pc)) option" where
  "zad2_writer g j W2Lock = (if z2_mutex g then None else Some (g\<lparr>z2_mutex := True\<rparr>, W2Put, \<lambda>p. p))"
| "zad2_writer g j W2Put = Some (g\<lparr>z2_queue := snd (zad2_QueuePut (book_char j) (z2_queue g))\<rparr>, W2Test, \<lambda>p. p)"
| "zad2_writer g j W2Test =
     Some (g, W2Unlock, if int zad2_SWRITER_SIZE \<le> r_len (z2_queue g) then zad2_wake else (\<lambda>p. p))"
| "zad2_writer g j W2Unlock = Some (g\<lparr>z2_mutex := False\<rparr>, W2End, \<lambda>p. p)"
| "zad2_writer g j W2End = None"

definition zad2_store :: "char \<Rightarrow> zad2_glob \<Rightarrow> zad2_glob" where
  "zad2_store c g =
     (if 0 \<le> z2_top g \<and> z2_top g < int zad2_BOOKS
      then g\<lparr>z2_books := (z2_books g)[nat (z2_top g) := c], z2_top := z2_top g + 1\<rparr>
      else g\<lparr>z2_oob := True, z2_top := z2_top g + 1\<rparr>)"

text \<open>\<open>pthread_cond_wait\<close> gives the mutex back and blocks in one step.  The character a failing \<open>QueueGet\<close> would leave
  is that of a fresh array; it is shown that none fails.\<close>

fun zad2_special :: "zad2_glob \<Rightarrow> zad2_spc \<Rightarrow> (zad2_glob \<times> zad2_spc) option" where
  "zad2_special g S2Lock = (if z2_mutex g then None else Some (g\<lparr>z2_mutex := True\<rparr>, S2Test))"
| "zad2_special g S2Test =
     (if r_len (z2_queue g) < 3 then Some (g\<lparr>z2_mutex := False\<rparr>, S2Blocked) else Some (g, S2Get []))"
| "zad2_special g S2Blocked = None"
| "zad2_special g S2Woken = (if z2_mutex g then None else Some (g\<lparr>z2_mutex := True\<rparr>, S2Test))"
| "zad2_special g (S2Get rcv) =
     (if length rcv < zad2_SWRITER_SIZE
      then (case zad2_QueueGet NUL (z2_queue g) of (r, c, q) \<Rightarrow> Some (g\<lparr>z2_queue := q\<rparr>, S2Get (rcv @ [c])))
      else Some (g, S2Unlock rcv))"
| "zad2_special g (S2Unlock rcv) = Some (g\<lparr>z2_mutex := False\<rparr>, S2Wait rcv)"
| "zad2_special g (S2Wait rcv) =
     (if 0 < z2_writerSem g then Some (g\<lparr>z2_writerSem := z2_writerSem g - 1\<rparr>, S2Copy rcv) else None)"
| "zad2_special g (S2Copy []) = Some (g, S2Post)"
| "zad2_special g (S2Copy (c # rcv)) = Some (zad2_store c g, S2Copy rcv)"
| "zad2_special g S2Post = Some (g\<lparr>z2_writerSem := z2_writerSem g + 1\<rparr>, S2Lock)"

text \<open>The program points of \<open>reader\<close> are those of \<open>zad1.c\<close>.\<close>

fun zad2_reader :: "zad2_glob \<Rightarrow> zad1_rpc \<Rightarrow> (zad2_glob \<times> zad1_rpc) option" where
  "zad2_reader g RWait1 =
     (if 0 < z2_readerSem g then Some (g\<lparr>z2_readerSem := z2_readerSem g - 1\<rparr>, RInc) else None)"
| "zad2_reader g RInc = Some (g\<lparr>z2_readers_count := z2_readers_count g + 1\<rparr>, RTest1)"
| "zad2_reader g RTest1 = Some (g, if z2_readers_count g = 1 then RWaitW else RPost1)"
| "zad2_reader g RWaitW =
     (if 0 < z2_writerSem g then Some (g\<lparr>z2_writerSem := z2_writerSem g - 1\<rparr>, RPost1) else None)"
| "zad2_reader g RPost1 = Some (g\<lparr>z2_readerSem := z2_readerSem g + 1\<rparr>, RWait2)"
| "zad2_reader g RWait2 =
     (if 0 < z2_readerSem g then Some (g\<lparr>z2_readerSem := z2_readerSem g - 1\<rparr>, RDec) else None)"
| "zad2_reader g RDec = Some (g\<lparr>z2_readers_count := z2_readers_count g - 1\<rparr>, RTest0)"
| "zad2_reader g RTest0 = Some (g, if z2_readers_count g = 0 then RPostW else RPost2)"
| "zad2_reader g RPostW = Some (g\<lparr>z2_writerSem := z2_writerSem g + 1\<rparr>, RPost2)"
| "zad2_reader g RPost2 = Some (g\<lparr>z2_readerSem := z2_readerSem g + 1\<rparr>, REnd)"
| "zad2_reader g REnd = None"

fun zad2_step :: "zad2_glob \<Rightarrow> zad2_pc \<Rightarrow> (zad2_glob \<times> zad2_pc \<times> (zad2_pc \<Rightarrow> zad2_pc)) option" where
  "zad2_step g (W2 j p) = map_option (\<lambda>(g', p', w). (g', W2 j p', w)) (zad2_writer g j p)"
| "zad2_step g (S2 p) = map_option (\<lambda>(g', p'). (g', S2 p', \<lambda>p. p)) (zad2_special g p)"
| "zad2_step g (R2 p) = map_option (\<lambda>(g', p'). (g', R2 p', \<lambda>p. p)) (zad2_reader g p)"

fun zad2_spur :: "zad2_pc \<Rightarrow> zad2_pc option" where
  "zad2_spur (S2 S2Blocked) = Some (S2 S2Woken)"
| "zad2_spur p = None"

fun zad2_final :: "zad2_pc \<Rightarrow> bool" where
  "zad2_final (W2 j p) = (p = W2End)"
| "zad2_final (S2 p) = False"
| "zad2_final (R2 p) = (p = REnd)"

text \<open>\<open>main\<close>: writers are threads \<open>0..7\<close>, the special writer thread 8, readers \<open>9..14\<close>; the writers are joined
  first, then the readers, then the special writer.\<close>

definition zad2_joins :: "nat list" where
  "zad2_joins = [0..<8] @ [9..<15] @ [8]"

definition zad2_main :: "mop list" where
  "zad2_main = pfork 15 zad2_joins"

definition zad2_init :: zad2_glob where
  "zad2_init = \<lparr>z2_mutex = False, z2_queue = ring0 zad2_QUEUE_SIZE, z2_readerSem = 1, z2_writerSem = 1,
     z2_readers_count = 0, z2_books = zeros zad2_BOOKS, z2_top = 0, z2_oob = False\<rparr>"

definition zad2 :: "(zad2_glob, zad2_pc) prog" where
  "zad2 = \<lparr>p_step = zad2_step, p_spur = zad2_spur,
     p_final = zad2_final,
     p_start = (\<lambda>i. if i < zad2_WRITERS_NUM then W2 i W2Lock else if i = zad2_WRITERS_NUM then S2 S2Lock else R2 RWait1),
     p_glob0 = zad2_init, p_threads = 15, p_main = zad2_main\<rparr>"

section \<open>The invariant\<close>

text \<open>Threads that hold the mutex.\<close>

fun z2_inside :: "zad2_pc option \<Rightarrow> bool" where
  "z2_inside (Some (W2 j p)) = (p = W2Put \<or> p = W2Test \<or> p = W2Unlock)"
| "z2_inside (Some (S2 p)) = (p = S2Test \<or> (\<exists>rcv. p = S2Get rcv \<or> p = S2Unlock rcv))"
| "z2_inside t = False"

text \<open>The character a writer has put, and those in the special writer's hands.\<close>

fun z2_put :: "zad2_pc option \<Rightarrow> string" where
  "z2_put (Some (W2 j p)) = (if p = W2Test \<or> p = W2Unlock \<or> p = W2End then [book_char j] else [])"
| "z2_put t = []"

fun z2_hand :: "zad2_pc option \<Rightarrow> string" where
  "z2_hand (Some (S2 (S2Get rcv))) = rcv"
| "z2_hand (Some (S2 (S2Unlock rcv))) = rcv"
| "z2_hand (Some (S2 (S2Wait rcv))) = rcv"
| "z2_hand (Some (S2 (S2Copy rcv))) = rcv"
| "z2_hand t = []"

fun z2_copying :: "zad2_pc option \<Rightarrow> string" where
  "z2_copying (Some (S2 (S2Copy rcv))) = rcv"
| "z2_copying t = []"

definition z2_stored :: "zad2_glob \<Rightarrow> string" where
  "z2_stored g = take (nat (z2_top g)) (z2_books g) @ ring_content 16 (z2_queue g)"

text \<open>The weight of a thread for the characters that satisfy \<open>P\<close>: what it put less what it holds.\<close>

definition z2_weight :: "(char \<Rightarrow> bool) \<Rightarrow> zad2_pc option \<Rightarrow> int" where
  "z2_weight P t = int (length (filter P (z2_put t))) - int (length (filter P (z2_hand t)))"

fun z2_local :: "zad2_glob \<Rightarrow> nat \<Rightarrow> zad2_pc option \<Rightarrow> bool" where
  "z2_local g i None = True"
| "z2_local g i (Some (W2 j p)) = (i < 8 \<and> j = i)"
| "z2_local g i (Some (S2 p)) = (i = 8 \<and> (case p of
     S2Get rcv \<Rightarrow> length rcv \<le> 3 \<and> 3 \<le> r_len (z2_queue g) + int (length rcv)
   | S2Unlock rcv \<Rightarrow> length rcv = 3 | S2Wait rcv \<Rightarrow> length rcv = 3 | S2Copy rcv \<Rightarrow> length rcv \<le> 3 | _ \<Rightarrow> True))"
| "z2_local g i (Some (R2 p)) = (8 < i)"

definition zad2_inv :: "zad2_glob \<Rightarrow> zad2_pc option list \<Rightarrow> bool" where
  "zad2_inv g ts \<longleftrightarrow>
     cnt z2_inside ts = of_bool (z2_mutex g) \<and>
     ring_ok 16 (z2_queue g) \<and> 0 \<le> z2_top g \<and> z2_top g \<le> 20 \<and> length (z2_books g) = 20 \<and> \<not> z2_oob g \<and>
     (\<forall>i < length ts. z2_local g i (ts ! i)) \<and>
     (\<forall>P. wsum (z2_weight P) ts = int (length (filter P (z2_stored g)))) \<and>
     (z2_top g + wsum (\<lambda>t. int (length (z2_copying t))) ts) mod 3 = 0 \<and>
     (cnt ((=) (Some (S2 S2Blocked))) ts = 0 \<or> r_len (z2_queue g) < 3 \<or>
        1 \<le> cnt (\<lambda>t. \<exists>j. t = Some (W2 j W2Test)) ts)"

lemma z2_put_cnt: "wsum (\<lambda>t. int (length (z2_put t))) ts = cnt (\<lambda>t. z2_put t \<noteq> []) ts"
proof (induction ts)
  case (Cons t ts)
  then show ?case by (cases t rule: z2_put.cases) (auto simp: wsum_def cnt_def)
qed (simp add: wsum_def)

lemma z2_put_writers:
  assumes "\<And>i. i < length ts \<Longrightarrow> z2_local g i (ts ! i)"
  shows "wsum (\<lambda>t. int (length (z2_put t))) ts \<le> 8"
proof -
  have "wsum (\<lambda>t. int (length (z2_put t))) ts = cnt (\<lambda>t. z2_put t \<noteq> []) ts" by (rule z2_put_cnt)
  also have "\<dots> \<le> int 8"
  proof (rule cnt_below)
    fix i assume "i < length ts" "z2_put (ts ! i) \<noteq> []"
    with assms [of i] show "i < 8" by (cases "ts ! i" rule: z2_put.cases) auto
  qed
  finally show ?thesis by simp
qed

text \<open>There are never more than eight characters about.\<close>

lemma z2_total:
  assumes "zad2_inv g ts"
  shows "z2_top g + r_len (z2_queue g) + wsum (\<lambda>t. int (length (z2_hand t))) ts = wsum (\<lambda>t. int (length (z2_put t))) ts"
    "wsum (\<lambda>t. int (length (z2_put t))) ts \<le> 8"
proof -
  have "wsum (z2_weight (\<lambda>_. True)) ts = int (length (filter (\<lambda>_. True) (z2_stored g)))"
    using assms unfolding zad2_inv_def by blast
  moreover have "wsum (z2_weight (\<lambda>_. True)) ts =
      wsum (\<lambda>t. int (length (z2_put t))) ts - wsum (\<lambda>t. int (length (z2_hand t))) ts"
    by (simp add: z2_weight_def [abs_def] wsum_diff)
  moreover have "ring_ok 16 (z2_queue g)" "0 \<le> z2_top g" "z2_top g \<le> 20" "length (z2_books g) = 20"
    using assms by (simp_all add: zad2_inv_def)
  ultimately show "z2_top g + r_len (z2_queue g) + wsum (\<lambda>t. int (length (z2_hand t))) ts =
      wsum (\<lambda>t. int (length (z2_put t))) ts"
    by (auto simp: z2_stored_def ring_content_length)
  show "wsum (\<lambda>t. int (length (z2_put t))) ts \<le> 8"
    by (rule z2_put_writers) (use assms in \<open>auto simp: zad2_inv_def\<close>)
qed

lemma z2_local_queue: "r_len (z2_queue g) \<le> r_len (z2_queue g') \<Longrightarrow> z2_local g i t \<Longrightarrow> z2_local g' i t"
  by (cases "(g, i, t)" rule: z2_local.cases) (auto split: zad2_spc.splits)

lemma zad2_invD:
  assumes "zad2_inv g ts"
  shows "cnt z2_inside ts = of_bool (z2_mutex g)" "ring_ok 16 (z2_queue g)"
    "0 \<le> z2_top g \<and> z2_top g \<le> 20" "length (z2_books g) = 20 \<and> \<not> z2_oob g"
    "\<forall>i < length ts. z2_local g i (ts ! i)"
    "wsum (z2_weight P) ts = int (length (filter P (z2_stored g)))"
    "(z2_top g + wsum (\<lambda>t. int (length (z2_copying t))) ts) mod 3 = 0"
    "cnt ((=) (Some (S2 S2Blocked))) ts = 0 \<or> r_len (z2_queue g) < 3 \<or>
      1 \<le> cnt (\<lambda>t. \<exists>j. t = Some (W2 j W2Test)) ts"
  using assms unfolding zad2_inv_def by blast+

text \<open>A step of a thread that leaves queue and library alone.\<close>

lemma z2_inv_step:
  assumes "zad2_inv g ts" "i < length ts" "ts ! i = Some p"
    and "z2_queue g' = z2_queue g" "z2_books g' = z2_books g" "z2_top g' = z2_top g" "z2_oob g' = z2_oob g"
    and "cnt z2_inside ts - of_bool (z2_inside (Some p)) + of_bool (z2_inside (Some p')) = of_bool (z2_mutex g')"
    and "z2_local g i (Some p) \<Longrightarrow> z2_local g i (Some p')"
    and "z2_put (Some p') = z2_put (Some p)" "z2_hand (Some p') = z2_hand (Some p)"
    and "(int (length (z2_copying (Some p'))) - int (length (z2_copying (Some p)))) mod 3 = 0"
    and "p' = S2 S2Blocked \<Longrightarrow> r_len (z2_queue g) < 3"
    and "\<forall>j. p = W2 j W2Test \<longrightarrow> r_len (z2_queue g) < 3 \<or> cnt ((=) (Some (S2 S2Blocked))) ts = 0"
  shows "zad2_inv g' (ts[i := Some p'])"
proof -
  note I = zad2_invD [OF assms(1)]
  have st: "z2_stored g' = z2_stored g" by (simp add: z2_stored_def assms(4-6))
  have wt: "z2_weight P (Some p') = z2_weight P (Some p)" for P by (simp add: z2_weight_def assms(10,11))
  have loc: "\<forall>k < length (ts[i := Some p']). z2_local g' k (ts[i := Some p'] ! k)"
  proof (intro allI impI)
    fix k assume k: "k < length (ts[i := Some p'])"
    have "z2_local g k (ts ! k)" "z2_local g i (Some p)" using I(5) assms(2,3) k by auto
    then have "z2_local g k (ts[i := Some p'] ! k)" using assms(9) k by (cases "k = i") auto
    then show "z2_local g' k (ts[i := Some p'] ! k)" by (rule z2_local_queue [rotated]) (simp add: assms(4))
  qed
  have "(z2_top g + wsum (\<lambda>t. int (length (z2_copying t))) ts
      + (int (length (z2_copying (Some p'))) - int (length (z2_copying (Some p))))) mod 3 = 0"
    using assms(12) I(7) unfolding mod_eq_0_iff_dvd by (rule dvd_add [rotated])
  then have m: "(z2_top g' + wsum (\<lambda>t. int (length (z2_copying t))) (ts[i := Some p'])) mod 3 = 0"
    using assms(2,3,6) by (simp add: wsum_upd algebra_simps)
  have blocked: "cnt ((=) (Some (S2 S2Blocked))) (ts[i := Some p']) = 0 \<or> r_len (z2_queue g') < 3 \<or>
      1 \<le> cnt (\<lambda>t. \<exists>j. t = Some (W2 j W2Test)) (ts[i := Some p'])"
  proof (cases "r_len (z2_queue g) < 3")
    case False
    then have "p' \<noteq> S2 S2Blocked" using assms(13) by auto
    then have le: "cnt ((=) (Some (S2 S2Blocked))) (ts[i := Some p']) \<le> cnt ((=) (Some (S2 S2Blocked))) ts"
      using assms(2) by (simp add: cnt_upd)
    show ?thesis
    proof (cases "cnt ((=) (Some (S2 S2Blocked))) ts = 0")
      case True
      then show ?thesis using le cnt_nonneg [of "(=) (Some (S2 S2Blocked))" "ts[i := Some p']"] by linarith
    next
      case blk: False
      then have "\<not> (\<exists>j. p = W2 j W2Test)" using assms(14) False by auto
      then have "cnt (\<lambda>t. \<exists>j. t = Some (W2 j W2Test)) ts \<le> cnt (\<lambda>t. \<exists>j. t = Some (W2 j W2Test)) (ts[i := Some p'])"
        using assms(2,3) by (auto simp: cnt_upd)
      then show ?thesis using I(8) False blk by linarith
    qed
  qed (simp add: assms(4))
  have "cnt z2_inside (ts[i := Some p']) = of_bool (z2_mutex g')" using assms(2,3,8) by (simp only: cnt_upd)
  moreover have "\<forall>P. wsum (z2_weight P) (ts[i := Some p']) = int (length (filter P (z2_stored g')))"
    using I(6) assms(2,3) st wt by (simp add: wsum_upd)
  ultimately show ?thesis
    using I(2-4) loc m blocked unfolding zad2_inv_def by (simp only: assms(4-7) simp_thms)
qed

lemma zad2_reader_inv:
  assumes "zad2_inv g ts" "i < length ts" "ts ! i = Some (R2 p)" "zad2_reader g p = Some (g', p')"
  shows "zad2_inv g' (ts[i := Some (R2 p')])"
proof -
  have "z2_queue g' = z2_queue g \<and> z2_books g' = z2_books g \<and> z2_top g' = z2_top g \<and> z2_oob g' = z2_oob g
    \<and> z2_mutex g' = z2_mutex g"
    using assms(4) by (cases p) (auto split: if_splits)
  then show ?thesis using assms(1) by (intro z2_inv_step [OF assms(1-3)]) (auto simp: zad2_inv_def)
qed

lemma z2_inside_pos: "zad2_inv g ts \<Longrightarrow> i < length ts \<Longrightarrow> ts ! i = Some p \<Longrightarrow> z2_inside (Some p) \<Longrightarrow> z2_mutex g \<and> cnt z2_inside ts = 1"
  using cnt_pos [of i ts z2_inside] by (auto simp: zad2_inv_def of_bool_def split: if_splits)

lemma z2_free: "zad2_inv g ts \<Longrightarrow> \<not> z2_mutex g \<Longrightarrow> cnt z2_inside ts = 0"
  by (simp add: zad2_inv_def)

lemma zad2_wake_if: "zad2_wake p = (if p = S2 S2Blocked then S2 S2Woken else p)"
  by (cases p rule: zad2_wake.cases) simp_all

lemma zad2_wake_inv:
  assumes "zad2_inv g ts"
  shows "zad2_inv g (map (map_option zad2_wake) ts)" "cnt ((=) (Some (S2 S2Blocked))) (map (map_option zad2_wake) ts) = 0"
proof -
  let ?w = "map_option zad2_wake"
  have e: "z2_inside (?w t) = z2_inside t" "z2_weight P (?w t) = z2_weight P t" "z2_copying (?w t) = z2_copying t"
    "(\<exists>j. ?w t = Some (W2 j W2Test)) = (\<exists>j. t = Some (W2 j W2Test))" for t P
  proof -
    have "t = None \<or> t = Some (S2 S2Blocked) \<or> ?w t = t"
      by (cases t) (simp_all add: zad2_wake_if)
    then show "z2_inside (?w t) = z2_inside t" "z2_weight P (?w t) = z2_weight P t" "z2_copying (?w t) = z2_copying t"
      "(\<exists>j. ?w t = Some (W2 j W2Test)) = (\<exists>j. t = Some (W2 j W2Test))"
      by (auto simp: z2_weight_def)
  qed
  have loc: "z2_local g k (?w t)" if "z2_local g k t" for k t
    using that by (cases "(g, k, t)" rule: z2_local.cases) (auto simp: zad2_wake_if)
  have nb: "?w t \<noteq> Some (S2 S2Blocked)" for t
    by (cases t) (simp_all add: zad2_wake_if)
  then show z: "cnt ((=) (Some (S2 S2Blocked))) (map ?w ts) = 0"
    unfolding cnt_zero_iff by (metis imageE set_map)
  have "\<forall>k < length (map ?w ts). z2_local g k (map ?w ts ! k)" using zad2_invD(5) [OF assms] loc by simp
  then show "zad2_inv g (map ?w ts)"
    using assms z unfolding zad2_inv_def by (simp add: cnt_map e wsum_map)
qed

lemma z2_len:
  assumes "zad2_inv g ts"
  shows "r_len (z2_queue g) \<le> 8"
proof -
  have "0 \<le> wsum (\<lambda>t. int (length (z2_hand t))) ts" by (rule wsum_nonneg) simp
  then show ?thesis using z2_total [OF assms] zad2_invD(3) [OF assms] by linarith
qed

lemma z2_stored_put:
  assumes "zad2_inv g ts"
  shows "ring_ok 16 (snd (zad2_QueuePut c (z2_queue g)))"
    "ring_content 16 (snd (zad2_QueuePut c (z2_queue g))) = ring_content 16 (z2_queue g) @ [c]"
    "r_len (snd (zad2_QueuePut c (z2_queue g))) = r_len (z2_queue g) + 1"
    "fst (zad2_QueuePut c (z2_queue g)) = 0"
proof -
  note I = zad2_invD [OF assms]
  have l: "r_len (z2_queue g) \<le> 8" by (rule z2_len [OF assms])
  obtain r q' where q': "zad2_QueuePut c (z2_queue g) = (r, q')" by fastforce
  have "length (ring_content 16 (z2_queue g)) < 15" using ring_content_length [OF I(2)] l by simp
  from q2.put_room [OF I(2) this q'] ring_content_length [OF I(2)] ring_content_length [of 16 q'] q'
  show "ring_ok 16 (snd (zad2_QueuePut c (z2_queue g)))"
    "ring_content 16 (snd (zad2_QueuePut c (z2_queue g))) = ring_content 16 (z2_queue g) @ [c]"
    "r_len (snd (zad2_QueuePut c (z2_queue g))) = r_len (z2_queue g) + 1"
    "fst (zad2_QueuePut c (z2_queue g)) = 0"
    by auto
qed

lemma z2_local_other: "k \<noteq> 8 \<Longrightarrow> z2_local g k t \<Longrightarrow> z2_local g' k t"
  by (cases "(g, k, t)" rule: z2_local.cases) (auto split: zad2_spc.splits)

text \<open>There is one special writer.\<close>

lemma z2_single:
  assumes "zad2_inv g ts" "i < length ts" "ts ! i = Some (S2 p)"
  shows "i = 8" "P (Some (S2 p)) = False \<Longrightarrow> (\<And>t. P t \<Longrightarrow> \<exists>p. t = Some (S2 p)) \<Longrightarrow> cnt P ts = 0"
proof -
  note I = zad2_invD(5) [OF assms(1), rule_format]
  show i: "i = 8" using I [OF assms(2)] assms(3) by simp
  assume P: "P (Some (S2 p)) = False" "\<And>t. P t \<Longrightarrow> \<exists>p. t = Some (S2 p)"
  have "\<not> P (ts ! k)" if "k < length ts" for k
  proof
    assume "P (ts ! k)"
    moreover from P(2) [OF this] obtain p' where "ts ! k = Some (S2 p')" by blast
    moreover from this I [OF that] have "k = 8" by simp
    ultimately show False using P(1) assms(3) i by simp
  qed
  then show "cnt P ts = 0" by (auto simp: cnt_zero_iff in_set_conv_nth)
qed

lemma zad2_put_inv:
  assumes "zad2_inv g ts" "i < length ts" "ts ! i = Some (W2 j W2Put)"
  shows "zad2_inv (g\<lparr>z2_queue := snd (zad2_QueuePut (book_char j) (z2_queue g))\<rparr>) (ts[i := Some (W2 j W2Test)])"
proof -
  note I = zad2_invD [OF assms(1)] and Q = z2_stored_put [OF assms(1), where c = "book_char j"]
  let ?g = "g\<lparr>z2_queue := snd (zad2_QueuePut (book_char j) (z2_queue g))\<rparr>" and ?ts = "ts[i := Some (W2 j W2Test)]"
  have "z2_stored ?g = z2_stored g @ [book_char j]" by (simp add: z2_stored_def Q(2))
  then have w: "wsum (z2_weight P) ?ts = int (length (filter P (z2_stored ?g)))" for P
    using I(6) [of P] assms(2,3) by (simp add: wsum_upd z2_weight_def)
  have "z2_local ?g k (?ts ! k)" if k: "k < length ts" for k
  proof (cases "k = i")
    case True
    then show ?thesis using I(5) assms(2,3) by auto
  next
    case False
    then show ?thesis using z2_local_queue [of g ?g k "ts ! k"] I(5) k Q(3) by simp
  qed
  moreover have "cnt z2_inside ?ts = of_bool (z2_mutex g)" using I(1) assms(2,3) by (simp add: cnt_upd)
  moreover have "wsum (\<lambda>t. int (length (z2_copying t))) ?ts = wsum (\<lambda>t. int (length (z2_copying t))) ts"
    using assms(2,3) by (simp add: wsum_upd)
  moreover have "1 \<le> cnt (\<lambda>t. \<exists>j. t = Some (W2 j W2Test)) ?ts" using assms(2) by (intro cnt_pos [of i]) auto
  ultimately show ?thesis using I(2-4,7) Q(1) w unfolding zad2_inv_def by simp
qed

lemma zad2_writer_inv:
  assumes "zad2_inv g ts" "i < length ts" "ts ! i = Some (W2 j p)" "zad2_writer g j p = Some (g', p', w)"
  shows "zad2_inv g' ((map (map_option w) ts)[i := Some (W2 j p')])"
proof (cases p)
  case W2Lock
  then have g: "\<not> z2_mutex g" "g' = g\<lparr>z2_mutex := True\<rparr>" "p' = W2Put" "w = (\<lambda>p. p)"
    using assms(4) by (auto split: if_splits)
  show ?thesis
    using z2_inv_step [OF assms(1-3), where g' = g' and p' = "W2 j W2Put"] z2_free [OF assms(1) g(1)] W2Lock
    by (simp add: g option.map_ident)
next
  case W2Put
  then show ?thesis using zad2_put_inv [OF assms(1,2)] assms(3,4) by (auto simp: option.map_ident)
next
  case W2Test
  then have g: "g' = g" "p' = W2Unlock" using assms(4) by auto
  show ?thesis
  proof (cases "int zad2_SWRITER_SIZE \<le> r_len (z2_queue g)")
    case True
    then have w: "w = zad2_wake" using assms(4) W2Test by auto
    have "map (map_option zad2_wake) ts ! i = Some (W2 j W2Test)" "i < length (map (map_option zad2_wake) ts)"
      using assms(2,3) W2Test by simp_all
    from z2_inv_step [OF zad2_wake_inv(1) [OF assms(1)] this(2,1), where g' = g' and p' = "W2 j W2Unlock"]
      zad2_wake_inv [OF assms(1)] show ?thesis by (simp add: g w zad2_inv_def)
  next
    case False
    then have "w = (\<lambda>p. p)" "r_len (z2_queue g) < 3" using assms(4) W2Test by (auto simp: zad2_SWRITER_SIZE_def)
    then show ?thesis
      using z2_inv_step [OF assms(1-3), where g' = g' and p' = "W2 j W2Unlock"] W2Test assms(1)
      by (simp add: g option.map_ident zad2_inv_def)
  qed
next
  case W2Unlock
  then have g: "g' = g\<lparr>z2_mutex := False\<rparr>" "p' = W2End" "w = (\<lambda>p. p)" using assms(4) by auto
  show ?thesis
    using z2_inv_step [OF assms(1-3), where g' = g' and p' = "W2 j W2End"] W2Unlock z2_inside_pos [OF assms(1-3)]
    by (simp add: g option.map_ident)
next
  case W2End
  then show ?thesis using assms(4) by simp
qed

lemma zad2_get_inv:
  assumes "zad2_inv g ts" "i < length ts" "ts ! i = Some (S2 (S2Get rcv))" "length rcv < 3"
    and "zad2_QueueGet NUL (z2_queue g) = (r, c, q)"
  shows "zad2_inv (g\<lparr>z2_queue := q\<rparr>) (ts[i := Some (S2 (S2Get (rcv @ [c])))])" "r = 0"
proof -
  note I = zad2_invD [OF assms(1)] and S = z2_single [OF assms(1-3)]
  let ?g = "g\<lparr>z2_queue := q\<rparr>" and ?ts = "ts[i := Some (S2 (S2Get (rcv @ [c])))]"
  have l: "3 \<le> r_len (z2_queue g) + int (length rcv)" using I(5) assms(2,3) by fastforce
  then obtain x xs where x: "ring_content 16 (z2_queue g) = x # xs"
    using ring_content_length [OF I(2)] assms(4) by (cases "ring_content 16 (z2_queue g)") auto
  from q2.get_some [OF I(2) x assms(5)] have q: "r = 0" "c = x" "ring_ok 16 q" "ring_content 16 q = xs" by auto
  show "r = 0" by (rule q(1))
  have len: "r_len q = r_len (z2_queue g) - 1"
    using ring_content_length [OF I(2)] ring_content_length [OF q(3)] x q(4) by simp
  have "filter P (z2_stored g) = filter P (take (nat (z2_top g)) (z2_books g)) @ filter P [c] @ filter P xs" for P
    by (simp add: z2_stored_def x q(2))
  then have w: "wsum (z2_weight P) ?ts = int (length (filter P (z2_stored ?g)))" for P
    using I(6) [of P] assms(2,3) by (simp add: wsum_upd z2_weight_def z2_stored_def q(4))
  have "z2_local ?g k (?ts ! k)" if k: "k < length ts" for k
  proof (cases "k = i")
    case True
    then show ?thesis using S(1) assms(2,4) l by (simp add: len)
  next
    case False
    then show ?thesis using z2_local_other [of k g "ts ! k" ?g] I(5) k S(1) by simp
  qed
  moreover have "cnt z2_inside ?ts = of_bool (z2_mutex g)" using I(1) assms(2,3) by (simp add: cnt_upd)
  moreover have "wsum (\<lambda>t. int (length (z2_copying t))) ?ts = wsum (\<lambda>t. int (length (z2_copying t))) ts"
    using assms(2,3) by (simp add: wsum_upd)
  moreover have "cnt ((=) (Some (S2 S2Blocked))) ?ts = 0"
    using S(2) [of "(=) (Some (S2 S2Blocked))"] assms(2,3) by (auto simp: cnt_upd)
  ultimately show "zad2_inv ?g ?ts" using I(2-4,7) q(3) w unfolding zad2_inv_def by simp
qed

lemma zad2_store_inv:
  assumes "zad2_inv g ts" "i < length ts" "ts ! i = Some (S2 (S2Copy (c # rcv)))"
  shows "zad2_inv (zad2_store c g) (ts[i := Some (S2 (S2Copy rcv))])"
proof -
  note I = zad2_invD [OF assms(1)] and S = z2_single [OF assms(1-3)]
  let ?ts = "ts[i := Some (S2 (S2Copy rcv))]"
  have "int (length (z2_hand (ts ! i))) \<le> wsum (\<lambda>t. int (length (z2_hand t))) ts"
    using wsum_ge [of "\<lambda>t. int (length (z2_hand t))", OF _ assms(2)] by simp
  moreover have "0 \<le> r_len (z2_queue g)" using ring_content_length [OF I(2)] by linarith
  ultimately have top: "z2_top g < 8" using z2_total [OF assms(1)] assms(3) by simp
  then have g: "zad2_store c g = g\<lparr>z2_books := (z2_books g)[nat (z2_top g) := c], z2_top := z2_top g + 1\<rparr>"
    using I(3) by (simp add: zad2_store_def zad2_BOOKS_def)
  have n: "nat (z2_top g + 1) = Suc (nat (z2_top g))" "nat (z2_top g) < length (z2_books g)" using I(3,4) top by simp_all
  have "take (Suc (nat (z2_top g))) ((z2_books g)[nat (z2_top g) := c]) = take (nat (z2_top g)) (z2_books g) @ [c]"
    using n(2) by (simp add: take_Suc_conv_app_nth)
  then have w: "wsum (z2_weight P) ?ts = int (length (filter P (z2_stored (zad2_store c g))))" for P
    using I(6) [of P] assms(2,3) by (simp add: wsum_upd z2_weight_def z2_stored_def g n(1))
  have "z2_local g k (?ts ! k)" if k: "k < length ts" for k
    using I(5) k assms(2,3) S(1) by (cases "k = i") auto
  then have "z2_local (zad2_store c g) k (?ts ! k)" if k: "k < length ts" for k
    by (rule z2_local_queue [rotated]) (simp_all add: g k)
  moreover have "cnt z2_inside ?ts = of_bool (z2_mutex g)" using I(1) assms(2,3) by (simp add: cnt_upd)
  moreover have "(z2_top g + 1 + wsum (\<lambda>t. int (length (z2_copying t))) ?ts) mod 3 = 0"
    using assms(2,3) I(7) by (simp add: wsum_upd)
  moreover have "cnt ((=) (Some (S2 S2Blocked))) ?ts = 0"
    using S(2) [of "(=) (Some (S2 S2Blocked))"] assms(2,3) by (auto simp: cnt_upd)
  ultimately show ?thesis using I(2-4,7) top w unfolding zad2_inv_def by (simp add: g)
qed

lemma zad2_special_inv:
  assumes "zad2_inv g ts" "i < length ts" "ts ! i = Some (S2 p)" "zad2_special g p = Some (g', p')"
  shows "zad2_inv g' (ts[i := Some (S2 p')])"
proof -
  note I = zad2_invD [OF assms(1)] and st = z2_inv_step [OF assms(1-3), where g' = g' and p' = "S2 p'"]
    and free = z2_free [OF assms(1)] and held = z2_inside_pos [OF assms(1-3)]
  have loc: "z2_local g i (Some (S2 p))" using I(5) assms(2,3) by metis
  show ?thesis
  proof (cases p)
    case S2Lock
    then show ?thesis using st free assms(4) by (auto split: if_splits)
  next
    case S2Test
    then show ?thesis using st held loc assms(4) I(1) by (auto split: if_splits)
  next
    case S2Woken
    then show ?thesis using st free assms(4) by (auto split: if_splits)
  next
    case (S2Get rcv)
    show ?thesis
    proof (cases "length rcv < 3")
      case True
      obtain r c q where "zad2_QueueGet NUL (z2_queue g) = (r, c, q)" by (cases "zad2_QueueGet NUL (z2_queue g)") auto
      with zad2_get_inv(1) [OF assms(1,2) _ True this] assms(3,4) S2Get True show ?thesis
        by (simp add: zad2_SWRITER_SIZE_def)
    next
      case False
      then have "g' = g" "p' = S2Unlock rcv" using assms(4) S2Get by (auto simp: zad2_SWRITER_SIZE_def)
      then show ?thesis using st held loc False I(1) S2Get by simp
    qed
  next
    case (S2Unlock rcv)
    then show ?thesis using st held loc assms(4) by auto
  next
    case (S2Wait rcv)
    then have "g' = g\<lparr>z2_writerSem := z2_writerSem g - 1\<rparr>" "p' = S2Copy rcv" using assms(4) by (auto split: if_splits)
    then show ?thesis using st loc I(1) S2Wait by simp
  next
    case (S2Copy rcv)
    show ?thesis
    proof (cases rcv)
      case Nil
      then show ?thesis using st assms(4) I(1) S2Copy loc by auto
    next
      case (Cons c cs)
      then show ?thesis using zad2_store_inv [OF assms(1,2)] assms(3,4) S2Copy by auto
    qed
  next
    case S2Post
    then show ?thesis using st assms(4) I(1) loc by auto
  qed (use assms(4) in simp)
qed

lemma zad2_step_cases:
  assumes "zad2_step g p = Some (g', p', w)"
  obtains (writer) j q q' where "p = W2 j q" "p' = W2 j q'" "zad2_writer g j q = Some (g', q', w)"
  | (special) q q' where "p = S2 q" "p' = S2 q'" "w = (\<lambda>p. p)" "zad2_special g q = Some (g', q')"
  | (reader) q q' where "p = R2 q" "p' = R2 q'" "w = (\<lambda>p. p)" "zad2_reader g q = Some (g', q')"
  using assms by (cases p) auto

lemma zad2_inv_create:
  assumes "zad2_inv g ts" "i < length ts" "ts ! i = None"
  shows "zad2_inv g (ts[i := Some (p_start zad2 i)])"
proof -
  note I = zad2_invD [OF assms(1)]
  let ?p = "p_start zad2 i" and ?ts = "ts[i := Some (p_start zad2 i)]"
  have p: "?p = W2 i W2Lock \<and> i < 8 \<or> ?p = S2 S2Lock \<and> i = 8 \<or> ?p = R2 RWait1 \<and> 8 < i"
    by (auto simp: zad2_def zad2_WRITERS_NUM_def)
  then have z: "\<not> z2_inside (Some ?p)" "z2_weight P (Some ?p) = 0" "z2_copying (Some ?p) = []" "z2_local g i (Some ?p)"
    "\<not> (\<exists>j. ?p = W2 j W2Test)" "?p \<noteq> S2 S2Blocked" for P
    by (auto simp: z2_weight_def)
  have "\<forall>k < length ?ts. z2_local g k (?ts ! k)" using I(5) z(4) assms(2) by (auto simp: nth_list_update)
  moreover have "cnt z2_inside ?ts = cnt z2_inside ts" "wsum (z2_weight P) ?ts = wsum (z2_weight P) ts"
    "wsum (\<lambda>t. int (length (z2_copying t))) ?ts = wsum (\<lambda>t. int (length (z2_copying t))) ts"
    "cnt (\<lambda>t. \<exists>j. t = Some (W2 j W2Test)) ?ts = cnt (\<lambda>t. \<exists>j. t = Some (W2 j W2Test)) ts"
    "cnt ((=) (Some (S2 S2Blocked))) ?ts = cnt ((=) (Some (S2 S2Blocked))) ts" for P
    using z assms(2,3) by (auto simp: cnt_upd wsum_upd z2_weight_def)
  ultimately show ?thesis using assms(1) unfolding zad2_inv_def by simp
qed

interpretation z2: prog_inv zad2 zad2_joins zad2_inv
proof unfold_locales
  show "p_main zad2 = pfork (p_threads zad2) zad2_joins" by (simp add: zad2_def zad2_main_def)
  have "ring_ok 16 (ring0 16)" "ring_content 16 (ring0 16) = []" using ring_ok0 [of 16] by simp_all
  then show "zad2_inv (p_glob0 zad2) (replicate (p_threads zad2) None)"
    by (simp add: zad2_def zad2_init_def zad2_inv_def z2_stored_def z2_weight_def cnt_replicate wsum_replicate
        zad2_BOOKS_def zad2_QUEUE_SIZE_def)
next
  fix g ts i
  assume "zad2_inv g ts" "i < length ts" "ts ! i = None"
  then show "zad2_inv g (ts[i := Some (p_start zad2 i)])" by (rule zad2_inv_create)
next
  fix g ts i p g' p' w
  assume inv: "zad2_inv g ts" and i: "i < length ts" "ts ! i = Some p"
    and st: "p_step zad2 g p = Some (g', p', w)"
  from st have "zad2_step g p = Some (g', p', w)" by (simp add: zad2_def)
  then show "zad2_inv g' ((map (map_option w) ts)[i := Some p'])"
    using zad2_writer_inv [OF inv i(1)] zad2_special_inv [OF inv i(1)] zad2_reader_inv [OF inv i(1)] i(2)
    by (cases rule: zad2_step_cases) auto
next
  fix g ts i p p'
  assume inv: "zad2_inv g ts" and i: "i < length ts" "ts ! i = Some p" and "p_spur zad2 p = Some p'"
  then have p: "p = S2 S2Blocked" "p' = S2 S2Woken" by (auto simp: zad2_def elim: zad2_spur.elims)
  have "z2_local g i (Some p)" using zad2_invD(5) [OF inv] i by metis
  then show "zad2_inv g (ts[i := Some p'])"
    using z2_inv_step [OF inv i(1), of p g p'] i p zad2_invD(1) [OF inv] by simp
qed

section \<open>The semaphore protocol of zad1\<close>

text \<open>Seen through the semaphores alone, the special writer is a writer of \<open>zad1\<close> that comes back, and the readers are
  those of \<open>zad1\<close>.\<close>

definition z2_sems :: "zad2_glob \<Rightarrow> zad1_glob" where
  "z2_sems g = \<lparr>z1_readerSem = z2_readerSem g, z1_writerSem = z2_writerSem g, z1_readers_count = z2_readers_count g\<rparr>"

fun z2_publishing :: "zad2_spc \<Rightarrow> bool" where
  "z2_publishing (S2Copy rcv) = True"
| "z2_publishing S2Post = True"
| "z2_publishing p = False"

fun z2_as_zad1 :: "zad2_pc option \<Rightarrow> zad1_pc option" where
  "z2_as_zad1 (Some (S2 p)) = Some (Wr (if z2_publishing p then WPost else WWait))"
| "z2_as_zad1 (Some (R2 p)) = Some (Rd p)"
| "z2_as_zad1 t = None"

lemma zad2_reader_sems:
  "zad2_reader g p = Some (g', p') \<Longrightarrow> zad1_reader (z2_sems g) p = Some (z2_sems g', p')"
  by (cases p) (auto simp: z2_sems_def split: if_splits)

lemma zad2_special_sems:
  assumes "zad2_special g p = Some (g', p')"
  obtains "z2_sems g' = z2_sems g" "z2_publishing p' = z2_publishing p"
  | "\<not> z2_publishing p" "z2_publishing p'" "zad1_writer (z2_sems g) WWait = Some (z2_sems g', WPost)"
  | "z2_publishing p" "\<not> z2_publishing p'" "zad1_writer (z2_sems g) WPost = Some (z2_sems g', WEnd)"
  using assms
  by (cases "(g, p)" rule: zad2_special.cases)
    (auto simp: z2_sems_def zad2_store_def Let_def split: if_splits prod.splits)

definition zad2_sem_inv :: "zad2_glob \<Rightarrow> zad2_pc option list \<Rightarrow> bool" where
  "zad2_sem_inv g ts \<longleftrightarrow> zad1_inv (z2_sems g) (map z2_as_zad1 ts)"

lemma zad2_sem_special:
  assumes "zad2_sem_inv g ts" "i < length ts" "ts ! i = Some (S2 p)" "zad2_special g p = Some (g', p')"
  shows "zad2_sem_inv g' (ts[i := Some (S2 p')])"
  using assms(4)
proof (cases rule: zad2_special_sems)
  case 1
  then have "z2_as_zad1 (Some (S2 p')) = map z2_as_zad1 ts ! i" using assms(2,3) by simp
  then have "map z2_as_zad1 (ts[i := Some (S2 p')]) = map z2_as_zad1 ts"
    unfolding map_update by (simp only: list_update_id)
  with 1 assms(1) show ?thesis by (simp add: zad2_sem_inv_def del: map_update)
next
  case 2
  have "map z2_as_zad1 ts ! i = Some (Wr WWait)" "i < length (map z2_as_zad1 ts)" using 2 assms(2,3) by simp_all
  from zad1_writer_inv [OF assms(1) [unfolded zad2_sem_inv_def] this(2,1) 2(3)] 2 show ?thesis
    by (simp add: zad2_sem_inv_def map_update)
next
  case 3
  have i: "map z2_as_zad1 ts ! i = Some (Wr WPost)" "i < length (map z2_as_zad1 ts)" using 3 assms(2,3) by simp_all
  have "zad1_inv (z2_sems g') ((map z2_as_zad1 ts)[i := Some (Wr WEnd)])"
    by (rule zad1_writer_inv [OF assms(1) [unfolded zad2_sem_inv_def] i(2,1) 3(3)])
  from zad1_inv_idle [OF this, of i "Some (Wr WWait)"] i(2) 3 show ?thesis by (simp add: zad2_sem_inv_def map_update)
qed

lemma z2_as_zad1_wake: "map z2_as_zad1 (map (map_option zad2_wake) ts) = map z2_as_zad1 ts"
proof -
  have "z2_as_zad1 (map_option zad2_wake t) = z2_as_zad1 t" for t
    by (cases t) (auto simp: zad2_wake_if)
  then show ?thesis by simp
qed

interpretation z2sem: prog_inv zad2 zad2_joins zad2_sem_inv
proof unfold_locales
  show "p_main zad2 = pfork (p_threads zad2) zad2_joins" by (simp add: zad2_def zad2_main_def)
  show "zad2_sem_inv (p_glob0 zad2) (replicate (p_threads zad2) None)"
    by (simp add: zad2_def zad2_init_def zad2_sem_inv_def z2_sems_def zad1_inv_def cnt_replicate)
next
  fix g ts i
  assume "zad2_sem_inv g ts" "i < length ts" "ts ! i = None"
  moreover have "z2_as_zad1 (Some (p_start zad2 i)) \<in> {None, Some (Wr WWait), Some (Wr WEnd), Some (Rd RWait1)}"
    by (simp add: zad2_def)
  ultimately show "zad2_sem_inv g (ts[i := Some (p_start zad2 i)])"
    unfolding zad2_sem_inv_def map_update by (intro zad1_inv_idle) simp_all
next
  fix g ts i p g' p' w
  assume inv: "zad2_sem_inv g ts" and i: "i < length ts" "ts ! i = Some p"
    and st: "p_step zad2 g p = Some (g', p', w)"
  from st have "zad2_step g p = Some (g', p', w)" by (simp add: zad2_def)
  then show "zad2_sem_inv g' ((map (map_option w) ts)[i := Some p'])"
  proof (cases rule: zad2_step_cases)
    case (writer j q q')
    have g: "z2_sems g' = z2_sems g" and w: "w = zad2_wake \<or> w = (\<lambda>p. p)"
      using writer(3) by (cases q; auto simp: z2_sems_def split: if_splits)+
    have "map z2_as_zad1 (map (map_option w) ts) = map z2_as_zad1 ts" using w by (elim disjE) (simp_all only: z2_as_zad1_wake no_wake)
    moreover have "map z2_as_zad1 ts ! i = None" using i writer(1) by simp
    ultimately have "map z2_as_zad1 ((map (map_option w) ts)[i := Some p']) = map z2_as_zad1 ts"
      unfolding map_update writer(2) z2_as_zad1.simps by (metis list_update_id)
    then show ?thesis using inv g by (simp add: zad2_sem_inv_def del: map_map)
  next
    case (special q q')
    then show ?thesis using zad2_sem_special [OF inv i(1)] i(2) by simp
  next
    case (reader q q')
    then have "map z2_as_zad1 ts ! i = Some (Rd q)" "i < length (map z2_as_zad1 ts)" using i by simp_all
    from zad1_reader_inv [OF inv [unfolded zad2_sem_inv_def] this(2,1) zad2_reader_sems [OF reader(4)]] reader
    show ?thesis by (simp add: zad2_sem_inv_def map_update)
  qed
next
  fix g ts i p p'
  assume inv: "zad2_sem_inv g ts" and i: "i < length ts" "ts ! i = Some p" and "p_spur zad2 p = Some p'"
  then have p: "p = S2 S2Blocked" "p' = S2 S2Woken" by (auto simp: zad2_def elim: zad2_spur.elims)
  then have "z2_as_zad1 (Some p') = map z2_as_zad1 ts ! i" using i by simp
  then have "map z2_as_zad1 (ts[i := Some p']) = map z2_as_zad1 ts" unfolding map_update by (simp only: list_update_id)
  then show "zad2_sem_inv g (ts[i := Some p'])" using inv by (simp add: zad2_sem_inv_def)
qed

section \<open>Properties\<close>

lemma z2_hand_special: "z2_hand t \<noteq> [] \<Longrightarrow> \<exists>p. t = Some (S2 p)"
  by (cases t rule: z2_hand.cases) auto

text \<open>C7.  No character is lost or duplicated in \<open>zad2.c\<close>: in every reachable state, each character is as often in the library,
  the queue and the special writer's array together as writers have put it; the queue is never full when a
  writer puts, never empty when the special writer gets, and the library's array is never left.\<close>

theorem zad2_no_loss:
  assumes "preach zad2 ok s"
  shows "(\<Sum>t \<leftarrow> thr s. int (length (filter ((=) c) (z2_put t)))) =
      int (length (filter ((=) c) (z2_stored (glob s)))) + (\<Sum>t \<leftarrow> thr s. int (length (filter ((=) c) (z2_hand t))))
    \<and> 0 \<le> z2_top (glob s) \<and> z2_top (glob s) \<le> 8 \<and> \<not> z2_oob (glob s)
    \<and> fst (zad2_QueuePut x (z2_queue (glob s))) = 0
    \<and> (i < length (thr s) \<longrightarrow> thr s ! i = Some (S2 (S2Get rcv)) \<longrightarrow> length rcv < 3 \<longrightarrow>
         fst (zad2_QueueGet NUL (z2_queue (glob s))) = 0)"
proof -
  note inv = z2.reach_inv [OF assms] and I = zad2_invD [OF z2.reach_inv [OF assms]]
  have "wsum (z2_weight ((=) c)) (thr s) = wsum (\<lambda>t. int (length (filter ((=) c) (z2_put t)))) (thr s)
      - wsum (\<lambda>t. int (length (filter ((=) c) (z2_hand t)))) (thr s)"
    by (simp add: z2_weight_def [abs_def] wsum_diff)
  then have "(\<Sum>t \<leftarrow> thr s. int (length (filter ((=) c) (z2_put t)))) =
      int (length (filter ((=) c) (z2_stored (glob s)))) + (\<Sum>t \<leftarrow> thr s. int (length (filter ((=) c) (z2_hand t))))"
    using I(6) [of "(=) c"] by (simp add: wsum_def)
  moreover have "0 \<le> wsum (\<lambda>t. int (length (z2_hand t))) (thr s)" by (rule wsum_nonneg) simp
  moreover have "0 \<le> r_len (z2_queue (glob s))" using ring_content_length [OF I(2)] by linarith
  moreover have "fst (zad2_QueueGet NUL (z2_queue (glob s))) = 0"
    if "i < length (thr s)" "thr s ! i = Some (S2 (S2Get rcv))" "length rcv < 3"
    using zad2_get_inv(2) [OF inv that] by (cases "zad2_QueueGet NUL (z2_queue (glob s))") simp
  ultimately show ?thesis using z2_total [OF inv] I(3,4) z2_stored_put(4) [OF inv, of x] by (auto simp: wsum_def)
qed

theorem zad2_no_loss_witness:
  "\<not> z2_oob (glob (pinit zad2)) \<and> fst (zad2_QueuePut CHR ''a'' (z2_queue (glob (pinit zad2)))) = 0"
  using zad2_no_loss [OF preach.start [of zad2 "\<lambda>_. True"], where x = "CHR ''a''"] by blast

text \<open>Mutual exclusion in \<open>zad2.c\<close>: while the special writer copies into the library or is about to give the semaphore back,
  no reader is reading.\<close>

theorem zad2_mutual_exclusion:
  assumes "preach zad2 ok s" "i < length (thr s)" "j < length (thr s)"
    and "thr s ! i = Some (S2 p)" "z2_publishing p"
  shows "thr s ! j \<noteq> Some (R2 RWait2)"
proof
  assume r: "thr s ! j = Some (R2 RWait2)"
  have "zad1_inv (z2_sems (glob s)) (map z2_as_zad1 (thr s))"
    using z2sem.reach_inv [OF assms(1)] by (simp add: zad2_sem_inv_def)
  moreover have "i \<noteq> j" using assms(4) r by auto
  ultimately show False using zad1_inv_exclusion [of _ _ i j] assms(2-5) r by fastforce
qed

lemma zad2_demo:
  "(case psched zad2 (pinit zad2) (replicate 9 None @ concat (map (\<lambda>i. replicate 4 (Some i)) [0..<8]) @ replicate n (Some 8)) of
      None \<Rightarrow> False
    | Some s \<Rightarrow> length (thr s) = 15 \<and> thr s ! 8 = Some (if n = 8 then S2 (S2Copy ''ABC'') else S2 S2Blocked)
        \<and> (\<forall>i \<in> set [0..<8]. thr s ! i = Some (W2 i W2End)))" if "n = 8 \<or> n = (28 :: nat)"
proof -
  have "(case psched zad2 (pinit zad2) (replicate 9 None @ concat (map (\<lambda>i. replicate 4 (Some i)) [0..<8]) @ replicate 8 (Some 8)) of
      None \<Rightarrow> False
    | Some s \<Rightarrow> length (thr s) = 15 \<and> thr s ! 8 = Some (S2 (S2Copy ''ABC''))
        \<and> (\<forall>i \<in> set [0..<8]. thr s ! i = Some (W2 i W2End)))" by code_simp
  moreover have "(case psched zad2 (pinit zad2) (replicate 9 None @ concat (map (\<lambda>i. replicate 4 (Some i)) [0..<8]) @ replicate 28 (Some 8)) of
      None \<Rightarrow> False
    | Some s \<Rightarrow> length (thr s) = 15 \<and> thr s ! 8 = Some (S2 S2Blocked)
        \<and> (\<forall>i \<in> set [0..<8]. thr s ! i = Some (W2 i W2End)))" by code_simp
  ultimately show ?thesis using that by auto
qed

lemma zad2_demo_reach:
  assumes "n = 8 \<or> n = (28 :: nat)"
  obtains s where "preach zad2 (\<lambda>_. True) s" "length (thr s) = 15" "\<forall>i < 8. thr s ! i = Some (W2 i W2End)"
    "thr s ! 8 = Some (if n = 8 then S2 (S2Copy ''ABC'') else S2 S2Blocked)"
proof -
  obtain s where s: "psched zad2 (pinit zad2)
      (replicate 9 None @ concat (map (\<lambda>i. replicate 4 (Some i)) [0..<8]) @ replicate n (Some 8)) = Some s"
    using zad2_demo [OF assms]
    by (cases "psched zad2 (pinit zad2)
      (replicate 9 None @ concat (map (\<lambda>i. replicate 4 (Some i)) [0..<8]) @ replicate n (Some 8))") auto
  show thesis
  proof (rule that [OF psched_reach_init [OF s]])
    show "length (thr s) = 15" "thr s ! 8 = Some (if n = 8 then S2 (S2Copy ''ABC'') else S2 S2Blocked)"
      using zad2_demo [OF assms] unfolding s by simp_all
    have "\<forall>i \<in> set [0..<8]. thr s ! i = Some (W2 i W2End)" using zad2_demo [OF assms] unfolding s by simp
    then show "\<forall>i < 8. thr s ! i = Some (W2 i W2End)" by simp
  qed
qed

theorem zad2_mutual_exclusion_witness:
  "\<exists>s. preach zad2 (\<lambda>_. True) s \<and> thr s ! 8 = Some (S2 (S2Copy ''ABC'')) \<and> thr s ! 14 \<noteq> Some (R2 RWait2)"
proof -
  obtain s where s: "preach zad2 (\<lambda>_. True) s" "length (thr s) = 15" "thr s ! 8 = Some (S2 (S2Copy ''ABC''))"
    by (rule zad2_demo_reach [of 8]) simp_all
  then show ?thesis using zad2_mutual_exclusion [OF s(1), of 8 14 "S2Copy ''ABC''"] by auto
qed

text \<open>What is left over in \<open>zad2.c\<close>: once all eight writers have ended and the special writer waits on the condition variable,
  six characters are in the library and two stay in the queue for good.\<close>

theorem zad2_leftover:
  assumes "preach zad2 ok s" "\<forall>i < 8. thr s ! i = Some (W2 i W2End)" "thr s ! 8 = Some (S2 S2Blocked)"
  shows "z2_top (glob s) = 6 \<and> r_len (z2_queue (glob s)) = 2"
proof -
  note inv = z2.reach_inv [OF assms(1)] and I = zad2_invD [OF z2.reach_inv [OF assms(1)]]
  have n: "length (thr s) = 15" using z2.reach_main_ok [OF assms(1)] by (simp add: zad2_def)
  have "int 8 \<le> cnt (\<lambda>t. z2_put t \<noteq> []) (thr s)" using n assms(2) by (intro cnt_at_least) auto
  then have put: "wsum (\<lambda>t. int (length (z2_put t))) (thr s) = 8"
    using z2_total(2) [OF inv] unfolding z2_put_cnt by simp
  have i: "8 < length (thr s)" using n by simp
  have hand0: "z2_hand t = [] \<and> z2_copying t = []" if "t \<in> set (thr s)" for t
  proof (rule ccontr)
    assume "\<not> (z2_hand t = [] \<and> z2_copying t = [])"
    then have "z2_hand t \<noteq> []" by (cases t rule: z2_hand.cases) auto
    moreover have "cnt (\<lambda>t. z2_hand t \<noteq> []) (thr s) = 0"
      using z2_single(2) [OF inv i assms(3), of "\<lambda>t. z2_hand t \<noteq> []"] z2_hand_special by simp
    ultimately show False using that by (auto simp: cnt_zero_iff)
  qed
  then have z: "wsum (\<lambda>t. int (length (z2_hand t))) (thr s) = 0" "wsum (\<lambda>t. int (length (z2_copying t))) (thr s) = 0"
    by (auto intro!: wsum_zero)
  have "1 \<le> cnt ((=) (Some (S2 S2Blocked))) (thr s)" using i assms(3) by (intro cnt_pos [of 8]) auto
  moreover have "cnt (\<lambda>t. \<exists>j. t = Some (W2 j W2Test)) (thr s) = 0"
    unfolding cnt_zero_iff
  proof (intro ballI notI)
    fix t assume "t \<in> set (thr s)" "\<exists>j. t = Some (W2 j W2Test)"
    then obtain k j where k: "k < length (thr s)" "thr s ! k = Some (W2 j W2Test)" by (auto simp: in_set_conv_nth)
    with I(5) have "k < 8" by fastforce
    with assms(2) k(2) show False by simp
  qed
  ultimately have "r_len (z2_queue (glob s)) < 3" using I(8) by linarith
  moreover have "0 \<le> r_len (z2_queue (glob s))" using ring_content_length [OF I(2)] by linarith
  moreover have "z2_top (glob s) + r_len (z2_queue (glob s)) = 8" using z2_total(1) [OF inv] put z(1) by simp
  moreover have "z2_top (glob s) mod 3 = 0" using I(7) z(2) by simp
  ultimately show ?thesis by presburger
qed

theorem zad2_leftover_witness:
  "\<exists>s. preach zad2 (\<lambda>_. True) s \<and> thr s ! 8 = Some (S2 S2Blocked) \<and> z2_top (glob s) = 6 \<and> r_len (z2_queue (glob s)) = 2"
proof -
  obtain s where s: "preach zad2 (\<lambda>_. True) s" "\<forall>i < 8. thr s ! i = Some (W2 i W2End)" "thr s ! 8 = Some (S2 S2Blocked)"
    by (rule zad2_demo_reach [of 28]) simp_all
  then show ?thesis using zad2_leftover [OF s] by blast
qed

lemma zad2_special_never_ends: "preach zad2 ok s \<Longrightarrow> \<not> ended zad2 s (last zad2_joins)"
proof
  assume r: "preach zad2 ok s" and "ended zad2 s (last zad2_joins)"
  then obtain p where p: "8 < length (thr s)" "thr s ! 8 = Some p" "zad2_final p"
    by (auto simp: ended_def zad2_joins_def zad2_def)
  then have "z2_local (glob s) 8 (Some p)" using zad2_invD(5) [OF z2.reach_inv [OF r]] by metis
  with p(3) show False by (cases p) auto
qed

text \<open>\<open>main\<close> of \<open>zad2.c\<close> never returns: it joins the special writer last, and that thread never ends.\<close>

theorem zad2_main_never_returns:
  assumes "preach zad2 ok s"
  shows "todo s \<noteq> []"
  using never_returns [OF z2.main_shape _ zad2_special_never_ends assms] by (simp add: zad2_joins_def)

theorem zad2_main_never_returns_witness: "todo (pinit zad2) \<noteq> []"
  by (rule zad2_main_never_returns [OF preach.start [of zad2 "\<lambda>_. True"]])

end
