(* ===== verification/Zad4.thy ===== *)
theory Zad4 imports ReadersWriters begin

text \<open>
  \<open>cw01/zad4/zad4.c\<close>: after each of eight writers a reviewer adds the character \<open>R\<close>; the two alternate by
  \<open>reviewer_state\<close> under one mutex and one condition variable, and six readers exclude them with the protocol of
  \<open>zad1.c\<close> in which the mutex takes the place of the second semaphore.  The mutex is the number of its owner or \<open>None\<close>; a
  reader may unlock it for another reader, which \<open>z4_foreign\<close> remembers.  The readers' protocol is
  related to \<open>zad1\<close> by mapping the state, so its invariant and its proof that nothing blocks are used again.
  Shown: the alternation in the library, mutual exclusion, that the program gets stuck only
  when sixteen characters are written, that \<open>main\<close> does not return, and that a foreign unlock happens.
\<close>

section \<open>The program\<close>

definition zad4_READERS_NUM :: nat where "zad4_READERS_NUM = 6"
definition zad4_WRITERS_NUM :: nat where "zad4_WRITERS_NUM = 8"
definition zad4_BOOKS :: nat where "zad4_BOOKS = 20"
definition REVIER_REQUIRED :: int where "REVIER_REQUIRED = 1"
definition REVIER_NOT_REQUIRED :: int where "REVIER_NOT_REQUIRED = 2"

text \<open>\<open>z4_oob\<close> is set when \<open>books\<close> is indexed out of its bounds.\<close>

record zad4_glob =
  z4_mutex :: "nat option"
  z4_books :: string
  z4_top :: int
  z4_state :: int
  z4_readerSem :: int
  z4_readers_count :: int
  z4_oob :: bool
  z4_foreign :: bool

text \<open>Writer and reviewer have the same program points; they differ in the test, in what they write and in what follows
  the unlock.  \<open>W4 me j p\<close> is thread \<open>me\<close> with the number \<open>j\<close> among the writers.\<close>

datatype zad4_wpc = W4Lock | W4Test | W4Blocked | W4Woken | W4Book | W4Top | W4Set | W4Cast | W4Unlock | W4End

datatype zad4_pc = W4 nat nat zad4_wpc | V4 nat zad4_wpc | R4 nat zad1_rpc

fun zad4_wake :: "zad4_pc \<Rightarrow> zad4_pc" where
  "zad4_wake (W4 me j W4Blocked) = W4 me j W4Woken"
| "zad4_wake (V4 me W4Blocked) = V4 me W4Woken"
| "zad4_wake p = p"

definition zad4_unlock :: "nat \<Rightarrow> zad4_glob \<Rightarrow> zad4_glob" where
  "zad4_unlock me g = g\<lparr>z4_mutex := None, z4_foreign := (z4_foreign g \<or> z4_mutex g \<noteq> Some me)\<rparr>"

definition zad4_store :: "char \<Rightarrow> zad4_glob \<Rightarrow> zad4_glob" where
  "zad4_store c g =
     (if 0 \<le> z4_top g \<and> z4_top g < int zad4_BOOKS then g\<lparr>z4_books := (z4_books g)[nat (z4_top g) := c]\<rparr>
      else g\<lparr>z4_oob := True\<rparr>)"

text \<open>\<open>pthread_cond_wait\<close> gives the mutex back and blocks in one step.\<close>

fun zad4_writer :: "zad4_glob \<Rightarrow> nat \<Rightarrow> nat \<Rightarrow> zad4_wpc \<Rightarrow> (zad4_glob \<times> zad4_wpc \<times> (zad4_pc \<Rightarrow> zad4_pc)) option" where
  "zad4_writer g me j W4Lock = (if z4_mutex g = None then Some (g\<lparr>z4_mutex := Some me\<rparr>, W4Test, \<lambda>p. p) else None)"
| "zad4_writer g me j W4Test =
     (if z4_state g = REVIER_REQUIRED then Some (zad4_unlock me g, W4Blocked, \<lambda>p. p) else Some (g, W4Book, \<lambda>p. p))"
| "zad4_writer g me j W4Blocked = None"
| "zad4_writer g me j W4Woken = (if z4_mutex g = None then Some (g\<lparr>z4_mutex := Some me\<rparr>, W4Test, \<lambda>p. p) else None)"
| "zad4_writer g me j W4Book = Some (zad4_store (book_char j) g, W4Top, \<lambda>p. p)"
| "zad4_writer g me j W4Top = Some (g\<lparr>z4_top := z4_top g + 1\<rparr>, W4Set, \<lambda>p. p)"
| "zad4_writer g me j W4Set = Some (g\<lparr>z4_state := REVIER_REQUIRED\<rparr>, W4Cast, \<lambda>p. p)"
| "zad4_writer g me j W4Cast = Some (g, W4Unlock, zad4_wake)"
| "zad4_writer g me j W4Unlock = Some (zad4_unlock me g, W4End, \<lambda>p. p)"
| "zad4_writer g me j W4End = None"

fun zad4_reviewer :: "zad4_glob \<Rightarrow> nat \<Rightarrow> zad4_wpc \<Rightarrow> (zad4_glob \<times> zad4_wpc \<times> (zad4_pc \<Rightarrow> zad4_pc)) option" where
  "zad4_reviewer g me W4Lock = (if z4_mutex g = None then Some (g\<lparr>z4_mutex := Some me\<rparr>, W4Test, \<lambda>p. p) else None)"
| "zad4_reviewer g me W4Test =
     (if z4_state g = REVIER_NOT_REQUIRED then Some (zad4_unlock me g, W4Blocked, \<lambda>p. p) else Some (g, W4Book, \<lambda>p. p))"
| "zad4_reviewer g me W4Blocked = None"
| "zad4_reviewer g me W4Woken = (if z4_mutex g = None then Some (g\<lparr>z4_mutex := Some me\<rparr>, W4Test, \<lambda>p. p) else None)"
| "zad4_reviewer g me W4Book = Some (zad4_store (CHR ''R'') g, W4Top, \<lambda>p. p)"
| "zad4_reviewer g me W4Top = Some (g\<lparr>z4_top := z4_top g + 1\<rparr>, W4Set, \<lambda>p. p)"
| "zad4_reviewer g me W4Set = Some (g\<lparr>z4_state := REVIER_NOT_REQUIRED\<rparr>, W4Cast, \<lambda>p. p)"
| "zad4_reviewer g me W4Cast = Some (g, W4Unlock, zad4_wake)"
| "zad4_reviewer g me W4Unlock = Some (zad4_unlock me g, W4Lock, \<lambda>p. p)"
| "zad4_reviewer g me W4End = None"

text \<open>The program points of \<open>reader\<close> are those of \<open>zad1.c\<close>.\<close>

fun zad4_reader :: "zad4_glob \<Rightarrow> nat \<Rightarrow> zad1_rpc \<Rightarrow> (zad4_glob \<times> zad1_rpc) option" where
  "zad4_reader g me RWait1 =
     (if 0 < z4_readerSem g then Some (g\<lparr>z4_readerSem := z4_readerSem g - 1\<rparr>, RInc) else None)"
| "zad4_reader g me RInc = Some (g\<lparr>z4_readers_count := z4_readers_count g + 1\<rparr>, RTest1)"
| "zad4_reader g me RTest1 = Some (g, if z4_readers_count g = 1 then RWaitW else RPost1)"
| "zad4_reader g me RWaitW = (if z4_mutex g = None then Some (g\<lparr>z4_mutex := Some me\<rparr>, RPost1) else None)"
| "zad4_reader g me RPost1 = Some (g\<lparr>z4_readerSem := z4_readerSem g + 1\<rparr>, RWait2)"
| "zad4_reader g me RWait2 =
     (if 0 < z4_readerSem g then Some (g\<lparr>z4_readerSem := z4_readerSem g - 1\<rparr>, RDec) else None)"
| "zad4_reader g me RDec = Some (g\<lparr>z4_readers_count := z4_readers_count g - 1\<rparr>, RTest0)"
| "zad4_reader g me RTest0 = Some (g, if z4_readers_count g = 0 then RPostW else RPost2)"
| "zad4_reader g me RPostW = Some (zad4_unlock me g, RPost2)"
| "zad4_reader g me RPost2 = Some (g\<lparr>z4_readerSem := z4_readerSem g + 1\<rparr>, REnd)"
| "zad4_reader g me REnd = None"

fun zad4_step :: "zad4_glob \<Rightarrow> zad4_pc \<Rightarrow> (zad4_glob \<times> zad4_pc \<times> (zad4_pc \<Rightarrow> zad4_pc)) option" where
  "zad4_step g (W4 me j p) = map_option (\<lambda>(g', p', w). (g', W4 me j p', w)) (zad4_writer g me j p)"
| "zad4_step g (V4 me p) = map_option (\<lambda>(g', p', w). (g', V4 me p', w)) (zad4_reviewer g me p)"
| "zad4_step g (R4 me p) = map_option (\<lambda>(g', p'). (g', R4 me p', \<lambda>p. p)) (zad4_reader g me p)"

fun zad4_spur :: "zad4_pc \<Rightarrow> zad4_pc option" where
  "zad4_spur (W4 me j W4Blocked) = Some (W4 me j W4Woken)"
| "zad4_spur (V4 me W4Blocked) = Some (V4 me W4Woken)"
| "zad4_spur p = None"

fun zad4_final :: "zad4_pc \<Rightarrow> bool" where
  "zad4_final (W4 me j p) = (p = W4End)"
| "zad4_final (V4 me p) = False"
| "zad4_final (R4 me p) = (p = REnd)"

text \<open>\<open>main\<close>: the reviewer is thread 0, writers are threads \<open>1..8\<close>, readers \<open>9..14\<close>; the reviewer is joined
  last.  \<open>spur\<close> says whether spurious wake-ups happen.\<close>

definition zad4_joins :: "nat list" where
  "zad4_joins = [1..<9] @ [9..<15] @ [0]"

definition zad4_main :: "mop list" where
  "zad4_main = pfork 15 zad4_joins"

definition zad4_init :: zad4_glob where
  "zad4_init = \<lparr>z4_mutex = None, z4_books = zeros zad4_BOOKS, z4_top = 0, z4_state = 2, z4_readerSem = 1,
     z4_readers_count = 0, z4_oob = False, z4_foreign = False\<rparr>"

definition zad4 :: "bool \<Rightarrow> (zad4_glob, zad4_pc) prog" where
  "zad4 spur = \<lparr>p_step = zad4_step, p_spur = (if spur then zad4_spur else (\<lambda>_. None)), p_final = zad4_final,
     p_start = (\<lambda>i. if i = 0 then V4 i W4Lock else if i \<le> zad4_WRITERS_NUM then W4 i (i - 1) W4Lock else R4 i RWait1),
     p_glob0 = zad4_init, p_threads = 15, p_main = zad4_main\<rparr>"

section \<open>The protocol of zad1\<close>

text \<open>Seen through mutex, semaphore and count, writers and reviewer are writers of \<open>zad1\<close> that come back.\<close>

definition z4_sems :: "zad4_glob \<Rightarrow> zad1_glob" where
  "z4_sems g = \<lparr>z1_readerSem = z4_readerSem g, z1_writerSem = (if z4_mutex g = None then 1 else 0),
     z1_readers_count = z4_readers_count g\<rparr>"

fun z4_holds :: "zad4_wpc \<Rightarrow> bool" where
  "z4_holds p = (p \<in> {W4Test, W4Book, W4Top, W4Set, W4Cast, W4Unlock})"

definition z4_wr :: "zad4_wpc \<Rightarrow> zad1_wpc" where
  "z4_wr p = (if z4_holds p then WPost else if p = W4Blocked \<or> p = W4End then WEnd else WWait)"

fun z4_as_zad1 :: "zad4_pc option \<Rightarrow> zad1_pc option" where
  "z4_as_zad1 (Some (W4 me j p)) = Some (Wr (z4_wr p))"
| "z4_as_zad1 (Some (V4 me p)) = Some (Wr (z4_wr p))"
| "z4_as_zad1 (Some (R4 me p)) = Some (Rd p)"
| "z4_as_zad1 None = None"

definition zad4_sem_inv :: "zad4_glob \<Rightarrow> zad4_pc option list \<Rightarrow> bool" where
  "zad4_sem_inv g ts \<longleftrightarrow> zad1_inv (z4_sems g) (map z4_as_zad1 ts)"

lemma zad4_reader_sems:
  assumes "zad4_reader g me p = Some (g', p')" "p = RPostW \<Longrightarrow> z4_mutex g \<noteq> None"
  shows "zad1_reader (z4_sems g) p = Some (z4_sems g', p')"
  using assms by (cases p) (auto simp: z4_sems_def zad4_unlock_def split: if_splits)

text \<open>What writer and reviewer have in common: both wait while the state is \<open>st\<close> and set it to \<open>st\<close>.\<close>

fun z4_worker ::
  "int \<Rightarrow> char \<Rightarrow> zad4_wpc \<Rightarrow> zad4_glob \<Rightarrow> nat \<Rightarrow> zad4_wpc \<Rightarrow> (zad4_glob \<times> zad4_wpc \<times> (zad4_pc \<Rightarrow> zad4_pc)) option" where
  "z4_worker st c e g me W4Lock = (if z4_mutex g = None then Some (g\<lparr>z4_mutex := Some me\<rparr>, W4Test, \<lambda>p. p) else None)"
| "z4_worker st c e g me W4Test =
     (if z4_state g = st then Some (zad4_unlock me g, W4Blocked, \<lambda>p. p) else Some (g, W4Book, \<lambda>p. p))"
| "z4_worker st c e g me W4Blocked = None"
| "z4_worker st c e g me W4Woken = (if z4_mutex g = None then Some (g\<lparr>z4_mutex := Some me\<rparr>, W4Test, \<lambda>p. p) else None)"
| "z4_worker st c e g me W4Book = Some (zad4_store c g, W4Top, \<lambda>p. p)"
| "z4_worker st c e g me W4Top = Some (g\<lparr>z4_top := z4_top g + 1\<rparr>, W4Set, \<lambda>p. p)"
| "z4_worker st c e g me W4Set = Some (g\<lparr>z4_state := st\<rparr>, W4Cast, \<lambda>p. p)"
| "z4_worker st c e g me W4Cast = Some (g, W4Unlock, zad4_wake)"
| "z4_worker st c e g me W4Unlock = Some (zad4_unlock me g, e, \<lambda>p. p)"
| "z4_worker st c e g me W4End = None"

lemma zad4_writer_worker: "zad4_writer g me j p = z4_worker 1 (book_char j) W4End g me p"
  by (cases p) (simp_all add: REVIER_REQUIRED_def)

lemma zad4_reviewer_worker: "zad4_reviewer g me p = z4_worker 2 (CHR ''R'') W4Lock g me p"
  by (cases p) (simp_all add: REVIER_NOT_REQUIRED_def)

text \<open>A thread as a worker: the state it waits for, its character and its program point.\<close>

fun z4_work :: "zad4_pc option \<Rightarrow> (int \<times> char \<times> zad4_wpc) option" where
  "z4_work (Some (W4 me j p)) = Some (1, book_char j, p)"
| "z4_work (Some (V4 me p)) = Some (2, CHR ''R'', p)"
| "z4_work t = None"

section \<open>The invariant\<close>

definition z4_at :: "zad4_wpc \<Rightarrow> zad4_pc option \<Rightarrow> bool" where
  "z4_at q t \<longleftrightarrow> (case z4_work t of Some (st, c, p) \<Rightarrow> p = q | None \<Rightarrow> False)"

definition z4_at_st :: "int \<Rightarrow> zad4_wpc \<Rightarrow> zad4_pc option \<Rightarrow> bool" where
  "z4_at_st st' q t \<longleftrightarrow> (case z4_work t of Some (st, c, p) \<Rightarrow> st = st' \<and> p = q | None \<Rightarrow> False)"

text \<open>A writer that has written, and the character of a thread.\<close>

definition z4_written :: "zad4_pc option \<Rightarrow> bool" where
  "z4_written t \<longleftrightarrow> (case z4_work t of
     Some (st, c, p) \<Rightarrow> st = 1 \<and> (p = W4Set \<or> p = W4Cast \<or> p = W4Unlock \<or> p = W4End) | None \<Rightarrow> False)"

definition z4_wrote :: "char \<Rightarrow> zad4_pc option \<Rightarrow> bool" where
  "z4_wrote c' t \<longleftrightarrow> z4_written t \<and> (case z4_work t of Some (st, c, p) \<Rightarrow> c' = c | None \<Rightarrow> False)"

fun z4_alternate :: "string \<Rightarrow> string" where
  "z4_alternate [] = []"
| "z4_alternate (c # cs) = c # CHR ''R'' # z4_alternate cs"

fun z4_pos :: "nat \<Rightarrow> zad4_pc option \<Rightarrow> bool" where
  "z4_pos i None = True"
| "z4_pos i (Some (W4 me j p)) = (me = i \<and> 1 \<le> i \<and> i \<le> 8 \<and> j = i - 1)"
| "z4_pos i (Some (V4 me p)) = (me = i \<and> i = 0 \<and> p \<noteq> W4End)"
| "z4_pos i (Some (R4 me p)) = (me = i \<and> 9 \<le> i)"

definition z4_phase :: "zad4_glob \<Rightarrow> nat \<Rightarrow> zad4_pc option \<Rightarrow> bool" where
  "z4_phase g i t \<longleftrightarrow> (case z4_work t of None \<Rightarrow> True | Some (st, c, p) \<Rightarrow> z4_holds p \<longrightarrow> z4_mutex g = Some i
     \<and> (p = W4Book \<or> p = W4Top \<or> p = W4Set \<longrightarrow> z4_state g = 3 - st)
     \<and> (p = W4Cast \<or> p = W4Unlock \<longrightarrow> z4_state g = st)
     \<and> (p = W4Top \<longrightarrow> z4_books g ! nat (z4_top g) = c))"

definition z4_shape :: "zad4_glob \<Rightarrow> zad4_pc option list \<Rightarrow> bool" where
  "z4_shape g ts \<longleftrightarrow> (\<forall>i < length ts. z4_pos i (ts ! i) \<and> z4_phase g i (ts ! i)) \<and> (z4_state g = 1 \<or> z4_state g = 2)
     \<and> 0 \<le> z4_top g \<and> \<not> z4_oob g \<and> length (z4_books g) = 20"

text \<open>The state says whether a review is due, except while it is about to be set.\<close>

definition z4_parity :: "zad4_glob \<Rightarrow> zad4_pc option list \<Rightarrow> bool" where
  "z4_parity g ts \<longleftrightarrow> odd (z4_top g) = ((z4_state g = 1) \<noteq> (1 \<le> cnt (z4_at W4Set) ts))"

definition z4_text :: "zad4_glob \<Rightarrow> zad4_pc option list \<Rightarrow> bool" where
  "z4_text g ts \<longleftrightarrow> (z4_top g + 1) div 2 = cnt z4_written ts \<and> (\<exists>ws. length ws = nat ((z4_top g + 1) div 2)
     \<and> take (nat (z4_top g)) (z4_books g) = take (nat (z4_top g)) (z4_alternate ws)
     \<and> (\<forall>c. cnt ((=) c) ws = cnt (z4_wrote c) ts))"

text \<open>A thread that is blocked waits for the right state, or will be woken.\<close>

definition z4_woken :: "zad4_glob \<Rightarrow> zad4_pc option list \<Rightarrow> bool" where
  "z4_woken g ts \<longleftrightarrow> (\<forall>st \<in> {1, 2}. z4_state g = st \<or> cnt (z4_at_st st W4Blocked) ts = 0
     \<or> 1 \<le> cnt (z4_at_st (3 - st) W4Cast) ts)"

definition zad4_inv :: "zad4_glob \<Rightarrow> zad4_pc option list \<Rightarrow> bool" where
  "zad4_inv g ts \<longleftrightarrow> z4_shape g ts \<and> z4_parity g ts \<and> z4_text g ts \<and> z4_woken g ts \<and> zad4_sem_inv g ts"

lemma zad4_invD:
  assumes "zad4_inv g ts"
  shows "z4_shape g ts" "z4_parity g ts" "z4_text g ts" "z4_woken g ts" "zad4_sem_inv g ts"
  using assms unfolding zad4_inv_def by blast+

lemma z4_shapeD:
  assumes "zad4_inv g ts"
  shows "i < length ts \<Longrightarrow> z4_pos i (ts ! i)" "i < length ts \<Longrightarrow> z4_phase g i (ts ! i)" "z4_state g = 1 \<or> z4_state g = 2"
    "0 \<le> z4_top g" "\<not> z4_oob g" "length (z4_books g) = 20"
  using zad4_invD(1) [OF assms] unfolding z4_shape_def by blast+

lemma length_alternate [simp]: "length (z4_alternate ws) = 2 * length ws"
  by (induction ws) auto

lemma alternate_append [simp]: "z4_alternate (ws @ vs) = z4_alternate ws @ z4_alternate vs"
  by (induction ws) auto

lemma alternate_odd: "k < 2 * length ws \<Longrightarrow> odd k \<Longrightarrow> z4_alternate ws ! k = CHR ''R''"
proof (induction ws arbitrary: k)
  case (Cons w ws)
  then show ?case by (cases k; cases "k - 1") auto
qed simp

lemma z4_work_some: "z4_work t = Some (st, c, p) \<Longrightarrow> st = 1 \<or> st = 2"
  by (cases t rule: z4_work.cases) auto

text \<open>The characters written so far number half the books, rounded up, so there is always room.\<close>

lemma z4_top_le:
  assumes "zad4_inv g ts"
  shows "z4_top g \<le> 16"
proof -
  have "cnt z4_written ts \<le> int 8"
  proof -
    have "cnt z4_written ts = cnt z4_written (tl ts)" if "ts \<noteq> []"
    proof -
      have "z4_pos 0 (hd ts)" using that z4_shapeD(1) [OF assms, of 0] by (simp add: hd_conv_nth)
      then have "\<not> z4_written (hd ts)" by (cases "hd ts" rule: z4_work.cases) (auto simp: z4_written_def)
      then show ?thesis using that by (cases ts) (auto simp: cnt_def)
    qed
    moreover have "cnt z4_written (tl ts) \<le> int 8"
    proof (rule cnt_below)
      fix i assume i: "i < length (tl ts)" "z4_written (tl ts ! i)"
      then have "z4_pos (Suc i) (tl ts ! i)" using z4_shapeD(1) [OF assms, of "Suc i"] by (cases ts) auto
      then show "i < 8" using i(2) by (cases "tl ts ! i" rule: z4_work.cases) (auto simp: z4_written_def)
    qed
    ultimately show ?thesis by (cases "ts = []") simp_all
  qed
  moreover have "(z4_top g + 1) div 2 = cnt z4_written ts" using zad4_invD(3) [OF assms] by (simp add: z4_text_def)
  ultimately show ?thesis by linarith
qed

text \<open>At most one worker holds the mutex.\<close>

lemma z4_holder:
  assumes "zad4_inv g ts" "i < length ts" "z4_work (ts ! i) = Some (st, c, p)" "z4_holds p"
  shows "z4_mutex g = Some i"
  using z4_shapeD(2) [OF assms(1,2)] assms(3,4) by (simp add: z4_phase_def del: z4_holds.simps)

lemma z4_alone:
  assumes "zad4_inv g ts" "i < length ts" "z4_mutex g = None \<or> z4_mutex g = Some i"
    and "z4_holds q" "j < length ts" "z4_at_st st q (ts ! j) \<or> z4_at q (ts ! j)"
  shows "j = i"
proof -
  obtain st c where "z4_work (ts ! j) = Some (st, c, q)"
    using assms(6) by (auto simp: z4_at_st_def z4_at_def split: option.splits)
  then show ?thesis using z4_holder [OF assms(1,5) _ assms(4)] assms(3) by fastforce
qed

lemma z4_cnt_alone:
  assumes "zad4_inv g ts" "i < length ts" "z4_mutex g = None \<or> z4_mutex g = Some i" "z4_holds q"
  shows "cnt (z4_at q) ts = of_bool (z4_at q (ts ! i))" "cnt (z4_at_st st q) ts = of_bool (z4_at_st st q (ts ! i))"
proof -
  have one: "cnt P ts = of_bool (P (ts ! i))" if P: "\<And>j. j < length ts \<Longrightarrow> P (ts ! j) \<Longrightarrow> j = i" "\<not> P None" for P
  proof -
    have "cnt P (ts[i := None]) = 0"
      using P assms(2) by (auto simp: cnt_zero_iff in_set_conv_nth nth_list_update split: if_splits)
    then show ?thesis using cnt_upd [OF assms(2), of P None] P(2) by simp
  qed
  show "cnt (z4_at q) ts = of_bool (z4_at q (ts ! i))"
    by (rule one) (use z4_alone [OF assms] in \<open>auto simp: z4_at_def\<close>)
  show "cnt (z4_at_st st q) ts = of_bool (z4_at_st st q (ts ! i))"
    by (rule one) (use z4_alone [OF assms] in \<open>auto simp: z4_at_st_def\<close>)
qed

section \<open>Steps of the workers\<close>

lemma z4_worker_cases:
  assumes "z4_worker st c e g me p = Some (g', p', w)"
  obtains (lock) "\<not> z4_holds p" "p \<noteq> W4Blocked" "p \<noteq> W4End" "z4_mutex g = None" "g' = g\<lparr>z4_mutex := Some me\<rparr>" "p' = W4Test" "w = (\<lambda>p. p)"
  | (wait) "p = W4Test" "z4_state g = st" "g' = zad4_unlock me g" "p' = W4Blocked" "w = (\<lambda>p. p)"
  | (pass) "p = W4Test" "z4_state g \<noteq> st" "g' = g" "p' = W4Book" "w = (\<lambda>p. p)"
  | (book) "p = W4Book" "g' = zad4_store c g" "p' = W4Top" "w = (\<lambda>p. p)"
  | (top) "p = W4Top" "g' = g\<lparr>z4_top := z4_top g + 1\<rparr>" "p' = W4Set" "w = (\<lambda>p. p)"
  | (set) "p = W4Set" "g' = g\<lparr>z4_state := st\<rparr>" "p' = W4Cast" "w = (\<lambda>p. p)"
  | (cast) "p = W4Cast" "g' = g" "p' = W4Unlock" "w = zad4_wake"
  | (unlock) "p = W4Unlock" "g' = zad4_unlock me g" "p' = e" "w = (\<lambda>p. p)"
  using assms by (cases p) (auto split: if_splits)

text \<open>Thread \<open>i\<close>, a worker at \<open>p\<close>, takes a step and becomes \<open>t'\<close>; at its broadcast the others are already woken.\<close>

definition z4_moves ::
  "zad4_glob \<Rightarrow> zad4_pc option list \<Rightarrow> nat \<Rightarrow> int \<Rightarrow> char \<Rightarrow> zad4_wpc \<Rightarrow> zad4_wpc \<Rightarrow> zad4_glob \<Rightarrow> zad4_wpc \<Rightarrow> zad4_pc option \<Rightarrow> bool" where
  "z4_moves g ts i st c p e g' p' t' \<longleftrightarrow> zad4_inv g ts \<and> i < length ts \<and> z4_work (ts ! i) = Some (st, c, p)
     \<and> (\<exists>w. z4_worker st c e g i p = Some (g', p', w)) \<and> e = (if st = 1 then W4End else W4Lock)
     \<and> z4_work t' = Some (st, c, p') \<and> z4_pos i t' \<and> (p = W4Cast \<longrightarrow> (\<forall>s. cnt (z4_at_st s W4Blocked) ts = 0))"

lemma z4_movesD:
  assumes "z4_moves g ts i st c p e g' p' t'"
  shows "zad4_inv g ts" "i < length ts" "z4_work (ts ! i) = Some (st, c, p)" "st = 1 \<or> st = 2"
    "e = (if st = 1 then W4End else W4Lock)" "z4_work t' = Some (st, c, p')" "z4_pos i t'"
    "p = W4Cast \<Longrightarrow> cnt (z4_at_st s W4Blocked) ts = 0" "\<not> z4_holds e \<and> e \<noteq> W4Blocked \<and> e \<noteq> W4Top \<and> e \<noteq> W4Set \<and> e \<noteq> W4Cast"
    "z4_phase g i (ts ! i)"
  using assms z4_work_some z4_shapeD(2) [of g ts i] unfolding z4_moves_def by auto

lemma z4_moves_cases:
  assumes "z4_moves g ts i st c p e g' p' t'"
  obtains (lock) "\<not> z4_holds p" "p \<noteq> W4Blocked" "p \<noteq> W4End" "z4_mutex g = None" "g' = g\<lparr>z4_mutex := Some i\<rparr>" "p' = W4Test"
  | (wait) "p = W4Test" "z4_state g = st" "g' = zad4_unlock i g" "p' = W4Blocked"
  | (pass) "p = W4Test" "z4_state g \<noteq> st" "g' = g" "p' = W4Book"
  | (book) "p = W4Book" "g' = g\<lparr>z4_books := (z4_books g)[nat (z4_top g) := c]\<rparr>" "p' = W4Top"
  | (top) "p = W4Top" "g' = g\<lparr>z4_top := z4_top g + 1\<rparr>" "p' = W4Set"
  | (set) "p = W4Set" "g' = g\<lparr>z4_state := st\<rparr>" "p' = W4Cast"
  | (cast) "p = W4Cast" "g' = g" "p' = W4Unlock"
  | (unlock) "p = W4Unlock" "g' = zad4_unlock i g" "p' = e"
proof -
  have fits: "zad4_store x g = g\<lparr>z4_books := (z4_books g)[nat (z4_top g) := x]\<rparr>" for x
    using z4_top_le [OF z4_movesD(1) [OF assms]] z4_shapeD(4) [OF z4_movesD(1) [OF assms]]
    by (simp add: zad4_store_def zad4_BOOKS_def)
  obtain w where "z4_worker st c e g i p = Some (g', p', w)" using assms unfolding z4_moves_def by blast
  then show thesis using that by (cases rule: z4_worker_cases) (simp_all add: fits)
qed

lemma z4_moves_owner:
  assumes "z4_moves g ts i st c p e g' p' t'"
  shows "z4_mutex g = None \<or> z4_mutex g = Some i"
  using assms z4_holder [OF z4_movesD(1-3) [OF assms]] by (cases rule: z4_moves_cases) auto

lemma z4_moves_phase:
  assumes "z4_moves g ts i st c p e g' p' t'"
  shows "z4_phase g' i t'"
proof -
  note m = z4_movesD [OF assms]
  show ?thesis using assms
  proof (cases rule: z4_moves_cases)
    case pass
    then have "z4_state g = 3 - st" using z4_shapeD(3) [OF m(1)] m(4) by auto
    then show ?thesis using pass m(3,6,10) by (simp add: z4_phase_def)
  next
    case book
    have "nat (z4_top g) < length (z4_books g)" using z4_top_le [OF m(1)] z4_shapeD(4,6) [OF m(1)] by simp
    then show ?thesis using book m(3,6,10) by (simp add: z4_phase_def)
  next
    case unlock
    then show ?thesis using m(6,9) by (auto simp: z4_phase_def m(5))
  qed (use m(3,6,10) in \<open>simp_all add: z4_phase_def\<close>)
qed

lemma z4_moves_shape:
  assumes "z4_moves g ts i st c p e g' p' t'"
  shows "z4_shape g' (ts[i := t'])"
proof -
  note m = z4_movesD [OF assms]
  have other: "z4_phase g' k (ts ! k)" if "k < length ts" "k \<noteq> i" for k
  proof (cases "z4_work (ts ! k)")
    case (Some x)
    obtain st' c' q where x: "x = (st', c', q)" by (cases x)
    have "\<not> z4_holds q" using z4_holder [OF m(1) that(1) Some [unfolded x]] z4_moves_owner [OF assms] that(2) by auto
    then show ?thesis using Some x by (auto simp: z4_phase_def)
  qed (simp add: z4_phase_def)
  have "z4_pos k (ts[i := t'] ! k) \<and> z4_phase g' k (ts[i := t'] ! k)" if "k < length ts" for k
    using that z4_moves_phase [OF assms] other m(7) z4_shapeD(1) [OF m(1)] by (cases "k = i") auto
  moreover have "(z4_state g' = 1 \<or> z4_state g' = 2) \<and> 0 \<le> z4_top g' \<and> \<not> z4_oob g' \<and> length (z4_books g') = 20"
    using assms z4_shapeD(3-6) [OF m(1)] m(4) by (cases rule: z4_moves_cases) (auto simp: zad4_unlock_def)
  ultimately show ?thesis by (simp add: z4_shape_def)
qed

text \<open>Only thread \<open>i\<close> can be at a point that holds the mutex.\<close>

lemma z4_moves_counts:
  assumes "z4_moves g ts i st c p e g' p' t'"
  shows "z4_holds q \<Longrightarrow> cnt (z4_at q) ts = of_bool (p = q)" "z4_holds q \<Longrightarrow> cnt (z4_at q) (ts[i := t']) = of_bool (p' = q)"
    "z4_holds q \<Longrightarrow> cnt (z4_at_st s q) ts = of_bool (st = s \<and> p = q)"
    "z4_holds q \<Longrightarrow> cnt (z4_at_st s q) (ts[i := t']) = of_bool (st = s \<and> p' = q)"
proof -
  note m = z4_movesD [OF assms]
  show a: "z4_holds q \<Longrightarrow> cnt (z4_at q) ts = of_bool (p = q)" and b: "z4_holds q \<Longrightarrow> cnt (z4_at_st s q) ts = of_bool (st = s \<and> p = q)" for q s
    using z4_cnt_alone [OF m(1,2) z4_moves_owner [OF assms], of q] m(3)
    by (simp_all add: z4_at_def z4_at_st_def del: z4_holds.simps)
  show "z4_holds q \<Longrightarrow> cnt (z4_at q) (ts[i := t']) = of_bool (p' = q)"
    "z4_holds q \<Longrightarrow> cnt (z4_at_st s q) (ts[i := t']) = of_bool (st = s \<and> p' = q)"
    using a [of q] b [of q s] m(2,3,6) by (auto simp: cnt_upd z4_at_def z4_at_st_def)
qed

lemma z4_moves_parity:
  assumes "z4_moves g ts i st c p e g' p' t'"
  shows "z4_parity g' (ts[i := t'])"
proof -
  note m = z4_movesD [OF assms] and counts = z4_moves_counts [OF assms]
  have P: "odd (z4_top g) = ((z4_state g = 1) \<noteq> (p = W4Set))"
    using zad4_invD(2) [OF m(1)] counts(1) [of W4Set] by (simp add: z4_parity_def of_bool_def split: if_splits)
  have ph: "p = W4Top \<or> p = W4Set \<Longrightarrow> z4_state g = 3 - st" using m(3,10) by (auto simp: z4_phase_def)
  have "odd (z4_top g') = ((z4_state g' = 1) \<noteq> (p' = W4Set))"
    using assms P ph m(4,9) by (cases rule: z4_moves_cases) (auto simp: zad4_unlock_def)
  then show ?thesis using counts(2) [of W4Set] by (simp add: z4_parity_def of_bool_def)
qed

lemma z4_moves_woken:
  assumes "z4_moves g ts i st c p e g' p' t'"
  shows "z4_woken g' (ts[i := t'])"
  unfolding z4_woken_def
proof
  note m = z4_movesD [OF assms] and counts = z4_moves_counts [OF assms]
  fix s :: int assume s: "s \<in> {1, 2}"
  have W: "z4_state g = s \<or> cnt (z4_at_st s W4Blocked) ts = 0 \<or> st = 3 - s \<and> p = W4Cast"
    using zad4_invD(4) [OF m(1)] s counts(3) [of W4Cast "3 - s"] by (auto simp: z4_woken_def of_bool_def split: if_splits)
  have blk: "cnt (z4_at_st s W4Blocked) (ts[i := t']) = cnt (z4_at_st s W4Blocked) ts + of_bool (st = s \<and> p' = W4Blocked)"
    using assms m(2,3,6,9) by (cases rule: z4_moves_cases) (auto simp: cnt_upd z4_at_st_def of_bool_def)
  have "z4_state g' = s \<or> cnt (z4_at_st s W4Blocked) (ts[i := t']) = 0 \<or> st = 3 - s \<and> p' = W4Cast"
    using assms
  proof (cases rule: z4_moves_cases)
    case cast
    then show ?thesis using m(8) blk by simp
  next
    case set
    then show ?thesis using m(4) s by auto
  qed (use W blk m(9) in \<open>auto simp: zad4_unlock_def\<close>)
  then show "z4_state g' = s \<or> cnt (z4_at_st s W4Blocked) (ts[i := t']) = 0 \<or> 1 \<le> cnt (z4_at_st (3 - s) W4Cast) (ts[i := t'])"
    using counts(4) [of W4Cast "3 - s"] by auto
qed

lemma z4_moves_text:
  assumes "z4_moves g ts i st c p e g' p' t'"
  shows "z4_text g' (ts[i := t'])"
proof -
  note m = z4_movesD [OF assms] and counts = z4_moves_counts [OF assms]
  obtain ws where ws: "(z4_top g + 1) div 2 = cnt z4_written ts" "length ws = nat ((z4_top g + 1) div 2)"
    "take (nat (z4_top g)) (z4_books g) = take (nat (z4_top g)) (z4_alternate ws)" "\<forall>x. cnt ((=) x) ws = cnt (z4_wrote x) ts"
    using zad4_invD(3) [OF m(1)] unfolding z4_text_def by blast
  have wr: "cnt z4_written (ts[i := t']) = cnt z4_written ts + of_bool (st = 1 \<and> p = W4Top)"
    "cnt (z4_wrote x) (ts[i := t']) = cnt (z4_wrote x) ts + of_bool (st = 1 \<and> p = W4Top \<and> x = c)" for x
    using assms m(2,3,5,6) by (cases rule: z4_moves_cases; auto simp: cnt_upd z4_written_def z4_wrote_def of_bool_def)+
  note top = z4_top_le [OF m(1)] z4_shapeD(4,6) [OF m(1)]
  show ?thesis
  proof (cases "p = W4Top")
    case False
    have "z4_top g' = z4_top g" "take (nat (z4_top g')) (z4_books g') = take (nat (z4_top g)) (z4_books g)"
      using assms False by (cases rule: z4_moves_cases; simp add: zad4_unlock_def)+
    with ws wr False show ?thesis unfolding z4_text_def by (intro conjI exI [of _ ws]) simp_all
  next
    case True
    have g': "g' = g\<lparr>z4_top := z4_top g + 1\<rparr>" using assms True by (cases rule: z4_moves_cases) auto
    have c: "z4_books g ! nat (z4_top g) = c" "z4_state g = 3 - st" using m(3,10) True by (auto simp: z4_phase_def)
    have P: "odd (z4_top g) = (z4_state g = 1)"
      using zad4_invD(2) [OF m(1)] counts(1) [of W4Set] True by (simp add: z4_parity_def)
    have n: "nat (z4_top g + 1) = Suc (nat (z4_top g))" using top by simp
    have tk: "take (nat (z4_top g')) (z4_books g') = take (nat (z4_top g)) (z4_alternate ws) @ [c]"
      using top c(1) ws(3) by (simp add: g' n take_Suc_conv_app_nth)
    show ?thesis
    proof (cases "st = 1")
      case wr1: True
      then have "even (z4_top g)" using P c(2) by simp
      then obtain h where "z4_top g = 2 * h" by (auto elim: evenE)
      then obtain m where h: "z4_top g = 2 * int m" using top(2) by (metis nat_0_le zero_le_mult_iff zero_le_numeral not_numeral_le_zero)
      have l: "length ws = m" "nat (z4_top g) = 2 * m" "nat (z4_top g') = Suc (2 * m)" using ws(2) h by (simp_all add: g')
      have "take (nat (z4_top g')) (z4_books g') = take (nat (z4_top g')) (z4_alternate (ws @ [c]))"
        using tk l by simp
      moreover have "(z4_top g' + 1) div 2 = cnt z4_written (ts[i := t'])" "length (ws @ [c]) = nat ((z4_top g' + 1) div 2)"
        using ws(1) l wr(1) True wr1 h by (simp_all add: g')
      moreover have "\<forall>x. cnt ((=) x) (ws @ [c]) = cnt (z4_wrote x) (ts[i := t'])"
        using ws(4) wr(2) True wr1 by (simp add: cnt_snoc)
      ultimately show ?thesis unfolding z4_text_def by blast
    next
      case False
      then have st2: "st = 2" using m(4) by blast
      then have "odd (z4_top g)" using P c(2) by simp
      then obtain h where "z4_top g = 2 * h + 1" by (auto elim: oddE)
      moreover from this have "0 \<le> h" using top(2) by linarith
      ultimately obtain m where h: "z4_top g = 2 * int m + 1" by (metis nat_0_le)
      have l: "length ws = Suc m" "nat (z4_top g) = Suc (2 * m)" "nat (z4_top g') = Suc (Suc (2 * m))"
        using ws(2) h by (simp_all add: g')
      have "c = CHR ''R''" using m(3) st2 by (cases "ts ! i" rule: z4_work.cases) auto
      moreover have "z4_alternate ws ! Suc (2 * m) = CHR ''R''" using l by (intro alternate_odd) simp_all
      ultimately have "take (nat (z4_top g)) (z4_alternate ws) @ [c] = take (nat (z4_top g')) (z4_alternate ws)"
        unfolding l using l(1) by (subst take_Suc_conv_app_nth [of "Suc (2 * m)"]) simp_all
      then have "take (nat (z4_top g')) (z4_books g') = take (nat (z4_top g')) (z4_alternate ws)" using tk by simp
      moreover have "(z4_top g' + 1) div 2 = cnt z4_written (ts[i := t'])" "length ws = nat ((z4_top g' + 1) div 2)"
        using ws(1,2) wr(1) st2 h by (simp_all add: g')
      moreover have "\<forall>x. cnt ((=) x) ws = cnt (z4_wrote x) (ts[i := t'])" using ws(4) wr(2) st2 by simp
      ultimately show ?thesis unfolding z4_text_def by blast
    qed
  qed
qed

lemma z4_as_work: "z4_work t = Some (st, c, p) \<Longrightarrow> z4_as_zad1 t = Some (Wr (z4_wr p))"
  by (cases t rule: z4_work.cases) auto

lemma z4_moves_sem:
  assumes "z4_moves g ts i st c p e g' p' t'"
  shows "zad4_sem_inv g' (ts[i := t'])"
proof -
  note m = z4_movesD [OF assms]
  have inv: "zad1_inv (z4_sems g) (map z4_as_zad1 ts)" using zad4_invD(5) [OF m(1)] by (simp add: zad4_sem_inv_def)
  have i: "i < length (map z4_as_zad1 ts)" "map z4_as_zad1 ts ! i = Some (Wr (z4_wr p))" using m(2,3) by (simp_all add: z4_as_work)
  have t': "map z4_as_zad1 (ts[i := t']) = (map z4_as_zad1 ts)[i := Some (Wr (z4_wr p'))]"
    using m(6) by (simp add: map_update z4_as_work)
  have release: "zad4_sem_inv (zad4_unlock i g) (ts[i := t'])" if r: "z4_holds p" "\<not> z4_holds p'"
  proof -
    have "z4_mutex g = Some i" by (rule z4_holder [OF m(1-3) r(1)])
    then have st: "zad1_writer (z4_sems g) WPost = Some (z4_sems (zad4_unlock i g), WEnd)"
      by (simp add: z4_sems_def zad4_unlock_def)
    have "z4_wr p = WPost" using r(1) by (simp add: z4_wr_def del: z4_holds.simps)
    with i have i': "map z4_as_zad1 ts ! i = Some (Wr WPost)" by simp
    have "zad1_inv (z4_sems (zad4_unlock i g)) ((map z4_as_zad1 ts)[i := Some (Wr WEnd)])"
      by (rule zad1_writer_inv [OF inv i(1) i' st])
    from zad1_inv_idle [OF this, of i "Some (Wr (z4_wr p'))"] i(1) r(2) show ?thesis
      by (simp add: zad4_sem_inv_def t' z4_wr_def del: z4_holds.simps)
  qed
  have stay: "zad4_sem_inv g' (ts[i := t'])" if "z4_wr p' = z4_wr p" "z4_sems g' = z4_sems g"
  proof -
    have "(map z4_as_zad1 ts)[i := Some (Wr (z4_wr p'))] = map z4_as_zad1 ts" using i that(1) by (metis list_update_id)
    then show ?thesis using inv that(2) by (simp add: zad4_sem_inv_def t')
  qed
  show ?thesis using assms
  proof (cases rule: z4_moves_cases)
    case lock
    then have "zad1_writer (z4_sems g) WWait = Some (z4_sems g', WPost)" by (simp add: z4_sems_def)
    moreover have "z4_wr p = WWait" "z4_wr p' = WPost" using lock by (simp_all add: z4_wr_def)
    ultimately show ?thesis using zad1_writer_inv [OF inv i(1), of WWait] i(2) by (simp add: zad4_sem_inv_def t')
  next
    case wait
    then show ?thesis using release by simp
  next
    case unlock
    then show ?thesis using release m(9) by simp
  qed (use stay in \<open>simp_all add: z4_wr_def z4_sems_def\<close>)
qed

lemma z4_moves_inv:
  assumes "z4_moves g ts i st c p e g' p' t'"
  shows "zad4_inv g' (ts[i := t'])"
  unfolding zad4_inv_def
  using z4_moves_shape [OF assms] z4_moves_parity [OF assms] z4_moves_text [OF assms] z4_moves_woken [OF assms]
    z4_moves_sem [OF assms] by blast

section \<open>Steps of the readers, wake-ups and creation\<close>

lemma zad1_postw_alone:
  assumes "zad1_inv g ts" "i < length ts" "ts ! i = Some (Rd RPostW)"
  shows "z1_writerSem g = 0" "cnt ((=) (Some (Wr WPost))) ts = 0"
proof -
  have "1 \<le> cnt ((=) (Some (Rd RPostW))) ts" using assms(2,3) by (simp add: cnt_pos)
  then have "z1_readers_count g = 0" using assms(1) unfolding zad1_inv_def by auto
  then show "z1_writerSem g = 0" "cnt ((=) (Some (Wr WPost))) ts = 0"
    using assms(1) \<open>1 \<le> cnt ((=) (Some (Rd RPostW))) ts\<close> cnt_nonneg [of "(=) (Some (Wr WPost))" ts]
      cnt_nonneg [of "(=) (Some (Rd RTest0))" ts] by (auto simp: zad1_inv_def)
qed

text \<open>Exchanging a thread that is no worker, in a state that agrees on what concerns the workers.\<close>

lemma z4_other_inv:
  assumes "zad4_inv g ts" "i < length ts" "z4_work (ts ! i) = None" "z4_work t' = None" "z4_pos i t'"
    and "z4_state g' = z4_state g" "z4_top g' = z4_top g" "z4_books g' = z4_books g" "z4_oob g' = z4_oob g"
    and mutex: "z4_mutex g' = z4_mutex g \<or> (\<forall>q. z4_holds q \<longrightarrow> cnt (z4_at q) ts = 0)"
    and sem: "zad4_sem_inv g' (ts[i := t'])"
  shows "zad4_inv g' (ts[i := t'])"
proof -
  note d = zad4_invD [OF assms(1)]
  have off: "z4_at q t' = z4_at q (ts ! i)" "z4_at_st s q t' = z4_at_st s q (ts ! i)" "z4_written t' = z4_written (ts ! i)"
    "z4_wrote x t' = z4_wrote x (ts ! i)" for q s x
    using assms(3,4) by (simp_all add: z4_at_def z4_at_st_def z4_written_def z4_wrote_def)
  have c: "cnt P (ts[i := t']) = cnt P ts" if "P t' = P (ts ! i)" for P
    using assms(2) that by (simp add: cnt_upd)
  have "z4_phase g' k (ts ! k)" if k: "k < length ts" for k
  proof (cases "z4_work (ts ! k)")
    case (Some x)
    obtain st' c' q where x: "x = (st', c', q)" by (cases x)
    note ph = z4_shapeD(2) [OF assms(1) k]
    show ?thesis
    proof (cases "z4_holds q")
      case True
      have "z4_at q (ts ! k)" using Some x by (simp add: z4_at_def)
      then have "1 \<le> cnt (z4_at q) ts" using k by (intro cnt_pos)
      then have "cnt (z4_at q) ts \<noteq> 0" by simp
      then have "z4_mutex g' = z4_mutex g" using mutex True by blast
      then show ?thesis using ph Some x True assms(6-8) by (simp add: z4_phase_def del: z4_holds.simps)
    next
      case False
      then show ?thesis using Some x by (auto simp: z4_phase_def)
    qed
  qed (simp add: z4_phase_def)
  moreover have "z4_phase g' i t'" using assms(4) by (simp add: z4_phase_def)
  ultimately have "z4_pos k (ts[i := t'] ! k) \<and> z4_phase g' k (ts[i := t'] ! k)" if "k < length ts" for k
    using that assms(2,5) z4_shapeD(1) [OF assms(1)] by (cases "k = i") auto
  then have "z4_shape g' (ts[i := t'])"
    using z4_shapeD(3-6) [OF assms(1)] by (simp add: z4_shape_def assms(6-9))
  moreover have "z4_parity g' (ts[i := t'])" using d(2) by (simp add: z4_parity_def c off assms(6-8))
  moreover have "z4_text g' (ts[i := t']) = z4_text g ts" by (simp add: z4_text_def c off assms(6-8))
  moreover have "z4_woken g' (ts[i := t'])" using d(4) by (simp add: z4_woken_def c off assms(6-8))
  ultimately show ?thesis using sem d(3) by (simp add: zad4_inv_def)
qed

lemma zad4_reader_inv:
  assumes "zad4_inv g ts" "i < length ts" "ts ! i = Some (R4 me p)" "zad4_reader g me p = Some (g', p')"
  shows "zad4_inv g' (ts[i := Some (R4 me p')])"
proof (rule z4_other_inv [OF assms(1,2)])
  have inv1: "zad1_inv (z4_sems g) (map z4_as_zad1 ts)" using zad4_invD(5) [OF assms(1)] by (simp add: zad4_sem_inv_def)
  have at: "i < length (map z4_as_zad1 ts)" "map z4_as_zad1 ts ! i = Some (Rd p)" using assms(2,3) by simp_all
  have nohold: "\<forall>q. z4_holds q \<longrightarrow> cnt (z4_at q) ts = 0" if P: "cnt ((=) (Some (Wr WPost))) (map z4_as_zad1 ts) = 0"
  proof (intro allI impI)
    fix q assume q: "z4_holds q"
    have "\<not> z4_at q t" if "t \<in> set ts" for t
    proof
      assume "z4_at q t"
      then obtain st c where "z4_work t = Some (st, c, q)" by (auto simp: z4_at_def split: option.splits)
      then have "z4_as_zad1 t = Some (Wr WPost)" using q by (simp add: z4_as_work z4_wr_def del: z4_holds.simps)
      moreover have "z4_as_zad1 t \<in> set (map z4_as_zad1 ts)" using \<open>t \<in> set ts\<close> by simp
      ultimately show False using P unfolding cnt_zero_iff by metis
    qed
    then show "cnt (z4_at q) ts = 0" by (simp add: cnt_zero_iff)
  qed
  have none: "z4_mutex g = None \<Longrightarrow> \<forall>q. z4_holds q \<longrightarrow> cnt (z4_at q) ts = 0"
    using z4_holder [OF assms(1)]
    by (fastforce simp: cnt_zero_iff in_set_conv_nth z4_at_def split: option.splits simp del: z4_holds.simps)
  have post: "p = RPostW \<Longrightarrow> z4_mutex g \<noteq> None \<and> (\<forall>q. z4_holds q \<longrightarrow> cnt (z4_at q) ts = 0)"
    using zad1_postw_alone [OF inv1 at(1)] at(2) nohold by (auto simp: z4_sems_def split: if_splits)
  show "z4_work (ts ! i) = None" "z4_work (Some (R4 me p')) = None" "z4_pos i (Some (R4 me p'))"
    using assms(3) z4_shapeD(1) [OF assms(1,2)] by auto
  show "z4_state g' = z4_state g" "z4_top g' = z4_top g" "z4_books g' = z4_books g" "z4_oob g' = z4_oob g"
    using assms(4) by (cases p; auto simp: zad4_unlock_def split: if_splits)+
  show "z4_mutex g' = z4_mutex g \<or> (\<forall>q. z4_holds q \<longrightarrow> cnt (z4_at q) ts = 0)"
  proof (cases "p = RWaitW \<or> p = RPostW")
    case True
    then have "z4_mutex g = None \<or> p = RPostW" using assms(4) by (auto split: if_splits)
    then show ?thesis using none post by blast
  next
    case False
    then have "z4_mutex g' = z4_mutex g" using assms(4) by (cases p) (auto split: if_splits)
    then show ?thesis ..
  qed
  have "zad1_reader (z4_sems g) p = Some (z4_sems g', p')" using zad4_reader_sems [OF assms(4)] post by blast
  from zad1_reader_inv [OF inv1 at this] show "zad4_sem_inv g' (ts[i := Some (R4 me p')])"
    by (simp add: zad4_sem_inv_def map_update)
qed

lemma zad4_wake_work:
  "z4_work (map_option zad4_wake t) = (case z4_work t of Some (st, c, p) \<Rightarrow> Some (st, c, if p = W4Blocked then W4Woken else p) | None \<Rightarrow> None)"
proof (cases t)
  case (Some p)
  then show ?thesis by (cases p rule: zad4_wake.cases) auto
qed simp

lemma zad4_wake_pos: "z4_pos i (map_option zad4_wake t) = z4_pos i t"
proof (cases t)
  case (Some p)
  then show ?thesis by (cases p rule: zad4_wake.cases) auto
qed simp

text \<open>Waking some of the blocked threads keeps the invariant.\<close>

lemma zad4_inv_wake:
  assumes inv: "zad4_inv g ts" and len: "length us = length ts"
    and us: "\<And>k. k < length ts \<Longrightarrow> us ! k = ts ! k \<or> us ! k = map_option zad4_wake (ts ! k)"
  shows "zad4_inv g us"
proof -
  note d = zad4_invD [OF inv]
  have w: "z4_work (us ! k) = z4_work (ts ! k) \<or>
      (\<exists>st c. z4_work (ts ! k) = Some (st, c, W4Blocked) \<and> z4_work (us ! k) = Some (st, c, W4Woken))" if "k < length ts" for k
    using us [OF that] by (auto simp: zad4_wake_work split: option.splits)
  have c: "cnt P us = cnt P ts" if "\<And>t t'. z4_work t = z4_work t' \<Longrightarrow> P t = P t'"
      "\<And>t st c. z4_work t = Some (st, c, W4Blocked) \<or> z4_work t = Some (st, c, W4Woken) \<Longrightarrow> \<not> P t" for P
    by (rule cnt_pointwise [OF len]) (use w that in metis)
  have at: "cnt (z4_at W4Set) us = cnt (z4_at W4Set) ts" "cnt (z4_at_st s W4Cast) us = cnt (z4_at_st s W4Cast) ts"
    "cnt z4_written us = cnt z4_written ts" "cnt (z4_wrote x) us = cnt (z4_wrote x) ts" for s x
    by (rule c; auto simp: z4_at_def z4_at_st_def z4_written_def z4_wrote_def)+
  have blk: "cnt (z4_at_st s W4Blocked) us = 0" if z: "cnt (z4_at_st s W4Blocked) ts = 0" for s
    unfolding cnt_zero_iff
  proof
    fix t assume "t \<in> set us"
    then obtain k where k: "k < length ts" "t = us ! k" using len by (auto simp: in_set_conv_nth)
    from w [OF k(1)] cnt_zero_nth [OF z k(1)] show "\<not> z4_at_st s W4Blocked t" by (auto simp: z4_at_st_def k(2))
  qed
  have "z4_pos k (us ! k) \<and> z4_phase g k (us ! k)" if k: "k < length ts" for k
  proof
    show "z4_pos k (us ! k)" using us [OF k] z4_shapeD(1) [OF inv k] by (auto simp: zad4_wake_pos)
    show "z4_phase g k (us ! k)" using w [OF k] z4_shapeD(2) [OF inv k] by (auto simp: z4_phase_def)
  qed
  then have "z4_shape g us" using z4_shapeD(3-6) [OF inv] len by (simp add: z4_shape_def)
  moreover have "z4_parity g us" using d(2) by (simp add: z4_parity_def at)
  moreover have "z4_text g us = z4_text g ts" by (simp add: z4_text_def at)
  moreover have "z4_woken g us" using d(4) blk by (auto simp: z4_woken_def at)
  moreover have "zad4_sem_inv g us"
  proof -
    have as: "z4_as_zad1 (us ! k) = z4_as_zad1 (ts ! k) \<or>
        z4_as_zad1 (ts ! k) = Some (Wr WEnd) \<and> z4_as_zad1 (us ! k) = Some (Wr WWait)" if k: "k < length ts" for k
      using us [OF k]
    proof
      assume u: "us ! k = map_option zad4_wake (ts ! k)"
      show ?thesis
      proof (cases "ts ! k")
        case (Some p)
        then show ?thesis using u by (cases p rule: zad4_wake.cases) (simp_all add: z4_wr_def)
      qed (use u in simp)
    qed simp
    have c: "cnt P (map z4_as_zad1 us) = cnt P (map z4_as_zad1 ts)" if "\<not> P (Some (Wr WEnd))" "\<not> P (Some (Wr WWait))" for P
      by (rule cnt_pointwise) (use len as that in \<open>auto, metis+\<close>)
    have "zad1_inv (z4_sems g) (map z4_as_zad1 us) = zad1_inv (z4_sems g) (map z4_as_zad1 ts)"
      by (simp add: zad1_inv_def c)
    then show ?thesis using d(5) by (simp add: zad4_sem_inv_def)
  qed
  ultimately show ?thesis using d(3) by (simp add: zad4_inv_def)
qed

lemma zad4_all_woken: "cnt (z4_at_st s W4Blocked) (map (map_option zad4_wake) ts) = 0"
proof -
  have "\<not> z4_at_st s W4Blocked (map_option zad4_wake t)" for t
    by (auto simp: z4_at_st_def zad4_wake_work split: option.splits)
  then show ?thesis by (auto simp: cnt_zero_iff)
qed

lemma zad4_step_cases:
  assumes "zad4_step g p = Some (g', p', w)"
  obtains (worker) st c e q q' where "z4_work (Some p) = Some (st, c, q)" "z4_work (Some p') = Some (st, c, q')"
    "e = (if st = 1 then W4End else W4Lock)" "\<And>i. z4_pos i (Some p) \<Longrightarrow> z4_worker st c e g i q = Some (g', q', w) \<and> z4_pos i (Some p')"
  | (reader) me q q' where "p = R4 me q" "p' = R4 me q'" "w = (\<lambda>p. p)" "zad4_reader g me q = Some (g', q')"
proof (cases p)
  case (W4 me j q)
  then obtain q' where q: "zad4_writer g me j q = Some (g', q', w)" "p' = W4 me j q'" using assms by auto
  then show thesis using W4 by (intro worker [of 1 "book_char j" q q' W4End]) (auto simp: zad4_writer_worker)
next
  case (V4 me q)
  then obtain q' where q: "zad4_reviewer g me q = Some (g', q', w)" "p' = V4 me q'" using assms by auto
  moreover have "q' \<noteq> W4End" using q(1) by (cases q) (auto split: if_splits)
  ultimately show thesis using V4 by (intro worker [of 2 "CHR ''R''" q q' W4Lock]) (auto simp: zad4_reviewer_worker)
next
  case (R4 me q)
  then show thesis using assms reader by auto
qed

interpretation z4: prog_inv "zad4 spur" zad4_joins zad4_inv for spur
proof unfold_locales
  show "p_main (zad4 spur) = pfork (p_threads (zad4 spur)) zad4_joins" by (simp add: zad4_def zad4_main_def)
  have "z4_text zad4_init (replicate 15 None)"
    unfolding z4_text_def by (intro conjI exI [of _ "[]"]) (simp_all add: zad4_init_def cnt_replicate z4_written_def z4_wrote_def)
  then have "zad4_inv zad4_init (replicate 15 None)"
    by (simp add: zad4_inv_def z4_shape_def z4_parity_def z4_woken_def zad4_init_def zad4_BOOKS_def cnt_replicate
        zad4_sem_inv_def z4_sems_def zad1_inv_def z4_phase_def z4_at_def z4_at_st_def)
  then show "zad4_inv (p_glob0 (zad4 spur)) (replicate (p_threads (zad4 spur)) None)" by (simp add: zad4_def)
next
  fix g ts i
  assume inv: "zad4_inv g ts" and i: "i < length ts" "length ts = p_threads (zad4 spur)" "ts ! i = None"
  let ?p = "p_start (zad4 spur) i"
  have p: "z4_pos i (Some ?p)" "(\<exists>st c. z4_work (Some ?p) = Some (st, c, W4Lock)) \<or> z4_work (Some ?p) = None"
    "z4_as_zad1 (Some ?p) \<in> {Some (Wr WWait), Some (Rd RWait1)}"
    by (auto simp: zad4_def zad4_WRITERS_NUM_def z4_wr_def)
  have c: "cnt P (ts[i := Some ?p]) = cnt P ts" if "\<not> P None" "\<not> P (Some ?p)" for P
    using that i(1,3) by (simp add: cnt_upd)
  have off: "\<not> z4_at W4Set (Some ?p)" "\<not> z4_at_st s W4Cast (Some ?p)" "\<not> z4_at_st s W4Blocked (Some ?p)" "\<not> z4_written (Some ?p)"
    "\<not> z4_wrote x (Some ?p)" "\<not> z4_at W4Set None" "\<not> z4_at_st s W4Cast None" "\<not> z4_at_st s W4Blocked None" "\<not> z4_written None"
    "\<not> z4_wrote x None" for s x
    using p(2) by (auto simp: z4_at_def z4_at_st_def z4_written_def z4_wrote_def)
  have "z4_phase g i (Some ?p)" using p(2) by (auto simp: z4_phase_def)
  then have "z4_pos k (ts[i := Some ?p] ! k) \<and> z4_phase g k (ts[i := Some ?p] ! k)" if "k < length ts" for k
    using that i(1) p(1) z4_shapeD(1,2) [OF inv] by (cases "k = i") auto
  then have "z4_shape g (ts[i := Some ?p])" using z4_shapeD(3-6) [OF inv] by (simp add: z4_shape_def)
  moreover have "zad4_sem_inv g (ts[i := Some ?p])"
    using zad4_invD(5) [OF inv] p(3) i unfolding zad4_sem_inv_def map_update by (intro zad1_inv_idle) auto
  moreover have "z4_parity g (ts[i := Some ?p]) = z4_parity g ts" "z4_text g (ts[i := Some ?p]) = z4_text g ts"
    "z4_woken g (ts[i := Some ?p]) = z4_woken g ts"
    by (simp_all add: z4_parity_def z4_text_def z4_woken_def c off)
  ultimately show "zad4_inv g (ts[i := Some ?p])" using zad4_invD(2-4) [OF inv] by (simp add: zad4_inv_def)
next
  fix g ts i p g' p' w
  assume inv: "zad4_inv g ts" and i: "i < length ts" "ts ! i = Some p" and st: "p_step (zad4 spur) g p = Some (g', p', w)"
  from st have "zad4_step g p = Some (g', p', w)" by (simp add: zad4_def)
  then show "zad4_inv g' ((map (map_option w) ts)[i := Some p'])"
  proof (cases rule: zad4_step_cases)
    case (worker st c e q q')
    have pos: "z4_pos i (Some p)" using z4_shapeD(1) [OF inv i(1)] i(2) by simp
    note wk = worker(4) [OF pos]
    show ?thesis
    proof (cases "q = W4Cast")
      case True
      then have g: "g' = g" "q' = W4Unlock" "w = zad4_wake" using wk by auto
      let ?us = "map (map_option zad4_wake) ts"
      have us: "zad4_inv g ?us" by (rule zad4_inv_wake [OF inv]) simp_all
      have "z4_moves g ?us i st c q e g' q' (Some p')"
        unfolding z4_moves_def
        using us i wk worker(1-3) True zad4_all_woken zad4_wake_work [of "Some p"] by auto
      then show ?thesis using z4_moves_inv g(3) by simp
    next
      case False
      have "w = (\<lambda>p. p)" using wk False by (auto elim: z4_worker_cases)
      moreover have "z4_moves g ts i st c q e g' q' (Some p')"
        unfolding z4_moves_def using inv i wk worker(1-3) False by auto
      ultimately show ?thesis using z4_moves_inv by simp
    qed
  next
    case (reader me q q')
    then show ?thesis using zad4_reader_inv [OF inv i(1)] i(2) by simp
  qed
next
  fix g ts i p p'
  assume inv: "zad4_inv g ts" and i: "i < length ts" "ts ! i = Some p" and sp: "p_spur (zad4 spur) p = Some p'"
  have "p' = zad4_wake p" using sp by (cases p rule: zad4_spur.cases) (auto simp: zad4_def split: if_splits)
  then show "zad4_inv g (ts[i := Some p'])"
    using i by (intro zad4_inv_wake [OF inv]) (auto simp: nth_list_update)
qed

section \<open>Properties\<close>

text \<open>C8.  In every reachable state of \<open>zad4.c\<close>, with or without spurious wake-ups, the library holds writers' characters and
  reviews in turn, beginning with a writer's; the writers' characters are exactly those of the writers
  that have written, and the array is never left.\<close>

theorem zad4_alternates:
  assumes "preach (zad4 spur) ok s"
  shows "\<not> z4_oob (glob s) \<and> 0 \<le> z4_top (glob s) \<and> z4_top (glob s) \<le> 16 \<and>
    (\<exists>ws. length ws = nat ((z4_top (glob s) + 1) div 2)
       \<and> take (nat (z4_top (glob s))) (z4_books (glob s)) = take (nat (z4_top (glob s))) (z4_alternate ws)
       \<and> (\<forall>c. length (filter ((=) c) ws) = length (filter (z4_wrote c) (thr s))))"
proof -
  note inv = z4.reach_inv [OF assms]
  obtain ws where "length ws = nat ((z4_top (glob s) + 1) div 2)"
    "take (nat (z4_top (glob s))) (z4_books (glob s)) = take (nat (z4_top (glob s))) (z4_alternate ws)"
    "\<forall>c. cnt ((=) c) ws = cnt (z4_wrote c) (thr s)"
    using zad4_invD(3) [OF inv] unfolding z4_text_def by blast
  then have "\<exists>ws. length ws = nat ((z4_top (glob s) + 1) div 2)
       \<and> take (nat (z4_top (glob s))) (z4_books (glob s)) = take (nat (z4_top (glob s))) (z4_alternate ws)
       \<and> (\<forall>c. length (filter ((=) c) ws) = length (filter (z4_wrote c) (thr s)))"
    by (intro exI [of _ ws]) (simp add: cnt_length)
  then show ?thesis using z4_shapeD(4,5) [OF inv] z4_top_le [OF inv] by blast
qed

lemma zad4_demo:
  "case psched (zad4 True) (pinit (zad4 True)) ([None, None, None] @ replicate 7 (Some 1) @ replicate 6 (Some 0)) of None \<Rightarrow> False
   | Some s \<Rightarrow> length (thr s) = 15 \<and> z4_top (glob s) = 2 \<and> z4_books (glob s) = ''AR'' @ zeros 18 \<and> thr s ! 0 = Some (V4 0 W4Unlock)
       \<and> thr s ! 2 = Some (W4 2 1 W4Lock)"
  by code_simp

lemma zad4_demo_reach:
  obtains s where "preach (zad4 True) (\<lambda>_. True) s" "length (thr s) = 15" "z4_top (glob s) = 2" "z4_books (glob s) = ''AR'' @ zeros 18"
    "thr s ! 0 = Some (V4 0 W4Unlock)" "thr s ! 2 = Some (W4 2 1 W4Lock)"
proof -
  obtain s where s: "psched (zad4 True) (pinit (zad4 True)) ([None, None, None] @ replicate 7 (Some 1) @ replicate 6 (Some 0)) = Some s"
    using zad4_demo
    by (cases "psched (zad4 True) (pinit (zad4 True)) ([None, None, None] @ replicate 7 (Some 1) @ replicate 6 (Some 0))") auto
  show thesis using that [OF psched_reach_init [OF s]] zad4_demo unfolding s by simp
qed

theorem zad4_alternates_witness:
  "\<exists>s ws. preach (zad4 True) (\<lambda>_. True) s \<and> z4_top (glob s) = 2 \<and> length ws = 1 \<and> take 2 (z4_books (glob s)) = z4_alternate ws
     \<and> length (filter ((=) (CHR ''A'')) ws) = length (filter (z4_wrote (CHR ''A'')) (thr s))"
proof -
  obtain s where s: "preach (zad4 True) (\<lambda>_. True) s" "z4_top (glob s) = 2" by (rule zad4_demo_reach)
  from zad4_alternates [OF s(1)] obtain ws where
    "length ws = 1 \<and> take 2 (z4_books (glob s)) = take 2 (z4_alternate ws)
      \<and> (\<forall>c. length (filter ((=) c) ws) = length (filter (z4_wrote c) (thr s)))"
    unfolding s(2) by auto
  then show ?thesis using s by (intro exI [of _ s] exI [of _ ws]) auto
qed

text \<open>Mutual exclusion in \<open>zad4.c\<close>: while a writer or the reviewer is between its lock and its unlock, no other one is, and no
  reader is reading; although a reader may unlock the mutex for another one, a writer and the reviewer always own it.\<close>

theorem zad4_mutual_exclusion:
  assumes "preach (zad4 spur) ok s" "i < length (thr s)" "j < length (thr s)" "i \<noteq> j"
    and "z4_work (thr s ! i) = Some (st, c, p)" "z4_holds p"
  shows "z4_mutex (glob s) = Some i \<and> (z4_work (thr s ! j) = Some (st', c', q) \<longrightarrow> \<not> z4_holds q) \<and> thr s ! j \<noteq> Some (R4 me RWait2)"
proof -
  note inv = z4.reach_inv [OF assms(1)]
  have m: "z4_mutex (glob s) = Some i" by (rule z4_holder [OF inv assms(2,5,6)])
  have "z4_work (thr s ! j) = Some (st', c', q) \<Longrightarrow> \<not> z4_holds q" using z4_holder [OF inv assms(3)] m assms(4) by fastforce
  moreover have "thr s ! j \<noteq> Some (R4 me RWait2)"
  proof
    assume r: "thr s ! j = Some (R4 me RWait2)"
    have "zad1_inv (z4_sems (glob s)) (map z4_as_zad1 (thr s))" using zad4_invD(5) [OF inv] by (simp add: zad4_sem_inv_def)
    moreover have "z4_as_zad1 (thr s ! i) = Some (Wr WPost)"
      using z4_as_work [OF assms(5)] assms(6) by (simp add: z4_wr_def del: z4_holds.simps)
    ultimately show False using zad1_inv_exclusion [of _ "map z4_as_zad1 (thr s)" i j] assms(2-4) r by simp
  qed
  ultimately show ?thesis using m by blast
qed

theorem zad4_mutual_exclusion_witness:
  "\<exists>s. preach (zad4 True) (\<lambda>_. True) s \<and> thr s ! 0 = Some (V4 0 W4Unlock) \<and> z4_mutex (glob s) = Some 0 \<and> \<not> z4_holds W4Lock"
proof -
  obtain s where s: "preach (zad4 True) (\<lambda>_. True) s" "length (thr s) = 15" "thr s ! 0 = Some (V4 0 W4Unlock)"
    "thr s ! 2 = Some (W4 2 1 W4Lock)" by (rule zad4_demo_reach)
  then show ?thesis
    using zad4_mutual_exclusion [OF s(1), of 0 2 2 "CHR ''R''" W4Unlock 1 "book_char 1" W4Lock] by (intro exI [of _ s]) auto
qed

lemma zad4_reviewer_never_ends: "preach (zad4 spur) ok s \<Longrightarrow> \<not> ended (zad4 spur) s (last zad4_joins)"
proof
  assume r: "preach (zad4 spur) ok s" and "ended (zad4 spur) s (last zad4_joins)"
  then obtain p where p: "0 < length (thr s)" "thr s ! 0 = Some p" "zad4_final p"
    by (auto simp: ended_def zad4_joins_def zad4_def)
  then have "z4_pos 0 (Some p)" using z4_shapeD(1) [OF z4.reach_inv [OF r] p(1)] by simp
  with p(3) show False by (cases p) auto
qed

lemma zad4_blocked_work:
  assumes "z4_work (Some p) = Some (st, c, q)" "zad4_step g p = None"
  shows "q = W4Blocked \<or> q = W4End \<or> (q = W4Lock \<or> q = W4Woken) \<and> z4_mutex g \<noteq> None"
proof (cases p)
  case (W4 me j q')
  then show ?thesis using assms by (cases q) (auto split: if_splits)
next
  case (V4 me q')
  then show ?thesis using assms by (cases q) (auto split: if_splits)
qed (use assms in simp)

text \<open>When every thread is blocked or has ended, the protocol of \<open>zad1\<close> leaves nobody waiting for mutex or semaphore.\<close>

lemma zad4_blocked:
  assumes inv: "zad4_inv g ts" and blk: "\<And>i p. i < length ts \<Longrightarrow> ts ! i = Some p \<Longrightarrow> zad4_step g p = None"
    and i: "i < length ts" "ts ! i = Some p"
  shows "(\<exists>me. p = R4 me REnd) \<or> (\<exists>st c q. z4_work (Some p) = Some (st, c, q) \<and> (q = W4Blocked \<or> q = W4End))"
proof -
  have inv1: "zad1_inv (z4_sems g) (map z4_as_zad1 ts)" using zad4_invD(5) [OF inv] by (simp add: zad4_sem_inv_def)
  have b: "zad1_step (z4_sems g) q = None" if k: "k < length ts" "z4_as_zad1 (ts ! k) = Some q" for k q
  proof (cases "ts ! k")
    case (Some r)
    note br = blk [OF k(1) Some]
    show ?thesis
    proof (cases "z4_work (Some r)")
      case None
      then obtain me x where r: "r = R4 me x" by (cases r) auto
      have "zad4_reader g me x = None" using br r by simp
      then have "zad1_reader (z4_sems g) x = None" by (cases x) (auto simp: z4_sems_def split: if_splits)
      then show ?thesis using k(2) Some r by auto
    next
      case (Some y)
      obtain st c z where y: "y = (st, c, z)" by (cases y)
      have "q = Wr (z4_wr z)" using z4_as_work [OF Some [unfolded y]] k(2) \<open>ts ! k = Some r\<close> by simp
      then show ?thesis using zad4_blocked_work [OF Some [unfolded y] br] by (auto simp: z4_wr_def z4_sems_def)
    qed
  qed (use k in simp)
  have f: "q = Wr WEnd \<or> q = Rd REnd" if "z4_as_zad1 (Some p) = Some q" for q
    by (rule zad1_blocked_final [OF inv1, of i]) (use b i that in auto)
  show ?thesis
  proof (cases "z4_work (Some p)")
    case None
    then obtain me x where "p = R4 me x" by (cases p) auto
    then show ?thesis using f by auto
  next
    case (Some y)
    obtain st c z where y: "y = (st, c, z)" by (cases y)
    have "z4_wr z = WEnd" using f [OF z4_as_work [OF Some [unfolded y]]] by simp
    then show ?thesis using Some y by (auto simp: z4_wr_def split: if_splits)
  qed
qed

lemma zad4_all_blocked:
  assumes inv: "zad4_inv g ts" and len: "length ts = 15"
    and all: "\<And>i. i < 15 \<Longrightarrow> \<exists>p. ts ! i = Some p \<and> zad4_step g p = None"
  shows "ts ! 0 = Some (V4 0 W4Blocked)" "\<forall>i \<in> {1..8}. ts ! i = Some (W4 i (i - 1) W4End)"
    "\<forall>i \<in> {9..14}. ts ! i = Some (R4 i REnd)" "z4_top g = 16"
proof -
  have at: "z4_pos i (ts ! i)" if "i < 15" for i using z4_shapeD(1) [OF inv] len that by simp
  have blk: "zad4_step g p = None" if "i < length ts" "ts ! i = Some p" for i p using all [of i] that len by auto
  have f: "(\<exists>me. ts ! i = Some (R4 me REnd)) \<or> (\<exists>st c q. z4_work (ts ! i) = Some (st, c, q) \<and> (q = W4Blocked \<or> q = W4End))"
    if lt: "i < 15" for i
  proof -
    obtain p where "ts ! i = Some p" using all [OF lt] by blast
    then show ?thesis using zad4_blocked [OF inv blk, where i = i and p = p] lt len by simp
  qed
  show rv: "ts ! 0 = Some (V4 0 W4Blocked)" using f [of 0] at [of 0] by (cases "ts ! 0" rule: z4_work.cases) auto
  show "\<forall>i \<in> {9..14}. ts ! i = Some (R4 i REnd)"
  proof
    fix i :: nat assume i: "i \<in> {9..14}"
    show "ts ! i = Some (R4 i REnd)" using f [of i] at [of i] i by (cases "ts ! i" rule: z4_work.cases) auto
  qed
  have no: "cnt (z4_at_st s q) ts = 0 \<and> cnt (z4_at q) ts = 0" if q: "q \<noteq> W4Blocked" "q \<noteq> W4End" for s q
  proof -
    have "\<not> z4_at_st s q t \<and> \<not> z4_at q t" if t: "t \<in> set ts" for t
    proof -
      obtain i where "i < 15" "ts ! i = t" using t len by (auto simp: in_set_conv_nth)
      then show ?thesis using f [of i] q by (auto simp: z4_at_st_def z4_at_def)
    qed
    then show ?thesis by (simp add: cnt_zero_iff)
  qed
  have "1 \<le> cnt (z4_at_st 2 W4Blocked) ts" using rv len by (intro cnt_pos [of 0]) (auto simp: z4_at_st_def)
  then have st: "z4_state g = 2" using zad4_invD(4) [OF inv] no [of W4Cast 1] by (auto simp: z4_woken_def)
  then have nb: "cnt (z4_at_st 1 W4Blocked) ts = 0" using zad4_invD(4) [OF inv] no [of W4Cast 2] by (auto simp: z4_woken_def)
  show wr: "\<forall>i \<in> {1..8}. ts ! i = Some (W4 i (i - 1) W4End)"
  proof
    fix i :: nat assume i: "i \<in> {1..8}"
    have "\<not> z4_at_st 1 W4Blocked (ts ! i)" using cnt_zero_nth [OF nb, of i] i len by simp
    then show "ts ! i = Some (W4 i (i - 1) W4End)"
      using f [of i] at [of i] i by (cases "ts ! i" rule: z4_work.cases) (auto simp: z4_at_st_def)
  qed
  have "int 8 \<le> cnt z4_written (tl ts)"
  proof (rule cnt_at_least)
    fix i :: nat assume "i < 8"
    then show "z4_written (tl ts ! i)" using wr len by (simp add: nth_tl z4_written_def)
  qed (simp add: len)
  moreover have "cnt z4_written ts = cnt z4_written (tl ts)"
    using rv len by (cases ts) (auto simp: cnt_def z4_written_def)
  moreover have "(z4_top g + 1) div 2 = cnt z4_written ts" using zad4_invD(3) [OF inv] unfolding z4_text_def by blast
  moreover have "even (z4_top g)" using zad4_invD(2) [OF inv] st no [of W4Set 1] by (simp add: z4_parity_def)
  ultimately show "z4_top g = 16" using z4_top_le [OF inv] by presburger
qed

text \<open>C9.  \<open>zad4.c\<close> loses no wake-up: without spurious wake-ups, and if every \<open>pthread_create\<close> succeeds, a reachable state in which neither a
  thread nor \<open>main\<close> can move is one where all writers and readers have ended, all sixteen characters are in the library, the reviewer waits for a
  writer that does not come, and \<open>main\<close> waits for the reviewer.\<close>

theorem zad4_stuck:
  assumes "preach (zad4 False) (\<lambda>_. True) s" "stuck (zad4 False) (\<lambda>_. True) s"
  shows "thr s ! 0 = Some (V4 0 W4Blocked) \<and> (\<forall>i \<in> {1..8}. thr s ! i = Some (W4 i (i - 1) W4End))
    \<and> (\<forall>i \<in> {9..14}. thr s ! i = Some (R4 i REnd)) \<and> z4_top (glob s) = 16 \<and> todo s = [Join 0]"
proof -
  note inv = z4.reach_inv [OF assms(1)] and shape = z4.main_shape [of False]
  have len: "length (thr s) = 15" using z4.reach_main_ok [OF assms(1)] by (simp add: zad4_def)
  have ne: "todo s \<noteq> []" using never_returns [OF shape _ zad4_reviewer_never_ends assms(1)] by (simp add: zad4_joins_def)
  then obtain m r where m: "todo s = m # r" by (cases "todo s") auto
  obtain j where j: "m = Join j" "\<not> (j < length (thr s) \<and> (\<exists>p. thr s ! j = Some p \<and> p_final (zad4 False) p))"
    using stuck_main [OF assms(2) m] by blast
  obtain k where k: "todo s = map Join (drop k zad4_joins)"
  proof -
    from main_joins [OF shape assms(1)] show thesis
    proof (elim disjE exE)
      fix k assume e: "todo s = map Create [k..<p_threads (zad4 False)] @ map Join zad4_joins"
      with m j(1) have "\<not> k < p_threads (zad4 False)" by (auto simp: upt_conv_Cons)
      with e have "todo s = map Join (drop 0 zad4_joins)" by simp
      then show thesis by (rule that)
    qed (rule that)
  qed
  have "creates (todo s) = []" unfolding k by (rule creates_Join)
  then have "\<exists>p. thr s ! i = Some p \<and> zad4_step (glob s) p = None" if "i < 15" for i
    using reach_created [OF shape assms(1)] that len stuck_thread [OF assms(2), of i]
    by (fastforce simp: created_ok_def zad4_def)
  note B = zad4_all_blocked [OF inv len this]
  have fin: "\<exists>p. thr s ! i = Some p \<and> zad4_final p" if "i \<in> {1..8} \<or> i \<in> {9..14}" for i using B(2,3) that by auto
  have "j = 0"
  proof (rule ccontr)
    assume "j \<noteq> 0"
    moreover have "Join j \<in> set (map Join (drop k zad4_joins))" using k m j(1) by (metis list.set_intros(1))
    then have "j \<in> set zad4_joins" by (auto dest: in_set_dropD)
    ultimately have "j \<in> {1..8} \<or> j \<in> {9..14}" by (auto simp: zad4_joins_def)
    moreover from this have "j < 15" by auto
    ultimately show False using j(2) fin [of j] len by (simp add: zad4_def)
  qed
  moreover have "hd (drop k zad4_joins) = j" "drop k zad4_joins \<noteq> []" using k m j(1) by (cases "drop k zad4_joins"; simp)+
  then have "k < 15" "zad4_joins ! k = j"
    by (simp_all add: hd_drop_conv_nth) (simp add: zad4_joins_def)
  moreover have "zad4_joins ! k \<noteq> 0" if "k < 14" for k
    using that by (auto simp: zad4_joins_def nth_append simp del: upt_rec_numeral)
  ultimately have "\<not> k < 14" by metis
  with \<open>k < 15\<close> have "k = 14" by simp
  moreover have "drop 14 zad4_joins = [0]" by code_simp
  ultimately have "todo s = [Join 0]" using k by simp
  with B show ?thesis by blast
qed

text \<open>The run that reaches that state without a detour: writers and reviewer in turn, then the readers one by one.\<close>

lemma zad4_to_the_end:
  "case psched (zad4 False) (pinit (zad4 False)) (replicate 15 None
      @ concat (map (\<lambda>i. replicate 7 (Some i) @ replicate 7 (Some 0)) [1..<9]) @ [Some 0, Some 0]
      @ concat (map (\<lambda>i. replicate 10 (Some i)) [9..<15]) @ replicate 14 None) of None \<Rightarrow> False
    | Some s \<Rightarrow> z4_top (glob s) = 16 \<and> idle (zad4 False) s"
  by code_simp

theorem zad4_stuck_witness: "\<exists>s. preach (zad4 False) (\<lambda>_. True) s \<and> z4_top (glob s) = 16 \<and> todo s = [Join 0]"
proof -
  obtain s where s: "preach (zad4 False) (\<lambda>_. True) s" "idle (zad4 False) s"
    using zad4_to_the_end psched_reach_init [of "zad4 False"] by (auto split: option.splits)
  have "stuck (zad4 False) (\<lambda>_. True) s" by (rule idle_stuck [OF s(2)]) (simp add: zad4_def)
  then show ?thesis using zad4_stuck [OF s(1)] s(1) by blast
qed

text \<open>The readers of \<open>zad4.c\<close> lock the mutex as a group: in a reachable state one of them has unlocked it for another.\<close>

theorem zad4_foreign_unlock:
  "\<exists>s. preach (zad4 False) (\<lambda>_. True) s \<and> z4_foreign (glob s) \<and> z4_mutex (glob s) = None"
proof -
  let ?x = "replicate 11 None @ replicate 4 (Some 9) @ [Some 9, Some 10, Some 10, Some 10, Some 10, Some 9, Some 9, Some 9, Some 9,
    Some 10, Some 10, Some 10, Some 10] :: nat option list"
  have "case psched (zad4 False) (pinit (zad4 False)) ?x of None \<Rightarrow> False
      | Some s \<Rightarrow> z4_foreign (glob s) \<and> z4_mutex (glob s) = None" by code_simp
  then show ?thesis using psched_reach_init [of "zad4 False" ?x] by (auto split: option.splits)
qed

text \<open>\<open>main\<close> of \<open>zad4.c\<close> does not return: it joins the reviewer, which never ends.\<close>

theorem zad4_main_never_returns:
  assumes "preach (zad4 spur) ok s"
  shows "todo s \<noteq> []"
  using never_returns [OF z4.main_shape _ zad4_reviewer_never_ends assms] by (simp add: zad4_joins_def)

theorem zad4_main_never_returns_witness: "todo (pinit (zad4 True)) \<noteq> []"
  by (rule zad4_main_never_returns [OF preach.start [of "zad4 True" "\<lambda>_. True"]])

end
