(* ===== verification/Zad6.thy ===== *)
theory Zad6 imports Threads BoundedQueue begin

text \<open>
  \<open>cw01/zad6/zad6.c\<close>: six writers and six readers take turns in batches of three over a queue of three characters,
  with one mutex, the condition variables \<open>cond_empty\<close> and \<open>cond_full\<close> and the flag \<open>writers_mode\<close>.
  \<open>zad6_glob\<close> holds the globals, \<open>zad6_pc\<close> the program points.  Shown: the mutex, what the flag says about the
  queue, that no put or get fails, that every character is read exactly once, that nobody sleeps through
  a change of mode, and that the program cannot deadlock, also without spurious wake-ups.
\<close>

section \<open>The program\<close>

definition zad6_READERS_NUM :: nat where "zad6_READERS_NUM = 6"
definition zad6_WRITERS_NUM :: nat where "zad6_WRITERS_NUM = 6"
definition zad6_QUEUE_ELEMENTS :: int where "zad6_QUEUE_ELEMENTS = 3"

record zad6_glob =
  z6_mutex :: bool
  z6_queue :: ring
  z6_mode :: bool        \<comment> \<open>\<open>writers_mode\<close>\<close>

datatype zad6_wpc = W6Lock | W6Test | W6Blocked | W6Woken | W6Put | W6Check | W6Unlock | W6End

text \<open>From \<open>R6Check\<close> on, a reader holds the character it has got.\<close>

datatype zad6_rpc = R6Lock | R6Test | R6Blocked | R6Woken | R6Get | R6Check char | R6Unlock char | R6End char

datatype zad6_pc = W6 nat zad6_wpc | R6 zad6_rpc

text \<open>The broadcasts on \<open>cond_full\<close> and on \<open>cond_empty\<close>.\<close>

fun zad6_wake_full :: "zad6_pc \<Rightarrow> zad6_pc" where
  "zad6_wake_full (R6 R6Blocked) = R6 R6Woken"
| "zad6_wake_full p = p"

fun zad6_wake_empty :: "zad6_pc \<Rightarrow> zad6_pc" where
  "zad6_wake_empty (W6 j W6Blocked) = W6 j W6Woken"
| "zad6_wake_empty p = p"

fun zad6_writer :: "zad6_glob \<Rightarrow> nat \<Rightarrow> zad6_wpc \<Rightarrow> (zad6_glob \<times> zad6_wpc \<times> (zad6_pc \<Rightarrow> zad6_pc)) option" where
  "zad6_writer g j W6Lock = (if z6_mutex g then None else Some (g\<lparr>z6_mutex := True\<rparr>, W6Test, \<lambda>p. p))"
| "zad6_writer g j W6Test =
     (if \<not> z6_mode g then Some (g\<lparr>z6_mutex := False\<rparr>, W6Blocked, \<lambda>p. p) else Some (g, W6Put, \<lambda>p. p))"
| "zad6_writer g j W6Blocked = None"
| "zad6_writer g j W6Woken = (if z6_mutex g then None else Some (g\<lparr>z6_mutex := True\<rparr>, W6Test, \<lambda>p. p))"
| "zad6_writer g j W6Put = Some (g\<lparr>z6_queue := snd (zad6_QueuePut (book_char j) (z6_queue g))\<rparr>, W6Check, \<lambda>p. p)"
| "zad6_writer g j W6Check =
     (if r_len (z6_queue g) = zad6_QUEUE_ELEMENTS then Some (g\<lparr>z6_mode := False\<rparr>, W6Unlock, zad6_wake_full)
      else Some (g, W6Unlock, \<lambda>p. p))"
| "zad6_writer g j W6Unlock = Some (g\<lparr>z6_mutex := False\<rparr>, W6End, \<lambda>p. p)"
| "zad6_writer g j W6End = None"

text \<open>The character of a failing \<open>QueueGet\<close> would be that of an uninitialised variable; it is shown that none fails.\<close>

fun zad6_reader :: "zad6_glob \<Rightarrow> zad6_rpc \<Rightarrow> (zad6_glob \<times> zad6_rpc \<times> (zad6_pc \<Rightarrow> zad6_pc)) option" where
  "zad6_reader g R6Lock = (if z6_mutex g then None else Some (g\<lparr>z6_mutex := True\<rparr>, R6Test, \<lambda>p. p))"
| "zad6_reader g R6Test =
     (if z6_mode g then Some (g\<lparr>z6_mutex := False\<rparr>, R6Blocked, \<lambda>p. p) else Some (g, R6Get, \<lambda>p. p))"
| "zad6_reader g R6Blocked = None"
| "zad6_reader g R6Woken = (if z6_mutex g then None else Some (g\<lparr>z6_mutex := True\<rparr>, R6Test, \<lambda>p. p))"
| "zad6_reader g R6Get =
     (case zad6_QueueGet NUL (z6_queue g) of (r, c, q) \<Rightarrow> Some (g\<lparr>z6_queue := q\<rparr>, R6Check c, \<lambda>p. p))"
| "zad6_reader g (R6Check c) =
     (if r_len (z6_queue g) = 0 then Some (g\<lparr>z6_mode := True\<rparr>, R6Unlock c, zad6_wake_empty)
      else Some (g, R6Unlock c, \<lambda>p. p))"
| "zad6_reader g (R6Unlock c) = Some (g\<lparr>z6_mutex := False\<rparr>, R6End c, \<lambda>p. p)"
| "zad6_reader g (R6End c) = None"

fun zad6_step :: "zad6_glob \<Rightarrow> zad6_pc \<Rightarrow> (zad6_glob \<times> zad6_pc \<times> (zad6_pc \<Rightarrow> zad6_pc)) option" where
  "zad6_step g (W6 j p) = map_option (\<lambda>(g', p', w). (g', W6 j p', w)) (zad6_writer g j p)"
| "zad6_step g (R6 p) = map_option (\<lambda>(g', p', w). (g', R6 p', w)) (zad6_reader g p)"

fun zad6_spur :: "zad6_pc \<Rightarrow> zad6_pc option" where
  "zad6_spur (W6 j W6Blocked) = Some (W6 j W6Woken)"
| "zad6_spur (R6 R6Blocked) = Some (R6 R6Woken)"
| "zad6_spur p = None"

fun zad6_final :: "zad6_pc \<Rightarrow> bool" where
  "zad6_final (W6 j p) = (p = W6End)"
| "zad6_final (R6 (R6End c)) = True"
| "zad6_final (R6 p) = False"

definition zad6_init :: zad6_glob where
  "zad6_init = \<lparr>z6_mutex = False, z6_queue = ring0 zad6_QUEUE_SIZE, z6_mode = True\<rparr>"

text \<open>\<open>main\<close> creates the writers, threads \<open>0..5\<close>, then the readers, threads \<open>6..11\<close>, and joins them in this order.
  \<open>spur\<close> says whether spurious wake-ups happen.\<close>

definition zad6_main :: "mop list" where
  "zad6_main = pfork 12 [0..<12]"

definition zad6 :: "bool \<Rightarrow> (zad6_glob, zad6_pc) prog" where
  "zad6 spur = \<lparr>p_step = zad6_step, p_spur = (if spur then zad6_spur else (\<lambda>_. None)), p_final = zad6_final,
     p_start = (\<lambda>i. if i < zad6_WRITERS_NUM then W6 i W6Lock else R6 R6Lock),
     p_glob0 = zad6_init, p_threads = 12, p_main = zad6_main\<rparr>"

section \<open>The invariant\<close>

fun z6_inside :: "zad6_pc option \<Rightarrow> bool" where
  "z6_inside (Some (W6 j p)) = (p = W6Test \<or> p = W6Put \<or> p = W6Check \<or> p = W6Unlock)"
| "z6_inside (Some (R6 p)) = (p = R6Test \<or> p = R6Get \<or> (\<exists>c. p = R6Check c \<or> p = R6Unlock c))"
| "z6_inside None = False"

fun z6_put :: "zad6_pc option \<Rightarrow> string" where
  "z6_put (Some (W6 j p)) = (if p = W6Check \<or> p = W6Unlock \<or> p = W6End then [book_char j] else [])"
| "z6_put t = []"

fun z6_got :: "zad6_pc option \<Rightarrow> string" where
  "z6_got (Some (R6 (R6Check c))) = [c]"
| "z6_got (Some (R6 (R6Unlock c))) = [c]"
| "z6_got (Some (R6 (R6End c))) = [c]"
| "z6_got t = []"

definition z6_weight :: "(char \<Rightarrow> bool) \<Rightarrow> zad6_pc option \<Rightarrow> int" where
  "z6_weight P t = int (length (filter P (z6_put t))) - int (length (filter P (z6_got t)))"

definition z6_puts :: "zad6_pc option list \<Rightarrow> int" where
  "z6_puts ts = cnt (\<lambda>t. z6_put t \<noteq> []) ts"

definition z6_gets :: "zad6_pc option list \<Rightarrow> int" where
  "z6_gets ts = cnt (\<lambda>t. z6_got t \<noteq> []) ts"

text \<open>What a thread inside knows, \<open>l\<close> being the length of the queue.\<close>

fun z6_local :: "bool \<Rightarrow> int \<Rightarrow> zad6_pc option \<Rightarrow> bool" where
  "z6_local m l (Some (W6 j W6Put)) = m"
| "z6_local m l (Some (W6 j W6Check)) = (m \<and> 1 \<le> l)"
| "z6_local m l (Some (R6 R6Get)) = (\<not> m)"
| "z6_local m l (Some (R6 (R6Check c))) = (\<not> m \<and> l \<le> 2)"
| "z6_local m l t = True"

fun z6_kind :: "nat \<Rightarrow> zad6_pc option \<Rightarrow> bool" where
  "z6_kind i None = True"
| "z6_kind i (Some (W6 j p)) = (i < 6 \<and> j = i)"
| "z6_kind i (Some (R6 p)) = (6 \<le> i)"

fun z6_checking :: "zad6_pc option \<Rightarrow> bool" where
  "z6_checking (Some (W6 j p)) = (p = W6Check)"
| "z6_checking (Some (R6 p)) = (\<exists>c. p = R6Check c)"
| "z6_checking None = False"

text \<open>The flag and the length of the queue: in the writers' mode a batch is being filled and all complete batches have
  been read, in the readers' mode a complete batch is being emptied; between an access and
  the check that follows it the batch may be just complete or just empty.\<close>

definition z6_batch :: "bool \<Rightarrow> int \<Rightarrow> int \<Rightarrow> int \<Rightarrow> bool \<Rightarrow> bool" where
  "z6_batch m l puts gets checking \<longleftrightarrow> puts - gets = l \<and> 0 \<le> l \<and> l \<le> 3 \<and>
     (if m then gets mod 3 = 0 \<and> (l \<le> 2 \<or> checking) else puts mod 3 = 0 \<and> (1 \<le> l \<or> checking))"

lemma one_le_of_bool: "(1 \<le> (of_bool b :: int)) = b"
  by (cases b) simp_all

lemma z6_batch_steps:
  "z6_batch True l p g False \<Longrightarrow> z6_batch True (l + 1) (p + 1) g True"
  "z6_batch True 3 p g True \<Longrightarrow> z6_batch False 3 p g False"
  "z6_batch True l p g True \<Longrightarrow> l \<noteq> 3 \<Longrightarrow> z6_batch True l p g False"
  "z6_batch False l p g False \<Longrightarrow> z6_batch False (l - 1) p (g + 1) True"
  "z6_batch False 0 p g True \<Longrightarrow> z6_batch True 0 p g False"
  "z6_batch False l p g True \<Longrightarrow> l \<noteq> 0 \<Longrightarrow> z6_batch False l p g False"
  unfolding z6_batch_def by presburger+

definition zad6_inv :: "zad6_glob \<Rightarrow> zad6_pc option list \<Rightarrow> bool" where
  "zad6_inv g ts \<longleftrightarrow>
     cnt z6_inside ts = of_bool (z6_mutex g) \<and>
     ring_ok 4 (z6_queue g) \<and>
     (\<forall>P. wsum (z6_weight P) ts = int (length (filter P (ring_content 4 (z6_queue g))))) \<and>
     (\<forall>i < length ts. z6_local (z6_mode g) (r_len (z6_queue g)) (ts ! i) \<and> z6_kind i (ts ! i)) \<and>
     z6_batch (z6_mode g) (r_len (z6_queue g)) (z6_puts ts) (z6_gets ts) (1 \<le> cnt z6_checking ts) \<and>
     (if z6_mode g then cnt (\<lambda>t. \<exists>j. t = Some (W6 j W6Blocked)) ts = 0 else cnt ((=) (Some (R6 R6Blocked))) ts = 0)"

lemma zad6_invD:
  assumes "zad6_inv g ts"
  shows "cnt z6_inside ts = of_bool (z6_mutex g)" "ring_ok 4 (z6_queue g)"
    "wsum (z6_weight P) ts = int (length (filter P (ring_content 4 (z6_queue g))))"
    "i < length ts \<Longrightarrow> z6_local (z6_mode g) (r_len (z6_queue g)) (ts ! i)" "i < length ts \<Longrightarrow> z6_kind i (ts ! i)"
    "z6_batch (z6_mode g) (r_len (z6_queue g)) (z6_puts ts) (z6_gets ts) (1 \<le> cnt z6_checking ts)"
    "if z6_mode g then cnt (\<lambda>t. \<exists>j. t = Some (W6 j W6Blocked)) ts = 0 else cnt ((=) (Some (R6 R6Blocked))) ts = 0"
  using assms unfolding zad6_inv_def by blast+

lemma z6_local_outside: "\<not> z6_inside t \<Longrightarrow> z6_local m l t"
  by (cases "(m, l, t)" rule: z6_local.cases) auto

lemma z6_checking_inside: "z6_checking t \<Longrightarrow> z6_inside t"
  by (cases t rule: z6_checking.cases) auto

text \<open>A thread that is inside is alone there; a thread that comes in was let in by the free mutex.\<close>

lemma z6_alone:
  assumes "zad6_inv g ts" "i < length ts" "ts ! i = Some p" "z6_inside (Some p) \<or> \<not> z6_mutex g"
    and "k < length ts" "k \<noteq> i"
  shows "\<not> z6_inside (ts ! k)"
proof
  assume k: "z6_inside (ts ! k)"
  then have "1 \<le> cnt z6_inside ts" using assms(5) by (intro cnt_pos)
  moreover have "2 \<le> cnt z6_inside ts" if "z6_inside (Some p)"
    using cnt_two [of i ts k z6_inside] assms(2,3,5,6) k that by simp
  ultimately show False using zad6_invD(1) [OF assms(1)] assms(4) by (auto simp: of_bool_def split: if_splits)
qed

definition z6_wakes :: "(zad6_pc \<Rightarrow> zad6_pc) set" where
  "z6_wakes = {\<lambda>p. p, zad6_wake_full, zad6_wake_empty}"

lemma zad6_wake_if:
  "zad6_wake_full p = (if p = R6 R6Blocked then R6 R6Woken else p)"
  "zad6_wake_empty p = (case p of W6 j W6Blocked \<Rightarrow> W6 j W6Woken | _ \<Rightarrow> p)"
  by (cases p rule: zad6_wake_full.cases; simp) (cases p rule: zad6_wake_empty.cases; simp split: zad6_wpc.splits)

lemma z6_wake_cases:
  assumes "w \<in> z6_wakes"
  obtains "map_option w t = t" | j where "t = Some (W6 j W6Blocked)" "map_option w t = Some (W6 j W6Woken)"
  | "t = Some (R6 R6Blocked)" "map_option w t = Some (R6 R6Woken)"
proof -
  have "w q = q \<or> (\<exists>j. q = W6 j W6Blocked \<and> w q = W6 j W6Woken) \<or> q = R6 R6Blocked \<and> w q = R6 R6Woken" for q
    using assms by (auto simp: z6_wakes_def zad6_wake_if split: zad6_pc.splits zad6_wpc.splits)
  then show thesis using that by (cases t) auto
qed

lemma z6_wake_same:
  assumes "w \<in> z6_wakes"
  shows "z6_inside (map_option w t) = z6_inside t" "z6_weight P (map_option w t) = z6_weight P t"
    "z6_put (map_option w t) = z6_put t" "z6_got (map_option w t) = z6_got t"
    "z6_kind i (map_option w t) = z6_kind i t" "z6_checking (map_option w t) = z6_checking t"
  using assms by (cases rule: z6_wake_cases [of w t]; simp add: z6_weight_def)+

text \<open>A thread with the mutex, or one that takes it, moves from \<open>p\<close> to \<open>p'\<close>.\<close>

lemma z6_step_inv:
  assumes "zad6_inv g ts" "i < length ts" "ts ! i = Some p" "z6_inside (Some p) \<or> \<not> z6_mutex g" "w \<in> z6_wakes"
    and "ring_ok 4 (z6_queue g')" "z6_inside (Some p') = z6_mutex g'"
    and "\<And>P. int (length (filter P (ring_content 4 (z6_queue g')))) =
      int (length (filter P (ring_content 4 (z6_queue g)))) - z6_weight P (Some p) + z6_weight P (Some p')"
    and "z6_local (z6_mode g') (r_len (z6_queue g')) (Some p')" "z6_kind i (Some p) \<Longrightarrow> z6_kind i (Some p')"
    and "z6_batch (z6_mode g) (r_len (z6_queue g)) (z6_puts ts) (z6_gets ts) (z6_checking (Some p)) \<Longrightarrow>
      z6_batch (z6_mode g') (r_len (z6_queue g')) (z6_puts ts - of_bool (z6_put (Some p) \<noteq> []) + of_bool (z6_put (Some p') \<noteq> []))
        (z6_gets ts - of_bool (z6_got (Some p) \<noteq> []) + of_bool (z6_got (Some p') \<noteq> [])) (z6_checking (Some p'))"
    and "if z6_mode g' then (z6_mode g \<or> w = zad6_wake_empty) \<and> (\<forall>j. p' \<noteq> W6 j W6Blocked)
      else (\<not> z6_mode g \<or> w = zad6_wake_full) \<and> p' \<noteq> R6 R6Blocked"
  shows "zad6_inv g' ((map (map_option w) ts)[i := Some p'])"
proof -
  note I = zad6_invD [OF assms(1)] and W = z6_wake_same [OF assms(5)]
  let ?ts = "map (map_option w) ts"
  have i: "i < length ?ts" "?ts ! i = map_option w (Some p)" using assms(2,3) by simp_all
  note others = z6_alone [OF assms(1-4)]
  have "cnt z6_inside ts = of_bool (z6_inside (Some p))"
    using I(1) assms(4) cnt_pos [OF assms(2), of z6_inside] assms(3)
    by (cases "z6_inside (Some p)") (auto simp: of_bool_def simp del: z6_inside.simps split: if_splits)
  then have inside: "cnt z6_inside (?ts[i := Some p']) = of_bool (z6_mutex g')"
    using i assms(7) W(1) [of "Some p"] by (simp add: cnt_upd cnt_map W(1) del: option.map z6_inside.simps)
  have chk: "cnt z6_checking (ts[i := v]) = of_bool (z6_checking v)" for v
  proof -
    have "\<not> z6_checking (ts[i := None] ! k)" if "k < length ts" for k
      using others [OF that] z6_checking_inside that by (cases "k = i") auto
    then have "cnt z6_checking (ts[i := None]) = 0" unfolding cnt_zero_iff by (metis in_set_conv_nth length_list_update)
    then show ?thesis using cnt_upd [of i "ts[i := None]" z6_checking v] assms(2) by simp
  qed
  have "cnt z6_checking ts = of_bool (z6_checking (Some p))"
    using chk [of "Some p"] assms(2,3) by (metis list_update_id)
  then have "z6_batch (z6_mode g) (r_len (z6_queue g)) (z6_puts ts) (z6_gets ts) (z6_checking (Some p))"
    using I(6) by (simp add: of_bool_def split: if_splits)
  note batch = assms(11) [OF this]
  have chk': "cnt z6_checking (?ts[i := Some p']) = of_bool (z6_checking (Some p'))"
  proof -
    have "cnt z6_checking (?ts[i := Some p']) = cnt z6_checking (ts[i := Some p'])"
      using i assms(2,3) by (simp add: cnt_upd cnt_map W(6) del: option.map z6_checking.simps)
    then show ?thesis by (simp only: chk)
  qed
  have pg: "z6_puts (?ts[i := Some p']) = z6_puts ts - of_bool (z6_put (Some p) \<noteq> []) + of_bool (z6_put (Some p') \<noteq> [])"
    "z6_gets (?ts[i := Some p']) = z6_gets ts - of_bool (z6_got (Some p) \<noteq> []) + of_bool (z6_got (Some p') \<noteq> [])"
    using i assms(2,3) W(3,4) [of "Some p"]
    by (simp_all add: z6_puts_def z6_gets_def cnt_upd cnt_map W(3,4) del: option.map z6_put.simps z6_got.simps)
  have wt: "wsum (z6_weight P) (?ts[i := Some p']) = int (length (filter P (ring_content 4 (z6_queue g'))))" for P
    using I(3) [of P] assms(8) [of P] i W(2) [of P "Some p"]
    by (simp add: wsum_upd wsum_map W(2) del: option.map)
  have loc: "z6_local (z6_mode g') (r_len (z6_queue g')) (?ts[i := Some p'] ! k) \<and> z6_kind k (?ts[i := Some p'] ! k)"
    if k: "k < length ts" for k
  proof (cases "k = i")
    case True
    then show ?thesis using assms(2,3,9,10) I(5) [OF assms(2)] by simp
  next
    case False
    then have "\<not> z6_inside (map_option w (ts ! k))" using others [OF k] W(1) by simp
    then show ?thesis using z6_local_outside False k I(5) [OF k] W(5) by simp
  qed
  have blk: "cnt Q (?ts[i := Some p']) = 0"
    if "\<not> Q (Some p')" "\<And>t. t \<in> set ts \<Longrightarrow> \<not> Q (map_option w t)" for Q
    using that i(1) by (auto simp: cnt_zero_iff dest!: set_update_subset_insert [THEN subsetD])
  have "if z6_mode g' then cnt (\<lambda>t. \<exists>j. t = Some (W6 j W6Blocked)) (?ts[i := Some p']) = 0
      else cnt ((=) (Some (R6 R6Blocked))) (?ts[i := Some p']) = 0"
  proof (cases "z6_mode g'")
    case True
    have "\<not> (\<exists>j. map_option w t = Some (W6 j W6Blocked))" if "t \<in> set ts" for t
    proof (cases "w = zad6_wake_empty")
      case True
      then show ?thesis by (cases t) (auto simp: zad6_wake_if split: zad6_pc.splits zad6_wpc.splits)
    next
      case False
      then have "cnt (\<lambda>t. \<exists>j. t = Some (W6 j W6Blocked)) ts = 0" using I(7) assms(12) True by auto
      then have "\<not> (\<exists>j. t = Some (W6 j W6Blocked))" using that by (auto simp: cnt_zero_iff)
      then show ?thesis by - (rule z6_wake_cases [OF assms(5), of t]; auto)
    qed
    then show ?thesis using blk [of "\<lambda>t. \<exists>j. t = Some (W6 j W6Blocked)"] assms(12) True by auto
  next
    case False
    have "Some (R6 R6Blocked) \<noteq> map_option w t" if "t \<in> set ts" for t
    proof (cases "w = zad6_wake_full")
      case True
      then show ?thesis by (cases t) (auto simp: zad6_wake_if)
    next
      case nw: False
      then have "cnt ((=) (Some (R6 R6Blocked))) ts = 0" using I(7) assms(12) False by auto
      then have "t \<noteq> Some (R6 R6Blocked)" using that by (auto simp: cnt_zero_iff)
      then show ?thesis by - (rule z6_wake_cases [OF assms(5), of t]; auto)
    qed
    moreover have "R6 R6Blocked \<noteq> p'" using assms(12) False by auto
    ultimately show ?thesis using blk [of "(=) (Some (R6 R6Blocked))"] False by simp
  qed
  moreover have "z6_batch (z6_mode g') (r_len (z6_queue g')) (z6_puts (?ts[i := Some p'])) (z6_gets (?ts[i := Some p']))
      (1 \<le> cnt z6_checking (?ts[i := Some p']))"
    unfolding pg chk' one_le_of_bool by (rule batch)
  ultimately show ?thesis
    using inside wt loc assms(6) unfolding zad6_inv_def by simp
qed

lemma z6_put_fits:
  assumes "zad6_inv g ts" "i < length ts" "ts ! i = Some (W6 j W6Put)"
  shows "r_len (z6_queue g) \<le> 2 \<and> z6_mode g"
    "\<exists>q. zad6_QueuePut c (z6_queue g) = (0, q) \<and> ring_ok 4 q \<and> ring_content 4 q = ring_content 4 (z6_queue g) @ [c]
       \<and> r_len q = r_len (z6_queue g) + 1"
proof -
  note I = zad6_invD [OF assms(1)]
  have m: "z6_mode g" using I(4) [OF assms(2)] assms(3) by simp
  have "\<not> z6_checking (ts ! k)" if "k < length ts" for k
    using z6_alone [OF assms(1-3) _ that] z6_checking_inside assms(3) by (cases "k = i") auto
  then have "cnt z6_checking ts = 0" unfolding cnt_zero_iff by (metis in_set_conv_nth)
  then show l: "r_len (z6_queue g) \<le> 2 \<and> z6_mode g" using I(6) m by (auto simp: z6_batch_def)
  obtain r q where q: "zad6_QueuePut c (z6_queue g) = (r, q)" by fastforce
  have "length (ring_content 4 (z6_queue g)) < 3" using ring_content_length [OF I(2)] l by simp
  from q6.put_room [OF I(2) this q] ring_content_length [OF I(2)] ring_content_length [of 4 q] q
  show "\<exists>q. zad6_QueuePut c (z6_queue g) = (0, q) \<and> ring_ok 4 q \<and> ring_content 4 q = ring_content 4 (z6_queue g) @ [c]
      \<and> r_len q = r_len (z6_queue g) + 1"
    by auto
qed

lemma z6_get_has:
  assumes "zad6_inv g ts" "i < length ts" "ts ! i = Some (R6 R6Get)"
  shows "1 \<le> r_len (z6_queue g) \<and> r_len (z6_queue g) \<le> 3 \<and> \<not> z6_mode g"
    "\<exists>c q. zad6_QueueGet NUL (z6_queue g) = (0, c, q) \<and> ring_ok 4 q \<and> ring_content 4 (z6_queue g) = c # ring_content 4 q
       \<and> r_len q = r_len (z6_queue g) - 1"
proof -
  note I = zad6_invD [OF assms(1)]
  have m: "\<not> z6_mode g" using I(4) [OF assms(2)] assms(3) by simp
  have "\<not> z6_checking (ts ! k)" if "k < length ts" for k
    using z6_alone [OF assms(1-3) _ that] z6_checking_inside assms(3) by (cases "k = i") auto
  then have "cnt z6_checking ts = 0" unfolding cnt_zero_iff by (metis in_set_conv_nth)
  then show l: "1 \<le> r_len (z6_queue g) \<and> r_len (z6_queue g) \<le> 3 \<and> \<not> z6_mode g"
    using I(6) m by (auto simp: z6_batch_def)
  obtain r c q where q: "zad6_QueueGet NUL (z6_queue g) = (r, c, q)" by (cases "zad6_QueueGet NUL (z6_queue g)") auto
  obtain x xs where x: "ring_content 4 (z6_queue g) = x # xs"
    using ring_content_length [OF I(2)] l by (cases "ring_content 4 (z6_queue g)") auto
  from q6.get_some [OF I(2) x q] ring_content_length [OF I(2)] ring_content_length [of 4 q] q x
  show "\<exists>c q. zad6_QueueGet NUL (z6_queue g) = (0, c, q) \<and> ring_ok 4 q \<and> ring_content 4 (z6_queue g) = c # ring_content 4 q
      \<and> r_len q = r_len (z6_queue g) - 1"
    by auto
qed

lemmas z6_wakes_simps = z6_wakes_def insert_iff simp_thms

lemma zad6_writer_inv:
  assumes "zad6_inv g ts" "i < length ts" "ts ! i = Some (W6 j p)" "zad6_writer g j p = Some (g', p', w)"
  shows "zad6_inv g' ((map (map_option w) ts)[i := Some (W6 j p')])"
proof -
  note I = zad6_invD [OF assms(1)]
  have ring: "ring_ok 4 (z6_queue g)" and loc: "z6_local (z6_mode g) (r_len (z6_queue g)) (Some (W6 j p))"
    using I(2) I(4) [OF assms(2)] assms(3) by simp_all
  have held: "z6_inside (Some (W6 j p)) \<Longrightarrow> z6_mutex g"
    using cnt_pos [OF assms(2), of z6_inside] I(1) assms(3) by (auto simp: of_bool_def split: if_splits)
  show ?thesis
  proof (cases p)
    case W6Put
    from z6_put_fits [OF assms(1,2), of j] assms(3) W6Put
    obtain q where q: "zad6_QueuePut (book_char j) (z6_queue g) = (0, q)" "ring_ok 4 q"
      "ring_content 4 q = ring_content 4 (z6_queue g) @ [book_char j]" "r_len q = r_len (z6_queue g) + 1"
      and l: "r_len (z6_queue g) \<le> 2" "z6_mode g" by blast
    have r: "g' = g\<lparr>z6_queue := q\<rparr>" "p' = W6Check" "w = (\<lambda>p. p)" using assms(4) W6Put q(1) by auto
    have "0 \<le> r_len (z6_queue g)" using ring_content_length [OF ring] by linarith
    then show ?thesis
      by (intro z6_step_inv [OF assms(1-3)])
        (use r q l W6Put held in \<open>simp_all add: z6_wakes_def z6_weight_def z6_batch_steps\<close>)
  next
    case W6Check
    then have l: "z6_mode g" using loc by simp
    show ?thesis
    proof (cases "r_len (z6_queue g) = 3")
      case True
      then have "g' = g\<lparr>z6_mode := False\<rparr>" "p' = W6Unlock" "w = zad6_wake_full"
        using assms(4) W6Check by (auto simp: zad6_QUEUE_ELEMENTS_def)
      then show ?thesis
        by (intro z6_step_inv [OF assms(1-3)])
          (use W6Check held ring l True in \<open>simp_all add: z6_wakes_def z6_weight_def z6_batch_steps\<close>)
    next
      case False
      then have "g' = g" "p' = W6Unlock" "w = (\<lambda>p. p)"
        using assms(4) W6Check by (auto simp: zad6_QUEUE_ELEMENTS_def)
      then show ?thesis
        by (intro z6_step_inv [OF assms(1-3)])
          (use W6Check held ring l False in \<open>simp_all add: z6_wakes_def z6_weight_def z6_batch_steps\<close>)
    qed
  qed (use assms(4) loc ring held in
      \<open>auto intro!: z6_step_inv [OF assms(1-3)] simp: z6_wakes_def z6_weight_def split: if_splits\<close>)
qed

lemma zad6_reader_inv:
  assumes "zad6_inv g ts" "i < length ts" "ts ! i = Some (R6 p)" "zad6_reader g p = Some (g', p', w)"
  shows "zad6_inv g' ((map (map_option w) ts)[i := Some (R6 p')])"
proof -
  note I = zad6_invD [OF assms(1)]
  have ring: "ring_ok 4 (z6_queue g)" and loc: "z6_local (z6_mode g) (r_len (z6_queue g)) (Some (R6 p))"
    using I(2) I(4) [OF assms(2)] assms(3) by simp_all
  have held: "z6_inside (Some (R6 p)) \<Longrightarrow> z6_mutex g"
    using cnt_pos [OF assms(2), of z6_inside] I(1) assms(3) by (auto simp: of_bool_def split: if_splits)
  show ?thesis
  proof (cases p)
    case R6Get
    from z6_get_has [OF assms(1,2)] assms(3) R6Get
    obtain c q where q: "zad6_QueueGet NUL (z6_queue g) = (0, c, q)" "ring_ok 4 q"
      "ring_content 4 (z6_queue g) = c # ring_content 4 q" "r_len q = r_len (z6_queue g) - 1"
      and l: "1 \<le> r_len (z6_queue g)" "r_len (z6_queue g) \<le> 3" "\<not> z6_mode g" by blast
    have r: "g' = g\<lparr>z6_queue := q\<rparr>" "p' = R6Check c" "w = (\<lambda>p. p)" using assms(4) R6Get q(1) by auto
    show ?thesis
      by (intro z6_step_inv [OF assms(1-3)])
        (use r q l R6Get held in \<open>simp_all add: z6_wakes_def z6_weight_def z6_batch_steps\<close>)
  next
    case (R6Check c)
    then have l: "\<not> z6_mode g" using loc by simp
    show ?thesis
    proof (cases "r_len (z6_queue g) = 0")
      case True
      then have "g' = g\<lparr>z6_mode := True\<rparr>" "p' = R6Unlock c" "w = zad6_wake_empty"
        using assms(4) R6Check by auto
      then show ?thesis
        by (intro z6_step_inv [OF assms(1-3)])
          (use R6Check held ring l True in \<open>simp_all add: z6_wakes_def z6_weight_def z6_batch_steps\<close>)
    next
      case False
      then have "g' = g" "p' = R6Unlock c" "w = (\<lambda>p. p)" using assms(4) R6Check by auto
      then show ?thesis
        by (intro z6_step_inv [OF assms(1-3)])
          (use R6Check held ring l False in \<open>simp_all add: z6_wakes_def z6_weight_def z6_batch_steps\<close>)
    qed
  qed (use assms(4) loc ring held in
      \<open>auto intro!: z6_step_inv [OF assms(1-3)] simp: z6_wakes_def z6_weight_def split: if_splits\<close>)
qed

lemma zad6_step_cases:
  assumes "zad6_step g p = Some (g', p', w)"
  obtains (writer) j q q' where "p = W6 j q" "p' = W6 j q'" "zad6_writer g j q = Some (g', q', w)"
  | (reader) q q' where "p = R6 q" "p' = R6 q'" "zad6_reader g q = Some (g', q', w)"
  using assms by (cases p) auto

text \<open>Creating a thread, and waking one up for no reason, change nothing that the invariant speaks of.\<close>

lemma z6_quiet_inv:
  assumes "zad6_inv g ts" "i < length ts" "\<not> z6_inside (ts ! i)" "\<not> z6_inside (Some p)"
    and "z6_put (ts ! i) = z6_put (Some p)" "z6_got (ts ! i) = z6_got (Some p)" "z6_kind i (Some p)"
    and "\<forall>j. p \<noteq> W6 j W6Blocked" "p \<noteq> R6 R6Blocked"
  shows "zad6_inv g (ts[i := Some p])"
proof -
  note I = zad6_invD [OF assms(1)]
  let ?ts = "ts[i := Some p]"
  have chk: "\<not> z6_checking (ts ! i)" "\<not> z6_checking (Some p)" using assms(3,4) z6_checking_inside by blast+
  have same: "cnt z6_inside ?ts = cnt z6_inside ts" "cnt z6_checking ?ts = cnt z6_checking ts"
    "z6_puts ?ts = z6_puts ts" "z6_gets ?ts = z6_gets ts" "wsum (z6_weight P) ?ts = wsum (z6_weight P) ts" for P
    using assms(2-6) chk by (simp_all add: cnt_upd wsum_upd z6_puts_def z6_gets_def z6_weight_def)
  have "z6_local (z6_mode g) (r_len (z6_queue g)) (?ts ! k) \<and> z6_kind k (?ts ! k)" if "k < length ts" for k
    using I(4,5) [OF that] assms(2,4,7) z6_local_outside that by (cases "k = i") auto
  moreover have "cnt Q ?ts = 0" if "cnt Q ts = 0" "\<not> Q (Some p)" for Q
    using cnt_upd [OF assms(2), of Q "Some p"] that cnt_pos [OF assms(2), of Q] by (cases "Q (ts ! i)") auto
  from this [of "\<lambda>t. \<exists>j. t = Some (W6 j W6Blocked)"] this [of "(=) (Some (R6 R6Blocked))"]
  have "if z6_mode g then cnt (\<lambda>t. \<exists>j. t = Some (W6 j W6Blocked)) ?ts = 0 else cnt ((=) (Some (R6 R6Blocked))) ?ts = 0"
    using I(7) assms(8,9) by (auto split: if_splits)
  ultimately show ?thesis using I(1,2,6) I(3) unfolding zad6_inv_def by (simp add: same)
qed

interpretation z6: prog_inv "zad6 spur" "[0..<12]" zad6_inv for spur
proof unfold_locales
  show "p_main (zad6 spur) = pfork (p_threads (zad6 spur)) [0..<12]" by (simp add: zad6_def zad6_main_def)
  have "ring_ok 4 (ring0 4)" "ring_content 4 (ring0 4) = []" "r_len (ring0 4) = 0"
    using ring_ok0 [of 4] by (simp_all add: ring0_def)
  then show "zad6_inv (p_glob0 (zad6 spur)) (replicate (p_threads (zad6 spur)) None)"
    by (simp add: zad6_def zad6_init_def zad6_inv_def z6_weight_def z6_batch_def z6_puts_def z6_gets_def
        cnt_replicate wsum_replicate zad6_QUEUE_SIZE_def)
next
  fix g ts i
  assume "zad6_inv g ts" "i < length ts" "ts ! i = None"
  then show "zad6_inv g (ts[i := Some (p_start (zad6 spur) i)])"
    by (intro z6_quiet_inv) (auto simp: zad6_def zad6_WRITERS_NUM_def)
next
  fix g ts i p g' p' w
  assume inv: "zad6_inv g ts" and i: "i < length ts" "ts ! i = Some p"
    and st: "p_step (zad6 spur) g p = Some (g', p', w)"
  from st have "zad6_step g p = Some (g', p', w)" by (simp add: zad6_def)
  then show "zad6_inv g' ((map (map_option w) ts)[i := Some p'])"
    using zad6_writer_inv [OF inv i(1)] zad6_reader_inv [OF inv i(1)] i(2)
    by (cases rule: zad6_step_cases) auto
next
  fix g ts i p p'
  assume inv: "zad6_inv g ts" and i: "i < length ts" "ts ! i = Some p" and "p_spur (zad6 spur) p = Some p'"
  then have "zad6_spur p = Some p'" by (auto simp: zad6_def split: if_splits)
  then have "(\<exists>j. p = W6 j W6Blocked \<and> p' = W6 j W6Woken) \<or> p = R6 R6Blocked \<and> p' = R6 R6Woken"
    by (cases p rule: zad6_spur.cases) auto
  then show "zad6_inv g (ts[i := Some p'])"
    using zad6_invD(5) [OF inv i(1)] i by (intro z6_quiet_inv [OF inv i(1)]) auto
qed

section \<open>Termination\<close>

text \<open>Without spurious wake-ups every thread passes its check, the only place that wakes others, once; what a wake-up
  costs each of the twelve threads is paid for there.\<close>

fun zad6_rank :: "zad6_pc \<Rightarrow> nat" where
  "zad6_rank (W6 j W6Lock) = 30" | "zad6_rank (W6 j W6Woken) = 30" | "zad6_rank (W6 j W6Test) = 29"
| "zad6_rank (W6 j W6Blocked) = 28" | "zad6_rank (W6 j W6Put) = 27" | "zad6_rank (W6 j W6Check) = 26"
| "zad6_rank (W6 j W6Unlock) = 1" | "zad6_rank (W6 j W6End) = 0"
| "zad6_rank (R6 R6Lock) = 30" | "zad6_rank (R6 R6Woken) = 30" | "zad6_rank (R6 R6Test) = 29"
| "zad6_rank (R6 R6Blocked) = 28" | "zad6_rank (R6 R6Get) = 27" | "zad6_rank (R6 (R6Check c)) = 26"
| "zad6_rank (R6 (R6Unlock c)) = 1" | "zad6_rank (R6 (R6End c)) = 0"

lemma zad6_rank_wake: "zad6_rank (zad6_wake_full q) \<le> zad6_rank q + 2" "zad6_rank (zad6_wake_empty q) \<le> zad6_rank q + 2"
  by (cases q rule: zad6_wake_full.cases; simp) (cases q rule: zad6_wake_empty.cases; simp)

lemma zad6_rank_step:
  assumes "zad6_step g p = Some (g', p', w)"
  shows "\<exists>d. (\<forall>q. zad6_rank (w q) \<le> zad6_rank q + d) \<and> zad6_rank p' + 12 * d < zad6_rank p"
  using assms
proof (cases rule: zad6_step_cases)
  case (writer j q q')
  show ?thesis
  proof (cases "q = W6Check")
    case True
    then have "p' = W6 j W6Unlock \<and> (w = zad6_wake_full \<or> w = (\<lambda>p. p))" using writer by (auto split: if_splits)
    then show ?thesis using True writer(1) zad6_rank_wake by (intro exI [of _ 2]) (auto intro: le_add1 order_trans)
  next
    case False
    then have "w = (\<lambda>p. p) \<and> zad6_rank p' < zad6_rank p" using writer by (cases q) (auto split: if_splits)
    then show ?thesis by (intro exI [of _ 0]) simp
  qed
next
  case (reader q q')
  show ?thesis
  proof (cases "\<exists>c. q = R6Check c")
    case True
    then obtain c where c: "q = R6Check c" by blast
    then have "p' = R6 (R6Unlock c) \<and> (w = zad6_wake_empty \<or> w = (\<lambda>p. p))" using reader by (auto split: if_splits)
    then show ?thesis using c reader(1) zad6_rank_wake by (intro exI [of _ 2]) (auto intro: le_add1 order_trans)
  next
    case False
    then have "w = (\<lambda>p. p) \<and> zad6_rank p' < zad6_rank p"
      using reader by (cases q) (auto split: if_splits prod.splits)
    then show ?thesis by (intro exI [of _ 0]) simp
  qed
qed

interpretation z6b: prog_bounded "zad6 False" "[0..<12]" zad6_inv zad6_rank
proof unfold_locales
  fix g p g' p' w
  assume "p_step (zad6 False) g p = Some (g', p', w)"
  then have "zad6_step g p = Some (g', p', w)" by (simp add: zad6_def)
  from zad6_rank_step [OF this]
  show "\<exists>d. (\<forall>q. zad6_rank (w q) \<le> zad6_rank q + d) \<and> zad6_rank p' + p_threads (zad6 False) * d < zad6_rank p"
    by (simp add: zad6_def)
qed (simp add: zad6_def)

lemma zad6_rank_init: "rank_of (zad6 False) zad6_rank (pinit (zad6 False)) = 384"
  by code_simp

section \<open>Deadlock freedom\<close>

lemma zad6_blocked_pc:
  "zad6_writer g j q = None \<Longrightarrow> \<not> z6_mutex g \<Longrightarrow> q = W6Blocked \<or> q = W6End"
  "zad6_reader g r = None \<Longrightarrow> \<not> z6_mutex g \<Longrightarrow> r = R6Blocked \<or> (\<exists>c. r = R6End c)"
  by (cases q; simp split: if_splits) (cases r; simp split: if_splits prod.splits)

lemma z6_inside_steps: "z6_inside (Some p) \<Longrightarrow> zad6_step g p \<noteq> None"
  by (cases "Some p" rule: z6_inside.cases) (auto split: if_splits prod.splits)

lemma z6_put_got: "z6_put t \<noteq> [] \<Longrightarrow> z6_got t = [] \<and> Some (R6 R6Blocked) \<noteq> t"
  by (cases t rule: z6_put.cases) auto

text \<open>When every thread exists and none can move, all have ended and the queue is empty.\<close>

lemma zad6_blocked_final:
  assumes inv: "zad6_inv g ts" and n: "length ts = 12"
    and all: "\<And>i. i < 12 \<Longrightarrow> \<exists>p. ts ! i = Some p \<and> zad6_step g p = None"
  shows "(\<forall>t \<in> set ts. \<exists>p. t = Some p \<and> zad6_final p) \<and> r_len (z6_queue g) = 0"
proof -
  note I = zad6_invD [OF inv]
  have out: "\<not> z6_inside t" if t: "t \<in> set ts" for t
  proof -
    obtain i where i: "i < 12" "ts ! i = t" using t n by (auto simp: in_set_conv_nth)
    then obtain p where "t = Some p" "zad6_step g p = None" using all by blast
    then show ?thesis using z6_inside_steps [of p g] by blast
  qed
  then have "cnt z6_inside ts = 0" by (auto simp: cnt_zero_iff)
  then have free: "\<not> z6_mutex g" using I(1) by (auto simp: of_bool_def split: if_splits)
  have pc: "ts ! i = Some (W6 i W6Blocked) \<or> ts ! i = Some (W6 i W6End)" if lt: "i < 6" for i
  proof -
    obtain p where p: "ts ! i = Some p" "zad6_step g p = None" using all [of i] lt by auto
    have "z6_kind i (Some p)" using I(5) [of i] p(1) n lt by simp
    then obtain q where "p = W6 i q" using lt by (cases p) auto
    then show ?thesis using p zad6_blocked_pc(1) [OF _ free] by auto
  qed
  have rd: "ts ! i = Some (R6 R6Blocked) \<or> (\<exists>c. ts ! i = Some (R6 (R6End c)))" if lt: "6 \<le> i" "i < 12" for i
  proof -
    obtain p where p: "ts ! i = Some p" "zad6_step g p = None" using all [of i] lt by auto
    have "z6_kind i (Some p)" using I(5) [of i] p(1) n lt by simp
    then obtain q where "p = R6 q" using lt by (cases p) auto
    then show ?thesis using p zad6_blocked_pc(2) [OF _ free] by auto
  qed
  have "\<not> z6_checking t" if "t \<in> set ts" for t using out [OF that] z6_checking_inside by blast
  then have "cnt z6_checking ts = 0" by (auto simp: cnt_zero_iff)
  then have B: "z6_batch (z6_mode g) (r_len (z6_queue g)) (z6_puts ts) (z6_gets ts) False" using I(6) by simp
  have puts: "z6_puts ts \<le> 6"
    unfolding z6_puts_def
  proof (rule cnt_below [of _ _ 6, simplified])
    fix i assume i: "i < length ts" "z6_put (ts ! i) \<noteq> []"
    then show "i < 6" using I(5) [OF i(1)] by (cases "ts ! i" rule: z6_put.cases) auto
  qed
  have wr: "cnt (\<lambda>t. \<exists>j p. t = Some (W6 j p)) ts \<le> 6"
  proof (rule cnt_below [of _ _ 6, simplified])
    fix i assume i: "i < length ts" "\<exists>j p. ts ! i = Some (W6 j p)"
    then show "i < 6" using I(5) [OF i(1)] by auto
  qed
  show ?thesis
  proof (cases "z6_mode g")
    case True
    have end_: "ts ! i = Some (W6 i W6End)" if "i < 6" for i
    proof -
      have "ts ! i \<noteq> Some (W6 i W6Blocked)"
        using I(7) True n that cnt_zero_nth [of "\<lambda>t. \<exists>j. t = Some (W6 j W6Blocked)" ts i] by auto
      then show ?thesis using pc [OF that] by blast
    qed
    then have "6 \<le> z6_puts ts" unfolding z6_puts_def using n by (intro cnt_at_least [of 6, simplified]) auto
    then have g6: "z6_gets ts = 6 \<and> r_len (z6_queue g) = 0" using B True puts unfolding z6_batch_def by presburger
    have "cnt ((=) (Some (R6 R6Blocked))) ts = 0"
    proof -
      have "cnt (\<lambda>t. z6_put t \<noteq> []) ts + cnt (\<lambda>t. z6_got t \<noteq> [] \<or> Some (R6 R6Blocked) = t) ts =
          cnt (\<lambda>t. z6_put t \<noteq> [] \<or> z6_got t \<noteq> [] \<or> Some (R6 R6Blocked) = t) ts"
        by (rule cnt_add) (use z6_put_got in blast)
      moreover have "cnt (\<lambda>t. z6_got t \<noteq> []) ts + cnt ((=) (Some (R6 R6Blocked))) ts =
          cnt (\<lambda>t. z6_got t \<noteq> [] \<or> Some (R6 R6Blocked) = t) ts"
        by (rule cnt_add) auto
      moreover have "cnt (\<lambda>t. z6_put t \<noteq> [] \<or> z6_got t \<noteq> [] \<or> Some (R6 R6Blocked) = t) ts \<le> 12"
        using cnt_le_length [of "\<lambda>t. z6_put t \<noteq> [] \<or> z6_got t \<noteq> [] \<or> Some (R6 R6Blocked) = t" ts] n by simp
      ultimately show ?thesis
        using \<open>6 \<le> z6_puts ts\<close> g6 cnt_nonneg [of "(=) (Some (R6 R6Blocked))" ts]
        unfolding z6_puts_def z6_gets_def by linarith
    qed
    then have rend: "\<exists>c. ts ! i = Some (R6 (R6End c))" if "6 \<le> i" "i < 12" for i
      using rd [OF that] cnt_zero_nth [of "(=) (Some (R6 R6Blocked))" ts i] n that by auto
    have "\<exists>p. t = Some p \<and> zad6_final p" if t: "t \<in> set ts" for t
    proof -
      obtain i where i: "i < 12" "ts ! i = t" using t n by (auto simp: in_set_conv_nth)
      show ?thesis using end_ [of i] rend [of i] i by (cases "i < 6") auto
    qed
    with g6 show ?thesis by blast
  next
    case False
    have "int 12 \<le> cnt (\<lambda>t. (\<exists>j p. t = Some (W6 j p)) \<or> z6_got t \<noteq> []) ts"
    proof (rule cnt_at_least)
      fix i :: nat assume i: "i < 12"
      show "(\<exists>j p. ts ! i = Some (W6 j p)) \<or> z6_got (ts ! i) \<noteq> []"
      proof (cases "i < 6")
        case True
        then show ?thesis using pc by blast
      next
        case nw: False
        have "ts ! i \<noteq> Some (R6 R6Blocked)"
          using I(7) False n i cnt_zero_nth [of "(=) (Some (R6 R6Blocked))" ts i] by auto
        then show ?thesis using rd [of i] nw i by auto
      qed
    qed (simp add: n)
    moreover have "cnt (\<lambda>t. \<exists>j p. t = Some (W6 j p)) ts + z6_gets ts =
        cnt (\<lambda>t. (\<exists>j p. t = Some (W6 j p)) \<or> z6_got t \<noteq> []) ts"
      unfolding z6_gets_def by (rule cnt_add) auto
    ultimately have "6 \<le> z6_gets ts" using wr by simp
    then show ?thesis using B False puts unfolding z6_batch_def by presburger
  qed
qed

lemma zad6_stuck_returned:
  assumes "preach (zad6 False) (\<lambda>_. True) s" "stuck (zad6 False) (\<lambda>_. True) s"
  shows "todo s = [] \<and> (\<forall>t \<in> set (thr s). \<exists>p. t = Some p \<and> zad6_final p) \<and> r_len (z6_queue (glob s)) = 0"
proof -
  note inv = z6.reach_inv [OF assms(1)] and shape = z6.main_shape [of False]
  have len: "length (thr s) = 12" using z6.reach_main_ok [OF assms(1)] by (simp add: zad6_def)
  have step: "zad6_step (glob s) p = None" if "i < length (thr s)" "thr s ! i = Some p" for i p
    using stuck_thread [OF assms(2) that] by (simp add: zad6_def)
  have "creates (todo s) = []"
  proof (rule ccontr)
    assume "creates (todo s) \<noteq> []"
    then obtain m r where m: "todo s = m # r" by (cases "todo s") auto
    obtain j where j: "m = Join j" using stuck_main [OF assms(2) m] by blast
    from main_joins [OF shape assms(1)] show False
    proof (elim disjE exE)
      fix k assume "todo s = map Create [k..<p_threads (zad6 False)] @ map Join [0..<12]"
      then show False using m j \<open>creates (todo s) \<noteq> []\<close>
        by (cases "k < p_threads (zad6 False)") (auto simp: upt_conv_Cons creates_append)
    next
      fix k assume "todo s = map Join (drop k [0..<12])"
      then have "creates (todo s) = []" by (metis creates_Join)
      then show False using \<open>creates (todo s) \<noteq> []\<close> by blast
    qed
  qed
  then have "\<exists>p. thr s ! i = Some p \<and> zad6_step (glob s) p = None" if "i < 12" for i
    using reach_created [OF shape assms(1)] that len step by (fastforce simp: created_ok_def)
  from zad6_blocked_final [OF inv len this]
  have fin: "\<forall>t \<in> set (thr s). \<exists>p. t = Some p \<and> zad6_final p" "r_len (z6_queue (glob s)) = 0" by blast+
  have "todo s = []"
  proof (rule stuck_all_final [OF shape _ assms])
    show "set [0..<12] \<subseteq> {0..<p_threads (zad6 False)}" by (simp add: zad6_def)
    show "length (thr s) = p_threads (zad6 False)" using len by (simp add: zad6_def)
    fix i p assume i: "i < length (thr s)" "thr s ! i = Some p"
    then have "Some p \<in> set (thr s)" by (metis nth_mem)
    then show "p_final (zad6 False) p" using fin(1) by (fastforce simp: zad6_def)
  qed
  with fin show ?thesis by blast
qed

section \<open>Properties\<close>

text \<open>C5.  In every reachable state of \<open>zad6.c\<close>, with or without spurious wake-ups: at most one thread is in the critical section, a
  put never finds the queue full and a get never finds it empty, although neither result is looked at, and each
  character has been put as often as it has been got or still is in the queue.\<close>

theorem zad6_exactly_once:
  assumes "preach (zad6 spur) ok s" "i < length (thr s)" "thr s ! i = Some p"
  shows "(z6_inside (Some p) \<longrightarrow> (\<forall>k < length (thr s). k \<noteq> i \<longrightarrow> \<not> z6_inside (thr s ! k)))
    \<and> (p = W6 j W6Put \<longrightarrow> fst (zad6_QueuePut x (z6_queue (glob s))) = 0)
    \<and> (p = R6 R6Get \<longrightarrow> fst (zad6_QueueGet NUL (z6_queue (glob s))) = 0)
    \<and> (\<Sum>t \<leftarrow> thr s. int (length (filter ((=) c) (z6_put t)))) =
        (\<Sum>t \<leftarrow> thr s. int (length (filter ((=) c) (z6_got t))))
        + int (length (filter ((=) c) (ring_content 4 (z6_queue (glob s)))))"
proof -
  note inv = z6.reach_inv [OF assms(1)]
  have "wsum (z6_weight ((=) c)) (thr s) = wsum (\<lambda>t. int (length (filter ((=) c) (z6_put t)))) (thr s)
      - wsum (\<lambda>t. int (length (filter ((=) c) (z6_got t)))) (thr s)"
    by (simp add: z6_weight_def [abs_def] wsum_diff)
  then have "(\<Sum>t \<leftarrow> thr s. int (length (filter ((=) c) (z6_put t)))) =
        (\<Sum>t \<leftarrow> thr s. int (length (filter ((=) c) (z6_got t))))
        + int (length (filter ((=) c) (ring_content 4 (z6_queue (glob s)))))"
    using zad6_invD(3) [OF inv, of "(=) c"] by (simp add: wsum_def)
  moreover have "fst (zad6_QueuePut x (z6_queue (glob s))) = 0" if "p = W6 j W6Put"
    using z6_put_fits(2) [OF inv assms(2), of j x] assms(3) that by auto
  moreover have "fst (zad6_QueueGet NUL (z6_queue (glob s))) = 0" if "p = R6 R6Get"
    using z6_get_has(2) [OF inv assms(2)] assms(3) that by auto
  ultimately show ?thesis using z6_alone [OF inv assms(2,3)] by blast
qed

lemma zad6_demo: "psched (zad6 True) (pinit (zad6 True)) [None, Some 0, Some 0] =
    Some \<lparr>glob = \<lparr>z6_mutex = True, z6_queue = ring0 zad6_QUEUE_SIZE, z6_mode = True\<rparr>,
      thr = Some (W6 0 W6Put) # replicate 11 None, todo = map Create [1..<12] @ map Join [0..<12]\<rparr>"
  by code_simp

theorem zad6_exactly_once_witness:
  "\<exists>s. preach (zad6 True) (\<lambda>_. True) s \<and> thr s ! 0 = Some (W6 0 W6Put) \<and>
     fst (zad6_QueuePut CHR ''A'' (z6_queue (glob s))) = 0"
proof -
  note r = psched_reach_init [OF zad6_demo]
  show ?thesis using r zad6_exactly_once [OF r, of 0 "W6 0 W6Put" 0 "CHR ''A''"] by (intro exI conjI) auto
qed

text \<open>C6.  Without spurious wake-ups every run of \<open>zad6.c\<close>, whatever \<open>pthread_create\<close> returns, has at most 384 steps.  If all threads are created,
  the program cannot deadlock: a reachable state in which neither a thread nor \<open>main\<close> can move is
  one where \<open>main\<close> has joined every thread and the queue is empty, no run from a reachable state is longer than 384 steps, and
  one reaches that end.\<close>

theorem zad6_terminates:
  assumes "preach (zad6 False) (\<lambda>_. True) s"
  shows "(stuck (zad6 False) (\<lambda>_. True) s \<longrightarrow> todo s = [] \<and> (\<forall>t \<in> set (thr s). \<exists>p. t = Some p \<and> zad6_final p)
        \<and> r_len (z6_queue (glob s)) = 0)
    \<and> (\<exists>n t. prun (zad6 False) (\<lambda>_. True) s n t \<and> n \<le> 384 \<and> todo t = [] \<and> r_len (z6_queue (glob t)) = 0)
    \<and> (\<forall>n t. prun (zad6 False) (\<lambda>_. True) s n t \<longrightarrow> n \<le> 384)
    \<and> (\<forall>ok n t. prun (zad6 False) ok (pinit (zad6 False)) n t \<longrightarrow> n \<le> 384)"
proof -
  have len: "main_ok s" "length (thr s) = p_threads (zad6 False)" using z6.reach_main_ok [OF assms] by blast+
  obtain n t where t: "prun (zad6 False) (\<lambda>_. True) s n t" "stuck (zad6 False) (\<lambda>_. True) t"
    using z6b.run_to_stuck [OF assms] by blast
  have r: "preach (zad6 False) (\<lambda>_. True) t" by (rule prun_reach [OF t(1) assms])
  have "\<exists>m. prun (zad6 False) (\<lambda>_. True) (pinit (zad6 False)) m s" using assms
  proof (induction rule: preach.induct)
    case start
    show ?case using prun.halt by blast
  next
    case (step s t)
    then obtain m where "prun (zad6 False) (\<lambda>_. True) (pinit (zad6 False)) m s" by blast
    then have "prun (zad6 False) (\<lambda>_. True) (pinit (zad6 False)) (Suc m) t" using step.hyps(2)
      by (induction rule: prun.induct) (auto intro: prun.intros)
    then show ?case by blast
  qed
  then obtain m where "prun (zad6 False) (\<lambda>_. True) (pinit (zad6 False)) m s" by blast
  then have "m + rank_of (zad6 False) zad6_rank s \<le> 384"
    using z6b.run_bound main_ok_init [OF z6.main_shape] zad6_rank_init by (fastforce simp: pinit_def)
  then have "k \<le> 384" if "prun (zad6 False) (\<lambda>_. True) s k u" for k u using z6b.run_bound [OF that len] by simp
  moreover have "k \<le> 384" if "prun (zad6 False) ok (pinit (zad6 False)) k u" for ok k u
    using z6b.run_length [OF that] zad6_rank_init by simp
  ultimately show ?thesis using t zad6_stuck_returned [OF r t(2)] zad6_stuck_returned [OF assms] by blast
qed

theorem zad6_terminates_witness:
  "(\<exists>n t. prun (zad6 False) (\<lambda>_. True) (pinit (zad6 False)) n t \<and> n \<le> 384 \<and> todo t = [])
    \<and> {n. \<exists>t. prun (zad6 False) (\<lambda>_. True) (pinit (zad6 False)) n t} \<subseteq> {..384}"
  using zad6_terminates [OF preach.start] by blast

end
