(* ===== verification/Libraries.thy ===== *)
theory Libraries imports Threads begin

text \<open>
  \<open>cw01/zad3/zad3.c\<close> and \<open>cw01/zad5/zad5.c\<close>: two libraries with a reader and a writer mutex each; writers and
  readers try the libraries in turn with \<open>pthread_mutex_trylock\<close>.  A mutex is the number of the
  thread that owns it, or \<open>None\<close>.  POSIX leaves unlocking a mutex that another thread owns, or nobody, undefined; on Linux
  the default mutex is then free.  The model does the same and remembers it in \<open>lg_foreign\<close>.

  The two programs have the same writer, and their readers differ in how they enter: \<open>zad5.c\<close> admits three readers to a
  library.  The locale \<open>lib_reader\<close> states what the two have in common, and everything up to the limit
  is proved in it.  Both test the global \<open>readers_count\<close>, which is never changed, instead of the library's, so readers never
  lock a writer mutex but unlock it when they leave.  Shown: what holds until the first such unlock, that every run
  that ends has one, what it does to the writers, the limit of \<open>zad5.c\<close>, and that both programs can always end.
\<close>

section \<open>The programs\<close>

definition zad3_READERS_NUM :: nat where "zad3_READERS_NUM = 6"
definition zad5_READERS_NUM :: nat where "zad5_READERS_NUM = 10"
definition lib_WRITERS_NUM :: nat where "lib_WRITERS_NUM = 8"
definition lib_BOOKS :: nat where "lib_BOOKS = 20"
definition LIBS_NUM :: nat where "LIBS_NUM = 2"
definition LIB_MAX_READERS :: int where "LIB_MAX_READERS = 3"

record library =
  l_books :: string
  l_top :: int
  l_r :: "nat option"
  l_w :: "nat option"
  l_readers :: int

text \<open>\<open>lg_oob\<close> is set when \<open>books\<close> is indexed out of its bounds.\<close>

record libs_glob =
  lg_libs :: "library list"
  lg_readers_count :: int
  lg_oob :: bool
  lg_foreign :: bool

definition upd_lib :: "nat \<Rightarrow> (library \<Rightarrow> library) \<Rightarrow> libs_glob \<Rightarrow> libs_glob" where
  "upd_lib it f g = g\<lparr>lg_libs := (lg_libs g)[it := f (lg_libs g ! it)]\<rparr>"

definition unlock_r :: "nat \<Rightarrow> nat \<Rightarrow> libs_glob \<Rightarrow> libs_glob" where
  "unlock_r me it g = (upd_lib it (\<lambda>l. l\<lparr>l_r := None\<rparr>) g)
     \<lparr>lg_foreign := (lg_foreign g \<or> l_r (lg_libs g ! it) \<noteq> Some me)\<rparr>"

definition unlock_w :: "nat \<Rightarrow> nat \<Rightarrow> libs_glob \<Rightarrow> libs_glob" where
  "unlock_w me it g = (upd_lib it (\<lambda>l. l\<lparr>l_w := None\<rparr>) g)
     \<lparr>lg_foreign := (lg_foreign g \<or> l_w (lg_libs g ! it) \<noteq> Some me)\<rparr>"

text \<open>The next library to try after \<open>it\<close>.\<close>

definition next_lib :: "nat \<Rightarrow> nat" where
  "next_lib it = (if it + 1 = LIBS_NUM then 0 else it + 1)"

text \<open>The program points; \<open>LRCheck\<close> and \<open>LRFull\<close> occur in \<open>zad5.c\<close> only.  A thread is its number, the library
  it is at, and a program point.\<close>

datatype lib_wpc = LWTry | LWBook | LWTop | LWUnlock | LWEnd

datatype lib_rpc = LRTry | LRCheck | LRFull | LRInc | LRTest1 | LRLockW | LRUnlock1 | LRLock2 | LRDec | LRTest0
  | LRUnlockW | LRUnlock2 | LREnd

datatype lib_pc = LW nat nat lib_wpc | LR nat nat lib_rpc

fun zad3_writer :: "libs_glob \<Rightarrow> nat \<Rightarrow> nat \<Rightarrow> lib_wpc \<Rightarrow> (libs_glob \<times> nat \<times> lib_wpc) option" where
  "zad3_writer g me it LWTry =
     (if l_w (lg_libs g ! it) = None then Some (upd_lib it (\<lambda>l. l\<lparr>l_w := Some me\<rparr>) g, it, LWBook)
      else Some (g, next_lib it, LWTry))"
| "zad3_writer g me it LWBook =
     (let l = lg_libs g ! it in
      if 0 \<le> l_top l \<and> l_top l < int lib_BOOKS
      then Some (upd_lib it (\<lambda>l. l\<lparr>l_books := (l_books l)[nat (l_top l) := book_char me]\<rparr>) g, it, LWTop)
      else Some (g\<lparr>lg_oob := True\<rparr>, it, LWTop))"
| "zad3_writer g me it LWTop = Some (upd_lib it (\<lambda>l. l\<lparr>l_top := l_top l + 1\<rparr>) g, it, LWUnlock)"
| "zad3_writer g me it LWUnlock = Some (unlock_w me it g, it, LWEnd)"
| "zad3_writer g me it LWEnd = None"

definition zad5_writer :: "libs_glob \<Rightarrow> nat \<Rightarrow> nat \<Rightarrow> lib_wpc \<Rightarrow> (libs_glob \<times> nat \<times> lib_wpc) option" where
  "zad5_writer = zad3_writer"

text \<open>The reader of \<open>zad3.c\<close>; it reads the books before \<open>LRLock2\<close>.\<close>

fun zad3_reader :: "libs_glob \<Rightarrow> nat \<Rightarrow> nat \<Rightarrow> lib_rpc \<Rightarrow> (libs_glob \<times> nat \<times> lib_rpc) option" where
  "zad3_reader g me it LRTry =
     (if l_r (lg_libs g ! it) = None then Some (upd_lib it (\<lambda>l. l\<lparr>l_r := Some me\<rparr>) g, it, LRInc)
      else Some (g, next_lib it, LRTry))"
| "zad3_reader g me it LRInc = Some (upd_lib it (\<lambda>l. l\<lparr>l_readers := l_readers l + 1\<rparr>) g, it, LRTest1)"
| "zad3_reader g me it LRTest1 = Some (g, it, if lg_readers_count g = 1 then LRLockW else LRUnlock1)"
| "zad3_reader g me it LRLockW =
     (if l_w (lg_libs g ! it) = None then Some (upd_lib it (\<lambda>l. l\<lparr>l_w := Some me\<rparr>) g, it, LRUnlock1) else None)"
| "zad3_reader g me it LRUnlock1 = Some (unlock_r me it g, it, LRLock2)"
| "zad3_reader g me it LRLock2 =
     (if l_r (lg_libs g ! it) = None then Some (upd_lib it (\<lambda>l. l\<lparr>l_r := Some me\<rparr>) g, it, LRDec) else None)"
| "zad3_reader g me it LRDec = Some (upd_lib it (\<lambda>l. l\<lparr>l_readers := l_readers l - 1\<rparr>) g, it, LRTest0)"
| "zad3_reader g me it LRTest0 = Some (g, it, if l_readers (lg_libs g ! it) = 0 then LRUnlockW else LRUnlock2)"
| "zad3_reader g me it LRUnlockW = Some (unlock_w me it g, it, LRUnlock2)"
| "zad3_reader g me it LRUnlock2 = Some (unlock_r me it g, it, LREnd)"
| "zad3_reader g me it LREnd = None"
| "zad3_reader g me it LRCheck = None"
| "zad3_reader g me it LRFull = None"

text \<open>The reader of \<open>zad5.c\<close>: the loop that enters a library has a test of its own; what follows is the text of \<open>zad3.c\<close>.\<close>

fun zad5_reader :: "libs_glob \<Rightarrow> nat \<Rightarrow> nat \<Rightarrow> lib_rpc \<Rightarrow> (libs_glob \<times> nat \<times> lib_rpc) option" where
  "zad5_reader g me it LRTry =
     (if l_r (lg_libs g ! it) = None then Some (upd_lib it (\<lambda>l. l\<lparr>l_r := Some me\<rparr>) g, it, LRCheck)
      else Some (g, next_lib it, LRTry))"
| "zad5_reader g me it LRCheck =
     Some (g, it, if l_readers (lg_libs g ! it) < LIB_MAX_READERS then LRInc else LRFull)"
| "zad5_reader g me it LRFull = Some (unlock_r me it g, it, LRTry)"
| "zad5_reader g me it p = zad3_reader g me it p"

definition libs_init :: libs_glob where
  "libs_init = \<lparr>lg_libs = replicate LIBS_NUM
     \<lparr>l_books = zeros lib_BOOKS, l_top = 0, l_r = None, l_w = None, l_readers = 0\<rparr>,
     lg_readers_count = 0, lg_oob = False, lg_foreign = False\<rparr>"

fun lib_step ::
  "(libs_glob \<Rightarrow> nat \<Rightarrow> nat \<Rightarrow> lib_wpc \<Rightarrow> (libs_glob \<times> nat \<times> lib_wpc) option) \<Rightarrow>
   (libs_glob \<Rightarrow> nat \<Rightarrow> nat \<Rightarrow> lib_rpc \<Rightarrow> (libs_glob \<times> nat \<times> lib_rpc) option) \<Rightarrow>
   libs_glob \<Rightarrow> lib_pc \<Rightarrow> (libs_glob \<times> lib_pc \<times> (lib_pc \<Rightarrow> lib_pc)) option" where
  "lib_step wr rd g (LW me it p) = map_option (\<lambda>(g', it', p'). (g', LW me it' p', \<lambda>p. p)) (wr g me it p)"
| "lib_step wr rd g (LR me it p) = map_option (\<lambda>(g', it', p'). (g', LR me it' p', \<lambda>p. p)) (rd g me it p)"

fun lib_final :: "lib_pc \<Rightarrow> bool" where
  "lib_final (LW me it p) = (p = LWEnd)"
| "lib_final (LR me it p) = (p = LREnd)"

text \<open>\<open>main\<close>: writers are threads \<open>0..7\<close>, readers follow; all are joined in the order of their creation.\<close>

definition lib_prog ::
  "(libs_glob \<Rightarrow> nat \<Rightarrow> nat \<Rightarrow> lib_wpc \<Rightarrow> (libs_glob \<times> nat \<times> lib_wpc) option) \<Rightarrow>
   (libs_glob \<Rightarrow> nat \<Rightarrow> nat \<Rightarrow> lib_rpc \<Rightarrow> (libs_glob \<times> nat \<times> lib_rpc) option) \<Rightarrow> nat \<Rightarrow> (libs_glob, lib_pc) prog" where
  "lib_prog wr rd readers = \<lparr>p_step = lib_step wr rd, p_spur = (\<lambda>_. None), p_final = lib_final,
     p_start = (\<lambda>i. if i < lib_WRITERS_NUM then LW i 0 LWTry else LR i 0 LRTry),
     p_glob0 = libs_init, p_threads = lib_WRITERS_NUM + readers,
     p_main = pfork (lib_WRITERS_NUM + readers) [0..<lib_WRITERS_NUM + readers]\<rparr>"

definition zad3 :: "(libs_glob, lib_pc) prog" where
  "zad3 = lib_prog zad3_writer zad3_reader zad3_READERS_NUM"

definition zad5 :: "(libs_glob, lib_pc) prog" where
  "zad5 = lib_prog zad5_writer zad5_reader zad5_READERS_NUM"

section \<open>The invariant\<close>

text \<open>Readers of library \<open>k\<close> that hold its reader mutex, that are counted, and that have uncounted themselves.\<close>

fun in_r :: "nat \<Rightarrow> lib_pc option \<Rightarrow> bool" where
  "in_r k (Some (LR me it p)) = (it = k \<and> p \<noteq> LRTry \<and> p \<noteq> LRLock2 \<and> p \<noteq> LREnd)"
| "in_r k t = False"

fun counted_in :: "nat \<Rightarrow> lib_pc option \<Rightarrow> bool" where
  "counted_in k (Some (LR me it p)) = (it = k \<and> (p = LRTest1 \<or> p = LRLockW \<or> p = LRUnlock1 \<or> p = LRLock2 \<or> p = LRDec))"
| "counted_in k t = False"

fun left_from :: "nat \<Rightarrow> lib_pc option \<Rightarrow> bool" where
  "left_from k (Some (LR me it p)) = (it = k \<and> (p = LRTest0 \<or> p = LRUnlockW \<or> p = LRUnlock2 \<or> p = LREnd))"
| "left_from k t = False"

fun closing :: "nat \<Rightarrow> lib_pc option \<Rightarrow> bool" where
  "closing k (Some (LR me it p)) = (it = k \<and> (p = LRTest0 \<or> p = LRUnlockW))"
| "closing k t = False"

text \<open>Writers of library \<open>k\<close> between their lock and their unlock, and those that have written.\<close>

fun in_w :: "nat \<Rightarrow> lib_pc option \<Rightarrow> bool" where
  "in_w k (Some (LW me it p)) = (it = k \<and> (p = LWBook \<or> p = LWTop \<or> p = LWUnlock))"
| "in_w k t = False"

fun wrote_in :: "nat \<Rightarrow> lib_pc option \<Rightarrow> bool" where
  "wrote_in k (Some (LW me it p)) = (it = k \<and> (p = LWUnlock \<or> p = LWEnd))"
| "wrote_in k t = False"

fun char_of_thread :: "lib_pc option \<Rightarrow> char" where
  "char_of_thread (Some (LW me it p)) = book_char me"
| "char_of_thread t = NUL"

fun lib_local :: "nat \<Rightarrow> lib_pc option \<Rightarrow> bool" where
  "lib_local i (Some (LW me it p)) = (me = i \<and> i < 8 \<and> it < 2)"
| "lib_local i (Some (LR me it p)) = (me = i \<and> 8 \<le> i \<and> it < 2 \<and> p \<noteq> LRLockW)"
| "lib_local i None = True"

text \<open>The six parts of the invariant: shapes and numbers; the reader mutexes; the readers' counts; the writer mutexes; the
  books; and that a library that was left by its last reader had its writer mutex unlocked.\<close>

definition lib_shape :: "libs_glob \<Rightarrow> lib_pc option list \<Rightarrow> bool" where
  "lib_shape g ts \<longleftrightarrow> length (lg_libs g) = 2 \<and> lg_readers_count g = 0 \<and> (\<forall>i < length ts. lib_local i (ts ! i))"

definition lib_rlock :: "libs_glob \<Rightarrow> lib_pc option list \<Rightarrow> bool" where
  "lib_rlock g ts \<longleftrightarrow> (\<forall>k < 2. (\<forall>i < length ts. in_r k (ts ! i) \<longleftrightarrow> l_r (lg_libs g ! k) = Some i)
     \<and> (\<forall>j. l_r (lg_libs g ! k) = Some j \<longrightarrow> j < length ts))"

definition lib_count :: "libs_glob \<Rightarrow> lib_pc option list \<Rightarrow> bool" where
  "lib_count g ts \<longleftrightarrow> (\<forall>k < 2. l_readers (lg_libs g ! k) = cnt (counted_in k) ts)"

definition lib_wlock :: "libs_glob \<Rightarrow> lib_pc option list \<Rightarrow> bool" where
  "lib_wlock g ts \<longleftrightarrow> (\<forall>k < 2. (\<forall>i < length ts. l_w (lg_libs g ! k) = Some i \<longrightarrow> in_w k (ts ! i))
     \<and> (\<not> lg_foreign g \<longrightarrow> (\<forall>i < length ts. in_w k (ts ! i) \<longrightarrow> l_w (lg_libs g ! k) = Some i))
     \<and> (\<forall>j. l_w (lg_libs g ! k) = Some j \<longrightarrow> j < length ts))"

definition lib_books :: "libs_glob \<Rightarrow> lib_pc option list \<Rightarrow> bool" where
  "lib_books g ts \<longleftrightarrow> \<not> lg_oob g \<and> (\<forall>k < 2. l_top (lg_libs g ! k) = cnt (wrote_in k) ts
     \<and> length (l_books (lg_libs g ! k)) = 20)"

definition lib_chars :: "libs_glob \<Rightarrow> lib_pc option list \<Rightarrow> bool" where
  "lib_chars g ts \<longleftrightarrow> \<not> lg_foreign g \<longrightarrow> (\<forall>k < 2.
     (\<forall>i < length ts. \<forall>me. ts ! i = Some (LW me k LWTop) \<longrightarrow>
        l_books (lg_libs g ! k) ! nat (l_top (lg_libs g ! k)) = book_char me)
     \<and> (\<forall>c. cnt ((=) c) (take (nat (l_top (lg_libs g ! k))) (l_books (lg_libs g ! k))) =
          cnt (\<lambda>t. wrote_in k t \<and> char_of_thread t = c) ts))"

definition lib_left :: "libs_glob \<Rightarrow> lib_pc option list \<Rightarrow> bool" where
  "lib_left g ts \<longleftrightarrow> lg_foreign g \<or> (\<forall>k < 2. l_readers (lg_libs g ! k) = 0 \<longrightarrow>
     cnt (left_from k) ts = 0 \<or> 1 \<le> cnt (closing k) ts)"

definition lib_inv :: "libs_glob \<Rightarrow> lib_pc option list \<Rightarrow> bool" where
  "lib_inv g ts \<longleftrightarrow> lib_shape g ts \<and> lib_rlock g ts \<and> lib_count g ts \<and> lib_wlock g ts \<and> lib_books g ts
     \<and> lib_chars g ts \<and> lib_left g ts"

section \<open>Every statement keeps the invariant\<close>

lemma lib_get [simp]:
  "it < length (lg_libs g) \<Longrightarrow> lg_libs (upd_lib it f g) ! k = (if k = it then f (lg_libs g ! it) else lg_libs g ! k)"
  "it < length (lg_libs g) \<Longrightarrow>
     lg_libs (unlock_r me it g) ! k = (if k = it then (lg_libs g ! it)\<lparr>l_r := None\<rparr> else lg_libs g ! k)"
  "it < length (lg_libs g) \<Longrightarrow>
     lg_libs (unlock_w me it g) ! k = (if k = it then (lg_libs g ! it)\<lparr>l_w := None\<rparr> else lg_libs g ! k)"
  by (auto simp: upd_lib_def unlock_r_def unlock_w_def)

lemma lib_len [simp]:
  "length (lg_libs (upd_lib it f g)) = length (lg_libs g)" "length (lg_libs (unlock_r me it g)) = length (lg_libs g)"
  "length (lg_libs (unlock_w me it g)) = length (lg_libs g)"
  by (simp_all add: upd_lib_def unlock_r_def unlock_w_def)

lemma lib_rest [simp]:
  "lg_readers_count (upd_lib it f g) = lg_readers_count g" "lg_readers_count (unlock_r me it g) = lg_readers_count g"
  "lg_readers_count (unlock_w me it g) = lg_readers_count g"
  "lg_oob (upd_lib it f g) = lg_oob g" "lg_oob (unlock_r me it g) = lg_oob g" "lg_oob (unlock_w me it g) = lg_oob g"
  "lg_foreign (upd_lib it f g) = lg_foreign g"
  "lg_foreign (unlock_r me it g) = (lg_foreign g \<or> l_r (lg_libs g ! it) \<noteq> Some me)"
  "lg_foreign (unlock_w me it g) = (lg_foreign g \<or> l_w (lg_libs g ! it) \<noteq> Some me)"
  by (simp_all add: upd_lib_def unlock_r_def unlock_w_def)

text \<open>What the readers of both programs do; \<open>LRLockW\<close> is never reached.\<close>

inductive reader_step :: "libs_glob \<Rightarrow> nat \<Rightarrow> nat \<Rightarrow> lib_rpc \<Rightarrow> libs_glob \<Rightarrow> nat \<Rightarrow> lib_rpc \<Rightarrow> bool" where
  spin: "reader_step g me it LRTry g (next_lib it) LRTry"
| enter: "l_r (lg_libs g ! it) = None \<Longrightarrow> p' \<in> {LRInc, LRCheck} \<Longrightarrow>
     reader_step g me it LRTry (upd_lib it (\<lambda>l. l\<lparr>l_r := Some me\<rparr>) g) it p'"
| check: "p' \<in> {LRInc, LRFull} \<Longrightarrow> reader_step g me it LRCheck g it p'"
| full: "reader_step g me it LRFull (unlock_r me it g) it LRTry"
| inc: "reader_step g me it LRInc (upd_lib it (\<lambda>l. l\<lparr>l_readers := l_readers l + 1\<rparr>) g) it LRTest1"
| test1: "lg_readers_count g \<noteq> 1 \<Longrightarrow> reader_step g me it LRTest1 g it LRUnlock1"
| lock_w: "lg_readers_count g = 1 \<Longrightarrow> reader_step g me it LRTest1 g it LRLockW"
| unlock1: "reader_step g me it LRUnlock1 (unlock_r me it g) it LRLock2"
| lock2: "l_r (lg_libs g ! it) = None \<Longrightarrow>
     reader_step g me it LRLock2 (upd_lib it (\<lambda>l. l\<lparr>l_r := Some me\<rparr>) g) it LRDec"
| dec: "reader_step g me it LRDec (upd_lib it (\<lambda>l. l\<lparr>l_readers := l_readers l - 1\<rparr>) g) it LRTest0"
| test0: "l_readers (lg_libs g ! it) \<noteq> 0 \<Longrightarrow> reader_step g me it LRTest0 g it LRUnlock2"
| last: "l_readers (lg_libs g ! it) = 0 \<Longrightarrow> reader_step g me it LRTest0 g it LRUnlockW"
| unlockw: "reader_step g me it LRUnlockW (unlock_w me it g) it LRUnlock2"
| unlock2: "reader_step g me it LRUnlock2 (unlock_r me it g) it LREnd"

lemma zad3_reader_step: "zad3_reader g me it p = Some (g', it', p') \<Longrightarrow> p \<noteq> LRLockW \<Longrightarrow> reader_step g me it p g' it' p'"
  by (cases p) (auto intro: reader_step.intros split: if_splits)

lemma zad5_reader_step: "zad5_reader g me it p = Some (g', it', p') \<Longrightarrow> p \<noteq> LRLockW \<Longrightarrow> reader_step g me it p g' it' p'"
  by (cases p) (auto intro: reader_step.intros split: if_splits)

lemma next_lib_less [simp]: "it < 2 \<Longrightarrow> next_lib it < 2"
  by (simp add: next_lib_def LIBS_NUM_def)

lemma lib_invD:
  assumes "lib_inv g ts"
  shows "lib_shape g ts" "lib_rlock g ts" "lib_count g ts" "lib_wlock g ts" "lib_books g ts" "lib_chars g ts" "lib_left g ts"
  using assms unfolding lib_inv_def by blast+

lemma lib_thread:
  assumes "lib_inv g ts" "i < length ts"
  shows "lib_local i (ts ! i)" "length (lg_libs g) = 2" "lg_readers_count g = 0"
  using assms by (auto simp: lib_inv_def lib_shape_def)

lemma reader_shape:
  assumes "lib_inv g ts" "i < length ts" "ts ! i = Some (LR me it p)" "reader_step g me it p g' it' p'"
  shows "lib_shape g' (ts[i := Some (LR me it' p')])"
proof -
  have t: "me = i" "8 \<le> i" "it < 2" "p \<noteq> LRLockW" using lib_thread(1) [OF assms(1,2)] assms(3) by auto
  have "it' < 2 \<and> p' \<noteq> LRLockW \<and> length (lg_libs g') = 2 \<and> lg_readers_count g' = 0"
    using assms(4) t lib_thread(2,3) [OF assms(1,2)]
    by (cases rule: reader_step.cases) (auto split: if_splits)
  with t assms(2) lib_invD(1) [OF assms(1)] show ?thesis by (auto simp: lib_shape_def nth_list_update)
qed

lemma reader_rlock:
  assumes "lib_inv g ts" "i < length ts" "ts ! i = Some (LR me it p)" "reader_step g me it p g' it' p'"
  shows "lib_rlock g' (ts[i := Some (LR me it' p')])"
proof -
  have t: "me = i" "it < 2" "length (lg_libs g) = 2" using lib_thread [OF assms(1,2)] assms(3) by auto
  have R: "\<forall>j < length ts. in_r k (ts ! j) \<longleftrightarrow> l_r (lg_libs g ! k) = Some j"
    "\<forall>j. l_r (lg_libs g ! k) = Some j \<longrightarrow> j < length ts" if "k < 2" for k
    using lib_invD(2) [OF assms(1)] that by (auto simp: lib_rlock_def)
  show ?thesis unfolding lib_rlock_def
  proof (intro allI impI)
    fix k :: nat assume k: "k < 2"
    show "(\<forall>j < length (ts[i := Some (LR me it' p')]). in_r k (ts[i := Some (LR me it' p')] ! j) \<longleftrightarrow> l_r (lg_libs g' ! k) = Some j)
      \<and> (\<forall>j. l_r (lg_libs g' ! k) = Some j \<longrightarrow> j < length (ts[i := Some (LR me it' p')]))"
      using assms(4) R [OF k] R [OF t(2)] t assms(2,3)
      by (cases rule: reader_step.cases) (auto simp: nth_list_update split: if_splits)
  qed
qed

lemma reader_count:
  assumes "lib_inv g ts" "i < length ts" "ts ! i = Some (LR me it p)" "reader_step g me it p g' it' p'"
  shows "lib_count g' (ts[i := Some (LR me it' p')])"
proof -
  have t: "me = i" "it < 2" "p \<noteq> LRLockW" "length (lg_libs g) = 2" using lib_thread [OF assms(1,2)] assms(3) by auto
  have "l_readers (lg_libs g' ! k) = cnt (counted_in k) (ts[i := Some (LR me it' p')])" if k: "k < 2" for k
  proof -
    have "l_readers (lg_libs g ! k) = cnt (counted_in k) ts"
      using lib_invD(3) [OF assms(1)] k by (auto simp: lib_count_def)
    with assms(4) show ?thesis
      using t assms(2,3)
      by (cases rule: reader_step.cases) (auto simp: cnt_upd of_bool_def split: if_splits)
  qed
  then show ?thesis by (simp add: lib_count_def)
qed

text \<open>A reader does not change what concerns the writers, except that it unlocks a writer mutex it does not own.\<close>

lemma reader_w:
  assumes "reader_step g me it p g' it' p'" "it < 2" "p \<noteq> LRLockW" "length (lg_libs g) = 2"
  shows "l_top (lg_libs g' ! k) = l_top (lg_libs g ! k) \<and> l_books (lg_libs g' ! k) = l_books (lg_libs g ! k)
    \<and> lg_oob g' = lg_oob g \<and> (lg_foreign g \<longrightarrow> lg_foreign g')
    \<and> l_w (lg_libs g' ! k) = (if p = LRUnlockW \<and> k = it then None else l_w (lg_libs g ! k))"
  using assms by (cases rule: reader_step.cases) (auto split: if_splits)

lemma reader_unlocks:
  assumes "lib_inv g ts" "i < length ts" "ts ! i = Some (LR me it LRUnlockW)" "reader_step g me it LRUnlockW g' it' p'"
  shows "lg_foreign g'"
proof -
  have t: "me = i" "it < 2" "length (lg_libs g) = 2" using lib_thread [OF assms(1,2)] assms(3) by auto
  have "l_w (lg_libs g ! it) = Some i \<longrightarrow> in_w it (ts ! i)"
    using lib_invD(4) [OF assms(1)] t(2) assms(2) unfolding lib_wlock_def by blast
  then have "l_w (lg_libs g ! it) \<noteq> Some i" using assms(3) by simp
  with assms(4) show ?thesis using t by (cases rule: reader_step.cases) auto
qed

lemma reader_others:
  assumes "lib_inv g ts" "i < length ts" "ts ! i = Some (LR me it p)" "reader_step g me it p g' it' p'"
  shows "lib_wlock g' (ts[i := Some (LR me it' p')])" "lib_books g' (ts[i := Some (LR me it' p')])"
    "lib_chars g' (ts[i := Some (LR me it' p')])"
proof -
  have t: "it < 2" "p \<noteq> LRLockW" "length (lg_libs g) = 2" using lib_thread [OF assms(1,2)] assms(3) by auto
  note w = reader_w [OF assms(4) t]
  have f: "lg_foreign g' \<or> (\<not> lg_foreign g \<and> p \<noteq> LRUnlockW)"
    using reader_unlocks [OF assms(1,2)] assms(3,4) w by metis
  have c: "cnt (wrote_in k) (ts[i := Some (LR me it' p')]) = cnt (wrote_in k) ts"
    "cnt (\<lambda>t. wrote_in k t \<and> char_of_thread t = c) (ts[i := Some (LR me it' p')]) =
      cnt (\<lambda>t. wrote_in k t \<and> char_of_thread t = c) ts" for k c
    using assms(2,3) by (simp_all add: cnt_upd)
  show "lib_wlock g' (ts[i := Some (LR me it' p')])"
    unfolding lib_wlock_def
  proof (intro allI impI)
    fix k :: nat assume k: "k < 2"
    have W: "\<forall>j < length ts. l_w (lg_libs g ! k) = Some j \<longrightarrow> in_w k (ts ! j)"
      "\<not> lg_foreign g \<Longrightarrow> \<forall>j < length ts. in_w k (ts ! j) \<longrightarrow> l_w (lg_libs g ! k) = Some j"
      "\<forall>j. l_w (lg_libs g ! k) = Some j \<longrightarrow> j < length ts"
      using lib_invD(4) [OF assms(1)] k unfolding lib_wlock_def by blast+
    have same: "in_w k (ts[i := Some (LR me it' p')] ! j) = in_w k (ts ! j)" if "j < length ts" for j
      using assms(2,3) that by (cases "i = j") auto
    have l: "l_w (lg_libs g' ! k) = Some j \<Longrightarrow> l_w (lg_libs g ! k) = Some j" for j using w [of k] by (auto split: if_splits)
    have eq: "\<not> lg_foreign g' \<Longrightarrow> \<not> lg_foreign g \<and> l_w (lg_libs g' ! k) = l_w (lg_libs g ! k)" using f w [of k] by auto
    show "(\<forall>j < length (ts[i := Some (LR me it' p')]). l_w (lg_libs g' ! k) = Some j \<longrightarrow> in_w k (ts[i := Some (LR me it' p')] ! j))
     \<and> (\<not> lg_foreign g' \<longrightarrow> (\<forall>j < length (ts[i := Some (LR me it' p')]).
            in_w k (ts[i := Some (LR me it' p')] ! j) \<longrightarrow> l_w (lg_libs g' ! k) = Some j))
     \<and> (\<forall>j. l_w (lg_libs g' ! k) = Some j \<longrightarrow> j < length (ts[i := Some (LR me it' p')]))"
      unfolding length_list_update
      by (intro conjI allI impI) (use W(1,3) l same in metis, use W(2) eq same in metis, use W(3) l in metis)
  qed
  show "lib_books g' (ts[i := Some (LR me it' p')])" using lib_invD(5) [OF assms(1)] w by (simp add: lib_books_def c)
  show "lib_chars g' (ts[i := Some (LR me it' p')])"
  proof -
    have same: "(ts[i := Some (LR me it' p')] ! j = Some (LW m k q)) = (ts ! j = Some (LW m k q))" if "j < length ts" for j m k q
      using assms(2,3) that by (cases "i = j") auto
    from lib_invD(6) [OF assms(1)] f w show ?thesis
      by (cases "lg_foreign g'") (simp_all add: lib_chars_def c same)
  qed
qed

lemma reader_left:
  assumes "lib_inv g ts" "i < length ts" "ts ! i = Some (LR me it p)" "reader_step g me it p g' it' p'"
  shows "lib_left g' (ts[i := Some (LR me it' p')])"
proof (cases "lg_foreign g'")
  case False
  have t: "it < 2" "p \<noteq> LRLockW" "length (lg_libs g) = 2" using lib_thread [OF assms(1,2)] assms(3) by auto
  have p: "p \<noteq> LRUnlockW" using reader_unlocks [OF assms(1,2)] assms(3,4) False by auto
  have f: "\<not> lg_foreign g" using reader_w [OF assms(4) t] False by blast
  let ?ts = "ts[i := Some (LR me it' p')]"
  have "cnt (left_from k) ?ts = 0 \<or> 1 \<le> cnt (closing k) ?ts" if k: "k < 2" and z: "l_readers (lg_libs g' ! k) = 0" for k
  proof (cases "closing k (Some (LR me it' p'))")
    case True
    then have "1 \<le> cnt (closing k) ?ts" using assms(2) by (intro cnt_pos [of i]) simp_all
    then show ?thesis by blast
  next
    case ncl: False
    have "l_readers (lg_libs g ! k) = 0 \<and> left_from k (Some (LR me it' p')) = left_from k (Some (LR me it p))
        \<and> \<not> closing k (Some (LR me it p))"
    proof -
      have "0 \<le> l_readers (lg_libs g ! k)"
        using lib_invD(3) [OF assms(1)] k cnt_nonneg by (auto simp: lib_count_def)
      with assms(4) show ?thesis
        using p t z ncl
        by (cases rule: reader_step.cases) (auto split: if_splits)
    qed
    moreover from this have "cnt (left_from k) ts = 0 \<or> 1 \<le> cnt (closing k) ts"
      using lib_invD(7) [OF assms(1)] f k by (auto simp: lib_left_def)
    ultimately show ?thesis using ncl assms(2,3) by (simp add: cnt_upd del: closing.simps left_from.simps)
  qed
  then show ?thesis by (simp add: lib_left_def)
qed (simp add: lib_left_def)

lemma reader_inv:
  assumes "lib_inv g ts" "i < length ts" "ts ! i = Some (LR me it p)" "reader_step g me it p g' it' p'"
  shows "lib_inv g' (ts[i := Some (LR me it' p')])"
  unfolding lib_inv_def
  using reader_shape [OF assms] reader_rlock [OF assms] reader_count [OF assms] reader_others [OF assms]
    reader_left [OF assms] by blast

text \<open>A writer does not change what concerns the readers.\<close>

lemma writer_r:
  assumes "zad3_writer g me it p = Some (g', it', p')" "it < 2" "length (lg_libs g) = 2"
  shows "l_r (lg_libs g' ! k) = l_r (lg_libs g ! k) \<and> l_readers (lg_libs g' ! k) = l_readers (lg_libs g ! k)
    \<and> lg_readers_count g' = lg_readers_count g \<and> length (lg_libs g') = 2 \<and> it' < 2 \<and> (lg_foreign g \<longrightarrow> lg_foreign g')"
  using assms by (cases p) (auto simp: Let_def split: if_splits)

lemma writer_others:
  assumes "lib_inv g ts" "i < length ts" "ts ! i = Some (LW me it p)" "zad3_writer g me it p = Some (g', it', p')"
  shows "lib_shape g' (ts[i := Some (LW me it' p')])" "lib_rlock g' (ts[i := Some (LW me it' p')])"
    "lib_count g' (ts[i := Some (LW me it' p')])" "lib_left g' (ts[i := Some (LW me it' p')])"
proof -
  have t: "me = i \<and> i < 8" "it < 2" "length (lg_libs g) = 2" using lib_thread [OF assms(1,2)] assms(3) by auto
  note r = writer_r [OF assms(4) t(2,3)]
  have c: "cnt (counted_in k) (ts[i := Some (LW me it' p')]) = cnt (counted_in k) ts"
    "cnt (left_from k) (ts[i := Some (LW me it' p')]) = cnt (left_from k) ts"
    "cnt (closing k) (ts[i := Some (LW me it' p')]) = cnt (closing k) ts" for k
    using assms(2,3) by (simp_all add: cnt_upd)
  have same: "in_r k (ts[i := Some (LW me it' p')] ! j) = in_r k (ts ! j)" if "j < length ts" for j k
    using assms(2,3) that by (cases "i = j") auto
  show "lib_shape g' (ts[i := Some (LW me it' p')])"
    using lib_invD(1) [OF assms(1)] r t assms(2) by (auto simp: lib_shape_def nth_list_update)
  show "lib_rlock g' (ts[i := Some (LW me it' p')])" using lib_invD(2) [OF assms(1)] r by (simp add: lib_rlock_def same)
  show "lib_count g' (ts[i := Some (LW me it' p')])" using lib_invD(3) [OF assms(1)] r by (simp add: lib_count_def c)
  show "lib_left g' (ts[i := Some (LW me it' p')])" using lib_invD(7) [OF assms(1)] r by (auto simp: lib_left_def c)
qed

lemma lib_wlockD:
  assumes "lib_inv g ts" "k < 2" "j < length ts"
  shows "l_w (lg_libs g ! k) = Some j \<Longrightarrow> in_w k (ts ! j)"
    "\<not> lg_foreign g \<Longrightarrow> in_w k (ts ! j) \<Longrightarrow> l_w (lg_libs g ! k) = Some j"
  using lib_invD(4) [OF assms(1)] assms(2,3) unfolding lib_wlock_def by blast+

text \<open>Until a foreign unlock, the writer mutex of a library excludes the other writers.\<close>

lemma lib_one_writer:
  assumes "lib_inv g ts" "k < 2" "\<not> lg_foreign g" "i < length ts" "j < length ts" "in_w k (ts ! i)" "in_w k (ts ! j)"
  shows "i = j"
  using lib_wlockD(2) [OF assms(1,2,4) assms(3,6)] lib_wlockD(2) [OF assms(1,2,5) assms(3,7)] by simp

lemma writer_wlock:
  assumes "lib_inv g ts" "i < length ts" "ts ! i = Some (LW me it p)" "zad3_writer g me it p = Some (g', it', p')"
  shows "lib_wlock g' (ts[i := Some (LW me it' p')])"
  unfolding lib_wlock_def length_list_update
proof (intro allI impI)
  fix k :: nat assume k: "k < 2"
  let ?ts = "ts[i := Some (LW me it' p')]"
  have t: "me = i" "it < 2" "length (lg_libs g) = 2" using lib_thread [OF assms(1,2)] assms(3) by auto
  note W = lib_wlockD [OF assms(1) k]
  have lt: "\<forall>j. l_w (lg_libs g ! k) = Some j \<longrightarrow> j < length ts"
    using lib_invD(4) [OF assms(1)] k unfolding lib_wlock_def by blast
  have l: "l_w (lg_libs g' ! k) = (if k = it \<and> p = LWTry \<and> l_w (lg_libs g ! k) = None then Some i
      else if k = it \<and> p = LWUnlock then None else l_w (lg_libs g ! k))"
    using assms(4) t by (cases p) (auto simp: Let_def split: if_splits)
  have f: "lg_foreign g' = (lg_foreign g \<or> p = LWUnlock \<and> l_w (lg_libs g ! it) \<noteq> Some i)"
    using assms(4) t by (cases p) (auto simp: Let_def split: if_splits)
  have i': "in_w k (Some (LW me it' p')) = (k = it \<and> (p = LWTry \<and> l_w (lg_libs g ! k) = None \<or> p = LWBook \<or> p = LWTop))"
    using assms(4) t by (cases p) (auto simp: Let_def split: if_splits)
  have i0: "in_w k (ts ! i) = (k = it \<and> (p = LWBook \<or> p = LWTop \<or> p = LWUnlock))" using assms(3) by auto
  have a: "in_w k (?ts ! j)" if "j < length ts" "l_w (lg_libs g' ! k) = Some j" for j
  proof (cases "j = i")
    case True
    have "k = it \<and> (p = LWTry \<and> l_w (lg_libs g ! k) = None \<or> p = LWBook \<or> p = LWTop)"
      using that True l W(1) [OF assms(2)] i0 by (simp split: if_splits)
    then have "in_w k (Some (LW me it' p'))" unfolding i' .
    with True assms(2) show ?thesis by (simp del: in_w.simps)
  next
    case False
    then have "l_w (lg_libs g ! k) = Some j" using that l by (simp split: if_splits)
    then show ?thesis using False W(1) that(1) by simp
  qed
  have b: "l_w (lg_libs g' ! k) = Some j" if "\<not> lg_foreign g'" "j < length ts" "in_w k (?ts ! j)" for j
  proof (cases "j = i")
    case True
    then have "k = it \<and> (p = LWTry \<and> l_w (lg_libs g ! k) = None \<or> p = LWBook \<or> p = LWTop)"
      using that(3) i' assms(2) by (auto simp del: in_w.simps)
    then show ?thesis using True l W(2) [OF assms(2)] i0 f that(1) by auto
  next
    case False
    then have "in_w k (ts ! j)" using that(3) by simp
    then have w: "l_w (lg_libs g ! k) = Some j" using W(2) that(1,2) f by simp
    moreover have "\<not> (k = it \<and> p = LWUnlock)"
      using W(2) [OF assms(2)] i0 that(1) f w False by auto
    ultimately show ?thesis using l by simp
  qed
  have "j < length ts" if "l_w (lg_libs g' ! k) = Some j" for j
    using that l lt assms(2) by (auto split: if_splits)
  with a b show "(\<forall>j < length ts. l_w (lg_libs g' ! k) = Some j \<longrightarrow> in_w k (?ts ! j))
     \<and> (\<not> lg_foreign g' \<longrightarrow> (\<forall>j < length ts. in_w k (?ts ! j) \<longrightarrow> l_w (lg_libs g' ! k) = Some j))
     \<and> (\<forall>j. l_w (lg_libs g' ! k) = Some j \<longrightarrow> j < length ts)" by blast
qed

lemma lib_top:
  assumes "lib_inv g ts" "k < 2"
  shows "0 \<le> l_top (lg_libs g ! k)" "l_top (lg_libs g ! k) \<le> 8" "length (l_books (lg_libs g ! k)) = 20"
proof -
  have "\<forall>k < 2. l_top (lg_libs g ! k) = cnt (wrote_in k) ts \<and> length (l_books (lg_libs g ! k)) = 20"
    using lib_invD(5) [OF assms(1)] unfolding lib_books_def by blast
  then have e: "l_top (lg_libs g ! k) = cnt (wrote_in k) ts" "length (l_books (lg_libs g ! k)) = 20"
    using assms(2) by blast+
  have "cnt (wrote_in k) ts \<le> int 8"
  proof (rule cnt_below)
    fix i assume "i < length ts" "wrote_in k (ts ! i)"
    with lib_thread(1) [OF assms(1)] show "i < 8" by (cases "(k, ts ! i)" rule: wrote_in.cases) fastforce+
  qed
  with e cnt_nonneg [of "wrote_in k" ts]
  show "0 \<le> l_top (lg_libs g ! k)" "l_top (lg_libs g ! k) \<le> 8" "length (l_books (lg_libs g ! k)) = 20" by auto
qed

lemma writer_text:
  assumes "lib_inv g ts" "i < length ts" "ts ! i = Some (LW me it p)" "zad3_writer g me it p = Some (g', it', p')" "k < 2"
  shows "l_top (lg_libs g' ! k) = l_top (lg_libs g ! k) + of_bool (k = it \<and> p = LWTop)"
    "l_books (lg_libs g' ! k) = (if k = it \<and> p = LWBook
       then (l_books (lg_libs g ! k))[nat (l_top (lg_libs g ! k)) := book_char me] else l_books (lg_libs g ! k))"
    "lg_oob g' = lg_oob g" "p' = LWTop \<longleftrightarrow> p = LWBook" "p = LWTop \<Longrightarrow> p' = LWUnlock" "p \<noteq> LWTry \<Longrightarrow> it' = it"
    "(p' = LWUnlock \<or> p' = LWEnd) \<longleftrightarrow> (p = LWTop \<or> p = LWUnlock)" "p \<noteq> LWEnd"
proof -
  have t: "it < 2" "length (lg_libs g) = 2" using lib_thread [OF assms(1,2)] assms(3) by auto
  have "0 \<le> l_top (lg_libs g ! it) \<and> l_top (lg_libs g ! it) < int lib_BOOKS"
    using lib_top [OF assms(1) t(1)] by (simp add: lib_BOOKS_def)
  then have b: "\<not> (l_top (lg_libs g ! it) < 0) \<and> l_top (lg_libs g ! it) < int lib_BOOKS" by simp
  show "l_top (lg_libs g' ! k) = l_top (lg_libs g ! k) + of_bool (k = it \<and> p = LWTop)"
    using assms(4) t b by (cases p) (auto simp: Let_def split: if_splits)
  show "l_books (lg_libs g' ! k) = (if k = it \<and> p = LWBook
       then (l_books (lg_libs g ! k))[nat (l_top (lg_libs g ! k)) := book_char me] else l_books (lg_libs g ! k))"
    using assms(4) t b by (cases p) (auto simp: Let_def split: if_splits)
  show "lg_oob g' = lg_oob g" using assms(4) t b by (cases p) (auto simp: Let_def split: if_splits)
  show "p' = LWTop \<longleftrightarrow> p = LWBook" using assms(4) by (cases p) (auto simp: Let_def split: if_splits)
  show "p' = LWUnlock" if "p = LWTop" using assms(4) that by auto
  show "it' = it" if "p \<noteq> LWTry" using assms(4) that by (cases p) (auto simp: Let_def split: if_splits)
  show "(p' = LWUnlock \<or> p' = LWEnd) \<longleftrightarrow> (p = LWTop \<or> p = LWUnlock)" "p \<noteq> LWEnd"
    using assms(4) by (cases p; auto simp: Let_def split: if_splits)+
qed

lemma writer_books:
  assumes "lib_inv g ts" "i < length ts" "ts ! i = Some (LW me it p)" "zad3_writer g me it p = Some (g', it', p')"
  shows "lib_books g' (ts[i := Some (LW me it' p')])"
  unfolding lib_books_def
proof (intro conjI allI impI)
  show "\<not> lg_oob g'" using writer_text(3) [OF assms, of 0] lib_invD(5) [OF assms(1)] by (simp add: lib_books_def)
  fix k :: nat assume k: "k < 2"
  note w = writer_text [OF assms k]
  show "length (l_books (lg_libs g' ! k)) = 20" using lib_top(3) [OF assms(1) k] unfolding w(2) by auto
  have "l_top (lg_libs g ! k) = cnt (wrote_in k) ts" using lib_invD(5) [OF assms(1)] k unfolding lib_books_def by blast
  moreover have "cnt (wrote_in k) (ts[i := Some (LW me it' p')]) = cnt (wrote_in k) ts + of_bool (k = it \<and> p = LWTop)"
    using w(5-8) assms(2,3) by (cases p) (auto simp: cnt_upd of_bool_def split: if_splits)
  ultimately show "l_top (lg_libs g' ! k) = cnt (wrote_in k) (ts[i := Some (LW me it' p')])" using w(1) by simp
qed

lemma writer_chars:
  assumes "lib_inv g ts" "i < length ts" "ts ! i = Some (LW me it p)" "zad3_writer g me it p = Some (g', it', p')"
  shows "lib_chars g' (ts[i := Some (LW me it' p')])"
proof (cases "lg_foreign g'")
  case False
  let ?ts = "ts[i := Some (LW me it' p')]"
  have t: "me = i" "it < 2" "length (lg_libs g) = 2" using lib_thread [OF assms(1,2)] assms(3) by auto
  have f: "\<not> lg_foreign g" using writer_r [OF assms(4) t(2,3), of 0] False by blast
  have C: "\<And>j m. j < length ts \<Longrightarrow> ts ! j = Some (LW m k LWTop) \<Longrightarrow>
        l_books (lg_libs g ! k) ! nat (l_top (lg_libs g ! k)) = book_char m"
      "\<And>c. cnt ((=) c) (take (nat (l_top (lg_libs g ! k))) (l_books (lg_libs g ! k))) =
          cnt (\<lambda>t. wrote_in k t \<and> char_of_thread t = c) ts" if "k < 2" for k
    using lib_invD(6) [OF assms(1)] f that unfolding lib_chars_def by blast+
  have "(\<forall>j < length ?ts. \<forall>m. ?ts ! j = Some (LW m k LWTop) \<longrightarrow>
        l_books (lg_libs g' ! k) ! nat (l_top (lg_libs g' ! k)) = book_char m)
     \<and> (\<forall>c. cnt ((=) c) (take (nat (l_top (lg_libs g' ! k))) (l_books (lg_libs g' ! k))) =
          cnt (\<lambda>t. wrote_in k t \<and> char_of_thread t = c) ?ts)" if k: "k < 2" for k
  proof (intro conjI allI impI)
    note w = writer_text [OF assms k] and top = lib_top [OF assms(1) k]
    fix j m assume j: "j < length ?ts" "?ts ! j = Some (LW m k LWTop)"
    show "l_books (lg_libs g' ! k) ! nat (l_top (lg_libs g' ! k)) = book_char m"
    proof (cases "j = i")
      case True
      then have "m = me" "p' = LWTop" "it' = k" using j assms(2) by auto
      then have "p = LWBook" "k = it" using w(4,6) by auto
      then show ?thesis using w(1,2) top \<open>m = me\<close> by simp
    next
      case other: False
      then have tj: "j < length ts" "ts ! j = Some (LW m k LWTop)" using j by auto
      have "\<not> (k = it \<and> (p = LWBook \<or> p = LWTop))"
      proof
        assume "k = it \<and> (p = LWBook \<or> p = LWTop)"
        then have "in_w k (ts ! i)" "in_w k (ts ! j)" using assms(3) tj by auto
        then show False using lib_one_writer [OF assms(1) k f assms(2) tj(1)] other by blast
      qed
      then show ?thesis using w(1,2) C(1) [OF k tj] by auto
    qed
  next
    note w = writer_text [OF assms k] and top = lib_top [OF assms(1) k]
    fix c
    have u: "cnt (\<lambda>t. wrote_in k t \<and> char_of_thread t = c) ?ts =
        cnt (\<lambda>t. wrote_in k t \<and> char_of_thread t = c) ts + of_bool (k = it \<and> p = LWTop \<and> book_char me = c)"
      using w(5-8) assms(2,3) by (cases p) (auto simp: cnt_upd of_bool_def split: if_splits)
    show "cnt ((=) c) (take (nat (l_top (lg_libs g' ! k))) (l_books (lg_libs g' ! k))) =
          cnt (\<lambda>t. wrote_in k t \<and> char_of_thread t = c) ?ts"
    proof (cases "k = it \<and> p = LWTop")
      case True
      then have b: "l_books (lg_libs g ! k) ! nat (l_top (lg_libs g ! k)) = book_char me"
        using C(1) [OF k assms(2)] assms(3) by simp
      have "nat (l_top (lg_libs g ! k)) < length (l_books (lg_libs g ! k))" using top by simp
      then have "take (nat (l_top (lg_libs g' ! k))) (l_books (lg_libs g' ! k)) =
          take (nat (l_top (lg_libs g ! k))) (l_books (lg_libs g ! k)) @ [book_char me]"
        using w(1,2) True top(1) b by (simp add: take_Suc_conv_app_nth nat_add_distrib)
      then show ?thesis using u C(2) [OF k, of c] True by (simp add: cnt_snoc eq_commute)
    next
      case no: False
      have "take (nat (l_top (lg_libs g' ! k))) (l_books (lg_libs g' ! k)) =
          take (nat (l_top (lg_libs g ! k))) (l_books (lg_libs g ! k))"
        using w(1,2) no by simp
      then show ?thesis using u C(2) [OF k, of c] no by auto
    qed
  qed
  then show ?thesis unfolding lib_chars_def by blast
qed (simp add: lib_chars_def)

lemma writer_inv:
  assumes "lib_inv g ts" "i < length ts" "ts ! i = Some (LW me it p)" "zad3_writer g me it p = Some (g', it', p')"
  shows "lib_inv g' (ts[i := Some (LW me it' p')])"
  unfolding lib_inv_def
  using writer_others [OF assms] writer_wlock [OF assms] writer_books [OF assms] writer_chars [OF assms] by blast

section \<open>What the two readers have in common\<close>

text \<open>\<open>ok_pc\<close> are the program points that occur; the laws after \<open>effect\<close> say where a reader is not blocked.\<close>

locale lib_reader =
  fixes rd :: "libs_glob \<Rightarrow> nat \<Rightarrow> nat \<Rightarrow> lib_rpc \<Rightarrow> (libs_glob \<times> nat \<times> lib_rpc) option"
    and readers :: nat and ok_pc :: "lib_rpc \<Rightarrow> bool"
  assumes effect: "rd g me it p = Some (g', it', p') \<Longrightarrow> p \<noteq> LRLockW \<Longrightarrow> reader_step g me it p g' it' p'"
    and points: "rd g me it p = Some (g', it', p') \<Longrightarrow> ok_pc p \<Longrightarrow> ok_pc p'"
    and start_point: "ok_pc LRTry"
    and final: "rd g me it LREnd = None"
    and inside: "ok_pc p \<Longrightarrow> p \<notin> {LRTry, LRLockW, LRLock2, LREnd} \<Longrightarrow> rd g me it p \<noteq> None"
    and relock: "l_r (lg_libs g ! it) = None \<Longrightarrow> rd g me it LRLock2 \<noteq> None"
    and admit: "it < length (lg_libs g) \<Longrightarrow> l_r (lg_libs g ! it) = None \<Longrightarrow> l_readers (lg_libs g ! it) = 0 \<Longrightarrow>
      \<exists>g1 p1. rd g me it LRTry = Some (g1, it, p1) \<and> (p1 = LRInc \<or> (\<exists>g2. rd g1 me it p1 = Some (g2, it, LRInc)))"

definition reader_points :: "(lib_rpc \<Rightarrow> bool) \<Rightarrow> lib_pc option list \<Rightarrow> bool" where
  "reader_points ok_pc ts \<longleftrightarrow> (\<forall>i < length ts. \<forall>me it p. ts ! i = Some (LR me it p) \<longrightarrow> ok_pc p)"

lemma lib_step_cases:
  assumes "lib_step wr rd g p = Some (g', p', w)"
  obtains (writer) me it q it' q' where "p = LW me it q" "p' = LW me it' q'" "wr g me it q = Some (g', it', q')"
    "w = (\<lambda>p. p)"
  | (reader) me it q it' q' where "p = LR me it q" "p' = LR me it' q'" "rd g me it q = Some (g', it', q')" "w = (\<lambda>p. p)"
  using assms by (cases p) auto

lemma lib_inv_create:
  assumes "lib_inv g ts" "i < length ts" "ts ! i = None"
    and "p = LW i 0 LWTry \<and> i < 8 \<or> p = LR i 0 LRTry \<and> 8 \<le> i"
  shows "lib_inv g (ts[i := Some p])"
proof -
  have off: "\<not> in_r k (Some p)" "\<not> in_w k (Some p)" "\<not> counted_in k (Some p)" "\<not> left_from k (Some p)" "\<not> closing k (Some p)"
    "\<not> wrote_in k (Some p)" "\<And>me. Some p \<noteq> Some (LW me k LWTop)" for k
    using assms(4) by auto
  have same: "in_r k (ts[i := Some p] ! j) = in_r k (ts ! j)" "in_w k (ts[i := Some p] ! j) = in_w k (ts ! j)"
    "(ts[i := Some p] ! j = Some (LW me k LWTop)) = (ts ! j = Some (LW me k LWTop))"
    if "j < length ts" for j k me
    using assms(2,3) off that by (cases "j = i"; simp)+
  have c: "cnt Q (ts[i := Some p]) = cnt Q ts" if "\<not> Q (Some p)" "\<not> Q None" for Q
    using that assms(2,3) by (simp add: cnt_upd)
  have "lib_shape g (ts[i := Some p])"
    using lib_invD(1) [OF assms(1)] assms(2,4) by (auto simp: lib_shape_def nth_list_update)
  moreover have "lib_rlock g (ts[i := Some p]) = lib_rlock g ts" by (simp add: lib_rlock_def same)
  moreover have "lib_count g (ts[i := Some p]) = lib_count g ts" by (simp add: lib_count_def c off)
  moreover have "lib_wlock g (ts[i := Some p]) = lib_wlock g ts" by (simp add: lib_wlock_def same)
  moreover have "lib_books g (ts[i := Some p]) = lib_books g ts" by (simp add: lib_books_def c off)
  moreover have "lib_chars g (ts[i := Some p]) = lib_chars g ts" by (simp add: lib_chars_def c off same)
  moreover have "lib_left g (ts[i := Some p]) = lib_left g ts" by (simp add: lib_left_def c off)
  ultimately show ?thesis using lib_invD [OF assms(1)] unfolding lib_inv_def by blast
qed

lemma lib_inv_start: "lib_inv libs_init (replicate n None)"
proof -
  have "k = 0 \<or> k = 1" if "k < 2" for k :: nat using that by auto
  then have get: "lg_libs libs_init ! k = \<lparr>l_books = zeros 20, l_top = 0, l_r = None, l_w = None, l_readers = 0\<rparr>"
    if "k < 2" for k using that by (simp add: libs_init_def LIBS_NUM_def lib_BOOKS_def)
  have "length (lg_libs libs_init) = 2" "lg_readers_count libs_init = 0" "\<not> lg_oob libs_init" "\<not> lg_foreign libs_init"
    by (simp_all add: libs_init_def LIBS_NUM_def)
  then show ?thesis
    by (simp add: lib_inv_def lib_shape_def lib_rlock_def lib_count_def lib_wlock_def lib_books_def lib_chars_def
        lib_left_def get cnt_replicate)
qed

lemma lib_prog_simps [simp]:
  "p_step (lib_prog wr rd n) = lib_step wr rd" "p_spur (lib_prog wr rd n) p = None" "p_final (lib_prog wr rd n) = lib_final"
  "p_glob0 (lib_prog wr rd n) = libs_init" "p_threads (lib_prog wr rd n) = 8 + n"
  "p_main (lib_prog wr rd n) = pfork (8 + n) [0..<8 + n]"
  "p_start (lib_prog wr rd n) i = (if i < 8 then LW i 0 LWTry else LR i 0 LRTry)"
  by (simp_all add: lib_prog_def lib_WRITERS_NUM_def)

sublocale lib_reader < lp: prog_inv "lib_prog zad3_writer rd readers" "[0..<8 + readers]"
  "\<lambda>g ts. lib_inv g ts \<and> reader_points ok_pc ts"
proof unfold_locales
  show "p_main (lib_prog zad3_writer rd readers) = pfork (p_threads (lib_prog zad3_writer rd readers)) [0..<8 + readers]"
    by simp
  show "lib_inv (p_glob0 (lib_prog zad3_writer rd readers)) (replicate (p_threads (lib_prog zad3_writer rd readers)) None) \<and>
    reader_points ok_pc (replicate (p_threads (lib_prog zad3_writer rd readers)) None)"
    using lib_inv_start by (simp add: reader_points_def)
next
  fix g ts i
  assume inv: "lib_inv g ts \<and> reader_points ok_pc ts" and i: "i < length ts" "ts ! i = None"
  let ?p = "p_start (lib_prog zad3_writer rd readers) i"
  have "lib_inv g (ts[i := Some ?p])" by (rule lib_inv_create) (use inv i in auto)
  moreover have "reader_points ok_pc (ts[i := Some ?p])"
    using inv i start_point by (auto simp: reader_points_def nth_list_update)
  ultimately show "lib_inv g (ts[i := Some ?p]) \<and> reader_points ok_pc (ts[i := Some ?p])" ..
next
  fix g ts i p g' p' w
  assume inv: "lib_inv g ts \<and> reader_points ok_pc ts" and i: "i < length ts" "ts ! i = Some p"
    and st: "p_step (lib_prog zad3_writer rd readers) g p = Some (g', p', w)"
  from st have "lib_step zad3_writer rd g p = Some (g', p', w)" by simp
  then show "lib_inv g' ((map (map_option w) ts)[i := Some p']) \<and> reader_points ok_pc ((map (map_option w) ts)[i := Some p'])"
  proof (cases rule: lib_step_cases)
    case (writer me it q it' q')
    then have "lib_inv g' (ts[i := Some p'])" using writer_inv [of g ts i me it q g' it' q'] inv i by simp
    moreover have "reader_points ok_pc (ts[i := Some p'])"
      using inv i writer(2) by (auto simp: reader_points_def nth_list_update)
    ultimately show ?thesis using writer(4) by simp
  next
    case (reader me it q it' q')
    have q: "q \<noteq> LRLockW" using lib_thread(1) [of g ts i] inv i reader(1) by auto
    have "lib_inv g' (ts[i := Some p'])"
      using reader_inv [of g ts i me it q g' it' q'] inv i reader(1,2) effect [OF reader(3) q] by simp
    moreover have "ok_pc q'" using points [OF reader(3)] inv i reader(1) by (auto simp: reader_points_def)
    then have "reader_points ok_pc (ts[i := Some p'])"
      using inv i reader(2) by (auto simp: reader_points_def nth_list_update)
    ultimately show ?thesis using reader(4) by simp
  qed
qed simp

text \<open>The rank of a program point.  Trying in vain and finding \<open>zad5.c\<close>'s library full do not lower it, so runs
  are unbounded; but some thread can always lower it.\<close>

fun lib_rank :: "lib_pc \<Rightarrow> nat" where
  "lib_rank (LW me it LWTry) = 4" | "lib_rank (LW me it LWBook) = 3" | "lib_rank (LW me it LWTop) = 2"
| "lib_rank (LW me it LWUnlock) = 1" | "lib_rank (LW me it LWEnd) = 0"
| "lib_rank (LR me it LRCheck) = 11" | "lib_rank (LR me it LRFull) = 10" | "lib_rank (LR me it LRTry) = 9"
| "lib_rank (LR me it LRInc) = 8" | "lib_rank (LR me it LRTest1) = 7" | "lib_rank (LR me it LRLockW) = 12"
| "lib_rank (LR me it LRUnlock1) = 6" | "lib_rank (LR me it LRLock2) = 5" | "lib_rank (LR me it LRDec) = 4"
| "lib_rank (LR me it LRTest0) = 3" | "lib_rank (LR me it LRUnlockW) = 2" | "lib_rank (LR me it LRUnlock2) = 1"
| "lib_rank (LR me it LREnd) = 0"

lemma reader_step_rank:
  "reader_step g me it p g' it' p' \<Longrightarrow> p \<noteq> LRTry \<Longrightarrow> lg_readers_count g = 0 \<Longrightarrow>
   lib_rank (LR me it' p') < lib_rank (LR me it p)"
  by (cases rule: reader_step.cases) auto

lemma writer_rank:
  assumes "p \<noteq> LWEnd" "p = LWTry \<Longrightarrow> l_w (lg_libs g ! it) = None"
  shows "\<exists>g' it' p'. zad3_writer g me it p = Some (g', it', p') \<and> lib_rank (LW me it' p') < lib_rank (LW me it p)"
  using assms by (cases p) (auto simp: Let_def)

text \<open>A statement of a reader that unlocks a writer mutex which the reader does not own.\<close>

definition unlocks_foreign :: "(libs_glob, lib_pc) psys \<Rightarrow> (libs_glob, lib_pc) psys \<Rightarrow> bool" where
  "unlocks_foreign u v \<longleftrightarrow> (\<exists>i it. i < length (thr u) \<and> thr u ! i = Some (LR i it LRUnlockW) \<and> l_w (lg_libs (glob u) ! it) \<noteq> Some i
     \<and> glob v = unlock_w i it (glob u) \<and> thr v = (thr u)[i := Some (LR i it LRUnlock2)])"

lemma writer_keeps_foreign:
  assumes "lib_inv g ts" "i < length ts" "ts ! i = Some (LW me it q)" "zad3_writer g me it q = Some (g', it', q')"
  shows "lg_foreign g' = lg_foreign g"
proof -
  have m: "me = i" "it < 2" using lib_thread(1) [OF assms(1,2)] assms(3) by auto
  have "l_w (lg_libs g ! it) = Some i" if "q = LWUnlock" "\<not> lg_foreign g"
  proof -
    have "in_w it (ts ! i)" using assms(3) that(1) by simp
    moreover have "\<forall>i < length ts. in_w it (ts ! i) \<longrightarrow> l_w (lg_libs g ! it) = Some i"
      using lib_invD(4) [OF assms(1)] m(2) that(2) unfolding lib_wlock_def by blast
    ultimately show ?thesis using assms(2) by blast
  qed
  then show ?thesis using assms(4) m by (cases "lg_foreign g"; cases q) (auto simp: Let_def split: if_splits)
qed

lemma reader_keeps_foreign:
  assumes "lib_inv g ts" "i < length ts" "ts ! i = Some (LR me it q)" "reader_step g me it q g' it' q'"
  shows "lg_foreign g' = lg_foreign g \<or>
    me = i \<and> q = LRUnlockW \<and> q' = LRUnlock2 \<and> it' = it \<and> g' = unlock_w i it g \<and> l_w (lg_libs g ! it) \<noteq> Some i"
proof -
  have m: "me = i" "it < 2" using lib_thread(1) [OF assms(1,2)] assms(3) by auto
  have "in_r it (ts ! i) \<longrightarrow> l_r (lg_libs g ! it) = Some i"
    using lib_invD(2) [OF assms(1)] assms(2) m(2) unfolding lib_rlock_def by blast
  then have r: "l_r (lg_libs g ! it) = Some i" if "q \<notin> {LRTry, LRLock2, LREnd}" using that assms(3) by simp
  from assms(4) show ?thesis using m r by (cases rule: reader_step.cases) auto
qed

lemma prun_snoc: "prun P ok s n t \<Longrightarrow> pstep P ok t u \<Longrightarrow> prun P ok s (Suc n) u"
  by (induction rule: prun.induct) (auto intro: prun.intros)

context lib_reader
begin

lemma foreign_origin:
  "preach (lib_prog zad3_writer rd readers) ok s \<Longrightarrow> lg_foreign (glob s) \<Longrightarrow>
   \<exists>u v n. preach (lib_prog zad3_writer rd readers) ok u \<and> pstep (lib_prog zad3_writer rd readers) ok u v
     \<and> unlocks_foreign u v \<and> prun (lib_prog zad3_writer rd readers) ok v n s"
proof (induction rule: preach.induct)
  case start
  then show ?case by (simp add: pinit_def lib_prog_def libs_init_def)
next
  case (step s t)
  show ?case
  proof (cases "lg_foreign (glob s)")
    case True
    then show ?thesis using step.IH prun_snoc step.hyps(2) by meson
  next
    case False
    have inv: "lib_inv (glob s) (thr s)" using lp.reach_inv [OF step.hyps(1)] by blast
    have "unlocks_foreign s t" using step.hyps(2) step.prems False
    proof (cases rule: pstep.cases)
      case (thread i p g' p' w)
      from thread(4) have "lib_step zad3_writer rd (glob s) p = Some (g', p', w)" by simp
      then show ?thesis
      proof (cases rule: lib_step_cases)
        case (writer me it q it' q')
        then show ?thesis using writer_keeps_foreign [OF inv thread(2) _ writer(3)] thread step.prems False by simp
      next
        case (reader me it q it' q')
        have "q \<noteq> LRLockW" using lib_thread(1) [OF inv thread(2)] thread(3) reader(1) by auto
        from reader_keeps_foreign [OF inv thread(2) _ effect [OF reader(3) this]] thread(1,3) reader(1) step.prems False
        have "me = i \<and> q = LRUnlockW \<and> q' = LRUnlock2 \<and> it' = it \<and> g' = unlock_w i it (glob s) \<and> l_w (lg_libs (glob s) ! it) \<noteq> Some i"
          by simp
        then show ?thesis unfolding unlocks_foreign_def using thread reader by (intro exI [of _ i] exI [of _ it]) simp
      qed
    qed (simp_all add: lib_prog_def)
    then show ?thesis using step.hyps prun.halt by blast
  qed
qed

lemma run_down:
  assumes "i < length (thr s)" "thr s ! i = Some p" "lib_step zad3_writer rd (glob s) p = Some (g', p', w)"
    "lib_rank p' < lib_rank p"
  shows "\<exists>n t. prun (lib_prog zad3_writer rd readers) ok s n t
    \<and> rank_of (lib_prog zad3_writer rd readers) lib_rank t < rank_of (lib_prog zad3_writer rd readers) lib_rank s"
proof -
  have "w = (\<lambda>p. p)" using assms(3) by (cases rule: lib_step_cases)
  then have "prun (lib_prog zad3_writer rd readers) ok s 1 (s\<lparr>glob := g', thr := (thr s)[i := Some p']\<rparr>)"
    using prun_thread [OF assms(1,2)] assms(3) by simp
  moreover have "rank_of (lib_prog zad3_writer rd readers) lib_rank (s\<lparr>glob := g', thr := (thr s)[i := Some p']\<rparr>)
      < rank_of (lib_prog zad3_writer rd readers) lib_rank s"
    using rank_of_thread [OF assms(1,2), where P = "lib_prog zad3_writer rd readers" and rank = lib_rank and g' = g' and p' = p']
      assms(4) by linarith
  ultimately show ?thesis by blast
qed

text \<open>A reader that finds an empty library enters it.\<close>

lemma admitted_down:
  assumes "i < length (thr s)" "thr s ! i = Some (LR me it LRTry)" "it < length (lg_libs (glob s))"
    "l_r (lg_libs (glob s) ! it) = None" "l_readers (lg_libs (glob s) ! it) = 0"
  shows "\<exists>n t. prun (lib_prog zad3_writer rd readers) ok s n t
    \<and> rank_of (lib_prog zad3_writer rd readers) lib_rank t < rank_of (lib_prog zad3_writer rd readers) lib_rank s"
proof -
  let ?P = "lib_prog zad3_writer rd readers"
  from admit [OF assms(3-5)] obtain g1 p1 where 1: "rd (glob s) me it LRTry = Some (g1, it, p1)"
    and or: "p1 = LRInc \<or> (\<exists>g2. rd g1 me it p1 = Some (g2, it, LRInc))" by blast
  show ?thesis
  proof (cases "p1 = LRInc")
    case True
    then show ?thesis using 1 by (intro run_down [OF assms(1,2)]) auto
  next
    case False
    then obtain g2 where 2: "rd g1 me it p1 = Some (g2, it, LRInc)" using or by blast
    let ?s = "s\<lparr>glob := g1, thr := (thr s)[i := Some (LR me it p1)]\<rparr>"
    let ?t = "?s\<lparr>glob := g2, thr := (thr ?s)[i := Some (LR me it LRInc)]\<rparr>"
    have r1: "prun ?P ok s 1 ?s" using prun_thread [OF assms(1,2), of ?P g1] 1 by simp
    have r2: "prun ?P ok ?s 1 ?t" using prun_thread [of i ?s "LR me it p1" ?P g2] 2 assms(1) by simp
    note r = prun_append [OF r1 r2]
    have "rank_of ?P lib_rank ?s + 9 = rank_of ?P lib_rank s + lib_rank (LR me it p1)"
      using rank_of_thread [OF assms(1,2), where P = ?P and rank = lib_rank and g' = g1 and p' = "LR me it p1"] by simp
    moreover have "rank_of ?P lib_rank ?t + lib_rank (LR me it p1) = rank_of ?P lib_rank ?s + 8"
      using rank_of_thread [where i = i and s = ?s and p = "LR me it p1" and P = ?P and rank = lib_rank and g' = g2
          and p' = "LR me it LRInc"] assms(1) by simp
    ultimately have "rank_of ?P lib_rank ?t < rank_of ?P lib_rank s" by linarith
    then show ?thesis using r by blast
  qed
qed

lemma some_thread_down:
  assumes reach: "preach (lib_prog zad3_writer rd readers) ok s"
    and j: "j < length (thr s)" "thr s ! j = Some q" "\<not> lib_final q"
  shows "\<exists>n t. prun (lib_prog zad3_writer rd readers) ok s n t
    \<and> rank_of (lib_prog zad3_writer rd readers) lib_rank t < rank_of (lib_prog zad3_writer rd readers) lib_rank s"
proof (rule ccontr)
  assume no: "\<not> ?thesis"
  have inv: "lib_inv (glob s) (thr s)" and pts: "reader_points ok_pc (thr s)" using lp.reach_inv [OF reach] by blast+
  have rd: "p = LRTry \<or> p = LREnd \<or> p = LRLock2 \<and> l_r (lg_libs (glob s) ! it) \<noteq> None"
    if i: "i < length (thr s)" "thr s ! i = Some (LR me it p)" for i me it p
  proof (rule ccontr)
    assume c: "\<not> ?thesis"
    have p: "p \<noteq> LRLockW" "lg_readers_count (glob s) = 0" "ok_pc p"
      using lib_thread [OF inv i(1)] i pts by (auto simp: reader_points_def)
    have "rd (glob s) me it p \<noteq> None"
      using c p(1) inside [OF p(3), of "glob s" me it] relock [of "glob s" it me] by (cases "p = LRLock2") auto
    then obtain g' it' p' where r: "rd (glob s) me it p = Some (g', it', p')" by auto
    from reader_step_rank [OF effect [OF r p(1)]] c p(2) have "lib_rank (LR me it' p') < lib_rank (LR me it p)" by blast
    then show False using run_down [OF i] r no by simp
  qed
  have free_r: "l_r (lg_libs (glob s) ! k) = None" if k: "k < 2" for k
  proof (rule ccontr)
    assume "l_r (lg_libs (glob s) ! k) \<noteq> None"
    then obtain i where i: "l_r (lg_libs (glob s) ! k) = Some i" by blast
    then have "i < length (thr s)" "in_r k (thr s ! i)"
      using lib_invD(2) [OF inv] k unfolding lib_rlock_def by blast+
    then show False using rd [of i] by (cases "(k, thr s ! i)" rule: in_r.cases) auto
  qed
  have wr: "p = LWEnd \<or> p = LWTry \<and> l_w (lg_libs (glob s) ! it) \<noteq> None"
    if i: "i < length (thr s)" "thr s ! i = Some (LW me it p)" for i me it p
  proof (rule ccontr)
    assume c: "\<not> ?thesis"
    then have "p \<noteq> LWEnd" "p = LWTry \<Longrightarrow> l_w (lg_libs (glob s) ! it) = None" by auto
    from writer_rank [OF this] obtain g' it' p' where "zad3_writer (glob s) me it p = Some (g', it', p')"
        "lib_rank (LW me it' p') < lib_rank (LW me it p)" by blast
    then show False using run_down [OF i] no by simp
  qed
  have free_w: "l_w (lg_libs (glob s) ! k) = None" if k: "k < 2" for k
  proof (rule ccontr)
    assume "l_w (lg_libs (glob s) ! k) \<noteq> None"
    then obtain i where i: "l_w (lg_libs (glob s) ! k) = Some i" by blast
    then have "i < length (thr s)" using lib_invD(4) [OF inv] k unfolding lib_wlock_def by blast
    moreover from this have "in_w k (thr s ! i)" using lib_wlockD(1) [OF inv k] i by blast
    ultimately show False using wr [of i] by (cases "(k, thr s ! i)" rule: in_w.cases) auto
  qed
  have "lib_local j (Some q)" using lib_thread(1) [OF inv j(1)] j(2) by simp
  then obtain me it where q: "q = LR me it LRTry" "it < 2"
    using j rd [OF j(1)] wr [OF j(1)] free_r free_w by (cases q) auto
  have "\<not> counted_in it t" if "t \<in> set (thr s)" for t
  proof
    assume c: "counted_in it t"
    obtain i where "i < length (thr s)" "thr s ! i = t" using \<open>t \<in> set (thr s)\<close> by (auto simp: in_set_conv_nth)
    then show False using c rd [of i] free_r [OF q(2)] by (cases "(it, t)" rule: counted_in.cases) auto
  qed
  then have "l_readers (lg_libs (glob s) ! it) = 0"
    using lib_invD(3) [OF inv] q(2) by (simp add: lib_count_def cnt_zero_iff)
  then show False
    using admitted_down [OF j(1) _ _ free_r [OF q(2)]] j(2) q lib_thread(2) [OF inv j(1)] no by simp
qed

lemma can_return:
  assumes "preach (lib_prog zad3_writer rd readers) (\<lambda>_. True) s"
  shows "\<exists>n t. prun (lib_prog zad3_writer rd readers) (\<lambda>_. True) s n t \<and> todo t = []"
proof (rule can_finish [OF _ assms, where rank = lib_rank])
  let ?P = "lib_prog zad3_writer rd readers"
  fix s assume r: "preach ?P (\<lambda>_. True) s" and "todo s \<noteq> []"
  then obtain m ms where m: "todo s = m # ms" by (cases "todo s") auto
  show "\<exists>n t. prun ?P (\<lambda>_. True) s n t \<and> rank_of ?P lib_rank t < rank_of ?P lib_rank s"
  proof (cases "\<exists>t. pstep ?P (\<lambda>_. True) s t \<and> todo t = ms")
    case True
    then obtain t where t: "pstep ?P (\<lambda>_. True) s t" "todo t = ms" by blast
    have "rank_of ?P lib_rank t < rank_of ?P lib_rank s"
      using t(1)
    proof (cases rule: pstep.cases)
      case (create i r)
      have "i < length (thr s)" "thr s ! i = None"
        using lp.reach_main_ok [OF \<open>preach ?P (\<lambda>_. True) s\<close>] create(2) by (auto simp: main_ok_def)
      then show ?thesis
        using create sum_list_map_upd [of i "thr s" "\<lambda>t. case t of None \<Rightarrow> 0 | Some p \<Rightarrow> lib_rank p" "Some (p_start ?P i)"]
        by (simp add: rank_of_def)
    qed (use t(2) m in \<open>auto simp: rank_of_def\<close>)
    then show ?thesis using prun.more [OF t(1) prun.halt] by blast
  next
    case False
    obtain j where j: "m = Join j"
    proof (cases m)
      case (Create i)
      then show ?thesis using False m pstep.create [of s i ms "\<lambda>_. True" ?P] by fastforce
    qed
    from main_joins [OF lp.main_shape r] have "creates (todo s) = [] \<and> j < length (thr s)"
    proof (elim disjE exE)
      fix k assume k: "todo s = map Create [k..<p_threads ?P] @ map Join [0..<8 + readers]"
      with m j have "\<not> k < p_threads ?P" by (auto simp: upt_conv_Cons)
      then have "todo s = map Join [0..<8 + readers]" using k by simp
      moreover from this have "Join j \<in> set (map Join [0..<8 + readers])" using m j by (metis list.set_intros(1))
      ultimately show ?thesis using lp.reach_main_ok [OF r] by (auto simp: creates_append)
    next
      fix k assume k: "todo s = map Join (drop k [0..<8 + readers])"
      then have "Join j \<in> set (map Join (drop k [0..<8 + readers]))" using m j by (metis list.set_intros(1))
      then have "j < 8 + readers" by (auto dest: in_set_dropD)
      then show ?thesis using lp.reach_main_ok [OF r] k by simp
    qed
    moreover from this obtain q where q: "thr s ! j = Some q"
      using reach_created [OF lp.main_shape r] by (fastforce simp: created_ok_def)
    moreover have "\<not> lib_final q"
    proof
      assume "lib_final q"
      then show False using False m j q calculation pstep.join [of s j ms q ?P "\<lambda>_. True"] by fastforce
    qed
    ultimately show ?thesis using some_thread_down [OF r] by blast
  qed
qed

end

interpretation l3: lib_reader zad3_reader 6 "\<lambda>p. p \<noteq> LRCheck \<and> p \<noteq> LRFull"
proof unfold_locales
  fix g me it p g' it' p'
  assume "zad3_reader g me it p = Some (g', it', p')"
  then show "p \<noteq> LRLockW \<Longrightarrow> reader_step g me it p g' it' p'" by (rule zad3_reader_step)
  from \<open>zad3_reader g me it p = Some (g', it', p')\<close> show "p \<noteq> LRCheck \<and> p \<noteq> LRFull \<Longrightarrow> p' \<noteq> LRCheck \<and> p' \<noteq> LRFull"
    by (cases p) (auto split: if_splits)
next
  fix p g me it
  assume "p \<noteq> LRCheck \<and> p \<noteq> LRFull" "p \<notin> {LRTry, LRLockW, LRLock2, LREnd}"
  then show "zad3_reader g me it p \<noteq> None" by (cases p) auto
qed auto

interpretation l5: lib_reader zad5_reader 10 "\<lambda>p. True"
proof unfold_locales
  fix g me it p g' it' p'
  assume "zad5_reader g me it p = Some (g', it', p')"
  then show "p \<noteq> LRLockW \<Longrightarrow> reader_step g me it p g' it' p'" by (rule zad5_reader_step)
next
  fix p :: lib_rpc and g me it
  assume "p \<notin> {LRTry, LRLockW, LRLock2, LREnd}"
  then show "zad5_reader g me it p \<noteq> None" by (cases p) auto
next
  fix g :: libs_glob and me it
  assume "it < length (lg_libs g)" "l_r (lg_libs g ! it) = None" "l_readers (lg_libs g ! it) = 0"
  then show "\<exists>g1 p1. zad5_reader g me it LRTry = Some (g1, it, p1) \<and> (p1 = LRInc \<or> (\<exists>g2. zad5_reader g1 me it p1 = Some (g2, it, LRInc)))"
    by (simp add: LIB_MAX_READERS_def)
qed auto

lemma zad3_prog: "zad3 = lib_prog zad3_writer zad3_reader 6"
  by (simp add: zad3_def zad3_READERS_NUM_def)

lemma zad5_prog: "zad5 = lib_prog zad3_writer zad5_reader 10"
  by (simp add: zad5_def zad5_writer_def zad5_READERS_NUM_def)

lemma libs_reach_inv:
  assumes "preach zad3 ok s \<or> preach zad5 ok s"
  shows "lib_inv (glob s) (thr s)"
  using assms l3.lp.reach_inv l5.lp.reach_inv unfolding zad3_prog zad5_prog by blast

section \<open>The limit of zad5\<close>

definition lib_limit :: "libs_glob \<Rightarrow> lib_pc option list \<Rightarrow> bool" where
  "lib_limit g ts \<longleftrightarrow> (\<forall>k < 2. l_readers (lg_libs g ! k) \<le> 3 \<and>
     (\<forall>i < length ts. \<forall>me. ts ! i = Some (LR me k LRInc) \<longrightarrow> l_readers (lg_libs g ! k) < 3))"

lemma limit_reader:
  assumes inv: "lib_inv g ts" and lim: "lib_limit g ts" and i: "i < length ts" "ts ! i = Some (LR me it p)"
    and st: "zad5_reader g me it p = Some (g', it', p')"
  shows "lib_limit g' (ts[i := Some (LR me it' p')])"
  unfolding lib_limit_def
proof (intro allI impI)
  fix k :: nat assume k: "k < 2"
  let ?ts = "ts[i := Some (LR me it' p')]"
  have t: "it < 2" "length (lg_libs g) = 2" "p \<noteq> LRLockW" using lib_thread [OF inv i(1)] i(2) by auto
  have L: "l_readers (lg_libs g ! k) \<le> 3"
    "\<And>j m. j < length ts \<Longrightarrow> ts ! j = Some (LR m k LRInc) \<Longrightarrow> l_readers (lg_libs g ! k) < 3"
    using lim k unfolding lib_limit_def by blast+
  have n: "l_readers (lg_libs g' ! k) = l_readers (lg_libs g ! k) + of_bool (k = it \<and> p = LRInc) - of_bool (k = it \<and> p = LRDec)"
    using st t by (cases p) (auto split: if_splits)
  have new: "l_readers (lg_libs g ! it) < 3 \<and> p = LRCheck" if "p' = LRInc"
    using st t that by (cases p) (auto simp: LIB_MAX_READERS_def split: if_splits)
  have same: "it' = it" if "p \<noteq> LRTry" using st that by (cases p) (auto split: if_splits)
  have "l_readers (lg_libs g' ! k) \<le> 3"
    using n L(1) L(2) [OF i(1)] i(2) by (cases "k = it \<and> p = LRInc") (auto simp: of_bool_def)
  moreover have "l_readers (lg_libs g' ! k) < 3" if j: "j < length ts" "?ts ! j = Some (LR m k LRInc)" for j m
  proof (cases "j = i")
    case True
    then have "p' = LRInc" "it' = k" using j i(1) by auto
    then show ?thesis using new same n by auto
  next
    case False
    then have tj: "ts ! j = Some (LR m k LRInc)" using j(2) by simp
    have "\<not> (k = it \<and> p = LRInc)"
    proof
      assume "k = it \<and> p = LRInc"
      then have "in_r k (ts ! i)" "in_r k (ts ! j)" using i(2) tj by auto
      then have "l_r (lg_libs g ! k) = Some i" "l_r (lg_libs g ! k) = Some j"
        using lib_invD(2) [OF inv] k i(1) j(1) unfolding lib_rlock_def by blast+
      then show False using False by simp
    qed
    then show ?thesis using n L(2) [OF j(1) tj] by (auto simp: of_bool_def)
  qed
  ultimately show "l_readers (lg_libs g' ! k) \<le> 3 \<and>
      (\<forall>j < length ?ts. \<forall>m. ?ts ! j = Some (LR m k LRInc) \<longrightarrow> l_readers (lg_libs g' ! k) < 3)" by simp
qed

interpretation l5lim: prog_inv zad5 "[0..<18]" "\<lambda>g ts. lib_inv g ts \<and> lib_limit g ts"
proof unfold_locales
  show "p_main zad5 = pfork (p_threads zad5) [0..<18]" by (simp add: zad5_prog del: upt_rec_numeral)
  have "k = 0 \<or> k = 1" if "k < 2" for k :: nat using that by auto
  then show "lib_inv (p_glob0 zad5) (replicate (p_threads zad5) None) \<and> lib_limit (p_glob0 zad5) (replicate (p_threads zad5) None)"
    using lib_inv_start by (auto simp: zad5_prog lib_limit_def libs_init_def LIBS_NUM_def)
next
  fix g ts i
  assume inv: "lib_inv g ts \<and> lib_limit g ts" and i: "i < length ts" "ts ! i = None"
  have "lib_inv g (ts[i := Some (p_start zad5 i)])" by (rule lib_inv_create) (use inv i in \<open>auto simp: zad5_prog\<close>)
  moreover have "lib_limit g (ts[i := Some (p_start zad5 i)])"
    using inv i by (auto simp: lib_limit_def zad5_prog nth_list_update)
  ultimately show "lib_inv g (ts[i := Some (p_start zad5 i)]) \<and> lib_limit g (ts[i := Some (p_start zad5 i)])" ..
next
  fix g ts i p g' p' w
  assume inv: "lib_inv g ts \<and> lib_limit g ts" and i: "i < length ts" "ts ! i = Some p"
    and st: "p_step zad5 g p = Some (g', p', w)"
  have "lib_inv g' ((map (map_option w) ts)[i := Some p'])"
    using l5.lp.inv_thread [of g ts i p g' p' w] inv i st by (simp add: zad5_prog reader_points_def)
  moreover have "lib_step zad3_writer zad5_reader g p = Some (g', p', w)" using st by (simp add: zad5_prog)
  then have "lib_limit g' ((map (map_option w) ts)[i := Some p'])"
  proof (cases rule: lib_step_cases)
    case (writer me it q it' q')
    have t: "it < 2" "length (lg_libs g) = 2" using lib_thread [of g ts i] inv i writer(1) by auto
    have "l_readers (lg_libs g' ! k) = l_readers (lg_libs g ! k)" for k using writer_r [OF writer(3) t] by blast
    moreover have "(ts[i := Some p'] ! j = Some (LR m k LRInc)) = (ts ! j = Some (LR m k LRInc))" if "j < length ts" for j m k
      using writer(1,2) i that by (cases "j = i") auto
    ultimately show ?thesis using inv writer(4) by (simp add: lib_limit_def)
  next
    case (reader me it q it' q')
    then show ?thesis using limit_reader [of g ts i me it q g' it' q'] inv i by simp
  qed
  ultimately show "lib_inv g' ((map (map_option w) ts)[i := Some p']) \<and> lib_limit g' ((map (map_option w) ts)[i := Some p'])" ..
qed (simp add: zad5_prog)

section \<open>Properties\<close>

text \<open>C10.  In every reachable state of \<open>zad3.c\<close> and \<open>zad5.c\<close> the books of a library are indexed in bounds, its readers exclude
  each other from its reader mutex, and its \<open>readers_count\<close> is the number of readers between their increment and
  their decrement.  As long as no thread has unlocked a mutex it does not own, its writers exclude each
  other too, and it holds exactly the characters that were written to it.\<close>

theorem libraries_safe:
  assumes "preach zad3 ok s \<or> preach zad5 ok s" "k < LIBS_NUM"
  shows "\<not> lg_oob (glob s) \<and> 0 \<le> l_top (lg_libs (glob s) ! k) \<and> l_top (lg_libs (glob s) ! k) \<le> 8
    \<and> (\<forall>i < length (thr s). \<forall>j < length (thr s). in_r k (thr s ! i) \<longrightarrow> in_r k (thr s ! j) \<longrightarrow> i = j)
    \<and> l_readers (lg_libs (glob s) ! k) = int (length (filter (counted_in k) (thr s)))
    \<and> (\<not> lg_foreign (glob s) \<longrightarrow>
        (\<forall>i < length (thr s). \<forall>j < length (thr s). in_w k (thr s ! i) \<longrightarrow> in_w k (thr s ! j) \<longrightarrow> i = j) \<and>
        (\<forall>c. length (filter ((=) c) (take (nat (l_top (lg_libs (glob s) ! k))) (l_books (lg_libs (glob s) ! k)))) =
          length (filter (\<lambda>t. wrote_in k t \<and> char_of_thread t = c) (thr s))))"
proof -
  have k: "k < 2" using assms(2) by (simp add: LIBS_NUM_def)
  note inv = libs_reach_inv [OF assms(1)]
  have r: "i = j" if "i < length (thr s)" "j < length (thr s)" "in_r k (thr s ! i)" "in_r k (thr s ! j)" for i j
  proof -
    have "l_r (lg_libs (glob s) ! k) = Some i" "l_r (lg_libs (glob s) ! k) = Some j"
      using lib_invD(2) [OF inv] k that unfolding lib_rlock_def by blast+
    then show ?thesis by simp
  qed
  have w: "i = j" if "\<not> lg_foreign (glob s)" "i < length (thr s)" "j < length (thr s)" "in_w k (thr s ! i)" "in_w k (thr s ! j)" for i j
    by (rule lib_one_writer [OF inv k that])
  have c: "length (filter ((=) c) (take (nat (l_top (lg_libs (glob s) ! k))) (l_books (lg_libs (glob s) ! k)))) =
      length (filter (\<lambda>t. wrote_in k t \<and> char_of_thread t = c) (thr s))" if "\<not> lg_foreign (glob s)" for c
  proof -
    have "cnt ((=) c) (take (nat (l_top (lg_libs (glob s) ! k))) (l_books (lg_libs (glob s) ! k))) =
        cnt (\<lambda>t. wrote_in k t \<and> char_of_thread t = c) (thr s)"
      using lib_invD(6) [OF inv] that k unfolding lib_chars_def by blast
    then show ?thesis by (simp add: cnt_length)
  qed
  have "l_readers (lg_libs (glob s) ! k) = int (length (filter (counted_in k) (thr s)))"
    using lib_invD(3) [OF inv] k by (simp add: lib_count_def cnt_length)
  moreover have "\<not> lg_oob (glob s)" using lib_invD(5) [OF inv] by (simp add: lib_books_def)
  ultimately show ?thesis using lib_top [OF inv k] r w c by blast
qed

theorem libraries_safe_witness:
  "\<exists>s. preach zad3 (\<lambda>_. True) s \<and> thr s ! 0 = Some (LW 0 0 LWUnlock) \<and> \<not> lg_foreign (glob s) \<and>
     length (filter ((=) (CHR ''A'')) (take (nat (l_top (lg_libs (glob s) ! 0))) (l_books (lg_libs (glob s) ! 0)))) =
       length (filter (\<lambda>t. wrote_in 0 t \<and> char_of_thread t = CHR ''A'') (thr s))"
proof -
  have d: "case psched zad3 (pinit zad3) [None, Some 0, Some 0, Some 0] of None \<Rightarrow> False
    | Some s \<Rightarrow> thr s ! 0 = Some (LW 0 0 LWUnlock) \<and> \<not> lg_foreign (glob s)" by code_simp
  then obtain s where s: "psched zad3 (pinit zad3) [None, Some 0, Some 0, Some 0] = Some s"
    by (cases "psched zad3 (pinit zad3) [None, Some 0, Some 0, Some 0]") auto
  note r = psched_reach_init [OF s]
  show ?thesis using r d libraries_safe [OF disjI1 [OF r], of 0] unfolding s by (intro exI [of _ s]) (simp add: LIBS_NUM_def)
qed

text \<open>\<open>zad5.c\<close> never has more than three readers in a library.\<close>

theorem zad5_reader_limit:
  assumes "preach zad5 ok s" "k < LIBS_NUM"
  shows "int (length (filter (counted_in k) (thr s))) \<le> LIB_MAX_READERS"
proof -
  have "lib_inv (glob s) (thr s)" "lib_limit (glob s) (thr s)" using l5lim.reach_inv [OF assms(1)] by blast+
  then show ?thesis using assms(2)
    by (auto simp: lib_inv_def lib_count_def lib_limit_def LIBS_NUM_def LIB_MAX_READERS_def cnt_length)
qed

theorem zad5_reader_limit_witness: "int (length (filter (counted_in 1) (thr (pinit zad5)))) \<le> LIB_MAX_READERS"
  by (rule zad5_reader_limit [OF preach.start [of zad5 "\<lambda>_. True"]]) (simp add: LIBS_NUM_def)

lemma lib_final_stays: "lib_final p \<Longrightarrow> lib_step zad3_writer zad3_reader g p = None \<and> lib_step zad3_writer zad5_reader g p = None"
  by (cases p) auto

lemma libs_all_ended:
  assumes "preach zad3 ok s \<or> preach zad5 ok s" "todo s = []" "i < length (thr s)"
  shows "\<exists>p. thr s ! i = Some p \<and> lib_final p"
proof -
  have w: "lib_final (w q)" if "lib_step wr rd g p = Some (g', p', w)" "lib_final q" for wr rd g p g' p' w q
    using that by (auto elim: lib_step_cases)
  from assms(1) show ?thesis
  proof
    assume "preach zad3 ok s"
    then have r: "preach (lib_prog zad3_writer zad3_reader 6) ok s" by (simp only: zad3_prog)
    then have "i \<in> set [0..<8 + 6]" using l3.lp.reach_main_ok [OF r] assms(3) by simp
    then have "ended (lib_prog zad3_writer zad3_reader 6) s i"
      by (intro returned_ended [OF l3.lp.main_shape _ _ r assms(2)]) (use lib_final_stays w in auto)
    then show ?thesis by (simp add: ended_def)
  next
    assume "preach zad5 ok s"
    then have r: "preach (lib_prog zad3_writer zad5_reader 10) ok s" by (simp only: zad5_prog)
    then have "i \<in> set [0..<8 + 10]" using l5.lp.reach_main_ok [OF r] assms(3) by simp
    then have "ended (lib_prog zad3_writer zad5_reader 10) s i"
      by (intro returned_ended [OF l5.lp.main_shape _ _ r assms(2)]) (use lib_final_stays w in auto)
    then show ?thesis by (simp add: ended_def)
  qed
qed

lemma libs_foreign:
  assumes "preach zad3 ok s \<or> preach zad5 ok s" "todo s = []"
  shows "lg_foreign (glob s)"
proof (rule ccontr)
  assume f: "\<not> lg_foreign (glob s)"
  note inv = libs_reach_inv [OF assms(1)] and all = libs_all_ended [OF assms]
  have len: "8 < length (thr s)"
    using assms(1) l3.lp.reach_main_ok l5.lp.reach_main_ok unfolding zad3_prog zad5_prog by auto
  from all [OF len] obtain p where p: "thr s ! 8 = Some p" "lib_final p" by blast
  then obtain it where it: "p = LR 8 it LREnd" "it < 2"
    using lib_thread(1) [OF inv len] by (cases p) auto
  have z: "cnt (counted_in it) (thr s) = 0" "cnt (closing it) (thr s) = 0"
  proof -
    have "\<not> counted_in it t \<and> \<not> closing it t" if "t \<in> set (thr s)" for t
    proof -
      obtain i where "i < length (thr s)" "thr s ! i = t" using \<open>t \<in> set (thr s)\<close> by (auto simp: in_set_conv_nth)
      with all obtain q where "t = Some q" "lib_final q" by blast
      then show ?thesis by (cases q) auto
    qed
    then show "cnt (counted_in it) (thr s) = 0" "cnt (closing it) (thr s) = 0" by (auto simp: cnt_zero_iff)
  qed
  then have "l_readers (lg_libs (glob s) ! it) = 0" using lib_invD(3) [OF inv] it(2) by (simp add: lib_count_def)
  then have "cnt (left_from it) (thr s) = 0"
    using lib_invD(7) [OF inv] f it(2) z(2) by (auto simp: lib_left_def)
  then show False using cnt_zero_nth [OF _ len] p it by fastforce
qed

text \<open>C11.  Whenever \<open>zad3.c\<close> or \<open>zad5.c\<close> has run to its end, a reader has on the way unlocked a writer mutex that it did not own, at
  its statement \<open>LRUnlockW\<close>: the test before the lock is of another variable than the test before the unlock.\<close>

theorem libraries_foreign_unlock:
  assumes "P = zad3 \<or> P = zad5" "preach P ok s" "todo s = []"
  shows "\<exists>u v n. preach P ok u \<and> pstep P ok u v \<and> unlocks_foreign u v \<and> prun P ok v n s"
proof -
  have f: "lg_foreign (glob s)" using libs_foreign assms by blast
  from assms(1) show ?thesis
  proof
    assume p: "P = zad3"
    show ?thesis using l3.foreign_origin [of ok s] f assms(2) unfolding p zad3_prog by blast
  next
    assume p: "P = zad5"
    show ?thesis using l5.foreign_origin [of ok s] f assms(2) unfolding p zad5_prog by blast
  qed
qed

text \<open>Both programs can always end, although their threads try mutexes in a loop: from every reachable state, with all threads
  created, there is a run after which \<open>main\<close> has returned.\<close>

theorem libraries_can_return:
  "(preach zad3 (\<lambda>_. True) s \<longrightarrow> (\<exists>n t. prun zad3 (\<lambda>_. True) s n t \<and> todo t = [])) \<and>
   (preach zad5 (\<lambda>_. True) s \<longrightarrow> (\<exists>n t. prun zad5 (\<lambda>_. True) s n t \<and> todo t = []))"
  using l3.can_return [folded zad3_prog] l5.can_return [folded zad5_prog] by blast

theorem libraries_can_return_witness:
  "(\<exists>n t. prun zad3 (\<lambda>_. True) (pinit zad3) n t \<and> todo t = []) \<and>
   (\<exists>n t. prun zad5 (\<lambda>_. True) (pinit zad5) n t \<and> todo t = [])"
  using libraries_can_return [of "pinit zad3"] libraries_can_return [of "pinit zad5"] preach.start by blast

theorem libraries_foreign_unlock_witness: "\<exists>u v. preach zad5 (\<lambda>_. True) u \<and> pstep zad5 (\<lambda>_. True) u v \<and> unlocks_foreign u v"
proof -
  obtain n t where t: "prun zad5 (\<lambda>_. True) (pinit zad5) n t" "todo t = []"
    using l5.can_return [folded zad5_prog, OF preach.start] by blast
  have r: "preach zad5 (\<lambda>_. True) t" by (rule prun_reach [OF t(1) preach.start])
  from libraries_foreign_unlock [OF disjI2 [OF refl] r t(2)] show ?thesis by blast
qed

text \<open>What the foreign unlock does to the writers of \<open>zad3.c\<close> and \<open>zad5.c\<close>: two of them can be in one library at once, and one
  character is then lost and a place in the books left empty.\<close>

theorem libraries_lost_character:
  "(\<exists>s. preach zad3 (\<lambda>_. True) s \<and> in_w 0 (thr s ! 0) \<and> in_w 0 (thr s ! 1) \<and> l_top (lg_libs (glob s) ! 0) = 2
     \<and> l_books (lg_libs (glob s) ! 0) = ''B'' @ zeros 19) \<and>
   (\<exists>s. preach zad5 (\<lambda>_. True) s \<and> in_w 0 (thr s ! 0) \<and> in_w 0 (thr s ! 1) \<and> l_top (lg_libs (glob s) ! 0) = 2
     \<and> l_books (lg_libs (glob s) ! 0) = ''B'' @ zeros 19)"
proof -
  let ?w = "[Some 0, Some 8, Some 1, Some 0, Some 1, Some 0, Some 1 :: nat option]"
  let ?x = "replicate 9 None @ replicate 7 (Some 8) @ ?w" and ?y = "replicate 9 None @ replicate 8 (Some 8) @ ?w"
  have "case psched zad3 (pinit zad3) ?x of None \<Rightarrow> False | Some s \<Rightarrow> in_w 0 (thr s ! 0) \<and> in_w 0 (thr s ! 1) \<and>
      l_top (lg_libs (glob s) ! 0) = 2 \<and> l_books (lg_libs (glob s) ! 0) = ''B'' @ zeros 19" by code_simp
  moreover have "case psched zad5 (pinit zad5) ?y of None \<Rightarrow> False | Some s \<Rightarrow> in_w 0 (thr s ! 0) \<and> in_w 0 (thr s ! 1) \<and>
      l_top (lg_libs (glob s) ! 0) = 2 \<and> l_books (lg_libs (glob s) ! 0) = ''B'' @ zeros 19" by code_simp
  ultimately show ?thesis using psched_reach_init [of zad3 ?x] psched_reach_init [of zad5 ?y]
    by (fastforce split: option.splits)
qed

end
