(* ===== verification/ProcFs.thy ===== *)
theory ProcFs imports KernelApi begin

text \<open>
  Two of the three places where the repository's two copies of the kernel's \<open>fs/proc\<close> (\<open>cw04/debug/proc\<close> with planted
  errors, \<open>cw05/proc\<close> with their repairs) differ: \<open>environ_read\<close> in \<open>base.c\<close> and \<open>loadavg_proc_show\<close> in
  \<open>loadavg.c\<close>, each in both versions; the third, in \<open>fd.c\<close>, is in the theory \<open>ProcFd\<close>.  What these functions call in
  other parts of the kernel is a parameter: \<open>access_remote_vm\<close>, \<open>get_avenrun\<close>.  Shown: what the repaired versions deliver,
  and what the errors do.
\<close>

section \<open>environ_read\<close>

record mm_struct =
  mm_env_start :: int
  mm_env_end :: int
  mm_alive :: bool   \<comment> \<open>\<open>mm_users\<close> is not zero\<close>

definition PAGE_SIZE :: nat where "PAGE_SIZE = 4096"

text \<open>The loop.  \<open>access_remote_vm\<close> maps an address and a length to its result and the bytes; \<open>off\<close> is how far
  \<open>buf\<close> has moved.  The results are \<open>ret\<close>, \<open>src\<close> and what the user got.\<close>

fun environ_loop ::
  "kenv \<Rightarrow> (int \<Rightarrow> nat \<Rightarrow> int \<times> string) \<Rightarrow> int \<Rightarrow> int \<Rightarrow> nat \<Rightarrow> nat \<Rightarrow> int \<Rightarrow> nat \<Rightarrow> int \<Rightarrow> fault + int \<times> int \<times> string" where
  "environ_loop K access_remote_vm env_start env_end 0 count src off ret = Inl NonTerminating"
| "environ_loop K access_remote_vm env_start env_end (Suc fuel) count src off ret =
     (if count = 0 \<or> src \<ge> u64 (env_end - env_start) then Inr (ret, src, [])
      else let this_len = min (min PAGE_SIZE count) (nat (u64 (env_end - (env_start + src)))) in
      (case access_remote_vm (u64 (env_start + src)) this_len of (retval, page) \<Rightarrow>
        if retval \<le> 0 then Inr (retval, src, [])
        else if k_copy_to_user K off (nat retval) \<noteq> 0 then Inr (- EFAULT, src, copied_out K off (take (nat retval) page))
        else (case environ_loop K access_remote_vm env_start env_end fuel (count - nat retval) (u64 (src + retval))
                (off + nat retval) (s32 (ret + retval)) of
            Inl e \<Rightarrow> Inl e
          | Inr (ret', src', out) \<Rightarrow> Inr (ret', src', take (nat retval) page @ out))))"

text \<open>\<open>cw04\<close>: the end is read from the wrong field, and the pages are not freed.  The results are the return value, the file
  position, what the user got and the trace.\<close>

definition environ_read_04 ::
  "kenv \<Rightarrow> (int \<Rightarrow> nat \<Rightarrow> int \<times> string) \<Rightarrow> mm_struct option \<Rightarrow> nat \<Rightarrow> int \<Rightarrow> fault + int \<times> int \<times> string \<times> kcall list" where
  "environ_read_04 K access_remote_vm mm count pos =
     (case mm of
        None \<Rightarrow> Inr (0, pos, [], [])
      | Some mm \<Rightarrow>
          if mm_env_end mm = 0 then Inr (0, pos, [], [])
          else if \<not> k_kmalloc K ''environ_read'' 4194304 then Inr (- ENOMEM, pos, [], [])
          else if \<not> mm_alive mm then Inr (0, pos, [], [Acq (Mem ''page'')])
          else (case environ_loop K access_remote_vm (mm_env_start mm) (mm_env_start mm) (Suc count) count (u64 pos) 0 0 of
              Inl e \<Rightarrow> Inl e
            | Inr (ret, src, out) \<Rightarrow> Inr (ret, s64 src, out, [Acq (Mem ''page'')])))"

text \<open>\<open>cw05\<close>: the right end; the call that should free the pages gets their address where a \<open>struct page *\<close> is
  expected, which is a bad free on every path that allocated them.  What has been delivered by then is \<open>environ_body_05\<close>.\<close>

definition environ_body_05 ::
  "kenv \<Rightarrow> (int \<Rightarrow> nat \<Rightarrow> int \<times> string) \<Rightarrow> mm_struct \<Rightarrow> nat \<Rightarrow> int \<Rightarrow> fault + int \<times> int \<times> string" where
  "environ_body_05 K access_remote_vm mm count pos =
     (case environ_loop K access_remote_vm (mm_env_start mm) (mm_env_end mm) (Suc count) count (u64 pos) 0 0 of
        Inl e \<Rightarrow> Inl e
      | Inr (ret, src, out) \<Rightarrow> Inr (ret, s64 src, out))"

definition environ_read_05 ::
  "kenv \<Rightarrow> (int \<Rightarrow> nat \<Rightarrow> int \<times> string) \<Rightarrow> mm_struct option \<Rightarrow> nat \<Rightarrow> int \<Rightarrow> fault + int \<times> int \<times> string \<times> kcall list" where
  "environ_read_05 K access_remote_vm mm count pos =
     (case mm of
        None \<Rightarrow> Inr (0, pos, [], [])
      | Some mm \<Rightarrow>
          if mm_env_end mm = 0 then Inr (0, pos, [], [])
          else if \<not> k_kmalloc K ''environ_read'' 4194304 then Inr (- ENOMEM, pos, [], [])
          else if \<not> mm_alive mm then Inl BadFree
          else (case environ_body_05 K access_remote_vm mm count pos of Inl e \<Rightarrow> Inl e | Inr r \<Rightarrow> Inl BadFree))"

section \<open>loadavg\<close>

text \<open>The two pointers \<open>single_open\<close> makes \<open>seq_read\<close> pass to the show function: the file and a token that is no object.\<close>

datatype seq_ptr = SeqFile | StartToken

fun seq_printf :: "seq_ptr \<Rightarrow> string \<Rightarrow> fault + string" where
  "seq_printf SeqFile text = Inr text"
| "seq_printf StartToken text = Inl WildPointer"

definition FSHIFT :: nat where "FSHIFT = 11"
definition FIXED_1 :: "64 word" where "FIXED_1 = push_bit FSHIFT 1"

definition LOAD_INT :: "64 word \<Rightarrow> 64 word" where "LOAD_INT x = drop_bit FSHIFT x"
definition LOAD_FRAC :: "64 word \<Rightarrow> 64 word" where "LOAD_FRAC x = LOAD_INT (and x (FIXED_1 - 1) * 100)"

text \<open>The conversion \<open>%02lu\<close>.\<close>

definition show_02 :: "nat \<Rightarrow> string" where
  "show_02 n = (if n < 10 then CHR ''0'' # show_nat n else show_nat n)"

definition loadavg_text :: "64 word \<Rightarrow> 64 word \<Rightarrow> 64 word \<Rightarrow> int \<Rightarrow> int \<Rightarrow> int \<Rightarrow> string" where
  "loadavg_text a b c nr_running nr_threads last_pid =
     show_nat (unat (LOAD_INT a)) @ ''.'' @ show_02 (unat (LOAD_FRAC a)) @ '' '' @
     show_nat (unat (LOAD_INT b)) @ ''.'' @ show_02 (unat (LOAD_FRAC b)) @ '' '' @
     show_nat (unat (LOAD_INT c)) @ ''.'' @ show_02 (unat (LOAD_FRAC c)) @ '' '' @
     show_int nr_running @ ''/'' @ show_int nr_threads @ '' '' @ show_int last_pid @ [CHR 0x0A]"

text \<open>\<open>cw04\<close> prints to its second parameter, \<open>cw05\<close> to its first.\<close>

definition loadavg_proc_show_04 ::
  "64 word \<times> 64 word \<times> 64 word \<Rightarrow> int \<Rightarrow> int \<Rightarrow> int \<Rightarrow> seq_ptr \<Rightarrow> seq_ptr \<Rightarrow> fault + string" where
  "loadavg_proc_show_04 avnrun nr_running nr_threads last_pid m v =
     (case avnrun of (a, b, c) \<Rightarrow> seq_printf v (loadavg_text a b c nr_running nr_threads last_pid))"

definition loadavg_proc_show_05 ::
  "64 word \<times> 64 word \<times> 64 word \<Rightarrow> int \<Rightarrow> int \<Rightarrow> int \<Rightarrow> seq_ptr \<Rightarrow> seq_ptr \<Rightarrow> fault + string" where
  "loadavg_proc_show_05 avnrun nr_running nr_threads last_pid m v =
     (case avnrun of (a, b, c) \<Rightarrow> seq_printf m (loadavg_text a b c nr_running nr_threads last_pid))"

section \<open>What environ_read delivers\<close>

text \<open>The environment of a process is \<open>env\<close>, all of it can be read, and the user's memory can be written.\<close>

definition env_mapped :: "kenv \<Rightarrow> (int \<Rightarrow> nat \<Rightarrow> int \<times> string) \<Rightarrow> mm_struct \<Rightarrow> string \<Rightarrow> bool" where
  "env_mapped K access_remote_vm mm env \<longleftrightarrow> 0 \<le> mm_env_start mm \<and> mm_env_end mm = mm_env_start mm + int (length env) \<and>
     mm_env_end mm < 18446744073709551616 \<and> length env < 2147483648 \<and> (\<forall>i n. k_copy_to_user K i n = 0) \<and>
     (\<forall>k n. k + n \<le> length env \<longrightarrow> access_remote_vm (mm_env_start mm + int k) n = (int n, take n (drop k env)))"

lemma environ_loop_delivers:
  assumes env: "env_mapped K vm mm env" and es: "es = mm_env_start mm" "ee = mm_env_end mm"
  shows "count < fuel \<Longrightarrow> 0 \<le> src \<Longrightarrow> src < 18446744073709551616 \<Longrightarrow> 0 \<le> ret \<Longrightarrow>
    ret + int (length env) - min src (int (length env)) < 2147483648 \<Longrightarrow>
    environ_loop K vm es ee fuel count src off ret =
      Inr (ret + int (length (take count (drop (nat src) env))), src + int (length (take count (drop (nat src) env))),
        take count (drop (nat src) env))"
proof (induction fuel arbitrary: count src off ret)
  case (Suc fuel)
  have E: "0 \<le> es" "ee = es + int (length env)" "ee < 18446744073709551616" "\<And>i n. k_copy_to_user K i n = 0"
    "\<And>k n. k + n \<le> length env \<Longrightarrow> vm (es + int k) n = (int n, take n (drop k env))"
    using env es by (auto simp: env_mapped_def)
  have d: "u64 (ee - es) = int (length env)" using E(1-3) by (simp add: u64_id)
  show ?case
  proof (cases "count = 0 \<or> src \<ge> int (length env)")
    case True
    then show ?thesis using d by auto
  next
    case False
    define k where "k = nat src"
    have src: "src = int k" "k < length env" using False Suc.prems(2) by (auto simp: k_def)
    define n where "n = min (min PAGE_SIZE count) (length env - k)"
    have n: "0 < n" "n \<le> count" "k + n \<le> length env" using False src by (auto simp: n_def PAGE_SIZE_def)
    have "u64 (ee - (es + src)) = int (length env - k)" "u64 (es + src) = es + int k"
      using E(1-3) src by (simp_all add: u64_id of_nat_diff)
    then have vm: "vm (u64 (es + src)) (min (min PAGE_SIZE count) (nat (u64 (ee - (es + src))))) = (int n, take n (drop k env))"
      using E(5) [OF n(3)] by (simp add: n_def)
    have small: "length env < 2147483648" using env by (simp add: env_mapped_def)
    have arith: "u64 (src + int n) = src + int n" "s32 (ret + int n) = ret + int n"
    proof -
      show "u64 (src + int n) = src + int n" using src n(3) small by (simp add: u64_id)
      have "ret + int n < 2147483648" using Suc.prems(5) src n(3) by (simp add: min_def split: if_splits)
      then show "s32 (ret + int n) = ret + int n" using Suc.prems(4) by (simp add: s32_id)
    qed
    have IH: "environ_loop K vm es ee fuel (count - n) (src + int n) (off + n) (ret + int n) =
        Inr (ret + int n + int (length (take (count - n) (drop (nat (src + int n)) env))),
          src + int n + int (length (take (count - n) (drop (nat (src + int n)) env))),
          take (count - n) (drop (nat (src + int n)) env))"
      by (rule Suc.IH) (use Suc.prems src n small in auto)
    have c1: "\<not> (count = 0 \<or> src \<ge> u64 (ee - es))" using False d by simp
    have c2: "\<not> int n \<le> 0" "nat (int n) = n" using n(1) by simp_all
    have step: "environ_loop K vm es ee (Suc fuel) count src off ret =
        (case environ_loop K vm es ee fuel (count - n) (src + int n) (off + n) (ret + int n) of
          Inl e \<Rightarrow> Inl e | Inr (ret', src', out) \<Rightarrow> Inr (ret', src', take n (take n (drop k env)) @ out))"
      by (simp only: environ_loop.simps vm c1 c2 arith Let_def E(4) if_False prod.case not_True_eq_False simp_thms)
    define rest where "rest = take (count - n) (drop (k + n) env)"
    have split: "take count (drop k env) = take n (drop k env) @ rest"
      using n(2) take_add [of n "count - n" "drop k env"] by (simp add: add.commute rest_def)
    have len: "length (take n (drop k env)) = n" using n(3) by simp
    have k': "nat (src + int n) = k + n" "nat src = k" using src by (simp_all add: nat_add_distrib)
    show ?thesis unfolding step IH k' split rest_def [symmetric] length_append len by simp
  qed
qed simp

text \<open>C40.  Reading the environment of a process in the two copies.  In \<open>cw04\<close> nothing is ever delivered and the pages stay allocated;
  in \<open>cw05\<close> the bytes of the environment from the file position on are delivered, as many as asked for and present, and then
  the wrong pointer is freed.\<close>

theorem environ_versions:
  assumes "env_mapped K vm mm env" "0 \<le> pos" "pos < 4611686018427387904" "mm_env_end mm \<noteq> 0" "mm_alive mm"
    and "k_kmalloc K ''environ_read'' 4194304"
  shows "environ_read_04 K vm (Some mm) count pos = Inr (0, pos, [], [Acq (Mem ''page'')])
    \<and> environ_body_05 K vm mm count pos = Inr (int (length (take count (drop (nat pos) env))),
        pos + int (length (take count (drop (nat pos) env))), take count (drop (nat pos) env))
    \<and> environ_read_05 K vm (Some mm) count pos = Inl BadFree"
proof -
  have small: "length env < 2147483648" using assms(1) by (simp add: env_mapped_def)
  have p: "u64 pos = pos" "s64 pos = pos" using assms(2,3) by (simp_all add: u64_id s64_id)
  have l: "length (take count (drop (nat pos) env)) < 2147483648" using small by simp
  have "environ_loop K vm (mm_env_start mm) (mm_env_end mm) (Suc count) count pos 0 0 =
      Inr (0 + int (length (take count (drop (nat pos) env))), pos + int (length (take count (drop (nat pos) env))),
        take count (drop (nat pos) env))"
    by (rule environ_loop_delivers [OF assms(1) refl refl]) (use assms(2,3) small in auto)
  then have b: "environ_body_05 K vm mm count pos = Inr (int (length (take count (drop (nat pos) env))),
        pos + int (length (take count (drop (nat pos) env))), take count (drop (nat pos) env))"
    using l assms(2,3) p by (simp add: environ_body_05_def s64_id del: length_take length_drop)
  have "environ_loop K vm (mm_env_start mm) (mm_env_start mm) (Suc count) count pos 0 0 = Inr (0, pos, [])"
    using assms(2) by (simp add: u64_id)
  then show ?thesis using b assms(4-6) p by (simp add: environ_read_04_def environ_read_05_def)
qed

theorem environ_versions_witness:
  "environ_read_04 kenv0 (\<lambda>a n. (int n, take n (drop (nat (a - 100)) ''A=1''))) (Some \<lparr>mm_env_start = 100, mm_env_end = 103, mm_alive = True\<rparr>) 2 1
     = Inr (0, 1, [], [Acq (Mem ''page'')]) \<and>
   environ_body_05 kenv0 (\<lambda>a n. (int n, take n (drop (nat (a - 100)) ''A=1''))) \<lparr>mm_env_start = 100, mm_env_end = 103, mm_alive = True\<rparr> 2 1
     = Inr (2, 3, ''=1'')"
  using environ_versions [of kenv0 "\<lambda>a n. (int n, take n (drop (nat (a - 100)) ''A=1''))"
      "\<lparr>mm_env_start = 100, mm_env_end = 103, mm_alive = True\<rparr>" "''A=1''" 1 2]
  by (simp add: env_mapped_def)

section \<open>The text of loadavg\<close>

lemma FIXED_1_mask: "FIXED_1 - 1 = mask 11"
  by (simp add: FIXED_1_def FSHIFT_def mask_eq_exp_minus_1 push_bit_eq_mult)

lemma unat_LOAD_INT: "unat (LOAD_INT x) = unat x div 2048"
  by (simp add: LOAD_INT_def FSHIFT_def drop_bit_eq_div unat_div)

lemma unat_LOAD_FRAC: "unat (LOAD_FRAC x) = unat x mod 2048 * 100 div 2048"
proof -
  have f: "unat (and x (FIXED_1 - 1)) = unat x mod 2048"
    by (simp add: FIXED_1_mask flip: take_bit_eq_mask) (simp add: take_bit_eq_mod unat_mod)
  then have "unat (and x (FIXED_1 - 1)) * unat (100 :: 64 word) < 2 ^ LENGTH(64)" by simp
  from iffD1 [OF unat_mult_lem this] have "unat (and x (FIXED_1 - 1) * 100) = unat (and x (FIXED_1 - 1)) * 100" by simp
  then show ?thesis by (simp add: LOAD_FRAC_def unat_LOAD_INT f)
qed

lemma show_02_length: "n < 100 \<Longrightarrow> length (show_02 n) = 2"
  by (auto simp: show_02_def show_nat.simps [of n] show_nat.simps [of "n div 10"])

text \<open>The averages are fixed-point numbers with eleven binary digits after the point; the text shows each cut off to two decimals,
  and \<open>cw04\<close> writes it through a pointer that is not a file.\<close>

theorem loadavg_versions:
  "100 * unat (LOAD_INT a) + unat (LOAD_FRAC a) = 100 * unat a div 2048 \<and> unat (LOAD_FRAC a) < 100
    \<and> length (show_02 (unat (LOAD_FRAC a))) = 2
    \<and> loadavg_proc_show_05 (a, b, c) r t l SeqFile StartToken = Inr (loadavg_text a b c r t l)
    \<and> loadavg_proc_show_04 (a, b, c) r t l SeqFile StartToken = Inl WildPointer"
proof -
  define q where "q = unat a div 2048"
  define m where "m = unat a mod 2048"
  have a: "unat a = 2048 * q + m" "m < 2048" by (simp_all add: q_def m_def)
  have "unat (LOAD_FRAC a) < 100" using a(2) by (simp add: unat_LOAD_FRAC flip: m_def)
  moreover have "100 * unat (LOAD_INT a) + unat (LOAD_FRAC a) = 100 * unat a div 2048"
    by (simp add: unat_LOAD_INT unat_LOAD_FRAC flip: m_def q_def) (simp add: a(1))
  ultimately show ?thesis by (simp add: loadavg_proc_show_04_def loadavg_proc_show_05_def show_02_length)
qed

end
