(* ===== verification/ProcFd.thy ===== *)
theory ProcFd imports KernelApi "HOL-Library.Word" begin

text \<open>
  \<open>fs/proc/fd.c\<close> of the two kernel copies, the directories \<open>/proc/<pid>/fd\<close> and \<open>fdinfo\<close>, with the functions of
  \<open>base.c\<close> and \<open>internal.h\<close> it rests on: listing the open descriptors (in both versions, which differ in the
  initial value of \<open>len\<close>), looking a name up, making and revalidating the inode, following the link, and the text of
  \<open>fdinfo\<close>.  Calls into other parts of the kernel (\<open>dir_emit_dots\<close>, \<open>proc_fill_cache\<close>, \<open>new_inode\<close>,
  \<open>get_task_pid\<close>, \<open>generic_permission\<close>, the text of the locks) are parameters.  Shown: the listing
  loses no descriptor over any number of calls; what it lists can be looked up and leads to the open file; exactly the canonical
  decimal names are accepted; every operation gives back what it takes.
\<close>

definition ECHILD :: int where "ECHILD = 10"

section \<open>Processes and their open files\<close>

record open_file =
  f_mode :: "32 word"
  f_flags :: "32 word"
  f_pos :: int
  f_path :: string
  f_mnt_id :: int
  f_fdinfo :: "string option"   \<comment> \<open>what \<open>f_op->show_fdinfo\<close> prints, if there is one\<close>

text \<open>An entry of the descriptor table is an open file with its close-on-exec bit.  \<open>tk_mm\<close> is \<open>get_dumpable(task->mm)\<close>.\<close>

record task =
  tk_files :: "(open_file \<times> bool) option list option"
  tk_mm :: "int option"
  tk_euid :: int
  tk_egid :: int

definition task_dumpable :: "task \<Rightarrow> bool" where
  "task_dumpable t = (case tk_mm t of None \<Rightarrow> False | Some dumpable \<Rightarrow> dumpable = 1)"

definition fcheck_files :: "'f option list \<Rightarrow> nat \<Rightarrow> 'f option" where
  "fcheck_files files fd = (if fd < length files then files ! fd else None)"

section \<open>Names of descriptors\<close>

text \<open>\<open>snprintf(name, sz, "%u", fd)\<close>: the length the text has, and the array afterwards.\<close>

definition snprintf_u :: "nat \<Rightarrow> nat \<Rightarrow> string \<Rightarrow> nat \<times> string" where
  "snprintf_u sz fd name =
     (length (show_nat fd), if sz = 0 then name else blit name 0 (take (sz - 1) (show_nat fd) @ [NUL]))"

definition PROC_NUMBUF :: nat where "PROC_NUMBUF = 13"

text \<open>The loop over the table of open files, from descriptor \<open>fd\<close> on; \<open>len0\<close> is the initial value of \<open>len\<close>, which is the
  size that \<open>snprintf\<close> gets, and \<open>fill\<close> is \<open>proc_fill_cache\<close>.  The results are the entries, \<open>ctx->pos\<close> and
  the trace; the read-side lock is not held across \<open>fill\<close>.\<close>

fun readfd_loop ::
  "nat \<Rightarrow> kenv \<Rightarrow> (nat \<Rightarrow> string \<Rightarrow> bool) \<Rightarrow> 'f option list \<Rightarrow> nat \<Rightarrow> nat \<Rightarrow> (nat \<times> string) list \<times> nat \<times> kcall list" where
  "readfd_loop len0 K fill [] fd pos = ([], pos, [Rel (RdLock ''rcu'')])"
| "readfd_loop len0 K fill (f # files) fd pos =
     (if f = None then readfd_loop len0 K fill files (fd + 1) (pos + 1)
      else case snprintf_u len0 fd (map (k_junk K) [0..<PROC_NUMBUF]) of (len, name) \<Rightarrow>
        if \<not> fill fd (take len name) then ([], pos, [Rel (RdLock ''rcu'')])
        else (case readfd_loop len0 K fill files (fd + 1) (pos + 1) of (es, pos', tr) \<Rightarrow>
          ((fd, take len name) # es, pos', [Rel (RdLock ''rcu''), Acq (RdLock ''rcu'')] @ tr)))"

text \<open>The whole function; \<open>task\<close> is the process with its table of files, either of which may be gone, and \<open>dots\<close> is
  \<open>dir_emit_dots\<close>: whether it succeeds and the new \<open>ctx->pos\<close>.\<close>

definition readfd_common ::
  "nat \<Rightarrow> kenv \<Rightarrow> (nat \<Rightarrow> bool \<times> nat) \<Rightarrow> (nat \<Rightarrow> string \<Rightarrow> bool) \<Rightarrow> 'f option list option option \<Rightarrow> nat \<Rightarrow>
   int \<times> (nat \<times> string) list \<times> nat \<times> kcall list" where
  "readfd_common len0 K dots fill task pos =
     (case task of
        None \<Rightarrow> (- ENOENT, [], pos, [])
      | Some files \<Rightarrow>
          (case dots pos of (ok, pos1) \<Rightarrow>
            if \<not> ok then (0, [], pos1, [Acq TaskRef, Rel TaskRef])
            else (case files of
                None \<Rightarrow> (0, [], pos1, [Acq TaskRef, Rel TaskRef])
              | Some fdt \<Rightarrow>
                  (case readfd_loop len0 K fill (drop (pos1 - 2) fdt) (pos1 - 2) pos1 of (es, pos2, tr) \<Rightarrow>
                    (0, es, pos2, [Acq TaskRef, Acq FilesRef, Acq (RdLock ''rcu'')] @ tr @ [Rel FilesRef, Rel TaskRef])))))"

definition proc_readfd_common_04 ::
  "kenv \<Rightarrow> (nat \<Rightarrow> bool \<times> nat) \<Rightarrow> (nat \<Rightarrow> string \<Rightarrow> bool) \<Rightarrow> 'f option list option option \<Rightarrow> nat \<Rightarrow>
   int \<times> (nat \<times> string) list \<times> nat \<times> kcall list" where
  "proc_readfd_common_04 = readfd_common 0"

definition proc_readfd_common_05 ::
  "kenv \<Rightarrow> (nat \<Rightarrow> bool \<times> nat) \<Rightarrow> (nat \<Rightarrow> string \<Rightarrow> bool) \<Rightarrow> 'f option list option option \<Rightarrow> nat \<Rightarrow>
   int \<times> (nat \<times> string) list \<times> nat \<times> kcall list" where
  "proc_readfd_common_05 = readfd_common PROC_NUMBUF"

text \<open>\<open>name_to_int\<close> with its \<open>unsigned\<close> arithmetic; \<open>4294967295\<close> is \<open>~0U\<close>.\<close>

fun name_to_int_loop :: "string \<Rightarrow> nat \<Rightarrow> nat" where
  "name_to_int_loop [] n = n"
| "name_to_int_loop (ch # name) n =
     (let c = (of_char ch + 4294967296 - 48) mod 4294967296 in
      if c > 9 then 4294967295
      else if n \<ge> (4294967295 - 9) div 10 then 4294967295
      else name_to_int_loop name ((n * 10 mod 4294967296 + c) mod 4294967296))"

definition name_to_int :: "string \<Rightarrow> nat" where
  "name_to_int name = (if length name > 1 \<and> hd name = CHR ''0'' then 4294967295 else name_to_int_loop name 0)"

section \<open>Inodes of descriptors\<close>

definition S_IFMT :: "16 word" where "S_IFMT = 61440"
definition S_IFLNK :: "16 word" where "S_IFLNK = 40960"
definition S_IFREG :: "16 word" where "S_IFREG = 32768"
definition S_IRUSR :: "16 word" where "S_IRUSR = 256"
definition S_IWUSR :: "16 word" where "S_IWUSR = 128"
definition S_IXUSR :: "16 word" where "S_IXUSR = 64"
definition S_ISLNK :: "16 word \<Rightarrow> bool" where "S_ISLNK mode \<longleftrightarrow> and mode S_IFMT = S_IFLNK"
definition FMODE_READ :: "32 word" where "FMODE_READ = 1"
definition FMODE_WRITE :: "32 word" where "FMODE_WRITE = 2"

lemmas mode_defs = S_IFMT_def S_IFLNK_def S_IFREG_def S_IRUSR_def S_IWUSR_def S_IXUSR_def

text \<open>The fields of \<open>struct proc_inode\<close> and its \<open>vfs_inode\<close> that these functions use; the process that \<open>pid\<close> leads
  to is an argument of the operations, \<open>None\<close> if it is gone.\<close>

record proc_inode =
  i_mode :: "16 word"
  i_uid :: int
  i_gid :: int
  i_fd :: nat

text \<open>\<open>proc_pid_make_inode\<close>; \<open>new_inode\<close> is the fresh inode, if there is memory for it, and \<open>pid_ok\<close> whether
  \<open>get_task_pid\<close> finds the number of the process.\<close>

definition proc_pid_make_inode ::
  "proc_inode option \<Rightarrow> bool \<Rightarrow> task \<Rightarrow> 16 word \<Rightarrow> proc_inode option \<times> kcall list" where
  "proc_pid_make_inode new_inode pid_ok t mode =
     (case new_inode of
        None \<Rightarrow> (None, [])
      | Some inode \<Rightarrow>
          let inode = inode\<lparr>i_mode := mode\<rparr> in
          if \<not> pid_ok then (None, [Acq (Mem ''inode''), Rel (Mem ''inode'')])
          else if task_dumpable t
          then (Some (inode\<lparr>i_uid := tk_euid t, i_gid := tk_egid t\<rparr>),
            [Acq (Mem ''inode''), Acq PidRef, Acq (RdLock ''rcu''), Rel (RdLock ''rcu'')])
          else (Some inode, [Acq (Mem ''inode''), Acq PidRef]))"

text \<open>The mode of the link of a descriptor that is open with mode \<open>fmode\<close>.\<close>

definition fd_link_mode :: "32 word \<Rightarrow> 16 word" where
  "fd_link_mode fmode =
     (let i_mode = S_IFLNK;
          i_mode = (if and fmode FMODE_READ \<noteq> 0 then or i_mode (or S_IRUSR S_IXUSR) else i_mode)
      in if and fmode FMODE_WRITE \<noteq> 0 then or i_mode (or S_IWUSR S_IXUSR) else i_mode)"

definition tid_fd_revalidate :: "bool \<Rightarrow> task option \<Rightarrow> proc_inode \<Rightarrow> int \<times> proc_inode \<times> kcall list" where
  "tid_fd_revalidate lookup_rcu tsk inode =
     (if lookup_rcu then (- ECHILD, inode, [])
      else case tsk of
        None \<Rightarrow> (0, inode, [])
      | Some t \<Rightarrow>
          (case tk_files t of
            None \<Rightarrow> (0, inode, [Acq TaskRef, Rel TaskRef])
          | Some files \<Rightarrow>
              (case fcheck_files files (i_fd inode) of
                None \<Rightarrow> (0, inode,
                  [Acq TaskRef, Acq FilesRef, Acq (RdLock ''rcu''), Rel (RdLock ''rcu''), Rel FilesRef, Rel TaskRef])
              | Some (f, _) \<Rightarrow>
                  let owned = (if task_dumpable t then inode\<lparr>i_uid := tk_euid t, i_gid := tk_egid t\<rparr>
                        else inode\<lparr>i_uid := 0, i_gid := 0\<rparr>);
                      linked = (if S_ISLNK (i_mode inode) then owned\<lparr>i_mode := fd_link_mode (f_mode f)\<rparr> else owned)
                  in (1, linked,
                    [Acq TaskRef, Acq FilesRef, Acq (RdLock ''rcu''), Rel (RdLock ''rcu''), Rel FilesRef] @
                    (if task_dumpable t then [Acq (RdLock ''rcu''), Rel (RdLock ''rcu'')] else []) @ [Rel TaskRef]))))"

text \<open>\<open>proc_fd_instantiate\<close> and \<open>proc_fdinfo_instantiate\<close>, which differ in the mode.  \<open>live\<close> is the process at the
  time of the final check.  The results are the return value, the inode that \<open>d_add\<close> bound to the name, and the trace.\<close>

definition fd_instantiate ::
  "16 word \<Rightarrow> proc_inode option \<Rightarrow> bool \<Rightarrow> task option \<Rightarrow> task \<Rightarrow> nat \<Rightarrow> int \<times> proc_inode option \<times> kcall list" where
  "fd_instantiate mode new_inode pid_ok live t fd =
     (case proc_pid_make_inode new_inode pid_ok t mode of
        (None, tr) \<Rightarrow> (- ENOENT, None, tr)
      | (Some inode, tr) \<Rightarrow>
          (case tid_fd_revalidate False live (inode\<lparr>i_fd := fd\<rparr>) of
            (valid, inode', tr') \<Rightarrow> (if valid \<noteq> 0 then 0 else - ENOENT, Some inode', tr @ tr')))"

definition proc_fd_instantiate ::
  "proc_inode option \<Rightarrow> bool \<Rightarrow> task option \<Rightarrow> task \<Rightarrow> nat \<Rightarrow> int \<times> proc_inode option \<times> kcall list" where
  "proc_fd_instantiate = fd_instantiate S_IFLNK"

definition proc_fdinfo_instantiate ::
  "proc_inode option \<Rightarrow> bool \<Rightarrow> task option \<Rightarrow> task \<Rightarrow> nat \<Rightarrow> int \<times> proc_inode option \<times> kcall list" where
  "proc_fdinfo_instantiate = fd_instantiate (or S_IFREG S_IRUSR)"

definition proc_lookupfd_common ::
  "(task \<Rightarrow> nat \<Rightarrow> int \<times> proc_inode option \<times> kcall list) \<Rightarrow> task option \<Rightarrow> string \<Rightarrow>
   int \<times> proc_inode option \<times> kcall list" where
  "proc_lookupfd_common instantiate tsk name =
     (case tsk of
        None \<Rightarrow> (- ENOENT, None, [])
      | Some t \<Rightarrow>
          let fd = name_to_int name in
          if fd = 4294967295 then (- ENOENT, None, [Acq TaskRef, Rel TaskRef])
          else (case instantiate t fd of (result, inode, tr) \<Rightarrow> (result, inode, [Acq TaskRef] @ tr @ [Rel TaskRef])))"

definition proc_lookupfd ::
  "proc_inode option \<Rightarrow> bool \<Rightarrow> task option \<Rightarrow> task option \<Rightarrow> string \<Rightarrow> int \<times> proc_inode option \<times> kcall list" where
  "proc_lookupfd new_inode pid_ok live = proc_lookupfd_common (proc_fd_instantiate new_inode pid_ok live)"

definition proc_lookupfdinfo ::
  "proc_inode option \<Rightarrow> bool \<Rightarrow> task option \<Rightarrow> task option \<Rightarrow> string \<Rightarrow> int \<times> proc_inode option \<times> kcall list" where
  "proc_lookupfdinfo new_inode pid_ok live = proc_lookupfd_common (proc_fdinfo_instantiate new_inode pid_ok live)"

text \<open>Following the link: the result, the path, on which two references are taken for the caller, and the trace.\<close>

definition proc_fd_link :: "task option \<Rightarrow> proc_inode \<Rightarrow> int \<times> string option \<times> kcall list" where
  "proc_fd_link tsk inode =
     (case tsk of
        None \<Rightarrow> (- ENOENT, None, [])
      | Some t \<Rightarrow>
          (case tk_files t of
            None \<Rightarrow> (- ENOENT, None, [Acq TaskRef, Rel TaskRef])
          | Some files \<Rightarrow>
              (case fcheck_files files (i_fd inode) of
                None \<Rightarrow> (- ENOENT, None, [Acq TaskRef, Acq FilesRef, Rel TaskRef,
                  Acq (Lock ''file_lock''), Rel (Lock ''file_lock''), Rel FilesRef])
              | Some (f, _) \<Rightarrow> (0, Some (f_path f), [Acq TaskRef, Acq FilesRef, Rel TaskRef,
                  Acq (Lock ''file_lock''), Acq MntRef, Acq DentryRef, Rel (Lock ''file_lock''), Rel FilesRef]))))"

text \<open>\<open>generic\<close> is the result of \<open>generic_permission\<close> and \<open>grp\<close> what \<open>same_thread_group\<close> says of the process,
  if there is one.\<close>

definition proc_fd_permission :: "int \<Rightarrow> bool option \<Rightarrow> int \<times> kcall list" where
  "proc_fd_permission generic grp =
     (if generic = 0 then (0, [])
      else (if grp = Some True then 0 else generic, [Acq (RdLock ''rcu''), Rel (RdLock ''rcu'')]))"

section \<open>The text of fdinfo\<close>

text \<open>A \<open>seq_file\<close> with room for \<open>room\<close> bytes: what does not fit is left out and marks the file as overflowed.\<close>

record seq_buf =
  sq_text :: string
  sq_full :: bool

definition seq_print :: "nat \<Rightarrow> string \<Rightarrow> seq_buf \<Rightarrow> seq_buf" where
  "seq_print room text m =
     (if \<not> sq_full m \<and> length (sq_text m) + length text < room then m\<lparr>sq_text := sq_text m @ text\<rparr> else m\<lparr>sq_full := True\<rparr>)"

fun show_oct :: "nat \<Rightarrow> string" where
  "show_oct n = (if n < 8 then [digit_char n] else show_oct (n div 8) @ [digit_char (n mod 8)])"

declare show_oct.simps [simp del]

definition O_CLOEXEC :: "32 word" where "O_CLOEXEC = 524288"

definition fdinfo_header :: "open_file \<Rightarrow> bool \<Rightarrow> string" where
  "fdinfo_header f cloexec =
     ''pos:'' @ [CHR 0x09] @ show_int (f_pos f) @ [CHR 0x0A] @
     ''flags:'' @ [CHR 0x09] @ ''0'' @ show_oct (unat (if cloexec then or (f_flags f) O_CLOEXEC else f_flags f)) @ [CHR 0x0A] @
     ''mnt_id:'' @ [CHR 0x09] @ show_int (f_mnt_id f) @ [CHR 0x0A]"

definition fd_seq_show :: "nat \<Rightarrow> (open_file \<Rightarrow> string) \<Rightarrow> task option \<Rightarrow> nat \<Rightarrow> int \<times> seq_buf \<times> kcall list" where
  "fd_seq_show room show_fd_locks tsk fd =
     (let empty = \<lparr>sq_text = [], sq_full = False\<rparr> in
      case tsk of
        None \<Rightarrow> (- ENOENT, empty, [])
      | Some t \<Rightarrow>
          (case tk_files t of
            None \<Rightarrow> (- ENOENT, empty, [Acq TaskRef, Rel TaskRef])
          | Some files \<Rightarrow>
              (case fcheck_files files fd of
                None \<Rightarrow> (- ENOENT, empty, [Acq TaskRef, Acq FilesRef, Rel TaskRef,
                  Acq (Lock ''file_lock''), Rel (Lock ''file_lock''), Rel FilesRef])
              | Some (f, cloexec) \<Rightarrow>
                  let m = seq_print room (show_fd_locks f) (seq_print room (fdinfo_header f cloexec) empty);
                      m = (if sq_full m then m else case f_fdinfo f of None \<Rightarrow> m | Some info \<Rightarrow> seq_print room info m)
                  in (0, m, [Acq TaskRef, Acq FilesRef, Rel TaskRef, Acq (Lock ''file_lock''), Acq FileRef,
                    Rel (Lock ''file_lock''), Rel FilesRef, Rel FileRef]))))"

section \<open>Listing descriptors and looking them up\<close>

lemma char_code_digit: "d < 10 \<Longrightarrow> (4294967248 + of_char (digit_char d)) mod 4294967296 = (d :: nat)"
  by (simp add: of_char_digit)

lemma name_to_int_loop_snoc:
  "name_to_int_loop s n = m \<Longrightarrow> m < 429496728 \<Longrightarrow> d < 10 \<Longrightarrow> name_to_int_loop (s @ [digit_char d]) n = m * 10 + d"
proof (induction s n rule: name_to_int_loop.induct)
  case (1 n)
  then show ?case by (simp add: char_code_digit Let_def)
next
  case (2 ch name n)
  then show ?case by (auto simp: Let_def split: if_splits)
qed

lemma name_to_int_loop_show: "n < 4294967280 \<Longrightarrow> name_to_int_loop (show_nat n) 0 = n"
proof (induction n rule: show_nat.induct)
  case (1 n)
  show ?case
  proof (cases "n < 10")
    case True
    then show ?thesis by (simp add: show_nat.simps [of n] char_code_digit)
  next
    case False
    have "n div 10 < 429496728" using "1.prems" by simp
    moreover from this have "name_to_int_loop (show_nat (n div 10)) 0 = n div 10" using "1.IH" [OF False] by simp
    ultimately show ?thesis using name_to_int_loop_snoc [of "show_nat (n div 10)" 0 "n div 10" "n mod 10"] False
      by (simp add: show_nat.simps [of n])
  qed
qed

lemma hd_show_nat: "0 < n \<Longrightarrow> hd (show_nat n) \<noteq> CHR ''0''"
proof (induction n rule: show_nat.induct)
  case (1 n)
  show ?case
  proof (cases "n < 10")
    case True
    then have "(of_char (digit_char n) :: nat) \<noteq> of_char (CHR ''0'')" using "1.prems" by (simp add: of_char_digit)
    then have "digit_char n \<noteq> CHR ''0''" by metis
    then show ?thesis using True by (simp add: show_nat.simps [of n])
  next
    case False
    then show ?thesis using "1.IH" by (simp add: show_nat.simps [of n])
  qed
qed

lemma name_to_int_show: "n < 4294967280 \<Longrightarrow> name_to_int (show_nat n) = n"
  using hd_show_nat [of n] name_to_int_loop_show [of n]
  by (cases "n = 0") (auto simp: name_to_int_def show_nat.simps [of 0])

text \<open>The name that an entry gets, and the entries of the open descriptors from \<open>k\<close> on.\<close>

definition fd_name :: "nat \<Rightarrow> kenv \<Rightarrow> nat \<Rightarrow> string" where
  "fd_name len0 K fd = (case snprintf_u len0 fd (map (k_junk K) [0..<PROC_NUMBUF]) of (len, name) \<Rightarrow> take len name)"

definition fd_entries :: "nat \<Rightarrow> kenv \<Rightarrow> 'f option list \<Rightarrow> nat \<Rightarrow> (nat \<times> string) list" where
  "fd_entries len0 K fdt k = map (\<lambda>fd. (fd, fd_name len0 K fd)) (filter (\<lambda>fd. fdt ! fd \<noteq> None) [k..<length fdt])"

lemma fd_entries_step:
  "k < length fdt \<Longrightarrow> fd_entries len0 K fdt k = (if fdt ! k \<noteq> None then [(k, fd_name len0 K k)] else []) @ fd_entries len0 K fdt (Suc k)"
  by (simp add: fd_entries_def upt_conv_Cons)

lemma fd_entries_end: "length fdt \<le> k \<Longrightarrow> fd_entries len0 K fdt k = []"
  by (simp add: fd_entries_def)

lemma readfd_loop_entries:
  assumes "readfd_loop len0 K fill (drop k fdt) k (k + 2) = (es, pos', tr)" "k \<le> length fdt"
  shows "k + 2 \<le> pos' \<and> pos' - 2 \<le> length fdt \<and> es @ fd_entries len0 K fdt (pos' - 2) = fd_entries len0 K fdt k
    \<and> (\<forall>(fd, name)\<in>set es. fill fd name)
    \<and> (pos' - 2 < length fdt \<longrightarrow> fdt ! (pos' - 2) \<noteq> None \<and> \<not> fill (pos' - 2) (fd_name len0 K (pos' - 2)))
    \<and> tr = concat (replicate (length es) [Rel (RdLock ''rcu''), Acq (RdLock ''rcu'')]) @ [Rel (RdLock ''rcu'')]"
  using assms
proof (induction "length fdt - k" arbitrary: k es pos' tr)
  case 0
  then show ?case by auto
next
  case (Suc d)
  then have k: "k < length fdt" "drop k fdt = fdt ! k # drop (Suc k) fdt" by (simp_all add: Cons_nth_drop_Suc)
  obtain len name where sn: "snprintf_u len0 k (map (k_junk K) [0..<PROC_NUMBUF]) = (len, name)" by fastforce
  have nm: "take len name = fd_name len0 K k" by (simp add: fd_name_def sn)
  obtain es2 pos2 tr2 where r: "readfd_loop len0 K fill (drop (Suc k) fdt) (Suc k) (Suc k + 2) = (es2, pos2, tr2)"
    by (metis prod_cases3)
  have "d = length fdt - Suc k" "Suc k \<le> length fdt" using Suc.hyps(2) by simp_all
  note IH = Suc.hyps(1) [OF this(1) r this(2)] and step = fd_entries_step [OF k(1), of len0 K]
  consider (closed) "fdt ! k = None" | (refused) "fdt ! k \<noteq> None" "\<not> fill k (fd_name len0 K k)" | (taken) "fdt ! k \<noteq> None" "fill k (fd_name len0 K k)"
    by blast
  then show ?case
  proof cases
    case closed
    then have "es = es2" "pos' = pos2" "tr = tr2" using Suc.prems(1) r by (simp_all add: k(2))
    then show ?thesis using IH closed step by simp
  next
    case refused
    then have "es = []" "pos' = k + 2" "tr = [Rel (RdLock ''rcu'')]" using Suc.prems(1) by (simp_all add: k(2) sn nm del: not_None_eq)
    then show ?thesis using refused k(1) by (simp del: not_None_eq)
  next
    case taken
    then have "es = (k, fd_name len0 K k) # es2" "pos' = pos2" "tr = [Rel (RdLock ''rcu''), Acq (RdLock ''rcu'')] @ tr2"
      using Suc.prems(1) r by (simp_all add: k(2) sn nm del: not_None_eq)
    then show ?thesis using IH taken step by (simp del: not_None_eq)
  qed
qed

lemma show_nat_zero: "show_nat 0 = ''0''"
  by code_simp

lemma fd_name_05: "fd < 4294967280 \<Longrightarrow> fd_name PROC_NUMBUF K fd = show_nat fd"
proof -
  assume "fd < 4294967280"
  then have "length (show_nat fd) \<le> 10" using show_nat_length [of fd 10] by simp
  then show ?thesis by (simp add: fd_name_def snprintf_u_def PROC_NUMBUF_def blit_def min_def)
qed

lemma digit_char_of: "(4294967248 + of_char ch) mod 4294967296 = c \<Longrightarrow> c \<le> 9 \<Longrightarrow> ch = digit_char c"
proof -
  define x where "x = (of_char ch :: nat)"
  assume c: "(4294967248 + of_char ch) mod 4294967296 = c" "c \<le> 9"
  have small: "x < 256" unfolding x_def by simp
  have "48 \<le> x"
  proof (rule ccontr)
    assume "\<not> 48 \<le> x"
    then have "(4294967248 + x) mod 4294967296 = 4294967248 + x" by (intro mod_less) linarith
    then show False using c unfolding x_def by linarith
  qed
  then have "4294967248 + x = (x - 48) + 4294967296" by linarith
  then have "(4294967248 + x) mod 4294967296 = (x - 48) mod 4294967296" by (simp only: mod_add_self2)
  also have "\<dots> = x - 48" using small by (intro mod_less) linarith
  finally have "x = 48 + c" using c(1) \<open>48 \<le> x\<close> unfolding x_def by linarith
  then show ?thesis unfolding x_def by (metis digit_char_def char_of_char)
qed

lemma show_nat_extend: "0 < n \<Longrightarrow> c \<le> 9 \<Longrightarrow> show_nat (n * 10 + c) = show_nat n @ [digit_char c]"
proof -
  assume "0 < n" "c \<le> 9"
  then have "\<not> n * 10 + c < 10" "(n * 10 + c) div 10 = n" "(n * 10 + c) mod 10 = c" by presburger+
  then show ?thesis by (simp only: show_nat.simps [of "n * 10 + c"] if_False)
qed

lemma name_to_int_loop_text:
  "0 < n \<Longrightarrow> n < 4294967280 \<Longrightarrow> name_to_int_loop s n \<noteq> 4294967295 \<Longrightarrow>
    show_nat (name_to_int_loop s n) = show_nat n @ s \<and> name_to_int_loop s n < 4294967280"
proof (induction s n rule: name_to_int_loop.induct)
  case (2 ch s n)
  define c where "c = (4294967248 + of_char ch :: nat) mod 4294967296"
  have c: "c \<le> 9" "n < 429496728" using "2.prems"(3) by (auto simp: c_def Let_def split: if_splits)
  have ch: "ch = digit_char c" using c(1) by (intro digit_char_of) (simp_all add: c_def)
  have arith: "(n * 10 mod 4294967296 + c) mod 4294967296 = n * 10 + c" using c by simp
  have r: "name_to_int_loop (ch # s) n = name_to_int_loop s (n * 10 + c)"
    using c by (simp add: Let_def arith flip: c_def)
  have "show_nat (name_to_int_loop s (n * 10 + c)) = show_nat (n * 10 + c) @ s \<and> name_to_int_loop s (n * 10 + c) < 4294967280"
    using "2.IH" [of c] "2.prems" c r arith by (simp add: c_def)
  then show ?case using r show_nat_extend [OF "2.prems"(1) c(1)] ch by simp
qed simp

text \<open>The names of descriptors: the decimal text of every number below 4294967280 is read back as that number, and every
  non-empty name that is read as a number at all is the decimal text of that number, so no descriptor has two names.\<close>

theorem name_to_int_canonical:
  "(n < 4294967280 \<longrightarrow> name_to_int (show_nat n) = n)
    \<and> (s \<noteq> [] \<and> name_to_int s \<noteq> 4294967295 \<longrightarrow> s = show_nat (name_to_int s) \<and> name_to_int s < 4294967280)"
proof (intro conjI impI)
  show "name_to_int (show_nat n) = n" if "n < 4294967280" by (rule name_to_int_show [OF that])
  assume "s \<noteq> [] \<and> name_to_int s \<noteq> 4294967295"
  then obtain ch t where s: "s = ch # t" and r: "name_to_int (ch # t) \<noteq> 4294967295" by (cases s) auto
  define c where "c = (4294967248 + of_char ch :: nat) mod 4294967296"
  have z: "\<not> (t \<noteq> [] \<and> ch = CHR ''0'')" and l: "name_to_int (ch # t) = name_to_int_loop (ch # t) 0"
    using r by (auto simp: name_to_int_def split: if_splits)
  then have c: "c \<le> 9" using r by (auto simp: c_def Let_def split: if_splits)
  have ch: "ch = digit_char c" using c by (intro digit_char_of) (simp_all add: c_def)
  have step: "name_to_int (ch # t) = name_to_int_loop t c" using c l by (simp add: Let_def flip: c_def)
  have "ch # t = show_nat (name_to_int (ch # t)) \<and> name_to_int (ch # t) < 4294967280"
  proof (cases "c = 0")
    case True
    then have "(of_char ch :: nat) = of_char (CHR ''0'')" using ch by (simp add: digit_char_def)
    then have "ch = CHR ''0''" by (simp only: of_char_eq_iff)
    then show ?thesis using z step True ch by (simp add: show_nat.simps [of 0])
  next
    case False
    then show ?thesis using name_to_int_loop_text [of c t] c r ch step by (simp add: show_nat.simps [of c])
  qed
  then show "s = show_nat (name_to_int s)" "name_to_int s < 4294967280" by (simp_all only: s)
qed

theorem name_to_int_canonical_witness:
  "name_to_int (show_nat 1023) = 1023 \<and> name_to_int ''1023'' = 1023 \<and> name_to_int ''007'' = 4294967295 \<and> show_nat 1023 = ''1023''"
proof -
  have "name_to_int ''1023'' = 1023" "name_to_int ''007'' = 4294967295" by (simp_all add: name_to_int_def)
  then show ?thesis using name_to_int_canonical [of 1023 "''1023''"] by simp
qed

section \<open>Correctness of the operations\<close>

text \<open>The descriptors that are open from \<open>k\<close> on, with their names.\<close>

abbreviation listing :: "'f option list \<Rightarrow> nat \<Rightarrow> (nat \<times> string) list" where
  "listing fdt k \<equiv> map (\<lambda>fd. (fd, show_nat fd)) (filter (\<lambda>fd. fdt ! fd \<noteq> None) [k..<length fdt])"

lemma fd_entries_05:
  assumes "length fdt \<le> 4294967280"
  shows "fd_entries PROC_NUMBUF K fdt k = listing fdt k"
  unfolding fd_entries_def by (rule map_cong [OF refl]) (use assms in \<open>simp add: fd_name_05\<close>)

text \<open>Listing in the repaired version: whatever entries the caller takes before it refuses one, those given and those that the next
  call would start with are together exactly the open descriptors in order, so that no descriptor is lost or listed twice; only a
  refusal ends the listing before the end of the table; and all that was acquired is released.\<close>

theorem readfd_05_complete:
  assumes "dots pos = (True, Suc (Suc k))" "k \<le> length fdt" "length fdt \<le> 4294967280"
    and "proc_readfd_common_05 K dots fill (Some (Some fdt)) pos = (r, es, pos', tr)"
  shows "r = 0 \<and> es @ listing fdt (pos' - 2) = listing fdt k \<and> (\<forall>(fd, name)\<in>set es. fill fd name)
    \<and> (pos' - 2 < length fdt \<longrightarrow> \<not> fill (pos' - 2) (show_nat (pos' - 2))) \<and> balanced tr"
proof -
  obtain es2 pos2 tr2 where l: "readfd_loop PROC_NUMBUF K fill (drop k fdt) k (k + 2) = (es2, pos2, tr2)"
    by (metis prod_cases3)
  have r: "r = 0" "es = es2" "pos' = pos2"
    "tr = [Acq TaskRef, Acq FilesRef, Acq (RdLock ''rcu'')] @ tr2 @ [Rel FilesRef, Rel TaskRef]"
    using assms(1,4) l by (simp_all add: proc_readfd_common_05_def readfd_common_def)
  note L = readfd_loop_entries [OF l assms(2)]
  have "run_calls [RdLock ''rcu'', FilesRef, TaskRef]
      (concat (replicate n [Rel (RdLock ''rcu''), Acq (RdLock ''rcu'')]) @ [Rel (RdLock ''rcu'')]) = Some [FilesRef, TaskRef]" for n
    by (induction n) simp_all
  then have "run_calls [RdLock ''rcu'', FilesRef, TaskRef] tr2 = Some [FilesRef, TaskRef]" using L by simp
  then have "balanced tr" by (simp add: balanced_def r(4) run_calls_append_Some)
  moreover have "pos' - 2 < length fdt \<Longrightarrow> \<not> fill (pos' - 2) (show_nat (pos' - 2))"
    using L assms(3) r(3) by (simp add: fd_name_05)
  ultimately show ?thesis using L r(1-3) fd_entries_05 [OF assms(3), of K] by simp
qed

theorem readfd_05_complete_witness:
  "\<exists>tr. proc_readfd_common_05 kenv0 (\<lambda>p. (True, 2)) (\<lambda>fd _. fd < 2) (Some (Some [Some (), None, Some ()])) 0
     = (0, [(0, ''0'')], 4, tr) \<and> balanced tr"
proof -
  obtain tr where r: "proc_readfd_common_05 kenv0 (\<lambda>p. (True, 2)) (\<lambda>fd _. fd < 2) (Some (Some [Some (), None, Some ()])) 0
      = (0, [(0, ''0'')], 4, tr)"
    by (simp add: proc_readfd_common_05_def readfd_common_def snprintf_u_def PROC_NUMBUF_def show_nat_zero blit_def)
  from readfd_05_complete [OF _ _ _ r, of 0] show ?thesis using r by simp
qed

text \<open>In \<open>cw04\<close> the names are not written at all: an entry has as many bytes of whatever the array held as the number has digits,
  so that two descriptors with equally many digits are listed under one name.\<close>

theorem readfd_04_names:
  assumes "dots pos = (True, 2)" "length fdt \<le> 4294967280" "\<forall>fd name. fill fd name"
  shows "\<exists>tr. proc_readfd_common_04 K dots fill (Some (Some fdt)) pos =
      (0, map (\<lambda>(fd, name). (fd, map (k_junk K) [0..<length name])) (listing fdt 0), length fdt + 2, tr)"
proof -
  obtain es2 pos2 tr2 where l: "readfd_loop 0 K fill (drop 0 fdt) 0 (0 + 2) = (es2, pos2, tr2)" by (metis prod_cases3)
  note L = readfd_loop_entries [OF l]
  have p: "pos2 = length fdt + 2" using L assms(3) by force
  then have "es2 = fd_entries 0 K fdt 0" using L by (simp add: fd_entries_end)
  also have "\<dots> = map (\<lambda>(fd, name). (fd, map (k_junk K) [0..<length name])) (listing fdt 0)"
    unfolding fd_entries_def map_map
  proof (rule map_cong [OF refl])
    fix fd
    assume "fd \<in> set (filter (\<lambda>fd. fdt ! fd \<noteq> None) [0..<length fdt])"
    then have "length (show_nat fd) \<le> 10" using assms(2) show_nat_length [of fd 10] by simp
    then show "(fd, fd_name 0 K fd) = ((\<lambda>(fd, name). (fd, map (k_junk K) [0..<length name])) \<circ> (\<lambda>fd. (fd, show_nat fd))) fd"
      by (simp add: fd_name_def snprintf_u_def PROC_NUMBUF_def take_map)
  qed
  finally show ?thesis using l p assms(1) by (simp add: proc_readfd_common_04_def readfd_common_def numeral_2_eq_2)
qed

theorem readfd_04_names_witness:
  "\<exists>tr. proc_readfd_common_04 kenv0 (\<lambda>p. (True, 2)) (\<lambda>_ _. True) (Some (Some [Some (), Some ()])) 0
     = (0, [(0, [CHR 0x5A]), (1, [CHR 0x5A])], 4, tr)"
proof -
  obtain tr where "proc_readfd_common_04 kenv0 (\<lambda>p. (True, 2)) (\<lambda>_ _. True) (Some (Some [Some (), Some ()])) 0 =
      (0, map (\<lambda>(fd, name). (fd, map (k_junk kenv0) [0..<length name])) (listing [Some (), Some ()] 0), length [Some (), Some ()] + 2, tr)"
    using readfd_04_names [of "\<lambda>p. (True, 2)" 0 "[Some (), Some ()]" "\<lambda>_ _. True" kenv0] by auto
  then show ?thesis by (simp add: show_nat.simps upt_rec)
qed

lemma make_inode_pid:
  "proc_pid_make_inode (Some i0) True t mode =
     (Some (if task_dumpable t then i0\<lparr>i_mode := mode, i_uid := tk_euid t, i_gid := tk_egid t\<rparr> else i0\<lparr>i_mode := mode\<rparr>),
      [Acq (Mem ''inode''), Acq PidRef] @ (if task_dumpable t then [Acq (RdLock ''rcu''), Rel (RdLock ''rcu'')] else []))"
  by (simp add: proc_pid_make_inode_def)

lemma link_mode_bits:
  "S_ISLNK (fd_link_mode m)"
  "and (fd_link_mode m) S_IRUSR = 0 \<longleftrightarrow> and m FMODE_READ = 0"
  "and (fd_link_mode m) S_IWUSR = 0 \<longleftrightarrow> and m FMODE_WRITE = 0"
  by (simp_all add: fd_link_mode_def S_ISLNK_def mode_defs)

text \<open>C39.  From a name of the listing to the open file: as long as the process lives, looking up any name that is listed succeeds and
  binds an inode that is a symbolic link for that descriptor, readable and writable exactly as the file was opened, owned by the process
  if it is dumpable and by root otherwise; following the link gives the path of the file that is open at the descriptor.\<close>

theorem fd_listed_found:
  assumes files: "tk_files t = Some fdt" "length fdt \<le> 4294967280" and listed: "(fd, name) \<in> set (listing fdt k)"
  shows "\<exists>f cloexec inode tr tr'. fdt ! fd = Some (f, cloexec)
    \<and> proc_lookupfd (Some i0) True (Some t) (Some t) name = (0, Some inode, tr)
    \<and> i_fd inode = fd \<and> S_ISLNK (i_mode inode)
    \<and> (and (i_mode inode) S_IRUSR \<noteq> 0 \<longleftrightarrow> and (f_mode f) FMODE_READ \<noteq> 0)
    \<and> (and (i_mode inode) S_IWUSR \<noteq> 0 \<longleftrightarrow> and (f_mode f) FMODE_WRITE \<noteq> 0)
    \<and> (i_uid inode, i_gid inode) = (if task_dumpable t then (tk_euid t, tk_egid t) else (0, 0))
    \<and> proc_fd_link (Some t) inode = (0, Some (f_path f), tr')"
proof -
  from listed obtain f cloexec where fd: "fd < length fdt" "fdt ! fd = Some (f, cloexec)" and name: "name = show_nat fd" by auto
  have n: "name_to_int name = fd" "fd \<noteq> 4294967295" using fd(1) files(2) by (simp_all add: name name_to_int_show)
  have S: "S_ISLNK S_IFLNK" by (simp add: S_ISLNK_def mode_defs)
  show ?thesis
    using fd n S files(1)
    by (simp add: proc_lookupfd_def proc_lookupfd_common_def proc_fd_instantiate_def fd_instantiate_def make_inode_pid
        tid_fd_revalidate_def fcheck_files_def Let_def proc_fd_link_def link_mode_bits)
qed

definition demo_task :: task where
  "demo_task = \<lparr>tk_files = Some [None, Some (\<lparr>f_mode = 1, f_flags = 0, f_pos = 5, f_path = ''/etc/passwd'', f_mnt_id = 7, f_fdinfo = None\<rparr>, True)],
     tk_mm = Some 1, tk_euid = 1000, tk_egid = 100\<rparr>"

theorem fd_listed_found_witness:
  "\<exists>inode tr. proc_lookupfd (Some \<lparr>i_mode = 0, i_uid = 0, i_gid = 0, i_fd = 0\<rparr>) True (Some demo_task) (Some demo_task) (show_nat 1) = (0, Some inode, tr)
    \<and> i_fd inode = 1 \<and> i_uid inode = 1000 \<and> and (i_mode inode) S_IWUSR = 0"
proof -
  have files: "tk_files demo_task = Some (the (tk_files demo_task))" "length (the (tk_files demo_task)) \<le> 4294967280"
    and listed: "(1, show_nat 1) \<in> set (listing (the (tk_files demo_task)) 0)"
    by (simp_all add: demo_task_def ex_bool_eq)
  from fd_listed_found [OF files listed, of "\<lparr>i_mode = 0, i_uid = 0, i_gid = 0, i_fd = 0\<rparr>"]
  obtain f c inode tr where f: "the (tk_files demo_task) ! 1 = Some (f, c)" and l: "proc_lookupfd
      (Some \<lparr>i_mode = 0, i_uid = 0, i_gid = 0, i_fd = 0\<rparr>) True (Some demo_task) (Some demo_task) (show_nat 1) = (0, Some inode, tr)"
    "i_fd inode = 1" "and (i_mode inode) S_IWUSR \<noteq> 0 \<longleftrightarrow> and (f_mode f) FMODE_WRITE \<noteq> 0"
    "(i_uid inode, i_gid inode) = (if task_dumpable demo_task then (tk_euid demo_task, tk_egid demo_task) else (0, 0))"
    by blast
  have "f_mode f = 1" using f by (auto simp: demo_task_def)
  then have "and (i_mode inode) S_IWUSR = 0" using l(3) by (simp add: FMODE_WRITE_def)
  moreover have "i_uid inode = 1000" using l(4) by (simp add: demo_task_def task_dumpable_def)
  ultimately show ?thesis using l(1,2) by blast
qed

lemma digit_chars:
  "digit_char 0 = CHR ''0''" "digit_char 2 = CHR ''2''" "digit_char 5 = CHR ''5''" "digit_char 7 = CHR ''7''"
  by code_simp+

lemma seq_print_simps [simp]:
  "seq_print room text \<lparr>sq_text = a, sq_full = b\<rparr> =
     (if \<not> b \<and> length a + length text < room then \<lparr>sq_text = a @ text, sq_full = b\<rparr> else \<lparr>sq_text = a, sq_full = True\<rparr>)"
  by (simp add: seq_print_def)

text \<open>The text of \<open>fdinfo\<close>: if all of it fits, the reader gets it all; otherwise the file is marked as overflowed, which makes
  \<open>seq_read\<close> try again with more room; it is never cut off unmarked.  A descriptor that is not open gives an error and no text.\<close>

theorem fdinfo_complete:
  assumes "fd_seq_show room locks (Some t) fd = (r, m, tr)"
  shows "(r = 0 \<longleftrightarrow> (\<exists>fdt f c. tk_files t = Some fdt \<and> fcheck_files fdt fd = Some (f, c))) \<and> (r \<noteq> 0 \<longrightarrow> r = - ENOENT \<and> sq_text m = [])
    \<and> (\<forall>fdt f c. tk_files t = Some fdt \<longrightarrow> fcheck_files fdt fd = Some (f, c) \<longrightarrow>
        (let whole = fdinfo_header f c @ locks f @ (case f_fdinfo f of None \<Rightarrow> [] | Some info \<Rightarrow> info) in
          sq_full m = (room \<le> length whole) \<and> (\<not> sq_full m \<longrightarrow> sq_text m = whole)))"
proof (cases "tk_files t")
  case None
  then show ?thesis using assms by (auto simp: fd_seq_show_def ENOENT_def)
next
  case (Some fdt)
  show ?thesis
  proof (cases "fcheck_files fdt fd")
    case None
    then show ?thesis using assms Some by (auto simp: fd_seq_show_def ENOENT_def)
  next
    case (Some e)
    obtain f c where e: "e = (f, c)" by fastforce
    define h where "h = fdinfo_header f c"
    show ?thesis using assms Some \<open>tk_files t = Some fdt\<close>
      by (cases "length h < room"; cases "length h + length (locks f) < room"; cases "f_fdinfo f")
        (simp_all add: fd_seq_show_def e Let_def flip: h_def, auto split: if_splits)
  qed
qed

theorem fdinfo_complete_witness:
  "fd_seq_show 4096 (\<lambda>_. []) (Some demo_task) 1 =
     (0, \<lparr>sq_text = ''pos:'' @ [CHR 0x09] @ ''5'' @ [CHR 0x0A] @ ''flags:'' @ [CHR 0x09] @ ''02000000'' @ [CHR 0x0A] @
        ''mnt_id:'' @ [CHR 0x09] @ ''7'' @ [CHR 0x0A], sq_full = False\<rparr>,
      [Acq TaskRef, Acq FilesRef, Rel TaskRef, Acq (Lock ''file_lock''), Acq FileRef, Rel (Lock ''file_lock''), Rel FilesRef, Rel FileRef])
   \<and> (\<exists>m tr. fd_seq_show 10 (\<lambda>_. []) (Some demo_task) 1 = (0, m, tr) \<and> sq_full m)"
proof
  show "fd_seq_show 4096 (\<lambda>_. []) (Some demo_task) 1 =
     (0, \<lparr>sq_text = ''pos:'' @ [CHR 0x09] @ ''5'' @ [CHR 0x0A] @ ''flags:'' @ [CHR 0x09] @ ''02000000'' @ [CHR 0x0A] @
        ''mnt_id:'' @ [CHR 0x09] @ ''7'' @ [CHR 0x0A], sq_full = False\<rparr>,
      [Acq TaskRef, Acq FilesRef, Rel TaskRef, Acq (Lock ''file_lock''), Acq FileRef, Rel (Lock ''file_lock''), Rel FilesRef, Rel FileRef])"
    by (simp add: fd_seq_show_def demo_task_def fcheck_files_def fdinfo_header_def O_CLOEXEC_def show_oct.simps show_nat.simps
        show_int_def digit_chars Let_def)
  obtain r m tr where s: "fd_seq_show 10 (\<lambda>_. []) (Some demo_task) 1 = (r, m, tr)" by (metis prod_cases3)
  from fdinfo_complete [OF s] s show "\<exists>m tr. fd_seq_show 10 (\<lambda>_. []) (Some demo_task) 1 = (0, m, tr) \<and> sq_full m"
    by (simp add: demo_task_def fcheck_files_def fdinfo_header_def Let_def ex_bool_eq)
qed

text \<open>Every operation on descriptors gives back the locks and references it took; what remains is what it hands over: the number of the
  process and the memory of an inode it bound, the two references on a path it returned.\<close>

theorem fd_ops_balanced:
  "balanced (snd (snd (fd_seq_show room locks tsk fd))) \<and> balanced (snd (snd (tid_fd_revalidate rcu tsk inode)))
    \<and> balanced (snd (proc_fd_permission generic grp))
    \<and> (\<forall>r path tr. proc_fd_link tsk inode = (r, path, tr) \<longrightarrow>
        run_calls [] tr = Some (if r = 0 then [DentryRef, MntRef] else []) \<and> (path \<noteq> None \<longleftrightarrow> r = 0))
    \<and> (\<forall>r bound tr. proc_lookupfd i0 pid_ok live tsk name = (r, bound, tr) \<or> proc_lookupfdinfo i0 pid_ok live tsk name = (r, bound, tr) \<longrightarrow>
        run_calls [] tr = Some (if bound = None then [] else [PidRef, Mem ''inode'']) \<and> (bound = None \<longrightarrow> r = - ENOENT))"
proof (intro conjI)
  show "balanced (snd (snd (fd_seq_show room locks tsk fd)))"
    by (auto simp: fd_seq_show_def balanced_def Let_def split: option.split)
  show "balanced (snd (snd (tid_fd_revalidate rcu tsk inode)))"
    by (auto simp: tid_fd_revalidate_def balanced_def Let_def split: option.split)
  show "balanced (snd (proc_fd_permission generic grp))"
    by (simp add: proc_fd_permission_def balanced_def)
  show "\<forall>r path tr. proc_fd_link tsk inode = (r, path, tr) \<longrightarrow>
        run_calls [] tr = Some (if r = 0 then [DentryRef, MntRef] else []) \<and> (path \<noteq> None \<longleftrightarrow> r = 0)"
    by (auto simp: proc_fd_link_def ENOENT_def split: option.split)
  have rev: "run_calls [PidRef, Mem ''inode'', TaskRef] (snd (snd (tid_fd_revalidate False live ino))) = Some [PidRef, Mem ''inode'', TaskRef]" for ino
    by (auto simp: tid_fd_revalidate_def Let_def split: option.split)
  have inst: "run_calls [TaskRef] tr = Some (if bound = None then [TaskRef] else [PidRef, Mem ''inode'', TaskRef]) \<and> (bound = None \<longrightarrow> r = - ENOENT)"
    if "fd_instantiate mode i0 pid_ok live t n = (r, bound, tr)" for mode t n r bound tr
  proof (cases i0)
    case None
    then show ?thesis using that by (auto simp: fd_instantiate_def proc_pid_make_inode_def)
  next
    case (Some a)
    show ?thesis
    proof (cases pid_ok)
      case False
      then show ?thesis using that Some by (auto simp: fd_instantiate_def proc_pid_make_inode_def)
    next
      case True
      define ino where "ino = (if task_dumpable t then a\<lparr>i_mode := mode, i_uid := tk_euid t, i_gid := tk_egid t\<rparr> else a\<lparr>i_mode := mode\<rparr>)"
      obtain v ino' tr' where v: "tid_fd_revalidate False live (ino\<lparr>i_fd := n\<rparr>) = (v, ino', tr')" by (metis prod_cases3)
      then have "run_calls [PidRef, Mem ''inode'', TaskRef] tr' = Some [PidRef, Mem ''inode'', TaskRef]" using rev by (metis snd_conv)
      then show ?thesis using that v by (auto simp: fd_instantiate_def Some True make_inode_pid simp flip: ino_def)
    qed
  qed
  show "\<forall>r bound tr. proc_lookupfd i0 pid_ok live tsk name = (r, bound, tr) \<or> proc_lookupfdinfo i0 pid_ok live tsk name = (r, bound, tr) \<longrightarrow>
        run_calls [] tr = Some (if bound = None then [] else [PidRef, Mem ''inode'']) \<and> (bound = None \<longrightarrow> r = - ENOENT)"
    using inst by (fastforce simp: proc_lookupfd_def proc_lookupfdinfo_def proc_lookupfd_common_def proc_fd_instantiate_def
        proc_fdinfo_instantiate_def Let_def run_calls_append split: option.splits prod.splits if_splits)
qed

end
