(* ===== verification/NameTree.thy ===== *)
theory NameTree imports Prelude "HOL-Library.Tree" begin

text \<open>
  Search trees of named entries, as \<open>fs/proc\<close> uses them twice: the entries of a directory of \<open>/proc\<close>
  (\<open>pde_subdir_find\<close>, \<open>pde_subdir_insert\<close> in \<open>generic.c\<close>, ordered by \<open>proc_match\<close>: the length first) and those of a
  directory of \<open>/proc/sys\<close> (\<open>find_entry\<close>, \<open>insert_entry\<close> in \<open>proc_sysctl.c\<close>, ordered by \<open>namecmp\<close>:
  dictionary order).  The locale \<open>name_order\<close> holds what both orders promise and what follows for search and insertion; it is
  interpreted for both.  The library \<open>lib/rbtree.c\<close>, which is not in the repository, is two parameters:
  \<open>rb_insert_color\<close> and \<open>rb_erase\<close>, with what its documentation says they do to the sequence of entries.
\<close>

section \<open>Comparing names\<close>

text \<open>Only the sign of the result is used.\<close>

fun memcmp :: "string \<Rightarrow> string \<Rightarrow> nat \<Rightarrow> int" where
  "memcmp (a # as) (b # bs) (Suc n) = (if a = b then memcmp as bs n else int (of_char a) - int (of_char b))"
| "memcmp _ _ _ = 0"

definition proc_match :: "string \<Rightarrow> string \<Rightarrow> int" where
  "proc_match name de_name =
     (if length name < length de_name then - 1 else if length name > length de_name then 1 else memcmp name de_name (length name))"

definition namecmp :: "string \<Rightarrow> string \<Rightarrow> int" where
  "namecmp name1 name2 =
     (let minlen = (if length name1 > length name2 then length name2 else length name1);
          cmp = memcmp name1 name2 minlen
      in if cmp = 0 then int (length name1) - int (length name2) else cmp)"

section \<open>Search and insertion\<close>

text \<open>The loops of the four functions, with the comparison and the name of an entry as arguments; the result of \<open>rb_link\<close> is \<open>None\<close>
  if there is an entry of this name already.\<close>

fun rb_find :: "(string \<Rightarrow> string \<Rightarrow> int) \<Rightarrow> ('a \<Rightarrow> string) \<Rightarrow> string \<Rightarrow> 'a tree \<Rightarrow> 'a option" where
  "rb_find cmp key name Leaf = None"
| "rb_find cmp key name (Node l x r) =
     (let result = cmp name (key x) in
      if result < 0 then rb_find cmp key name l else if result > 0 then rb_find cmp key name r else Some x)"

fun rb_link :: "(string \<Rightarrow> string \<Rightarrow> int) \<Rightarrow> ('a \<Rightarrow> string) \<Rightarrow> 'a \<Rightarrow> 'a tree \<Rightarrow> 'a tree option" where
  "rb_link cmp key y Leaf = Some (Node Leaf y Leaf)"
| "rb_link cmp key y (Node l x r) =
     (let result = cmp (key y) (key x) in
      if result < 0 then map_option (\<lambda>l'. Node l' x r) (rb_link cmp key y l)
      else if result > 0 then map_option (Node l x) (rb_link cmp key y r) else None)"

text \<open>What \<open>rb_insert_color\<close> and \<open>rb_erase\<close> do: the first rotates and recolours, the second takes one entry out.\<close>

record 'a rb_lib =
  insert_color :: "'a tree \<Rightarrow> 'a tree"
  erase :: "'a \<Rightarrow> 'a tree \<Rightarrow> 'a tree"

definition rb_lib_ok :: "'a rb_lib \<Rightarrow> bool" where
  "rb_lib_ok L \<longleftrightarrow> (\<forall>t. inorder (insert_color L t) = inorder t) \<and>
     (\<forall>x t. x \<in> set (inorder t) \<longrightarrow> inorder (erase L x t) = remove1 x (inorder t))"

definition rb_insert :: "'a rb_lib \<Rightarrow> (string \<Rightarrow> string \<Rightarrow> int) \<Rightarrow> ('a \<Rightarrow> string) \<Rightarrow> 'a \<Rightarrow> 'a tree \<Rightarrow> 'a tree option" where
  "rb_insert L cmp key y t = map_option (insert_color L) (rb_link cmp key y t)"

text \<open>A tree of entries is in order if their names are; the directory it stands for maps names to entries.\<close>

definition names_sorted :: "(string \<Rightarrow> string \<Rightarrow> int) \<Rightarrow> ('a \<Rightarrow> string) \<Rightarrow> 'a list \<Rightarrow> bool" where
  "names_sorted cmp key xs \<longleftrightarrow> sorted_wrt (\<lambda>x y. cmp (key x) (key y) < 0) xs"

definition dir_map :: "('a \<Rightarrow> string) \<Rightarrow> 'a tree \<Rightarrow> string \<rightharpoonup> 'a" where
  "dir_map key t = map_of (map (\<lambda>x. (key x, x)) (inorder t))"

section \<open>What an order of names promises\<close>

locale name_order =
  fixes cmp :: "string \<Rightarrow> string \<Rightarrow> int"
  assumes cmp_eq: "cmp a b = 0 \<longleftrightarrow> a = b"
    and cmp_swap: "cmp a b < 0 \<longleftrightarrow> 0 < cmp b a"
    and cmp_trans: "cmp a b < 0 \<Longrightarrow> cmp b c < 0 \<Longrightarrow> cmp a c < 0"
begin

lemma sorted_distinct: "names_sorted cmp key xs \<Longrightarrow> distinct (map key xs)"
proof (induction xs)
  case (Cons x xs)
  have "key x \<noteq> key y" if "y \<in> set xs" for y
    using Cons.prems that cmp_eq [of "key x" "key y"] by (auto simp: names_sorted_def)
  then show ?case using Cons by (auto simp: names_sorted_def)
qed simp

lemma sorted_parts: "names_sorted cmp key (xs @ x # ys) \<longleftrightarrow> names_sorted cmp key xs \<and> names_sorted cmp key ys
    \<and> (\<forall>y \<in> set xs. cmp (key y) (key x) < 0) \<and> (\<forall>y \<in> set ys. cmp (key x) (key y) < 0) \<and> (\<forall>y \<in> set xs. \<forall>z \<in> set ys. cmp (key y) (key z) < 0)"
  by (auto simp: names_sorted_def sorted_wrt_append)

lemma cmp_irrefl: "\<not> cmp a a < 0"
  using cmp_eq [of a a] by simp

lemma smaller_absent:
  assumes "\<forall>y \<in> set xs. cmp (key x) (key y) < 0" "cmp name (key x) < 0"
  shows "name \<notin> key ` set xs"
proof
  assume "name \<in> key ` set xs"
  then obtain y where "y \<in> set xs" "name = key y" by blast
  then have "cmp name name < 0" using assms cmp_trans [of name "key x" name] by simp
  then show False using cmp_irrefl by blast
qed

lemma greater_absent:
  assumes "\<forall>y \<in> set xs. cmp (key y) (key x) < 0" "0 < cmp name (key x)"
  shows "name \<notin> key ` set xs"
proof
  assume "name \<in> key ` set xs"
  then obtain y where "y \<in> set xs" "name = key y" by blast
  then have "cmp name name < 0" using assms cmp_trans [of name "key x" name] cmp_swap [of "key x" name] by simp
  then show False using cmp_irrefl by blast
qed

lemma self_absent: "\<forall>y \<in> set xs. cmp (key y) (key x) < 0 \<Longrightarrow> key x \<notin> key ` set xs"
  using cmp_irrefl by (metis image_iff)

lemma key_absent: "name \<notin> key ` set xs \<Longrightarrow> map_of (map (\<lambda>x. (key x, x)) xs) name = None"
  by (auto simp: map_of_eq_None_iff image_image)

text \<open>Search finds exactly what the directory holds.\<close>

lemma find_map: "names_sorted cmp key (inorder t) \<Longrightarrow> rb_find cmp key name t = dir_map key t name"
proof (induction t)
  case (Node l x r)
  have p: "names_sorted cmp key (inorder l)" "names_sorted cmp key (inorder r)" "\<forall>y \<in> set (inorder l). cmp (key y) (key x) < 0"
    "\<forall>y \<in> set (inorder r). cmp (key x) (key y) < 0"
    using Node.prems by (simp_all add: sorted_parts)
  note IH = Node.IH(1) [OF p(1)] Node.IH(2) [OF p(2)]
  have d: "dir_map key (Node l x r) = (map_of (map (\<lambda>x. (key x, x)) (inorder r)) ++ [key x \<mapsto> x]) ++ map_of (map (\<lambda>x. (key x, x)) (inorder l))"
    by (simp add: dir_map_def map_add_assoc)
  consider "cmp name (key x) < 0" | "0 < cmp name (key x)" | "name = key x" using cmp_eq [of name "key x"] by linarith
  then show ?case
  proof cases
    case 1
    then have "map_of (map (\<lambda>x. (key x, x)) (inorder r)) name = None" "name \<noteq> key x"
      using key_absent [OF smaller_absent [OF p(4)]] cmp_eq [of name "key x"] by auto
    then show ?thesis using 1 IH(1) by (simp add: d Let_def dir_map_def map_add_def split: option.split)
  next
    case 2
    then have "map_of (map (\<lambda>x. (key x, x)) (inorder l)) name = None" "name \<noteq> key x"
      using key_absent [OF greater_absent [OF p(3)]] cmp_eq [of name "key x"] by auto
    then show ?thesis using 2 IH(2) by (simp add: d Let_def dir_map_def map_add_def)
  next
    case 3
    have "key x \<notin> key ` set (inorder l)" by (rule self_absent [OF p(3)])
    then have "map_of (map (\<lambda>x. (key x, x)) (inorder l)) name = None" unfolding 3 by (rule key_absent)
    moreover have "cmp (key x) (key x) = 0" by (simp add: cmp_eq)
    ultimately show ?thesis unfolding 3 by (simp add: d Let_def map_add_def)
  qed
qed (simp add: dir_map_def)

text \<open>Insertion refuses a name that is there, and otherwise adds one entry to a sequence that stays in order.\<close>

lemma link_inorder:
  "names_sorted cmp key (inorder t) \<Longrightarrow>
     (case rb_link cmp key y t of
        None \<Rightarrow> key y \<in> key ` set (inorder t)
      | Some t' \<Rightarrow> key y \<notin> key ` set (inorder t) \<and> (\<exists>xs ys. inorder t = xs @ ys \<and> inorder t' = xs @ y # ys)
          \<and> names_sorted cmp key (inorder t'))"
proof (induction t)
  case Leaf
  then show ?case by (simp add: names_sorted_def)
next
  case (Node l x r)
  have p: "names_sorted cmp key (inorder l)" "names_sorted cmp key (inorder r)" "\<forall>y \<in> set (inorder l). cmp (key y) (key x) < 0"
    "\<forall>y \<in> set (inorder r). cmp (key x) (key y) < 0" "\<forall>y \<in> set (inorder l). \<forall>z \<in> set (inorder r). cmp (key y) (key z) < 0"
    using Node.prems by (simp_all add: sorted_parts)
  consider (less) "cmp (key y) (key x) < 0" | (greater) "0 < cmp (key y) (key x)" | (same) "key y = key x"
    using cmp_eq [of "key y" "key x"] by linarith
  then show ?case
  proof cases
    case less
    have ne: "key y \<noteq> key x" "key y \<notin> key ` set (inorder r)" using less smaller_absent [OF p(4)] cmp_eq [of "key y" "key x"] by auto
    show ?thesis
    proof (cases "rb_link cmp key y l")
      case None
      then show ?thesis using less Node.IH(1) [OF p(1)] by (auto simp: Let_def)
    next
      case (Some l')
      then obtain xs ys where l': "key y \<notin> key ` set (inorder l)" "inorder l = xs @ ys" "inorder l' = xs @ y # ys" "names_sorted cmp key (inorder l')"
        using Node.IH(1) [OF p(1)] unfolding Some option.case by blast
      have "set (inorder l') = insert y (set (inorder l))" using l' by auto
      moreover have "\<forall>z \<in> set (inorder r). cmp (key y) (key z) < 0" using p(4) less cmp_trans by blast
      ultimately have "names_sorted cmp key (inorder (Node l' x r))" using p less l'(4) by (auto simp: sorted_parts)
      moreover have "inorder (Node l x r) = xs @ (ys @ x # inorder r)" "inorder (Node l' x r) = xs @ y # (ys @ x # inorder r)"
        using l' by simp_all
      moreover have "key y \<notin> key ` set (inorder (Node l x r))" using ne l'(1) by auto
      ultimately show ?thesis using less Some by (auto simp: Let_def)
    qed
  next
    case greater
    have ne: "key y \<noteq> key x" "key y \<notin> key ` set (inorder l)" using greater greater_absent [OF p(3)] cmp_eq [of "key y" "key x"] by auto
    show ?thesis
    proof (cases "rb_link cmp key y r")
      case None
      then show ?thesis using greater Node.IH(2) [OF p(2)] by (auto simp: Let_def)
    next
      case (Some r')
      then obtain xs ys where r': "key y \<notin> key ` set (inorder r)" "inorder r = xs @ ys" "inorder r' = xs @ y # ys" "names_sorted cmp key (inorder r')"
        using Node.IH(2) [OF p(2)] unfolding Some option.case by blast
      have "set (inorder r') = insert y (set (inorder r))" using r' by auto
      moreover have "cmp (key x) (key y) < 0" using greater cmp_swap by blast
      moreover from this have "\<forall>z \<in> set (inorder l). cmp (key z) (key y) < 0" using p(3) cmp_trans by blast
      ultimately have "names_sorted cmp key (inorder (Node l x r'))" using p r'(4) by (auto simp: sorted_parts)
      moreover have "inorder (Node l x r) = (inorder l @ x # xs) @ ys" "inorder (Node l x r') = (inorder l @ x # xs) @ y # ys"
        using r' by simp_all
      moreover have "key y \<notin> key ` set (inorder (Node l x r))" using ne r'(1) by auto
      ultimately show ?thesis using greater Some by (simp add: Let_def) (rule exI [of _ "inorder l @ x # xs"], rule exI [of _ ys], simp)
    qed
  next
    case same
    then show ?thesis using cmp_eq [of "key x" "key x"] by (simp add: Let_def)
  qed
qed

lemma dir_map_set: "names_sorted cmp key (inorder t) \<Longrightarrow> dir_map key t name = Some x \<longleftrightarrow> x \<in> set (inorder t) \<and> key x = name"
  using sorted_distinct [of key "inorder t"] by (auto simp: dir_map_def o_def)

text \<open>The effect of insertion and removal on the directory.\<close>

lemma insert_map:
  assumes lib: "rb_lib_ok L" and sorted: "names_sorted cmp key (inorder t)"
  shows "case rb_insert L cmp key y t of
      None \<Rightarrow> dir_map key t (key y) \<noteq> None
    | Some t' \<Rightarrow> dir_map key t (key y) = None \<and> dir_map key t' = (dir_map key t)(key y \<mapsto> y)
        \<and> names_sorted cmp key (inorder t') \<and> set (inorder t') = insert y (set (inorder t))"
proof (cases "rb_link cmp key y t")
  case None
  then have "key y \<in> key ` set (inorder t)" using link_inorder [OF sorted, of y] by simp
  then have "dir_map key t (key y) \<noteq> None" by (auto simp: dir_map_def map_of_eq_None_iff image_image)
  then show ?thesis by (simp add: rb_insert_def None)
next
  case (Some t')
  then obtain xs ys where t': "key y \<notin> key ` set (inorder t)" "inorder t = xs @ ys" "inorder t' = xs @ y # ys" "names_sorted cmp key (inorder t')"
    using link_inorder [OF sorted, of y] unfolding Some option.case by blast
  have i: "inorder (insert_color L t') = xs @ y # ys" using lib t'(3) by (simp add: rb_lib_ok_def)
  have s': "names_sorted cmp key (inorder (insert_color L t'))" using t'(3,4) i by simp
  have ne: "z \<in> set xs \<Longrightarrow> key z \<noteq> key y" "z \<in> set ys \<Longrightarrow> key z \<noteq> key y" for z
    using t'(1) unfolding t'(2) set_append by (metis UnI1 image_eqI) (metis UnI2 image_eqI t'(1,2) set_append)
  have n: "dir_map key t (key y) = None" unfolding dir_map_def by (rule key_absent [OF t'(1)])
  have "dir_map key (insert_color L t') = (dir_map key t)(key y \<mapsto> y)"
  proof
    fix name
    have "dir_map key (insert_color L t') name = Some x \<longleftrightarrow> ((dir_map key t)(key y \<mapsto> y)) name = Some x" for x
      using dir_map_set [OF s', of name x] dir_map_set [OF sorted, of name x] unfolding i t'(2) by (auto dest: ne)
    then show "dir_map key (insert_color L t') name = ((dir_map key t)(key y \<mapsto> y)) name" by (metis option.exhaust)
  qed
  then show ?thesis using n s' by (simp add: rb_insert_def Some i t'(2))
qed

lemma erase_map:
  assumes lib: "rb_lib_ok L" and sorted: "names_sorted cmp key (inorder t)" and x: "x \<in> set (inorder t)"
  shows "dir_map key (erase L x t) = (dir_map key t)(key x := None) \<and> names_sorted cmp key (inorder (erase L x t))
    \<and> set (inorder (erase L x t)) = set (inorder t) - {x} \<and> distinct (inorder (erase L x t))"
proof -
  have i: "inorder (erase L x t) = remove1 x (inorder t)" using lib x by (simp add: rb_lib_ok_def)
  have dk: "distinct (map key (inorder t))" by (rule sorted_distinct [OF sorted])
  then have d: "distinct (inorder t)" by (simp add: distinct_map)
  obtain xs ys where t: "inorder t = xs @ x # ys" "x \<notin> set xs" using x by (metis split_list_first)
  have r: "inorder (erase L x t) = xs @ ys" unfolding i t(1) using t(2) by (simp add: remove1_append)
  have s': "names_sorted cmp key (inorder (erase L x t))" using sorted unfolding r t(1) by (auto simp: names_sorted_def sorted_wrt_append)
  have ne: "z \<in> set xs \<Longrightarrow> key z \<noteq> key x" "z \<in> set ys \<Longrightarrow> key z \<noteq> key x" for z
    using dk unfolding t(1) by (simp_all, metis image_eqI, metis image_eqI)
  have "dir_map key (erase L x t) = (dir_map key t)(key x := None)"
  proof
    fix name
    have "dir_map key (erase L x t) name = Some y \<longleftrightarrow> ((dir_map key t)(key x := None)) name = Some y" for y
      using dir_map_set [OF s', of name y] dir_map_set [OF sorted, of name y] unfolding r t(1) by (auto dest: ne)
    then show "dir_map key (erase L x t) name = ((dir_map key t)(key x := None)) name" by (metis option.exhaust)
  qed
  moreover have "set (inorder (erase L x t)) = set (inorder t) - {x}" "distinct (inorder (erase L x t))"
    using d unfolding r t(1) by auto
  ultimately show ?thesis using s' by blast
qed

end

section \<open>The two orders\<close>

lemma memcmp_eq: "length a = n \<Longrightarrow> length b = n \<Longrightarrow> memcmp a b n = 0 \<longleftrightarrow> a = b"
  by (induction a b n rule: memcmp.induct) auto

lemma memcmp_swap: "length a = n \<Longrightarrow> length b = n \<Longrightarrow> memcmp b a n = - memcmp a b n"
  by (induction a b n rule: memcmp.induct) auto

lemma memcmp_trans:
  "length a = n \<Longrightarrow> length b = n \<Longrightarrow> length c = n \<Longrightarrow> memcmp a b n < 0 \<Longrightarrow> memcmp b c n < 0 \<Longrightarrow> memcmp a c n < 0"
proof (induction a b n arbitrary: c rule: memcmp.induct)
  case (1 a as b bs n)
  then obtain d ds where c: "c = d # ds" by (cases c) auto
  consider "a = b" "b = d" | "a = b" "b \<noteq> d" | "a \<noteq> b" "b = d" | "a \<noteq> b" "b \<noteq> d" by blast
  then show ?case
  proof cases
    case 1
    then show ?thesis using "1.IH" [of ds] "1.prems" by (simp add: c)
  next
    case 4
    then have "(of_char a :: nat) < of_char b" "(of_char b :: nat) < of_char d" using "1.prems"(4,5) by (simp_all add: c)
    then have "(of_char a :: nat) < of_char d" by linarith
    moreover from this have "a \<noteq> d" by blast
    ultimately show ?thesis by (simp add: c)
  qed (use "1.prems" in \<open>simp_all add: c\<close>)
qed simp_all

lemma proc_match_order:
  "proc_match a b = 0 \<longleftrightarrow> a = b" "proc_match a b < 0 \<longleftrightarrow> 0 < proc_match b a"
  "proc_match a b < 0 \<Longrightarrow> proc_match b c < 0 \<Longrightarrow> proc_match a c < 0"
  using memcmp_eq [of a "length a" b] memcmp_swap [of a "length a" b] memcmp_trans [of a "length a" b c]
  by (auto simp: proc_match_def split: if_splits)

interpretation pm: name_order proc_match
  by unfold_locales (rule proc_match_order; assumption?)+

text \<open>\<open>namecmp\<close> is the dictionary order.\<close>

fun dict_less :: "string \<Rightarrow> string \<Rightarrow> bool" where
  "dict_less [] bs = (bs \<noteq> [])"
| "dict_less (a # as) [] = False"
| "dict_less (a # as) (b # bs) = ((of_char a :: nat) < of_char b \<or> a = b \<and> dict_less as bs)"

lemma namecmp_Cons:
  "namecmp (a # as) (b # bs) = (if a = b then namecmp as bs else int (of_char a) - int (of_char b))"
  by (auto simp: namecmp_def Let_def)

lemma namecmp_Nil: "namecmp [] bs = - int (length bs)" "namecmp as [] = int (length as)"
  by (auto simp: namecmp_def Let_def)

lemma namecmp_dict: "namecmp a b < 0 \<longleftrightarrow> dict_less a b"
  by (induction a b rule: dict_less.induct) (auto simp: namecmp_Cons namecmp_Nil)

lemma namecmp_order:
  "namecmp a b = 0 \<longleftrightarrow> a = b" "namecmp a b < 0 \<longleftrightarrow> 0 < namecmp b a"
  by (induction a b rule: dict_less.induct) (auto simp: namecmp_Cons namecmp_Nil)

lemma dict_less_trans: "dict_less a b \<Longrightarrow> dict_less b c \<Longrightarrow> dict_less a c"
proof (induction a b arbitrary: c rule: dict_less.induct)
  case (1 bs)
  then show ?case by (cases c; cases bs) auto
next
  case (3 a as b bs)
  then show ?case by (cases c) auto
qed simp

interpretation nc: name_order namecmp
  by unfold_locales (rule namecmp_order, rule namecmp_order, simp add: namecmp_dict, rule dict_less_trans)

text \<open>A library of trees that are lists, for the instances of the theorems.\<close>

definition spine :: "'a list \<Rightarrow> 'a tree" where
  "spine xs = foldr (\<lambda>x t. Node Leaf x t) xs Leaf"

definition list_rb :: "'a rb_lib" where
  "list_rb = \<lparr>insert_color = (\<lambda>t. t), erase = (\<lambda>x t. spine (remove1 x (inorder t)))\<rparr>"

lemma spine_simps [simp]: "spine [] = Leaf" "spine (x # xs) = Node Leaf x (spine xs)" "inorder (spine xs) = xs"
proof -
  show "spine [] = Leaf" "spine (x # xs) = Node Leaf x (spine xs)" by (simp_all add: spine_def)
  show "inorder (spine xs) = xs" by (induction xs) (simp_all add: spine_def)
qed

lemma list_rb_ok: "rb_lib_ok list_rb"
  by (simp add: rb_lib_ok_def list_rb_def)

end
