(* ===== verification/ProcTree.thy ===== *)
theory ProcTree imports ProcFd NameTree begin

text \<open>
  The tree of \<open>/proc\<close> (\<open>fs/proc/generic.c\<close>): the entries that modules create with \<open>proc_create\<close>, \<open>proc_mkdir\<close>,
  \<open>proc_symlink\<close> and take out with \<open>remove_proc_entry\<close> and \<open>remove_proc_subtree\<close>, looked up by name and listed by
  \<open>readdir\<close>.  Entries are objects in a store, numbered by their addresses; every directory holds the search tree of its entries
  (theory \<open>NameTree\<close>).  Parameters are the memory allocator, the allocator of inode numbers (\<open>ida\<close>) and the balancing of the trees.
  The lock \<open>proc_subdir_lock\<close> makes creation, look-up and removal atomic;
  listings and the removal of a subtree, which let it go in between, are those of an undisturbed run.  Waiting for the users of an entry that is removed is the
  theory \<open>ProcEntry\<close> and changes nothing here.  Shown: every operation keeps the tree well-formed; what it does to the map from
  directories and names to entries; paths are looked up name by name; listings lose nothing.
\<close>

section \<open>Entries and the store\<close>

datatype pdata = NoData | LinkTo string | Data nat

record pde_entry =
  e_name :: string
  e_mode :: "16 word"
  e_nlink :: "32 word"
  e_uid :: int
  e_gid :: int
  e_size :: int
  e_low_ino :: nat
  e_parent :: nat
  e_subdir :: "nat tree"
  e_data :: pdata
  e_count :: nat
  e_iops :: bool   \<comment> \<open>whether \<open>proc_iops\<close> is set\<close>
  e_fops :: bool

text \<open>The store, and the numbers that \<open>proc_inum_ida\<close> has handed out.\<close>

record proc_fs =
  pdes :: "nat \<rightharpoonup> pde_entry"
  inums :: "nat list"

definition proc_root :: nat where "proc_root = 0"

abbreviation ent :: "proc_fs \<Rightarrow> nat \<Rightarrow> pde_entry" where
  "ent s i \<equiv> the (pdes s i)"

definition upd_pde :: "nat \<Rightarrow> (pde_entry \<Rightarrow> pde_entry) \<Rightarrow> proc_fs \<Rightarrow> proc_fs" where
  "upd_pde i f s = s\<lparr>pdes := (pdes s)(i := map_option f (pdes s i))\<rparr>"

definition S_IFDIR :: "16 word" where "S_IFDIR = 16384"
definition S_IRUGO :: "16 word" where "S_IRUGO = 292"
definition S_IXUGO :: "16 word" where "S_IXUGO = 73"
definition S_IALLUGO :: "16 word" where "S_IALLUGO = 4095"
definition S_ISDIR :: "16 word \<Rightarrow> bool" where "S_ISDIR mode \<longleftrightarrow> and mode S_IFMT = S_IFDIR"
definition S_ISREG :: "16 word \<Rightarrow> bool" where "S_ISREG mode \<longleftrightarrow> and mode S_IFMT = S_IFREG"

definition is_empty_pde :: "pde_entry \<Rightarrow> bool" where
  "is_empty_pde e \<longleftrightarrow> S_ISDIR (e_mode e) \<and> \<not> e_iops e"

definition EEXIST :: int where "EEXIST = 17"
definition ENOSPC :: int where "ENOSPC = 28"

section \<open>Names and paths\<close>

definition pde_subdir_find :: "proc_fs \<Rightarrow> nat \<Rightarrow> string \<Rightarrow> nat option" where
  "pde_subdir_find s dir name = rb_find proc_match (\<lambda>i. e_name (ent s i)) name (e_subdir (ent s dir))"

text \<open>\<open>__xlate_proc_name\<close>: the part up to the next slash is looked up, until none is left; the results are the directory and the last
  part.\<close>

function xlate_proc_name :: "proc_fs \<Rightarrow> nat \<Rightarrow> string \<Rightarrow> (nat \<times> string) option" where
  "xlate_proc_name s de cp =
     (case dropWhile (\<lambda>c. c \<noteq> CHR ''/'') cp of
        [] \<Rightarrow> Some (de, cp)
      | _ # rest \<Rightarrow>
          (case pde_subdir_find s de (takeWhile (\<lambda>c. c \<noteq> CHR ''/'') cp) of
             None \<Rightarrow> None
           | Some de' \<Rightarrow> xlate_proc_name s de' rest))"
  by pat_completeness auto
termination
proof (relation "measure (\<lambda>(s, de, cp). length cp)")
  fix s :: proc_fs and de de' :: nat and cp rest :: string and c
  assume "dropWhile (\<lambda>c. c \<noteq> CHR ''/'') cp = c # rest"
  then have "length (c # rest) \<le> length cp" by (metis length_dropWhile_le)
  then show "((s, de', rest), (s, de, cp)) \<in> measure (\<lambda>(s, de, cp). length cp)" by simp
qed simp

declare xlate_proc_name.simps [simp del]

section \<open>Inode numbers\<close>

text \<open>\<open>proc_alloc_inum\<close>; each round of its loop gets what \<open>ida_pre_get\<close> and \<open>ida_get_new\<close> return.\<close>

fun proc_alloc_inum :: "(bool \<times> (int + nat)) list \<Rightarrow> nat list \<Rightarrow> fault + int \<times> nat \<times> nat list" where
  "proc_alloc_inum [] ids = Inl NonTerminating"
| "proc_alloc_inum ((pre, got) # rounds) ids =
     (if \<not> pre then Inr (- ENOMEM, 0, ids)
      else case got of
        Inl e \<Rightarrow> if e = - EAGAIN then proc_alloc_inum rounds ids else Inr (e, 0, ids)
      | Inr i \<Rightarrow>
          if i > 268435455 then Inr (- ENOSPC, 0, ids)
          else Inr (0, 4026531840 + i, i # ids))"

definition proc_free_inum :: "nat \<Rightarrow> proc_fs \<Rightarrow> proc_fs" where
  "proc_free_inum inum s = s\<lparr>inums := remove1 (inum - 4026531840) (inums s)\<rparr>"

section \<open>Creating entries\<close>

text \<open>What the environment of a creation does: the rounds of the \<open>ida\<close>, the addresses that \<open>kzalloc\<close> and \<open>kmalloc\<close>
  return, the balancing of the trees.\<close>

record create_env =
  c_ida :: "(bool \<times> (int + nat)) list"
  c_pde :: "nat option"
  c_data :: bool
  c_rb :: "nat rb_lib"

text \<open>\<open>proc_register\<close>; the result is zero or the error.\<close>

definition proc_register :: "create_env \<Rightarrow> nat \<Rightarrow> nat \<Rightarrow> proc_fs \<Rightarrow> fault + int \<times> proc_fs" where
  "proc_register C dir dp s =
     (case proc_alloc_inum (c_ida C) (inums s) of
        Inl e \<Rightarrow> Inl e
      | Inr (ret, inum, ids) \<Rightarrow>
          if ret \<noteq> 0 then Inr (ret, s)
          else let s = upd_pde dp (\<lambda>e. e\<lparr>e_low_ino := inum, e_parent := dir\<rparr>) (s\<lparr>inums := ids\<rparr>) in
            (case rb_insert (c_rb C) proc_match (\<lambda>i. e_name (ent s i)) dp (e_subdir (ent s dir)) of
               None \<Rightarrow> Inr (- EEXIST, proc_free_inum inum s)
             | Some t \<Rightarrow> Inr (0, upd_pde dir (\<lambda>e. e\<lparr>e_subdir := t\<rparr>) s)))"

text \<open>\<open>__proc_create\<close>: the parent directory and the new entry, which is not registered yet.\<close>

definition proc_create0 :: "create_env \<Rightarrow> nat \<Rightarrow> string \<Rightarrow> 16 word \<Rightarrow> 32 word \<Rightarrow> proc_fs \<Rightarrow> (nat \<times> nat \<times> proc_fs) option" where
  "proc_create0 C parent name mode nlink s =
     (case xlate_proc_name s parent name of
        None \<Rightarrow> None
      | Some (dir, fn) \<Rightarrow>
          if length fn = 0 \<or> length fn \<ge> 256 then None
          else if dir = proc_root \<and> name_to_int fn \<noteq> 4294967295 then None
          else if is_empty_pde (ent s dir) then None
          else (case c_pde C of
             None \<Rightarrow> None
           | Some i \<Rightarrow> Some (dir, i, s\<lparr>pdes := (pdes s)(i \<mapsto>
               \<lparr>e_name = fn, e_mode = mode, e_nlink = nlink, e_uid = e_uid (ent s dir), e_gid = e_gid (ent s dir), e_size = 0,
                e_low_ino = 0, e_parent = 0, e_subdir = Leaf, e_data = NoData, e_count = 1, e_iops = False, e_fops = False\<rparr>)\<rparr>)))"

definition kfree_pde :: "nat \<Rightarrow> proc_fs \<Rightarrow> proc_fs" where
  "kfree_pde i s = s\<lparr>pdes := (pdes s)(i := None)\<rparr>"

definition proc_symlink :: "create_env \<Rightarrow> string \<Rightarrow> nat \<Rightarrow> string \<Rightarrow> proc_fs \<Rightarrow> fault + nat option \<times> proc_fs" where
  "proc_symlink C name parent dest s =
     (case proc_create0 C parent name (or S_IFLNK 511) 1 s of
        None \<Rightarrow> Inr (None, s)
      | Some (dir, i, s) \<Rightarrow>
          if \<not> c_data C then Inr (None, kfree_pde i s)
          else (case proc_register C dir i (upd_pde i (\<lambda>e. e\<lparr>e_size := int (length dest), e_data := LinkTo dest, e_iops := True\<rparr>) s) of
             Inl e \<Rightarrow> Inl e
           | Inr (ret, s) \<Rightarrow> if ret < 0 then Inr (None, kfree_pde i s) else Inr (Some i, s)))"

definition proc_mkdir_data :: "create_env \<Rightarrow> string \<Rightarrow> 16 word \<Rightarrow> nat \<Rightarrow> pdata \<Rightarrow> proc_fs \<Rightarrow> fault + nat option \<times> proc_fs" where
  "proc_mkdir_data C name mode parent data s =
     (case proc_create0 C parent name (or S_IFDIR (if mode = 0 then or S_IRUGO S_IXUGO else mode)) 2 s of
        None \<Rightarrow> Inr (None, s)
      | Some (dir, i, s) \<Rightarrow>
          (case proc_register C dir i (upd_pde dir (\<lambda>e. e\<lparr>e_nlink := e_nlink e + 1\<rparr>)
              (upd_pde i (\<lambda>e. e\<lparr>e_data := data, e_fops := True, e_iops := True\<rparr>) s)) of
             Inl e \<Rightarrow> Inl e
           | Inr (ret, s) \<Rightarrow>
               if ret < 0 then Inr (None, upd_pde dir (\<lambda>e. e\<lparr>e_nlink := e_nlink e - 1\<rparr>) (kfree_pde i s)) else Inr (Some i, s)))"

definition proc_mkdir_mode :: "create_env \<Rightarrow> string \<Rightarrow> 16 word \<Rightarrow> nat \<Rightarrow> proc_fs \<Rightarrow> fault + nat option \<times> proc_fs" where
  "proc_mkdir_mode C name mode parent = proc_mkdir_data C name mode parent NoData"

definition proc_mkdir :: "create_env \<Rightarrow> string \<Rightarrow> nat \<Rightarrow> proc_fs \<Rightarrow> fault + nat option \<times> proc_fs" where
  "proc_mkdir C name parent = proc_mkdir_data C name 0 parent NoData"

definition proc_create_mount_point :: "create_env \<Rightarrow> string \<Rightarrow> proc_fs \<Rightarrow> fault + nat option \<times> proc_fs" where
  "proc_create_mount_point C name s =
     (case proc_create0 C proc_root name (or S_IFDIR (or S_IRUGO S_IXUGO)) 2 s of
        None \<Rightarrow> Inr (None, s)
      | Some (dir, i, s) \<Rightarrow>
          (case proc_register C dir i s of
             Inl e \<Rightarrow> Inl e
           | Inr (ret, s) \<Rightarrow>
               if ret < 0 then Inr (None, upd_pde dir (\<lambda>e. e\<lparr>e_nlink := e_nlink e - 1\<rparr>) (kfree_pde i s)) else Inr (Some i, s)))"

text \<open>\<open>fops\<close>: whether the caller gives file operations.\<close>

definition proc_create_data :: "create_env \<Rightarrow> string \<Rightarrow> 16 word \<Rightarrow> nat \<Rightarrow> bool \<Rightarrow> pdata \<Rightarrow> proc_fs \<Rightarrow> fault + nat option \<times> proc_fs" where
  "proc_create_data C name mode0 parent fops data s =
     (let mode1 = (if and mode0 S_IFMT = 0 then or mode0 S_IFREG else mode0) in
      if \<not> S_ISREG mode1 then Inr (None, s)
      else if \<not> fops then Inl BugOn
      else let mode = (if and mode1 S_IALLUGO = 0 then or mode1 S_IRUGO else mode1) in
        (case proc_create0 C parent name mode 1 s of
           None \<Rightarrow> Inr (None, s)
         | Some (dir, i, s) \<Rightarrow>
             (case proc_register C dir i (upd_pde i (\<lambda>e. e\<lparr>e_fops := fops, e_data := data, e_iops := True\<rparr>) s) of
                Inl e \<Rightarrow> Inl e
              | Inr (ret, s) \<Rightarrow> if ret < 0 then Inr (None, kfree_pde i s) else Inr (Some i, s))))"

section \<open>Removing entries\<close>

definition pde_get :: "nat \<Rightarrow> proc_fs \<Rightarrow> proc_fs" where
  "pde_get i = upd_pde i (\<lambda>e. e\<lparr>e_count := e_count e + 1\<rparr>)"

definition free_proc_entry :: "nat \<Rightarrow> proc_fs \<Rightarrow> proc_fs" where
  "free_proc_entry i s = kfree_pde i (proc_free_inum (e_low_ino (ent s i)) s)"

definition pde_put :: "nat \<Rightarrow> proc_fs \<Rightarrow> proc_fs" where
  "pde_put i s =
     (let s = upd_pde i (\<lambda>e. e\<lparr>e_count := e_count e - 1\<rparr>) s in
      if e_count (ent s i) = 0 then free_proc_entry i s else s)"

text \<open>The part after \<open>proc_entry_rundown\<close> that both removals have: the parent's and the entry's own links.\<close>

definition unlink_counts :: "nat \<Rightarrow> nat \<Rightarrow> proc_fs \<Rightarrow> proc_fs" where
  "unlink_counts parent i s =
     upd_pde i (\<lambda>e. e\<lparr>e_nlink := 0\<rparr>)
       (if S_ISDIR (e_mode (ent s i)) then upd_pde parent (\<lambda>e. e\<lparr>e_nlink := e_nlink e - 1\<rparr>) s else s)"

definition rb_erase_from :: "nat rb_lib \<Rightarrow> nat \<Rightarrow> nat \<Rightarrow> proc_fs \<Rightarrow> proc_fs" where
  "rb_erase_from L parent i s = upd_pde parent (\<lambda>e. e\<lparr>e_subdir := erase L i (e_subdir e)\<rparr>) s"

text \<open>The result says whether an entry was removed; otherwise the code prints a warning.\<close>

definition remove_proc_entry :: "nat rb_lib \<Rightarrow> string \<Rightarrow> nat \<Rightarrow> proc_fs \<Rightarrow> bool \<times> proc_fs" where
  "remove_proc_entry L name parent s =
     (case xlate_proc_name s parent name of
        None \<Rightarrow> (False, s)
      | Some (dir, fn) \<Rightarrow>
          (case pde_subdir_find s dir fn of
             None \<Rightarrow> (False, s)
           | Some i \<Rightarrow> (True, pde_put i (unlink_counts dir i (rb_erase_from L dir i s)))))"

text \<open>The loop of \<open>remove_proc_subtree\<close> at the entry \<open>de\<close>: down to the first entry below, which is taken out, or, when
  there is none, up to the parent.\<close>

fun remove_subtree_loop :: "nat rb_lib \<Rightarrow> nat \<Rightarrow> nat \<Rightarrow> nat \<Rightarrow> proc_fs \<Rightarrow> fault + proc_fs" where
  "remove_subtree_loop L root 0 de s = Inl NonTerminating"
| "remove_subtree_loop L root (Suc fuel) de s =
     (case inorder (e_subdir (ent s de)) of
        next # _ \<Rightarrow> remove_subtree_loop L root fuel next (rb_erase_from L de next s)
      | [] \<Rightarrow>
          let parent = e_parent (ent s de); s = unlink_counts parent de s in
          if de = root then Inr s else remove_subtree_loop L root fuel parent (pde_put de s))"

definition remove_proc_subtree :: "nat \<Rightarrow> nat rb_lib \<Rightarrow> string \<Rightarrow> nat \<Rightarrow> proc_fs \<Rightarrow> fault + int \<times> proc_fs" where
  "remove_proc_subtree fuel L name parent s =
     (case xlate_proc_name s parent name of
        None \<Rightarrow> Inr (- ENOENT, s)
      | Some (dir, fn) \<Rightarrow>
          (case pde_subdir_find s dir fn of
             None \<Rightarrow> Inr (- ENOENT, s)
           | Some root \<Rightarrow>
               (case remove_subtree_loop L root fuel root (rb_erase_from L dir root s) of
                  Inl e \<Rightarrow> Inl e
                | Inr s \<Rightarrow> Inr (0, pde_put root s))))"

definition proc_remove :: "nat \<Rightarrow> nat rb_lib \<Rightarrow> nat option \<Rightarrow> proc_fs \<Rightarrow> fault + proc_fs" where
  "proc_remove fuel L de s =
     (case de of
        None \<Rightarrow> Inr s
      | Some i \<Rightarrow> (case remove_proc_subtree fuel L (e_name (ent s i)) (e_parent (ent s i)) s of Inl e \<Rightarrow> Inl e | Inr (_, s) \<Rightarrow> Inr s))"

section \<open>Attributes\<close>

definition proc_set_size :: "nat \<Rightarrow> int \<Rightarrow> proc_fs \<Rightarrow> proc_fs" where
  "proc_set_size de n = upd_pde de (\<lambda>e. e\<lparr>e_size := n\<rparr>)"

definition proc_set_user :: "nat \<Rightarrow> int \<Rightarrow> int \<Rightarrow> proc_fs \<Rightarrow> proc_fs" where
  "proc_set_user de uid gid = upd_pde de (\<lambda>e. e\<lparr>e_uid := uid, e_gid := gid\<rparr>)"

text \<open>\<open>proc_notify_change\<close>; \<open>prepare\<close> is the result of \<open>setattr_prepare\<close>, the other arguments are the attributes of the inode
  after \<open>setattr_copy\<close>.\<close>

definition proc_notify_change :: "int \<Rightarrow> int \<Rightarrow> int \<Rightarrow> 16 word \<Rightarrow> nat \<Rightarrow> proc_fs \<Rightarrow> int \<times> proc_fs" where
  "proc_notify_change prepare uid gid mode de s =
     (if prepare \<noteq> 0 then (prepare, s) else (0, upd_pde de (\<lambda>e. e\<lparr>e_mode := mode\<rparr>) (proc_set_user de uid gid s)))"

text \<open>The links that \<open>proc_getattr\<close> reports for an inode that has \<open>n\<close>.\<close>

definition proc_getattr :: "nat option \<Rightarrow> 32 word \<Rightarrow> proc_fs \<Rightarrow> 32 word" where
  "proc_getattr de n s = (case de of None \<Rightarrow> n | Some i \<Rightarrow> if e_nlink (ent s i) \<noteq> 0 then e_nlink (ent s i) else n)"

section \<open>Looking up and listing\<close>

text \<open>\<open>proc_lookup_de\<close>: the result and, if an inode was made, the entry it stands for, on which it holds a reference.\<close>

definition proc_lookup_de :: "bool \<Rightarrow> nat \<Rightarrow> string \<Rightarrow> proc_fs \<Rightarrow> int \<times> nat option \<times> proc_fs" where
  "proc_lookup_de inode_ok dir name s =
     (case pde_subdir_find s dir name of
        None \<Rightarrow> (- ENOENT, None, s)
      | Some de \<Rightarrow>
          let s = pde_get de s in
          if \<not> inode_ok then (- ENOMEM, None, pde_put de s) else (0, Some de, s))"

text \<open>\<open>proc_readdir_de\<close>: the first loop goes to the entry of the position, an \<open>int\<close> that a position of 64 bits was stored to;
  the second gives the entries from there on; \<open>emit\<close> is \<open>dir_emit\<close>.  The results are the return value, the entries given and the
  position.\<close>

fun readdir_skip :: "int \<Rightarrow> nat list \<Rightarrow> nat list option" where
  "readdir_skip i [] = None"
| "readdir_skip i (de # des) = (if i = 0 then Some (de # des) else readdir_skip (i - 1) des)"

fun readdir_loop ::
  "(nat \<Rightarrow> bool) \<Rightarrow> nat list \<Rightarrow> nat \<Rightarrow> proc_fs \<Rightarrow> int \<times> (string \<times> nat \<times> 16 word) list \<times> nat \<times> proc_fs" where
  "readdir_loop emit [] pos s = (1, [], pos, s)"
| "readdir_loop emit (de # des) pos s =
     (let s = pde_get de s in
      if \<not> emit de then (0, [], pos, pde_put de s)
      else case readdir_loop emit des (pos + 1) (pde_put de s) of (r, out, pos', s') \<Rightarrow>
        (r, (e_name (ent s de), e_low_ino (ent s de), drop_bit 12 (e_mode (ent s de))) # out, pos', s'))"

definition proc_readdir_de ::
  "(nat \<Rightarrow> bool \<times> nat) \<Rightarrow> (nat \<Rightarrow> bool) \<Rightarrow> nat \<Rightarrow> nat \<Rightarrow> proc_fs \<Rightarrow> int \<times> (string \<times> nat \<times> 16 word) list \<times> nat \<times> proc_fs" where
  "proc_readdir_de dots emit dir pos s =
     (case dots pos of (ok, pos1) \<Rightarrow>
        if \<not> ok then (0, [], pos1, s)
        else case readdir_skip (s32 (int pos1 - 2)) (inorder (e_subdir (ent s dir))) of
          None \<Rightarrow> (0, [], pos1, s)
        | Some des \<Rightarrow> readdir_loop emit des pos1 s)"

section \<open>Well-formed trees\<close>

abbreviation name_of :: "proc_fs \<Rightarrow> nat \<Rightarrow> string" where
  "name_of s i \<equiv> e_name (ent s i)"

text \<open>What a directory holds: names to entries.\<close>

definition look :: "proc_fs \<Rightarrow> nat \<Rightarrow> string \<rightharpoonup> nat" where
  "look s d = (case pdes s d of None \<Rightarrow> Map.empty | Some e \<Rightarrow> dir_map (name_of s) (e_subdir e))"

definition good_name :: "string \<Rightarrow> bool" where
  "good_name n \<longleftrightarrow> n \<noteq> [] \<and> length n < 256 \<and> CHR ''/'' \<notin> set n"

definition dir_ok :: "proc_fs \<Rightarrow> nat \<Rightarrow> pde_entry \<Rightarrow> bool" where
  "dir_ok s d e \<longleftrightarrow> names_sorted proc_match (name_of s) (inorder (e_subdir e)) \<and>
     (\<forall>c \<in> set (inorder (e_subdir e)). \<exists>ec. pdes s c = Some ec \<and> e_parent ec = d \<and> c \<noteq> proc_root \<and> good_name (e_name ec))"

definition inum_ok :: "proc_fs \<Rightarrow> bool" where
  "inum_ok s \<longleftrightarrow> distinct (inums s)
     \<and> (\<forall>i e. pdes s i = Some e \<and> i \<noteq> proc_root \<longrightarrow> 4026531840 \<le> e_low_ino e \<and> e_low_ino e - 4026531840 \<in> set (inums s))
     \<and> (\<forall>i j ei ej. pdes s i = Some ei \<and> pdes s j = Some ej \<and> i \<noteq> j \<and> i \<noteq> proc_root \<and> j \<noteq> proc_root \<longrightarrow> e_low_ino ei \<noteq> e_low_ino ej)"

definition tree_ok :: "proc_fs \<Rightarrow> bool" where
  "tree_ok s \<longleftrightarrow> pdes s proc_root \<noteq> None \<and> (\<forall>d e. pdes s d = Some e \<longrightarrow> dir_ok s d e \<and> 0 < e_count e) \<and> inum_ok s"

text \<open>Trees depend only on the names of their elements.\<close>

lemma key_cong:
  assumes "\<And>x. x \<in> set (inorder t) \<Longrightarrow> key x = key' x"
  shows "rb_find cmp key name t = rb_find cmp key' name t"
    and "key y = key' y \<Longrightarrow> rb_link cmp key y t = rb_link cmp key' y t"
    and "names_sorted cmp key (inorder t) = names_sorted cmp key' (inorder t)"
    and "dir_map key t = dir_map key' t"
proof -
  show "rb_find cmp key name t = rb_find cmp key' name t" using assms by (induction t) (auto simp: Let_def)
  show "key y = key' y \<Longrightarrow> rb_link cmp key y t = rb_link cmp key' y t" using assms by (induction t) (auto simp: Let_def)
  show "names_sorted cmp key (inorder t) = names_sorted cmp key' (inorder t)"
    unfolding names_sorted_def
    by (rule iffI; rule sorted_wrt_mono_rel [rotated], assumption) (use assms in simp_all)
  have "map (\<lambda>x. (key x, x)) (inorder t) = map (\<lambda>x. (key' x, x)) (inorder t)" using assms by simp
  then show "dir_map key t = dir_map key' t" by (simp only: dir_map_def)
qed

lemma tree_okD:
  assumes "tree_ok s" "pdes s d = Some e"
  shows "names_sorted proc_match (name_of s) (inorder (e_subdir e))" "0 < e_count e"
    and "\<And>c. c \<in> set (inorder (e_subdir e)) \<Longrightarrow> \<exists>ec. pdes s c = Some ec \<and> e_parent ec = d \<and> c \<noteq> proc_root \<and> good_name (e_name ec)"
  using assms by (auto simp: tree_ok_def dir_ok_def)

lemma find_look: "tree_ok s \<Longrightarrow> pdes s d = Some e \<Longrightarrow> pde_subdir_find s d name = look s d name"
  using pm.find_map [OF tree_okD(1)] by (simp add: pde_subdir_find_def look_def)

lemma look_Some:
  assumes "tree_ok s"
  shows "look s d name = Some c \<longleftrightarrow> (\<exists>e. pdes s d = Some e \<and> c \<in> set (inorder (e_subdir e)) \<and> name_of s c = name)"
  using pm.dir_map_set [OF tree_okD(1) [OF assms]] by (auto simp: look_def split: option.split)

lemma look_live: "tree_ok s \<Longrightarrow> look s d name = Some c \<Longrightarrow> \<exists>ec. pdes s c = Some ec \<and> e_parent ec = d \<and> c \<noteq> proc_root \<and> e_name ec = name \<and> good_name name"
  using tree_okD(3) [of s d] by (fastforce simp: look_Some)

text \<open>Paths are looked up name by name.\<close>

fun walk :: "(nat \<Rightarrow> string \<rightharpoonup> nat) \<Rightarrow> nat \<Rightarrow> string list \<Rightarrow> nat option" where
  "walk lk d [] = Some d"
| "walk lk d (n # ns) = (case lk d n of None \<Rightarrow> None | Some d' \<Rightarrow> walk lk d' ns)"

lemma xlate_step:
  "CHR ''/'' \<notin> set n \<Longrightarrow> xlate_proc_name s d (n @ CHR ''/'' # rest) =
     (case pde_subdir_find s d n of None \<Rightarrow> None | Some d' \<Rightarrow> xlate_proc_name s d' rest)"
proof -
  assume n: "CHR ''/'' \<notin> set n"
  then have "takeWhile (\<lambda>c. c \<noteq> CHR ''/'') (n @ CHR ''/'' # rest) = n" "dropWhile (\<lambda>c. c \<noteq> CHR ''/'') (n @ CHR ''/'' # rest) = CHR ''/'' # rest"
    by (subst takeWhile_append2 dropWhile_append2; auto)+
  then show ?thesis by (subst xlate_proc_name.simps) simp
qed

lemma xlate_last: "CHR ''/'' \<notin> set fn \<Longrightarrow> xlate_proc_name s d fn = Some (d, fn)"
proof -
  assume "CHR ''/'' \<notin> set fn"
  then have f: "dropWhile (\<lambda>c. c \<noteq> CHR ''/'') fn = []" by (auto simp: dropWhile_eq_Nil_conv)
  show ?thesis by (simp only: xlate_proc_name.simps [of s d fn] f list.case)
qed

lemma xlate_live:
  "tree_ok s \<Longrightarrow> pdes s d \<noteq> None \<Longrightarrow> xlate_proc_name s d cp = Some (d', fn) \<Longrightarrow> pdes s d' \<noteq> None \<and> CHR ''/'' \<notin> set fn"
proof (induction s d cp rule: xlate_proc_name.induct)
  case (1 s de cp)
  show ?case
  proof (cases "dropWhile (\<lambda>c. c \<noteq> CHR ''/'') cp")
    case Nil
    then have "xlate_proc_name s de cp = Some (de, cp)" by (simp only: xlate_proc_name.simps [of s de cp] list.case)
    moreover have "CHR ''/'' \<notin> set cp" using Nil by (auto simp: dropWhile_eq_Nil_conv)
    ultimately show ?thesis using "1.prems" by simp
  next
    case (Cons c rest)
    then obtain de' where f: "pde_subdir_find s de (takeWhile (\<lambda>c. c \<noteq> CHR ''/'') cp) = Some de'" "xlate_proc_name s de' rest = Some (d', fn)"
      using "1.prems"(3) unfolding xlate_proc_name.simps [of s de cp] Cons list.case
      by (cases "pde_subdir_find s de (takeWhile (\<lambda>c. c \<noteq> CHR ''/'') cp)") simp_all
    obtain e where "pdes s de = Some e" using "1.prems"(2) by blast
    then have "look s de (takeWhile (\<lambda>c. c \<noteq> CHR ''/'') cp) = Some de'" using f(1) find_look "1.prems"(1) by simp
    then have "pdes s de' \<noteq> None" using look_live "1.prems"(1) by fastforce
    then show ?thesis using "1.IH" [OF Cons f(1)] "1.prems"(1) f(2) by blast
  qed
qed

text \<open>A path is looked up name by name, each in the directory the last one led to.\<close>

theorem xlate_walk:
  assumes "tree_ok s" "pdes s d \<noteq> None" "\<forall>n \<in> set (fn # ns). CHR ''/'' \<notin> set n"
  shows "xlate_proc_name s d (concat (map (\<lambda>n. n @ ''/'') ns) @ fn) = map_option (\<lambda>d'. (d', fn)) (walk (look s) d ns)"
  using assms(2,3)
proof (induction ns arbitrary: d)
  case Nil
  then show ?case by (simp add: xlate_last)
next
  case (Cons n ns)
  obtain e where e: "pdes s d = Some e" using Cons.prems(1) by blast
  show ?case
  proof (cases "look s d n")
    case None
    then show ?thesis using Cons.prems find_look [OF assms(1) e] by (simp add: xlate_step)
  next
    case (Some d')
    then have "pdes s d' \<noteq> None" using look_live [OF assms(1)] by fastforce
    then show ?thesis using Cons.prems Cons.IH [of d'] find_look [OF assms(1) e] Some by (simp add: xlate_step)
  qed
qed

section \<open>Creation\<close>

text \<open>Documented behaviour of the allocators: \<open>kzalloc\<close> returns memory that is not in use; \<open>ida_get_new\<close> returns a
  number that is not in use or a negative error, and \<open>-EAGAIN\<close> not for ever.\<close>

definition env_ok :: "create_env \<Rightarrow> proc_fs \<Rightarrow> bool" where
  "env_ok C s \<longleftrightarrow> rb_lib_ok (c_rb C) \<and> (\<forall>i. c_pde C = Some i \<longrightarrow> pdes s i = None)
     \<and> (\<forall>(pre, got) \<in> set (c_ida C). (\<forall>k. got = Inr k \<longrightarrow> k \<notin> set (inums s)) \<and> (\<forall>e. got = Inl e \<longrightarrow> e < 0))
     \<and> (\<exists>(pre, got) \<in> set (c_ida C). pre \<longrightarrow> got \<noteq> Inl (- EAGAIN))"

lemma alloc_inum_result:
  assumes "\<forall>(pre, got) \<in> set rounds. (\<forall>k. got = Inr k \<longrightarrow> k \<notin> set ids) \<and> (\<forall>e. got = Inl e \<longrightarrow> e < 0)"
    and "\<exists>(pre, got) \<in> set rounds. pre \<longrightarrow> got \<noteq> Inl (- EAGAIN)"
  shows "\<exists>ret inum ids'. proc_alloc_inum rounds ids = Inr (ret, inum, ids') \<and>
    (ret < 0 \<and> ids' = ids \<or> ret = 0 \<and> (\<exists>k. k \<notin> set ids \<and> inum = 4026531840 + k \<and> ids' = k # ids))"
  using assms
proof (induction rounds ids rule: proc_alloc_inum.induct)
  case (2 pre got rounds ids)
  show ?case
  proof (cases "pre \<and> got = Inl (- EAGAIN)")
    case True
    then show ?thesis using "2.IH" "2.prems" by auto
  next
    case False
    then show ?thesis using "2.prems"(1) by (cases got) (auto simp: ENOMEM_def ENOSPC_def)
  qed
qed simp

definition fresh_pde :: "pde_entry \<Rightarrow> string \<Rightarrow> 16 word \<Rightarrow> 32 word \<Rightarrow> pde_entry" where
  "fresh_pde ed fn mode nlink =
     \<lparr>e_name = fn, e_mode = mode, e_nlink = nlink, e_uid = e_uid ed, e_gid = e_gid ed, e_size = 0,
      e_low_ino = 0, e_parent = 0, e_subdir = Leaf, e_data = NoData, e_count = 1, e_iops = False, e_fops = False\<rparr>"

lemma create0_cases:
  assumes "tree_ok s" "pdes s parent \<noteq> None" "env_ok C s"
  obtains "proc_create0 C parent name mode nlink s = None"
  | dir fn i ed where "proc_create0 C parent name mode nlink s = Some (dir, i, s\<lparr>pdes := (pdes s)(i \<mapsto> fresh_pde ed fn mode nlink)\<rparr>)"
      "xlate_proc_name s parent name = Some (dir, fn)" "good_name fn" "pdes s dir = Some ed" "pdes s i = None" "\<not> is_empty_pde ed"
      "dir = proc_root \<Longrightarrow> name_to_int fn = 4294967295"
proof (cases "proc_create0 C parent name mode nlink s")
  case None
  then show ?thesis using that(1) by simp
next
  case (Some x)
  then obtain dir fn i where x: "xlate_proc_name s parent name = Some (dir, fn)" "c_pde C = Some i" "fn \<noteq> []" "length fn < 256"
      "\<not> is_empty_pde (ent s dir)" "\<not> (dir = proc_root \<and> name_to_int fn \<noteq> 4294967295)"
    by (auto simp: proc_create0_def split: option.splits if_splits)
  have d: "pdes s dir \<noteq> None" "CHR ''/'' \<notin> set fn" using xlate_live [OF assms(1,2) x(1)] by auto
  then obtain ed where ed: "pdes s dir = Some ed" by blast
  have i: "pdes s i = None" using assms(3) x(2) by (simp add: env_ok_def)
  show ?thesis
    by (rule that(2) [of dir i ed fn]) (use x d ed i in \<open>auto simp: proc_create0_def fresh_pde_def good_name_def\<close>)
qed

text \<open>Registration of a new entry \<open>e\<close> at the address \<open>i\<close> in a directory whose link count the caller may have changed.\<close>

lemma register_result:
  fixes n :: "32 word"
  assumes ok: "tree_ok s" and env: "env_ok C s" and dir: "pdes s dir = Some ed" and i: "pdes s i = None"
    and e: "e_subdir e = Leaf" "good_name (e_name e)" "e_count e = 1"
  defines "s1 \<equiv> s\<lparr>pdes := (pdes s)(dir \<mapsto> ed\<lparr>e_nlink := n\<rparr>, i \<mapsto> e)\<rparr>"
  shows "\<exists>ret s2. proc_register C dir i s1 = Inr (ret, s2) \<and>
    (ret < 0 \<and> kfree_pde i s2 = s\<lparr>pdes := (pdes s)(dir \<mapsto> ed\<lparr>e_nlink := n\<rparr>)\<rparr>
     \<or> ret = 0 \<and> tree_ok s2 \<and> look s dir (e_name e) = None \<and> look s2 = (look s)(dir := (look s dir)(e_name e \<mapsto> i))
       \<and> (\<exists>t k. s2 = \<lparr>pdes = (pdes s)(dir \<mapsto> ed\<lparr>e_nlink := n, e_subdir := t\<rparr>,
              i \<mapsto> e\<lparr>e_low_ino := 4026531840 + k, e_parent := dir\<rparr>), inums = k # inums s\<rparr>
            \<and> set (inorder t) = insert i (set (inorder (e_subdir ed)))))"
proof -
  have di: "dir \<noteq> i" using dir i by auto
  obtain ret inum ids where a: "proc_alloc_inum (c_ida C) (inums s) = Inr (ret, inum, ids)"
    "ret < 0 \<and> ids = inums s \<or> ret = 0 \<and> (\<exists>k. k \<notin> set (inums s) \<and> inum = 4026531840 + k \<and> ids = k # inums s)"
    using alloc_inum_result [of "c_ida C" "inums s"] env by (auto simp: env_ok_def)
  have in1: "inums s1 = inums s" "pdes s1 dir = Some (ed\<lparr>e_nlink := n\<rparr>)" "pdes s1 i = Some e" using di by (simp_all add: s1_def)
  show ?thesis
  proof (cases "ret = 0")
    case False
    then have "proc_register C dir i s1 = Inr (ret, s1)" "ret < 0" using a in1 by (auto simp: proc_register_def)
    moreover have "kfree_pde i s1 = s\<lparr>pdes := (pdes s)(dir \<mapsto> ed\<lparr>e_nlink := n\<rparr>)\<rparr>"
      using i di by (auto simp: kfree_pde_def s1_def fun_eq_iff)
    ultimately show ?thesis by blast
  next
    case True
    then obtain k where k: "k \<notin> set (inums s)" "inum = 4026531840 + k" "ids = k # inums s" using a(2) by auto
    define e' where "e' = e\<lparr>e_low_ino := inum, e_parent := dir\<rparr>"
    define s2 where "s2 = \<lparr>pdes = (pdes s)(dir \<mapsto> ed\<lparr>e_nlink := n\<rparr>, i \<mapsto> e'), inums = k # inums s\<rparr>"
    have s2: "upd_pde i (\<lambda>e. e\<lparr>e_low_ino := inum, e_parent := dir\<rparr>) (s1\<lparr>inums := ids\<rparr>) = s2"
      by (simp add: upd_pde_def s1_def s2_def e'_def k(3))
    define key where "key = (name_of s)(i := e_name e)"
    have names: "name_of s2 = key" using di dir by (auto simp: key_def s2_def e'_def fun_eq_iff)
    have child: "i \<notin> set (inorder (e_subdir x))" if "pdes s d = Some x" for d x
      using tree_okD(3) [OF ok that, of i] i by auto
    have key: "key c = name_of s c" if "c \<in> set (inorder (e_subdir x))" "pdes s d = Some x" for c d x
      using child [OF that(2)] that(1) by (auto simp: key_def)
    have sd: "names_sorted proc_match key (inorder (e_subdir ed))" "dir_map key (e_subdir ed) = look s dir"
      using key_cong(3,4) [of "e_subdir ed" key "name_of s"] key [OF _ dir] tree_okD(1) [OF ok dir] dir by (simp_all add: look_def)
    have lib: "rb_lib_ok (c_rb C)" using env by (simp add: env_ok_def)
    have sub: "e_subdir (ent s2 dir) = e_subdir ed" using di by (simp add: s2_def)
    have reg: "proc_register C dir i s1 = (case rb_insert (c_rb C) proc_match key i (e_subdir ed) of
        None \<Rightarrow> Inr (- EEXIST, proc_free_inum inum s2)
      | Some t \<Rightarrow> Inr (0, upd_pde dir (\<lambda>e. e\<lparr>e_subdir := t\<rparr>) s2))"
      unfolding proc_register_def in1(1) a(1) sum.case prod.case Let_def s2 names sub using True by simp
    have keyi: "key i = e_name e" by (simp add: key_def)
    note I = pm.insert_map [OF lib sd(1), of i]
    show ?thesis
    proof (cases "rb_insert (c_rb C) proc_match key i (e_subdir ed)")
      case None
      have "kfree_pde i (proc_free_inum inum s2) = s\<lparr>pdes := (pdes s)(dir \<mapsto> ed\<lparr>e_nlink := n\<rparr>)\<rparr>"
        using i di by (auto simp: kfree_pde_def proc_free_inum_def s2_def k(2) fun_eq_iff)
      then show ?thesis using reg None by (simp add: EEXIST_def)
    next
      case (Some t)
      have t: "look s dir (e_name e) = None" "dir_map key t = (look s dir)(e_name e \<mapsto> i)" "names_sorted proc_match key (inorder t)"
        "set (inorder t) = insert i (set (inorder (e_subdir ed)))"
        using I unfolding Some option.case sd(2) keyi by blast+
      define s3 where "s3 = \<lparr>pdes = (pdes s)(dir \<mapsto> ed\<lparr>e_nlink := n, e_subdir := t\<rparr>, i \<mapsto> e'), inums = k # inums s\<rparr>"
      have s3: "upd_pde dir (\<lambda>e. e\<lparr>e_subdir := t\<rparr>) s2 = s3" using di by (auto simp: upd_pde_def s2_def s3_def fun_eq_iff)
      have n3: "name_of s3 = key" using di dir by (auto simp: key_def s3_def e'_def fun_eq_iff)
      have kids: "\<exists>ec. pdes s3 c = Some ec \<and> e_parent ec = d \<and> c \<noteq> proc_root \<and> good_name (e_name ec)"
        if "pdes s d = Some x" "c \<in> set (inorder (e_subdir x))" for c d x
        using tree_okD(3) [OF ok that(1,2)] child [OF that(1)] that(2) dir by (auto simp: s3_def)
      have iroot: "i \<noteq> proc_root" using ok i by (auto simp: tree_ok_def)
      have dk: "dir_ok s3 d x \<and> 0 < e_count x" if x: "pdes s3 d = Some x" for d x
      proof -
        consider "d = i" "x = e'" | "d = dir" "x = ed\<lparr>e_nlink := n, e_subdir := t\<rparr>" | "d \<noteq> i" "d \<noteq> dir" "pdes s d = Some x"
          using x di by (auto simp: s3_def split: if_splits)
        then show ?thesis
        proof cases
          case 1
          then show ?thesis using e by (simp add: dir_ok_def e'_def names_sorted_def)
        next
          case 2
          have "\<exists>ec. pdes s3 c = Some ec \<and> e_parent ec = dir \<and> c \<noteq> proc_root \<and> good_name (e_name ec)" if "c \<in> set (inorder t)" for c
          proof (cases "c = i")
            case True
            then show ?thesis using e(2) iroot by (simp add: s3_def e'_def)
          next
            case False
            then show ?thesis using that kids [OF dir] unfolding t(4) by blast
          qed
          then show ?thesis using t(3) tree_okD(2) [OF ok dir] by (simp add: dir_ok_def 2 n3)
        next
          case 3
          have "names_sorted proc_match key (inorder (e_subdir x))"
            using key_cong(3) [of "e_subdir x" key "name_of s"] key [OF _ 3(3)] tree_okD(1) [OF ok 3(3)] by simp
          then show ?thesis using kids [OF 3(3)] tree_okD(2) [OF ok 3(3)] by (simp add: dir_ok_def n3)
        qed
      qed
      have "inum_ok s3"
        using ok k(1) dir i di unfolding tree_ok_def inum_ok_def
        by (auto simp: s3_def e'_def k(2) split: if_splits) (metis add_diff_cancel_left')+
      then have ok3: "tree_ok s3" using dk ok i by (auto simp: tree_ok_def s3_def)
      have "look s3 = (look s)(dir := (look s dir)(e_name e \<mapsto> i))"
      proof
        fix d
        consider "d = i" | "d = dir" | "d \<noteq> i" "d \<noteq> dir" by blast
        then show "look s3 d = ((look s)(dir := (look s dir)(e_name e \<mapsto> i))) d"
        proof cases
          case 1
          then show ?thesis using di i e by (simp add: look_def s3_def e'_def dir_map_def)
        next
          case 2
          then have "look s3 d = dir_map (name_of s3) t" using di by (simp add: look_def s3_def)
          then show ?thesis using 2 t(2) n3 by simp
        next
          case 3
          have "look s3 d = look s d"
          proof (cases "pdes s d")
            case None
            then show ?thesis using 3 by (simp add: look_def s3_def)
          next
            case (Some x)
            then have "look s3 d = dir_map (name_of s3) (e_subdir x)" using 3 by (simp add: look_def s3_def)
            then show ?thesis using key_cong(4) [of "e_subdir x" key "name_of s"] key [OF _ Some] Some n3 by (simp add: look_def)
          qed
          then show ?thesis using 3 by simp
        qed
      qed
      then show ?thesis using reg Some s3 ok3 t(1,4) by (auto simp: s3_def e'_def k(2))
    qed
  qed
qed

text \<open>What a creation promises: it returns; without a result nothing has changed; with one, the last part of the name was free in the
  directory that the rest of it leads to, and now means the new entry, which fulfils \<open>P\<close>; the directory has \<open>dn\<close> more links, and no
  other entry has changed.\<close>

definition creation_ok :: "proc_fs \<Rightarrow> nat \<Rightarrow> string \<Rightarrow> 32 word \<Rightarrow> (pde_entry \<Rightarrow> bool) \<Rightarrow> fault + nat option \<times> proc_fs \<Rightarrow> bool" where
  "creation_ok s parent name dn P x \<longleftrightarrow>
     (case x of
        Inl _ \<Rightarrow> False
      | Inr (None, s') \<Rightarrow> s' = s
      | Inr (Some i, s') \<Rightarrow> \<exists>dir fn ed e t. xlate_proc_name s parent name = Some (dir, fn) \<and> pdes s dir = Some ed \<and> pdes s i = None
          \<and> look s dir fn = None \<and> tree_ok s' \<and> look s' = (look s)(dir := (look s dir)(fn \<mapsto> i))
          \<and> pdes s' = (pdes s)(dir \<mapsto> ed\<lparr>e_nlink := e_nlink ed + dn, e_subdir := t\<rparr>, i \<mapsto> e)
          \<and> e_name e = fn \<and> e_count e = 1 \<and> e_uid e = e_uid ed \<and> e_gid e = e_gid ed \<and> P e)"

lemma creation_finish:
  assumes ok: "tree_ok s" and env: "env_ok C s" and x: "xlate_proc_name s parent name = Some (dir, fn)" "good_name fn"
    and dir: "pdes s dir = Some ed" and i: "pdes s i = None"
    and e: "e_subdir e = Leaf" "e_name e = fn" "e_count e = 1" "e_uid e = e_uid ed" "e_gid e = e_gid ed"
    and P: "\<And>k d. P (e\<lparr>e_low_ino := k, e_parent := d\<rparr>)"
  obtains ret s2 where "proc_register C dir i (s\<lparr>pdes := (pdes s)(dir \<mapsto> ed\<lparr>e_nlink := e_nlink ed + dn\<rparr>, i \<mapsto> e)\<rparr>) = Inr (ret, s2)"
    "ret < 0 \<Longrightarrow> kfree_pde i s2 = s\<lparr>pdes := (pdes s)(dir \<mapsto> ed\<lparr>e_nlink := e_nlink ed + dn\<rparr>)\<rparr>"
    "\<not> ret < 0 \<Longrightarrow> creation_ok s parent name dn P (Inr (Some i, s2))"
proof -
  have n: "good_name (e_name e)" using x(2) e(2) by simp
  obtain ret s2 where r: "proc_register C dir i (s\<lparr>pdes := (pdes s)(dir \<mapsto> ed\<lparr>e_nlink := e_nlink ed + dn\<rparr>, i \<mapsto> e)\<rparr>) = Inr (ret, s2)"
    and R: "ret < 0 \<and> kfree_pde i s2 = s\<lparr>pdes := (pdes s)(dir \<mapsto> ed\<lparr>e_nlink := e_nlink ed + dn\<rparr>)\<rparr>
     \<or> ret = 0 \<and> tree_ok s2 \<and> look s dir fn = None \<and> look s2 = (look s)(dir := (look s dir)(fn \<mapsto> i))
       \<and> (\<exists>t k. s2 = \<lparr>pdes = (pdes s)(dir \<mapsto> ed\<lparr>e_nlink := e_nlink ed + dn, e_subdir := t\<rparr>,
              i \<mapsto> e\<lparr>e_low_ino := 4026531840 + k, e_parent := dir\<rparr>), inums = k # inums s\<rparr>)"
    using register_result [OF ok env dir i e(1) n e(3), of "e_nlink ed + dn"] unfolding e(2) by blast
  show ?thesis
  proof (rule that [OF r])
    show "ret < 0 \<Longrightarrow> kfree_pde i s2 = s\<lparr>pdes := (pdes s)(dir \<mapsto> ed\<lparr>e_nlink := e_nlink ed + dn\<rparr>)\<rparr>" using R by auto
    assume "\<not> ret < 0"
    then obtain t k where s2: "tree_ok s2" "look s dir fn = None" "look s2 = (look s)(dir := (look s dir)(fn \<mapsto> i))"
      "pdes s2 = (pdes s)(dir \<mapsto> ed\<lparr>e_nlink := e_nlink ed + dn, e_subdir := t\<rparr>, i \<mapsto> e\<lparr>e_low_ino := 4026531840 + k, e_parent := dir\<rparr>)"
      using R by auto
    then show "creation_ok s parent name dn P (Inr (Some i, s2))"
      unfolding creation_ok_def using x(1) dir i e P by fastforce
  qed
qed

text \<open>\<open>proc_create_data\<close>, \<open>proc_mkdir_data\<close> and \<open>proc_symlink\<close> keep this promise.\<close>

lemma creation_none: "creation_ok s parent name dn P (Inr (None, s))"
  by (simp add: creation_ok_def)

lemma store_triv:
  "pdes s dir = Some ed \<Longrightarrow> (pdes s)(dir \<mapsto> ed, i \<mapsto> e) = (pdes s)(i \<mapsto> e)"
  "pdes s dir = Some ed \<Longrightarrow> s\<lparr>pdes := (pdes s)(dir \<mapsto> ed)\<rparr> = s"
  "pdes s i = None \<Longrightarrow> kfree_pde i (s\<lparr>pdes := (pdes s)(i \<mapsto> e)\<rparr>) = s"
proof -
  assume "pdes s dir = Some ed"
  then have e: "(pdes s)(dir \<mapsto> ed) = pdes s" by auto
  show "(pdes s)(dir \<mapsto> ed, i \<mapsto> e) = (pdes s)(i \<mapsto> e)" by (simp only: e)
  show "s\<lparr>pdes := (pdes s)(dir \<mapsto> ed)\<rparr> = s" unfolding e by simp
next
  assume "pdes s i = None"
  then have "(pdes s)(i := None) = pdes s" by auto
  then show "kfree_pde i (s\<lparr>pdes := (pdes s)(i \<mapsto> e)\<rparr>) = s" by (simp add: kfree_pde_def)
qed

lemma S_ISREG_or: "S_ISREG (or m S_IRUGO) = S_ISREG m"
  by (simp add: S_ISREG_def mode_defs S_IRUGO_def bit.conj_disj_distrib2)

lemma create_data_ok:
  assumes ok: "tree_ok s" "pdes s parent \<noteq> None" and env: "env_ok C s"
  shows "creation_ok s parent name 0 (\<lambda>e. S_ISREG (e_mode e) \<and> e_data e = data \<and> e_fops e) (proc_create_data C name mode parent True data s)"
    (is "creation_ok _ _ _ _ ?P _")
proof -
  define m1 where "m1 = (if and mode S_IFMT = 0 then or mode S_IFREG else mode)"
  define m2 where "m2 = (if and m1 S_IALLUGO = 0 then or m1 S_IRUGO else m1)"
  note unf = proc_create_data_def m1_def [symmetric] Let_def m2_def [symmetric]
  show ?thesis
  proof (cases "S_ISREG m1")
    case False
    then show ?thesis unfolding unf by (simp add: creation_none)
  next
    case True
    then have m2: "S_ISREG m2" by (simp add: m2_def S_ISREG_or)
    show ?thesis
    proof (rule create0_cases [OF ok env, of name m2 1])
      assume "proc_create0 C parent name m2 1 s = None"
      then show ?thesis using True unfolding unf by (simp add: creation_none)
    next
      fix dir fn i ed
      assume c: "proc_create0 C parent name m2 1 s = Some (dir, i, s\<lparr>pdes := (pdes s)(i \<mapsto> fresh_pde ed fn m2 1)\<rparr>)"
        "xlate_proc_name s parent name = Some (dir, fn)" "good_name fn" "pdes s dir = Some ed" "pdes s i = None"
      define e where "e = (fresh_pde ed fn m2 1)\<lparr>e_fops := True, e_data := data, e_iops := True\<rparr>"
      have u: "upd_pde i (\<lambda>e. e\<lparr>e_fops := True, e_data := data, e_iops := True\<rparr>) (s\<lparr>pdes := (pdes s)(i \<mapsto> fresh_pde ed fn m2 1)\<rparr>)
          = s\<lparr>pdes := (pdes s)(dir \<mapsto> ed\<lparr>e_nlink := e_nlink ed + 0\<rparr>, i \<mapsto> e)\<rparr>"
        using store_triv(1) [OF c(4)] by (simp add: upd_pde_def e_def)
      have e: "e_subdir e = Leaf" "e_name e = fn" "e_count e = 1" "e_uid e = e_uid ed" "e_gid e = e_gid ed"
        "\<And>k d. S_ISREG (e_mode (e\<lparr>e_low_ino := k, e_parent := d\<rparr>)) \<and> e_data (e\<lparr>e_low_ino := k, e_parent := d\<rparr>) = data
          \<and> e_fops (e\<lparr>e_low_ino := k, e_parent := d\<rparr>)"
        using m2 by (simp_all add: e_def fresh_pde_def)
      obtain ret s2 where r: "proc_register C dir i (s\<lparr>pdes := (pdes s)(dir \<mapsto> ed\<lparr>e_nlink := e_nlink ed + 0\<rparr>, i \<mapsto> e)\<rparr>) = Inr (ret, s2)"
        "ret < 0 \<Longrightarrow> kfree_pde i s2 = s\<lparr>pdes := (pdes s)(dir \<mapsto> ed\<lparr>e_nlink := e_nlink ed + 0\<rparr>)\<rparr>"
        "\<not> ret < 0 \<Longrightarrow> creation_ok s parent name 0 (\<lambda>e. S_ISREG (e_mode e) \<and> e_data e = data \<and> e_fops e) (Inr (Some i, s2))"
        by (rule creation_finish [where P = ?P and dn = 0, OF ok(1) env c(2-5) e]) blast
      have "proc_create_data C name mode parent True data s = (if ret < 0 then Inr (None, kfree_pde i s2) else Inr (Some i, s2))"
        unfolding unf c(1) option.case prod.case u r(1) sum.case using True by simp
      then show ?thesis using r(2,3) store_triv(2) [OF c(4)] by (cases "ret < 0") (simp_all add: creation_none)
    qed
  qed
qed

lemma mkdir_data_ok:
  assumes ok: "tree_ok s" "pdes s parent \<noteq> None" and env: "env_ok C s"
  shows "creation_ok s parent name 1 (\<lambda>e. e_mode e = or S_IFDIR (if mode = 0 then or S_IRUGO S_IXUGO else mode) \<and> e_nlink e = 2 \<and> e_data e = data)
    (proc_mkdir_data C name mode parent data s)" (is "creation_ok _ _ _ _ ?P _")
proof -
  define m where "m = or S_IFDIR (if mode = 0 then or S_IRUGO S_IXUGO else mode)"
  note unf = proc_mkdir_data_def m_def [symmetric]
  show ?thesis
  proof (rule create0_cases [OF ok env, of name m 2])
    assume "proc_create0 C parent name m 2 s = None"
    then show ?thesis unfolding unf by (simp add: creation_none)
  next
    fix dir fn i ed
    assume c: "proc_create0 C parent name m 2 s = Some (dir, i, s\<lparr>pdes := (pdes s)(i \<mapsto> fresh_pde ed fn m 2)\<rparr>)"
      "xlate_proc_name s parent name = Some (dir, fn)" "good_name fn" "pdes s dir = Some ed" "pdes s i = None"
    then have di: "dir \<noteq> i" by auto
    define e where "e = (fresh_pde ed fn m 2)\<lparr>e_data := data, e_fops := True, e_iops := True\<rparr>"
    have u: "upd_pde dir (\<lambda>e. e\<lparr>e_nlink := e_nlink e + 1\<rparr>)
        (upd_pde i (\<lambda>e. e\<lparr>e_data := data, e_fops := True, e_iops := True\<rparr>) (s\<lparr>pdes := (pdes s)(i \<mapsto> fresh_pde ed fn m 2)\<rparr>))
        = s\<lparr>pdes := (pdes s)(dir \<mapsto> ed\<lparr>e_nlink := e_nlink ed + 1\<rparr>, i \<mapsto> e)\<rparr>"
      using di c(4) by (simp add: upd_pde_def e_def fun_upd_twist)
    have e: "e_subdir e = Leaf" "e_name e = fn" "e_count e = 1" "e_uid e = e_uid ed" "e_gid e = e_gid ed" "\<And>k d. ?P (e\<lparr>e_low_ino := k, e_parent := d\<rparr>)"
      by (simp_all add: e_def fresh_pde_def m_def)
    obtain ret s2 where r: "proc_register C dir i (s\<lparr>pdes := (pdes s)(dir \<mapsto> ed\<lparr>e_nlink := e_nlink ed + 1\<rparr>, i \<mapsto> e)\<rparr>) = Inr (ret, s2)"
      "ret < 0 \<Longrightarrow> kfree_pde i s2 = s\<lparr>pdes := (pdes s)(dir \<mapsto> ed\<lparr>e_nlink := e_nlink ed + 1\<rparr>)\<rparr>"
      "\<not> ret < 0 \<Longrightarrow> creation_ok s parent name 1 ?P (Inr (Some i, s2))"
      by (rule creation_finish [where P = ?P and dn = 1, OF ok(1) env c(2-5) e]) blast
    have "proc_mkdir_data C name mode parent data s =
        (if ret < 0 then Inr (None, upd_pde dir (\<lambda>e. e\<lparr>e_nlink := e_nlink e - 1\<rparr>) (kfree_pde i s2)) else Inr (Some i, s2))"
      unfolding unf c(1) option.case prod.case u r(1) sum.case ..
    moreover have "upd_pde dir (\<lambda>e. e\<lparr>e_nlink := e_nlink e - 1\<rparr>) (s\<lparr>pdes := (pdes s)(dir \<mapsto> ed\<lparr>e_nlink := e_nlink ed + 1\<rparr>)\<rparr>) = s"
      using store_triv(2) [OF c(4)] by (simp add: upd_pde_def)
    ultimately show ?thesis using r(2,3) by (cases "ret < 0") (simp_all add: creation_none)
  qed
qed

lemma symlink_ok:
  assumes ok: "tree_ok s" "pdes s parent \<noteq> None" and env: "env_ok C s"
  shows "creation_ok s parent name 0 (\<lambda>e. e_mode e = or S_IFLNK 511 \<and> e_data e = LinkTo dest \<and> e_size e = int (length dest))
    (proc_symlink C name parent dest s)" (is "creation_ok _ _ _ _ ?P _")
proof -
  define m where "m = or S_IFLNK 511"
  note unf = proc_symlink_def m_def [symmetric]
  show ?thesis
  proof (rule create0_cases [OF ok env, of name m 1])
    assume "proc_create0 C parent name m 1 s = None"
    then show ?thesis unfolding unf by (simp add: creation_none)
  next
    fix dir fn i ed
    assume c: "proc_create0 C parent name m 1 s = Some (dir, i, s\<lparr>pdes := (pdes s)(i \<mapsto> fresh_pde ed fn m 1)\<rparr>)"
      "xlate_proc_name s parent name = Some (dir, fn)" "good_name fn" "pdes s dir = Some ed" "pdes s i = None"
    define e where "e = (fresh_pde ed fn m 1)\<lparr>e_size := int (length dest), e_data := LinkTo dest, e_iops := True\<rparr>"
    have u: "upd_pde i (\<lambda>e. e\<lparr>e_size := int (length dest), e_data := LinkTo dest, e_iops := True\<rparr>) (s\<lparr>pdes := (pdes s)(i \<mapsto> fresh_pde ed fn m 1)\<rparr>)
        = s\<lparr>pdes := (pdes s)(dir \<mapsto> ed\<lparr>e_nlink := e_nlink ed + 0\<rparr>, i \<mapsto> e)\<rparr>"
      using store_triv(1) [OF c(4)] by (simp add: upd_pde_def e_def)
    have e: "e_subdir e = Leaf" "e_name e = fn" "e_count e = 1" "e_uid e = e_uid ed" "e_gid e = e_gid ed" "\<And>k d. ?P (e\<lparr>e_low_ino := k, e_parent := d\<rparr>)"
      by (simp_all add: e_def fresh_pde_def m_def)
    obtain ret s2 where r: "proc_register C dir i (s\<lparr>pdes := (pdes s)(dir \<mapsto> ed\<lparr>e_nlink := e_nlink ed + 0\<rparr>, i \<mapsto> e)\<rparr>) = Inr (ret, s2)"
      "ret < 0 \<Longrightarrow> kfree_pde i s2 = s\<lparr>pdes := (pdes s)(dir \<mapsto> ed\<lparr>e_nlink := e_nlink ed + 0\<rparr>)\<rparr>"
      "\<not> ret < 0 \<Longrightarrow> creation_ok s parent name 0 ?P (Inr (Some i, s2))"
      by (rule creation_finish [where P = ?P and dn = 0, OF ok(1) env c(2-5) e]) blast
    have "proc_symlink C name parent dest s = (if c_data C then if ret < 0 then Inr (None, kfree_pde i s2) else Inr (Some i, s2) else Inr (None, s))"
      unfolding unf c(1) option.case prod.case u r(1) sum.case store_triv(3) [OF c(5)] by simp
    then show ?thesis using r(2,3) store_triv(2) [OF c(4)] by (cases "ret < 0") (simp_all add: creation_none)
  qed
qed

text \<open>C14.  Creation keeps \<open>/proc\<close> well-formed: \<open>proc_create_data\<close> with file operations, \<open>proc_mkdir_data\<close> and \<open>proc_symlink\<close>
  return, and without file operations \<open>proc_create_data\<close> runs into its \<open>BUG_ON\<close> unless the mode is none of a file; without a result nothing has changed; with one, the tree is in order, the last part of the name was free in the directory the rest leads
  to, and now means a new entry with the mode, the owner and the data it should have; a new directory counts one more link in its parent; no other
  entry has changed.\<close>

theorem proc_create_spec:
  assumes "tree_ok s" "pdes s parent \<noteq> None" "env_ok C s"
  shows "creation_ok s parent name 0 (\<lambda>e. S_ISREG (e_mode e) \<and> e_data e = data \<and> e_fops e) (proc_create_data C name mode parent True data s)
    \<and> creation_ok s parent name 1 (\<lambda>e. e_mode e = or S_IFDIR (if mode = 0 then or S_IRUGO S_IXUGO else mode) \<and> e_nlink e = 2 \<and> e_data e = data)
        (proc_mkdir_data C name mode parent data s)
    \<and> creation_ok s parent name 0 (\<lambda>e. e_mode e = or S_IFLNK 511 \<and> e_data e = LinkTo dest \<and> e_size e = int (length dest))
        (proc_symlink C name parent dest s)
    \<and> proc_create_data C name mode parent False data s =
        (if S_ISREG (if and mode S_IFMT = 0 then or mode S_IFREG else mode) then Inl BugOn else Inr (None, s))"
proof -
  have "proc_create_data C name mode parent False data s =
      (if S_ISREG (if and mode S_IFMT = 0 then or mode S_IFREG else mode) then Inl BugOn else Inr (None, s))"
    unfolding proc_create_data_def Let_def by simp
  then show ?thesis using create_data_ok [OF assms] mkdir_data_ok [OF assms] symlink_ok [OF assms] by blast
qed

section \<open>Removal\<close>

text \<open>Link and use counts do not matter to the tree.\<close>

definition shape :: "pde_entry \<Rightarrow> string \<times> nat \<times> nat tree \<times> nat" where
  "shape e = (e_name e, e_parent e, e_subdir e, e_low_ino e)"

lemma inum_ok_mono:
  assumes "inum_ok s" "\<And>d e. pdes s' d = Some e \<Longrightarrow> \<exists>x. pdes s d = Some x \<and> e_low_ino x = e_low_ino e" "inums s' = inums s"
  shows "inum_ok s'"
  unfolding inum_ok_def
proof (intro conjI allI impI)
  show "distinct (inums s')" using assms(1,3) by (simp add: inum_ok_def)
  fix i e assume "pdes s' i = Some e \<and> i \<noteq> proc_root"
  then obtain x where "pdes s i = Some x" "e_low_ino x = e_low_ino e" "i \<noteq> proc_root" using assms(2) by blast
  then show "4026531840 \<le> e_low_ino e" "e_low_ino e - 4026531840 \<in> set (inums s')" using assms(1,3) unfolding inum_ok_def by metis+
next
  fix i j ei ej assume a: "pdes s' i = Some ei \<and> pdes s' j = Some ej \<and> i \<noteq> j \<and> i \<noteq> proc_root \<and> j \<noteq> proc_root"
  then obtain xi xj where "pdes s i = Some xi" "e_low_ino xi = e_low_ino ei" "pdes s j = Some xj" "e_low_ino xj = e_low_ino ej"
    using assms(2) by metis
  then show "e_low_ino ei \<noteq> e_low_ino ej" using assms(1) a unfolding inum_ok_def by metis
qed

lemma same_shape:
  assumes ok: "tree_ok s" and sh: "\<And>d. map_option shape (pdes s' d) = map_option shape (pdes s d)"
    and c: "\<And>d e. pdes s' d = Some e \<Longrightarrow> 0 < e_count e" and ids: "inums s' = inums s"
  shows "tree_ok s' \<and> look s' = look s"
proof -
  have live: "\<exists>x. pdes s d = Some x \<and> e_name x = e_name e \<and> e_parent x = e_parent e \<and> e_subdir x = e_subdir e \<and> e_low_ino x = e_low_ino e"
    if "pdes s' d = Some e" for d e
    using sh [of d] that by (cases "pdes s d") (auto simp: shape_def)
  have live': "\<exists>x. pdes s' d = Some x \<and> e_name x = e_name e \<and> e_parent x = e_parent e \<and> e_subdir x = e_subdir e"
    if "pdes s d = Some e" for d e
    using sh [of d] that by (cases "pdes s' d") (auto simp: shape_def)
  have n: "name_of s' = name_of s"
  proof
    fix j show "name_of s' j = name_of s j" using sh [of j] by (cases "pdes s j"; cases "pdes s' j") (auto simp: shape_def)
  qed
  have "dir_ok s' d e" if e: "pdes s' d = Some e" for d e
  proof -
    obtain x where x: "pdes s d = Some x" "e_subdir x = e_subdir e" using live [OF e] by blast
    have "\<exists>ec. pdes s' c = Some ec \<and> e_parent ec = d \<and> c \<noteq> proc_root \<and> good_name (e_name ec)" if c: "c \<in> set (inorder (e_subdir e))" for c
    proof -
      have "c \<in> set (inorder (e_subdir x))" using c x(2) by auto
      then obtain ec where "pdes s c = Some ec" "e_parent ec = d" "c \<noteq> proc_root" "good_name (e_name ec)"
        using tree_okD(3) [OF ok x(1)] by blast
      then show ?thesis using live' [of c ec] by auto
    qed
    then show ?thesis using tree_okD(1) [OF ok x(1)] x(2) n by (simp add: dir_ok_def)
  qed
  moreover have "inum_ok s'"
  proof (rule inum_ok_mono [of s])
    show "\<exists>x. pdes s d = Some x \<and> e_low_ino x = e_low_ino e" if "pdes s' d = Some e" for d e using live [OF that] by blast
  qed (use ok ids in \<open>simp_all add: tree_ok_def\<close>)
  moreover have "pdes s' proc_root \<noteq> None" using ok live' [of proc_root] by (auto simp: tree_ok_def)
  moreover have "look s' = look s"
  proof
    fix d show "look s' d = look s d"
      using sh [of d] n by (cases "pdes s d"; cases "pdes s' d") (auto simp: look_def shape_def)
  qed
  ultimately show ?thesis using c by (simp add: tree_ok_def)
qed

text \<open>Taking an entry out of the tree of its directory.\<close>

lemma erase_result:
  assumes ok: "tree_ok s" and lib: "rb_lib_ok L" and dir: "pdes s dir = Some ed" and i: "i \<in> set (inorder (e_subdir ed))"
  defines "s1 \<equiv> rb_erase_from L dir i s"
  shows "tree_ok s1 \<and> look s1 = (look s)(dir := (look s dir)(name_of s i := None))
    \<and> pdes s1 = (pdes s)(dir \<mapsto> ed\<lparr>e_subdir := erase L i (e_subdir ed)\<rparr>) \<and> inums s1 = inums s
    \<and> (\<forall>d x. pdes s1 d = Some x \<longrightarrow> i \<notin> set (inorder (e_subdir x)))
    \<and> set (inorder (erase L i (e_subdir ed))) = set (inorder (e_subdir ed)) - {i}"
proof -
  note E = pm.erase_map [OF lib tree_okD(1) [OF ok dir] i]
  have s1: "pdes s1 = (pdes s)(dir \<mapsto> ed\<lparr>e_subdir := erase L i (e_subdir ed)\<rparr>)" "inums s1 = inums s"
    using dir by (simp_all add: s1_def rb_erase_from_def upd_pde_def)
  have n: "name_of s1 = name_of s"
  proof
    fix j show "name_of s1 j = name_of s j" using dir by (simp add: s1)
  qed
  have live: "\<exists>x. pdes s d = Some x \<and> e_name x = e_name e \<and> e_parent x = e_parent e \<and> set (inorder (e_subdir e)) \<subseteq> set (inorder (e_subdir x)) \<and> e_low_ino x = e_low_ino e
      \<and> e_count x = e_count e" if e: "pdes s1 d = Some e" for d e
  proof (cases "d = dir")
    case True
    then have e': "e = ed\<lparr>e_subdir := erase L i (e_subdir ed)\<rparr>" using e by (simp add: s1)
    have "set (inorder (e_subdir e)) \<subseteq> set (inorder (e_subdir ed))" unfolding e' using E by auto
    then show ?thesis using True dir by (simp add: e')
  next
    case False
    then show ?thesis using e by (simp add: s1)
  qed
  have live': "\<exists>x. pdes s1 c = Some x \<and> e_name x = e_name e \<and> e_parent x = e_parent e" if "pdes s c = Some e" for c e
    using that dir by (auto simp: s1)
  have dk: "dir_ok s1 d e \<and> 0 < e_count e" if e: "pdes s1 d = Some e" for d e
  proof -
    obtain x where x: "pdes s d = Some x" "set (inorder (e_subdir e)) \<subseteq> set (inorder (e_subdir x))" "e_count x = e_count e" using live [OF e] by blast
    have "names_sorted proc_match (name_of s1) (inorder (e_subdir e))" unfolding n
    proof (cases "d = dir")
      case True
      then have "e_subdir e = erase L i (e_subdir ed)" using e by (auto simp: s1)
      then show "names_sorted proc_match (name_of s) (inorder (e_subdir e))" using E by metis
    next
      case False
      then show "names_sorted proc_match (name_of s) (inorder (e_subdir e))" using e tree_okD(1) [OF ok, of d e] by (simp add: s1)
    qed
    moreover have "\<exists>ec. pdes s1 c = Some ec \<and> e_parent ec = d \<and> c \<noteq> proc_root \<and> good_name (e_name ec)" if c: "c \<in> set (inorder (e_subdir e))" for c
    proof -
      have "c \<in> set (inorder (e_subdir x))" using c x(2) by auto
      then obtain ec where "pdes s c = Some ec" "e_parent ec = d" "c \<noteq> proc_root" "good_name (e_name ec)"
        using tree_okD(3) [OF ok x(1)] by blast
      then show ?thesis using live' [of c ec] by auto
    qed
    ultimately show ?thesis using tree_okD(2) [OF ok x(1)] x(3) by (simp add: dir_ok_def)
  qed
  have "inum_ok s1"
  proof (rule inum_ok_mono [of s])
    show "\<exists>x. pdes s d = Some x \<and> e_low_ino x = e_low_ino e" if "pdes s1 d = Some e" for d e using live [OF that] by blast
  qed (use ok s1(2) in \<open>simp_all add: tree_ok_def\<close>)
  moreover have "pdes s1 proc_root \<noteq> None" using ok live' [of proc_root] by (auto simp: tree_ok_def)
  ultimately have "tree_ok s1" using dk by (simp add: tree_ok_def)
  moreover have "look s1 = (look s)(dir := (look s dir)(name_of s i := None))"
  proof
    fix d
    have p: "pdes s1 dir = Some (ed\<lparr>e_subdir := erase L i (e_subdir ed)\<rparr>)" by (simp add: s1(1))
    have "look s1 dir = dir_map (name_of s) (erase L i (e_subdir ed))" unfolding look_def n p by simp
    moreover have "look s dir = dir_map (name_of s) (e_subdir ed)" by (simp add: look_def dir)
    ultimately have "look s1 dir = (look s dir)(name_of s i := None)" using conjunct1 [OF E] by simp
    moreover have "look s1 d = look s d" if "d \<noteq> dir"
    proof -
      have q: "pdes s1 d = pdes s d" using that by (simp add: s1(1))
      show ?thesis unfolding look_def n q ..
    qed
    ultimately show "look s1 d = ((look s)(dir := (look s dir)(name_of s i := None))) d" by simp
  qed
  moreover have "i \<notin> set (inorder (e_subdir x))" if x: "pdes s1 d = Some x" for d x
  proof
    assume m: "i \<in> set (inorder (e_subdir x))"
    obtain y where y: "pdes s d = Some y" "i \<in> set (inorder (e_subdir y))" using live [OF x] m by blast
    have "d = dir" using tree_okD(3) [OF ok y] tree_okD(3) [OF ok dir i] by auto
    then have "e_subdir x = erase L i (e_subdir ed)" using x by (auto simp: s1)
    then show False using m E by simp
  qed
  ultimately show ?thesis using s1 E by blast
qed

text \<open>Giving the memory of an entry back that is in no directory.\<close>

lemma free_result:
  assumes ok: "tree_ok s" and i: "pdes s i = Some e" "i \<noteq> proc_root" and out: "\<And>d x. pdes s d = Some x \<Longrightarrow> i \<notin> set (inorder (e_subdir x))"
  shows "tree_ok (free_proc_entry i s) \<and> look (free_proc_entry i s) = (look s)(i := Map.empty)
    \<and> pdes (free_proc_entry i s) = (pdes s)(i := None)"
proof -
  define s1 where "s1 = free_proc_entry i s"
  have s1: "pdes s1 = (pdes s)(i := None)" "inums s1 = remove1 (e_low_ino e - 4026531840) (inums s)"
    using i by (simp_all add: s1_def free_proc_entry_def kfree_pde_def proc_free_inum_def)
  have cong: "names_sorted proc_match (name_of s1) (inorder (e_subdir x)) = names_sorted proc_match (name_of s) (inorder (e_subdir x))"
    "dir_map (name_of s1) (e_subdir x) = dir_map (name_of s) (e_subdir x)" if "pdes s d = Some x" for d x
  proof -
    have agree: "name_of s1 c = name_of s c" if "c \<in> set (inorder (e_subdir x))" for c
      using out [OF \<open>pdes s d = Some x\<close>] that by (cases "c = i") (simp_all add: s1)
    show "names_sorted proc_match (name_of s1) (inorder (e_subdir x)) = names_sorted proc_match (name_of s) (inorder (e_subdir x))"
      "dir_map (name_of s1) (e_subdir x) = dir_map (name_of s) (e_subdir x)"
      by (rule key_cong(3) [OF agree], assumption, rule key_cong(4) [OF agree], assumption)
  qed
  have dk: "dir_ok s1 d x \<and> 0 < e_count x" if x: "pdes s1 d = Some x" for d x
  proof -
    have d: "pdes s d = Some x" using x by (auto simp: s1 split: if_splits)
    have "\<exists>ec. pdes s1 c = Some ec \<and> e_parent ec = d \<and> c \<noteq> proc_root \<and> good_name (e_name ec)" if "c \<in> set (inorder (e_subdir x))" for c
      using tree_okD(3) [OF ok d that] out [OF d] that by (cases "c = i") (auto simp: s1)
    then show ?thesis using tree_okD(1,2) [OF ok d] cong(1) [OF d] by (simp add: dir_ok_def)
  qed
  have iok: "inum_ok s" using ok by (simp add: tree_ok_def)
  have "inum_ok s1" unfolding inum_ok_def
  proof (intro conjI allI impI)
    show "distinct (inums s1)" using iok by (simp add: s1 inum_ok_def)
    fix j x assume a: "pdes s1 j = Some x \<and> j \<noteq> proc_root"
    then have j: "pdes s j = Some x" "j \<noteq> i" by (auto simp: s1 split: if_splits)
    show g: "4026531840 \<le> e_low_ino x" using iok a j unfolding inum_ok_def by blast
    have "e_low_ino x \<noteq> e_low_ino e" "4026531840 \<le> e_low_ino e" using iok a i j unfolding inum_ok_def by blast+
    then have "e_low_ino x - 4026531840 \<noteq> e_low_ino e - 4026531840" using g by linarith
    then show "e_low_ino x - 4026531840 \<in> set (inums s1)" using iok a j unfolding inum_ok_def by (simp add: s1)
  next
    fix k j ei ej assume "pdes s1 k = Some ei \<and> pdes s1 j = Some ej \<and> k \<noteq> j \<and> k \<noteq> proc_root \<and> j \<noteq> proc_root"
    then show "e_low_ino ei \<noteq> e_low_ino ej" using iok unfolding inum_ok_def s1 by (metis fun_upd_apply option.distinct(1))
  qed
  then have "tree_ok s1" using ok i(2) dk by (simp add: tree_ok_def s1)
  moreover have "look s1 = (look s)(i := Map.empty)"
  proof
    fix d show "look s1 d = ((look s)(i := Map.empty)) d" using cong(2) [of d] by (auto simp: look_def s1(1) split: option.split)
  qed
  ultimately show ?thesis using s1(1) unfolding s1_def by blast
qed

lemma upd_pde_simps [simp]:
  "pdes (upd_pde i f s) j = (if j = i then map_option f (pdes s i) else pdes s j)" "inums (upd_pde i f s) = inums s"
  by (simp_all add: upd_pde_def)

lemma free_upd: "(\<And>e. e_low_ino (f e) = e_low_ino e) \<Longrightarrow> pdes s i \<noteq> None \<Longrightarrow> free_proc_entry i (upd_pde i f s) = free_proc_entry i s"
  by (auto simp: free_proc_entry_def kfree_pde_def proc_free_inum_def upd_pde_def fun_eq_iff)

lemma put_result:
  assumes ok: "tree_ok s" and i: "pdes s i = Some e" "i \<noteq> proc_root" and out: "\<And>d x. pdes s d = Some x \<Longrightarrow> i \<notin> set (inorder (e_subdir x))"
  shows "tree_ok (pde_put i s) \<and> look (pde_put i s) = (if e_count e = 1 then (look s)(i := Map.empty) else look s)
    \<and> pdes (pde_put i s) = (if e_count e = 1 then (pdes s)(i := None) else (pdes s)(i \<mapsto> e\<lparr>e_count := e_count e - 1\<rparr>))"
proof (cases "e_count e = 1")
  case True
  then have "pde_put i s = free_proc_entry i s" using i by (simp add: pde_put_def Let_def free_upd)
  then show ?thesis using True free_result [OF ok i out] by simp
next
  case False
  have "0 < e_count e" using tree_okD(2) [OF ok i(1)] .
  then have more: "Suc 0 < e_count e" using False by linarith
  then have p: "pde_put i s = upd_pde i (\<lambda>e. e\<lparr>e_count := e_count e - 1\<rparr>) s" using i by (simp add: pde_put_def Let_def)
  have "tree_ok (pde_put i s) \<and> look (pde_put i s) = look s"
    by (rule same_shape [OF ok])
      (use i more tree_okD(2) [OF ok] in \<open>auto simp: p shape_def split: if_splits\<close>)
  then show ?thesis using False i by (auto simp: p fun_eq_iff)
qed

lemma unlink_simps:
  "pdes s i = Some e \<Longrightarrow> pdes (unlink_counts parent i s) j =
     (if j = i then Some (if parent = i \<and> S_ISDIR (e_mode e) then e\<lparr>e_nlink := 0\<rparr> else e\<lparr>e_nlink := 0\<rparr>)
      else if j = parent \<and> S_ISDIR (e_mode e) then map_option (\<lambda>e. e\<lparr>e_nlink := e_nlink e - 1\<rparr>) (pdes s parent) else pdes s j)"
  "inums (unlink_counts parent i s) = inums s"
  by (auto simp: unlink_counts_def)

lemma unlink_result:
  assumes "tree_ok s" "pdes s i = Some e"
  shows "tree_ok (unlink_counts parent i s) \<and> look (unlink_counts parent i s) = look s"
proof (rule same_shape [OF assms(1)])
  show "map_option shape (pdes (unlink_counts parent i s) d) = map_option shape (pdes s d)" for d
    using assms(2) by (cases "pdes s parent") (auto simp: unlink_simps shape_def)
  show "0 < e_count x" if "pdes (unlink_counts parent i s) d = Some x" for d x
    using that assms(2) tree_okD(2) [OF assms(1)] by (auto simp: unlink_simps split: if_splits)
qed (simp add: unlink_simps)

lemma remove_entry_result:
  assumes ok: "tree_ok s" "pdes s parent \<noteq> None" and lib: "rb_lib_ok L"
  shows "case remove_proc_entry L name parent s of
      (False, s') \<Rightarrow> s' = s \<and> (\<forall>dir fn. xlate_proc_name s parent name = Some (dir, fn) \<longrightarrow> look s dir fn = None)
    | (True, s') \<Rightarrow> \<exists>dir fn i ed e. xlate_proc_name s parent name = Some (dir, fn) \<and> pdes s dir = Some ed \<and> look s dir fn = Some i
        \<and> pdes s i = Some e \<and> tree_ok s'
        \<and> look s' = (if e_count e = 1 then (look s)(dir := (look s dir)(fn := None), i := Map.empty) else (look s)(dir := (look s dir)(fn := None)))
        \<and> (if e_count e = 1 then pdes s' i = None
           else \<exists>e'. pdes s' i = Some e' \<and> e_name e' = fn \<and> e_count e' = e_count e - 1 \<and> e_nlink e' = 0) \<and> (\<forall>j. j \<noteq> i \<and> j \<noteq> dir \<longrightarrow> pdes s' j = pdes s j)
        \<and> (i \<noteq> dir \<longrightarrow> (\<exists>ed'. pdes s' dir = Some ed' \<and> e_nlink ed' = (if S_ISDIR (e_mode e) then e_nlink ed - 1 else e_nlink ed)))"
proof (cases "xlate_proc_name s parent name")
  case None
  then show ?thesis by (simp add: remove_proc_entry_def)
next
  case (Some x)
  then obtain dir fn where x: "xlate_proc_name s parent name = Some (dir, fn)" by (cases x) auto
  have "pdes s dir \<noteq> None" using xlate_live [OF ok x] by blast
  then obtain ed where ed: "pdes s dir = Some ed" by blast
  note F = find_look [OF ok(1) ed, of fn]
  show ?thesis
  proof (cases "look s dir fn")
    case None
    then show ?thesis using F x by (simp add: remove_proc_entry_def)
  next
    case (Some i)
    then obtain e where e: "pdes s i = Some e" "i \<noteq> proc_root" "e_name e = fn" using look_live [OF ok(1)] by fastforce
    have i: "i \<in> set (inorder (e_subdir ed))" using Some ed by (auto simp: look_Some [OF ok(1)])
    define s1 where "s1 = rb_erase_from L dir i s"
    have E: "tree_ok s1" "look s1 = (look s)(dir := (look s dir)(fn := None))" "pdes s1 = (pdes s)(dir \<mapsto> ed\<lparr>e_subdir := erase L i (e_subdir ed)\<rparr>)"
      "\<And>d x. pdes s1 d = Some x \<Longrightarrow> i \<notin> set (inorder (e_subdir x))"
      using erase_result [OF ok(1) lib ed i] e(1,3) by (auto simp: s1_def)
    obtain e1 where e1: "pdes s1 i = Some e1" "e_count e1 = e_count e" "e_mode e1 = e_mode e" "e_name e1 = fn"
      using e ed by (cases "i = dir") (auto simp: E(3))
    define s2 where "s2 = unlink_counts dir i s1"
    have U: "tree_ok s2" "look s2 = look s1" using unlink_result [OF E(1) e1(1)] by (simp_all add: s2_def)
    have e2: "pdes s2 i = Some (e1\<lparr>e_nlink := 0\<rparr>)" by (simp add: s2_def unlink_simps(1) [OF e1(1)])
    have out: "i \<notin> set (inorder (e_subdir x))" if "pdes s2 d = Some x" for d x
      using that E(4) [of d] E(4) [OF e1(1)] by (auto simp: s2_def unlink_simps(1) [OF e1(1)] split: if_splits)
    note P = put_result [OF U(1) e2 e(2) out]
    have r: "remove_proc_entry L name parent s = (True, pde_put i s2)"
      using x F Some by (simp add: remove_proc_entry_def s2_def s1_def)
    have "look (pde_put i s2) = (if e_count e = 1 then (look s)(dir := (look s dir)(fn := None), i := Map.empty) else (look s)(dir := (look s dir)(fn := None)))"
      using P U(2) E(2) e1(2) by simp
    moreover have "if e_count e = 1 then pdes (pde_put i s2) i = None
        else \<exists>e'. pdes (pde_put i s2) i = Some e' \<and> e_name e' = fn \<and> e_count e' = e_count e - 1 \<and> e_nlink e' = 0"
      using P e1(2,4) by simp
    moreover have "pdes (pde_put i s2) j = pdes s j" if "j \<noteq> i" "j \<noteq> dir" for j
      using P that by (simp add: s2_def unlink_simps(1) [OF e1(1)] E(3))
    moreover have "\<exists>ed'. pdes (pde_put i s2) dir = Some ed' \<and> e_nlink ed' = (if S_ISDIR (e_mode e) then e_nlink ed - 1 else e_nlink ed)" if "i \<noteq> dir"
      using P that e1(3) by (simp add: s2_def unlink_simps(1) [OF e1(1)] E(3))
    moreover have "tree_ok (pde_put i s2)" using put_result [OF U(1) e2 e(2)] out by blast
    ultimately show ?thesis unfolding r bool.case prod.case using x ed Some e(1) by blast
  qed
qed

text \<open>C16.  \<open>remove_proc_entry\<close>: without an entry of the name nothing changes; otherwise the name is free in its directory and, unless the
  entry is in use, the entry is gone; a directory loses a link of its parent; no other entry changes.\<close>

theorem remove_entry_spec:
  assumes ok: "tree_ok s" "pdes s parent \<noteq> None" and lib: "rb_lib_ok L"
  shows "case remove_proc_entry L name parent s of
      (False, s') \<Rightarrow> s' = s \<and> (\<forall>dir fn. xlate_proc_name s parent name = Some (dir, fn) \<longrightarrow> look s dir fn = None)
    | (True, s') \<Rightarrow> \<exists>dir fn i ed e. xlate_proc_name s parent name = Some (dir, fn) \<and> pdes s dir = Some ed \<and> look s dir fn = Some i
        \<and> pdes s i = Some e \<and> tree_ok s'
        \<and> look s' = (if e_count e = 1 then (look s)(dir := (look s dir)(fn := None), i := Map.empty) else (look s)(dir := (look s dir)(fn := None)))
        \<and> (if e_count e = 1 then pdes s' i = None
           else \<exists>e'. pdes s' i = Some e' \<and> e_name e' = fn \<and> e_count e' = e_count e - 1 \<and> e_nlink e' = 0) \<and> (\<forall>j. j \<noteq> i \<and> j \<noteq> dir \<longrightarrow> pdes s' j = pdes s j)
        \<and> (i \<noteq> dir \<longrightarrow> (\<exists>ed'. pdes s' dir = Some ed' \<and> e_nlink ed' = (if S_ISDIR (e_mode e) then e_nlink ed - 1 else e_nlink ed)))"
  by (rule remove_entry_result [OF ok lib])

section \<open>Looking up and listing\<close>

lemma get_result:
  assumes ok: "tree_ok s" and i: "pdes s i = Some e"
  shows "tree_ok (pde_get i s) \<and> look (pde_get i s) = look s" and "pde_put i (pde_get i s) = s"
proof -
  show "tree_ok (pde_get i s) \<and> look (pde_get i s) = look s"
    by (rule same_shape [OF ok]) (use i tree_okD(2) [OF ok] in \<open>auto simp: pde_get_def shape_def split: if_splits\<close>)
  have "e_count e \<noteq> 0" using tree_okD(2) [OF ok i] by simp
  then have "pdes (pde_put i (pde_get i s)) = pdes s" "inums (pde_put i (pde_get i s)) = inums s"
    using i by (auto simp: pde_put_def pde_get_def Let_def)
  then show "pde_put i (pde_get i s) = s" by simp
qed

text \<open>\<open>proc_lookup_de\<close> finds exactly what the directory holds; it keeps a reference on the entry only if an inode was made.\<close>

theorem proc_lookup_spec:
  assumes "tree_ok s" "pdes s dir \<noteq> None"
  shows "proc_lookup_de inode_ok dir name s =
    (case look s dir name of
       None \<Rightarrow> (- ENOENT, None, s)
     | Some de \<Rightarrow> if inode_ok then (0, Some de, pde_get de s) else (- ENOMEM, None, s))"
proof -
  obtain ed where "pdes s dir = Some ed" using assms(2) by blast
  note F = find_look [OF assms(1) this, of name]
  show ?thesis
  proof (cases "look s dir name")
    case None
    then show ?thesis using F by (simp add: proc_lookup_de_def)
  next
    case (Some de)
    then obtain e where "pdes s de = Some e" using look_live [OF assms(1)] by blast
    then show ?thesis using F Some get_result(2) [OF assms(1)] by (simp add: proc_lookup_de_def Let_def)
  qed
qed

abbreviation dirent :: "proc_fs \<Rightarrow> nat \<Rightarrow> string \<times> nat \<times> 16 word" where
  "dirent s de \<equiv> (e_name (ent s de), e_low_ino (ent s de), drop_bit 12 (e_mode (ent s de)))"

lemma readdir_skip_result: "readdir_skip (int k) des = (if k < length des then Some (drop k des) else None)"
proof (induction des arbitrary: k)
  case (Cons de des)
  have "int (Suc j) - 1 = int j" for j by simp
  then show ?case using Cons.IH by (cases k) simp_all
qed simp

lemma readdir_loop_result:
  assumes "tree_ok s" "\<forall>de \<in> set des. pdes s de \<noteq> None"
  shows "readdir_loop emit des pos s =
    (if \<forall>de \<in> set des. emit de then 1 else 0, map (dirent s) (takeWhile emit des), pos + length (takeWhile emit des), s)"
  using assms(2)
proof (induction des arbitrary: pos)
  case (Cons de des)
  then obtain e where e: "pdes s de = Some e" by auto
  have "dirent (pde_get de s) de = dirent s de" using e by (simp add: pde_get_def)
  then show ?case using Cons get_result(2) [OF assms(1) e] by (simp add: Let_def)
qed simp

lemma readdir_result:
  assumes ok: "tree_ok s" "pdes s dir = Some ed" and pos: "dots pos = (True, p)" "2 \<le> p" "p - 2 < 2 ^ 31"
  defines "des \<equiv> drop (p - 2) (inorder (e_subdir ed))"
  shows "proc_readdir_de dots emit dir pos s =
    (if des \<noteq> [] \<and> (\<forall>de \<in> set des. emit de) then 1 else 0, map (dirent s) (takeWhile emit des), p + length (takeWhile emit des), s)"
proof -
  have "s32 (int (p - 2)) = int (p - 2)" by (rule s32_id) (use pos(3) in simp_all)
  then have i: "s32 (int p - 2) = int (p - 2)" using pos(2) by (simp add: of_nat_diff)
  have live: "\<forall>de \<in> set des. pdes s de \<noteq> None"
    using tree_okD(3) [OF ok] set_drop_subset [of "p - 2" "inorder (e_subdir ed)"] unfolding des_def by fastforce
  show ?thesis
  proof (cases "p - 2 < length (inorder (e_subdir ed))")
    case True
    then have "readdir_skip (int (p - 2)) (inorder (e_subdir (ent s dir))) = Some des" "des \<noteq> []"
      using ok(2) by (simp_all add: readdir_skip_result des_def)
    then show ?thesis using pos(1) readdir_loop_result [OF ok(1) live] by (simp add: proc_readdir_de_def i)
  next
    case False
    then have "readdir_skip (int (p - 2)) (inorder (e_subdir (ent s dir))) = None" "des = []"
      using ok(2) by (simp_all add: readdir_skip_result des_def)
    then show ?thesis using pos(1) by (simp add: proc_readdir_de_def i)
  qed
qed

text \<open>A process that lists a directory calls \<open>readdir\<close> again and again; each time the buffer takes what it can.\<close>

fun readdir_calls :: "(nat \<Rightarrow> bool \<times> nat) \<Rightarrow> (nat \<Rightarrow> bool) list \<Rightarrow> nat \<Rightarrow> nat \<Rightarrow> proc_fs \<Rightarrow> (string \<times> nat \<times> 16 word) list \<times> nat" where
  "readdir_calls dots [] dir pos s = ([], pos)"
| "readdir_calls dots (emit # emits) dir pos s =
     (case proc_readdir_de dots emit dir pos s of (_, out, pos', s') \<Rightarrow>
        case readdir_calls dots emits dir pos' s' of (out', q) \<Rightarrow> (out @ out', q))"

lemma takeWhile_True [simp]: "takeWhile (\<lambda>_. True) xs = xs"
  by (induction xs) simp_all

text \<open>A process that lists a directory, in any number of calls whose buffers take what they can, gets every entry exactly once, with its inode
  number and its type.\<close>

theorem readdir_complete:
  assumes ok: "tree_ok s" "pdes s dir = Some ed" and dots: "\<forall>p. 2 \<le> p \<longrightarrow> dots p = (True, p)"
    and len: "length (inorder (e_subdir ed)) < 2 ^ 31"
  shows "case readdir_calls dots (emits @ [\<lambda>_. True]) dir 2 s of (out, q) \<Rightarrow>
    distinct (map fst out) \<and> set (map fst out) = dom (look s dir)
    \<and> (\<forall>n i m. (n, i, m) \<in> set out \<longrightarrow> (\<exists>de e. look s dir n = Some de \<and> pdes s de = Some e \<and> i = e_low_ino e \<and> m = drop_bit 12 (e_mode e)))"
proof -
  let ?xs = "inorder (e_subdir ed)"
  have "fst (readdir_calls dots (emits @ [\<lambda>_. True]) dir (k + 2) s) = map (dirent s) (drop k ?xs)" if "k \<le> length ?xs" for k
    using that
  proof (induction emits arbitrary: k)
    case Nil
    then show ?case using Nil readdir_result [OF ok, of dots "k + 2" "k + 2" "\<lambda>_. True"] dots len by simp
  next
    case (Cons emit emits)
    define j where "j = length (takeWhile emit (drop k ?xs))"
    have j: "takeWhile emit (drop k ?xs) = take j (drop k ?xs)" "k + j \<le> length ?xs"
      using length_takeWhile_le [of emit "drop k ?xs"] Cons.prems by (simp_all add: j_def takeWhile_eq_take [symmetric])
    obtain r where R: "proc_readdir_de dots emit dir (k + 2) s = (r, map (dirent s) (take j (drop k ?xs)), k + j + 2, s)"
      using readdir_result [OF ok, of dots "k + 2" "k + 2" emit] dots len Cons.prems j(1) unfolding j_def by simp
    have "take j (drop k ?xs) @ drop (k + j) ?xs = drop k ?xs" by (metis add.commute append_take_drop_id drop_drop)
    moreover have "fst (readdir_calls dots ((emit # emits) @ [\<lambda>_. True]) dir (k + 2) s)
        = map (dirent s) (take j (drop k ?xs)) @ fst (readdir_calls dots (emits @ [\<lambda>_. True]) dir (k + j + 2) s)"
      unfolding append_Cons readdir_calls.simps R by (simp only: case_prod_beta fst_conv snd_conv)
    ultimately show ?case using Cons.IH [OF j(2)] by (simp only: map_append [symmetric])
  qed
  from this [of 0] have out: "fst (readdir_calls dots (emits @ [\<lambda>_. True]) dir 2 s) = map (dirent s) ?xs" by (simp add: numeral_2_eq_2)
  have d: "distinct (map fst (map (dirent s) ?xs))"
    using pm.sorted_distinct [OF tree_okD(1) [OF ok]] by (simp add: o_def)
  have l: "look s dir n = Some de \<longleftrightarrow> de \<in> set ?xs \<and> name_of s de = n" for n de
    using look_Some [OF ok(1)] ok(2) by auto
  have live: "\<exists>e. pdes s de = Some e" if "de \<in> set ?xs" for de using tree_okD(3) [OF ok that] by blast
  have "dom (look s dir) = set (map fst (map (dirent s) ?xs))" by (auto simp: dom_def l)
  moreover have "\<exists>de e. look s dir n = Some de \<and> pdes s de = Some e \<and> i = e_low_ino e \<and> m = drop_bit 12 (e_mode e)"
    if o: "(n, i, m) \<in> set (map (dirent s) ?xs)" for n i m
  proof -
    obtain de where de: "de \<in> set ?xs" "(n, i, m) = dirent s de" using o unfolding set_map by blast
    then show ?thesis using live [OF de(1)] l [of n de] by auto
  qed
  ultimately show ?thesis using d unfolding case_prod_beta out by blast
qed

section \<open>An instance\<close>

text \<open>An empty \<open>/proc\<close>, for the instances of the theorems.\<close>

definition root_entry :: pde_entry where
  "root_entry = \<lparr>e_name = ''/proc'', e_mode = or S_IFDIR (or S_IRUGO S_IXUGO), e_nlink = 2, e_uid = 0, e_gid = 0, e_size = 0, e_low_ino = 1,
     e_parent = 0, e_subdir = Leaf, e_data = NoData, e_count = 1, e_iops = True, e_fops = True\<rparr>"

definition store0 :: proc_fs where
  "store0 = \<lparr>pdes = [proc_root \<mapsto> root_entry], inums = []\<rparr>"

definition some_env :: "nat \<Rightarrow> create_env" where
  "some_env i = \<lparr>c_ida = [(True, Inl (- EAGAIN)), (True, Inr i)], c_pde = Some i, c_data = True, c_rb = list_rb\<rparr>"

lemma store0_ok: "tree_ok store0" "pdes store0 proc_root \<noteq> None"
  by (simp_all add: tree_ok_def dir_ok_def inum_ok_def names_sorted_def store0_def root_entry_def)

lemma some_env_ok: "pdes s i = None \<Longrightarrow> i \<notin> set (inums s) \<Longrightarrow> env_ok (some_env i) s"
  by (simp add: env_ok_def some_env_def list_rb_ok EAGAIN_def)

text \<open>A directory is made in it, and a file in that.\<close>

definition store1 :: proc_fs where
  "store1 = (case proc_mkdir_data (some_env 5) ''d'' 0 proc_root NoData store0 of Inr (_, s) \<Rightarrow> s | Inl _ \<Rightarrow> store0)"

definition store2 :: proc_fs where
  "store2 = (case proc_create_data (some_env 6) ''d/f'' 0 proc_root True (Data 7) store1 of Inr (_, s) \<Rightarrow> s | Inl _ \<Rightarrow> store1)"

lemma store1_made: "proc_mkdir_data (some_env 5) ''d'' 0 proc_root NoData store0 = Inr (Some 5, store1)"
  unfolding store1_def
  by (simp add: proc_mkdir_data_def proc_create0_def xlate_proc_name.simps store0_def proc_register_def some_env_def is_empty_pde_def root_entry_def upd_pde_def proc_root_def EAGAIN_def
    name_to_int_def rb_insert_def list_rb_def)

lemmas eval_create = proc_mkdir_data_def proc_create_data_def proc_create0_def xlate_proc_name.simps proc_register_def some_env_def
  is_empty_pde_def upd_pde_def EAGAIN_def name_to_int_def rb_insert_def list_rb_def pde_subdir_find_def S_ISREG_def S_IFREG_def
  S_IFMT_def S_IALLUGO_def S_IRUGO_def proc_root_def proc_match_def Let_def

definition dir_entry :: pde_entry where
  "dir_entry = \<lparr>e_name = ''d'', e_mode = or S_IFDIR (or S_IRUGO S_IXUGO), e_nlink = 2, e_uid = 0, e_gid = 0, e_size = 0,
     e_low_ino = 4026531845, e_parent = 0, e_subdir = Leaf, e_data = NoData, e_count = 1, e_iops = True, e_fops = True\<rparr>"

definition file_entry :: pde_entry where
  "file_entry = \<lparr>e_name = ''f'', e_mode = or S_IFREG S_IRUGO, e_nlink = 1, e_uid = 0, e_gid = 0, e_size = 0,
     e_low_ino = 4026531846, e_parent = 5, e_subdir = Leaf, e_data = Data 7, e_count = 1, e_iops = True, e_fops = True\<rparr>"

lemma store1_eq: "store1 = \<lparr>pdes = [0 \<mapsto> root_entry\<lparr>e_nlink := 3, e_subdir := Node Leaf 5 Leaf\<rparr>, 5 \<mapsto> dir_entry], inums = [5]\<rparr>"
  unfolding store1_def by (simp add: eval_create store0_def root_entry_def dir_entry_def fun_eq_iff)

lemma store2_made: "proc_create_data (some_env 6) ''d/f'' 0 proc_root True (Data 7) store1 = Inr (Some 6, store2)"
  unfolding store2_def by (simp add: eval_create store1_eq root_entry_def dir_entry_def)

lemma store2_eq: "store2 = \<lparr>pdes = [0 \<mapsto> root_entry\<lparr>e_nlink := 3, e_subdir := Node Leaf 5 Leaf\<rparr>, 5 \<mapsto> dir_entry\<lparr>e_subdir := Node Leaf 6 Leaf\<rparr>, 6 \<mapsto> file_entry], inums = [6, 5]\<rparr>"
  unfolding store2_def by (simp add: eval_create store1_eq root_entry_def dir_entry_def file_entry_def fun_eq_iff)

lemma store_creations:
  "creation_ok store0 proc_root ''d'' 1 (\<lambda>e. e_mode e = or S_IFDIR (or S_IRUGO S_IXUGO) \<and> e_nlink e = 2 \<and> e_data e = NoData) (Inr (Some 5, store1))"
  "creation_ok store1 proc_root ''d/f'' 0 (\<lambda>e. S_ISREG (e_mode e) \<and> e_data e = Data 7 \<and> e_fops e) (Inr (Some 6, store2))"
proof -
  have e1: "env_ok (some_env 5) store0" by (rule some_env_ok) (simp_all add: store0_def proc_root_def)
  show c: "creation_ok store0 proc_root ''d'' 1 (\<lambda>e. e_mode e = or S_IFDIR (or S_IRUGO S_IXUGO) \<and> e_nlink e = 2 \<and> e_data e = NoData) (Inr (Some 5, store1))"
    using mkdir_data_ok [OF store0_ok e1, of "''d''" 0 NoData] by (simp add: store1_made)
  then have "tree_ok store1" by (auto simp: creation_ok_def)
  moreover have "env_ok (some_env 6) store1" "pdes store1 proc_root \<noteq> None" by (rule some_env_ok) (simp_all add: store1_eq proc_root_def)
  ultimately show "creation_ok store1 proc_root ''d/f'' 0 (\<lambda>e. S_ISREG (e_mode e) \<and> e_data e = Data 7 \<and> e_fops e) (Inr (Some 6, store2))"
    using create_data_ok [of store1 proc_root "some_env 6" "''d/f''" "Data 7" 0] by (simp add: store2_made)
qed

lemma store_ok: "tree_ok store1" "tree_ok store2" "pdes store1 proc_root \<noteq> None" "pdes store2 proc_root \<noteq> None"
  using store_creations by (auto simp: creation_ok_def store1_eq store2_eq proc_root_def)

theorem xlate_walk_witness:
  "tree_ok store2 \<and> xlate_proc_name store2 proc_root ''d/f'' = map_option (\<lambda>d'. (d', ''f'')) (walk (look store2) proc_root [''d'']) \<and> walk (look store2) proc_root [''d''] = Some 5"
  using xlate_walk [OF store_ok(2,4), of "''f''" "[''d'']"] store_ok(2)
  by (simp add: look_def store2_eq proc_root_def dir_map_def dir_entry_def)

theorem proc_create_spec_witness:
  "env_ok (some_env 5) store0 \<and> proc_mkdir_data (some_env 5) ''d'' 0 proc_root NoData store0 = Inr (Some 5, store1)
   \<and> creation_ok store0 proc_root ''d'' 1 (\<lambda>e. e_mode e = or S_IFDIR (or S_IRUGO S_IXUGO) \<and> e_nlink e = 2 \<and> e_data e = NoData) (Inr (Some 5, store1))"
proof -
  have e1: "env_ok (some_env 5) store0" by (rule some_env_ok) (simp_all add: store0_def proc_root_def)
  show ?thesis using proc_create_spec [OF store0_ok e1, of "''d''" NoData 0] e1 by (simp add: store1_made)
qed

theorem remove_entry_spec_witness:
  "case remove_proc_entry list_rb ''d/f'' proc_root store2 of
     (False, s') \<Rightarrow> False
   | (True, s') \<Rightarrow> tree_ok s' \<and> look s' 5 = Map.empty \<and> pdes s' 6 = None"
proof -
  have x: "xlate_proc_name store2 proc_root ''d/f'' = Some (5, ''f'')" "look store2 5 = [''f'' \<mapsto> 6]"
    by (simp_all add: eval_create store2_eq dir_entry_def file_entry_def look_def dir_map_def)
  show ?thesis using remove_entry_spec [OF store_ok(2,4) list_rb_ok, of "''d/f''"] x
    by (auto simp: file_entry_def store2_eq split: prod.splits bool.splits)
qed

theorem proc_lookup_spec_witness:
  "proc_lookup_de False 5 ''f'' store2 = (- ENOMEM, None, store2) \<and> fst (proc_lookup_de True 5 ''g'' store2) = - ENOENT"
proof -
  have "look store2 5 = [''f'' \<mapsto> 6]" "pdes store2 5 \<noteq> None" by (simp_all add: store2_eq dir_entry_def file_entry_def look_def dir_map_def)
  then show ?thesis using proc_lookup_spec [OF store_ok(2), of 5] by simp
qed

theorem readdir_complete_witness:
  "set (map fst (fst (readdir_calls (\<lambda>p. (True, p)) [\<lambda>_. False, \<lambda>_. True] 5 2 store2))) = {''f''}"
proof -
  have l: "look store2 5 = [''f'' \<mapsto> 6]" by (simp add: store2_eq dir_entry_def file_entry_def look_def dir_map_def)
  have d: "pdes store2 5 = Some (dir_entry\<lparr>e_subdir := Node Leaf 6 Leaf\<rparr>)" by (simp add: store2_eq)
  show ?thesis using readdir_complete [OF store_ok(2) d, of "\<lambda>p. (True, p)" "[\<lambda>_. False]"] l by (simp add: case_prod_beta dom_def del: readdir_calls.simps)
qed

end
