(* ===== verification/ProcRemove.thy ===== *)
theory ProcRemove imports ProcTree begin

text \<open>
  Sequences of operations on the tree of \<open>/proc\<close>: what is created can be removed again by the same name and leaves nothing
  behind; an entry in use outlives its removal; \<open>remove_proc_subtree\<close> ends and takes out all that is below an entry and nothing
  else; the links of a directory that \<open>proc_create_mount_point\<close> gets wrong.  Instances at the end show that every assumption can hold.
\<close>

section \<open>Paths and the contents of directories\<close>

lemma split_path: "\<exists>ns fn. cp = concat (map (\<lambda>n. n @ ''/'') ns) @ fn \<and> (\<forall>n \<in> set (fn # ns). CHR ''/'' \<notin> set n)"
proof (induction cp rule: length_induct)
  case (1 cp)
  show ?case
  proof (cases "CHR ''/'' \<in> set cp")
    case False
    then show ?thesis by (intro exI [of _ "[]"] exI [of _ cp]) simp
  next
    case True
    then obtain n rest where cp: "cp = n @ CHR ''/'' # rest" "CHR ''/'' \<notin> set n" by (metis split_list_first)
    then have "length rest < length cp" by simp
    then obtain ns fn where "rest = concat (map (\<lambda>n. n @ ''/'') ns) @ fn" "\<forall>n \<in> set (fn # ns). CHR ''/'' \<notin> set n"
      using "1.IH" by blast
    then show ?thesis using cp by (intro exI [of _ "n # ns"] exI [of _ fn]) simp
  qed
qed

lemma walk_mono: "(\<And>d. lk d \<subseteq>\<^sub>m lk' d) \<Longrightarrow> walk lk d ns = Some d' \<Longrightarrow> walk lk' d ns = Some d'"
proof (induction ns arbitrary: d)
  case (Cons n ns)
  then obtain d1 where "lk d n = Some d1" "walk lk d1 ns = Some d'" by (auto split: option.splits)
  moreover from this have "lk' d n = Some d1" using Cons.prems(1) [of d] by (auto simp: map_le_def dom_def)
  ultimately show ?case using Cons by simp
qed simp

lemma xlate_mono:
  assumes "tree_ok s" "tree_ok s'" "pdes s d \<noteq> None" "pdes s' d \<noteq> None" "\<And>d. look s d \<subseteq>\<^sub>m look s' d"
    and "xlate_proc_name s d cp = Some (d', fn)"
  shows "xlate_proc_name s' d cp = Some (d', fn)"
proof -
  obtain ns fn1 where cp: "cp = concat (map (\<lambda>n. n @ ''/'') ns) @ fn1" "\<forall>n \<in> set (fn1 # ns). CHR ''/'' \<notin> set n"
    using split_path by blast
  have "walk (look s) d ns = Some d'" "fn1 = fn" using assms(6) xlate_walk [OF assms(1,3) cp(2)] by (auto simp: cp(1))
  then show ?thesis using xlate_walk [OF assms(2,4) cp(2)] walk_mono [OF assms(5)] by (simp add: cp(1))
qed

section \<open>Creation and removal\<close>

lemma create_remove:
  assumes ok: "tree_ok s" "pdes s parent \<noteq> None" and lib: "rb_lib_ok L"
    and created: "creation_ok s parent name dn P (Inr (Some i, s'))"
  shows "\<exists>s'' dir ed ed' e. remove_proc_entry L name parent s' = (True, s'') \<and> tree_ok s'' \<and> look s'' = look s \<and> dom (pdes s'') = dom (pdes s)
    \<and> pdes s' i = Some e \<and> P e \<and> pdes s dir = Some ed \<and> pdes s'' dir = Some ed' \<and> (\<forall>j. j \<noteq> dir \<longrightarrow> pdes s'' j = pdes s j)
    \<and> e_nlink ed' = e_nlink ed + dn - (if S_ISDIR (e_mode e) then 1 else 0)"
proof -
  obtain dir fn ed e t where c: "xlate_proc_name s parent name = Some (dir, fn)" "pdes s dir = Some ed" "pdes s i = None"
    "look s dir fn = None" "tree_ok s'" "look s' = (look s)(dir := (look s dir)(fn \<mapsto> i))"
    "pdes s' = (pdes s)(dir \<mapsto> ed\<lparr>e_nlink := e_nlink ed + dn, e_subdir := t\<rparr>, i \<mapsto> e)" "e_count e = 1" "P e"
    using created unfolding creation_ok_def by auto
  have di: "dir \<noteq> i" using c(2,3) by auto
  have le: "look s d \<subseteq>\<^sub>m look s' d" for d using c(4) by (auto simp: c(6) map_le_def)
  have live: "pdes s' parent \<noteq> None" using ok(2) by (simp add: c(7))
  have x: "xlate_proc_name s' parent name = Some (dir, fn)" by (rule xlate_mono [OF ok(1) c(5) ok(2) live le c(1)])
  have l: "look s' dir fn = Some i" by (simp add: c(6))
  have e: "pdes s' i = Some e" by (simp add: c(7))
  note R = remove_entry_result [OF c(5) live lib, of name]
  obtain b s'' where r: "remove_proc_entry L name parent s' = (b, s'')" by (cases "remove_proc_entry L name parent s'")
  have b: "b" using R x l by (cases b) (auto simp: r)
  have d': "pdes s' dir = Some (ed\<lparr>e_nlink := e_nlink ed + dn, e_subdir := t\<rparr>)" using di by (simp add: c(7))
  obtain ed' where s'': "tree_ok s''" "look s'' = (look s')(dir := (look s' dir)(fn := None), i := Map.empty)"
    "pdes s'' i = None" "\<And>j. j \<noteq> i \<and> j \<noteq> dir \<Longrightarrow> pdes s'' j = pdes s' j" "pdes s'' dir = Some ed'"
    "e_nlink ed' = e_nlink ed + dn - (if S_ISDIR (e_mode e) then 1 else 0)"
    using R b x l e d' di c(8) by (auto simp: r)
  have "look s i = Map.empty" using c(3) by (simp add: look_def)
  then have "look s'' = look s" using c(4) di by (auto simp: s''(2) c(6) fun_eq_iff)
  moreover have "pdes s'' j = pdes s j" if "j \<noteq> dir" for j
    using that s''(3) s''(4) [of j] c(3) by (cases "j = i") (simp_all add: c(7))
  moreover from this have "dom (pdes s'') = dom (pdes s)" using c(2) s''(5) unfolding dom_def by (metis option.distinct(1))
  moreover have "remove_proc_entry L name parent s' = (True, s'')" using r b by simp
  ultimately show ?thesis using s''(1,5,6) e c(2,9) by blast
qed


lemma S_ISDIR_or: "and m S_IFMT = 0 \<Longrightarrow> S_ISDIR (or S_IFDIR m)"
  by (simp add: S_ISDIR_def bit.conj_disj_distrib2) (simp add: S_IFDIR_def mode_defs)

text \<open>C17.  A directory that is made and removed again by the same name leaves nothing behind: every look-up gives what it gave before, the memory is
  free again, and the directory it was in has its old number of links.\<close>

theorem mkdir_remove:
  assumes ok: "tree_ok s" "pdes s parent \<noteq> None" "env_ok C s" and lib: "rb_lib_ok L" and mode: "and mode S_IFMT = 0"
    and created: "proc_mkdir_data C name mode parent data s = Inr (Some i, s')"
  shows "\<exists>s'' dir ed ed'. remove_proc_entry L name parent s' = (True, s'') \<and> tree_ok s'' \<and> look s'' = look s
    \<and> pdes s dir = Some ed \<and> pdes s'' dir = Some ed' \<and> e_nlink ed' = e_nlink ed \<and> (\<forall>j. j \<noteq> dir \<longrightarrow> pdes s'' j = pdes s j)"
proof -
  define m where "m = or S_IFDIR (if mode = 0 then or S_IRUGO S_IXUGO else mode)"
  have "and (or S_IRUGO S_IXUGO) S_IFMT = 0" by (simp add: S_IRUGO_def S_IXUGO_def mode_defs)
  then have m: "S_ISDIR m" using mode by (simp add: m_def S_ISDIR_or)
  have "creation_ok s parent name 1 (\<lambda>e. e_mode e = m \<and> e_nlink e = 2 \<and> e_data e = data) (Inr (Some i, s'))"
    using mkdir_data_ok [OF ok, of name mode data] unfolding created m_def .
  from create_remove [OF ok(1,2) lib this]
  obtain s'' dir ed ed' e where r: "remove_proc_entry L name parent s' = (True, s'')" "tree_ok s''" "look s'' = look s" "e_mode (e :: pde_entry) = m"
    "pdes s dir = Some ed" "pdes s'' dir = Some ed'" "\<forall>j. j \<noteq> dir \<longrightarrow> pdes s'' j = pdes s j"
    "e_nlink ed' = e_nlink ed + 1 - (if S_ISDIR (e_mode e) then 1 else 0)" by blast
  have "e_nlink ed' = e_nlink ed" using r(8) m by (simp add: r(4))
  then show ?thesis using r by blast
qed

section \<open>Mount points\<close>

lemma mount_point_ok:
  assumes ok: "tree_ok s" and env: "env_ok C s"
  obtains "proc_create_mount_point C name s = Inr (None, s)"
  | dir ed where "pdes s dir = Some ed" "proc_create_mount_point C name s = Inr (None, s\<lparr>pdes := (pdes s)(dir \<mapsto> ed\<lparr>e_nlink := e_nlink ed - 1\<rparr>)\<rparr>)"
  | i s' where "proc_create_mount_point C name s = Inr (Some i, s')" "creation_ok s proc_root name 0 is_empty_pde (Inr (Some i, s'))"
proof -
  define m where "m = or S_IFDIR (or S_IRUGO S_IXUGO)"
  have "and (or S_IRUGO S_IXUGO) S_IFMT = 0" by (simp add: S_IRUGO_def S_IXUGO_def mode_defs)
  then have m: "S_ISDIR m" by (simp add: m_def S_ISDIR_or)
  note unf = proc_create_mount_point_def m_def [symmetric]
  have root: "pdes s proc_root \<noteq> None" using ok by (simp add: tree_ok_def)
  show thesis
  proof (rule create0_cases [OF ok root env, of name m 2])
    assume "proc_create0 C proc_root name m 2 s = None"
    then show thesis by (intro that(1)) (simp add: unf)
  next
    fix dir fn i ed
    assume c: "proc_create0 C proc_root name m 2 s = Some (dir, i, s\<lparr>pdes := (pdes s)(i \<mapsto> fresh_pde ed fn m 2)\<rparr>)"
      "xlate_proc_name s proc_root name = Some (dir, fn)" "good_name fn" "pdes s dir = Some ed" "pdes s i = None"
    define e where "e = fresh_pde ed fn m 2"
    have e: "e_subdir e = Leaf" "e_name e = fn" "e_count e = 1" "e_uid e = e_uid ed" "e_gid e = e_gid ed"
      "\<And>k d. is_empty_pde (e\<lparr>e_low_ino := k, e_parent := d\<rparr>)"
      by (simp_all add: e_def fresh_pde_def is_empty_pde_def m)
    have u: "s\<lparr>pdes := (pdes s)(i \<mapsto> fresh_pde ed fn m 2)\<rparr> = s\<lparr>pdes := (pdes s)(dir \<mapsto> ed\<lparr>e_nlink := e_nlink ed + 0\<rparr>, i \<mapsto> e)\<rparr>"
      using store_triv(1) [OF c(4)] by (simp add: e_def)
    obtain ret s2 where r: "proc_register C dir i (s\<lparr>pdes := (pdes s)(dir \<mapsto> ed\<lparr>e_nlink := e_nlink ed + 0\<rparr>, i \<mapsto> e)\<rparr>) = Inr (ret, s2)"
      "ret < 0 \<Longrightarrow> kfree_pde i s2 = s\<lparr>pdes := (pdes s)(dir \<mapsto> ed\<lparr>e_nlink := e_nlink ed + 0\<rparr>)\<rparr>"
      "\<not> ret < 0 \<Longrightarrow> creation_ok s proc_root name 0 is_empty_pde (Inr (Some i, s2))"
      by (rule creation_finish [where P = is_empty_pde and dn = 0, OF ok env c(2-5) e]) blast
    have p: "proc_create_mount_point C name s =
        (if ret < 0 then Inr (None, upd_pde dir (\<lambda>e. e\<lparr>e_nlink := e_nlink e - 1\<rparr>) (kfree_pde i s2)) else Inr (Some i, s2))"
      unfolding unf c(1) option.case prod.case u r(1) sum.case ..
    show thesis
    proof (cases "ret < 0")
      case True
      then have "kfree_pde i s2 = s" using r(2) store_triv(2) [OF c(4)] by simp
      then have "proc_create_mount_point C name s = Inr (None, upd_pde dir (\<lambda>e. e\<lparr>e_nlink := e_nlink e - 1\<rparr>) s)"
        using p True by simp
      then show thesis by (intro that(2) [OF c(4)]) (simp add: upd_pde_def c(4))
    next
      case False
      then show thesis using that(3) [of i s2] p r(3) by simp
    qed
  qed
qed

text \<open>A mount point that is made and removed again leaves its directory with one link less than before, for creation does not count it and
  removal does; and nothing can ever be made in a mount point.\<close>

theorem mount_point_links:
  assumes ok: "tree_ok s" and env: "env_ok C s" and lib: "rb_lib_ok L" and created: "proc_create_mount_point C name s = Inr (Some i, s')"
  shows "(\<exists>s'' dir ed ed'. remove_proc_entry L name proc_root s' = (True, s'') \<and> look s'' = look s
      \<and> pdes s dir = Some ed \<and> pdes s'' dir = Some ed' \<and> e_nlink ed' = e_nlink ed - 1)
    \<and> (\<forall>C' fn mode nlink. CHR ''/'' \<notin> set fn \<longrightarrow> proc_create0 C' i fn mode nlink s' = None)"
proof
  have c: "creation_ok s proc_root name 0 is_empty_pde (Inr (Some i, s'))"
    by (rule mount_point_ok [OF ok env, of name]) (simp_all add: created)
  have root: "pdes s proc_root \<noteq> None" using ok by (simp add: tree_ok_def)
  obtain s'' dir ed ed' e where r: "remove_proc_entry L name proc_root s' = (True, s'')" "look s'' = look s" "pdes s' i = Some e" "is_empty_pde e"
    "pdes s dir = Some ed" "pdes s'' dir = Some ed'" "e_nlink ed' = e_nlink ed + 0 - (if S_ISDIR (e_mode e) then 1 else 0)"
    using create_remove [OF ok root lib c] by blast
  have "e_nlink ed' = e_nlink ed - 1" using r(4,7) by (simp add: is_empty_pde_def)
  then show "\<exists>s'' dir ed ed'. remove_proc_entry L name proc_root s' = (True, s'') \<and> look s'' = look s
      \<and> pdes s dir = Some ed \<and> pdes s'' dir = Some ed' \<and> e_nlink ed' = e_nlink ed - 1" using r by blast
  show "\<forall>C' fn mode nlink. CHR ''/'' \<notin> set fn \<longrightarrow> proc_create0 C' i fn mode nlink s' = None"
    using r(3,4) by (simp add: proc_create0_def xlate_last)
qed

section \<open>Entries in use\<close>

text \<open>An entry that was looked up outlives its removal: its name is free at once, it stays in memory without links, and the reference that the
  look-up took frees it when it is put.\<close>

theorem removed_in_use:
  assumes ok: "tree_ok s" "pdes s parent \<noteq> None" and lib: "rb_lib_ok L" and x: "xlate_proc_name s parent name = Some (dir, fn)"
    and found: "proc_lookup_de True dir fn s = (0, Some i, s1)"
  shows "\<exists>s2 e. remove_proc_entry L name parent s1 = (True, s2) \<and> tree_ok s2 \<and> look s2 dir fn = None
    \<and> pdes s2 i = Some e \<and> e_name e = fn \<and> e_nlink e = 0 \<and> e_count e = e_count (ent s i)
    \<and> (e_count e = 1 \<longrightarrow> pdes (pde_put i s2) i = None)"
proof -
  have d: "pdes s dir \<noteq> None" using xlate_live [OF ok x] by blast
  have l: "look s dir fn = Some i" "s1 = pde_get i s"
    using proc_lookup_spec [OF ok(1) d, of True fn] found by (auto simp: ENOENT_def split: option.splits)
  obtain e0 where e0: "pdes s i = Some e0" "i \<noteq> proc_root" using look_live [OF ok(1) l(1)] by blast
  have s1: "tree_ok s1" "look s1 = look s" using get_result(1) [OF ok(1) e0(1)] by (simp_all add: l(2))
  have e1: "pdes s1 i = Some (e0\<lparr>e_count := e_count e0 + 1\<rparr>)" using e0 by (simp add: l(2) pde_get_def)
  have live: "pdes s1 parent \<noteq> None" using ok(2) e0(1) by (simp add: l(2) pde_get_def)
  have x1: "xlate_proc_name s1 parent name = Some (dir, fn)"
    by (rule xlate_mono [OF ok(1) s1(1) ok(2) live _ x]) (simp add: s1(2))
  obtain b s2 where r: "remove_proc_entry L name parent s1 = (b, s2)" by (cases "remove_proc_entry L name parent s1")
  note R = remove_entry_result [OF s1(1) live lib, of name, unfolded r prod.case]
  have b: "b" using R x1 l(1) by (cases b) (auto simp: s1(2))
  have c0: "0 < e_count e0" using tree_okD(2) [OF ok(1) e0(1)] .
  obtain e where e: "tree_ok s2" "look s2 = (look s)(dir := (look s dir)(fn := None))" "pdes s2 i = Some e" "e_name e = fn" "e_count e = e_count e0" "e_nlink e = 0"
    using R b x1 l(1) e1 c0 by (auto simp: s1(2))
  have "pdes (pde_put i s2) i = None" if "e_count e = 1"
    using that e(3) by (simp add: pde_put_def Let_def free_proc_entry_def kfree_pde_def)
  then show ?thesis using r b e e0(1) by simp
qed

section \<open>Instances\<close>

theorem mkdir_remove_witness:
  "\<exists>s''. proc_mkdir_data (some_env 5) ''d'' 0 proc_root NoData store0 = Inr (Some 5, store1)
     \<and> remove_proc_entry list_rb ''d'' proc_root store1 = (True, s'') \<and> tree_ok s'' \<and> look s'' = look store0 \<and> pdes s'' 5 = None"
proof -
  have e: "env_ok (some_env 5) store0" by (rule some_env_ok) (simp_all add: store0_def proc_root_def)
  obtain s'' dir ed ed' where r: "remove_proc_entry list_rb ''d'' proc_root store1 = (True, s'')" "tree_ok s''" "look s'' = look store0"
    "pdes store0 dir = Some ed" "\<forall>j. j \<noteq> dir \<longrightarrow> pdes s'' j = pdes store0 j"
    using mkdir_remove [OF store0_ok e list_rb_ok _ store1_made] by auto
  have "dir = proc_root" using r(4) by (auto simp: store0_def split: if_splits)
  then have "pdes s'' 5 = None" using r(5) by (simp add: store0_def proc_root_def)
  then show ?thesis using r store1_made by blast
qed

definition store_m :: proc_fs where
  "store_m = (case proc_create_mount_point (some_env 5) ''m'' store0 of Inr (_, s) \<Rightarrow> s | Inl _ \<Rightarrow> store0)"

lemma store_m_made: "proc_create_mount_point (some_env 5) ''m'' store0 = Inr (Some 5, store_m)"
  unfolding store_m_def by (simp add: proc_create_mount_point_def eval_create store0_def root_entry_def)

theorem mount_point_links_witness:
  "\<exists>s''. remove_proc_entry list_rb ''m'' proc_root store_m = (True, s'') \<and> e_nlink (ent s'' proc_root) = 1 \<and> e_nlink (ent store0 proc_root) = 2
     \<and> proc_create0 (some_env 6) 5 ''f'' 0 1 store_m = None"
proof -
  have e: "env_ok (some_env 5) store0" by (rule some_env_ok) (simp_all add: store0_def proc_root_def)
  note M = mount_point_links [OF store0_ok(1) e list_rb_ok store_m_made]
  obtain s'' dir ed ed' where r: "remove_proc_entry list_rb ''m'' proc_root store_m = (True, s'')"
    "pdes store0 dir = Some ed" "pdes s'' dir = Some ed'" "e_nlink ed' = e_nlink ed - 1"
    using conjunct1 [OF M] by blast
  have "dir = proc_root" "ed = root_entry" using r(2) by (auto simp: store0_def split: if_splits)
  then have "e_nlink (ent s'' proc_root) = 1" "e_nlink (ent store0 proc_root) = 2" using r(2-4) by (simp_all add: root_entry_def)
  moreover have "proc_create0 (some_env 6) 5 ''f'' 0 1 store_m = None" using conjunct2 [OF M] by simp
  ultimately show ?thesis using r(1) by blast
qed

theorem removed_in_use_witness:
  "\<exists>s2. remove_proc_entry list_rb ''d/f'' proc_root (pde_get 6 store2) = (True, s2) \<and> look s2 5 ''f'' = None \<and> pdes s2 6 \<noteq> None
     \<and> pdes (pde_put 6 s2) 6 = None"
proof -
  have x: "xlate_proc_name store2 proc_root ''d/f'' = Some (5, ''f'')" by (simp add: eval_create store2_eq dir_entry_def)
  have l: "look store2 5 ''f'' = Some 6" "pdes store2 5 \<noteq> None" by (simp_all add: store2_eq dir_entry_def file_entry_def look_def dir_map_def)
  then have f: "proc_lookup_de True 5 ''f'' store2 = (0, Some 6, pde_get 6 store2)"
    using find_look [OF store_ok(2)] by (auto simp: proc_lookup_de_def)
  have "e_count (ent store2 6) = 1" by (simp add: store2_eq file_entry_def)
  then show ?thesis using removed_in_use [OF store_ok(2,4) list_rb_ok x f] by auto
qed

end
