(* ===== verification/ProcSubtree.thy ===== *)
theory ProcSubtree imports ProcRemove begin

text \<open>
  \<open>remove_proc_subtree\<close>: its loop goes down and up through the entries below one without a stack, finding its way back by
  the \<open>parent\<close> pointers.  It refines the recursive removal \<open>purge\<close> of a tree of entries; every entry has such a tree when
  the store is finite and no directory lies below itself, which creation and removal keep.  So the loop ends, and what is gone is exactly what was
  below the entry.
\<close>

section \<open>Trees of entries\<close>

datatype ptree = PNode (root_of: nat) (below: "ptree list")

fun nodes :: "ptree \<Rightarrow> nat list" where
  "nodes (PNode i ts) = i # concat (map nodes ts)"

fun rep :: "proc_fs \<Rightarrow> ptree \<Rightarrow> bool" where
  "rep s (PNode i ts) \<longleftrightarrow> (\<exists>e. pdes s i = Some e \<and> inorder (e_subdir e) = map root_of ts) \<and> (\<forall>t \<in> set ts. rep s t)"

text \<open>The rounds of the loop that a tree takes.\<close>

fun cost :: "ptree \<Rightarrow> nat" where
  "cost (PNode i ts) = Suc (sum_list (map (\<lambda>t. Suc (cost t)) ts))"

text \<open>The recursive removal of a tree below the entry \<open>p\<close> that holds it no more.\<close>

fun purge :: "nat rb_lib \<Rightarrow> nat \<Rightarrow> ptree \<Rightarrow> proc_fs \<Rightarrow> proc_fs" where
  "purge L p (PNode i ts) s =
     pde_put i (unlink_counts p i (fold (\<lambda>t s. purge L i t (rb_erase_from L i (root_of t) s)) ts s))"

definition purge_all :: "nat rb_lib \<Rightarrow> nat \<Rightarrow> ptree list \<Rightarrow> proc_fs \<Rightarrow> proc_fs" where
  "purge_all L i ts s = fold (\<lambda>t s. purge L i t (rb_erase_from L i (root_of t) s)) ts s"

lemma purge_all_simps [simp]:
  "purge_all L i [] s = s" "purge_all L i (t # ts) s = purge_all L i ts (purge L i t (rb_erase_from L i (root_of t) s))"
  by (simp_all add: purge_all_def)

lemma root_in [simp]: "root_of t \<in> set (nodes t)"
  by (cases t) simp

lemma cost_nodes: "cost t + 1 = 2 * length (nodes t)"
proof (induction t)
  case (PNode i ts)
  then have "sum_list (map (\<lambda>t. Suc (cost t)) ts) = 2 * length (concat (map nodes ts))" by (induction ts) auto
  then show ?case by simp
qed

lemma rep_cong: "(\<And>j. j \<in> set (nodes t) \<Longrightarrow> pdes s' j = pdes s j) \<Longrightarrow> rep s' t = rep s t"
  by (induction t) auto

text \<open>Between two states, the entries \<open>N\<close> have been taken out, each one freed unless it is in use; the entry \<open>p\<close> may have lost links; nothing
  else has changed.\<close>

definition put_once :: "pde_entry \<Rightarrow> pde_entry option" where
  "put_once e = (if e_count e = 1 then None else Some (e\<lparr>e_subdir := Leaf, e_nlink := 0, e_count := e_count e - 1\<rparr>))"

definition cleared :: "nat \<Rightarrow> nat set \<Rightarrow> proc_fs \<Rightarrow> proc_fs \<Rightarrow> bool" where
  "cleared p N s s' \<longleftrightarrow> tree_ok s' \<and> (\<forall>j. j \<notin> N \<and> j \<noteq> p \<longrightarrow> pdes s' j = pdes s j)
     \<and> (\<forall>e. pdes s p = Some e \<longrightarrow> (\<exists>n. pdes s' p = Some (e\<lparr>e_nlink := n\<rparr>)))
     \<and> (\<forall>j e. j \<in> N \<and> pdes s j = Some e \<longrightarrow> pdes s' j = put_once e)
     \<and> (\<forall>d. look s' d = (if d \<in> N then Map.empty else look s d))"

definition detached :: "proc_fs \<Rightarrow> nat \<Rightarrow> bool" where
  "detached s i \<longleftrightarrow> (\<forall>d n. look s d n \<noteq> Some i)"

lemma detachedD: "tree_ok s \<Longrightarrow> detached s i \<Longrightarrow> pdes s d = Some x \<Longrightarrow> i \<notin> set (inorder (e_subdir x))"
  unfolding detached_def using look_Some [of s d "name_of s i" i] by blast

text \<open>The last steps for one entry whose directory is empty.\<close>

lemma clear_entry:
  assumes ok: "tree_ok s" and i: "pdes s i = Some e" "e_subdir e = Leaf" "i \<noteq> proc_root" "detached s i" and p: "p \<noteq> i"
  shows "cleared p {i} s (pde_put i (unlink_counts p i s))"
proof -
  define s2 where "s2 = unlink_counts p i s"
  have U: "tree_ok s2" "look s2 = look s" using unlink_result [OF ok i(1)] by (simp_all add: s2_def)
  have out: "i \<notin> set (inorder (e_subdir x))" if "pdes s2 d = Some x" for d x
    using detachedD [OF U(1) _ that] i(4) by (simp add: detached_def U(2))
  have e2: "pdes s2 i = Some (e\<lparr>e_nlink := 0\<rparr>)" by (simp add: s2_def unlink_simps(1) [OF i(1)])
  have P: "tree_ok (pde_put i s2)" "look (pde_put i s2) = (if e_count e = 1 then (look s)(i := Map.empty) else look s)"
    "pdes (pde_put i s2) = (if e_count e = 1 then (pdes s2)(i := None) else (pdes s2)(i \<mapsto> e\<lparr>e_nlink := 0, e_count := e_count e - 1\<rparr>))"
    using put_result [OF U(1) e2 i(3)] out by (simp_all add: U(2))
  have l: "look s i = Map.empty" by (simp add: look_def i dir_map_def)
  have "look (pde_put i s2) d = (if d \<in> {i} then Map.empty else look s d)" for d using P(2) l by simp
  moreover have "pdes (pde_put i s2) i = put_once e" using P(3) i(2) by (cases e) (simp add: put_once_def)
  moreover have "pdes (pde_put i s2) j = pdes s j" if "j \<noteq> i" "j \<noteq> p" for j
  proof -
    have "pdes s2 j = pdes s j" using that by (simp add: s2_def unlink_simps(1) [OF i(1)])
    then show ?thesis using that by (simp add: P(3))
  qed
  moreover have "\<exists>n. pdes (pde_put i s2) p = Some (x\<lparr>e_nlink := n\<rparr>)" if x: "pdes s p = Some x" for x
  proof -
    have "pdes (pde_put i s2) p = pdes s2 p" using p by (simp add: P(3))
    moreover have "pdes s2 p = Some (x\<lparr>e_nlink := if S_ISDIR (e_mode e) then e_nlink x - 1 else e_nlink x\<rparr>)"
      using p x by (simp add: s2_def unlink_simps(1) [OF i(1)])
    ultimately have "pdes (pde_put i s2) p = Some (x\<lparr>e_nlink := if S_ISDIR (e_mode e) then e_nlink x - 1 else e_nlink x\<rparr>)" by simp
    then show ?thesis by (rule exI)
  qed
  ultimately show ?thesis using P(1) i(1) unfolding cleared_def s2_def by simp
qed


text \<open>Between two states, all that was below the directory \<open>i\<close> has been taken out.\<close>

definition emptied :: "nat \<Rightarrow> nat set \<Rightarrow> proc_fs \<Rightarrow> proc_fs \<Rightarrow> bool" where
  "emptied i N s s' \<longleftrightarrow> tree_ok s' \<and> (\<forall>j. j \<notin> N \<and> j \<noteq> i \<longrightarrow> pdes s' j = pdes s j)
     \<and> (\<forall>e. pdes s i = Some e \<longrightarrow> (\<exists>n. pdes s' i = Some (e\<lparr>e_subdir := Leaf, e_nlink := n\<rparr>)))
     \<and> (\<forall>j e. j \<in> N \<and> pdes s j = Some e \<longrightarrow> pdes s' j = put_once e)
     \<and> (\<forall>d. look s' d = (if d \<in> insert i N then Map.empty else look s d))"

lemma emptied_none: "tree_ok s \<Longrightarrow> pdes s i = Some e \<Longrightarrow> e_subdir e = Leaf \<Longrightarrow> emptied i {} s s"
proof -
  assume a: "tree_ok s" "pdes s i = Some e" "e_subdir e = Leaf"
  then have "pdes s i = Some (e\<lparr>e_subdir := Leaf, e_nlink := e_nlink e\<rparr>)" "look s i = Map.empty" by (simp_all add: look_def dir_map_def)
  moreover from this(1) have "\<exists>n. pdes s i = Some (e\<lparr>e_subdir := Leaf, e_nlink := n\<rparr>)" by (rule exI)
  ultimately show ?thesis using a(1,2) unfolding emptied_def by simp
qed

lemma emptied_step:
  assumes i: "pdes s i = Some e" "i \<notin> M" "i \<notin> N" "M \<inter> N = {}"
    and s1: "pdes s1 = (pdes s)(i \<mapsto> e\<lparr>e_subdir := t\<rparr>)" "\<And>d. d \<noteq> i \<Longrightarrow> look s1 d = look s d"
    and c: "cleared i M s1 s2" "emptied i N s2 s3"
  shows "emptied i (M \<union> N) s s3"
  unfolding emptied_def
proof (intro conjI allI impI)
  show "tree_ok s3" using c(2) by (simp add: emptied_def)
  have same: "pdes s1 j = pdes s j" if "j \<noteq> i" for j using that by (simp add: s1(1))
  show "pdes s3 j = pdes s j" if "j \<notin> M \<union> N \<and> j \<noteq> i" for j
    using c that same [of j] unfolding cleared_def emptied_def by (metis Un_iff)
  show "\<exists>n. pdes s3 i = Some (x\<lparr>e_subdir := Leaf, e_nlink := n\<rparr>)" if x: "pdes s i = Some x" for x
  proof -
    have "pdes s1 i = Some (e\<lparr>e_subdir := t\<rparr>)" by (simp add: s1(1))
    then obtain n where n: "pdes s2 i = Some (e\<lparr>e_subdir := t\<rparr>\<lparr>e_nlink := n\<rparr>)" using c(1) unfolding cleared_def by blast
    have "\<exists>m. pdes s3 i = Some (e\<lparr>e_subdir := t\<rparr>\<lparr>e_nlink := n\<rparr>\<lparr>e_subdir := Leaf, e_nlink := m\<rparr>)"
      using c(2) n unfolding emptied_def by blast
    then show ?thesis using x i(1) by simp
  qed
  show "pdes s3 j = put_once x" if j: "j \<in> M \<union> N \<and> pdes s j = Some x" for j x
  proof (cases "j \<in> M")
    case True
    then have n: "j \<notin> N" "j \<noteq> i" using i by blast+
    then have "pdes s3 j = pdes s2 j" using c(2) unfolding emptied_def by blast
    then show ?thesis using c(1) True j n(2) same [of j] unfolding cleared_def by simp
  next
    case False
    then have n: "j \<in> N" "j \<noteq> i" using i(3) j by blast+
    then have "pdes s2 j = Some x" using c(1) j False same [of j] unfolding cleared_def by simp
    then show ?thesis using c(2) n unfolding emptied_def by blast
  qed
  show "look s3 d = (if d \<in> insert i (M \<union> N) then Map.empty else look s d)" for d
    using c s1(2) [of d] unfolding cleared_def emptied_def by simp
qed

lemma emptied_clear:
  assumes e: "emptied i N s s1" and c: "cleared p {i} s1 s2" and i: "pdes s i = Some e" "i \<notin> N" "p \<notin> insert i N"
  shows "cleared p (insert i N) s s2"
  unfolding cleared_def
proof (intro conjI allI impI)
  show "tree_ok s2" using c by (simp add: cleared_def)
  show "pdes s2 j = pdes s j" if "j \<notin> insert i N \<and> j \<noteq> p" for j using that c e unfolding cleared_def emptied_def by simp
  show "\<exists>n. pdes s2 p = Some (x\<lparr>e_nlink := n\<rparr>)" if x: "pdes s p = Some x" for x
  proof -
    have "pdes s1 p = Some x" using e i x unfolding emptied_def by simp
    then show ?thesis using c unfolding cleared_def by blast
  qed
  show "pdes s2 j = put_once x" if j: "j \<in> insert i N \<and> pdes s j = Some x" for j x
  proof (cases "j = i")
    case True
    obtain n where "pdes s1 i = Some (e\<lparr>e_subdir := Leaf, e_nlink := n\<rparr>)" using e i(1) unfolding emptied_def by blast
    then have "pdes s2 i = put_once (e\<lparr>e_subdir := Leaf, e_nlink := n\<rparr>)" using c unfolding cleared_def by blast
    then show ?thesis using True j i(1) by (simp add: put_once_def)
  next
    case False
    then have "j \<in> N" "j \<noteq> p" using j i(3) by blast+
    then have "pdes s1 j = put_once x" using e j unfolding emptied_def by blast
    then show ?thesis using c False \<open>j \<noteq> p\<close> unfolding cleared_def by simp
  qed
  show "look s2 d = (if d \<in> insert i N then Map.empty else look s d)" for d
    using c e unfolding cleared_def emptied_def by simp
qed

section \<open>The loop removes the tree\<close>

lemma erase_first:
  assumes ok: "tree_ok s" and lib: "rb_lib_ok L" and i: "pdes s i = Some e" "inorder (e_subdir e) = r # rest"
  obtains t where "tree_ok (rb_erase_from L i r s)" "pdes (rb_erase_from L i r s) = (pdes s)(i \<mapsto> e\<lparr>e_subdir := t\<rparr>)" "inorder t = rest"
    "detached (rb_erase_from L i r s) r" "\<And>d. d \<noteq> i \<Longrightarrow> look (rb_erase_from L i r s) d = look s d"
proof -
  define s1 where "s1 = rb_erase_from L i r s"
  have r: "r \<in> set (inorder (e_subdir e))" by (simp add: i(2))
  have E: "tree_ok s1" "look s1 = (look s)(i := (look s i)(name_of s r := None))" "pdes s1 = (pdes s)(i \<mapsto> e\<lparr>e_subdir := erase L r (e_subdir e)\<rparr>)"
    "\<And>d x. pdes s1 d = Some x \<Longrightarrow> r \<notin> set (inorder (e_subdir x))"
    using erase_result [OF ok lib i(1) r] by (auto simp: s1_def)
  have "inorder (erase L r (e_subdir e)) = remove1 r (inorder (e_subdir e))" using lib r unfolding rb_lib_ok_def by blast
  then have "inorder (erase L r (e_subdir e)) = rest" by (simp add: i(2))
  moreover have "detached s1 r" using E(4) by (auto simp: detached_def look_Some [OF E(1)])
  ultimately show thesis using that [of "erase L r (e_subdir e)"] E(1-3) by (simp add: s1_def)
qed

definition purge_ok :: "nat rb_lib \<Rightarrow> ptree \<Rightarrow> bool" where
  "purge_ok L t \<longleftrightarrow> (\<forall>p s. tree_ok s \<and> rep s t \<and> distinct (nodes t) \<and> p \<notin> set (nodes t) \<and> proc_root \<notin> set (nodes t) \<and> detached s (root_of t) \<longrightarrow>
     cleared p (set (nodes t)) s (purge L p t s)
     \<and> (\<forall>root fuel. root \<notin> set (nodes t) \<and> e_parent (ent s (root_of t)) = p \<longrightarrow>
          remove_subtree_loop L root (fuel + cost t) (root_of t) s = remove_subtree_loop L root fuel p (purge L p t s)))"

lemma purge_all_ok:
  assumes "\<forall>t \<in> set ts. purge_ok L t" and lib: "rb_lib_ok L"
    and "tree_ok s" "pdes s i = Some e" "inorder (e_subdir e) = map root_of ts" "\<forall>t \<in> set ts. rep s t"
    and "distinct (i # concat (map nodes ts))" "proc_root \<notin> set (concat (map nodes ts))"
  shows "emptied i (set (concat (map nodes ts))) s (purge_all L i ts s)
    \<and> (\<forall>root fuel. root \<notin> set (concat (map nodes ts)) \<longrightarrow>
        remove_subtree_loop L root (fuel + sum_list (map (\<lambda>t. Suc (cost t)) ts)) i s = remove_subtree_loop L root fuel i (purge_all L i ts s))"
  using assms(1,3-)
proof (induction ts arbitrary: s e)
  case Nil
  then have "e_subdir e = Leaf" by (cases "e_subdir e") simp_all
  then show ?case using emptied_none [OF Nil.prems(2,3)] by simp
next
  case (Cons t ts)
  have first: "inorder (e_subdir e) = root_of t # map root_of ts" using Cons.prems(4) by simp
  define s1 where "s1 = rb_erase_from L i (root_of t) s"
  obtain u where s1: "tree_ok s1" "pdes s1 = (pdes s)(i \<mapsto> e\<lparr>e_subdir := u\<rparr>)" "inorder u = map root_of ts" "detached s1 (root_of t)"
    "\<And>d. d \<noteq> i \<Longrightarrow> look s1 d = look s d"
    by (rule erase_first [OF Cons.prems(2) lib Cons.prems(3) first]) (auto simp: s1_def)
  have out: "i \<notin> set (nodes t)" "i \<notin> set (concat (map nodes ts))" "set (nodes t) \<inter> set (concat (map nodes ts)) = {}"
    "distinct (nodes t)" "distinct (concat (map nodes ts))" "proc_root \<notin> set (nodes t)" "proc_root \<notin> set (concat (map nodes ts))"
    using Cons.prems(6,7) by auto
  have "rep s1 t = rep s t" by (rule rep_cong) (use out(1) in \<open>auto simp: s1(2)\<close>)
  then have "rep s1 t" using Cons.prems(5) by simp
  then have T: "cleared i (set (nodes t)) s1 (purge L i t s1)"
    "\<And>root fuel. root \<notin> set (nodes t) \<Longrightarrow> e_parent (ent s1 (root_of t)) = i \<Longrightarrow>
      remove_subtree_loop L root (fuel + cost t) (root_of t) s1 = remove_subtree_loop L root fuel i (purge L i t s1)"
    using Cons.prems(1) s1(1,4) out unfolding purge_ok_def by auto
  define s2 where "s2 = purge L i t s1"
  have c: "cleared i (set (nodes t)) s1 s2" using T(1) by (simp add: s2_def)
  obtain n where i2: "pdes s2 i = Some (e\<lparr>e_subdir := u, e_nlink := n\<rparr>)"
  proof -
    have "pdes s1 i = Some (e\<lparr>e_subdir := u\<rparr>)" by (simp add: s1(2))
    then have "\<exists>n. pdes s2 i = Some (e\<lparr>e_subdir := u\<rparr>\<lparr>e_nlink := n\<rparr>)" using c unfolding cleared_def by blast
    then show thesis using that by auto
  qed
  have "rep s2 t'" if t': "t' \<in> set ts" for t'
  proof -
    have "pdes s2 j = pdes s j" if j: "j \<in> set (nodes t')" for j
    proof -
      have "j \<in> set (concat (map nodes ts))" using t' j by auto
      then have "j \<notin> set (nodes t)" "j \<noteq> i" using out by blast+
      then show ?thesis using c unfolding cleared_def by (simp add: s1(2))
    qed
    then show ?thesis using rep_cong [of t' s2 s] Cons.prems(5) t' by simp
  qed
  moreover have "tree_ok s2" using c by (simp add: cleared_def)
  ultimately have IH: "emptied i (set (concat (map nodes ts))) s2 (purge_all L i ts s2)"
    "\<And>root fuel. root \<notin> set (concat (map nodes ts)) \<Longrightarrow>
        remove_subtree_loop L root (fuel + sum_list (map (\<lambda>t. Suc (cost t)) ts)) i s2 = remove_subtree_loop L root fuel i (purge_all L i ts s2)"
    using Cons.IH [OF _ _ i2] Cons.prems(1) s1(3) out by simp_all
  have whole: "purge_all L i (t # ts) s = purge_all L i ts s2" by (simp add: s1_def s2_def)
  have "emptied i (set (nodes t) \<union> set (concat (map nodes ts))) s (purge_all L i ts s2)"
    by (rule emptied_step [OF Cons.prems(3) out(1-3) s1(2,5) c IH(1)])
  moreover have "remove_subtree_loop L root (fuel + sum_list (map (\<lambda>t. Suc (cost t)) (t # ts))) i s = remove_subtree_loop L root fuel i (purge_all L i ts s2)"
    if root: "root \<notin> set (concat (map nodes (t # ts)))" for root fuel
  proof -
    define rest where "rest = fuel + sum_list (map (\<lambda>t. Suc (cost t)) ts)"
    have "root_of t \<noteq> i" using out(1) root_in by metis
    moreover have "\<exists>ec. pdes s (root_of t) = Some ec \<and> e_parent ec = i" using tree_okD(3) [OF Cons.prems(2,3)] first by fastforce
    ultimately have p: "e_parent (ent s1 (root_of t)) = i" by (auto simp: s1(2))
    have "remove_subtree_loop L root (Suc (rest + cost t)) i s = remove_subtree_loop L root (rest + cost t) (root_of t) s1"
      using Cons.prems(3) first by (simp add: s1_def)
    also have "\<dots> = remove_subtree_loop L root rest i s2" using T(2) [OF _ p] root by (simp add: s2_def)
    also have "\<dots> = remove_subtree_loop L root fuel i (purge_all L i ts s2)" using IH(2) root by (simp add: rest_def)
    finally show ?thesis by (simp add: rest_def add_ac)
  qed
  ultimately show ?case unfolding whole by simp
qed


lemma every_purge_ok:
  assumes lib: "rb_lib_ok L"
  shows "purge_ok L t"
proof (induction t)
  case (PNode i ts)
  define N where "N = set (concat (map nodes ts))"
  show ?case unfolding purge_ok_def
  proof (intro allI impI, elim conjE, goal_cases)
    case (1 p s)
    obtain e where e: "pdes s i = Some e" "inorder (e_subdir e) = map root_of ts" using 1(2) by auto
    define s1 where "s1 = purge_all L i ts s"
    have out: "i \<notin> N" "p \<notin> insert i N" "i \<noteq> proc_root" "set (nodes (PNode i ts)) = insert i N" using 1(3-5) by (auto simp: N_def)
    have A: "emptied i N s s1"
      "\<And>root fuel. root \<notin> N \<Longrightarrow> remove_subtree_loop L root (fuel + sum_list (map (\<lambda>t. Suc (cost t)) ts)) i s = remove_subtree_loop L root fuel i s1"
      using purge_all_ok [OF _ lib 1(1) e] PNode.IH 1(2,3,5) by (simp_all add: N_def s1_def)
    obtain n where i1: "pdes s1 i = Some (e\<lparr>e_subdir := Leaf, e_nlink := n\<rparr>)" using A(1) e(1) unfolding emptied_def by blast
    have ok1: "tree_ok s1" using A(1) by (simp add: emptied_def)
    have det: "detached s1 i" using A(1) 1(6) unfolding emptied_def detached_def by simp
    have c: "cleared p {i} s1 (pde_put i (unlink_counts p i s1))"
      by (rule clear_entry [OF ok1 i1 _ out(3) det]) (use out(2) in simp_all)
    have w: "purge L p (PNode i ts) s = pde_put i (unlink_counts p i s1)" by (simp add: s1_def purge_all_def)
    have "remove_subtree_loop L root (fuel + cost (PNode i ts)) i s = remove_subtree_loop L root fuel p (pde_put i (unlink_counts p i s1))"
      if root: "root \<notin> insert i N" "e_parent (ent s i) = p" for root fuel
    proof -
      have "remove_subtree_loop L root (Suc fuel + sum_list (map (\<lambda>t. Suc (cost t)) ts)) i s = remove_subtree_loop L root (Suc fuel) i s1"
        using A(2) root(1) by blast
      also have "\<dots> = remove_subtree_loop L root fuel p (pde_put i (unlink_counts p i s1))"
        using i1 e(1) root by (auto simp: Let_def)
      finally show ?thesis by simp
    qed
    then show ?case unfolding w out(4) ptree.sel using emptied_clear [OF A(1) c e(1) out(1,2)] by blast
  qed
qed

text \<open>The loop from the entry \<open>r\<close> that \<open>remove_proc_subtree\<close> has already taken from its directory.\<close>

lemma remove_loop_purges:
  assumes lib: "rb_lib_ok L" and s: "tree_ok s" "rep s t" "distinct (nodes t)" "proc_root \<notin> set (nodes t)" "detached s (root_of t)"
    and p: "e_parent (ent s (root_of t)) = p" "p \<notin> set (nodes t)" and fuel: "cost t \<le> fuel"
  shows "\<exists>s1. remove_subtree_loop L (root_of t) fuel (root_of t) s = Inr s1 \<and> pde_put (root_of t) s1 = purge L p t s"
    and "cleared p (set (nodes t)) s (purge L p t s)"
proof -
  show "cleared p (set (nodes t)) s (purge L p t s)" using every_purge_ok [OF lib, of t] s p(2) unfolding purge_ok_def by blast
  obtain i ts where t: "t = PNode i ts" by (cases t)
  obtain e where e: "pdes s i = Some e" "inorder (e_subdir e) = map root_of ts" using s(2) by (auto simp: t)
  define N where "N = set (concat (map nodes ts))"
  define s1 where "s1 = purge_all L i ts s"
  have i: "i \<notin> N" using s(3) by (auto simp: t N_def)
  have A: "emptied i N s s1"
      "\<And>root fuel. root \<notin> N \<Longrightarrow> remove_subtree_loop L root (fuel + sum_list (map (\<lambda>t. Suc (cost t)) ts)) i s = remove_subtree_loop L root fuel i s1"
      using purge_all_ok [OF _ lib s(1) e] every_purge_ok [OF lib] s(2-4) by (simp_all add: N_def s1_def t)
  obtain n where i1: "pdes s1 i = Some (e\<lparr>e_subdir := Leaf, e_nlink := n\<rparr>)" using A(1) e(1) unfolding emptied_def by blast
  obtain k where k: "fuel = Suc k + sum_list (map (\<lambda>t. Suc (cost t)) ts)" using fuel by (auto simp: t dest: le_Suc_ex)
  have "remove_subtree_loop L i fuel i s = remove_subtree_loop L i (Suc k) i s1" unfolding k by (rule A(2) [OF i])
  also have "\<dots> = Inr (unlink_counts p i s1)" using i1 p(1) e(1) by (simp add: t Let_def)
  finally show "\<exists>s1. remove_subtree_loop L (root_of t) fuel (root_of t) s = Inr s1 \<and> pde_put (root_of t) s1 = purge L p t s"
    by (simp add: t s1_def purge_all_def)
qed


section \<open>Stores without cycles\<close>

definition below_rel :: "proc_fs \<Rightarrow> (nat \<times> nat) set" where
  "below_rel s = {(c, d). \<exists>n. look s d n = Some c}"

definition tree_fin :: "proc_fs \<Rightarrow> bool" where
  "tree_fin s \<longleftrightarrow> finite (dom (pdes s)) \<and> acyclic (below_rel s)"

lemma below_iff: "tree_ok s \<Longrightarrow> (c, d) \<in> below_rel s \<longleftrightarrow> (\<exists>e. pdes s d = Some e \<and> c \<in> set (inorder (e_subdir e)))"
  unfolding below_rel_def by (auto simp: look_Some simp del: set_inorder)

lemma below_live: "tree_ok s \<Longrightarrow> (c, d) \<in> below_rel s \<Longrightarrow> (\<exists>e. pdes s c = Some e \<and> e_parent e = d) \<and> pdes s d \<noteq> None \<and> c \<noteq> proc_root"
  using tree_okD(3) [of s d] by (fastforce simp: below_iff simp del: set_inorder)

lemma below_single: "tree_ok s \<Longrightarrow> single_valued (below_rel s)"
  by (rule single_valuedI) (metis below_live option.inject)

lemma tree_fin_wf: "tree_ok s \<Longrightarrow> tree_fin s \<Longrightarrow> wf (below_rel s)"
proof -
  assume a: "tree_ok s" "tree_fin s"
  have "below_rel s \<subseteq> dom (pdes s) \<times> dom (pdes s)" using below_live [OF a(1)] by fastforce
  then have "finite (below_rel s)" using a(2) by (auto simp: tree_fin_def intro: finite_subset)
  then show ?thesis using a(2) by (simp add: finite_acyclic_wf tree_fin_def)
qed

text \<open>Creation keeps a store without cycles; so does whatever only takes entries out.\<close>

lemma creation_tree_fin:
  assumes "tree_fin s" "creation_ok s parent name dn P (Inr (Some i, s'))"
  shows "tree_fin s'"
proof -
  obtain dir fn ed e t where c: "pdes s dir = Some ed" "pdes s i = None" "look s dir fn = None"
    "look s' = (look s)(dir := (look s dir)(fn \<mapsto> i))" "pdes s' = (pdes s)(dir \<mapsto> ed\<lparr>e_nlink := e_nlink ed + dn, e_subdir := t\<rparr>, i \<mapsto> e)"
    using assms(2) unfolding creation_ok_def by auto
  have new: "(\<exists>n. ((look s dir)(fn \<mapsto> i)) n = Some a) \<longleftrightarrow> a = i \<or> (\<exists>n. look s dir n = Some a)" for a
    using c(3) by (metis fun_upd_apply option.distinct(1) option.inject)
  have "(a, b) \<in> below_rel s' \<longleftrightarrow> (a, b) \<in> insert (i, dir) (below_rel s)" for a b
  proof (cases "b = dir")
    case True
    then show ?thesis using new [of a] by (simp add: below_rel_def c(4) del: fun_upd_apply) (simp add: fun_upd_same)
  next
    case False
    then show ?thesis by (simp add: below_rel_def c(4))
  qed
  then have b: "below_rel s' = insert (i, dir) (below_rel s)" by auto
  have "look s i = Map.empty" using c(2) by (simp add: look_def)
  then have "(x, i) \<notin> below_rel s" for x by (simp add: below_rel_def)
  then have "(dir, i) \<notin> (below_rel s)\<^sup>*" using c(1,2) by (metis option.distinct(1) rtranclE)
  then have "acyclic (below_rel s')" using assms(1) unfolding b acyclic_insert by (simp add: tree_fin_def)
  moreover have "dom (pdes s') = insert i (insert dir (dom (pdes s)))" using c(5) by auto
  ultimately show ?thesis using assms(1) by (simp add: tree_fin_def)
qed

lemma distinct_concat_map:
  "distinct ks \<Longrightarrow> (\<And>k. k \<in> set ks \<Longrightarrow> distinct (g k)) \<Longrightarrow> (\<And>k k'. k \<in> set ks \<Longrightarrow> k' \<in> set ks \<Longrightarrow> k \<noteq> k' \<Longrightarrow> set (g k) \<inter> set (g k') = {})
    \<Longrightarrow> distinct (concat (map g ks))"
  by (induction ks) fastforce+

lemma rep_exists:
  assumes ok: "tree_ok s" "tree_fin s" and d: "pdes s d \<noteq> None"
  shows "\<exists>t. rep s t \<and> root_of t = d \<and> distinct (nodes t) \<and> set (nodes t) = {j. (j, d) \<in> (below_rel s)\<^sup>*}"
  using tree_fin_wf [OF ok] d
proof (induction d rule: wf_induct_rule)
  case (less d)
  let ?R = "below_rel s"
  obtain e where e: "pdes s d = Some e" using less.prems by blast
  define ks where "ks = inorder (e_subdir e)"
  have ks: "c \<in> set ks \<longleftrightarrow> (c, d) \<in> ?R" for c using e by (simp add: below_iff [OF ok(1)] ks_def)
  have "\<forall>c \<in> set ks. \<exists>t. rep s t \<and> root_of t = c \<and> distinct (nodes t) \<and> set (nodes t) = {j. (j, c) \<in> ?R\<^sup>*}"
  proof
    fix c assume "c \<in> set ks"
    then have "(c, d) \<in> ?R" by (simp add: ks)
    then show "\<exists>t. rep s t \<and> root_of t = c \<and> distinct (nodes t) \<and> set (nodes t) = {j. (j, c) \<in> ?R\<^sup>*}"
      using less.IH below_live [OF ok(1)] by blast
  qed
  then obtain f where f: "\<And>c. c \<in> set ks \<Longrightarrow> rep s (f c) \<and> root_of (f c) = c \<and> distinct (nodes (f c)) \<and> set (nodes (f c)) = {j. (j, c) \<in> ?R\<^sup>*}"
    by metis
  define t where "t = PNode d (map f ks)"
  have "map root_of (map f ks) = ks" using f by (simp add: map_idI)
  then have "rep s t" using e f by (auto simp: t_def ks_def)
  moreover have "set (nodes t) = {j. (j, d) \<in> ?R\<^sup>*}"
  proof -
    have "set (nodes t) = insert d (\<Union>c \<in> set ks. {j. (j, c) \<in> ?R\<^sup>*})" using f by (simp add: t_def)
    also have "\<dots> = {j. (j, d) \<in> ?R\<^sup>*}"
    proof -
      have "(j, d) \<in> ?R\<^sup>* \<longleftrightarrow> j = d \<or> (\<exists>c \<in> set ks. (j, c) \<in> ?R\<^sup>*)" for j
      proof
        assume "(j, d) \<in> ?R\<^sup>*"
        then show "j = d \<or> (\<exists>c \<in> set ks. (j, c) \<in> ?R\<^sup>*)" by (rule rtranclE) (auto simp: ks)
      next
        assume "j = d \<or> (\<exists>c \<in> set ks. (j, c) \<in> ?R\<^sup>*)"
        then show "(j, d) \<in> ?R\<^sup>*" using ks by (auto intro: rtrancl_into_rtrancl)
      qed
      then show ?thesis by blast
    qed
    finally show ?thesis .
  qed
  moreover have "distinct (nodes t)"
  proof -
    have acyc: "(x, x) \<notin> ?R\<^sup>+" for x using ok(2) by (simp add: tree_fin_def acyclic_def)
    have "distinct ks" using pm.sorted_distinct [OF tree_okD(1) [OF ok(1) e]] by (simp add: ks_def distinct_map)
    moreover have "set (nodes (f c)) \<inter> set (nodes (f c')) = {}" if c: "c \<in> set ks" "c' \<in> set ks" "c \<noteq> c'" for c c'
    proof -
      have below: False if ab: "(a, b) \<in> ?R\<^sup>*" "a \<noteq> b" "(a, d) \<in> ?R" "(b, d) \<in> ?R" for a b
      proof -
        obtain x where "(a, x) \<in> ?R" "(x, b) \<in> ?R\<^sup>*" using ab(1,2) by (meson converse_rtranclE)
        then have "(d, b) \<in> ?R\<^sup>*" using single_valuedD [OF below_single [OF ok(1)] ab(3)] by blast
        then have "(d, d) \<in> ?R\<^sup>+" using ab(4) by (rule rtrancl_into_trancl1)
        then show False using acyc by blast
      qed
      have "(c, c') \<in> ?R\<^sup>* \<or> (c', c) \<in> ?R\<^sup>*" if "(j, c) \<in> ?R\<^sup>*" "(j, c') \<in> ?R\<^sup>*" for j
        using single_valued_confluent [OF below_single [OF ok(1)] that] .
      moreover have "\<not> ((c, c') \<in> ?R\<^sup>* \<or> (c', c) \<in> ?R\<^sup>*)"
        using below [of c c'] below [of c' c] c(3) c(1,2) [unfolded ks] by blast
      ultimately have "\<not> ((j, c) \<in> ?R\<^sup>* \<and> (j, c') \<in> ?R\<^sup>*)" for j by blast
      then show ?thesis using f [OF c(1)] f [OF c(2)] by blast
    qed
    ultimately have "distinct (concat (map (nodes \<circ> f) ks))" by (intro distinct_concat_map) (use f in simp_all)
    moreover have "d \<notin> set (concat (map (nodes \<circ> f) ks))"
    proof
      assume "d \<in> set (concat (map (nodes \<circ> f) ks))"
      then obtain c where "c \<in> set ks" "d \<in> set (nodes (f c))" by auto
      then have "(d, c) \<in> ?R\<^sup>*" "(c, d) \<in> ?R" using f [of c] ks by auto
      then have "(d, d) \<in> ?R\<^sup>+" by (rule rtrancl_into_trancl1)
      then show False using acyc by blast
    qed
    ultimately show ?thesis by (simp add: t_def)
  qed
  ultimately show ?case by (intro exI [of _ t]) (simp add: t_def)
qed


section \<open>Removing a subtree\<close>

text \<open>C15.  \<open>remove_proc_subtree\<close> ends, whatever the shape of the tree, within two rounds for every entry there is.  It takes out the entry and
  exactly those below it, each of them is freed unless it is in use, and every other entry and look-up is as before.\<close>

theorem remove_subtree_spec:
  assumes ok: "tree_ok s" "tree_fin s" "pdes s parent \<noteq> None" and lib: "rb_lib_ok L" and fuel: "2 * card (dom (pdes s)) \<le> fuel"
  shows "case xlate_proc_name s parent name of
      None \<Rightarrow> remove_proc_subtree fuel L name parent s = Inr (- ENOENT, s)
    | Some (dir, fn) \<Rightarrow>
        (case look s dir fn of
           None \<Rightarrow> remove_proc_subtree fuel L name parent s = Inr (- ENOENT, s)
         | Some r \<Rightarrow> \<exists>s' N. remove_proc_subtree fuel L name parent s = Inr (0, s') \<and> tree_ok s' \<and> N = {j. (j, r) \<in> (below_rel s)\<^sup>*}
             \<and> (\<forall>j. j \<notin> N \<and> j \<noteq> dir \<longrightarrow> pdes s' j = pdes s j) \<and> (\<forall>j e. j \<in> N \<and> pdes s j = Some e \<longrightarrow> pdes s' j = put_once e)
             \<and> look s' = (\<lambda>d. if d \<in> N then Map.empty else if d = dir then (look s dir)(fn := None) else look s d))"
proof (cases "xlate_proc_name s parent name")
  case None
  then show ?thesis by (simp add: remove_proc_subtree_def)
next
  case (Some x)
  then obtain dir fn where x: "xlate_proc_name s parent name = Some (dir, fn)" by (cases x) auto
  have "pdes s dir \<noteq> None" using xlate_live [OF ok(1,3) x] by blast
  then obtain ed where ed: "pdes s dir = Some ed" by blast
  note F = find_look [OF ok(1) ed, of fn]
  show ?thesis
  proof (cases "look s dir fn")
    case None
    then show ?thesis using F x by (simp add: remove_proc_subtree_def)
  next
    case (Some r)
    let ?R = "below_rel s"
    have rd: "(r, dir) \<in> ?R" using Some by (auto simp: below_rel_def)
    have r: "r \<in> set (inorder (e_subdir ed))" "name_of s r = fn" using Some ed by (auto simp: look_Some [OF ok(1)])
    obtain e where e: "pdes s r = Some e" "e_parent e = dir" using below_live [OF ok(1) rd] by blast
    obtain t where t: "rep s t" "root_of t = r" "distinct (nodes t)" "set (nodes t) = {j. (j, r) \<in> ?R\<^sup>*}"
      using rep_exists [OF ok(1,2), of r] e(1) by auto
    have dirN: "dir \<notin> set (nodes t)"
    proof
      assume "dir \<in> set (nodes t)"
      then have "(dir, dir) \<in> ?R\<^sup>+" using rd unfolding t(4) by (auto intro: rtrancl_into_trancl2 rtrancl_into_trancl1)
      then show False using ok(2) by (simp add: tree_fin_def acyclic_def)
    qed
    have rootN: "proc_root \<notin> set (nodes t)"
    proof
      assume "proc_root \<in> set (nodes t)"
      then have "proc_root = r \<or> (\<exists>c. (proc_root, c) \<in> ?R)" unfolding t(4) by (auto elim: converse_rtranclE)
      then show False using below_live [OF ok(1)] rd by blast
    qed
    define s1 where "s1 = rb_erase_from L dir r s"
    have E: "tree_ok s1" "look s1 = (look s)(dir := (look s dir)(fn := None))" "pdes s1 = (pdes s)(dir \<mapsto> ed\<lparr>e_subdir := erase L r (e_subdir ed)\<rparr>)"
      "\<And>d x. pdes s1 d = Some x \<Longrightarrow> r \<notin> set (inorder (e_subdir x))"
      using erase_result [OF ok(1) lib ed r(1)] r(2) by (auto simp: s1_def)
    have same: "pdes s1 j = pdes s j" if "j \<in> set (nodes t)" for j using that dirN by (auto simp: E(3))
    have "rep s1 t" using t(1) rep_cong [of t s1 s] same by simp
    moreover have "detached s1 (root_of t)" using E(4) by (auto simp: detached_def look_Some [OF E(1)] t(2))
    moreover have "e_parent (ent s1 (root_of t)) = dir" using same [of r] e t(2) root_in [of t] by simp
    moreover have "cost t \<le> fuel"
    proof -
      have "rep s t' \<Longrightarrow> set (nodes t') \<subseteq> dom (pdes s)" for t' by (induction t') (auto simp: dom_def)
      then have "card (set (nodes t)) \<le> card (dom (pdes s))" using t(1) ok(2) by (simp add: card_mono tree_fin_def)
      then show ?thesis using fuel cost_nodes [of t] distinct_card [OF t(3)] by linarith
    qed
    ultimately obtain s2 where s2: "remove_subtree_loop L r fuel r s1 = Inr s2" "pde_put r s2 = purge L dir t s1"
      "cleared dir (set (nodes t)) s1 (purge L dir t s1)"
      using remove_loop_purges [OF lib E(1) _ t(3) rootN _ _ dirN] unfolding t(2) by blast
    have res: "remove_proc_subtree fuel L name parent s = Inr (0, purge L dir t s1)"
      using x F Some s2(1,2) by (simp add: remove_proc_subtree_def s1_def)
    have "look (purge L dir t s1) = (\<lambda>d. if d \<in> set (nodes t) then Map.empty else if d = dir then (look s dir)(fn := None) else look s d)"
      using s2(3) unfolding cleared_def by (auto simp: E(2))
    moreover have "pdes (purge L dir t s1) j = pdes s j" if "j \<notin> set (nodes t) \<and> j \<noteq> dir" for j
      using s2(3) that unfolding cleared_def by (simp add: E(3))
    moreover have "pdes (purge L dir t s1) j = put_once ej" if "j \<in> set (nodes t) \<and> pdes s j = Some ej" for j ej
      using s2(3) that same unfolding cleared_def by simp
    moreover have "tree_ok (purge L dir t s1)" using s2(3) by (simp add: cleared_def)
    ultimately have "remove_proc_subtree fuel L name parent s = Inr (0, purge L dir t s1) \<and> tree_ok (purge L dir t s1)
        \<and> set (nodes t) = {j. (j, r) \<in> ?R\<^sup>*}
        \<and> (\<forall>j. j \<notin> set (nodes t) \<and> j \<noteq> dir \<longrightarrow> pdes (purge L dir t s1) j = pdes s j)
        \<and> (\<forall>j e. j \<in> set (nodes t) \<and> pdes s j = Some e \<longrightarrow> pdes (purge L dir t s1) j = put_once e)
        \<and> look (purge L dir t s1) = (\<lambda>d. if d \<in> set (nodes t) then Map.empty else if d = dir then (look s dir)(fn := None) else look s d)"
      using res t(4) by blast
    then show ?thesis unfolding x option.case prod.case Some by (intro exI)
  qed
qed

section \<open>Instances\<close>

lemma store_fin: "tree_fin store1" "tree_fin store2"
proof -
  have "below_rel store0 = {}" by (auto simp: below_rel_def look_def store0_def root_entry_def dir_map_def split: if_splits option.splits)
  then have "tree_fin store0" by (simp add: tree_fin_def store0_def acyclic_def)
  then show one: "tree_fin store1" by (rule creation_tree_fin [OF _ store_creations(1)])
  show "tree_fin store2" by (rule creation_tree_fin [OF one store_creations(2)])
qed

theorem remove_subtree_spec_witness:
  "\<exists>s'. remove_proc_subtree 6 list_rb ''d'' proc_root store2 = Inr (0, s') \<and> tree_ok s' \<and> look s' proc_root = Map.empty \<and> pdes s' 5 = None \<and> pdes s' 6 = None"
proof -
  have x: "xlate_proc_name store2 proc_root ''d'' = Some (proc_root, ''d'')" by (simp add: xlate_last)
  have l: "look store2 proc_root = [''d'' \<mapsto> 5]" "look store2 5 = [''f'' \<mapsto> 6]"
    by (simp_all add: store2_eq dir_entry_def file_entry_def look_def dir_map_def proc_root_def root_entry_def)
  have "dom (pdes store2) = {0, 5, 6}" by (auto simp: store2_eq)
  then have fuel: "2 * card (dom (pdes store2)) \<le> 6" by simp
  obtain s' N where r: "remove_proc_subtree 6 list_rb ''d'' proc_root store2 = Inr (0, s')" "tree_ok s'" "N = {j. (j, 5) \<in> (below_rel store2)\<^sup>*}"
    "\<forall>j e. j \<in> N \<and> pdes store2 j = Some e \<longrightarrow> pdes s' j = put_once e"
    "look s' = (\<lambda>d. if d \<in> N then Map.empty else if d = proc_root then (look store2 proc_root)(''d'' := None) else look store2 d)"
    using remove_subtree_spec [OF store_ok(2) store_fin(2) store_ok(4) list_rb_ok fuel, of "''d''"] by (auto simp: x l(1))
  have "(6, 5) \<in> below_rel store2" using l(2) by (auto simp: below_rel_def)
  then have "6 \<in> N" "5 \<in> N" by (auto simp: r(3))
  moreover have "pdes store2 5 = Some (dir_entry\<lparr>e_subdir := Node Leaf 6 Leaf\<rparr>)" "pdes store2 6 = Some file_entry" by (simp_all add: store2_eq)
  ultimately have "pdes s' 5 = None" "pdes s' 6 = None" using r(4) by (auto simp: put_once_def dir_entry_def file_entry_def)
  moreover have "look s' proc_root = Map.empty" using l(1) by (simp add: r(5) fun_eq_iff)
  ultimately show ?thesis using r(1,2) by blast
qed

end
