(* ===== verification/ProcEntry.thy ===== *)
theory ProcEntry imports Prelude begin

text \<open>
  The life of an entry of \<open>/proc\<close> (\<open>fs/proc/inode.c\<close>), on which every module of the repository that calls
  \<open>proc_create\<close> and \<open>remove_proc_entry\<close> relies: \<open>use_pde\<close>, \<open>unuse_pde\<close>, \<open>close_pdeo\<close>,
  \<open>proc_entry_rundown\<close>, \<open>proc_reg_open\<close>, \<open>proc_reg_release\<close> and the file operations between them.
  Any number of files is opened, used by any number of threads and closed, while one thread removes the entry.  Shown: when
  the removal has returned, no code of the module runs or can be entered, and each file that was opened with success has been
  released exactly once; the removal cannot be blocked for ever.

  Every step is an atomic operation on \<open>in_use\<close>, a callback, or a region from \<open>spin_lock\<close> to \<open>spin_unlock\<close>: what
  such a region touches is touched under this lock only.  Calls of the module are single points of the thread that is inside.
\<close>

section \<open>State\<close>

definition BIAS :: "32 word" where "BIAS = 2147483648"

definition use_pde :: "32 word \<Rightarrow> 32 word option" where
  "use_pde v = (if sint v < 0 then None else Some (v + 1))"

text \<open>Who waits for the completion in a \<open>struct pde_opener\<close>: the thread that closes the file or the one that removes the entry.\<close>

datatype waiter = Closer | Remover

record pde_opener =
  po_file :: nat
  po_closing :: bool
  po_c :: "waiter option"

text \<open>Where the thread is that opens and closes a file.  The flag of \<open>UOpenEnd\<close> is \<open>rv == 0\<close>, that of \<open>URelWait\<close>
  whether the completion is done, that of \<open>UDone\<close> whether the file had been open.\<close>

datatype file_pc = UStart | UOpenCb | UOpenAdd | UOpenEnd bool | UOpenComplete bool | UOpen
  | URel | URelCb | URelEnd | URelWait bool | UDone bool

text \<open>A thread that runs one of the other operations on a file, and the thread that removes the entry.\<close>

datatype op_pc = OIdle | OCb nat | OEnd nat | OComplete nat
datatype remove_pc = RStart | RWait bool | RLock | RCb nat | REnd nat | RWaitC nat bool | RDone

record pde =
  in_use :: "32 word"
  openers :: "pde_opener list"
  files :: "file_pc list"
  ops :: "op_pc list"
  remover :: remove_pc
  released :: "nat list"   \<comment> \<open>the files for which \<open>->release\<close> was called\<close>

text \<open>Which hooks the module has; the entry when it has been registered.\<close>

record proc_fops =
  m_open :: bool
  m_release :: bool

definition pde_init :: "nat \<Rightarrow> nat \<Rightarrow> pde" where
  "pde_init n k = \<lparr>in_use = 0, openers = [], files = replicate n UStart, ops = replicate k OIdle, remover = RStart, released = []\<rparr>"

section \<open>Operations\<close>

definition get_opener :: "nat \<Rightarrow> pde_opener list \<Rightarrow> pde_opener option" where
  "get_opener i pos = List.find (\<lambda>po. po_file po = i) pos"

definition upd_opener :: "nat \<Rightarrow> (pde_opener \<Rightarrow> pde_opener) \<Rightarrow> pde_opener list \<Rightarrow> pde_opener list" where
  "upd_opener i f pos = map (\<lambda>po. if po_file po = i then f po else po) pos"

definition list_del :: "nat \<Rightarrow> pde_opener list \<Rightarrow> pde_opener list" where
  "list_del i pos = filter (\<lambda>po. po_file po \<noteq> i) pos"

definition goto :: "nat \<Rightarrow> file_pc \<Rightarrow> pde \<Rightarrow> pde" where
  "goto i p s = s\<lparr>files := (files s)[i := p]\<rparr>"

text \<open>\<open>complete(pde->pde_unload_completion)\<close>.\<close>

definition complete_unload :: "pde \<Rightarrow> pde" where
  "complete_unload s = (if remover s = RWait False then s\<lparr>remover := RWait True\<rparr> else s)"

text \<open>\<open>close_pdeo\<close> up to the point where the thread \<open>w\<close> waits or calls \<open>->release\<close>: whether it has to wait.\<close>

definition close_begin :: "waiter \<Rightarrow> nat \<Rightarrow> pde_opener \<Rightarrow> pde \<Rightarrow> bool \<times> pde" where
  "close_begin w i po s =
     (if po_closing po then (True, s\<lparr>openers := upd_opener i (\<lambda>po. po\<lparr>po_c := Some w\<rparr>) (openers s)\<rparr>)
      else (False, s\<lparr>openers := upd_opener i (\<lambda>po. po\<lparr>po_closing := True\<rparr>) (openers s), released := released s @ [i]\<rparr>))"

text \<open>\<open>close_pdeo\<close> after \<open>->release\<close>.\<close>

definition close_end :: "nat \<Rightarrow> pde \<Rightarrow> pde" where
  "close_end i s =
     (case get_opener i (openers s) of
        None \<Rightarrow> s
      | Some po \<Rightarrow>
          let s = s\<lparr>openers := list_del i (openers s)\<rparr> in
          (case po_c po of
             None \<Rightarrow> s
           | Some Closer \<Rightarrow> (if files s ! i = URelWait False then goto i (URelWait True) s else s)
           | Some Remover \<Rightarrow> (if remover s = RWaitC i False then s\<lparr>remover := RWaitC i True\<rparr> else s)))"

text \<open>One step of the thread that opens and closes file \<open>i\<close>: \<open>proc_reg_open\<close>, then \<open>proc_reg_release\<close> when no
  operation runs on the file any more.  \<open>b\<close> is the outcome of \<open>kmalloc\<close> or whether \<open>->open\<close> succeeds.\<close>

definition file_step :: "proc_fops \<Rightarrow> bool \<Rightarrow> nat \<Rightarrow> pde \<Rightarrow> pde option" where
  "file_step M b i s =
     (case files s ! i of
        UStart \<Rightarrow>
          (if \<not> b then Some (goto i (UDone False) s)
           else case use_pde (in_use s) of
             None \<Rightarrow> Some (goto i (UDone False) s)
           | Some v \<Rightarrow> Some (goto i UOpenCb (s\<lparr>in_use := v\<rparr>)))
      | UOpenCb \<Rightarrow>
          (let rv0 = (m_open M \<longrightarrow> b) in
           Some (goto i (if rv0 \<and> m_release M then UOpenAdd else UOpenEnd rv0) s))
      | UOpenAdd \<Rightarrow>
          Some (goto i (UOpenEnd True) (s\<lparr>openers := \<lparr>po_file = i, po_closing = False, po_c = None\<rparr> # openers s\<rparr>))
      | UOpenEnd rv0 \<Rightarrow>
          (let v = in_use s - 1 in
           Some (goto i (if v = BIAS then UOpenComplete rv0 else if rv0 then UOpen else UDone False) (s\<lparr>in_use := v\<rparr>)))
      | UOpenComplete rv0 \<Rightarrow> Some (goto i (if rv0 then UOpen else UDone False) (complete_unload s))
      | UOpen \<Rightarrow> (if OCb i \<in> set (ops s) \<or> OEnd i \<in> set (ops s) \<or> OComplete i \<in> set (ops s) then None else Some (goto i URel s))
      | URel \<Rightarrow>
          (case get_opener i (openers s) of
             None \<Rightarrow> Some (goto i (UDone True) s)
           | Some po \<Rightarrow> (case close_begin Closer i po s of (wait, s') \<Rightarrow> Some (goto i (if wait then URelWait False else URelCb) s')))
      | URelCb \<Rightarrow> Some (goto i URelEnd s)
      | URelEnd \<Rightarrow> Some (goto i (UDone True) (close_end i s))
      | URelWait done \<Rightarrow> (if done then Some (goto i (UDone True) s) else None)
      | UDone _ \<Rightarrow> None)"

text \<open>One step of thread \<open>k\<close> in an operation (\<open>proc_reg_read\<close>, \<open>proc_reg_write\<close> and the like) on file \<open>i\<close>,
  which is open; when \<open>use_pde\<close> fails the operation returns an error at once.\<close>

definition op_step :: "nat \<Rightarrow> nat \<Rightarrow> pde \<Rightarrow> pde option" where
  "op_step k i s =
     (case ops s ! k of
        OIdle \<Rightarrow>
          (if files s ! i = UOpen then
             (case use_pde (in_use s) of
                None \<Rightarrow> Some s
              | Some v \<Rightarrow> Some (s\<lparr>in_use := v, ops := (ops s)[k := OCb i]\<rparr>))
           else None)
      | OCb j \<Rightarrow> Some (s\<lparr>ops := (ops s)[k := OEnd j]\<rparr>)
      | OEnd j \<Rightarrow>
          (let v = in_use s - 1 in Some (s\<lparr>in_use := v, ops := (ops s)[k := (if v = BIAS then OComplete j else OIdle)]\<rparr>))
      | OComplete j \<Rightarrow> Some (complete_unload (s\<lparr>ops := (ops s)[k := OIdle]\<rparr>)))"

text \<open>What these operations return: \<open>entered\<close> is the result of \<open>use_pde\<close>, \<open>hook\<close> what the function of the module returns, if it
  has one, and \<open>fallback\<close> the result of \<open>default_llseek\<close> or of the address space without a hook.\<close>

datatype reg_op = Llseek | Read | Write | Poll | Unlocked_ioctl | Compat_ioctl | Mmap | Get_unmapped_area

fun reg_error :: "reg_op \<Rightarrow> int" where
  "reg_error Llseek = - 22"
| "reg_error Poll = 325"
| "reg_error Unlocked_ioctl = - 25"
| "reg_error Compat_ioctl = - 25"
| "reg_error _ = - 5"

definition proc_reg_rv :: "reg_op \<Rightarrow> 32 word option \<Rightarrow> int option \<Rightarrow> int \<Rightarrow> int" where
  "proc_reg_rv f entered hook fallback =
     (case entered of
        None \<Rightarrow> reg_error f
      | Some _ \<Rightarrow> (case hook of Some rv \<Rightarrow> rv | None \<Rightarrow> if f = Llseek \<or> f = Get_unmapped_area then fallback else reg_error f))"

text \<open>One step of \<open>proc_entry_rundown\<close>; the head of its loop runs in the same region as the end of the round before.\<close>

definition rundown_loop :: "pde \<Rightarrow> pde" where
  "rundown_loop s =
     (case openers s of
        [] \<Rightarrow> s\<lparr>remover := RDone\<rparr>
      | po # _ \<Rightarrow>
          (case close_begin Remover (po_file po) po s of
             (wait, s') \<Rightarrow> s'\<lparr>remover := (if wait then RWaitC (po_file po) False else RCb (po_file po))\<rparr>))"

definition remove_step :: "pde \<Rightarrow> pde option" where
  "remove_step s =
     (case remover s of
        RStart \<Rightarrow> (let v = in_use s + BIAS in Some (s\<lparr>in_use := v, remover := (if v = BIAS then RLock else RWait False)\<rparr>))
      | RWait done \<Rightarrow> (if done then Some (s\<lparr>remover := RLock\<rparr>) else None)
      | RLock \<Rightarrow> Some (rundown_loop s)
      | RCb i \<Rightarrow> Some (s\<lparr>remover := REnd i\<rparr>)
      | REnd i \<Rightarrow> Some (rundown_loop (close_end i (s\<lparr>remover := RLock\<rparr>)))
      | RWaitC i done \<Rightarrow> (if done then Some (s\<lparr>remover := RLock\<rparr>) else None)
      | RDone \<Rightarrow> None)"

datatype event = EFile nat bool | EOp nat nat | ERemove

definition pde_step :: "proc_fops \<Rightarrow> event \<Rightarrow> pde \<Rightarrow> pde option" where
  "pde_step M e s =
     (case e of
        EFile i b \<Rightarrow> (if i < length (files s) then file_step M b i s else None)
      | EOp k i \<Rightarrow> (if k < length (ops s) \<and> i < length (files s) then op_step k i s else None)
      | ERemove \<Rightarrow> remove_step s)"

inductive pde_reach :: "proc_fops \<Rightarrow> nat \<Rightarrow> nat \<Rightarrow> pde \<Rightarrow> bool" for M :: proc_fops and n k :: nat where
  registered: "pde_reach M n k (pde_init n k)"
| step: "pde_reach M n k s \<Longrightarrow> pde_step M e s = Some t \<Longrightarrow> pde_reach M n k t"

fun pde_run :: "proc_fops \<Rightarrow> event list \<Rightarrow> pde \<Rightarrow> pde option" where
  "pde_run M [] s = Some s"
| "pde_run M (e # es) s = Option.bind (pde_step M e s) (pde_run M es)"

lemma pde_run_reach: "pde_reach M n k s \<Longrightarrow> pde_run M es s = Some t \<Longrightarrow> pde_reach M n k t"
  by (induction es arbitrary: s) (auto simp: bind_eq_Some_conv intro: pde_reach.step)

section \<open>Lists of openers and the counter\<close>

lemma get_opener_Cons [simp]:
  "get_opener i [] = None" "get_opener i (po # pos) = (if po_file po = i then Some po else get_opener i pos)"
  by (simp_all add: get_opener_def)

lemma get_opener_upd:
  "(\<And>po. po_file (f po) = po_file po) \<Longrightarrow>
     get_opener j (upd_opener i f pos) = (if i = j then map_option f (get_opener i pos) else get_opener j pos)"
  by (induction pos) (auto simp: upd_opener_def)

lemma get_opener_del: "get_opener j (list_del i pos) = (if i = j then None else get_opener j pos)"
  by (induction pos) (auto simp: list_del_def)

lemma get_opener_file: "get_opener i pos = Some po \<Longrightarrow> po_file po = i"
  by (induction pos) (auto split: if_splits)

lemma get_opener_None: "get_opener i pos = None \<longleftrightarrow> i \<notin> po_file ` set pos"
  by (induction pos) auto

lemma upd_opener_files: "(\<And>po. po_file (f po) = po_file po) \<Longrightarrow> map po_file (upd_opener i f pos) = map po_file pos"
  by (simp add: upd_opener_def)

lemma list_del_files: "map po_file (list_del i pos) = filter (\<lambda>j. j \<noteq> i) (map po_file pos)"
  by (simp add: list_del_def filter_map o_def)

lemma list_del_length: "get_opener i pos \<noteq> None \<Longrightarrow> length (list_del i pos) < length pos"
  by (induction pos) (auto simp: list_del_def less_Suc_eq_le length_filter_le split: if_splits)

lemma users_word:
  assumes "0 \<le> u" "u < 2147483648"
  shows "use_pde (word_of_int u) = Some (word_of_int (u + 1))" "use_pde (word_of_int u + BIAS) = None"
    "word_of_int u + BIAS = BIAS \<longleftrightarrow> u = 0"
    "0 < u \<Longrightarrow> word_of_int u - 1 \<noteq> BIAS" "word_of_int u + BIAS - 1 = BIAS \<longleftrightarrow> u = 1"
proof -
  have s: "sint (word_of_int u :: 32 word) = u" "sint (word_of_int u + BIAS) = u - 2147483648"
  proof -
    show "sint (word_of_int u :: 32 word) = u" using assms by (simp add: signed_of_int signed_take_bit_int_eq_self)
    have "BIAS = - 2147483648" by (simp add: BIAS_def)
    then have eq: "word_of_int u + BIAS = (word_of_int (u - 2147483648) :: 32 word)" by simp
    show "sint (word_of_int u + BIAS) = u - 2147483648"
      unfolding eq signed_of_int using assms by (simp add: signed_take_bit_int_eq_self)
  qed
  show "use_pde (word_of_int u) = Some (word_of_int (u + 1))" using s(1) assms by (simp add: use_pde_def)
  show "use_pde (word_of_int u + BIAS) = None" using s(2) assms by (simp add: use_pde_def)
  have inj: "(word_of_int a :: 32 word) = word_of_int b \<Longrightarrow> 0 \<le> a \<Longrightarrow> a < 4294967296 \<Longrightarrow> 0 \<le> b \<Longrightarrow> b < 4294967296 \<Longrightarrow> a = b" for a b
    by (simp add: word_of_int_eq_iff take_bit_int_eq_self)
  show "word_of_int u + BIAS = BIAS \<longleftrightarrow> u = 0" using inj [of u 0] assms by auto
  show "word_of_int u + BIAS - 1 = BIAS \<longleftrightarrow> u = 1" using inj [of u 1] assms by (auto simp: algebra_simps)
  show "0 < u \<Longrightarrow> word_of_int u - 1 \<noteq> BIAS"
    using inj [of "u - 1" 2147483648] assms by (auto simp: BIAS_def)
qed

section \<open>The invariant\<close>

text \<open>Threads between \<open>use_pde\<close> and \<open>unuse_pde\<close>, and threads that are about to call \<open>complete\<close>.\<close>

fun file_inside :: "file_pc \<Rightarrow> bool" where
  "file_inside UOpenCb = True"
| "file_inside UOpenAdd = True"
| "file_inside (UOpenEnd _) = True"
| "file_inside _ = False"

fun op_inside :: "op_pc \<Rightarrow> bool" where
  "op_inside (OCb _) = True"
| "op_inside (OEnd _) = True"
| "op_inside _ = False"

fun file_completing :: "file_pc \<Rightarrow> bool" where
  "file_completing (UOpenComplete _) = True"
| "file_completing _ = False"

fun op_completing :: "op_pc \<Rightarrow> bool" where
  "op_completing (OComplete _) = True"
| "op_completing _ = False"

definition users :: "pde \<Rightarrow> int" where
  "users s = cnt file_inside (files s) + cnt op_inside (ops s)"

definition completing :: "pde \<Rightarrow> int" where
  "completing s = cnt file_completing (files s) + cnt op_completing (ops s)"

text \<open>\<open>in_use\<close> is the number of users, plus \<open>BIAS\<close> from the start of the removal; the last user completes it.\<close>

fun ctl_ok :: "remove_pc \<Rightarrow> 32 word \<Rightarrow> int \<Rightarrow> int \<Rightarrow> bool" where
  "ctl_ok RStart v u c = (v = word_of_int u \<and> c = 0)"
| "ctl_ok (RWait False) v u c = (v = word_of_int u + BIAS \<and> c = of_bool (u = 0))"
| "ctl_ok _ v u c = (v = BIAS \<and> u = 0 \<and> c = 0)"

text \<open>What the remover is doing with file \<open>i\<close>.\<close>

fun about :: "remove_pc \<Rightarrow> nat \<Rightarrow> remove_pc option" where
  "about (RCb j) i = (if i = j then Some (RCb j) else None)"
| "about (REnd j) i = (if i = j then Some (REnd j) else None)"
| "about (RWaitC j d) i = (if i = j then Some (RWaitC j d) else None)"
| "about _ i = None"

abbreviation opener :: "nat \<Rightarrow> bool \<Rightarrow> waiter option \<Rightarrow> pde_opener" where
  "opener i closing c \<equiv> \<lparr>po_file = i, po_closing = closing, po_c = c\<rparr>"

definition listed :: "proc_fops \<Rightarrow> nat \<Rightarrow> bool \<Rightarrow> pde_opener option" where
  "listed M i rv0 = (if rv0 \<and> m_release M then Some (opener i False None) else None)"

text \<open>File \<open>i\<close>, whose thread is at \<open>p\<close>: its opener, what the remover does with it, and whether it has been released.\<close>

fun file_ok :: "proc_fops \<Rightarrow> nat \<Rightarrow> file_pc \<Rightarrow> pde_opener option \<Rightarrow> remove_pc option \<Rightarrow> bool \<Rightarrow> bool" where
  "file_ok M i UStart po a rel = (po = None \<and> a = None \<and> \<not> rel)"
| "file_ok M i UOpenCb po a rel = (po = None \<and> a = None \<and> \<not> rel)"
| "file_ok M i UOpenAdd po a rel = (po = None \<and> a = None \<and> \<not> rel \<and> m_release M)"
| "file_ok M i (UOpenEnd rv0) po a rel = (po = listed M i rv0 \<and> a = None \<and> \<not> rel)"
| "file_ok M i (UOpenComplete rv0) po a rel = (po = listed M i rv0 \<and> a = None \<and> \<not> rel)"
| "file_ok M i UOpen po a rel = (po = listed M i True \<and> a = None \<and> \<not> rel \<or>
     m_release M \<and> rel \<and> (po = Some (opener i True None) \<and> a \<in> {Some (RCb i), Some (REnd i)} \<or> po = None \<and> a = None))"
| "file_ok M i URel po a rel = (po = listed M i True \<and> a = None \<and> \<not> rel \<or>
     m_release M \<and> rel \<and> (po = Some (opener i True None) \<and> a \<in> {Some (RCb i), Some (REnd i)} \<or> po = None \<and> a = None))"
| "file_ok M i URelCb po a rel = (m_release M \<and> rel \<and>
     (po = Some (opener i True None) \<and> a = None \<or> po = Some (opener i True (Some Remover)) \<and> a = Some (RWaitC i False)))"
| "file_ok M i URelEnd po a rel = (m_release M \<and> rel \<and>
     (po = Some (opener i True None) \<and> a = None \<or> po = Some (opener i True (Some Remover)) \<and> a = Some (RWaitC i False)))"
| "file_ok M i (URelWait d) po a rel = (m_release M \<and> rel \<and>
     (if d then po = None \<and> a = None else po = Some (opener i True (Some Closer)) \<and> a \<in> {Some (RCb i), Some (REnd i)}))"
| "file_ok M i (UDone ok) po a rel = (po = None \<and> a \<in> {None, Some (RWaitC i True)} \<and> (rel \<longleftrightarrow> ok \<and> m_release M))"

fun op_file :: "op_pc \<Rightarrow> nat option" where
  "op_file OIdle = None"
| "op_file (OCb i) = Some i"
| "op_file (OEnd i) = Some i"
| "op_file (OComplete i) = Some i"

definition files_ok :: "proc_fops \<Rightarrow> pde \<Rightarrow> bool" where
  "files_ok M s \<longleftrightarrow> (\<forall>i < length (files s).
     file_ok M i (files s ! i) (get_opener i (openers s)) (about (remover s) i) (i \<in> set (released s)))"

definition lists_okl :: "nat list \<Rightarrow> nat list \<Rightarrow> nat \<Rightarrow> nat \<Rightarrow> bool" where
  "lists_okl os rs n k \<longleftrightarrow> distinct os \<and> distinct rs \<and> (\<forall>j \<in> set os \<union> set rs. j < n) \<and> int n + int k < 2147483648"

definition lists_ok :: "pde \<Rightarrow> bool" where
  "lists_ok s \<longleftrightarrow> lists_okl (map po_file (openers s)) (released s) (length (files s)) (length (ops s))"

lemma lists_okl_change:
  "lists_okl os rs n k \<Longrightarrow> i < n \<Longrightarrow> i \<notin> set rs \<Longrightarrow> lists_okl os (rs @ [i]) n k"
  "lists_okl os rs n k \<Longrightarrow> i < n \<Longrightarrow> i \<notin> set os \<Longrightarrow> lists_okl (i # os) rs n k"
  "lists_okl os rs n k \<Longrightarrow> lists_okl (filter P os) rs n k"
  by (auto simp: lists_okl_def)

definition ops_ok :: "pde \<Rightarrow> bool" where
  "ops_ok s \<longleftrightarrow> (\<forall>k < length (ops s). \<forall>i. op_file (ops s ! k) = Some i \<longrightarrow> i < length (files s) \<and> files s ! i = UOpen)"

definition pde_inv :: "proc_fops \<Rightarrow> pde \<Rightarrow> bool" where
  "pde_inv M s \<longleftrightarrow> ctl_ok (remover s) (in_use s) (users s) (completing s) \<and> files_ok M s \<and> lists_ok s \<and> ops_ok s"

lemma files_okD:
  "files_ok M s \<Longrightarrow> i < length (files s) \<Longrightarrow>
     file_ok M i (files s ! i) (get_opener i (openers s)) (about (remover s) i) (i \<in> set (released s))"
  by (simp add: files_ok_def)

text \<open>A step changes what concerns one file only.\<close>

lemma files_ok_step:
  assumes "files_ok M s" "files t = (files s)[i := p]"
    and "\<And>j. j \<noteq> i \<Longrightarrow> j < length (files s) \<Longrightarrow> get_opener j (openers t) = get_opener j (openers s) \<and> (j \<in> set (released t)) = (j \<in> set (released s))
      \<and> about (remover t) j = about (remover s) j"
    and "i < length (files s) \<Longrightarrow> file_ok M i p (get_opener i (openers t)) (about (remover t) i) (i \<in> set (released t))"
  shows "files_ok M t"
  unfolding files_ok_def
proof (intro allI impI)
  fix j assume "j < length (files t)"
  then have j: "j < length (files s)" using assms(2) by simp
  show "file_ok M j (files t ! j) (get_opener j (openers t)) (about (remover t) j) (j \<in> set (released t))"
    using files_okD [OF assms(1) j] assms(2-4) j by (cases "j = i") auto
qed

lemma users_range: "lists_ok s \<Longrightarrow> 0 \<le> users s \<and> users s < 2147483648"
  using cnt_le_length [of file_inside "files s"] cnt_le_length [of op_inside "ops s"] cnt_nonneg [of file_inside "files s"]
    cnt_nonneg [of op_inside "ops s"] by (simp add: users_def lists_ok_def lists_okl_def)

lemma users_goto [simp]:
  "i < length (files s) \<Longrightarrow> users (goto i p s) = users s - of_bool (file_inside (files s ! i)) + of_bool (file_inside p)"
  "i < length (files s) \<Longrightarrow> completing (goto i p s) = completing s - of_bool (file_completing (files s ! i)) + of_bool (file_completing p)"
  by (simp_all add: users_def completing_def goto_def cnt_upd)

lemma users_op [simp]:
  "k < length (ops s) \<Longrightarrow> users (s\<lparr>ops := (ops s)[k := p]\<rparr>) = users s - of_bool (op_inside (ops s ! k)) + of_bool (op_inside p)"
  "k < length (ops s) \<Longrightarrow> completing (s\<lparr>ops := (ops s)[k := p]\<rparr>) = completing s - of_bool (op_completing (ops s ! k)) + of_bool (op_completing p)"
  by (simp_all add: users_def completing_def cnt_upd)

lemma users_other [simp]:
  "users (s\<lparr>in_use := v\<rparr>) = users s" "users (s\<lparr>openers := os\<rparr>) = users s" "users (s\<lparr>released := rs\<rparr>) = users s"
  "users (s\<lparr>remover := rm\<rparr>) = users s" "completing (s\<lparr>in_use := v\<rparr>) = completing s" "completing (s\<lparr>openers := os\<rparr>) = completing s"
  "completing (s\<lparr>released := rs\<rparr>) = completing s" "completing (s\<lparr>remover := rm\<rparr>) = completing s"
  by (simp_all add: users_def completing_def)

lemma goto_simps [simp]:
  "in_use (goto i p s) = in_use s" "openers (goto i p s) = openers s" "files (goto i p s) = (files s)[i := p]"
  "ops (goto i p s) = ops s" "remover (goto i p s) = remover s" "released (goto i p s) = released s"
  by (simp_all add: goto_def)

lemma cnt_pos_nth: "i < length xs \<Longrightarrow> P (xs ! i) \<Longrightarrow> 0 < cnt P xs"
  using cnt_pos [of i xs P] by simp

lemma user_pos:
  "i < length (files s) \<Longrightarrow> file_inside (files s ! i) \<Longrightarrow> 0 < users s"
  "k < length (ops s) \<Longrightarrow> op_inside (ops s ! k) \<Longrightarrow> 0 < users s"
  "i < length (files s) \<Longrightarrow> file_completing (files s ! i) \<Longrightarrow> 0 < completing s"
  "k < length (ops s) \<Longrightarrow> op_completing (ops s ! k) \<Longrightarrow> 0 < completing s"
  using cnt_pos_nth [of i "files s" file_inside] cnt_pos_nth [of k "ops s" op_inside] cnt_nonneg [of op_inside "ops s"]
    cnt_nonneg [of file_inside "files s"] cnt_pos_nth [of i "files s" file_completing] cnt_pos_nth [of k "ops s" op_completing]
    cnt_nonneg [of op_completing "ops s"] cnt_nonneg [of file_completing "files s"]
  by (simp_all add: users_def completing_def)

text \<open>The counter under \<open>use_pde\<close> and \<open>unuse_pde\<close>.\<close>

lemma ctl_use:
  assumes "ctl_ok rm v u c" "0 \<le> u" "u < 2147483648"
  shows "use_pde v = (if rm = RStart then Some (word_of_int (u + 1)) else None)"
  using assms users_word(1,2) [of u] users_word(2) [of 0]
  by (cases "(rm, v, u, c)" rule: ctl_ok.cases) auto

lemma ctl_unuse:
  assumes "ctl_ok rm v u c" "0 < u" "u < 2147483648"
  shows "v - 1 = BIAS \<longleftrightarrow> rm = RWait False \<and> u = 1" "ctl_ok rm (v - 1) (u - 1) (c + of_bool (v - 1 = BIAS))"
  using assms users_word(4,5) [of u]
  by (cases "(rm, v, u, c)" rule: ctl_ok.cases; simp add: algebra_simps)+

lemma ctl_complete:
  assumes "ctl_ok rm v u c" "0 < c"
  shows "rm = RWait False \<and> ctl_ok (RWait True) v u (c - 1)"
  using assms by (cases "(rm, v, u, c)" rule: ctl_ok.cases) (auto split: if_splits split_of_bool_asm)

section \<open>Every step keeps the invariant\<close>

lemma pde_invD:
  assumes "pde_inv M s"
  shows "ctl_ok (remover s) (in_use s) (users s) (completing s)" "files_ok M s" "lists_ok s" "ops_ok s" "0 \<le> users s" "users s < 2147483648"
  using assms users_range [of s] by (auto simp: pde_inv_def)

lemma ops_ok_goto: "ops_ok s \<Longrightarrow> files s ! i \<noteq> UOpen \<or> p = UOpen \<Longrightarrow> i < length (files s) \<Longrightarrow> ops_ok (goto i p s)"
  by (auto simp: ops_ok_def nth_list_update)

lemma ops_ok_cong: "ops_ok s \<Longrightarrow> files t = files s \<Longrightarrow> ops t = ops s \<Longrightarrow> ops_ok t"
  by (simp add: ops_ok_def)

lemma lists_ok_cong:
  "lists_ok s \<Longrightarrow> map po_file (openers t) = map po_file (openers s) \<Longrightarrow> released t = released s \<Longrightarrow>
     length (files t) = length (files s) \<Longrightarrow> length (ops t) = length (ops s) \<Longrightarrow> lists_ok t"
  by (simp add: lists_ok_def)

text \<open>A step of file \<open>i\<close> that leaves lists and remover alone.\<close>

lemma goto_inv:
  assumes inv: "pde_inv M s" and i: "i < length (files s)"
    and f: "file_ok M i p (get_opener i (openers s)) (about (remover s) i) (i \<in> set (released s))"
    and c: "ctl_ok (remover s) v (users s - of_bool (file_inside (files s ! i)) + of_bool (file_inside p))
      (completing s - of_bool (file_completing (files s ! i)) + of_bool (file_completing p))"
    and o: "files s ! i \<noteq> UOpen \<or> p = UOpen \<or> (\<forall>k < length (ops s). op_file (ops s ! k) \<noteq> Some i)"
  shows "pde_inv M (goto i p (s\<lparr>in_use := v\<rparr>))"
proof -
  note D = pde_invD [OF inv]
  have "files_ok M (goto i p (s\<lparr>in_use := v\<rparr>))"
    by (rule files_ok_step [OF D(2), of _ i p]) (use f in simp_all)
  moreover have "lists_ok (goto i p (s\<lparr>in_use := v\<rparr>))" by (rule lists_ok_cong [OF D(3)]) simp_all
  moreover have "ops_ok (goto i p (s\<lparr>in_use := v\<rparr>))" using D(4) o i by (auto simp: ops_ok_def nth_list_update)
  ultimately show ?thesis using c i by (simp add: pde_inv_def)
qed

lemma goto_inv_same: "pde_inv M s \<Longrightarrow> i < length (files s) \<Longrightarrow>
    file_ok M i p (get_opener i (openers s)) (about (remover s) i) (i \<in> set (released s)) \<Longrightarrow>
    file_inside p = file_inside (files s ! i) \<Longrightarrow> file_completing p = file_completing (files s ! i) \<Longrightarrow>
    files s ! i \<noteq> UOpen \<or> p = UOpen \<or> (\<forall>k < length (ops s). op_file (ops s ! k) \<noteq> Some i) \<Longrightarrow> pde_inv M (goto i p s)"
  using goto_inv [of M s i p "in_use s"] pde_invD(1) [of M s] by simp

lemma complete_inv:
  assumes "pde_inv M s" "0 < completing s"
  shows "remover s = RWait False \<and> files_ok M (s\<lparr>remover := RWait True\<rparr>) \<and> lists_ok (s\<lparr>remover := RWait True\<rparr>)
    \<and> ctl_ok (RWait True) (in_use s) (users s) (completing s - 1) \<and> complete_unload s = s\<lparr>remover := RWait True\<rparr>"
proof -
  note D = pde_invD [OF assms(1)]
  have rm: "remover s = RWait False" "ctl_ok (RWait True) (in_use s) (users s) (completing s - 1)"
    using ctl_complete [OF D(1) assms(2)] by simp_all
  have "files_ok M (s\<lparr>remover := RWait True\<rparr>)" using D(2) by (simp add: files_ok_def rm(1))
  then show ?thesis using rm lists_ok_cong [OF D(3), of "s\<lparr>remover := RWait True\<rparr>"] by (simp add: complete_unload_def)
qed

lemma close_begin_inv:
  assumes inv: "pde_inv M s" and i: "i < length (files s)" and po: "get_opener i (openers s) = Some po"
    and b: "close_begin w i po s = (wait, s')"
  shows "ctl_ok (remover s) (in_use s') (users s') (completing s')
    \<and> lists_okl (map po_file (openers s')) (released s') (length (files s)) (length (ops s))
    \<and> (\<forall>j. j \<noteq> i \<longrightarrow> get_opener j (openers s') = get_opener j (openers s) \<and> (j \<in> set (released s')) = (j \<in> set (released s)))
    \<and> files s' = files s \<and> ops s' = ops s \<and> remover s' = remover s \<and> wait = po_closing po
    \<and> get_opener i (openers s') = Some (if wait then po\<lparr>po_c := Some w\<rparr> else po\<lparr>po_closing := True\<rparr>)
    \<and> i \<in> set (released s')"
proof -
  note D = pde_invD [OF inv]
  have k: "\<not> po_closing po \<Longrightarrow> i \<notin> set (released s)" "po_closing po \<Longrightarrow> i \<in> set (released s)"
    using files_okD [OF D(2) i] po by (cases "files s ! i"; auto simp: listed_def split: if_splits)+
  show ?thesis
  proof (cases "po_closing po")
    case True
    then have s': "s' = s\<lparr>openers := upd_opener i (\<lambda>po. po\<lparr>po_c := Some w\<rparr>) (openers s)\<rparr>" "wait"
      using b by (simp_all add: close_begin_def)
    have "lists_ok s'" by (rule lists_ok_cong [OF D(3)]) (simp_all add: s' upd_opener_files)
    then show ?thesis using D(1) True k(2) po by (simp add: s' get_opener_upd lists_ok_def)
  next
    case False
    then have s': "s' = s\<lparr>openers := upd_opener i (\<lambda>po. po\<lparr>po_closing := True\<rparr>) (openers s), released := released s @ [i]\<rparr>" "\<not> wait"
      using b by (simp_all add: close_begin_def)
    have "map po_file (openers s') = map po_file (openers s)" by (simp add: s' upd_opener_files)
    then have "lists_ok s'" using D(3) k(1) [OF False] i by (simp add: lists_ok_def s' lists_okl_change)
    then show ?thesis using D(1) False po by (simp add: s' get_opener_upd lists_ok_def)
  qed
qed

lemma lists_ok_del: "lists_ok s \<Longrightarrow> lists_ok (s\<lparr>openers := list_del i (openers s)\<rparr>)"
  by (simp add: lists_ok_def list_del_files lists_okl_change)

lemma about_iff:
  "about rm i = Some (RCb j) \<longleftrightarrow> rm = RCb i \<and> j = i" "about rm i = Some (REnd j) \<longleftrightarrow> rm = REnd i \<and> j = i"
  "about rm i = Some (RWaitC j d) \<longleftrightarrow> rm = RWaitC i d \<and> j = i"
  by (cases rm; auto)+

text \<open>\<open>close_pdeo\<close> ends in the thread that closes the file.\<close>

lemma closer_end_inv:
  assumes inv: "pde_inv M s" and i: "i < length (files s)" and p: "files s ! i = URelEnd"
  shows "pde_inv M (goto i (UDone True) (close_end i s))"
proof -
  note D = pde_invD [OF inv]
  have f: "m_release M \<and> i \<in> set (released s) \<and> (get_opener i (openers s) = Some (opener i True None) \<and> about (remover s) i = None
      \<or> get_opener i (openers s) = Some (opener i True (Some Remover)) \<and> remover s = RWaitC i False)"
    using files_okD [OF D(2) i] by (simp add: p about_iff)
  then consider (alone) "get_opener i (openers s) = Some (opener i True None)" "about (remover s) i = None"
      "close_end i s = s\<lparr>openers := list_del i (openers s)\<rparr>"
    | (waited) "remover s = RWaitC i False" "close_end i s = s\<lparr>openers := list_del i (openers s), remover := RWaitC i True\<rparr>"
    by (fastforce simp: close_end_def Let_def)
  then show ?thesis
  proof cases
    case alone
    have "files_ok M (goto i (UDone True) (close_end i s))"
      by (rule files_ok_step [OF D(2), of _ i "UDone True"]) (use f alone(2) in \<open>simp_all add: alone(3) get_opener_del\<close>)
    moreover have "ops_ok (goto i (UDone True) (close_end i s))"
      by (rule ops_ok_goto) (use D(4) i in \<open>simp_all add: alone(3) p ops_ok_def\<close>)
    ultimately show ?thesis using D(1,3) i lists_ok_del [OF D(3), of i] by (simp add: pde_inv_def alone(3) p lists_ok_def)
  next
    case waited
    have "files_ok M (goto i (UDone True) (close_end i s))"
      by (rule files_ok_step [OF D(2), of _ i "UDone True"]) (use f waited(1) in \<open>simp_all add: waited(2) get_opener_del\<close>)
    moreover have "ops_ok (goto i (UDone True) (close_end i s))"
      by (rule ops_ok_goto) (use D(4) i in \<open>simp_all add: waited(2) p ops_ok_def\<close>)
    ultimately show ?thesis using D(1,3) i lists_ok_del [OF D(3), of i] waited(1)
      by (simp add: pde_inv_def waited(2) p lists_ok_def)
  qed
qed

text \<open>\<open>close_pdeo\<close> ends in the thread that removes the entry.\<close>

lemma remover_end_inv:
  assumes inv: "pde_inv M s" and rm: "remover s = REnd i"
  shows "pde_inv M (close_end i (s\<lparr>remover := RLock\<rparr>)) \<and> remover (close_end i (s\<lparr>remover := RLock\<rparr>)) = RLock"
proof -
  note D = pde_invD [OF inv]
  have ctl: "ctl_ok RLock (in_use s) (users s) (completing s)" using D(1) by (simp add: rm)
  show ?thesis
  proof (cases "i < length (files s)")
    case False
    then have "get_opener i (openers s) = None"
      using D(3) by (auto simp: lists_ok_def lists_okl_def get_opener_None)
    moreover have "files_ok M (s\<lparr>remover := RLock\<rparr>)"
      using D(2) False unfolding files_ok_def by (simp add: rm)
    ultimately show ?thesis using D(3,4) ctl by (simp add: close_end_def pde_inv_def lists_ok_def ops_ok_def)
  next
    case True
    consider (opened) "files s ! i = UOpen \<or> files s ! i = URel" "m_release M" "i \<in> set (released s)" "get_opener i (openers s) = Some (opener i True None)"
      | (waits) "files s ! i = URelWait False" "m_release M" "i \<in> set (released s)" "get_opener i (openers s) = Some (opener i True (Some Closer))"
      using files_okD [OF D(2) True] by (cases "files s ! i") (auto simp: rm split: if_splits)
    then show ?thesis
    proof cases
      case opened
      then have e: "close_end i (s\<lparr>remover := RLock\<rparr>) = s\<lparr>openers := list_del i (openers s), remover := RLock\<rparr>"
        by (simp add: close_end_def)
      have "files_ok M (s\<lparr>openers := list_del i (openers s), remover := RLock\<rparr>)"
        by (rule files_ok_step [OF D(2), of _ i "files s ! i"]) (use opened in \<open>auto simp: get_opener_del rm\<close>)
      then show ?thesis using D(4) ctl lists_ok_del [OF D(3), of i] by (simp add: e pde_inv_def lists_ok_def ops_ok_def)
    next
      case waits
      then have e: "close_end i (s\<lparr>remover := RLock\<rparr>) = goto i (URelWait True) (s\<lparr>openers := list_del i (openers s), remover := RLock\<rparr>)"
        by (simp add: close_end_def goto_def)
      have "files_ok M (goto i (URelWait True) (s\<lparr>openers := list_del i (openers s), remover := RLock\<rparr>))"
        by (rule files_ok_step [OF D(2), of _ i "URelWait True"]) (use waits in \<open>simp_all add: get_opener_del rm\<close>)
      moreover have "ops_ok (goto i (URelWait True) (s\<lparr>openers := list_del i (openers s), remover := RLock\<rparr>))"
        by (rule ops_ok_goto) (use D(4) waits(1) True in \<open>simp_all add: ops_ok_def\<close>)
      ultimately show ?thesis using ctl True waits(1) lists_ok_del [OF D(3), of i] by (simp add: e pde_inv_def lists_ok_def)
    qed
  qed
qed

lemma rundown_loop_inv:
  assumes inv: "pde_inv M s" and rm: "remover s = RLock"
  shows "pde_inv M (rundown_loop s)"
proof (cases "openers s")
  case Nil
  note D = pde_invD [OF inv]
  have "files_ok M (s\<lparr>remover := RDone\<rparr>)" using D(2) by (simp add: files_ok_def rm)
  then show ?thesis using D(1,3,4) by (simp add: rundown_loop_def Nil pde_inv_def rm lists_ok_def ops_ok_def)
next
  case (Cons po pos)
  note D = pde_invD [OF inv]
  define i where "i = po_file po"
  have g: "get_opener i (openers s) = Some po" by (simp add: Cons i_def)
  have i: "i < length (files s)" using D(3) by (simp add: Cons i_def lists_ok_def lists_okl_def)
  obtain w s' where b: "close_begin Remover i po s = (w, s')" by fastforce
  note B = close_begin_inv [OF inv i g b]
  have u: "users s = 0" "completing s = 0" using D(1) by (simp_all add: rm)
  have np: "\<not> file_inside (files s ! i)" "\<not> file_completing (files s ! i)" using user_pos(1,3) [OF i] u by auto
  define t where "t = s'\<lparr>remover := (if w then RWaitC i False else RCb i)\<rparr>"
  have t: "rundown_loop s = t" using b by (simp add: rundown_loop_def Cons t_def i_def)
  have "file_ok M i (files s ! i) (get_opener i (openers t)) (about (remover t) i) (i \<in> set (released t))"
    using files_okD [OF D(2) i] B np unfolding g by (cases "files s ! i") (auto simp: t_def rm listed_def split: if_splits)
  then have "files_ok M t"
    by (intro files_ok_step [OF D(2), of t i "files s ! i"]) (use B in \<open>simp_all add: t_def rm\<close>)
  moreover have "ctl_ok (remover t) (in_use t) (users t) (completing t)"
    using conjunct1 [OF B] rm by (simp add: t_def)
  moreover have "lists_ok t" "ops_ok t" using B D(4) by (simp_all add: t_def lists_ok_def ops_ok_def)
  ultimately show ?thesis by (simp add: t pde_inv_def)
qed

text \<open>The steps of the thread that opens and closes a file.\<close>

lemma file_use_inv:
  assumes inv: "pde_inv M s" and i: "i < length (files s)" and p: "files s ! i = UStart"
    and t: "file_step M b i s = Some t"
  shows "pde_inv M t"
proof -
  note D = pde_invD [OF inv]
  have F: "file_ok M i UStart (get_opener i (openers s)) (about (remover s) i) (i \<in> set (released s))"
    using files_okD [OF D(2) i] by (simp add: p)
  have failed: "pde_inv M (goto i (UDone False) s)" by (rule goto_inv_same [OF inv i]) (use F in \<open>simp_all add: p\<close>)
  show ?thesis
  proof (cases "b \<and> remover s = RStart")
    case False
    then have "t = goto i (UDone False) s" using t ctl_use [OF D(1,5,6)] by (simp add: file_step_def p split: if_splits)
    then show ?thesis using failed by simp
  next
    case True
    then have e: "t = goto i UOpenCb (s\<lparr>in_use := word_of_int (users s + 1)\<rparr>)"
      using t ctl_use [OF D(1,5,6)] by (simp add: file_step_def p)
    show ?thesis unfolding e by (rule goto_inv [OF inv i]) (use F True D(1) in \<open>simp_all add: p\<close>)
  qed
qed

lemma file_unuse_inv:
  assumes inv: "pde_inv M s" and i: "i < length (files s)" and p: "files s ! i = UOpenEnd rv0"
    and t: "file_step M b i s = Some t"
  shows "pde_inv M t"
proof -
  note D = pde_invD [OF inv]
  have F: "get_opener i (openers s) = listed M i rv0" "about (remover s) i = None" "i \<notin> set (released s)"
    using files_okD [OF D(2) i] by (simp_all add: p)
  have u: "0 < users s" using user_pos(1) [OF i] by (simp add: p)
  define q where "q = (if in_use s - 1 = BIAS then UOpenComplete rv0 else if rv0 then UOpen else UDone False)"
  have e: "t = goto i q (s\<lparr>in_use := in_use s - 1\<rparr>)" using t by (simp add: file_step_def p q_def Let_def)
  show ?thesis unfolding e
  proof (rule goto_inv [OF inv i])
    show "file_ok M i q (get_opener i (openers s)) (about (remover s) i) (i \<in> set (released s))"
      using F by (auto simp: q_def listed_def)
    have "file_inside q = False" "of_bool (file_completing q) = (of_bool (in_use s - 1 = BIAS) :: int)" by (simp_all add: q_def)
    then show "ctl_ok (remover s) (in_use s - 1) (users s - of_bool (file_inside (files s ! i)) + of_bool (file_inside q))
        (completing s - of_bool (file_completing (files s ! i)) + of_bool (file_completing q))"
      using ctl_unuse(2) [OF D(1) u D(6)] by (simp add: p)
  qed (simp add: p)
qed

lemma file_complete_inv:
  assumes inv: "pde_inv M s" and i: "i < length (files s)" and p: "files s ! i = UOpenComplete rv0"
    and t: "file_step M b i s = Some t"
  shows "pde_inv M t"
proof -
  note D = pde_invD [OF inv]
  have F: "get_opener i (openers s) = listed M i rv0" "i \<notin> set (released s)"
    using files_okD [OF D(2) i] by (simp_all add: p)
  have "0 < completing s" using user_pos(3) [OF i] by (simp add: p)
  note C = complete_inv [OF inv this]
  define q where "q = (if rv0 then UOpen else UDone False)"
  have e: "t = goto i q (s\<lparr>remover := RWait True\<rparr>)" using t C by (simp add: file_step_def p q_def Let_def)
  have "files_ok M t"
    by (rule files_ok_step [OF D(2), of _ i q]) (use F C in \<open>auto simp: e q_def listed_def\<close>)
  moreover have "lists_ok t" using D(3) by (simp add: e lists_ok_def)
  moreover have "ops_ok t" unfolding e by (rule ops_ok_goto) (use D(4) i in \<open>simp_all add: p ops_ok_def\<close>)
  moreover have "\<not> file_inside q" "\<not> file_completing q" by (simp_all add: q_def)
  ultimately show ?thesis using C i by (simp add: pde_inv_def e p)
qed

lemma file_add_inv:
  assumes inv: "pde_inv M s" and i: "i < length (files s)" and p: "files s ! i = UOpenAdd"
    and t: "file_step M b i s = Some t"
  shows "pde_inv M t"
proof -
  note D = pde_invD [OF inv]
  have F: "get_opener i (openers s) = None" "about (remover s) i = None" "i \<notin> set (released s)" "m_release M"
    using files_okD [OF D(2) i] by (simp_all add: p)
  have e: "t = goto i (UOpenEnd True) (s\<lparr>openers := opener i False None # openers s\<rparr>)" using t by (simp add: file_step_def p)
  have "files_ok M t"
    by (rule files_ok_step [OF D(2), of _ i "UOpenEnd True"]) (use F in \<open>simp_all add: e listed_def\<close>)
  moreover have "lists_ok t"
    using D(3) F(1) i by (simp add: e lists_ok_def lists_okl_change get_opener_None)
  moreover have "ops_ok t" unfolding e by (rule ops_ok_goto) (use D(4) i in \<open>simp_all add: p ops_ok_def\<close>)
  ultimately show ?thesis using D(1) i by (simp add: pde_inv_def e p)
qed

lemma file_release_inv:
  assumes inv: "pde_inv M s" and i: "i < length (files s)" and p: "files s ! i = URel"
    and t: "file_step M b i s = Some t"
  shows "pde_inv M t"
proof (cases "get_opener i (openers s)")
  case None
  note D = pde_invD [OF inv]
  have e: "t = goto i (UDone True) s" using t None by (simp add: file_step_def p)
  show ?thesis unfolding e
    by (rule goto_inv_same [OF inv i]) (use files_okD [OF D(2) i] None in \<open>auto simp: p listed_def split: if_splits\<close>)
next
  case (Some po)
  note D = pde_invD [OF inv]
  obtain w s' where b: "close_begin Closer i po s = (w, s')" by fastforce
  note B = close_begin_inv [OF inv i Some b]
  define q where "q = (if w then URelWait False else URelCb)"
  have e: "t = goto i q s'" using t Some b by (simp add: file_step_def p q_def)
  have "file_ok M i q (get_opener i (openers t)) (about (remover t) i) (i \<in> set (released t))"
    using files_okD [OF D(2) i] B by (auto simp: p Some e q_def listed_def split: if_splits)
  then have "files_ok M t"
    by (intro files_ok_step [OF D(2), of t i q]) (use B in \<open>simp_all add: e\<close>)
  moreover have "lists_ok t" using B by (simp add: e lists_ok_def)
  moreover have "ops_ok s'" using D(4) B by (simp add: ops_ok_def)
  then have "ops_ok t" unfolding e by (rule ops_ok_goto) (use B i in \<open>simp_all add: p\<close>)
  moreover have "\<not> file_inside q" "\<not> file_completing q" by (simp_all add: q_def)
  ultimately show ?thesis using B i p by (simp add: pde_inv_def e)
qed

lemma file_step_inv:
  assumes inv: "pde_inv M s" and i: "i < length (files s)" and t: "file_step M b i s = Some t"
  shows "pde_inv M t"
proof (cases "files s ! i")
  case UOpenCb
  have e: "t = goto i (if (m_open M \<longrightarrow> b) \<and> m_release M then UOpenAdd else UOpenEnd (m_open M \<longrightarrow> b)) s"
    using t by (simp add: file_step_def UOpenCb Let_def)
  show ?thesis unfolding e
    by (rule goto_inv_same [OF inv i]) (use files_okD [OF pde_invD(2) [OF inv] i] in \<open>auto simp: UOpenCb listed_def\<close>)
next
  case UOpen
  have e: "t = goto i URel s" "\<forall>k < length (ops s). op_file (ops s ! k) \<noteq> Some i"
  proof -
    show "t = goto i URel s" using t by (simp add: file_step_def UOpen split: if_splits)
    have no: "OCb i \<notin> set (ops s)" "OEnd i \<notin> set (ops s)" "OComplete i \<notin> set (ops s)"
      using t by (auto simp: file_step_def UOpen split: if_splits)
    have "x \<in> set (ops s) \<Longrightarrow> op_file x \<noteq> Some i" for x using no by (cases x) auto
    then show "\<forall>k < length (ops s). op_file (ops s ! k) \<noteq> Some i" by simp
  qed
  show ?thesis unfolding e(1)
    by (rule goto_inv_same [OF inv i]) (use files_okD [OF pde_invD(2) [OF inv] i] e(2) in \<open>simp_all add: UOpen\<close>)
next
  case URelCb
  have e: "t = goto i URelEnd s" using t by (simp add: file_step_def URelCb)
  show ?thesis unfolding e
    by (rule goto_inv_same [OF inv i]) (use files_okD [OF pde_invD(2) [OF inv] i] in \<open>simp_all add: URelCb\<close>)
next
  case (URelWait d)
  have e: "t = goto i (UDone True) s" "d" using t by (auto simp: file_step_def URelWait split: if_splits)
  show ?thesis unfolding e(1)
    by (rule goto_inv_same [OF inv i]) (use files_okD [OF pde_invD(2) [OF inv] i] e(2) in \<open>simp_all add: URelWait\<close>)
next
  case URelEnd
  have e: "t = goto i (UDone True) (close_end i s)" using t by (simp add: file_step_def URelEnd)
  show ?thesis unfolding e by (rule closer_end_inv [OF inv i URelEnd])
qed (use t file_use_inv [OF inv i _ t] file_unuse_inv [OF inv i _ t] file_complete_inv [OF inv i _ t] file_add_inv [OF inv i _ t]
    file_release_inv [OF inv i _ t] in \<open>simp_all add: file_step_def\<close>)

lemma op_step_inv:
  assumes inv: "pde_inv M s" and k: "k < length (ops s)" "i < length (files s)" and t: "op_step k i s = Some t"
  shows "pde_inv M t"
proof -
  note D = pde_invD [OF inv]
  have files: "files_ok M (s\<lparr>in_use := v, ops := os\<rparr>)" for v os using D(2) by (simp add: files_ok_def)
  have lists: "lists_ok (s\<lparr>in_use := v, ops := (ops s)[k := p]\<rparr>)" for v p using D(3) by (simp add: lists_ok_def)
  have opsk: "ops_ok (s\<lparr>in_use := v, ops := (ops s)[k := p]\<rparr>)"
    if "op_file p = None \<or> op_file p = op_file (ops s ! k) \<or> op_file p = Some i \<and> files s ! i = UOpen" for v p
    using D(4) that k by (auto simp: ops_ok_def nth_list_update)
  have counts: "users (s\<lparr>in_use := v, ops := (ops s)[k := p]\<rparr>) = users s - of_bool (op_inside (ops s ! k)) + of_bool (op_inside p)"
    "completing (s\<lparr>in_use := v, ops := (ops s)[k := p]\<rparr>) = completing s - of_bool (op_completing (ops s ! k)) + of_bool (op_completing p)"
    for v p using k(1) by (simp_all add: users_def completing_def cnt_upd)
  have inv': "pde_inv M (s\<lparr>in_use := v, ops := (ops s)[k := p]\<rparr>)"
    if "op_file p = None \<or> op_file p = op_file (ops s ! k) \<or> op_file p = Some i \<and> files s ! i = UOpen"
      "ctl_ok (remover s) v (users s - of_bool (op_inside (ops s ! k)) + of_bool (op_inside p))
        (completing s - of_bool (op_completing (ops s ! k)) + of_bool (op_completing p))" for v p
    using that(2) files lists opsk [OF that(1)] by (simp add: pde_inv_def counts)
  show ?thesis
  proof (cases "ops s ! k")
    case OIdle
    show ?thesis
    proof (cases "remover s = RStart")
      case True
      have "ctl_ok (remover s) (word_of_int (users s + 1)) (users s + 1) (completing s)" using D(1) by (simp add: True)
      moreover have "files s ! i = UOpen" "t = s\<lparr>in_use := word_of_int (users s + 1), ops := (ops s)[k := OCb i]\<rparr>"
        using t ctl_use [OF D(1,5,6)] by (simp_all add: op_step_def OIdle True split: if_splits)
      ultimately show ?thesis using inv' [of "OCb i"] by (simp add: OIdle)
    next
      case False
      then have "t = s" using t ctl_use [OF D(1,5,6)] by (simp add: op_step_def OIdle split: if_splits)
      then show ?thesis using inv by simp
    qed
  next
    case (OCb j)
    then have "t = s\<lparr>in_use := in_use s, ops := (ops s)[k := OEnd j]\<rparr>" using t by (simp add: op_step_def)
    then show ?thesis using inv' [of "OEnd j" "in_use s"] D(1) OCb by simp
  next
    case (OEnd j)
    have u: "0 < users s" using user_pos(2) [OF k(1)] by (simp add: OEnd)
    define q where "q = (if in_use s - 1 = BIAS then OComplete j else OIdle)"
    have q: "op_file q = None \<or> op_file q = op_file (ops s ! k)" "op_inside q = False" "(of_bool (op_completing q) :: int) = of_bool (in_use s - 1 = BIAS)"
      by (simp_all add: q_def OEnd)
    have "t = s\<lparr>in_use := in_use s - 1, ops := (ops s)[k := q]\<rparr>" using t by (simp add: op_step_def OEnd q_def Let_def)
    moreover have "op_file q = None \<or> op_file q = op_file (ops s ! k) \<or> op_file q = Some i \<and> files s ! i = UOpen" using q(1) by blast
    from inv' [OF this, of "in_use s - 1"] have "pde_inv M (s\<lparr>in_use := in_use s - 1, ops := (ops s)[k := q]\<rparr>)"
      using q ctl_unuse(2) [OF D(1) u D(6)] by (simp add: OEnd)
    ultimately show ?thesis by simp
  next
    case (OComplete j)
    have c: "0 < completing s" using user_pos(4) [OF k(1)] by (simp add: OComplete)
    note C = complete_inv [OF inv c]
    have e: "t = s\<lparr>ops := (ops s)[k := OIdle], remover := RWait True\<rparr>"
      using t C by (simp add: op_step_def OComplete complete_unload_def)
    have "users t = users s" "completing t = completing s - 1"
      using k(1) by (simp_all add: e users_def completing_def cnt_upd OComplete)
    moreover have "files_ok M t" using C by (simp add: e files_ok_def)
    moreover have "lists_ok t" "ops_ok t" using D(3) opsk [of OIdle "in_use s"] by (simp_all add: e lists_ok_def ops_ok_def)
    ultimately show ?thesis using C by (simp add: e pde_inv_def)
  qed
qed

lemma file_ok_REnd: "file_ok M i p po (Some (RCb i)) rel \<Longrightarrow> file_ok M i p po (Some (REnd i)) rel"
  by (cases p) (simp_all split: if_splits)

lemma file_ok_waited: "file_ok M i p po (Some (RWaitC i True)) rel \<Longrightarrow> file_ok M i p po None rel"
  by (cases p) (simp_all split: if_splits)

lemmas file_ok_next = file_ok_REnd file_ok_waited

lemma remove_step_inv:
  assumes inv: "pde_inv M s" and t: "remove_step s = Some t"
  shows "pde_inv M t"
proof -
  note D = pde_invD [OF inv]
  have to: "pde_inv M (s\<lparr>in_use := v, remover := rm\<rparr>)"
    if "\<And>i. about rm i = about (remover s) i" "ctl_ok rm v (users s) (completing s)" for rm v
    using D that by (simp add: pde_inv_def files_ok_def lists_ok_def ops_ok_def users_def completing_def)
  show ?thesis
  proof (cases "remover s")
    case RStart
    define v where "v = in_use s + BIAS"
    have v: "v = BIAS \<longleftrightarrow> users s = 0" using D(1) users_word(3) [OF D(5,6)] by (simp add: v_def RStart)
    have e: "t = s\<lparr>in_use := v, remover := (if v = BIAS then RLock else RWait False)\<rparr>"
      using t by (simp add: remove_step_def RStart v_def Let_def)
    show ?thesis unfolding e by (rule to) (use D(1) v in \<open>auto simp: RStart v_def\<close>)
  next
    case (RWait d)
    then have e: "t = s\<lparr>in_use := in_use s, remover := RLock\<rparr>" "d" using t by (auto simp: remove_step_def split: if_splits)
    show ?thesis unfolding e(1) by (rule to) (use D(1) e(2) in \<open>simp_all add: RWait\<close>)
  next
    case RLock
    then have "t = rundown_loop s" using t by (simp add: remove_step_def)
    then show ?thesis using rundown_loop_inv [OF inv RLock] by simp
  next
    case (RCb i)
    then have e: "t = s\<lparr>remover := REnd i\<rparr>" using t by (simp add: remove_step_def)
    have "files_ok M t"
      by (rule files_ok_step [OF D(2), of _ i "files s ! i"])
        (use files_okD [OF D(2), of i] in \<open>simp_all add: e RCb file_ok_next\<close>)
    then show ?thesis using D(1,3,4) by (simp add: pde_inv_def e RCb lists_ok_def ops_ok_def)
  next
    case (REnd i)
    then have "t = rundown_loop (close_end i (s\<lparr>remover := RLock\<rparr>))" using t by (simp add: remove_step_def)
    then show ?thesis using remover_end_inv [OF inv REnd] rundown_loop_inv by simp
  next
    case (RWaitC i d)
    then have e: "t = s\<lparr>remover := RLock\<rparr>" "d" using t by (auto simp: remove_step_def split: if_splits)
    have "files_ok M t"
      by (rule files_ok_step [OF D(2), of _ i "files s ! i"])
        (use files_okD [OF D(2), of i] e(2) in \<open>simp_all add: e(1) RWaitC file_ok_next\<close>)
    then show ?thesis using D(1,3,4) by (simp add: pde_inv_def e(1) RWaitC lists_ok_def ops_ok_def)
  qed (use t in \<open>simp add: remove_step_def\<close>)
qed

lemma pde_step_inv: "pde_inv M s \<Longrightarrow> pde_step M e s = Some t \<Longrightarrow> pde_inv M t"
proof (cases e)
  case (EFile i b)
  assume "pde_inv M s" "pde_step M e s = Some t"
  then show ?thesis using file_step_inv [of M s i b t] by (simp add: pde_step_def EFile split: if_splits)
next
  case (EOp k i)
  assume "pde_inv M s" "pde_step M e s = Some t"
  then show ?thesis using op_step_inv [of M s k i t] by (simp add: pde_step_def EOp split: if_splits)
next
  case ERemove
  assume "pde_inv M s" "pde_step M e s = Some t"
  then show ?thesis using remove_step_inv [of M s t] by (simp add: pde_step_def ERemove)
qed

lemma pde_inv_init: "n + k < 2147483648 \<Longrightarrow> pde_inv M (pde_init n k)"
  by (auto simp: pde_inv_def pde_init_def users_def completing_def cnt_replicate files_ok_def lists_ok_def lists_okl_def ops_ok_def)

lemma pde_reach_inv: "pde_reach M n k s \<Longrightarrow> n + k < 2147483648 \<Longrightarrow> pde_inv M s"
  by (induction rule: pde_reach.induct) (auto intro: pde_inv_init pde_step_inv)

section \<open>The remover at its end\<close>

definition end_ok :: "pde \<Rightarrow> bool" where
  "end_ok s \<longleftrightarrow> (remover s = RDone \<longrightarrow> openers s = []) \<and> (\<forall>i. about (remover s) i \<noteq> None \<longrightarrow> i < length (files s))"

lemma close_begin_simps:
  "close_begin w i po s = (wait, s') \<Longrightarrow> remover s' = remover s \<and> files s' = files s \<and> ops s' = ops s
    \<and> length (openers s') = length (openers s) \<and> (openers s' = [] \<longleftrightarrow> openers s = []) \<and> in_use s' = in_use s"
  by (auto simp: close_begin_def upd_opener_def split: if_splits)

lemma close_end_simps:
  "remover (close_end i s) = remover s \<or> remover s = RWaitC i False \<and> remover (close_end i s) = RWaitC i True"
  "length (files (close_end i s)) = length (files s)" "ops (close_end i s) = ops s"
  "openers s = [] \<Longrightarrow> openers (close_end i s) = []"
  "map po_file (openers (close_end i s)) = filter (\<lambda>j. j \<noteq> i) (map po_file (openers s))"
proof -
  show "remover (close_end i s) = remover s \<or> remover s = RWaitC i False \<and> remover (close_end i s) = RWaitC i True"
    by (auto simp: close_end_def Let_def split: option.split waiter.split)
  show "length (files (close_end i s)) = length (files s)" "ops (close_end i s) = ops s" "openers s = [] \<Longrightarrow> openers (close_end i s) = []"
    by (auto simp: close_end_def Let_def list_del_def split: option.split waiter.split)
  have "get_opener i (openers s) = None \<Longrightarrow> filter (\<lambda>j. j \<noteq> i) (map po_file (openers s)) = map po_file (openers s)"
    by (auto simp: get_opener_None filter_id_conv)
  then show "map po_file (openers (close_end i s)) = filter (\<lambda>j. j \<noteq> i) (map po_file (openers s))"
    by (auto simp: close_end_def Let_def list_del_files split: option.split waiter.split)
qed

lemma rundown_loop_end:
  assumes "\<forall>j \<in> set (map po_file (openers s)). j < length (files s)"
  shows "end_ok (rundown_loop s)"
proof (cases "openers s")
  case Nil
  then show ?thesis by (simp add: rundown_loop_def end_ok_def)
next
  case (Cons po pos)
  obtain w s' where b: "close_begin Remover (po_file po) po s = (w, s')" by fastforce
  show ?thesis using assms close_begin_simps [OF b] by (simp add: rundown_loop_def Cons b end_ok_def split: if_splits)
qed

lemma end_ok_step:
  assumes inv: "pde_inv M s" and s: "end_ok s" and t: "pde_step M e s = Some t"
  shows "end_ok t"
proof -
  note D = pde_invD [OF inv]
  have rem: "end_ok t" if "remove_step s = Some t"
  proof (cases "remover s")
    case RLock
    then have "t = rundown_loop s" using that by (simp add: remove_step_def)
    then show ?thesis using D(3) rundown_loop_end [of s] by (simp add: lists_ok_def lists_okl_def)
  next
    case (REnd i)
    define s1 where "s1 = close_end i (s\<lparr>remover := RLock\<rparr>)"
    have "set (map po_file (openers s1)) \<subseteq> set (map po_file (openers s))" "length (files s1) = length (files s)"
      using close_end_simps(2,5) [of i "s\<lparr>remover := RLock\<rparr>"] by (auto simp: s1_def)
    moreover have "\<forall>j \<in> set (map po_file (openers s)). j < length (files s)" using D(3) by (simp add: lists_ok_def lists_okl_def)
    ultimately have "\<forall>j \<in> set (map po_file (openers s1)). j < length (files s1)" by (metis subsetD)
    moreover have "t = rundown_loop s1" using that by (simp add: remove_step_def REnd s1_def)
    ultimately show ?thesis using rundown_loop_end by simp
  qed (use s that in \<open>auto simp: remove_step_def end_ok_def Let_def split: if_splits\<close>)
  have fstep: "end_ok t" if f: "file_step M b i s = Some t" and i: "i < length (files s)" for b i
  proof (cases "files s ! i")
    case UOpenAdd
    then have "0 < users s" using user_pos(1) [OF i] by simp
    then have "remover s \<noteq> RDone" using D(1) by auto
    then show ?thesis using f s UOpenAdd by (auto simp: file_step_def end_ok_def)
  next
    case (UOpenComplete rv0)
    then show ?thesis using f s by (auto simp: file_step_def end_ok_def complete_unload_def split: if_splits)
  next
    case URel
    show ?thesis
    proof (cases "get_opener i (openers s)")
      case None
      then show ?thesis using f s URel by (auto simp: file_step_def end_ok_def)
    next
      case (Some po)
      obtain w s' where b: "close_begin Closer i po s = (w, s')" by fastforce
      show ?thesis using f s URel Some b close_begin_simps [OF b] by (auto simp: file_step_def end_ok_def)
    qed
  next
    case URelEnd
    have e: "t = goto i (UDone True) (close_end i s)" using f by (simp add: file_step_def URelEnd)
    show ?thesis
      using s close_end_simps(1,2) [of i s] close_end_simps(4) [of s i] by (auto simp: e end_ok_def i split: if_splits)
  qed (use f s in \<open>auto simp: file_step_def end_ok_def Let_def split: if_splits option.splits\<close>)
  show ?thesis
  proof (cases e)
    case (EOp k i)
    then have "op_step k i s = Some t" using t by (simp add: pde_step_def split: if_splits)
    then show ?thesis using s
      by (cases "ops s ! k") (auto simp: op_step_def end_ok_def complete_unload_def Let_def split: if_splits option.splits)
  qed (use t rem fstep in \<open>simp_all add: pde_step_def split: if_splits\<close>)
qed

lemma complete_unload_simps [simp]:
  "files (complete_unload s) = files s" "ops (complete_unload s) = ops s" "in_use (complete_unload s) = in_use s"
  "openers (complete_unload s) = openers s" "released (complete_unload s) = released s"
  by (simp_all add: complete_unload_def)

lemma rundown_loop_lengths: "files (rundown_loop s) = files s" "ops (rundown_loop s) = ops s"
  by (auto simp: rundown_loop_def close_begin_def split: list.split)

lemma pde_step_lengths: "pde_step M e s = Some t \<Longrightarrow> length (files t) = length (files s) \<and> length (ops t) = length (ops s)"
proof (cases e)
  case (EFile i b)
  assume "pde_step M e s = Some t"
  then have "file_step M b i s = Some t" by (simp add: pde_step_def EFile split: if_splits)
  then show ?thesis
    by (cases "files s ! i") (auto simp: file_step_def Let_def close_end_simps close_begin_def split: if_splits option.splits)
next
  case (EOp k i)
  assume "pde_step M e s = Some t"
  then have "op_step k i s = Some t" by (simp add: pde_step_def EOp split: if_splits)
  then show ?thesis by (cases "ops s ! k") (auto simp: op_step_def Let_def split: if_splits option.splits)
next
  case ERemove
  assume "pde_step M e s = Some t"
  then have "remove_step s = Some t" by (simp add: pde_step_def ERemove)
  then show ?thesis by (cases "remover s") (auto simp: remove_step_def Let_def rundown_loop_lengths close_end_simps split: if_splits)
qed

lemma pde_reach_end:
  assumes "pde_reach M n k s" "n + k < 2147483648"
  shows "pde_inv M s \<and> end_ok s \<and> length (files s) = n \<and> length (ops s) = k"
  using assms(1)
proof induction
  case registered
  then show ?case using pde_inv_init [OF assms(2)] by (simp add: end_ok_def pde_init_def)
next
  case (step s e t)
  then have "length (files t) = length (files s) \<and> length (ops t) = length (ops s)" by (simp add: pde_step_lengths)
  with step show ?case using pde_step_inv end_ok_step by (metis step.IH step.hyps(2))
qed

section \<open>Progress\<close>

text \<open>A rank that every step decreases except the start of an operation: five for each opener, and for each thread
  how far it is from its end.\<close>

fun file_rank :: "file_pc \<Rightarrow> int" where
  "file_rank UStart = 20"
| "file_rank UOpenCb = 19"
| "file_rank UOpenAdd = 18"
| "file_rank (UOpenEnd _) = 12"
| "file_rank (UOpenComplete _) = 11"
| "file_rank UOpen = 10"
| "file_rank URel = 9"
| "file_rank URelCb = 7"
| "file_rank URelEnd = 6"
| "file_rank (URelWait d) = (if d then 7 else 8)"
| "file_rank (UDone _) = 0"

fun op_rank :: "op_pc \<Rightarrow> int" where
  "op_rank OIdle = 0"
| "op_rank (OCb _) = 3"
| "op_rank (OEnd _) = 2"
| "op_rank (OComplete _) = 1"

fun remove_rank :: "remove_pc \<Rightarrow> int" where
  "remove_rank RStart = 100"
| "remove_rank (RWait d) = (if d then 98 else 99)"
| "remove_rank RLock = 97"
| "remove_rank (RCb _) = 96"
| "remove_rank (REnd _) = 95"
| "remove_rank (RWaitC _ d) = (if d then 98 else 96)"
| "remove_rank RDone = 0"

definition pde_rank :: "pde \<Rightarrow> int" where
  "pde_rank s = 5 * int (length (openers s)) + wsum file_rank (files s) + wsum op_rank (ops s) + remove_rank (remover s)"

lemma ranks_nonneg: "0 \<le> file_rank p" "0 \<le> op_rank o'" "0 \<le> remove_rank r"
  by ((cases p; simp), (cases o'; simp), (cases r; simp))

lemma pde_rank_nonneg: "0 \<le> pde_rank s"
  using wsum_nonneg [of file_rank "files s"] wsum_nonneg [of op_rank "ops s"] by (simp add: pde_rank_def ranks_nonneg)

lemma rank_goto: "i < length (files s) \<Longrightarrow> pde_rank (goto i p s) = pde_rank s - file_rank (files s ! i) + file_rank p"
  by (simp add: pde_rank_def wsum_upd)

lemma rank_close_begin: "close_begin w i po s = (wait, s') \<Longrightarrow> pde_rank s' = pde_rank s"
  using close_begin_simps [of w i po s wait s'] by (simp add: pde_rank_def)

lemma rank_complete: "pde_rank (complete_unload s) \<le> pde_rank s"
  by (simp add: complete_unload_def pde_rank_def)

lemma rank_close_end:
  assumes "i < length (files s)"
  shows "pde_rank (close_end i s) \<le> pde_rank s \<and> (get_opener i (openers s) \<noteq> None \<longrightarrow> pde_rank (close_end i s) \<le> pde_rank s - 3)"
proof (cases "get_opener i (openers s)")
  case None
  then show ?thesis by (simp add: close_end_def)
next
  case (Some po)
  then have "length (list_del i (openers s)) < length (openers s)" by (intro list_del_length) simp
  then have l: "int (length (list_del i (openers s))) + 1 \<le> int (length (openers s))" by linarith
  have "pde_rank (s\<lparr>openers := list_del i (openers s)\<rparr>) \<le> pde_rank s - 5"
    "pde_rank (s\<lparr>openers := list_del i (openers s), remover := RWaitC i True\<rparr>) + remove_rank (remover s) \<le> pde_rank s - 5 + 98"
    using l by (simp_all add: pde_rank_def)
  then show ?thesis
    using assms Some by (auto simp: close_end_def rank_goto Let_def split: option.split waiter.split)
qed

lemma rank_loop: "remover s = RLock \<Longrightarrow> pde_rank (rundown_loop s) < pde_rank s"
proof (cases "openers s")
  case (Cons po pos)
  assume "remover s = RLock"
  obtain w s' where b: "close_begin Remover (po_file po) po s = (w, s')" by fastforce
  have "pde_rank s' = pde_rank s" "remover s' = RLock"
    using rank_close_begin [OF b] close_begin_simps [OF b] \<open>remover s = RLock\<close> by simp_all
  then show ?thesis by (simp add: rundown_loop_def Cons b pde_rank_def)
qed (simp add: rundown_loop_def pde_rank_def)

lemma file_step_rank:
  assumes i: "i < length (files s)" and t: "file_step M b i s = Some t"
  shows "pde_rank t < pde_rank s"
proof -
  have v: "pde_rank (s\<lparr>in_use := v\<rparr>) = pde_rank s" for v by (simp add: pde_rank_def)
  have to: "pde_rank (goto i p (s\<lparr>in_use := v\<rparr>)) < pde_rank s" if "file_rank p < file_rank (files s ! i)" for p v
    using rank_goto [of i "s\<lparr>in_use := v\<rparr>" p] that i v by simp
  have to': "pde_rank (goto i p s) < pde_rank s" if "file_rank p < file_rank (files s ! i)" for p
    using rank_goto [OF i, of p] that by simp
  show ?thesis
  proof (cases "files s ! i")
    case UOpenAdd
    then have e: "t = goto i (UOpenEnd True) (s\<lparr>openers := opener i False None # openers s\<rparr>)" using t by (simp add: file_step_def)
    have "pde_rank (s\<lparr>openers := opener i False None # openers s\<rparr>) = pde_rank s + 5" by (simp add: pde_rank_def)
    then show ?thesis
      using rank_goto [of i "s\<lparr>openers := opener i False None # openers s\<rparr>" "UOpenEnd True"] i by (simp add: e UOpenAdd)
  next
    case (UOpenComplete rv0)
    then have e: "t = goto i (if rv0 then UOpen else UDone False) (complete_unload s)" using t by (simp add: file_step_def)
    show ?thesis
      using rank_goto [of i "complete_unload s"] rank_complete [of s] i by (auto simp: e UOpenComplete)
  next
    case URel
    show ?thesis
    proof (cases "get_opener i (openers s)")
      case None
      then have e: "t = goto i (UDone True) s" using t URel by (simp add: file_step_def)
      show ?thesis unfolding e by (rule to') (simp add: URel)
    next
      case (Some po)
      obtain w s' where b: "close_begin Closer i po s = (w, s')" by fastforce
      have e: "t = goto i (if w then URelWait False else URelCb) s'" using t Some b URel by (simp add: file_step_def)
      show ?thesis
        using rank_goto [of i s'] rank_close_begin [OF b] close_begin_simps [OF b] i by (auto simp: e URel)
    qed
  next
    case URelEnd
    then have e: "t = goto i (UDone True) (close_end i s)" using t by (simp add: file_step_def)
    have f: "files (close_end i s) ! i = URelEnd"
      using URelEnd by (auto simp: close_end_def Let_def split: option.split waiter.split)
    show ?thesis
      using rank_goto [of i "close_end i s" "UDone True"] rank_close_end [OF i] close_end_simps(2) [of i s] i f by (simp add: e)
  qed (use t in \<open>auto simp: file_step_def Let_def intro!: to to' split: if_splits option.splits\<close>)
qed

lemma op_step_rank:
  assumes "k < length (ops s)" "ops s ! k \<noteq> OIdle" "op_step k i s = Some t"
  shows "pde_rank t < pde_rank s"
proof -
  have "pde_rank (s\<lparr>ops := (ops s)[k := p]\<rparr>) = pde_rank s - op_rank (ops s ! k) + op_rank p"
    "pde_rank (s\<lparr>in_use := v, ops := (ops s)[k := p]\<rparr>) = pde_rank s - op_rank (ops s ! k) + op_rank p" for p v
    using assms(1) by (simp_all add: pde_rank_def wsum_upd)
  then show ?thesis using assms rank_complete [of "s\<lparr>ops := (ops s)[k := OIdle]\<rparr>"]
    by (cases "ops s ! k") (auto simp: op_step_def Let_def)
qed

lemma remove_step_rank:
  assumes inv: "pde_inv M s" and e: "end_ok s" and t: "remove_step s = Some t"
  shows "pde_rank t < pde_rank s"
proof -
  note D = pde_invD [OF inv]
  have to: "pde_rank (s\<lparr>in_use := v, remover := rm\<rparr>) = pde_rank s - remove_rank (remover s) + remove_rank rm"
    "pde_rank (s\<lparr>remover := rm\<rparr>) = pde_rank s - remove_rank (remover s) + remove_rank rm" for rm v
    by (simp_all add: pde_rank_def)
  show ?thesis
  proof (cases "remover s")
    case RLock
    then show ?thesis using t rank_loop [OF RLock] by (simp add: remove_step_def)
  next
    case (REnd i)
    have i: "i < length (files s)" using e by (simp add: end_ok_def REnd)
    have "get_opener i (openers s) \<noteq> None"
      using files_okD [OF D(2) i] by (cases "files s ! i") (auto simp: REnd split: if_splits)
    then have "pde_rank (close_end i (s\<lparr>remover := RLock\<rparr>)) \<le> pde_rank s - 1"
      using rank_close_end [of i "s\<lparr>remover := RLock\<rparr>"] i to(2) [of RLock] by (simp add: REnd)
    moreover have "t = rundown_loop (close_end i (s\<lparr>remover := RLock\<rparr>))" using t by (simp add: remove_step_def REnd)
    ultimately show ?thesis using rank_loop remover_end_inv [OF inv REnd] by fastforce
  qed (use t in \<open>auto simp: remove_step_def Let_def to split: if_splits\<close>)
qed

lemma pde_progress:
  assumes inv: "pde_inv M s" and e: "end_ok s" and r: "remover s \<noteq> RDone"
  shows "\<exists>e t. pde_step M e s = Some t \<and> pde_rank t < pde_rank s"
proof -
  note D = pde_invD [OF inv]
  have rem: ?thesis if "remove_step s \<noteq> None"
    using that remove_step_rank [OF inv e] by (intro exI [of _ ERemove]) (auto simp: pde_step_def)
  have fl: ?thesis if i: "i < length (files s)" and p: "file_inside (files s ! i) \<or> file_completing (files s ! i) \<or> files s ! i = URelCb \<or> files s ! i = URelEnd" for i
  proof -
    obtain t where "file_step M True i s = Some t" using p by (cases "files s ! i") (auto simp: file_step_def Let_def)
    then show ?thesis using i file_step_rank [of i s M True t] by (intro exI [of _ "EFile i True"]) (auto simp: pde_step_def)
  qed
  have op: ?thesis if k: "k < length (ops s)" and p: "op_inside (ops s ! k) \<or> op_completing (ops s ! k)" for k
  proof -
    obtain i where i: "op_file (ops s ! k) = Some i" using p by (cases "ops s ! k") auto
    then have "i < length (files s)" using D(4) k by (simp add: ops_ok_def)
    moreover obtain t where "op_step k i s = Some t" using p by (cases "ops s ! k") (auto simp: op_step_def Let_def)
    moreover have "ops s ! k \<noteq> OIdle" using i by auto
    ultimately show ?thesis using k op_step_rank [of k s i t] by (intro exI [of _ "EOp k i"]) (auto simp: pde_step_def)
  qed
  have "remover s = RWait False \<or> (\<exists>i. remover s = RWaitC i False) \<or> remove_step s \<noteq> None"
    using r by (cases "remover s") (simp_all add: remove_step_def Let_def)
  then consider (wait) "remover s = RWait False" | (waitc) i where "remover s = RWaitC i False" | (moves) "remove_step s \<noteq> None"
    by blast
  then show ?thesis
  proof cases
    case wait
    then have "1 \<le> users s + completing s" using D(1,5) by (cases "users s = 0") simp_all
    then have "1 \<le> cnt file_inside (files s) \<or> 1 \<le> cnt file_completing (files s) \<or> 1 \<le> cnt op_inside (ops s) \<or> 1 \<le> cnt op_completing (ops s)"
      by (auto simp: users_def completing_def)
    then show ?thesis by (elim disjE cnt_posE) (use fl op in blast)+
  next
    case (waitc i)
    have i: "i < length (files s)" using e by (simp add: end_ok_def waitc)
    have "files s ! i = URelCb \<or> files s ! i = URelEnd"
      using files_okD [OF D(2) i] by (cases "files s ! i") (auto simp: waitc split: if_splits)
    then show ?thesis using fl i by blast
  next
    case moves
    then show ?thesis by (rule rem)
  qed
qed

lemma pde_can_finish:
  assumes "pde_reach M n k s" "n + k < 2147483648"
  shows "\<exists>es t. pde_run M es s = Some t \<and> remover t = RDone"
  using assms(1)
proof (induction "nat (pde_rank s)" arbitrary: s rule: less_induct)
  case less
  show ?case
  proof (cases "remover s = RDone")
    case True
    then show ?thesis by (intro exI [of _ "[]"]) simp
  next
    case False
    from pde_reach_end [OF less.prems assms(2)] False obtain e t where t: "pde_step M e s = Some t" "pde_rank t < pde_rank s"
      using pde_progress by blast
    moreover have "nat (pde_rank t) < nat (pde_rank s)" using t(2) pde_rank_nonneg [of t] by linarith
    moreover have "pde_reach M n k t" using less.prems t(1) by (rule pde_reach.step)
    ultimately obtain es u where "pde_run M es t = Some u" "remover u = RDone" using less.hyps by blast
    then show ?thesis using t(1) by (intro exI [of _ "e # es"] exI [of _ u]) simp
  qed
qed

section \<open>What the module may rely on\<close>

text \<open>Whether a file has been opened with success.\<close>

fun was_open :: "file_pc \<Rightarrow> bool" where
  "was_open UStart = False"
| "was_open UOpenCb = False"
| "was_open UOpenAdd = False"
| "was_open (UOpenEnd rv0) = rv0"
| "was_open (UOpenComplete rv0) = rv0"
| "was_open (UDone ok) = ok"
| "was_open _ = True"

text \<open>C12.  When \<open>proc_entry_rundown\<close> has returned, no thread is inside a function of the module, every operation on a file that is still
  open returns its error without calling the module, no opener is left, and \<open>->release\<close> has been called exactly once for each file that was opened with success, and for no other; so the module can be
  unloaded.\<close>

theorem rundown_complete:
  assumes "pde_reach M n k s" "n + k < 2147483648" "remover s = RDone"
  shows "(\<forall>p \<in> set (files s). \<not> file_inside p \<and> p \<noteq> URelCb \<and> p \<noteq> URelEnd) \<and> (\<forall>p \<in> set (ops s). p = OIdle)
    \<and> (\<forall>f hook fallback. proc_reg_rv f (use_pde (in_use s)) hook fallback = reg_error f) \<and> openers s = []
    \<and> distinct (released s) \<and> (\<forall>i < n. i \<in> set (released s) \<longleftrightarrow> m_release M \<and> was_open (files s ! i))"
proof -
  have S: "pde_inv M s" "end_ok s" "length (files s) = n" using pde_reach_end [OF assms(1,2)] by simp_all
  note D = pde_invD [OF S(1)]
  have o: "openers s = []" using S(2) assms(3) by (simp add: end_ok_def)
  have u: "users s = 0" "completing s = 0" "use_pde (in_use s) = None" using D(1) ctl_use [OF D(1,5,6)] by (simp_all add: assms(3))
  have f: "\<not> file_inside (files s ! i) \<and> files s ! i \<noteq> URelCb \<and> files s ! i \<noteq> URelEnd
      \<and> (i \<in> set (released s) \<longleftrightarrow> m_release M \<and> was_open (files s ! i))" if "i < n" for i
    using files_okD [OF D(2), of i] user_pos(1,3) [of i s] that u
    by (cases "files s ! i") (auto simp: S(3) o assms(3) listed_def split: if_splits)
  have "p = OIdle" if p: "p \<in> set (ops s)" for p
  proof -
    obtain j where "j < length (ops s)" "ops s ! j = p" using p by (auto simp: in_set_conv_nth)
    then show ?thesis using user_pos(2,4) [of j s] u by (cases p) auto
  qed
  moreover have "distinct (released s)" using D(3) by (simp add: lists_ok_def lists_okl_def)
  moreover have "\<forall>p \<in> set (files s). \<not> file_inside p \<and> p \<noteq> URelCb \<and> p \<noteq> URelEnd" using f by (auto simp: in_set_conv_nth S(3))
  ultimately show ?thesis using u(3) o f by (simp add: proc_reg_rv_def)
qed

definition demo_events :: "event list" where
  "demo_events = [EFile 0 True, EFile 0 True, EFile 0 True, EFile 0 True, EOp 0 0, ERemove, EFile 1 True, EOp 0 0, EOp 0 0, EOp 0 0,
     ERemove, EFile 0 True, EFile 0 True, ERemove, EFile 0 True, EFile 0 True, ERemove, ERemove]"

lemma demo_reach:
  "\<exists>s. pde_reach \<lparr>m_open = True, m_release = True\<rparr> 2 1 s \<and> remover s = RDone \<and> released s = [0] \<and> files s = [UDone True, UDone False]"
proof -
  have "case pde_run \<lparr>m_open = True, m_release = True\<rparr> demo_events (pde_init 2 1) of None \<Rightarrow> False
    | Some s \<Rightarrow> remover s = RDone \<and> released s = [0] \<and> files s = [UDone True, UDone False]"
    by code_simp
  then show ?thesis using pde_run_reach [OF pde_reach.registered] by (fastforce split: option.splits)
qed

theorem rundown_complete_witness:
  "\<exists>s. pde_reach \<lparr>m_open = True, m_release = True\<rparr> 2 1 s \<and> remover s = RDone \<and> released s = [0] \<and> proc_reg_rv Read (use_pde (in_use s)) (Some 7) 0 = - 5"
proof -
  obtain s where s: "pde_reach \<lparr>m_open = True, m_release = True\<rparr> 2 1 s" "remover s = RDone" "released s = [0]" using demo_reach by blast
  with rundown_complete [OF s(1) _ s(2)] show ?thesis by auto
qed

text \<open>While it goes on: operations run on open files only; a file is released by at most one thread at a time and at most once, never
  while an operation runs on it, and by the remover only when nobody is inside the module; the completion of the removal is signalled by at
  most one thread, and only while the remover waits for it.\<close>

theorem rundown_exclusive:
  assumes "pde_reach M n k s" "n + k < 2147483648"
  shows "distinct (released s)
    \<and> (\<forall>j < k. \<forall>i. op_file (ops s ! j) = Some i \<longrightarrow> files s ! i = UOpen)
    \<and> (\<forall>i < n. files s ! i = URelCb \<longrightarrow> remover s \<noteq> RCb i)
    \<and> (\<forall>i. remover s = RCb i \<longrightarrow> (\<forall>p \<in> set (ops s). p = OIdle) \<and> (\<forall>p \<in> set (files s). \<not> file_inside p))
    \<and> 0 \<le> completing s \<and> completing s \<le> of_bool (remover s = RWait False)"
proof -
  have S: "pde_inv M s" "length (files s) = n" "length (ops s) = k" using pde_reach_end [OF assms(1,2)] by simp_all
  note D = pde_invD [OF S(1)]
  have c: "0 \<le> completing s \<and> completing s \<le> of_bool (remover s = RWait False)"
    using D(1) by (cases "(remover s, in_use s, users s, completing s)" rule: ctl_ok.cases) (auto split: if_splits)
  have q: "(\<forall>p \<in> set (ops s). p = OIdle) \<and> (\<forall>p \<in> set (files s). \<not> file_inside p)" if "remover s = RCb i" for i
  proof -
    have u: "users s = 0" "completing s = 0" using D(1) by (simp_all add: that)
    have "p = OIdle" if p: "p \<in> set (ops s)" for p
    proof -
      obtain j where "j < length (ops s)" "ops s ! j = p" using p by (auto simp: in_set_conv_nth)
      then show ?thesis using user_pos(2,4) [of j s] u by (cases p) auto
    qed
    moreover have "\<not> file_inside p" if "p \<in> set (files s)" for p
      using that user_pos(1) [of _ s] u by (auto simp: in_set_conv_nth)
    ultimately show ?thesis by blast
  qed
  have "remover s \<noteq> RCb i" if "i < n" "files s ! i = URelCb" for i
    using files_okD [OF D(2), of i] that S(2) by auto
  moreover have "distinct (released s)" using D(3) by (simp add: lists_ok_def lists_okl_def)
  moreover have "\<forall>j < k. \<forall>i. op_file (ops s ! j) = Some i \<longrightarrow> files s ! i = UOpen" using D(4) S(3) by (simp add: ops_ok_def)
  ultimately show ?thesis using c q by blast
qed

theorem rundown_exclusive_witness:
  "\<exists>s. pde_reach \<lparr>m_open = True, m_release = True\<rparr> 2 1 s \<and> remover s = RDone \<and> completing s = 0"
proof -
  obtain s where s: "pde_reach \<lparr>m_open = True, m_release = True\<rparr> 2 1 s" "remover s = RDone" using demo_reach by blast
  with rundown_exclusive [OF s(1)] show ?thesis by auto
qed

text \<open>C13.  The removal cannot be blocked: whatever has happened so far, there is a step that brings the threads nearer to their ends, so that if
  the functions of the module return, \<open>proc_entry_rundown\<close> does; it may be run by a thread that keeps a file of the entry open.\<close>

theorem rundown_returns:
  assumes "pde_reach M n k s" "n + k < 2147483648"
  shows "(\<exists>es t. pde_run M es s = Some t \<and> remover t = RDone)
    \<and> (remover s \<noteq> RDone \<longrightarrow> (\<exists>e t. pde_step M e s = Some t \<and> 0 \<le> pde_rank t \<and> pde_rank t < pde_rank s))"
  using pde_can_finish [OF assms] pde_progress [of M s] pde_reach_end [OF assms] pde_rank_nonneg by blast

theorem rundown_returns_witness:
  "\<exists>e t. pde_step \<lparr>m_open = True, m_release = True\<rparr> e (pde_init 2 1) = Some t \<and> pde_rank t < pde_rank (pde_init 2 1)"
  using rundown_returns [OF pde_reach.registered, of 2 1 "\<lparr>m_open = True, m_release = True\<rparr>"] by (auto simp: pde_init_def)

end
