(* ===== verification/Sysctl.thy ===== *)
theory Sysctl imports ProcTree begin

text \<open>
  Registration of tables in \<open>/proc/sys\<close> (\<open>fs/proc/proc_sysctl.c\<close>) for the set of the root, which \<open>register_sysctl\<close> uses:
  directories that are made on the way and go away with the last table in them.  A header is an object in a store; \<open>nreg\<close> counts
  the headers registered below it and the references that a registration in progress holds.  The links between the sets of network name
  spaces (\<open>insert_links\<close>, \<open>put_links\<close>) return at once for this set.  \<open>sysctl_lock\<close> is let go in between; the model is of a
  registration that is not disturbed.  Parameters are \<open>kzalloc\<close> and the balancing of the trees.  Shown: a registration that fails
  leaves nothing behind, and unregistering gives back exactly what registration took; a second table with the same name, and a directory to be
  made in a mount point, crash.
\<close>

section \<open>Tables and headers\<close>

datatype proc_handler = NoHandler | proc_dostring | proc_dointvec | proc_dointvec_minmax | proc_dointvec_jiffies | proc_dointvec_userhz_jiffies
  | proc_dointvec_ms_jiffies | proc_doulongvec_minmax | proc_doulongvec_ms_jiffies_minmax | OtherHandler

datatype ctl_table = Ctl (ct_name: string) (ct_mode: "16 word") (ct_child: ctl_child) (ct_handler: proc_handler) (ct_data: bool) (ct_maxlen: nat)
  and ctl_child = NoChild | MountPoint | Children "ctl_table list"

text \<open>\<open>h_mount\<close> says that \<open>ctl_table\<close> points to \<open>sysctl_mount_point\<close>, an empty table.  Nodes of the trees are pairs of a header and the
  number of an entry in its table.\<close>

record ctl_header =
  h_table :: "ctl_table list"
  h_mount :: bool
  h_used :: nat
  h_count :: int
  h_nreg :: int
  h_unreg :: bool
  h_parent :: "nat option"
  h_tree :: "(nat \<times> nat) tree"

type_synonym ctl_store = "nat \<rightharpoonup> ctl_header"

definition sys_root :: nat where "sys_root = 0"

abbreviation hdr :: "ctl_store \<Rightarrow> nat \<Rightarrow> ctl_header" where
  "hdr s h \<equiv> the (s h)"

definition upd_hdr :: "nat \<Rightarrow> (ctl_header \<Rightarrow> ctl_header) \<Rightarrow> ctl_store \<Rightarrow> ctl_store" where
  "upd_hdr h f s = s(h := map_option f (s h))"

definition ent_name :: "ctl_store \<Rightarrow> nat \<times> nat \<Rightarrow> string" where
  "ent_name s = (\<lambda>(h, i). ct_name (h_table (hdr s h) ! i))"

definition EROFS :: int where "EROFS = 30"
definition ENOTDIR :: int where "ENOTDIR = 20"

fun set_child :: "ctl_child \<Rightarrow> ctl_table list \<Rightarrow> ctl_table list" where
  "set_child c (Ctl n m _ p d l # es) = Ctl n m c p d l # es"
| "set_child c [] = []"

definition is_empty_dir :: "ctl_header \<Rightarrow> bool" where
  "is_empty_dir x \<longleftrightarrow> (case h_table x of [] \<Rightarrow> False | e # _ \<Rightarrow> ct_child e = MountPoint)"

definition set_empty_dir :: "nat \<Rightarrow> ctl_store \<Rightarrow> ctl_store" where
  "set_empty_dir d = upd_hdr d (\<lambda>x. x\<lparr>h_table := set_child MountPoint (h_table x)\<rparr>)"

definition clear_empty_dir :: "nat \<Rightarrow> ctl_store \<Rightarrow> ctl_store" where
  "clear_empty_dir d = upd_hdr d (\<lambda>x. x\<lparr>h_table := set_child NoChild (h_table x)\<rparr>)"

definition init_header :: "bool \<Rightarrow> ctl_table list \<Rightarrow> ctl_header" where
  "init_header mount table = \<lparr>h_table = table, h_mount = mount, h_used = 0, h_count = 1, h_nreg = 1, h_unreg = False, h_parent = None, h_tree = Leaf\<rparr>"

section \<open>Entries\<close>

definition find_entry :: "ctl_store \<Rightarrow> nat \<Rightarrow> string \<Rightarrow> (nat \<times> nat) option" where
  "find_entry s dir name = rb_find namecmp (ent_name s) name (h_tree (hdr s dir))"

definition insert_entry :: "(nat \<times> nat) rb_lib \<Rightarrow> nat \<times> nat \<Rightarrow> ctl_store \<Rightarrow> int \<times> ctl_store" where
  "insert_entry L e s =
     (let p = the (h_parent (hdr s (fst e))) in
      case rb_insert L namecmp (ent_name s) e (h_tree (hdr s p)) of
        None \<Rightarrow> (- EEXIST, s)
      | Some t \<Rightarrow> (0, upd_hdr p (\<lambda>x. x\<lparr>h_tree := t\<rparr>) s))"

text \<open>\<open>rb_erase\<close> may only be called for a node of the tree; that is the fault \<open>BadFree\<close>.  The tree of a header without a parent is
  at an offset of the null pointer.\<close>

definition erase_entry :: "(nat \<times> nat) rb_lib \<Rightarrow> nat \<times> nat \<Rightarrow> ctl_store \<Rightarrow> fault + ctl_store" where
  "erase_entry L e s =
     (case h_parent (hdr s (fst e)) of
        None \<Rightarrow> Inl NullDeref
      | Some p \<Rightarrow>
          if e \<in> set (inorder (h_tree (hdr s p))) then Inr (upd_hdr p (\<lambda>x. x\<lparr>h_tree := erase L e (h_tree x)\<rparr>) s) else Inl BadFree)"

fun erase_entries :: "(nat \<times> nat) rb_lib \<Rightarrow> nat \<Rightarrow> nat list \<Rightarrow> ctl_store \<Rightarrow> fault + ctl_store" where
  "erase_entries L h [] s = Inr s"
| "erase_entries L h (i # is) s = (case erase_entry L (h, i) s of Inl f \<Rightarrow> Inl f | Inr s \<Rightarrow> erase_entries L h is s)"

definition erase_header :: "(nat \<times> nat) rb_lib \<Rightarrow> nat \<Rightarrow> ctl_store \<Rightarrow> fault + ctl_store" where
  "erase_header L h s = erase_entries L h [0..<length (h_table (hdr s h))] s"

section \<open>Users and references\<close>

definition use_table :: "nat \<Rightarrow> ctl_store \<Rightarrow> bool \<times> ctl_store" where
  "use_table h s = (if h_unreg (hdr s h) then (False, s) else (True, upd_hdr h (\<lambda>x. x\<lparr>h_used := h_used x + 1\<rparr>) s))"

text \<open>The first result says that the remover is woken.\<close>

definition unuse_table :: "nat \<Rightarrow> ctl_store \<Rightarrow> bool \<times> ctl_store" where
  "unuse_table h s =
     (let s = upd_hdr h (\<lambda>x. x\<lparr>h_used := h_used x - 1\<rparr>) s in (h_used (hdr s h) = 0 \<and> h_unreg (hdr s h), s))"

text \<open>\<open>start_unregistering\<close> after its wait, which ends when there are no users.\<close>

definition start_unregistering :: "(nat \<times> nat) rb_lib \<Rightarrow> nat \<Rightarrow> ctl_store \<Rightarrow> fault + ctl_store" where
  "start_unregistering L h s = erase_header L h (upd_hdr h (\<lambda>x. x\<lparr>h_unreg := True, h_used := 0\<rparr>) s)"

definition sysctl_head_put :: "nat \<Rightarrow> ctl_store \<Rightarrow> ctl_store" where
  "sysctl_head_put h s =
     (let s = upd_hdr h (\<lambda>x. x\<lparr>h_count := h_count x - 1\<rparr>) s in if h_count (hdr s h) = 0 then s(h := None) else s)"

definition sysctl_head_get :: "nat \<Rightarrow> ctl_store \<Rightarrow> ctl_store" where
  "sysctl_head_get h = upd_hdr h (\<lambda>x. x\<lparr>h_count := h_count x + 1\<rparr>)"

text \<open>\<open>drop_sysctl_table\<close> goes up through the parents; the fuel bounds their number.\<close>

fun drop_sysctl_table :: "(nat \<times> nat) rb_lib \<Rightarrow> nat \<Rightarrow> nat \<Rightarrow> ctl_store \<Rightarrow> fault + ctl_store" where
  "drop_sysctl_table L 0 h s = Inl NonTerminating"
| "drop_sysctl_table L (Suc fuel) h s =
     (let parent = h_parent (hdr s h); s = upd_hdr h (\<lambda>x. x\<lparr>h_nreg := h_nreg x - 1\<rparr>) s in
      if h_nreg (hdr s h) \<noteq> 0 then Inr s
      else (case start_unregistering L h s of
              Inl f \<Rightarrow> Inl f
            | Inr s \<Rightarrow> (case parent of None \<Rightarrow> Inr (sysctl_head_put h s) | Some p \<Rightarrow> drop_sysctl_table L fuel p (sysctl_head_put h s))))"

section \<open>Registration\<close>

fun insert_entries :: "(nat \<times> nat) rb_lib \<Rightarrow> nat \<Rightarrow> nat list \<Rightarrow> ctl_store \<Rightarrow> int \<times> ctl_store" where
  "insert_entries L h [] s = (0, s)"
| "insert_entries L h (i # is) s = (case insert_entry L (h, i) s of (err, s) \<Rightarrow> if err \<noteq> 0 then (err, s) else insert_entries L h is s)"

definition insert_header :: "(nat \<times> nat) rb_lib \<Rightarrow> nat \<Rightarrow> nat \<Rightarrow> nat \<Rightarrow> ctl_store \<Rightarrow> fault + int \<times> ctl_store" where
  "insert_header L fuel dir h s =
     (if is_empty_dir (hdr s dir) then Inr (- EROFS, s)
      else if h_mount (hdr s h) \<and> h_tree (hdr s dir) \<noteq> Leaf then Inr (- EINVAL, s)
      else
        let mount = h_mount (hdr s h);
            s = (if mount then set_empty_dir dir s else s);
            s = upd_hdr h (\<lambda>x. x\<lparr>h_parent := Some dir\<rparr>) (upd_hdr dir (\<lambda>x. x\<lparr>h_nreg := h_nreg x + 1\<rparr>) s) in
        (case insert_entries L h [0..<length (h_table (hdr s h))] s of (err, s) \<Rightarrow>
           if err = 0 then Inr (0, s)
           else (case erase_header L h s of
                   Inl f \<Rightarrow> Inl f
                 | Inr s \<Rightarrow>
                     let s = (if mount then clear_empty_dir dir s else s); s = upd_hdr h (\<lambda>x. x\<lparr>h_parent := None\<rparr>) s in
                     (case drop_sysctl_table L fuel dir s of Inl f \<Rightarrow> Inl f | Inr s \<Rightarrow> Inr (err, s)))))"

definition find_subdir :: "ctl_store \<Rightarrow> nat \<Rightarrow> string \<Rightarrow> int + nat" where
  "find_subdir s dir name =
     (case find_entry s dir name of
        None \<Rightarrow> Inl (- ENOENT)
      | Some (h, i) \<Rightarrow> if S_ISDIR (ct_mode (h_table (hdr s h) ! i)) then Inr h else Inl (- ENOTDIR))"

definition dir_mode :: "16 word" where "dir_mode = or S_IFDIR (or S_IRUGO S_IXUGO)"

definition dir_table :: "string \<Rightarrow> ctl_table list" where
  "dir_table name = [Ctl name dir_mode NoChild NoHandler False 0]"

definition new_dir :: "(ctl_store \<Rightarrow> nat option) \<Rightarrow> string \<Rightarrow> ctl_store \<Rightarrow> (nat \<times> ctl_store) option" where
  "new_dir kzalloc name s = map_option (\<lambda>h. (h, s(h \<mapsto> init_header False (dir_table name)))) (kzalloc s)"

text \<open>\<open>get_subdir\<close>: what it returns, an error or the directory, and the references it drops at its end, of the directory and of the new one.\<close>

definition get_subdir :: "(nat \<times> nat) rb_lib \<Rightarrow> (ctl_store \<Rightarrow> nat option) \<Rightarrow> nat \<Rightarrow> nat \<Rightarrow> string \<Rightarrow> ctl_store \<Rightarrow> fault + (int + nat) \<times> ctl_store" where
  "get_subdir L kzalloc fuel dir name s =
     (let leave = (\<lambda>res new s. case drop_sysctl_table L fuel dir s of
            Inl f \<Rightarrow> Inl f
          | Inr s \<Rightarrow> (case new of None \<Rightarrow> Inr (res, s)
              | Some n \<Rightarrow> (case drop_sysctl_table L fuel n s of Inl f \<Rightarrow> Inl f | Inr s \<Rightarrow> Inr (res, s))));
          found = (\<lambda>sub new s. leave (Inr sub) new (upd_hdr sub (\<lambda>x. x\<lparr>h_nreg := h_nreg x + 1\<rparr>) s)) in
      case find_subdir s dir name of
        Inr sub \<Rightarrow> found sub None s
      | Inl e \<Rightarrow>
          if e \<noteq> - ENOENT then leave (Inl e) None s
          else (case new_dir kzalloc name s of
                  None \<Rightarrow> leave (Inl (- ENOMEM)) None s
                | Some (n, s) \<Rightarrow>
                    (case find_subdir s dir name of
                       Inr sub \<Rightarrow> found sub (Some n) s
                     | Inl e \<Rightarrow>
                         if e \<noteq> - ENOENT then leave (Inl e) (Some n) s
                         else (case insert_header L fuel dir n s of
                                 Inl f \<Rightarrow> Inl f
                               | Inr (err, s) \<Rightarrow> if err \<noteq> 0 then leave (Inl err) (Some n) s else found n (Some n) s))))"


definition S_IWUGO :: "16 word" where "S_IWUGO = 146"

definition check_entry :: "ctl_table \<Rightarrow> bool" where
  "check_entry e \<longleftrightarrow> ct_child e = NoChild \<and> ct_handler e \<noteq> NoHandler \<and> and (ct_mode e) (or S_IRUGO S_IWUGO) = ct_mode e
     \<and> (ct_handler e \<noteq> OtherHandler \<longrightarrow> ct_data e \<and> ct_maxlen e \<noteq> 0)"

fun sysctl_check_table :: "ctl_table list \<Rightarrow> int" where
  "sysctl_check_table [] = 0"
| "sysctl_check_table (e # es) = (let err = sysctl_check_table es in if check_entry e then err else - EINVAL)"

text \<open>The loop over the path: each part that is not empty is the directory to go to next.\<close>

function register_path :: "(nat \<times> nat) rb_lib \<Rightarrow> (ctl_store \<Rightarrow> nat option) \<Rightarrow> nat \<Rightarrow> nat \<Rightarrow> string \<Rightarrow> ctl_store \<Rightarrow> fault + (int + nat) \<times> ctl_store" where
  "register_path L kzalloc fuel dir name s =
     (let part = takeWhile (\<lambda>c. c \<noteq> CHR ''/'') name; next = dropWhile (\<lambda>c. c \<noteq> CHR ''/'') name in
      case (if part = [] then Inr (Inr dir, s) else get_subdir L kzalloc fuel dir part s) of
        Inl f \<Rightarrow> Inl f
      | Inr (Inl err, s) \<Rightarrow> Inr (Inl err, s)
      | Inr (Inr dir, s) \<Rightarrow> (case next of [] \<Rightarrow> Inr (Inr dir, s) | _ # name \<Rightarrow> register_path L kzalloc fuel dir name s))"
  by pat_completeness auto
termination
proof (relation "measure (\<lambda>(L, k, fuel, dir, name, s). length name)")
  fix L kzalloc fuel dir name s xa x y b xb xc c
  fix rest :: string
  assume "xa = dropWhile (\<lambda>c. c \<noteq> CHR ''/'') (name :: string)" "xa = c # rest"
  then have "length (c # rest) \<le> length name" by (metis length_dropWhile_le)
  then show "((L, kzalloc, fuel, xc, rest, xb), (L, kzalloc, fuel, dir, name, s)) \<in> measure (\<lambda>(L, k, fuel, dir, name, s). length name)" by simp
qed auto


text \<open>\<open>__register_sysctl_table\<close> and the end of \<open>unregister_sysctl_table\<close>.\<close>

definition register_table :: "(nat \<times> nat) rb_lib \<Rightarrow> (ctl_store \<Rightarrow> nat option) \<Rightarrow> nat \<Rightarrow> string \<Rightarrow> bool \<Rightarrow> ctl_table list \<Rightarrow> ctl_store
    \<Rightarrow> fault + nat option \<times> ctl_store" where
  "register_table L kzalloc fuel path mount table s =
     (case kzalloc s of
        None \<Rightarrow> Inr (None, s)
      | Some h \<Rightarrow>
          let s = s(h \<mapsto> init_header mount table) in
          if sysctl_check_table table \<noteq> 0 then Inr (None, s(h := None))
          else (case register_path L kzalloc fuel sys_root path (upd_hdr sys_root (\<lambda>x. x\<lparr>h_nreg := h_nreg x + 1\<rparr>) s) of
                  Inl f \<Rightarrow> Inl f
                | Inr (Inl _, s) \<Rightarrow> Inr (None, s(h := None))
                | Inr (Inr dir, s) \<Rightarrow>
                    (case insert_header L fuel dir h s of
                       Inl f \<Rightarrow> Inl f
                     | Inr (err, s) \<Rightarrow>
                         (case drop_sysctl_table L fuel dir s of
                            Inl f \<Rightarrow> Inl f
                          | Inr s \<Rightarrow> if err \<noteq> 0 then Inr (None, s(h := None)) else Inr (Some h, s)))))"

definition unregister_table :: "(nat \<times> nat) rb_lib \<Rightarrow> nat \<Rightarrow> nat \<Rightarrow> ctl_store \<Rightarrow> fault + ctl_store" where
  "unregister_table L fuel h s = drop_sysctl_table L fuel h s"

section \<open>Hierarchies of tables\<close>

definition PATH_MAX :: nat where "PATH_MAX = 4096"

definition append_path :: "string \<Rightarrow> string \<Rightarrow> string option" where
  "append_path path name = (if length path + length name + 2 \<ge> PATH_MAX then None else Some (path @ name @ ''/''))"

lemma append_path_code [code]:
  "append_path path name = (if 4096 \<le> int (length path) + int (length name) + 2 then None else Some (path @ name @ ''/''))"
  by (simp add: append_path_def PATH_MAX_def)

text \<open>A pointer to a table is its \<open>ctl_child\<close>: \<open>MountPoint\<close> is the empty table \<open>sysctl_mount_point\<close>.\<close>

fun entries_of :: "ctl_child \<Rightarrow> ctl_table list" where
  "entries_of (Children ts) = ts"
| "entries_of _ = []"

lemma size_child: "e \<in> set ts \<Longrightarrow> size (ct_child e) < Suc (size_list size ts)"
proof -
  assume e: "e \<in> set ts"
  have "size (ct_child e) < size e" by (cases e) simp
  also have "\<dots> \<le> size_list size ts" using e by (induction ts) auto
  finally show ?thesis by simp
qed

function count_subheaders :: "ctl_child \<Rightarrow> nat" where
  "count_subheaders c =
     (case c of
        Children (e # es) \<Rightarrow>
          sum_list (map (\<lambda>e. if ct_child e = NoChild then 0 else count_subheaders (ct_child e)) (e # es))
            + (if \<exists>x \<in> set (e # es). ct_child x = NoChild then 1 else 0)
      | _ \<Rightarrow> 1)"
  by pat_completeness auto
termination by (relation "measure size") (use size_child in \<open>fastforce+\<close>)

declare count_subheaders.simps [simp del]

record sys_env =
  e_kzalloc :: "ctl_store \<Rightarrow> nat option"
  e_files :: "ctl_store \<Rightarrow> bool"       \<comment> \<open>whether \<open>kzalloc\<close> of a table or of the header of a hierarchy succeeds\<close>
  e_buf :: bool   \<comment> \<open>whether \<open>kmalloc\<close> of the path succeeds\<close>
  e_lib :: "(nat \<times> nat) rb_lib"
  e_fuel :: nat

text \<open>\<open>register_leaf_sysctl_tables\<close> and its loop over the directories of a table; the list is the array of subheaders, as far as
  it is filled.\<close>

definition ENAMETOOLONG :: int where "ENAMETOOLONG = 36"

function (sequential) register_leaf :: "sys_env \<Rightarrow> string \<Rightarrow> ctl_child \<Rightarrow> nat list \<Rightarrow> ctl_store \<Rightarrow> fault + int \<times> nat list \<times> ctl_store"
  and register_dirs :: "sys_env \<Rightarrow> string \<Rightarrow> ctl_table list \<Rightarrow> nat list \<Rightarrow> ctl_store \<Rightarrow> fault + int \<times> nat list \<times> ctl_store" where
  "register_leaf E path c subs s =
     (let table = entries_of c; files = filter (\<lambda>e. ct_child e = NoChild) table; nr_files = length files; nr_dirs = length table - nr_files in
      if nr_dirs \<noteq> 0 \<and> nr_files \<noteq> 0 \<and> \<not> e_files E s then Inr (- ENOMEM, subs, s)
      else case (if nr_files \<noteq> 0 \<or> nr_dirs = 0
                 then (case register_table (e_lib E) (e_kzalloc E) (e_fuel E) path (c = MountPoint) files s of
                         Inl f \<Rightarrow> Inl f
                       | Inr (None, s) \<Rightarrow> Inr (- ENOMEM, subs, s)
                       | Inr (Some h, s) \<Rightarrow> Inr (0, subs @ [h], s))
                 else Inr (0, subs, s)) of
        Inl f \<Rightarrow> Inl f
      | Inr (err, subs, s) \<Rightarrow>
          if err \<noteq> 0 then Inr (err, subs, s)
          else (case c of Children ts \<Rightarrow> register_dirs E path ts subs s | _ \<Rightarrow> Inr (0, subs, s)))"
| "register_dirs E path [] subs s = Inr (0, subs, s)"
| "register_dirs E path (Ctl n m c p d l # es) subs s =
     (if c = NoChild then register_dirs E path es subs s
      else (case append_path path n of
              None \<Rightarrow> Inr (- ENAMETOOLONG, subs, s)
            | Some path' \<Rightarrow>
                (case register_leaf E path' c subs s of
                   Inl f \<Rightarrow> Inl f
                 | Inr (err, subs, s) \<Rightarrow> if err \<noteq> 0 then Inr (err, subs, s) else register_dirs E path es subs s)))"
  by pat_completeness auto
termination
  by (relation "measure (\<lambda>x. case x of Inl (E, path, c, subs, s) \<Rightarrow> size c | Inr (E, path, es, subs, s) \<Rightarrow> size_list size es)") simp_all

declare register_leaf.simps [simp del]

fun append_paths :: "string \<Rightarrow> string list \<Rightarrow> string option" where
  "append_paths path [] = Some path"
| "append_paths path (n # ns) = (case append_path path n of None \<Rightarrow> None | Some path \<Rightarrow> append_paths path ns)"

text \<open>The loop that goes down through tables that are a single directory.\<close>

function descend :: "string \<Rightarrow> ctl_child \<Rightarrow> (string \<times> ctl_child) option" where
  "descend path c =
     (case c of
        Children [e] \<Rightarrow> if ct_child e = NoChild then Some (path, c)
          else (case append_path path (ct_name e) of None \<Rightarrow> None | Some path \<Rightarrow> descend path (ct_child e))
      | _ \<Rightarrow> Some (path, c))"
  by pat_completeness auto
termination by (relation "measure (\<lambda>(p, c). size c)") (use size_child [of _ "[_]"] in \<open>fastforce+\<close>)

declare descend.simps [simp del]

text \<open>What \<open>__register_sysctl_paths\<close> returns: the header of the only table, or a header that holds the array of subheaders, each with
  the table that was registered.\<close>

datatype handle = Single nat ctl_child | Group "nat list" ctl_child

fun unregister_all :: "(nat \<times> nat) rb_lib \<Rightarrow> nat \<Rightarrow> nat list \<Rightarrow> ctl_store \<Rightarrow> fault + ctl_store" where
  "unregister_all L fuel [] s = Inr s"
| "unregister_all L fuel (h # hs) s = (case unregister_table L fuel h s of Inl f \<Rightarrow> Inl f | Inr s \<Rightarrow> unregister_all L fuel hs s)"

definition register_paths :: "sys_env \<Rightarrow> string list \<Rightarrow> ctl_child \<Rightarrow> ctl_store \<Rightarrow> fault + handle option \<times> ctl_store" where
  "register_paths E path table s =
     (case if e_buf E then append_paths [] path else None of
        None \<Rightarrow> Inr (None, s)
      | Some new_path \<Rightarrow>
          (case if table = NoChild then Inl NullDeref else Inr (descend new_path table) of
             Inl f \<Rightarrow> Inl f
           | Inr None \<Rightarrow> Inr (None, s)
           | Inr (Some (new_path, c)) \<Rightarrow>
               if count_subheaders table = 1
               then (case register_table (e_lib E) (e_kzalloc E) (e_fuel E) new_path (c = MountPoint) (entries_of c) s of
                       Inl f \<Rightarrow> Inl f
                     | Inr (h, s) \<Rightarrow> Inr (map_option (\<lambda>h. Single h table) h, s))
               else if \<not> e_files E s then Inr (None, s)
               else (case register_leaf E new_path c [] s of
                       Inl f \<Rightarrow> Inl f
                     | Inr (err, subs, s) \<Rightarrow>
                         if err = 0 then Inr (Some (Group subs table), s)
                         else (case unregister_all (e_lib E) (e_fuel E) (rev subs) s of Inl f \<Rightarrow> Inl f | Inr s \<Rightarrow> Inr (None, s)))))"

text \<open>\<open>unregister_sysctl_table\<close> reads as many subheaders as the table it was called with has by \<open>count_subheaders\<close>; the array holds
  null pointers where it was not filled.\<close>

fun unregister_sysctl_table :: "sys_env \<Rightarrow> handle \<Rightarrow> ctl_store \<Rightarrow> fault + ctl_store" where
  "unregister_sysctl_table E (Single h table) s = unregister_table (e_lib E) (e_fuel E) h s"
| "unregister_sysctl_table E (Group subs table) s =
     (if length subs \<noteq> count_subheaders table then Inl NullDeref else unregister_all (e_lib E) (e_fuel E) (rev subs) s)"

end
