(* ===== verification/SysctlReg.thy ===== *)
theory SysctlReg imports Sysctl begin

text \<open>
  What registration in \<open>/proc/sys\<close> does to the store.  A store is seen without its trees and counters
  (\<open>abs_store\<close>); \<open>sys_inv refs\<close> says that the trees hold exactly the entries of the headers below a directory and that
  \<open>nreg\<close> counts these headers and \<open>refs\<close>, the references that are held from outside.  \<open>grown\<close> is what registration does to the
  abstract store: a chain of new headers, of which the last one is held; dropping that one takes the whole chain back.
\<close>

section \<open>The store without trees and counters\<close>

definition core :: "ctl_header \<Rightarrow> ctl_header" where
  "core x = x\<lparr>h_nreg := 0, h_tree := Leaf\<rparr>"

definition abs_store :: "ctl_store \<Rightarrow> ctl_store" where
  "abs_store s = (\<lambda>h. map_option core (s h))"

definition kids :: "ctl_store \<Rightarrow> nat \<Rightarrow> nat set" where
  "kids s h = {c. \<exists>y. s c = Some y \<and> h_parent y = Some h}"

definition entries :: "ctl_store \<Rightarrow> nat \<Rightarrow> (nat \<times> nat) set" where
  "entries s d = {(c, i). \<exists>y. s c = Some y \<and> h_parent y = Some d \<and> i < length (h_table y)}"

definition shape_ok :: "ctl_store \<Rightarrow> bool" where
  "shape_ok A \<longleftrightarrow> finite (dom A) \<and> (\<exists>x. A sys_root = Some x \<and> h_parent x = None)
     \<and> (\<forall>h x. A h = Some x \<longrightarrow> h_count x = 1 \<and> (\<forall>p. h_parent x = Some p \<longrightarrow> A p \<noteq> None)
          \<and> (\<forall>e \<in> set (h_table x). S_ISDIR (ct_mode e) \<longrightarrow> length (h_table x) = 1))"

definition dir_tree_ok :: "ctl_store \<Rightarrow> nat \<Rightarrow> (nat \<times> nat) tree \<Rightarrow> bool" where
  "dir_tree_ok A d t \<longleftrightarrow> names_sorted namecmp (ent_name A) (inorder t) \<and> set (inorder t) = entries A d"

definition sys_inv :: "(nat \<Rightarrow> int) \<Rightarrow> ctl_store \<Rightarrow> bool" where
  "sys_inv refs s \<longleftrightarrow> shape_ok (abs_store s)
     \<and> (\<forall>h x. s h = Some x \<longrightarrow> h_nreg x = refs h + int (card (kids s h)) \<and> dir_tree_ok (abs_store s) h (h_tree x))"

lemma core_simps [simp]:
  "h_table (core x) = h_table x" "h_parent (core x) = h_parent x" "h_count (core x) = h_count x" "h_mount (core x) = h_mount x"
  "core (x\<lparr>h_nreg := n\<rparr>) = core x" "core (x\<lparr>h_tree := t\<rparr>) = core x" "core (x\<lparr>h_parent := p\<rparr>) = (core x)\<lparr>h_parent := p\<rparr>" "core (core x) = core x"
  "core (init_header m es) = (init_header m es)\<lparr>h_nreg := 0\<rparr>" "is_empty_dir (core x) = is_empty_dir x"
  by (simp_all add: core_def init_header_def is_empty_dir_def)

lemma abs_simps [simp]:
  "kids (abs_store s) = kids s" "entries (abs_store s) = entries s"
  "dom (abs_store s) = dom s" "abs_store s h = None \<longleftrightarrow> s h = None"
  "abs_store (s(h \<mapsto> x)) = (abs_store s)(h \<mapsto> core x)" "abs_store (s(h := None)) = (abs_store s)(h := None)"
  by (auto simp: kids_def entries_def abs_store_def fun_eq_iff dom_def)

lemma abs_Some: "abs_store s h = Some y \<longleftrightarrow> (\<exists>x. s h = Some x \<and> y = core x)"
  by (auto simp: abs_store_def)

lemma abs_ex [simp]: "(\<exists>y. abs_store s h = Some y) \<longleftrightarrow> (\<exists>y. s h = Some y)"
  by (auto simp: abs_Some)

lemma abs_upd: "(\<And>x. core (f x) = core x) \<Longrightarrow> abs_store (upd_hdr h f s) = abs_store s"
  by (auto simp: abs_store_def upd_hdr_def fun_eq_iff option.map_comp o_def)

lemma ent_name_abs [simp]: "ent_name (abs_store s) = ent_name s"
proof
  fix e :: "nat \<times> nat"
  show "ent_name (abs_store s) e = ent_name s e" by (cases "s (fst e)") (auto simp: ent_name_def abs_store_def split: prod.splits)
qed

text \<open>Equal abstract stores have the same children, entries and names.\<close>

lemma abs_eqD:
  assumes "abs_store s = abs_store s'"
  shows "kids s = kids s'" "entries s = entries s'" "dom s = dom s'" "ent_name s = ent_name s'"
  using assms abs_simps(1,2,3) ent_name_abs by metis+

lemma sys_invD:
  assumes "sys_inv refs s" "s h = Some x"
  shows "h_nreg x = refs h + int (card (kids s h))" "dir_tree_ok (abs_store s) h (h_tree x)" "h_count x = 1"
    "\<And>p. h_parent x = Some p \<Longrightarrow> s p \<noteq> None" "finite (kids s d)"
proof -
  show "h_nreg x = refs h + int (card (kids s h))" "dir_tree_ok (abs_store s) h (h_tree x)" using assms unfolding sys_inv_def by blast+
  have a: "abs_store s h = Some (core x)" "shape_ok (abs_store s)" using assms by (simp_all add: abs_store_def sys_inv_def)
  then have "h_count (core x) = 1 \<and> (\<forall>p. h_parent (core x) = Some p \<longrightarrow> abs_store s p \<noteq> None)" unfolding shape_ok_def by blast
  then show "h_count x = 1" "\<And>p. h_parent x = Some p \<Longrightarrow> s p \<noteq> None" by simp_all
  have "kids s d \<subseteq> dom s" by (auto simp: kids_def)
  moreover have "finite (dom s)" using a(2) by (simp add: shape_ok_def)
  ultimately show "finite (kids s d)" by (rule finite_subset)
qed

lemma sys_inv_cong: "sys_inv refs s \<Longrightarrow> (\<And>h. s h \<noteq> None \<Longrightarrow> refs' h = refs h) \<Longrightarrow> sys_inv refs' s"
  unfolding sys_inv_def by simp

lemma kids_none: "sys_inv refs s \<Longrightarrow> s h = None \<Longrightarrow> kids s h = {}"
  using sys_invD(4) [of refs s] by (fastforce simp: kids_def)

text \<open>Counting a reference.\<close>

lemma nreg_add:
  assumes "sys_inv refs s" "s h \<noteq> None"
  shows "sys_inv (refs(h := refs h + k)) (upd_hdr h (\<lambda>x. x\<lparr>h_nreg := h_nreg x + k\<rparr>) s)"
    and "abs_store (upd_hdr h (\<lambda>x. x\<lparr>h_nreg := h_nreg x + k\<rparr>) s) = abs_store s"
proof -
  show a: "abs_store (upd_hdr h (\<lambda>x. x\<lparr>h_nreg := h_nreg x + k\<rparr>) s) = abs_store s" by (rule abs_upd) simp
  show "sys_inv (refs(h := refs h + k)) (upd_hdr h (\<lambda>x. x\<lparr>h_nreg := h_nreg x + k\<rparr>) s)"
    using assms unfolding sys_inv_def a abs_eqD(1) [OF a] by (auto simp: upd_hdr_def)
qed


section \<open>Erasing the entries of a header\<close>

lemma upd_hdr_Some: "s h = Some x \<Longrightarrow> upd_hdr h f s = s(h \<mapsto> f x)"
  by (simp add: upd_hdr_def)

lemma erase_entries_ok:
  assumes lib: "rb_lib_ok L" and h: "s h = Some x" "h_parent x = Some p" "p \<noteq> h"
  shows "s p = Some y \<Longrightarrow> names_sorted namecmp key (inorder (h_tree y)) \<Longrightarrow> distinct is \<Longrightarrow> \<forall>i \<in> set is. (h, i) \<in> set (inorder (h_tree y)) \<Longrightarrow>
    \<exists>t. erase_entries L h is s = Inr (s(p \<mapsto> y\<lparr>h_tree := t\<rparr>)) \<and> names_sorted namecmp key (inorder t)
      \<and> set (inorder t) = set (inorder (h_tree y)) - Pair h ` set is"
  using h(1)
proof (induction "is" arbitrary: s y)
  case Nil
  then have "s(p \<mapsto> y\<lparr>h_tree := h_tree y\<rparr>) = s" by auto
  then show ?case using Nil by (intro exI [of _ "h_tree y"]) simp
next
  case (Cons i "is")
  define y' where "y' = y\<lparr>h_tree := erase L (h, i) (h_tree y)\<rparr>"
  define s' where "s' = s(p \<mapsto> y')"
  have e: "(h, i) \<in> set (inorder (h_tree y))" using Cons.prems(4) by simp
  note E = nc.erase_map [OF lib Cons.prems(2) e]
  have one: "erase_entry L (h, i) s = Inr s'"
    using Cons.prems(1,5) h e by (simp add: erase_entry_def s'_def y'_def upd_hdr_def del: set_inorder)
  have s': "s' p = Some y'" "s' h = Some x" using Cons.prems(5) h(3) by (simp_all add: s'_def)
  have y': "names_sorted namecmp key (inorder (h_tree y'))" "set (inorder (h_tree y')) = set (inorder (h_tree y)) - {(h, i)}"
    using E by (simp_all add: y'_def)
  have in': "\<forall>j \<in> set is. (h, j) \<in> set (inorder (h_tree y'))" using Cons.prems(3,4) unfolding y'(2) by auto
  have d: "distinct is" using Cons.prems(3) by simp
  obtain t where t: "erase_entries L h is s' = Inr (s'(p \<mapsto> y'\<lparr>h_tree := t\<rparr>))" "names_sorted namecmp key (inorder t)"
    "set (inorder t) = set (inorder (h_tree y')) - Pair h ` set is"
    using Cons.IH [OF s'(1) y'(1) d in' s'(2)] by blast
  have "set (inorder t) = set (inorder (h_tree y)) - Pair h ` set (i # is)" unfolding t(3) y'(2) by auto
  moreover have "erase_entries L h (i # is) s = Inr (s(p \<mapsto> y\<lparr>h_tree := t\<rparr>))"
  proof -
    have "s'(p \<mapsto> y'\<lparr>h_tree := t\<rparr>) = s(p \<mapsto> y\<lparr>h_tree := t\<rparr>)" by (simp add: s'_def y'_def)
    then show ?thesis using t(1) by (simp only: erase_entries.simps one sum.case)
  qed
  ultimately show ?case using t(2) by blast
qed

lemma erase_entries_fault:
  assumes lib: "rb_lib_ok L" and h: "s h = Some x" "h_parent x = Some p" "p \<noteq> h"
  shows "s p = Some y \<Longrightarrow> names_sorted namecmp key (inorder (h_tree y)) \<Longrightarrow> miss \<in> set is \<Longrightarrow> (h, miss) \<notin> set (inorder (h_tree y)) \<Longrightarrow>
    erase_entries L h is s = Inl BadFree"
  using h(1)
proof (induction "is" arbitrary: s y)
  case (Cons i "is")
  show ?case
  proof (cases "(h, i) \<in> set (inorder (h_tree y))")
    case False
    then show ?thesis using Cons.prems(1,5) h by (simp add: erase_entry_def del: set_inorder)
  next
    case True
    define y' where "y' = y\<lparr>h_tree := erase L (h, i) (h_tree y)\<rparr>"
    define s' where "s' = s(p \<mapsto> y')"
    have one: "erase_entry L (h, i) s = Inr s'"
      using Cons.prems(1,5) h True by (simp add: erase_entry_def s'_def y'_def upd_hdr_def del: set_inorder)
    note E = nc.erase_map [OF lib Cons.prems(2) True]
    have s': "s' p = Some y'" "s' h = Some x" using Cons.prems(5) h(3) by (simp_all add: s'_def)
    have y': "names_sorted namecmp key (inorder (h_tree y'))" "set (inorder (h_tree y')) = set (inorder (h_tree y)) - {(h, i)}"
      using E by (simp_all add: y'_def)
    have "miss \<in> set is" using Cons.prems(3,4) True by auto
    moreover have "(h, miss) \<notin> set (inorder (h_tree y'))" using Cons.prems(4) unfolding y'(2) by blast
    ultimately have "erase_entries L h is s' = Inl BadFree" by (rule Cons.IH [OF s'(1) y'(1) _ _ s'(2)])
    then show ?thesis using one by simp
  qed
qed simp

section \<open>Dropping a reference\<close>

lemma drop_stop:
  assumes inv: "sys_inv refs s" and h: "s h = Some x" "h_nreg x \<noteq> 1"
  shows "\<exists>s'. drop_sysctl_table L (Suc fuel) h s = Inr s' \<and> sys_inv (refs(h := refs h - 1)) s' \<and> abs_store s' = abs_store s"
proof -
  have "h_nreg (hdr (upd_hdr h (\<lambda>x. x\<lparr>h_nreg := h_nreg x - 1\<rparr>) s) h) \<noteq> 0" using h by (simp add: upd_hdr_def)
  then have "drop_sysctl_table L (Suc fuel) h s = Inr (upd_hdr h (\<lambda>x. x\<lparr>h_nreg := h_nreg x - 1\<rparr>) s)" by (simp add: Let_def)
  then show ?thesis using nreg_add [of refs s h "- 1"] inv h(1) by auto
qed

lemma dir_tree_cong: "kids s = kids s' \<Longrightarrow> entries s d = entries s' d \<Longrightarrow> ent_name s = ent_name s' \<Longrightarrow> dir_tree_ok s d t = dir_tree_ok s' d t"
  by (simp add: dir_tree_ok_def)

text \<open>The names of the entries of one directory do not depend on a header that is not in it.\<close>

lemma dir_tree_other:
  assumes "dir_tree_ok A d t" "entries A' d = entries A d" "\<And>c i. (c, i) \<in> entries A d \<Longrightarrow> A' c = A c"
  shows "dir_tree_ok A' d t"
proof -
  have "ent_name A' e = ent_name A e" if "e \<in> entries A d" for e using assms(3) [of "fst e" "snd e"] that by (cases e) (simp add: ent_name_def)
  then have "names_sorted namecmp (ent_name A') (inorder t)"
    using assms(1) unfolding dir_tree_ok_def names_sorted_def by (auto elim!: sorted_wrt_mono_rel [rotated] simp del: set_inorder)
  then show ?thesis using assms(1,2) by (simp add: dir_tree_ok_def)
qed

lemma drop_remove:
  assumes inv: "sys_inv refs s" and lib: "rb_lib_ok L" and h: "s h = Some x" "h_parent x = Some p" "refs h = 1" "kids s h = {}"
  shows "\<exists>s'. drop_sysctl_table L (Suc fuel) h s = drop_sysctl_table L fuel p s' \<and> sys_inv (refs(p := refs p + 1)) s'
    \<and> abs_store s' = (abs_store s)(h := None)"
proof -
  have ph: "p \<noteq> h" using h(1,2,4) by (auto simp: kids_def)
  obtain y where y: "s p = Some y" using sys_invD(4) [OF inv h(1,2)] by blast
  have nreg: "h_nreg x = 1" using sys_invD(1) [OF inv h(1)] h(3,4) by simp
  define s1 where "s1 = s(h \<mapsto> x\<lparr>h_nreg := 0, h_unreg := True, h_used := 0\<rparr>)"
  have T: "names_sorted namecmp (ent_name s) (inorder (h_tree y))" "set (inorder (h_tree y)) = entries s p"
    using sys_invD(2) [OF inv y] by (simp_all add: dir_tree_ok_def)
  have e1: "(h, i) \<in> entries s p \<longleftrightarrow> i < length (h_table x)" for i using h(1,2) by (simp add: entries_def)
  have "\<exists>t. erase_entries L h [0..<length (h_table x)] s1 = Inr (s1(p \<mapsto> y\<lparr>h_tree := t\<rparr>)) \<and> names_sorted namecmp (ent_name s) (inorder t)
      \<and> set (inorder t) = set (inorder (h_tree y)) - Pair h ` set [0..<length (h_table x)]"
    by (rule erase_entries_ok [OF lib, where x = "x\<lparr>h_nreg := 0, h_unreg := True, h_used := 0\<rparr>"])
      (use h y ph T e1 in \<open>simp_all add: s1_def\<close>)
  then obtain t where t: "erase_entries L h [0..<length (h_table x)] s1 = Inr (s1(p \<mapsto> y\<lparr>h_tree := t\<rparr>))"
    "names_sorted namecmp (ent_name s) (inorder t)" "set (inorder t) = entries s p - Pair h ` {0..<length (h_table x)}"
    unfolding T(2) by auto
  define s' where "s' = s(p \<mapsto> y\<lparr>h_tree := t\<rparr>, h := None)"
  have su: "start_unregistering L h (upd_hdr h (\<lambda>x. x\<lparr>h_nreg := h_nreg x - 1\<rparr>) s) = Inr (s1(p \<mapsto> y\<lparr>h_tree := t\<rparr>))"
    using h(1) t(1) nreg by (simp add: start_unregistering_def erase_header_def upd_hdr_def s1_def)
  have put: "sysctl_head_put h (s1(p \<mapsto> y\<lparr>h_tree := t\<rparr>)) = s'"
    using sys_invD(3) [OF inv h(1)] ph by (auto simp: sysctl_head_put_def upd_hdr_def s1_def s'_def fun_eq_iff)
  have d: "drop_sysctl_table L (Suc fuel) h s = drop_sysctl_table L fuel p s'"
    using h(1,2) nreg su put by (simp add: Let_def upd_hdr_def)
  have a: "abs_store s' = (abs_store s)(h := None)" using y ph by (auto simp: s'_def abs_store_def fun_eq_iff)
  have kids': "kids s' d = kids s d - {h}" for d
  proof -
    have "kids s' d = kids ((abs_store s)(h := None)) d" using abs_simps(1) [of s'] a by simp
    then show ?thesis by (auto simp: kids_def abs_store_def)
  qed
  have hk: "h \<in> kids s d \<longleftrightarrow> d = p" for d using h(1,2) by (auto simp: kids_def)
  have ent': "entries s' d = entries s d - {(h, i) |i. True}" for d
  proof -
    have "(c, i) \<in> entries s' d \<longleftrightarrow> c \<noteq> h \<and> (c, i) \<in> entries s d" for c i
      using y ph by (cases "c = p") (auto simp: entries_def s'_def)
    then show ?thesis by auto
  qed
  have "shape_ok (abs_store s')"
  proof -
    have S: "shape_ok (abs_store s)" using inv by (simp add: sys_inv_def)
    have "h \<noteq> sys_root" using S h(1,2) by (auto simp: shape_ok_def abs_Some)
    moreover have "((abs_store s)(h := None)) q \<noteq> None" if "((abs_store s)(h := None)) c = Some z" "h_parent z = Some q" for c z q
    proof -
      have z: "abs_store s c = Some z" using that(1) by (simp split: if_splits)
      then have "c \<in> kids s q" using that(2) by (auto simp: kids_def abs_Some)
      then have "q \<noteq> h" using h(4) by auto
      then show ?thesis using S z that(2) unfolding shape_ok_def by simp
    qed
    moreover have "finite (dom ((abs_store s)(h := None)))" using S by (simp add: shape_ok_def)
    moreover have "\<exists>z. ((abs_store s)(h := None)) sys_root = Some z \<and> h_parent z = None"
      using S \<open>h \<noteq> sys_root\<close> unfolding shape_ok_def by simp
    moreover have "h_count z = 1 \<and> (\<forall>e \<in> set (h_table z). S_ISDIR (ct_mode e) \<longrightarrow> length (h_table z) = 1)"
      if "((abs_store s)(h := None)) c = Some z" for c z
      using S that unfolding shape_ok_def by (simp split: if_splits)
    ultimately show ?thesis unfolding shape_ok_def a by blast
  qed
  moreover have "h_nreg z = (refs(p := refs p + 1)) q + int (card (kids s' q)) \<and> dir_tree_ok (abs_store s') q (h_tree z)" if z: "s' q = Some z" for q z
  proof -
    have qh: "q \<noteq> h" using z by (auto simp: s'_def)
    have key: "ent_name s' e = ent_name s e" if "fst e \<noteq> h" for e
      using that y by (auto simp: ent_name_def s'_def split: prod.splits)
    show ?thesis
    proof (cases "q = p")
      case True
      have "card (kids s' p) = card (kids s p) - 1" "card (kids s p) > 0" using hk sys_invD(5) [OF inv h(1), of p]
        by (auto simp: kids' card_gt_0_iff)
      moreover have "h_nreg z = h_nreg y" using z True ph by (auto simp: s'_def)
      ultimately have "h_nreg z = refs p + 1 + int (card (kids s' p))" using sys_invD(1) [OF inv y] by simp
      moreover have "set (inorder t) = entries s' p" using t(3) e1 unfolding ent' by (auto simp: entries_def h)
      moreover have "names_sorted namecmp (ent_name s') (inorder t)"
        using t(2) \<open>set (inorder t) = entries s' p\<close> key unfolding names_sorted_def ent'
        by (auto elim!: sorted_wrt_mono_rel [rotated] simp del: set_inorder)
      moreover have "h_tree z = t" using z True ph by (auto simp: s'_def)
      ultimately show ?thesis using True by (simp add: dir_tree_ok_def)
    next
      case False
      have zs: "s q = Some z" using z False qh by (simp add: s'_def)
      have "kids s' q = kids s q" using False hk by (auto simp: kids')
      moreover have "entries s' q = entries s q"
      proof -
        have "(h, i) \<notin> entries s q" for i using False h(1,2) by (simp add: entries_def)
        then show ?thesis unfolding ent' by blast
      qed
      moreover have "dir_tree_ok (abs_store s') q (h_tree z)"
      proof (rule dir_tree_other [OF sys_invD(2) [OF inv zs]])
        show "entries (abs_store s') q = entries (abs_store s) q" using \<open>entries s' q = entries s q\<close> by simp
        show "abs_store s' c = abs_store s c" if "(c, i) \<in> entries (abs_store s) q" for c i
          using that False h(1,2) by (auto simp: a entries_def)
      qed
      ultimately show ?thesis using sys_invD(1) [OF inv zs] False by simp
    qed
  qed
  ultimately have "sys_inv (refs(p := refs p + 1)) s'" unfolding sys_inv_def by blast
  then show ?thesis using d a by blast
qed


section \<open>Chains of new headers\<close>

text \<open>\<open>A\<close> and \<open>refs\<close> have \<open>k\<close> new headers beyond \<open>A0\<close> and \<open>refs0\<close>, each in the one before, the first in a directory of \<open>A0\<close>; the
  reference is held on the last.\<close>

inductive grown :: "ctl_store \<Rightarrow> (nat \<Rightarrow> int) \<Rightarrow> nat \<Rightarrow> ctl_store \<Rightarrow> (nat \<Rightarrow> int) \<Rightarrow> nat \<Rightarrow> bool" for A0 refs0 where
  here: "A0 h = Some x \<Longrightarrow> h = sys_root \<or> h_parent x \<noteq> None \<Longrightarrow> grown A0 refs0 0 A0 (refs0(h := refs0 h + 1)) h"
| new: "grown A0 refs0 k A refs p \<Longrightarrow> A n = None \<Longrightarrow> kids A n = {} \<Longrightarrow> h_parent x = Some p \<Longrightarrow>
    grown A0 refs0 (Suc k) (A(n \<mapsto> x)) (refs(p := refs p - 1, n := 1)) n"

text \<open>No header without a reason: each is referenced or has something below it.\<close>

definition live :: "ctl_store \<Rightarrow> (nat \<Rightarrow> int) \<Rightarrow> bool" where
  "live A refs \<longleftrightarrow> (\<forall>h x. A h = Some x \<longrightarrow> 0 \<le> refs h \<and> 0 < refs h + int (card (kids A h)))"

lemma grown_last: "grown A0 refs0 k A refs h \<Longrightarrow> \<exists>x. A h = Some x \<and> (h = sys_root \<or> h_parent x \<noteq> None)"
  by (induction rule: grown.induct) auto

lemma grown_drop:
  assumes "grown A0 refs0 k A refs h" and lib: "rb_lib_ok L" and live: "live A0 refs0"
  shows "sys_inv r s \<Longrightarrow> (\<forall>j. A j \<noteq> None \<longrightarrow> r j = refs j) \<Longrightarrow> abs_store s = A \<Longrightarrow> k < fuel \<Longrightarrow>
    \<exists>s'. drop_sysctl_table L fuel h s = Inr s' \<and> sys_inv refs0 s' \<and> abs_store s' = A0"
  using assms(1)
proof (induction arbitrary: r s fuel rule: grown.induct)
  case (here h x)
  obtain f where f: "fuel = Suc f" using here.prems(4) by (cases fuel) simp_all
  have i: "sys_inv (refs0(h := refs0 h + 1)) s"
    by (rule sys_inv_cong [OF here.prems(1)]) (use here.prems(2) here.prems(3) [symmetric] in simp)
  obtain y where y: "s h = Some y" using here.hyps(1) here.prems(3) [symmetric] by (auto simp: abs_Some)
  have "0 < refs0 h + int (card (kids s h))" using live here.hyps(1) here.prems(3) [symmetric] by (auto simp: live_def abs_Some)
  then have "h_nreg y \<noteq> 1" using sys_invD(1) [OF i y] by simp
  from drop_stop [OF i y this] obtain s' where s': "drop_sysctl_table L (Suc f) h s = Inr s'" "abs_store s' = abs_store s"
    "sys_inv ((refs0(h := refs0 h + 1))(h := (refs0(h := refs0 h + 1)) h - 1)) s'" by blast
  then show ?case using here.prems(3) by (simp add: f)
next
  case (new k A refs p n x)
  obtain f where f: "fuel = Suc f" "k < f" using new.prems(4) by (cases fuel) simp_all
  obtain y where y: "s n = Some y" "h_parent y = Some p"
  proof -
    have "abs_store s n = Some x" by (simp add: new.prems(3))
    then show thesis using that new.hyps(4) by (auto simp: abs_Some)
  qed
  have pn: "p \<noteq> n" using grown_last [OF new.hyps(1)] new.hyps(2) by auto
  have "kids (abs_store s) n = kids A n" using pn new.hyps(2,4) by (auto simp: new.prems(3) kids_def)
  then have k: "kids s n = {}" using new.hyps(3) by simp
  have rn: "r n = 1" using new.prems(2) by simp
  obtain s1 where s1: "drop_sysctl_table L (Suc f) n s = drop_sysctl_table L f p s1" "sys_inv (r(p := r p + 1)) s1"
    "abs_store s1 = (abs_store s)(n := None)"
    using drop_remove [OF new.prems(1) lib y rn k, of f] by blast
  have "(A(n \<mapsto> x))(n := None) = A" using new.hyps(2) by auto
  then have a: "abs_store s1 = A" using s1(3) unfolding new.prems(3) by (simp only:)
  have "\<exists>z. A p = Some z" using grown_last [OF new.hyps(1)] by blast
  then have "\<forall>j. A j \<noteq> None \<longrightarrow> (r(p := r p + 1)) j = refs j" using new.prems(2) new.hyps(2) pn by auto
  then show ?case using new.IH [OF s1(2) _ a f(2)] s1(1) by (simp add: f(1))
qed

lemma grown_live: "grown A0 refs0 k A refs h \<Longrightarrow> live A0 refs0 \<Longrightarrow> (\<And>d. finite (kids A d)) \<Longrightarrow> live A refs \<and> 1 \<le> refs h"
proof (induction rule: grown.induct)
  case (here h x)
  then show ?case by (auto simp: live_def)
next
  case (new k A refs p n x)
  have "kids A d \<subseteq> kids (A(n \<mapsto> x)) d" for d using new.hyps(2) by (auto simp: kids_def)
  then have fin: "finite (kids A d)" for d using new.prems(2) finite_subset by blast
  have IH: "live A refs" "1 \<le> refs p" using new.IH new.prems(1) fin by blast+
  have pn: "p \<noteq> n" using grown_last [OF new.hyps(1)] new.hyps(2) by auto
  have up: "card (kids A d) \<le> card (kids (A(n \<mapsto> x)) d)" for d
    by (rule card_mono [OF new.prems(2)]) (use new.hyps(2) in \<open>auto simp: kids_def\<close>)
  have "n \<in> kids (A(n \<mapsto> x)) p" using new.hyps(4) by (simp add: kids_def)
  then have one: "0 < card (kids (A(n \<mapsto> x)) p)" using new.prems(2) card_gt_0_iff by blast
  have "0 \<le> (refs(p := refs p - 1, n := 1)) j \<and> 0 < (refs(p := refs p - 1, n := 1)) j + int (card (kids (A(n \<mapsto> x)) j))"
    if j: "(A(n \<mapsto> x)) j = Some z" for j z
  proof -
    consider "j = n" | "j = p" "j \<noteq> n" | "j \<noteq> p" "j \<noteq> n" "A j = Some z" using j by (cases "j = n") auto
    then show ?thesis
    proof cases
      case 3
      then have "0 \<le> refs j" "0 < refs j + int (card (kids A j))" using IH(1) by (auto simp: live_def)
      then show ?thesis using 3 up [of j] by simp
    qed (use IH(2) one pn in simp_all)
  qed
  then show ?case unfolding live_def by simp
qed


section \<open>Allocation and insertion\<close>

lemma alloc_header:
  assumes inv: "sys_inv refs s" and h: "s h = None" and es: "\<forall>e \<in> set es. S_ISDIR (ct_mode e) \<longrightarrow> length es = 1"
  shows "sys_inv (refs(h := 1)) (s(h \<mapsto> init_header m es))"
proof -
  define s' where "s' = s(h \<mapsto> init_header m es)"
  have k: "kids s' d = kids s d" "entries s' d = entries s d" for d
    using h by (auto simp: s'_def kids_def entries_def init_header_def split: if_splits)
  have none: "kids s h = {}" by (rule kids_none [OF inv h])
  then have e: "entries s h = {}" by (auto simp: entries_def kids_def)
  have "shape_ok (abs_store s')"
  proof -
    have S: "shape_ok (abs_store s)" using inv by (simp add: sys_inv_def)
    have "h \<noteq> sys_root" using S h by (auto simp: shape_ok_def abs_Some)
    then show ?thesis using S es unfolding shape_ok_def s'_def by (auto simp: init_header_def split: if_splits)
  qed
  moreover have "h_nreg z = (refs(h := 1)) q + int (card (kids s' q)) \<and> dir_tree_ok (abs_store s') q (h_tree z)" if z: "s' q = Some z" for q z
  proof (cases "q = h")
    case True
    then have "z = init_header m es" using z by (simp add: s'_def)
    then show ?thesis using True none e k by (simp add: init_header_def dir_tree_ok_def names_sorted_def)
  next
    case False
    then have zs: "s q = Some z" using z by (simp add: s'_def)
    have "dir_tree_ok (abs_store s') q (h_tree z)"
    proof (rule dir_tree_other [OF sys_invD(2) [OF inv zs]])
      show "entries (abs_store s') q = entries (abs_store s) q" using k(2) by simp
      show "abs_store s' c = abs_store s c" if "(c, i) \<in> entries (abs_store s) q" for c i
        using that h by (auto simp: s'_def entries_def)
    qed
    then show ?thesis using sys_invD(1) [OF inv zs] False k(1) by simp
  qed
  ultimately show ?thesis unfolding sys_inv_def s'_def by blast
qed

lemma free_header:
  assumes inv: "sys_inv refs s" and h: "s h = Some x" "h_parent x = None" "h \<noteq> sys_root" "kids s h = {}"
  shows "sys_inv refs (s(h := None))"
proof -
  define s' where "s' = s(h := None)"
  have k: "kids s' d = kids s d" "entries s' d = entries s d" for d
    using h by (auto simp: s'_def kids_def entries_def split: if_splits)
  have "shape_ok (abs_store s')"
  proof -
    have S: "shape_ok (abs_store s)" using inv by (simp add: sys_inv_def)
    have a: "abs_store s' = (abs_store s)(h := None)" by (simp add: s'_def)
    have "((abs_store s)(h := None)) q \<noteq> None" if c: "((abs_store s)(h := None)) c = Some z" "h_parent z = Some q" for c z q
    proof -
      have z: "abs_store s c = Some z" using c(1) by (simp split: if_splits)
      then have "c \<in> kids s q" using c(2) by (auto simp: kids_def abs_Some)
      then have "q \<noteq> h" using h(4) by auto
      then show ?thesis using S z c(2) unfolding shape_ok_def by simp
    qed
    moreover have "finite (dom ((abs_store s)(h := None)))" using S by (simp add: shape_ok_def)
    moreover have "\<exists>z. ((abs_store s)(h := None)) sys_root = Some z \<and> h_parent z = None"
      using S h(3) unfolding shape_ok_def by simp
    moreover have "h_count z = 1 \<and> (\<forall>e \<in> set (h_table z). S_ISDIR (ct_mode e) \<longrightarrow> length (h_table z) = 1)"
      if "((abs_store s)(h := None)) c = Some z" for c z
      using S that unfolding shape_ok_def by (simp split: if_splits)
    ultimately show ?thesis unfolding shape_ok_def a by blast
  qed
  moreover have "h_nreg z = refs q + int (card (kids s' q)) \<and> dir_tree_ok (abs_store s') q (h_tree z)" if z: "s' q = Some z" for q z
  proof -
    have zs: "s q = Some z" using z by (simp add: s'_def split: if_splits)
    have "dir_tree_ok (abs_store s') q (h_tree z)"
    proof (rule dir_tree_other [OF sys_invD(2) [OF inv zs]])
      show "entries (abs_store s') q = entries (abs_store s) q" using k(2) by simp
      show "abs_store s' c = abs_store s c" if "(c, i) \<in> entries (abs_store s) q" for c i
        using that h by (auto simp: s'_def entries_def)
    qed
    then show ?thesis using sys_invD(1) [OF inv zs] k(1) by simp
  qed
  ultimately show ?thesis unfolding sys_inv_def s'_def by blast
qed

text \<open>Insertion of the entries of a header: all of them, if the names are new and different; otherwise one is missing.\<close>

lemma insert_entries_result:
  assumes lib: "rb_lib_ok L" and h: "h_parent x = Some p" "p \<noteq> h"
  shows "s h = Some x \<Longrightarrow> s p = Some y \<Longrightarrow> names_sorted namecmp (ent_name s) (inorder (h_tree y)) \<Longrightarrow> distinct is \<Longrightarrow>
    \<forall>i \<in> set is. (h, i) \<notin> set (inorder (h_tree y)) \<Longrightarrow>
    \<exists>t err. insert_entries L h is s = (err, s(p \<mapsto> y\<lparr>h_tree := t\<rparr>)) \<and> names_sorted namecmp (ent_name s) (inorder t)
      \<and> (if distinct (map (\<lambda>i. ent_name s (h, i)) is) \<and> ent_name s ` set (inorder (h_tree y)) \<inter> (\<lambda>i. ent_name s (h, i)) ` set is = {}
         then err = 0 \<and> set (inorder t) = set (inorder (h_tree y)) \<union> Pair h ` set is
         else err \<noteq> 0 \<and> (\<exists>i \<in> set is. (h, i) \<notin> set (inorder t)))"
proof (induction "is" arbitrary: s y)
  case Nil
  then have "s(p \<mapsto> y\<lparr>h_tree := h_tree y\<rparr>) = s" by auto
  then show ?case using Nil by (intro exI [of _ "h_tree y"] exI [of _ 0]) simp
next
  case (Cons i "is")
  let ?key = "ent_name s"
  note I = nc.insert_map [OF lib Cons.prems(3), of "(h, i)"]
  note M = nc.dir_map_set [OF Cons.prems(3), of "?key (h, i)"]
  have ins: "insert_entry L (h, i) s = (case rb_insert L namecmp ?key (h, i) (h_tree y) of None \<Rightarrow> (- EEXIST, s)
      | Some t \<Rightarrow> (0, s(p \<mapsto> y\<lparr>h_tree := t\<rparr>)))"
    using Cons.prems(1,2) h by (simp add: insert_entry_def Let_def upd_hdr_def split: option.split)
  show ?case
  proof (cases "rb_insert L namecmp ?key (h, i) (h_tree y)")
    case None
    then have "dir_map ?key (h_tree y) (?key (h, i)) \<noteq> None" using I by simp
    then have dup: "?key (h, i) \<in> ?key ` set (inorder (h_tree y))" using M by (metis image_eqI option.exhaust)
    have "insert_entries L h (i # is) s = (- EEXIST, s)" by (simp add: ins None EEXIST_def)
    moreover have "s(p \<mapsto> y\<lparr>h_tree := h_tree y\<rparr>) = s" using Cons.prems(2) by auto
    moreover have "\<not> (distinct (map (\<lambda>i. ?key (h, i)) (i # is)) \<and> ?key ` set (inorder (h_tree y)) \<inter> (\<lambda>i. ?key (h, i)) ` set (i # is) = {})"
      using dup by auto
    moreover have "\<exists>j \<in> set (i # is). (h, j) \<notin> set (inorder (h_tree y))" using Cons.prems(5) by auto
    moreover have "- EEXIST \<noteq> 0" by (simp add: EEXIST_def)
    ultimately show ?thesis using Cons.prems(3) by (intro exI [of _ "h_tree y"] exI [of _ "- EEXIST"]) presburger
  next
    case (Some t1)
    define y1 where "y1 = y\<lparr>h_tree := t1\<rparr>"
    define s1 where "s1 = s(p \<mapsto> y1)"
    have t1: "dir_map ?key (h_tree y) (?key (h, i)) = None" "names_sorted namecmp ?key (inorder t1)"
      "set (inorder t1) = insert (h, i) (set (inorder (h_tree y)))" using I unfolding Some option.case by blast+
    have fresh: "?key (h, i) \<notin> ?key ` set (inorder (h_tree y))" using t1(1) M by (metis image_iff option.distinct(1))
    have key1: "ent_name s1 = ?key"
      using Cons.prems(2) by (auto simp: fun_eq_iff ent_name_def s1_def y1_def)
    have s1: "s1 h = Some x" "s1 p = Some y1" using Cons.prems(1) h(2) by (simp_all add: s1_def)
    have srt: "names_sorted namecmp (ent_name s1) (inorder (h_tree y1))" using t1(2) by (simp add: key1 y1_def)
    have out: "\<forall>j \<in> set is. (h, j) \<notin> set (inorder (h_tree y1))" using Cons.prems(4,5) t1(3) by (auto simp: y1_def)
    have d: "distinct is" using Cons.prems(4) by simp
    obtain t err where t: "insert_entries L h is s1 = (err, s1(p \<mapsto> y1\<lparr>h_tree := t\<rparr>))" "names_sorted namecmp ?key (inorder t)"
      "if distinct (map (\<lambda>i. ?key (h, i)) is) \<and> ?key ` set (inorder (h_tree y1)) \<inter> (\<lambda>i. ?key (h, i)) ` set is = {}
       then err = 0 \<and> set (inorder t) = set (inorder (h_tree y1)) \<union> Pair h ` set is
       else err \<noteq> 0 \<and> (\<exists>i \<in> set is. (h, i) \<notin> set (inorder t))"
      using Cons.IH [OF s1 srt d out] unfolding key1 by blast
    have one: "insert_entry L (h, i) s = (0, s1)" using ins Some by (simp add: s1_def y1_def)
    have "insert_entries L h (i # is) s = insert_entries L h is s1" using one by simp
    moreover have "s1(p \<mapsto> y1\<lparr>h_tree := t\<rparr>) = s(p \<mapsto> y\<lparr>h_tree := t\<rparr>)" by (simp add: s1_def y1_def)
    ultimately have whole: "insert_entries L h (i # is) s = (err, s(p \<mapsto> y\<lparr>h_tree := t\<rparr>))" using t(1) by (simp only:)
    have y1: "set (inorder (h_tree y1)) = insert (h, i) (set (inorder (h_tree y)))" using t1(3) by (simp add: y1_def)
    have cond: "(distinct (map (\<lambda>i. ?key (h, i)) (i # is)) \<and> ?key ` set (inorder (h_tree y)) \<inter> (\<lambda>i. ?key (h, i)) ` set (i # is) = {})
        \<longleftrightarrow> (distinct (map (\<lambda>i. ?key (h, i)) is) \<and> ?key ` set (inorder (h_tree y1)) \<inter> (\<lambda>i. ?key (h, i)) ` set is = {})"
      using fresh unfolding y1 by auto
    have "set (inorder (h_tree y1)) \<union> Pair h ` set is = set (inorder (h_tree y)) \<union> Pair h ` set (i # is)" unfolding y1 by auto
    moreover have "\<exists>j \<in> set (i # is). (h, j) \<notin> set (inorder t)" if "\<exists>j \<in> set is. (h, j) \<notin> set (inorder t)"
      using that unfolding list.set by blast
    ultimately show ?thesis using whole t(2,3) unfolding cond by (intro exI [of _ t] exI [of _ err] conjI) (assumption, assumption, presburger)
  qed
qed


lemma find_entry_iff:
  assumes "sys_inv refs s" "s d = Some y"
  shows "find_entry s d n = Some e \<longleftrightarrow> e \<in> entries s d \<and> ent_name s e = n"
proof -
  have t: "names_sorted namecmp (ent_name s) (inorder (h_tree y))" "set (inorder (h_tree y)) = entries s d"
    using sys_invD(2) [OF assms] by (simp_all add: dir_tree_ok_def)
  have "find_entry s d n = dir_map (ent_name s) (h_tree y) n" using nc.find_map [OF t(1)] assms(2) by (simp add: find_entry_def)
  then show ?thesis using nc.dir_map_set [OF t(1)] unfolding t(2) by simp
qed

lemma find_entry_None:
  assumes "sys_inv refs s" "s d = Some y"
  shows "find_entry s d n = None \<longleftrightarrow> n \<notin> ent_name s ` entries s d"
proof -
  have "find_entry s d n \<noteq> None \<longleftrightarrow> (\<exists>e. e \<in> entries s d \<and> ent_name s e = n)"
    unfolding not_None_eq find_entry_iff [OF assms] ..
  then show ?thesis by blast
qed

definition new_names :: "ctl_store \<Rightarrow> nat \<Rightarrow> ctl_table list \<Rightarrow> bool" where
  "new_names s d es \<longleftrightarrow> distinct (map ct_name es) \<and> (\<forall>e \<in> set es. find_entry s d (ct_name e) = None)"

lemma disjoint_image: "S \<inter> f ` T = {} \<longleftrightarrow> (\<forall>e \<in> T. f e \<notin> S)"
  by blast

lemma insert_header_result:
  assumes inv: "sys_inv refs s" and lib: "rb_lib_ok L" and h: "s h = Some x" "h_parent x = None" "kids s h = {}" "\<not> h_mount x" "h \<noteq> sys_root"
    and d: "s dir = Some y" "dir \<noteq> h" "\<not> is_empty_dir y"
  shows "if new_names s dir (h_table x)
    then \<exists>s'. insert_header L fuel dir h s = Inr (0, s') \<and> sys_inv refs s' \<and> abs_store s' = (abs_store s)(h \<mapsto> (core x)\<lparr>h_parent := Some dir\<rparr>)
    else insert_header L fuel dir h s = Inl BadFree"
proof -
  define x1 where "x1 = x\<lparr>h_parent := Some dir\<rparr>"
  define y1 where "y1 = y\<lparr>h_nreg := h_nreg y + 1\<rparr>"
  define s1 where "s1 = s(dir \<mapsto> y1, h \<mapsto> x1)"
  define n where "n = length (h_table x)"
  have s1: "upd_hdr h (\<lambda>x. x\<lparr>h_parent := Some dir\<rparr>) (upd_hdr dir (\<lambda>x. x\<lparr>h_nreg := h_nreg x + 1\<rparr>) s) = s1"
    using h(1) d(1,2) by (simp add: s1_def x1_def y1_def upd_hdr_def fun_upd_twist)
  have at: "s1 h = Some x1" "s1 dir = Some y1" "h_table x1 = h_table x" "h_parent x1 = Some dir" "h_tree y1 = h_tree y"
    using d(2) by (simp_all add: s1_def x1_def y1_def)
  have key: "ent_name s1 = ent_name s" using h(1) d(1,2) by (auto simp: fun_eq_iff ent_name_def s1_def x1_def y1_def)
  have T: "names_sorted namecmp (ent_name s) (inorder (h_tree y))" "set (inorder (h_tree y)) = entries s dir"
    using sys_invD(2) [OF inv d(1)] by (simp_all add: dir_tree_ok_def)
  have noh: "(h, i) \<notin> entries s q" for i q using h(1,2) by (simp add: entries_def)
  have srt: "names_sorted namecmp (ent_name s1) (inorder (h_tree y1))" using T(1) by (simp add: key at)
  have out: "\<forall>i \<in> set [0..<n]. (h, i) \<notin> set (inorder (h_tree y1))" using noh T(2) at(5) by simp
  obtain t err where R: "insert_entries L h [0..<n] s1 = (err, s1(dir \<mapsto> y1\<lparr>h_tree := t\<rparr>))" "names_sorted namecmp (ent_name s) (inorder t)"
    "if distinct (map (\<lambda>i. ent_name s (h, i)) [0..<n]) \<and> ent_name s ` entries s dir \<inter> (\<lambda>i. ent_name s (h, i)) ` set [0..<n] = {}
     then err = 0 \<and> set (inorder t) = entries s dir \<union> Pair h ` set [0..<n]
     else err \<noteq> 0 \<and> (\<exists>i \<in> set [0..<n]. (h, i) \<notin> set (inorder t))"
    using insert_entries_result [OF lib at(4) d(2) at(1,2) srt distinct_upt out] unfolding key at(5) T(2) by blast
  have names: "map (\<lambda>i. ent_name s (h, i)) [0..<n] = map ct_name (h_table x)"
    by (rule nth_equalityI) (simp_all add: n_def ent_name_def h(1))
  then have im: "(\<lambda>i. ent_name s (h, i)) ` set [0..<n] = ct_name ` set (h_table x)" by (metis image_set)
  have cond: "(distinct (map (\<lambda>i. ent_name s (h, i)) [0..<n]) \<and> ent_name s ` entries s dir \<inter> (\<lambda>i. ent_name s (h, i)) ` set [0..<n] = {})
      \<longleftrightarrow> new_names s dir (h_table x)"
    unfolding names im new_names_def find_entry_None [OF inv d(1)] disjoint_image ..
  have len: "[0..<length (h_table (hdr s1 h))] = [0..<n]" using at(1,3) by (simp add: n_def)
  have head: "\<not> is_empty_dir (hdr s dir)" "\<not> h_mount (hdr s h)" using h(1,4) d(1,3) by simp_all
  define s2 where "s2 = s1(dir \<mapsto> y1\<lparr>h_tree := t\<rparr>)"
  have ins: "insert_header L fuel dir h s = (if err = 0 then Inr (0, s2) else (case erase_header L h s2 of
      Inl f \<Rightarrow> Inl f
    | Inr s \<Rightarrow> (case drop_sysctl_table L fuel dir (upd_hdr h (\<lambda>x. x\<lparr>h_parent := None\<rparr>) s) of Inl f \<Rightarrow> Inl f | Inr s \<Rightarrow> Inr (err, s))))"
    using head unfolding insert_header_def Let_def by (simp add: s1 len R(1) s2_def cong: sum.case_cong)
  show ?thesis
  proof (cases "new_names s dir (h_table x)")
    case False
    then have e: "err \<noteq> 0" "\<exists>i \<in> set [0..<n]. (h, i) \<notin> set (inorder t)" using R(3) unfolding cond by simp_all
    then obtain i where i: "i \<in> set [0..<n]" "(h, i) \<notin> set (inorder t)" by blast
    have at2: "s2 h = Some x1" "s2 dir = Some (y1\<lparr>h_tree := t\<rparr>)" using at d(2) by (simp_all add: s2_def)
    have "erase_entries L h [0..<n] s2 = Inl BadFree"
      by (rule erase_entries_fault [where x = x1 and p = dir and y = "y1\<lparr>h_tree := t\<rparr>" and key = "ent_name s" and miss = i])
        (use lib at2 at(4) d(2) R(2) i in simp_all)
    then have "erase_header L h s2 = Inl BadFree" using at2(1) at(3) by (simp add: erase_header_def n_def)
    then show ?thesis using False ins e(1) by simp
  next
    case True
    then have e: "err = 0" "set (inorder t) = entries s dir \<union> Pair h ` {0..<n}" using R(3) unfolding cond by simp_all
    have a: "abs_store s2 = (abs_store s)(h \<mapsto> (core x)\<lparr>h_parent := Some dir\<rparr>)"
      using d(1,2) by (auto simp: s2_def s1_def y1_def x1_def abs_store_def fun_eq_iff)
    have kids': "kids s2 q = (if q = dir then insert h (kids s q) else kids s q)" for q
    proof -
      have "kids s2 q = kids ((abs_store s)(h \<mapsto> (core x)\<lparr>h_parent := Some dir\<rparr>)) q" using abs_simps(1) [of s2] a by simp
      then show ?thesis using h(1,2) by (auto simp: kids_def abs_Some)
    qed
    have ent': "entries s2 q = (if q = dir then entries s q \<union> Pair h ` {0..<n} else entries s q)" for q
    proof -
      have "(c, i) \<in> entries s2 q \<longleftrightarrow> (if c = h then q = dir \<and> i < n else (c, i) \<in> entries s q)" for c i
        using d(1,2) by (auto simp: entries_def s2_def s1_def y1_def x1_def n_def)
      then show ?thesis using noh by (auto split: if_splits)
    qed
    have "shape_ok (abs_store s2)"
    proof -
      have S: "shape_ok (abs_store s)" using inv by (simp add: sys_inv_def)
      have hx: "abs_store s h = Some (core x)" using h(1) by (simp add: abs_store_def)
      have "finite (dom (abs_store s2))" using S unfolding a by (simp add: shape_ok_def)
      moreover have "\<exists>z. abs_store s2 sys_root = Some z \<and> h_parent z = None" using S h(5) unfolding a shape_ok_def by simp
      moreover have "h_count z = 1 \<and> (\<forall>p. h_parent z = Some p \<longrightarrow> abs_store s2 p \<noteq> None)
          \<and> (\<forall>e \<in> set (h_table z). S_ISDIR (ct_mode e) \<longrightarrow> length (h_table z) = 1)" if z: "abs_store s2 c = Some z" for c z
      proof (cases "c = h")
        case True
        then have "z = (core x)\<lparr>h_parent := Some dir\<rparr>" using z by (simp add: a)
        moreover have "h_count (core x) = 1 \<and> (\<forall>e \<in> set (h_table (core x)). S_ISDIR (ct_mode e) \<longrightarrow> length (h_table (core x)) = 1)"
          using S hx unfolding shape_ok_def by blast
        ultimately show ?thesis using d(1,2) unfolding a by simp
      next
        case False
        then have "abs_store s c = Some z" using z by (simp add: a)
        then show ?thesis using S unfolding shape_ok_def a by auto
      qed
      ultimately show ?thesis unfolding shape_ok_def by blast
    qed
    moreover have "h_nreg z = refs q + int (card (kids s2 q)) \<and> dir_tree_ok (abs_store s2) q (h_tree z)" if z: "s2 q = Some z" for q z
    proof -
      have key2: "ent_name s2 = ent_name s" using h(1) d(1,2) by (auto simp: fun_eq_iff ent_name_def s2_def s1_def x1_def y1_def)
      have q: "q = dir \<and> z = y1\<lparr>h_tree := t\<rparr> \<or> q \<noteq> dir \<and> (\<exists>w. s q = Some w \<and> h_nreg z = h_nreg w \<and> h_tree z = h_tree w)"
        using z h(1) d(2) by (auto simp: s2_def s1_def x1_def split: if_splits)
      then show ?thesis
      proof
        assume q: "q = dir \<and> z = y1\<lparr>h_tree := t\<rparr>"
        have "h \<notin> kids s dir" using h(1,2) by (simp add: kids_def)
        then have "card (kids s2 dir) = card (kids s dir) + 1" using sys_invD(5) [OF inv h(1)] by (simp add: kids')
        moreover have "dir_tree_ok (abs_store s2) dir t" using R(2) e(2) by (simp add: dir_tree_ok_def key2 ent' del: set_inorder)
        ultimately show ?thesis using q sys_invD(1) [OF inv d(1)] by (simp add: y1_def)
      next
        assume q: "q \<noteq> dir \<and> (\<exists>w. s q = Some w \<and> h_nreg z = h_nreg w \<and> h_tree z = h_tree w)"
        then obtain w where w: "s q = Some w" "h_nreg z = h_nreg w" "h_tree z = h_tree w" by blast
        have "dir_tree_ok (abs_store s2) q (h_tree w)"
          using sys_invD(2) [OF inv w(1)] q by (simp add: dir_tree_ok_def key2 ent' del: set_inorder)
        then show ?thesis using w sys_invD(1) [OF inv w(1)] q by (simp add: kids')
      qed
    qed
    ultimately have "sys_inv refs s2" unfolding sys_inv_def by blast
    then show ?thesis using True ins e(1) a by simp
  qed
qed

end
