(* ===== verification/SysctlPath.thy ===== *)
theory SysctlPath imports SysctlReg begin

text \<open>
  Registration and unregistration in \<open>/proc/sys\<close> as a whole, over paths and hierarchies of tables.
\<close>

section \<open>One step along a path\<close>

definition no_mounts :: "ctl_store \<Rightarrow> bool" where
  "no_mounts s \<longleftrightarrow> (\<forall>h x. s h = Some x \<longrightarrow> \<not> is_empty_dir x)"

definition alloc_ok :: "(ctl_store \<Rightarrow> nat option) \<Rightarrow> bool" where
  "alloc_ok kzalloc \<longleftrightarrow> (\<forall>s h. kzalloc s = Some h \<longrightarrow> s h = None)"

lemma no_mounts_abs: "no_mounts (abs_store s) = no_mounts s"
proof -
  have "(\<exists>x. abs_store s h = Some x \<and> is_empty_dir x) \<longleftrightarrow> (\<exists>x. s h = Some x \<and> is_empty_dir x)" for h
    by (cases "s h") (auto simp: abs_store_def)
  then show ?thesis unfolding no_mounts_def by blast
qed

lemma find_entry_abs:
  assumes "sys_inv r s" "sys_inv r' s'" "s d \<noteq> None" "s' d \<noteq> None" "entries s d = entries s' d" "\<And>e. e \<in> entries s d \<Longrightarrow> ent_name s e = ent_name s' e"
  shows "find_entry s d n = find_entry s' d n"
proof -
  obtain y y' where y: "s d = Some y" "s' d = Some y'" using assms(3,4) by blast
  have "find_entry s d n = Some e \<longleftrightarrow> find_entry s' d n = Some e" for e
    unfolding find_entry_iff [OF assms(1) y(1)] find_entry_iff [OF assms(2) y(2)] using assms(5,6) by metis
  then show ?thesis by (metis option.exhaust)
qed

lemma grown_kids: "grown A0 refs0 k A refs h \<Longrightarrow> k = 0 \<and> A = A0 \<and> refs = refs0(h := refs0 h + 1) \<or> kids A h = {}"
proof (induction rule: grown.induct)
  case (new k A refs p n x)
  have "p \<noteq> n" using grown_last [OF new.hyps(1)] new.hyps(2) by auto
  then have "kids (A(n \<mapsto> x)) n = kids A n" using new.hyps(2,4) by (auto simp: kids_def)
  then have "kids (A(n \<mapsto> x)) n = {}" using new.hyps(3) by (simp only:)
  then show ?case by (rule disjI2)
qed simp

lemma find_subdir_iff:
  assumes "sys_inv refs s" "s d = Some y"
  shows "find_subdir s d n = Inr sub \<longleftrightarrow>
    (\<exists>i z. s sub = Some z \<and> h_parent z = Some d \<and> i < length (h_table z) \<and> ct_name (h_table z ! i) = n \<and> S_ISDIR (ct_mode (h_table z ! i)))"
    (is "_ \<longleftrightarrow> ?R")
proof
  assume "find_subdir s d n = Inr sub"
  then obtain i where i: "find_entry s d n = Some (sub, i)" "S_ISDIR (ct_mode (h_table (hdr s sub) ! i))"
    by (auto simp: find_subdir_def split: option.splits if_splits)
  then have "(sub, i) \<in> entries s d" "ent_name s (sub, i) = n" using find_entry_iff [OF assms] by auto
  then show ?R using i(2) by (auto simp: entries_def ent_name_def)
next
  assume ?R
  then obtain i z where z: "s sub = Some z" "h_parent z = Some d" "i < length (h_table z)" "ct_name (h_table z ! i) = n" "S_ISDIR (ct_mode (h_table z ! i))" by blast
  then have "find_entry s d n = Some (sub, i)" unfolding find_entry_iff [OF assms] by (auto simp: entries_def ent_name_def)
  then show "find_subdir s d n = Inr sub" using z by (simp add: find_subdir_def)
qed

lemma S_ISDIR_dir_mode: "S_ISDIR dir_mode"
  by (simp add: S_ISDIR_def dir_mode_def bit.conj_disj_distrib2) (simp add: S_IFDIR_def S_IRUGO_def S_IXUGO_def mode_defs)

lemma root_there: "sys_inv refs s \<Longrightarrow> s sys_root \<noteq> None"
proof -
  assume "sys_inv refs s"
  then have "\<exists>x. abs_store s sys_root = Some x \<and> h_parent x = None" unfolding sys_inv_def shape_ok_def by blast
  then have "abs_store s sys_root \<noteq> None" by blast
  then show "s sys_root \<noteq> None" unfolding abs_simps(4) .
qed

lemma kids_finite: "sys_inv refs s \<Longrightarrow> finite (kids s d)"
proof -
  assume i: "sys_inv refs s"
  then obtain x where "s sys_root = Some x" by (auto simp: sys_inv_def shape_ok_def abs_Some)
  then show "finite (kids s d)" by (rule sys_invD(5) [OF i])
qed

text \<open>Dropping the reference on a directory below which there is something.\<close>

lemma drop_with_kids:
  assumes inv: "sys_inv refs s" and d: "s d = Some y" "kids s d \<noteq> {}" "1 \<le> refs d" and fuel: "0 < fuel"
  shows "\<exists>s'. drop_sysctl_table L fuel d s = Inr s' \<and> sys_inv (refs(d := refs d - 1)) s' \<and> abs_store s' = abs_store s"
proof -
  have "0 < card (kids s d)" using d(2) kids_finite [OF inv] by (simp add: card_gt_0_iff)
  then have "h_nreg y \<noteq> 1" using sys_invD(1) [OF inv d(1)] d(3) by simp
  moreover obtain f where "fuel = Suc f" using fuel by (cases fuel) simp_all
  ultimately show ?thesis using drop_stop [OF inv d(1)] by simp
qed

text \<open>The allocator fails in some store that has, beside the headers of \<open>A\<close>, fewer than \<open>k\<close> others.\<close>

definition alloc_fails :: "(ctl_store \<Rightarrow> nat option) \<Rightarrow> ctl_store \<Rightarrow> nat \<Rightarrow> bool" where
  "alloc_fails kzalloc A k \<longleftrightarrow>
     (\<exists>t. kzalloc t = None \<and> dom A \<subseteq> dom t \<and> finite (dom t - dom A) \<and> card (dom t - dom A) < k)"

lemma alloc_fails_mono: "alloc_fails kzalloc A k \<Longrightarrow> k \<le> k' \<Longrightarrow> alloc_fails kzalloc A k'"
  unfolding alloc_fails_def using less_le_trans by blast

lemma alloc_fails_add:
  assumes "alloc_fails kzalloc (A(h \<mapsto> x)) k"
  shows "alloc_fails kzalloc A (Suc k)"
proof -
  obtain t where t: "kzalloc t = None" "dom (A(h \<mapsto> x)) \<subseteq> dom t" "finite (dom t - dom (A(h \<mapsto> x)))" "card (dom t - dom (A(h \<mapsto> x))) < k"
    using assms unfolding alloc_fails_def by blast
  have sub: "dom t - dom A \<subseteq> insert h (dom t - dom (A(h \<mapsto> x)))" by auto
  moreover have f: "finite (insert h (dom t - dom (A(h \<mapsto> x))))" using t(3) by simp
  ultimately have "card (dom t - dom A) \<le> card (insert h (dom t - dom (A(h \<mapsto> x))))" by (intro card_mono)
  also have "\<dots> \<le> Suc (card (dom t - dom (A(h \<mapsto> x))))" using t(3) by (simp add: card_insert_if)
  finally have "card (dom t - dom A) < Suc k" using t(4) by simp
  moreover have "dom A \<subseteq> dom t" using t(2) by auto
  moreover have "finite (dom t - dom A)" using sub f by (rule finite_subset)
  ultimately show ?thesis using t(1) unfolding alloc_fails_def by blast
qed

lemma grown_dom: "grown A0 refs0 k A refs h \<Longrightarrow> dom A0 \<subseteq> dom A \<and> finite (dom A - dom A0) \<and> card (dom A - dom A0) \<le> k"
proof (induction rule: grown.induct)
  case (new k A refs p n x)
  then have d: "dom (A(n \<mapsto> x)) - dom A0 = insert n (dom A - dom A0)" by auto
  have "dom (A(n \<mapsto> x)) = insert n (dom A)" by auto
  then have "dom A0 \<subseteq> dom (A(n \<mapsto> x))" using new.IH by blast
  moreover have "card (insert n (dom A - dom A0)) \<le> Suc k" using new.IH by (simp add: card_insert_if)
  ultimately show ?case using new.IH unfolding d by blast
qed simp

text \<open>What registration promises at each point: the store of the beginning again, or grown by what was made.\<close>

definition restored :: "ctl_store \<Rightarrow> (nat \<Rightarrow> int) \<Rightarrow> ctl_store \<Rightarrow> bool" where
  "restored A0 refs0 s \<longleftrightarrow> sys_inv refs0 s \<and> abs_store s = A0"

definition reached :: "ctl_store \<Rightarrow> (nat \<Rightarrow> int) \<Rightarrow> nat \<Rightarrow> nat \<Rightarrow> ctl_store \<Rightarrow> bool" where
  "reached A0 refs0 k d s \<longleftrightarrow> (\<exists>j refs. j \<le> k \<and> grown A0 refs0 j (abs_store s) refs d \<and> sys_inv refs s \<and> no_mounts s)"

lemma reached_drop:
  assumes "reached A0 refs0 k d s" "live A0 refs0" "rb_lib_ok L" "k < fuel"
  shows "\<exists>s'. drop_sysctl_table L fuel d s = Inr s' \<and> restored A0 refs0 s'"
proof -
  obtain j refs where g: "j \<le> k" "grown A0 refs0 j (abs_store s) refs d" "sys_inv refs s" using assms(1) unfolding reached_def by blast
  then show ?thesis using grown_drop [OF g(2) assms(3,2) g(3)] assms(4) unfolding restored_def by auto
qed

lemma enter_subdir:
  assumes G: "reached A0 refs0 k dir s" and live: "live A0 refs0" and sub: "find_subdir s dir name = Inr sub" and fuel: "0 < fuel"
  shows "\<exists>s'. drop_sysctl_table L fuel dir (upd_hdr sub (\<lambda>x. x\<lparr>h_nreg := h_nreg x + 1\<rparr>) s) = Inr s' \<and> reached A0 refs0 k sub s'
    \<and> abs_store s' = abs_store s"
proof -
  obtain j refs where g: "j \<le> k" "grown A0 refs0 j (abs_store s) refs dir" "sys_inv refs s" "no_mounts s" using G unfolding reached_def by blast
  obtain y where y: "s dir = Some y" using grown_last [OF g(2)] by (auto simp: abs_Some)
  obtain i z where z: "s sub = Some z" "h_parent z = Some dir" using sub find_subdir_iff [OF g(3) y] by blast
  then have kid: "sub \<in> kids s dir" by (simp add: kids_def)
  then have base: "j = 0" "abs_store s = A0" "refs = refs0(dir := refs0 dir + 1)" using grown_kids [OF g(2)] by auto
  define s1 where "s1 = upd_hdr sub (\<lambda>x. x\<lparr>h_nreg := h_nreg x + 1\<rparr>) s"
  have s1: "sys_inv (refs(sub := refs sub + 1)) s1" "abs_store s1 = abs_store s"
    using nreg_add [OF g(3), of sub 1] z(1) by (simp_all add: s1_def)
  obtain y1 where y1: "s1 dir = Some y1" using y abs_eqD(3) [OF s1(2)] by blast
  have "kids s1 dir \<noteq> {}" using kid abs_eqD(1) [OF s1(2)] by auto
  moreover have "1 \<le> (refs(sub := refs sub + 1)) dir"
  proof -
    have "A0 dir \<noteq> None" using y base(2) [symmetric] by simp
    then have "0 \<le> refs0 dir" using live by (auto simp: live_def)
    then show ?thesis by (cases "dir = sub") (simp_all add: base(3))
  qed
  ultimately obtain s' where s': "drop_sysctl_table L fuel dir s1 = Inr s'" "abs_store s' = abs_store s1"
    "sys_inv ((refs(sub := refs sub + 1))(dir := (refs(sub := refs sub + 1)) dir - 1)) s'"
    using drop_with_kids [OF s1(1) y1 _ _ fuel] by blast
  have "(refs(sub := refs sub + 1))(dir := (refs(sub := refs sub + 1)) dir - 1) = refs0(sub := refs0 sub + 1)" by (auto simp: base(3) fun_eq_iff)
  then have "sys_inv (refs0(sub := refs0 sub + 1)) s'" using s'(3) by simp
  moreover have "grown A0 refs0 0 (abs_store s') (refs0(sub := refs0 sub + 1)) sub"
  proof -
    have "A0 sub = Some (core z)" using z(1) base(2) [symmetric] by (simp add: abs_store_def)
    then have "grown A0 refs0 0 A0 (refs0(sub := refs0 sub + 1)) sub" by (rule grown.here) (simp add: z(2))
    then show ?thesis by (simp add: s'(2) s1(2) base(2))
  qed
  moreover have a: "abs_store s' = abs_store s" by (simp add: s'(2) s1(2))
  moreover have "no_mounts s'" using g(4) no_mounts_abs [of s] no_mounts_abs [of s'] a by simp
  ultimately show ?thesis using s'(1) unfolding reached_def s1_def by blast
qed


lemma find_entry_alloc:
  assumes "sys_inv refs s" "s n = None" "s dir = Some y"
  shows "find_entry (s(n \<mapsto> init_header False (dir_table name))) dir name = find_entry s dir name"
proof -
  define x where "x = init_header False (dir_table name)"
  define s1 where "s1 = s(n \<mapsto> x)"
  have nd: "n \<noteq> dir" using assms(2,3) by auto
  have x: "h_parent x = None" by (simp add: x_def init_header_def)
  have i1: "sys_inv (refs(n := 1)) s1" unfolding s1_def x_def by (rule alloc_header [OF assms(1,2)]) (simp add: dir_table_def)
  have y1: "s1 dir = Some y" using assms(3) nd by (simp add: s1_def)
  have e1: "entries s1 dir = entries s dir" using assms(2) x by (auto simp: s1_def entries_def split: if_splits)
  have "find_entry s1 dir name = find_entry s dir name"
  proof (rule find_entry_abs [OF i1 assms(1) _ _ e1])
    show "ent_name s1 e = ent_name s e" if "e \<in> entries s1 dir" for e
      using that assms(2) unfolding e1 by (cases e) (auto simp: s1_def ent_name_def entries_def)
  qed (use assms(3) y1 in simp_all)
  then show ?thesis by (simp only: s1_def x_def)
qed

lemma make_subdir:
  assumes G: "reached A0 refs0 k dir s" and live: "live A0 refs0" and lib: "rb_lib_ok L" and n: "s n = None"
    and none: "find_entry s dir name = None" and fuel: "0 < fuel"
  defines "s1 \<equiv> s(n \<mapsto> init_header False (dir_table name))"
  shows "find_subdir s1 dir name = Inl (- ENOENT)"
    and "\<exists>s2 s3 s4. insert_header L f dir n s1 = Inr (0, s2)
      \<and> drop_sysctl_table L fuel dir (upd_hdr n (\<lambda>x. x\<lparr>h_nreg := h_nreg x + 1\<rparr>) s2) = Inr s3 \<and> drop_sysctl_table L fuel n s3 = Inr s4
      \<and> reached A0 refs0 (Suc k) n s4 \<and> abs_store s4 = (abs_store s)(n \<mapsto> (init_header False (dir_table name))\<lparr>h_nreg := 0, h_parent := Some dir\<rparr>)"
proof -
  obtain j refs where g: "j \<le> k" "grown A0 refs0 j (abs_store s) refs dir" "sys_inv refs s" "no_mounts s" using G unfolding reached_def by blast
  obtain y where y: "s dir = Some y" using grown_last [OF g(2)] by (auto simp: abs_Some)
  have nd: "n \<noteq> dir" using y n by auto
  define x where "x = init_header False (dir_table name)"
  have x: "h_table x = dir_table name" "h_parent x = None" "\<not> h_mount x" "core x = x\<lparr>h_nreg := 0\<rparr>" by (simp_all add: x_def init_header_def core_def)
  have s1x: "s1 = s(n \<mapsto> x)" by (simp add: s1_def x_def)
  have i1: "sys_inv (refs(n := 1)) s1" unfolding s1_def by (rule alloc_header [OF g(3) n]) (simp add: dir_table_def)
  have y1: "s1 dir = Some y" using y nd by (simp add: s1x)
  have "find_entry s1 dir name = find_entry s dir name" unfolding s1_def by (rule find_entry_alloc [OF g(3) n y])
  then have none1: "find_entry s1 dir name = None" using none by simp
  then show "find_subdir s1 dir name = Inl (- ENOENT)" by (simp add: find_subdir_def)
  have root: "n \<noteq> sys_root" using g(3) n by (auto simp: sys_inv_def shape_ok_def abs_Some)
  have kn: "kids s1 n = {}" using kids_none [OF g(3) n] x(2) n by (auto simp: s1x kids_def split: if_splits)
  have ne: "\<not> is_empty_dir y" using g(4) y by (simp add: no_mounts_def)
  have nn: "new_names s1 dir (h_table x)" using none1 by (simp add: x(1) new_names_def dir_table_def)
  have at1: "s1 n = Some x" by (simp add: s1x)
  obtain s2 where s2: "insert_header L f dir n s1 = Inr (0, s2)" "sys_inv (refs(n := 1)) s2"
    "abs_store s2 = (abs_store s1)(n \<mapsto> (core x)\<lparr>h_parent := Some dir\<rparr>)"
    using insert_header_result [OF i1 lib at1 x(2) kn x(3) root y1 nd [symmetric] ne, of f] nn by auto
  have a2: "abs_store s2 = (abs_store s)(n \<mapsto> (core x)\<lparr>h_parent := Some dir\<rparr>)" by (simp add: s2(3) s1x)
  obtain w2 where w2: "s2 n = Some w2" "h_parent w2 = Some dir"
  proof -
    have "abs_store s2 n = Some ((core x)\<lparr>h_parent := Some dir\<rparr>)" by (simp add: a2)
    then obtain w where "s2 n = Some w" "core w = (core x)\<lparr>h_parent := Some dir\<rparr>" by (auto simp: abs_Some)
    then show thesis using that core_simps(2) [of w] by simp
  qed
  define s2' where "s2' = upd_hdr n (\<lambda>x. x\<lparr>h_nreg := h_nreg x + 1\<rparr>) s2"
  have s2': "sys_inv (refs(n := 2)) s2'" "abs_store s2' = abs_store s2"
    using nreg_add [OF s2(2), of n 1] w2(1) by (simp_all add: s2'_def)
  have live': "1 \<le> refs dir" using grown_live [OF g(2) live] kids_finite [OF g(3)] by simp
  obtain y2 where y2: "s2' dir = Some y2"
  proof -
    have "abs_store s2' dir \<noteq> None" using y nd unfolding s2'(2) a2 by simp
    then show thesis using that by auto
  qed
  have "n \<in> kids s2' dir" using w2 abs_eqD(1) [OF s2'(2)] by (auto simp: kids_def)
  then have kd: "kids s2' dir \<noteq> {}" by blast
  have rd: "1 \<le> (refs(n := 2)) dir" using live' nd by simp
  obtain s3 where s3: "drop_sysctl_table L fuel dir s2' = Inr s3" "sys_inv ((refs(n := 2))(dir := (refs(n := 2)) dir - 1)) s3" "abs_store s3 = abs_store s2'"
    using drop_with_kids [OF s2'(1) y2 kd rd fuel] by blast
  define r3 where "r3 = (refs(n := 2))(dir := (refs(n := 2)) dir - 1)"
  obtain w3 where w3: "s3 n = Some w3" using w2(1) abs_eqD(3) [OF s3(3)] abs_eqD(3) [OF s2'(2)] by blast
  have "h_nreg w3 \<noteq> 1" using sys_invD(1) [OF s3(2) w3] nd by simp
  moreover obtain g' where "fuel = Suc g'" using fuel by (cases fuel) simp_all
  ultimately obtain s4 where s4: "drop_sysctl_table L fuel n s3 = Inr s4" "sys_inv (r3(n := r3 n - 1)) s4" "abs_store s4 = abs_store s3"
    using drop_stop [OF s3(2) w3] unfolding r3_def by blast
  have r4: "r3(n := r3 n - 1) = refs(dir := refs dir - 1, n := 1)" using nd by (auto simp: r3_def fun_eq_iff)
  have a4: "abs_store s4 = (abs_store s)(n \<mapsto> (core x)\<lparr>h_parent := Some dir\<rparr>)" by (simp only: s4(3) s3(3) s2'(2) a2)
  have "grown A0 refs0 (Suc j) ((abs_store s)(n \<mapsto> (core x)\<lparr>h_parent := Some dir\<rparr>)) (refs(dir := refs dir - 1, n := 1)) n"
    by (rule grown.new [OF g(2)]) (use n kids_none [OF g(3) n] in simp_all)
  moreover have "no_mounts s4"
  proof -
    have "no_mounts ((abs_store s)(n \<mapsto> (core x)\<lparr>h_parent := Some dir\<rparr>))"
      using g(4) no_mounts_abs [of s] x(1) by (auto simp: no_mounts_def is_empty_dir_def dir_table_def split: if_splits)
    then show ?thesis using no_mounts_abs [of s4] by (simp only: a4)
  qed
  ultimately have "reached A0 refs0 (Suc k) n s4" using s4(2) g(1) unfolding reached_def a4 r4 by auto
  moreover have "abs_store s4 = (abs_store s)(n \<mapsto> (init_header False (dir_table name))\<lparr>h_nreg := 0, h_parent := Some dir\<rparr>)"
    unfolding a4 x(4) by (simp add: x_def)
  ultimately show "\<exists>s2 s3 s4. insert_header L f dir n s1 = Inr (0, s2)
      \<and> drop_sysctl_table L fuel dir (upd_hdr n (\<lambda>x. x\<lparr>h_nreg := h_nreg x + 1\<rparr>) s2) = Inr s3 \<and> drop_sysctl_table L fuel n s3 = Inr s4
      \<and> reached A0 refs0 (Suc k) n s4 \<and> abs_store s4 = (abs_store s)(n \<mapsto> (init_header False (dir_table name))\<lparr>h_nreg := 0, h_parent := Some dir\<rparr>)"
    using s2(1) s3(1) s4(1) unfolding s2'_def by blast
qed


lemma abs_le_Some:
  assumes "abs_store s \<subseteq>\<^sub>m abs_store s'" "s h = Some x"
  shows "\<exists>x'. s' h = Some x' \<and> core x' = core x"
proof -
  have "abs_store s h = Some (core x)" using assms(2) by (simp add: abs_store_def)
  then have "abs_store s' h = Some (core x)" using assms(1) by (metis domI map_le_def)
  then show ?thesis by (auto simp: abs_Some)
qed

lemma reached_alloc:
  assumes "reached A0 refs0 k d s" "kzalloc s = None"
  shows "alloc_fails kzalloc A0 (Suc k)"
proof -
  obtain j refs where g: "j \<le> k" "grown A0 refs0 j (abs_store s) refs d" using assms(1) unfolding reached_def by blast
  have "dom (abs_store s) = dom s" by (auto simp: abs_store_def)
  then show ?thesis using grown_dom [OF g(2)] g(1) assms(2) unfolding alloc_fails_def by auto
qed

text \<open>What is in a directory of \<open>s\<close> is there in \<open>s'\<close> too; headers that are in no directory do not count.\<close>

definition keeps :: "ctl_store \<Rightarrow> ctl_store \<Rightarrow> bool" where
  "keeps s s' \<longleftrightarrow> (\<forall>c x. s c = Some x \<longrightarrow> h_parent x \<noteq> None \<longrightarrow> (\<exists>x'. s' c = Some x' \<and> core x' = core x))"

lemma keeps_le: "abs_store s \<subseteq>\<^sub>m abs_store s' \<Longrightarrow> keeps s s'"
  unfolding keeps_def using abs_le_Some by blast

lemma find_subdir_keeps:
  assumes "sys_inv r s" "sys_inv r' s'" "keeps s s'" "s d = Some y" "s' d \<noteq> None" "find_subdir s d n = Inr sub"
  shows "find_subdir s' d n = Inr sub"
proof -
  obtain i z where z: "s sub = Some z" "h_parent z = Some d" "i < length (h_table z)" "ct_name (h_table z ! i) = n" "S_ISDIR (ct_mode (h_table z ! i))"
    using assms(6) find_subdir_iff [OF assms(1,4)] by blast
  obtain z' where z': "s' sub = Some z'" "core z' = core z" using assms(3) z(1,2) unfolding keeps_def by fastforce
  obtain y' where y': "s' d = Some y'" using assms(5) by blast
  have "h_parent z' = h_parent z" "h_table z' = h_table z" using z'(2) core_simps(1,2) by metis+
  then show ?thesis using z z'(1) find_subdir_iff [OF assms(2) y'] by auto
qed

lemma find_subdir_mono:
  assumes "sys_inv r s" "sys_inv r' s'" "abs_store s \<subseteq>\<^sub>m abs_store s'" "s d = Some y" "find_subdir s d n = Inr sub"
  shows "find_subdir s' d n = Inr sub"
  using find_subdir_keeps [OF assms(1,2) keeps_le [OF assms(3)] assms(4) _ assms(5)] abs_le_Some [OF assms(3,4)] by blast

lemma reached_mono: "reached A0 refs0 k d s \<Longrightarrow> k \<le> k' \<Longrightarrow> reached A0 refs0 k' d s"
  unfolding reached_def using le_trans by blast

lemma reached_inv: "reached A0 refs0 k d s \<Longrightarrow> (\<exists>r. sys_inv r s) \<and> (\<exists>y. s d = Some y)"
  unfolding reached_def using grown_last by (metis abs_Some)

text \<open>Every way through \<open>get_subdir\<close>.\<close>

lemma get_subdir_result:
  assumes G: "reached A0 refs0 k dir s" and live: "live A0 refs0" and lib: "rb_lib_ok L" and kz: "alloc_ok kzalloc" and fuel: "k < fuel"
  obtains err s' e where "get_subdir L kzalloc fuel dir name s = Inr (Inl err, s')" "restored A0 refs0 s'" "find_subdir s dir name = Inl e"
      "e = - ENOTDIR \<or> kzalloc s = None"
  | sub s' where "get_subdir L kzalloc fuel dir name s = Inr (Inr sub, s')" "reached A0 refs0 (Suc k) sub s'"
      "find_subdir s' dir name = Inr sub" "abs_store s \<subseteq>\<^sub>m abs_store s'"
      "find_subdir s dir name = Inr sub \<and> abs_store s' = abs_store s \<or> kids s' sub = {}"
proof -
  obtain r y where inv: "sys_inv r s" and y: "s dir = Some y" using reached_inv [OF G] by blast
  obtain s0 where s0: "drop_sysctl_table L fuel dir s = Inr s0" "restored A0 refs0 s0" using reached_drop [OF G live lib fuel] by blast
  have pos: "0 < fuel" using fuel by simp
  show thesis
  proof (cases "find_subdir s dir name")
    case (Inr sub)
    obtain s' where s': "drop_sysctl_table L fuel dir (upd_hdr sub (\<lambda>x. x\<lparr>h_nreg := h_nreg x + 1\<rparr>) s) = Inr s'" "reached A0 refs0 k sub s'"
      "abs_store s' = abs_store s"
      using enter_subdir [OF G live Inr pos] by blast
    have g: "get_subdir L kzalloc fuel dir name s = Inr (Inr sub, s')" by (simp add: get_subdir_def Inr s'(1))
    obtain r' where "sys_inv r' s'" using reached_inv [OF s'(2)] by blast
    then have "find_subdir s' dir name = Inr sub" by (rule find_subdir_mono [OF inv _ _ y Inr]) (simp add: s'(3))
    then show thesis using that(2) [OF g] reached_mono [OF s'(2)] s'(3) Inr by simp
  next
    case (Inl e)
    show thesis
    proof (cases "e = - ENOENT")
      case False
      then have "get_subdir L kzalloc fuel dir name s = Inr (Inl e, s0)" by (simp add: get_subdir_def Inl s0(1))
      moreover have "e = - ENOTDIR" using Inl False by (auto simp: find_subdir_def split: option.splits if_splits)
      ultimately show thesis using that(1) s0(2) Inl by blast
    next
      case True
      show thesis
      proof (cases "kzalloc s")
        case None
        then have "get_subdir L kzalloc fuel dir name s = Inr (Inl (- ENOMEM), s0)" by (simp add: get_subdir_def Inl True new_dir_def s0(1))
        then show thesis using that(1) s0(2) Inl None by blast
      next
        case (Some n)
        have n: "s n = None" using kz Some by (simp add: alloc_ok_def)
        have "find_entry s dir name = None"
        proof (rule ccontr)
          assume "find_entry s dir name \<noteq> None"
          then obtain h i where "find_entry s dir name = Some (h, i)" by auto
          then show False using Inl True by (auto simp: find_subdir_def ENOENT_def ENOTDIR_def split: if_splits)
        qed
        note M = make_subdir [OF G live lib n this pos]
        obtain s2 s3 s4 where s4: "insert_header L fuel dir n (s(n \<mapsto> init_header False (dir_table name))) = Inr (0, s2)"
          "drop_sysctl_table L fuel dir (upd_hdr n (\<lambda>x. x\<lparr>h_nreg := h_nreg x + 1\<rparr>) s2) = Inr s3" "drop_sysctl_table L fuel n s3 = Inr s4"
          "reached A0 refs0 (Suc k) n s4" "abs_store s4 = (abs_store s)(n \<mapsto> (init_header False (dir_table name))\<lparr>h_nreg := 0, h_parent := Some dir\<rparr>)"
          using M(2) [of fuel] by blast
        have g: "get_subdir L kzalloc fuel dir name s = Inr (Inr n, s4)"
          by (simp add: get_subdir_def Inl True new_dir_def Some M(1) s4(1-3))
        obtain r4 where r4: "sys_inv r4 s4" using reached_inv [OF s4(4)] by blast
        have le: "abs_store s \<subseteq>\<^sub>m abs_store s4" using n by (auto simp: s4(5) map_le_def)
        obtain y4 where y4: "s4 dir = Some y4" using abs_le_Some [OF le y] by blast
        obtain z where z: "s4 n = Some z" "core z = (init_header False (dir_table name))\<lparr>h_nreg := 0, h_parent := Some dir\<rparr>"
        proof -
          have "abs_store s4 n = Some ((init_header False (dir_table name))\<lparr>h_nreg := 0, h_parent := Some dir\<rparr>)" by (simp add: s4(5))
          then show thesis using that by (auto simp: abs_Some)
        qed
        have "h_parent z = Some dir" "h_table z = dir_table name"
          using core_simps(1,2) [of z] by (simp_all add: z(2) init_header_def)
        then have "find_subdir s4 dir name = Inr n" unfolding find_subdir_iff [OF r4 y4]
          using z(1) by (auto simp: dir_table_def S_ISDIR_dir_mode)
        moreover have "kids s4 n = {}"
        proof -
          have "kids (abs_store s) n = {}" using kids_none [OF inv n] unfolding abs_simps(1) .
          moreover have "n \<noteq> dir" using n y by auto
          ultimately have "kids (abs_store s4) n = {}" unfolding s4(5) kids_def by (auto simp del: abs_simps split: if_splits)
          then show ?thesis by simp
        qed
        ultimately show thesis using that(2) [OF g s4(4)] le by blast
      qed
    qed
  qed
qed

section \<open>Whole paths\<close>

function path_parts :: "string \<Rightarrow> string list" where
  "path_parts name =
     (let part = takeWhile (\<lambda>c. c \<noteq> CHR ''/'') name in
      (if part = [] then [] else [part]) @ (case dropWhile (\<lambda>c. c \<noteq> CHR ''/'') name of [] \<Rightarrow> [] | _ # rest \<Rightarrow> path_parts rest))"
  by pat_completeness auto
termination
proof (relation "measure length")
  fix name rest :: string and c
  assume "dropWhile (\<lambda>c. c \<noteq> CHR ''/'') name = c # rest"
  then have "length (c # rest) \<le> length name" by (metis length_dropWhile_le)
  then show "(rest, name) \<in> measure length" by simp
qed simp

declare path_parts.simps [simp del] register_path.simps [simp del]

fun sys_walk :: "ctl_store \<Rightarrow> nat \<Rightarrow> string list \<Rightarrow> nat option" where
  "sys_walk s d [] = Some d"
| "sys_walk s d (n # ns) = (case find_subdir s d n of Inl _ \<Rightarrow> None | Inr d' \<Rightarrow> sys_walk s d' ns)"

text \<open>A part of the path names something that is not a directory.\<close>

fun path_file :: "ctl_store \<Rightarrow> nat \<Rightarrow> string list \<Rightarrow> bool" where
  "path_file s d [] = False"
| "path_file s d (n # ns) = (case find_subdir s d n of Inl e \<Rightarrow> e = - ENOTDIR | Inr d' \<Rightarrow> path_file s d' ns)"

lemma find_subdir_abs:
  assumes "sys_inv r s" "sys_inv r' s'" "abs_store s' = abs_store s" "s d \<noteq> None"
  shows "find_subdir s' d n = find_subdir s d n"
proof -
  have d': "s' d \<noteq> None" using assms(3,4) abs_simps(4) [of s d] abs_simps(4) [of s' d] by metis
  have "find_entry s' d n = find_entry s d n"
    by (rule find_entry_abs [OF assms(2,1) d' assms(4)])
      (use assms(3) abs_simps(2) [of s] abs_simps(2) [of s'] ent_name_abs [of s] ent_name_abs [of s'] in simp_all)
  moreover have "h_table (hdr s' h) = h_table (hdr s h)" if "find_entry s d n = Some (h, i)" for h i
  proof -
    obtain y where y: "s d = Some y" using assms(4) by blast
    have "(h, i) \<in> entries s d" using that find_entry_iff [OF assms(1) y] by blast
    then obtain x where x: "s h = Some x" by (auto simp: entries_def)
    then have "abs_store s' h = Some (core x)" using assms(3) by (simp add: abs_store_def)
    then obtain x' where x': "s' h = Some x'" "core x' = core x" by (auto simp: abs_Some)
    then show ?thesis using x core_simps(1) [of x] core_simps(1) [of x'] by simp
  qed
  ultimately show ?thesis unfolding find_subdir_def by (auto split: option.splits)
qed

lemma path_file_abs:
  assumes "sys_inv r s" "sys_inv r' s'" "abs_store s' = abs_store s"
  shows "s d \<noteq> None \<Longrightarrow> path_file s' d ns = path_file s d ns"
proof (induction ns arbitrary: d)
  case (Cons n ns)
  obtain y where y: "s d = Some y" using Cons.prems by blast
  have "find_subdir s d n = Inr d1 \<Longrightarrow> s d1 \<noteq> None" for d1 using find_subdir_iff [OF assms(1) y] by blast
  then show ?case using find_subdir_abs [OF assms Cons.prems] Cons.IH by (auto split: sum.splits)
qed simp

lemma path_file_empty: "sys_inv r s \<Longrightarrow> s d = Some y \<Longrightarrow> kids s d = {} \<Longrightarrow> \<not> path_file s d ns"
proof (induction ns)
  case (Cons n ns)
  have "entries s d = {}" using Cons.prems(3) by (auto simp: entries_def kids_def)
  then have "find_entry s d n = None" using find_entry_iff [OF Cons.prems(1,2)] by (metis empty_iff option.exhaust)
  then show ?case by (simp add: find_subdir_def ENOENT_def ENOTDIR_def)
qed simp

lemma sys_walk_keeps:
  assumes "sys_inv r s" "sys_inv r' s'" "keeps s s'"
  shows "s d \<noteq> None \<Longrightarrow> s' d \<noteq> None \<Longrightarrow> sys_walk s d ns = Some d' \<Longrightarrow> sys_walk s' d ns = Some d'"
proof (induction ns arbitrary: d)
  case (Cons n ns)
  then obtain d1 where d1: "find_subdir s d n = Inr d1" "sys_walk s d1 ns = Some d'" by (auto split: sum.splits)
  obtain y where y: "s d = Some y" using Cons.prems(1) by blast
  obtain z where z: "s d1 = Some z" "h_parent z = Some d" using d1(1) find_subdir_iff [OF assms(1) y] by blast
  then have "s' d1 \<noteq> None" using assms(3) unfolding keeps_def by fastforce
  then show ?case using find_subdir_keeps [OF assms y Cons.prems(2) d1(1)] Cons.IH d1(2) z(1) by simp
qed simp

lemma register_path_result:
  assumes live: "live A0 refs0" and lib: "rb_lib_ok L" and kz: "alloc_ok kzalloc"
  shows "reached A0 refs0 k dir s \<Longrightarrow> k + length (path_parts name) < fuel \<Longrightarrow>
    (\<exists>err s'. register_path L kzalloc fuel dir name s = Inr (Inl err, s') \<and> restored A0 refs0 s' \<and> sys_walk s dir (path_parts name) = None
        \<and> (alloc_fails kzalloc A0 (k + length (path_parts name)) \<or> path_file s dir (path_parts name)))
    \<or> (\<exists>d s'. register_path L kzalloc fuel dir name s = Inr (Inr d, s') \<and> reached A0 refs0 (k + length (path_parts name)) d s'
        \<and> sys_walk s' dir (path_parts name) = Some d \<and> abs_store s \<subseteq>\<^sub>m abs_store s')"
proof (induction name arbitrary: k dir s rule: length_induct)
  case (1 name)
  define part where "part = takeWhile (\<lambda>c. c \<noteq> CHR ''/'') name"
  define rest where "rest = dropWhile (\<lambda>c. c \<noteq> CHR ''/'') name"
  define more where "more = (case rest of [] \<Rightarrow> [] | _ # r \<Rightarrow> path_parts r)"
  have parts: "path_parts name = (if part = [] then [] else [part]) @ more"
    by (subst path_parts.simps) (simp add: part_def rest_def more_def Let_def)
  have reg: "register_path L kzalloc fuel dir name s =
      (case (if part = [] then Inr (Inr dir, s) else get_subdir L kzalloc fuel dir part s) of
        Inl f \<Rightarrow> Inl f
      | Inr (Inl err, s) \<Rightarrow> Inr (Inl err, s)
      | Inr (Inr d, s) \<Rightarrow> (case rest of [] \<Rightarrow> Inr (Inr d, s) | _ # r \<Rightarrow> register_path L kzalloc fuel d r s))"
    by (simp only: register_path.simps [of L kzalloc fuel dir name s] Let_def part_def rest_def)
  have onward: "(\<exists>err s'. (case rest of [] \<Rightarrow> Inr (Inr d, s1) | _ # r \<Rightarrow> register_path L kzalloc fuel d r s1) = Inr (Inl err, s') \<and> restored A0 refs0 s'
      \<and> sys_walk s1 d more = None \<and> (alloc_fails kzalloc A0 (k1 + length more) \<or> path_file s1 d more))
    \<or> (\<exists>d' s'. (case rest of [] \<Rightarrow> Inr (Inr d, s1) | _ # r \<Rightarrow> register_path L kzalloc fuel d r s1) = Inr (Inr d', s')
        \<and> reached A0 refs0 (k1 + length more) d' s' \<and> sys_walk s' d more = Some d' \<and> abs_store s1 \<subseteq>\<^sub>m abs_store s')"
    if g: "reached A0 refs0 k1 d s1" "k1 + length more < fuel" for d s1 k1
  proof (cases rest)
    case Nil
    then show ?thesis using g(1) by (auto simp: more_def)
  next
    case (Cons c r)
    have "length (c # r) \<le> length name" using Cons unfolding rest_def by (metis length_dropWhile_le)
    then have "length r < length name" by simp
    then show ?thesis using "1.IH" g Cons by (simp add: more_def)
  qed
  show ?case
  proof (cases "part = []")
    case True
    then show ?thesis using onward [OF "1.prems"(1)] "1.prems"(2) unfolding reg parts by simp
  next
    case False
    have len: "length (path_parts name) = Suc (length more)" using False by (simp add: parts)
    then have "k < fuel" using "1.prems"(2) by simp
    from get_subdir_result [OF "1.prems"(1) live lib kz this, of part]
    show ?thesis
    proof cases
      case (1 err s' e)
      have "alloc_fails kzalloc A0 (k + length (path_parts name)) \<or> path_file s dir (path_parts name)"
      proof (cases "kzalloc s = None")
        case True
        show ?thesis using alloc_fails_mono [OF reached_alloc [where kzalloc = kzalloc, OF "1.prems"(1) True]] len by simp
      next
        case False
        then have "e = - ENOTDIR" using 1(4) by - (erule disjE, assumption, erule notE, assumption)
        then show ?thesis using 1(3) \<open>part \<noteq> []\<close> by (simp add: parts)
      qed
      then show ?thesis using False 1(1-3) unfolding reg by (simp add: parts)
    next
      case (2 sub s1)
      have fuel: "Suc k + length more < fuel" using "1.prems"(2) len by simp
      obtain r1 where r1: "sys_inv r1 s1" using reached_inv [OF 2(2)] by blast
      obtain r0 y where r0: "sys_inv r0 s" and y: "s dir = Some y" using reached_inv [OF "1.prems"(1)] by blast
      obtain y1 where y1: "s1 dir = Some y1" using abs_le_Some [OF 2(4) y] by blast
      show ?thesis using onward [OF 2(2) fuel]
      proof
        assume "\<exists>err s'. (case rest of [] \<Rightarrow> Inr (Inr sub, s1) | _ # r \<Rightarrow> register_path L kzalloc fuel sub r s1) = Inr (Inl err, s') \<and> restored A0 refs0 s'
          \<and> sys_walk s1 sub more = None \<and> (alloc_fails kzalloc A0 (Suc k + length more) \<or> path_file s1 sub more)"
        then obtain err s' where e: "(case rest of [] \<Rightarrow> Inr (Inr sub, s1) | _ # r \<Rightarrow> register_path L kzalloc fuel sub r s1) = Inr (Inl err, s')"
          "restored A0 refs0 s'" "sys_walk s1 sub more = None"
          "alloc_fails kzalloc A0 (Suc k + length more) \<or> path_file s1 sub more" by blast
        have why: "alloc_fails kzalloc A0 (k + length (path_parts name)) \<or> path_file s dir (path_parts name)"
          using e(4)
        proof
          assume "alloc_fails kzalloc A0 (Suc k + length more)"
          then show ?thesis using len by simp
        next
          assume f: "path_file s1 sub more"
          obtain y2 where y2: "s1 sub = Some y2" using reached_inv [OF 2(2)] by blast
          have "kids s1 sub \<noteq> {}" using path_file_empty [OF r1 y2] f by blast
          then have same: "find_subdir s dir part = Inr sub" "abs_store s1 = abs_store s" using 2(5) by blast+
          have "s sub \<noteq> None" using same(1) find_subdir_iff [OF r0 y] by blast
          then have "path_file s sub more" using path_file_abs [OF r0 r1 same(2)] f by blast
          then show ?thesis using same(1) False by (simp add: parts)
        qed
        have "sys_walk s dir (path_parts name) = None"
        proof (rule ccontr)
          assume "sys_walk s dir (path_parts name) \<noteq> None"
          then obtain sub0 d0 where w: "find_subdir s dir part = Inr sub0" "sys_walk s sub0 more = Some d0"
            using False by (auto simp: parts split: sum.splits)
          have "find_subdir s1 dir part = Inr sub0" by (rule find_subdir_mono [OF r0 r1 2(4) y w(1)])
          then have "sub0 = sub" using 2(3) by simp
          moreover have "s sub0 \<noteq> None" using find_subdir_iff [OF r0 y] w(1) by blast
          moreover have "s1 sub \<noteq> None" using reached_inv [OF 2(2)] by blast
          ultimately have "sys_walk s1 sub more = Some d0" using sys_walk_keeps [OF r0 r1 keeps_le [OF 2(4)]] w(2) by blast
          then show False using e(3) by simp
        qed
        then show ?thesis using False 2(1) e(1,2) why unfolding reg by simp
      next
        assume "\<exists>d' s'. (case rest of [] \<Rightarrow> Inr (Inr sub, s1) | _ # r \<Rightarrow> register_path L kzalloc fuel sub r s1) = Inr (Inr d', s')
          \<and> reached A0 refs0 (Suc k + length more) d' s' \<and> sys_walk s' sub more = Some d' \<and> abs_store s1 \<subseteq>\<^sub>m abs_store s'"
        then obtain d' s' where d': "(case rest of [] \<Rightarrow> Inr (Inr sub, s1) | _ # r \<Rightarrow> register_path L kzalloc fuel sub r s1) = Inr (Inr d', s')"
          "reached A0 refs0 (Suc k + length more) d' s'" "sys_walk s' sub more = Some d'" "abs_store s1 \<subseteq>\<^sub>m abs_store s'" by blast
        obtain r' where r': "sys_inv r' s'" using reached_inv [OF d'(2)] by blast
        have "find_subdir s' dir part = Inr sub" by (rule find_subdir_mono [OF r1 r' d'(4) y1 2(3)])
        then have "sys_walk s' dir (path_parts name) = Some d'" using False d'(3) by (simp add: parts)
        moreover have "register_path L kzalloc fuel dir name s = Inr (Inr d', s')" using False 2(1) d'(1) unfolding reg by simp
        ultimately show ?thesis using d'(2,4) 2(4) len map_le_trans by fastforce
      qed
    qed
  qed
qed


section \<open>One table\<close>

text \<open>The header of the table to be registered is in the store all the time, in no directory.\<close>

lemma kids_remove: "kids (A(h := None)) q \<subseteq> kids A q"
  by (auto simp: kids_def split: if_splits)

lemma grown_unframe:
  assumes "grown A1 refs1 k A refs d" "A1 = A0(h \<mapsto> x)" "refs1 = refs0(h := 1)"
    and "A0 h = None" "h_parent x = None" "h \<noteq> sys_root" "kids A0 h = {}"
  shows "A h = Some x \<and> kids A h = {} \<and> refs h = 1 \<and> d \<noteq> h \<and> grown A0 refs0 k (A(h := None)) (refs(h := refs0 h)) d"
  using assms(1)
proof (induction rule: grown.induct)
  case (here d z)
  have dh: "d \<noteq> h" using here assms(2,5,6) by auto
  have A: "A1(h := None) = A0" using assms(2,4) by auto
  have k: "kids A1 h = {}" using assms(2,5,7) by (auto simp: kids_def split: if_splits)
  have r: "(refs1(d := refs1 d + 1))(h := refs0 h) = refs0(d := refs0 d + 1)" using dh assms(3) by (auto simp: fun_eq_iff)
  have "A0 d = Some z" using here.hyps(1) dh assms(2) by simp
  then have "grown A0 refs0 0 A0 (refs0(d := refs0 d + 1)) d" using here.hyps(2) by (rule grown.here)
  moreover have "A1 h = Some x" "(refs1(d := refs1 d + 1)) h = 1" using assms(2,3) dh by simp_all
  ultimately show ?case unfolding A r using dh k by blast
next
  case (new k A refs p n z)
  note IH = new.IH
  have nh: "n \<noteq> h" using IH new.hyps(2) by auto
  have z: "(A(n \<mapsto> z)) h = Some x" using IH nh by simp
  have k': "kids (A(n \<mapsto> z)) h = {}" using IH new.hyps(4) by (auto simp: kids_def split: if_splits)
  have r: "(refs(p := refs p - 1, n := 1)) h = 1" using IH nh by auto
  have kn: "kids (A(h := None)) n = {}" using new.hyps(3) by (auto simp: kids_def split: if_splits)
  have "grown A0 refs0 (Suc k) ((A(h := None))(n \<mapsto> z)) ((refs(h := refs0 h))(p := (refs(h := refs0 h)) p - 1, n := 1)) n"
  proof (rule grown.new [OF _ _ kn new.hyps(4)])
    show "grown A0 refs0 k (A(h := None)) (refs(h := refs0 h)) p" using IH by blast
    show "(A(h := None)) n = None" using new.hyps(2) by simp
  qed
  moreover have "(A(h := None))(n \<mapsto> z) = (A(n \<mapsto> z))(h := None)" using nh by auto
  moreover have "(refs(h := refs0 h))(p := (refs(h := refs0 h)) p - 1, n := 1) = (refs(p := refs p - 1, n := 1))(h := refs0 h)"
    using nh IH by (auto simp: fun_eq_iff)
  ultimately show ?case using z k' r nh by (simp only:) simp
qed

lemma sysctl_check_entries: "sysctl_check_table es = 0 \<longleftrightarrow> (\<forall>e \<in> set es. check_entry e)"
  by (induction es) (auto simp: Let_def EINVAL_def)

lemma check_not_dir: "check_entry e \<Longrightarrow> \<not> S_ISDIR (ct_mode e)"
proof
  assume c: "check_entry e" "S_ISDIR (ct_mode e)"
  have "and (or S_IRUGO S_IWUGO) S_IFMT = 0" by (simp add: S_IRUGO_def S_IWUGO_def mode_defs)
  then have "and (ct_mode e) S_IFMT = 0"
    using c(1) unfolding check_entry_def by (metis and.assoc bit.conj_zero_right)
  then show False using c(2) by (simp add: S_ISDIR_def S_IFDIR_def)
qed

text \<open>A header that is in no directory changes no look-up.\<close>

lemma free_header_same:
  assumes i: "sys_inv r s" "sys_inv r' s'" and h: "s h = None" and a: "abs_store s' = (abs_store s)(h \<mapsto> core x)" and x: "h_parent x = None"
  shows "keeps s' s" and "d \<noteq> h \<Longrightarrow> s' d \<noteq> None \<Longrightarrow> find_entry s' d n = find_entry s d n"
proof -
  have same: "abs_store s c = abs_store s' c" if "c \<noteq> h" for c using that by (simp add: a)
  have ph: "h_parent z = None" if "s' h = Some z" for z
  proof -
    have "abs_store s' h = Some (core z)" using that by (simp add: abs_store_def)
    then have "core z = core x" by (simp add: a)
    then show ?thesis using core_simps(2) [of z] core_simps(2) [of x] x by simp
  qed
  have "\<exists>z'. s c = Some z' \<and> core z' = core z" if z: "s' c = Some z" "h_parent z \<noteq> None" for c z
  proof -
    have "c \<noteq> h" using z ph [of z] by auto
    then have "abs_store s c = abs_store s' c" by (rule same)
    also have "\<dots> = Some (core z)" using z(1) by (simp add: abs_store_def)
    finally show ?thesis unfolding abs_Some by metis
  qed
  then show "keeps s' s" unfolding keeps_def by blast
  show "find_entry s' d n = find_entry s d n" if d: "d \<noteq> h" "s' d \<noteq> None"
  proof (rule find_entry_abs [OF i(2,1) d(2)])
    show "s d \<noteq> None" using same [OF d(1)] d(2) by (metis abs_simps(4))
    have "entries ((abs_store s)(h \<mapsto> core x)) d = entries (abs_store s) d"
      using h x unfolding entries_def by (auto simp del: abs_simps simp: abs_store_def split: if_splits)
    then show e: "entries s' d = entries s d" using abs_simps(2) [of s'] abs_simps(2) [of s] unfolding a by simp
    show "ent_name s' e = ent_name s e" if "e \<in> entries s' d" for e
    proof -
      have "fst e \<noteq> h" using that h unfolding e by (auto simp: entries_def)
      then have "ent_name ((abs_store s)(h \<mapsto> core x)) e = ent_name (abs_store s) e" by (cases e) (simp add: ent_name_def)
      then show ?thesis using ent_name_abs [of s] ent_name_abs [of s'] unfolding a by simp
    qed
  qed
qed

lemma path_file_free:
  assumes i: "sys_inv r s" "sys_inv r' s'" and h: "s h = None" and a: "abs_store s' = (abs_store s)(h \<mapsto> core x)" and x: "h_parent x = None"
  shows "s d \<noteq> None \<Longrightarrow> path_file s' d ns \<Longrightarrow> path_file s d ns"
proof (induction ns arbitrary: d)
  case (Cons n ns)
  have dh: "d \<noteq> h" using h Cons.prems(1) by auto
  have d': "s' d \<noteq> None"
  proof -
    have "abs_store s' d = abs_store s d" using dh by (simp add: a)
    then show ?thesis using Cons.prems(1) by (metis abs_simps(4))
  qed
  have e: "find_entry s' d n = find_entry s d n" by (rule free_header_same(2) [OF i h a x dh d'])
  obtain y where y: "s d = Some y" using Cons.prems(1) by blast
  have t: "s c \<noteq> None \<and> h_table (hdr s' c) = h_table (hdr s c)" if f: "find_entry s d n = Some (c, j)" for c j
  proof -
    obtain z where z: "s c = Some z" using f find_entry_iff [OF i(1) y] by (auto simp: entries_def)
    then have "c \<noteq> h" using h by auto
    then have "abs_store s' c = Some (core z)" using z unfolding a by (simp add: abs_store_def)
    then obtain z' where z': "s' c = Some z'" "core z' = core z" using abs_Some [of s' c] by metis
    then show ?thesis using z core_simps(1) [of z] core_simps(1) [of z'] by simp
  qed
  show ?case
  proof (cases "find_entry s d n")
    case None
    then show ?thesis using Cons.prems(2) e by (simp add: find_subdir_def)
  next
    case (Some p)
    obtain c j where p: "p = (c, j)" by (cases p)
    show ?thesis using Cons.prems(2) Cons.IH [of c] t [of c j] Some e p by (simp add: find_subdir_def split: if_splits)
  qed
qed simp

text \<open>A name twice in the table, or a name that the directory of the path has already.\<close>

definition taken :: "ctl_store \<Rightarrow> string \<Rightarrow> ctl_table list \<Rightarrow> bool" where
  "taken s path table \<longleftrightarrow> \<not> distinct (map ct_name table)
     \<or> (\<exists>d. sys_walk s sys_root (path_parts path) = Some d \<and> (\<exists>e \<in> set table. find_entry s d (ct_name e) \<noteq> None))"

lemma register_table_result:
  assumes inv: "sys_inv refs0 s" and live: "live (abs_store s) refs0" and nm: "no_mounts s" and lib: "rb_lib_ok L" and kz: "alloc_ok kzalloc"
    and fuel: "length (path_parts path) + 1 < fuel"
  shows "case register_table L kzalloc fuel path False table s of
      Inl f \<Rightarrow> f = BadFree \<and> sysctl_check_table table = 0 \<and> taken s path table
    | Inr (None, s') \<Rightarrow> restored (abs_store s) refs0 s'
        \<and> (kzalloc s = None \<or> sysctl_check_table table \<noteq> 0 \<or> sys_walk s sys_root (path_parts path) = None
             \<and> (alloc_fails kzalloc s (length (path_parts path) + 1) \<or> path_file s sys_root (path_parts path)))
    | Inr (Some h, s') \<Rightarrow> reached (abs_store s) refs0 (length (path_parts path) + 1) h s' \<and> s h = None \<and> abs_store s \<subseteq>\<^sub>m abs_store s'
        \<and> (\<forall>e \<in> set table. check_entry e) \<and> (\<exists>z. s' h = Some z \<and> h_table z = table)
        \<and> (\<exists>d. sys_walk s' sys_root (path_parts path) = Some d \<and> (\<forall>i < length table. find_entry s' d (ct_name (table ! i)) = Some (h, i)))"
proof (cases "kzalloc s")
  case None
  then show ?thesis using inv by (simp add: register_table_def restored_def)
next
  case (Some h)
  have h: "s h = None" using kz Some by (simp add: alloc_ok_def)
  define x where "x = init_header False table"
  have x: "h_table x = table" "h_parent x = None" "\<not> h_mount x" by (simp_all add: x_def init_header_def)
  show ?thesis
  proof (cases "sysctl_check_table table = 0")
    case False
    have "s(h := None) = s" using h by auto
    then show ?thesis using False Some inv by (simp add: register_table_def restored_def Let_def)
  next
    case True
    then have chk: "\<forall>e \<in> set table. check_entry e" by (simp add: sysctl_check_entries)
    define s1 where "s1 = s(h \<mapsto> x)"
    define A0 where "A0 = abs_store s"
    define A1 where "A1 = A0(h \<mapsto> core x)"
    define refs1 where "refs1 = refs0(h := 1)"
    have a1: "abs_store s1 = A1" by (simp add: s1_def A1_def A0_def)
    have i1: "sys_inv refs1 s1" unfolding s1_def x_def refs1_def
      by (rule alloc_header [OF inv h]) (use chk check_not_dir in blast)
    have k0: "kids A0 h = {}" using kids_none [OF inv h] by (simp add: A0_def)
    have A0h: "A0 h = None" using h by (simp add: A0_def)
    have kids1: "kids A1 q = kids A0 q" for q using A0h x(2) by (auto simp: A1_def kids_def)
    have live1: "live A1 refs1"
      using live unfolding live_def kids1 A0_def [symmetric] by (auto simp: A1_def refs1_def)
    have root: "h \<noteq> sys_root" using inv h by (auto simp: sys_inv_def shape_ok_def abs_Some)
    obtain rt where rt: "A1 sys_root = Some rt" using inv root by (auto simp: A1_def A0_def sys_inv_def shape_ok_def)
    define s1' where "s1' = upd_hdr sys_root (\<lambda>x. x\<lparr>h_nreg := h_nreg x + 1\<rparr>) s1"
    have "s1 sys_root \<noteq> None" using rt abs_simps(4) [of s1 sys_root] by (simp add: a1)
    then have s1': "sys_inv (refs1(sys_root := refs1 sys_root + 1)) s1'" "abs_store s1' = A1"
      using nreg_add [OF i1, of sys_root 1] a1 by (simp_all add: s1'_def)
    have nm1: "no_mounts s1'"
    proof -
      have "\<not> is_empty_dir x" using chk by (cases table) (auto simp: is_empty_dir_def x(1) check_entry_def)
      then have "no_mounts A1" using nm no_mounts_abs [of s] by (auto simp: A1_def A0_def no_mounts_def)
      then show ?thesis using no_mounts_abs [of s1'] by (simp add: s1'(2))
    qed
    have G: "reached A1 refs1 0 sys_root s1'"
    proof -
      have "grown A1 refs1 0 A1 (refs1(sys_root := refs1 sys_root + 1)) sys_root" by (rule grown.here) (simp_all add: rt)
      then show ?thesis unfolding reached_def s1'(2) using s1'(1) nm1 by blast
    qed
    have unf: "register_table L kzalloc fuel path False table s =
        (case register_path L kzalloc fuel sys_root path s1' of
           Inl f \<Rightarrow> Inl f
         | Inr (Inl _, s) \<Rightarrow> Inr (None, s(h := None))
         | Inr (Inr dir, s) \<Rightarrow>
             (case insert_header L fuel dir h s of
                Inl f \<Rightarrow> Inl f
              | Inr (err, s) \<Rightarrow>
                  (case drop_sysctl_table L fuel dir s of
                     Inl f \<Rightarrow> Inl f
                   | Inr s \<Rightarrow> if err \<noteq> 0 then Inr (None, s(h := None)) else Inr (Some h, s))))"
      using True by (simp add: register_table_def Some Let_def x_def s1_def s1'_def)
    have pf: "0 + length (path_parts path) < fuel" using fuel by simp
    show ?thesis using register_path_result [OF live1 lib kz G pf]
    proof
      assume "\<exists>err s'. register_path L kzalloc fuel sys_root path s1' = Inr (Inl err, s') \<and> restored A1 refs1 s'
        \<and> sys_walk s1' sys_root (path_parts path) = None
        \<and> (alloc_fails kzalloc A1 (0 + length (path_parts path)) \<or> path_file s1' sys_root (path_parts path))"
      then obtain err s2 where s2: "register_path L kzalloc fuel sys_root path s1' = Inr (Inl err, s2)" "sys_inv refs1 s2" "abs_store s2 = A1"
          "sys_walk s1' sys_root (path_parts path) = None"
          "alloc_fails kzalloc A1 (length (path_parts path)) \<or> path_file s1' sys_root (path_parts path)"
        by (auto simp: restored_def)
      obtain x2 where x2: "s2 h = Some x2" "core x2 = core x"
      proof -
        have "abs_store s2 h = Some (core x)" by (simp add: s2(3) A1_def)
        then show thesis using that by (auto simp: abs_Some)
      qed
      have "h_parent x2 = None" using core_simps(2) [of x2] x(2) by (simp add: x2(2))
      moreover have "kids s2 h = {}" using k0 kids1 [of h] s2(3) abs_simps(1) [of s2] by simp
      ultimately have "sys_inv refs1 (s2(h := None))" using free_header [OF s2(2) x2(1) _ root] by blast
      then have "sys_inv refs0 (s2(h := None))" by (rule sys_inv_cong) (auto simp: refs1_def split: if_splits)
      moreover have "abs_store (s2(h := None)) = A0" using A0h by (auto simp: s2(3) A1_def)
      moreover have "sys_walk s sys_root (path_parts path) = None"
      proof (rule ccontr)
        assume "sys_walk s sys_root (path_parts path) \<noteq> None"
        then obtain d where d: "sys_walk s sys_root (path_parts path) = Some d" by blast
        have "abs_store s \<subseteq>\<^sub>m abs_store s1'" using A0h unfolding s1'(2) by (auto simp: A1_def A0_def map_le_def)
        then have "sys_walk s1' sys_root (path_parts path) = Some d"
          using sys_walk_keeps [OF inv s1'(1) keeps_le] root_there [OF inv] root_there [OF s1'(1)] d by blast
        then show False using s2(4) by simp
      qed
      moreover have "alloc_fails kzalloc s (length (path_parts path) + 1) \<or> path_file s sys_root (path_parts path)"
        using s2(5)
      proof
        assume "alloc_fails kzalloc A1 (length (path_parts path))"
        then have "alloc_fails kzalloc A0 (Suc (length (path_parts path)))" unfolding A1_def by (rule alloc_fails_add)
        moreover have "dom A0 = dom s" by (auto simp: A0_def abs_store_def)
        ultimately show ?thesis by (simp add: alloc_fails_def)
      next
        assume "path_file s1' sys_root (path_parts path)"
        then show ?thesis using path_file_free [OF inv s1'(1) h _ x(2)] s1'(2) root_there [OF inv] by (simp add: A1_def A0_def)
      qed
      ultimately show ?thesis using unf s2(1) by (simp add: restored_def A0_def)
    next
      assume "\<exists>d s'. register_path L kzalloc fuel sys_root path s1' = Inr (Inr d, s') \<and> reached A1 refs1 (0 + length (path_parts path)) d s'
          \<and> sys_walk s' sys_root (path_parts path) = Some d \<and> abs_store s1' \<subseteq>\<^sub>m abs_store s'"
      then obtain d s2 where s2: "register_path L kzalloc fuel sys_root path s1' = Inr (Inr d, s2)" "reached A1 refs1 (length (path_parts path)) d s2"
        "sys_walk s2 sys_root (path_parts path) = Some d" "A1 \<subseteq>\<^sub>m abs_store s2" by (auto simp: s1'(2))
      obtain j refs where g: "j \<le> length (path_parts path)" "grown A1 refs1 j (abs_store s2) refs d" "sys_inv refs s2" "no_mounts s2"
        using s2(2) unfolding reached_def by blast
      have U: "abs_store s2 h = Some (core x)" "kids (abs_store s2) h = {}" "refs h = 1" "d \<noteq> h"
        "grown A0 refs0 j ((abs_store s2)(h := None)) (refs(h := refs0 h)) d"
        using grown_unframe [OF g(2) A1_def refs1_def A0h _ root k0] x(2) by simp_all
      obtain x2 where x2: "s2 h = Some x2" "core x2 = core x" using U(1) by (auto simp: abs_Some)
      have x2': "h_parent x2 = None" "h_table x2 = table" "\<not> h_mount x2" using core_simps(1,2,4) [of x2] x by (simp_all add: x2(2))
      obtain y where y: "s2 d = Some y" using grown_last [OF g(2)] by (auto simp: abs_Some)
      have ne: "\<not> is_empty_dir y" using g(4) y by (simp add: no_mounts_def)
      have kh: "kids s2 h = {}" using U(2) by simp
      note I = insert_header_result [OF g(3) lib x2(1) x2'(1) kh x2'(3) root y U(4) ne, of fuel, unfolded x2'(2)]
      show ?thesis
      proof (cases "new_names s2 d table")
        case False
        then have "register_table L kzalloc fuel path False table s = Inl BadFree" using I unf s2(1) by simp
        moreover have "taken s path table"
        proof (cases "distinct (map ct_name table)")
          case False
          then show ?thesis by (simp add: taken_def)
        next
          case True
          then obtain e where e: "e \<in> set table" "find_entry s2 d (ct_name e) \<noteq> None" using \<open>\<not> new_names s2 d table\<close> by (auto simp: new_names_def)
          then obtain c i where ci: "(c, i) \<in> entries s2 d" using find_entry_iff [OF g(3) y] by fast
          then have "c \<in> kids (abs_store s2) d" by (auto simp: entries_def kids_def abs_Some)
          then have A: "abs_store s2 = (abs_store s)(h \<mapsto> core x)" using grown_kids [OF g(2)] by (auto simp: A1_def A0_def)
          note free = free_header_same [OF inv g(3) h A x(2)]
          have w: "sys_walk s sys_root (path_parts path) = Some d"
            using sys_walk_keeps [OF g(3) inv free(1)] root_there [OF g(3)] root_there [OF inv] s2(3) by blast
          moreover have "find_entry s d (ct_name e) \<noteq> None" using e(2) free(2) [OF U(4)] y by simp
          ultimately show ?thesis using e(1) by (auto simp: taken_def)
        qed
        ultimately show ?thesis using \<open>sysctl_check_table table = 0\<close> by simp
      next
        case True
        then obtain s3 where s3: "insert_header L fuel d h s2 = Inr (0, s3)" "sys_inv refs s3"
          "abs_store s3 = (abs_store s2)(h \<mapsto> (core x2)\<lparr>h_parent := Some d\<rparr>)" using I by auto
        define x' where "x' = (core x2)\<lparr>h_parent := Some d\<rparr>"
        have x': "h_parent x' = Some d" "h_table x' = table" using x2'(2) by (simp_all add: x'_def)
        have "d \<in> dom (abs_store s3)" using y U(4) by (simp add: s3(3) domI)
        then obtain y3 where y3: "s3 d = Some y3" by auto
        have hk: "h \<in> kids (abs_store s3) d" by (simp add: s3(3) kids_def)
        then have kd: "kids s3 d \<noteq> {}" by auto
        have rd: "1 \<le> refs d" using grown_live [OF g(2) live1] kids_finite [OF g(3)] by simp
        have f0: "0 < fuel" using fuel by simp
        obtain s4 where s4: "drop_sysctl_table L fuel d s3 = Inr s4" "sys_inv (refs(d := refs d - 1)) s4" "abs_store s4 = abs_store s3"
          using drop_with_kids [OF s3(2) y3 kd rd f0] by blast
        have reg: "register_table L kzalloc fuel path False table s = Inr (Some h, s4)" using unf s2(1) s3(1) s4(1) by simp
        have a4: "abs_store s4 = (abs_store s2)(h \<mapsto> x')" by (simp add: s4(3) s3(3) x'_def)
        have kn: "kids ((abs_store s2)(h := None)) h = {}" using U(2) kids_remove [of "abs_store s2" h h] by blast
        have "grown A0 refs0 (Suc j) (((abs_store s2)(h := None))(h \<mapsto> x')) ((refs(h := refs0 h))(d := (refs(h := refs0 h)) d - 1, h := 1)) h"
          by (rule grown.new [OF U(5) _ kn x'(1)]) simp
        moreover have "((abs_store s2)(h := None))(h \<mapsto> x') = abs_store s4" unfolding a4 by simp
        moreover have "(refs(h := refs0 h))(d := (refs(h := refs0 h)) d - 1, h := 1) = refs(d := refs d - 1)"
          using U(3,4) by (auto simp: fun_eq_iff)
        ultimately have g4: "grown A0 refs0 (Suc j) (abs_store s4) (refs(d := refs d - 1)) h" by (simp only:)
        have nm4: "no_mounts s4"
        proof -
          have "\<not> is_empty_dir x'" using chk by (cases table) (auto simp: is_empty_dir_def x'(2) check_entry_def)
          then have "no_mounts ((abs_store s2)(h \<mapsto> x'))" using g(4) no_mounts_abs [of s2] by (auto simp: no_mounts_def)
          then show ?thesis using no_mounts_abs [of s4] by (simp only: a4)
        qed
        have R: "reached A0 refs0 (length (path_parts path) + 1) h s4"
          unfolding reached_def using g4 s4(2) nm4 g(1) by (intro exI [of _ "Suc j"] exI [of _ "refs(d := refs d - 1)"]) simp
        have le0: "A0 \<subseteq>\<^sub>m abs_store s4"
        proof -
          have "A0 \<subseteq>\<^sub>m A1" using A0h by (auto simp: A1_def map_le_def)
          moreover have "(abs_store s2)(h := None) \<subseteq>\<^sub>m abs_store s4" by (auto simp: a4 map_le_def)
          ultimately show ?thesis using s2(4) A0h by (auto simp: map_le_def A1_def a4)
        qed
        have "keeps s2 s4"
        proof -
          have "\<exists>z'. s4 c = Some z' \<and> core z' = core z" if z: "s2 c = Some z" "h_parent z \<noteq> None" for c z
          proof -
            have "c \<noteq> h" using z x2(1) x2'(1) by auto
            then have "abs_store s4 c = abs_store s2 c" by (simp add: a4)
            then have "abs_store s4 c = Some (core z)" using z(1) by (simp add: abs_store_def)
            then show ?thesis by (auto simp: abs_Some)
          qed
          then show ?thesis unfolding keeps_def by blast
        qed
        moreover have "s2 sys_root \<noteq> None" "s4 sys_root \<noteq> None"
          using root_there [OF g(3)] root_there [OF s4(2)] by blast+
        ultimately have w: "sys_walk s4 sys_root (path_parts path) = Some d"
          using sys_walk_keeps [OF g(3) s4(2)] s2(3) by blast
        have "abs_store s4 d \<noteq> None" "abs_store s4 h = Some x'" using y U(4) by (simp_all add: a4)
        then obtain y4 x4 where y4: "s4 d = Some y4" and x4: "s4 h = Some x4" "core x4 = x'" by (auto simp: abs_Some)
        have x4': "h_parent x4 = Some d" "h_table x4 = table" using core_simps(1,2) [of x4] x' by (simp_all add: x4(2))
        have "\<forall>i < length table. find_entry s4 d (ct_name (table ! i)) = Some (h, i)"
          using x4(1) x4' unfolding find_entry_iff [OF s4(2) y4] by (simp add: entries_def ent_name_def)
        then show ?thesis using reg R le0 h w chk x4(1) x4'(2) unfolding A0_def by simp
      qed
    qed
  qed
qed

end
