(* ===== verification/SysctlTop.thy ===== *)
theory SysctlTop imports SysctlPath begin

text \<open>
  What \<open>register_sysctl\<close>, \<open>register_sysctl_paths\<close> and \<open>unregister_sysctl_table\<close> promise.
\<close>

section \<open>One table\<close>

text \<open>The store between two calls, \<open>refs\<close> counting the tables that are registered and the roots.\<close>

definition sys_ok :: "(nat \<Rightarrow> int) \<Rightarrow> ctl_store \<Rightarrow> bool" where
  "sys_ok refs s \<longleftrightarrow> sys_inv refs s \<and> live (abs_store s) refs \<and> no_mounts s"

lemma reached_ok:
  assumes "reached (abs_store s) refs k h s'" "sys_ok refs s"
  shows "\<exists>j refs'. j \<le> k \<and> grown (abs_store s) refs j (abs_store s') refs' h \<and> sys_ok refs' s'"
proof -
  obtain j refs' where g: "j \<le> k" "grown (abs_store s) refs j (abs_store s') refs' h" "sys_inv refs' s'" "no_mounts s'"
    using assms(1) unfolding reached_def by blast
  have "live (abs_store s) refs" using assms(2) by (simp add: sys_ok_def)
  then have "live (abs_store s') refs'" using grown_live [OF g(2)] kids_finite [OF g(3)] by simp
  then show ?thesis using g unfolding sys_ok_def by blast
qed

lemma restored_ok: "restored (abs_store s) refs s' \<Longrightarrow> sys_ok refs s \<Longrightarrow> sys_ok refs s'"
  using no_mounts_abs [of s] no_mounts_abs [of s'] unfolding restored_def sys_ok_def by simp

text \<open>\<open>found s path e\<close>: the file \<open>e\<close> is what a look-up of its name in the directory \<open>path\<close> gives.\<close>

definition found :: "ctl_store \<Rightarrow> string \<Rightarrow> ctl_table \<Rightarrow> bool" where
  "found s path e \<longleftrightarrow> (case sys_walk s sys_root (path_parts path) of
     None \<Rightarrow> False
   | Some d \<Rightarrow> (case find_entry s d (ct_name e) of None \<Rightarrow> False | Some (h, i) \<Rightarrow> s h \<noteq> None \<and> h_table (hdr s h) ! i = e))"

lemma sys_walk_there: "sys_inv r s \<Longrightarrow> s d \<noteq> None \<Longrightarrow> sys_walk s d ns = Some d' \<Longrightarrow> s d' \<noteq> None"
proof (induction ns arbitrary: d)
  case (Cons n ns)
  then obtain d1 y where d1: "find_subdir s d n = Inr d1" "sys_walk s d1 ns = Some d'" "s d = Some y" by (auto split: sum.splits)
  then show ?case using Cons.IH [of d1] Cons.prems(1) find_subdir_iff [OF Cons.prems(1) d1(3)] by auto
qed simp

lemma find_entry_mono:
  assumes i: "sys_inv r s" "sys_inv r' s'" and le: "abs_store s \<subseteq>\<^sub>m abs_store s'" and d: "s d \<noteq> None" "find_entry s d n = Some (h, j)"
  obtains z z' where "find_entry s' d n = Some (h, j)" "s h = Some z" "s' h = Some z'" "h_table z' = h_table z"
proof -
  obtain y where y: "s d = Some y" using d(1) by blast
  obtain y' where y': "s' d = Some y'" using abs_le_Some [OF le y] by blast
  have e: "(h, j) \<in> entries s d" "ent_name s (h, j) = n" using d(2) find_entry_iff [OF i(1) y] by auto
  then obtain z where z: "s h = Some z" "h_parent z = Some d" "j < length (h_table z)" by (auto simp: entries_def)
  obtain z' where z': "s' h = Some z'" "core z' = core z" using abs_le_Some [OF le z(1)] by blast
  have t: "h_parent z' = h_parent z" "h_table z' = h_table z" using z'(2) core_simps(1,2) by metis+
  have "find_entry s' d n = Some (h, j)"
    unfolding find_entry_iff [OF i(2) y'] using z z'(1) t e(2) by (simp add: entries_def ent_name_def)
  then show thesis using that z(1) z'(1) t(2) by blast
qed

lemma sys_walk_mono:
  assumes i: "sys_inv r s" "sys_inv r' s'" and le: "abs_store s \<subseteq>\<^sub>m abs_store s'" and w: "sys_walk s sys_root ns = Some d"
  shows "sys_walk s' sys_root ns = Some d" "s d \<noteq> None"
proof -
  show "sys_walk s' sys_root ns = Some d" using sys_walk_keeps [OF i keeps_le [OF le]] root_there [OF i(1)] root_there [OF i(2)] w by blast
  show "s d \<noteq> None" by (rule sys_walk_there [OF i(1) root_there [OF i(1)] w])
qed

lemma found_mono:
  assumes i: "sys_inv r s" "sys_inv r' s'" and le: "abs_store s \<subseteq>\<^sub>m abs_store s'" and f: "found s path e"
  shows "found s' path e"
proof -
  obtain d h j where d: "sys_walk s sys_root (path_parts path) = Some d" "find_entry s d (ct_name e) = Some (h, j)" "h_table (hdr s h) ! j = e"
    using f unfolding found_def by (auto split: option.splits)
  note W = sys_walk_mono [OF i le d(1)]
  show ?thesis
    by (rule find_entry_mono [OF i le W(2) d(2)]) (use W(1) d(3) in \<open>simp add: found_def\<close>)
qed

lemma register_table_ok:
  assumes ok: "sys_ok refs s" and lib: "rb_lib_ok L" and kz: "alloc_ok kzalloc" and fuel: "length (path_parts path) + 1 < fuel"
  shows "case register_table L kzalloc fuel path False table s of
      Inl f \<Rightarrow> f = BadFree \<and> sysctl_check_table table = 0 \<and> taken s path table
    | Inr (None, s') \<Rightarrow> restored (abs_store s) refs s'
        \<and> (kzalloc s = None \<or> sysctl_check_table table \<noteq> 0 \<or> sys_walk s sys_root (path_parts path) = None
             \<and> (alloc_fails kzalloc s (length (path_parts path) + 1) \<or> path_file s sys_root (path_parts path)))
    | Inr (Some h, s') \<Rightarrow> (\<forall>e \<in> set table. check_entry e \<and> found s' path e) \<and> abs_store s \<subseteq>\<^sub>m abs_store s'
        \<and> (\<exists>k refs'. k < fuel \<and> grown (abs_store s) refs k (abs_store s') refs' h \<and> sys_ok refs' s')"
proof -
  have inv: "sys_inv refs s" "live (abs_store s) refs" "no_mounts s" using ok by (simp_all add: sys_ok_def)
  note R = register_table_result [OF inv lib kz fuel, of table]
  show ?thesis
  proof (cases "register_table L kzalloc fuel path False table s")
    case (Inl f)
    then show ?thesis using R by simp
  next
    case (Inr r)
    show ?thesis
    proof (cases r)
      case (Pair res s')
      show ?thesis
      proof (cases res)
        case None
        then show ?thesis using R Inr Pair by simp
      next
        case (Some h)
        have eq: "register_table L kzalloc fuel path False table s = Inr (Some h, s')" using Inr Pair Some by simp
        then have G: "reached (abs_store s) refs (length (path_parts path) + 1) h s'" "abs_store s \<subseteq>\<^sub>m abs_store s'"
          "\<forall>e \<in> set table. check_entry e" "\<exists>z. s' h = Some z \<and> h_table z = table"
          "\<exists>d. sys_walk s' sys_root (path_parts path) = Some d \<and> (\<forall>i < length table. find_entry s' d (ct_name (table ! i)) = Some (h, i))"
          using R by simp_all
        obtain k refs' where k: "k \<le> length (path_parts path) + 1" "grown (abs_store s) refs k (abs_store s') refs' h" "sys_ok refs' s'"
          using reached_ok [OF G(1) ok] by blast
        obtain z d where z: "s' h = Some z" "h_table z = table" and d: "sys_walk s' sys_root (path_parts path) = Some d"
          "\<forall>i < length table. find_entry s' d (ct_name (table ! i)) = Some (h, i)" using G(4,5) by blast
        have "found s' path e" if e: "e \<in> set table" for e
        proof -
          obtain i where i: "i < length table" "e = table ! i" using e unfolding in_set_conv_nth by blast
          then have "find_entry s' d (ct_name e) = Some (h, i)" "h_table z ! i = e" using d(2) unfolding i(2) z(2) by blast+
          then show ?thesis using z(1) d(1) by (simp add: found_def)
        qed
        moreover have "k < fuel" using k(1) fuel by simp
        ultimately show ?thesis using k(2,3) G(2,3) unfolding eq sum.case prod.case option.case by (intro conjI ballI exI [of _ k] exI [of _ refs']) (assumption | blast)+
      qed
    qed
  qed
qed


section \<open>Several tables\<close>

text \<open>The store after registrations that have not been taken back, the latest first.\<close>

inductive stacked :: "ctl_store \<Rightarrow> (nat \<Rightarrow> int) \<Rightarrow> nat \<Rightarrow> nat list \<Rightarrow> ctl_store \<Rightarrow> (nat \<Rightarrow> int) \<Rightarrow> bool" for A0 refs0 K where
  base: "stacked A0 refs0 K [] A0 refs0"
| push: "stacked A0 refs0 K hs A refs \<Longrightarrow> live A refs \<Longrightarrow> grown A refs k A' refs' h \<Longrightarrow> k < K \<Longrightarrow> stacked A0 refs0 K (h # hs) A' refs'"

lemma unregister_all_stacked:
  assumes "stacked A0 refs0 fuel hs A refs" and lib: "rb_lib_ok L"
  shows "sys_inv refs s \<Longrightarrow> abs_store s = A \<Longrightarrow> \<exists>s'. unregister_all L fuel hs s = Inr s' \<and> restored A0 refs0 s'"
  using assms(1)
proof (induction arbitrary: s rule: stacked.induct)
  case base
  then show ?case by (simp add: restored_def)
next
  case (push hs A refs k A' refs' h)
  obtain s1 where "drop_sysctl_table L fuel h s = Inr s1" "sys_inv refs s1" "abs_store s1 = A"
    using grown_drop [OF push.hyps(3) lib push.hyps(2) push.prems(1) _ push.prems(2) push.hyps(4)] by blast
  then show ?case using push.IH [of s1] by (simp add: unregister_table_def)
qed

definition holding :: "ctl_store \<Rightarrow> (nat \<Rightarrow> int) \<Rightarrow> nat \<Rightarrow> nat list \<Rightarrow> ctl_store \<Rightarrow> bool" where
  "holding A0 refs0 K subs s \<longleftrightarrow> (\<exists>refs. stacked A0 refs0 K (rev subs) (abs_store s) refs \<and> sys_ok refs s)"

lemma holding_unregister:
  assumes "holding A0 refs0 fuel subs s" "rb_lib_ok L"
  shows "\<exists>s'. unregister_all L fuel (rev subs) s = Inr s' \<and> restored A0 refs0 s'"
  using assms unregister_all_stacked unfolding holding_def sys_ok_def by blast

lemma register_holding:
  assumes H: "holding A0 refs0 fuel subs s" and lib: "rb_lib_ok L" and kz: "alloc_ok kzalloc" and fuel: "length (path_parts path) + 1 < fuel"
  obtains "register_table L kzalloc fuel path False table s = Inl BadFree" "sysctl_check_table table = 0" "taken s path table"
  | s' where "register_table L kzalloc fuel path False table s = Inr (None, s')" "holding A0 refs0 fuel subs s'" "abs_store s' = abs_store s"
  | h s' where "register_table L kzalloc fuel path False table s = Inr (Some h, s')" "holding A0 refs0 fuel (subs @ [h]) s'"
      "\<forall>e \<in> set table. check_entry e \<and> found s' path e" "abs_store s \<subseteq>\<^sub>m abs_store s'"
proof -
  obtain refs where st: "stacked A0 refs0 fuel (rev subs) (abs_store s) refs" and ok: "sys_ok refs s" using H unfolding holding_def by blast
  note R = register_table_ok [OF ok lib kz fuel, of table]
  show thesis
  proof (cases "register_table L kzalloc fuel path False table s")
    case (Inl f)
    then show thesis using R that(1) by simp
  next
    case (Inr r)
    obtain res s' where r: "r = (res, s')" by (cases r)
    show thesis
    proof (cases res)
      case None
      then have eq: "register_table L kzalloc fuel path False table s = Inr (None, s')" using Inr r by simp
      then have "restored (abs_store s) refs s'" using R by simp
      then have "holding A0 refs0 fuel subs s'" "abs_store s' = abs_store s"
        using restored_ok [OF _ ok] st unfolding holding_def restored_def by auto
      then show thesis using that(2) eq by blast
    next
      case (Some h)
      then have eq: "register_table L kzalloc fuel path False table s = Inr (Some h, s')" using Inr r by simp
      then obtain k refs' where k: "k < fuel" "grown (abs_store s) refs k (abs_store s') refs' h" "sys_ok refs' s'"
        and f: "\<forall>e \<in> set table. check_entry e \<and> found s' path e" "abs_store s \<subseteq>\<^sub>m abs_store s'" using R by auto
      have "live (abs_store s) refs" using ok by (simp add: sys_ok_def)
      then have "stacked A0 refs0 fuel (rev (subs @ [h])) (abs_store s') refs'" using stacked.push [OF st _ k(2,1)] by simp
      then have "holding A0 refs0 fuel (subs @ [h]) s'" using k(3) unfolding holding_def by blast
      then show thesis using that(3) eq f by blast
    qed
  qed
qed

section \<open>Hierarchies\<close>

fun mountless :: "ctl_child \<Rightarrow> bool" and mountless_table :: "ctl_table \<Rightarrow> bool" where
  "mountless NoChild = True"
| "mountless MountPoint = False"
| "mountless (Children ts) = (\<forall>t \<in> set ts. mountless_table t)"
| "mountless_table (Ctl n m c p d l) = mountless c"

text \<open>The files of a hierarchy with the paths of their directories.\<close>

fun leaves :: "string \<Rightarrow> ctl_child \<Rightarrow> (string \<times> ctl_table) list" and leaves_dir :: "string \<Rightarrow> ctl_table \<Rightarrow> (string \<times> ctl_table) list" where
  "leaves path (Children ts) = map (Pair path) (filter (\<lambda>e. ct_child e = NoChild) ts) @ concat (map (leaves_dir path) ts)"
| "leaves path _ = []"
| "leaves_dir path (Ctl n m c p d l) = (if c = NoChild then [] else leaves (path @ n @ ''/'') c)"

text \<open>The tables that are registered for a hierarchy, in their order: the files of each directory with its path.\<close>

fun groups :: "string \<Rightarrow> ctl_child \<Rightarrow> (string \<times> ctl_table list) list" and groups_dir :: "string \<Rightarrow> ctl_table \<Rightarrow> (string \<times> ctl_table list) list" where
  "groups path (Children ts) =
     (if ts = [] \<or> (\<exists>t \<in> set ts. ct_child t = NoChild) then [(path, filter (\<lambda>e. ct_child e = NoChild) ts)] else [])
       @ concat (map (groups_dir path) ts)"
| "groups path _ = []"
| "groups_dir path (Ctl n m c p d l) = (if c = NoChild then [] else groups (path @ n @ ''/'') c)"

fun register_groups :: "sys_env \<Rightarrow> (string \<times> ctl_table list) list \<Rightarrow> nat list \<Rightarrow> ctl_store \<Rightarrow> (nat list \<times> ctl_store) option" where
  "register_groups E [] subs s = Some (subs, s)"
| "register_groups E ((path, files) # gs) subs s =
     (case register_table (e_lib E) (e_kzalloc E) (e_fuel E) path False files s of
        Inr (Some h, s) \<Rightarrow> register_groups E gs (subs @ [h]) s
      | _ \<Rightarrow> None)"

lemma register_groups_append:
  "register_groups E gs subs s = Some (subs1, s1) \<Longrightarrow> register_groups E (gs @ gs') subs s = register_groups E gs' subs1 s1"
proof (induction gs arbitrary: subs s)
  case (Cons g gs)
  obtain q fs where g: "g = (q, fs)" by (cases g)
  show ?case
  proof (cases "register_table (e_lib E) (e_kzalloc E) (e_fuel E) q False fs s")
    case (Inr r)
    obtain res s2 where "r = (res, s2)" by (cases r)
    then show ?thesis using Cons Inr by (cases res) (simp_all add: g)
  qed (use Cons.prems in \<open>simp add: g\<close>)
qed simp

text \<open>One of the tables has a name twice, or a name that is there when it is its turn.\<close>

definition clash :: "sys_env \<Rightarrow> (string \<times> ctl_table list) list \<Rightarrow> nat list \<Rightarrow> ctl_store \<Rightarrow> bool" where
  "clash E gs subs s \<longleftrightarrow> (\<exists>pre path files post subs1 s1. gs = pre @ (path, files) # post
     \<and> register_groups E pre subs s = Some (subs1, s1) \<and> taken s1 path files)"

lemma clash_left: "clash E gs subs s \<Longrightarrow> clash E (gs @ gs') subs s"
  unfolding clash_def by (metis append_Cons append_assoc)

lemma clash_right: "register_groups E gs subs s = Some (subs1, s1) \<Longrightarrow> clash E gs' subs1 s1 \<Longrightarrow> clash E (gs @ gs') subs s"
  unfolding clash_def using register_groups_append by (metis append_assoc)

lemma clash_here: "taken s path files \<Longrightarrow> clash E [(path, files)] subs s"
  unfolding clash_def by (metis append_Nil register_groups.simps(1))

lemma append_path_Some: "append_path path n = Some path' \<Longrightarrow> path' = path @ n @ ''/'' \<and> length path' < PATH_MAX"
  by (auto simp: append_path_def split: if_splits)

lemma length_path_parts: "length (path_parts name) \<le> length name"
proof (induction name rule: length_induct)
  case (1 name)
  define part where "part = takeWhile (\<lambda>c. c \<noteq> CHR ''/'') name"
  define rest where "rest = dropWhile (\<lambda>c. c \<noteq> CHR ''/'') name"
  have len: "length part + length rest = length name" unfolding part_def rest_def by (metis length_append takeWhile_dropWhile_id)
  have parts: "path_parts name = (if part = [] then [] else [part]) @ (case rest of [] \<Rightarrow> [] | _ # r \<Rightarrow> path_parts r)"
    by (subst path_parts.simps) (simp add: part_def rest_def Let_def)
  have "length (if part = [] then [] else [part]) \<le> length part" by (cases part) simp_all
  moreover have "length (case rest of [] \<Rightarrow> [] | _ # r \<Rightarrow> path_parts r) \<le> length rest"
  proof (cases rest)
    case (Cons c r)
    then have "length r < length name" using len by simp
    then show ?thesis using 1 Cons by fastforce
  qed simp
  ultimately show ?case unfolding parts using len by simp
qed

definition dirs_count :: "ctl_table list \<Rightarrow> nat" where
  "dirs_count es = sum_list (map (\<lambda>e. if ct_child e = NoChild then 0 else count_subheaders (ct_child e)) es)"

lemma count_children: "ts \<noteq> [] \<Longrightarrow> count_subheaders (Children ts) = dirs_count ts + (if \<exists>x \<in> set ts. ct_child x = NoChild then 1 else 0)"
  by (cases ts) (simp_all add: count_subheaders.simps [of "Children _"] dirs_count_def)

text \<open>What the two loops promise at each end.\<close>

definition leaf_post :: "ctl_store \<Rightarrow> (nat \<Rightarrow> int) \<Rightarrow> sys_env \<Rightarrow> nat list \<Rightarrow> ctl_store \<Rightarrow> nat \<Rightarrow> (string \<times> ctl_table) list
    \<Rightarrow> (string \<times> ctl_table list) list \<Rightarrow> fault + int \<times> nat list \<times> ctl_store \<Rightarrow> bool" where
  "leaf_post A0 refs0 E subs0 s n files gs r = (case r of
     Inl f \<Rightarrow> f = BadFree \<and> clash E gs subs0 s
   | Inr (err, subs, s') \<Rightarrow> holding A0 refs0 (e_fuel E) subs s' \<and> abs_store s \<subseteq>\<^sub>m abs_store s'
       \<and> (err = 0 \<longrightarrow> length subs = n \<and> (\<forall>(path, e) \<in> set files. found s' path e) \<and> register_groups E gs subs0 s = Some (subs, s')))"

lemma leaf_post_then:
  assumes "leaf_post A0 refs0 E subs0 s n files gs r" "\<And>subs s'. r = Inr (0, subs, s') \<Longrightarrow> holding A0 refs0 (e_fuel E) subs s' \<Longrightarrow> length subs = n \<Longrightarrow>
      leaf_post A0 refs0 E subs s' m files' gs' (f subs s')"
  shows "leaf_post A0 refs0 E subs0 s m (files @ files') (gs @ gs')
    (case r of Inl f \<Rightarrow> Inl f | Inr (err, subs, s) \<Rightarrow> if err \<noteq> 0 then Inr (err, subs, s) else f subs s)"
proof (cases r)
  case (Inl f)
  then show ?thesis using assms(1) clash_left by (simp add: leaf_post_def)
next
  case (Inr q)
  obtain err subs s1 where q: "q = (err, subs, s1)" by (cases q)
  have A: "holding A0 refs0 (e_fuel E) subs s1" "abs_store s \<subseteq>\<^sub>m abs_store s1"
    "err = 0 \<Longrightarrow> length subs = n \<and> (\<forall>(path, e) \<in> set files. found s1 path e) \<and> register_groups E gs subs0 s = Some (subs, s1)"
    using assms(1) by (simp_all add: leaf_post_def Inr q)
  show ?thesis
  proof (cases "err = 0")
    case False
    then show ?thesis using A(1,2) by (simp add: leaf_post_def Inr q)
  next
    case True
    then have B: "leaf_post A0 refs0 E subs s1 m files' gs' (f subs s1)" using assms(2) [of subs s1] A Inr q by simp
    have gs: "register_groups E gs subs0 s = Some (subs, s1)" using A(3) True by blast
    show ?thesis
    proof (cases "f subs s1")
      case (Inl g)
      then show ?thesis using B True clash_right [OF gs] by (simp add: leaf_post_def Inr q)
    next
      case f: (Inr p)
      obtain err2 subs2 s2 where p: "p = (err2, subs2, s2)" by (cases p)
      have C: "holding A0 refs0 (e_fuel E) subs2 s2" "abs_store s1 \<subseteq>\<^sub>m abs_store s2"
        "err2 = 0 \<Longrightarrow> length subs2 = m \<and> (\<forall>(path, e) \<in> set files'. found s2 path e) \<and> register_groups E gs' subs s1 = Some (subs2, s2)"
        using B by (simp_all add: leaf_post_def f p)
      obtain r1 r2 where "sys_inv r1 s1" "sys_inv r2 s2" using A(1) C(1) unfolding holding_def sys_ok_def by blast
      then have "found s2 path e" if "(path, e) \<in> set files" for path e
        using found_mono [OF _ _ C(2)] A(3) [OF True] that by blast
      then show ?thesis using C map_le_trans [OF A(2) C(2)] True by (auto simp: leaf_post_def Inr q f p register_groups_append [OF gs])
    qed
  qed
qed


definition env_fit :: "sys_env \<Rightarrow> bool" where
  "env_fit E \<longleftrightarrow> rb_lib_ok (e_lib E) \<and> alloc_ok (e_kzalloc E) \<and> PATH_MAX + 1 < e_fuel E"

lemma leaf_post_err: "err \<noteq> 0 \<Longrightarrow> holding A0 refs0 (e_fuel E) subs s \<Longrightarrow> leaf_post A0 refs0 E subs0 s n files gs (Inr (err, subs, s))"
  by (simp add: leaf_post_def)

lemma leaf_post_none: "holding A0 refs0 (e_fuel E) subs s \<Longrightarrow> leaf_post A0 refs0 E subs s (length subs) [] [] (Inr (0, subs, s))"
  by (simp add: leaf_post_def)

lemma leaf_files:
  assumes E: "env_fit E" and path: "length path < PATH_MAX" and H: "holding A0 refs0 (e_fuel E) subs s"
  shows "leaf_post A0 refs0 E subs s (length subs + 1) (map (Pair path) files) [(path, files)]
    (case register_table (e_lib E) (e_kzalloc E) (e_fuel E) path False files s of
       Inl f \<Rightarrow> Inl f | Inr (None, s) \<Rightarrow> Inr (- ENOMEM, subs, s) | Inr (Some h, s) \<Rightarrow> Inr (0, subs @ [h], s))"
proof -
  have e: "rb_lib_ok (e_lib E)" "alloc_ok (e_kzalloc E)" "length (path_parts path) + 1 < e_fuel E"
    using E path length_path_parts [of path] by (simp_all add: env_fit_def)
  show ?thesis
  proof (rule register_holding [OF H e, of files])
    assume "register_table (e_lib E) (e_kzalloc E) (e_fuel E) path False files s = Inl BadFree" "taken s path files"
    then show ?thesis by (simp add: leaf_post_def clash_here)
  next
    fix s' assume "register_table (e_lib E) (e_kzalloc E) (e_fuel E) path False files s = Inr (None, s')" "holding A0 refs0 (e_fuel E) subs s'"
      "abs_store s' = abs_store s"
    then show ?thesis by (simp add: leaf_post_def ENOMEM_def)
  next
    fix h s' assume "register_table (e_lib E) (e_kzalloc E) (e_fuel E) path False files s = Inr (Some h, s')"
      "holding A0 refs0 (e_fuel E) (subs @ [h]) s'" "\<forall>e \<in> set files. check_entry e \<and> found s' path e" "abs_store s \<subseteq>\<^sub>m abs_store s'"
    then show ?thesis by (auto simp: leaf_post_def)
  qed
qed

lemma no_files: "filter (\<lambda>e. ct_child e = NoChild) ts = [] \<longleftrightarrow> \<not> (\<exists>x \<in> set ts. ct_child x = NoChild)"
  by (simp add: filter_empty_conv)

definition leaf_ok :: "ctl_store \<Rightarrow> (nat \<Rightarrow> int) \<Rightarrow> sys_env \<Rightarrow> ctl_child \<Rightarrow> bool" where
  "leaf_ok A0 refs0 E c \<longleftrightarrow> (\<forall>path subs s. c \<noteq> NoChild \<longrightarrow> mountless c \<longrightarrow> length path < PATH_MAX \<longrightarrow> holding A0 refs0 (e_fuel E) subs s \<longrightarrow>
     leaf_post A0 refs0 E subs s (length subs + count_subheaders c) (leaves path c) (groups path c) (register_leaf E path c subs s))"

lemma dirs_result:
  "\<forall>t \<in> set es. leaf_ok A0 refs0 E (ct_child t) \<Longrightarrow> \<forall>t \<in> set es. mountless_table t \<Longrightarrow> length path < PATH_MAX \<Longrightarrow>
    holding A0 refs0 (e_fuel E) subs s \<Longrightarrow>
    leaf_post A0 refs0 E subs s (length subs + dirs_count es) (concat (map (leaves_dir path) es)) (concat (map (groups_dir path) es))
      (register_dirs E path es subs s)"
proof (induction es arbitrary: subs s)
  case Nil
  then show ?case using leaf_post_none [of A0 refs0 E subs s] by (simp add: dirs_count_def)
next
  case (Cons t es)
  obtain n m c p d l where t: "t = Ctl n m c p d l" by (cases t)
  have IH: "leaf_post A0 refs0 E subs s (length subs + dirs_count es) (concat (map (leaves_dir path) es)) (concat (map (groups_dir path) es)) (register_dirs E path es subs s)"
    if "holding A0 refs0 (e_fuel E) subs s" for subs s using Cons.IH [OF _ _ Cons.prems(3) that] Cons.prems(1,2) by simp
  show ?case
  proof (cases "c = NoChild")
    case True
    then show ?thesis using IH [OF Cons.prems(4)] by (simp add: t dirs_count_def)
  next
    case dir: False
    show ?thesis
    proof (cases "append_path path n")
      case None
      then have "register_dirs E path (t # es) subs s = Inr (- ENAMETOOLONG, subs, s)" using dir by (simp add: t)
      then show ?thesis using leaf_post_err [OF _ Cons.prems(4)] by (simp add: ENAMETOOLONG_def)
    next
      case (Some path')
      have p': "path' = path @ n @ ''/''" "length path' < PATH_MAX" using append_path_Some [OF Some] by blast+
      have reg: "register_dirs E path (t # es) subs s = (case register_leaf E path' c subs s of
          Inl f \<Rightarrow> Inl f | Inr (err, subs, s) \<Rightarrow> if err \<noteq> 0 then Inr (err, subs, s) else register_dirs E path es subs s)"
        using dir Some by (simp add: t)
      have "leaf_ok A0 refs0 E c" "mountless c" using Cons.prems(1,2) by (simp_all add: t)
      then have A: "leaf_post A0 refs0 E subs s (length subs + count_subheaders c) (leaves path' c) (groups path' c) (register_leaf E path' c subs s)"
        using dir p'(2) Cons.prems(4) unfolding leaf_ok_def by blast
      have B: "leaf_post A0 refs0 E subs1 s1 (length subs + dirs_count (t # es)) (concat (map (leaves_dir path) es)) (concat (map (groups_dir path) es)) (register_dirs E path es subs1 s1)"
        if "holding A0 refs0 (e_fuel E) subs1 s1" "length subs1 = length subs + count_subheaders c" for subs1 s1
        using IH [OF that(1)] that(2) dir by (simp add: t dirs_count_def add.assoc)
      have "concat (map (leaves_dir path) (t # es)) = leaves path' c @ concat (map (leaves_dir path) es)"
        "concat (map (groups_dir path) (t # es)) = groups path' c @ concat (map (groups_dir path) es)" using dir by (simp_all add: t p'(1))
      then show ?thesis using leaf_post_then [OF A B] unfolding reg by simp
    qed
  qed
qed

lemma filter_rest: "length ts - length (filter P ts) = 0 \<longleftrightarrow> (\<forall>x \<in> set ts. P x)"
proof -
  have "length (filter P ts) \<le> length ts" by simp
  moreover have "length (filter P ts) = length ts \<longleftrightarrow> (\<forall>x \<in> set ts. P x)"
    using length_filter_less [of _ ts P] by (metis filter_True less_irrefl)
  ultimately show ?thesis by linarith
qed

lemma leaf_result:
  assumes E: "env_fit E"
  shows "leaf_ok A0 refs0 E c"
proof (induction c rule: measure_induct_rule [of size])
  case (less c)
  show ?case unfolding leaf_ok_def
  proof (intro allI impI)
    fix path :: string and subs :: "nat list" and s :: ctl_store
    assume A: "c \<noteq> NoChild" "mountless c" "length path < PATH_MAX" "holding A0 refs0 (e_fuel E) subs s"
    obtain ts where c: "c = Children ts" using A(1,2) by (cases c) simp_all
    define files where "files = filter (\<lambda>e. ct_child e = NoChild) ts"
    define reg where "reg = (case register_table (e_lib E) (e_kzalloc E) (e_fuel E) path False files s of
         Inl f \<Rightarrow> Inl f | Inr (None, s) \<Rightarrow> Inr (- ENOMEM, subs, s) | Inr (Some h, s) \<Rightarrow> Inr (0, subs @ [h], s))"
    have ok: "\<forall>t \<in> set ts. leaf_ok A0 refs0 E (ct_child t)" using less size_child [of _ ts] by (auto simp: c)
    have dirs: "leaf_post A0 refs0 E subs s (length subs + dirs_count ts) (concat (map (leaves_dir path) ts)) (concat (map (groups_dir path) ts)) (register_dirs E path ts subs s)"
      if "holding A0 refs0 (e_fuel E) subs s" for subs s using dirs_result [OF ok _ A(3) that] A(2) by (simp add: c)
    have nf: "files = [] \<longleftrightarrow> \<not> (\<exists>x \<in> set ts. ct_child x = NoChild)" by (simp add: files_def no_files)
    have nd: "length ts - length files = 0 \<longleftrightarrow> (\<forall>x \<in> set ts. ct_child x = NoChild)" unfolding files_def by (rule filter_rest)
    have lv: "leaves path c = map (Pair path) files @ concat (map (leaves_dir path) ts)" by (simp add: c files_def)
    have gr: "groups path c = (if ts = [] \<or> files \<noteq> [] then [(path, files)] else []) @ concat (map (groups_dir path) ts)"
    proof -
      have "(ts = [] \<or> (\<exists>t \<in> set ts. ct_child t = NoChild)) = (ts = [] \<or> files \<noteq> [])" using nf by blast
      then show ?thesis unfolding c groups.simps files_def [symmetric] by simp
    qed
    have unf: "register_leaf E path c subs s =
        (if length ts - length files \<noteq> 0 \<and> length files \<noteq> 0 \<and> \<not> e_files E s then Inr (- ENOMEM, subs, s)
         else case (if length files \<noteq> 0 \<or> length ts - length files = 0 then reg else Inr (0, subs, s)) of
           Inl f \<Rightarrow> Inl f | Inr (err, subs, s) \<Rightarrow> if err \<noteq> 0 then Inr (err, subs, s) else register_dirs E path ts subs s)"
      unfolding c reg_def files_def
      by (simp only: register_leaf.simps [of E path "Children ts" subs s] Let_def entries_of.simps ctl_child.case ctl_child.distinct)
    consider "length ts - length files \<noteq> 0 \<and> length files \<noteq> 0 \<and> \<not> e_files E s"
      | "\<not> (length ts - length files \<noteq> 0 \<and> length files \<noteq> 0 \<and> \<not> e_files E s)" "length files \<noteq> 0 \<or> length ts - length files = 0"
      | "files = []" "length ts - length files \<noteq> 0" by fastforce
    then show "leaf_post A0 refs0 E subs s (length subs + count_subheaders c) (leaves path c) (groups path c) (register_leaf E path c subs s)"
    proof cases
      case 1
      then show ?thesis using leaf_post_err [OF _ A(4)] unfolding unf by (simp add: ENOMEM_def)
    next
      case 2
      have n: "length subs + 1 + dirs_count ts = length subs + count_subheaders c"
      proof (cases "ts = []")
        case True
        then show ?thesis by (simp add: c count_subheaders.simps dirs_count_def)
      next
        case False
        then have "\<exists>x \<in> set ts. ct_child x = NoChild" using 2(2) nf nd by (cases ts) auto
        then show ?thesis using False by (simp add: c count_children)
      qed
      have A1: "leaf_post A0 refs0 E subs s (length subs + 1) (map (Pair path) files) [(path, files)] reg" unfolding reg_def by (rule leaf_files [OF E A(3,4)])
      have B: "leaf_post A0 refs0 E subs1 s1 (length subs + count_subheaders c) (concat (map (leaves_dir path) ts)) (concat (map (groups_dir path) ts)) (register_dirs E path ts subs1 s1)"
        if "holding A0 refs0 (e_fuel E) subs1 s1" "length subs1 = length subs + 1" for subs1 s1
        using dirs [OF that(1)] unfolding that(2) n .
      have g2: "groups path c = [(path, files)] @ concat (map (groups_dir path) ts)"
        using 2(2) unfolding gr by (cases "files = []"; cases "ts = []") (auto simp: nd nf)
      have "leaf_post A0 refs0 E subs s (length subs + count_subheaders c) (map (Pair path) files @ concat (map (leaves_dir path) ts))
        ([(path, files)] @ concat (map (groups_dir path) ts))
        (case reg of Inl f \<Rightarrow> Inl f | Inr (err, subs, s) \<Rightarrow> if err \<noteq> 0 then Inr (err, subs, s) else register_dirs E path ts subs s)"
        by (rule leaf_post_then [OF A1]) (rule B)
      then show ?thesis unfolding unf lv g2 if_not_P [OF 2(1)] if_P [OF 2(2)] .
    next
      case 3
      have "ts \<noteq> []" using 3(2) by auto
      then have "dirs_count ts = count_subheaders c" using 3(1) nf by (simp add: c count_children)
      then show ?thesis using dirs [OF A(4)] 3 \<open>ts \<noteq> []\<close> unfolding unf lv gr by simp
    qed
  qed
qed

lemma descend_result:
  "descend path c = Some (path', c') \<Longrightarrow> length path < PATH_MAX \<Longrightarrow> mountless c \<Longrightarrow> c \<noteq> NoChild \<Longrightarrow>
    length path' < PATH_MAX \<and> mountless c' \<and> c' \<noteq> NoChild \<and> count_subheaders c' = count_subheaders c \<and> leaves path' c' = leaves path c
      \<and> groups path' c' = groups path c"
proof (induction path c arbitrary: path' c' rule: descend.induct)
  case (1 path c)
  show ?case
  proof (cases "\<exists>e. c = Children [e] \<and> ct_child e \<noteq> NoChild")
    case False
    then have "descend path c = Some (path, c)" by (subst descend.simps) (auto split: ctl_child.splits list.splits)
    then show ?thesis using "1.prems" by simp
  next
    case True
    then obtain n m d p x l where e: "c = Children [Ctl n m d p x l]" "d \<noteq> NoChild" by (metis ctl_table.exhaust ctl_table.sel(3))
    then obtain p1 where p1: "append_path path n = Some p1" "descend p1 d = Some (path', c')"
      using "1.prems"(1) by (subst (asm) descend.simps) (auto split: option.splits)
    have "mountless d" using "1.prems"(3) e by simp
    moreover have l1: "length p1 < PATH_MAX" using append_path_Some [OF p1(1)] by blast
    ultimately have "length path' < PATH_MAX \<and> mountless c' \<and> c' \<noteq> NoChild \<and> count_subheaders c' = count_subheaders d \<and> leaves path' c' = leaves p1 d
        \<and> groups path' c' = groups p1 d"
      using "1.IH" [of "[Ctl n m d p x l]" "Ctl n m d p x l" "[]" p1 path' c'] e p1 by simp
    moreover have "count_subheaders c = count_subheaders d" using e by (simp add: count_children dirs_count_def)
    moreover have "leaves path c = leaves p1 d" using e append_path_Some [OF p1(1)] by simp
    moreover have "groups path c = groups p1 d" using e append_path_Some [OF p1(1)] by simp
    ultimately show ?thesis by simp
  qed
qed


section \<open>The properties\<close>

lemma register_table_spec:
  assumes "sys_ok refs s" "rb_lib_ok L" "alloc_ok kzalloc" "length (path_parts path) + 1 < fuel"
  shows "case register_table L kzalloc fuel path False table s of
      Inl f \<Rightarrow> f = BadFree \<and> sysctl_check_table table = 0 \<and> taken s path table
    | Inr (None, s') \<Rightarrow> sys_ok refs s' \<and> abs_store s' = abs_store s
        \<and> (kzalloc s = None \<or> sysctl_check_table table \<noteq> 0 \<or> sys_walk s sys_root (path_parts path) = None
             \<and> (alloc_fails kzalloc s (length (path_parts path) + 1) \<or> path_file s sys_root (path_parts path)))
    | Inr (Some h, s') \<Rightarrow> (\<forall>e \<in> set table. check_entry e \<and> found s' path e) \<and> abs_store s \<subseteq>\<^sub>m abs_store s'
        \<and> (\<exists>s''. unregister_table L fuel h s' = Inr s'' \<and> sys_ok refs s'' \<and> abs_store s'' = abs_store s)"
proof -
  note R = register_table_ok [OF assms, of table]
  have undo: "\<exists>s''. unregister_table L fuel h s' = Inr s'' \<and> sys_ok refs s'' \<and> abs_store s'' = abs_store s"
    if g: "k < fuel" "grown (abs_store s) refs k (abs_store s') refs' h" "sys_ok refs' s'" for h s' k refs'
  proof -
    have l: "live (abs_store s) refs" and i: "sys_inv refs' s'" using assms(1) g(3) by (simp_all add: sys_ok_def)
    obtain s'' where "drop_sysctl_table L fuel h s' = Inr s''" "restored (abs_store s) refs s''"
      using grown_drop [OF g(2) assms(2) l i _ refl g(1)] unfolding restored_def by blast
    then show ?thesis using restored_ok [OF _ assms(1)] unfolding unregister_table_def restored_def by blast
  qed
  show ?thesis
  proof (cases "register_table L kzalloc fuel path False table s")
    case (Inl f)
    then show ?thesis using R by simp
  next
    case (Inr r)
    obtain res s' where r: "r = (res, s')" by (cases r)
    show ?thesis
    proof (cases res)
      case None
      then have "restored (abs_store s) refs s'" using R Inr r by simp
      then have "sys_ok refs s'" "abs_store s' = abs_store s" using restored_ok [OF _ assms(1)] unfolding restored_def by blast+
      then show ?thesis using R unfolding Inr r None sum.case prod.case option.case by blast
    next
      case (Some h)
      show ?thesis using R undo unfolding Inr r Some sum.case prod.case option.case by blast
    qed
  qed
qed

text \<open>C20.  In \<open>/proc/sys\<close> without mount points, \<open>register_sysctl\<close> of a table that is not one itself either leaves everything as it was, and
  only because memory is wanting for the table's header or for that of a missing directory, because an entry does not pass the check or
  because a part of the path is a file; or it makes every entry of the table found at its path, and unregistering takes back exactly what
  was added.  It crashes only if two entries have the same name or the directory of the path has an entry of that name already.\<close>

theorem sysctl_register:
  assumes "sys_ok refs s" "rb_lib_ok L" "alloc_ok kzalloc" "length (path_parts path) + 1 < fuel"
  shows "case register_table L kzalloc fuel path False table s of
      Inl f \<Rightarrow> f = BadFree \<and> sysctl_check_table table = 0 \<and> taken s path table
    | Inr (None, s') \<Rightarrow> sys_ok refs s' \<and> abs_store s' = abs_store s
        \<and> (kzalloc s = None \<or> sysctl_check_table table \<noteq> 0 \<or> sys_walk s sys_root (path_parts path) = None
             \<and> (alloc_fails kzalloc s (length (path_parts path) + 1) \<or> path_file s sys_root (path_parts path)))
    | Inr (Some h, s') \<Rightarrow> (\<forall>e \<in> set table. check_entry e \<and> found s' path e) \<and> abs_store s \<subseteq>\<^sub>m abs_store s'
        \<and> (\<exists>s''. unregister_table L fuel h s' = Inr s'' \<and> sys_ok refs s'' \<and> abs_store s'' = abs_store s)"
  by (rule register_table_spec [OF assms])

lemma append_paths_length: "append_paths path ns = Some path' \<Longrightarrow> length path < PATH_MAX \<Longrightarrow> length path' < PATH_MAX"
proof (induction ns arbitrary: path)
  case (Cons n ns)
  then obtain p where p: "append_path path n = Some p" "append_paths p ns = Some path'" by (auto split: option.splits)
  have "length p < PATH_MAX" using append_path_Some [OF p(1)] by blast
  then show ?case using Cons.IH p(2) by blast
qed simp

text \<open>Files that pass the check have no directories among them.\<close>

lemma leaves_checked: "\<forall>e \<in> set ts. ct_child e = NoChild \<Longrightarrow> leaves path (Children ts) = map (Pair path) ts"
proof -
  assume a: "\<forall>e \<in> set ts. ct_child e = NoChild"
  then have "leaves_dir path e = []" if "e \<in> set ts" for e using that by (cases e) auto
  then have "concat (map (leaves_dir path) ts) = []" by simp
  moreover have "filter (\<lambda>e. ct_child e = NoChild) ts = ts" using a by simp
  ultimately show ?thesis by simp
qed

lemma groups_checked: "\<forall>e \<in> set ts. ct_child e = NoChild \<Longrightarrow> groups path (Children ts) = [(path, ts)]"
proof -
  assume a: "\<forall>e \<in> set ts. ct_child e = NoChild"
  then have "groups_dir path e = []" if "e \<in> set ts" for e using that by (cases e) auto
  then have "concat (map (groups_dir path) ts) = []" by simp
  moreover have "filter (\<lambda>e. ct_child e = NoChild) ts = ts" using a by simp
  moreover have "ts = [] \<or> (\<exists>t \<in> set ts. ct_child t = NoChild)" using a by (cases ts) auto
  ultimately show ?thesis by simp
qed

lemma group_result:
  assumes "env_fit E" "sys_ok refs s" "c \<noteq> NoChild" "mountless c" "length path < PATH_MAX"
  shows "leaf_post (abs_store s) refs E [] s (count_subheaders c) (leaves path c) (groups path c) (register_leaf E path c [] s)"
proof -
  have "holding (abs_store s) refs (e_fuel E) [] s" using assms(2) stacked.base unfolding holding_def by auto
  then show ?thesis using leaf_result [OF assms(1), of "abs_store s" refs c] assms(3-5) unfolding leaf_ok_def by force
qed

text \<open>C22.  A second table at the same path with a name of the first is never registered: unless memory or the check of its entries stops it
  before, \<open>insert_header\<close> takes entries out of the tree that are not in it.\<close>

theorem sysctl_duplicate:
  assumes ok: "sys_ok refs s" and E: "rb_lib_ok L" "alloc_ok kzalloc" "length (path_parts path) + 1 < fuel"
    and first: "register_table L kzalloc fuel path False table s = Inr (Some h, s')"
    and dup: "e \<in> set table" "e2 \<in> set table2" "ct_name e2 = ct_name e"
  shows "register_table L kzalloc fuel path False table2 s' = Inl BadFree
    \<or> (\<exists>s''. register_table L kzalloc fuel path False table2 s' = Inr (None, s'') \<and> abs_store s'' = abs_store s'
         \<and> (kzalloc s' = None \<or> sysctl_check_table table2 \<noteq> 0))"
proof -
  have inv: "sys_inv refs s" "live (abs_store s) refs" "no_mounts s" using ok by (simp_all add: sys_ok_def)
  obtain i where i: "i < length table" "e = table ! i" using dup(1) unfolding in_set_conv_nth by blast
  obtain i2 where i2: "i2 < length table2" "e2 = table2 ! i2" using dup(2) unfolding in_set_conv_nth by blast
  obtain d where d: "sys_walk s' sys_root (path_parts path) = Some d" "find_entry s' d (ct_name e) = Some (h, i)"
    using register_table_result [OF inv E, of table] i unfolding first by auto
  obtain refs' where ok': "sys_ok refs' s'" using register_table_ok [OF ok E, of table] unfolding first by auto
  then have inv': "sys_inv refs' s'" "live (abs_store s') refs'" "no_mounts s'" by (simp_all add: sys_ok_def)
  note R = register_table_result [OF inv' E, of table2] and R' = register_table_ok [OF ok' E, of table2]
  show ?thesis
  proof (cases "register_table L kzalloc fuel path False table2 s'")
    case (Inl f)
    then show ?thesis using R by simp
  next
    case (Inr r)
    obtain res s'' where r: "r = (res, s'')" by (cases r)
    show ?thesis
    proof (cases res)
      case None
      then show ?thesis using R d(1) Inr r by (simp add: restored_def)
    next
      case (Some h2)
      have le: "abs_store s' \<subseteq>\<^sub>m abs_store s''" using R unfolding Inr r Some sum.case prod.case option.case by blast
      have new: "s' h2 = None" using R unfolding Inr r Some sum.case prod.case option.case by blast
      obtain d2 where d2: "sys_walk s'' sys_root (path_parts path) = Some d2" "find_entry s'' d2 (ct_name e2) = Some (h2, i2)"
        using R i2 unfolding Inr r Some sum.case prod.case option.case by blast
      obtain refs'' where i'': "sys_inv refs'' s''" using R' unfolding Inr r Some sum.case prod.case option.case sys_ok_def by blast
      note W = sys_walk_mono [OF inv'(1) i'' le d(1)]
      have "d2 = d" using W(1) d2(1) by simp
      obtain z where "find_entry s'' d (ct_name e) = Some (h, i)" "s' h = Some z"
        by (rule find_entry_mono [OF inv'(1) i'' le W(2) d(2)]) blast
      then have False using d2(2) new dup(3) \<open>d2 = d\<close> by simp
      then show ?thesis ..
    qed
  qed
qed

text \<open>C21.  In \<open>/proc/sys\<close> without mount points, every file of a hierarchy of tables that has no mount point either is found at its path when
  \<open>register_sysctl_paths\<close> succeeds; a failure that is returned, also one half-way, and \<open>unregister_sysctl_table\<close> restore \<open>/proc/sys\<close> exactly.
  It crashes, also half-way, only where the files of one directory have a name twice or a name that is in that directory when the tables
  before it have been registered.\<close>

theorem sysctl_hierarchy:
  assumes ok: "sys_ok refs s" and E: "env_fit E" and t: "mountless table" "table \<noteq> NoChild"
  shows "case register_paths E path table s of
      Inl f \<Rightarrow> f = BadFree \<and> (\<exists>p. append_paths [] path = Some p \<and> clash E (groups p table) [] s)
    | Inr (None, s') \<Rightarrow> sys_ok refs s' \<and> abs_store s' = abs_store s
    | Inr (Some header, s') \<Rightarrow> (\<exists>p. append_paths [] path = Some p \<and> (\<forall>(q, e) \<in> set (leaves p table). found s' q e))
        \<and> abs_store s \<subseteq>\<^sub>m abs_store s'
        \<and> (\<exists>s''. unregister_sysctl_table E header s' = Inr s'' \<and> sys_ok refs s'' \<and> abs_store s'' = abs_store s)"
proof (cases "if e_buf E then append_paths [] path else None")
  case None
  then show ?thesis using ok by (simp add: register_paths_def)
next
  case (Some p)
  then have p: "append_paths [] path = Some p" by (simp split: if_splits)
  have lp: "length p < PATH_MAX" using append_paths_length [OF p] by (simp add: PATH_MAX_def)
  show ?thesis
  proof (cases "descend p table")
    case None
    then show ?thesis using ok Some t(2) by (simp add: register_paths_def)
  next
    case dd: (Some pc)
    obtain q c where pc: "pc = (q, c)" by (cases pc)
    have D: "length q < PATH_MAX" "mountless c" "c \<noteq> NoChild" "count_subheaders c = count_subheaders table" "leaves q c = leaves p table"
      "groups q c = groups p table"
      using descend_result [OF _ lp t] dd pc by blast+
    obtain ts where ts: "c = Children ts" using D(2,3) by (cases c) simp_all
    have e: "rb_lib_ok (e_lib E)" "alloc_ok (e_kzalloc E)" "length (path_parts q) + 1 < e_fuel E"
      using E D(1) length_path_parts [of q] by (simp_all add: env_fit_def)
    show ?thesis
    proof (cases "count_subheaders table = 1")
      case True
      have reg: "register_paths E path table s = (case register_table (e_lib E) (e_kzalloc E) (e_fuel E) q False ts s of
          Inl f \<Rightarrow> Inl f | Inr (h, s) \<Rightarrow> Inr (map_option (\<lambda>h. Single h table) h, s))"
        using Some dd True t(2) by (simp add: register_paths_def pc ts)
      note R = register_table_spec [OF ok e, of ts]
      show ?thesis
      proof (cases "register_table (e_lib E) (e_kzalloc E) (e_fuel E) q False ts s")
        case (Inl f)
        then have R': "f = BadFree" "sysctl_check_table ts = 0" "taken s q ts" using R by simp_all
        have g: "groups p table = [(q, ts)]"
          using groups_checked R'(2) D(6) unfolding ts sysctl_check_entries check_entry_def by metis
        show ?thesis using Inl reg p R'(1) clash_here [OF R'(3)] by (simp add: g)
      next
        case (Inr r)
        obtain res s' where r: "r = (res, s')" by (cases r)
        show ?thesis
        proof (cases res)
          case None
          then show ?thesis using R reg Inr r by simp
        next
          case h: (Some h)
          have A: "\<forall>e \<in> set ts. check_entry e \<and> found s' q e" "abs_store s \<subseteq>\<^sub>m abs_store s'"
            "\<exists>s''. unregister_table (e_lib E) (e_fuel E) h s' = Inr s'' \<and> sys_ok refs s'' \<and> abs_store s'' = abs_store s"
            using R unfolding Inr r h sum.case prod.case option.case by blast+
          have "\<forall>e \<in> set ts. ct_child e = NoChild" using A(1) by (simp add: check_entry_def)
          then have "leaves p table = map (Pair q) ts" using leaves_checked [of ts q] D(5) unfolding ts by (simp only:)
          then show ?thesis using A reg p by (simp add: Inr r h)
        qed
      qed
    next
      case False
      have G: "leaf_post (abs_store s) refs E [] s (count_subheaders table) (leaves p table) (groups p table) (register_leaf E q c [] s)"
        using group_result [OF E ok D(3,2,1)] by (simp add: D(4-6))
      have reg: "register_paths E path table s = (if \<not> e_files E s then Inr (None, s) else (case register_leaf E q c [] s of
           Inl f \<Rightarrow> Inl f
         | Inr (err, subs, s) \<Rightarrow> if err = 0 then Inr (Some (Group subs table), s)
             else (case unregister_all (e_lib E) (e_fuel E) (rev subs) s of Inl f \<Rightarrow> Inl f | Inr s \<Rightarrow> Inr (None, s))))"
        using Some dd False t(2) by (simp add: register_paths_def pc)
      show ?thesis
      proof (cases "e_files E s")
        case False
        then show ?thesis using ok reg by simp
      next
        case True
        show ?thesis
        proof (cases "register_leaf E q c [] s")
          case (Inl f)
          then show ?thesis using G reg True p by (simp add: leaf_post_def)
        next
          case (Inr r)
          obtain err subs s' where r: "r = (err, subs, s')" by (cases r)
          have A: "holding (abs_store s) refs (e_fuel E) subs s'" "abs_store s \<subseteq>\<^sub>m abs_store s'"
            "err = 0 \<longrightarrow> length subs = count_subheaders table \<and> (\<forall>(path, e) \<in> set (leaves p table). found s' path e)"
            using G by (auto simp: leaf_post_def Inr r)
          obtain s'' where s'': "unregister_all (e_lib E) (e_fuel E) (rev subs) s' = Inr s''" "restored (abs_store s) refs s''"
            using holding_unregister [OF A(1) e(1)] by blast
          have ok'': "sys_ok refs s''" "abs_store s'' = abs_store s" using restored_ok [OF s''(2) ok] s''(2) by (simp_all add: restored_def)
          show ?thesis
          proof (cases "err = 0")
            case False
            then show ?thesis using reg True ok'' s''(1) by (simp add: Inr r)
          next
            case zero: True
            then have B: "length subs = count_subheaders table" "\<forall>(path, e) \<in> set (leaves p table). found s' path e" using A(3) by blast+
            have eq: "register_paths E path table s = Inr (Some (Group subs table), s')" using reg True zero by (simp add: Inr r)
            have "unregister_sysctl_table E (Group subs table) s' = Inr s''" using B(1) s''(1) by simp
            then show ?thesis unfolding eq sum.case prod.case option.case using p B(2) A(2) ok'' by blast
          qed
        qed
      qed
    qed
  qed
qed

text \<open>Making a directory in a mount point of \<open>/proc/sys\<close> ends in a null pointer: the new header, which was not inserted, has no parent.\<close>

theorem mount_point_subdir:
  assumes inv: "sys_inv refs s" and dir: "s dir = Some y" "is_empty_dir y" "1 \<le> refs dir" "kids s dir \<noteq> {}"
    and none: "find_entry s dir name = None" and n: "kzalloc s = Some n" "s n = None"
  shows "get_subdir L kzalloc (Suc fuel) dir name s = Inl NullDeref"
proof -
  define x where "x = init_header False (dir_table name)"
  define s1 where "s1 = s(n \<mapsto> x)"
  have nd: "n \<noteq> dir" using dir(1) n(2) by auto
  have x: "h_parent x = None" "h_table x = dir_table name" "h_nreg x = 1" by (simp_all add: x_def init_header_def)
  have "find_entry s1 dir name = find_entry s dir name"
    unfolding s1_def x_def by (rule find_entry_alloc [OF inv n(2) dir(1)])
  then have f1: "find_subdir s1 dir name = Inl (- ENOENT)" using none by (simp add: find_subdir_def)
  have f0: "find_subdir s dir name = Inl (- ENOENT)" using none by (simp add: find_subdir_def)
  have ins: "insert_header L (Suc fuel) dir n s1 = Inr (- EROFS, s1)" using dir(1,2) nd by (simp add: insert_header_def s1_def)
  have "0 < card (kids s dir)" using dir(4) kids_finite [OF inv] by (simp add: card_gt_0_iff)
  then have "h_nreg y \<noteq> 1" using sys_invD(1) [OF inv dir(1)] dir(3) by simp
  define s2 where "s2 = upd_hdr dir (\<lambda>x. x\<lparr>h_nreg := h_nreg x - 1\<rparr>) s1"
  have d1: "drop_sysctl_table L (Suc fuel) dir s1 = Inr s2"
    using \<open>h_nreg y \<noteq> 1\<close> dir(1) nd by (simp add: s2_def s1_def upd_hdr_def Let_def)
  have s2: "s2 n = Some x" using nd by (simp add: s2_def s1_def upd_hdr_def)
  have d2: "drop_sysctl_table L (Suc fuel) n s2 = Inl NullDeref"
    using s2 x by (simp add: Let_def upd_hdr_def start_unregistering_def erase_header_def erase_entry_def dir_table_def)
  show ?thesis using f0 f1 ins d1 d2 n(1) by (simp add: get_subdir_def new_dir_def s1_def [symmetric] x_def [symmetric] EROFS_def)
qed


section \<open>A run\<close>

text \<open>The store at the start: the root alone.  Memory for four headers.\<close>

definition sys_start :: ctl_store where
  "sys_start = [sys_root \<mapsto> init_header False (dir_table [])]"

definition start_refs :: "nat \<Rightarrow> int" where
  "start_refs = (\<lambda>_. 0)(sys_root := 1)"

fun first_free :: "nat list \<Rightarrow> ctl_store \<Rightarrow> nat option" where
  "first_free [] s = None"
| "first_free (h # hs) s = (case s h of None \<Rightarrow> Some h | Some _ \<Rightarrow> first_free hs s)"

definition plain_file :: "string \<Rightarrow> ctl_table" where
  "plain_file n = Ctl n (or S_IRUGO 128) NoChild proc_dointvec True 4"

definition start_env :: sys_env where
  "start_env = \<lparr>e_kzalloc = first_free [2, 3, 4, 5], e_files = (\<lambda>_. True), e_buf = True, e_lib = list_rb, e_fuel = 4098\<rparr>"

lemma first_free_ok: "alloc_ok (first_free hs)"
proof -
  have "first_free hs s = Some h \<longrightarrow> s h = None" for s h by (induction hs) (auto split: option.splits)
  then show ?thesis unfolding alloc_ok_def by blast
qed

lemma start_ok: "sys_ok start_refs sys_start"
proof -
  have k: "kids sys_start h = {}" "entries sys_start h = {}" for h
    by (auto simp: kids_def entries_def sys_start_def init_header_def split: if_splits)
  have "shape_ok (abs_store sys_start)"
  proof -
    have a: "abs_store sys_start = [sys_root \<mapsto> core (init_header False (dir_table []))]"
      by (auto simp: sys_start_def abs_store_def fun_eq_iff)
    show ?thesis unfolding shape_ok_def a by (simp add: init_header_def dir_table_def)
  qed
  moreover have "dir_tree_ok (abs_store sys_start) h Leaf" for h by (simp add: dir_tree_ok_def names_sorted_def k)
  ultimately have "sys_inv start_refs sys_start"
    unfolding sys_inv_def by (auto simp: sys_start_def init_header_def start_refs_def k [unfolded sys_start_def init_header_def] split: if_splits)
  moreover have "live (abs_store sys_start) start_refs"
    by (auto simp: live_def start_refs_def sys_start_def abs_store_def split: if_splits)
  moreover have "no_mounts sys_start" by (auto simp: no_mounts_def sys_start_def is_empty_dir_def init_header_def dir_table_def split: if_splits)
  ultimately show ?thesis by (simp add: sys_ok_def)
qed

lemma start_env_fit: "env_fit start_env"
  by (simp add: env_fit_def start_env_def first_free_ok list_rb_ok PATH_MAX_def)

definition tree_table :: ctl_child where
  "tree_table = Children [plain_file ''x'', Ctl ''b'' dir_mode (Children [plain_file ''y'']) NoHandler False 0]"

lemma sysctl_register_witness:
  "case register_table list_rb (first_free [2, 3, 4]) 5 ''fs'' False [plain_file ''x''] sys_start of
     Inr (Some h, s') \<Rightarrow> found s' ''fs'' (plain_file ''x'')
       \<and> (\<exists>s''. unregister_table list_rb 5 h s' = Inr s'' \<and> sys_ok start_refs s'' \<and> abs_store s'' = abs_store sys_start)
   | _ \<Rightarrow> False"
proof -
  have "map_sum id fst (register_table list_rb (first_free [2, 3, 4]) 5 ''fs'' False [plain_file ''x''] sys_start) = Inr (Some 2)" by code_simp
  then obtain s' where s': "register_table list_rb (first_free [2, 3, 4]) 5 ''fs'' False [plain_file ''x''] sys_start = Inr (Some 2, s')"
    by (cases "register_table list_rb (first_free [2, 3, 4]) 5 ''fs'' False [plain_file ''x''] sys_start") auto
  have "length (path_parts ''fs'') + 1 < 5" by code_simp
  then show ?thesis using sysctl_register [OF start_ok list_rb_ok first_free_ok [of "[2, 3, 4]"], where path = "''fs''" and fuel = 5 and table = "[plain_file ''x'']"] unfolding s' by simp
qed

lemma sysctl_duplicate_witness:
  "case register_table list_rb (first_free [2, 3, 4]) 5 ''fs'' False [plain_file ''x''] sys_start of
     Inr (Some h, s') \<Rightarrow> register_table list_rb (first_free [2, 3, 4]) 5 ''fs'' False [plain_file ''x''] s' = Inl BadFree
   | _ \<Rightarrow> False"
proof -
  have "map_sum id (\<lambda>(h, s). (h, first_free [2, 3, 4] s)) (register_table list_rb (first_free [2, 3, 4]) 5 ''fs'' False [plain_file ''x''] sys_start) = Inr (Some 2, Some 4)"
    by code_simp
  then obtain s' where s': "register_table list_rb (first_free [2, 3, 4]) 5 ''fs'' False [plain_file ''x''] sys_start = Inr (Some 2, s')"
    "first_free [2, 3, 4] s' = Some 4"
    by (cases "register_table list_rb (first_free [2, 3, 4]) 5 ''fs'' False [plain_file ''x''] sys_start") auto
  have "length (path_parts ''fs'') + 1 < 5" "sysctl_check_table [plain_file ''x''] = 0" by code_simp+
  then show ?thesis
    using sysctl_duplicate [OF start_ok list_rb_ok first_free_ok _ s'(1), of "plain_file ''x''" "plain_file ''x''" "[plain_file ''x'']"] s'
    by simp
qed

lemma sysctl_hierarchy_witness:
  "case register_paths start_env [''d''] tree_table sys_start of
     Inr (Some header, s') \<Rightarrow> found s' ''d/b/'' (plain_file ''y'')
       \<and> (\<exists>s''. unregister_sysctl_table start_env header s' = Inr s'' \<and> sys_ok start_refs s'' \<and> abs_store s'' = abs_store sys_start)
   | _ \<Rightarrow> False"
proof -
  have "case register_paths start_env [''d''] tree_table sys_start of Inr (Some header, s) \<Rightarrow> True | _ \<Rightarrow> False" by code_simp
  then obtain header s' where s': "register_paths start_env [''d''] tree_table sys_start = Inr (Some header, s')"
    by (cases "register_paths start_env [''d''] tree_table sys_start") (auto split: option.splits)
  have m: "mountless tree_table" "tree_table \<noteq> NoChild" by (simp_all add: tree_table_def plain_file_def)
  have p: "append_paths [] [''d''] = Some ''d/''" by code_simp
  have l: "(''d/b/'', plain_file ''y'') \<in> set (leaves ''d/'' tree_table)" by (simp add: tree_table_def plain_file_def)
  show ?thesis using sysctl_hierarchy [OF start_ok start_env_fit m, of "[''d'']"] l unfolding s' p sum.case prod.case option.case by auto
qed

text \<open>A mount point \<open>fs\<close>, its own table below it, and the reference that is held on it.\<close>

definition mount_store :: ctl_store where
  "mount_store = [sys_root \<mapsto> (init_header False (dir_table []))\<lparr>h_nreg := 2, h_tree := Node Leaf (2, 0) Leaf\<rparr>,
     2 \<mapsto> (init_header False [Ctl ''fs'' dir_mode MountPoint NoHandler False 0])\<lparr>h_nreg := 2, h_parent := Some sys_root\<rparr>,
     3 \<mapsto> (init_header True [])\<lparr>h_parent := Some 2\<rparr>]"

definition mount_refs :: "nat \<Rightarrow> int" where
  "mount_refs = (\<lambda>_. 0)(sys_root := 1, 2 := 1, 3 := 1)"

lemma mount_kids: "kids mount_store h = (if h = sys_root then {2} else if h = 2 then {3} else {})"
  by (auto simp: kids_def mount_store_def init_header_def sys_root_def split: if_splits)

lemma mount_entries: "entries mount_store h = (if h = sys_root then {(2, 0)} else {})"
  by (auto simp: entries_def mount_store_def init_header_def sys_root_def split: if_splits)

lemma mount_inv: "sys_inv mount_refs mount_store"
proof -
  have a: "abs_store mount_store = [sys_root \<mapsto> core (the (mount_store sys_root)), 2 \<mapsto> core (the (mount_store 2)), 3 \<mapsto> core (the (mount_store 3))]"
    by (auto simp: mount_store_def abs_store_def fun_eq_iff sys_root_def)
  have "shape_ok (abs_store mount_store)"
    unfolding shape_ok_def a by (simp add: mount_store_def init_header_def dir_table_def sys_root_def)
  moreover have "dir_tree_ok (abs_store mount_store) h (h_tree x)" if "mount_store h = Some x" for h x
  proof -
    have e: "entries (abs_store mount_store) h = (if h = sys_root then {(2, 0)} else {})" by (simp add: mount_entries)
    have t: "h_tree x = (if h = sys_root then Node Leaf (2, 0) Leaf else Leaf)"
      using that by (auto simp: mount_store_def init_header_def sys_root_def split: if_splits)
    show ?thesis unfolding dir_tree_ok_def e t by (simp add: names_sorted_def)
  qed
  moreover have "h_nreg x = mount_refs h + int (card (kids mount_store h))" if "mount_store h = Some x" for h x
    using that unfolding mount_kids by (auto simp: mount_store_def mount_refs_def init_header_def sys_root_def split: if_splits)
  ultimately show ?thesis unfolding sys_inv_def by blast
qed

lemma mount_point_subdir_witness: "get_subdir list_rb (first_free [4]) 1 2 ''a'' mount_store = Inl NullDeref"
proof -
  have "mount_store 2 = Some (the (mount_store 2))" "is_empty_dir (the (mount_store 2))" "find_entry mount_store 2 ''a'' = None"
    "first_free [4] mount_store = Some 4" "mount_store 4 = None" by code_simp+
  moreover have "1 \<le> mount_refs 2" "kids mount_store 2 \<noteq> {}" by (simp_all add: mount_refs_def mount_kids sys_root_def)
  ultimately show ?thesis using mount_point_subdir [OF mount_inv, of 2 _ "''a''" "first_free [4]" 4 list_rb 0] by simp
qed

end
