(* ===== verification/VmCore.thy ===== *)
theory VmCore imports ProcFs begin

text \<open>
  The dump of a crashed kernel, \<open>/proc/vmcore\<close> (\<open>fs/proc/vmcore.c\<close>): reading.  The file is the ELF header with its
  program headers, the notes, and chunks of the old kernel's memory, one after the other.  Parameters are \<open>copy_oldmem_page\<close>, the
  hook \<open>oldmem_pfn_is_ram\<close> that the balloon driver registers, and which parts of the user's buffer can be written.
  Sizes and positions are natural numbers, reduced at 64 bits where they are added.  Shown: reads deliver the file from the position on, the
  memory of the old kernel with zeros for pages that are no RAM.
\<close>

section \<open>The memory of the old kernel\<close>

definition add64 :: "nat \<Rightarrow> nat \<Rightarrow> nat" where
  "add64 a b = (a + b) mod 2 ^ 64"

lemma add64_id [simp]: "a + b < 18446744073709551616 \<Longrightarrow> add64 a b = a + b"
  by (simp add: add64_def)

text \<open>\<open>v_copy pfn nr offset at user\<close> is \<open>copy_oldmem_page\<close>: an error or the bytes it puts into the buffer, at offset \<open>at\<close>.\<close>

record vm_env =
  v_ram :: "(nat \<Rightarrow> int) option"
  v_copy :: "nat \<Rightarrow> nat \<Rightarrow> nat \<Rightarrow> nat \<Rightarrow> bool \<Rightarrow> int + string"
  v_user :: "nat \<Rightarrow> nat \<Rightarrow> bool"

definition register_oldmem_pfn_is_ram :: "(nat \<Rightarrow> int) \<Rightarrow> vm_env \<Rightarrow> int \<times> vm_env" where
  "register_oldmem_pfn_is_ram fn E = (if v_ram E \<noteq> None then (- EBUSY, E) else (0, E\<lparr>v_ram := Some fn\<rparr>))"

definition unregister_oldmem_pfn_is_ram :: "vm_env \<Rightarrow> vm_env" where
  "unregister_oldmem_pfn_is_ram E = E\<lparr>v_ram := None\<rparr>"

definition pfn_is_ram :: "vm_env \<Rightarrow> nat \<Rightarrow> int" where
  "pfn_is_ram E pfn = (case v_ram E of None \<Rightarrow> 1 | Some fn \<Rightarrow> fn pfn)"

text \<open>Zeros are written with \<open>memset\<close>, also into a buffer of the user; that is the fault \<open>WildPointer\<close> if it cannot be written.\<close>

fun oldmem_loop :: "vm_env \<Rightarrow> bool \<Rightarrow> nat \<Rightarrow> nat \<Rightarrow> nat \<Rightarrow> nat \<Rightarrow> nat \<Rightarrow> nat \<Rightarrow> string \<Rightarrow> fault + int \<times> nat \<times> string" where
  "oldmem_loop E userbuf 0 at count ppos pfn offset buf = Inl NonTerminating"
| "oldmem_loop E userbuf (Suc fuel) at count ppos pfn offset buf =
     (let nr_bytes = (if count > PAGE_SIZE - offset then PAGE_SIZE - offset else count) in
      case (if pfn_is_ram E pfn = 0
            then (if userbuf \<and> \<not> v_user E (at + length buf) nr_bytes then Inl WildPointer else Inr (Inr (replicate nr_bytes (CHR 0x00))))
            else Inr (v_copy E pfn nr_bytes offset (at + length buf) userbuf)) of
        Inl f \<Rightarrow> Inl f
      | Inr (Inl tmp) \<Rightarrow> Inr (tmp, ppos, buf)
      | Inr (Inr bs) \<Rightarrow>
          let ppos = add64 ppos nr_bytes; count = count - nr_bytes; buf = buf @ bs in
          if count = 0 then Inr (int (length buf), ppos, buf) else oldmem_loop E userbuf fuel at count ppos (pfn + 1) 0 buf)"

definition read_from_oldmem :: "vm_env \<Rightarrow> nat \<Rightarrow> nat \<Rightarrow> nat \<Rightarrow> bool \<Rightarrow> fault + int \<times> nat \<times> string" where
  "read_from_oldmem E at count ppos userbuf =
     (if count = 0 then Inr (0, ppos, [])
      else oldmem_loop E userbuf count at count ppos (ppos div PAGE_SIZE) (ppos mod PAGE_SIZE) [])"

text \<open>What \<open>copy_oldmem_page\<close> is documented to do, for the memory \<open>mem\<close> by physical address.\<close>

definition oldmem_ok :: "vm_env \<Rightarrow> (nat \<Rightarrow> char) \<Rightarrow> bool" where
  "oldmem_ok E mem \<longleftrightarrow> (\<forall>at n. v_user E at n)
     \<and> (\<forall>pfn nr offset at u. offset + nr \<le> PAGE_SIZE \<longrightarrow> v_copy E pfn nr offset at u = Inr (map mem [pfn * PAGE_SIZE + offset ..< pfn * PAGE_SIZE + offset + nr]))"

definition old_byte :: "vm_env \<Rightarrow> (nat \<Rightarrow> char) \<Rightarrow> nat \<Rightarrow> char" where
  "old_byte E mem a = (if pfn_is_ram E (a div PAGE_SIZE) = 0 then CHR 0x00 else mem a)"

definition old_bytes :: "vm_env \<Rightarrow> (nat \<Rightarrow> char) \<Rightarrow> nat \<Rightarrow> nat \<Rightarrow> string" where
  "old_bytes E mem a n = map (old_byte E mem) [a..<a + n]"

lemma length_old_bytes [simp]: "length (old_bytes E mem a n) = n"
  by (simp add: old_bytes_def)

lemma old_bytes_append: "old_bytes E mem a m @ old_bytes E mem (a + m) n = old_bytes E mem a (m + n)"
proof -
  have "[a..<a + m] @ [a + m..<a + m + n] = [a..<a + (m + n)]" using upt_add_eq_append [of a "a + m" n] by (simp add: add.assoc)
  then show ?thesis by (simp add: old_bytes_def flip: map_append add: add.assoc)
qed

lemma old_bytes_slice: "take n (drop k (old_bytes E mem a m)) = old_bytes E mem (a + k) (min n (m - k))"
proof (rule nth_equalityI)
  show "length (take n (drop k (old_bytes E mem a m))) = length (old_bytes E mem (a + k) (min n (m - k)))" by simp
  show "take n (drop k (old_bytes E mem a m)) ! i = old_bytes E mem (a + k) (min n (m - k)) ! i"
    if "i < length (take n (drop k (old_bytes E mem a m)))" for i
  proof -
    have i: "i < n" "k + i < m" using that by auto
    have "take n (drop k (old_bytes E mem a m)) ! i = old_bytes E mem a m ! (k + i)" using i by simp
    then show ?thesis using i by (simp add: old_bytes_def add.assoc)
  qed
qed

lemma page_bytes:
  assumes ok: "oldmem_ok E mem" and n: "offset + nr \<le> PAGE_SIZE" "0 < nr"
  shows "(if pfn_is_ram E pfn = 0
      then (if userbuf \<and> \<not> v_user E at nr then Inl WildPointer else Inr (Inr (replicate nr (CHR 0x00))))
      else Inr (v_copy E pfn nr offset at userbuf)) = Inr (Inr (old_bytes E mem (pfn * PAGE_SIZE + offset) nr))"
proof -
  have d: "(pfn * PAGE_SIZE + offset + i) div PAGE_SIZE = pfn" if "i < nr" for i
  proof -
    have "offset + i < PAGE_SIZE" using that n by simp
    then show ?thesis by (simp add: add.assoc PAGE_SIZE_def)
  qed
  have m: "old_bytes E mem (pfn * PAGE_SIZE + offset) nr
      = (if pfn_is_ram E pfn = 0 then replicate nr (CHR 0x00) else map mem [pfn * PAGE_SIZE + offset ..< pfn * PAGE_SIZE + offset + nr])"
    by (rule nth_equalityI) (auto simp: old_bytes_def old_byte_def d)
  show ?thesis using ok n(1) unfolding m oldmem_ok_def by simp
qed

lemma oldmem_loop_ok:
  assumes ok: "oldmem_ok E mem"
  shows "0 < count \<Longrightarrow> count \<le> fuel \<Longrightarrow> offset < PAGE_SIZE \<Longrightarrow> pfn * PAGE_SIZE + offset = ppos \<Longrightarrow> ppos + count \<le> 2 ^ 64 \<Longrightarrow>
    oldmem_loop E userbuf fuel at count ppos pfn offset buf = Inr (int (length buf + count), add64 ppos count, buf @ old_bytes E mem ppos count)"
proof (induction fuel arbitrary: count ppos pfn offset buf)
  case (Suc fuel)
  define nr where "nr = (if count > PAGE_SIZE - offset then PAGE_SIZE - offset else count)"
  have nr: "offset + nr \<le> PAGE_SIZE" "0 < nr" "nr \<le> count" using Suc.prems(1,3) by (auto simp: nr_def)
  note P = page_bytes [OF ok nr(1,2), where pfn = pfn and userbuf = userbuf and at = "at + length buf", unfolded Suc.prems(4)]
  define buf' where "buf' = buf @ old_bytes E mem ppos nr"
  have step: "oldmem_loop E userbuf (Suc fuel) at count ppos pfn offset buf =
      (if count - nr = 0 then Inr (int (length buf'), add64 ppos nr, buf') else oldmem_loop E userbuf fuel at (count - nr) (add64 ppos nr) (pfn + 1) 0 buf')"
    by (simp only: oldmem_loop.simps Let_def nr_def [symmetric] P sum.case buf'_def)
  show ?case
  proof (cases "count = nr")
    case True
    then show ?thesis unfolding step by (simp add: buf'_def)
  next
    case False
    then have more: "nr < count" "count > PAGE_SIZE - offset" using nr(3) by (auto simp: nr_def split: if_splits)
    then have e: "offset + nr = PAGE_SIZE" using Suc.prems(3) by (simp add: nr_def)
    have a: "add64 ppos nr = ppos + nr" using Suc.prems(5) more(1) by simp
    have pg: "(pfn + 1) * PAGE_SIZE + 0 = ppos + nr" using e Suc.prems(4) by simp
    have "oldmem_loop E userbuf fuel at (count - nr) (ppos + nr) (pfn + 1) 0 buf'
        = Inr (int (length buf' + (count - nr)), add64 (ppos + nr) (count - nr), buf' @ old_bytes E mem (ppos + nr) (count - nr))"
      by (rule Suc.IH) (use more nr(2) Suc.prems(2,5) pg in \<open>simp_all add: PAGE_SIZE_def\<close>)
    moreover have "buf' @ old_bytes E mem (ppos + nr) (count - nr) = buf @ old_bytes E mem ppos count"
      using old_bytes_append [of E mem ppos nr "count - nr"] more(1) by (simp add: buf'_def)
    ultimately show ?thesis using more(1) False unfolding step a by (simp add: add64_def buf'_def)
  qed
qed simp

lemma read_from_oldmem_ok:
  assumes "oldmem_ok E mem" "ppos + count \<le> 2 ^ 64" "0 < count"
  shows "read_from_oldmem E at count ppos userbuf = Inr (int count, add64 ppos count, old_bytes E mem ppos count)"
  using oldmem_loop_ok [OF assms(1), of count count "ppos mod PAGE_SIZE" "ppos div PAGE_SIZE" ppos userbuf at "[]"] assms(2,3)
  by (simp add: read_from_oldmem_def PAGE_SIZE_def)

section \<open>Reading the file\<close>

record chunk =
  c_paddr :: nat
  c_size :: nat
  c_offset :: nat

text \<open>The variables of the file.\<close>

record vmcore =
  elfcorebuf :: string
  elfnotes_buf :: string
  vmcore_list :: "chunk list"
  vmcore_size :: nat

text \<open>\<open>copy_to\<close>: whether the bytes arrive at offset \<open>at\<close> of the buffer.\<close>

definition copy_to :: "vm_env \<Rightarrow> nat \<Rightarrow> string \<Rightarrow> bool \<Rightarrow> int" where
  "copy_to E at src userbuf = (if userbuf \<and> \<not> v_user E at (length src) then - EFAULT else 0)"

fun read_chunks :: "vm_env \<Rightarrow> bool \<Rightarrow> chunk list \<Rightarrow> nat \<Rightarrow> nat \<Rightarrow> string \<Rightarrow> fault + int \<times> nat \<times> string" where
  "read_chunks E userbuf [] buflen fpos buf = Inr (int (length buf), fpos, buf)"
| "read_chunks E userbuf (m # ms) buflen fpos buf =
     (if fpos < add64 (c_offset m) (c_size m)
      then (let tsz = min (add64 (c_offset m) (c_size m) - fpos) buflen;
                start = nat (u64 (int (c_paddr m) + int fpos - int (c_offset m))) in
            case read_from_oldmem E (length buf) tsz start userbuf of
              Inl f \<Rightarrow> Inl f
            | Inr (tmp, _, bs) \<Rightarrow>
                if tmp < 0 then Inr (tmp, fpos, buf @ bs)
                else let buflen = buflen - tsz; fpos = fpos + tsz; buf = buf @ bs in
                  if buflen = 0 then Inr (int (length buf), fpos, buf) else read_chunks E userbuf ms buflen fpos buf)
      else read_chunks E userbuf ms buflen fpos buf)"

text \<open>The part \<open>src\<close> of the file from \<open>base\<close> on, which is in memory: the header or the notes.\<close>

definition read_part :: "vm_env \<Rightarrow> bool \<Rightarrow> nat \<Rightarrow> string \<Rightarrow> nat \<Rightarrow> nat \<Rightarrow> string \<Rightarrow> bool \<times> nat \<times> nat \<times> string" where
  "read_part E userbuf base src buflen fpos buf =
     (if fpos < base + length src
      then let tsz = min (base + length src - fpos) buflen; piece = take tsz (drop (fpos - base) src) in
        if copy_to E (length buf) piece userbuf \<noteq> 0 then (True, buflen, fpos, buf) else (False, buflen - tsz, fpos + tsz, buf @ piece)
      else (False, buflen, fpos, buf))"

definition read_vmcore_body :: "vm_env \<Rightarrow> vmcore \<Rightarrow> nat \<Rightarrow> nat \<Rightarrow> bool \<Rightarrow> fault + int \<times> nat \<times> string" where
  "read_vmcore_body E st buflen fpos userbuf =
     (if buflen = 0 \<or> fpos \<ge> vmcore_size st then Inr (0, fpos, [])
      else
        let buflen = (if buflen > vmcore_size st - fpos then vmcore_size st - fpos else buflen) in
        case read_part E userbuf 0 (elfcorebuf st) buflen fpos [] of (err, buflen, fpos, buf) \<Rightarrow>
          if err then Inr (- EFAULT, fpos, buf)
          else if buflen = 0 then Inr (int (length buf), fpos, buf)
          else (case read_part E userbuf (length (elfcorebuf st)) (elfnotes_buf st) buflen fpos buf of (err, buflen, fpos, buf) \<Rightarrow>
            if err then Inr (- EFAULT, fpos, buf)
            else if buflen = 0 then Inr (int (length buf), fpos, buf)
            else read_chunks E userbuf (vmcore_list st) buflen fpos buf))"

definition read_vmcore :: "vm_env \<Rightarrow> vmcore \<Rightarrow> nat \<Rightarrow> nat \<Rightarrow> fault + int \<times> nat \<times> string" where
  "read_vmcore E st buflen fpos = read_vmcore_body E st buflen fpos True"

definition get_vmcore_size :: "nat \<Rightarrow> nat \<Rightarrow> chunk list \<Rightarrow> nat" where
  "get_vmcore_size elfsz elfnotesegsz vc_list = foldl (\<lambda>size m. add64 size (c_size m)) (add64 elfsz elfnotesegsz) vc_list"

fun set_offsets :: "nat \<Rightarrow> chunk list \<Rightarrow> chunk list" where
  "set_offsets vmcore_off [] = []"
| "set_offsets vmcore_off (m # ms) = m\<lparr>c_offset := vmcore_off\<rparr> # set_offsets (add64 vmcore_off (c_size m)) ms"

definition set_vmcore_list_offsets :: "nat \<Rightarrow> nat \<Rightarrow> chunk list \<Rightarrow> chunk list" where
  "set_vmcore_list_offsets elfsz elfnotes_sz vc_list = set_offsets (add64 elfsz elfnotes_sz) vc_list"

text \<open>The file as it should be: chunks follow each other from the end of the notes on, and none goes past the end of the address space.\<close>

fun chunks_at :: "nat \<Rightarrow> chunk list \<Rightarrow> bool" where
  "chunks_at b [] = True"
| "chunks_at b (m # ms) = (c_offset m = b \<and> c_paddr m + c_size m \<le> 2 ^ 64 \<and> chunks_at (b + c_size m) ms)"

definition chunks_size :: "chunk list \<Rightarrow> nat" where
  "chunks_size ms = sum_list (map c_size ms)"

definition chunk_bytes :: "vm_env \<Rightarrow> (nat \<Rightarrow> char) \<Rightarrow> chunk list \<Rightarrow> string" where
  "chunk_bytes E mem ms = concat (map (\<lambda>m. old_bytes E mem (c_paddr m) (c_size m)) ms)"

definition core_image :: "vm_env \<Rightarrow> (nat \<Rightarrow> char) \<Rightarrow> vmcore \<Rightarrow> string" where
  "core_image E mem st = elfcorebuf st @ elfnotes_buf st @ chunk_bytes E mem (vmcore_list st)"

definition vmcore_ok :: "vmcore \<Rightarrow> bool" where
  "vmcore_ok st \<longleftrightarrow> chunks_at (length (elfcorebuf st) + length (elfnotes_buf st)) (vmcore_list st)
     \<and> vmcore_size st = length (elfcorebuf st) + length (elfnotes_buf st) + chunks_size (vmcore_list st) \<and> vmcore_size st < 2 ^ 63"

text \<open>Every part begins and ends at a page, as \<open>mmap\<close> needs it.\<close>

definition page_aligned :: "vmcore \<Rightarrow> bool" where
  "page_aligned st \<longleftrightarrow> PAGE_SIZE dvd length (elfcorebuf st) \<and> PAGE_SIZE dvd length (elfnotes_buf st)
     \<and> (\<forall>m \<in> set (vmcore_list st). PAGE_SIZE dvd c_paddr m \<and> PAGE_SIZE dvd c_size m)"

lemma length_chunk_bytes [simp]: "length (chunk_bytes E mem ms) = chunks_size ms"
  by (simp add: chunk_bytes_def chunks_size_def length_concat o_def)

lemma chunks_simps [simp]:
  "chunks_size [] = 0" "chunks_size (m # ms) = c_size m + chunks_size ms"
  "chunk_bytes E mem [] = []" "chunk_bytes E mem (m # ms) = old_bytes E mem (c_paddr m) (c_size m) @ chunk_bytes E mem ms"
  by (simp_all add: chunks_size_def chunk_bytes_def)

lemma read_chunks_ok:
  assumes ok: "oldmem_ok E mem"
  shows "chunks_at b ms \<Longrightarrow> b + chunks_size ms < 2 ^ 63 \<Longrightarrow> b \<le> fpos \<Longrightarrow> 0 < n \<Longrightarrow> fpos + n \<le> b + chunks_size ms \<Longrightarrow>
    read_chunks E userbuf ms n fpos buf = Inr (int (length buf + n), fpos + n, buf @ take n (drop (fpos - b) (chunk_bytes E mem ms)))"
proof (induction ms arbitrary: b n fpos buf)
  case (Cons m ms)
  have off: "c_offset m = b" "c_paddr m + c_size m \<le> 2 ^ 64" "chunks_at (b + c_size m) ms" using Cons.prems(1) by simp_all
  have top: "add64 (c_offset m) (c_size m) = b + c_size m" using Cons.prems(2) off(1) by simp
  show ?case
  proof (cases "fpos < b + c_size m")
    case False
    have "read_chunks E userbuf ms n fpos buf
        = Inr (int (length buf + n), fpos + n, buf @ take n (drop (fpos - (b + c_size m)) (chunk_bytes E mem ms)))"
      by (rule Cons.IH [OF off(3)]) (use False Cons.prems in simp_all)
    moreover have "drop (fpos - b) (chunk_bytes E mem (m # ms)) = drop (fpos - (b + c_size m)) (chunk_bytes E mem ms)" using False by simp
    ultimately show ?thesis using False unfolding read_chunks.simps top by simp
  next
    case True
    define t where "t = min (b + c_size m - fpos) n"
    have t: "0 < t" "t \<le> n" "fpos - b + t \<le> c_size m" using True Cons.prems(3,4) by (auto simp: t_def)
    have st: "nat (u64 (int (c_paddr m) + int fpos - int (c_offset m))) = c_paddr m + (fpos - b)"
      using True off(1,2) Cons.prems(3) by (subst u64_id) auto
    have R: "read_from_oldmem E (length buf) t (c_paddr m + (fpos - b)) userbuf
        = Inr (int t, add64 (c_paddr m + (fpos - b)) t, old_bytes E mem (c_paddr m + (fpos - b)) t)"
      by (rule read_from_oldmem_ok [OF ok]) (use t off(2) in auto)
    have piece: "old_bytes E mem (c_paddr m + (fpos - b)) t = take t (drop (fpos - b) (old_bytes E mem (c_paddr m) (c_size m)))"
    proof -
      have "min t (c_size m - (fpos - b)) = t" using t(3) by simp
      then show ?thesis by (simp only: old_bytes_slice)
    qed
    define buf' where "buf' = buf @ old_bytes E mem (c_paddr m + (fpos - b)) t"
    have step: "read_chunks E userbuf (m # ms) n fpos buf =
        (if n - t = 0 then Inr (int (length buf'), fpos + t, buf') else read_chunks E userbuf ms (n - t) (fpos + t) buf')"
      using True by (simp only: read_chunks.simps top st t_def [symmetric] Let_def R if_True buf'_def sum.case prod.case) simp
    have whole: "drop (fpos - b) (chunk_bytes E mem (m # ms)) = drop (fpos - b) (old_bytes E mem (c_paddr m) (c_size m)) @ chunk_bytes E mem ms"
      using True Cons.prems(3) by simp
    show ?thesis
    proof (cases "n = t")
      case n: True
      have "take n (drop (fpos - b) (chunk_bytes E mem (m # ms))) = old_bytes E mem (c_paddr m + (fpos - b)) t"
        unfolding whole piece n using t(3) by simp
      then show ?thesis unfolding step by (simp add: buf'_def n)
    next
      case False
      then have n: "t < n" "fpos + t = b + c_size m" using t(2) True by (auto simp: t_def min_def split: if_splits)
      have "read_chunks E userbuf ms (n - t) (fpos + t) buf'
          = Inr (int (length buf' + (n - t)), fpos + t + (n - t), buf' @ take (n - t) (drop (fpos + t - (b + c_size m)) (chunk_bytes E mem ms)))"
        by (rule Cons.IH [OF off(3)]) (use n Cons.prems in simp_all)
      moreover have "take n (drop (fpos - b) (chunk_bytes E mem (m # ms))) = old_bytes E mem (c_paddr m + (fpos - b)) t @ take (n - t) (chunk_bytes E mem ms)"
      proof -
        have l: "length (drop (fpos - b) (old_bytes E mem (c_paddr m) (c_size m))) = t" using n(2) Cons.prems(3) True by simp
        then have "drop (fpos - b) (old_bytes E mem (c_paddr m) (c_size m)) = old_bytes E mem (c_paddr m + (fpos - b)) t" unfolding piece by simp
        then show ?thesis unfolding whole using n(1) l by simp
      qed
      ultimately show ?thesis using n False unfolding step by (simp add: buf'_def)
    qed
  qed
qed simp


lemma read_part_ok:
  assumes "oldmem_ok E mem" "base \<le> fpos"
  shows "read_part E userbuf base src n fpos buf =
    (let t = min (base + length src - fpos) n in (False, n - t, fpos + t, buf @ take n (drop (fpos - base) src)))"
proof -
  have c: "copy_to E at piece userbuf = 0" for at piece using assms(1) by (simp add: copy_to_def oldmem_ok_def)
  have l: "length (drop (fpos - base) src) = base + length src - fpos" using assms(2) by simp
  have "take (min (base + length src - fpos) n) (drop (fpos - base) src) = take n (drop (fpos - base) src)"
    unfolding l [symmetric] by (cases "length (drop (fpos - base) src) \<le> n") (simp_all add: min_def)
  then show ?thesis using assms(2) by (simp add: read_part_def c Let_def)
qed

lemma part_then:
  assumes "base \<le> fpos" "t = min (base + length src - fpos) n"
  shows "take n (drop (fpos - base) src) @ take (n - t) (drop (fpos + t - (base + length src)) rest) = take n (drop (fpos - base) (src @ rest))"
proof (cases "fpos < base + length src")
  case True
  then show ?thesis using assms by (cases "n \<le> base + length src - fpos") (auto simp: add.commute)
next
  case False
  then show ?thesis using assms by simp
qed

lemma vmcore_read_slice:
  assumes mem: "oldmem_ok E mem" and st: "vmcore_ok st"
  shows "read_vmcore E st buflen fpos =
    Inr (int (length (take buflen (drop fpos (core_image E mem st)))), fpos + length (take buflen (drop fpos (core_image E mem st))),
      take buflen (drop fpos (core_image E mem st)))"
proof -
  define hdr where "hdr = elfcorebuf st"
  define nt where "nt = elfnotes_buf st"
  define ms where "ms = vmcore_list st"
  define img where "img = core_image E mem st"
  have sz: "vmcore_size st = length hdr + length nt + chunks_size ms" "vmcore_size st < 2 ^ 63" "chunks_at (length hdr + length nt) ms"
    using st by (simp_all add: vmcore_ok_def hdr_def nt_def ms_def)
  have img: "img = hdr @ nt @ chunk_bytes E mem ms" by (simp add: img_def core_image_def hdr_def nt_def ms_def)
  have limg: "length img = vmcore_size st" by (simp add: img sz(1))
  show ?thesis
  proof (cases "buflen = 0 \<or> vmcore_size st \<le> fpos")
    case True
    then have "take buflen (drop fpos img) = []"
    proof
      assume "vmcore_size st \<le> fpos"
      then have "drop fpos img = []" by (simp add: limg)
      then show ?thesis by simp
    qed simp
    then show ?thesis using True unfolding img_def [symmetric] by (simp add: read_vmcore_def read_vmcore_body_def del: take_eq_Nil)
  next
    case False
    define n where "n = (if buflen > vmcore_size st - fpos then vmcore_size st - fpos else buflen)"
    have n: "0 < n" "fpos + n \<le> vmcore_size st" using False by (auto simp: n_def)
    have tn: "take buflen (drop fpos img) = take n (drop fpos img)" by (simp add: n_def limg)
    have ln: "length (take n (drop fpos img)) = n" using n(2) by (simp add: limg)
    define t where "t = min (length hdr - fpos) n"
    define buf where "buf = take n (drop fpos hdr)"
    define u where "u = min (length hdr + length nt - (fpos + t)) (n - t)"
    define buf2 where "buf2 = buf @ take (n - t) (drop (fpos + t - length hdr) nt)"
    have p1: "read_part E True 0 hdr n fpos [] = (False, n - t, fpos + t, buf)"
      by (simp add: read_part_ok [OF mem] Let_def t_def buf_def)
    have all1: "take n (drop fpos img) = buf @ take (n - t) (drop (fpos + t - length hdr) (nt @ chunk_bytes E mem ms))"
      using part_then [of 0 fpos t hdr n "nt @ chunk_bytes E mem ms"] by (simp add: img buf_def t_def)
    have run: "read_vmcore E st buflen fpos = (if n - t = 0 then Inr (int (length buf), fpos + t, buf)
        else (case read_part E True (length hdr) nt (n - t) (fpos + t) buf of (err, buflen, fpos, buf) \<Rightarrow>
            if err then Inr (- EFAULT, fpos, buf)
            else if buflen = 0 then Inr (int (length buf), fpos, buf)
            else read_chunks E True ms buflen fpos buf))"
      using False p1 unfolding read_vmcore_def read_vmcore_body_def hdr_def [symmetric] nt_def [symmetric] ms_def [symmetric] by (simp add: n_def [symmetric])
    have "read_vmcore E st buflen fpos = Inr (int n, fpos + n, take n (drop fpos img))"
    proof (cases "n - t = 0")
      case True
      then have "t = n" by (simp add: t_def)
      then show ?thesis using True run all1 ln by simp
    next
      case more: False
      then have hd: "length hdr \<le> fpos + t" by (auto simp: t_def)
      have p2: "read_part E True (length hdr) nt (n - t) (fpos + t) buf = (False, n - t - u, fpos + t + u, buf2)"
        by (simp add: read_part_ok [OF mem hd] Let_def u_def buf2_def)
      have all2: "take n (drop fpos img) = buf2 @ take (n - t - u) (drop (fpos + t + u - (length hdr + length nt)) (chunk_bytes E mem ms))"
        unfolding all1 buf2_def using part_then [OF hd u_def, of "chunk_bytes E mem ms"] by simp
      show ?thesis
      proof (cases "n - t - u = 0")
        case True
        moreover have "u \<le> n - t" "t \<le> n" by (simp_all add: u_def t_def)
        ultimately have "t + u = n" by simp
        then show ?thesis using True run more p2 all2 ln by simp
      next
        case False
        then have nt: "length hdr + length nt \<le> fpos + t + u" using hd by (auto simp: u_def)
        have tu: "t + u \<le> n" using False by simp
        have "read_chunks E True ms (n - t - u) (fpos + t + u) buf2 = Inr (int (length buf2 + (n - t - u)), fpos + t + u + (n - t - u),
            buf2 @ take (n - t - u) (drop (fpos + t + u - (length hdr + length nt)) (chunk_bytes E mem ms)))"
          by (rule read_chunks_ok [OF mem sz(3) _ nt]) (use False n(2) sz(1,2) tu in simp_all)
        moreover have "length buf2 + (n - t - u) = n"
        proof -
          have "length nt - (fpos + t - length hdr) = length hdr + length nt - (fpos + t)" using hd by linarith
          then have "length buf2 = length buf + u" by (simp add: buf2_def u_def)
          moreover have "length buf = t" by (simp add: buf_def t_def)
          ultimately show ?thesis using tu by simp
        qed
        ultimately show ?thesis using run more p2 False all2 tu by simp
      qed
    qed
    then show ?thesis using tn ln by (simp add: img_def)
  qed
qed

text \<open>The file is a device that serves a text from the position on, and what holds for all of them holds for it.\<close>

definition vmcore_dev :: "vm_env \<times> (nat \<Rightarrow> char) \<times> vmcore \<Rightarrow> nat \<Rightarrow> int \<Rightarrow> int \<times> int \<times> string" where
  "vmcore_dev = (\<lambda>(E, mem, st) buflen pos. case read_vmcore E st buflen (nat pos) of
     Inl _ \<Rightarrow> (- EFAULT, pos, []) | Inr (r, pos, out) \<Rightarrow> (r, int pos, out))"

interpretation vmdev: pos_reader vmcore_dev "\<lambda>(E, mem, st). core_image E mem st" "\<lambda>(E, mem, st). oldmem_ok E mem \<and> vmcore_ok st"
  by unfold_locales (auto simp: vmcore_dev_def vmcore_read_slice)

lemma vmcore_cat:
  assumes "oldmem_ok E mem" "vmcore_ok st" "0 < bsize" "vmcore_size st < fuel"
  shows "cat (vmcore_dev (E, mem, st)) bsize fuel 0 = core_image E mem st"
proof -
  have "length (core_image E mem st) = vmcore_size st" using assms(2) by (simp add: core_image_def vmcore_ok_def)
  then show ?thesis using vmdev.cat_content [of "(E, mem, st)" bsize fuel] assms by simp
qed

end
