(* ===== verification/VmHeaders.thy ===== *)
theory VmHeaders imports VmCore begin

text \<open>
  The dump of a crashed kernel: its headers (\<open>fs/proc/vmcore.c\<close>).  When the module starts it reads the ELF headers that the crashed kernel
  left, merges the notes of all processors into one program header and moves the offsets of the others to where their memory is in the
  file.  The 32-bit and the 64-bit functions differ in types only, which are the argument \<open>elf_class\<close>.  The layout of the structs of
  \<open>linux/elf.h\<close> in memory, allocation and the check of the architecture are parameters.  Shown: every loadable program header of
  the file points to the bytes it describes, and so does the merged note, if the notes come first; a dump without notes is refused; when
  notes fill their section, memory out of bounds is read.
\<close>

section \<open>ELF\<close>

record elf_class =
  ec_ehdr :: nat
  ec_phdr :: nat
  ec_bits :: nat
  ec_class :: nat

definition elf64 :: elf_class where "elf64 = \<lparr>ec_ehdr = 64, ec_phdr = 56, ec_bits = 64, ec_class = 2\<rparr>"
definition elf32 :: elf_class where "elf32 = \<lparr>ec_ehdr = 52, ec_phdr = 32, ec_bits = 32, ec_class = 1\<rparr>"

record phdr =
  p_type :: nat
  p_flags :: nat
  p_offset :: nat
  p_vaddr :: nat
  p_paddr :: nat
  p_filesz :: nat
  p_memsz :: nat
  p_align :: nat

record elf_hdr =
  e_ident :: string
  e_type :: nat
  e_machine :: nat
  e_version :: nat
  e_ehsize :: nat
  e_phentsize :: nat
  e_phnum :: nat

definition PT_LOAD :: nat where "PT_LOAD = 1"
definition PT_NOTE :: nat where "PT_NOTE = 4"
definition ET_CORE :: nat where "ET_CORE = 4"
definition EV_CURRENT :: nat where "EV_CURRENT = 1"
definition ELFMAG :: string where "ELFMAG = [CHR 0x7F, CHR ''E'', CHR ''L'', CHR ''F'']"

abbreviation is_note :: "phdr \<Rightarrow> bool" where "is_note p \<equiv> p_type p = PT_NOTE"
abbreviation is_load :: "phdr \<Rightarrow> bool" where "is_load p \<equiv> p_type p = PT_LOAD"

record vm_boot =
  b_env :: vm_env
  b_addr :: nat
  b_kmalloc :: "nat \<Rightarrow> bool"
  b_vmalloc :: "nat \<Rightarrow> bool"
  b_pages :: "nat \<Rightarrow> bool"
  b_elem :: "nat \<Rightarrow> bool"                    \<comment> \<open>whether the allocation of the n-th chunk succeeds\<close>
  b_ehdr :: "string \<Rightarrow> elf_hdr"
  b_phdrs :: "nat \<Rightarrow> string \<Rightarrow> phdr list"
  b_bytes :: "elf_hdr \<Rightarrow> phdr list \<Rightarrow> string"
  b_arch :: "elf_hdr \<Rightarrow> bool"

text \<open>Results are a fault, an error number or a value.\<close>

type_synonym 'a res = "fault + int + 'a"

definition bindr :: "'a res \<Rightarrow> ('a \<Rightarrow> 'b res) \<Rightarrow> 'b res" where
  "bindr m k = (case m of Inl f \<Rightarrow> Inl f | Inr (Inl rc) \<Rightarrow> Inr (Inl rc) | Inr (Inr x) \<Rightarrow> k x)"

lemma bindr_simps [simp]: "bindr (Inl f) k = Inl f" "bindr (Inr (Inl rc)) k = Inr (Inl rc)" "bindr (Inr (Inr x)) k = k x"
  by (simp_all add: bindr_def)

lemma bindr_ok: "bindr m k = Inr (Inr y) \<longleftrightarrow> (\<exists>x. m = Inr (Inr x) \<and> k x = Inr (Inr y))"
  by (auto simp: bindr_def split: sum.splits)

text \<open>The result is kept in an \<open>int\<close>.\<close>

definition elfcorehdr_read :: "vm_boot \<Rightarrow> nat \<Rightarrow> nat \<Rightarrow> nat \<Rightarrow> string res" where
  "elfcorehdr_read B at count ppos =
     (case read_from_oldmem (b_env B) at count ppos False of
        Inl f \<Rightarrow> Inl f | Inr (rc, _, bs) \<Rightarrow> if s32 rc < 0 then Inr (Inl (s32 rc)) else Inr (Inr bs))"

definition roundup_page :: "nat \<Rightarrow> nat" where
  "roundup_page x = add64 x (PAGE_SIZE - 1) div PAGE_SIZE * PAGE_SIZE"

definition rounddown_page :: "nat \<Rightarrow> nat" where
  "rounddown_page x = x - x mod PAGE_SIZE"

section \<open>Notes\<close>

definition le32 :: "string \<Rightarrow> nat \<Rightarrow> nat" where
  "le32 bs i = of_char (bs ! i) + 2 ^ 8 * of_char (bs ! (i + 1)) + 2 ^ 16 * of_char (bs ! (i + 2)) + 2 ^ 24 * of_char (bs ! (i + 3))"

definition align4 :: "nat \<Rightarrow> nat" where
  "align4 n = (n + 3) div 4 * 4"

text \<open>The loop over the notes of a section.  The fields \<open>n_namesz\<close> and \<open>n_descsz\<close> of a header are read before anything is compared
  with the size of the section.\<close>

function note_walk :: "string \<Rightarrow> nat \<Rightarrow> nat \<Rightarrow> fault + nat" where
  "note_walk bs max_sz real_sz =
     (if real_sz + 4 > max_sz then Inl OutOfBounds
      else if le32 bs real_sz = 0 then Inr real_sz
      else if real_sz + 8 > max_sz then Inl OutOfBounds
      else
        let sz = 12 + align4 (le32 bs real_sz) + align4 (le32 bs (real_sz + 4)) in
        if real_sz + sz > max_sz then Inr real_sz else note_walk bs max_sz (real_sz + sz))"
  by pat_completeness auto
termination by (relation "measure (\<lambda>(bs, max_sz, real_sz). max_sz - real_sz)") auto

declare note_walk.simps [simp del]

fun update_note_header_size :: "vm_boot \<Rightarrow> phdr list \<Rightarrow> phdr list res" where
  "update_note_header_size B [] = Inr (Inr [])"
| "update_note_header_size B (p # ps) =
     bindr
       (if \<not> is_note p then Inr (Inr p)
        else if \<not> b_kmalloc B (p_memsz p) then Inr (Inl (- ENOMEM))
        else bindr (elfcorehdr_read B 0 (p_memsz p) (p_offset p))
          (\<lambda>bs. case note_walk bs (p_memsz p) 0 of Inl f \<Rightarrow> Inl f | Inr real_sz \<Rightarrow> Inr (Inr (p\<lparr>p_memsz := real_sz\<rparr>))))
       (\<lambda>p. bindr (update_note_header_size B ps) (\<lambda>ps. Inr (Inr (p # ps))))"

definition get_note_number_and_size :: "phdr list \<Rightarrow> nat \<times> nat" where
  "get_note_number_and_size ps = foldl (\<lambda>(nr, sz) p. if \<not> is_note p then (nr, sz) else (nr + 1, add64 sz (p_memsz p))) (0, 0) ps"

fun copy_notes :: "vm_boot \<Rightarrow> phdr list \<Rightarrow> string \<Rightarrow> string res" where
  "copy_notes B [] buf = Inr (Inr buf)"
| "copy_notes B (p # ps) buf =
     (if \<not> is_note p then copy_notes B ps buf
      else bindr (elfcorehdr_read B (length buf) (p_memsz p) (p_offset p)) (\<lambda>bs. copy_notes B ps (buf @ bs)))"

text \<open>The merged header takes the place of the first one, the next \<open>nr_ptnote - 1\<close> are taken out.  With no notes the number of bytes to clear is
  negative.  The result: the number of headers, the headers, the size of the header part and the notes.\<close>

definition merge_note_headers :: "elf_class \<Rightarrow> vm_boot \<Rightarrow> nat \<Rightarrow> phdr list \<Rightarrow> (nat \<times> phdr list \<times> nat \<times> string) res" where
  "merge_note_headers C B elfsz ps =
     bindr (update_note_header_size B ps) (\<lambda>ps.
       let e_phnum = length ps; (nr_ptnote, phdr_sz) = get_note_number_and_size ps; notes_sz = roundup_page phdr_sz in
       if \<not> b_vmalloc B notes_sz then Inr (Inl (- ENOMEM))
       else bindr (copy_notes B ps []) (\<lambda>notes.
         let notes_buf = notes @ replicate (notes_sz - length notes) (CHR 0x00);
             note_off = ec_ehdr C + (e_phnum - nr_ptnote + 1) * ec_phdr C;
             phdr = \<lparr>p_type = PT_NOTE, p_flags = 0, p_offset = roundup_page note_off, p_vaddr = 0, p_paddr = 0, p_filesz = phdr_sz mod 2 ^ ec_bits C,
               p_memsz = phdr_sz mod 2 ^ ec_bits C, p_align = 0\<rparr> in
         if nr_ptnote = 0 then Inl OutOfBounds
         else Inr (Inr (e_phnum - nr_ptnote + 1, phdr # drop nr_ptnote ps, roundup_page (elfsz - (nr_ptnote - 1) * ec_phdr C), notes_buf))))"

section \<open>Chunks of memory\<close>

text \<open>An offset is cut off at 32 bits in the functions for that class.\<close>

fun process_ptload :: "elf_class \<Rightarrow> vm_boot \<Rightarrow> nat \<Rightarrow> phdr list \<Rightarrow> chunk list \<Rightarrow> (phdr list \<times> chunk list) res" where
  "process_ptload C B vmcore_off [] vc = Inr (Inr ([], vc))"
| "process_ptload C B vmcore_off (p # ps) vc =
     (if \<not> is_load p then bindr (process_ptload C B vmcore_off ps vc) (\<lambda>(ps, vc). Inr (Inr (p # ps, vc)))
      else
        let paddr = p_offset p; start = rounddown_page paddr; stop = roundup_page (add64 paddr (p_memsz p));
            size = nat (u64 (int stop - int start)) in
        if \<not> b_elem B (length vc) then Inr (Inl (- ENOMEM))
        else bindr (process_ptload C B (add64 vmcore_off size) ps (vc @ [\<lparr>c_paddr = start, c_size = size, c_offset = 0\<rparr>]))
          (\<lambda>(ps, vc). Inr (Inr (p\<lparr>p_offset := add64 vmcore_off (paddr - start) mod 2 ^ ec_bits C\<rparr> # ps, vc))))"

definition process_ptload_program_headers :: "elf_class \<Rightarrow> vm_boot \<Rightarrow> nat \<Rightarrow> nat \<Rightarrow> phdr list \<Rightarrow> (phdr list \<times> chunk list) res" where
  "process_ptload_program_headers C B elfsz elfnotes_sz ps = process_ptload C B (add64 elfsz elfnotes_sz) ps []"

definition header_sane :: "elf_class \<Rightarrow> vm_boot \<Rightarrow> elf_hdr \<Rightarrow> bool" where
  "header_sane C B h \<longleftrightarrow> take 4 (e_ident h) = ELFMAG \<and> e_type h = ET_CORE \<and> b_arch B h \<and> of_char (e_ident h ! 4) = ec_class C
     \<and> of_char (e_ident h ! 6) = EV_CURRENT \<and> e_version h = EV_CURRENT \<and> e_ehsize h = ec_ehdr C \<and> e_phentsize h = ec_phdr C \<and> e_phnum h \<noteq> 0"

text \<open>\<open>parse_crash_elf64_headers\<close> in two halves: what is read, and what is made of it.\<close>

definition read_headers :: "elf_class \<Rightarrow> vm_boot \<Rightarrow> (elf_hdr \<times> phdr list) res" where
  "read_headers C B =
     bindr (elfcorehdr_read B 0 (ec_ehdr C) (b_addr B)) (\<lambda>bs.
       let h = b_ehdr B bs; sz = ec_ehdr C + e_phnum h * ec_phdr C in
       if \<not> header_sane C B h then Inr (Inl (- EINVAL))
       else if \<not> b_pages B sz then Inr (Inl (- ENOMEM))
       else bindr (elfcorehdr_read B 0 sz (b_addr B)) (\<lambda>bs. Inr (Inr (h, b_phdrs B (e_phnum h) bs))))"

definition load_headers :: "elf_class \<Rightarrow> vm_boot \<Rightarrow> elf_hdr \<Rightarrow> phdr list \<Rightarrow> (elf_hdr \<times> phdr list \<times> vmcore) res" where
  "load_headers C B h ps =
     bindr (merge_note_headers C B (ec_ehdr C + e_phnum h * ec_phdr C) ps) (\<lambda>(n, ps, elfcorebuf_sz, notes).
       bindr (process_ptload_program_headers C B elfcorebuf_sz (length notes) ps) (\<lambda>(ps, vc).
         let vc = set_vmcore_list_offsets elfcorebuf_sz (length notes) vc; h = h\<lparr>e_phnum := n\<rparr>; bs = b_bytes B h ps in
         Inr (Inr (h, ps, \<lparr>elfcorebuf = bs @ replicate (elfcorebuf_sz - length bs) (CHR 0x00), elfnotes_buf = notes, vmcore_list = vc,
           vmcore_size = get_vmcore_size elfcorebuf_sz (length notes) vc\<rparr>))))"

definition parse_crash_elf64_headers :: "vm_boot \<Rightarrow> (elf_hdr \<times> phdr list \<times> vmcore) res" where
  "parse_crash_elf64_headers B = bindr (read_headers elf64 B) (\<lambda>(h, ps). load_headers elf64 B h ps)"

definition parse_crash_elf32_headers :: "vm_boot \<Rightarrow> (elf_hdr \<times> phdr list \<times> vmcore) res" where
  "parse_crash_elf32_headers B = bindr (read_headers elf32 B) (\<lambda>(h, ps). load_headers elf32 B h ps)"

definition parse_crash_elf_headers :: "vm_boot \<Rightarrow> (elf_hdr \<times> phdr list \<times> vmcore) res" where
  "parse_crash_elf_headers B =
     bindr (elfcorehdr_read B 0 16 (b_addr B)) (\<lambda>e_ident.
       if take 4 e_ident \<noteq> ELFMAG then Inr (Inl (- EINVAL))
       else if of_char (e_ident ! 4) = ec_class elf64 then parse_crash_elf64_headers B
       else if of_char (e_ident ! 4) = ec_class elf32 then parse_crash_elf32_headers B
       else Inr (Inl (- EINVAL)))"

section \<open>What notes are found\<close>

lemma note_walk_le: "note_walk bs m k = Inr r \<Longrightarrow> k \<le> r \<and> r + 4 \<le> m"
proof (induction bs m k rule: note_walk.induct)
  case (1 bs m k)
  define sz where "sz = 12 + align4 (le32 bs k) + align4 (le32 bs (k + 4))"
  have R: "note_walk bs m k = (if k + 4 > m then Inl OutOfBounds else if le32 bs k = 0 then Inr k else if k + 8 > m then Inl OutOfBounds
      else if k + sz > m then Inr k else note_walk bs m (k + sz))" by (subst note_walk.simps) (simp add: sz_def Let_def)
  consider "r = k" "k + 4 \<le> m" | "\<not> k + 4 > m" "le32 bs k \<noteq> 0" "\<not> k + 8 > m" "\<not> k + sz > m" "note_walk bs m (k + sz) = Inr r"
    using "1.prems" unfolding R by (auto split: if_splits)
  then show ?case
  proof cases
    case 2
    then show ?thesis using "1.IH" [OF 2(1,2,3) sz_def 2(4,5)] by simp
  qed simp
qed

definition put32 :: "nat \<Rightarrow> string" where
  "put32 v = map (\<lambda>i. char_of (v div 256 ^ i)) [0..<4]"

lemma length_put32 [simp]: "length (put32 v) = 4"
  by (simp add: put32_def)

lemma le32_put32: "v < 2 ^ 32 \<Longrightarrow> le32 (xs @ put32 v @ ys) (length xs) = v"
proof -
  assume v: "v < 2 ^ 32"
  define a where "a = v div 256"
  define b where "b = a div 256"
  define c where "c = b div 256"
  have "[0..<4] = [0, 1, 2, 3 :: nat]" by (simp add: upt_rec)
  moreover have b: "b = v div 65536" and c: "c = v div 16777216" by (simp_all add: a_def b_def c_def div_mult2_eq [symmetric])
  ultimately have p: "put32 v = [char_of v, char_of a, char_of b, char_of c]" by (simp add: put32_def a_def)
  have "c = v div 16777216" by (rule c)
  then have "c mod 256 = c" using v by simp
  moreover have "256 * a + v mod 256 = v" "256 * b + a mod 256 = a" "256 * c + b mod 256 = b" by (simp_all add: a_def b_def c_def)
  ultimately have "v mod 256 + 256 * (a mod 256) + 65536 * (b mod 256) + 16777216 * (c mod 256) = v" by linarith
  then show ?thesis by (simp add: p le32_def nth_append)
qed

text \<open>A note as it lies in memory: the sizes of its two texts, its type, and the texts, each padded to a multiple of four.\<close>

datatype elf_note = Note (n_name: string) (n_desc: string) (n_type: nat)

definition pad4 :: "string \<Rightarrow> string" where
  "pad4 xs = xs @ replicate (align4 (length xs) - length xs) (CHR 0x00)"

definition note_bytes :: "elf_note \<Rightarrow> string" where
  "note_bytes n = put32 (length (n_name n)) @ put32 (length (n_desc n)) @ put32 (n_type n) @ pad4 (n_name n) @ pad4 (n_desc n)"

definition note_ok :: "elf_note \<Rightarrow> bool" where
  "note_ok n \<longleftrightarrow> n_name n \<noteq> [] \<and> length (n_name n) < 2 ^ 32 \<and> length (n_desc n) < 2 ^ 32"

lemma align4_le: "n \<le> align4 n"
  by (simp add: align4_def)

lemma length_note_bytes: "length (note_bytes n) = 12 + align4 (length (n_name n)) + align4 (length (n_desc n))"
  using align4_le [of "length (n_name n)"] align4_le [of "length (n_desc n)"] by (simp add: note_bytes_def pad4_def)

lemma note_walk_step:
  assumes "note_ok n" "length pre + length (note_bytes n) \<le> m"
  shows "note_walk (pre @ note_bytes n @ post) m (length pre) = note_walk (pre @ note_bytes n @ post) m (length pre + length (note_bytes n))"
proof -
  define bs where "bs = pre @ note_bytes n @ post"
  have a: "le32 bs (length pre) = length (n_name n)"
    using le32_put32 [of "length (n_name n)" pre] assms(1) by (simp add: bs_def note_bytes_def note_ok_def)
  have b: "le32 bs (length pre + 4) = length (n_desc n)"
    using le32_put32 [of "length (n_desc n)" "pre @ put32 (length (n_name n))"] assms(1) by (simp add: bs_def note_bytes_def note_ok_def)
  have "12 \<le> length (note_bytes n)" by (simp add: length_note_bytes)
  then show ?thesis using assms unfolding bs_def [symmetric] by (subst note_walk.simps) (simp add: a b length_note_bytes note_ok_def Let_def)
qed

lemma note_walk_notes:
  "\<forall>n \<in> set ns. note_ok n \<Longrightarrow> length pre + length (concat (map note_bytes ns)) \<le> m \<Longrightarrow>
    note_walk (pre @ concat (map note_bytes ns) @ post) m (length pre)
      = note_walk (pre @ concat (map note_bytes ns) @ post) m (length pre + length (concat (map note_bytes ns)))"
proof (induction ns arbitrary: pre)
  case (Cons n ns)
  have "note_walk (pre @ note_bytes n @ concat (map note_bytes ns) @ post) m (length pre)
      = note_walk (pre @ note_bytes n @ concat (map note_bytes ns) @ post) m (length pre + length (note_bytes n))"
    by (rule note_walk_step) (use Cons.prems in auto)
  also have "\<dots> = note_walk ((pre @ note_bytes n) @ concat (map note_bytes ns) @ post) m (length (pre @ note_bytes n))" by simp
  also have "\<dots> = note_walk ((pre @ note_bytes n) @ concat (map note_bytes ns) @ post) m (length (pre @ note_bytes n) + length (concat (map note_bytes ns)))"
    by (rule Cons.IH) (use Cons.prems in auto)
  finally show ?case by (simp add: add.assoc)
qed simp

lemma note_walk_section:
  assumes "\<forall>n \<in> set ns. note_ok n"
  shows "note_walk (concat (map note_bytes ns) @ put32 0 @ rest) (length (concat (map note_bytes ns)) + 4 + length rest) 0
      = Inr (length (concat (map note_bytes ns)))"
proof -
  define S where "S = concat (map note_bytes ns)"
  have z: "le32 (S @ put32 0 @ rest) (length S) = 0" by (rule le32_put32) simp
  show ?thesis
    using note_walk_notes [OF assms, of "[]" "length S + 4 + length rest" "put32 0 @ rest"] z unfolding S_def [symmetric]
    by (simp add: note_walk.simps [of "S @ put32 0 @ rest" _ "length S"])
qed

text \<open>C30.  The notes of a section, up to a word of zeros, are measured exactly; when they fill the section, \<open>n_namesz\<close> is read behind its end.\<close>

theorem note_section:
  assumes "\<forall>n \<in> set ns. note_ok n"
  shows "note_walk (concat (map note_bytes ns) @ put32 0 @ rest) (length (concat (map note_bytes ns)) + 4 + length rest) 0
        = Inr (length (concat (map note_bytes ns)))
      \<and> note_walk (concat (map note_bytes ns)) (length (concat (map note_bytes ns))) 0 = Inl OutOfBounds"
proof -
  define S where "S = concat (map note_bytes ns)"
  have "note_walk S (length S) 0 = Inl OutOfBounds"
    using note_walk_notes [OF assms, of "[]" "length S" "[]"] unfolding S_def [symmetric]
    by (simp add: note_walk.simps [of S _ "length S"])
  then show ?thesis using note_walk_section [OF assms] unfolding S_def by simp
qed

section \<open>What the headers become\<close>

lemma elfcorehdr_read_ok: "oldmem_ok (b_env B) mem \<Longrightarrow> ppos + count \<le> 2 ^ 64 \<Longrightarrow> count < 2 ^ 31 \<Longrightarrow> elfcorehdr_read B at count ppos = Inr (Inr (old_bytes (b_env B) mem ppos count))"
proof (cases "count = 0")
  case True
  then show ?thesis by (simp add: elfcorehdr_read_def read_from_oldmem_def old_bytes_def s32_id)
qed (simp add: elfcorehdr_read_def read_from_oldmem_ok s32_id)

text \<open>A header whose memory is in the address space; the notes of one are read at once.\<close>

definition hdr_ok :: "phdr \<Rightarrow> bool" where
  "hdr_ok p \<longleftrightarrow> p_offset p + p_memsz p \<le> 2 ^ 64 \<and> (is_note p \<longrightarrow> p_memsz p < 2 ^ 31)"

lemma note_read: "oldmem_ok (b_env B) mem \<Longrightarrow> hdr_ok p \<Longrightarrow> is_note p \<Longrightarrow>
    elfcorehdr_read B at (p_memsz p) (p_offset p) = Inr (Inr (old_bytes (b_env B) mem (p_offset p) (p_memsz p)))"
  using elfcorehdr_read_ok [of B mem "p_offset p" "p_memsz p" at] by (simp add: hdr_ok_def)

definition note_size :: "vm_boot \<Rightarrow> (nat \<Rightarrow> char) \<Rightarrow> phdr \<Rightarrow> nat" where
  "note_size B mem p = (case note_walk (old_bytes (b_env B) mem (p_offset p) (p_memsz p)) (p_memsz p) 0 of Inl _ \<Rightarrow> 0 | Inr r \<Rightarrow> r)"

definition measured :: "vm_boot \<Rightarrow> (nat \<Rightarrow> char) \<Rightarrow> phdr \<Rightarrow> phdr" where
  "measured B mem p = (if is_note p then p\<lparr>p_memsz := note_size B mem p\<rparr> else p)"

lemma measured_simps [simp]: "p_type (measured B mem p) = p_type p" "p_offset (measured B mem p) = p_offset p" "p_memsz (measured B mem p) \<le> p_memsz p"
proof -
  show "p_memsz (measured B mem p) \<le> p_memsz p"
    using note_walk_le [of _ "p_memsz p" 0] by (auto simp: measured_def note_size_def split: sum.splits) fastforce
qed (simp_all add: measured_def)

lemma measured_ok: "hdr_ok p \<Longrightarrow> hdr_ok (measured B mem p)"
  using measured_simps(3) [of B mem p] unfolding hdr_ok_def measured_simps(1,2) by linarith

lemma update_result:
  "oldmem_ok (b_env B) mem \<Longrightarrow> \<forall>p \<in> set ps. hdr_ok p \<Longrightarrow> update_note_header_size B ps = Inr (Inr ps') \<Longrightarrow>
    ps' = map (measured B mem) ps"
proof (induction ps arbitrary: ps')
  case (Cons p ps)
  have r: "is_note p \<Longrightarrow> elfcorehdr_read B 0 (p_memsz p) (p_offset p) = Inr (Inr (old_bytes (b_env B) mem (p_offset p) (p_memsz p)))"
    using note_read Cons.prems(1,2) by simp
  obtain p1 ps1 where p1: "update_note_header_size B ps = Inr (Inr ps1)" "ps' = p1 # ps1" "p1 = measured B mem p"
    using Cons.prems(3) by (auto simp: bindr_ok r measured_def note_size_def split: if_splits sum.splits)
  then show ?case using Cons.IH Cons.prems(1,2) by simp
qed simp

lemma count_result:
  "nr + length (filter is_note ps) = n \<Longrightarrow> sz + sum_list (map p_memsz (filter is_note ps)) < 2 ^ 64 \<Longrightarrow>
    foldl (\<lambda>(nr, sz) p. if \<not> is_note p then (nr, sz) else (nr + 1, add64 sz (p_memsz p))) (nr, sz) ps
      = (n, sz + sum_list (map p_memsz (filter is_note ps)))"
  by (induction ps arbitrary: nr sz) (auto simp: add.assoc)

definition notes_bytes :: "vm_boot \<Rightarrow> (nat \<Rightarrow> char) \<Rightarrow> phdr list \<Rightarrow> string" where
  "notes_bytes B mem ps = concat (map (\<lambda>p. old_bytes (b_env B) mem (p_offset p) (p_memsz p)) ps)"

lemma length_notes_bytes: "length (notes_bytes B mem ps) = sum_list (map p_memsz ps)"
  by (simp add: notes_bytes_def length_concat o_def)

lemma copy_result:
  "oldmem_ok (b_env B) mem \<Longrightarrow> \<forall>p \<in> set ps. hdr_ok p \<Longrightarrow>
    copy_notes B ps buf = Inr (Inr (buf @ notes_bytes B mem (filter is_note ps)))"
  by (induction ps arbitrary: buf) (simp_all add: note_read notes_bytes_def)

text \<open>The chunk of a header, and where it goes.\<close>

definition chunk_of :: "phdr \<Rightarrow> chunk" where
  "chunk_of p = (let start = rounddown_page (p_offset p) in
     \<lparr>c_paddr = start, c_size = roundup_page (p_offset p + p_memsz p) - start, c_offset = 0\<rparr>)"

fun moved :: "nat \<Rightarrow> phdr list \<Rightarrow> phdr list" where
  "moved off [] = []"
| "moved off (p # ps) =
     (if is_load p then p\<lparr>p_offset := off + p_offset p mod PAGE_SIZE\<rparr> # moved (off + c_size (chunk_of p)) ps else p # moved off ps)"

lemma roundup_page_le: "x + 4096 \<le> 2 ^ 64 \<Longrightarrow> x \<le> roundup_page x \<and> roundup_page x < x + 4096 \<and> roundup_page x mod PAGE_SIZE = 0"
proof -
  assume x: "x + 4096 \<le> 2 ^ 64"
  have a: "roundup_page x = (x + 4095) div 4096 * 4096" using x by (simp add: roundup_page_def PAGE_SIZE_def)
  have "(x + 4095) div 4096 * 4096 + (x + 4095) mod 4096 = x + 4095" by simp
  moreover have "(x + 4095) mod 4096 < 4096" by simp
  ultimately show ?thesis unfolding a by (simp add: PAGE_SIZE_def) linarith
qed

lemma chunk_of_facts:
  assumes "p_offset p + p_memsz p + 4096 \<le> 2 ^ 63"
  shows "c_paddr (chunk_of p) + p_offset p mod PAGE_SIZE = p_offset p" "p_offset p mod PAGE_SIZE + p_memsz p \<le> c_size (chunk_of p)"
    "c_size (chunk_of p) \<le> p_memsz p + 8192" "c_paddr (chunk_of p) + c_size (chunk_of p) \<le> 2 ^ 63" "c_offset (chunk_of p) = 0"
    "roundup_page (add64 (p_offset p) (p_memsz p)) = c_paddr (chunk_of p) + c_size (chunk_of p)" "c_paddr (chunk_of p) = rounddown_page (p_offset p)"
    "PAGE_SIZE dvd c_paddr (chunk_of p)" "PAGE_SIZE dvd c_size (chunk_of p)"
proof -
  define r where "r = roundup_page (p_offset p + p_memsz p)"
  define d where "d = rounddown_page (p_offset p)"
  have r: "p_offset p + p_memsz p \<le> r" "r < p_offset p + p_memsz p + 4096" using roundup_page_le [of "p_offset p + p_memsz p"] assms by (simp_all add: r_def)
  have m: "p_offset p mod PAGE_SIZE < 4096" "p_offset p mod PAGE_SIZE \<le> p_offset p" by (simp_all add: PAGE_SIZE_def)
  have d: "d + p_offset p mod PAGE_SIZE = p_offset p" using m(2) by (simp add: d_def rounddown_page_def)
  have rd: "PAGE_SIZE dvd r" "PAGE_SIZE dvd d" by (simp_all add: r_def d_def roundup_page_def rounddown_page_def dvd_minus_mod)
  have c: "chunk_of p = \<lparr>c_paddr = d, c_size = r - d, c_offset = 0\<rparr>" by (simp add: chunk_of_def d_def r_def Let_def)
  have a: "add64 (p_offset p) (p_memsz p) = p_offset p + p_memsz p" using assms by simp
  show "c_paddr (chunk_of p) + p_offset p mod PAGE_SIZE = p_offset p" "p_offset p mod PAGE_SIZE + p_memsz p \<le> c_size (chunk_of p)"
    "c_size (chunk_of p) \<le> p_memsz p + 8192" "c_paddr (chunk_of p) + c_size (chunk_of p) \<le> 2 ^ 63" "c_offset (chunk_of p) = 0"
    "roundup_page (add64 (p_offset p) (p_memsz p)) = c_paddr (chunk_of p) + c_size (chunk_of p)" "c_paddr (chunk_of p) = rounddown_page (p_offset p)"
    "PAGE_SIZE dvd c_paddr (chunk_of p)" "PAGE_SIZE dvd c_size (chunk_of p)"
    using r m d assms rd unfolding c a r_def [symmetric] d_def [symmetric] by simp_all
qed

definition chunks_of :: "phdr list \<Rightarrow> chunk list" where
  "chunks_of ps = map chunk_of (filter is_load ps)"

lemma pow63: "n \<le> 64 \<Longrightarrow> 1 \<le> n \<Longrightarrow> (2::nat) ^ (n - 1) \<le> 2 ^ 63"
proof -
  assume "n \<le> 64" "1 \<le> n"
  then have "n - 1 \<le> 63" by simp
  then show ?thesis by (rule power_increasing) simp
qed

lemma process_result:
  assumes bits: "ec_bits C \<le> 64" "1 \<le> ec_bits C"
  shows "\<forall>p \<in> set ps. p_offset p + p_memsz p + 4096 \<le> 2 ^ 63 \<Longrightarrow> off + chunks_size (chunks_of ps) < 2 ^ (ec_bits C - 1) \<Longrightarrow>
    process_ptload C B off ps vc = Inr (Inr (ps', vc')) \<Longrightarrow> ps' = moved off ps \<and> vc' = vc @ chunks_of ps"
proof (induction ps arbitrary: off vc ps' vc')
  case (Cons p ps)
  show ?case
  proof (cases "is_load p")
    case False
    then obtain ps1 where "process_ptload C B off ps vc = Inr (Inr (ps1, vc'))" "ps' = p # ps1" using Cons.prems(3) by (auto simp: bindr_ok)
    then show ?thesis using Cons.IH [of off vc ps1 vc'] Cons.prems(1,2) False by (simp add: chunks_of_def)
  next
    case True
    define d where "d = rounddown_page (p_offset p)"
    have fit: "p_offset p + p_memsz p + 4096 \<le> 2 ^ 63" using Cons.prems(1) by simp
    note F = chunk_of_facts [OF fit]
    have sz: "off + c_size (chunk_of p) + chunks_size (chunks_of ps) < 2 ^ (ec_bits C - 1)" using Cons.prems(2) True by (simp add: chunks_of_def)
    have pw: "(2::nat) ^ (ec_bits C - 1) \<le> 2 ^ 63" "(2::nat) ^ (ec_bits C - 1) \<le> 2 ^ ec_bits C"
      by (rule pow63 [OF bits]) (rule power_increasing, simp_all)
    have size: "nat (u64 (int (roundup_page (add64 (p_offset p) (p_memsz p))) - int d)) = c_size (chunk_of p)"
      unfolding F(6) d_def F(7) [symmetric] using F(4) by (subst u64_id) simp_all
    have ch: "\<lparr>c_paddr = d, c_size = c_size (chunk_of p), c_offset = 0\<rparr> = chunk_of p" unfolding d_def F(7) [symmetric] using F(5) by (cases "chunk_of p") simp
    have dd: "p_offset p - d = p_offset p mod PAGE_SIZE" using F(1) by (simp add: d_def F(7))
    have lt: "off + p_offset p mod PAGE_SIZE < 2 ^ (ec_bits C - 1)" using sz F(2) by linarith
    have off1: "add64 off (c_size (chunk_of p)) = off + c_size (chunk_of p)" using sz pw(1) by simp
    have off2: "add64 off (p_offset p mod PAGE_SIZE) mod 2 ^ ec_bits C = off + p_offset p mod PAGE_SIZE"
    proof -
      have "off + p_offset p mod PAGE_SIZE < 2 ^ 63" using lt pw(1) by linarith
      moreover have "off + p_offset p mod PAGE_SIZE < 2 ^ ec_bits C" by (rule less_le_trans [OF lt pw(2)])
      ultimately show ?thesis by simp
    qed
    obtain ps1 where ps1: "process_ptload C B (off + c_size (chunk_of p)) ps (vc @ [chunk_of p]) = Inr (Inr (ps1, vc'))"
      "ps' = p\<lparr>p_offset := off + p_offset p mod PAGE_SIZE\<rparr> # ps1"
      using Cons.prems(3) True by (auto simp: bindr_ok Let_def d_def [symmetric] size ch dd off1 off2 split: if_splits)
    have "ps1 = moved (off + c_size (chunk_of p)) ps \<and> vc' = (vc @ [chunk_of p]) @ chunks_of ps"
      by (rule Cons.IH [OF _ _ ps1(1)]) (use Cons.prems(1) sz in simp_all)
    then show ?thesis using True ps1(2) by (simp add: chunks_of_def)
  qed
qed (simp add: chunks_of_def)

lemma set_offsets_result:
  "\<forall>m \<in> set vc. c_paddr m + c_size m \<le> 2 ^ 64 \<Longrightarrow> off + chunks_size vc < 2 ^ 63 \<Longrightarrow>
    chunks_at off (set_offsets off vc) \<and> chunks_size (set_offsets off vc) = chunks_size vc \<and> chunk_bytes E mem (set_offsets off vc) = chunk_bytes E mem vc"
  by (induction vc arbitrary: off) simp_all

lemma set_offsets_same: "m \<in> set (set_offsets off vc) \<Longrightarrow> \<exists>m' \<in> set vc. c_paddr m = c_paddr m' \<and> c_size m = c_size m'"
  by (induction vc arbitrary: off) auto

lemma vmcore_size_result: "a + chunks_size vc < 2 ^ 63 \<Longrightarrow> foldl (\<lambda>size m. add64 size (c_size m)) a vc = a + chunks_size vc"
  by (induction vc arbitrary: a) simp_all

text \<open>What a program header describes in a file, and when a header of the file describes what one of the crashed kernel did.\<close>

definition slice :: "string \<Rightarrow> phdr \<Rightarrow> string" where
  "slice img p = take (p_memsz p) (drop (p_offset p) img)"

definition points :: "vm_boot \<Rightarrow> (nat \<Rightarrow> char) \<Rightarrow> string \<Rightarrow> phdr \<Rightarrow> phdr \<Rightarrow> bool" where
  "points B mem img p p' \<longleftrightarrow> (if is_load p then p' = p\<lparr>p_offset := p_offset p'\<rparr> \<and> slice img p' = old_bytes (b_env B) mem (p_offset p) (p_memsz p) else p' = p)"

lemma moved_points:
  "\<forall>p \<in> set ps. p_offset p + p_memsz p + 4096 \<le> 2 ^ 63 \<Longrightarrow>
    list_all2 (points B mem (pre @ chunk_bytes (b_env B) mem (chunks_of ps))) ps (moved (length pre) ps)"
proof (induction ps arbitrary: pre)
  case (Cons p ps)
  show ?case
  proof (cases "is_load p")
    case False
    then show ?thesis using Cons.IH [of pre] Cons.prems by (simp add: chunks_of_def points_def)
  next
    case True
    define c where "c = chunk_of p"
    note F = chunk_of_facts [of p, folded c_def]
    have fit: "p_offset p + p_memsz p + 4096 \<le> 2 ^ 63" using Cons.prems by simp
    define bs where "bs = old_bytes (b_env B) mem (c_paddr c) (c_size c)"
    have img: "chunk_bytes (b_env B) mem (chunks_of (p # ps)) = bs @ chunk_bytes (b_env B) mem (chunks_of ps)" using True by (simp add: chunks_of_def bs_def c_def)
    have "slice (pre @ bs @ chunk_bytes (b_env B) mem (chunks_of ps)) (p\<lparr>p_offset := length pre + p_offset p mod PAGE_SIZE\<rparr>)
        = take (p_memsz p) (drop (p_offset p mod PAGE_SIZE) bs)"
      using F(2) [OF fit] by (simp add: slice_def bs_def)
    also have "\<dots> = old_bytes (b_env B) mem (p_offset p) (p_memsz p)"
    proof -
      have "min (p_memsz p) (c_size c - p_offset p mod PAGE_SIZE) = p_memsz p" using F(2) [OF fit] by simp
      then show ?thesis by (simp only: bs_def old_bytes_slice F(1) [OF fit])
    qed
    finally have "points B mem (pre @ bs @ chunk_bytes (b_env B) mem (chunks_of ps)) p (p\<lparr>p_offset := length pre + p_offset p mod PAGE_SIZE\<rparr>)"
      using True by (simp add: points_def)
    moreover have "list_all2 (points B mem ((pre @ bs) @ chunk_bytes (b_env B) mem (chunks_of ps))) ps (moved (length (pre @ bs)) ps)"
      by (rule Cons.IH) (use Cons.prems in simp)
    ultimately show ?thesis using True by (simp add: img bs_def c_def)
  qed
qed simp

lemma chunks_of_le: "\<forall>p \<in> set ps. p_offset p + p_memsz p + 4096 \<le> 2 ^ 63 \<Longrightarrow> chunks_size (chunks_of ps) \<le> sum_list (map p_memsz ps) + 8192 * length ps"
proof (induction ps)
  case (Cons p ps)
  then show ?case using chunk_of_facts(3) [of p] by (auto simp: chunks_of_def)
qed (simp add: chunks_of_def)

text \<open>Sizes that do not wrap.\<close>

definition headers_fit :: "elf_class \<Rightarrow> phdr list \<Rightarrow> bool" where
  "headers_fit C ps \<longleftrightarrow> 1 \<le> ec_bits C \<and> ec_bits C \<le> 64 \<and> (\<forall>p \<in> set ps. p_offset p + p_memsz p + 4096 \<le> 2 ^ 63)
     \<and> (\<forall>p \<in> set ps. is_note p \<longrightarrow> p_memsz p < 2 ^ 31)
     \<and> ec_ehdr C + length ps * ec_phdr C + sum_list (map p_memsz ps) + 8192 * (length ps + 2) < 2 ^ (ec_bits C - 1)"

lemma headers_fit_ok: "headers_fit C ps \<Longrightarrow> \<forall>p \<in> set ps. hdr_ok p"
  by (fastforce simp: headers_fit_def hdr_ok_def)

lemma sum_measured: "sum_list (map p_memsz (map (measured B mem) ps)) \<le> sum_list (map p_memsz ps)"
  by (induction ps) (simp_all add: add_mono)

lemma merge_result:
  assumes mem: "oldmem_ok (b_env B) mem" and fit: "headers_fit C (ns @ ls)" and ns: "\<forall>p \<in> set ns. is_note p" and ls: "\<forall>p \<in> set ls. \<not> is_note p"
    and m: "merge_note_headers C B (ec_ehdr C + length (ns @ ls) * ec_phdr C) (ns @ ls) = Inr (Inr (n, ps, esz, notes))"
  defines "N \<equiv> notes_bytes B mem (map (measured B mem) ns)"
  shows "n = length ls + 1" "esz = roundup_page (ec_ehdr C + (length ls + 1) * ec_phdr C)"
    "\<exists>nt. ps = nt # ls \<and> is_note nt \<and> p_offset nt = esz \<and> p_memsz nt = length N \<and> p_filesz nt = length N"
    "notes = N @ replicate (roundup_page (length N) - length N) (CHR 0x00)" "length N \<le> sum_list (map p_memsz ns)" "ns \<noteq> []"
proof -
  define ns' where "ns' = map (measured B mem) ns"
  note f64 = headers_fit_ok [OF fit]
  obtain ps1 where u: "update_note_header_size B (ns @ ls) = Inr (Inr ps1)" using m by (auto simp: merge_note_headers_def bindr_ok)
  have ls1: "map (measured B mem) ls = ls" using ls by (auto simp: measured_def map_idI)
  have ps1: "ps1 = ns' @ ls" using update_result [OF mem f64 u] by (simp add: ns'_def ls1)
  have fl: "filter is_note (ns' @ ls) = ns'" using ns ls by (auto simp: ns'_def filter_empty_conv filter_id_conv)
  have lN: "length N = sum_list (map p_memsz ns')" by (simp add: N_def ns'_def length_notes_bytes)
  then show le: "length N \<le> sum_list (map p_memsz ns)" using sum_measured by (simp add: ns'_def)
  have "length N < 2 ^ (ec_bits C - 1)" using le fit by (simp add: headers_fit_def)
  moreover have "(2::nat) ^ (ec_bits C - 1) \<le> 2 ^ 63" by (rule pow63) (use fit in \<open>simp_all add: headers_fit_def\<close>)
  ultimately have small: "length N < 2 ^ 63" by linarith
  have cut: "length N mod 2 ^ ec_bits C = length N"
  proof -
    have "(2::nat) ^ (ec_bits C - 1) \<le> 2 ^ ec_bits C" by (rule power_increasing) simp_all
    then show ?thesis by (intro mod_less less_le_trans [OF \<open>length N < 2 ^ (ec_bits C - 1)\<close>])
  qed
  have c: "get_note_number_and_size (ns' @ ls) = (length ns, length N)"
  proof -
    have "foldl (\<lambda>(nr, sz) p. if \<not> is_note p then (nr, sz) else (nr + 1, add64 sz (p_memsz p))) (0, 0) (ns' @ ls)
        = (length ns, 0 + sum_list (map p_memsz (filter is_note (ns' @ ls))))"
      by (rule count_result) (use small lN in \<open>simp_all only: fl, simp_all add: ns'_def\<close>)
    then show ?thesis unfolding get_note_number_and_size_def fl lN by simp
  qed
  have cp: "copy_notes B (ns' @ ls) [] = Inr (Inr N)"
  proof -
    have "\<forall>p \<in> set (ns' @ ls). hdr_ok p" using f64 measured_ok by (auto simp: ns'_def)
    then show ?thesis using copy_result [OF mem] fl by (simp add: N_def ns'_def)
  qed
  have dr: "drop (length ns) (ns' @ ls) = ls" by (simp add: ns'_def)
  have ln: "length (ns' @ ls) - length ns + 1 = length ls + 1" by (simp add: ns'_def)
  note M = m [unfolded merge_note_headers_def u bindr_simps ps1 Let_def c prod.case cp dr ln cut]
  have ne: "length ns \<noteq> 0" using M by (auto split: if_splits)
  then show "ns \<noteq> []" by simp
  have sz: "ec_ehdr C + length (ns @ ls) * ec_phdr C - (length ns - 1) * ec_phdr C = ec_ehdr C + (length ls + 1) * ec_phdr C"
  proof -
    obtain k where "length ns = Suc k" using ne by (cases "length ns") auto
    then show ?thesis by (simp add: add_mult_distrib)
  qed
  have v: "b_vmalloc B (roundup_page (length N))" using M by (auto split: if_splits)
  note M' = M [unfolded sz]
  show "n = length ls + 1" "esz = roundup_page (ec_ehdr C + (length ls + 1) * ec_phdr C)"
    "\<exists>nt. ps = nt # ls \<and> is_note nt \<and> p_offset nt = esz \<and> p_memsz nt = length N \<and> p_filesz nt = length N"
    "notes = N @ replicate (roundup_page (length N) - length N) (CHR 0x00)"
    using M' v ne by auto
qed

lemma headers_result:
  assumes mem: "oldmem_ok (b_env B) mem" and fit: "headers_fit C (ns @ ls)" and ns: "\<forall>p \<in> set ns. is_note p" and ls: "\<forall>p \<in> set ls. \<not> is_note p"
    and num: "e_phnum h = length (ns @ ls)" and layout: "\<And>h ps. length (b_bytes B h ps) = ec_ehdr C + length ps * ec_phdr C"
    and run: "load_headers C B h (ns @ ls) = Inr (Inr (h', ps, st))"
  shows "vmcore_ok st \<and> page_aligned st \<and> e_phnum h' = length ps \<and> take (ec_ehdr C + length ps * ec_phdr C) (core_image (b_env B) mem st) = b_bytes B h' ps
    \<and> (\<exists>nt ls'. ps = nt # ls' \<and> is_note nt \<and> slice (core_image (b_env B) mem st) nt = notes_bytes B mem (map (measured B mem) ns)
         \<and> list_all2 (points B mem (core_image (b_env B) mem st)) ls ls')"
proof -
  define N where "N = notes_bytes B mem (map (measured B mem) ns)"
  obtain n ps1 esz nbuf where m: "merge_note_headers C B (ec_ehdr C + length (ns @ ls) * ec_phdr C) (ns @ ls) = Inr (Inr (n, ps1, esz, nbuf))"
    using run by (auto simp: load_headers_def bindr_ok num)
  note M = merge_result [OF mem fit ns ls m, folded N_def]
  obtain nt where nt: "ps1 = nt # ls" "is_note nt" "p_offset nt = esz" "p_memsz nt = length N" using M(3) by blast
  have f: "\<forall>p \<in> set ls. p_offset p + p_memsz p + 4096 \<le> 2 ^ 63" using fit by (simp add: headers_fit_def)
  define hs where "hs = ec_ehdr C + (length ls + 1) * ec_phdr C"
  have bits: "ec_bits C \<le> 64" "1 \<le> ec_bits C" using fit by (simp_all add: headers_fit_def)
  have tot: "hs + sum_list (map p_memsz ns) + sum_list (map p_memsz ls) + 8192 * (length ls + 2) < 2 ^ (ec_bits C - 1)"
  proof -
    have "0 < length ns" using M(6) by simp
    then have "length ls + 1 \<le> length (ns @ ls)" unfolding length_append by linarith
    then have "(length ls + 1) * ec_phdr C \<le> length (ns @ ls) * ec_phdr C" by (rule mult_right_mono) simp
    then show ?thesis using fit by (simp add: headers_fit_def hs_def)
  qed
  have p63: "(2::nat) ^ (ec_bits C - 1) \<le> 2 ^ 63" by (rule pow63 [OF bits])
  have esz: "hs \<le> esz" "esz < hs + 4096"
  proof -
    have "hs + 4096 \<le> 2 ^ 64" using tot p63 by simp
    then show "hs \<le> esz" "esz < hs + 4096" using roundup_page_le [of hs] unfolding M(2) hs_def [symmetric] by simp_all
  qed
  have nts: "length nbuf < length N + 4096" "take (length N) nbuf = N" "length N \<le> length nbuf"
    using roundup_page_le [of "length N"] M(5) tot p63 by (simp_all add: M(4))
  define off where "off = esz + length nbuf"
  have ch: "off + chunks_size (chunks_of ls) < 2 ^ (ec_bits C - 1)"
    using chunks_of_le [OF f] esz(2) nts(1) M(5) tot by (simp add: off_def)
  have o63: "add64 esz (length nbuf) = off" using ch p63 by (simp add: off_def)
  obtain ps2 vc where pr: "process_ptload C B off (nt # ls) [] = Inr (Inr (ps2, vc))"
    and st: "ps = ps2" "h' = h\<lparr>e_phnum := n\<rparr>" "st = \<lparr>elfcorebuf = b_bytes B h' ps2 @ replicate (esz - length (b_bytes B h' ps2)) (CHR 0x00),
      elfnotes_buf = nbuf, vmcore_list = set_offsets off vc, vmcore_size = get_vmcore_size esz (length nbuf) (set_offsets off vc)\<rparr>"
    using run unfolding load_headers_def num m bindr_simps prod.case nt(1) process_ptload_program_headers_def set_vmcore_list_offsets_def o63 Let_def
    by (auto simp: bindr_ok simp del: process_ptload.simps)
  have nl: "\<not> is_load nt" using nt(2) by (simp add: PT_LOAD_def PT_NOTE_def)
  obtain ls' where ls': "process_ptload C B off ls [] = Inr (Inr (ls', vc))" "ps2 = nt # ls'" using pr nl by (auto simp: bindr_ok)
  have res: "ls' = moved off ls" "vc = chunks_of ls" using process_result [OF bits f ch ls'(1)] by simp_all
  have len: "length ls' = length ls" unfolding res(1) by (induction ls arbitrary: off) simp_all
  have lb: "length (b_bytes B h' ps2) = hs" using layout by (simp add: ls'(2) len hs_def)
  have le: "length (elfcorebuf st) = esz" using esz(1) by (simp add: st(3) lb)
  have "\<forall>m \<in> set vc. c_paddr m + c_size m \<le> 2 ^ 64"
    using f chunk_of_facts(4) by (fastforce simp: res(2) chunks_of_def)
  then have so: "chunks_at off (set_offsets off vc) \<and> chunks_size (set_offsets off vc) = chunks_size vc
      \<and> chunk_bytes (b_env B) mem (set_offsets off vc) = chunk_bytes (b_env B) mem vc"
    by (rule set_offsets_result) (use ch p63 res(2) in simp)
  have size: "vmcore_size st = off + chunks_size vc"
    using vmcore_size_result [of off "set_offsets off vc"] so ch p63 by (simp add: st(3) get_vmcore_size_def o63 res(2))
  have "vmcore_ok st" unfolding vmcore_ok_def le size using so ch p63 by (simp add: st(3) off_def res(2))
  moreover have "page_aligned st"
  proof -
    have "PAGE_SIZE dvd esz" by (simp add: M(2) roundup_page_def)
    moreover have "PAGE_SIZE dvd length nbuf"
    proof -
      have "length nbuf = roundup_page (length N)" using nts(3) roundup_page_le [of "length N"] M(5) tot p63 by (simp add: M(4))
      then show ?thesis by (simp add: roundup_page_def)
    qed
    moreover have "PAGE_SIZE dvd c_paddr m \<and> PAGE_SIZE dvd c_size m" if m: "m \<in> set (set_offsets off vc)" for m
    proof -
      obtain p where "p \<in> set ls" "c_paddr m = c_paddr (chunk_of p)" "c_size m = c_size (chunk_of p)"
        using set_offsets_same [OF m] by (auto simp: res(2) chunks_of_def)
      then show ?thesis using chunk_of_facts(8,9) [of p] f by simp
    qed
    ultimately show ?thesis unfolding page_aligned_def le by (simp add: st(3))
  qed
  moreover have "e_phnum h' = length ps" by (simp add: st(1,2) M(1) ls'(2) len)
  moreover have img: "core_image (b_env B) mem st = (elfcorebuf st @ nbuf) @ chunk_bytes (b_env B) mem (chunks_of ls)"
    using so by (simp add: core_image_def st(3) res(2))
  moreover have "take (ec_ehdr C + length ps * ec_phdr C) (core_image (b_env B) mem st) = b_bytes B h' ps"
    unfolding img by (simp add: st(1) st(3) ls'(2) len) (simp add: lb [unfolded ls'(2) hs_def])
  moreover have "slice (core_image (b_env B) mem st) nt = N"
    using nts(2,3) le nt(3,4) by (simp add: img slice_def)
  moreover have "list_all2 (points B mem (core_image (b_env B) mem st)) ls ls'"
    using moved_points [OF f, of B mem "elfcorebuf st @ nbuf"] le unfolding img res(1) off_def by simp
  ultimately show ?thesis using nt(2) ls'(2) st(1) unfolding N_def by blast
qed

section \<open>That it succeeds\<close>

text \<open>There is memory; \<open>vmalloc\<close> of no bytes fails.\<close>

definition alloc_ok :: "vm_boot \<Rightarrow> bool" where
  "alloc_ok B \<longleftrightarrow> (\<forall>n. b_kmalloc B n \<and> b_vmalloc B n = (0 < n) \<and> b_elem B n)"

text \<open>The notes of a header end before their section does.\<close>

definition measurable :: "vm_boot \<Rightarrow> (nat \<Rightarrow> char) \<Rightarrow> phdr \<Rightarrow> bool" where
  "measurable B mem p \<longleftrightarrow> (is_note p \<longrightarrow> (\<exists>r. note_walk (old_bytes (b_env B) mem (p_offset p) (p_memsz p)) (p_memsz p) 0 = Inr r))"

lemma update_runs:
  "oldmem_ok (b_env B) mem \<Longrightarrow> alloc_ok B \<Longrightarrow> \<forall>p \<in> set ps. hdr_ok p \<and> measurable B mem p \<Longrightarrow>
    update_note_header_size B ps = Inr (Inr (map (measured B mem) ps))"
proof (induction ps)
  case (Cons p ps)
  have r: "is_note p \<Longrightarrow> elfcorehdr_read B 0 (p_memsz p) (p_offset p) = Inr (Inr (old_bytes (b_env B) mem (p_offset p) (p_memsz p)))"
    using note_read Cons.prems(1,3) by simp
  have IH: "update_note_header_size B ps = Inr (Inr (map (measured B mem) ps))" using Cons by auto
  show ?case
  proof (cases "is_note p")
    case True
    then obtain n where w: "note_walk (old_bytes (b_env B) mem (p_offset p) (p_memsz p)) (p_memsz p) 0 = Inr n"
      using Cons.prems(3) by (auto simp: measurable_def)
    have "b_kmalloc B (p_memsz p)" using Cons.prems(2) by (simp add: alloc_ok_def)
    then show ?thesis using True r [OF True] by (simp add: IH w measured_def note_size_def)
  next
    case False
    then show ?thesis by (simp add: IH measured_def)
  qed
qed simp

lemma process_runs: "alloc_ok B \<Longrightarrow> \<exists>ps' vc'. process_ptload C B off ps vc = Inr (Inr (ps', vc'))"
proof (induction ps arbitrary: off vc)
  case (Cons p ps)
  have e: "b_elem B n" for n using Cons.prems by (simp add: alloc_ok_def)
  have "\<exists>ps' vc'. process_ptload C B off' ps vc2 = Inr (Inr (ps', vc'))" for off' vc2 by (rule Cons.IH [OF Cons.prems])
  then show ?case by (simp add: Let_def e bindr_ok split: prod.splits) fast
qed simp

text \<open>How many bytes of notes there are.\<close>

definition notes_size :: "vm_boot \<Rightarrow> (nat \<Rightarrow> char) \<Rightarrow> phdr list \<Rightarrow> nat" where
  "notes_size B mem ps = sum_list (map (note_size B mem) (filter is_note ps))"

lemma notes_size_eq: "sum_list (map p_memsz (filter is_note (map (measured B mem) ps))) = notes_size B mem ps"
  by (induction ps) (simp_all add: notes_size_def, simp add: measured_def)

lemma notes_size_le: "notes_size B mem ps \<le> sum_list (map p_memsz ps)"
  unfolding notes_size_eq [symmetric]
proof (induction ps)
  case (Cons p ps)
  then show ?case by (auto intro!: add_mono simp: trans_le_add2)
qed simp

lemma load_merge:
  assumes mem: "oldmem_ok (b_env B) mem" and al: "alloc_ok B" and fit: "headers_fit C ps" and ps: "\<forall>p \<in> set ps. measurable B mem p"
  shows "0 < notes_size B mem ps \<Longrightarrow> \<exists>n ps' esz nts. merge_note_headers C B elfsz ps = Inr (Inr (n, ps', esz, nts))"
    and "notes_size B mem ps = 0 \<Longrightarrow> merge_note_headers C B elfsz ps = Inr (Inl (- ENOMEM))"
proof -
  define ps1 where "ps1 = map (measured B mem) ps"
  define sz where "sz = notes_size B mem ps"
  have u: "update_note_header_size B ps = Inr (Inr ps1)"
    unfolding ps1_def by (rule update_runs [OF mem al]) (use headers_fit_ok [OF fit] ps in blast)
  have "sum_list (map p_memsz ps) + 8192 < 2 ^ (ec_bits C - 1)" using fit by (simp add: headers_fit_def)
  moreover have "(2::nat) ^ (ec_bits C - 1) \<le> 2 ^ 63" by (rule pow63) (use fit in \<open>simp_all add: headers_fit_def\<close>)
  ultimately have lt: "sz + 4096 < 2 ^ 63" using notes_size_le [of B mem ps] unfolding sz_def by linarith
  have g: "get_note_number_and_size ps1 = (length (filter is_note ps1), sz)"
    using count_result [of 0 ps1 "length (filter is_note ps1)" 0] lt notes_size_eq [of B mem ps]
    by (simp add: get_note_number_and_size_def sz_def ps1_def)
  have al': "b_vmalloc B n = (0 < n)" for n using al by (simp add: alloc_ok_def)
  have f: "\<forall>p \<in> set ps1. hdr_ok p" using headers_fit_ok [OF fit] measured_ok by (auto simp: ps1_def)
  show "merge_note_headers C B elfsz ps = Inr (Inl (- ENOMEM))" if "notes_size B mem ps = 0"
  proof -
    have "sz = 0" using that by (simp add: sz_def)
    then show ?thesis by (simp add: merge_note_headers_def u g Let_def al' roundup_page_def PAGE_SIZE_def)
  qed
  show "\<exists>n ps' esz nts. merge_note_headers C B elfsz ps = Inr (Inr (n, ps', esz, nts))" if "0 < notes_size B mem ps"
  proof -
    have "0 < roundup_page sz" using roundup_page_le [of sz] lt that by (simp add: sz_def)
    moreover have "filter is_note ps \<noteq> []" using that by (auto simp: notes_size_def)
    then have "filter is_note ps1 \<noteq> []" by (auto simp: ps1_def filter_empty_conv)
    ultimately show ?thesis by (simp add: merge_note_headers_def u g Let_def copy_result [OF mem f] al')
  qed
qed

lemma load_runs:
  assumes "oldmem_ok (b_env B) mem" "headers_fit C ps" "alloc_ok B" "\<forall>p \<in> set ps. measurable B mem p" "0 < notes_size B mem ps"
  shows "\<exists>x. load_headers C B h ps = Inr (Inr x)"
proof -
  obtain n ps' esz nts where m: "merge_note_headers C B (ec_ehdr C + e_phnum h * ec_phdr C) ps = Inr (Inr (n, ps', esz, nts))"
    using load_merge(1) [OF assms(1,3,2,4,5)] by blast
  obtain ps2 vc where p: "process_ptload_program_headers C B esz (length nts) ps' = Inr (Inr (ps2, vc))"
    using process_runs [OF assms(3)] unfolding process_ptload_program_headers_def by blast
  show ?thesis by (simp add: load_headers_def m p Let_def)
qed

text \<open>C23.  A crashed kernel left its headers, in the order of its program headers all notes first; the notes of none fill its section, some have
  notes; sizes and addresses do not wrap, and there is memory.  Then the headers load, and the file read from the start to the end is the new
  headers, the notes of all processors behind each other, and the memory that was described, each program header with its new offset pointing
  to the bytes it stood for.\<close>

theorem vmcore_headers:
  assumes "oldmem_ok (b_env B) mem" "alloc_ok B" "\<And>h ps. length (b_bytes B h ps) = ec_ehdr elf64 + length ps * ec_phdr elf64"
    and "read_headers elf64 B = Inr (Inr (h, ns @ ls))" "e_phnum h = length (ns @ ls)" "headers_fit elf64 (ns @ ls)"
    and "0 < notes_size B mem ns" "\<forall>p \<in> set ns. is_note p \<and> measurable B mem p" "\<forall>p \<in> set ls. \<not> is_note p" "0 < bsize"
  shows "\<exists>h' nt ls' st. parse_crash_elf64_headers B = Inr (Inr (h', nt # ls', st)) \<and> vmcore_ok st \<and> page_aligned st \<and> e_phnum h' = Suc (length ls')
    \<and> (let img = cat (vmcore_dev (b_env B, mem, st)) bsize (Suc (vmcore_size st)) 0 in
         take (ec_ehdr elf64 + Suc (length ls') * ec_phdr elf64) img = b_bytes B h' (nt # ls')
         \<and> is_note nt \<and> slice img nt = notes_bytes B mem (map (measured B mem) ns) \<and> list_all2 (points B mem img) ls ls')"
proof -
  have n: "\<forall>p \<in> set ns. is_note p" using assms(8) by blast
  have m: "\<forall>p \<in> set (ns @ ls). measurable B mem p" using assms(8,9) by (auto simp: measurable_def)
  have "0 < notes_size B mem (ns @ ls)" using assms(7) by (simp add: notes_size_def)
  then obtain h' ps st where run: "load_headers elf64 B h (ns @ ls) = Inr (Inr (h', ps, st))"
    using load_runs [OF assms(1,6,2) m, of h] by auto
  note R = headers_result [OF assms(1,6) n assms(9,5,3) run]
  then have "cat (vmcore_dev (b_env B, mem, st)) bsize (Suc (vmcore_size st)) 0 = core_image (b_env B) mem st"
    by (intro vmcore_cat assms(1,10)) simp_all
  moreover have "parse_crash_elf64_headers B = Inr (Inr (h', ps, st))" by (simp add: parse_crash_elf64_headers_def assms(4) run)
  ultimately show ?thesis using R unfolding Let_def by (metis length_Cons)
qed

text \<open>Which memory is in the file, whatever the order of the headers.\<close>

lemma note_number: "fst (get_note_number_and_size ps) = length (filter is_note ps)"
proof -
  have "fst (foldl (\<lambda>(nr, sz) p. if \<not> is_note p then (nr, sz) else (nr + 1, add64 sz (p_memsz p))) (k, sz) ps) = k + length (filter is_note ps)" for k sz
    by (induction ps arbitrary: k sz) simp_all
  from this [of 0 0] show ?thesis by (simp add: get_note_number_and_size_def)
qed

abbreviation (input) bare :: "chunk \<Rightarrow> chunk" where
  "bare m \<equiv> m\<lparr>c_offset := 0\<rparr>"

lemma process_chunks:
  "\<forall>p \<in> set ps. is_load p \<longrightarrow> p_offset p + p_memsz p + 4096 \<le> 2 ^ 63 \<Longrightarrow>
    process_ptload C B off ps vc = Inr (Inr (ps', vc')) \<Longrightarrow> vc' = vc @ chunks_of ps"
proof (induction ps arbitrary: off vc ps' vc')
  case (Cons p ps)
  show ?case
  proof (cases "is_load p")
    case False
    then obtain ps1 where "process_ptload C B off ps vc = Inr (Inr (ps1, vc'))" using Cons.prems(2) by (auto simp: bindr_ok)
    then show ?thesis using Cons.IH Cons.prems(1) False by (simp add: chunks_of_def)
  next
    case True
    define d where "d = rounddown_page (p_offset p)"
    have fit: "p_offset p + p_memsz p + 4096 \<le> 2 ^ 63" using Cons.prems(1) True by simp
    note F = chunk_of_facts [OF fit]
    have size: "nat (u64 (int (roundup_page (add64 (p_offset p) (p_memsz p))) - int d)) = c_size (chunk_of p)"
      unfolding F(6) d_def F(7) [symmetric] using F(4) by (subst u64_id) simp_all
    have ch: "\<lparr>c_paddr = d, c_size = c_size (chunk_of p), c_offset = 0\<rparr> = chunk_of p" unfolding d_def F(7) [symmetric] using F(5) by (cases "chunk_of p") simp
    obtain off1 ps1 where "process_ptload C B off1 ps (vc @ [chunk_of p]) = Inr (Inr (ps1, vc'))"
      using Cons.prems(2) True by (auto simp: bindr_ok Let_def d_def [symmetric] size ch split: if_splits)
    then have "vc' = (vc @ [chunk_of p]) @ chunks_of ps" using Cons.IH [of off1 "vc @ [chunk_of p]" ps1 vc'] Cons.prems(1) by simp
    then show ?thesis using True by (simp add: chunks_of_def)
  qed
qed (simp add: chunks_of_def)

lemma set_offsets_bare: "map bare (set_offsets off vc) = map bare vc"
  by (induction vc arbitrary: off) simp_all

lemma bare_chunks: "map bare (chunks_of ps) = chunks_of ps"
  by (simp add: chunks_of_def chunk_of_def Let_def)

lemma measured_loads: "filter is_load (map (measured B mem) ps) = filter is_load ps"
  by (induction ps) (auto simp: measured_def PT_LOAD_def PT_NOTE_def)

text \<open>C36.  The headers that are taken away are as many as there are notes, from the front of the table: with all notes there, these are the notes
  (C23), but a piece of memory described between them, or before them, is not in the file.  For headers in any order whose sizes and addresses
  do not wrap and of whose notes none fills its section, with memory and some notes there: they load, and the pieces of memory in the
  file are, in their order, the pages around those that the remaining headers describe, and no others.\<close>

theorem vmcore_headers_order:
  assumes "oldmem_ok (b_env B) mem" "alloc_ok B" "headers_fit C ps" "\<forall>p \<in> set ps. measurable B mem p" "0 < notes_size B mem ps"
  shows "\<exists>h' nt ps' st. load_headers C B h ps = Inr (Inr (h', nt # ps', st))
    \<and> map (\<lambda>m. m\<lparr>c_offset := 0\<rparr>) (vmcore_list st) = map chunk_of (filter is_load (drop (length (filter is_note ps)) ps))"
proof -
  define ps1 where "ps1 = map (measured B mem) ps"
  obtain h' ps' st where run: "load_headers C B h ps = Inr (Inr (h', ps', st))" using load_runs [OF assms(1,3,2,4,5), of h] by auto
  then obtain n ps2 esz nts where m: "merge_note_headers C B (ec_ehdr C + e_phnum h * ec_phdr C) ps = Inr (Inr (n, ps2, esz, nts))"
    by (auto simp: load_headers_def bindr_ok)
  then obtain ps3 where u: "update_note_header_size B ps = Inr (Inr ps3)" by (auto simp: merge_note_headers_def bindr_ok)
  have ps3: "ps3 = ps1" using update_result [OF assms(1) headers_fit_ok [OF assms(3)] u] by (simp add: ps1_def)
  obtain nr sz where g: "get_note_number_and_size ps1 = (nr, sz)" by fastforce
  have "nr = length (filter is_note ps1)" using note_number [of ps1] g by simp
  also have "\<dots> = length (filter is_note ps)" by (simp add: ps1_def filter_map o_def)
  finally have nr: "nr = length (filter is_note ps)" .
  obtain nt where nt: "ps2 = nt # drop nr ps1" "is_note nt"
    using m by (auto simp: merge_note_headers_def u ps3 g Let_def bindr_ok split: if_splits)
  obtain off vc off' where p: "process_ptload C B off ps2 [] = Inr (Inr (ps', vc))" and st: "vmcore_list st = set_offsets off' vc"
    using run by (auto simp: load_headers_def m bindr_ok process_ptload_program_headers_def set_vmcore_list_offsets_def Let_def)
  have nl: "\<not> is_load nt" using nt(2) by (simp add: PT_LOAD_def PT_NOTE_def)
  obtain ps4 where ps4: "ps' = nt # ps4" using p nl unfolding nt(1) by (auto simp: bindr_ok)
  have loads: "filter is_load ps2 = filter is_load (drop nr ps)"
    using nl measured_loads [of B mem "drop nr ps"] by (simp add: nt(1) ps1_def drop_map)
  have "\<forall>p \<in> set (filter is_load ps2). p_offset p + p_memsz p + 4096 \<le> 2 ^ 63"
    using assms(3) unfolding loads by (auto simp: headers_fit_def dest: in_set_dropD)
  then have "vc = chunks_of ps2" using process_chunks [OF _ p] by simp
  then have "map bare (vmcore_list st) = chunks_of ps2" by (simp only: st set_offsets_bare bare_chunks)
  also have "\<dots> = map chunk_of (filter is_load (drop nr ps))" by (simp add: chunks_of_def loads)
  finally show ?thesis using run ps4 unfolding nr by blast
qed

text \<open>A crashed kernel that left no notes is refused as if there were no memory: the buffer for them would have no bytes.\<close>

theorem vmcore_no_note:
  assumes "oldmem_ok (b_env B) mem" "alloc_ok B" "headers_fit C ps" "\<forall>p \<in> set ps. measurable B mem p" "notes_size B mem ps = 0"
  shows "load_headers C B h ps = Inr (Inl (- ENOMEM))"
  by (simp add: load_headers_def load_merge(2) [OF assms])

section \<open>A run\<close>

text \<open>A crashed kernel with one note at 4096 and a piece of memory at 8195; its headers are at 0.\<close>

definition note_image :: string where
  "note_image = note_bytes (Note ''A'' ''xy'' 1) @ put32 0"

definition boot_mem :: "nat \<Rightarrow> char" where
  "boot_mem a = (if 4096 \<le> a \<and> a < 4096 + 24 then note_image ! (a - 4096) else char_of (a mod 256))"

definition boot_hdr :: elf_hdr where
  "boot_hdr = \<lparr>e_ident = ELFMAG @ [CHR 0x02, CHR 0x01, CHR 0x01], e_type = ET_CORE, e_machine = 62, e_version = 1, e_ehsize = 64, e_phentsize = 56, e_phnum = 2\<rparr>"

definition boot_phdr :: "nat \<Rightarrow> nat \<Rightarrow> nat \<Rightarrow> phdr" where
  "boot_phdr t off n = \<lparr>p_type = t, p_flags = 0, p_offset = off, p_vaddr = 0, p_paddr = off, p_filesz = n, p_memsz = n, p_align = 0\<rparr>"

definition boot_env :: vm_boot where
  "boot_env = \<lparr>b_env = \<lparr>v_ram = None, v_copy = (\<lambda>pfn nr off at u. Inr (map boot_mem [pfn * PAGE_SIZE + off ..< pfn * PAGE_SIZE + off + nr])), v_user = (\<lambda>_ _. True)\<rparr>,
     b_addr = 0, b_kmalloc = (\<lambda>_. True), b_vmalloc = (\<lambda>n. 0 < n), b_pages = (\<lambda>_. True), b_elem = (\<lambda>_. True),
     b_ehdr = (\<lambda>_. boot_hdr), b_phdrs = (\<lambda>_ _. [boot_phdr PT_NOTE 4096 24] @ [boot_phdr PT_LOAD 8195 8]), b_bytes = (\<lambda>h ps. replicate (64 + length ps * 56) (CHR 0x00)), b_arch = (\<lambda>_. True)\<rparr>"

lemma boot_mem_ok: "oldmem_ok (b_env boot_env) boot_mem"
  by (simp add: oldmem_ok_def boot_env_def)

lemma note_image_length: "length note_image = 24"
  by (simp add: note_image_def length_note_bytes align4_def)

lemma boot_note: "old_bytes (b_env boot_env) boot_mem 4096 24 = note_image"
proof (rule nth_equalityI)
  show "length (old_bytes (b_env boot_env) boot_mem 4096 24) = length note_image" by (simp add: note_image_length)
  have nth: "old_bytes E mem a n ! i = old_byte E mem (a + i)" if "i < n" for E mem a n i using that by (simp add: old_bytes_def)
  show "old_bytes (b_env boot_env) boot_mem 4096 24 ! i = note_image ! i" if "i < length (old_bytes (b_env boot_env) boot_mem 4096 24)" for i
    using that by (subst nth) (simp_all add: old_byte_def boot_mem_def boot_env_def pfn_is_ram_def)
qed

lemma boot_fit: "headers_fit elf64 ([boot_phdr PT_NOTE 4096 24] @ [boot_phdr PT_LOAD 8195 8])"
  by (simp add: headers_fit_def elf64_def boot_phdr_def)

lemma boot_walk: "note_walk (old_bytes (b_env boot_env) boot_mem 4096 24) 24 0 = Inr 20"
  using note_walk_section [of "[Note ''A'' ''xy'' 1]" "[]"] unfolding boot_note by (simp add: note_image_def length_note_bytes align4_def note_ok_def)

lemma boot_measurable: "measurable boot_env boot_mem (boot_phdr PT_NOTE 4096 24)" "measurable boot_env boot_mem (boot_phdr PT_LOAD 8195 8)"
  using boot_walk by (simp_all add: measurable_def boot_phdr_def PT_LOAD_def PT_NOTE_def)

lemma boot_size: "notes_size boot_env boot_mem [boot_phdr PT_NOTE 4096 24] = 20" "notes_size boot_env boot_mem [boot_phdr PT_LOAD 8195 8] = 0"
  using boot_walk by (simp_all add: notes_size_def note_size_def boot_phdr_def PT_LOAD_def PT_NOTE_def)

lemma boot_read: "read_headers elf64 boot_env = Inr (Inr (boot_hdr, [boot_phdr PT_NOTE 4096 24] @ [boot_phdr PT_LOAD 8195 8]))"
proof -
  have r: "elfcorehdr_read boot_env 0 n (b_addr boot_env) = Inr (Inr (old_bytes (b_env boot_env) boot_mem 0 n))" if "n < 1000" for n
    using elfcorehdr_read_ok [OF boot_mem_ok, of 0 n] that by (simp add: boot_env_def)
  have k: "b_ehdr boot_env bs = boot_hdr" "b_pages boot_env n" "b_phdrs boot_env n bs = [boot_phdr PT_NOTE 4096 24] @ [boot_phdr PT_LOAD 8195 8]" for bs n
    by (simp_all add: boot_env_def)
  have "header_sane elf64 boot_env boot_hdr"
    by (simp add: header_sane_def boot_hdr_def elf64_def ELFMAG_def ET_CORE_def EV_CURRENT_def boot_env_def)
  then show ?thesis by (simp add: read_headers_def r k Let_def elf64_def boot_hdr_def)
qed

theorem vmcore_headers_witness:
  "\<exists>h' nt ls' st. parse_crash_elf64_headers boot_env = Inr (Inr (h', nt # ls', st)) \<and> vmcore_ok st \<and> page_aligned st \<and> e_phnum h' = Suc (length ls')
    \<and> (let img = cat (vmcore_dev (b_env boot_env, boot_mem, st)) 512 (Suc (vmcore_size st)) 0 in
         take (ec_ehdr elf64 + Suc (length ls') * ec_phdr elf64) img = b_bytes boot_env h' (nt # ls')
         \<and> is_note nt \<and> slice img nt = notes_bytes boot_env boot_mem (map (measured boot_env boot_mem) [boot_phdr PT_NOTE 4096 24])
         \<and> list_all2 (points boot_env boot_mem img) [boot_phdr PT_LOAD 8195 8] ls')"
proof (rule vmcore_headers [OF boot_mem_ok _ _ boot_read _ boot_fit])
  show "alloc_ok boot_env" by (simp add: alloc_ok_def boot_env_def)
  show "length (b_bytes boot_env h ps) = ec_ehdr elf64 + length ps * ec_phdr elf64" for h ps by (simp add: boot_env_def elf64_def)
  show "\<forall>p \<in> set [boot_phdr PT_NOTE 4096 24]. is_note p \<and> measurable boot_env boot_mem p" using boot_measurable(1) by (simp add: boot_phdr_def)
  show "\<forall>p \<in> set [boot_phdr PT_LOAD 8195 8]. \<not> is_note p" by (simp add: boot_phdr_def PT_LOAD_def PT_NOTE_def)
qed (simp_all add: boot_hdr_def boot_size)

theorem vmcore_headers_order_witness:
  "\<exists>h' nt ps' st. load_headers elf64 boot_env boot_hdr [boot_phdr PT_LOAD 8195 8, boot_phdr PT_NOTE 4096 24] = Inr (Inr (h', nt # ps', st)) \<and> vmcore_list st = []"
proof -
  have n: "length (filter is_note [boot_phdr PT_LOAD 8195 8, boot_phdr PT_NOTE 4096 24]) = 1" by (simp add: boot_phdr_def PT_LOAD_def PT_NOTE_def)
  have d: "filter is_load (drop 1 [boot_phdr PT_LOAD 8195 8, boot_phdr PT_NOTE 4096 24]) = []" by (simp add: boot_phdr_def PT_LOAD_def PT_NOTE_def)
  have "\<exists>h' nt ps' st. load_headers elf64 boot_env boot_hdr [boot_phdr PT_LOAD 8195 8, boot_phdr PT_NOTE 4096 24] = Inr (Inr (h', nt # ps', st))
      \<and> map bare (vmcore_list st) = map chunk_of (filter is_load (drop 1 [boot_phdr PT_LOAD 8195 8, boot_phdr PT_NOTE 4096 24]))"
  proof (rule vmcore_headers_order [OF boot_mem_ok, of elf64 "[boot_phdr PT_LOAD 8195 8, boot_phdr PT_NOTE 4096 24]", unfolded n])
    show "alloc_ok boot_env" by (simp add: alloc_ok_def boot_env_def)
    show "headers_fit elf64 [boot_phdr PT_LOAD 8195 8, boot_phdr PT_NOTE 4096 24]" using boot_fit by (auto simp: headers_fit_def add_ac)
    show "0 < notes_size boot_env boot_mem [boot_phdr PT_LOAD 8195 8, boot_phdr PT_NOTE 4096 24]" using boot_size by (simp add: notes_size_def)
  qed (use boot_measurable in simp)
  then show ?thesis unfolding d by simp
qed

theorem note_section_witness:
  "note_walk (concat (map note_bytes [Note ''A'' ''xy'' 1]) @ put32 0 @ ''..'') (length (concat (map note_bytes [Note ''A'' ''xy'' 1])) + 4 + length ''..'') 0
      = Inr (length (concat (map note_bytes [Note ''A'' ''xy'' 1])))
    \<and> note_walk (concat (map note_bytes [Note ''A'' ''xy'' 1])) (length (concat (map note_bytes [Note ''A'' ''xy'' 1]))) 0 = Inl OutOfBounds"
  by (rule note_section) (simp add: note_ok_def)

theorem vmcore_no_note_witness: "load_headers elf64 boot_env boot_hdr [boot_phdr PT_LOAD 8195 8] = Inr (Inl (- ENOMEM))"
proof (rule vmcore_no_note [OF boot_mem_ok])
  show "alloc_ok boot_env" by (simp add: alloc_ok_def boot_env_def)
  show "headers_fit elf64 [boot_phdr PT_LOAD 8195 8]" using boot_fit by (simp add: headers_fit_def)
qed (simp_all add: boot_size boot_measurable)

end
