(* ===== verification/ProcCmdline.thy ===== *)
theory ProcCmdline imports ProcFs begin

text \<open>
  The command line of a process, \<open>/proc/<pid>/cmdline\<close>: \<open>proc_pid_cmdline_read\<close> of \<open>fs/proc/base.c\<close>, the same in both copies.  The
  arguments of a process end with a zero byte; a process that overwrites them with one longer text lets it run on into its environment, and then the
  text up to its first zero is the command line.  \<open>access_remote_vm\<close> is a parameter.  Shown: what a read delivers from every position, that
  reading to the end gives the command line in both cases, that reading from behind the end of the one text delivers the environment, and
  that everything acquired is released.
\<close>

section \<open>Reading\<close>

record cmd_mm = mm_struct +
  mm_arg_start :: int
  mm_arg_end :: int

abbreviation not_nul :: "char \<Rightarrow> bool" where "not_nul c \<equiv> c \<noteq> CHR 0x00"

definition strnlen :: "string \<Rightarrow> nat \<Rightarrow> nat" where
  "strnlen s n = length (takeWhile not_nul (take n s))"

text \<open>The three loops; the second and the third stop at a zero (\<open>eos\<close>).  The results: whether the read is finished
  (\<open>goto out_free_page\<close>), \<open>rv\<close>, \<open>count\<close>, how far \<open>buf\<close> has moved and what the user got.\<close>

fun cmdline_loop :: "kenv \<Rightarrow> (int \<Rightarrow> nat \<Rightarrow> int \<times> string) \<Rightarrow> bool \<Rightarrow> nat \<Rightarrow> nat \<Rightarrow> int \<Rightarrow> nat \<Rightarrow> nat \<Rightarrow> int \<Rightarrow>
    fault + bool \<times> int \<times> nat \<times> nat \<times> string" where
  "cmdline_loop K vm eos 0 count p len off rv = Inl NonTerminating"
| "cmdline_loop K vm eos (Suc fuel) count p len off rv =
     (if count = 0 \<or> len = 0 then Inr (False, rv, count, off, [])
      else (case vm p (min (min count len) PAGE_SIZE) of (nr_read, page) \<Rightarrow>
        if nr_read \<le> 0 then Inr (True, if nr_read < 0 then nr_read else rv, count, off, [])
        else
          let l = (if eos then strnlen page (nat nr_read) else nat nr_read); final = l < nat nr_read in
          if k_copy_to_user K off l \<noteq> 0 then Inr (True, - EFAULT, count, off, copied_out K off (take l page))
          else if final then Inr (True, rv + int l, count - l, off + l, take l page)
          else (case cmdline_loop K vm eos fuel (count - l) (u64 (p + int l)) (len - l) (off + l) (rv + int l) of
              Inl e \<Rightarrow> Inl e
            | Inr (stop, rv, count, off, out) \<Rightarrow> Inr (stop, rv, count, off, take l page @ out))))"

text \<open>What happens with the page allocated; the result is \<open>rv\<close> and what the user got.\<close>

definition cmdline_body :: "kenv \<Rightarrow> (int \<Rightarrow> nat \<Rightarrow> int \<times> string) \<Rightarrow> cmd_mm \<Rightarrow> nat \<Rightarrow> nat \<Rightarrow> fault + int \<times> string" where
  "cmdline_body K vm mm count pos =
     (let arg_start = mm_arg_start mm; arg_end = mm_arg_end mm; env_start = mm_env_start mm; env_end = mm_env_end mm in
      if arg_start > arg_end \<or> env_start > env_end then Inl BugOn
      else
        let len1 = nat (arg_end - arg_start); len2 = nat (env_end - env_start) in
        if len1 = 0 then Inr (0, [])
        else (case vm (u64 (arg_end - 1)) 1 of (rv, c) \<Rightarrow>
          if rv \<le> 0 then Inr (rv, [])
          else if c ! 0 = CHR 0x00 then
            if len1 \<le> pos then Inr (0, [])
            else (case cmdline_loop K vm False (Suc count) count (u64 (arg_start + int pos)) (len1 - pos) 0 0 of
                Inl e \<Rightarrow> Inl e | Inr (stop, rv, count, off, out) \<Rightarrow> Inr (rv, out))
          else if u64 (int (len1 + len2)) \<le> int pos then Inr (0, [])
          else
            (case (if len1 \<le> pos then Inr (False, 0, count, 0, [])
                   else cmdline_loop K vm True (Suc count) count (u64 (arg_start + int pos)) (len1 - pos) 0 0) of
              Inl e \<Rightarrow> Inl e
            | Inr (stop, rv, count, off, out) \<Rightarrow>
                if stop then Inr (rv, out)
                else
                  let p = (if len1 \<le> pos then u64 (env_start + int pos - int len1) else env_start);
                      len = (if len1 \<le> pos then len1 + len2 - pos else len2) in
                  (case cmdline_loop K vm True (Suc count) count p len off rv of
                    Inl e \<Rightarrow> Inl e | Inr (_, rv, _, _, out') \<Rightarrow> Inr (rv, out @ out')))))"

text \<open>The whole function.  \<open>tsk\<close>: whether the process is still there; \<open>mm\<close>: its memory, if it has some.\<close>

definition proc_pid_cmdline_read ::
  "kenv \<Rightarrow> (int \<Rightarrow> nat \<Rightarrow> int \<times> string) \<Rightarrow> bool \<Rightarrow> cmd_mm option \<Rightarrow> nat \<Rightarrow> int \<Rightarrow> fault + int \<times> int \<times> string \<times> kcall list" where
  "proc_pid_cmdline_read K vm tsk mm count pos =
     (if pos < 0 then Inl BugOn
      else if \<not> tsk then Inr (- ESRCH, pos, [], [])
      else (case mm of
          None \<Rightarrow> Inr (0, pos, [], [Acq TaskRef, Rel TaskRef])
        | Some mm \<Rightarrow>
            if mm_env_end mm = 0 then Inr (0, pos, [], [Acq TaskRef, Acq (Mem ''mm''), Rel TaskRef, Rel (Mem ''mm'')])
            else if \<not> k_kmalloc K ''cmdline'' 4096 then Inr (- ENOMEM, pos, [], [Acq TaskRef, Acq (Mem ''mm''), Rel TaskRef, Rel (Mem ''mm'')])
            else (case cmdline_body K vm mm count (nat pos) of
                Inl e \<Rightarrow> Inl e
              | Inr (rv, out) \<Rightarrow> Inr (rv, if rv > 0 then pos + rv else pos, out,
                  [Acq TaskRef, Acq (Mem ''mm''), Rel TaskRef, Acq (Mem ''page''), Acq (RdLock ''mmap_sem''), Rel (RdLock ''mmap_sem''),
                   Rel (Mem ''page''), Rel (Mem ''mm'')]))))"

section \<open>Devices whose text depends on where a read starts\<close>

text \<open>Reading on after \<open>k\<close> bytes gives the rest; reading from elsewhere may give something else.\<close>

locale view_reader =
  fixes read :: "'s \<Rightarrow> nat \<Rightarrow> int \<Rightarrow> int \<times> int \<times> string"
    and view :: "'s \<Rightarrow> nat \<Rightarrow> string"
    and ready :: "'s \<Rightarrow> bool"
  assumes read_view: "ready s \<Longrightarrow> 0 \<le> pos \<Longrightarrow>
      read s len pos = (int (length (take len (view s (nat pos)))), pos + int (length (take len (view s (nat pos)))), take len (view s (nat pos)))"
    and view_drop: "ready s \<Longrightarrow> k \<le> length (view s p) \<Longrightarrow> view s (p + k) = drop k (view s p)"
begin

lemma cat_view:
  "ready s \<Longrightarrow> 0 < bsize \<Longrightarrow> length (view s p) < fuel \<Longrightarrow> cat (read s) bsize fuel (int p) = view s p"
proof (induction fuel arbitrary: p)
  case (Suc fuel)
  define n where "n = length (take bsize (view s p))"
  have r: "read s bsize (int p) = (int n, int (p + n), take bsize (view s p))" using read_view [OF Suc.prems(1), of "int p" bsize] by (simp add: n_def)
  show ?case
  proof (cases "view s p = []")
    case True
    then show ?thesis using r by (simp add: n_def)
  next
    case False
    then have n: "0 < n" "n \<le> length (view s p)" using Suc.prems(2) by (auto simp: n_def)
    have v: "view s (p + n) = drop n (view s p)" by (rule view_drop [OF Suc.prems(1) n(2)])
    have "cat (read s) bsize fuel (int (p + n)) = view s (p + n)" by (rule Suc.IH) (use Suc.prems n v in simp_all)
    moreover have "take bsize (view s p) @ drop n (view s p) = view s p" by (cases "bsize \<le> length (view s p)") (simp_all add: n_def)
    ultimately show ?thesis using n by (simp add: r v)
  qed
qed simp

end

text \<open>A device that serves one text is a special case.\<close>

sublocale pos_reader \<subseteq> view: view_reader read "\<lambda>s p. drop p (content s)" ready
  by unfold_locales (simp_all add: read_at add.commute)

section \<open>What a read delivers\<close>

text \<open>The memory of the process from \<open>base\<close> on holds the text.\<close>

definition holds_text :: "(int \<Rightarrow> nat \<Rightarrow> int \<times> string) \<Rightarrow> int \<Rightarrow> string \<Rightarrow> bool" where
  "holds_text vm base text \<longleftrightarrow> 0 \<le> base \<and> base + int (length text) < 2 ^ 63
     \<and> (\<forall>k n. k + n \<le> length text \<longrightarrow> vm (base + int k) n = (int n, take n (drop k text)))"

definition upto_nul :: "bool \<Rightarrow> string \<Rightarrow> string" where
  "upto_nul eos s = (if eos then takeWhile not_nul s else s)"

lemma upto_nul_append: "upto_nul eos (xs @ ys) = (if eos \<and> CHR 0x00 \<in> set xs then upto_nul eos xs else xs @ upto_nul eos ys)"
proof (cases "CHR 0x00 \<in> set xs")
  case True
  then show ?thesis by (auto simp: upto_nul_def)
next
  case False
  then have "\<And>c. c \<in> set xs \<Longrightarrow> not_nul c" by metis
  then show ?thesis using False by (simp add: upto_nul_def takeWhile_append2)
qed

lemma takeWhile_shorter: "CHR 0x00 \<in> set xs \<Longrightarrow> length (takeWhile not_nul xs) < length xs"
  by (induction xs) auto

lemma loop_delivers:
  assumes K: "\<forall>i n. k_copy_to_user K i n = 0" and ht: "holds_text vm base text"
  shows "count < fuel \<Longrightarrow> k \<le> length text \<Longrightarrow>
    cmdline_loop K vm eos fuel count (base + int k) (length text - k) off rv =
      (let d = take count (upto_nul eos (drop k text)) in
       Inr (eos \<and> CHR 0x00 \<in> set (take count (drop k text)), rv + int (length d), count - length d, off + length d, d))"
proof (induction fuel arbitrary: count k off rv)
  case (Suc fuel)
  show ?case
  proof (cases "count = 0 \<or> length text - k = 0")
    case True
    then have e: "take count (drop k text) = []" "take count (upto_nul eos (drop k text)) = []" by (auto simp: upto_nul_def)
    show ?thesis unfolding e using True by simp
  next
    case False
    define n where "n = min (min count (length text - k)) PAGE_SIZE"
    define page where "page = take n (drop k text)"
    define rest where "rest = drop (k + n) text"
    have n: "0 < n" "n \<le> count" "k + n \<le> length text" using False by (auto simp: n_def PAGE_SIZE_def)
    have vm: "vm (base + int k) n = (int n, page)" using ht n(3) by (simp add: holds_text_def page_def)
    have lp: "length page = n" using n(3) by (simp add: page_def)
    have whole: "drop k text = page @ rest" using append_take_drop_id [of n "drop k text"] by (simp add: page_def rest_def add.commute)
    have cnt: "take count (drop k text) = page @ take (count - n) rest" using n(2) by (simp add: whole lp)
    define l where "l = (if eos then strnlen page n else n)"
    have l: "take l page = upto_nul eos page" "l \<le> n"
    proof -
      have "take (length (takeWhile not_nul page)) page = takeWhile not_nul page" by (metis takeWhile_eq_take)
      moreover have "take n page = page" using lp by simp
      ultimately show "take l page = upto_nul eos page" "l \<le> n"
        using length_takeWhile_le [of not_nul page] lp by (simp_all add: l_def upto_nul_def strnlen_def)
    qed
    have ll: "length (upto_nul eos page) = l" unfolding l(1) [symmetric] using l(2) lp by simp
    have fin: "l < n \<longleftrightarrow> eos \<and> CHR 0x00 \<in> set page"
    proof (cases "eos \<and> CHR 0x00 \<in> set page")
      case True
      then have "length (takeWhile not_nul page) < length page" by (simp add: takeWhile_shorter)
      then show ?thesis using True ll l(2) lp by (simp add: upto_nul_def)
    next
      case False
      then have "upto_nul eos page = page" using upto_nul_append [of eos page "[]"] by (simp add: upto_nul_def)
      then show ?thesis using False ll lp by simp
    qed
    have step: "cmdline_loop K vm eos (Suc fuel) count (base + int k) (length text - k) off rv =
        (if l < n then Inr (True, rv + int l, count - l, off + l, upto_nul eos page)
         else (case cmdline_loop K vm eos fuel (count - l) (u64 (base + int k + int l)) (length text - k - l) (off + l) (rv + int l) of
            Inl e \<Rightarrow> Inl e | Inr (stop, rv, count, off, out) \<Rightarrow> Inr (stop, rv, count, off, upto_nul eos page @ out)))"
    proof -
      have c: "(count = 0 \<or> length text - k = 0) = False" "(int n \<le> 0) = False" "k_copy_to_user K off l = 0" using False n(1) K by simp_all
      show ?thesis by (simp only: cmdline_loop.simps n_def [symmetric] c vm prod.case if_False Let_def nat_int l_def [symmetric] l(1) simp_thms)
    qed
    show ?thesis
    proof (cases "l < n")
      case True
      then have z: "eos" "CHR 0x00 \<in> set page" using fin by simp_all
      have d: "take count (upto_nul eos (drop k text)) = upto_nul eos page"
        using z ll l(2) n(2) by (simp add: whole upto_nul_append)
      show ?thesis unfolding step d Let_def ll cnt using True z by simp
    next
      case False
      then have nl: "l = n" using l(2) by simp
      have nf: "\<not> (eos \<and> CHR 0x00 \<in> set page)" using False fin by simp
      then have cp: "upto_nul eos page = page" using upto_nul_append [of eos page "[]"] by (simp add: upto_nul_def)
      have d: "take count (upto_nul eos (drop k text)) = page @ take (count - n) (upto_nul eos rest)"
        unfolding whole upto_nul_append if_not_P [OF nf] using n(2) by (simp add: lp)
      have st: "(eos \<and> CHR 0x00 \<in> set (take count (drop k text))) = (eos \<and> CHR 0x00 \<in> set (take (count - n) rest))"
        using nf unfolding cnt by auto
      have u: "u64 (base + int k + int l) = base + int (k + n)" using ht n(3) by (simp add: nl holds_text_def u64_id)
      have IH: "cmdline_loop K vm eos fuel (count - n) (base + int (k + n)) (length text - (k + n)) (off + n) (rv + int n) =
        (let d = take (count - n) (upto_nul eos rest) in
         Inr (eos \<and> CHR 0x00 \<in> set (take (count - n) rest), rv + int n + int (length d), count - n - length d, off + n + length d, d))"
        unfolding rest_def by (rule Suc.IH) (use Suc.prems n in simp_all)
      show ?thesis unfolding step u d st cp using False IH by (simp add: nl Let_def lp)
    qed
  qed
qed simp

lemma loop_returns: "count < fuel \<Longrightarrow> \<exists>stop rv' count' off' out. cmdline_loop K vm eos fuel count p len off rv = Inr (stop, rv', count', off', out) \<and> count' \<le> count"
proof (induction fuel arbitrary: count p len off rv)
  case (Suc fuel)
  obtain nr page where v: "vm p (min (min count len) PAGE_SIZE) = (nr, page)" by fastforce
  define l where "l = (if eos then strnlen page (nat nr) else nat nr)"
  have IH: "\<exists>stop rv' count' off' out. cmdline_loop K vm eos fuel (count - l) p2 len2 off2 rv2 = Inr (stop, rv', count', off', out) \<and> count' \<le> count"
    if "count \<noteq> 0" "l \<noteq> 0" for p2 len2 off2 rv2
  proof -
    have "count - l < fuel" using that Suc.prems by simp
    from Suc.IH [OF this, of p2 len2 off2 rv2] show ?thesis by (metis diff_le_self le_trans)
  qed
  have step: "cmdline_loop K vm eos (Suc fuel) count p len off rv =
     (if count = 0 \<or> len = 0 then Inr (False, rv, count, off, [])
      else if nr \<le> 0 then Inr (True, if nr < 0 then nr else rv, count, off, [])
      else if k_copy_to_user K off l \<noteq> 0 then Inr (True, - EFAULT, count, off, copied_out K off (take l page))
      else if l < nat nr then Inr (True, rv + int l, count - l, off + l, take l page)
      else (case cmdline_loop K vm eos fuel (count - l) (u64 (p + int l)) (len - l) (off + l) (rv + int l) of
              Inl e \<Rightarrow> Inl e | Inr (stop, rv, count, off, out) \<Rightarrow> Inr (stop, rv, count, off, take l page @ out)))"
    by (simp only: cmdline_loop.simps v prod.case Let_def l_def [symmetric])
  show ?case
  proof (cases "count = 0 \<or> len = 0 \<or> nr \<le> 0 \<or> k_copy_to_user K off l \<noteq> 0 \<or> l < nat nr")
    case True
    then show ?thesis unfolding step by auto
  next
    case False
    then have "count \<noteq> 0" "l \<noteq> 0" by auto
    from IH [OF this, of "u64 (p + int l)" "len - l" "off + l" "rv + int l"] show ?thesis unfolding step using False by auto
  qed
qed simp

declare cmdline_loop.simps [simp del]

text \<open>Whatever the memory of the process and of the user is, the read returns and gives back all that it took.\<close>

theorem cmdline_returns:
  assumes "0 \<le> pos" "\<And>mm. m = Some mm \<Longrightarrow> mm_arg_start mm \<le> mm_arg_end mm \<and> mm_env_start mm \<le> mm_env_end mm"
  shows "\<exists>rv pos' out tr. proc_pid_cmdline_read K vm tsk m count pos = Inr (rv, pos', out, tr) \<and> balanced tr \<and> pos' = (if rv > 0 then pos + rv else pos)"
proof -
  have body: "\<exists>rv out. cmdline_body K vm mm count p = Inr (rv, out)" if "m = Some mm" for mm p
  proof -
    have w: "\<not> (mm_arg_start mm > mm_arg_end mm \<or> mm_env_start mm > mm_env_end mm)" using assms(2) [OF that] by simp
    have L: "\<exists>stop rv c' off' out. cmdline_loop K vm eos (Suc c) c q len off r = Inr (stop, rv, c', off', out)" for eos c q len off r
      using loop_returns [of c "Suc c" K vm eos q len off r] by blast
    have L3: "\<exists>stop rv c' off' out. (if b then Inr (False, 0, count, 0, []) else cmdline_loop K vm True (Suc count) count q len 0 0) = Inr (stop, rv, c', off', out)" for b q len
      using L [of True count q len 0 0] by (cases b) auto
    define len1 where "len1 = nat (mm_arg_end mm - mm_arg_start mm)"
    define len2 where "len2 = nat (mm_env_end mm - mm_env_start mm)"
    obtain rv c where v: "vm (u64 (mm_arg_end mm - 1)) 1 = (rv, c)" by fastforce
    obtain sa ra ca oa outa where A: "cmdline_loop K vm False (Suc count) count (u64 (mm_arg_start mm + int p)) (len1 - p) 0 0 = Inr (sa, ra, ca, oa, outa)"
      using L by blast
    obtain stop r2 c2 off2 out2 where s: "(if len1 \<le> p then Inr (False, 0, count, 0, [])
        else cmdline_loop K vm True (Suc count) count (u64 (mm_arg_start mm + int p)) (len1 - p) 0 0) = Inr (stop, r2, c2, off2, out2)"
      using L3 by blast
    obtain sb rb cb ob outb where B: "cmdline_loop K vm True (Suc c2) c2 (if len1 \<le> p then u64 (mm_env_start mm + int p - int len1) else mm_env_start mm)
        (if len1 \<le> p then len1 + len2 - p else len2) off2 r2 = Inr (sb, rb, cb, ob, outb)"
      using L by blast
    show ?thesis
      unfolding cmdline_body_def Let_def if_not_P [OF w] v prod.case len1_def [symmetric] len2_def [symmetric] s A sum.case B by simp
  qed
  show ?thesis
  proof (cases m)
    case None
    then show ?thesis using assms(1) by (simp add: proc_pid_cmdline_read_def balanced_def errno_defs)
  next
    case (Some mm)
    obtain rv out where "cmdline_body K vm mm count (nat pos) = Inr (rv, out)" using body [OF Some] by blast
    then show ?thesis using assms(1) Some by (simp add: proc_pid_cmdline_read_def balanced_def errno_defs)
  qed
qed

section \<open>The command line\<close>

definition cmdline_ok :: "kenv \<Rightarrow> (int \<Rightarrow> nat \<Rightarrow> int \<times> string) \<Rightarrow> cmd_mm \<Rightarrow> string \<Rightarrow> string \<Rightarrow> bool" where
  "cmdline_ok K vm mm args env \<longleftrightarrow> (\<forall>i n. k_copy_to_user K i n = 0) \<and> k_kmalloc K ''cmdline'' 4096 \<and> args \<noteq> []
     \<and> holds_text vm (mm_arg_start mm) args \<and> mm_arg_end mm = mm_arg_start mm + int (length args)
     \<and> holds_text vm (mm_env_start mm) env \<and> mm_env_end mm = mm_env_start mm + int (length env) \<and> mm_env_end mm \<noteq> 0"

text \<open>What can be read from a position on.\<close>

definition cmdline_view :: "string \<Rightarrow> string \<Rightarrow> nat \<Rightarrow> string" where
  "cmdline_view args env p = (if last args = CHR 0x00 then drop p args else takeWhile not_nul (drop p (args @ env)))"

lemma view_split:
  assumes "k < length args" "last args \<noteq> CHR 0x00"
  shows "take count (takeWhile not_nul (drop k (args @ env))) =
    (let d = take count (takeWhile not_nul (drop k args)) in
     if CHR 0x00 \<in> set (take count (drop k args)) then d else d @ take (count - length d) (takeWhile not_nul env))"
proof -
  define xs where "xs = drop k args"
  have e: "drop k (args @ env) = xs @ env" using assms(1) by (simp add: xs_def)
  show ?thesis
  proof (cases "CHR 0x00 \<in> set xs")
    case False
    then have "\<And>c. c \<in> set xs \<Longrightarrow> not_nul c" by metis
    then have t: "takeWhile not_nul (xs @ env) = xs @ takeWhile not_nul env" "takeWhile not_nul xs = xs" by simp_all
    have "CHR 0x00 \<notin> set (take count xs)" using False by (meson in_set_takeD)
    then show ?thesis unfolding e xs_def [symmetric] t Let_def by (cases "length xs \<le> count") simp_all
  next
    case True
    then have t: "takeWhile not_nul (xs @ env) = takeWhile not_nul xs" by auto
    show ?thesis
    proof (cases "CHR 0x00 \<in> set (take count xs)")
      case True
      then show ?thesis unfolding e xs_def [symmetric] t Let_def by simp
    next
      case False
      have "count \<le> length (takeWhile not_nul xs)"
      proof (rule ccontr)
        assume "\<not> count \<le> length (takeWhile not_nul xs)"
        then have l: "length (takeWhile not_nul xs) < count" "length (takeWhile not_nul xs) < length xs"
          using takeWhile_shorter [OF True] by simp_all
        have "xs ! length (takeWhile not_nul xs) = CHR 0x00" using nth_length_takeWhile [OF l(2)] by simp
        moreover have "xs ! length (takeWhile not_nul xs) \<in> set (take count xs)"
          using l by (auto simp: in_set_conv_nth intro!: exI [of _ "length (takeWhile not_nul xs)"])
        ultimately show False using False by simp
      qed
      then show ?thesis unfolding e xs_def [symmetric] t Let_def using False by simp
    qed
  qed
qed

lemma body_result:
  assumes ok: "cmdline_ok K vm mm args env"
  shows "cmdline_body K vm mm count p = Inr (int (length (take count (cmdline_view args env p))), take count (cmdline_view args env p))"
proof -
  have K: "\<forall>i n. k_copy_to_user K i n = 0" and ne: "args \<noteq> []" and ha: "holds_text vm (mm_arg_start mm) args" and he: "holds_text vm (mm_env_start mm) env"
    and ae: "mm_arg_end mm = mm_arg_start mm + int (length args)" and ee: "mm_env_end mm = mm_env_start mm + int (length env)"
    using ok unfolding cmdline_ok_def by blast+
  have w: "\<not> (mm_arg_start mm > mm_arg_end mm \<or> mm_env_start mm > mm_env_end mm)" by (simp add: ae ee)
  have len: "nat (mm_arg_end mm - mm_arg_start mm) = length args" "nat (mm_env_end mm - mm_env_start mm) = length env" by (simp_all add: ae ee)
  have v: "vm (u64 (mm_arg_end mm - 1)) 1 = (1, [last args])"
  proof -
    obtain m where l: "length args = Suc m" using ne by (cases args) auto
    have "u64 (mm_arg_end mm - 1) = mm_arg_start mm + int (length args - 1)" using ha unfolding holds_text_def ae l by (subst u64_id) auto
    moreover have "vm (mm_arg_start mm + int (length args - 1)) 1 = (int 1, take 1 (drop (length args - 1) args))"
    proof -
      have "length args - 1 + 1 \<le> length args" by (simp add: l)
      then show ?thesis using ha unfolding holds_text_def by blast
    qed
    moreover have "take 1 (drop (length args - 1) args) = [last args]" using ne by (metis append_butlast_last_id append_eq_conv_conj length_butlast take_Suc_Cons take0 One_nat_def)
    ultimately show ?thesis by simp
  qed
  have u: "u64 (mm_arg_start mm + int p) = mm_arg_start mm + int p" if "p < length args"
    using ha that unfolding holds_text_def by (subst u64_id) auto
  have A: "cmdline_loop K vm eos (Suc count) count (u64 (mm_arg_start mm + int p)) (length args - p) 0 0 =
      (let d = take count (upto_nul eos (drop p args)) in
       Inr (eos \<and> CHR 0x00 \<in> set (take count (drop p args)), int (length d), count - length d, length d, d))" if "p < length args" for eos
    using loop_delivers [OF K ha, of count "Suc count" p eos 0 0] that unfolding u [OF that] by simp
  have E: "cmdline_loop K vm True (Suc c) c (mm_env_start mm + int k) (length env - k) off rv =
      (let d = take c (takeWhile not_nul (drop k env)) in Inr (CHR 0x00 \<in> set (take c (drop k env)), rv + int (length d), c - length d, off + length d, d))"
    if "k \<le> length env" for c k off rv
    using loop_delivers [OF K he, of c "Suc c" k True off rv] that by (simp add: upto_nul_def)
  have tot: "u64 (int (length args + length env)) = int (length args + length env)"
    using ha he unfolding holds_text_def by (subst u64_id) auto
  show ?thesis
  proof (cases "last args = CHR 0x00")
    case True
    show ?thesis
    proof (cases "length args \<le> p")
      case False
      then show ?thesis using A [of False] True ne unfolding cmdline_body_def Let_def if_not_P [OF w] len v
        by (simp add: cmdline_view_def upto_nul_def)
    next
      case le: True
      show ?thesis using True le ne unfolding cmdline_body_def Let_def if_not_P [OF w] len v by (simp add: cmdline_view_def)
    qed
  next
    case nn: False
    consider "length args + length env \<le> p" | "p < length args" | "length args \<le> p" "p < length args + length env" by linarith
    then show ?thesis
    proof cases
      case 1
      then show ?thesis using nn ne unfolding cmdline_body_def Let_def if_not_P [OF w] len v tot by (simp add: cmdline_view_def)
    next
      case 3
      define k where "k = p - length args"
      have k: "k \<le> length env" "length args + length env - p = length env - k" using 3 by (simp_all add: k_def)
      have uk: "u64 (mm_env_start mm + int p - int (length args)) = mm_env_start mm + int k"
        using he 3 unfolding holds_text_def by (subst u64_id) (auto simp: k_def)
      show ?thesis using 3 nn ne E [OF k(1), of count 0 0] unfolding cmdline_body_def Let_def if_not_P [OF w] len v tot uk k(2)
        by (simp add: cmdline_view_def k_def [symmetric])
    next
      case 2
      define d where "d = take count (takeWhile not_nul (drop p args))"
      have a: "cmdline_loop K vm True (Suc count) count (u64 (mm_arg_start mm + int p)) (length args - p) 0 0 =
          Inr (CHR 0x00 \<in> set (take count (drop p args)), int (length d), count - length d, length d, d)"
        using A [OF 2, of True] by (simp add: upto_nul_def d_def Let_def)
      note vs = view_split [OF 2 nn, of count env, folded d_def, unfolded Let_def]
      note e = E [of 0 "count - length d" "length d" "int (length d)", simplified, unfolded Let_def]
      have T: "take count (cmdline_view args env p) =
          (if CHR 0x00 \<in> set (take count (drop p args)) then d else d @ take (count - length d) (takeWhile not_nul env))"
        using vs nn by (simp only: cmdline_view_def if_False)
      show ?thesis using 2 nn ne unfolding T cmdline_body_def Let_def if_not_P [OF w] len v tot
        by (simp add: a e)
    qed
  qed
qed

text \<open>The device: the kernel, the memory, and what is in it.\<close>

type_synonym cmdline_dev = "kenv \<times> (int \<Rightarrow> nat \<Rightarrow> int \<times> string) \<times> cmd_mm \<times> string \<times> string"

definition cmdline_dev :: "cmdline_dev \<Rightarrow> nat \<Rightarrow> int \<Rightarrow> int \<times> int \<times> string" where
  "cmdline_dev = (\<lambda>(K, vm, mm, args, env) count pos. case proc_pid_cmdline_read K vm True (Some mm) count pos of
     Inl _ \<Rightarrow> (- EFAULT, pos, []) | Inr (rv, pos, out, _) \<Rightarrow> (rv, pos, out))"

lemma cmdline_read_at:
  assumes "cmdline_ok K vm mm args env" "0 \<le> pos"
  shows "cmdline_dev (K, vm, mm, args, env) count pos =
    (int (length (take count (cmdline_view args env (nat pos)))), pos + int (length (take count (cmdline_view args env (nat pos)))),
      take count (cmdline_view args env (nat pos)))"
proof -
  have "k_kmalloc K ''cmdline'' 4096" "mm_env_end mm \<noteq> 0" using assms(1) by (simp_all add: cmdline_ok_def)
  then show ?thesis using assms(2) by (simp add: cmdline_dev_def proc_pid_cmdline_read_def body_result [OF assms(1)])
qed

lemma takeWhile_from: "k \<le> length (takeWhile P xs) \<Longrightarrow> takeWhile P (drop k xs) = drop k (takeWhile P xs)"
proof (induction xs arbitrary: k)
  case (Cons x xs)
  then show ?case by (cases k) (auto split: if_splits)
qed simp

lemma cmdline_view_drop: "k \<le> length (cmdline_view args env p) \<Longrightarrow> cmdline_view args env (p + k) = drop k (cmdline_view args env p)"
proof -
  assume k: "k \<le> length (cmdline_view args env p)"
  have "takeWhile not_nul (drop (p + k) w) = drop k (takeWhile not_nul (drop p w))" if "k \<le> length (takeWhile not_nul (drop p w))" for w
    using takeWhile_from [OF that] by (simp add: add.commute)
  then show ?thesis using k by (cases "last args = CHR 0x00") (simp_all add: cmdline_view_def add.commute del: drop_append)
qed

interpretation cmdl: view_reader cmdline_dev "\<lambda>(K, vm, mm, args, env) p. cmdline_view args env p" "\<lambda>(K, vm, mm, args, env). cmdline_ok K vm mm args env"
  by unfold_locales (auto simp: cmdline_read_at cmdline_view_drop)

text \<open>C29.  Reading to the end gives the command line: all arguments with their zeros, or, when the last zero was overwritten, the one text that
  began at the first argument, up to its first zero, even where it runs into the environment.  A read that starts behind that zero delivers what
  comes next, which is of the environment.\<close>

theorem cmdline_text:
  assumes "cmdline_ok K vm mm args env" "0 < bsize" "length args + length env < fuel" "p < length env"
  shows "cat (cmdline_dev (K, vm, mm, args, env)) bsize fuel 0 = (if last args = CHR 0x00 then args else takeWhile not_nul (args @ env))
    \<and> cat (cmdline_dev (K, vm, mm, args, env)) bsize fuel (int (length args + p)) = (if last args = CHR 0x00 then [] else takeWhile not_nul (drop p env))"
proof -
  have l: "length (cmdline_view args env q) < fuel" for q
  proof -
    have "length (takeWhile not_nul (drop q (args @ env))) \<le> length (drop q (args @ env))" by (rule length_takeWhile_le)
    then show ?thesis using assms(3) by (auto simp: cmdline_view_def)
  qed
  have "cat (cmdline_dev (K, vm, mm, args, env)) bsize fuel (int q) = cmdline_view args env q" for q
    using cmdl.cat_view [of "(K, vm, mm, args, env)" bsize q fuel] assms(1,2) l by simp
  from this [of 0] this [of "length args + p"] show ?thesis by (simp add: cmdline_view_def)
qed

text \<open>A process called \<open>p\<close> that overwrote the end of its argument, with a password in its environment.\<close>

definition cmd_vm :: "int \<Rightarrow> nat \<Rightarrow> int \<times> string" where
  "cmd_vm a n = (let s = (if a < 200 then ''p: idle'' else ''!'' @ [CHR 0x00] @ ''PW=x'' @ [CHR 0x00]); b = (if a < 200 then 100 else 200);
     out = take n (drop (nat (a - b)) s) in (int (length out), out))"

definition cmd_boot :: cmd_mm where
  "cmd_boot = \<lparr>mm_env_start = 200, mm_env_end = 207, mm_alive = True, mm_arg_start = 100, mm_arg_end = 107\<rparr>"

lemma cmd_boot_ok: "cmdline_ok kenv0 cmd_vm cmd_boot ''p: idle'' (''!'' @ [CHR 0x00] @ ''PW=x'' @ [CHR 0x00])"
  unfolding cmdline_ok_def holds_text_def by (auto simp: cmd_boot_def cmd_vm_def Let_def min_def)

theorem cmdline_text_witness:
  "cat (cmdline_dev (kenv0, cmd_vm, cmd_boot, ''p: idle'', ''!'' @ [CHR 0x00] @ ''PW=x'' @ [CHR 0x00])) 3 99 0 = ''p: idle!''
    \<and> cat (cmdline_dev (kenv0, cmd_vm, cmd_boot, ''p: idle'', ''!'' @ [CHR 0x00] @ ''PW=x'' @ [CHR 0x00])) 3 99 9 = ''PW=x''"
  using cmdline_text [OF cmd_boot_ok, of 3 99 2] by simp

theorem cmdline_returns_witness:
  "\<exists>rv pos' out tr. proc_pid_cmdline_read kenv0 (\<lambda>_ _. (- EFAULT, [])) True (Some cmd_boot) 5 0 = Inr (rv, pos', out, tr) \<and> balanced tr
    \<and> pos' = (if rv > 0 then 0 + rv else 0)"
  by (rule cmdline_returns) (auto simp: cmd_boot_def)

end
