(* ===== verification/ProcPids.thy ===== *)
theory ProcPids imports ProcTree begin

text \<open>
  The processes in \<open>/proc\<close>: \<open>proc_pid_readdir\<close>, \<open>next_tgid\<close> and \<open>proc_pid_lookup\<close> of \<open>fs/proc/base.c\<close> and \<open>proc_root_readdir\<close> of
  \<open>root.c\<close>, the same in both copies.  Processes start and end while the directory is listed: a \<open>world\<close> has the table of process numbers at
  every moment, and every section that reads it under \<open>rcu_read_lock\<close> sees the table of its moment.  \<open>find_ge_pid\<close>,
  the kernel's search for the next number in use, is a parameter; \<open>fill\<close> is \<open>proc_fill_cache\<close>.  Shown: over any number of calls, however full the buffers, processes are
  listed in ascending order, nobody twice, and everybody who is there all the time; where the listing of the other entries of
  \<open>/proc\<close> ends the processes follow, unless the directory has shrunk.
\<close>

section \<open>Numbers of processes\<close>

text \<open>What is known of the task of a number: \<open>has_group_leader_pid\<close> and \<open>has_pid_permissions\<close>; a number may be in use without a task.\<close>

datatype pid_task = PidTask (leader: bool) (visible: bool)

type_synonym pid_table = "(nat \<times> pid_task option) list"
type_synonym pid_world = "nat \<Rightarrow> pid_table"

text \<open>\<open>PID_MAX_LIMIT\<close> as \<open>linux/threads.h\<close> documents it for 64 bits.\<close>

definition PID_MAX_LIMIT :: nat where "PID_MAX_LIMIT = 4194304"
definition FIRST_PROCESS_ENTRY :: nat where "FIRST_PROCESS_ENTRY = 256"
definition TGID_OFFSET :: nat where "TGID_OFFSET = FIRST_PROCESS_ENTRY + 2"

text \<open>\<open>find_ge_pid\<close>, a search of the kernel that is not part of the repository, is a parameter: any function whose answers are numbers from
  the one asked for up to the limit, which is what makes the loops end.\<close>

typedef pid_search = "{f :: nat \<Rightarrow> pid_table \<Rightarrow> (nat \<times> pid_task option) option. \<forall>nr ns n t. f nr ns = Some (n, t) \<longrightarrow> nr \<le> n \<and> n < PID_MAX_LIMIT}"
  morphisms find_ge_pid pid_search
  by (rule exI [of _ "\<lambda>_ _. None"]) simp

lemma find_ge_pid_range: "find_ge_pid P nr ns = Some (n, t) \<Longrightarrow> nr \<le> n \<and> n < PID_MAX_LIMIT"
  using find_ge_pid [of P] by blast

text \<open>What is documented of it: the answer is in the table, and it is the first from the number asked for.\<close>

definition search_ok :: "pid_search \<Rightarrow> bool" where
  "search_ok P \<longleftrightarrow> (\<forall>nr ns n t. find_ge_pid P nr ns = Some (n, t) \<longrightarrow> (n, t) \<in> set ns)
     \<and> (\<forall>nr ns n t. sorted_wrt (<) (map fst ns) \<and> (n, t) \<in> set ns \<and> nr \<le> n \<and> n < PID_MAX_LIMIT \<longrightarrow>
          (\<exists>m u. find_ge_pid P nr ns = Some (m, u) \<and> m \<le> n))"

section \<open>Listing processes\<close>

text \<open>\<open>next_tgid\<close> from the moment \<open>now\<close> on: the number, the task, and the moment when it is done.\<close>

function next_tgid :: "pid_search \<Rightarrow> pid_world \<Rightarrow> nat \<Rightarrow> nat \<Rightarrow> nat \<times> pid_task option \<times> nat" where
  "next_tgid P w now tgid =
     (case find_ge_pid P tgid (w now) of
        None \<Rightarrow> (tgid, None, now + 1)
      | Some (nr, task) \<Rightarrow>
          (case task of
             None \<Rightarrow> next_tgid P w (now + 1) (nr + 1)
           | Some t \<Rightarrow> if \<not> leader t then next_tgid P w (now + 1) (nr + 1) else (nr, Some t, now + 1)))"
  by pat_completeness auto
termination
  by (relation "measure (\<lambda>(P, w, now, tgid). PID_MAX_LIMIT - tgid)") (auto dest!: find_ge_pid_range)

declare next_tgid.simps [simp del]

lemma next_tgid_range: "next_tgid P w now tgid = (nr, Some t, now') \<Longrightarrow> tgid \<le> nr \<and> nr < PID_MAX_LIMIT"
proof (induction P w now tgid rule: next_tgid.induct)
  case (1 P w now tgid)
  show ?case
  proof (cases "find_ge_pid P tgid (w now)")
    case None
    then show ?thesis using "1.prems" by (simp add: next_tgid.simps [of P w now tgid])
  next
    case (Some p)
    obtain m u where p: "p = (m, u)" by fastforce
    note F = find_ge_pid_range [OF Some [unfolded p]]
    show ?thesis
    proof (cases "\<exists>t. u = Some t \<and> leader t")
      case True
      then show ?thesis using "1.prems" F by (auto simp: next_tgid.simps [of P w now tgid] Some p)
    next
      case False
      then have n: "next_tgid P w (now + 1) (m + 1) = (nr, Some t, now')"
        using "1.prems" by (auto simp: next_tgid.simps [of P w now tgid] Some p split: option.splits)
      have "m + 1 \<le> nr \<and> nr < PID_MAX_LIMIT"
        using "1.IH"(1) [OF Some p [symmetric] _ n] "1.IH"(2) [OF Some p [symmetric] _ _ n] False by (cases u) auto
      then show ?thesis using F by simp
    qed
  qed
qed

text \<open>The loop of \<open>proc_pid_readdir\<close>: the numbers that are listed, \<open>ctx->pos\<close> and the moment.\<close>

function pid_loop :: "pid_search \<Rightarrow> pid_world \<Rightarrow> (nat \<Rightarrow> bool) \<Rightarrow> nat \<Rightarrow> nat \<Rightarrow> nat \<Rightarrow> nat list \<times> nat \<times> nat" where
  "pid_loop P w fill now tgid pos =
     (case next_tgid P w now tgid of (nr, task, now) \<Rightarrow>
        (case task of
           None \<Rightarrow> ([], PID_MAX_LIMIT + TGID_OFFSET, now)
         | Some t \<Rightarrow>
             if \<not> visible t then pid_loop P w fill now (nr + 1) pos
             else if \<not> fill nr then ([], nr + TGID_OFFSET, now)
             else (case pid_loop P w fill now (nr + 1) (nr + TGID_OFFSET) of (out, pos, now) \<Rightarrow> (nr # out, pos, now))))"
  by pat_completeness auto
termination
  by (relation "measure (\<lambda>(P, w, fill, now, tgid, pos). PID_MAX_LIMIT - tgid)") (auto dest!: next_tgid_range [OF sym])

declare pid_loop.simps [simp del]

text \<open>The whole function; \<open>emit\<close> is \<open>dir_emit\<close> for the names that are no processes.  The result: the names, \<open>ctx->pos\<close> and the moment.\<close>

definition proc_pid_readdir :: "pid_search \<Rightarrow> pid_world \<Rightarrow> (string \<Rightarrow> bool) \<Rightarrow> (nat \<Rightarrow> bool) \<Rightarrow> nat \<Rightarrow> nat \<Rightarrow> string list \<times> nat \<times> nat" where
  "proc_pid_readdir P w emit fill now pos =
     (if pos \<ge> PID_MAX_LIMIT + TGID_OFFSET then ([], pos, now)
      else if pos = TGID_OFFSET - 2 \<and> \<not> emit ''self'' then ([], pos, now)
      else
        let (out1, pos) = (if pos = TGID_OFFSET - 2 then ([''self''], pos + 1) else ([], pos)) in
        if pos = TGID_OFFSET - 1 \<and> \<not> emit ''thread-self'' then (out1, pos, now)
        else
          let (out2, pos) = (if pos = TGID_OFFSET - 1 then (out1 @ [''thread-self''], pos + 1) else (out1, pos)) in
          (case pid_loop P w fill now (pos - TGID_OFFSET) pos of (nrs, pos, now) \<Rightarrow> (out2 @ map show_nat nrs, pos, now)))"

text \<open>\<open>proc_root_readdir\<close>; \<open>dots\<close> and \<open>give\<close> are for the entries of the tree, of which \<open>root\<close> is the root.  The result: what is returned,
  the names, \<open>ctx->pos\<close> and the moment.\<close>

definition proc_root_readdir ::
  "pid_search \<Rightarrow> (nat \<Rightarrow> bool \<times> nat) \<Rightarrow> (nat \<Rightarrow> bool) \<Rightarrow> nat \<Rightarrow> proc_fs \<Rightarrow> pid_world \<Rightarrow> (string \<Rightarrow> bool) \<Rightarrow> (nat \<Rightarrow> bool) \<Rightarrow> nat \<Rightarrow> nat \<Rightarrow> int \<times> string list \<times> nat \<times> nat" where
  "proc_root_readdir P dots give root s w emit fill now pos =
     (if pos < FIRST_PROCESS_ENTRY then
        (case proc_readdir_de dots give root pos s of (error, out, pos, _) \<Rightarrow>
           if error \<le> 0 then (error, map fst out, pos, now)
           else (case proc_pid_readdir P w emit fill now FIRST_PROCESS_ENTRY of (names, pos, now) \<Rightarrow> (0, map fst out @ names, pos, now)))
      else (case proc_pid_readdir P w emit fill now pos of (names, pos, now) \<Rightarrow> (0, names, pos, now)))"

text \<open>Looking a process up: any task of the number does; \<open>revalidate\<close> is what \<open>pid_revalidate\<close> finds, \<open>inode_ok\<close> whether there is an inode.\<close>

definition proc_pid_instantiate :: "bool \<Rightarrow> bool \<Rightarrow> int" where
  "proc_pid_instantiate inode_ok revalidate = (if inode_ok \<and> revalidate then 0 else - ENOENT)"

definition proc_pid_lookup :: "bool \<Rightarrow> bool \<Rightarrow> pid_table \<Rightarrow> string \<Rightarrow> int \<times> kcall list" where
  "proc_pid_lookup inode_ok revalidate ns name =
     (let tgid = name_to_int name in
      if tgid = 4294967295 then (- ENOENT, [])
      else (case map_of ns tgid of
          Some (Some task) \<Rightarrow> (proc_pid_instantiate inode_ok revalidate, [Acq (RdLock ''rcu''), Acq TaskRef, Rel (RdLock ''rcu''), Rel TaskRef])
        | _ \<Rightarrow> (- ENOENT, [Acq (RdLock ''rcu''), Rel (RdLock ''rcu'')])))"

section \<open>Who is listed\<close>

text \<open>The tables of a world are ordered by number.  Who is there all the time, and who at some time.\<close>

definition world_ok :: "pid_search \<Rightarrow> pid_world \<Rightarrow> bool" where
  "world_ok P w \<longleftrightarrow> search_ok P \<and> (\<forall>i. sorted_wrt (<) (map fst (w i)))"

definition shown_at :: "pid_table \<Rightarrow> nat \<Rightarrow> bool" where
  "shown_at ns n \<longleftrightarrow> (\<exists>t. (n, Some t) \<in> set ns \<and> leader t \<and> visible t)"

definition always :: "pid_world \<Rightarrow> nat \<Rightarrow> bool" where
  "always w n \<longleftrightarrow> n < PID_MAX_LIMIT \<and> (\<forall>i. shown_at (w i) n)"

lemma find_ge_pid_least:
  assumes "search_ok P" "sorted_wrt (<) (map fst ns)" "(n, t) \<in> set ns" "nr \<le> n" "n < PID_MAX_LIMIT"
  obtains m u where "find_ge_pid P nr ns = Some (m, u)" "m \<le> n" "m = n \<Longrightarrow> u = t"
proof -
  obtain m u where m: "find_ge_pid P nr ns = Some (m, u)" "m \<le> n" using assms unfolding search_ok_def by blast
  have "(m, u) \<in> set ns" using m(1) assms(1) unfolding search_ok_def by blast
  moreover have "distinct (map fst ns)" using assms(2) by (simp add: strict_sorted_iff)
  ultimately have "m = n \<Longrightarrow> u = t" using assms(3) by (simp add: eq_key_imp_eq_value)
  then show thesis using that m by blast
qed

lemma find_ge_pid_Some: "search_ok P \<Longrightarrow> find_ge_pid P nr ns = Some (n, t) \<Longrightarrow> nr \<le> n \<and> n < PID_MAX_LIMIT \<and> (n, t) \<in> set ns"
  using find_ge_pid_range [of P nr ns n t] unfolding search_ok_def by blast

lemma next_tgid_result:
  "next_tgid P w now tgid = (nr, task, now') \<Longrightarrow> world_ok P w \<Longrightarrow>
    (case task of
       None \<Rightarrow> \<forall>n. tgid \<le> n \<longrightarrow> \<not> always w n
     | Some t \<Rightarrow> leader t \<and> (\<exists>i. (nr, Some t) \<in> set (w i)) \<and> (\<forall>n. tgid \<le> n \<and> n < nr \<longrightarrow> \<not> always w n) \<and> (always w nr \<longrightarrow> visible t))"
proof (induction P w now tgid rule: next_tgid.induct)
  case (1 P w now tgid)
  have ok: "search_ok P" and s: "sorted_wrt (<) (map fst (w now))" using "1.prems"(2) by (simp_all add: world_ok_def)
  have there: "\<exists>t. find_ge_pid P tgid (w now) = Some (n, Some t) \<and> leader t \<and> visible t \<or> (\<exists>m u. find_ge_pid P tgid (w now) = Some (m, u) \<and> m < n)"
    if "always w n" "tgid \<le> n" for n
  proof -
    have le: "tgid \<le> n" using that(2) .
    have "shown_at (w now) n" "n < PID_MAX_LIMIT" using that(1) by (simp_all add: always_def)
    then obtain t where t: "(n, Some t) \<in> set (w now)" "leader t" "visible t" "n < PID_MAX_LIMIT" by (auto simp: shown_at_def)
    obtain m u where "find_ge_pid P tgid (w now) = Some (m, u)" "m \<le> n" "m = n \<Longrightarrow> u = Some t"
      using find_ge_pid_least [OF ok s t(1) le t(4)] by metis
    then show ?thesis using t(2,3) by (cases "m = n") auto
  qed
  show ?case
  proof (cases "find_ge_pid P tgid (w now)")
    case None
    then have "task = None" using "1.prems"(1) by (simp add: next_tgid.simps [of P w now tgid])
    then show ?thesis using there None by fastforce
  next
    case (Some p)
    obtain m u where p: "p = (m, u)" by fastforce
    note F = find_ge_pid_Some [OF ok Some [unfolded p]]
    have lt: "\<not> always w n" if "tgid \<le> n" "n < m" for n using there [OF _ that(1)] that(2) Some p by fastforce
    show ?thesis
    proof (cases "\<exists>t. u = Some t \<and> leader t")
      case True
      then obtain t where t: "u = Some t" "leader t" by blast
      then have "task = Some t" "nr = m" using "1.prems"(1) by (simp_all add: next_tgid.simps [of P w now tgid] Some p)
      then show ?thesis using lt t F there [of m] Some p by auto
    next
      case False
      then have n: "next_tgid P w (now + 1) (m + 1) = (nr, task, now')"
        using "1.prems"(1) by (auto simp: next_tgid.simps [of P w now tgid] Some p split: option.splits)
      have "\<not> always w m" using there [of m] F False Some p by auto
      then have le: "\<not> always w n" if "tgid \<le> n" "n \<le> m" for n using lt that by (cases "n = m") auto
      have "case task of
         None \<Rightarrow> \<forall>n. m + 1 \<le> n \<longrightarrow> \<not> always w n
       | Some t \<Rightarrow> leader t \<and> (\<exists>i. (nr, Some t) \<in> set (w i)) \<and> (\<forall>n. m + 1 \<le> n \<and> n < nr \<longrightarrow> \<not> always w n) \<and> (always w nr \<longrightarrow> visible t)"
        using "1.IH"(1) [OF Some p [symmetric] _ n "1.prems"(2)] "1.IH"(2) [OF Some p [symmetric] _ _ n "1.prems"(2)] False by (cases u) auto
      then show ?thesis using le by (cases task) (auto simp: Suc_le_eq not_le [symmetric])
    qed
  qed
qed

text \<open>The numbers of a listing that starts at \<open>tgid\<close> and has come to \<open>b\<close>.\<close>

definition listed :: "pid_world \<Rightarrow> nat \<Rightarrow> nat \<Rightarrow> nat list \<Rightarrow> bool" where
  "listed w tgid b nrs \<longleftrightarrow> sorted_wrt (<) nrs \<and> (\<forall>n \<in> set nrs. tgid \<le> n \<and> n < b \<and> (\<exists>i. shown_at (w i) n))
     \<and> (\<forall>n. tgid \<le> n \<and> n < b \<and> always w n \<longrightarrow> n \<in> set nrs)"

lemma listedI:
  assumes "sorted_wrt (<) nrs" "\<And>n. n \<in> set nrs \<Longrightarrow> a \<le> n \<and> n < b" "\<And>n. n \<in> set nrs \<Longrightarrow> \<exists>i. shown_at (w i) n"
    and "\<And>n. a \<le> n \<Longrightarrow> n < b \<Longrightarrow> always w n \<Longrightarrow> n \<in> set nrs"
  shows "listed w a b nrs"
  using assms unfolding listed_def by blast

lemma listedD:
  assumes "listed w a b nrs"
  shows "sorted_wrt (<) nrs" "n \<in> set nrs \<Longrightarrow> a \<le> n \<and> n < b" "n \<in> set nrs \<Longrightarrow> \<exists>i. shown_at (w i) n"
    "a \<le> n \<Longrightarrow> n < b \<Longrightarrow> always w n \<Longrightarrow> n \<in> set nrs"
  using assms unfolding listed_def by blast+

lemma listed_append:
  assumes xs: "listed w a b xs" and ys: "listed w b c ys" and le: "a \<le> b" "b \<le> c"
  shows "listed w a c (xs @ ys)"
proof (rule listedI)
  have "x < y" if "x \<in> set xs" "y \<in> set ys" for x y using listedD(2) [OF xs that(1)] listedD(2) [OF ys that(2)] by simp
  then show "sorted_wrt (<) (xs @ ys)" using listedD(1) [OF xs] listedD(1) [OF ys] by (simp add: sorted_wrt_append)
next
  fix n
  show "a \<le> n \<and> n < c" if "n \<in> set (xs @ ys)"
  proof (cases "n \<in> set xs")
    case True
    then show ?thesis using listedD(2) [OF xs True] le by simp
  next
    case False
    then have "n \<in> set ys" using that by simp
    from listedD(2) [OF ys this] show ?thesis using le by simp
  qed
  show "\<exists>i. shown_at (w i) n" if "n \<in> set (xs @ ys)"
  proof (cases "n \<in> set xs")
    case False
    then have "n \<in> set ys" using that by simp
    from listedD(3) [OF ys this] show ?thesis .
  qed (rule listedD(3) [OF xs])
  show "n \<in> set (xs @ ys)" if "a \<le> n" "n < c" "always w n"
    using listedD(4) [OF xs that(1) _ that(3)] listedD(4) [OF ys _ that(2,3)] by (cases "n < b") simp_all
qed

lemma listed_Cons:
  assumes low: "\<forall>m. a \<le> m \<and> m < n \<longrightarrow> \<not> always w m" and n: "a \<le> n" "shown_at (w i) n" and ys: "listed w (n + 1) c ys" "n < c"
  shows "listed w a c (n # ys)"
proof -
  have "listed w a (n + 1) [n]"
  proof (rule listedI)
    show "m \<in> set [n]" if "a \<le> m" "m < n + 1" "always w m" for m
    proof -
      have "\<not> m < n" using low that(1,3) by blast
      then show ?thesis using that(2) by simp
    qed
    show "\<exists>i. shown_at (w i) m" if "m \<in> set [n]" for m using that n(2) by (intro exI [of _ i]) simp
  qed (use n(1) in simp_all)
  from listed_append [OF this ys(1)] show ?thesis using n(1) ys(2) by simp
qed

lemma listed_Nil: "\<forall>m. a \<le> m \<and> m < b \<longrightarrow> \<not> always w m \<Longrightarrow> listed w a b []"
  by (rule listedI) simp_all

lemma listed_skip: "\<forall>m. a \<le> m \<and> m < b \<longrightarrow> \<not> always w m \<Longrightarrow> a \<le> b \<Longrightarrow> listed w b c ys \<Longrightarrow> b \<le> c \<Longrightarrow> listed w a c ys"
proof -
  assume a: "\<forall>m. a \<le> m \<and> m < b \<longrightarrow> \<not> always w m" "a \<le> b" "listed w b c ys" "b \<le> c"
  from listed_Nil [OF a(1)] have "listed w a b []" .
  from listed_append [OF this a(3,2,4)] show ?thesis by simp
qed

lemma pid_loop_result:
  "pid_loop P w fill now tgid pos = (nrs, pos', now') \<Longrightarrow> world_ok P w \<Longrightarrow> tgid \<le> PID_MAX_LIMIT \<Longrightarrow>
    \<exists>b. pos' = b + TGID_OFFSET \<and> tgid \<le> b \<and> b \<le> PID_MAX_LIMIT \<and> listed w tgid b nrs \<and> (b < PID_MAX_LIMIT \<longrightarrow> \<not> fill b)"
proof (induction P w fill now tgid pos arbitrary: nrs pos' now' rule: pid_loop.induct)
  case (1 P w fill now tgid pos)
  obtain nr task now1 where n: "next_tgid P w now tgid = (nr, task, now1)" using prod_cases3 by blast
  note N = next_tgid_result [OF n "1.prems"(2)]
  show ?case
  proof (cases task)
    case None
    then have e: "nrs = []" "pos' = PID_MAX_LIMIT + TGID_OFFSET" using "1.prems"(1) by (simp_all add: pid_loop.simps [of P w fill now tgid pos] n)
    have "listed w tgid PID_MAX_LIMIT []" by (rule listed_Nil) (use N None in simp)
    then show ?thesis using e "1.prems"(3) by auto
  next
    case (Some t)
    have r: "tgid \<le> nr" "nr < PID_MAX_LIMIT" using next_tgid_range n Some by blast+
    have low: "\<forall>m. tgid \<le> m \<and> m < nr \<longrightarrow> \<not> always w m" and vis: "always w nr \<longrightarrow> visible t" and ld: "leader t"
      using N Some by simp_all
    obtain i where i: "(nr, Some t) \<in> set (w i)" using N Some by auto
    show ?thesis
    proof (cases "visible t")
      case False
      then have l: "pid_loop P w fill now1 (nr + 1) pos = (nrs, pos', now')" using "1.prems"(1) by (simp add: pid_loop.simps [of P w fill now tgid pos] n Some)
      obtain b where t: "pos' = b + TGID_OFFSET" "nr + 1 \<le> b" "b \<le> PID_MAX_LIMIT" "listed w (nr + 1) b nrs" "b < PID_MAX_LIMIT \<longrightarrow> \<not> fill b"
        using "1.IH"(1) [OF n [symmetric] refl Some False l "1.prems"(2)] r(2) by auto
      have "\<forall>m. tgid \<le> m \<and> m < nr + 1 \<longrightarrow> \<not> always w m" using low vis False by (auto simp: less_Suc_eq)
      then have "listed w tgid b nrs" by (rule listed_skip [OF _ _ t(4,2)]) (use r in simp)
      then show ?thesis using t r(1) by auto
    next
      case v: True
      show ?thesis
      proof (cases "fill nr")
        case False
        then have e: "nrs = []" "pos' = nr + TGID_OFFSET" using "1.prems"(1) v by (simp_all add: pid_loop.simps [of P w fill now tgid pos] n Some)
        have "listed w tgid nr []" by (rule listed_Nil [OF low])
        then show ?thesis using e r False by auto
      next
        case True
        then obtain nrs1 where l: "pid_loop P w fill now1 (nr + 1) (nr + TGID_OFFSET) = (nrs1, pos', now')" "nrs = nr # nrs1"
          using "1.prems"(1) v by (auto simp: pid_loop.simps [of P w fill now tgid pos] n Some split: prod.splits)
        have nv: "\<not> \<not> visible t" "\<not> \<not> fill nr" using v True by simp_all
        obtain b where t: "pos' = b + TGID_OFFSET" "nr + 1 \<le> b" "b \<le> PID_MAX_LIMIT" "listed w (nr + 1) b nrs1" "b < PID_MAX_LIMIT \<longrightarrow> \<not> fill b"
          using "1.IH"(2) [OF n [symmetric] refl Some nv l(1) "1.prems"(2)] r(2) by auto
        have "shown_at (w i) nr" using i v ld by (auto simp: shown_at_def)
        then have "listed w tgid b (nr # nrs1)" using listed_Cons [OF low r(1) _ t(4)] t(2) by simp
        then show ?thesis using t r(1) l(2) by auto
      qed
    qed
  qed
qed

section \<open>Many calls\<close>

text \<open>A process that lists \<open>/proc\<close>: in every call the buffer takes entries of the tree as \<open>give\<close> says, the names of \<open>emit\<close> and processes of
  \<open>fill\<close>.\<close>

fun root_calls ::
  "pid_search \<Rightarrow> (nat \<Rightarrow> bool \<times> nat) \<Rightarrow> nat \<Rightarrow> proc_fs \<Rightarrow> pid_world \<Rightarrow> ((nat \<Rightarrow> bool) \<times> (string \<Rightarrow> bool) \<times> (nat \<Rightarrow> bool)) list \<Rightarrow> nat \<Rightarrow> nat \<Rightarrow> string list" where
  "root_calls P dots root s w [] now pos = []"
| "root_calls P dots root s w ((give, emit, fill) # bufs) now pos =
     (case proc_root_readdir P dots give root s w emit fill now pos of (_, names, pos, now) \<Rightarrow> names @ root_calls P dots root s w bufs now pos)"

abbreviation big :: "(nat \<Rightarrow> bool) \<times> (string \<Rightarrow> bool) \<times> (nat \<Rightarrow> bool)" where
  "big \<equiv> (\<lambda>_. True, \<lambda>_. True, \<lambda>_. True)"

definition self_names :: "string list" where
  "self_names = [''self'', ''thread-self'']"

lemma self_drops: "drop 0 self_names = [''self'', ''thread-self'']" "drop 1 self_names = [''thread-self'']" "drop (Suc (Suc n)) self_names = []"
  by (simp_all add: self_names_def)

lemma pid_readdir_result:
  assumes w: "world_ok P w" and pos: "256 \<le> pos" "pos \<le> PID_MAX_LIMIT + TGID_OFFSET"
  obtains (blocked) k now' where "proc_pid_readdir P w emit fill now pos = (take k (drop (pos - 256) self_names), pos + k, now')" "pos + k < 258"
    "emit \<noteq> (\<lambda>_. True)"
  | (listing) nrs b now' where "proc_pid_readdir P w emit fill now pos = (drop (pos - 256) self_names @ map show_nat nrs, b + TGID_OFFSET, now')"
    "listed w (pos - 258) b nrs" "pos - 258 \<le> b" "b \<le> PID_MAX_LIMIT" "b < PID_MAX_LIMIT \<longrightarrow> fill \<noteq> (\<lambda>_. True)"
proof -
  have o: "TGID_OFFSET = 258" "TGID_OFFSET - 2 = 256" "TGID_OFFSET - 1 = 257" by (simp_all add: TGID_OFFSET_def FIRST_PROCESS_ENTRY_def)
  show thesis
  proof (cases "pos = PID_MAX_LIMIT + TGID_OFFSET")
    case True
    then have "proc_pid_readdir P w emit fill now pos = ([], PID_MAX_LIMIT + TGID_OFFSET, now)" by (simp add: proc_pid_readdir_def)
    moreover have "drop (pos - 256) self_names = []" using True by (simp add: o self_names_def)
    moreover have "listed w PID_MAX_LIMIT PID_MAX_LIMIT []" by (rule listed_Nil) auto
    ultimately show thesis using listing [of "[]" PID_MAX_LIMIT now] True by (simp add: o)
  next
    case False
    then have lt: "\<not> pos \<ge> PID_MAX_LIMIT + TGID_OFFSET" using pos(2) by simp
    have L: thesis if e: "proc_pid_readdir P w emit fill now pos = (case pid_loop P w fill now (pos - 258) p of (nrs, pos', now) \<Rightarrow> (drop (pos - 256) self_names @ map show_nat nrs, pos', now))" for p
    proof -
      obtain nrs pos' now' where l: "pid_loop P w fill now (pos - 258) p = (nrs, pos', now')" using prod_cases3 by blast
      have "pos - 258 \<le> PID_MAX_LIMIT" using pos(2) by (simp add: o)
      from pid_loop_result [OF l w this] obtain b where "pos' = b + TGID_OFFSET" "pos - 258 \<le> b" "b \<le> PID_MAX_LIMIT" "listed w (pos - 258) b nrs"
        "b < PID_MAX_LIMIT \<longrightarrow> \<not> fill b" by blast
      then show thesis by (intro listing [of nrs b now']) (auto simp: e l)
    qed
    consider "pos = 256" | "pos = 257" | "258 \<le> pos" using pos(1) by linarith
    then show thesis
    proof cases
      case 1
      consider "\<not> emit ''self''" | "emit ''self''" "\<not> emit ''thread-self''" | "emit ''self''" "emit ''thread-self''" by blast
      then show thesis
      proof cases
        case 1
        then show thesis using \<open>pos = 256\<close> lt by (intro blocked [of 0 now]) (auto simp: proc_pid_readdir_def o)
      next
        case 2
        then show thesis using \<open>pos = 256\<close> lt by (intro blocked [of 1 now]) (auto simp: proc_pid_readdir_def o self_names_def)
      next
        case 3
        then show thesis using \<open>pos = 256\<close> lt by (intro L [of 258]) (simp add: proc_pid_readdir_def o self_names_def)
      qed
    next
      case 2
      show thesis
      proof (cases "emit ''thread-self''")
        case True
        then show thesis using 2 lt by (intro L [of 258]) (simp add: proc_pid_readdir_def o self_names_def)
      next
        case False
        then show thesis using 2 lt by (intro blocked [of 0 now]) (auto simp: proc_pid_readdir_def o)
      qed
    next
      case 3
      then show thesis using lt by (intro L [of pos]) (simp add: proc_pid_readdir_def o self_names_def)
    qed
  qed
qed

lemma pid_calls_complete:
  assumes w: "world_ok P w"
  shows "256 \<le> pos \<Longrightarrow> pos \<le> PID_MAX_LIMIT + TGID_OFFSET \<Longrightarrow>
    \<exists>nrs. root_calls P dots root s w (bufs @ [big]) now pos = drop (pos - 256) self_names @ map show_nat nrs \<and> listed w (pos - 258) PID_MAX_LIMIT nrs"
proof (induction bufs arbitrary: now pos)
  case Nil
  show ?case
  proof (rule pid_readdir_result [OF w Nil, of "\<lambda>_. True" "\<lambda>_. True" now])
    fix nrs b now' assume "proc_pid_readdir P w (\<lambda>_. True) (\<lambda>_. True) now pos = (drop (pos - 256) self_names @ map show_nat nrs, b + TGID_OFFSET, now')"
      "listed w (pos - 258) b nrs" "b \<le> PID_MAX_LIMIT" "b < PID_MAX_LIMIT \<longrightarrow> (\<lambda>_. True :: bool) \<noteq> (\<lambda>_ :: nat. True)"
    then show ?thesis using Nil(1) by (intro exI [of _ nrs]) (simp add: proc_root_readdir_def FIRST_PROCESS_ENTRY_def)
  qed simp
next
  case (Cons buf bufs)
  obtain give emit fill where buf: "buf = (give, emit, fill)" by (cases buf) auto
  have r: "proc_root_readdir P dots give root s w emit fill now pos = (case proc_pid_readdir P w emit fill now pos of (names, pos, now) \<Rightarrow> (0, names, pos, now))"
    using Cons.prems(1) by (simp add: proc_root_readdir_def FIRST_PROCESS_ENTRY_def)
  have o: "TGID_OFFSET = 258" by (simp add: TGID_OFFSET_def FIRST_PROCESS_ENTRY_def)
  show ?case
  proof (rule pid_readdir_result [OF w Cons.prems, of emit fill now])
    fix k now' assume c: "proc_pid_readdir P w emit fill now pos = (take k (drop (pos - 256) self_names), pos + k, now')" "pos + k < 258"
    obtain nrs where i: "root_calls P dots root s w (bufs @ [big]) now' (pos + k) = drop (pos + k - 256) self_names @ map show_nat nrs"
      "listed w (pos + k - 258) PID_MAX_LIMIT nrs" using Cons.IH [of "pos + k" now'] Cons.prems(1) c(2) by (auto simp: o)
    have "pos + k - 258 = pos - 258" "pos + k - 256 = (pos - 256) + k" using Cons.prems(1) c(2) by simp_all
    moreover have "take k xs @ drop (n + k) ys = drop n ys" if "xs = drop n ys" for xs ys :: "string list" and n using that by (metis add.commute append_take_drop_id drop_drop)
    ultimately show ?thesis using i by (intro exI [of _ nrs]) (simp add: buf r c(1) append_assoc [symmetric] del: append_assoc drop_drop)
  next
    fix nrs1 b now' assume c: "proc_pid_readdir P w emit fill now pos = (drop (pos - 256) self_names @ map show_nat nrs1, b + TGID_OFFSET, now')"
      "listed w (pos - 258) b nrs1" "pos - 258 \<le> b" "b \<le> PID_MAX_LIMIT"
    obtain nrs where i: "root_calls P dots root s w (bufs @ [big]) now' (b + TGID_OFFSET) = drop (b + TGID_OFFSET - 256) self_names @ map show_nat nrs"
      "listed w (b + TGID_OFFSET - 258) PID_MAX_LIMIT nrs" using Cons.IH [of "b + TGID_OFFSET" now'] c(4) by (auto simp: o)
    have "drop (b + TGID_OFFSET - 256) self_names = []" by (simp add: o self_names_def)
    moreover have "listed w (pos - 258) PID_MAX_LIMIT (nrs1 @ nrs)" using listed_append [OF c(2) _ c(3,4)] i(2) by (simp add: o)
    ultimately show ?thesis using i(1) by (intro exI [of _ "nrs1 @ nrs"]) (simp add: buf r c(1))
  qed
qed

lemma root_step:
  assumes ok: "tree_ok s" "pdes s root = Some ed" and dots: "\<forall>p. 2 \<le> p \<longrightarrow> dots p = (True, p)"
    and k: "k < length (inorder (e_subdir ed))" "k < 254" "length (inorder (e_subdir ed)) < 2 ^ 31"
  defines "xs \<equiv> inorder (e_subdir ed)"
  shows "root_calls P dots root s w ((give, emit, fill) # bufs) now (k + 2) =
    (if \<forall>de \<in> set (drop k xs). give de then map (name_of s) (drop k xs) @ root_calls P dots root s w ((give, emit, fill) # bufs) now 256
     else map (name_of s) (takeWhile give (drop k xs)) @ root_calls P dots root s w bufs now (k + length (takeWhile give (drop k xs)) + 2))"
proof -
  have R: "proc_readdir_de dots give root (k + 2) s =
      (if \<forall>de \<in> set (drop k xs). give de then 1 else 0, map (dirent s) (takeWhile give (drop k xs)), k + 2 + length (takeWhile give (drop k xs)), s)"
    using readdir_result [OF ok, of dots "k + 2" "k + 2" give] dots k(1,3) by (simp add: xs_def)
  have f: "map fst (map (dirent s) zs) = map (name_of s) zs" for zs by (simp add: o_def)
  have p: "(k + 2 < 256) = True" "((256::nat) < 256) = False" using k(2) by simp_all
  show ?thesis
  proof (cases "\<forall>de \<in> set (drop k xs). give de")
    case True
    then have t: "takeWhile give (drop k xs) = drop k xs" by (simp add: takeWhile_eq_all_conv)
    show ?thesis unfolding root_calls.simps proc_root_readdir_def FIRST_PROCESS_ENTRY_def p R t f
      using True by (simp split: prod.splits add: f del: map_map)
  next
    case False
    show ?thesis unfolding root_calls.simps proc_root_readdir_def FIRST_PROCESS_ENTRY_def p R if_not_P [OF False] by (simp add: f add.commute add.left_commute del: map_map)
  qed
qed

lemma root_calls_result:
  assumes w: "world_ok P w" and ok: "tree_ok s" "pdes s root = Some ed" and dots: "\<forall>p. 2 \<le> p \<longrightarrow> dots p = (True, p)"
    and len: "length (inorder (e_subdir ed)) \<le> 254"
  defines "xs \<equiv> inorder (e_subdir ed)"
  shows "k < length xs \<Longrightarrow>
    \<exists>nrs. root_calls P dots root s w (bufs @ [big]) now (k + 2) = map (name_of s) (drop k xs) @ self_names @ map show_nat nrs \<and> listed w 0 PID_MAX_LIMIT nrs"
proof (induction bufs arbitrary: k)
  case Nil
  have l: "k < length (inorder (e_subdir ed))" "k < 254" "length (inorder (e_subdir ed)) < 2 ^ 31" using Nil len by (simp_all add: xs_def)
  show ?case using root_step [OF ok dots l, of P w "\<lambda>_. True" "\<lambda>_. True" "\<lambda>_. True" "[]" now, folded xs_def]
      pid_calls_complete [OF w, of 256 dots root s "[]" now] by (auto simp: TGID_OFFSET_def FIRST_PROCESS_ENTRY_def)
next
  case (Cons buf bufs)
  obtain give emit fill where buf: "buf = (give, emit, fill)" by (cases buf) auto
  have l: "k < length (inorder (e_subdir ed))" "k < 254" "length (inorder (e_subdir ed)) < 2 ^ 31" using Cons.prems len by (simp_all add: xs_def)
  note S = root_step [OF ok dots l, of P w give emit fill "bufs @ [big]" now, folded xs_def]
  show ?case
  proof (cases "\<forall>de \<in> set (drop k xs). give de")
    case True
    obtain nrs where "root_calls P dots root s w ((buf # bufs) @ [big]) now 256 = drop (256 - 256) self_names @ map show_nat nrs" "listed w (256 - 258) PID_MAX_LIMIT nrs"
      using pid_calls_complete [OF w, of 256 dots root s "buf # bufs" now] by (auto simp: TGID_OFFSET_def FIRST_PROCESS_ENTRY_def simp del: root_calls.simps)
    then show ?thesis using S True by (intro exI [of _ nrs]) (simp add: buf del: root_calls.simps)
  next
    case False
    define j where "j = length (takeWhile give (drop k xs))"
    have t: "takeWhile give (drop k xs) = take j (drop k xs)" by (simp add: j_def takeWhile_eq_take [symmetric])
    have "j \<le> length (drop k xs)" unfolding j_def by (rule length_takeWhile_le)
    moreover have "j \<noteq> length (drop k xs)"
    proof
      assume "j = length (drop k xs)"
      then have "takeWhile give (drop k xs) = drop k xs" using t by simp
      then show False using False by (simp add: takeWhile_eq_all_conv)
    qed
    ultimately have "j < length (drop k xs)" by simp
    then have j: "k + j < length xs" by simp
    obtain nrs where "root_calls P dots root s w (bufs @ [big]) now (k + j + 2) = map (name_of s) (drop (k + j) xs) @ self_names @ map show_nat nrs"
      "listed w 0 PID_MAX_LIMIT nrs" using Cons.IH [OF j] by blast
    moreover have "map (name_of s) (drop k xs) = map (name_of s) (take j (drop k xs)) @ map (name_of s) (drop (k + j) xs)"
      unfolding map_append [symmetric] by (metis add.commute append_take_drop_id drop_drop)
    moreover note S [unfolded if_not_P [OF False], folded j_def, unfolded t]
    ultimately show ?thesis by (intro exI [of _ nrs]) (simp add: buf del: root_calls.simps)
  qed
qed

text \<open>C18.  Listing a \<open>/proc\<close> with at most 254 entries in its tree, none of which is added or removed meanwhile, while processes come and go, in any
  number of calls of which the last has room for all: first every entry of the tree, once,
  then \<open>self\<close> and \<open>thread-self\<close>, then processes in ascending order, nobody twice, only such as were there at some moment, and everybody
  who was there all the time; what is listed can be looked up while it is there.\<close>

theorem root_complete:
  assumes w: "world_ok P w" and ok: "tree_ok s" "pdes s root = Some ed" and dots: "\<forall>p. 2 \<le> p \<longrightarrow> dots p = (True, p)"
    and len: "0 < length (inorder (e_subdir ed))" "length (inorder (e_subdir ed)) \<le> 254"
  shows "\<exists>tree nrs. root_calls P dots root s w (bufs @ [big]) now 2 = tree @ [''self'', ''thread-self''] @ map show_nat nrs
    \<and> distinct tree \<and> set tree = dom (look s root)
    \<and> sorted_wrt (<) nrs \<and> (\<forall>n \<in> set nrs. \<exists>i. shown_at (w i) n \<and> proc_pid_lookup True True (w i) (show_nat n) = (0, [Acq (RdLock ''rcu''), Acq TaskRef, Rel (RdLock ''rcu''), Rel TaskRef]))
    \<and> (\<forall>n. always w n \<longrightarrow> n \<in> set nrs)"
proof -
  define xs where "xs = inorder (e_subdir ed)"
  obtain nrs where r: "root_calls P dots root s w (bufs @ [big]) now 2 = map (name_of s) xs @ self_names @ map show_nat nrs" "listed w 0 PID_MAX_LIMIT nrs"
    using root_calls_result [OF w ok dots len(2,1), of bufs now] unfolding xs_def drop_0 add_0 by blast
  have d: "distinct (map (name_of s) xs)" using pm.sorted_distinct [OF tree_okD(1) [OF ok]] by (simp add: xs_def)
  have l: "look s root n = Some de \<longleftrightarrow> de \<in> set xs \<and> name_of s de = n" for n de using look_Some [OF ok(1)] ok(2) by (auto simp: xs_def)
  have dom: "set (map (name_of s) xs) = dom (look s root)" by (auto simp: dom_def l)
  have found: "proc_pid_lookup True True (w i) (show_nat n) = (0, [Acq (RdLock ''rcu''), Acq TaskRef, Rel (RdLock ''rcu''), Rel TaskRef])"
    if "n < PID_MAX_LIMIT" "shown_at (w i) n" for i n
  proof -
    from that(2) obtain t where t: "(n, Some t) \<in> set (w i)" by (auto simp: shown_at_def)
    have "distinct (map fst (w i))" using w by (simp add: world_ok_def strict_sorted_iff)
    then have "map_of (w i) n = Some (Some t)" using t by simp
    moreover have "name_to_int (show_nat n) = n" using that(1) by (intro name_to_int_show) (simp add: PID_MAX_LIMIT_def)
    moreover have "n \<noteq> 4294967295" using that(1) by (simp add: PID_MAX_LIMIT_def)
    ultimately show ?thesis by (simp add: proc_pid_lookup_def proc_pid_instantiate_def Let_def)
  qed
  have "\<exists>i. shown_at (w i) n \<and> proc_pid_lookup True True (w i) (show_nat n) = (0, [Acq (RdLock ''rcu''), Acq TaskRef, Rel (RdLock ''rcu''), Rel TaskRef])"
    if "n \<in> set nrs" for n using listedD(2,3) [OF r(2) that] found by blast
  moreover have "n \<in> set nrs" if "always w n" for n using listedD(4) [OF r(2) _ _ that] that by (simp add: always_def)
  ultimately show ?thesis using r(1) listedD(1) [OF r(2)] d dom unfolding self_names_def by blast
qed

text \<open>C19.  If entries of the tree were removed between two calls, so that the position is behind the last, nothing more is listed, however often it
  is tried: \<open>proc_readdir_de\<close> returns 0 there, and no process appears.\<close>

theorem root_shrunk:
  assumes "tree_ok s" "pdes s root = Some ed" "\<forall>p. 2 \<le> p \<longrightarrow> dots p = (True, p)" "2 \<le> pos" "pos < 256" "length (inorder (e_subdir ed)) \<le> pos - 2"
  shows "root_calls P dots root s w bufs now pos = []"
proof -
  have R: "proc_readdir_de dots give root pos s = (0, [], pos, s)" for give
    using readdir_result [OF assms(1,2), of dots pos pos give] assms(3-6) by simp
  show ?thesis
  proof (induction bufs arbitrary: now)
    case (Cons buf bufs)
    obtain give emit fill where "buf = (give, emit, fill)" by (cases buf) auto
    then show ?case using Cons assms(5) by (simp add: proc_root_readdir_def R FIRST_PROCESS_ENTRY_def)
  qed simp
qed

text \<open>A buffer that is full at entry 254 or later: the position is taken for one of the processes, and the other entries of the tree are
  skipped, with \<open>self\<close> and the first processes.\<close>

lemma root_skips:
  assumes w: "world_ok P w" and ok: "tree_ok s" "pdes s root = Some ed" and dots: "\<forall>p. 2 \<le> p \<longrightarrow> dots p = (True, p)"
  defines "xs \<equiv> inorder (e_subdir ed)"
  assumes k: "254 \<le> k" "k < length xs" "length xs < PID_MAX_LIMIT" "takeWhile give xs = take k xs"
  shows "\<exists>nrs. root_calls P dots root s w ((give, emit, fill) # bufs @ [big]) now 2 = map (name_of s) (take k xs) @ drop (k - 254) self_names @ map show_nat nrs
    \<and> (\<forall>n \<in> set nrs. k - 256 \<le> n)"
proof -
  have lim: "length xs < 2 ^ 31" "k + 2 \<le> PID_MAX_LIMIT + TGID_OFFSET" using k(2,3) by (simp_all add: PID_MAX_LIMIT_def)
  have "takeWhile give xs \<noteq> xs" unfolding k(4) using k(2) by simp
  then have "\<not> (\<forall>de \<in> set xs. give de)" by (simp add: takeWhile_eq_all_conv)
  then have R: "proc_readdir_de dots give root 2 s = (0, map (dirent s) (take k xs), 2 + k, s)"
    using readdir_result [OF ok, of dots 2 2 give] dots lim(1) k(2,4) by (simp add: xs_def)
  obtain nrs where n: "root_calls P dots root s w (bufs @ [big]) now (2 + k) = drop (2 + k - 256) self_names @ map show_nat nrs" "listed w (2 + k - 258) PID_MAX_LIMIT nrs"
    using pid_calls_complete [OF w, of "2 + k" dots root s bufs now] k(1) lim(2) by auto
  have "2 + k - 256 = k - 254" "2 + k - 258 = k - 256" by simp_all
  then show ?thesis using n listedD(2) [OF n(2)] by (intro exI [of _ nrs]) (simp add: proc_root_readdir_def FIRST_PROCESS_ENTRY_def R o_def)
qed

section \<open>A run\<close>

text \<open>Process 1 is there all the time; 7 starts after the first look and is a thread group leader, 9 is a thread, 300 is hidden.\<close>

definition some_world :: pid_world where
  "some_world i = (1, Some (PidTask True True)) # (if i = 0 then [] else [(7, Some (PidTask True True))]) @ [(9, Some (PidTask False True)), (300, Some (PidTask True False))]"

text \<open>A search that goes through the table.\<close>

definition some_search :: pid_search where
  "some_search = pid_search (\<lambda>nr ns. find (\<lambda>(n, _). nr \<le> n \<and> n < PID_MAX_LIMIT) ns)"

lemma some_search: "find_ge_pid some_search nr ns = find (\<lambda>(n, _). nr \<le> n \<and> n < PID_MAX_LIMIT) ns"
  unfolding some_search_def by (subst pid_search_inverse) (auto simp: find_Some_iff)

lemma some_search_ok: "search_ok some_search"
proof -
  have "\<exists>m u. find (\<lambda>(n, _). nr \<le> n \<and> n < PID_MAX_LIMIT) ns = Some (m, u) \<and> m \<le> n"
    if "sorted_wrt (<) (map fst ns)" "(n, t) \<in> set ns" "nr \<le> n" "n < PID_MAX_LIMIT" for nr n and t :: "pid_task option" and ns
    using that by (induction ns) (auto simp: less_imp_le)
  moreover have "(n, t) \<in> set ns" if "find (\<lambda>(n, _). nr \<le> n \<and> n < PID_MAX_LIMIT) ns = Some (n, t)" for nr n and t :: "pid_task option" and ns
    using that by (auto simp: find_Some_iff) (metis nth_mem)
  ultimately show ?thesis unfolding search_ok_def some_search by blast
qed

theorem root_complete_witness:
  "always some_world 1 \<and> (\<exists>tree nrs. root_calls some_search (\<lambda>p. (True, p)) proc_root store2 some_world ([(\<lambda>_. True, \<lambda>_. False, \<lambda>_. False), (\<lambda>_. True, \<lambda>_. True, \<lambda>n. n = 1)] @ [big]) 0 2
      = tree @ [''self'', ''thread-self''] @ map show_nat nrs
    \<and> distinct tree \<and> set tree = dom (look store2 proc_root)
    \<and> sorted_wrt (<) nrs \<and> (\<forall>n \<in> set nrs. \<exists>i. shown_at (some_world i) n
        \<and> proc_pid_lookup True True (some_world i) (show_nat n) = (0, [Acq (RdLock ''rcu''), Acq TaskRef, Rel (RdLock ''rcu''), Rel TaskRef]))
    \<and> (\<forall>n. always some_world n \<longrightarrow> n \<in> set nrs))"
proof
  show "always some_world 1" by (auto simp: always_def shown_at_def some_world_def PID_MAX_LIMIT_def)
  have d: "pdes store2 proc_root = Some (root_entry\<lparr>e_nlink := 3, e_subdir := Node Leaf 5 Leaf\<rparr>)" by (simp add: store2_eq proc_root_def)
  show "\<exists>tree nrs. root_calls some_search (\<lambda>p. (True, p)) proc_root store2 some_world ([(\<lambda>_. True, \<lambda>_. False, \<lambda>_. False), (\<lambda>_. True, \<lambda>_. True, \<lambda>n. n = 1)] @ [big]) 0 2
      = tree @ [''self'', ''thread-self''] @ map show_nat nrs
    \<and> distinct tree \<and> set tree = dom (look store2 proc_root)
    \<and> sorted_wrt (<) nrs \<and> (\<forall>n \<in> set nrs. \<exists>i. shown_at (some_world i) n
        \<and> proc_pid_lookup True True (some_world i) (show_nat n) = (0, [Acq (RdLock ''rcu''), Acq TaskRef, Rel (RdLock ''rcu''), Rel TaskRef]))
    \<and> (\<forall>n. always some_world n \<longrightarrow> n \<in> set nrs)"
    by (rule root_complete [OF _ store_ok(2) d]) (auto simp: world_ok_def some_world_def some_search_ok)
qed

theorem root_shrunk_witness: "root_calls some_search (\<lambda>p. (True, p)) proc_root store2 some_world [big, big] 0 3 = []"
proof -
  have d: "pdes store2 proc_root = Some (root_entry\<lparr>e_nlink := 3, e_subdir := Node Leaf 5 Leaf\<rparr>)" by (simp add: store2_eq proc_root_def)
  show ?thesis by (rule root_shrunk [OF store_ok(2) d]) simp_all
qed

end
