(* ===== verification/ProcTasks.thy ===== *)
theory ProcTasks imports ProcPids begin

text \<open>
  The threads of a process, \<open>/proc/<pid>/task\<close>: \<open>first_tid\<close>, \<open>next_tid\<close>, \<open>proc_task_readdir\<close> and \<open>proc_task_lookup\<close> of \<open>fs/proc/base.c\<close>, the same
  in both copies.  A thread group is the list of its threads, the leader first; it may be another one in every call.  Shown: a group that
  does not change is listed completely, each thread once, over any number of calls; a thread that is there all the time is left out
  when others end between two calls.
\<close>

section \<open>Walking along the threads\<close>

definition first_tid :: "nat list option \<Rightarrow> nat \<Rightarrow> nat \<Rightarrow> nat option" where
  "first_tid tg tid nr =
     (case tg of
        None \<Rightarrow> None
      | Some ts \<Rightarrow>
          if tid \<noteq> 0 \<and> nr \<noteq> 0 \<and> tid \<in> set ts then Some tid
          else if nr \<ge> length ts then None
          else Some (ts ! nr))"

definition next_tid :: "nat list option \<Rightarrow> nat \<Rightarrow> nat option" where
  "next_tid tg start =
     (case tg of
        None \<Rightarrow> None
      | Some ts \<Rightarrow> (case dropWhile (\<lambda>t. t \<noteq> start) ts of _ # t # _ \<Rightarrow> Some t | _ \<Rightarrow> None))"

text \<open>The loop; \<open>fill\<close> is \<open>proc_fill_cache\<close>.  The result: the threads listed, \<open>ctx->pos\<close> and \<open>f_version\<close>.\<close>

fun task_loop :: "nat list option \<Rightarrow> (nat \<Rightarrow> bool) \<Rightarrow> nat \<Rightarrow> nat option \<Rightarrow> nat \<Rightarrow> fault + nat list \<times> nat \<times> nat" where
  "task_loop tg fill 0 task pos = Inl NonTerminating"
| "task_loop tg fill (Suc fuel) None pos = Inr ([], pos, 0)"
| "task_loop tg fill (Suc fuel) (Some tid) pos =
     (if \<not> fill tid then Inr ([], pos, tid)
      else (case task_loop tg fill fuel (next_tid tg tid) (pos + 1) of
          Inl e \<Rightarrow> Inl e
        | Inr (out, pos, f_version) \<Rightarrow> Inr (tid # out, pos, f_version)))"

text \<open>\<open>dead\<close> is \<open>proc_inode_is_dead\<close>, \<open>dots\<close> is \<open>dir_emit_dots\<close>.  The result: what is returned, the names, \<open>ctx->pos\<close> and \<open>f_version\<close>.\<close>

definition proc_task_readdir ::
  "bool \<Rightarrow> (nat \<Rightarrow> bool \<times> nat) \<Rightarrow> nat list option \<Rightarrow> (nat \<Rightarrow> bool) \<Rightarrow> nat \<Rightarrow> nat \<Rightarrow> fault + int \<times> string list \<times> nat \<times> nat" where
  "proc_task_readdir dead dots tg fill pos f_version =
     (if dead then Inr (- ENOENT, [], pos, f_version)
      else (case dots pos of (ok, pos) \<Rightarrow>
        if \<not> ok then Inr (0, [], pos, f_version)
        else (case task_loop tg fill (Suc (case tg of None \<Rightarrow> 0 | Some ts \<Rightarrow> length ts)) (first_tid tg f_version (pos - 2)) pos of
            Inl e \<Rightarrow> Inl e
          | Inr (out, pos, f_version) \<Rightarrow> Inr (0, map show_nat out, pos, f_version))))"

text \<open>Looking a thread up: it must be one of the group of the process.\<close>

definition proc_task_lookup :: "nat list option \<Rightarrow> (nat \<Rightarrow> bool) \<Rightarrow> (nat \<Rightarrow> int) \<Rightarrow> string \<Rightarrow> int \<times> kcall list" where
  "proc_task_lookup tg task instantiate name =
     (case tg of
        None \<Rightarrow> (- ENOENT, [])
      | Some ts \<Rightarrow>
          let tid = name_to_int name in
          if tid = 4294967295 then (- ENOENT, [Acq TaskRef, Rel TaskRef])
          else if \<not> task tid then (- ENOENT, [Acq TaskRef, Acq (RdLock ''rcu''), Rel (RdLock ''rcu''), Rel TaskRef])
          else (if tid \<in> set ts then instantiate tid else - ENOENT,
            [Acq TaskRef, Acq (RdLock ''rcu''), Acq TaskRef, Rel (RdLock ''rcu''), Rel TaskRef, Rel TaskRef]))"

text \<open>Many calls; in each the tg and what the buffer takes may be others.\<close>

fun task_calls :: "(nat \<Rightarrow> bool \<times> nat) \<Rightarrow> (nat list option \<times> (nat \<Rightarrow> bool)) list \<Rightarrow> nat \<Rightarrow> nat \<Rightarrow> fault + string list" where
  "task_calls dots [] pos f_version = Inr []"
| "task_calls dots ((tg, fill) # bufs) pos f_version =
     (case proc_task_readdir False dots tg fill pos f_version of
        Inl e \<Rightarrow> Inl e
      | Inr (_, names, pos, f_version) \<Rightarrow> (case task_calls dots bufs pos f_version of Inl e \<Rightarrow> Inl e | Inr names' \<Rightarrow> Inr (names @ names')))"

section \<open>What is listed\<close>

lemma next_tid_at: "distinct ts \<Longrightarrow> k < length ts \<Longrightarrow> next_tid (Some ts) (ts ! k) = (if k + 1 < length ts then Some (ts ! (k + 1)) else None)"
proof -
  assume d: "distinct ts" and k: "k < length ts"
  have "dropWhile (\<lambda>t. t \<noteq> ts ! k) (take k ts @ drop k ts) = dropWhile (\<lambda>t. t \<noteq> ts ! k) (drop k ts)"
    by (rule dropWhile_append2) (use d k in \<open>auto simp: in_set_conv_nth nth_eq_iff_index_eq\<close>)
  moreover have d: "drop k ts = ts ! k # drop (k + 1) ts" using k by (simp add: Cons_nth_drop_Suc)
  ultimately have e: "dropWhile (\<lambda>t. t \<noteq> ts ! k) ts = ts ! k # drop (k + 1) ts" unfolding append_take_drop_id unfolding d by simp
  show ?thesis
  proof (cases "k + 1 < length ts")
    case True
    then have "drop (k + 1) ts = ts ! (k + 1) # drop (k + 2) ts" by (simp add: Cons_nth_drop_Suc [symmetric])
    then show ?thesis using True by (simp add: next_tid_def e)
  qed (simp add: next_tid_def e)
qed

lemma task_loop_result:
  assumes ts: "distinct ts" "0 \<notin> set ts"
  shows "k \<le> length ts \<Longrightarrow> length ts < fuel + k \<Longrightarrow>
    task_loop (Some ts) fill fuel (if k < length ts then Some (ts ! k) else None) pos =
      (let out = takeWhile fill (drop k ts) in
       Inr (out, pos + length out, if k + length out < length ts then ts ! (k + length out) else 0))"
proof (induction fuel arbitrary: k pos)
  case (Suc fuel)
  show ?case
  proof (cases "k < length ts")
    case True
    then have d: "drop k ts = ts ! k # drop (k + 1) ts" by (simp add: Cons_nth_drop_Suc)
    have n: "next_tid (Some ts) (ts ! k) = (if k + 1 < length ts then Some (ts ! (k + 1)) else None)" by (rule next_tid_at [OF ts(1) True])
    have IH: "task_loop (Some ts) fill fuel (if k + 1 < length ts then Some (ts ! (k + 1)) else None) (pos + 1) =
      (let out = takeWhile fill (drop (k + 1) ts) in
       Inr (out, pos + 1 + length out, if k + 1 + length out < length ts then ts ! (k + 1 + length out) else 0))"
      by (rule Suc.IH) (use Suc.prems True in simp_all)
    show ?thesis
    proof (cases "fill (ts ! k)")
      case f: True
      have "task_loop (Some ts) fill (Suc fuel) (Some (ts ! k)) pos =
          (case task_loop (Some ts) fill fuel (if k + 1 < length ts then Some (ts ! (k + 1)) else None) (pos + 1) of
             Inl e \<Rightarrow> Inl e | Inr (out, pos, f_version) \<Rightarrow> Inr (ts ! k # out, pos, f_version))"
        using f by (simp only: task_loop.simps n not_True_eq_False if_False)
      then show ?thesis unfolding IH d using f True by (simp add: Let_def)
    next
      case False
      then show ?thesis using True unfolding d by (simp add: Let_def)
    qed
  next
    case False
    then show ?thesis using Suc.prems by (simp add: Let_def)
  qed
qed simp

text \<open>A group of threads that does not change is listed completely, every thread once and in the order of the group, over any number of calls, the last
  of which has room for all.\<close>

theorem task_complete:
  assumes ts: "distinct ts" "0 \<notin> set ts" and dots: "\<forall>p. 2 \<le> p \<longrightarrow> dots p = (True, p)"
  shows "task_calls dots (map (Pair (Some ts)) (fills @ [\<lambda>_. True])) 2 0 = Inr (map show_nat ts)"
proof -
  have first: "first_tid (Some ts) v k = (if k < length ts then Some (ts ! k) else None)"
    if "k \<le> length ts" "v = (if k < length ts then ts ! k else 0) \<or> k = 0" for k v using that by (auto simp: first_tid_def)
  have step: "proc_task_readdir False dots (Some ts) fill (k + 2) v = (let out = takeWhile fill (drop k ts) in
      Inr (0, map show_nat out, k + length out + 2, if k + length out < length ts then ts ! (k + length out) else 0))"
    if k: "k \<le> length ts" "v = (if k < length ts then ts ! k else 0) \<or> k = 0" for k v fill
  proof -
    have "length ts < Suc (length ts) + k" by simp
    from task_loop_result [OF ts k(1) this, of fill "k + 2"] show ?thesis
      using dots by (simp add: proc_task_readdir_def first [OF k] Let_def)
  qed
  have "task_calls dots (map (Pair (Some ts)) (fills @ [\<lambda>_. True])) (k + 2) v = Inr (map show_nat (drop k ts))"
    if "k \<le> length ts" "v = (if k < length ts then ts ! k else 0) \<or> k = 0" for k v
    using that
  proof (induction fills arbitrary: k v)
    case Nil
    show ?case using step [OF Nil, of "\<lambda>_. True"] by (simp add: Let_def)
  next
    case (Cons fill fills)
    define j where "j = length (takeWhile fill (drop k ts))"
    have t: "takeWhile fill (drop k ts) = take j (drop k ts)" by (simp add: j_def takeWhile_eq_take [symmetric])
    have j: "k + j \<le> length ts" using length_takeWhile_le [of fill "drop k ts"] Cons.prems(1) by (simp add: j_def)
    have s: "proc_task_readdir False dots (Some ts) fill (k + 2) v = Inr (0, map show_nat (take j (drop k ts)), k + j + 2, if k + j < length ts then ts ! (k + j) else 0)"
      using step [OF Cons.prems, of fill, unfolded Let_def, folded j_def] unfolding t .
    have "map show_nat (drop k ts) = map show_nat (take j (drop k ts)) @ map show_nat (drop (k + j) ts)"
      unfolding map_append [symmetric] by (metis add.commute append_take_drop_id drop_drop)
    then show ?case using Cons.IH [OF j, of "if k + j < length ts then ts ! (k + j) else 0"] by (simp add: s del: add_2_eq_Suc')
  qed
  from this [of 0 0] show ?thesis by (simp add: numeral_2_eq_2)
qed

theorem task_complete_witness:
  "task_calls (\<lambda>p. (True, p)) (map (Pair (Some [21, 34, 22])) ([\<lambda>t. t = 21, \<lambda>_. False] @ [\<lambda>_. True])) 2 0 = Inr (map show_nat [21, 34, 22])"
  by (rule task_complete) simp_all

text \<open>The buffer of the first call is full at the third of four threads; before the second call the second and the third end.  The position is then
  behind the end of the group, and the fourth thread, which is there all the time, is never listed.\<close>

theorem task_skips:
  "task_calls (\<lambda>p. (True, p)) ((Some [21, 22, 23, 24], \<lambda>t. t < 23) # replicate n (Some [21, 24], \<lambda>_. True)) 2 0 = Inr [''21'', ''22'']"
proof -
  have "task_calls (\<lambda>p. (True, p)) (replicate n (Some [21, 24], \<lambda>_. True)) 4 v = Inr []" if "v = 23 \<or> v = 0" for v
    using that
  proof (induction n arbitrary: v)
    case (Suc n)
    then show ?case by (auto simp: proc_task_readdir_def first_tid_def)
  qed simp
  moreover have "proc_task_readdir False (\<lambda>p. (True, p)) (Some [21, 22, 23, 24]) (\<lambda>t. t < 23) 2 0 = Inr (0, [''21'', ''22''], 4, 23)"
    by code_simp
  ultimately show ?thesis by simp
qed

end
