(* ===== verification/ProcPage.thy ===== *)
theory ProcPage imports KernelApi begin

text \<open>
  The arrays over all pages of memory, \<open>/proc/kpagecount\<close>, \<open>/proc/kpageflags\<close> and \<open>/proc/kpagecgroup\<close>: \<open>fs/proc/page.c\<close>, the same in both
  copies, and \<open>mem_lseek\<close> of \<open>base.c\<close>, with which one moves in them.  Every page has eight bytes in each.  What the kernel knows of a page (the record \<open>page_ops\<close>) and the numbers of
  its flags are parameters.  Shown: reading from start to end gives one value for every page; behind the end there is no end;
  and which bit of an entry of \<open>kpageflags\<close> says what.
\<close>

unbundle bit_operations_syntax

section \<open>Reading an array\<close>

definition KPMSIZE :: nat where "KPMSIZE = 8"

text \<open>The loop of the three functions.  \<open>put\<close>: whether \<open>put_user\<close> can write at this distance from \<open>buf\<close>.  The result: whether
  all was written, and the entries written.  The callers make sure that \<open>count\<close> is a multiple of \<open>KPMSIZE\<close>.\<close>

function kpm_loop :: "(nat \<Rightarrow> 64 word) \<Rightarrow> (nat \<Rightarrow> bool) \<Rightarrow> nat \<Rightarrow> nat \<Rightarrow> nat \<Rightarrow> bool \<times> 64 word list" where
  "kpm_loop entry put pfn off count =
     (if count = 0 then (True, [])
      else if \<not> put off then (False, [])
      else (case kpm_loop entry put (pfn + 1) (off + KPMSIZE) (count - KPMSIZE) of (ok, out) \<Rightarrow> (ok, entry pfn # out)))"

  by pat_completeness auto

termination kpm_loop
  by (relation "measure (\<lambda>(_, _, _, _, count). count)") (simp_all add: KPMSIZE_def)

declare kpm_loop.simps [simp del]

definition kpm_read :: "(nat \<Rightarrow> 64 word) \<Rightarrow> nat \<Rightarrow> (nat \<Rightarrow> bool) \<Rightarrow> nat \<Rightarrow> int \<Rightarrow> int \<times> int \<times> 64 word list" where
  "kpm_read entry max_pfn put count pos =
     (let src = u64 pos; pfn = nat src div KPMSIZE;
          count = min count (nat (u64 (u64 (int (max_pfn * KPMSIZE)) - src))) in
      if nat src mod KPMSIZE \<noteq> 0 \<or> count mod KPMSIZE \<noteq> 0 then (- EINVAL, pos, [])
      else (case kpm_loop entry put pfn 0 count of (ok, out) \<Rightarrow>
        (if ok then int (length out * KPMSIZE) else - EFAULT, s64 (pos + int (length out * KPMSIZE)), out)))"

text \<open>The names of the flags: those of \<open>kpageflags\<close> and those of \<open>page->flags\<close>.\<close>

datatype kpf = KPF_LOCKED | KPF_ERROR | KPF_REFERENCED | KPF_UPTODATE | KPF_DIRTY | KPF_LRU | KPF_ACTIVE | KPF_SLAB | KPF_WRITEBACK
  | KPF_RECLAIM | KPF_BUDDY | KPF_MMAP | KPF_ANON | KPF_SWAPCACHE | KPF_SWAPBACKED | KPF_COMPOUND_HEAD | KPF_COMPOUND_TAIL | KPF_HUGE
  | KPF_UNEVICTABLE | KPF_HWPOISON | KPF_NOPAGE | KPF_KSM | KPF_THP | KPF_BALLOON | KPF_ZERO_PAGE | KPF_IDLE | KPF_RESERVED | KPF_MLOCKED
  | KPF_MAPPEDTODISK | KPF_PRIVATE | KPF_PRIVATE_2 | KPF_OWNER_PRIVATE | KPF_ARCH | KPF_UNCACHED

datatype pgflag = PG_locked | PG_error | PG_referenced | PG_uptodate | PG_dirty | PG_lru | PG_active | PG_slab | PG_writeback | PG_reclaim
  | PG_swapbacked | PG_unevictable | PG_hwpoison | PG_reserved | PG_mlocked | PG_mappedtodisk | PG_private | PG_private_2 | PG_owner_priv_1
  | PG_arch_1 | PG_uncached

text \<open>What the kernel knows of its pages, with the two options of its configuration that matter.\<close>

record 'p page_ops =
  kpf_bit :: "kpf \<Rightarrow> nat"
  pg_bit :: "pgflag \<Rightarrow> nat"
  CONFIG_MEMORY_FAILURE :: bool
  CONFIG_ARCH_USES_PG_UNCACHED :: bool
  pfn_valid :: "nat \<Rightarrow> bool"
  pfn_to_page :: "nat \<Rightarrow> 'p"
  page_to_pfn :: "'p \<Rightarrow> nat"
  pg_flags :: "'p \<Rightarrow> 64 word"
  page_mapcount :: "'p \<Rightarrow> int"
  page_count :: "'p \<Rightarrow> int"
  page_cgroup_ino :: "'p \<Rightarrow> 64 word"
  compound_head :: "'p \<Rightarrow> 'p"
  PageSlab :: "'p \<Rightarrow> bool"
  page_mapped :: "'p \<Rightarrow> bool"
  PageAnon :: "'p \<Rightarrow> bool"
  PageKsm :: "'p \<Rightarrow> bool"
  PageHead :: "'p \<Rightarrow> bool"
  PageTail :: "'p \<Rightarrow> bool"
  PageHuge :: "'p \<Rightarrow> bool"
  PageTransCompound :: "'p \<Rightarrow> bool"
  PageLRU :: "'p \<Rightarrow> bool"
  is_huge_zero_page :: "'p \<Rightarrow> bool"
  is_zero_pfn :: "nat \<Rightarrow> bool"
  PageBuddy :: "'p \<Rightarrow> bool"
  is_free_buddy_page :: "'p \<Rightarrow> bool"
  PageBalloon :: "'p \<Rightarrow> bool"
  page_is_idle :: "'p \<Rightarrow> bool"
  PageSwapCache :: "'p \<Rightarrow> bool"

definition ppage :: "'p page_ops \<Rightarrow> nat \<Rightarrow> 'p option" where
  "ppage E pfn = (if pfn_valid E pfn then Some (pfn_to_page E pfn) else None)"

definition kpagecount_read :: "'p page_ops \<Rightarrow> nat \<Rightarrow> (nat \<Rightarrow> bool) \<Rightarrow> nat \<Rightarrow> int \<Rightarrow> int \<times> int \<times> 64 word list" where
  "kpagecount_read E = kpm_read (\<lambda>pfn. case ppage E pfn of
       None \<Rightarrow> 0
     | Some p \<Rightarrow> if PageSlab E p then 0 else word_of_int (page_mapcount E p))"

section \<open>The flags of a page\<close>

definition kpf_copy_bit :: "64 word \<Rightarrow> nat \<Rightarrow> nat \<Rightarrow> 64 word" where
  "kpf_copy_bit kflags ubit kbit = push_bit ubit (drop_bit kbit kflags AND 1)"

text \<open>\<open>1 << n\<close> is an \<open>int\<close>, which \<open>|=\<close> converts.\<close>

definition kpf_if :: "bool \<Rightarrow> nat \<Rightarrow> 64 word" where
  "kpf_if b n = (if b then word_of_int (s32 (2 ^ n)) else 0)"

definition stable_page_flags :: "'p page_ops \<Rightarrow> 'p option \<Rightarrow> 64 word" where
  "stable_page_flags E page = (case page of
       None \<Rightarrow> kpf_if True (kpf_bit E KPF_NOPAGE)
     | Some page \<Rightarrow>
         let k = pg_flags E page; flag = (\<lambda>b f. kpf_if b (kpf_bit E f)); copied = (\<lambda>f g. kpf_copy_bit k (kpf_bit E f) (pg_bit E g));
             u = flag (\<not> PageSlab E page \<and> page_mapped E page) KPF_MMAP;
             u = u OR flag (PageAnon E page) KPF_ANON;
             u = u OR flag (PageKsm E page) KPF_KSM;
             u = u OR flag (PageHead E page) KPF_COMPOUND_HEAD;
             u = u OR flag (PageTail E page) KPF_COMPOUND_TAIL;
             u = (if PageHuge E page then u OR flag True KPF_HUGE
                  else if PageTransCompound E page then
                    let head = compound_head E page in
                    if PageLRU E head \<or> PageAnon E head then u OR flag True KPF_THP
                    else if is_huge_zero_page E head then u OR flag True KPF_ZERO_PAGE OR flag True KPF_THP
                    else u
                  else if is_zero_pfn E (page_to_pfn E page) then u OR flag True KPF_ZERO_PAGE
                  else u);
             u = (if PageBuddy E page then u OR flag True KPF_BUDDY
                  else if page_count E page = 0 \<and> is_free_buddy_page E page then u OR flag True KPF_BUDDY
                  else u);
             u = u OR flag (PageBalloon E page) KPF_BALLOON;
             u = u OR flag (page_is_idle E page) KPF_IDLE;
             u = u OR copied KPF_LOCKED PG_locked;
             u = u OR copied KPF_SLAB PG_slab;
             u = u OR flag (PageTail E page \<and> PageSlab E (compound_head E page)) KPF_SLAB;
             u = u OR copied KPF_ERROR PG_error;
             u = u OR copied KPF_DIRTY PG_dirty;
             u = u OR copied KPF_UPTODATE PG_uptodate;
             u = u OR copied KPF_WRITEBACK PG_writeback;
             u = u OR copied KPF_LRU PG_lru;
             u = u OR copied KPF_REFERENCED PG_referenced;
             u = u OR copied KPF_ACTIVE PG_active;
             u = u OR copied KPF_RECLAIM PG_reclaim;
             u = u OR flag (PageSwapCache E page) KPF_SWAPCACHE;
             u = u OR copied KPF_SWAPBACKED PG_swapbacked;
             u = u OR copied KPF_UNEVICTABLE PG_unevictable;
             u = u OR copied KPF_MLOCKED PG_mlocked;
             u = (if CONFIG_MEMORY_FAILURE E then u OR copied KPF_HWPOISON PG_hwpoison else u);
             u = (if CONFIG_ARCH_USES_PG_UNCACHED E then u OR copied KPF_UNCACHED PG_uncached else u);
             u = u OR copied KPF_RESERVED PG_reserved;
             u = u OR copied KPF_MAPPEDTODISK PG_mappedtodisk;
             u = u OR copied KPF_PRIVATE PG_private;
             u = u OR copied KPF_PRIVATE_2 PG_private_2;
             u = u OR copied KPF_OWNER_PRIVATE PG_owner_priv_1;
             u = u OR copied KPF_ARCH PG_arch_1
         in u)"

definition kpageflags_read :: "'p page_ops \<Rightarrow> nat \<Rightarrow> (nat \<Rightarrow> bool) \<Rightarrow> nat \<Rightarrow> int \<Rightarrow> int \<times> int \<times> 64 word list" where
  "kpageflags_read E = kpm_read (\<lambda>pfn. stable_page_flags E (ppage E pfn))"

definition kpagecgroup_read :: "'p page_ops \<Rightarrow> nat \<Rightarrow> (nat \<Rightarrow> bool) \<Rightarrow> nat \<Rightarrow> int \<Rightarrow> int \<times> int \<times> 64 word list" where
  "kpagecgroup_read E = kpm_read (\<lambda>pfn. case ppage E pfn of None \<Rightarrow> 0 | Some p \<Rightarrow> page_cgroup_ino E p)"

text \<open>Moving: the result and the new \<open>f_pos\<close>.\<close>

definition mem_lseek :: "int \<Rightarrow> int \<Rightarrow> int \<Rightarrow> int \<times> int" where
  "mem_lseek f_pos offset orig =
     (if orig = 0 then (offset, offset)
      else if orig = 1 then (s64 (f_pos + offset), s64 (f_pos + offset))
      else (- EINVAL, f_pos))"

definition proc_page_init :: "bool \<Rightarrow> kenv \<Rightarrow> int \<times> kcall list" where
  "proc_page_init memcg K =
     (0, map (\<lambda>n. Acq (ProcEntry n)) (filter (k_proc_create K) ([''kpagecount'', ''kpageflags''] @ (if memcg then [''kpagecgroup''] else []))))"

section \<open>What a read delivers\<close>

lemma kpm_loop_all: "kpm_loop entry (\<lambda>_. True) pfn off (8 * n) = (True, map entry [pfn..<pfn + n])"
proof (induction n arbitrary: pfn off)
  case (Suc n)
  have c: "8 * Suc n - KPMSIZE = 8 * n" by (simp add: KPMSIZE_def)
  have u: "[pfn..<pfn + Suc n] = pfn # [pfn + 1..<pfn + 1 + n]" by (simp add: upt_conv_Cons del: upt_Suc)
  have ih: "kpm_loop entry (\<lambda>_. True) (Suc pfn) (off + KPMSIZE) (8 * n) = (True, map entry [Suc pfn..<Suc (pfn + n)])"
    using Suc.IH [of "pfn + 1" "off + KPMSIZE"] by (simp del: upt_Suc)
  show ?case unfolding u by (subst kpm_loop.simps) (simp add: c ih del: upt_Suc mult_Suc_right)
qed (simp add: kpm_loop.simps)

lemma kpm_read_at:
  assumes "p \<le> max_pfn" "8 * int max_pfn < 2 ^ 63"
  shows "kpm_read entry max_pfn (\<lambda>_. True) (8 * n) (8 * int p)
    = (8 * int (min n (max_pfn - p)), 8 * int (p + min n (max_pfn - p)), map entry [p..<p + min n (max_pfn - p)])"
proof -
  define k where "k = min n (max_pfn - p)"
  have s: "u64 (8 * int p) = 8 * int p" by (rule u64_id) (use assms in simp_all)
  have e: "u64 (int (max_pfn * KPMSIZE)) = 8 * int max_pfn" by (subst u64_id) (use assms in \<open>simp_all add: KPMSIZE_def\<close>)
  have d: "u64 (8 * int max_pfn - 8 * int p) = 8 * int (max_pfn - p)" by (subst u64_id) (use assms in simp_all)
  have m: "min (8 * n) (nat (8 * int (max_pfn - p))) = 8 * k" by (simp add: k_def min_def nat_mult_distrib)
  have p: "nat (8 * int p) = 8 * p" by (simp add: nat_mult_distrib)
  have "int k \<le> int max_pfn - int p" using assms by (simp add: k_def)
  then have f: "s64 (8 * int p + 8 * int k) = 8 * int p + 8 * int k" by (intro s64_id) (use assms in simp_all)
  show ?thesis unfolding kpm_read_def Let_def s e d m p k_def [symmetric]
    by (simp add: kpm_loop_all KPMSIZE_def f mult.commute [of _ 8])
qed

text \<open>Reading on with a buffer of \<open>n\<close> entries until a read returns 0.\<close>

fun kpm_cat :: "(nat \<Rightarrow> int \<Rightarrow> int \<times> int \<times> 64 word list) \<Rightarrow> nat \<Rightarrow> nat \<Rightarrow> int \<Rightarrow> 64 word list" where
  "kpm_cat rd bsize 0 pos = []"
| "kpm_cat rd bsize (Suc fuel) pos =
     (case rd bsize pos of (r, pos', out) \<Rightarrow> if r \<le> 0 then [] else out @ kpm_cat rd bsize fuel pos')"

lemma kpm_cat_all:
  assumes "8 * int max_pfn < 2 ^ 63" "0 < n"
  shows "p \<le> max_pfn \<Longrightarrow> max_pfn - p < fuel \<Longrightarrow>
    kpm_cat (kpm_read entry max_pfn (\<lambda>_. True)) (8 * n) fuel (8 * int p) = map entry [p..<max_pfn]"
proof (induction fuel arbitrary: p)
  case (Suc fuel)
  define k where "k = min n (max_pfn - p)"
  have r: "kpm_read entry max_pfn (\<lambda>_. True) (8 * n) (8 * int p) = (8 * int k, 8 * int (p + k), map entry [p..<p + k])"
    unfolding k_def by (rule kpm_read_at [OF Suc.prems(1) assms(1)])
  show ?case
  proof (cases "p = max_pfn")
    case True
    then show ?thesis using r by (simp add: k_def)
  next
    case False
    then have k: "0 < k" "p + k \<le> max_pfn" using assms(2) Suc.prems by (auto simp: k_def)
    have ih: "kpm_cat (kpm_read entry max_pfn (\<lambda>_. True)) (8 * n) fuel (8 * int (p + k)) = map entry [p + k..<max_pfn]"
      by (rule Suc.IH) (use k Suc.prems in simp_all)
    have "[p..<max_pfn] = [p..<p + k] @ [p + k..<max_pfn]" using k upt_add_eq_append [of p "p + k" "max_pfn - (p + k)"] by simp
    then show ?thesis using k ih by (simp add: r)
  qed
qed simp

text \<open>Behind the end the size of the rest wraps around, and a read is never told that there is nothing more.\<close>

lemma u64_wrap: "u64 (x + 2 ^ 64) = u64 x"
  by (simp only: u64_def unsigned_of_int) (simp add: take_bit_int_def)

lemma kpm_read_behind:
  assumes "max_pfn < p" "8 * int (p + n) < 2 ^ 63"
  shows "kpm_read entry max_pfn (\<lambda>_. True) (8 * n) (8 * int p) = (8 * int n, 8 * int (p + n), map entry [p..<p + n])"
proof -
  have s: "u64 (8 * int p) = 8 * int p" by (rule u64_id) (use assms in simp_all)
  have e: "u64 (int (max_pfn * KPMSIZE)) = 8 * int max_pfn" by (subst u64_id) (use assms in \<open>simp_all add: KPMSIZE_def\<close>)
  have "u64 (8 * int max_pfn - 8 * int p) = u64 (8 * int max_pfn - 8 * int p + 2 ^ 64)" by (rule u64_wrap [symmetric])
  also have "\<dots> = 8 * int max_pfn - 8 * int p + 2 ^ 64" by (rule u64_id) (use assms in simp_all)
  finally have "8 * n \<le> nat (u64 (8 * int max_pfn - 8 * int p))" using assms by (simp add: le_nat_iff)
  then have m: "min (8 * n) (nat (u64 (8 * int max_pfn - 8 * int p))) = 8 * n" by simp
  have p: "nat (8 * int p) = 8 * p" by (simp add: nat_mult_distrib)
  have f: "s64 (8 * int p + 8 * int n) = 8 * int p + 8 * int n" by (rule s64_id) (use assms in simp_all)
  show ?thesis unfolding kpm_read_def Let_def s e m p
    by (simp add: kpm_loop_all KPMSIZE_def f mult.commute [of _ 8])
qed

section \<open>What the flags say\<close>

text \<open>The numbers of the flags differ and fit their type; those that are set by a shift of the \<open>int\<close> 1 fit an \<open>int\<close>.\<close>

definition kpf_int :: "kpf set" where
  "kpf_int = {KPF_MMAP, KPF_ANON, KPF_KSM, KPF_COMPOUND_HEAD, KPF_COMPOUND_TAIL, KPF_HUGE, KPF_THP, KPF_ZERO_PAGE, KPF_BUDDY, KPF_BALLOON,
     KPF_IDLE, KPF_SLAB, KPF_SWAPCACHE, KPF_NOPAGE}"

definition kpf_ok :: "'p page_ops \<Rightarrow> bool" where
  "kpf_ok E \<longleftrightarrow> inj (kpf_bit E) \<and> (\<forall>f. kpf_bit E f < 64) \<and> (\<forall>f\<in>kpf_int. kpf_bit E f < 31)"

fun kpf_says :: "'p page_ops \<Rightarrow> 'p \<Rightarrow> kpf \<Rightarrow> bool" where
  "kpf_says E p KPF_NOPAGE = False"
| "kpf_says E p KPF_MMAP = (\<not> PageSlab E p \<and> page_mapped E p)"
| "kpf_says E p KPF_ANON = PageAnon E p"
| "kpf_says E p KPF_KSM = PageKsm E p"
| "kpf_says E p KPF_COMPOUND_HEAD = PageHead E p"
| "kpf_says E p KPF_COMPOUND_TAIL = PageTail E p"
| "kpf_says E p KPF_HUGE = PageHuge E p"
| "kpf_says E p KPF_THP = (\<not> PageHuge E p \<and> PageTransCompound E p \<and>
     (PageLRU E (compound_head E p) \<or> PageAnon E (compound_head E p) \<or> is_huge_zero_page E (compound_head E p)))"
| "kpf_says E p KPF_ZERO_PAGE = (\<not> PageHuge E p \<and>
     (if PageTransCompound E p
      then \<not> PageLRU E (compound_head E p) \<and> \<not> PageAnon E (compound_head E p) \<and> is_huge_zero_page E (compound_head E p)
      else is_zero_pfn E (page_to_pfn E p)))"
| "kpf_says E p KPF_BUDDY = (PageBuddy E p \<or> page_count E p = 0 \<and> is_free_buddy_page E p)"
| "kpf_says E p KPF_BALLOON = PageBalloon E p"
| "kpf_says E p KPF_IDLE = page_is_idle E p"
| "kpf_says E p KPF_SWAPCACHE = PageSwapCache E p"
| "kpf_says E p KPF_SLAB = (bit (pg_flags E p) (pg_bit E PG_slab) \<or> PageTail E p \<and> PageSlab E (compound_head E p))"
| "kpf_says E p KPF_HWPOISON = (CONFIG_MEMORY_FAILURE E \<and> bit (pg_flags E p) (pg_bit E PG_hwpoison))"
| "kpf_says E p KPF_UNCACHED = (CONFIG_ARCH_USES_PG_UNCACHED E \<and> bit (pg_flags E p) (pg_bit E PG_uncached))"
| "kpf_says E p KPF_LOCKED = bit (pg_flags E p) (pg_bit E PG_locked)"
| "kpf_says E p KPF_ERROR = bit (pg_flags E p) (pg_bit E PG_error)"
| "kpf_says E p KPF_DIRTY = bit (pg_flags E p) (pg_bit E PG_dirty)"
| "kpf_says E p KPF_UPTODATE = bit (pg_flags E p) (pg_bit E PG_uptodate)"
| "kpf_says E p KPF_WRITEBACK = bit (pg_flags E p) (pg_bit E PG_writeback)"
| "kpf_says E p KPF_LRU = bit (pg_flags E p) (pg_bit E PG_lru)"
| "kpf_says E p KPF_REFERENCED = bit (pg_flags E p) (pg_bit E PG_referenced)"
| "kpf_says E p KPF_ACTIVE = bit (pg_flags E p) (pg_bit E PG_active)"
| "kpf_says E p KPF_RECLAIM = bit (pg_flags E p) (pg_bit E PG_reclaim)"
| "kpf_says E p KPF_SWAPBACKED = bit (pg_flags E p) (pg_bit E PG_swapbacked)"
| "kpf_says E p KPF_UNEVICTABLE = bit (pg_flags E p) (pg_bit E PG_unevictable)"
| "kpf_says E p KPF_MLOCKED = bit (pg_flags E p) (pg_bit E PG_mlocked)"
| "kpf_says E p KPF_RESERVED = bit (pg_flags E p) (pg_bit E PG_reserved)"
| "kpf_says E p KPF_MAPPEDTODISK = bit (pg_flags E p) (pg_bit E PG_mappedtodisk)"
| "kpf_says E p KPF_PRIVATE = bit (pg_flags E p) (pg_bit E PG_private)"
| "kpf_says E p KPF_PRIVATE_2 = bit (pg_flags E p) (pg_bit E PG_private_2)"
| "kpf_says E p KPF_OWNER_PRIVATE = bit (pg_flags E p) (pg_bit E PG_owner_priv_1)"
| "kpf_says E p KPF_ARCH = bit (pg_flags E p) (pg_bit E PG_arch_1)"

lemma kpf_if_bit: "n < 31 \<Longrightarrow> kpf_if b n = (if b then push_bit n 1 else 0)"
proof -
  assume n: "n < 31"
  have "(2::int) ^ n \<le> 2 ^ 30" by (rule power_increasing) (use n in simp_all)
  then have "s32 (2 ^ n) = 2 ^ n" by (intro s32_id) (simp_all add: order_trans [of "- 2147483648" 0])
  then show ?thesis by (simp add: kpf_if_def push_bit_eq_mult)
qed

lemma bit_kpf_if: "n < 31 \<Longrightarrow> bit (kpf_if b n) i \<longleftrightarrow> b \<and> i = n"
  by (auto simp: kpf_if_bit bit_exp_iff)

lemma bit_kpf_copy_bit: "n < 64 \<Longrightarrow> bit (kpf_copy_bit k n g) i \<longleftrightarrow> bit k g \<and> i = n"
  by (auto simp: kpf_copy_bit_def bit_push_bit_iff bit_and_iff bit_drop_bit_eq bit_1_iff not_less simp del: push_bit_and)

lemma or_if: "(if c then u OR x else u) = u OR (if c then x else 0)" "(if c then u OR x else u OR y) = u OR (if c then x else y)"
  for u :: "64 word"
  by simp_all

lemma bit_if: "bit (if c then x else y) i \<longleftrightarrow> (if c then bit x i else bit y i)" for x y :: "64 word"
  by simp

lemma stable_page_flags_bit:
  assumes "kpf_ok E"
  shows "bit (stable_page_flags E (Some p)) i \<longleftrightarrow> (\<exists>f. i = kpf_bit E f \<and> kpf_says E p f)"
proof -
  have i: "kpf_bit E f < 31" if "f \<in> kpf_int" for f using assms that by (simp add: kpf_ok_def)
  have n: "kpf_bit E f < 64" for f using assms by (simp add: kpf_ok_def)
  have j: "kpf_bit E f = kpf_bit E g \<longleftrightarrow> f = g" for f g using assms by (simp add: kpf_ok_def inj_eq)
  have flags: "bit (kpf_if b (kpf_bit E f)) k \<longleftrightarrow> b \<and> k = kpf_bit E f" if "f \<in> kpf_int" for b f k
    using i [OF that] by (rule bit_kpf_if)
  have mem: "KPF_MMAP \<in> kpf_int" "KPF_ANON \<in> kpf_int" "KPF_KSM \<in> kpf_int" "KPF_COMPOUND_HEAD \<in> kpf_int" "KPF_COMPOUND_TAIL \<in> kpf_int"
    "KPF_HUGE \<in> kpf_int" "KPF_THP \<in> kpf_int" "KPF_ZERO_PAGE \<in> kpf_int" "KPF_BUDDY \<in> kpf_int" "KPF_BALLOON \<in> kpf_int" "KPF_IDLE \<in> kpf_int"
    "KPF_SLAB \<in> kpf_int" "KPF_SWAPCACHE \<in> kpf_int"
    by (simp_all add: kpf_int_def)
  note bits = stable_page_flags_def option.case Let_def or_if bit_or_iff bit_if bit_0_eq
    mem [THEN flags] bit_kpf_copy_bit [OF n]
  show ?thesis
  proof (cases "\<exists>f. i = kpf_bit E f")
    case True
    then obtain f where f: "i = kpf_bit E f" ..
    have "bit (stable_page_flags E (Some p)) i \<longleftrightarrow> kpf_says E p f"
      unfolding bits f j by (cases f) simp_all
    then show ?thesis by (auto simp: f j)
  next
    case False
    then have "i \<noteq> kpf_bit E f" for f by blast
    then show ?thesis unfolding bits by simp
  qed
qed

lemma no_page_bit: "kpf_ok E \<Longrightarrow> bit (stable_page_flags E None) (kpf_bit E f) \<longleftrightarrow> f = KPF_NOPAGE"
proof -
  assume ok: "kpf_ok E"
  have "KPF_NOPAGE \<in> kpf_int" by (simp add: kpf_int_def)
  then have "kpf_bit E KPF_NOPAGE < 31" using ok by (simp add: kpf_ok_def)
  then show ?thesis using ok by (simp add: stable_page_flags_def bit_kpf_if kpf_ok_def inj_eq)
qed

section \<open>Properties\<close>

text \<open>The numbers of \<open>linux/kernel-page-flags.h\<close>, and three pages: a locked anonymous one, a hole, and one of a slab.\<close>

primrec kpf_nr :: "kpf \<Rightarrow> nat" where
  "kpf_nr KPF_LOCKED = 0" | "kpf_nr KPF_ERROR = 1" | "kpf_nr KPF_REFERENCED = 2" | "kpf_nr KPF_UPTODATE = 3" | "kpf_nr KPF_DIRTY = 4"
| "kpf_nr KPF_LRU = 5" | "kpf_nr KPF_ACTIVE = 6" | "kpf_nr KPF_SLAB = 7" | "kpf_nr KPF_WRITEBACK = 8" | "kpf_nr KPF_RECLAIM = 9"
| "kpf_nr KPF_BUDDY = 10" | "kpf_nr KPF_MMAP = 11" | "kpf_nr KPF_ANON = 12" | "kpf_nr KPF_SWAPCACHE = 13" | "kpf_nr KPF_SWAPBACKED = 14"
| "kpf_nr KPF_COMPOUND_HEAD = 15" | "kpf_nr KPF_COMPOUND_TAIL = 16" | "kpf_nr KPF_HUGE = 17" | "kpf_nr KPF_UNEVICTABLE = 18"
| "kpf_nr KPF_HWPOISON = 19" | "kpf_nr KPF_NOPAGE = 20" | "kpf_nr KPF_KSM = 21" | "kpf_nr KPF_THP = 22" | "kpf_nr KPF_BALLOON = 23"
| "kpf_nr KPF_ZERO_PAGE = 24" | "kpf_nr KPF_IDLE = 25" | "kpf_nr KPF_RESERVED = 32" | "kpf_nr KPF_MLOCKED = 33"
| "kpf_nr KPF_MAPPEDTODISK = 34" | "kpf_nr KPF_PRIVATE = 35" | "kpf_nr KPF_PRIVATE_2 = 36" | "kpf_nr KPF_OWNER_PRIVATE = 37"
| "kpf_nr KPF_ARCH = 38" | "kpf_nr KPF_UNCACHED = 39"

lemma kpf_nr_inj: "kpf_nr f = kpf_nr g \<longleftrightarrow> f = g"
  by (cases f; cases g) simp_all

lemma kpf_nr_less: "kpf_nr f < 64" "f \<in> kpf_int \<Longrightarrow> kpf_nr f < 31"
  by (cases f; simp) (auto simp: kpf_int_def)

definition page_ops0 :: "nat page_ops" where
  "page_ops0 = \<lparr>kpf_bit = kpf_nr, pg_bit = (\<lambda>g. if g = PG_locked then 0 else if g = PG_slab then 8 else 1),
     CONFIG_MEMORY_FAILURE = True, CONFIG_ARCH_USES_PG_UNCACHED = False, pfn_valid = (\<lambda>n. n \<noteq> 1), pfn_to_page = id, page_to_pfn = id,
     pg_flags = (\<lambda>p. if p = 0 then 1 else 256), page_mapcount = (\<lambda>p. 3), page_count = (\<lambda>p. 4), page_cgroup_ino = (\<lambda>_. 0),
     compound_head = id, PageSlab = (\<lambda>p. p = 2), page_mapped = (\<lambda>_. True), PageAnon = (\<lambda>p. p = 0), PageKsm = (\<lambda>_. False),
     PageHead = (\<lambda>_. False), PageTail = (\<lambda>_. False), PageHuge = (\<lambda>_. False), PageTransCompound = (\<lambda>_. False), PageLRU = (\<lambda>_. False),
     is_huge_zero_page = (\<lambda>_. False), is_zero_pfn = (\<lambda>_. False), PageBuddy = (\<lambda>_. False), is_free_buddy_page = (\<lambda>_. False),
     PageBalloon = (\<lambda>_. False), page_is_idle = (\<lambda>_. False), PageSwapCache = (\<lambda>_. False)\<rparr>"

lemma kpf_ok0: "kpf_ok page_ops0"
  by (simp add: kpf_ok_def page_ops0_def inj_def kpf_nr_inj kpf_nr_less)

text \<open>C25.  
  Reading \<open>kpageflags\<close> from start to end gives an entry for every page of memory, and the bit of a flag is set in it when the
  page has what the flag stands for; a hole has only \<open>KPF_NOPAGE\<close>.
\<close>
theorem kpageflags_meaning:
  assumes "kpf_ok E" "8 * int max_pfn < 2 ^ 63" "0 < n" "max_pfn < fuel" "pfn < max_pfn"
  shows "length (kpm_cat (kpageflags_read E max_pfn (\<lambda>_. True)) (8 * n) fuel 0) = max_pfn \<and>
    (bit (kpm_cat (kpageflags_read E max_pfn (\<lambda>_. True)) (8 * n) fuel 0 ! pfn) (kpf_bit E f) \<longleftrightarrow>
      (if pfn_valid E pfn then kpf_says E (pfn_to_page E pfn) f else f = KPF_NOPAGE))"
proof -
  have r: "kpm_cat (kpageflags_read E max_pfn (\<lambda>_. True)) (8 * n) fuel 0 = map (\<lambda>pfn. stable_page_flags E (ppage E pfn)) [0..<max_pfn]"
    using kpm_cat_all [OF assms(2,3), of 0 fuel] assms(4) by (simp add: kpageflags_read_def)
  have j: "kpf_bit E f = kpf_bit E g \<longleftrightarrow> f = g" for g using assms(1) by (simp add: kpf_ok_def inj_eq)
  show ?thesis unfolding r using assms(1,5) by (simp add: ppage_def no_page_bit stable_page_flags_bit j)
qed

theorem kpageflags_meaning_witness:
  "let a = kpm_cat (kpageflags_read page_ops0 3 (\<lambda>_. True)) 16 4 0 in
     length a = 3 \<and> bit (a ! 0) 12 \<and> bit (a ! 0) 0 \<and> bit (a ! 1) 20 \<and> \<not> bit (a ! 2) 11 \<and> bit (a ! 2) 7"
  using kpageflags_meaning [OF kpf_ok0, of 3 2 4 0 KPF_ANON] kpageflags_meaning [OF kpf_ok0, of 3 2 4 0 KPF_LOCKED]
    kpageflags_meaning [OF kpf_ok0, of 3 2 4 1 KPF_NOPAGE] kpageflags_meaning [OF kpf_ok0, of 3 2 4 2 KPF_MMAP]
    kpageflags_meaning [OF kpf_ok0, of 3 2 4 2 KPF_SLAB]
  by (simp add: page_ops0_def Let_def bit_simps bit_numeral_word_iff)

text \<open>C28.  
  Behind the last page the three arrays have no end: the difference to the end wraps around, and a read at any position behind
  it, as \<open>mem_lseek\<close> allows, delivers as many entries as were asked for and goes on after them.
\<close>
theorem kpage_no_end:
  assumes "rd \<in> {kpagecount_read E, kpageflags_read E, kpagecgroup_read E}" "max_pfn < p" "8 * int (p + n) < 2 ^ 63"
  shows "mem_lseek pos (8 * int p) 0 = (8 * int p, 8 * int p) \<and>
    (case rd max_pfn (\<lambda>_. True) (8 * n) (8 * int p) of (r, pos', out) \<Rightarrow> r = 8 * int n \<and> pos' = 8 * int (p + n) \<and> length out = n)"
  using assms(1) kpm_read_behind [OF assms(2,3)]
  by (auto simp: mem_lseek_def kpagecount_read_def kpageflags_read_def kpagecgroup_read_def)

theorem kpage_no_end_witness: "\<exists>out. kpagecount_read page_ops0 3 (\<lambda>_. True) 16 32 = (16, 48, out) \<and> length out = 2"
  using kpage_no_end [of "kpagecount_read page_ops0" page_ops0 3 4 2 0]
  by (auto split: prod.splits)

end
