(* ===== verification/ProcOom.thy ===== *)
theory ProcOom imports ProcFd "HOL-Library.Signed_Division" begin

text \<open>
  How likely a process is killed when memory runs out: \<open>oom_adj\<close>, \<open>oom_score_adj\<close> and \<open>__set_oom_adj\<close> of \<open>fs/proc/base.c\<close>, the same in both
  copies.  A process is known by its place in a list; \<open>kstrtoint\<close> with \<open>strstrip\<close>, and \<open>simple_read_from_buffer\<close>, are parameters.  Shown:
  what a value written to \<open>oom_adj\<close> reads as; that processes with the same memory keep the same value; and that one of them can be taken
  below its own minimum without the privilege.
\<close>

section \<open>Processes and constants\<close>

definition OOM_DISABLE :: int where "OOM_DISABLE = -17"
definition OOM_ADJUST_MIN :: int where "OOM_ADJUST_MIN = -16"
definition OOM_ADJUST_MAX :: int where "OOM_ADJUST_MAX = 15"
definition OOM_SCORE_ADJ_MIN :: int where "OOM_SCORE_ADJ_MIN = -1000"
definition OOM_SCORE_ADJ_MAX :: int where "OOM_SCORE_ADJ_MAX = 1000"

lemmas oom_consts = OOM_DISABLE_def OOM_ADJUST_MIN_def OOM_ADJUST_MAX_def OOM_SCORE_ADJ_MIN_def OOM_SCORE_ADJ_MAX_def

definition s16 :: "int \<Rightarrow> int" where
  "s16 x = sint (word_of_int x :: 16 word)"

lemma s16_id: "- 32768 \<le> x \<Longrightarrow> x < 32768 \<Longrightarrow> s16 x = x"
  by (simp add: s16_def signed_of_int signed_take_bit_int_eq_self)

text \<open>A process: its \<open>signal\<close>, what \<open>for_each_process\<close> asks of it, and the memory of its threads.\<close>

record oom_proc =
  p_adj :: int
  p_adj_min :: int
  p_kthread :: bool
  p_init :: bool
  p_vfork :: bool
  p_mm :: "nat option"

text \<open>\<open>mm_users\<close>; \<open>capable(CAP_SYS_RESOURCE)\<close> and \<open>has_capability_noaudit\<close> for the caller; the two library functions.\<close>

record oom_env =
  mm_users :: "nat \<Rightarrow> nat"
  cap :: bool
  kstrtoint_strip :: "string \<Rightarrow> int + int"
  read_buffer :: "nat \<Rightarrow> int \<Rightarrow> string \<Rightarrow> int \<times> int \<times> string"

section \<open>Operations\<close>

definition set_adj :: "oom_env \<Rightarrow> int \<Rightarrow> bool \<Rightarrow> oom_proc \<Rightarrow> oom_proc" where
  "set_adj E oom_adj legacy p =
     (let p = p\<lparr>p_adj := s16 oom_adj\<rparr> in if \<not> legacy \<and> cap E then p\<lparr>p_adj_min := s16 oom_adj\<rparr> else p)"

text \<open>\<open>task\<close> is the process of the file and whether the task has \<open>vfork_done\<close>.  The result: what is returned, the processes and the trace.\<close>

definition set_oom_adj ::
  "oom_env \<Rightarrow> (nat \<times> bool) option \<Rightarrow> int \<Rightarrow> bool \<Rightarrow> oom_proc list \<Rightarrow> int \<times> oom_proc list \<times> kcall list" where
  "set_oom_adj E task oom_adj legacy ps =
     (case task of
        None \<Rightarrow> (- ESRCH, ps, [])
      | Some (i, vfork) \<Rightarrow>
          let p = ps ! i; tr = (\<lambda>mm. [Acq TaskRef, Acq (Lock ''oom_adj_mutex'')] @ mm @ [Rel (Lock ''oom_adj_mutex''), Rel TaskRef]) in
          if (if legacy then oom_adj < p_adj p else s16 oom_adj < p_adj_min p) \<and> \<not> cap E then (- EACCES, ps, tr [])
          else
            let mm = (if vfork then None else (case p_mm p of None \<Rightarrow> None | Some m \<Rightarrow> if mm_users E m > 1 then Some m else None));
                ps = ps[i := set_adj E oom_adj legacy p] in
            (case mm of
               None \<Rightarrow> (0, ps, tr [])
             | Some m \<Rightarrow>
                 (0, map (\<lambda>(j, q). if j = i \<or> p_kthread q \<or> p_init q \<or> p_vfork q \<or> p_mm q \<noteq> Some m then q else set_adj E oom_adj legacy q)
                       (enumerate 0 ps),
                  tr [Acq (Mem ''mm''), Acq (RdLock ''rcu''), Rel (RdLock ''rcu''), Rel (Mem ''mm'')])))"

definition oom_adj_of :: "int \<Rightarrow> int" where
  "oom_adj_of adj = (if adj = OOM_SCORE_ADJ_MAX then OOM_ADJUST_MAX else (adj * - OOM_DISABLE) sdiv OOM_SCORE_ADJ_MAX)"

definition oom_adj_read :: "oom_env \<Rightarrow> nat option \<Rightarrow> oom_proc list \<Rightarrow> nat \<Rightarrow> int \<Rightarrow> int \<times> int \<times> string" where
  "oom_adj_read E task ps count pos =
     (case task of None \<Rightarrow> (- ESRCH, pos, []) | Some i \<Rightarrow> read_buffer E count pos (show_int (oom_adj_of (p_adj (ps ! i))) @ ''\<newline>''))"

definition oom_score_adj_read :: "oom_env \<Rightarrow> nat option \<Rightarrow> oom_proc list \<Rightarrow> nat \<Rightarrow> int \<Rightarrow> int \<times> int \<times> string" where
  "oom_score_adj_read E task ps count pos =
     (case task of None \<Rightarrow> (- ESRCH, pos, []) | Some i \<Rightarrow> read_buffer E count pos (show_int (p_adj (ps ! i)) @ ''\<newline>''))"

text \<open>The number that the user has written.\<close>

definition oom_number :: "kenv \<Rightarrow> oom_env \<Rightarrow> string \<Rightarrow> nat \<Rightarrow> int + int" where
  "oom_number K E ubuf count =
     (if k_copy_from_user K 0 count \<noteq> 0 then Inl (- EFAULT)
      else kstrtoint_strip E (cstr (blit (zeros PROC_NUMBUF) 0 (copied_in K ubuf 0 count))))"

definition oom_adj_write ::
  "kenv \<Rightarrow> oom_env \<Rightarrow> (nat \<times> bool) option \<Rightarrow> oom_proc list \<Rightarrow> string \<Rightarrow> nat \<Rightarrow> int \<times> oom_proc list \<times> kcall list" where
  "oom_adj_write K E task ps ubuf count =
     (let count = (if count > PROC_NUMBUF - 1 then PROC_NUMBUF - 1 else count) in
      case oom_number K E ubuf count of
        Inl err \<Rightarrow> (err, ps, [])
      | Inr oom_adj \<Rightarrow>
          if (oom_adj < OOM_ADJUST_MIN \<or> oom_adj > OOM_ADJUST_MAX) \<and> oom_adj \<noteq> OOM_DISABLE then (- EINVAL, ps, [])
          else
            let oom_adj = (if oom_adj = OOM_ADJUST_MAX then OOM_SCORE_ADJ_MAX else (oom_adj * OOM_SCORE_ADJ_MAX) sdiv - OOM_DISABLE) in
            (case set_oom_adj E task oom_adj True ps of (err, ps, tr) \<Rightarrow> (if err < 0 then err else int count, ps, tr)))"

definition oom_score_adj_write ::
  "kenv \<Rightarrow> oom_env \<Rightarrow> (nat \<times> bool) option \<Rightarrow> oom_proc list \<Rightarrow> string \<Rightarrow> nat \<Rightarrow> int \<times> oom_proc list \<times> kcall list" where
  "oom_score_adj_write K E task ps ubuf count =
     (let count = (if count > PROC_NUMBUF - 1 then PROC_NUMBUF - 1 else count) in
      case oom_number K E ubuf count of
        Inl err \<Rightarrow> (err, ps, [])
      | Inr oom_score_adj \<Rightarrow>
          if oom_score_adj < OOM_SCORE_ADJ_MIN \<or> oom_score_adj > OOM_SCORE_ADJ_MAX then (- EINVAL, ps, [])
          else (case set_oom_adj E task oom_score_adj False ps of (err, ps, tr) \<Rightarrow> (if err < 0 then err else int count, ps, tr)))"

section \<open>Processes that share memory\<close>

text \<open>Who is changed together with process \<open>i\<close>.\<close>

definition oom_shares :: "oom_proc list \<Rightarrow> nat \<Rightarrow> nat \<Rightarrow> bool" where
  "oom_shares ps i j \<longleftrightarrow> \<not> p_vfork (ps ! i) \<and> p_mm (ps ! i) \<noteq> None \<and> p_mm (ps ! j) = p_mm (ps ! i)
     \<and> \<not> p_kthread (ps ! j) \<and> \<not> p_init (ps ! j) \<and> \<not> p_vfork (ps ! j)"

text \<open>\<open>mm_users\<close> counts every process that uses the memory.\<close>

definition users_ok :: "oom_env \<Rightarrow> oom_proc list \<Rightarrow> bool" where
  "users_ok E ps \<longleftrightarrow> (\<forall>i < length ps. \<forall>j < length ps. \<forall>m. i \<noteq> j \<and> p_mm (ps ! i) = Some m \<and> p_mm (ps ! j) = Some m \<longrightarrow> mm_users E m > 1)"

text \<open>The promise of \<open>__set_oom_adj\<close>: processes with the same memory have the same value.\<close>

definition oom_same :: "oom_proc list \<Rightarrow> bool" where
  "oom_same ps \<longleftrightarrow> (\<forall>i < length ps. \<forall>j < length ps. oom_shares ps i j \<and> oom_shares ps j i \<longrightarrow> p_adj (ps ! i) = p_adj (ps ! j))"

lemma set_adj_simps [simp]:
  "p_adj (set_adj E a l p) = s16 a" "p_kthread (set_adj E a l p) = p_kthread p" "p_init (set_adj E a l p) = p_init p"
  "p_vfork (set_adj E a l p) = p_vfork p" "p_mm (set_adj E a l p) = p_mm p"
  "p_adj_min (set_adj E a l p) = (if \<not> l \<and> cap E then s16 a else p_adj_min p)"
  by (simp_all add: set_adj_def Let_def)

text \<open>Every process after a call that succeeds.\<close>

lemma set_oom_adj_result:
  assumes "set_oom_adj E (Some (i, p_vfork (ps ! i))) a l ps = (0, ps', tr)" "i < length ps" "users_ok E ps"
  shows "length ps' = length ps" "\<And>j. j < length ps \<Longrightarrow> ps' ! j = (if j = i \<or> oom_shares ps i j then set_adj E a l (ps ! j) else ps ! j)"
proof -
  have g: "\<not> ((if l then a < p_adj (ps ! i) else s16 a < p_adj_min (ps ! i)) \<and> \<not> cap E)"
  proof
    assume g: "(if l then a < p_adj (ps ! i) else s16 a < p_adj_min (ps ! i)) \<and> \<not> cap E"
    show False using assms(1) unfolding set_oom_adj_def option.case prod.case Let_def if_P [OF g] by (simp add: EACCES_def)
  qed
  note r = assms(1) [unfolded set_oom_adj_def option.case prod.case Let_def if_not_P [OF g]]
  have both: "length ps' = length ps \<and> (\<forall>j < length ps. ps' ! j = (if j = i \<or> oom_shares ps i j then set_adj E a l (ps ! j) else ps ! j))"
  proof (cases "\<not> p_vfork (ps ! i) \<and> (\<exists>m. p_mm (ps ! i) = Some m \<and> mm_users E m > 1)")
    case True
    then obtain m where m: "\<not> p_vfork (ps ! i)" "p_mm (ps ! i) = Some m" "mm_users E m > 1" by blast
    have n: "ps' = map (\<lambda>(j, q). if j = i \<or> p_kthread q \<or> p_init q \<or> p_vfork q \<or> p_mm q \<noteq> Some m then q else set_adj E a l q)
        (enumerate 0 (ps[i := set_adj E a l (ps ! i)]))" using r m(3) [folded One_nat_def] by (simp add: m(1,2))
    have "ps' ! j = (if j = i \<or> oom_shares ps i j then set_adj E a l (ps ! j) else ps ! j)" if "j < length ps" for j
      using that assms(2) m by (simp add: n nth_enumerate_eq nth_list_update oom_shares_def)
    then show ?thesis by (simp add: n)
  next
    case False
    then have n: "ps' = ps[i := set_adj E a l (ps ! i)]" using r by (auto split: option.splits if_splits)
    have "\<not> oom_shares ps i j" if j: "j < length ps" "j \<noteq> i" for j
    proof
      assume s: "oom_shares ps i j"
      then obtain m where m: "p_mm (ps ! i) = Some m" "p_mm (ps ! j) = Some m" "\<not> p_vfork (ps ! i)" by (auto simp: oom_shares_def)
      then have "mm_users E m > 1" using assms(2,3) j unfolding users_ok_def by blast
      then show False using False m by simp
    qed
    then show ?thesis using assms(2) by (auto simp: n nth_list_update)
  qed
  show "length ps' = length ps" using both by simp
  show "\<And>j. j < length ps \<Longrightarrow> ps' ! j = (if j = i \<or> oom_shares ps i j then set_adj E a l (ps ! j) else ps ! j)" using both by blast
qed

lemma oom_shares_iff: "oom_shares ps i j \<and> oom_shares ps j i \<longleftrightarrow> (\<exists>m. p_mm (ps ! i) = Some m \<and> p_mm (ps ! j) = Some m)
    \<and> \<not> p_vfork (ps ! i) \<and> \<not> p_vfork (ps ! j) \<and> \<not> p_kthread (ps ! i) \<and> \<not> p_kthread (ps ! j) \<and> \<not> p_init (ps ! i) \<and> \<not> p_init (ps ! j)"
  unfolding oom_shares_def by (cases "p_mm (ps ! i)"; cases "p_mm (ps ! j) = p_mm (ps ! i)") (simp_all add: conj_ac)

lemma set_oom_adj_trace: "balanced (snd (snd (set_oom_adj E task a l ps)))"
proof -
  let ?A = "[Acq TaskRef, Acq (Lock ''oom_adj_mutex'')]" and ?R = "[Rel (Lock ''oom_adj_mutex''), Rel TaskRef]"
  have b: "balanced []" "balanced (?A @ [] @ ?R)"
    "balanced (?A @ [Acq (Mem ''mm''), Acq (RdLock ''rcu''), Rel (RdLock ''rcu''), Rel (Mem ''mm'')] @ ?R)" by (simp_all add: balanced_def)
  show ?thesis
  proof (cases task)
    case (Some t)
    obtain i v where t: "t = (i, v)" by (cases t)
    show ?thesis unfolding set_oom_adj_def Let_def Some t option.case prod.case if_distrib [of snd] option.case_distrib [of snd] snd_conv
        if_distrib [of balanced] option.case_distrib [of balanced] b
      using b by (simp split: option.split)
  qed (simp add: set_oom_adj_def b)
qed

lemma oom_same_preserved:
  assumes "set_oom_adj E (Some (i, p_vfork (ps ! i))) a l ps = (0, ps', tr)" "i < length ps" "users_ok E ps" "oom_same ps"
  shows "oom_same ps'"
proof -
  note r = set_oom_adj_result [OF assms(1-3)]
  have k: "p_mm (ps' ! j) = p_mm (ps ! j)" "p_vfork (ps' ! j) = p_vfork (ps ! j)" "p_kthread (ps' ! j) = p_kthread (ps ! j)"
    "p_init (ps' ! j) = p_init (ps ! j)" if "j < length ps" for j using r(2) [OF that] by simp_all
  show ?thesis unfolding oom_same_def oom_shares_iff
  proof (intro allI impI)
    fix x y assume x: "x < length ps'" and y: "y < length ps'" and s: "(\<exists>m. p_mm (ps' ! x) = Some m \<and> p_mm (ps' ! y) = Some m)
      \<and> \<not> p_vfork (ps' ! x) \<and> \<not> p_vfork (ps' ! y) \<and> \<not> p_kthread (ps' ! x) \<and> \<not> p_kthread (ps' ! y) \<and> \<not> p_init (ps' ! x) \<and> \<not> p_init (ps' ! y)"
    have l: "x < length ps" "y < length ps" using x y r(1) by simp_all
    have s: "oom_shares ps x y \<and> oom_shares ps y x" using s unfolding oom_shares_iff k [OF l(1)] k [OF l(2)] .
    have e: "p_adj (ps ! x) = p_adj (ps ! y)" using assms(4) l s unfolding oom_same_def by blast
    have "(x = i \<or> oom_shares ps i x) = (y = i \<or> oom_shares ps i y)" using s unfolding oom_shares_def by metis
    then show "p_adj (ps' ! x) = p_adj (ps' ! y)" using e by (simp add: r(2) [OF l(1)] r(2) [OF l(2)])
  qed
qed

section \<open>Writing and reading back\<close>

lemma set_oom_adj_self:
  assumes "cap E" "i < length ps"
  obtains ps' tr where "set_oom_adj E (Some (i, v)) a l ps = (0, ps', tr)" "p_adj (ps' ! i) = s16 a" "balanced tr"
proof -
  obtain r ps' tr where s: "set_oom_adj E (Some (i, v)) a l ps = (r, ps', tr)" by (cases "set_oom_adj E (Some (i, v)) a l ps")
  have "((if l then a < p_adj (ps ! i) else s16 a < p_adj_min (ps ! i)) \<and> \<not> cap E) = False" using assms(1) by simp
  note d = s [unfolded set_oom_adj_def option.case prod.case Let_def this if_False]
  define mm where "mm = (if v then None else case p_mm (ps ! i) of None \<Rightarrow> None | Some m \<Rightarrow> if mm_users E m > 1 then Some m else None)"
  have "r = 0 \<and> p_adj (ps' ! i) = s16 a"
    using d [folded mm_def] assms(2) by (cases mm) (auto simp: nth_enumerate_eq)
  then show thesis using that s set_oom_adj_trace [of E "Some (i, v)" a l ps] by simp
qed

lemma oom_number_text:
  assumes "k_copy_from_user K 0 (length s) = 0" "length s \<le> 12" "NUL \<notin> set s"
  shows "oom_number K E s (length s) = kstrtoint_strip E s"
proof -
  have "blit (zeros PROC_NUMBUF) 0 (copied_in K s 0 (length s)) = s @ zeros (13 - length s)"
    by (simp add: copied_in_all [OF assms(1)] blit_def PROC_NUMBUF_def zeros_def)
  then show ?thesis using assms by (simp add: oom_number_def cstr_zeros)
qed

lemma oom_scale:
  assumes "n \<in> {-17..15}"
  shows "oom_adj_of (s16 (if n = 15 then 1000 else (n * 1000) sdiv 17)) = (if n \<in> {-17, 0, 15} then n else n - sgn n)"
proof -
  have "\<forall>n \<in> set [-17..15]. oom_adj_of (s16 (if n = 15 then 1000 else (n * 1000) sdiv 17)) = (if n \<in> {-17, 0, 15} then n else n - sgn n)"
    by (simp add: upto_rec_numeral upto.simps oom_adj_of_def oom_consts s16_id signed_divide_int_def)
  then show ?thesis using assms by (simp only: set_upto)
qed

text \<open>C26.  
  A number written to \<open>oom_adj\<close> reads back as itself only when it is \<open>-17\<close>, \<open>0\<close> or \<open>15\<close>; every other number is read one nearer to 0.
  A number written to \<open>oom_score_adj\<close> reads back as itself.
\<close>
theorem oom_roundtrip:
  assumes "k_copy_from_user K 0 (length s) = 0" "length s \<le> 12" "NUL \<notin> set s" "kstrtoint_strip E s = Inr n" "cap E" "i < length ps"
  shows "(n \<in> {-17..15} \<longrightarrow> (case oom_adj_write K E (Some (i, v)) ps s (length s) of (r, ps', tr) \<Rightarrow> r = int (length s) \<and> balanced tr
      \<and> oom_adj_read E (Some i) ps' count pos = read_buffer E count pos (show_int (if n \<in> {-17, 0, 15} then n else n - sgn n) @ ''\<newline>'')))
    \<and> (n \<in> {-1000..1000} \<longrightarrow> (case oom_score_adj_write K E (Some (i, v)) ps s (length s) of (r, ps', tr) \<Rightarrow> r = int (length s) \<and> balanced tr
      \<and> oom_score_adj_read E (Some i) ps' count pos = read_buffer E count pos (show_int n @ ''\<newline>'')))"
proof (intro conjI impI)
  have c: "(if length s > PROC_NUMBUF - 1 then PROC_NUMBUF - 1 else length s) = length s" using assms(2) by (simp add: PROC_NUMBUF_def)
  have num: "oom_number K E s (length s) = Inr n" using oom_number_text [OF assms(1-3)] assms(4) by simp
  show "case oom_adj_write K E (Some (i, v)) ps s (length s) of (r, ps', tr) \<Rightarrow> r = int (length s) \<and> balanced tr
      \<and> oom_adj_read E (Some i) ps' count pos = read_buffer E count pos (show_int (if n \<in> {-17, 0, 15} then n else n - sgn n) @ ''\<newline>'')"
    if n: "n \<in> {-17..15}"
  proof -
    let ?a = "if n = 15 then 1000 else (n * 1000) sdiv 17"
    obtain ps' tr where w: "set_oom_adj E (Some (i, v)) ?a True ps = (0, ps', tr)" "p_adj (ps' ! i) = s16 ?a" "balanced tr"
      by (rule set_oom_adj_self [OF assms(5,6)])
    have r: "\<not> ((n < OOM_ADJUST_MIN \<or> n > OOM_ADJUST_MAX) \<and> n \<noteq> OOM_DISABLE)" using n by (auto simp: oom_consts)
    have a: "(if n = OOM_ADJUST_MAX then OOM_SCORE_ADJ_MAX else (n * OOM_SCORE_ADJ_MAX) sdiv - OOM_DISABLE) = ?a" by (simp add: oom_consts)
    show ?thesis unfolding oom_adj_write_def Let_def c num sum.case if_not_P [OF r] a w(1) prod.case oom_adj_read_def option.case w(2) oom_scale [OF n]
      using w(3) by simp
  qed
  show "case oom_score_adj_write K E (Some (i, v)) ps s (length s) of (r, ps', tr) \<Rightarrow> r = int (length s) \<and> balanced tr
      \<and> oom_score_adj_read E (Some i) ps' count pos = read_buffer E count pos (show_int n @ ''\<newline>'')" if n: "n \<in> {-1000..1000}"
  proof -
    obtain ps' tr where w: "set_oom_adj E (Some (i, v)) n False ps = (0, ps', tr)" "p_adj (ps' ! i) = s16 n" "balanced tr"
      by (rule set_oom_adj_self [OF assms(5,6)])
    have r: "\<not> (n < OOM_SCORE_ADJ_MIN \<or> n > OOM_SCORE_ADJ_MAX)" "s16 n = n" using n by (auto simp: oom_consts intro: s16_id)
    show ?thesis unfolding oom_score_adj_write_def Let_def c num sum.case if_not_P [OF r(1)] w(1) prod.case oom_score_adj_read_def option.case w(2) r(2)
      using w(3) by simp
  qed
qed

text \<open>Three processes: two share their memory, of which the second may not go below 500.\<close>

definition oom_procs0 :: "oom_proc list" where
  "oom_procs0 = [\<lparr>p_adj = 600, p_adj_min = 0, p_kthread = False, p_init = False, p_vfork = False, p_mm = Some 1\<rparr>,
     \<lparr>p_adj = 600, p_adj_min = 500, p_kthread = False, p_init = False, p_vfork = False, p_mm = Some 1\<rparr>,
     \<lparr>p_adj = 7, p_adj_min = 0, p_kthread = False, p_init = False, p_vfork = False, p_mm = Some 2\<rparr>]"

definition oom_env0 :: "bool \<Rightarrow> oom_env" where
  "oom_env0 c = \<lparr>mm_users = (\<lambda>m. if m = 1 then 2 else 1), cap = c, kstrtoint_strip = (\<lambda>s. Inr (int (read_nat (filter isdigit s)))),
     read_buffer = (\<lambda>n pos s. let t = take n (drop (nat pos) s) in (int (length t), pos + int (length t), t))\<rparr>"

theorem oom_roundtrip_witness:
  "case oom_adj_write kenv0 (oom_env0 True) (Some (0, False)) oom_procs0 ''5'' 1 of (r, ps', tr) \<Rightarrow>
     r = 1 \<and> oom_adj_read (oom_env0 True) (Some 0) ps' 10 0 = (2, 2, ''4\<newline>'')"
proof -
  have "show_int 4 = ''4''" by code_simp
  moreover have "kstrtoint_strip (oom_env0 True) ''5'' = Inr 5" by (simp add: oom_env0_def isdigit_def read_nat_def digit_val_def)
  ultimately show ?thesis using oom_roundtrip [where K = kenv0 and s = "''5''" and E = "oom_env0 True" and n = 5 and i = 0 and ps = oom_procs0 and v = False and count = 10 and pos = 0]
    by (auto simp: oom_procs0_def oom_env0_def NUL_def Let_def split: prod.splits)
qed

section \<open>Who is changed\<close>

text \<open>C27.  
  A successful write changes the process of the file and, unless that is a child of \<open>vfork\<close>, all processes with its memory that are neither
  kernel threads nor \<open>init\<close> nor children of \<open>vfork\<close>, and nobody else.  If such processes with the same memory had the same value before,
  they have after; those that are left out may differ.
\<close>
theorem oom_shared:
  assumes "set_oom_adj E (Some (i, p_vfork (ps ! i))) a l ps = (0, ps', tr)" "i < length ps" "users_ok E ps"
  shows "length ps' = length ps \<and> (oom_same ps \<longrightarrow> oom_same ps')
    \<and> (\<forall>j < length ps. if j = i \<or> oom_shares ps i j then p_adj (ps' ! j) = s16 a else ps' ! j = ps ! j)"
  using set_oom_adj_result [OF assms] oom_same_preserved [OF assms] by simp

lemma users_ok0: "users_ok (oom_env0 c) oom_procs0"
  by (auto simp: users_ok_def oom_env0_def oom_procs0_def less_Suc_eq numeral_3_eq_3)

theorem oom_shared_witness:
  "case set_oom_adj (oom_env0 False) (Some (0, False)) 100 False oom_procs0 of (r, ps', tr) \<Rightarrow>
     r = 0 \<and> p_adj (ps' ! 0) = 100 \<and> p_adj (ps' ! 1) = 100 \<and> p_adj (ps' ! 2) = 7"
proof -
  obtain r ps' tr where s: "set_oom_adj (oom_env0 False) (Some (0, False)) 100 False oom_procs0 = (r, ps', tr)"
    by (cases "set_oom_adj (oom_env0 False) (Some (0, False)) 100 False oom_procs0")
  have r: "r = 0" using s by (simp add: set_oom_adj_def oom_procs0_def oom_env0_def s16_id)
  have "length oom_procs0 = 3" "p_vfork (oom_procs0 ! 0) = False" by (simp_all add: oom_procs0_def)
  with oom_shared [of "oom_env0 False" 0 oom_procs0 100 False ps' tr] s r users_ok0 [of False]
  have a: "\<forall>j < 3. if j = 0 \<or> oom_shares oom_procs0 0 j then p_adj (ps' ! j) = s16 100 else ps' ! j = oom_procs0 ! j" by simp
  have "p_adj (ps' ! 0) = 100" "p_adj (ps' ! 1) = 100" "p_adj (ps' ! 2) = 7"
    using a [rule_format, of 0] a [rule_format, of 1] a [rule_format, of 2] by (simp_all add: oom_shares_def oom_procs0_def s16_id)
  then show ?thesis using s r by simp
qed

text \<open>
  Without the privilege a process is never taken below its own minimum by a write to its own file, but another one with the
  same memory is: only the minimum of the process of the file is compared.
\<close>
theorem oom_minimum:
  "\<not> cap E \<Longrightarrow> set_oom_adj E (Some (i, p_vfork (ps ! i))) a False ps = (0, ps', tr) \<Longrightarrow> i < length ps \<Longrightarrow> users_ok E ps \<Longrightarrow>
     p_adj_min (ps' ! i) \<le> p_adj (ps' ! i) \<and> map p_adj_min ps' = map p_adj_min ps
     \<and> (\<forall>j < length ps. oom_shares ps i j \<and> s16 a < p_adj_min (ps ! j) \<longrightarrow> p_adj (ps' ! j) < p_adj_min (ps' ! j))"
proof -
  assume c: "\<not> cap E" and s: "set_oom_adj E (Some (i, p_vfork (ps ! i))) a False ps = (0, ps', tr)" and i: "i < length ps" and u: "users_ok E ps"
  note r = set_oom_adj_result [OF s i u]
  have g: "\<not> s16 a < p_adj_min (ps ! i)"
  proof
    assume "s16 a < p_adj_min (ps ! i)"
    then show False using s c by (simp add: set_oom_adj_def EACCES_def)
  qed
  have m: "p_adj_min (ps' ! j) = p_adj_min (ps ! j)" if "j < length ps" for j using r(2) [OF that] c by simp
  have "map p_adj_min ps' = map p_adj_min ps" by (rule nth_equalityI) (simp_all add: r(1) m)
  moreover have "p_adj_min (ps' ! i) \<le> p_adj (ps' ! i)" using g i by (simp add: m r(2))
  moreover have "p_adj (ps' ! j) < p_adj_min (ps' ! j)" if "j < length ps" "oom_shares ps i j \<and> s16 a < p_adj_min (ps ! j)" for j
    using that c by (simp add: m r(2))
  ultimately show ?thesis by blast
qed

theorem oom_minimum_witness:
  "case set_oom_adj (oom_env0 False) (Some (0, False)) 100 False oom_procs0 of (r, ps', tr) \<Rightarrow>
     r = 0 \<and> p_adj_min (oom_procs0 ! 1) = 500 \<and> p_adj (ps' ! 1) < p_adj_min (ps' ! 1)"
proof -
  obtain r ps' tr where s: "set_oom_adj (oom_env0 False) (Some (0, False)) 100 False oom_procs0 = (r, ps', tr)"
    by (cases "set_oom_adj (oom_env0 False) (Some (0, False)) 100 False oom_procs0")
  have r: "r = 0" using s by (simp add: set_oom_adj_def oom_procs0_def oom_env0_def s16_id)
  have v: "p_vfork (oom_procs0 ! 0) = False" "\<not> cap (oom_env0 False)" "0 < length oom_procs0" by (simp_all add: oom_procs0_def oom_env0_def)
  from oom_minimum [of "oom_env0 False" 0 oom_procs0 100 ps' tr] s r v users_ok0 [of False]
  have "\<forall>j < length oom_procs0. oom_shares oom_procs0 0 j \<and> s16 100 < p_adj_min (oom_procs0 ! j) \<longrightarrow> p_adj (ps' ! j) < p_adj_min (ps' ! j)" by simp
  from this [rule_format, of 1] have "p_adj (ps' ! 1) < p_adj_min (ps' ! 1)" by (simp add: oom_shares_def oom_procs0_def s16_id)
  then show ?thesis using s r by (simp add: oom_procs0_def)
qed

end
