(* ===== verification/ProcLinks.thy ===== *)
theory ProcLinks imports ProcTasks ProcFs begin

text \<open>
  Symbolic links in \<open>/proc\<close>: \<open>self.c\<close> and \<open>thread_self.c\<close>, and \<open>proc_exe_link\<close>, \<open>proc_pid_get_link\<close>, \<open>do_proc_readlink\<close> and
  \<open>proc_pid_readlink\<close> of \<open>base.c\<close>, the same in both copies.  A link of a process to a file is where \<open>proc_get_link\<close> leads, a path that is held while it is used;
  \<open>d_path\<close> gives its name.  Shown: \<open>self\<close> and \<open>thread-self\<close> fit their buffers and lead to the process and the thread that read them;
  a link is read as far as the buffer takes it, and what is acquired on the way is released.
\<close>

section \<open>\<open>self\<close> and \<open>thread-self\<close>\<close>


text \<open>\<open>sprintf\<close> into memory of \<open>sz\<close> bytes, the zero at the end included.\<close>

definition sprintf_name :: "nat \<Rightarrow> string \<Rightarrow> fault + int + string" where
  "sprintf_name sz s = (if length s < sz then Inr (Inr s) else Inl OutOfBounds)"

text \<open>\<open>dentry\<close>: whether there is one, that is, whether the caller may sleep.\<close>

definition proc_self_get_link :: "kenv \<Rightarrow> bool \<Rightarrow> nat \<Rightarrow> fault + int + string" where
  "proc_self_get_link K dentry tgid =
     (if tgid = 0 then Inr (Inl (- ENOENT))
      else if \<not> k_kmalloc K ''self'' 12 then Inr (Inl (if dentry then - ENOMEM else - ECHILD))
      else sprintf_name 12 (show_nat tgid))"

definition proc_thread_self_get_link :: "kenv \<Rightarrow> bool \<Rightarrow> nat \<Rightarrow> nat \<Rightarrow> fault + int + string" where
  "proc_thread_self_get_link K dentry tgid pid =
     (if pid = 0 then Inr (Inl (- ENOENT))
      else if \<not> k_kmalloc K ''thread-self'' (int (PROC_NUMBUF + 6 + PROC_NUMBUF)) then Inr (Inl (if dentry then - ENOMEM else - ECHILD))
      else sprintf_name (PROC_NUMBUF + 6 + PROC_NUMBUF) (show_nat tgid @ ''/task/'' @ show_nat pid))"

text \<open>Making them when \<open>/proc\<close> is mounted, one function in each file; \<open>dentry\<close> and \<open>inode\<close>: whether there is memory for them.  The
  result: what is returned, whether the superblock has the link, and the trace.\<close>

definition proc_setup_self :: "bool \<Rightarrow> bool \<Rightarrow> int \<times> bool \<times> kcall list" where
  "proc_setup_self dentry inode =
     (let (self, tr) =
        (if dentry then (if inode then (True, [Acq DentryRef]) else (False, [Acq DentryRef, Rel DentryRef])) else (False, [])) in
      (if self then 0 else - ENOMEM, self, [Acq (Lock ''inode'')] @ tr @ [Rel (Lock ''inode'')]))"

definition proc_setup_thread_self :: "bool \<Rightarrow> bool \<Rightarrow> int \<times> bool \<times> kcall list" where
  "proc_setup_thread_self dentry inode =
     (let (thread_self, tr) =
        (if dentry then (if inode then (True, [Acq DentryRef]) else (False, [Acq DentryRef, Rel DentryRef])) else (False, [])) in
      (if thread_self then 0 else - ENOMEM, thread_self, [Acq (Lock ''inode'')] @ tr @ [Rel (Lock ''inode'')]))"

text \<open>\<open>proc_kill_sb\<close> of \<open>root.c\<close> gives them back.\<close>

definition proc_kill_sb :: "bool \<Rightarrow> bool \<Rightarrow> kcall list" where
  "proc_kill_sb self thread_self = (if self then [Rel DentryRef] else []) @ (if thread_self then [Rel DentryRef] else [])"

lemma setup_kill:
  "proc_setup_self d i = (r, self, tr) \<Longrightarrow> proc_setup_thread_self d' i' = (r', thread_self, tr') \<Longrightarrow>
     balanced (tr @ tr' @ proc_kill_sb self thread_self) \<and> (r = 0 \<longleftrightarrow> self) \<and> (r' = 0 \<longleftrightarrow> thread_self)"
  by (cases d; cases i; cases d'; cases i')
    (auto simp: proc_setup_self_def proc_setup_thread_self_def proc_kill_sb_def balanced_def ENOMEM_def)

section \<open>Links of a process\<close>

text \<open>Where \<open>/proc/<pid>/exe\<close> leads.  \<open>task\<close>: the file of the program of the process, if it has one, and its path; what is acquired.\<close>

definition path_refs :: "kres list" where
  "path_refs = [DentryRef, MntRef]"

definition proc_exe_link :: "nat option option \<Rightarrow> (int + nat) \<times> kcall list" where
  "proc_exe_link task =
     (case task of
        None \<Rightarrow> (Inl (- ENOENT), [])
      | Some exe_file \<Rightarrow>
          (case exe_file of
             None \<Rightarrow> (Inl (- ENOENT), [Acq TaskRef, Rel TaskRef])
           | Some path \<Rightarrow> (Inr path, [Acq TaskRef, Acq FileRef, Rel TaskRef] @ map Acq path_refs @ [Rel FileRef])))"

text \<open>Following a link: the result is an error or nothing, and the path that the walk goes on with, which takes it over.\<close>

definition proc_pid_get_link :: "bool \<Rightarrow> bool \<Rightarrow> (int + nat) \<times> kcall list \<Rightarrow> (int + nat) \<times> kcall list" where
  "proc_pid_get_link dentry allowed link =
     (if \<not> dentry then (Inl (- ECHILD), [])
      else if \<not> allowed then (Inl (- EACCES), [])
      else link)"

definition do_proc_readlink :: "kenv \<Rightarrow> nat \<Rightarrow> nat \<Rightarrow> int \<times> string \<times> kcall list" where
  "do_proc_readlink K path buflen =
     (if \<not> k_kmalloc K ''readlink'' 4096 then (- ENOMEM, [], [])
      else let (len, out) =
        (case k_d_path K path PAGE_SIZE of
           Inl e \<Rightarrow> (e, [])
         | Inr pathname \<Rightarrow>
             let len = (if length pathname > buflen then buflen else length pathname) in
             (if k_copy_to_user K 0 len \<noteq> 0 then - EFAULT else int len, copied_out K 0 (take len pathname))) in
        (len, out, [Acq (Mem ''page''), Rel (Mem ''page'')]))"

definition proc_pid_readlink :: "kenv \<Rightarrow> bool \<Rightarrow> (int + nat) \<times> kcall list \<Rightarrow> nat \<Rightarrow> int \<times> string \<times> kcall list" where
  "proc_pid_readlink K allowed link buflen =
     (if \<not> allowed then (- EACCES, [], [])
      else (case link of
          (Inl error, tr) \<Rightarrow> (error, [], tr)
        | (Inr path, tr) \<Rightarrow> (case do_proc_readlink K path buflen of (r, out, tr') \<Rightarrow> (r, out, tr @ tr' @ map Rel path_refs))))"

section \<open>Properties\<close>

lemma pid_length: "n < 2147483648 \<Longrightarrow> length (show_nat n) \<le> 10"
  by (rule show_nat_length) simp_all

text \<open>
  A process that reads \<open>/proc/self\<close> finds itself: the link is a name that \<open>proc_pid_lookup\<close> finds as long as it lives.  For
  \<open>/proc/thread-self\<close> the first part leads to the process and the last, below \<open>task\<close>, to the thread.  No number overflows the buffers.
\<close>
theorem self_resolves:
  assumes "k_kmalloc K ''self'' 12" "k_kmalloc K ''thread-self'' 32" "0 < tgid" "tgid < 2147483648" "0 < pid" "pid < 2147483648"
    and "map_of ns tgid = Some (Some t)" "pid \<in> set ts" "task pid" "instantiate pid = 0"
  shows "\<exists>process thread. proc_self_get_link K dentry tgid = Inr (Inr process)
    \<and> proc_thread_self_get_link K dentry tgid pid = Inr (Inr (process @ ''/task/'' @ thread))
    \<and> fst (proc_pid_lookup True True ns process) = 0 \<and> fst (proc_task_lookup (Some ts) task instantiate thread) = 0"
proof (intro exI conjI)
  show "proc_self_get_link K dentry tgid = Inr (Inr (show_nat tgid))"
    using assms(1,3) pid_length [OF assms(4)] by (simp add: proc_self_get_link_def sprintf_name_def)
  show "proc_thread_self_get_link K dentry tgid pid = Inr (Inr (show_nat tgid @ ''/task/'' @ show_nat pid))"
    using assms(2,5) pid_length [OF assms(4)] pid_length [OF assms(6)] by (simp add: proc_thread_self_get_link_def sprintf_name_def PROC_NUMBUF_def)
  have n: "name_to_int (show_nat tgid) = tgid" "name_to_int (show_nat pid) = pid" using assms(4,6) by (simp_all add: name_to_int_show)
  show "fst (proc_pid_lookup True True ns (show_nat tgid)) = 0"
    using assms(4,7) by (simp add: proc_pid_lookup_def proc_pid_instantiate_def Let_def n)
  show "fst (proc_task_lookup (Some ts) task instantiate (show_nat pid)) = 0"
    using assms(6,8-10) by (simp add: proc_task_lookup_def Let_def n)
qed

theorem self_resolves_witness:
  "\<exists>process thread. proc_self_get_link kenv0 True 7 = Inr (Inr process)
    \<and> proc_thread_self_get_link kenv0 True 7 9 = Inr (Inr (process @ ''/task/'' @ thread))
    \<and> fst (proc_pid_lookup True True [(7, Some (PidTask True True))] process) = 0
    \<and> fst (proc_task_lookup (Some [7, 9]) (\<lambda>_. True) (\<lambda>_. 0) thread) = 0"
  by (rule self_resolves [of kenv0 7 9 _ "PidTask True True"]) simp_all

lemma do_proc_readlink_bounds:
  "length (fst (snd (do_proc_readlink K path buflen))) \<le> buflen"
  "snd (snd (do_proc_readlink K path buflen)) = [] \<or> snd (snd (do_proc_readlink K path buflen)) = [Acq (Mem ''page''), Rel (Mem ''page'')]"
proof -
  have "length (copied_out K 0 (take (if length p > buflen then buflen else length p) p)) \<le> buflen" for p
    by (rule copied_out_le) auto
  then show "length (fst (snd (do_proc_readlink K path buflen))) \<le> buflen"
    by (auto simp: do_proc_readlink_def Let_def split: sum.split)
qed (simp add: do_proc_readlink_def split: prod.split)

text \<open>
  Reading \<open>/proc/<pid>/exe\<close> delivers as much of the name of the program as the buffer takes, without a zero; on every path,
  errors included, all references and the page are given back.
\<close>
theorem exe_readlink:
  "(case proc_pid_readlink K allowed (proc_exe_link task) buflen of (r, out, tr) \<Rightarrow> balanced tr \<and> length out \<le> buflen)
   \<and> (k_kmalloc K ''readlink'' 4096 \<and> k_d_path K path PAGE_SIZE = Inr name \<and> k_copy_to_user K 0 (min buflen (length name)) = 0 \<longrightarrow>
       (\<exists>tr. proc_pid_readlink K True (proc_exe_link (Some (Some path))) buflen = (int (min buflen (length name)), take buflen name, tr)))"
proof (intro conjI impI)
  show "case proc_pid_readlink K allowed (proc_exe_link task) buflen of (r, out, tr) \<Rightarrow> balanced tr \<and> length out \<le> buflen"
  proof (cases "\<exists>path. task = Some (Some path)")
    case True
    then obtain path where t: "task = Some (Some path)" by blast
    obtain r out tr where d: "do_proc_readlink K path buflen = (r, out, tr)" by (cases "do_proc_readlink K path buflen")
    then have b: "length out \<le> buflen" "tr = [] \<or> tr = [Acq (Mem ''page''), Rel (Mem ''page'')]" using do_proc_readlink_bounds [of K path buflen] by auto
    then show ?thesis by (auto simp: proc_pid_readlink_def proc_exe_link_def t d path_refs_def balanced_def)
  qed (auto simp: proc_pid_readlink_def proc_exe_link_def balanced_def split: option.split)
  assume a: "k_kmalloc K ''readlink'' 4096 \<and> k_d_path K path PAGE_SIZE = Inr name \<and> k_copy_to_user K 0 (min buflen (length name)) = 0"
  have l: "(if length name > buflen then buflen else length name) = min buflen (length name)" by simp
  have c: "copied_out K 0 (take (min buflen (length name)) name) = take buflen name" using a by (subst copied_out_all) (auto simp: min_def split: if_splits)
  show "\<exists>tr. proc_pid_readlink K True (proc_exe_link (Some (Some path))) buflen = (int (min buflen (length name)), take buflen name, tr)"
    using a by (simp add: proc_pid_readlink_def proc_exe_link_def do_proc_readlink_def Let_def l c del: min_less_iff_conj)
qed

theorem exe_readlink_witness:
  "\<exists>tr. proc_pid_readlink (kenv0\<lparr>k_d_path := (\<lambda>_ _. Inr ''/bin/sh'')\<rparr>) True (proc_exe_link (Some (Some 1))) 4 = (4, ''/bin'', tr)"
  using exe_readlink [where K = "kenv0\<lparr>k_d_path := (\<lambda>_ _. Inr ''/bin/sh'')\<rparr>" and buflen = 4 and path = 1 and name = "''/bin/sh''"] by (simp add: kenv0_def)

end
