(* ===== verification/Spec2Isabelle.thy ===== *)
theory Spec2Isabelle imports ReadersWriters Advanced04 Backdoor03 Advanced03 Circular03 LinkedSync LinkedVariants SimpleSync BrokenModules Syscalls07 Zad2 Zad4 Zad6 Libraries ProcFs ProcSubtree ProcEntry SysctlTop VmHeaders VmMap ProcCmdline ProcTasks ProcPage ProcOom ProcLinks begin

text \<open>
  Verification library of the system-programming exercises under \<open>src/HamielecKarol\<close>.

  \<^bold>\<open>The program.\<close>  The repository is a set of small C programs and kernel modules, with two patched copies of the Linux
  directory \<open>fs/proc\<close>:

  \<^item> \<open>cw01/zad1\<close> to \<open>zad6\<close>: user programs in which POSIX threads share a library of books or a queue of characters;
  \<^item> \<open>cw03/modules\<close>, \<open>cw04/advanced\<close>, \<open>cw06/sync\<close>: character devices, most with an entry in \<open>/proc\<close>; those of \<open>cw06\<close>
    come in variants that differ in their locks;
  \<^item> \<open>cw04/debug\<close>, \<open>cw05/debug\<close>: modules with planted errors, and the same modules repaired;
  \<^item> \<open>cw04/debug/proc\<close>, \<open>cw05/proc\<close>: the kernel's \<open>fs/proc\<close> with planted errors and repaired; every module above that calls
    \<open>proc_create\<close> and \<open>remove_proc_entry\<close> runs on it;
  \<^item> \<open>cw07/syscalls\<close>, \<open>cw04/hello\<close>: system calls and a module that walk the process list and query a file system.

  \<^bold>\<open>Theories.\<close>  \<open>Prelude\<close> holds the C integer conversions, counting and printing; the others follow the code.

  Threads of \<open>cw01\<close>.  \<open>Threads\<close> is the shape all programs share: a \<open>main\<close> that creates and joins a fixed number of
  threads, and one step relation \<open>pstep\<close>; a program is a value of the record \<open>prog\<close> whose field holds one statement's effect.  The locale
  \<open>prog_inv\<close> lifts an invariant of the statements to all reachable states, \<open>prog_bounded\<close> adds a rank, from which every run is finite.
  Every program is a theory with its globals (\<open>_glob\<close>), its program points (\<open>_pc\<close>) and one function per thread (\<open>zad1_writer\<close>,
  ...): \<open>ReadersWriters\<close> (\<open>zad1.c\<close>), \<open>Zad2\<close>, \<open>Zad4\<close>, \<open>Zad6\<close>, \<open>Libraries\<close> (\<open>zad3.c\<close> and \<open>zad5.c\<close>, one model with the
  differences as arguments).  \<open>BoundedQueue\<close> is the queue of \<open>zad2.c\<close> and \<open>zad6.c\<close>, refined to a bounded list by the locale
  \<open>bounded_queue\<close>.  \<open>Zad2\<close> and \<open>Zad4\<close> contain the protocol of \<open>zad1.c\<close> and use its invariant again through a mapping of states.
  Shown: mutual exclusion, that no character is lost or read twice, alternation, bounds, which programs end, which get stuck and where.

  Modules.  \<open>KernelApi\<close> is what modules see of the kernel: the record \<open>kenv\<close> of its functions, an argument of every definition that calls
  them; a trace of the calls that acquire and release, checked by \<open>run_calls\<close>; the locale \<open>pos_reader\<close> for devices that serve a text
  from the file position on.  \<open>Backdoor03\<close>, \<open>Advanced03\<close>, \<open>Circular03\<close>, \<open>Advanced04\<close>, \<open>BrokenModules\<close> and \<open>Syscalls07\<close>
  have one definition per handler, named as in the file, that returns the C result with the new state, the bytes that reach the user and the trace;
  a crash is the left case \<open>fault\<close> of a sum.  \<open>LinkedBuffer\<close> holds the list device of \<open>cw06\<close> in all its variants,
  \<open>LinkedSync\<close> its concurrent writers, \<open>LinkedVariants\<close> loading and unloading it, \<open>SimpleSync\<close> the cyclic message device.
  Shown: what reads deliver and writes store, round trips, the equivalence of the ring buffer's loop with a byte-wise specification, that sessions from
  load to unload release what they acquire or on which path they do not, that writers under one lock are serialisable, in the variant that counts
  them after it has given the lock back up to that counter.

  \<open>fs/proc\<close>.  \<open>ProcFs\<close> and \<open>ProcFd\<close> hold the functions in which the two copies differ, in both versions, and all of \<open>fd.c\<close>.
  \<open>ProcEntry\<close> is the life of one entry in \<open>inode.c\<close>: any number of threads open, use and close it while one removes it.
  \<open>NameTree\<close> is the search tree of a directory, with the locale \<open>name_order\<close> for the two orders of names in use (\<open>proc_match\<close>,
  \<open>namecmp\<close>); \<open>ProcTree\<close> is \<open>generic.c\<close> over a store of entries, \<open>look\<close> being the abstract map from directories and names to
  entries that every operation is specified by; \<open>ProcRemove\<close> has what follows for sequences of operations, \<open>ProcSubtree\<close> the loop of
  \<open>remove_proc_subtree\<close>, which refines a recursive removal.
  \<open>Sysctl\<close> is the registration of tables in \<open>proc_sysctl.c\<close> over a store of headers, one definition per function; \<open>SysctlReg\<close> has its
  invariant \<open>sys_inv\<close> (\<open>nreg\<close> counts the headers below a directory and the references held) and \<open>grown\<close>, the chain of headers that a
  registration adds; \<open>SysctlPath\<close> goes along paths, \<open>SysctlTop\<close> has the properties of single tables and of hierarchies, with
  the two reasons for a crash, a name that is \<open>taken\<close> and a mount point on the path.
  \<open>ProcPids\<close> lists and looks up processes while they come and go and joins them with the tree in \<open>root.c\<close>, \<open>ProcTasks\<close> does so for the threads of a
  process, \<open>ProcCmdline\<close> reads its command line, a device whose text depends on where a read starts (the locale \<open>view_reader\<close>).
  \<open>ProcLinks\<close> has the links \<open>self\<close>, \<open>thread-self\<close> and \<open>exe\<close>, which lead to what \<open>ProcPids\<close> and \<open>ProcTasks\<close> find; \<open>ProcOom\<close> the files
  \<open>oom_adj\<close> and \<open>oom_score_adj\<close> with the change of all processes that share their memory; \<open>ProcPage\<close> is \<open>page.c\<close>, the arrays over all
  pages, with \<open>kpf_says\<close> as the specification of every bit of \<open>stable_page_flags\<close>.
  \<open>VmCore\<close> is reading the dump of a crashed kernel in \<open>vmcore.c\<close>, \<open>core_image\<close> being the file as one text; \<open>VmHeaders\<close> is how
  its headers are made from those that the crashed kernel left, for 64 and 32 bits, and which memory is lost when they are not in the expected order, \<open>VmMap\<close> mapping it: all that is mapped is what is read,
  and a mapping that is refused leaves what the call that refused had mapped.

  \<^bold>\<open>Groups of lemmas.\<close>  In the theories of threads: one lemma per thread that its statements keep the invariant, then the lifted facts.  In
  the theories of modules: the result of each handler on every path, then sessions.  In \<open>ProcTree\<close>: what each step does to the store
  (\<open>register_result\<close>, \<open>erase_result\<close>, \<open>unlink_result\<close>, \<open>put_result\<close>, each with the invariant \<open>tree_ok\<close> and its
  effect on \<open>look\<close>), from which the operations are put together.  Each theorem with assumptions is followed by an instance
  (\<open>_witness\<close>) on concrete values; the stores \<open>store0\<close>, \<open>store1\<close>, \<open>store2\<close> are made by the modelled operations themselves.

  \<^bold>\<open>Integers, bounds and fuel.\<close>  C integers are \<open>int\<close> or \<open>nat\<close> with the conversions \<open>s32\<close>, \<open>s64\<close>, \<open>u64\<close>, \<open>s8\<close> written where the
  code converts, and words where bits matter (modes, link counts, \<open>in_use\<close> with its \<open>BIAS\<close>); the platform is x86-64 with gcc.
  Loops are structural where they walk a list; \<open>xlate_proc_name\<close> has a measure.  With fuel, and a result \<open>NonTerminating\<close> when it runs
  out: \<open>circular_loop\<close> (the number of bytes is enough), the list loops of \<open>cw06\<close> (the number of bytes and nodes), \<open>environ_loop\<close> (the
  number of bytes), \<open>remove_subtree_loop\<close> (two rounds per entry), \<open>drop_sysctl_table\<close> (one per directory of the path, of which there are fewer than
  \<open>PATH_MAX\<close>), \<open>oldmem_loop\<close> (the number of bytes); \<open>cmdline_loop\<close> (the number of bytes),
  \<open>task_loop\<close> (the number of threads); the loops over notes and over processes have a measure; each bound is a hypothesis or a lemma of the theorem that the
  operation returns.  Runs of threads need no fuel; the bounds on their length are proved from a rank.

  \<^bold>\<open>Parameters.\<close>  Not under \<open>src/\<close> and therefore arguments with documented behaviour as hypotheses: the kernel functions that modules call
  (\<open>kenv\<close>), \<open>lib/rbtree.c\<close> (\<open>rb_lib\<close>), the \<open>ida\<close> and the allocators (\<open>create_env\<close>), \<open>access_remote_vm\<close>, the tables of processes and threads,
  \<open>find_ge_pid\<close> (\<open>pid_search\<close>),
  \<open>dir_emit_dots\<close> and \<open>dir_emit\<close>, the hash function of \<open>linux/hashtable.h\<close>, \<open>copy_oldmem_page\<close> (\<open>vm_env\<close>), the layout
  of the structs of \<open>linux/elf.h\<close> (\<open>vm_boot\<close>), \<open>remap_pfn_range\<close>, \<open>remap_vmalloc_range_partial\<close> and
  \<open>do_munmap\<close> (\<open>map_env\<close>), whether freed memory still holds what it held (\<open>intact\<close> in \<open>Syscalls07\<close>), what is known of
  pages and the numbers of their flags (\<open>page_ops\<close>), \<open>kstrtoint\<close> and \<open>simple_read_from_buffer\<close> (\<open>oom_env\<close>).

  \<^bold>\<open>Not modelled.\<close>  The rest of the two copies of \<open>fs/proc\<close> (\<open>array.c\<close>, \<open>task_mmu.c\<close>, \<open>kcore.c\<close>, the rest of \<open>base.c\<close>, loading and unloading in \<open>vmcore.c\<close>,
  the inodes of \<open>/proc/sys\<close> and the links between its sets, the files that print one table each) is unmodified Linux and rests on kernel structures that are not in the repository.
  Test programs under \<open>cw07\<close>, scripts, Makefiles and the generated \<open>.mod.c\<close> files have no logic of their own.  Output with \<open>printf\<close>
  and \<open>printk\<close>, and timing (\<open>sleep\<close>), are left out throughout; so is memory ordering: each statement on shared data is one step, but for
  the increments that no lock covers in \<open>LinkedSync\<close>, which are a load and a store.
\<close>

end
